(* ===== verification/Prelude.thy ===== *)
theory Prelude
  imports Main "HOL-Library.Word" "HOL-Library.AList"
begin

text \<open>
  Shared vocabulary of the development: how a C++ call can end (type \<open>outcome\<close>),
  the width of \<open>size_t\<close>, bytes and C strings, and the generic lemmas on lists,
  association lists and indices that several components use.
\<close>

section \<open>How a call can end\<close>

text \<open>
  A call of the program returns a value, throws (the message of the exception is kept),
  calls \<open>std::abort\<close>, has undefined behaviour (an access outside an object, a read of an
  uninitialised variable), or never ends. The last four are values of the model, so a theorem
  that a call returns says that none of them happens.
\<close>

datatype 'a outcome = Ret 'a | Throws string | Aborts | Undefined | Diverges

fun obind :: "'a outcome \<Rightarrow> ('a \<Rightarrow> 'b outcome) \<Rightarrow> 'b outcome" where
  "obind (Ret x) f = f x"
| "obind (Throws e) f = Throws e"
| "obind Aborts f = Aborts"
| "obind Undefined f = Undefined"
| "obind Diverges f = Diverges"

fun returns :: "'a outcome \<Rightarrow> bool" where
  "returns (Ret x) = True"
| "returns (Throws e) = False"
| "returns Aborts = False"
| "returns Undefined = False"
| "returns Diverges = False"

text \<open>A loop defined by \<open>partial_function (option)\<close> is \<open>None\<close> where it does not end.\<close>

definition of_loop :: "'a outcome option \<Rightarrow> 'a outcome" where
  "of_loop r = (case r of Some x \<Rightarrow> x | None \<Rightarrow> Diverges)"

lemma of_loop_simps [simp]: "of_loop (Some x) = x" "of_loop None = Diverges"
  by (simp_all add: of_loop_def)

named_theorems outcome_intro \<open>how a sequence of calls returns\<close>

lemma obind_eq_Ret_iff: "obind m f = Ret y \<longleftrightarrow> (\<exists>x. m = Ret x \<and> f x = Ret y)"
  by (cases m) auto

lemma obind_Ret_right [simp]: "obind m Ret = m"
  by (cases m) auto

lemma obind_assoc: "obind (obind m f) g = obind m (\<lambda>x. obind (f x) g)"
  by (cases m) auto

lemma obind_cong [fundef_cong]:
  "m = m' \<Longrightarrow> (\<And>x. m' = Ret x \<Longrightarrow> f x = f' x) \<Longrightarrow> obind m f = obind m' f'"
  by (cases m') auto

lemma returns_iff: "returns m \<longleftrightarrow> (\<exists>x. m = Ret x)"
  by (cases m) auto

lemma returnsI [outcome_intro]: "m = Ret x \<Longrightarrow> returns m"
  by simp

section \<open>Machine sizes, bytes and C strings\<close>

text \<open>
  A \<open>size_t\<close> is a natural number below \<open>2 ^ 64\<close>; incrementing and decrementing wrap
  around as the unsigned 64-bit type does.
\<close>

definition size_bound :: nat where
  "size_bound = 2 ^ 64"

definition size_inc :: "nat \<Rightarrow> nat" where
  "size_inc n = (n + 1) mod size_bound"

definition size_dec :: "nat \<Rightarrow> nat" where
  "size_dec n = (n + (size_bound - 1)) mod size_bound"

lemma size_inc_small [simp]: "n + 1 < size_bound \<Longrightarrow> size_inc n = Suc n"
  by (simp add: size_inc_def)

lemma size_dec_pos [simp]: "0 < n \<Longrightarrow> n < size_bound \<Longrightarrow> size_dec n = n - 1"
proof -
  assume "0 < n" "n < size_bound"
  then have "n + (size_bound - 1) = (n - 1) + size_bound" by linarith
  then have "size_dec n = ((n - 1) + size_bound) mod size_bound" by (simp only: size_dec_def)
  also have "\<dots> = n - 1" using \<open>n < size_bound\<close> by simp
  finally show ?thesis .
qed

lemma size_dec_zero: "size_dec 0 = size_bound - 1"
  by (simp add: size_dec_def size_bound_def)

type_synonym byte = "8 word"

lemma unat_bounds:
  "unat (b :: byte) < 256" "unat (w :: 32 word) < 4294967296" "unat (x :: 64 word) < 18446744073709551616"
  using unsigned_less [of b] unsigned_less [of w] unsigned_less [of x] by simp_all

definition bytes_of :: "string \<Rightarrow> byte list" where
  "bytes_of s = map of_char s"

text \<open>What a C string function reads of a byte sequence: everything before the first NUL.\<close>

definition c_str :: "byte list \<Rightarrow> byte list" where
  "c_str bs = takeWhile (\<lambda>b. b \<noteq> 0) bs"

lemma c_str_no_nul [simp]: "0 \<notin> set bs \<Longrightarrow> c_str bs = bs"
  unfolding c_str_def by (subst takeWhile_eq_all_conv) auto

lemma nul_notin_c_str: "0 \<notin> set (c_str bs)"
  by (auto simp: c_str_def dest: set_takeWhileD)

lemma c_str_idem [simp]: "c_str (c_str bs) = c_str bs"
  using nul_notin_c_str by simp

lemma length_bytes_of [simp]: "length (bytes_of s) = length s"
  by (simp add: bytes_of_def)

text \<open>A C++ string handed over as \<open>c_str()\<close> ends at its first NUL.\<close>

definition c_text :: "string \<Rightarrow> string" where
  "c_text s = takeWhile (\<lambda>c. c \<noteq> CHR 0x00) s"

section \<open>Numbers as text\<close>

text \<open>\<open>std::to_string\<close>, \<open>%d\<close> and \<open>%x\<close>: digits in base 10 or 16, without leading zeros.\<close>

definition digit_char :: "nat \<Rightarrow> char" where
  "digit_char d = ''0123456789abcdef'' ! d"

fun show_base :: "nat \<Rightarrow> nat \<Rightarrow> string" where
  "show_base b n = (if b < 2 \<or> n < b then [digit_char n] else show_base b (n div b) @ [digit_char (n mod b)])"

declare show_base.simps [simp del]

definition show_int :: "int \<Rightarrow> string" where
  "show_int i = (if i < 0 then ''-'' @ show_base 10 (nat (- i)) else show_base 10 (nat i))"

lemma show_base_nonempty [simp]: "show_base b n \<noteq> []"
  by (subst show_base.simps) simp

text \<open>Reading digits back.\<close>

definition char_digit :: "char \<Rightarrow> nat" where
  "char_digit c = (let n = of_char c :: nat in if n < 58 then n - 48 else n - 87)"

definition read_base :: "nat \<Rightarrow> string \<Rightarrow> nat" where
  "read_base b s = foldl (\<lambda>acc c. acc * b + char_digit c) 0 s"

lemma char_digit_digit_char: "d < 16 \<Longrightarrow> char_digit (digit_char d) = d"
proof -
  assume "d < 16"
  then have "d \<in> set [0..<16]" by simp
  then show ?thesis
    unfolding char_digit_def digit_char_def Let_def
    by (simp add: upt_rec) (elim disjE; simp)
qed

lemma read_show_base: "2 \<le> b \<Longrightarrow> b \<le> 16 \<Longrightarrow> read_base b (show_base b n) = n"
proof (induction b n rule: show_base.induct)
  case (1 b n)
  show ?case
  proof (cases "n < b")
    case True
    with 1 show ?thesis
      by (subst show_base.simps) (simp add: read_base_def char_digit_digit_char)
  next
    case False
    with 1 have "read_base b (show_base b (n div b)) = n div b" by simp
    moreover have "n mod b < b" using 1 by simp
    then have "char_digit (digit_char (n mod b)) = n mod b"
      using 1 by (intro char_digit_digit_char) linarith
    ultimately show ?thesis
      using False 1 by (subst show_base.simps) (simp add: read_base_def)
  qed
qed

section \<open>Lists and association lists\<close>

lemma nth_update_field:
  "f x = f (xs ! i) \<Longrightarrow> f (xs[i := x] ! j) = f (xs ! j)"
  by (cases "i = j"; cases "i < length xs") (auto simp: list_update_beyond)

lemma filter_id_iff: "filter P xs = xs \<longleftrightarrow> (\<forall>x\<in>set xs. P x)"
  by (induction xs) (auto, metis Suc_n_not_le_n length_Cons length_filter_le)

lemma take_filter_notin:
  "x \<notin> set (take n xs) \<Longrightarrow> m \<le> n \<Longrightarrow> take m (filter (\<lambda>y. y \<noteq> x) xs) = take m xs"
proof (induction xs arbitrary: n m)
  case Nil
  then show ?case by simp
next
  case (Cons y ys)
  show ?case
  proof (cases m)
    case 0
    then show ?thesis by simp
  next
    case (Suc k)
    with Cons.prems obtain n' where n: "n = Suc n'" and "k \<le> n'"
      by (cases n) auto
    with Cons.prems have "y \<noteq> x" and "x \<notin> set (take n' ys)" by auto
    with Cons.IH [OF _ \<open>k \<le> n'\<close>] Suc show ?thesis by simp
  qed
qed

lemma distinct_map_filter: "distinct (map f xs) \<Longrightarrow> distinct (map f (filter P xs))"
  by (induction xs) auto

text \<open>Removing by moving the last element into the place of the removed one.\<close>

definition swap_pop :: "nat \<Rightarrow> 'a list \<Rightarrow> 'a list" where
  "swap_pop i xs = butlast (xs[i := last xs])"

lemma length_swap_pop [simp]: "length (swap_pop i xs) = length xs - 1"
  by (simp add: swap_pop_def)

lemma map_swap_pop: "i < length xs \<Longrightarrow> map f (swap_pop i xs) = swap_pop i (map f xs)"
  by (cases "xs = []") (simp_all add: swap_pop_def map_butlast map_update last_map)

lemma swap_pop_nth: "j < length xs - 1 \<Longrightarrow> swap_pop i xs ! j = (if j = i then last xs else xs ! j)"
  by (auto simp: swap_pop_def nth_butlast)

lemma swap_pop_last: "xs \<noteq> [] \<Longrightarrow> swap_pop (length xs - 1) xs = butlast xs"
  by (simp add: swap_pop_def last_conv_nth)

lemma set_swap_pop:
  assumes "distinct xs" "i < length xs"
  shows "set (swap_pop i xs) = set xs - {xs ! i}" "distinct (swap_pop i xs)"
proof -
  have ne: "xs \<noteq> []" using assms(2) by auto
  have last: "last xs = xs ! (length xs - 1)" using ne by (rule last_conv_nth)
  have "swap_pop i xs ! j \<noteq> xs ! i" if "j < length xs - 1" for j
    using that assms ne by (auto simp: swap_pop_nth last nth_eq_iff_index_eq)
  then have "set (swap_pop i xs) \<subseteq> set xs - {xs ! i}"
  proof -
    have "swap_pop i xs ! j \<in> set xs" if "j < length xs - 1" for j
      using that last_in_set [OF ne] by (simp add: swap_pop_nth)
    with \<open>\<And>j. j < length xs - 1 \<Longrightarrow> swap_pop i xs ! j \<noteq> xs ! i\<close> show ?thesis
      by (fastforce simp: in_set_conv_nth [of _ "swap_pop i xs"])
  qed
  moreover have d: "distinct (swap_pop i xs)"
    using assms ne by (auto simp: distinct_conv_nth swap_pop_nth last)
  moreover have "card (set xs - {xs ! i}) \<le> card (set (swap_pop i xs))"
    using assms d by (simp add: distinct_card card_Diff_singleton)
  ultimately show "set (swap_pop i xs) = set xs - {xs ! i}" by (intro card_seteq) simp_all
  show "distinct (swap_pop i xs)" by (rule d)
qed

end
