(* ===== verification/LruCache.thy ===== *)
theory LruCache
  imports Prelude
begin

text \<open>
  \<open>LRU_Cache<Tkey, Tval>\<close> of \<open>core/5thdlru_cache.h\<close>. The \<open>std::list\<close> is a list of
  nodes, each with the identity an iterator holds; the \<open>std::unordered_map\<close> from keys to
  iterators is an association list with one entry per key. An operation through an iterator
  whose node is gone, and the decrement of \<open>end()\<close> of an empty list, are undefined
  behaviour.
\<close>

section \<open>State and operations\<close>

record ('k, 'v) lru_cache =
  cache_items_list :: "(nat \<times> 'k \<times> 'v) list"
  cache_items_map :: "('k \<times> nat) list"
  max_size :: "16 word"
  next_node :: nat

definition lru_new :: "16 word \<Rightarrow> ('k, 'v) lru_cache" where
  "lru_new n = \<lparr>cache_items_list = [], cache_items_map = [], max_size = n, next_node = 0\<rparr>"

definition list_erase :: "nat \<Rightarrow> (nat \<times> 'a) list \<Rightarrow> (nat \<times> 'a) list outcome" where
  "list_erase it xs =
     (if it \<in> fst ` set xs then Ret (filter (\<lambda>x. fst x \<noteq> it) xs) else Undefined)"

definition push_front :: "'k \<Rightarrow> 'v \<Rightarrow> ('k, 'v) lru_cache \<Rightarrow> ('k, 'v) lru_cache" where
  "push_front k v c =
     c\<lparr>cache_items_list := (next_node c, k, v) # cache_items_list c,
       cache_items_map := AList.update k (next_node c) (cache_items_map c),
       next_node := Suc (next_node c)\<rparr>"

text \<open>Removing the last node: \<open>--end()\<close>, erase its key from the map, \<open>pop_back\<close>.\<close>

definition evict_last :: "('k, 'v) lru_cache \<Rightarrow> ('k, 'v) lru_cache outcome" where
  "evict_last c =
     (if cache_items_list c = [] then Undefined
      else Ret (c\<lparr>cache_items_map := AList.delete (fst (snd (last (cache_items_list c)))) (cache_items_map c),
                  cache_items_list := butlast (cache_items_list c)\<rparr>))"

definition lru_push :: "'k \<Rightarrow> 'v \<Rightarrow> ('k, 'v) lru_cache \<Rightarrow> ('k, 'v) lru_cache outcome" where
  "lru_push key val c =
     (case map_of (cache_items_map c) key of
        Some it \<Rightarrow>
          obind (list_erase it (cache_items_list c))
            (\<lambda>items. Ret (push_front key val (c\<lparr>cache_items_list := items\<rparr>)))
      | None \<Rightarrow>
          obind (if length (cache_items_map c) \<ge> unat (max_size c) then evict_last c else Ret c)
            (\<lambda>c'. Ret (push_front key val c')))"

text \<open>
  \<open>get\<close> answers whether the key is there and the new content of the caller's variable. The
  accessed node moves to the front by \<open>splice\<close>, which keeps its identity.
\<close>

definition lru_get :: "'k \<Rightarrow> 'v \<Rightarrow> ('k, 'v) lru_cache \<Rightarrow> (bool \<times> 'v \<times> ('k, 'v) lru_cache) outcome" where
  "lru_get key val c =
     (case map_of (cache_items_map c) key of
        None \<Rightarrow> Ret (False, val, c)
      | Some it \<Rightarrow>
          (case filter (\<lambda>x. fst x = it) (cache_items_list c) of
             [] \<Rightarrow> Undefined
           | node # _ \<Rightarrow>
               Ret (True, snd (snd node),
                    c\<lparr>cache_items_list := node # filter (\<lambda>x. fst x \<noteq> it) (cache_items_list c)\<rparr>)))"

section \<open>Well-formedness\<close>

text \<open>
  Every key of the list is in the map, with its own node's identity, and the other way round;
  identities and keys do not repeat; at most \<open>max_size\<close> entries.
\<close>

definition entries :: "('k, 'v) lru_cache \<Rightarrow> ('k \<times> 'v) list" where
  "entries c = map snd (cache_items_list c)"

definition lru_ok :: "('k, 'v) lru_cache \<Rightarrow> bool" where
  "lru_ok c \<longleftrightarrow>
     distinct (map fst (cache_items_list c)) \<and>
     distinct (map fst (entries c)) \<and>
     distinct (map fst (cache_items_map c)) \<and>
     (\<forall>k it. map_of (cache_items_map c) k = Some it \<longleftrightarrow> (\<exists>v. (it, k, v) \<in> set (cache_items_list c))) \<and>
     (\<forall>x\<in>set (cache_items_list c). fst x < next_node c) \<and>
     0 < unat (max_size c) \<and> length (entries c) \<le> unat (max_size c)"

section \<open>Reference model\<close>

text \<open>The entries in order of their last use, the most recent first.\<close>

definition spec_push :: "nat \<Rightarrow> 'k \<Rightarrow> 'v \<Rightarrow> ('k \<times> 'v) list \<Rightarrow> ('k \<times> 'v) list" where
  "spec_push n k v es =
     (k, v) # (if k \<in> fst ` set es then filter (\<lambda>e. fst e \<noteq> k) es
               else if length es < n then es else butlast es)"

definition spec_touch :: "'k \<Rightarrow> ('k \<times> 'v) list \<Rightarrow> ('k \<times> 'v) list" where
  "spec_touch k es =
     (case map_of es k of None \<Rightarrow> es | Some v \<Rightarrow> (k, v) # filter (\<lambda>e. fst e \<noteq> k) es)"

lemma spec_push_bound:
  "length es \<le> n \<Longrightarrow> 0 < n \<Longrightarrow> length (spec_push n k v es) \<le> n"
proof -
  assume "length es \<le> n" "0 < n"
  moreover have "k \<in> fst ` set es \<Longrightarrow> length (filter (\<lambda>e. fst e \<noteq> k) es) < length es"
    by (auto intro: length_filter_less)
  ultimately show ?thesis by (fastforce simp: spec_push_def)
qed

lemma map_of_filter_neq: "k \<noteq> j \<Longrightarrow> map_of (filter (\<lambda>e. fst e \<noteq> j) es) k = map_of es k"
  by (induction es) auto

lemma map_of_spec_push_same [simp]: "map_of (spec_push n k v es) k = Some v"
  by (simp add: spec_push_def)

section \<open>The operations implement the reference model\<close>

lemma lru_ok_map_iff:
  "lru_ok c \<Longrightarrow> map_of (cache_items_map c) k = Some it \<longleftrightarrow> (\<exists>v. (it, k, v) \<in> set (cache_items_list c))"
  unfolding lru_ok_def by blast

lemma lru_ok_map_None:
  "lru_ok c \<Longrightarrow> map_of (cache_items_map c) k = None \<longleftrightarrow> k \<notin> fst ` set (entries c)"
proof -
  assume ok: "lru_ok c"
  have "k \<in> fst ` set (entries c) \<longleftrightarrow> (\<exists>it v. (it, k, v) \<in> set (cache_items_list c))"
    by (force simp: entries_def)
  then show ?thesis using lru_ok_map_iff [OF ok, of k] by (metis option.exhaust option.distinct(1))
qed

lemma lru_ok_new: "0 < unat n \<Longrightarrow> lru_ok (lru_new n)"
  by (simp add: lru_ok_def lru_new_def entries_def)

lemma entries_new [simp]: "entries (lru_new n) = []"
  by (simp add: entries_def lru_new_def)

lemma length_map_items: "lru_ok c \<Longrightarrow> length (cache_items_map c) = length (cache_items_list c)"
proof -
  assume ok: "lru_ok c"
  have d: "distinct (map fst (cache_items_map c))" "distinct (map fst (entries c))"
    using ok by (auto simp: lru_ok_def)
  have "fst ` set (cache_items_map c) = fst ` set (entries c)"
    using lru_ok_map_None [OF ok] by (metis (no_types, lifting) map_of_eq_None_iff subsetI subset_antisym)
  then have "card (set (map fst (cache_items_map c))) = card (set (map fst (entries c)))" by simp
  with d have "length (map fst (cache_items_map c)) = length (map fst (entries c))"
    by (metis distinct_card)
  then show ?thesis by (simp add: entries_def)
qed

lemma node_unique:
  "lru_ok c \<Longrightarrow> (it, k, v) \<in> set (cache_items_list c) \<Longrightarrow> x \<in> set (cache_items_list c) \<Longrightarrow>
   fst x = it \<longleftrightarrow> fst (snd x) = k"
  unfolding lru_ok_def entries_def distinct_map by (auto simp: inj_on_def) (metis snd_conv fst_conv)+

lemma filter_node:
  assumes "lru_ok c" "(it, k, v) \<in> set (cache_items_list c)"
  shows "map snd (filter (\<lambda>x. fst x \<noteq> it) (cache_items_list c)) = filter (\<lambda>e. fst e \<noteq> k) (entries c)"
proof -
  have "filter (\<lambda>x. fst x \<noteq> it) (cache_items_list c) = filter (\<lambda>x. fst (snd x) \<noteq> k) (cache_items_list c)"
    using node_unique [OF assms] by (intro filter_cong) auto
  then show ?thesis by (simp add: entries_def filter_map o_def)
qed


lemma push_front_ok:
  assumes "distinct (map fst (cache_items_list c))" "distinct (map fst (entries c))"
    "distinct (map fst (cache_items_map c))" "k \<notin> fst ` set (entries c)"
    "\<And>j it. j \<noteq> k \<Longrightarrow> map_of (cache_items_map c) j = Some it \<longleftrightarrow> (\<exists>v. (it, j, v) \<in> set (cache_items_list c))"
    "\<And>x. x \<in> set (cache_items_list c) \<Longrightarrow> fst x < next_node c"
    "length (entries c) < unat (max_size c)"
  shows "lru_ok (push_front k v c) \<and> entries (push_front k v c) = (k, v) # entries c \<and>
         max_size (push_front k v c) = max_size c"
proof -
  let ?d = "push_front k v c"
  have e: "entries ?d = (k, v) # entries c" by (simp add: entries_def push_front_def)
  have k: "\<not> (\<exists>it v. (it, k, v) \<in> set (cache_items_list c))"
    using assms(4) by (force simp: entries_def)
  have "map_of (cache_items_map ?d) j = Some it \<longleftrightarrow> (\<exists>v. (it, j, v) \<in> set (cache_items_list ?d))" for j it
    using assms(5) [of j it] assms(6) k by (cases "j = k") (auto simp: push_front_def update_conv')
  moreover have "distinct (map fst (cache_items_list ?d))"
    using assms(1) assms(6) by (fastforce simp: push_front_def)
  moreover have "distinct (map fst (cache_items_map ?d))"
    using assms(3) by (simp add: push_front_def distinct_update)
  moreover have "\<forall>x\<in>set (cache_items_list ?d). fst x < next_node ?d"
    using assms(6) by (fastforce simp: push_front_def)
  ultimately have "lru_ok ?d"
    using assms(2,4,7) by (auto simp: lru_ok_def e) (auto simp: push_front_def)
  then show ?thesis by (simp add: e) (simp add: push_front_def)
qed

lemma lru_push_present:
  assumes "lru_ok c" "map_of (cache_items_map c) k = Some it"
  shows "\<exists>c'. lru_push k v c = Ret c' \<and> lru_ok c' \<and> max_size c' = max_size c \<and>
           entries c' = (k, v) # filter (\<lambda>e. fst e \<noteq> k) (entries c)"
proof -
  obtain v0 where node: "(it, k, v0) \<in> set (cache_items_list c)"
    using assms lru_ok_map_iff by metis
  let ?items = "filter (\<lambda>x. fst x \<noteq> it) (cache_items_list c)"
  let ?c = "c\<lparr>cache_items_list := ?items\<rparr>"
  have e: "entries ?c = filter (\<lambda>e. fst e \<noteq> k) (entries c)"
    using filter_node [OF assms(1) node] by (simp add: entries_def)
  have "(it, k, v0) \<in> set (cache_items_list c) \<and> fst (it, k, v0) = it" using node by simp
  then have "k \<in> fst ` set (entries c)" using node by (force simp: entries_def)
  then have "length (entries ?c) < length (entries c)"
    unfolding e by (auto intro: length_filter_less)
  then have len: "length (entries ?c) < unat (max_size ?c)" using assms(1) by (simp add: lru_ok_def)
  have iff: "map_of (cache_items_map ?c) j = Some i \<longleftrightarrow> (\<exists>v. (i, j, v) \<in> set (cache_items_list ?c))"
    if "j \<noteq> k" for j i
    using lru_ok_map_iff [OF assms(1), of j i] node_unique [OF assms(1) node] that by fastforce
  have "lru_ok (push_front k v ?c) \<and> entries (push_front k v ?c) = (k, v) # entries ?c \<and>
        max_size (push_front k v ?c) = max_size ?c"
    using assms(1) iff len
    by (intro push_front_ok) (auto simp: lru_ok_def e intro: distinct_map_filter)
  moreover have "lru_push k v c = Ret (push_front k v ?c)"
    using assms(2) node by (force simp: lru_push_def list_erase_def)
  ultimately show ?thesis using e by auto
qed

lemma evict_last_ok:
  assumes "lru_ok c" "cache_items_list c \<noteq> []"
  shows "\<exists>c'. evict_last c = Ret c' \<and> lru_ok c' \<and> entries c' = butlast (entries c) \<and>
           max_size c' = max_size c \<and> length (cache_items_list c) = Suc (length (cache_items_list c'))"
proof -
  let ?l = "cache_items_list c"
  let ?k = "fst (snd (last ?l))"
  let ?c = "c\<lparr>cache_items_map := AList.delete ?k (cache_items_map c), cache_items_list := butlast ?l\<rparr>"
  have split: "?l = butlast ?l @ [last ?l]" using assms(2) by simp
  have last: "(fst (last ?l), ?k, snd (snd (last ?l))) \<in> set ?l"
    using assms(2) by simp
  have "distinct ?l" using assms(1) by (simp add: lru_ok_def distinct_map)
  then have d: "last ?l \<notin> set (butlast ?l)"
    by (subst (asm) split) (simp only: distinct_append, simp)
  have e: "entries ?c = butlast (entries c)" by (simp add: entries_def map_butlast)
  have "set ?l = set (butlast ?l) \<union> {last ?l}" by (subst split) simp
  with d have sub: "set (butlast ?l) = set ?l - {last ?l}" by auto
  have "inj_on fst (set ?l)" using assms(1) by (simp add: lru_ok_def distinct_map)
  then have uniq: "x \<in> set ?l \<Longrightarrow> fst (snd x) = ?k \<longleftrightarrow> x = last ?l" for x
    using node_unique [OF assms(1) last, of x] assms(2) by (metis inj_onD last_in_set)
  have iff: "map_of (cache_items_map ?c) j = Some i \<longleftrightarrow> (\<exists>v. (i, j, v) \<in> set (cache_items_list ?c))" for j i
  proof (cases "j = ?k")
    case True
    have "x \<notin> set (butlast ?l)" if "fst (snd x) = ?k" for x using that uniq [of x] sub by blast
    then have "\<not> (\<exists>v. (i, j, v) \<in> set (butlast ?l))" using True by fastforce
    then show ?thesis using True by (simp add: delete_conv')
  next
    case False
    then have "(i, j, v) \<noteq> last ?l" for v by (metis fst_conv snd_conv)
    then show ?thesis
      using False lru_ok_map_iff [OF assms(1), of j i] sub by (simp add: delete_conv')
  qed
  have "lru_ok ?c"
    unfolding lru_ok_def
  proof (intro conjI)
    show "distinct (map fst (cache_items_list ?c))" "distinct (map fst (entries ?c))"
      using assms(1) by (simp_all add: lru_ok_def e map_butlast distinct_butlast)
    show "distinct (map fst (cache_items_map ?c))"
      using assms(1) by (simp add: lru_ok_def distinct_delete)
    show "\<forall>k it. (map_of (cache_items_map ?c) k = Some it) = (\<exists>v. (it, k, v) \<in> set (cache_items_list ?c))"
      using iff by blast
    show "\<forall>x\<in>set (cache_items_list ?c). fst x < next_node ?c"
      using assms(1) sub by (simp add: lru_ok_def)
    have "length (entries c) \<le> unat (max_size c)" using assms(1) by (simp add: lru_ok_def)
    then show "length (entries ?c) \<le> unat (max_size ?c)" unfolding e by simp
    show "0 < unat (max_size ?c)" using assms(1) by (simp add: lru_ok_def)
  qed
  moreover have "evict_last c = Ret ?c" using assms(2) by (simp add: evict_last_def)
  moreover have "length ?l = Suc (length (butlast ?l))" using assms(2) by simp
  ultimately show ?thesis using e by simp
qed


lemma lru_push_refines:
  assumes "lru_ok c"
  shows "\<exists>c'. lru_push k v c = Ret c' \<and> lru_ok c' \<and> max_size c' = max_size c \<and>
           entries c' = spec_push (unat (max_size c)) k v (entries c)"
proof (cases "map_of (cache_items_map c) k")
  case (Some it)
  then have "k \<in> fst ` set (entries c)" using lru_ok_map_None [OF assms, of k] by auto
  then show ?thesis using lru_push_present [OF assms Some, of v] by (simp add: spec_push_def)
next
  case None
  then have k: "k \<notin> fst ` set (entries c)" using lru_ok_map_None [OF assms] by blast
  have len: "length (cache_items_map c) = length (entries c)"
    using length_map_items [OF assms] by (simp add: entries_def)
  have pos: "0 < unat (max_size c)" "length (entries c) \<le> unat (max_size c)"
    using assms by (simp_all add: lru_ok_def)
  have front: "lru_ok (push_front k v d) \<and> entries (push_front k v d) = (k, v) # entries d \<and>
      max_size (push_front k v d) = max_size d"
    if "lru_ok d" "k \<notin> fst ` set (entries d)" "length (entries d) < unat (max_size d)" for d
    using that lru_ok_map_iff [OF that(1)] by (intro push_front_ok) (auto simp: lru_ok_def)
  show ?thesis
  proof (cases "length (entries c) < unat (max_size c)")
    case True
    then show ?thesis
      using front [OF assms k] None k len by (auto simp: lru_push_def spec_push_def)
  next
    case False
    then have "cache_items_list c \<noteq> []" using pos by (auto simp: entries_def)
    from evict_last_ok [OF assms this] obtain d where d: "evict_last c = Ret d" "lru_ok d"
        "entries d = butlast (entries c)" "max_size d = max_size c"
        "length (cache_items_list c) = Suc (length (cache_items_list d))" by blast
    have "k \<notin> fst ` set (entries d)" using k d(3) in_set_butlastD by (metis (no_types) image_iff)
    moreover have "length (entries d) < unat (max_size d)"
      using d(4,5) pos by (simp add: entries_def)
    ultimately show ?thesis
      using front [OF d(2)] None k len False d by (auto simp: lru_push_def spec_push_def)
  qed
qed

lemma lru_get_refines:
  assumes "lru_ok c"
  shows "\<exists>c'. lru_get k v0 c =
             Ret (k \<in> fst ` set (entries c), (case map_of (entries c) k of Some v \<Rightarrow> v | None \<Rightarrow> v0), c') \<and>
           lru_ok c' \<and> max_size c' = max_size c \<and> entries c' = spec_touch k (entries c)"
proof (cases "map_of (cache_items_map c) k")
  case None
  then have "k \<notin> fst ` set (entries c)" using lru_ok_map_None [OF assms] by blast
  moreover from this have "map_of (entries c) k = None" by (simp add: map_of_eq_None_iff)
  ultimately show ?thesis using None assms by (simp add: lru_get_def spec_touch_def)
next
  case (Some it)
  let ?l = "cache_items_list c"
  obtain v where node: "(it, k, v) \<in> set ?l" using Some lru_ok_map_iff [OF assms] by blast
  have dk: "distinct (map fst ?l)" "distinct (map fst (entries c))" using assms by (simp_all add: lru_ok_def)
  have kv: "(k, v) \<in> set (entries c)" using node by (force simp: entries_def)
  then have m: "map_of (entries c) k = Some v" using dk(2) by (rule map_of_is_SomeI [rotated])
  have "(it, k, v) \<in> set (filter (\<lambda>x. fst x = it) ?l)" using node by simp
  then have "filter (\<lambda>x. fst x = it) ?l \<noteq> []" by (metis empty_iff empty_set)
  then obtain y ys where f: "filter (\<lambda>x. fst x = it) ?l = y # ys" by (meson neq_Nil_conv)
  then have "y \<in> set ?l \<and> fst y = it" using filter_eq_ConsD [OF f] by auto
  moreover have "inj_on fst (set ?l)" using dk(1) by (simp add: distinct_map)
  ultimately have y: "y = (it, k, v)" using node by (metis fst_conv inj_onD)
  let ?c = "c\<lparr>cache_items_list := (it, k, v) # filter (\<lambda>x. fst x \<noteq> it) ?l\<rparr>"
  have e: "entries ?c = (k, v) # filter (\<lambda>e. fst e \<noteq> k) (entries c)"
    using filter_node [OF assms node] by (simp add: entries_def)
  have "x \<in> set ?l \<Longrightarrow> fst x = it \<longleftrightarrow> x = (it, k, v)" for x
    using node \<open>inj_on fst (set ?l)\<close> by (metis fst_conv inj_onD)
  then have "set (filter (\<lambda>x. fst x \<noteq> it) ?l) = set ?l - {(it, k, v)}" by auto
  then have set: "set (cache_items_list ?c) = set ?l" using node by auto
  have "lru_ok ?c"
    unfolding lru_ok_def
  proof (intro conjI)
    show "distinct (map fst (cache_items_list ?c))"
      using dk(1) by (auto intro: distinct_map_filter)
    show "distinct (map fst (entries ?c))"
      using dk(2) by (auto simp: e intro: distinct_map_filter)
    show "distinct (map fst (cache_items_map ?c))" "0 < unat (max_size ?c)"
      using assms by (simp_all add: lru_ok_def)
    show "\<forall>k it. (map_of (cache_items_map ?c) k = Some it) = (\<exists>v. (it, k, v) \<in> set (cache_items_list ?c))"
      unfolding set using lru_ok_map_iff [OF assms] by simp
    show "\<forall>x\<in>set (cache_items_list ?c). fst x < next_node ?c"
      unfolding set using assms by (simp add: lru_ok_def)
    have "length (filter (\<lambda>e. fst e \<noteq> k) (entries c)) < length (entries c)"
      using kv by (intro length_filter_less) auto
    then show "length (entries ?c) \<le> unat (max_size ?c)" using assms unfolding e by (simp add: lru_ok_def)
  qed
  moreover have "k \<in> fst ` set (entries c)" using kv by force
  ultimately show ?thesis
    using Some f y m e by (simp add: lru_get_def spec_touch_def)
qed

section \<open>Sequences of operations: the entries are the most recently used ones\<close>

datatype ('k, 'v) cache_op = Push 'k 'v | Get 'k

fun lru_run :: "('k, 'v) cache_op list \<Rightarrow> 'v \<Rightarrow> ('k, 'v) lru_cache \<Rightarrow> ('k, 'v) lru_cache outcome" where
  "lru_run [] dflt c = Ret c"
| "lru_run (Push k v # ops) dflt c = obind (lru_push k v c) (lru_run ops dflt)"
| "lru_run (Get k # ops) dflt c = obind (lru_get k dflt c) (\<lambda>(hit, v, c'). lru_run ops dflt c')"

text \<open>
  The history of all uses, never truncated: each key once, with its latest value, the most
  recent first. A lookup is a use when the key is among the \<open>n\<close> most recent ones.
\<close>

definition use_key :: "'k \<Rightarrow> 'v \<Rightarrow> ('k \<times> 'v) list \<Rightarrow> ('k \<times> 'v) list" where
  "use_key k v h = (k, v) # filter (\<lambda>e. fst e \<noteq> k) h"

fun history :: "nat \<Rightarrow> ('k, 'v) cache_op list \<Rightarrow> ('k \<times> 'v) list \<Rightarrow> ('k \<times> 'v) list" where
  "history n [] h = h"
| "history n (Push k v # ops) h = history n ops (use_key k v h)"
| "history n (Get k # ops) h =
     history n ops (case map_of (take n h) k of None \<Rightarrow> h | Some v \<Rightarrow> use_key k v h)"

lemma distinct_use_key: "distinct (map fst h) \<Longrightarrow> distinct (map fst (use_key k v h))"
  by (auto simp: use_key_def intro: distinct_map_filter)

lemma take_filter_in:
  "distinct (map fst h) \<Longrightarrow> k \<in> fst ` set (take n h) \<Longrightarrow>
   filter (\<lambda>e. fst e \<noteq> k) (take n h) = take (n - 1) (filter (\<lambda>e. fst e \<noteq> k) h)"
proof (induction h arbitrary: n)
  case Nil
  then show ?case by simp
next
  case (Cons x h)
  then obtain m where n: "n = Suc m" by (cases n) auto
  show ?case
  proof (cases "fst x = k")
    case True
    then have "k \<notin> fst ` set h" using Cons.prems(1) by simp
    then have "filter (\<lambda>e. fst e \<noteq> k) h = h" "filter (\<lambda>e. fst e \<noteq> k) (take m h) = take m h"
      by (auto simp: filter_id_iff dest: in_set_takeD)
    with True n show ?thesis by simp
  next
    case False
    with Cons.prems n have k: "k \<in> fst ` set (take m h)" by auto
    then obtain m' where "m = Suc m'" by (cases m) auto
    with Cons.IH [of m] Cons.prems k False n show ?thesis by simp
  qed
qed

lemma take_filter_out:
  "k \<notin> fst ` set (take n h) \<Longrightarrow> m \<le> n \<Longrightarrow> take m (filter (\<lambda>e. fst e \<noteq> k) h) = take m h"
proof (induction h arbitrary: n m)
  case Nil
  then show ?case by simp
next
  case (Cons x h)
  show ?case
  proof (cases m)
    case 0
    then show ?thesis by simp
  next
    case (Suc m')
    with Cons.prems obtain n' where n: "n = Suc n'" "m' \<le> n'" by (cases n) auto
    with Cons.prems have "fst x \<noteq> k" "k \<notin> fst ` set (take n' h)" by auto
    with Cons.IH [OF _ n(2)] Suc show ?thesis by simp
  qed
qed

lemma spec_push_history:
  assumes "distinct (map fst h)" "0 < n"
  shows "spec_push n k v (take n h) = take n (use_key k v h)"
proof -
  obtain m where n: "n = Suc m" using assms(2) gr0_conv_Suc by blast
  show ?thesis
  proof (cases "k \<in> fst ` set (take n h)")
    case True
    then show ?thesis
      using take_filter_in [OF assms(1) True] n by (simp add: spec_push_def use_key_def)
  next
    case False
    have b: "\<not> length h < n \<Longrightarrow> butlast (take n h) = take m h" using n by (simp add: butlast_take)
    have "length h < n \<Longrightarrow> take m h = h" using n by simp
    with b False n take_filter_out [OF False, of m] show ?thesis
      by (auto simp: spec_push_def use_key_def)
  qed
qed

lemma spec_touch_history:
  assumes "distinct (map fst h)"
  shows "spec_touch k (take n h) =
         take n (case map_of (take n h) k of None \<Rightarrow> h | Some v \<Rightarrow> use_key k v h)"
proof (cases "map_of (take n h) k")
  case None
  then show ?thesis by (simp add: spec_touch_def)
next
  case (Some v)
  then have k: "k \<in> fst ` set (take n h)" by (metis domI dom_map_of_conv_image_fst)
  then obtain m where "n = Suc m" by (cases n) auto
  with Some take_filter_in [OF assms k] show ?thesis by (simp add: spec_touch_def use_key_def)
qed

lemma lru_run_history:
  assumes "lru_ok c" "entries c = take (unat (max_size c)) h" "distinct (map fst h)"
  shows "\<exists>c'. lru_run ops dflt c = Ret c' \<and> lru_ok c' \<and> max_size c' = max_size c \<and>
           entries c' = take (unat (max_size c)) (history (unat (max_size c)) ops h)"
  using assms
proof (induction ops arbitrary: c h)
  case Nil
  then show ?case by simp
next
  case (Cons op ops)
  let ?n = "unat (max_size c)"
  have pos: "0 < ?n" using Cons.prems(1) by (simp add: lru_ok_def)
  show ?case
  proof (cases op)
    case (Push k v)
    obtain c1 where c1: "lru_push k v c = Ret c1" "lru_ok c1" "max_size c1 = max_size c"
        "entries c1 = spec_push ?n k v (entries c)"
      using lru_push_refines [OF Cons.prems(1)] by blast
    then have "entries c1 = take (unat (max_size c1)) (use_key k v h)"
      using spec_push_history [OF Cons.prems(3) pos] Cons.prems(2) by simp
    from Cons.IH [OF c1(2) this distinct_use_key [OF Cons.prems(3)]] c1 Push show ?thesis by simp
  next
    case (Get k)
    let ?h = "case map_of (take ?n h) k of None \<Rightarrow> h | Some v \<Rightarrow> use_key k v h"
    obtain b v c1 where c1: "lru_get k dflt c = Ret (b, v, c1)" "lru_ok c1" "max_size c1 = max_size c"
        "entries c1 = spec_touch k (entries c)"
      using lru_get_refines [OF Cons.prems(1)] by blast
    then have "entries c1 = take (unat (max_size c1)) ?h"
      using spec_touch_history [OF Cons.prems(3)] Cons.prems(2) by simp
    moreover have "distinct (map fst ?h)"
      using Cons.prems(3) by (cases "map_of (take ?n h) k") (simp_all add: distinct_use_key)
    ultimately show ?thesis using Cons.IH [OF c1(2)] c1 Get by simp
  qed
qed


section \<open>The contract of a recency cache\<close>

locale recency_cache =
  fixes push :: "'k \<Rightarrow> 'v \<Rightarrow> 'c \<Rightarrow> 'c outcome"
    and get :: "'k \<Rightarrow> 'v \<Rightarrow> 'c \<Rightarrow> (bool \<times> 'v \<times> 'c) outcome"
    and ok :: "'c \<Rightarrow> bool"
    and view :: "'c \<Rightarrow> ('k \<times> 'v) list"
    and bound :: "'c \<Rightarrow> nat"
  assumes push_view: "ok c \<Longrightarrow> \<exists>c'. push k v c = Ret c' \<and> ok c' \<and> bound c' = bound c \<and>
      view c' = spec_push (bound c) k v (view c)"
    and get_view: "ok c \<Longrightarrow> \<exists>c'. get k v0 c =
        Ret (k \<in> fst ` set (view c), (case map_of (view c) k of Some v \<Rightarrow> v | None \<Rightarrow> v0), c') \<and>
      ok c' \<and> bound c' = bound c \<and> view c' = spec_touch k (view c)"
    and view_distinct: "ok c \<Longrightarrow> distinct (map fst (view c))"
    and view_bound: "ok c \<Longrightarrow> length (view c) \<le> bound c"

text \<open>Storing several pairs one after the other.\<close>

fun push_all :: "('k \<Rightarrow> 'v \<Rightarrow> 'c \<Rightarrow> 'c outcome) \<Rightarrow> ('k \<times> 'v) list \<Rightarrow> 'c \<Rightarrow> 'c outcome" where
  "push_all push [] c = Ret c"
| "push_all push ((k, v) # kvs) c = obind (push k v c) (push_all push kvs)"

context recency_cache
begin

lemma hit:
  assumes "ok c" "(k, v) \<in> set (view c)"
  shows "\<exists>c'. get k v0 c = Ret (True, v, c') \<and> ok c'"
proof -
  have "map_of (view c) k = Some v" using view_distinct [OF assms(1)] assms(2) by (rule map_of_is_SomeI)
  moreover have "k \<in> fst ` set (view c)" using assms(2) by force
  ultimately show ?thesis using get_view [OF assms(1), of k v0] by auto
qed

lemma push_shift:
  assumes "ok c" "(k, v) \<in> set (take m (view c))" "m < bound c" "j \<noteq> k"
  shows "(k, v) \<in> set (take (Suc m) (spec_push (bound c) j w (view c)))"
proof -
  let ?es = "view c" and ?n = "bound c"
  have filt: "(k, v) \<in> set (take m es) \<Longrightarrow> (k, v) \<in> set (take m (filter (\<lambda>e. fst e \<noteq> j) es))" for es
    using assms(4)
  proof (induction es arbitrary: m)
    case Nil
    then show ?case by simp
  next
    case (Cons x es)
    then obtain m' where "m = Suc m'" by (cases m) auto
    moreover have "set (take m' xs) \<subseteq> set (take (Suc m') xs)" for xs :: "('a \<times> 'b) list"
      by (rule set_take_subset_set_take) simp
    ultimately show ?case using Cons.IH [of m'] Cons.prems by (cases "fst x = j") auto
  qed
  have "\<not> length ?es < ?n \<Longrightarrow> take m (butlast ?es) = take m ?es"
    using assms(3) by (simp add: take_butlast)
  with assms filt [of ?es] show ?thesis by (auto simp: spec_push_def)
qed

lemma survives:
  "ok c \<Longrightarrow> (k, v) \<in> set (take m (view c)) \<Longrightarrow> k \<notin> fst ` set kvs \<Longrightarrow> m + length kvs \<le> bound c \<Longrightarrow>
   \<exists>c'. push_all push kvs c = Ret c' \<and> ok c' \<and> (k, v) \<in> set (view c')"
proof (induction kvs arbitrary: c m)
  case Nil
  then show ?case by (auto dest: in_set_takeD)
next
  case (Cons x kvs)
  obtain j w where x: "x = (j, w)" by (cases x)
  obtain c1 where c1: "push j w c = Ret c1" "ok c1" "bound c1 = bound c"
      "view c1 = spec_push (bound c) j w (view c)"
    using push_view [OF Cons.prems(1)] by blast
  have "(k, v) \<in> set (take (Suc m) (view c1))"
    unfolding c1(4) using Cons.prems x by (intro push_shift) auto
  from Cons.IH [OF c1(2) this] Cons.prems c1 x show ?case by simp
qed

lemma working_set:
  assumes "ok c" "k \<notin> fst ` set kvs" "length kvs < bound c"
  shows "\<exists>c'. push_all push ((k, v) # kvs) c = Ret c' \<and> ok c' \<and> (\<exists>c''. get k v0 c' = Ret (True, v, c''))"
proof -
  obtain c1 where c1: "push k v c = Ret c1" "ok c1" "bound c1 = bound c"
      "view c1 = spec_push (bound c) k v (view c)"
    using push_view [OF assms(1)] by blast
  have "(k, v) \<in> set (take 1 (view c1))" by (simp add: c1(4) spec_push_def)
  from survives [OF c1(2) this assms(2)] assms(3) c1 obtain c' where
    "push_all push kvs c1 = Ret c'" "ok c'" "(k, v) \<in> set (view c')" by auto
  with hit [of c' k v v0] c1(1) show ?thesis by auto
qed

end

interpretation lru: recency_cache lru_push lru_get lru_ok entries "\<lambda>c. unat (max_size c)"
proof (unfold_locales, goal_cases)
  case (1 c k v)
  then show ?case using lru_push_refines [of c k v] by (auto simp: conj_commute)
next
  case (2 c k v0)
  then show ?case using lru_get_refines [of c k v0] by (auto simp: conj_commute)
next
  case (3 c)
  then show ?case by (simp add: lru_ok_def)
next
  case (4 c)
  then show ?case by (simp add: lru_ok_def)
qed

section \<open>Properties\<close>

text \<open>
  C13. A cache of positive capacity \<open>n\<close> never fails: any sequence of \<open>push\<close> and \<open>get\<close> on a
  new cache returns, and the entries are then exactly the \<open>n\<close> most recently used keys of the
  whole history, each with the value stored last, in order of use. So the least recently used
  key is the one evicted, and the capacity is never exceeded.
\<close>

theorem lru_keeps_most_recent:
  assumes "0 < unat n"
  shows "\<exists>c. lru_run ops dflt (lru_new n) = Ret c \<and> lru_ok c \<and>
             entries c = take (unat n) (history (unat n) ops []) \<and> length (entries c) \<le> unat n"
proof -
  have "max_size (lru_new n) = n" by (simp add: lru_new_def)
  then show ?thesis
    using lru_run_history [of "lru_new n" "[]" ops dflt] lru_ok_new [OF assms]
    by (metis entries_new length_take list.simps(8) distinct.simps(1) min.cobounded2 take_Nil)
qed

theorem lru_keeps_most_recent_witness:
  "\<exists>c. lru_run [Push (1::nat) ''a'', Push 2 ''b'', Get 1, Push 3 ''c''] [] (lru_new 2) = Ret c \<and>
       entries c = [(3, ''c''), (1, ''a'')]"
proof -
  have "0 < unat (2 :: 16 word)" by simp
  from lru_keeps_most_recent [OF this, of "[Push (1::nat) ''a'', Push 2 ''b'', Get 1, Push 3 ''c'']" "[]"]
  moreover have "unat (2 :: 16 word) = 2" by simp
  ultimately show ?thesis by (auto simp: use_key_def)
qed

text \<open>
  Working set: a pair stored in a well-formed cache is found again, with its value, as long
  as fewer than \<open>max_size\<close> other pairs are stored after it.
\<close>

theorem lru_working_set:
  assumes "lru_ok c" "k \<notin> fst ` set kvs" "length kvs < unat (max_size c)"
  shows "\<exists>c'. push_all lru_push ((k, v) # kvs) c = Ret c' \<and> lru_ok c' \<and>
              (\<exists>c''. lru_get k v0 c' = Ret (True, v, c''))"
  using assms by (rule lru.working_set)

theorem lru_working_set_witness:
  "\<exists>c'. push_all lru_push [(1::nat, ''a''), (2, ''b'')] (lru_new 2) = Ret c' \<and> lru_ok c' \<and>
        (\<exists>c''. lru_get 1 [] c' = Ret (True, ''a'', c''))"
proof -
  have "lru_ok (lru_new 2 :: (nat, string) lru_cache)" by (rule lru_ok_new) simp
  from lru_working_set [OF this, of 1 "[(2, ''b'')]" "''a''" "[]"] show ?thesis
    by (simp add: lru_new_def)
qed

text \<open>
  One \<open>push\<close> and one \<open>get\<close> refine the reference model on a list ordered by last use: a
  present key is replaced and moved to the front, an absent one evicts the last entry exactly
  when the cache is full; a hit answers the stored value and moves the entry to the front, a
  miss leaves the caller's variable and the cache's entries as they were.
\<close>

theorem lru_ops_refine:
  assumes "lru_ok c"
  shows "(\<exists>c'. lru_push k v c = Ret c' \<and> lru_ok c' \<and> entries c' = spec_push (unat (max_size c)) k v (entries c)) \<and>
         (\<exists>c'. lru_get k v0 c =
                 Ret (k \<in> fst ` set (entries c),
                      (case map_of (entries c) k of Some v \<Rightarrow> v | None \<Rightarrow> v0), c') \<and>
               lru_ok c' \<and> entries c' = spec_touch k (entries c))"
  using lru_push_refines [OF assms, of k v] lru_get_refines [OF assms, of k v0] by blast

theorem lru_ops_refine_witness:
  "\<exists>c'. lru_push (1::nat) ''a'' (lru_new 1) = Ret c' \<and> entries c' = [(1, ''a'')]"
proof -
  have "lru_ok (lru_new 1 :: (nat, string) lru_cache)" by (rule lru_ok_new) simp
  from lru_ops_refine [OF this, of 1 "''a''" "[]"] show ?thesis by (auto simp: spec_push_def)
qed

text \<open>
  A cache constructed with capacity 0 cannot store anything: the first \<open>push\<close> decrements
  the end iterator of the empty list, which is undefined behaviour.
\<close>

theorem lru_zero_capacity:
  "lru_push k v (lru_new 0) = Undefined"
  by (simp add: lru_push_def lru_new_def evict_last_def)

end
