(* ===== verification/ThreadPool.thy ===== *)
theory ThreadPool
  imports Prelude "HOL-Library.Multiset"
begin

text \<open>
  \<open>ThreadPool\<close> of \<open>core/thread_pool.h\<close> and \<open>core/thread_pool.cpp\<close> as a step relation. A
  step is one critical section under \<open>queueMutex\<close>, one notification, or the end of a task;
  which thread moves is not determined. A worker is about to evaluate the predicate of
  \<open>condition.wait\<close> with the lock held (\<open>Waking\<close>), asleep in the wait (\<open>Blocked\<close>), running
  a task outside the lock, or has returned. An enqueuing thread notifies after it has left the
  critical section, so a pushed task and its pending \<open>notify_one\<close> are separate steps; so are
  setting \<open>stop\<close> and \<open>notify_all\<close> in the destructor. Spurious wake-ups are allowed. Tasks
  return (one that throws ends the process).
\<close>

section \<open>State and steps\<close>

datatype 't worker = Waking | Blocked | Running 't | Exited

text \<open>
  \<open>signals\<close> counts the \<open>notify_one\<close> calls still to come, \<open>broadcast\<close> says that
  \<open>notify_all\<close> is still to come. \<open>submitted\<close>, \<open>started\<close> and \<open>finished\<close> are logs for the
  statements; no step reads them.
\<close>

record 't thread_pool =
  workers :: "'t worker list"
  tasks :: "'t list"
  stop :: bool
  signals :: nat
  broadcast :: bool
  submitted :: "'t list"
  started :: "'t list"
  finished :: "'t list"

definition pool_new :: "nat \<Rightarrow> 't thread_pool" where
  "pool_new numThreads =
     \<lparr>workers = replicate numThreads Waking, tasks = [], stop = False, signals = 0,
      broadcast = False, submitted = [], started = [], finished = []\<rparr>"

text \<open>\<open>enqueue\<close> up to the end of its critical section, and its \<open>notify_one\<close>.\<close>

definition enqueue :: "'t \<Rightarrow> 't thread_pool \<Rightarrow> 't thread_pool" where
  "enqueue t p = p\<lparr>tasks := tasks p @ [t], signals := Suc (signals p), submitted := submitted p @ [t]\<rparr>"

definition set_worker :: "nat \<Rightarrow> 't worker \<Rightarrow> 't thread_pool \<Rightarrow> 't thread_pool" where
  "set_worker i w p = p\<lparr>workers := (workers p)[i := w]\<rparr>"

text \<open>
  A worker with the lock: \<open>condition.wait\<close> with its predicate, the exit test, and taking the
  front task.
\<close>

definition worker_locked :: "nat \<Rightarrow> 't thread_pool \<Rightarrow> 't thread_pool" where
  "worker_locked i p =
     (if \<not> (stop p \<or> tasks p \<noteq> []) then set_worker i Blocked p
      else if stop p \<and> tasks p = [] then set_worker i Exited p
      else set_worker i (Running (hd (tasks p))) (p\<lparr>tasks := tl (tasks p), started := started p @ [hd (tasks p)]\<rparr>))"

definition worker_done :: "nat \<Rightarrow> 't \<Rightarrow> 't thread_pool \<Rightarrow> 't thread_pool" where
  "worker_done i t p = set_worker i Waking (p\<lparr>finished := finished p @ [t]\<rparr>)"

definition destroy :: "'t thread_pool \<Rightarrow> 't thread_pool" where
  "destroy p = p\<lparr>stop := True, broadcast := True\<rparr>"

definition notify_all :: "'t thread_pool \<Rightarrow> 't thread_pool" where
  "notify_all p =
     p\<lparr>broadcast := False,
       workers := map (\<lambda>w. case w of Blocked \<Rightarrow> Waking | _ \<Rightarrow> w) (workers p)\<rparr>"

text \<open>Steps of the workers and of pending notifications.\<close>

inductive run_step :: "'t thread_pool \<Rightarrow> 't thread_pool \<Rightarrow> bool" where
  locked: "i < length (workers p) \<Longrightarrow> workers p ! i = Waking \<Longrightarrow> run_step p (worker_locked i p)"
| task_done: "i < length (workers p) \<Longrightarrow> workers p ! i = Running t \<Longrightarrow> run_step p (worker_done i t p)"
| spurious: "i < length (workers p) \<Longrightarrow> workers p ! i = Blocked \<Longrightarrow> run_step p (set_worker i Waking p)"
| notify_wakes: "signals p = Suc n \<Longrightarrow> i < length (workers p) \<Longrightarrow> workers p ! i = Blocked \<Longrightarrow>
    run_step p (set_worker i Waking (p\<lparr>signals := n\<rparr>))"
| notify_nobody: "signals p = Suc n \<Longrightarrow> Blocked \<notin> set (workers p) \<Longrightarrow> run_step p (p\<lparr>signals := n\<rparr>)"
| notify_everyone: "broadcast p \<Longrightarrow> run_step p (notify_all p)"

inductive pool_step :: "'t thread_pool \<Rightarrow> 't thread_pool \<Rightarrow> bool" where
  run: "run_step p q \<Longrightarrow> pool_step p q"
| submit: "pool_step p (enqueue t p)"
| shutdown: "\<not> stop p \<Longrightarrow> pool_step p (destroy p)"

inductive pool_reachable :: "nat \<Rightarrow> 't thread_pool \<Rightarrow> bool" for n where
  new: "pool_reachable n (pool_new n)"
| next_step: "pool_reachable n p \<Longrightarrow> pool_step p q \<Longrightarrow> pool_reachable n q"


section \<open>Counting workers\<close>

fun running_task :: "'t worker \<Rightarrow> 't multiset" where
  "running_task (Running t) = {#t#}"
| "running_task _ = {#}"

definition running :: "'t thread_pool \<Rightarrow> 't multiset" where
  "running p = sum_list (map running_task (workers p))"

definition n_waking :: "'t thread_pool \<Rightarrow> nat" where
  "n_waking p = length (filter (\<lambda>w. w = Waking) (workers p))"

lemma sum_list_update:
  fixes f :: "'a \<Rightarrow> 'b :: comm_monoid_add"
  shows "i < length xs \<Longrightarrow> sum_list (map f (xs[i := x])) + f (xs ! i) = sum_list (map f xs) + f x"
proof (induction xs arbitrary: i)
  case Nil
  then show ?case by simp
next
  case (Cons y ys)
  show ?case
  proof (cases i)
    case 0
    then show ?thesis by (simp add: ac_simps)
  next
    case (Suc j)
    with Cons have "sum_list (map f (ys[j := x])) + f (ys ! j) = sum_list (map f ys) + f x" by simp
    then show ?thesis using Suc by (simp add: add.assoc)
  qed
qed

lemma length_filter_sum: "length (filter P xs) = sum_list (map (\<lambda>x. if P x then 1 else 0 :: nat) xs)"
  by (induction xs) auto

lemma running_set_worker:
  "i < length (workers p) \<Longrightarrow>
   running (set_worker i w p) + running_task (workers p ! i) = running p + running_task w"
  by (simp add: running_def set_worker_def sum_list_update)

lemma n_waking_set_worker:
  "i < length (workers p) \<Longrightarrow>
   n_waking (set_worker i w p) + (if workers p ! i = Waking then 1 else 0) =
   n_waking p + (if w = Waking then 1 else 0)"
  using sum_list_update [of i "workers p" "\<lambda>w. if w = Waking then 1 else 0 :: nat" w]
  by (simp add: n_waking_def set_worker_def length_filter_sum)

lemma n_waking_pos: "w \<in> set (workers p) \<Longrightarrow> w = Waking \<Longrightarrow> 0 < n_waking p"
  by (auto simp: n_waking_def filter_empty_conv length_greater_0_conv simp del: length_0_conv)

section \<open>The invariant\<close>

text \<open>
  The logs agree; a worker has returned only after \<open>stop\<close>; after \<open>stop\<close> a worker sleeps
  only while \<open>notify_all\<close> is still to come; before \<open>stop\<close>, while some worker sleeps, every
  queued task is matched by a pending notification or a worker on its way to the queue.
\<close>

definition logs_ok :: "'t thread_pool \<Rightarrow> bool" where
  "logs_ok p \<longleftrightarrow> submitted p = started p @ tasks p \<and> mset (started p) = mset (finished p) + running p"

definition wakeups_ok :: "'t thread_pool \<Rightarrow> bool" where
  "wakeups_ok p \<longleftrightarrow>
     (Exited \<in> set (workers p) \<longrightarrow> stop p) \<and>
     (broadcast p \<longrightarrow> stop p) \<and>
     (stop p \<and> Blocked \<in> set (workers p) \<longrightarrow> broadcast p) \<and>
     (\<not> stop p \<and> Blocked \<in> set (workers p) \<longrightarrow> length (tasks p) \<le> signals p + n_waking p)"

lemma set_worker_simps [simp]:
  "tasks (set_worker i w p) = tasks p" "stop (set_worker i w p) = stop p"
  "signals (set_worker i w p) = signals p" "broadcast (set_worker i w p) = broadcast p"
  "submitted (set_worker i w p) = submitted p" "started (set_worker i w p) = started p"
  "finished (set_worker i w p) = finished p" "length (workers (set_worker i w p)) = length (workers p)"
  by (simp_all add: set_worker_def)

lemma workers_set_worker:
  "i < length (workers p) \<Longrightarrow> x \<in> set (workers (set_worker i w p)) \<Longrightarrow> x = w \<or> x \<in> set (workers p)"
  using set_update_subset_insert [of "workers p" i w] by (auto simp: set_worker_def)

lemma counts_cong [simp]:
  "running (p\<lparr>signals := n\<rparr>) = running p" "n_waking (p\<lparr>signals := n\<rparr>) = n_waking p"
  "running (p\<lparr>finished := f\<rparr>) = running p" "n_waking (p\<lparr>finished := f\<rparr>) = n_waking p"
  "running (p\<lparr>tasks := t, started := s\<rparr>) = running p" "n_waking (p\<lparr>tasks := t, started := s\<rparr>) = n_waking p"
  by (simp_all add: running_def n_waking_def)

lemma logs_ok_run_step: "run_step p q \<Longrightarrow> logs_ok p \<Longrightarrow> logs_ok q"
proof (induction rule: run_step.induct)
  case (locked i p)
  then have "running (set_worker i w r) = running r + running_task w"
    if "workers r = workers p" for w and r
    using running_set_worker [of i r w] that by simp
  with locked show ?case
    by (cases "tasks p") (auto simp: worker_locked_def logs_ok_def)
next
  case (task_done i p t)
  then show ?case
    using running_set_worker [of i "p\<lparr>finished := finished p @ [t]\<rparr>" Waking]
    by (auto simp: worker_done_def logs_ok_def)
next
  case (spurious i p)
  then show ?case using running_set_worker [of i p Waking] by (auto simp: logs_ok_def)
next
  case (notify_wakes p n i)
  then show ?case
    using running_set_worker [of i "p\<lparr>signals := n\<rparr>" Waking] by (auto simp: logs_ok_def)
next
  case (notify_nobody p n)
  then show ?case by (simp add: logs_ok_def)
next
  case (notify_everyone p)
  have "running_task (case w of Blocked \<Rightarrow> Waking | _ \<Rightarrow> w) = running_task w" for w :: "'a worker"
    by (cases w) auto
  then have "running (notify_all p) = running p"
    by (simp add: running_def notify_all_def o_def cong: map_cong)
  with notify_everyone show ?case by (simp add: logs_ok_def notify_all_def)
qed

lemma wakeups_ok_set_worker_Waking:
  assumes "wakeups_ok p" "i < length (workers p)" "workers p ! i \<noteq> Waking"
  shows "wakeups_ok (set_worker i Waking p)"
    and "signals p = Suc n \<Longrightarrow> wakeups_ok (set_worker i Waking (p\<lparr>signals := n\<rparr>))"
proof -
  have n: "n_waking (set_worker i Waking p) = Suc (n_waking p)"
    using n_waking_set_worker [OF assms(2), of Waking] assms(3) by simp
  have m: "n_waking (set_worker i Waking (p\<lparr>signals := n\<rparr>)) = Suc (n_waking p)"
    using n_waking_set_worker [of i "p\<lparr>signals := n\<rparr>" Waking] assms(2,3) by simp
  have w: "x \<in> set (workers (set_worker i Waking p)) \<Longrightarrow> x \<noteq> Waking \<Longrightarrow> x \<in> set (workers p)" for x
    using workers_set_worker [OF assms(2)] by blast
  have v: "x \<in> set (workers (set_worker i Waking (p\<lparr>signals := n\<rparr>))) \<Longrightarrow> x \<noteq> Waking \<Longrightarrow> x \<in> set (workers p)" for x
    using workers_set_worker [of i "p\<lparr>signals := n\<rparr>"] assms(2) by auto
  show "wakeups_ok (set_worker i Waking p)"
    using assms(1) n w [of Blocked] w [of Exited] by (auto simp: wakeups_ok_def)
  show "signals p = Suc n \<Longrightarrow> wakeups_ok (set_worker i Waking (p\<lparr>signals := n\<rparr>))"
    using assms(1) m v [of Blocked] v [of Exited] by (auto simp: wakeups_ok_def)
qed


lemma wakeups_ok_locked:
  assumes "wakeups_ok p" "i < length (workers p)" "workers p ! i = Waking"
  shows "wakeups_ok (worker_locked i p)"
proof -
  have n: "Suc (n_waking (set_worker i w r)) = n_waking r"
    if "workers r = workers p" "w \<noteq> Waking" for w r
    using n_waking_set_worker [of i r w] assms(2,3) that by simp
  have w: "x \<in> set (workers (set_worker i w r)) \<Longrightarrow> x \<noteq> w \<Longrightarrow> x \<in> set (workers p)"
    if "workers r = workers p" for x w r
    using workers_set_worker [of i r x w] assms(2) that by auto
  consider (sleep) "\<not> stop p" "tasks p = []" | (exit) "stop p" "tasks p = []"
    | (take) t ts where "tasks p = t # ts" by (cases "tasks p") auto
  then show ?thesis
  proof cases
    case sleep
    then show ?thesis
      using assms(1) w [of p Exited Blocked]
      by (auto simp: worker_locked_def wakeups_ok_def)
  next
    case exit
    then show ?thesis
      using assms(1) w [of p Blocked Exited] by (auto simp: worker_locked_def wakeups_ok_def)
  next
    case take
    let ?r = "p\<lparr>tasks := ts, started := started p @ [t]\<rparr>"
    have "worker_locked i p = set_worker i (Running t) ?r" using take by (simp add: worker_locked_def)
    then show ?thesis
      using assms(1) take n [of ?r "Running t"] w [of ?r Exited "Running t"] w [of ?r Blocked "Running t"]
      by (auto simp: wakeups_ok_def)
  qed
qed

lemma wakeups_ok_run_step: "run_step p q \<Longrightarrow> wakeups_ok p \<Longrightarrow> wakeups_ok q"
proof (induction rule: run_step.induct)
  case (locked i p)
  then show ?case using wakeups_ok_locked by blast
next
  case (task_done i p t)
  have "wakeups_ok (p\<lparr>finished := finished p @ [t]\<rparr>)"
    using task_done.prems by (simp add: wakeups_ok_def)
  then show ?case
    using wakeups_ok_set_worker_Waking(1) [of "p\<lparr>finished := finished p @ [t]\<rparr>" i] task_done.hyps
    by (simp add: worker_done_def)
next
  case (spurious i p)
  then show ?case using wakeups_ok_set_worker_Waking(1) by fastforce
next
  case (notify_wakes p n i)
  then show ?case using wakeups_ok_set_worker_Waking(2) by fastforce
next
  case (notify_nobody p n)
  then show ?case by (simp add: wakeups_ok_def)
next
  case (notify_everyone p)
  have "Blocked \<notin> set (workers (notify_all p))" and
    "Exited \<in> set (workers (notify_all p)) \<Longrightarrow> Exited \<in> set (workers p)"
    by (auto simp: notify_all_def split: worker.splits)
  with notify_everyone show ?case by (auto simp: wakeups_ok_def) (simp_all add: notify_all_def)
qed

lemma pool_inv_step:
  "pool_step p q \<Longrightarrow> logs_ok p \<and> wakeups_ok p \<Longrightarrow> logs_ok q \<and> wakeups_ok q"
proof (induction rule: pool_step.induct)
  case (run p q)
  then show ?case using logs_ok_run_step wakeups_ok_run_step by blast
next
  case (submit p t)
  then show ?case
    by (auto simp: logs_ok_def wakeups_ok_def enqueue_def running_def n_waking_def)
next
  case (shutdown p)
  then show ?case by (auto simp: logs_ok_def wakeups_ok_def destroy_def running_def)
qed

lemma sum_list_replicate_empty: "sum_list (replicate n {#}) = {#}"
  by (induction n) auto

lemma pool_inv_reachable: "pool_reachable n p \<Longrightarrow> logs_ok p \<and> wakeups_ok p"
proof (induction rule: pool_reachable.induct)
  case new
  show ?case
    by (auto simp: logs_ok_def wakeups_ok_def pool_new_def running_def sum_list_replicate_empty)
next
  case (next_step p q)
  then show ?case using pool_inv_step by blast
qed



section \<open>Draining\<close>









section \<open>Properties\<close>

text \<open>
  C39. In every reachable state of a pool, under every interleaving of workers, enqueuing
  threads and the destructor: the tasks taken from the queue are exactly the first ones
  submitted, in submission order, the queue holds the rest in order, and every task taken is
  either running on one worker or finished once. No task is lost, run twice or overtaken.
\<close>

theorem pool_fifo_exactly_once:
  assumes "pool_reachable n p"
  shows "submitted p = started p @ tasks p \<and> mset (started p) = mset (finished p) + running p"
  using pool_inv_reachable [OF assms] by (simp add: logs_ok_def)

theorem pool_fifo_exactly_once_witness:
  "submitted (worker_locked 0 (enqueue ''a'' (pool_new 1))) =
     started (worker_locked 0 (enqueue ''a'' (pool_new 1))) @ tasks (worker_locked 0 (enqueue ''a'' (pool_new 1)))
   \<and> started (worker_locked 0 (enqueue ''a'' (pool_new 1))) = [''a'']"
proof -
  have "pool_reachable 1 (enqueue ''a'' (pool_new 1))"
    using pool_reachable.next_step [OF pool_reachable.new pool_step.submit] .
  moreover have "pool_step (enqueue ''a'' (pool_new 1)) (worker_locked 0 (enqueue ''a'' (pool_new 1)))"
    by (intro pool_step.run run_step.locked) (simp_all add: enqueue_def pool_new_def)
  ultimately have "pool_reachable 1 (worker_locked 0 (enqueue ''a'' (pool_new 1)))"
    by (rule pool_reachable.next_step)
  from pool_fifo_exactly_once [OF this] show ?thesis
    by (simp add: worker_locked_def enqueue_def pool_new_def)
qed

text \<open>
  No wake-up is lost. In every reachable state with a queued task in which no notification
  is still to come, not every worker sleeps: a worker is on its way to the queue or busy (and
  returns to the queue afterwards), unless the pool has no worker or all have returned after
  \<open>stop\<close>. Before \<open>stop\<close>, while a worker sleeps, the queued tasks are at most the pending
  notifications and the workers on their way.
\<close>

theorem pool_no_lost_wakeup:
  assumes "pool_reachable n p"
  shows "(tasks p \<noteq> [] \<and> signals p = 0 \<and> \<not> broadcast p \<longrightarrow>
            (\<exists>w\<in>set (workers p). w = Waking \<or> (\<exists>t. w = Running t)) \<or>
            set (workers p) \<subseteq> {Exited}) \<and>
         (\<not> stop p \<and> Blocked \<in> set (workers p) \<longrightarrow> length (tasks p) \<le> signals p + n_waking p)"
proof (intro conjI impI)
  have inv: "wakeups_ok p" using pool_inv_reachable [OF assms] by simp
  then show "\<not> stop p \<and> Blocked \<in> set (workers p) \<Longrightarrow> length (tasks p) \<le> signals p + n_waking p"
    by (simp add: wakeups_ok_def)
  assume t: "tasks p \<noteq> [] \<and> signals p = 0 \<and> \<not> broadcast p"
  show "(\<exists>w\<in>set (workers p). w = Waking \<or> (\<exists>t. w = Running t)) \<or> set (workers p) \<subseteq> {Exited}"
  proof (cases "Blocked \<in> set (workers p)")
    case True
    with t inv have "0 < length (tasks p)" "length (tasks p) \<le> n_waking p"
      by (auto simp: wakeups_ok_def)
    then have "0 < n_waking p" by linarith
    then show ?thesis by (auto simp: n_waking_def filter_empty_conv)
  next
    case False
    show ?thesis
    proof (rule disjCI)
      assume "\<not> set (workers p) \<subseteq> {Exited}"
      then obtain w where "w \<in> set (workers p)" "w \<noteq> Exited" by auto
      with False show "\<exists>w\<in>set (workers p). w = Waking \<or> (\<exists>t. w = Running t)" by (cases w) auto
    qed
  qed
qed

theorem pool_no_lost_wakeup_witness:
  "\<exists>w\<in>set (workers (enqueue ''a'' (pool_new 2)\<lparr>signals := 0\<rparr>)). w = Waking \<or> (\<exists>t. w = Running t)"
proof -
  let ?p = "enqueue ''a'' (pool_new 2) :: string thread_pool"
  have "pool_reachable 2 ?p" using pool_reachable.next_step [OF pool_reachable.new pool_step.submit] .
  moreover have "pool_step ?p (?p\<lparr>signals := 0\<rparr>)"
    by (intro pool_step.run run_step.notify_nobody) (simp_all add: enqueue_def pool_new_def numeral_2_eq_2)
  ultimately have "pool_reachable 2 (?p\<lparr>signals := 0\<rparr>)" by (rule pool_reachable.next_step)
  from pool_no_lost_wakeup [OF this] show ?thesis
    by (simp add: enqueue_def pool_new_def numeral_2_eq_2)
qed



end
