(* ===== verification/NetHelpers.thy ===== *)
theory NetHelpers
  imports Prelude
begin

text \<open>
  The network helpers of \<open>core/net_helpers.cpp\<close>: the digest in hexadecimal, the external
  address, the search for a free port, the local address and its interface, and the port
  mapping of the gateway. OpenSSL, libcurl, the sockets of the system and miniupnpc are
  parameters: records of their calls over an abstract state of the library.
\<close>

section \<open>The digest in hexadecimal\<close>

record 'w evp_api =
  md_ctx_new :: "'w \<Rightarrow> int option \<times> 'w"
  digest_init :: "int \<Rightarrow> 'w \<Rightarrow> int \<times> 'w"
  digest_update :: "int \<Rightarrow> byte list \<Rightarrow> 'w \<Rightarrow> int \<times> 'w"
  digest_final :: "int \<Rightarrow> 'w \<Rightarrow> int \<times> byte list \<times> 'w"
  md_ctx_free :: "int \<Rightarrow> 'w \<Rightarrow> 'w"

text \<open>\<open>std::hex\<close>, \<open>setw(2)\<close>, \<open>setfill('0')\<close>.\<close>

definition hex_byte :: "byte \<Rightarrow> string" where
  "hex_byte b = (let s = show_base 16 (unat b) in replicate (2 - length s) (CHR ''0'') @ s)"

definition hex_string :: "byte list \<Rightarrow> string" where
  "hex_string bs = concat (map hex_byte bs)"

definition sha256 :: "'w evp_api \<Rightarrow> string \<Rightarrow> 'w \<Rightarrow> string outcome \<times> 'w" where
  "sha256 evp str w =
     (case md_ctx_new evp w of
        (None, w1) \<Rightarrow> (Throws ''EVP_MD_CTX_new failed'', w1)
      | (Some mdctx, w1) \<Rightarrow>
          let (rc, w2) = digest_init evp mdctx w1 in
          if rc \<noteq> 1 then (Throws ''EVP_DigestInit_ex failed'', md_ctx_free evp mdctx w2)
          else let (rc, w3) = digest_update evp mdctx (bytes_of str) w2 in
            if rc \<noteq> 1 then (Throws ''EVP_DigestUpdate failed'', md_ctx_free evp mdctx w3)
            else let (rc, digest, w4) = digest_final evp mdctx w3 in
              if rc \<noteq> 1 then (Throws ''EVP_DigestFinal_ex failed'', md_ctx_free evp mdctx w4)
              else (Ret (hex_string digest), md_ctx_free evp mdctx w4))"

text \<open>
  What OpenSSL documents: a context that is handed out is new, freeing removes it, and a
  context that was initialised and fed answers the digest \<open>H\<close> of what it was fed.
  \<open>ctxs w\<close> maps the live contexts to the bytes fed so far, if they were initialised.
\<close>

definition evp_law :: "'w evp_api \<Rightarrow> ('w \<Rightarrow> int \<Rightarrow> byte list option option) \<Rightarrow> (byte list \<Rightarrow> byte list) \<Rightarrow> bool" where
  "evp_law evp ctxs H \<longleftrightarrow>
     (\<forall>w w1. md_ctx_new evp w = (None, w1) \<longrightarrow> ctxs w1 = ctxs w) \<and>
     (\<forall>w c w1. md_ctx_new evp w = (Some c, w1) \<longrightarrow> ctxs w c = None \<and> ctxs w1 = (ctxs w)(c \<mapsto> None)) \<and>
     (\<forall>c w rc w1. ctxs w c \<noteq> None \<longrightarrow> digest_init evp c w = (rc, w1) \<longrightarrow>
        (\<exists>s. ctxs w1 = (ctxs w)(c \<mapsto> s) \<and> (rc = 1 \<longrightarrow> s = Some []))) \<and>
     (\<forall>c w bs d rc w1. ctxs w c = Some (Some d) \<longrightarrow> digest_update evp c bs w = (rc, w1) \<longrightarrow>
        (\<exists>s. ctxs w1 = (ctxs w)(c \<mapsto> s) \<and> (rc = 1 \<longrightarrow> s = Some (d @ bs)))) \<and>
     (\<forall>c w d rc h w1. ctxs w c = Some (Some d) \<longrightarrow> digest_final evp c w = (rc, h, w1) \<longrightarrow>
        (\<exists>s. ctxs w1 = (ctxs w)(c \<mapsto> s) \<and> (rc = 1 \<longrightarrow> h = H d))) \<and>
     (\<forall>c w. ctxs (md_ctx_free evp c w) = (ctxs w)(c := None))"

section \<open>The external address\<close>

datatype curl_option = CURLOPT_URL string | CURLOPT_FOLLOWLOCATION int | CURLOPT_WRITEFUNCTION | CURLOPT_WRITEDATA

text \<open>A transfer hands its data to the callback in pieces: a pointer, a size and a number.\<close>

record 'w curl_api =
  curl_init :: "'w \<Rightarrow> int option \<times> 'w"
  curl_setopt :: "int \<Rightarrow> curl_option \<Rightarrow> 'w \<Rightarrow> 'w"
  curl_perform :: "int \<Rightarrow> 'w \<Rightarrow> int \<times> (byte list \<times> nat \<times> nat) list \<times> 'w"
  curl_cleanup :: "int \<Rightarrow> 'w \<Rightarrow> 'w"

definition write_callback :: "byte list \<Rightarrow> nat \<Rightarrow> nat \<Rightarrow> byte list \<Rightarrow> (nat \<times> byte list) outcome" where
  "write_callback p sz nmemb response =
     (let n = sz * nmemb mod size_bound in
      if length p < n then Undefined else Ret (n, response @ take n p))"

fun receive_pieces :: "(byte list \<times> nat \<times> nat) list \<Rightarrow> byte list \<Rightarrow> byte list outcome" where
  "receive_pieces [] response = Ret response"
| "receive_pieces ((p, sz, nmemb) # ps) response =
     obind (write_callback p sz nmemb response) (\<lambda>(n, response'). receive_pieces ps response')"

definition get_external_addr :: "'w curl_api \<Rightarrow> 'w \<Rightarrow> (byte list \<times> 'w) outcome" where
  "get_external_addr cu w =
     (case curl_init cu w of
        (None, w1) \<Rightarrow> Ret ([], w1)
      | (Some curl, w1) \<Rightarrow>
          let w2 = curl_setopt cu curl (CURLOPT_URL ''https://api.ipify.org'') w1;
              w3 = curl_setopt cu curl (CURLOPT_FOLLOWLOCATION 1) w2;
              w4 = curl_setopt cu curl CURLOPT_WRITEFUNCTION w3;
              w5 = curl_setopt cu curl CURLOPT_WRITEDATA w4;
              (res, pieces, w6) = curl_perform cu curl w5 in
          obind (receive_pieces pieces []) (\<lambda>ip_address. Ret (ip_address, curl_cleanup cu curl w6)))"

section \<open>Ports, addresses and interfaces\<close>

datatype sock_type = SOCK_STREAM | SOCK_DGRAM

datatype sock_addr = Inet "32 word" "16 word" | Inet6 "byte list" | OtherFamily

record ifaddr =
  ifa_addr :: "sock_addr option"
  ifa_name :: string

record 'w net_api =
  net_socket :: "sock_type \<Rightarrow> 'w \<Rightarrow> int \<times> 'w"
  net_bind :: "int \<Rightarrow> sock_addr \<Rightarrow> 'w \<Rightarrow> int \<times> 'w"
  net_connect :: "int \<Rightarrow> sock_addr \<Rightarrow> 'w \<Rightarrow> int \<times> 'w"
  net_getsockname :: "int \<Rightarrow> 'w \<Rightarrow> int \<times> 32 word \<times> 'w"
  net_close :: "int \<Rightarrow> 'w \<Rightarrow> 'w"
  inet_ntop :: "32 word \<Rightarrow> string option"
  getifaddrs :: "'w \<Rightarrow> int \<times> ifaddr list \<times> 'w"
  freeifaddrs :: "'w \<Rightarrow> 'w"
  getnameinfo :: "sock_addr \<Rightarrow> 'w \<Rightarrow> int \<times> string \<times> 'w"

text \<open>
  The search for a port. \<open>htons\<close> takes the low 16 bits of the \<open>int\<close>; incrementing the
  largest \<open>int\<close> is undefined. The bind address is the loopback address.
\<close>

definition INADDR_LOOPBACK :: "32 word" where
  "INADDR_LOOPBACK = 0x7F000001"

definition INT_MAX :: int where
  "INT_MAX = 2147483647"

function probe_ports :: "'w net_api \<Rightarrow> int \<Rightarrow> int \<Rightarrow> 'w \<Rightarrow> (int option \<times> 'w) outcome" where
  "probe_ports net sock port w =
     (let (rc, w1) = net_bind net sock (Inet INADDR_LOOPBACK (word_of_int port)) w in
      if rc = 0 then Ret (Some port, w1)
      else if port = INT_MAX then Undefined
      else if 7110 < port + 1 then Ret (None, w1)
      else probe_ports net sock (port + 1) w1)"
  by pat_completeness auto
termination by (relation "measure (\<lambda>(net, sock, port, w). nat (7111 - port))") auto

declare probe_ports.simps [simp del]

definition is_port_available :: "'w net_api \<Rightarrow> int \<Rightarrow> 'w \<Rightarrow> (int \<times> 'w) outcome" where
  "is_port_available net port w =
     (let (sock, w1) = net_socket net SOCK_STREAM w in
      if sock = -1 then Ret (-1, w1)
      else obind (probe_ports net sock port w1) (\<lambda>(found, w2).
        case found of None \<Rightarrow> Ret (-1, w2) | Some p \<Rightarrow> Ret (p, net_close net sock w2)))"

definition get_local_ip :: "'w net_api \<Rightarrow> 'w \<Rightarrow> string \<times> 'w" where
  "get_local_ip net w =
     (let (sock, w1) = net_socket net SOCK_DGRAM w in
      if sock < 0 then ([], w1)
      else let (err, w2) = net_connect net sock (Inet 0x08080808 53) w1 in
        if err < 0 then ([], net_close net sock w2)
        else let (err, name, w3) = net_getsockname net sock w2 in
          if err < 0 then ([], net_close net sock w3)
          else let p = inet_ntop net name; w4 = net_close net sock w3 in
            (case p of Some buffer \<Rightarrow> buffer | None \<Rightarrow> [], w4))"

fun find_iface :: "'w net_api \<Rightarrow> string \<Rightarrow> ifaddr list \<Rightarrow> 'w \<Rightarrow> string option \<times> 'w" where
  "find_iface net local_addr [] w = (None, w)"
| "find_iface net local_addr (ifa # ifas) w =
     (case ifa_addr ifa of
        None \<Rightarrow> find_iface net local_addr ifas w
      | Some OtherFamily \<Rightarrow> find_iface net local_addr ifas w
      | Some a \<Rightarrow>
          (let (s, host, w1) = getnameinfo net a w in
           if s \<noteq> 0 then find_iface net local_addr ifas w1
           else if local_addr = host then (Some (ifa_name ifa), w1)
           else find_iface net local_addr ifas w1))"

definition get_iface_name :: "'w net_api \<Rightarrow> string \<Rightarrow> 'w \<Rightarrow> string \<times> 'w" where
  "get_iface_name net local_addr w =
     (let (rc, ifaddrs, w1) = getifaddrs net w in
      if rc = -1 then ([], w1)
      else let (found, w2) = find_iface net local_addr ifaddrs w1 in
        (case found of Some interfaceName \<Rightarrow> interfaceName | None \<Rightarrow> [], freeifaddrs net w2))"

section \<open>The port mapping of the gateway\<close>

text \<open>\<open>UPNP_GetValidIGD\<close> answers a code, the control URL and the service type.\<close>

record 'w upnp_api =
  upnp_discover :: "'w \<Rightarrow> int option \<times> int \<times> 'w"
  upnp_valid_igd :: "int \<Rightarrow> 'w \<Rightarrow> int \<times> (string \<times> string) \<times> 'w"
  upnp_add_mapping :: "string \<Rightarrow> string \<Rightarrow> string list \<Rightarrow> 'w \<Rightarrow> int \<times> 'w"
  upnp_free_urls :: "'w \<Rightarrow> 'w"
  upnp_free_devlist :: "int \<Rightarrow> 'w \<Rightarrow> 'w"

definition set_port_forward ::
    "'w upnp_api \<Rightarrow> string \<Rightarrow> int \<Rightarrow> string \<Rightarrow> int \<Rightarrow> string \<Rightarrow> 'w \<Rightarrow> bool \<times> 'w" where
  "set_port_forward up external_ip external_port internal_ip internal_port description w =
     (case upnp_discover up w of
        (None, error, w1) \<Rightarrow> (False, w1)
      | (Some devlist, error, w1) \<Rightarrow>
          let (igdFound, (controlURL, servicetype), w2) = upnp_valid_igd up devlist w1 in
          if igdFound \<noteq> 1 then (False, upnp_free_devlist up devlist w2)
          else let (error, w3) = upnp_add_mapping up controlURL servicetype
                     [show_int external_port, show_int internal_port, c_text internal_ip, c_text description, ''TCP'', ''0''] w2 in
            (error = 0, upnp_free_devlist up devlist (upnp_free_urls up w3)))"

section \<open>Hexadecimal digits\<close>

text \<open>The inverse of \<open>hex_string\<close>.\<close>

fun unhex :: "string \<Rightarrow> byte list" where
  "unhex (a # b # s) = of_nat (16 * char_digit a + char_digit b) # unhex s"
| "unhex s = []"

lemma hex_byte_digits: "hex_byte b = [digit_char (unat b div 16), digit_char (unat b mod 16)]"
proof (cases "unat b < 16")
  case True
  have "digit_char 0 = CHR ''0''" by (simp add: digit_char_def)
  with True show ?thesis by (simp add: hex_byte_def show_base.simps [of 16 "unat b"])
next
  case False
  moreover have "unat b div 16 < 16" using unat_bounds(1) [of b] by simp
  ultimately show ?thesis
    by (simp add: hex_byte_def show_base.simps [of 16 "unat b"] show_base.simps [of 16 "unat b div 16"])
qed

lemma hex_string_Cons:
  "hex_string (b # bs) = digit_char (unat b div 16) # digit_char (unat b mod 16) # hex_string bs"
  by (simp add: hex_string_def hex_byte_digits)

lemma length_hex_string [simp]: "length (hex_string bs) = 2 * length bs"
  by (induction bs) (simp_all add: hex_string_Cons, simp add: hex_string_def)

lemma unhex_hex_string [simp]: "unhex (hex_string bs) = bs"
proof (induction bs)
  case Nil
  then show ?case by (simp add: hex_string_def)
next
  case (Cons b bs)
  have "unat b div 16 < 16" "unat b mod 16 < 16" using unat_bounds(1) [of b] by simp_all
  then have "16 * char_digit (digit_char (unat b div 16)) + char_digit (digit_char (unat b mod 16)) = unat b"
    by (simp add: char_digit_digit_char)
  with Cons show ?case by (simp add: hex_string_Cons)
qed

text \<open>The calls on a context under the law: \<open>holds_ctx\<close> says that only the context is new.\<close>

definition holds_ctx :: "('w \<Rightarrow> int \<Rightarrow> byte list option option) \<Rightarrow> 'w \<Rightarrow> int \<Rightarrow> byte list option \<Rightarrow> 'w \<Rightarrow> bool" where
  "holds_ctx ctxs w c s w' \<longleftrightarrow> ctxs w c = None \<and> ctxs w' = (ctxs w)(c \<mapsto> s)"

lemma ctx_calls:
  assumes "evp_law evp ctxs H"
  shows ctx_none: "md_ctx_new evp w = (None, w1) \<Longrightarrow> ctxs w1 = ctxs w"
    and ctx_new: "md_ctx_new evp w = (Some c, w1) \<Longrightarrow> holds_ctx ctxs w c None w1"
    and ctx_init: "holds_ctx ctxs w c s w1 \<Longrightarrow> digest_init evp c w1 = (rc, w2) \<Longrightarrow>
          \<exists>s. holds_ctx ctxs w c s w2 \<and> (rc = 1 \<longrightarrow> s = Some [])"
    and ctx_update: "holds_ctx ctxs w c (Some d) w1 \<Longrightarrow> digest_update evp c bs w1 = (rc, w2) \<Longrightarrow>
          \<exists>s. holds_ctx ctxs w c s w2 \<and> (rc = 1 \<longrightarrow> s = Some (d @ bs))"
    and ctx_final: "holds_ctx ctxs w c (Some d) w1 \<Longrightarrow> digest_final evp c w1 = (rc, h, w2) \<Longrightarrow>
          (\<exists>s. holds_ctx ctxs w c s w2) \<and> (rc = 1 \<longrightarrow> h = H d)"
    and ctx_free: "holds_ctx ctxs w c s w1 \<Longrightarrow> ctxs (md_ctx_free evp c w1) = ctxs w"
proof -
  note l1 = assms [unfolded evp_law_def, THEN conjunct1, rule_format] and r1 = assms [unfolded evp_law_def, THEN conjunct2]
  note l2 = r1 [THEN conjunct1, rule_format] and r2 = r1 [THEN conjunct2]
  note l3 = r2 [THEN conjunct1, rule_format] and r3 = r2 [THEN conjunct2]
  note l4 = r3 [THEN conjunct1, rule_format] and r4 = r3 [THEN conjunct2]
  note l5 = r4 [THEN conjunct1, rule_format] and l6 = r4 [THEN conjunct2, rule_format]
  show "md_ctx_new evp w = (None, w1) \<Longrightarrow> ctxs w1 = ctxs w" by (rule l1)
  show "md_ctx_new evp w = (Some c, w1) \<Longrightarrow> holds_ctx ctxs w c None w1" unfolding holds_ctx_def by (rule l2)
  show "\<exists>s. holds_ctx ctxs w c s w2 \<and> (rc = 1 \<longrightarrow> s = Some [])"
    if h: "holds_ctx ctxs w c s w1" and i: "digest_init evp c w1 = (rc, w2)"
  proof -
    have "ctxs w1 c \<noteq> None" using h by (simp add: holds_ctx_def)
    then obtain s where "ctxs w2 = (ctxs w1)(c \<mapsto> s)" "rc = 1 \<longrightarrow> s = Some []" using l3 i by blast
    with h show ?thesis by (auto simp: holds_ctx_def)
  qed
  show "\<exists>s. holds_ctx ctxs w c s w2 \<and> (rc = 1 \<longrightarrow> s = Some (d @ bs))"
    if h: "holds_ctx ctxs w c (Some d) w1" and i: "digest_update evp c bs w1 = (rc, w2)"
  proof -
    have "ctxs w1 c = Some (Some d)" using h by (simp add: holds_ctx_def)
    then obtain s where "ctxs w2 = (ctxs w1)(c \<mapsto> s)" "rc = 1 \<longrightarrow> s = Some (d @ bs)" using l4 i by blast
    with h show ?thesis by (auto simp: holds_ctx_def)
  qed
  show "(\<exists>s. holds_ctx ctxs w c s w2) \<and> (rc = 1 \<longrightarrow> h = H d)"
    if h: "holds_ctx ctxs w c (Some d) w1" and i: "digest_final evp c w1 = (rc, h, w2)"
  proof -
    have "ctxs w1 c = Some (Some d)" using h by (simp add: holds_ctx_def)
    then obtain s where "ctxs w2 = (ctxs w1)(c \<mapsto> s)" "rc = 1 \<longrightarrow> h = H d" using l5 i by blast
    with h show ?thesis by (auto simp: holds_ctx_def)
  qed
  show "ctxs (md_ctx_free evp c w1) = ctxs w" if h: "holds_ctx ctxs w c s w1"
  proof -
    have "ctxs (md_ctx_free evp c w1) = (ctxs w1)(c := None)" by (rule l6)
    with h show ?thesis by (auto simp: holds_ctx_def)
  qed
qed

text \<open>
  The digest. When the library keeps its documented behaviour, \<open>sha256\<close> answers the
  digest of the bytes of its argument as two lower-case hexadecimal digits for each byte,
  from which the digest can be read back, or it throws; in both cases every digest context
  it created has been freed.
\<close>

theorem sha256_is_hex_of_digest:
  assumes "evp_law evp ctxs H"
  shows "ctxs (snd (sha256 evp str w)) = ctxs w \<and>
    (fst (sha256 evp str w) = Ret (hex_string (H (bytes_of str))) \<or> (\<exists>e. fst (sha256 evp str w) = Throws e)) \<and>
    (\<forall>h. fst (sha256 evp str w) = Ret h \<longrightarrow> unhex h = H (bytes_of str) \<and> length h = 2 * length (H (bytes_of str)))"
proof (cases "md_ctx_new evp w")
  case (Pair c w1)
  note calls = ctx_calls [OF assms]
  show ?thesis
  proof (cases c)
    case None
    with Pair calls(1) show ?thesis by (simp add: sha256_def)
  next
    case (Some m)
    with Pair have m: "md_ctx_new evp w = (Some m, w1)" by simp
    obtain ri w2 ru w3 rf h w4 where r: "digest_init evp m w1 = (ri, w2)" "digest_update evp m (bytes_of str) w2 = (ru, w3)"
        "digest_final evp m w3 = (rf, h, w4)" by (metis surj_pair)
    obtain s where s: "holds_ctx ctxs w m s w2" "ri = 1 \<longrightarrow> s = Some []" using calls(3) [OF calls(2) [OF m] r(1)] by blast
    show ?thesis
    proof (cases "ri = 1")
      case False
      with m r calls(6) [OF s(1)] show ?thesis by (simp add: sha256_def)
    next
      case True
      with s have "holds_ctx ctxs w m (Some []) w2" by simp
      from calls(4) [OF this r(2)] obtain t where t: "holds_ctx ctxs w m t w3" "ru = 1 \<longrightarrow> t = Some (bytes_of str)" by auto
      show ?thesis
      proof (cases "ru = 1")
        case False
        with m r True calls(6) [OF t(1)] show ?thesis by (simp add: sha256_def)
      next
        case upd: True
        with t have "holds_ctx ctxs w m (Some (bytes_of str)) w3" by simp
        from calls(5) [OF this r(3)] obtain u where "holds_ctx ctxs w m u w4" and h: "rf = 1 \<longrightarrow> h = H (bytes_of str)" by auto
        from calls(6) [OF this(1)] m r True upd h show ?thesis by (simp add: sha256_def)
      qed
    qed
  qed
qed

definition fresh_id :: "int list \<Rightarrow> int" where
  "fresh_id xs = 1 + foldr max xs 2"

lemma fresh_id: "fresh_id xs \<notin> set xs" "0 \<le> fresh_id xs"
proof -
  have "x \<le> foldr max xs 2" if "x \<in> set xs" for x :: int using that by (induction xs) auto
  then show "fresh_id xs \<notin> set xs" by (force simp: fresh_id_def)
  have "(2 :: int) \<le> foldr max xs 2" by (induction xs) auto
  then show "0 \<le> fresh_id xs" by (simp add: fresh_id_def)
qed

text \<open>A library for examples, whose digest is the length of the message.\<close>

type_synonym simevp = "(int \<times> byte list option) list"

definition sim_evp :: "simevp evp_api" where
  "sim_evp = \<lparr>md_ctx_new = (\<lambda>w. let c = fresh_id (map fst w) in (Some c, (c, None) # w)),
     digest_init = (\<lambda>c w. (1, AList.update c (Some []) w)),
     digest_update = (\<lambda>c bs w. (1, AList.update c (map_option (\<lambda>d. d @ bs) (the (map_of w c))) w)),
     digest_final = (\<lambda>c w. (1, [of_nat (length (the (the (map_of w c))))], w)),
     md_ctx_free = (\<lambda>c w. AList.delete c w)\<rparr>"

lemma sim_evp_law: "evp_law sim_evp map_of (\<lambda>bs. [of_nat (length bs)])"
proof -
  have new: "map_of w (fresh_id (map fst w)) = None" for w :: simevp
    using fresh_id(1) [of "map fst w"] by (simp add: map_of_eq_None_iff)
  show ?thesis
    unfolding evp_law_def
    by (intro conjI allI impI)
      (auto simp: sim_evp_def Let_def new update_conv' delete_conv' intro!: exI [of _ "Some (_ :: byte list)"])
qed

theorem sha256_is_hex_of_digest_witness:
  "fst (sha256 sim_evp ''ab'' []) = Ret ''02'' \<and> unhex ''02'' = [2]"
proof -
  have r: "fst (sha256 sim_evp ''ab'' []) = Ret (hex_string [2])"
    by (simp add: sha256_def sim_evp_def Let_def update_conv' bytes_of_def)
  have h: "hex_string [2] = ''02''" by (simp add: hex_string_def hex_byte_digits digit_char_def)
  from sha256_is_hex_of_digest [OF sim_evp_law, of "''ab''" "[]"] r
  have "unhex (hex_string [2]) = [of_nat (length (bytes_of ''ab''))]" by blast
  with r h show ?thesis by (simp add: bytes_of_def)
qed

section \<open>Sockets and interface held\<close>

text \<open>
  What the system promises: a new descriptor is one that was not open, closing closes it,
  a bind of an open socket to the loopback address succeeds exactly on the ports that are \<open>free\<close> for it, and a list
  of interfaces is held from \<open>getifaddrs\<close> to \<open>freeifaddrs\<close>; \<open>host\<close> is the numeric name of an
  address, where it has one.
\<close>

definition net_law ::
    "'w net_api \<Rightarrow> ('w \<Rightarrow> int set) \<Rightarrow> ('w \<Rightarrow> int \<Rightarrow> 16 word set) \<Rightarrow> ('w \<Rightarrow> nat) \<Rightarrow> (sock_addr \<Rightarrow> string option) \<Rightarrow> bool" where
  "net_law net fds free held host \<longleftrightarrow>
     (\<forall>ty w s w1. net_socket net ty w = (s, w1) \<longrightarrow>
        (s = -1 \<and> fds w1 = fds w \<or> 0 \<le> s \<and> s \<notin> fds w \<and> fds w1 = insert s (fds w))) \<and>
     (\<forall>s p w rc w1. s \<in> fds w \<longrightarrow> net_bind net s (Inet INADDR_LOOPBACK p) w = (rc, w1) \<longrightarrow>
        fds w1 = fds w \<and> (rc = 0 \<longleftrightarrow> p \<in> free w s) \<and> (rc \<noteq> 0 \<longrightarrow> free w1 = free w)) \<and>
     (\<forall>s a w rc w1. net_connect net s a w = (rc, w1) \<longrightarrow> fds w1 = fds w) \<and>
     (\<forall>s w rc a w1. net_getsockname net s w = (rc, a, w1) \<longrightarrow> fds w1 = fds w) \<and>
     (\<forall>s w. fds (net_close net s w) = fds w - {s}) \<and>
     (\<forall>w rc l w1. getifaddrs net w = (rc, l, w1) \<longrightarrow> held w1 = (if rc = -1 then held w else Suc (held w))) \<and>
     (\<forall>a w s h w1. getnameinfo net a w = (s, h, w1) \<longrightarrow>
        held w1 = held w \<and> (if s = 0 then host a = Some h else host a = None)) \<and>
     (\<forall>w. held (freeifaddrs net w) = held w - 1)"

lemma net_calls:
  assumes "net_law net fds free held host"
  shows net_socket_law: "net_socket net ty w = (s, w1) \<Longrightarrow>
           s = -1 \<and> fds w1 = fds w \<or> 0 \<le> s \<and> s \<notin> fds w \<and> fds w1 = insert s (fds w)"
    and net_bind_law: "s \<in> fds w \<Longrightarrow> net_bind net s (Inet INADDR_LOOPBACK p) w = (rc, w1) \<Longrightarrow>
           fds w1 = fds w \<and> (rc = 0 \<longleftrightarrow> p \<in> free w s) \<and> (rc \<noteq> 0 \<longrightarrow> free w1 = free w)"
    and net_connect_law: "net_connect net s sa w = (rc, w1) \<Longrightarrow> fds w1 = fds w"
    and net_getsockname_law: "net_getsockname net s w = (rc, ip, w1) \<Longrightarrow> fds w1 = fds w"
    and net_close_law: "fds (net_close net s w) = fds w - {s}"
    and getifaddrs_law: "getifaddrs net w = (rc, l, w1) \<Longrightarrow> held w1 = (if rc = -1 then held w else Suc (held w))"
    and getnameinfo_law: "getnameinfo net sa w = (e, h, w1) \<Longrightarrow>
           held w1 = held w \<and> (if e = 0 then host sa = Some h else host sa = None)"
    and freeifaddrs_law: "held (freeifaddrs net w) = held w - 1"
proof -
  note r0 = assms [unfolded net_law_def]
  note r1 = r0 [THEN conjunct2] and r2 = r0 [THEN conjunct2, THEN conjunct2]
  note r3 = r2 [THEN conjunct2] and r4 = r2 [THEN conjunct2, THEN conjunct2]
  note r5 = r4 [THEN conjunct2] and r6 = r4 [THEN conjunct2, THEN conjunct2]
  show "net_socket net ty w = (s, w1) \<Longrightarrow>
      s = -1 \<and> fds w1 = fds w \<or> 0 \<le> s \<and> s \<notin> fds w \<and> fds w1 = insert s (fds w)"
    by (rule r0 [THEN conjunct1, rule_format])
  show "s \<in> fds w \<Longrightarrow> net_bind net s (Inet INADDR_LOOPBACK p) w = (rc, w1) \<Longrightarrow>
      fds w1 = fds w \<and> (rc = 0 \<longleftrightarrow> p \<in> free w s) \<and> (rc \<noteq> 0 \<longrightarrow> free w1 = free w)"
    using r1 [THEN conjunct1, rule_format, of s w p rc w1] by blast
  show "net_connect net s sa w = (rc, w1) \<Longrightarrow> fds w1 = fds w" by (rule r2 [THEN conjunct1, rule_format])
  show "net_getsockname net s w = (rc, ip, w1) \<Longrightarrow> fds w1 = fds w" by (rule r3 [THEN conjunct1, rule_format])
  show "fds (net_close net s w) = fds w - {s}" by (rule r4 [THEN conjunct1, rule_format])
  show "getifaddrs net w = (rc, l, w1) \<Longrightarrow> held w1 = (if rc = -1 then held w else Suc (held w))"
    by (rule r5 [THEN conjunct1, rule_format])
  show "getnameinfo net sa w = (e, h, w1) \<Longrightarrow> held w1 = held w \<and> (if e = 0 then host sa = Some h else host sa = None)"
    using r6 [THEN conjunct1, rule_format, of sa w e h w1] by blast
  show "held (freeifaddrs net w) = held w - 1" by (rule r6 [THEN conjunct2, rule_format])
qed

text \<open>The ports the search tries, in order.\<close>

definition tried_ports :: "int \<Rightarrow> int list" where
  "tried_ports port = (if port \<le> 7110 then [port..7110] else [port])"

lemma tried_ports_rec: "tried_ports port = port # (if 7110 < port + 1 then [] else tried_ports (port + 1))"
  by (auto simp: tried_ports_def upto.simps)

lemma probe_ports_finds:
  assumes "net_law net fds free held host" "sock \<in> fds w" "port \<le> INT_MAX"
  shows "case find (\<lambda>p. word_of_int p \<in> free w sock) (tried_ports port) of
      Some p \<Rightarrow> \<exists>w2. probe_ports net sock port w = Ret (Some p, w2) \<and> fds w2 = fds w
    | None \<Rightarrow> if port = INT_MAX then probe_ports net sock port w = Undefined
              else \<exists>w2. probe_ports net sock port w = Ret (None, w2) \<and> fds w2 = fds w"
  using assms
proof (induction net sock port w rule: probe_ports.induct)
  case (1 net sock port w)
  obtain rc w1 where b: "net_bind net sock (Inet INADDR_LOOPBACK (word_of_int port)) w = (rc, w1)"
    by (cases "net_bind net sock (Inet INADDR_LOOPBACK (word_of_int port)) w") auto
  note law = net_bind_law [OF 1(2,3) b]
  show ?case
  proof (cases "rc \<noteq> 0 \<and> port \<noteq> INT_MAX \<and> \<not> 7110 < port + 1")
    case True
    then have "port + 1 \<le> INT_MAX" "port + 1 \<noteq> INT_MAX" by (simp_all add: INT_MAX_def)
    moreover have "sock \<in> fds w1" using law 1(3) by simp
    ultimately have "case find (\<lambda>p. word_of_int p \<in> free w1 sock) (tried_ports (port + 1)) of
        Some p \<Rightarrow> \<exists>w2. probe_ports net sock (port + 1) w1 = Ret (Some p, w2) \<and> fds w2 = fds w1
      | None \<Rightarrow> if port + 1 = INT_MAX then probe_ports net sock (port + 1) w1 = Undefined
                else \<exists>w2. probe_ports net sock (port + 1) w1 = Ret (None, w2) \<and> fds w2 = fds w1"
      using 1(1) [OF refl b [symmetric]] True 1(2) by blast
    moreover have "probe_ports net sock port w = probe_ports net sock (port + 1) w1"
      using b True by (subst probe_ports.simps) simp
    moreover have "find (\<lambda>p. word_of_int p \<in> free w sock) (tried_ports port) = find (\<lambda>p. word_of_int p \<in> free w1 sock) (tried_ports (port + 1))"
      using True law by (subst tried_ports_rec) simp
    ultimately show ?thesis using law True \<open>port + 1 \<noteq> INT_MAX\<close> by (simp split: option.splits)
  next
    case False
    then have "probe_ports net sock port w = (if rc = 0 then Ret (Some port, w1) else if port = INT_MAX then Undefined else Ret (None, w1))"
      using b by (subst probe_ports.simps) auto
    moreover have "find (\<lambda>p. word_of_int p \<in> free w sock) (tried_ports port) = (if rc = 0 then Some port else None)"
      using False law by (subst tried_ports_rec) (auto simp: INT_MAX_def)
    ultimately show ?thesis using law by (cases "port = INT_MAX") auto
  qed
qed

text \<open>
  The search for a port. It answers the first port from the given one up to 7110 that
  the loopback address has free, where only the low 16 bits of each candidate are tried, and
  a given port above 7110 is the only one tried. When none is free it answers -1 and leaves its
  socket open; otherwise it leaves no socket open. Its only undefined behaviour is the
  increment of a busy 2147483647.
\<close>

theorem port_search_finds_first_free:
  assumes "net_law net fds free held host" "port \<le> INT_MAX" "net_socket net SOCK_STREAM w = (sock, w1)"
    and "first = find (\<lambda>p. word_of_int p \<in> free w1 sock) (if port \<le> 7110 then [port..7110] else [port])"
  shows "if sock = -1 then is_port_available net port w = Ret (-1, w1) \<and> fds w1 = fds w
     else case first of
        Some p \<Rightarrow> \<exists>w2. is_port_available net port w = Ret (p, w2) \<and> fds w2 = fds w
      | None \<Rightarrow> if port = INT_MAX then is_port_available net port w = Undefined
                else \<exists>w2. is_port_available net port w = Ret (-1, w2) \<and> fds w2 = insert sock (fds w) \<and> sock \<notin> fds w"
proof (cases "sock = -1")
  case True
  with net_socket_law [OF assms(1,3)] assms(3) show ?thesis by (simp add: is_port_available_def)
next
  case False
  with net_socket_law [OF assms(1,3)] have s: "sock \<notin> fds w" "fds w1 = insert sock (fds w)" by auto
  then have "sock \<in> fds w1" by simp
  from probe_ports_finds [OF assms(1) this assms(2)] assms(3,4) False s show ?thesis
    by (auto simp: is_port_available_def tried_ports_def [symmetric] net_close_law [OF assms(1)] split: option.splits if_splits)
qed

text \<open>A system for examples: port 7003 is free, two interfaces, one of them with two addresses.\<close>

record simnet =
  sn_open :: "int list"
  sn_held :: nat

definition sim_net :: "simnet net_api" where
  "sim_net = \<lparr>net_socket = (\<lambda>ty w. let s = fresh_id (sn_open w) in (s, w\<lparr>sn_open := s # sn_open w\<rparr>)),
     net_bind = (\<lambda>s a w. (if a = Inet INADDR_LOOPBACK 7003 then 0 else -1, w)),
     net_connect = (\<lambda>s a w. (0, w)), net_getsockname = (\<lambda>s w. (0, 5, w)),
     net_close = (\<lambda>s w. w\<lparr>sn_open := filter (\<lambda>t. t \<noteq> s) (sn_open w)\<rparr>),
     inet_ntop = (\<lambda>a. Some ''0.0.0.5''),
     getifaddrs = (\<lambda>w. (0, [\<lparr>ifa_addr = None, ifa_name = ''lo''\<rparr>, \<lparr>ifa_addr = Some OtherFamily, ifa_name = ''eth0''\<rparr>,
                            \<lparr>ifa_addr = Some (Inet 5 0), ifa_name = ''eth0''\<rparr>], w\<lparr>sn_held := Suc (sn_held w)\<rparr>)),
     freeifaddrs = (\<lambda>w. w\<lparr>sn_held := sn_held w - 1\<rparr>),
     getnameinfo = (\<lambda>a w. if a = Inet 5 0 then (0, ''0.0.0.5'', w) else (-2, [], w))\<rparr>"

abbreviation sim_host :: "sock_addr \<Rightarrow> string option" where
  "sim_host \<equiv> \<lambda>a. if a = Inet 5 0 then Some ''0.0.0.5'' else None"

lemma sim_net_law: "net_law sim_net (\<lambda>w. set (sn_open w)) (\<lambda>w s. {7003}) sn_held sim_host"
  unfolding net_law_def using fresh_id
  by (intro conjI allI impI) (auto simp: sim_net_def Let_def split: if_splits)

theorem port_search_finds_first_free_witness:
  "\<exists>w2. is_port_available sim_net 7001 \<lparr>sn_open = [], sn_held = 0\<rparr> = Ret (7003, w2) \<and> sn_open w2 = []"
proof -
  let ?w = "\<lparr>sn_open = [], sn_held = 0\<rparr>"
  have s: "net_socket sim_net SOCK_STREAM ?w = (3, ?w\<lparr>sn_open := [3]\<rparr>)" by (simp add: sim_net_def fresh_id_def)
  have "[7001..7110] = 7001 # 7002 # 7003 # [7004..(7110 :: int)]"
    by (simp only: upto.simps [of 7001] upto.simps [of 7002] upto.simps [of 7003]) simp
  then have f: "Some 7003 = find (\<lambda>p. word_of_int p \<in> {7003 :: 16 word}) (if 7001 \<le> (7110 :: int) then [7001..7110] else [7001])"
    by simp
  from port_search_finds_first_free [OF sim_net_law _ s f]
  show ?thesis by (simp add: INT_MAX_def)
qed

section \<open>Lookups and the gateway\<close>

text \<open>
  What miniupnpc documents: the device list is held until it is freed, and the URLs are
  allocated whenever the search for a gateway answers a positive code.
\<close>

definition upnp_law :: "'w upnp_api \<Rightarrow> ('w \<Rightarrow> int set) \<Rightarrow> ('w \<Rightarrow> nat) \<Rightarrow> bool" where
  "upnp_law up devs urls \<longleftrightarrow>
     (\<forall>w e w1. upnp_discover up w = (None, e, w1) \<longrightarrow> devs w1 = devs w \<and> urls w1 = urls w) \<and>
     (\<forall>w d e w1. upnp_discover up w = (Some d, e, w1) \<longrightarrow> d \<notin> devs w \<and> devs w1 = insert d (devs w) \<and> urls w1 = urls w) \<and>
     (\<forall>d w r u w1. upnp_valid_igd up d w = (r, u, w1) \<longrightarrow>
        devs w1 = devs w \<and> urls w1 = (if 0 < r then Suc (urls w) else urls w)) \<and>
     (\<forall>c t as w r w1. upnp_add_mapping up c t as w = (r, w1) \<longrightarrow> devs w1 = devs w \<and> urls w1 = urls w) \<and>
     (\<forall>w. devs (upnp_free_urls up w) = devs w \<and> urls (upnp_free_urls up w) = urls w - 1) \<and>
     (\<forall>d w. devs (upnp_free_devlist up d w) = devs w - {d} \<and> urls (upnp_free_devlist up d w) = urls w)"

lemma upnp_calls:
  assumes "upnp_law up devs urls"
  shows "upnp_discover up w = (None, e, w1) \<Longrightarrow> devs w1 = devs w \<and> urls w1 = urls w"
    and "upnp_discover up w = (Some d, e, w1) \<Longrightarrow> d \<notin> devs w \<and> devs w1 = insert d (devs w) \<and> urls w1 = urls w"
    and "upnp_valid_igd up d w = (r, u, w1) \<Longrightarrow> devs w1 = devs w \<and> urls w1 = (if 0 < r then Suc (urls w) else urls w)"
    and "upnp_add_mapping up c t as w = (r, w1) \<Longrightarrow> devs w1 = devs w \<and> urls w1 = urls w"
    and "devs (upnp_free_urls up w) = devs w \<and> urls (upnp_free_urls up w) = urls w - 1"
    and "devs (upnp_free_devlist up d w) = devs w - {d} \<and> urls (upnp_free_devlist up d w) = urls w"
  using assms unfolding upnp_law_def by (meson | simp | metis)+

text \<open>Whether an interface has the address: the test of the loop.\<close>

definition has_host :: "(sock_addr \<Rightarrow> string option) \<Rightarrow> string \<Rightarrow> ifaddr \<Rightarrow> bool" where
  "has_host host name i = (case ifa_addr i of None \<Rightarrow> False | Some OtherFamily \<Rightarrow> False | Some a \<Rightarrow> host a = Some name)"

lemma find_iface_finds:
  assumes "net_law net fds free held host"
  shows "\<exists>w1. find_iface net name ifs w = (map_option ifa_name (find (has_host host name) ifs), w1) \<and> held w1 = held w"
proof (induction ifs arbitrary: w)
  case Nil
  then show ?case by simp
next
  case (Cons i ifs)
  have look: "\<exists>w1. (let (s, h, w1) = getnameinfo net a w in
       if s \<noteq> 0 then find_iface net name ifs w1 else if name = h then (Some (ifa_name i), w1) else find_iface net name ifs w1)
     = ((if host a = Some name then Some (ifa_name i) else map_option ifa_name (find (has_host host name) ifs)), w1) \<and> held w1 = held w" for a
  proof -
    obtain s h w1 where g: "getnameinfo net a w = (s, h, w1)" by (cases "getnameinfo net a w") auto
    from getnameinfo_law [OF assms g] Cons [of w1] g show ?thesis by (cases "s = 0") auto
  qed
  show ?case
  proof (cases "ifa_addr i")
    case None
    with Cons [of w] show ?thesis by (simp add: has_host_def [of host name i])
  next
    case (Some a)
    then show ?thesis using look [of a] Cons [of w] by (cases a; cases "host a = Some name") (simp_all add: has_host_def [of host name i])
  qed
qed

text \<open>
  The lookups and the port mapping give back what they take. The local address lookup
  leaves no socket open. The interface lookup frees the list it asked for and answers the name
  of the first interface one of whose IPv4 or IPv6 addresses has the given numeric name, or
  the empty string. The port mapping answers true exactly when a connected gateway (code 1)
  was found and it accepted the mapping, and frees the device list; for a gateway that is not
  connected or a device that is not one (codes 2 and 3) it leaves the URLs allocated.
\<close>

theorem lookups_give_back:
  assumes "net_law net fds free held host" "upnp_law up devs urls"
    and "getifaddrs net w = (rc, ifs, wi)"
    and "upnp_discover up v = (dev, e, v1)" "dev = None \<or> dev = Some d" "upnp_valid_igd up d v1 = (code, u, v2)"
  shows "fds (snd (get_local_ip net w)) = fds w \<and>
    held (snd (get_iface_name net name w)) = held w \<and>
    fst (get_iface_name net name w) = (if rc = -1 then [] else
       case find (has_host host name) ifs of Some i \<Rightarrow> ifa_name i | None \<Rightarrow> []) \<and>
    devs (snd (set_port_forward up ext ep int_ip ip descr v)) = devs v \<and>
    urls (snd (set_port_forward up ext ep int_ip ip descr v)) = (if dev = Some d \<and> 1 < code then Suc (urls v) else urls v) \<and>
    (fst (set_port_forward up ext ep int_ip ip descr v) \<longleftrightarrow> dev = Some d \<and> code = 1 \<and>
       fst (upnp_add_mapping up (fst u) (snd u) [show_int ep, show_int ip, c_text int_ip, c_text descr, ''TCP'', ''0''] v2) = 0)"
proof -
  obtain s w1 r2 w2 r3 ip4 w3 where calls: "net_socket net SOCK_DGRAM w = (s, w1)"
      "net_connect net s (Inet 0x08080808 53) w1 = (r2, w2)" "net_getsockname net s w2 = (r3, ip4, w3)"
    by (metis surj_pair)
  have ip: "fds (snd (get_local_ip net w)) = fds w"
    using calls net_socket_law [OF assms(1) calls(1)] net_connect_law [OF assms(1) calls(2)]
      net_getsockname_law [OF assms(1) calls(3)] by (auto simp: get_local_ip_def net_close_law [OF assms(1)])
  obtain w4 where f: "find_iface net name ifs wi = (map_option ifa_name (find (has_host host name) ifs), w4)" "held w4 = held wi"
    using find_iface_finds [OF assms(1)] by blast
  then have iface: "held (snd (get_iface_name net name w)) = held w \<and>
    fst (get_iface_name net name w) = (if rc = -1 then [] else case find (has_host host name) ifs of Some i \<Rightarrow> ifa_name i | None \<Rightarrow> [])"
    using assms(3) getifaddrs_law [OF assms(1,3)] by (auto simp: get_iface_name_def freeifaddrs_law [OF assms(1)] split: option.splits)
  let ?args = "[show_int ep, show_int ip, c_text int_ip, c_text descr, ''TCP'', ''0'']"
  obtain r v3 where m: "upnp_add_mapping up (fst u) (snd u) ?args v2 = (r, v3)" by (metis surj_pair)
  note upnp = upnp_calls [OF assms(2)]
  have gate: "devs (snd (set_port_forward up ext ep int_ip ip descr v)) = devs v \<and>
    urls (snd (set_port_forward up ext ep int_ip ip descr v)) = (if dev = Some d \<and> 1 < code then Suc (urls v) else urls v) \<and>
    (fst (set_port_forward up ext ep int_ip ip descr v) \<longleftrightarrow> dev = Some d \<and> code = 1 \<and> r = 0)"
  proof (cases dev)
    case None
    with upnp(1) assms(4) show ?thesis by (simp add: set_port_forward_def)
  next
    case (Some d')
    with assms(5) have d: "dev = Some d" by simp
    with assms(4) have "upnp_discover up v = (Some d, e, v1)" by simp
    note laws = upnp(2) [OF this] upnp(3) [OF assms(6)] upnp(4) [OF m]
    show ?thesis using assms(4,6) d laws m upnp(5,6) by (cases u) (auto simp: set_port_forward_def)
  qed
  from ip iface gate m show ?thesis by simp
qed

record simupnp =
  su_devs :: "int list"
  su_urls :: nat

definition sim_upnp :: "simupnp upnp_api" where
  "sim_upnp = \<lparr>upnp_discover = (\<lambda>w. let d = fresh_id (su_devs w) in (Some d, 0, w\<lparr>su_devs := d # su_devs w\<rparr>)),
     upnp_valid_igd = (\<lambda>d w. (2, (''url'', ''WANIP''), w\<lparr>su_urls := Suc (su_urls w)\<rparr>)),
     upnp_add_mapping = (\<lambda>c t as w. (0, w)), upnp_free_urls = (\<lambda>w. w\<lparr>su_urls := su_urls w - 1\<rparr>),
     upnp_free_devlist = (\<lambda>d w. w\<lparr>su_devs := filter (\<lambda>x. x \<noteq> d) (su_devs w)\<rparr>)\<rparr>"

lemma sim_upnp_law: "upnp_law sim_upnp (\<lambda>w. set (su_devs w)) su_urls"
  unfolding upnp_law_def using fresh_id by (intro conjI allI impI) (auto simp: sim_upnp_def Let_def)

theorem lookups_give_back_witness:
  "fst (get_iface_name sim_net ''0.0.0.5'' \<lparr>sn_open = [], sn_held = 0\<rparr>) = ''eth0'' \<and>
   \<not> fst (set_port_forward sim_upnp ''1.2.3.4'' 80 ''0.0.0.5'' 8080 ''web'' \<lparr>su_devs = [], su_urls = 0\<rparr>) \<and>
   su_urls (snd (set_port_forward sim_upnp ''1.2.3.4'' 80 ''0.0.0.5'' 8080 ''web'' \<lparr>su_devs = [], su_urls = 0\<rparr>)) = 1"
proof -
  let ?v = "\<lparr>su_devs = [], su_urls = 0\<rparr>" and ?w = "\<lparr>sn_open = [], sn_held = 0\<rparr>"
  obtain ifs wi where g: "getifaddrs sim_net ?w = (0, ifs, wi)"
    and i: "find (has_host sim_host ''0.0.0.5'') ifs = Some \<lparr>ifa_addr = Some (Inet 5 0), ifa_name = ''eth0''\<rparr>"
    by (simp add: sim_net_def has_host_def)
  have d: "upnp_discover sim_upnp ?v = (Some 3, 0, ?v\<lparr>su_devs := [3]\<rparr>)" by (simp add: sim_upnp_def fresh_id_def)
  have igd: "upnp_valid_igd sim_upnp 3 (?v\<lparr>su_devs := [3]\<rparr>) = (2, (''url'', ''WANIP''), \<lparr>su_devs = [3], su_urls = 1\<rparr>)"
    by (simp add: sim_upnp_def)
  show ?thesis
    using lookups_give_back [OF sim_net_law sim_upnp_law g d _ igd, of "''0.0.0.5''" "''1.2.3.4''" 80 "''0.0.0.5''" 8080 "''web''"] i
    by simp
qed

end
