(* ===== verification/ProcManager.thy ===== *)
theory ProcManager
  imports Prelude "HOL-Library.Char_ord" "HOL-Library.List_Lexorder"
begin

text \<open>
  The process managers: \<open>core/iproc_manager.h\<close>, \<open>core/proc_unix.h\<close> and \<open>core/proc_win.h\<close>. A
  manager keeps the processes it started by name, in a \<open>std::map\<close>. What \<open>fork\<close>,
  \<open>execl\<close> and \<open>CreateProcess\<close> answer are arguments of the model; the signals and handles an
  operation sends and closes are answered in order.
\<close>

section \<open>Ordered maps\<close>

text \<open>A \<open>std::map\<close> is the list of its entries in ascending order of their keys.\<close>

fun map_put :: "'k::linorder \<Rightarrow> 'v \<Rightarrow> ('k \<times> 'v) list \<Rightarrow> ('k \<times> 'v) list" where
  "map_put k v [] = [(k, v)]"
| "map_put k v ((k', v') # xs) =
     (if k < k' then (k, v) # (k', v') # xs else if k = k' then (k, v) # xs else (k', v') # map_put k v xs)"

definition ordered :: "('k::linorder \<times> 'v) list \<Rightarrow> bool" where
  "ordered xs \<longleftrightarrow> sorted (map fst xs) \<and> distinct (map fst xs)"

lemma set_map_put: "set (map fst (map_put k v xs)) = insert k (set (map fst xs))"
  by (induction k v xs rule: map_put.induct) auto

lemma ordered_Cons: "ordered ((k, v) # xs) \<longleftrightarrow> (\<forall>x \<in> set (map fst xs). k < x) \<and> ordered xs"
  by (auto simp: ordered_def less_le)

lemma ordered_map_put: "ordered xs \<Longrightarrow> ordered (map_put k v xs)"
proof (induction xs)
  case Nil
  then show ?case by (simp add: ordered_def)
next
  case (Cons x xs)
  obtain k' v' where x: "x = (k', v')" by (cases x)
  with Cons have xs: "\<forall>y \<in> set (map fst xs). k' < y" "ordered (map_put k v xs)" "ordered xs" by (simp_all add: ordered_Cons)
  consider "k < k'" | "k = k'" | "k' < k" by (cases rule: linorder_cases)
  then show ?case
  proof cases
    case 1
    with x xs show ?thesis by (auto simp: ordered_Cons)
  next
    case 2
    with x xs show ?thesis by (auto simp: ordered_Cons)
  next
    case 3
    then have "map_put k v (x # xs) = (k', v') # map_put k v xs" using x by auto
    moreover have "\<forall>y \<in> set (map fst (map_put k v xs)). k' < y" using 3 xs(1) unfolding set_map_put by auto
    ultimately show ?thesis using xs(2) by (simp add: ordered_Cons)
  qed
qed

lemma map_of_map_put [simp]: "ordered xs \<Longrightarrow> map_of (map_put k v xs) = (map_of xs)(k \<mapsto> v)"
  by (induction k v xs rule: map_put.induct) (auto simp: ordered_Cons fun_eq_iff)

lemma ordered_delete: "ordered xs \<Longrightarrow> ordered (AList.delete k xs)"
proof -
  assume "ordered xs"
  then show "ordered (AList.delete k xs)"
    by (auto simp: ordered_def delete_keys removeAll_filter_not_eq distinct_removeAll sorted_wrt_filter)
qed

section \<open>The manager on Unix\<close>

type_synonym unix_procs = "(string \<times> int) list"

text \<open>In the child the process becomes the shell, or ends with status 1 when that fails.\<close>

datatype 's started = Parent 's | Child_exec string "string list" | Child_exit int

definition unix_new :: unix_procs where
  "unix_new = []"

definition unix_start :: "int \<Rightarrow> bool \<Rightarrow> string \<Rightarrow> string \<Rightarrow> unix_procs \<Rightarrow> unix_procs started outcome" where
  "unix_start fork_pid exec_ok name command procs =
     (if fork_pid = 0
      then Ret (if exec_ok then Child_exec ''/bin/sh'' [''sh'', ''-c'', c_text command] else Child_exit 1)
      else if 0 < fork_pid then Ret (Parent (map_put name fork_pid procs))
      else Throws ''Fork failed'')"

text \<open>Stopping answers the processes that are sent \<open>SIGTERM\<close>.\<close>

definition unix_stop :: "string \<Rightarrow> unix_procs \<Rightarrow> int list \<times> unix_procs" where
  "unix_stop name procs =
     (case map_of procs name of Some pid \<Rightarrow> ([pid], AList.delete name procs) | None \<Rightarrow> ([], procs))"

function unix_stop_all :: "unix_procs \<Rightarrow> int list \<times> unix_procs" where
  "unix_stop_all procs =
     (case procs of [] \<Rightarrow> ([], procs)
      | (name, pid) # rest \<Rightarrow>
          let (killed, procs') = unix_stop name procs; (killed', procs'') = unix_stop_all procs' in
          (killed @ killed', procs''))"
  by pat_completeness auto
termination
proof (relation "measure length")
  show "wf (measure (length :: unix_procs \<Rightarrow> nat))" by simp
next
  fix procs :: unix_procs and x rest name pid r killed procs'
  assume "procs = x # rest" "(name, pid) = x" "r = unix_stop name procs" "(killed, procs') = r"
  then have "procs' = AList.delete name rest" by (auto simp: unix_stop_def)
  then show "(procs', procs) \<in> measure length"
    using \<open>procs = x # rest\<close> length_delete_le [of name rest] by simp
qed

declare unix_stop_all.simps [simp del]

definition unix_get_pid :: "string \<Rightarrow> unix_procs \<Rightarrow> int" where
  "unix_get_pid name procs = (case map_of procs name of Some pid \<Rightarrow> pid | None \<Rightarrow> -1)"

section \<open>The manager on Windows\<close>

text \<open>
  \<open>stop_all\<close> of this manager calls a function \<open>stopProcess\<close> that does not exist, so it is not
  modelled. Stopping answers the process that is terminated and the handles that are closed.
\<close>

record process_info =
  h_process :: int
  h_thread :: int
  process_id :: "32 word"

type_synonym win_procs = "(string \<times> process_info) list"

definition win_start :: "process_info option \<Rightarrow> string \<Rightarrow> string \<Rightarrow> win_procs \<Rightarrow> win_procs outcome" where
  "win_start created name command procs =
     (case created of None \<Rightarrow> Throws ''CreateProcess failed'' | Some p \<Rightarrow> Ret (map_put name p procs))"

definition win_stop :: "string \<Rightarrow> win_procs \<Rightarrow> int list \<times> int list \<times> win_procs" where
  "win_stop name procs =
     (case map_of procs name of
        Some p \<Rightarrow> ([h_process p], [h_process p, h_thread p], AList.delete name procs)
      | None \<Rightarrow> ([], [], procs))"

definition win_get_pid :: "string \<Rightarrow> win_procs \<Rightarrow> int" where
  "win_get_pid name procs = (case map_of procs name of Some p \<Rightarrow> uint (process_id p) | None \<Rightarrow> 0)"

section \<open>The contract of a process manager\<close>

text \<open>
  What the interface promises its clients: starting a name records its process, stopping it
  forgets it and signals exactly the recorded process, and the number of a name that is not
  recorded is a value that no process has.
\<close>

locale proc_manager =
  fixes recorded :: "'s \<Rightarrow> string \<Rightarrow> 'p option" and good :: "'s \<Rightarrow> bool"
    and target :: "'p \<Rightarrow> int" and number :: "'p \<Rightarrow> int"
    and start :: "'p \<Rightarrow> string \<Rightarrow> 's \<Rightarrow> 's" and stop :: "string \<Rightarrow> 's \<Rightarrow> int list \<times> 's"
    and get_pid :: "string \<Rightarrow> 's \<Rightarrow> int" and missing :: int
  assumes start: "good s \<Longrightarrow> good (start p n s) \<and> recorded (start p n s) = (recorded s)(n \<mapsto> p)"
    and stop: "good s \<Longrightarrow> good (snd (stop n s)) \<and> recorded (snd (stop n s)) = (recorded s)(n := None) \<and>
                fst (stop n s) = (case recorded s n of None \<Rightarrow> [] | Some p \<Rightarrow> [target p])"
    and get_pid: "good s \<Longrightarrow> get_pid n s = (case recorded s n of None \<Rightarrow> missing | Some p \<Rightarrow> number p)"
begin

text \<open>A client runs starts and stops; the signals are answered in order.\<close>

fun run :: "(string \<times> 'p option) list \<Rightarrow> 's \<Rightarrow> int list \<times> 's" where
  "run [] s = ([], s)"
| "run ((n, Some p) # ops) s = run ops (start p n s)"
| "run ((n, None) # ops) s = (let (k, s') = stop n s; (ks, s'') = run ops s' in (k @ ks, s''))"

text \<open>Only recorded processes and processes started later are ever signalled or recorded.\<close>

lemma run_known:
  "good s \<Longrightarrow> good (snd (run ops s)) \<and>
     set (fst (run ops s)) \<union> target ` ran (recorded (snd (run ops s)))
       \<subseteq> target ` (ran (recorded s) \<union> {p. \<exists>n. (n, Some p) \<in> set ops})"
proof (induction ops s rule: run.induct)
  case (1 s)
  then show ?case by simp
next
  case (2 n p ops s)
  then have g: "good (start p n s)" and r: "recorded (start p n s) = (recorded s)(n \<mapsto> p)" using start by blast+
  have "ran (recorded (start p n s)) \<subseteq> insert p (ran (recorded s))" unfolding r by (auto simp: ran_def)
  then have "ran (recorded (start p n s)) \<union> {q. \<exists>m. (m, Some q) \<in> set ops} \<subseteq> ran (recorded s) \<union> {q. \<exists>m. (m, Some q) \<in> set ((n, Some p) # ops)}"
    by auto
  from subset_trans [OF conjunct2 [OF 2(1) [OF g]] image_mono [OF this, of target]] 2(1) [OF g]
  show ?case by (simp only: run.simps)
next
  case (3 n ops s)
  obtain k s' where st: "stop n s = (k, s')" by (cases "stop n s")
  with stop [OF 3(2), of n] have s': "good s'" "recorded s' = (recorded s)(n := None)"
      "k = (case recorded s n of None \<Rightarrow> [] | Some p \<Rightarrow> [target p])" by simp_all
  then have k: "set k \<subseteq> target ` ran (recorded s)" by (auto split: option.splits simp: ran_def)
  have "ran (recorded s') \<subseteq> ran (recorded s)" unfolding s'(2) by (auto simp: ran_def split: if_splits)
  then have "ran (recorded s') \<union> {q. \<exists>m. (m, Some q) \<in> set ops} \<subseteq> ran (recorded s) \<union> {q. \<exists>m. (m, Some q) \<in> set ((n, None) # ops)}"
    by auto
  note sub = subset_trans [OF conjunct2 [OF 3(1) [OF st [symmetric] refl s'(1)]] image_mono [OF this, of target]]
  obtain ks s'' where r: "run ops s' = (ks, s'')" by (cases "run ops s'")
  then have eq: "run ((n, None) # ops) s = (k @ ks, s'')" using st by simp
  let ?T = "target ` (ran (recorded s) \<union> {q. \<exists>m. (m, Some q) \<in> set ((n, None) # ops)})"
  have "set k \<subseteq> ?T" using k by blast
  moreover have "set ks \<union> target ` ran (recorded s'') \<subseteq> ?T" using sub unfolding r by (simp only: fst_conv snd_conv)
  moreover have "good s''" using 3(1) [OF st [symmetric] refl s'(1)] r by simp
  ultimately show ?case unfolding eq by (simp only: fst_conv snd_conv set_append Un_assoc Un_least simp_thms)
qed

text \<open>A process whose name was started again is orphaned: it is neither signalled nor recorded again.\<close>

lemma restart_orphans:
  assumes "good s" "recorded s n = Some old" "target old \<notin> target ` ran ((recorded s)(n := None))"
    and "target old \<noteq> target p" "\<forall>m q. (m, Some q) \<in> set ops \<longrightarrow> target q \<noteq> target old"
  shows "target old \<notin> set (fst (run ((n, Some p) # ops) s)) \<union> target ` ran (recorded (snd (run ((n, Some p) # ops) s)))"
proof
  have g: "good (start p n s)" and r: "recorded (start p n s) = (recorded s)(n \<mapsto> p)" using start assms(1) by blast+
  assume "target old \<in> set (fst (run ((n, Some p) # ops) s)) \<union> target ` ran (recorded (snd (run ((n, Some p) # ops) s)))"
  with run_known [OF g, of ops] have "target old \<in> target ` (ran (recorded (start p n s)) \<union> {p. \<exists>n. (n, Some p) \<in> set ops})" by auto
  moreover have "ran (recorded (start p n s)) \<subseteq> insert p (ran ((recorded s)(n := None)))"
    unfolding r by (auto simp: ran_def split: if_splits)
  ultimately show False using assms(3-5) by fastforce
qed

end

text \<open>Both managers keep the contract, with -1 and 0 for a missing name.\<close>

definition unix_put :: "int \<Rightarrow> string \<Rightarrow> unix_procs \<Rightarrow> unix_procs" where
  "unix_put pid name procs = map_put name pid procs"

definition win_put :: "process_info \<Rightarrow> string \<Rightarrow> win_procs \<Rightarrow> win_procs" where
  "win_put p name procs = map_put name p procs"

definition win_terminate :: "string \<Rightarrow> win_procs \<Rightarrow> int list \<times> win_procs" where
  "win_terminate name procs = (case win_stop name procs of (killed, closed, procs') \<Rightarrow> (killed, procs'))"

interpretation unix: proc_manager map_of ordered "\<lambda>p. p" "\<lambda>p. p" unix_put unix_stop unix_get_pid "-1"
proof
  show "ordered s \<Longrightarrow> ordered (unix_put p n s) \<and> map_of (unix_put p n s) = (map_of s)(n \<mapsto> p)" for s p n
    by (simp add: unix_put_def ordered_map_put)
  show "ordered s \<Longrightarrow> ordered (snd (unix_stop n s)) \<and> map_of (snd (unix_stop n s)) = (map_of s)(n := None) \<and>
      fst (unix_stop n s) = (case map_of s n of None \<Rightarrow> [] | Some p \<Rightarrow> [p])" for s n
    by (auto simp: unix_stop_def ordered_delete delete_conv' fun_upd_idem split: option.splits)
  show "unix_get_pid n s = (case map_of s n of None \<Rightarrow> - 1 | Some p \<Rightarrow> p)" for n s
    by (simp add: unix_get_pid_def)
qed

interpretation win: proc_manager map_of ordered h_process "\<lambda>p. uint (process_id p)" win_put win_terminate win_get_pid 0
proof
  show "ordered s \<Longrightarrow> ordered (win_put p n s) \<and> map_of (win_put p n s) = (map_of s)(n \<mapsto> p)" for s p n
    by (simp add: win_put_def ordered_map_put)
  show "ordered s \<Longrightarrow> ordered (snd (win_terminate n s)) \<and> map_of (snd (win_terminate n s)) = (map_of s)(n := None) \<and>
      fst (win_terminate n s) = (case map_of s n of None \<Rightarrow> [] | Some p \<Rightarrow> [h_process p])" for s n
    by (auto simp: win_terminate_def win_stop_def ordered_delete delete_conv' fun_upd_idem split: option.splits)
  show "win_get_pid n s = (case map_of s n of None \<Rightarrow> 0 | Some p \<Rightarrow> uint (process_id p))" for n s
    by (simp add: win_get_pid_def)
qed

section \<open>Properties\<close>

lemma unix_stop_all_kills:
  "ordered procs \<Longrightarrow> unix_stop_all procs = (map snd procs, [])"
proof (induction procs)
  case Nil
  then show ?case by (simp add: unix_stop_all.simps)
next
  case (Cons x rest)
  obtain n p where x: "x = (n, p)" by (cases x)
  with Cons.prems have "n \<notin> fst ` set rest" "ordered rest" by (auto simp: ordered_def)
  with Cons.IH x show ?case by (subst unix_stop_all.simps) (simp add: unix_stop_def)
qed

text \<open>
  The processes of the manager. Stopping all signals exactly the recorded processes, each
  once, in the order of their names, and leaves none recorded; after a start the name has the
  new number, after a stop -1. But starting a name that is already running only replaces the
  entry: whatever is started and stopped afterwards, the old process is never signalled again.
\<close>

theorem process_table:
  assumes "ordered procs"
    and "map_of procs n = Some old" "old \<notin> ran ((map_of procs)(n := None))"
    and "0 < pid" "pid \<noteq> old" "\<forall>m q. (m, Some q) \<in> set ops \<longrightarrow> q \<noteq> old"
  shows "unix_stop_all procs = (map snd procs, []) \<and>
    unix_start pid e n cmd procs = Ret (Parent (unix_put pid n procs)) \<and>
    unix_get_pid n (unix_put pid n procs) = pid \<and> unix_get_pid n (snd (unix_stop n procs)) = -1 \<and>
    old \<notin> set (fst (unix.run ((n, Some pid) # ops) procs)) \<and>
    old \<notin> set (fst (unix_stop_all (snd (unix.run ((n, Some pid) # ops) procs))))"
proof -
  note orphan = unix.restart_orphans [OF assms(1,2), of pid ops]
  let ?s = "snd (unix.run ((n, Some pid) # ops) procs)"
  have "ordered (unix_put pid n procs)" by (simp add: unix_put_def ordered_map_put assms(1))
  then have "ordered ?s" using unix.run_known [of "unix_put pid n procs" ops] by simp
  then have "set (fst (unix_stop_all ?s)) = ran (map_of ?s)"
    by (simp add: unix_stop_all_kills ordered_def ran_distinct)
  with orphan assms(3-6) have "old \<notin> set (fst (unix.run ((n, Some pid) # ops) procs))" "old \<notin> set (fst (unix_stop_all ?s))"
    by auto
  moreover have "unix_get_pid n (unix_put pid n procs) = pid" "unix_get_pid n (snd (unix_stop n procs)) = -1"
    using assms(1,2) by (simp_all add: unix_get_pid_def unix_put_def unix_stop_def delete_conv')
  ultimately show ?thesis using assms(1,4) by (simp add: unix_stop_all_kills unix_start_def unix_put_def)
qed

theorem process_table_witness:
  "fst (unix_stop_all [(''a'', 11), (''b'', 12)]) = [11, 12] \<and>
   fst (unix_stop_all (snd (unix.run [(''a'', Some 13), (''b'', None)] [(''a'', 11), (''b'', 12)]))) = [13]"
proof -
  have o: "ordered [(''a'', 11), (''b'', 12 :: int)]" by (simp add: ordered_def less_char_def)
  have m: "map_of [(''a'', 11), (''b'', 12 :: int)] ''a'' = Some 11" by simp
  have r: "(11 :: int) \<notin> ran ((map_of [(''a'', 11), (''b'', 12)])(''a'' := None))" by (auto simp: ran_def)
  from process_table [OF o m r, of 13 "[(''b'', None)]" True "''x''"]
  have "unix_stop_all [(''a'', 11), (''b'', 12)] = ([11, 12], [])" by simp
  then show ?thesis
    by (simp add: unix_put_def unix_stop_def unix_stop_all.simps less_char_def)
qed

end
