(* ===== verification/ErrorTypes.thy ===== *)
theory ErrorTypes
  imports Prelude
begin

text \<open>
  Error values of the program. \<open>ErrorCode\<close> is the enumeration of
  \<open>core/common/5thderror_handler.h\<close>. The classes \<open>Result\<close>, \<open>VoidResult\<close>,
  \<open>ErrorHandler\<close> and \<open>DisasterRecoveryPlan\<close> come from \<open>qwistys_error_handler.h\<close>,
  which is not part of the repository: a result is a value of a sum type (\<open>Inl\<close> for
  \<open>Err\<close>, \<open>Inr\<close> for \<open>Ok\<close>), a recovery plan is the table of what the registered
  actions answer, and \<open>handle_error\<close> is a parameter of every definition that calls it.
\<close>

datatype ErrorCode =
    OK
  | SOCKET_INIT_FAIL
  | SOCKET_CLOSE_FAIL
  | SOCKET_SEND_FAIL
  | SOCKET_TIMEOUT
  | SOCKET_CONNECT_FAIL
  | FAIL_POLL_SOCKET
  | SEND_HEARTBEAT_FAIL
  | FAIL_CLOSE_ZQM_CTX
  | FAIL_CLOSE_ZQM_SOCKET
  | FAIL_OPEN_ZMQ_CTX
  | FAIL_OPEN_SOCKET
  | FAIL_TO_BIND
  | FAIL_BIND_SOCKET
  | FAIL_INIT_LISTENER
  | FAIL_INIT_KEYS
  | FAIL_SET_SOCKOPT
  | FAIL_SETSOCKOPT_ID
  | FAIL_UPNP_FORWARD
  | FIAIL_RECV_MSG
  | FAIL_SEND_FRAME
  | NO_OBJECT
  | OBJ_RECEIVER_INIT_FAIL
  | FAIT_INIT_DB
  | FAIL_CREATE_DB_SCHEME
  | FAIL_OPEN_DB_FILE
  | FAIL_DECRYPT_DB
  | DB_PREPARE_STATEMENT_FAILED
  | DB_STATEMENT_EXECUTION_FAILED
  | DB_BIND_FAILED
  | KEY_NOT_FOUND
  | FAIL_ADD_KEY
  | FAIL_UPDATE_KEY
  | FAIL_GET_KEY
  | FAIL_REMOVE_KEY
  | KEY_TYPE_NOT_FOUND
  | NO_VALID_DB
  | DB_MISSING_TABLES
  | FAIL_DB_EXEC
  | DB_ERROR
  | FAIL_CLOSE_DB
  | INVALID_IDENTITY
  | MANAGE_BUFF_FULL
  | MANAGE_BUFF_OVERFLOW
  | MANAGE_BUFF_MONKEY
  | MANAGE_BUFF_NULL_ON_RELEASE
  | MANAGE_BUFF_SLOT_NOT_IN_RANGE
  | MONKEY
  | TOTAL

text \<open>The severities the source names; \<open>None\<close> in an error is the library's default.\<close>

datatype severity = LOW | MEDIUM | HIGH | CRITICAL

record error =
  code :: ErrorCode
  message :: string
  severity :: "severity option"

type_synonym 'a result = "error + 'a"
type_synonym void_result = "unit result"

definition Err :: "ErrorCode \<Rightarrow> string \<Rightarrow> 'a result" where
  "Err c m = Inl \<lparr>code = c, message = m, severity = None\<rparr>"

definition Err_sev :: "ErrorCode \<Rightarrow> string \<Rightarrow> severity \<Rightarrow> 'a result" where
  "Err_sev c m s = Inl \<lparr>code = c, message = m, severity = Some s\<rparr>"

fun is_err :: "'a result \<Rightarrow> bool" where
  "is_err (Inl e) = True"
| "is_err (Inr v) = False"

text \<open>
  A recovery plan maps an error code to the answer of the action registered for it.
  \<open>runs_registered\<close> is what the code relies on of \<open>ErrorHandler::handle_error\<close>: for a
  code with a registered action, it answers what the action answers.
\<close>

type_synonym recovery_plan = "ErrorCode \<Rightarrow> bool option"
type_synonym error_handler = "recovery_plan \<Rightarrow> error \<Rightarrow> bool"

definition runs_registered :: "error_handler \<Rightarrow> bool" where
  "runs_registered he \<longleftrightarrow> (\<forall>drp e b. drp (code e) = Some b \<longrightarrow> he drp e = b)"

lemma runs_registeredD: "runs_registered he \<Longrightarrow> drp (code e) = Some b \<Longrightarrow> he drp e = b"
  by (simp add: runs_registered_def)

text \<open>An instance: run the registered action, and answer false where there is none.\<close>

definition plain_handler :: error_handler where
  "plain_handler drp e = (case drp (code e) of Some b \<Rightarrow> b | None \<Rightarrow> False)"

lemma plain_handler_runs_registered [simp]: "runs_registered plain_handler"
  by (simp add: runs_registered_def plain_handler_def)

lemma is_err_Err [simp]: "is_err (Err c m)" "is_err (Err_sev c m s)"
  by (simp_all add: Err_def Err_sev_def)

lemma is_err_iff: "is_err r \<longleftrightarrow> (\<exists>e. r = Inl e)"
  by (cases r) auto

end
