(* ===== verification/Sql.thy ===== *)
theory Sql
  imports ErrorTypes
begin

text \<open>
  \<open>DatabaseAccess\<close> of \<open>core/common/5thdsql.h\<close> and \<open>core/5thdsql.cpp\<close>. SQLite/SQLCipher,
  libsodium and the file system are not part of the repository: their calls are the fields of
  a record over an abstract state \<open>'w\<close>. Return codes are SQLite's.
\<close>

section \<open>The libraries\<close>

datatype sql_value = SQL_Null | SQL_Int int | SQL_Text string | SQL_Blob "byte list"

definition SQLITE_OK :: int where "SQLITE_OK = 0"
definition SQLITE_BUSY :: int where "SQLITE_BUSY = 5"
definition SQLITE_ROW :: int where "SQLITE_ROW = 100"
definition SQLITE_DONE :: int where "SQLITE_DONE = 101"

lemmas sqlite_codes = SQLITE_OK_def SQLITE_BUSY_def SQLITE_ROW_def SQLITE_DONE_def

text \<open>
  A connection and a statement are handles. \<open>sqlite3_columns\<close> are the names and values of the
  row a statement stands on (as many as \<open>sqlite3_column_count\<close>); \<open>sqlite3_bind\<close> is the family
  of the four bind calls; \<open>sqlite3_get_table\<close> answers the table of cells, the number of rows
  and of columns; \<open>sodium_malloc\<close> whether the allocation succeeded.
\<close>

record 'w sqlite_api =
  sqlite3_open :: "string \<Rightarrow> 'w \<Rightarrow> int \<times> int \<times> 'w"
  sqlite3_key :: "int \<Rightarrow> byte list option \<Rightarrow> nat \<Rightarrow> 'w \<Rightarrow> int \<times> 'w"
  sqlite3_close :: "int \<Rightarrow> 'w \<Rightarrow> int \<times> 'w"
  sqlite3_busy_timeout :: "int \<Rightarrow> int \<Rightarrow> 'w \<Rightarrow> 'w"
  sqlite3_next_stmt :: "int \<Rightarrow> 'w \<Rightarrow> int option"
  sqlite3_finalize :: "int \<Rightarrow> 'w \<Rightarrow> 'w"
  sqlite3_prepare :: "int \<Rightarrow> string \<Rightarrow> 'w \<Rightarrow> int \<times> int \<times> 'w"
  sqlite3_step :: "int \<Rightarrow> 'w \<Rightarrow> int \<times> 'w"
  sqlite3_columns :: "int \<Rightarrow> 'w \<Rightarrow> (string \<times> sql_value) list"
  sqlite3_bind :: "int \<Rightarrow> nat \<Rightarrow> sql_value \<Rightarrow> 'w \<Rightarrow> int \<times> 'w"
  sqlite3_exec :: "int \<Rightarrow> string \<Rightarrow> 'w \<Rightarrow> int \<times> string option \<times> 'w"
  sqlite3_get_table :: "int option \<Rightarrow> string \<Rightarrow> 'w \<Rightarrow> int \<times> string list \<times> nat \<times> nat \<times> string option \<times> 'w"
  sqlite3_errmsg :: "int option \<Rightarrow> 'w \<Rightarrow> string"
  file_exists :: "string \<Rightarrow> 'w \<Rightarrow> bool"
  read_file :: "string \<Rightarrow> 'w \<Rightarrow> string option"
  sodium_malloc :: "nat \<Rightarrow> 'w \<Rightarrow> bool \<times> 'w"

section \<open>State and results\<close>

record row =
  columns :: "(string \<times> byte list) list"

record sdbret =
  rows :: "row list"
  total_size :: nat

definition sdbret_new :: sdbret where
  "sdbret_new = \<lparr>rows = [], total_size = 0\<rparr>"

text \<open>\<open>flush\<close> zeroes the memory of every column, then forgets the rows: the zeroed columns are answered too.\<close>

definition sdbret_flush :: "sdbret \<Rightarrow> row list \<times> sdbret" where
  "sdbret_flush r =
     (map (\<lambda>ro. ro\<lparr>columns := map (\<lambda>(n, v). (n, replicate (length v) 0)) (columns ro)\<rparr>) (rows r),
      r\<lparr>rows := [], total_size := 0\<rparr>)"

record database =
  db_ptr :: "int option"
  db_path :: string
  db_key :: "byte list option"
  db_key_num_byte :: nat

definition handle_open :: bool where "handle_open = False"
definition handle_add_scheme :: bool where "handle_add_scheme = False"
definition handle_new_db :: bool where "handle_new_db = False"

definition database_drp :: recovery_plan where
  "database_drp = [FAIT_INIT_DB \<mapsto> handle_new_db, FAIL_OPEN_DB_FILE \<mapsto> handle_open,
     FAIL_DECRYPT_DB \<mapsto> handle_open, FAIL_CREATE_DB_SCHEME \<mapsto> handle_add_scheme]"

section \<open>Statements\<close>

definition db_prepare :: "'w sqlite_api \<Rightarrow> string \<Rightarrow> database \<Rightarrow> 'w \<Rightarrow> int result \<times> 'w" where
  "db_prepare lib sql d w =
     (case db_ptr d of
        None \<Rightarrow> (Err NO_VALID_DB ''Database connection is null'', w)
      | Some p \<Rightarrow> let (rc, stmt, w') = sqlite3_prepare lib p (c_text sql) w in
          if rc \<noteq> SQLITE_OK
          then (Err DB_PREPARE_STATEMENT_FAILED (''Failed to prepare statement: '' @ sqlite3_errmsg lib (Some p) w'), w')
          else (Inr stmt, w'))"

definition db_execute :: "'w sqlite_api \<Rightarrow> int \<Rightarrow> database \<Rightarrow> 'w \<Rightarrow> void_result \<times> 'w" where
  "db_execute lib stmt d w =
     (let (rc, w1) = sqlite3_step lib stmt w; w2 = sqlite3_finalize lib stmt w1 in
      if rc \<noteq> SQLITE_DONE
      then (Err DB_STATEMENT_EXECUTION_FAILED (''Failed to execute statement: '' @ sqlite3_errmsg lib (db_ptr d) w2), w2)
      else (Inr (), w2))"

definition bind_result :: "'w sqlite_api \<Rightarrow> string \<Rightarrow> database \<Rightarrow> int \<times> 'w \<Rightarrow> void_result \<times> 'w" where
  "bind_result lib what d rw =
     (if fst rw \<noteq> SQLITE_OK
      then (Err DB_BIND_FAILED (''Failed to bind '' @ what @ '': '' @ sqlite3_errmsg lib (db_ptr d) (snd rw)), snd rw)
      else (Inr (), snd rw))"

definition db_bind_int :: "'w sqlite_api \<Rightarrow> int \<Rightarrow> nat \<Rightarrow> int \<Rightarrow> database \<Rightarrow> 'w \<Rightarrow> void_result \<times> 'w" where
  "db_bind_int lib stmt i v d w = bind_result lib ''integer'' d (sqlite3_bind lib stmt i (SQL_Int v) w)"

definition db_bind_text :: "'w sqlite_api \<Rightarrow> int \<Rightarrow> nat \<Rightarrow> string \<Rightarrow> database \<Rightarrow> 'w \<Rightarrow> void_result \<times> 'w" where
  "db_bind_text lib stmt i v d w = bind_result lib ''text'' d (sqlite3_bind lib stmt i (SQL_Text (c_text v)) w)"

definition db_bind_null :: "'w sqlite_api \<Rightarrow> int \<Rightarrow> nat \<Rightarrow> database \<Rightarrow> 'w \<Rightarrow> void_result \<times> 'w" where
  "db_bind_null lib stmt i d w = bind_result lib ''null'' d (sqlite3_bind lib stmt i SQL_Null w)"

definition db_bind_blob :: "'w sqlite_api \<Rightarrow> int \<Rightarrow> nat \<Rightarrow> byte list \<Rightarrow> database \<Rightarrow> 'w \<Rightarrow> void_result \<times> 'w" where
  "db_bind_blob lib stmt i v d w = bind_result lib ''BLOB data'' d (sqlite3_bind lib stmt i (SQL_Blob v) w)"

text \<open>The bytes of a column; a null column has none.\<close>

fun column_bytes :: "sql_value \<Rightarrow> byte list" where
  "column_bytes SQL_Null = []"
| "column_bytes (SQL_Int i) = bytes_of (show_int i)"
| "column_bytes (SQL_Text s) = bytes_of s"
| "column_bytes (SQL_Blob b) = b"

definition read_row :: "(string \<times> sql_value) list \<Rightarrow> row" where
  "read_row cols = \<lparr>columns = map (\<lambda>(n, v). (n, column_bytes v)) cols\<rparr>"

definition row_size :: "(string \<times> sql_value) list \<Rightarrow> nat" where
  "row_size cols = sum_list (map (\<lambda>(n, v). length n + length (column_bytes v)) cols)"

partial_function (option) query_loop ::
    "'w sqlite_api \<Rightarrow> int \<Rightarrow> sdbret \<Rightarrow> 'w \<Rightarrow> (int \<times> sdbret \<times> 'w) outcome option" where
  "query_loop lib stmt r w =
     (let (rc, w') = sqlite3_step lib stmt w in
      if rc = SQLITE_ROW
      then let cols = sqlite3_columns lib stmt w' in
        query_loop lib stmt
          (r\<lparr>rows := rows r @ [read_row cols], total_size := total_size r + row_size cols\<rparr>) w'
      else Some (Ret (rc, r, w')))"

definition db_query ::
    "'w sqlite_api \<Rightarrow> int \<Rightarrow> sdbret \<Rightarrow> database \<Rightarrow> 'w \<Rightarrow> (void_result \<times> sdbret \<times> 'w) outcome" where
  "db_query lib stmt r d w =
     obind (of_loop (query_loop lib stmt (snd (sdbret_flush r)) w)) (\<lambda>(rc, r', w').
       Ret (if rc \<noteq> SQLITE_DONE then Err DB_ERROR ''Db step'' else Inr (), r', w'))"

partial_function (option) exec_loop :: "'w sqlite_api \<Rightarrow> int \<Rightarrow> 'w \<Rightarrow> (int \<times> 'w) outcome option" where
  "exec_loop lib stmt w =
     (let (rc, w') = sqlite3_step lib stmt w in
      if rc = SQLITE_ROW then exec_loop lib stmt w' else Some (Ret (rc, w')))"

definition db_exec :: "'w sqlite_api \<Rightarrow> string \<Rightarrow> database \<Rightarrow> 'w \<Rightarrow> (void_result \<times> 'w) outcome" where
  "db_exec lib sql d w =
     (case db_ptr d of
        None \<Rightarrow> Ret (Err NO_VALID_DB ''Db pointer is null'', w)
      | Some p \<Rightarrow> let (rc, stmt, w1) = sqlite3_prepare lib p (c_text sql) w in
          if rc \<noteq> SQLITE_OK
          then Ret (Err DB_PREPARE_STATEMENT_FAILED
                      (''Failed to prepare statement: '' @ sqlite3_errmsg lib (Some p) w1), w1)
          else obind (of_loop (exec_loop lib stmt w1)) (\<lambda>(rc, w2). let w3 = sqlite3_finalize lib stmt w2 in
            if rc \<noteq> SQLITE_DONE \<and> rc \<noteq> SQLITE_ROW
            then Ret (Err DB_STATEMENT_EXECUTION_FAILED
                        (''Failed to execute statement: '' @ sqlite3_errmsg lib (Some p) w3), w3)
            else Ret (Inr (), w3)))"

definition begin_transaction :: "'w sqlite_api \<Rightarrow> database \<Rightarrow> 'w \<Rightarrow> (void_result \<times> 'w) outcome" where
  "begin_transaction lib d w = db_exec lib ''BEGIN TRANSACTION;'' d w"

definition end_transaction :: "'w sqlite_api \<Rightarrow> database \<Rightarrow> 'w \<Rightarrow> (void_result \<times> 'w) outcome" where
  "end_transaction lib d w = db_exec lib ''COMMIT;'' d w"

section \<open>Opening and closing\<close>

definition db_open :: "'w sqlite_api \<Rightarrow> database \<Rightarrow> 'w \<Rightarrow> (void_result \<times> database \<times> 'w) outcome" where
  "db_open lib d w =
     (if db_ptr d \<noteq> None then Ret (Inr (), d, w)
      else let (rc, p, w1) = sqlite3_open lib (c_text (db_path d)) w in
        if rc \<noteq> SQLITE_OK
        then Ret (Err_sev FAIL_OPEN_DB_FILE (''Fail to open db file: '' @ db_path d) HIGH,
                  d\<lparr>db_ptr := None\<rparr>, snd (sqlite3_close lib p w1))
        else let (rc, w2) = sqlite3_key lib p (db_key d) (db_key_num_byte d) w1 in
          if rc \<noteq> SQLITE_OK
          then Ret (Err_sev FAIL_DECRYPT_DB ''fail to decrypt the database'' HIGH,
                    d\<lparr>db_ptr := None\<rparr>, snd (sqlite3_close lib p w2))
          else let d1 = d\<lparr>db_ptr := Some p\<rparr> in
            obind (db_exec lib ''PRAGMA journal_mode = WAL;'' d1 w2) (\<lambda>(ret, w3).
              Ret (Inr (), d1\<lparr>db_key := None, db_key_num_byte := 0\<rparr>, sqlite3_busy_timeout lib p 5000 w3)))"

text \<open>The two loops of \<open>close\<close>: the second only reports the statement it finds.\<close>

partial_function (option) finalize_loop :: "'w sqlite_api \<Rightarrow> int \<Rightarrow> 'w \<Rightarrow> 'w outcome option" where
  "finalize_loop lib p w =
     (case sqlite3_next_stmt lib p w of
        None \<Rightarrow> Some (Ret w)
      | Some stmt \<Rightarrow> finalize_loop lib p (sqlite3_finalize lib stmt w))"

partial_function (option) report_loop :: "'w sqlite_api \<Rightarrow> int \<Rightarrow> 'w \<Rightarrow> unit outcome option" where
  "report_loop lib p w =
     (case sqlite3_next_stmt lib p w of
        None \<Rightarrow> Some (Ret ())
      | Some stmt \<Rightarrow> report_loop lib p w)"

definition db_close :: "'w sqlite_api \<Rightarrow> database \<Rightarrow> 'w \<Rightarrow> (void_result \<times> database \<times> 'w) outcome" where
  "db_close lib d w =
     (case db_ptr d of
        None \<Rightarrow> Ret (Inr (), d, w)
      | Some p \<Rightarrow> obind (of_loop (finalize_loop lib p w)) (\<lambda>w1.
          let (rc, w2) = sqlite3_close lib p w1 in
          if rc \<noteq> SQLITE_OK
          then obind (if rc = SQLITE_BUSY then of_loop (report_loop lib p w2) else Ret ()) (\<lambda>_.
            Ret (Err FAIL_CLOSE_DB (''Failed to close database: '' @ sqlite3_errmsg lib (Some p) w2), d, w2))
          else Ret (Inr (), d\<lparr>db_ptr := None\<rparr>, w2)))"

text \<open>The destructor; what it reports goes to the error handler, which cannot stop it.\<close>

definition db_destroy :: "'w sqlite_api \<Rightarrow> database \<Rightarrow> 'w \<Rightarrow> (database \<times> 'w) outcome" where
  "db_destroy lib d w =
     obind (db_close lib d w) (\<lambda>(ret, d', w'). Ret (d'\<lparr>db_key := None\<rparr>, w'))"

section \<open>The scheme\<close>

definition read_scheme_script :: "'w sqlite_api \<Rightarrow> string \<Rightarrow> 'w \<Rightarrow> string outcome" where
  "read_scheme_script lib path w = (case read_file lib path w of None \<Rightarrow> Aborts | Some s \<Rightarrow> Ret s)"

definition add_scheme :: "'w sqlite_api \<Rightarrow> string \<Rightarrow> database \<Rightarrow> 'w \<Rightarrow> (void_result \<times> 'w) outcome" where
  "add_scheme lib path d w =
     (case db_ptr d of
        None \<Rightarrow> Ret (Err NO_VALID_DB ''Db pointer is null'', w)
      | Some p \<Rightarrow> obind (read_scheme_script lib path w) (\<lambda>sql.
          let (rc, errmsg, w') = sqlite3_exec lib p (c_text sql) w in
          if rc \<noteq> SQLITE_OK
          then Ret (Err FAIL_CREATE_DB_SCHEME (''Failed to create db scheme: '' @
                      (case errmsg of None \<Rightarrow> ''Unknown error'' | Some e \<Rightarrow> e)), w')
          else Ret (Inr (), w')))"

definition check_tables_sql :: string where
  "check_tables_sql =
     ''SELECT name FROM sqlite_master WHERE type='' @ [CHR 0x27] @ ''table'' @ [CHR 0x27] @
     '' AND (name='' @ [CHR 0x27] @ ''key_types'' @ [CHR 0x27] @ '' AND name='' @ [CHR 0x27] @ ''module_keys'' @
     [CHR 0x27] @ '');''"

text \<open>The cells after the header row, one per row, as a set; a cell outside the table is undefined.\<close>

definition verify_tables :: "'w sqlite_api \<Rightarrow> database \<Rightarrow> 'w \<Rightarrow> (void_result \<times> 'w) outcome" where
  "verify_tables lib d w =
     (case sqlite3_get_table lib (db_ptr d) check_tables_sql w of (rc, results, nrows, ncols, errmsg, w') \<Rightarrow>
        if rc \<noteq> SQLITE_OK
        then Ret (Err DB_ERROR (''Failed to verify tables: '' @
                    (case errmsg of None \<Rightarrow> ''Unknown error'' | Some e \<Rightarrow> e)), w')
        else if \<exists>i\<in>set [1..<nrows + 1]. length results \<le> i * ncols then Undefined
        else let found_tables = set (map (\<lambda>i. results ! (i * ncols)) [1..<nrows + 1]) in
          if card found_tables \<noteq> 2
          then Ret (Err DB_MISSING_TABLES ''Not all required tables were created'', w')
          else Ret (Inr (), w'))"

definition sql_script_path :: string where
  "sql_script_path = ''/home/qwistys/src/5thD/db_scripts/table_keys.sql''"

definition new_db ::
    "'w sqlite_api \<Rightarrow> error_handler \<Rightarrow> database \<Rightarrow> 'w \<Rightarrow> (void_result \<times> database \<times> 'w) outcome" where
  "new_db lib he d w =
     obind (db_open lib d w) (\<lambda>(ret_open, d1, w1).
       if (case ret_open of Inl e \<Rightarrow> \<not> he database_drp e | Inr _ \<Rightarrow> False) then Aborts
       else if \<not> file_exists lib sql_script_path w1 then Aborts
       else obind (add_scheme lib sql_script_path d1 w1) (\<lambda>(ret_scheme, w2).
         if is_err ret_scheme then Ret (Err_sev FAIL_CREATE_DB_SCHEME ''Fail to create db scheme'' HIGH, d1, w2)
         else obind (verify_tables lib d1 w2) (\<lambda>(verify_result, w3). Ret (Inr (), d1, w3))))"

definition db_init ::
    "'w sqlite_api \<Rightarrow> error_handler \<Rightarrow> string \<Rightarrow> byte list \<Rightarrow> 'w \<Rightarrow> (database \<times> 'w) outcome" where
  "db_init lib he path encryption_key w =
     (let (allocated, w1) = sodium_malloc lib (length encryption_key) w in
      if \<not> allocated then Aborts
      else let d = \<lparr>db_ptr = None, db_path = path, db_key = Some encryption_key,
                    db_key_num_byte = length encryption_key\<rparr> in
        obind (if \<not> file_exists lib path w1
               then obind (new_db lib he d w1) (\<lambda>(ret, d1, w2).
                 if (case ret of Inl e \<Rightarrow> \<not> he database_drp e | Inr _ \<Rightarrow> False) then Aborts else Ret (d1, w2))
               else Ret (d, w1))
          (\<lambda>(d1, w2). obind (db_open lib d1 w2) (\<lambda>(ret, d2, w3). Ret (d2, w3))))"

end
