(* ===== verification/KeysDb.thy ===== *)
theory KeysDb
  imports Sql
begin

text \<open>
  The key store of \<open>core/common/keys_db.h\<close> and \<open>core/keys_db.cpp\<close> on the tables of
  \<open>db_scripts/table_keys.sql\<close>: storing, updating, reading and deactivating keys through the
  statements of the code. What its four SQL statements mean on the table is written out
  (\<open>run_sql\<close>); that the library executes them that way is the hypothesis \<open>sqlite_laws\<close>.
\<close>

section \<open>Operations\<close>

datatype KeyType = CURVE25519 | ED25519 | AES | RSA | API_KEY

fun key_type_to_string :: "KeyType \<Rightarrow> string" where
  "key_type_to_string CURVE25519 = ''CURVE25519''"
| "key_type_to_string ED25519 = ''ED25519''"
| "key_type_to_string AES = ''AES''"
| "key_type_to_string RSA = ''RSA''"
| "key_type_to_string API_KEY = ''API_KEY''"

text \<open>
  \<open>gmtime\<close> and \<open>%Y-%m-%d %H:%M:%S\<close> of a number of seconds since the epoch (Gregorian
  calendar, division rounding down).
\<close>

definition civil_from_days :: "int \<Rightarrow> int \<times> int \<times> int" where
  "civil_from_days days =
     (let z = days + 719468; era = z div 146097; doe = z mod 146097;
          yoe = (doe - doe div 1460 + doe div 36524 - doe div 146096) div 365;
          doy = doe - (365 * yoe + yoe div 4 - yoe div 100);
          mp = (5 * doy + 2) div 153; d = doy - (153 * mp + 2) div 5 + 1;
          m = (if mp < 10 then mp + 3 else mp - 9); y = yoe + era * 400
      in (if m \<le> 2 then y + 1 else y, m, d))"

definition two_digits :: "int \<Rightarrow> string" where
  "two_digits i = (if i < 10 then ''0'' @ show_int i else show_int i)"

text \<open>
  A point in time is the number of ticks of the system clock since the epoch, which are nanoseconds as
  in the GNU library; \<open>to_time_t\<close> cuts it to seconds, towards zero.
\<close>

definition to_time_t :: "int \<Rightarrow> int" where
  "to_time_t tp = (if tp < 0 then - (- tp div 10 ^ 9) else tp div 10 ^ 9)"

definition time_point_to_string :: "int \<Rightarrow> string" where
  "time_point_to_string tp =
     (let t = to_time_t tp; (y, m, d) = civil_from_days (t div 86400); s = t mod 86400 in
      show_int y @ ''-'' @ two_digits m @ ''-'' @ two_digits d @ '' '' @
      two_digits (s div 3600) @ '':'' @ two_digits (s mod 3600 div 60) @ '':'' @ two_digits (s mod 60))"

definition sql_insert :: string where
  "sql_insert = ''INSERT INTO module_keys (module_name, key_type_id, key_name, key_value, expires_at) '' @
     ''VALUES (?, (SELECT id FROM key_types WHERE type_name = ?), ?, ?, ?)''"

definition sql_update :: string where
  "sql_update = ''UPDATE module_keys SET key_value = ?, expires_at = ? '' @
     ''WHERE module_name = ? AND key_type_id = (SELECT id FROM key_types WHERE type_name = ?) AND key_name = ?''"

definition sql_select :: string where
  "sql_select = ''SELECT key_value FROM module_keys '' @
     ''WHERE module_name = ? AND key_type_id = (SELECT id FROM key_types WHERE type_name = ?) '' @
     ''AND key_name = ? AND is_active = 1''"

definition sql_remove :: string where
  "sql_remove = ''UPDATE module_keys SET is_active = 0 '' @
     ''WHERE module_name = ? AND key_type_id = (SELECT id FROM key_types WHERE type_name = ?) AND key_name = ?''"

text \<open>Going on after a bind, or returning the error of the caller: the statement is not finalised.\<close>

definition bound :: "void_result \<times> 'w \<Rightarrow> ('w \<Rightarrow> 'b) \<Rightarrow> ('w \<Rightarrow> 'b) \<Rightarrow> 'b" where
  "bound rw err k = (if is_err (fst rw) then err (snd rw) else k (snd rw))"

definition failed :: "ErrorCode \<Rightarrow> string \<Rightarrow> 'w \<Rightarrow> 'a result \<times> 'w" where
  "failed c m w = (Err c m, w)"

text \<open>
  The default \<open>time_point()\<close>, the epoch itself, means no expiry; it is compared with all its ticks, so
  that a point within the second of the epoch is an expiry.
\<close>

definition bind_expiry :: "'w sqlite_api \<Rightarrow> int \<Rightarrow> nat \<Rightarrow> int \<Rightarrow> database \<Rightarrow> 'w \<Rightarrow> void_result \<times> 'w" where
  "bind_expiry lib stmt i expires_at d w =
     (if expires_at \<noteq> 0 then db_bind_text lib stmt i (time_point_to_string expires_at) d w
      else db_bind_null lib stmt i d w)"

definition store_key ::
    "'w sqlite_api \<Rightarrow> database \<Rightarrow> string \<Rightarrow> KeyType \<Rightarrow> string \<Rightarrow> byte list \<Rightarrow> int \<Rightarrow> 'w \<Rightarrow> void_result \<times> 'w" where
  "store_key lib d module_name key_type key_name key_value expires_at w =
     (case db_prepare lib sql_insert d w of
        (Inl e, w0) \<Rightarrow> (Err FAIL_ADD_KEY ''Failed to prepare statement to add key'', w0)
      | (Inr stmt, w0) \<Rightarrow>
          bound (db_bind_text lib stmt 1 module_name d w0) (failed FAIL_ADD_KEY ''Failed to bind module_name'') (\<lambda>w1.
          bound (db_bind_text lib stmt 2 (key_type_to_string key_type) d w1) (failed FAIL_ADD_KEY ''Failed to bind key_type'') (\<lambda>w2.
          bound (db_bind_text lib stmt 3 key_name d w2) (failed FAIL_ADD_KEY ''Failed to bind key_name'') (\<lambda>w3.
          bound (db_bind_blob lib stmt 4 key_value d w3) (failed FAIL_ADD_KEY ''Failed to bind key_value'') (\<lambda>w4.
          bound (bind_expiry lib stmt 5 expires_at d w4) (failed FAIL_ADD_KEY ''Failed to bind expires_at'') (\<lambda>w5.
          db_execute lib stmt d w5))))))"

definition update_key ::
    "'w sqlite_api \<Rightarrow> database \<Rightarrow> string \<Rightarrow> KeyType \<Rightarrow> string \<Rightarrow> byte list \<Rightarrow> int \<Rightarrow> 'w \<Rightarrow> void_result \<times> 'w" where
  "update_key lib d module_name key_type key_name new_key_value new_expires_at w =
     (case db_prepare lib sql_update d w of
        (Inl e, w0) \<Rightarrow> (Err FAIL_UPDATE_KEY ''Failed to prepare statement to update key'', w0)
      | (Inr stmt, w0) \<Rightarrow>
          bound (db_bind_blob lib stmt 1 new_key_value d w0) (failed FAIL_UPDATE_KEY ''Failed to bind new_key_value'') (\<lambda>w1.
          bound (bind_expiry lib stmt 2 new_expires_at d w1) (failed FAIL_UPDATE_KEY ''Failed to bind new_expires_at'') (\<lambda>w2.
          bound (db_bind_text lib stmt 3 module_name d w2) (failed FAIL_UPDATE_KEY ''Failed to bind module_name'') (\<lambda>w3.
          bound (db_bind_text lib stmt 4 (key_type_to_string key_type) d w3) (failed FAIL_UPDATE_KEY ''Failed to bind key_type'') (\<lambda>w4.
          bound (db_bind_text lib stmt 5 key_name d w4) (failed FAIL_UPDATE_KEY ''Failed to bind key_name'') (\<lambda>w5.
          db_execute lib stmt d w5))))))"

definition remove_key ::
    "'w sqlite_api \<Rightarrow> database \<Rightarrow> string \<Rightarrow> KeyType \<Rightarrow> string \<Rightarrow> 'w \<Rightarrow> void_result \<times> 'w" where
  "remove_key lib d module_name key_type key_name w =
     (case db_prepare lib sql_remove d w of
        (Inl e, w0) \<Rightarrow> (Err FAIL_REMOVE_KEY ''Failed to prepare statement to remove key'', w0)
      | (Inr stmt, w0) \<Rightarrow>
          bound (db_bind_text lib stmt 1 module_name d w0) (failed FAIL_REMOVE_KEY ''Failed to bind module_name'') (\<lambda>w1.
          bound (db_bind_text lib stmt 2 (key_type_to_string key_type) d w1) (failed FAIL_REMOVE_KEY ''Failed to bind key_type'') (\<lambda>w2.
          bound (db_bind_text lib stmt 3 key_name d w2) (failed FAIL_REMOVE_KEY ''Failed to bind key_name'') (\<lambda>w3.
          db_execute lib stmt d w3))))"

text \<open>\<open>get_key\<close>: the statement is not finalised on any path.\<close>

definition first_column :: "sdbret \<Rightarrow> byte list outcome" where
  "first_column r =
     (case rows r of [] \<Rightarrow> Undefined | ro # _ \<Rightarrow> (case columns ro of [] \<Rightarrow> Undefined | (n, v) # _ \<Rightarrow> Ret v))"

definition get_key ::
    "'w sqlite_api \<Rightarrow> database \<Rightarrow> string \<Rightarrow> KeyType \<Rightarrow> string \<Rightarrow> 'w \<Rightarrow> (byte list result \<times> 'w) outcome" where
  "get_key lib d module_name key_type key_name w =
     (case db_prepare lib sql_select d w of
        (Inl e, w0) \<Rightarrow> Ret (Err FAIL_GET_KEY ''Failed to prepare key query'', w0)
      | (Inr stmt, w0) \<Rightarrow>
          bound (db_bind_text lib stmt 1 module_name d w0) (\<lambda>v. Ret (failed FAIL_GET_KEY ''Failed to bind module_name'' v)) (\<lambda>w1.
          bound (db_bind_text lib stmt 2 (key_type_to_string key_type) d w1) (\<lambda>v. Ret (failed FAIL_GET_KEY ''Failed to bind key_type'' v)) (\<lambda>w2.
          bound (db_bind_text lib stmt 3 key_name d w2) (\<lambda>v. Ret (failed FAIL_GET_KEY ''Failed to bind key_name'' v)) (\<lambda>w3.
          obind (db_query lib stmt sdbret_new d w3) (\<lambda>(res, r, w4).
            if is_err res \<or> rows r = [] then Ret (Err KEY_NOT_FOUND ''Key not found'', w4)
            else obind (first_column r) (\<lambda>v. Ret (Inr v, w4)))))))"

text \<open>The two debugging queries: they answer whether the query could be run, and keep the statement.\<close>

definition debug_query :: "'w sqlite_api \<Rightarrow> string \<Rightarrow> string \<Rightarrow> string \<Rightarrow> database \<Rightarrow> 'w \<Rightarrow> (void_result \<times> 'w) outcome" where
  "debug_query lib sql what1 what2 d w =
     (case db_prepare lib sql d w of
        (Inl e, w0) \<Rightarrow> Ret (Err DB_ERROR what1, w0)
      | (Inr stmt, w0) \<Rightarrow> obind (db_query lib stmt sdbret_new d w0) (\<lambda>(res, r, w1).
          Ret (if is_err res then Err DB_ERROR what2 else Inr (), w1)))"

definition check_key_types :: "'w sqlite_api \<Rightarrow> database \<Rightarrow> 'w \<Rightarrow> (void_result \<times> 'w) outcome" where
  "check_key_types lib d w =
     debug_query lib ''SELECT type_name FROM key_types;'' ''Failed to prepare key_types query'' ''Failed to query key_types'' d w"

definition print_schema :: "'w sqlite_api \<Rightarrow> database \<Rightarrow> 'w \<Rightarrow> (void_result \<times> 'w) outcome" where
  "print_schema lib d w =
     debug_query lib (''SELECT name, sql FROM sqlite_master WHERE type='' @ [CHR 0x27] @ ''table'' @ [CHR 0x27] @ '';'')
       ''Failed to prepare schema query'' ''Failed to query schema'' d w"

definition print_all_keys :: "'w sqlite_api \<Rightarrow> database \<Rightarrow> 'w \<Rightarrow> 'w outcome" where
  "print_all_keys lib d w =
     (case db_prepare lib ''SELECT module_name, key_type_id, key_name, created_at, expires_at, is_active FROM module_keys'' d w of
        (Inl e, w0) \<Rightarrow> Ret w0
      | (Inr stmt, w0) \<Rightarrow> obind (of_loop (exec_loop lib stmt w0)) (\<lambda>(rc, w1). Ret (sqlite3_finalize lib stmt w1)))"

section \<open>The tables and the statements on them\<close>

text \<open>The five types the script inserts, with the ids they are given.\<close>

definition key_types :: "(string \<times> nat) list" where
  "key_types = [(''CURVE25519'', 1), (''ED25519'', 2), (''AES'', 3), (''RSA'', 4), (''API_KEY'', 5)]"

record key_row =
  k_module :: sql_value
  k_type :: nat
  k_name :: sql_value
  k_value :: sql_value
  k_expires :: sql_value
  k_active :: int

type_synonym key_table = "key_row list"
type_synonym sql_args = "(nat \<times> sql_value) list"

definition arg :: "sql_args \<Rightarrow> nat \<Rightarrow> sql_value" where
  "arg a i = (case map_of a i of None \<Rightarrow> SQL_Null | Some v \<Rightarrow> v)"

definition type_id :: "sql_value \<Rightarrow> nat option" where
  "type_id v = (case v of SQL_Text s \<Rightarrow> map_of key_types s | _ \<Rightarrow> None)"

text \<open>
  A comparison with null is never true; the columns of the \<open>UNIQUE\<close> constraint; the row an
  insertion adds (the default of \<open>is_active\<close> is 1), refused by \<open>NOT NULL\<close> or \<open>UNIQUE\<close>.
\<close>

definition row_matches :: "sql_value \<Rightarrow> sql_value \<Rightarrow> sql_value \<Rightarrow> key_row \<Rightarrow> bool" where
  "row_matches m ty n r \<longleftrightarrow>
     m \<noteq> SQL_Null \<and> n \<noteq> SQL_Null \<and> k_module r = m \<and> k_name r = n \<and> type_id ty = Some (k_type r)"

definition run_insert :: "sql_args \<Rightarrow> key_table \<Rightarrow> key_table option" where
  "run_insert a t =
     (case type_id (arg a 2) of
        None \<Rightarrow> None
      | Some i \<Rightarrow>
          if arg a 1 = SQL_Null \<or> arg a 3 = SQL_Null \<or> arg a 4 = SQL_Null \<or>
             list_ex (row_matches (arg a 1) (arg a 2) (arg a 3)) t
          then None
          else Some (t @ [\<lparr>k_module = arg a 1, k_type = i, k_name = arg a 3, k_value = arg a 4,
                           k_expires = arg a 5, k_active = 1\<rparr>]))"

definition run_update :: "sql_args \<Rightarrow> key_table \<Rightarrow> key_table option" where
  "run_update a t =
     (if arg a 1 = SQL_Null \<and> list_ex (row_matches (arg a 3) (arg a 4) (arg a 5)) t then None
      else Some (map (\<lambda>r. if row_matches (arg a 3) (arg a 4) (arg a 5) r
                          then r\<lparr>k_value := arg a 1, k_expires := arg a 2\<rparr> else r) t))"

definition run_remove :: "sql_args \<Rightarrow> key_table \<Rightarrow> key_table" where
  "run_remove a t =
     map (\<lambda>r. if row_matches (arg a 1) (arg a 2) (arg a 3) r then r\<lparr>k_active := 0\<rparr> else r) t"

definition run_select :: "sql_args \<Rightarrow> key_table \<Rightarrow> (string \<times> sql_value) list list" where
  "run_select a t =
     map (\<lambda>r. [(''key_value'', k_value r)])
       (filter (\<lambda>r. row_matches (arg a 1) (arg a 2) (arg a 3) r \<and> k_active r = 1) t)"

datatype sql_effect = Writes "key_table option" | Reads "(string \<times> sql_value) list list" | Other

definition run_sql :: "string \<Rightarrow> sql_args \<Rightarrow> key_table \<Rightarrow> sql_effect" where
  "run_sql sql a t =
     (if sql = sql_insert then Writes (run_insert a t)
      else if sql = sql_update then Writes (run_update a t)
      else if sql = sql_remove then Writes (Some (run_remove a t))
      else if sql = sql_select then Reads (run_select a t)
      else Other)"

section \<open>What the code relies on of the library\<close>

text \<open>
  A prepared statement has its text, what is bound to its parameters, and how many rows it has
  answered. \<open>live w\<close> are the statements not yet finalised, \<open>tab w\<close> the table of keys. A
  call may always fail; when it succeeds it has the documented effect. (A blob of no bytes may
  be bound as null.)
\<close>

record stmt_state =
  s_sql :: string
  s_args :: sql_args
  s_pos :: nat

definition new_stmt :: "string \<Rightarrow> stmt_state" where
  "new_stmt sql = \<lparr>s_sql = sql, s_args = [], s_pos = 0\<rparr>"

definition add_arg :: "nat \<Rightarrow> sql_value \<Rightarrow> stmt_state \<Rightarrow> stmt_state" where
  "add_arg i v st = st\<lparr>s_args := (i, v) # s_args st\<rparr>"

lemma new_stmt_simps [simp]: "s_sql (new_stmt sql) = sql" "s_args (new_stmt sql) = []" "s_pos (new_stmt sql) = 0"
  by (simp_all add: new_stmt_def)

lemma add_arg_simps [simp]:
  "s_sql (add_arg i v st) = s_sql st" "s_args (add_arg i v st) = (i, v) # s_args st" "s_pos (add_arg i v st) = s_pos st"
  by (simp_all add: add_arg_def)

definition prepare_law :: "'w sqlite_api \<Rightarrow> ('w \<Rightarrow> int \<Rightarrow> stmt_state option) \<Rightarrow> ('w \<Rightarrow> key_table) \<Rightarrow> bool" where
  "prepare_law lib live tab \<longleftrightarrow>
     (\<forall>p sql w rc s w'. sqlite3_prepare lib p sql w = (rc, s, w') \<longrightarrow>
        tab w' = tab w \<and>
        (if rc = SQLITE_OK then live w s = None \<and> live w' = (live w)(s \<mapsto> new_stmt sql) else live w' = live w))"

definition bind_law :: "'w sqlite_api \<Rightarrow> ('w \<Rightarrow> int \<Rightarrow> stmt_state option) \<Rightarrow> ('w \<Rightarrow> key_table) \<Rightarrow> bool" where
  "bind_law lib live tab \<longleftrightarrow>
     (\<forall>s i v w rc w' st. sqlite3_bind lib s i v w = (rc, w') \<longrightarrow> live w s = Some st \<longrightarrow>
        tab w' = tab w \<and>
        (\<exists>v'. (v \<noteq> SQL_Blob [] \<longrightarrow> v' = v) \<and>
           (if rc = SQLITE_OK then live w' = (live w)(s \<mapsto> add_arg i v' st) else live w' = live w)))"

definition finalize_law :: "'w sqlite_api \<Rightarrow> ('w \<Rightarrow> int \<Rightarrow> stmt_state option) \<Rightarrow> ('w \<Rightarrow> key_table) \<Rightarrow> bool" where
  "finalize_law lib live tab \<longleftrightarrow>
     (\<forall>s w. tab (sqlite3_finalize lib s w) = tab w \<and> live (sqlite3_finalize lib s w) = (live w)(s := None))"

definition step_law :: "'w sqlite_api \<Rightarrow> ('w \<Rightarrow> int \<Rightarrow> stmt_state option) \<Rightarrow> ('w \<Rightarrow> key_table) \<Rightarrow> bool" where
  "step_law lib live tab \<longleftrightarrow>
     (\<forall>s w rc w' st. sqlite3_step lib s w = (rc, w') \<longrightarrow> live w s = Some st \<longrightarrow>
        (case run_sql (s_sql st) (s_args st) (tab w) of
           Writes res \<Rightarrow> rc \<noteq> SQLITE_ROW \<and> live w' = live w \<and>
             (if rc = SQLITE_DONE then res = Some (tab w') else tab w' = tab w)
         | Reads rs \<Rightarrow> tab w' = tab w \<and>
             (if rc = SQLITE_ROW
              then s_pos st < length rs \<and> sqlite3_columns lib s w' = rs ! s_pos st \<and>
                   live w' = (live w)(s \<mapsto> st\<lparr>s_pos := Suc (s_pos st)\<rparr>)
              else live w' = live w \<and> (rc = SQLITE_DONE \<longrightarrow> length rs \<le> s_pos st))
         | Other \<Rightarrow> True))"

definition sqlite_laws :: "'w sqlite_api \<Rightarrow> ('w \<Rightarrow> int \<Rightarrow> stmt_state option) \<Rightarrow> ('w \<Rightarrow> key_table) \<Rightarrow> bool" where
  "sqlite_laws lib live tab \<longleftrightarrow>
     prepare_law lib live tab \<and> bind_law lib live tab \<and> finalize_law lib live tab \<and> step_law lib live tab"

section \<open>Rules for the calls\<close>

text \<open>
  In the state \<open>w\<close> the statement \<open>s\<close>, prepared after \<open>w0\<close>, is in the state \<open>st\<close>, and nothing
  else has changed.
\<close>

definition stands ::
    "('w \<Rightarrow> int \<Rightarrow> stmt_state option) \<Rightarrow> ('w \<Rightarrow> key_table) \<Rightarrow> 'w \<Rightarrow> int \<Rightarrow> stmt_state \<Rightarrow> 'w \<Rightarrow> bool" where
  "stands live tab w0 s st w \<longleftrightarrow> tab w = tab w0 \<and> live w0 s = None \<and> live w = (live w0)(s \<mapsto> st)"

lemma db_prepare_rule:
  assumes "sqlite_laws lib live tab" "db_ptr d = Some p" "c_text sql = sql"
    and "\<And>e w'. tab w' = tab w \<Longrightarrow> live w' = live w \<Longrightarrow> P (Inl e, w')"
    and "\<And>s w'. stands live tab w s (new_stmt sql) w' \<Longrightarrow> P (Inr s, w')"
  shows "P (db_prepare lib sql d w)"
proof -
  obtain rc s w' where r: "sqlite3_prepare lib p sql w = (rc, s, w')" by (metis prod_cases3)
  have "tab w' = tab w \<and> (if rc = SQLITE_OK then live w s = None \<and> live w' = (live w)(s \<mapsto> new_stmt sql) else live w' = live w)"
    using assms(1) r unfolding sqlite_laws_def prepare_law_def by blast
  then show ?thesis
    using r assms(2-5) by (simp add: db_prepare_def stands_def Err_def split: if_splits)
qed

lemma bind_rule:
  assumes "sqlite_laws lib live tab" "stands live tab w0 s st w"
    and "\<And>w'. tab w' = tab w0 \<Longrightarrow> P (err w')"
    and "\<And>w' v'. (v \<noteq> SQL_Blob [] \<Longrightarrow> v' = v) \<Longrightarrow> stands live tab w0 s (add_arg i v' st) w' \<Longrightarrow> P (k w')"
  shows "P (bound (bind_result lib what d (sqlite3_bind lib s i v w)) err k)"
proof -
  obtain rc w' where r: "sqlite3_bind lib s i v w = (rc, w')" by (cases "sqlite3_bind lib s i v w") auto
  have "live w s = Some st" using assms(2) by (simp add: stands_def)
  then have "tab w' = tab w \<and> (\<exists>v'. (v \<noteq> SQL_Blob [] \<longrightarrow> v' = v) \<and>
      (if rc = SQLITE_OK then live w' = (live w)(s \<mapsto> add_arg i v' st) else live w' = live w))"
    using assms(1) r unfolding sqlite_laws_def bind_law_def by blast
  then obtain v' where v: "tab w' = tab w" "v \<noteq> SQL_Blob [] \<longrightarrow> v' = v"
      "if rc = SQLITE_OK then live w' = (live w)(s \<mapsto> add_arg i v' st) else live w' = live w" by blast
  show ?thesis
  proof (cases "rc = SQLITE_OK")
    case True
    then have "stands live tab w0 s (add_arg i v' st) w'" using v assms(2) by (simp add: stands_def)
    from assms(4) [OF _ this] v(2) True show ?thesis by (simp add: bound_def bind_result_def r)
  next
    case False
    then show ?thesis using v(1) assms(2,3) by (simp add: bound_def bind_result_def r stands_def)
  qed
qed

lemma bind_text_rule:
  assumes "sqlite_laws lib live tab" "stands live tab w0 s st w"
    and "\<And>w'. tab w' = tab w0 \<Longrightarrow> P (err w')"
    and "\<And>w'. stands live tab w0 s (add_arg i (SQL_Text (c_text v)) st) w' \<Longrightarrow> P (k w')"
  shows "P (bound (db_bind_text lib s i v d w) err k)"
  unfolding db_bind_text_def by (rule bind_rule [where P = P and err = err and k = k, OF assms(1,2)]) (use assms(3,4) in simp_all)

lemma bind_blob_rule:
  assumes "sqlite_laws lib live tab" "stands live tab w0 s st w" "b \<noteq> []"
    and "\<And>w'. tab w' = tab w0 \<Longrightarrow> P (err w')"
    and "\<And>w'. stands live tab w0 s (add_arg i (SQL_Blob b) st) w' \<Longrightarrow> P (k w')"
  shows "P (bound (db_bind_blob lib s i b d w) err k)"
  unfolding db_bind_blob_def by (rule bind_rule [where P = P and err = err and k = k, OF assms(1,2)]) (use assms(3-5) in simp_all)

definition expiry_value :: "int \<Rightarrow> sql_value" where
  "expiry_value e = (if e \<noteq> 0 then SQL_Text (c_text (time_point_to_string e)) else SQL_Null)"

lemma bind_expiry_rule:
  assumes "sqlite_laws lib live tab" "stands live tab w0 s st w"
    and "\<And>w'. tab w' = tab w0 \<Longrightarrow> P (err w')"
    and "\<And>w'. stands live tab w0 s (add_arg i (expiry_value e) st) w' \<Longrightarrow> P (k w')"
  shows "P (bound (bind_expiry lib s i e d w) err k)"
proof (cases "e = 0")
  case True
  then show ?thesis
    unfolding bind_expiry_def db_bind_null_def
    by simp (rule bind_rule [where P = P and err = err and k = k, OF assms(1,2)], use assms(3,4) in \<open>simp_all add: expiry_value_def\<close>)
next
  case False
  then show ?thesis
    unfolding bind_expiry_def
    by simp (rule bind_text_rule [where P = P and err = err and k = k, OF assms(1,2)], use assms(3,4) in \<open>simp_all add: expiry_value_def\<close>)
qed

lemma execute_rule:
  assumes "sqlite_laws lib live tab" "stands live tab w0 s st w"
    and "run_sql (s_sql st) (s_args st) (tab w0) = Writes res"
    and "\<And>e w'. tab w' = tab w0 \<Longrightarrow> live w' = live w0 \<Longrightarrow> P (Inl e, w')"
    and "\<And>w'. res = Some (tab w') \<Longrightarrow> live w' = live w0 \<Longrightarrow> P (Inr (), w')"
  shows "P (db_execute lib s d w)"
proof -
  obtain rc w1 where r: "sqlite3_step lib s w = (rc, w1)" by (cases "sqlite3_step lib s w") auto
  let ?w2 = "sqlite3_finalize lib s w1"
  have st: "live w s = Some st" "tab w = tab w0" "live w0 s = None" "live w = (live w0)(s \<mapsto> st)"
    using assms(2) by (simp_all add: stands_def)
  have "case run_sql (s_sql st) (s_args st) (tab w) of
      Writes res \<Rightarrow> rc \<noteq> SQLITE_ROW \<and> live w1 = live w \<and> (if rc = SQLITE_DONE then res = Some (tab w1) else tab w1 = tab w)
    | Reads rs \<Rightarrow> tab w1 = tab w \<and>
        (if rc = SQLITE_ROW
         then s_pos st < length rs \<and> sqlite3_columns lib s w1 = rs ! s_pos st \<and>
              live w1 = (live w)(s \<mapsto> st\<lparr>s_pos := Suc (s_pos st)\<rparr>)
         else live w1 = live w \<and> (rc = SQLITE_DONE \<longrightarrow> length rs \<le> s_pos st))
    | Other \<Rightarrow> True"
    using assms(1) r st(1) unfolding sqlite_laws_def step_law_def by blast
  then have step: "live w1 = live w" "if rc = SQLITE_DONE then res = Some (tab w1) else tab w1 = tab w0"
    using assms(3) st(2) by simp_all
  have "tab ?w2 = tab w1 \<and> live ?w2 = (live w1)(s := None)"
    using assms(1) unfolding sqlite_laws_def finalize_law_def by blast
  then have fin: "tab ?w2 = tab w1" "live ?w2 = live w0" using step(1) st by (simp_all add: fun_upd_idem)
  show ?thesis
    using r step(2) fin assms(4,5) by (simp add: db_execute_def Err_def Let_def split: if_splits)
qed

lemma query_loop_reads:
  assumes laws: "sqlite_laws lib live tab"
  shows "live w s = Some st \<Longrightarrow> run_sql (s_sql st) (s_args st) (tab w) = Reads rs \<Longrightarrow> s_pos st \<le> length rs \<Longrightarrow>
    \<exists>rc r' w' st'. query_loop lib s r w = Some (Ret (rc, r', w')) \<and> tab w' = tab w \<and>
      live w' = (live w)(s \<mapsto> st') \<and> (rc = SQLITE_DONE \<longrightarrow> rows r' = rows r @ map read_row (drop (s_pos st) rs))"
proof (induction "length rs - s_pos st" arbitrary: w st r)
  case base: 0
  obtain rc w1 where r: "sqlite3_step lib s w = (rc, w1)" by (cases "sqlite3_step lib s w") auto
  have "rc \<noteq> SQLITE_ROW \<and> tab w1 = tab w \<and> live w1 = live w"
    using laws r base unfolding sqlite_laws_def step_law_def by (fastforce split: if_splits)
  then have "query_loop lib s r w = Some (Ret (rc, r, w1))" "tab w1 = tab w" "live w1 = (live w)(s \<mapsto> st)"
    using r base by (simp_all add: query_loop.simps Let_def fun_upd_idem)
  then show ?case
    using base by (intro exI [of _ rc] exI [of _ r] exI [of _ w1] exI [of _ st]) simp
next
  case (Suc n)
  obtain rc w1 where r: "sqlite3_step lib s w = (rc, w1)" by (cases "sqlite3_step lib s w") auto
  have "case run_sql (s_sql st) (s_args st) (tab w) of
      Writes res \<Rightarrow> rc \<noteq> SQLITE_ROW \<and> live w1 = live w \<and> (if rc = SQLITE_DONE then res = Some (tab w1) else tab w1 = tab w)
    | Reads rs \<Rightarrow> tab w1 = tab w \<and>
        (if rc = SQLITE_ROW
         then s_pos st < length rs \<and> sqlite3_columns lib s w1 = rs ! s_pos st \<and>
              live w1 = (live w)(s \<mapsto> st\<lparr>s_pos := Suc (s_pos st)\<rparr>)
         else live w1 = live w \<and> (rc = SQLITE_DONE \<longrightarrow> length rs \<le> s_pos st))
    | Other \<Rightarrow> True"
    using laws r Suc.prems(1) unfolding sqlite_laws_def step_law_def by blast
  then have step: "tab w1 = tab w" "if rc = SQLITE_ROW
         then s_pos st < length rs \<and> sqlite3_columns lib s w1 = rs ! s_pos st \<and>
              live w1 = (live w)(s \<mapsto> st\<lparr>s_pos := Suc (s_pos st)\<rparr>)
         else live w1 = live w \<and> (rc = SQLITE_DONE \<longrightarrow> length rs \<le> s_pos st)"
    using Suc.prems(2) by simp_all
  show ?case
  proof (cases "rc = SQLITE_ROW")
    case False
    then have "query_loop lib s r w = Some (Ret (rc, r, w1))" "live w1 = (live w)(s \<mapsto> st)" "rc \<noteq> SQLITE_DONE"
      using r step Suc by (auto simp: query_loop.simps Let_def fun_upd_idem)
    then show ?thesis using step(1) by auto
  next
    case True
    let ?st = "st\<lparr>s_pos := Suc (s_pos st)\<rparr>"
    let ?r = "r\<lparr>rows := rows r @ [read_row (rs ! s_pos st)], total_size := total_size r + row_size (rs ! s_pos st)\<rparr>"
    have l: "live w1 s = Some ?st" "live w1 = (live w)(s \<mapsto> ?st)" "s_pos st < length rs"
      "sqlite3_columns lib s w1 = rs ! s_pos st" using step(2) True by simp_all
    have loop: "query_loop lib s r w = query_loop lib s ?r w1"
      using r True l(4) by (subst query_loop.simps) (simp add: Let_def)
    have n: "n = length rs - s_pos ?st" using Suc.hyps(2) by simp
    have sql: "run_sql (s_sql ?st) (s_args ?st) (tab w1) = Reads rs" using Suc.prems(2) step(1) by simp
    have le: "s_pos ?st \<le> length rs" using l(3) by simp
    obtain rc' r' w' st' where "query_loop lib s ?r w1 = Some (Ret (rc', r', w'))" "tab w' = tab w1"
        "live w' = (live w1)(s \<mapsto> st')" "rc' = SQLITE_DONE \<longrightarrow> rows r' = rows ?r @ map read_row (drop (s_pos ?st) rs)"
      using Suc.hyps(1) [OF n l(1) sql le, of ?r] by blast
    moreover have "drop (s_pos st) rs = rs ! s_pos st # drop (Suc (s_pos st)) rs"
      using Cons_nth_drop_Suc [OF l(3)] by simp
    ultimately show ?thesis using loop step(1) l(2) by auto
  qed
qed

section \<open>The table as a store of keys\<close>

text \<open>A key is identified by module, type and name; names are read as C strings.\<close>

type_synonym key_id = "string \<times> KeyType \<times> string"

definition key_id :: "string \<Rightarrow> KeyType \<Rightarrow> string \<Rightarrow> key_id" where
  "key_id m ty n = (c_text m, ty, c_text n)"

fun is_row :: "key_id \<Rightarrow> key_row \<Rightarrow> bool" where
  "is_row (m, ty, n) r = row_matches (SQL_Text m) (SQL_Text (key_type_to_string ty)) (SQL_Text n) r"

lemma is_row_eq: "row_matches (SQL_Text m) (SQL_Text (key_type_to_string ty)) (SQL_Text n) = is_row (m, ty, n)"
  by (rule ext) simp

definition contents :: "key_table \<Rightarrow> key_id \<Rightarrow> (byte list \<times> bool) option" where
  "contents t k = map_option (\<lambda>r. (column_bytes (k_value r), k_active r = 1)) (find (is_row k) t)"

definition row_key :: "key_row \<Rightarrow> sql_value \<times> nat \<times> sql_value" where
  "row_key r = (k_module r, k_type r, k_name r)"

definition table_ok :: "key_table \<Rightarrow> bool" where
  "table_ok t \<longleftrightarrow> distinct (map row_key t)"

lemma type_id_inj:
  "type_id (SQL_Text (key_type_to_string ty)) = type_id (SQL_Text (key_type_to_string ty')) \<longleftrightarrow> ty = ty'"
  by (cases ty; cases ty') (simp_all add: type_id_def key_types_def)

lemma type_id_Some: "\<exists>i. type_id (SQL_Text (key_type_to_string ty)) = Some i"
  by (cases ty) (simp_all add: type_id_def key_types_def)

lemma is_row_unique: "is_row k r \<Longrightarrow> is_row k' r \<Longrightarrow> k = k'"
  by (cases k; cases k') (auto simp: row_matches_def type_id_inj [symmetric])

lemma is_row_key: "is_row k r \<Longrightarrow> is_row k r' \<longleftrightarrow> row_key r' = row_key r"
  by (cases k) (auto simp: row_matches_def row_key_def)

lemma find_append: "find P (xs @ ys) = (case find P xs of None \<Rightarrow> find P ys | Some x \<Rightarrow> Some x)"
  by (induction xs) auto

lemma find_map_key:
  assumes "\<And>r. row_key (f r) = row_key r"
  shows "find (is_row k) (map f t) = map_option f (find (is_row k) t)"
proof -
  have "is_row k (f r) = is_row k r" for r
    using assms [of r] by (cases k) (auto simp: row_matches_def row_key_def)
  then show ?thesis by (induction t) auto
qed

lemma contents_None_iff: "contents t k = None \<longleftrightarrow> \<not> list_ex (is_row k) t"
  by (auto simp: contents_def find_None_iff list_ex_iff)

text \<open>The parameters as the code binds them, latest first.\<close>

definition insert_args :: "key_id \<Rightarrow> byte list \<Rightarrow> int \<Rightarrow> sql_args" where
  "insert_args k v e = (case k of (m, ty, n) \<Rightarrow>
     [(5, expiry_value e), (4, SQL_Blob v), (3, SQL_Text n), (2, SQL_Text (key_type_to_string ty)), (1, SQL_Text m)])"

definition update_args :: "key_id \<Rightarrow> byte list \<Rightarrow> int \<Rightarrow> sql_args" where
  "update_args k v e = (case k of (m, ty, n) \<Rightarrow>
     [(5, SQL_Text n), (4, SQL_Text (key_type_to_string ty)), (3, SQL_Text m), (2, expiry_value e), (1, SQL_Blob v)])"

definition where_args :: "key_id \<Rightarrow> sql_args" where
  "where_args k = (case k of (m, ty, n) \<Rightarrow>
     [(3, SQL_Text n), (2, SQL_Text (key_type_to_string ty)), (1, SQL_Text m)])"

lemma run_insert_contents:
  assumes "run_insert (insert_args k v e) t = Some t'"
  shows "contents t k = None \<and> contents t' = (contents t)(k \<mapsto> (v, True)) \<and> (table_ok t \<longrightarrow> table_ok t')"
proof -
  obtain m ty n where k: "k = (m, ty, n)" by (cases k)
  obtain i where i: "type_id (SQL_Text (key_type_to_string ty)) = Some i" using type_id_Some by blast
  let ?r = "\<lparr>k_module = SQL_Text m, k_type = i, k_name = SQL_Text n, k_value = SQL_Blob v, k_expires = expiry_value e, k_active = 1\<rparr>"
  have t': "\<not> list_ex (is_row k) t" "t' = t @ [?r]"
    using assms i by (auto simp: run_insert_def insert_args_def arg_def k is_row_eq split: if_splits)
  have r: "is_row k ?r" using i by (simp add: k row_matches_def)
  have new: "find (is_row k) t = None" using t'(1) by (simp add: find_None_iff list_ex_iff)
  have "contents t' k' = ((contents t)(k \<mapsto> (v, True))) k'" for k'
  proof (cases "k' = k")
    case True
    then show ?thesis using new r by (simp add: contents_def t'(2) find_append del: is_row.simps)
  next
    case False
    then have "\<not> is_row k' ?r" using r is_row_unique by blast
    with False show ?thesis
      by (cases "find (is_row k') t") (simp_all add: contents_def t'(2) find_append del: is_row.simps)
  qed
  moreover have "table_ok t'" if "table_ok t"
    using that t' is_row_key [OF r] unfolding table_ok_def by (auto simp: list_ex_iff simp del: is_row.simps)
  ultimately show ?thesis using t'(1) contents_None_iff by blast
qed

lemma run_insert_refused: "run_insert (insert_args k v e) t = None \<longleftrightarrow> contents t k \<noteq> None"
  using type_id_Some [of "fst (snd k)"]
  by (cases k) (auto simp: run_insert_def insert_args_def arg_def is_row_eq contents_None_iff split: if_splits)

lemma run_update_contents:
  "\<exists>t'. run_update (update_args k v e) t = Some t' \<and>
     contents t' = (contents t)(k := map_option (\<lambda>(_, a). (v, a)) (contents t k)) \<and> (table_ok t \<longrightarrow> table_ok t')"
proof -
  obtain m ty n where k: "k = (m, ty, n)" by (cases k)
  let ?f = "\<lambda>r. if is_row k r then r\<lparr>k_value := SQL_Blob v, k_expires := expiry_value e\<rparr> else r"
  have key: "row_key (?f r) = row_key r" for r by (simp add: row_key_def)
  have "contents (map ?f t) k' = ((contents t)(k := map_option (\<lambda>(_, a). (v, a)) (contents t k))) k'" for k'
  proof (cases "find (is_row k') t")
    case None
    then show ?thesis by (auto simp: contents_def find_map_key [OF key] simp del: is_row.simps)
  next
    case (Some r)
    then have "is_row k' r" by (metis find_Some_iff)
    then have "is_row k r \<longleftrightarrow> k = k'" using is_row_unique by blast
    with Some show ?thesis by (auto simp: contents_def find_map_key [OF key] simp del: is_row.simps)
  qed
  moreover have "table_ok (map ?f t) = table_ok t" using key by (simp add: table_ok_def o_def)
  moreover have "run_update (update_args k v e) t = Some (map ?f t)"
    by (simp add: run_update_def update_args_def arg_def k)
  ultimately show ?thesis by blast
qed

lemma run_remove_contents:
  "contents (run_remove (where_args k) t) = (contents t)(k := map_option (\<lambda>(v, _). (v, False)) (contents t k)) \<and>
   (table_ok t \<longrightarrow> table_ok (run_remove (where_args k) t))"
proof -
  obtain m ty n where k: "k = (m, ty, n)" by (cases k)
  let ?f = "\<lambda>r. if is_row k r then r\<lparr>k_active := 0\<rparr> else r"
  have key: "row_key (?f r) = row_key r" for r by (simp add: row_key_def)
  have "contents (map ?f t) k' = ((contents t)(k := map_option (\<lambda>(v, _). (v, False)) (contents t k))) k'" for k'
  proof (cases "find (is_row k') t")
    case None
    then show ?thesis by (auto simp: contents_def find_map_key [OF key] simp del: is_row.simps)
  next
    case (Some r)
    then have "is_row k' r" by (metis find_Some_iff)
    then have "is_row k r \<longleftrightarrow> k = k'" using is_row_unique by blast
    with Some show ?thesis by (auto simp: contents_def find_map_key [OF key] simp del: is_row.simps)
  qed
  moreover have "table_ok (map ?f t) = table_ok t" using key by (simp add: table_ok_def o_def)
  moreover have "run_remove (where_args k) t = map ?f t" by (simp add: run_remove_def where_args_def arg_def k)
  ultimately show ?thesis by auto
qed

lemma run_select_contents:
  assumes "table_ok t"
  shows "map read_row (run_select (where_args k) t) =
     (case contents t k of Some (v, True) \<Rightarrow> [\<lparr>columns = [(''key_value'', v)]\<rparr>] | _ \<Rightarrow> [])"
proof -
  obtain m ty n where k: "k = (m, ty, n)" by (cases k)
  have sel: "run_select (where_args k) t = map (\<lambda>r. [(''key_value'', k_value r)]) (filter (\<lambda>r. is_row k r \<and> k_active r = 1) t)"
    by (simp add: run_select_def where_args_def arg_def k)
  have "filter (\<lambda>r. is_row k r \<and> k_active r = 1) t =
      (case find (is_row k) t of Some r \<Rightarrow> if k_active r = 1 then [r] else [] | None \<Rightarrow> [])"
    using assms
  proof (induction t)
    case Nil
    then show ?case by simp
  next
    case (Cons r t)
    then have ok: "table_ok t" and new: "row_key r \<notin> row_key ` set t" by (simp_all add: table_ok_def)
    show ?case
    proof (cases "is_row k r")
      case True
      then have "\<not> is_row k r'" if "r' \<in> set t" for r'
        using is_row_key [OF True, of r'] new that by (metis image_eqI)
      then have "filter (\<lambda>r. is_row k r \<and> k_active r = 1) t = []" by (simp add: filter_empty_conv)
      then show ?thesis using True by (simp del: is_row.simps)
    next
      case False
      with Cons.IH [OF ok] show ?thesis by (simp del: is_row.simps)
    qed
  qed
  then show ?thesis
    unfolding sel by (cases "find (is_row k) t") (auto simp: contents_def read_row_def simp del: is_row.simps)
qed

section \<open>The operations on the table\<close>

lemma c_text_sql [simp]:
  "c_text sql_insert = sql_insert" "c_text sql_update = sql_update" "c_text sql_select = sql_select" "c_text sql_remove = sql_remove"
  by (simp_all add: c_text_def sql_insert_def sql_update_def sql_select_def sql_remove_def)

lemma c_text_type [simp]: "c_text (key_type_to_string ty) = key_type_to_string ty"
  by (cases ty) (simp_all add: c_text_def)

lemma sql_distinct [simp]:
  "sql_update \<noteq> sql_insert" "sql_remove \<noteq> sql_insert" "sql_remove \<noteq> sql_update"
  "sql_select \<noteq> sql_insert" "sql_select \<noteq> sql_update" "sql_select \<noteq> sql_remove"
  by (simp_all add: sql_insert_def sql_update_def sql_select_def sql_remove_def)

lemma run_sql_simps [simp]:
  "run_sql sql_insert a t = Writes (run_insert a t)" "run_sql sql_update a t = Writes (run_update a t)"
  "run_sql sql_remove a t = Writes (Some (run_remove a t))" "run_sql sql_select a t = Reads (run_select a t)"
  by (simp_all add: run_sql_def)

lemma db_prepare_cases:
  assumes "sqlite_laws lib live tab" "db_ptr d = Some p" "c_text sql = sql"
  obtains (err) e w' where "db_prepare lib sql d w = (Inl e, w')" "tab w' = tab w" "live w' = live w"
    | (ok) s w' where "db_prepare lib sql d w = (Inr s, w')" "stands live tab w s (new_stmt sql) w'"
  using db_prepare_rule [OF assms, where w = w and P = "\<lambda>x. db_prepare lib sql d w = x \<longrightarrow> thesis"] that by blast

text \<open>
  What a writing operation answers: the new table when it succeeds (and its statement is
  finalised), the old one when it fails.
\<close>

definition wrote ::
    "('w \<Rightarrow> int \<Rightarrow> stmt_state option) \<Rightarrow> ('w \<Rightarrow> key_table) \<Rightarrow> 'w \<Rightarrow> key_table option \<Rightarrow> void_result \<times> 'w \<Rightarrow> bool" where
  "wrote live tab w res = (\<lambda>(r, w').
     case r of Inr _ \<Rightarrow> res = Some (tab w') \<and> live w' = live w | Inl _ \<Rightarrow> tab w' = tab w)"

lemma wrote_simps [simp]:
  "wrote live tab w res (Inl e, w') \<longleftrightarrow> tab w' = tab w"
  "wrote live tab w res (Inr u, w') \<longleftrightarrow> res = Some (tab w') \<and> live w' = live w"
  by (simp_all add: wrote_def)

lemma failed_wrote [simp]: "wrote live tab w res (failed c m w') \<longleftrightarrow> tab w' = tab w"
  by (simp add: failed_def Err_def)

lemma store_key_wrote:
  assumes laws: "sqlite_laws lib live tab" and d: "db_ptr d = Some p" and v: "v \<noteq> []"
  shows "wrote live tab w (run_insert (insert_args (key_id m ty n) v e) (tab w)) (store_key lib d m ty n v e w)"
    (is "?P (store_key lib d m ty n v e w)")
  using laws d c_text_sql(1)
proof (cases rule: db_prepare_cases [where w = w])
  case (err e' w')
  then show ?thesis by (simp add: store_key_def Err_def)
next
  case (ok s w')
  have "?P (bound (db_bind_text lib s 1 m d w') (failed FAIL_ADD_KEY ''Failed to bind module_name'') (\<lambda>w1.
          bound (db_bind_text lib s 2 (key_type_to_string ty) d w1) (failed FAIL_ADD_KEY ''Failed to bind key_type'') (\<lambda>w2.
          bound (db_bind_text lib s 3 n d w2) (failed FAIL_ADD_KEY ''Failed to bind key_name'') (\<lambda>w3.
          bound (db_bind_blob lib s 4 v d w3) (failed FAIL_ADD_KEY ''Failed to bind key_value'') (\<lambda>w4.
          bound (bind_expiry lib s 5 e d w4) (failed FAIL_ADD_KEY ''Failed to bind expires_at'') (\<lambda>w5.
          db_execute lib s d w5))))))"
    apply (rule bind_text_rule [where P = ?P, OF laws ok(2)], simp)
    apply (rule bind_text_rule [where P = ?P, OF laws], assumption, simp)
    apply (rule bind_text_rule [where P = ?P, OF laws], assumption, simp)
    apply (rule bind_blob_rule [where P = ?P, OF laws _ v], assumption, simp)
    apply (rule bind_expiry_rule [where P = ?P, OF laws], assumption, simp)
    apply (rule execute_rule [where P = ?P, OF laws], assumption)
    apply (simp_all add: insert_args_def key_id_def)
    done
  with ok(1) show ?thesis by (simp add: store_key_def)
qed

lemma update_key_wrote:
  assumes laws: "sqlite_laws lib live tab" and d: "db_ptr d = Some p" and v: "v \<noteq> []"
  shows "wrote live tab w (run_update (update_args (key_id m ty n) v e) (tab w)) (update_key lib d m ty n v e w)"
    (is "?P (update_key lib d m ty n v e w)")
  using laws d c_text_sql(2)
proof (cases rule: db_prepare_cases [where w = w])
  case (err e' w')
  then show ?thesis by (simp add: update_key_def Err_def)
next
  case (ok s w')
  have "?P (bound (db_bind_blob lib s 1 v d w') (failed FAIL_UPDATE_KEY ''Failed to bind new_key_value'') (\<lambda>w1.
          bound (bind_expiry lib s 2 e d w1) (failed FAIL_UPDATE_KEY ''Failed to bind new_expires_at'') (\<lambda>w2.
          bound (db_bind_text lib s 3 m d w2) (failed FAIL_UPDATE_KEY ''Failed to bind module_name'') (\<lambda>w3.
          bound (db_bind_text lib s 4 (key_type_to_string ty) d w3) (failed FAIL_UPDATE_KEY ''Failed to bind key_type'') (\<lambda>w4.
          bound (db_bind_text lib s 5 n d w4) (failed FAIL_UPDATE_KEY ''Failed to bind key_name'') (\<lambda>w5.
          db_execute lib s d w5))))))"
    apply (rule bind_blob_rule [where P = ?P, OF laws ok(2) v], simp)
    apply (rule bind_expiry_rule [where P = ?P, OF laws], assumption, simp)
    apply (rule bind_text_rule [where P = ?P, OF laws], assumption, simp)
    apply (rule bind_text_rule [where P = ?P, OF laws], assumption, simp)
    apply (rule bind_text_rule [where P = ?P, OF laws], assumption, simp)
    apply (rule execute_rule [where P = ?P, OF laws], assumption)
    apply (simp_all add: update_args_def key_id_def)
    done
  with ok(1) show ?thesis by (simp add: update_key_def)
qed

lemma remove_key_wrote:
  assumes laws: "sqlite_laws lib live tab" and d: "db_ptr d = Some p"
  shows "wrote live tab w (Some (run_remove (where_args (key_id m ty n)) (tab w))) (remove_key lib d m ty n w)"
    (is "?P (remove_key lib d m ty n w)")
  using laws d c_text_sql(4)
proof (cases rule: db_prepare_cases [where w = w])
  case (err e' w')
  then show ?thesis by (simp add: remove_key_def Err_def)
next
  case (ok s w')
  have "?P (bound (db_bind_text lib s 1 m d w') (failed FAIL_REMOVE_KEY ''Failed to bind module_name'') (\<lambda>w1.
          bound (db_bind_text lib s 2 (key_type_to_string ty) d w1) (failed FAIL_REMOVE_KEY ''Failed to bind key_type'') (\<lambda>w2.
          bound (db_bind_text lib s 3 n d w2) (failed FAIL_REMOVE_KEY ''Failed to bind key_name'') (\<lambda>w3.
          db_execute lib s d w3))))"
    apply (rule bind_text_rule [where P = ?P, OF laws ok(2)], simp)
    apply (rule bind_text_rule [where P = ?P, OF laws], assumption, simp)
    apply (rule bind_text_rule [where P = ?P, OF laws], assumption, simp)
    apply (rule execute_rule [where P = ?P, OF laws], assumption)
    apply (simp_all add: where_args_def key_id_def)
    apply fastforce
    done
  with ok(1) show ?thesis by (simp add: remove_key_def)
qed

text \<open>Reading: it returns, leaves the table, and one more statement when it got as far as the query.\<close>

definition found ::
    "('w \<Rightarrow> int \<Rightarrow> stmt_state option) \<Rightarrow> ('w \<Rightarrow> key_table) \<Rightarrow> 'w \<Rightarrow> key_id \<Rightarrow> (byte list result \<times> 'w) outcome \<Rightarrow> bool" where
  "found live tab w k res \<longleftrightarrow>
     (\<exists>r w'. res = Ret (r, w') \<and> tab w' = tab w \<and>
        (\<forall>v. r = Inr v \<longrightarrow> contents (tab w) k = Some (v, True) \<and>
           (\<exists>s st. live w s = None \<and> live w' = (live w)(s \<mapsto> st))))"

lemma found_failed [simp]: "found live tab w k (Ret (failed c m w')) \<longleftrightarrow> tab w' = tab w"
  by (simp add: found_def failed_def Err_def)

lemma query_rule:
  assumes laws: "sqlite_laws lib live tab" and st: "stands live tab w s st w3" "s_pos st = 0"
    and sql: "run_sql (s_sql st) (s_args st) (tab w) = Reads (run_select (where_args k) (tab w))" and t: "table_ok (tab w)"
  shows "found live tab w k (obind (db_query lib s sdbret_new d w3) (\<lambda>(res, r, w4).
            if is_err res \<or> rows r = [] then Ret (Err KEY_NOT_FOUND ''Key not found'', w4)
            else obind (first_column r) (\<lambda>v. Ret (Inr v, w4))))"
proof -
  have s: "live w3 s = Some st" "tab w3 = tab w" "live w3 = (live w)(s \<mapsto> st)" "live w s = None"
    using st(1) by (simp_all add: stands_def)
  let ?r = "snd (sdbret_flush sdbret_new)"
  have sql3: "run_sql (s_sql st) (s_args st) (tab w3) = Reads (run_select (where_args k) (tab w))" using sql s(2) by simp
  obtain rc r' w4 st' where q: "query_loop lib s ?r w3 = Some (Ret (rc, r', w4))" "tab w4 = tab w"
      "live w4 = (live w3)(s \<mapsto> st')"
      "rc = SQLITE_DONE \<longrightarrow> rows r' = rows ?r @ map read_row (drop (s_pos st) (run_select (where_args k) (tab w)))"
    using query_loop_reads [OF laws s(1) sql3, of ?r] st(2) s(2) by auto
  have rs: "rc = SQLITE_DONE \<longrightarrow> rows r' = map read_row (run_select (where_args k) (tab w))"
    using q(4) st(2) by (simp add: sdbret_flush_def)
  have live4: "live w4 = (live w)(s \<mapsto> st')" using q(3) s(3) by simp
  have query: "db_query lib s sdbret_new d w3 = Ret (if rc \<noteq> SQLITE_DONE then Err DB_ERROR ''Db step'' else Inr (), r', w4)"
    using q(1) by (simp add: db_query_def)
  show ?thesis
  proof (cases "rc = SQLITE_DONE \<and> rows r' \<noteq> []")
    case False
    then have "obind (db_query lib s sdbret_new d w3) (\<lambda>(res, r, w4).
        if is_err res \<or> rows r = [] then Ret (Err KEY_NOT_FOUND ''Key not found'', w4)
        else obind (first_column r) (\<lambda>v. Ret (Inr v, w4))) = Ret (Err KEY_NOT_FOUND ''Key not found'', w4)"
      unfolding query by auto
    then show ?thesis using q(2) by (simp add: found_def Err_def)
  next
    case True
    then obtain v where v: "contents (tab w) k = Some (v, True)" "rows r' = [\<lparr>columns = [(''key_value'', v)]\<rparr>]"
      using rs run_select_contents [OF t, of k] by (auto split: option.splits bool.splits)
    then show ?thesis
      using True q(2) live4 s(4) unfolding query by (auto simp: found_def first_column_def)
  qed
qed

lemma get_key_found:
  assumes laws: "sqlite_laws lib live tab" and d: "db_ptr d = Some p" and t: "table_ok (tab w)"
  shows "found live tab w (key_id m ty n) (get_key lib d m ty n w)" (is "?P (get_key lib d m ty n w)")
  using laws d c_text_sql(3)
proof (cases rule: db_prepare_cases [where w = w])
  case (err e' w')
  then show ?thesis by (simp add: get_key_def found_def Err_def)
next
  case (ok s w')
  have "?P (bound (db_bind_text lib s 1 m d w') (\<lambda>v. Ret (failed FAIL_GET_KEY ''Failed to bind module_name'' v)) (\<lambda>w1.
          bound (db_bind_text lib s 2 (key_type_to_string ty) d w1) (\<lambda>v. Ret (failed FAIL_GET_KEY ''Failed to bind key_type'' v)) (\<lambda>w2.
          bound (db_bind_text lib s 3 n d w2) (\<lambda>v. Ret (failed FAIL_GET_KEY ''Failed to bind key_name'' v)) (\<lambda>w3.
          obind (db_query lib s sdbret_new d w3) (\<lambda>(res, r, w4).
            if is_err res \<or> rows r = [] then Ret (Err KEY_NOT_FOUND ''Key not found'', w4)
            else obind (first_column r) (\<lambda>v. Ret (Inr v, w4)))))))"
    apply (rule bind_text_rule [where P = ?P, OF laws ok(2)], simp)
    apply (rule bind_text_rule [where P = ?P, OF laws], assumption, simp)
    apply (rule bind_text_rule [where P = ?P, OF laws], assumption, simp)
    apply (rule query_rule [OF laws _ _ _ t], assumption)
    apply (simp_all add: where_args_def key_id_def)
    done
  with ok(1) show ?thesis by (simp add: get_key_def)
qed

section \<open>Reading from a library that answers\<close>

text \<open>
  Reading fails when the library does. In the states \<open>calm\<close> it does not: the query can be prepared,
  its three parameters can be bound, a step answers a row or the end, and calm states follow.
\<close>

definition serves :: "'w sqlite_api \<Rightarrow> ('w \<Rightarrow> int \<Rightarrow> stmt_state option) \<Rightarrow> ('w \<Rightarrow> bool) \<Rightarrow> bool" where
  "serves lib live calm \<longleftrightarrow>
     (\<forall>p w rc s w'. calm w \<longrightarrow> sqlite3_prepare lib p sql_select w = (rc, s, w') \<longrightarrow> rc = SQLITE_OK \<and> calm w') \<and>
     (\<forall>s i v w rc w' st. calm w \<longrightarrow> live w s = Some st \<longrightarrow> s_sql st = sql_select \<longrightarrow> i \<in> {1, 2, 3} \<longrightarrow>
        sqlite3_bind lib s i v w = (rc, w') \<longrightarrow> rc = SQLITE_OK \<and> calm w') \<and>
     (\<forall>s w rc w' st. calm w \<longrightarrow> live w s = Some st \<longrightarrow> s_sql st = sql_select \<longrightarrow>
        sqlite3_step lib s w = (rc, w') \<longrightarrow> rc \<in> {SQLITE_ROW, SQLITE_DONE} \<and> calm w')"

lemma prepare_serves:
  assumes "sqlite_laws lib live tab" "serves lib live calm" "calm w" "db_ptr d = Some p"
  obtains s w' where "db_prepare lib sql_select d w = (Inr s, w')" "stands live tab w s (new_stmt sql_select) w'" "calm w'"
proof -
  obtain rc s w' where r: "sqlite3_prepare lib p sql_select w = (rc, s, w')" by (metis prod_cases3)
  have "rc = SQLITE_OK" "calm w'" using assms(2,3) r unfolding serves_def by blast+
  then have d: "db_prepare lib sql_select d w = (Inr s, w')" using assms(4) r by (simp add: db_prepare_def)
  have "stands live tab w s (new_stmt sql_select) w'"
    using db_prepare_rule [OF assms(1,4) c_text_sql(3), of w "\<lambda>x. x = (Inr s, w') \<longrightarrow> stands live tab w s (new_stmt sql_select) w'"] d
    by auto
  with that d \<open>calm w'\<close> show thesis by blast
qed

lemma bind_serves:
  assumes "sqlite_laws lib live tab" "serves lib live calm" "calm w" "stands live tab w0 s st w" "s_sql st = sql_select" "i \<in> {1, 2, 3}"
  obtains w' where "db_bind_text lib s i v d w = (Inr (), w')" "stands live tab w0 s (add_arg i (SQL_Text (c_text v)) st) w'" "calm w'"
proof -
  obtain rc w' where r: "sqlite3_bind lib s i (SQL_Text (c_text v)) w = (rc, w')" by (meson surj_pair)
  have "live w s = Some st" using assms(4) by (simp add: stands_def)
  then have ok: "rc = SQLITE_OK" "calm w'" using assms(2,3,5,6) r unfolding serves_def by blast+
  then have b: "db_bind_text lib s i v d w = (Inr (), w')" using r by (simp add: db_bind_text_def bind_result_def)
  have "stands live tab w0 s (add_arg i (SQL_Text (c_text v)) st) w'"
    using bind_text_rule [OF assms(1,4), of "\<lambda>x. x = Some w' \<longrightarrow> stands live tab w0 s (add_arg i (SQL_Text (c_text v)) st) w'"
        "\<lambda>w. None" i v Some d] b by (auto simp: bound_def)
  with that b ok(2) show thesis by blast
qed

lemma query_serves:
  assumes laws: "sqlite_laws lib live tab" and srv: "serves lib live calm"
  shows "live w s = Some st \<Longrightarrow> s_sql st = sql_select \<Longrightarrow> calm w \<Longrightarrow> s_pos st \<le> length (run_select (s_args st) (tab w)) \<Longrightarrow>
    \<exists>r' w'. query_loop lib s r w = Some (Ret (SQLITE_DONE, r', w'))"
proof (induction "length (run_select (s_args st) (tab w)) - s_pos st" arbitrary: w st r rule: less_induct)
  case less
  obtain rc w1 where r: "sqlite3_step lib s w = (rc, w1)" by (meson surj_pair)
  have rc: "rc \<in> {SQLITE_ROW, SQLITE_DONE}" "calm w1" using srv r less.prems(1-3) unfolding serves_def by blast+
  show ?case
  proof (cases "rc = SQLITE_ROW")
    case False
    then show ?thesis using rc(1) r by (simp add: query_loop.simps)
  next
    case True
    let ?st = "st\<lparr>s_pos := Suc (s_pos st)\<rparr>"
    have "tab w1 = tab w \<and> s_pos st < length (run_select (s_args st) (tab w)) \<and> live w1 = (live w)(s \<mapsto> ?st)"
      using laws r less.prems(1,2) True unfolding sqlite_laws_def step_law_def by fastforce
    moreover from this have "length (run_select (s_args ?st) (tab w1)) - s_pos ?st < length (run_select (s_args st) (tab w)) - s_pos st" by auto
    ultimately have "\<exists>r' w'. query_loop lib s r1 w1 = Some (Ret (SQLITE_DONE, r', w'))" for r1
      using less.hyps [of ?st w1 r1] less.prems(2) rc(2) by simp
    then show ?thesis using r True by (subst query_loop.simps) (simp add: Let_def)
  qed
qed

lemma get_key_serves:
  assumes laws: "sqlite_laws lib live tab" and d: "db_ptr d = Some p" and t: "table_ok (tab w)"
    and srv: "serves lib live calm" "calm w" and k: "contents (tab w) (key_id m ty n) = Some (v, True)"
  shows "\<exists>w'. get_key lib d m ty n w = Ret (Inr v, w')"
proof -
  obtain s w0 where 0: "db_prepare lib sql_select d w = (Inr s, w0)" "stands live tab w s (new_stmt sql_select) w0" "calm w0"
    by (rule prepare_serves [OF laws srv d])
  obtain w1 where 1: "db_bind_text lib s 1 m d w0 = (Inr (), w1)"
    "stands live tab w s (add_arg 1 (SQL_Text (c_text m)) (new_stmt sql_select)) w1" "calm w1"
    by (rule bind_serves [OF laws srv(1) 0(3,2), of 1 m d]) simp_all
  obtain w2 where 2: "db_bind_text lib s 2 (key_type_to_string ty) d w1 = (Inr (), w2)"
    "stands live tab w s (add_arg 2 (SQL_Text (c_text (key_type_to_string ty))) (add_arg 1 (SQL_Text (c_text m)) (new_stmt sql_select))) w2" "calm w2"
    by (rule bind_serves [OF laws srv(1) 1(3,2), of 2 "key_type_to_string ty" d]) simp_all
  let ?st = "add_arg 3 (SQL_Text (c_text n)) (add_arg 2 (SQL_Text (c_text (key_type_to_string ty))) (add_arg 1 (SQL_Text (c_text m)) (new_stmt sql_select)))"
  obtain w3 where 3: "db_bind_text lib s 3 n d w2 = (Inr (), w3)" "stands live tab w s ?st w3" "calm w3"
    by (rule bind_serves [OF laws srv(1) 2(3,2), of 3 n d]) simp_all
  have st: "live w3 s = Some ?st" "tab w3 = tab w" using 3(2) by (simp_all add: stands_def)
  let ?r = "snd (sdbret_flush sdbret_new)" and ?rs = "run_select (s_args ?st) (tab w)"
  have sql: "run_sql (s_sql ?st) (s_args ?st) (tab w3) = Reads ?rs" by (simp add: st(2))
  obtain r' w4 where q: "query_loop lib s ?r w3 = Some (Ret (SQLITE_DONE, r', w4))"
    using query_serves [OF laws srv(1) st(1) _ 3(3), of ?r] by auto
  then have "rows r' = map read_row ?rs"
    using query_loop_reads [OF laws st(1) sql, of ?r] by (auto simp: sdbret_flush_def)
  moreover have "map read_row ?rs = [\<lparr>columns = [(''key_value'', v)]\<rparr>]"
    using run_select_contents [OF t, of "key_id m ty n"] k by (simp add: where_args_def key_id_def)
  ultimately have "db_query lib s sdbret_new d w3 = Ret (Inr (), r', w4)" "rows r' = [\<lparr>columns = [(''key_value'', v)]\<rparr>]"
    using q by (simp_all add: db_query_def)
  then show ?thesis using 0(1) 1(1) 2(1) 3(1) by (simp add: get_key_def bound_def first_column_def)
qed

end
