(* ===== verification/KeyStore.thy ===== *)
theory KeyStore
  imports KeysDb
begin

text \<open>
  What the program relies on of its key store (locale \<open>key_store\<close>), what follows for any
  sequence of operations, the proof that the operations of \<open>keys_db.cpp\<close> are such a store,
  and the properties of the key database.
\<close>

section \<open>The interface\<close>

datatype ('r, 'v, 'e) key_op = Store 'r 'v 'e | Update 'r 'v 'e | Remove 'r | Get 'r

fun key_op_step ::
    "('r \<Rightarrow> 'v \<Rightarrow> 'e \<Rightarrow> 's \<Rightarrow> void_result \<times> 's) \<Rightarrow> ('r \<Rightarrow> 'v \<Rightarrow> 'e \<Rightarrow> 's \<Rightarrow> void_result \<times> 's) \<Rightarrow>
     ('r \<Rightarrow> 's \<Rightarrow> void_result \<times> 's) \<Rightarrow> ('r \<Rightarrow> 's \<Rightarrow> ('v result \<times> 's) outcome) \<Rightarrow>
     ('r, 'v, 'e) key_op \<Rightarrow> 's \<Rightarrow> ('v option result \<times> 's) outcome" where
  "key_op_step store update remove get (Store r v e) s = Ret (map_prod (map_sum id (\<lambda>_. None)) id (store r v e s))"
| "key_op_step store update remove get (Update r v e) s = Ret (map_prod (map_sum id (\<lambda>_. None)) id (update r v e s))"
| "key_op_step store update remove get (Remove r) s = Ret (map_prod (map_sum id (\<lambda>_. None)) id (remove r s))"
| "key_op_step store update remove get (Get r) s = obind (get r s) (\<lambda>(x, s'). Ret (map_sum id Some x, s'))"

fun run_key_ops ::
    "('op \<Rightarrow> 's \<Rightarrow> ('a \<times> 's) outcome) \<Rightarrow> 'op list \<Rightarrow> 's \<Rightarrow> ('a list \<times> 's) outcome" where
  "run_key_ops step [] s = Ret ([], s)"
| "run_key_ops step (op # ops) s =
     obind (step op s) (\<lambda>(a, s1). obind (run_key_ops step ops s1) (\<lambda>(as, s2). Ret (a # as, s2)))"

fun op_value_ok :: "('v \<Rightarrow> bool) \<Rightarrow> ('r, 'v, 'e) key_op \<Rightarrow> bool" where
  "op_value_ok valid (Store r v e) = valid v"
| "op_value_ok valid (Update r v e) = valid v"
| "op_value_ok valid _ = True"

fun op_changes :: "('r, 'v, 'e) key_op \<Rightarrow> 'r option" where
  "op_changes (Update r v e) = Some r"
| "op_changes (Remove r) = Some r"
| "op_changes _ = None"

locale key_store =
  fixes store :: "'r \<Rightarrow> 'v \<Rightarrow> 'e \<Rightarrow> 's \<Rightarrow> void_result \<times> 's"
    and update :: "'r \<Rightarrow> 'v \<Rightarrow> 'e \<Rightarrow> 's \<Rightarrow> void_result \<times> 's"
    and remove :: "'r \<Rightarrow> 's \<Rightarrow> void_result \<times> 's"
    and get :: "'r \<Rightarrow> 's \<Rightarrow> ('v result \<times> 's) outcome"
    and ident :: "'r \<Rightarrow> 'k" and valid :: "'v \<Rightarrow> bool"
    and ok :: "'s \<Rightarrow> bool" and held :: "'s \<Rightarrow> 'k \<Rightarrow> ('v \<times> bool) option"
  assumes store_law: "ok s \<Longrightarrow> valid v \<Longrightarrow> store r v e s = (x, s') \<Longrightarrow>
      ok s' \<and> (if is_err x then held s' = held s
               else held s (ident r) = None \<and> held s' = (held s)(ident r \<mapsto> (v, True)))"
    and update_law: "ok s \<Longrightarrow> valid v \<Longrightarrow> update r v e s = (x, s') \<Longrightarrow>
      ok s' \<and> held s' = (if is_err x then held s
                         else (held s)(ident r := map_option (\<lambda>(_, a). (v, a)) (held s (ident r))))"
    and remove_law: "ok s \<Longrightarrow> remove r s = (x, s') \<Longrightarrow>
      ok s' \<and> held s' = (if is_err x then held s
                         else (held s)(ident r := map_option (\<lambda>(v, _). (v, False)) (held s (ident r))))"
    and get_law: "ok s \<Longrightarrow>
      \<exists>x s'. get r s = Ret (x, s') \<and> ok s' \<and> held s' = held s \<and>
             (\<forall>v. x = Inr v \<longrightarrow> held s (ident r) = Some (v, True))"
begin

abbreviation step where "step \<equiv> key_op_step store update remove get"

lemma step_returns:
  assumes "ok s" "op_value_ok valid op"
  shows "\<exists>a s'. step op s = Ret (a, s') \<and> ok s'"
proof (cases op)
  case (Store r v e)
  then show ?thesis using assms store_law [of s v r e] by (cases "store r v e s") auto
next
  case (Update r v e)
  then show ?thesis using assms update_law [of s v r e] by (cases "update r v e s") auto
next
  case (Remove r)
  then show ?thesis using assms remove_law [of s r] by (cases "remove r s") auto
next
  case (Get r)
  then show ?thesis using get_law [OF assms(1), of r] by auto
qed

lemma run_returns:
  "ok s \<Longrightarrow> list_all (op_value_ok valid) ops \<Longrightarrow> \<exists>as s'. run_key_ops step ops s = Ret (as, s') \<and> ok s'"
proof (induction ops arbitrary: s)
  case Nil
  then show ?case by simp
next
  case (Cons op ops)
  then obtain a s1 where "step op s = Ret (a, s1)" "ok s1" using step_returns [of s op] by auto
  with Cons.IH [of s1] Cons.prems show ?case by auto
qed

lemma run_keeps:
  assumes "\<And>op s a s'. ok s \<Longrightarrow> Q op \<Longrightarrow> op_value_ok valid op \<Longrightarrow> I s \<Longrightarrow> step op s = Ret (a, s') \<Longrightarrow> I s'"
  shows "ok s \<Longrightarrow> list_all (op_value_ok valid) ops \<Longrightarrow> list_all Q ops \<Longrightarrow> I s \<Longrightarrow>
         run_key_ops step ops s = Ret (as, s') \<Longrightarrow> I s' \<and> ok s'"
proof (induction ops arbitrary: s as)
  case Nil
  then show ?case by simp
next
  case (Cons op ops)
  obtain a s1 where s1: "step op s = Ret (a, s1)" "ok s1"
    using step_returns [OF Cons.prems(1), of op] Cons.prems(2) by auto
  with Cons.prems obtain as' where r: "run_key_ops step ops s1 = Ret (as', s')" by (auto simp: obind_eq_Ret_iff)
  have "I s1" using assms [OF Cons.prems(1) _ _ Cons.prems(4) s1(1)] Cons.prems(2,3) by simp
  from Cons.IH [OF s1(2) _ _ this r] Cons.prems(2,3) show ?case by simp
qed

text \<open>An operation that does not update or remove the key leaves what is held under it.\<close>

lemma step_other:
  assumes "ok s" "op_value_ok valid op" "map_option ident (op_changes op) \<noteq> Some k" "held s k = Some x"
    and "step op s = Ret (a, s')"
  shows "held s' k = Some x"
proof (cases op)
  case (Store r v e)
  then show ?thesis using assms store_law [of s v r e] by (cases "store r v e s") (auto split: if_splits)
next
  case (Update r v e)
  then show ?thesis using assms update_law [of s v r e] by (cases "update r v e s") (auto split: if_splits)
next
  case (Remove r)
  then show ?thesis using assms remove_law [of s r] by (cases "remove r s") (auto split: if_splits)
next
  case (Get r)
  then show ?thesis using assms get_law [of s r] by (auto simp: obind_eq_Ret_iff)
qed

text \<open>A removed key stays removed under every operation.\<close>

lemma step_removed:
  assumes "ok s" "op_value_ok valid op" "held s k = Some (v, False)" "step op s = Ret (a, s')"
  shows "\<exists>v'. held s' k = Some (v', False)"
proof (cases op)
  case (Store r v' e)
  then show ?thesis using assms store_law [of s v' r e] by (cases "store r v' e s") (auto split: if_splits)
next
  case (Update r v' e)
  then show ?thesis using assms update_law [of s v' r e] by (cases "update r v' e s") (auto split: if_splits)
next
  case (Remove r)
  then show ?thesis using assms remove_law [of s r] by (cases "remove r s") (auto split: if_splits)
next
  case (Get r)
  then show ?thesis using assms get_law [of s r] by (auto simp: obind_eq_Ret_iff)
qed

lemma removed_for_ever:
  assumes "ok s" "list_all (op_value_ok valid) ops" "held s k = Some (v, False)" "run_key_ops step ops s = Ret (as, s')"
  shows "ok s' \<and> (\<exists>v'. held s' k = Some (v', False))"
proof -
  have keep: "\<exists>v'. held s' k = Some (v', False)"
    if "ok s" "op_value_ok valid op" "\<exists>v'. held s k = Some (v', False)" "step op s = Ret (a, s')" for op s a s'
    using step_removed [OF that(1,2) _ that(4)] that(3) by blast
  show ?thesis
    using run_keeps [of "\<lambda>_. True" "\<lambda>s. \<exists>v'. held s k = Some (v', False)", OF keep assms(1,2) _ _ assms(4)] assms(3)
    by (auto simp: list_all_iff)
qed

lemma removed_refuses:
  assumes "ok s" "held s (ident r) = Some (v, False)"
  shows "(\<exists>e s'. get r s = Ret (Inl e, s')) \<and> (valid v' \<longrightarrow> is_err (fst (store r v' e s)))"
proof
  obtain x s' where g: "get r s = Ret (x, s')" "\<forall>v. x = Inr v \<longrightarrow> held s (ident r) = Some (v, True)"
    using get_law [OF assms(1), of r] by blast
  then show "\<exists>e s'. get r s = Ret (Inl e, s')" using assms(2) by (cases x) auto
  show "valid v' \<longrightarrow> is_err (fst (store r v' e s))"
    using store_law [OF assms(1), of v' r e] assms(2) by (cases "store r v' e s") (auto split: if_splits)
qed

lemma kept:
  assumes "ok s" "valid v" "store r v e s = (Inr (), s1)" "list_all (op_value_ok valid) ops"
    and "list_all (\<lambda>op. map_option ident (op_changes op) \<noteq> Some (ident r)) ops"
    and "run_key_ops step ops s1 = Ret (as, s2)"
  shows "ok s2 \<and> held s2 (ident r) = Some (v, True)"
proof -
  have s1: "ok s1" "held s1 (ident r) = Some (v, True)" using store_law [OF assms(1-3)] by simp_all
  show ?thesis
    using run_keeps [of "\<lambda>op. map_option ident (op_changes op) \<noteq> Some (ident r)" "\<lambda>s. held s (ident r) = Some (v, True)",
        OF _ s1(1) assms(4,5) s1(2) assms(6)] step_other by blast
qed

lemma read_back:
  assumes "ok s" "held s (ident r) = Some (v, True)"
  shows "\<exists>x s'. get r s = Ret (x, s') \<and> (x = Inr v \<or> is_err x)"
  using get_law [OF assms(1), of r] assms(2) by (auto simp: is_err_iff) (metis sum.exhaust)

end

section \<open>The key database is such a store\<close>

type_synonym raw_key = "string \<times> KeyType \<times> string"

definition db_store :: "'w sqlite_api \<Rightarrow> database \<Rightarrow> raw_key \<Rightarrow> byte list \<Rightarrow> int \<Rightarrow> 'w \<Rightarrow> void_result \<times> 'w" where
  "db_store lib d = (\<lambda>(m, ty, n). store_key lib d m ty n)"

definition db_update :: "'w sqlite_api \<Rightarrow> database \<Rightarrow> raw_key \<Rightarrow> byte list \<Rightarrow> int \<Rightarrow> 'w \<Rightarrow> void_result \<times> 'w" where
  "db_update lib d = (\<lambda>(m, ty, n). update_key lib d m ty n)"

definition db_remove :: "'w sqlite_api \<Rightarrow> database \<Rightarrow> raw_key \<Rightarrow> 'w \<Rightarrow> void_result \<times> 'w" where
  "db_remove lib d = (\<lambda>(m, ty, n). remove_key lib d m ty n)"

definition db_get :: "'w sqlite_api \<Rightarrow> database \<Rightarrow> raw_key \<Rightarrow> 'w \<Rightarrow> (byte list result \<times> 'w) outcome" where
  "db_get lib d = (\<lambda>(m, ty, n). get_key lib d m ty n)"

definition raw_id :: "raw_key \<Rightarrow> key_id" where
  "raw_id = (\<lambda>(m, ty, n). key_id m ty n)"

definition store_ok ::
    "'w sqlite_api \<Rightarrow> ('w \<Rightarrow> int \<Rightarrow> stmt_state option) \<Rightarrow> ('w \<Rightarrow> key_table) \<Rightarrow> database \<Rightarrow> 'w \<Rightarrow> bool" where
  "store_ok lib live tab d w \<longleftrightarrow> sqlite_laws lib live tab \<and> db_ptr d \<noteq> None \<and> table_ok (tab w)"

lemma store_key_contents:
  assumes "store_ok lib live tab d w" "v \<noteq> []" "db_store lib d r v e w = (x, w')"
  shows "store_ok lib live tab d w' \<and>
    (if is_err x then contents (tab w') = contents (tab w)
     else contents (tab w) (raw_id r) = None \<and> contents (tab w') = (contents (tab w))(raw_id r \<mapsto> (v, True)) \<and>
          live w' = live w)"
proof -
  obtain m ty n where r: "r = (m, ty, n)" by (cases r)
  obtain p where p: "db_ptr d = Some p" "sqlite_laws lib live tab" using assms(1) by (auto simp: store_ok_def)
  have "wrote live tab w (run_insert (insert_args (raw_id r) v e) (tab w)) (x, w')"
    using store_key_wrote [OF p(2,1) assms(2), of w m ty n e] assms(3) by (simp add: r db_store_def raw_id_def)
  then show ?thesis
    using run_insert_contents [of "raw_id r" v e "tab w" "tab w'"] assms(1)
    by (cases x) (auto simp: store_ok_def)
qed

lemma update_key_contents:
  assumes "store_ok lib live tab d w" "v \<noteq> []" "db_update lib d r v e w = (x, w')"
  shows "store_ok lib live tab d w' \<and>
    contents (tab w') = (if is_err x then contents (tab w)
      else (contents (tab w))(raw_id r := map_option (\<lambda>(_, a). (v, a)) (contents (tab w) (raw_id r)))) \<and>
    (\<not> is_err x \<longrightarrow> live w' = live w)"
proof -
  obtain m ty n where r: "r = (m, ty, n)" by (cases r)
  obtain p where p: "db_ptr d = Some p" "sqlite_laws lib live tab" using assms(1) by (auto simp: store_ok_def)
  have "wrote live tab w (run_update (update_args (raw_id r) v e) (tab w)) (x, w')"
    using update_key_wrote [OF p(2,1) assms(2), of w m ty n e] assms(3) by (simp add: r db_update_def raw_id_def)
  then show ?thesis
    using run_update_contents [of "raw_id r" v e "tab w"] assms(1) by (cases x) (auto simp: store_ok_def)
qed

lemma remove_key_contents:
  assumes "store_ok lib live tab d w" "db_remove lib d r w = (x, w')"
  shows "store_ok lib live tab d w' \<and>
    contents (tab w') = (if is_err x then contents (tab w)
      else (contents (tab w))(raw_id r := map_option (\<lambda>(v, _). (v, False)) (contents (tab w) (raw_id r)))) \<and>
    (\<not> is_err x \<longrightarrow> live w' = live w)"
proof -
  obtain m ty n where r: "r = (m, ty, n)" by (cases r)
  obtain p where p: "db_ptr d = Some p" "sqlite_laws lib live tab" using assms(1) by (auto simp: store_ok_def)
  have "wrote live tab w (Some (run_remove (where_args (raw_id r)) (tab w))) (x, w')"
    using remove_key_wrote [OF p(2,1), of w m ty n] assms(2) by (simp add: r db_remove_def raw_id_def)
  then show ?thesis
    using run_remove_contents [of "raw_id r" "tab w"] assms(1) by (cases x) (auto simp: store_ok_def)
qed

lemma get_key_contents:
  assumes "store_ok lib live tab d w"
  shows "\<exists>x w'. db_get lib d r w = Ret (x, w') \<and> store_ok lib live tab d w' \<and> contents (tab w') = contents (tab w) \<and>
    (\<forall>v. x = Inr v \<longrightarrow> contents (tab w) (raw_id r) = Some (v, True) \<and>
       (\<exists>s st. live w s = None \<and> live w' = (live w)(s \<mapsto> st)))"
proof -
  obtain m ty n where r: "r = (m, ty, n)" by (cases r)
  obtain p where p: "db_ptr d = Some p" "sqlite_laws lib live tab" "table_ok (tab w)"
    using assms by (auto simp: store_ok_def)
  have "found live tab w (raw_id r) (db_get lib d r w)"
    using get_key_found [where w = w, OF p(2,1,3), of m ty n] by (simp add: r db_get_def raw_id_def)
  then show ?thesis using assms by (auto simp: found_def store_ok_def)
qed

interpretation keys: key_store "db_store lib d" "db_update lib d" "db_remove lib d" "db_get lib d" raw_id
    "\<lambda>v. v \<noteq> []" "store_ok lib live tab d" "\<lambda>w. contents (tab w)" for lib live tab d
proof (unfold_locales, goal_cases)
  case (1 s v r e x s')
  from store_key_contents [OF this] show ?case by (simp split: if_splits)
next
  case (2 s v r e x s')
  from update_key_contents [OF this] show ?case by simp
next
  case (3 s r x s')
  from remove_key_contents [OF this] show ?case by simp
next
  case (4 s r)
  from get_key_contents [OF this] show ?case by blast
qed

section \<open>An instance of the library for examples\<close>

record simdb =
  sd_table :: key_table
  sd_stmts :: "(int \<times> stmt_state) list"

fun fresh_stmt :: "(int \<times> 'a) list \<Rightarrow> int" where
  "fresh_stmt [] = 1"
| "fresh_stmt ((s, x) # xs) = max (s + 1) (fresh_stmt xs)"

lemma fresh_stmt: "map_of xs (fresh_stmt xs) = None"
proof -
  have "s < fresh_stmt xs" if "(s, x) \<in> set xs" for s x
    using that by (induction xs rule: fresh_stmt.induct) auto
  then show ?thesis by (fastforce simp: map_of_eq_None_iff)
qed

definition sim_step :: "int \<Rightarrow> simdb \<Rightarrow> int \<times> simdb" where
  "sim_step s w =
     (case map_of (sd_stmts w) s of
        None \<Rightarrow> (21, w)
      | Some st \<Rightarrow> (case run_sql (s_sql st) (s_args st) (sd_table w) of
            Writes None \<Rightarrow> (19, w)
          | Writes (Some t) \<Rightarrow> (SQLITE_DONE, w\<lparr>sd_table := t\<rparr>)
          | Reads rs \<Rightarrow> if s_pos st < length rs
              then (SQLITE_ROW, w\<lparr>sd_stmts := AList.update s (st\<lparr>s_pos := Suc (s_pos st)\<rparr>) (sd_stmts w)\<rparr>)
              else (SQLITE_DONE, w)
          | Other \<Rightarrow> (SQLITE_DONE, w)))"

definition sim_columns :: "int \<Rightarrow> simdb \<Rightarrow> (string \<times> sql_value) list" where
  "sim_columns s w =
     (case map_of (sd_stmts w) s of
        None \<Rightarrow> []
      | Some st \<Rightarrow> (case run_sql (s_sql st) (s_args st) (sd_table w) of Reads rs \<Rightarrow> rs ! (s_pos st - 1) | _ \<Rightarrow> []))"

definition sim_db :: "simdb sqlite_api" where
  "sim_db =
     \<lparr>sqlite3_open = (\<lambda>p w. (0, 1, w)),
      sqlite3_key = (\<lambda>p k n w. (if k = None then 1 else 0, w)),
      sqlite3_close = (\<lambda>p w. (if sd_stmts w = [] then 0 else 5, w)),
      sqlite3_busy_timeout = (\<lambda>p t w. w),
      sqlite3_next_stmt = (\<lambda>p w. case sd_stmts w of [] \<Rightarrow> None | (s, st) # _ \<Rightarrow> Some s),
      sqlite3_finalize = (\<lambda>s w. w\<lparr>sd_stmts := AList.delete s (sd_stmts w)\<rparr>),
      sqlite3_prepare = (\<lambda>p sql w. let s = fresh_stmt (sd_stmts w) in
        (0, s, w\<lparr>sd_stmts := (s, new_stmt sql) # sd_stmts w\<rparr>)),
      sqlite3_step = sim_step,
      sqlite3_columns = sim_columns,
      sqlite3_bind = (\<lambda>s i v w. case map_of (sd_stmts w) s of
          None \<Rightarrow> (21, w)
        | Some st \<Rightarrow> (0, w\<lparr>sd_stmts := AList.update s (add_arg i v st) (sd_stmts w)\<rparr>)),
      sqlite3_exec = (\<lambda>p sql w. (0, None, w)),
      sqlite3_get_table = (\<lambda>p sql w. (0, [], 0, 0, None, w)),
      sqlite3_errmsg = (\<lambda>p w. ''''),
      file_exists = (\<lambda>p w. True), read_file = (\<lambda>p w. Some ''''), sodium_malloc = (\<lambda>n w. (True, w))\<rparr>"

lemma sim_db_laws [simp]: "sqlite_laws sim_db (\<lambda>w. map_of (sd_stmts w)) sd_table"
  unfolding sqlite_laws_def
proof (intro conjI)
  show "prepare_law sim_db (\<lambda>w. map_of (sd_stmts w)) sd_table"
    by (auto simp: prepare_law_def sim_db_def Let_def sqlite_codes fresh_stmt)
  show "bind_law sim_db (\<lambda>w. map_of (sd_stmts w)) sd_table"
    by (auto simp: bind_law_def sim_db_def sqlite_codes update_conv')
  show "finalize_law sim_db (\<lambda>w. map_of (sd_stmts w)) sd_table"
    by (auto simp: finalize_law_def sim_db_def delete_conv')
  have "sqlite3_step sim_db = sim_step" "sqlite3_columns sim_db = sim_columns" by (simp_all add: sim_db_def)
  then show "step_law sim_db (\<lambda>w. map_of (sd_stmts w)) sd_table"
    by (auto simp: step_law_def sim_step_def sim_columns_def sqlite_codes update_conv'
        split: sql_effect.splits option.splits if_splits)
qed

definition sim_conn :: database where
  "sim_conn = \<lparr>db_ptr = Some 1, db_path = ''fithd.db'', db_key = None, db_key_num_byte = 0\<rparr>"

abbreviation sim_live :: "simdb \<Rightarrow> int \<Rightarrow> stmt_state option" where
  "sim_live \<equiv> \<lambda>w. map_of (sd_stmts w)"

definition sim_empty :: simdb where
  "sim_empty = \<lparr>sd_table = [], sd_stmts = []\<rparr>"

lemma sim_store_ok [simp]: "store_ok sim_db sim_live sd_table sim_conn sim_empty"
  by (simp add: store_ok_def sim_conn_def sim_empty_def table_ok_def)

lemma sim_db_calls:
  "sqlite3_prepare sim_db p sql w = (0, fresh_stmt (sd_stmts w), w\<lparr>sd_stmts := (fresh_stmt (sd_stmts w), new_stmt sql) # sd_stmts w\<rparr>)"
  "sqlite3_bind sim_db s i v w = (case map_of (sd_stmts w) s of None \<Rightarrow> (21, w)
     | Some st \<Rightarrow> (0, w\<lparr>sd_stmts := AList.update s (add_arg i v st) (sd_stmts w)\<rparr>))"
  "sqlite3_open sim_db path w = (0, 1, w)" "sqlite3_key sim_db p key num w = (if key = None then 1 else 0, w)"
  "sqlite3_close sim_db p w = (if sd_stmts w = [] then 0 else 5, w)" "sqlite3_busy_timeout sim_db p t w = w"
  "sqlite3_next_stmt sim_db p w = (case sd_stmts w of [] \<Rightarrow> None | (s, st) # _ \<Rightarrow> Some s)"
  "sqlite3_step sim_db = sim_step" "sqlite3_finalize sim_db s w = w\<lparr>sd_stmts := AList.delete s (sd_stmts w)\<rparr>"
  by (simp_all add: sim_db_def Let_def)

text \<open>Storing, then removing, a key in the empty simulated database.\<close>

definition sim_row :: "int \<Rightarrow> key_row" where
  "sim_row active = \<lparr>k_module = SQL_Text ''peerxxx'', k_type = 1, k_name = SQL_Text ''public_key'', k_value = SQL_Blob [1, 2],
     k_expires = SQL_Null, k_active = active\<rparr>"

lemma bound_Inr [simp]: "bound (Inr u, w) err k = k w"
  by (simp add: bound_def)

lemma sim_prepare:
  "c_text sql = sql \<Longrightarrow> db_prepare sim_db sql sim_conn w =
     (Inr (fresh_stmt (sd_stmts w)), w\<lparr>sd_stmts := (fresh_stmt (sd_stmts w), new_stmt sql) # sd_stmts w\<rparr>)"
  by (simp add: db_prepare_def sim_conn_def sim_db_calls sqlite_codes)

lemma sim_bind:
  assumes "map_of (sd_stmts w) s = Some st"
  shows "db_bind_text sim_db s i v sim_conn w = (Inr (), w\<lparr>sd_stmts := AList.update s (add_arg i (SQL_Text (c_text v)) st) (sd_stmts w)\<rparr>)"
    and "db_bind_blob sim_db s i b sim_conn w = (Inr (), w\<lparr>sd_stmts := AList.update s (add_arg i (SQL_Blob b) st) (sd_stmts w)\<rparr>)"
    and "bind_expiry sim_db s i 0 sim_conn w = (Inr (), w\<lparr>sd_stmts := AList.update s (add_arg i SQL_Null st) (sd_stmts w)\<rparr>)"
  using assms by (simp_all add: db_bind_text_def db_bind_blob_def bind_expiry_def db_bind_null_def bind_result_def sim_db_calls sqlite_codes)

lemma sim_execute:
  assumes "map_of (sd_stmts w) s = Some st" "run_sql (s_sql st) (s_args st) (sd_table w) = Writes (Some t)"
  shows "db_execute sim_db s sim_conn w = (Inr (), w\<lparr>sd_table := t, sd_stmts := AList.delete s (sd_stmts w)\<rparr>)"
  using assms by (simp add: db_execute_def sim_db_calls sim_step_def Let_def)

lemma sim_names: "c_text ''peerxxx'' = ''peerxxx''" "c_text ''public_key'' = ''public_key''"
  by (simp_all add: c_text_def)

lemma sim_insert:
  "run_insert [(5, SQL_Null), (4, SQL_Blob [1, 2]), (3, SQL_Text ''public_key''), (2, SQL_Text ''CURVE25519''), (1, SQL_Text ''peerxxx'')] []
     = Some [sim_row 1]"
  by (simp add: run_insert_def arg_def type_id_def key_types_def sim_row_def)

lemma sim_store:
  "store_key sim_db sim_conn ''peerxxx'' CURVE25519 ''public_key'' [1, 2] 0 sim_empty =
     (Inr (), \<lparr>sd_table = [sim_row 1], sd_stmts = []\<rparr>)"
  using sim_insert by (simp add: store_key_def sim_prepare sim_bind sim_execute sim_names sim_empty_def c_text_type [of CURVE25519, simplified])

lemma sim_remove:
  "remove_key sim_db sim_conn ''peerxxx'' CURVE25519 ''public_key'' \<lparr>sd_table = [sim_row 1], sd_stmts = []\<rparr> =
     (Inr (), \<lparr>sd_table = [sim_row 0], sd_stmts = []\<rparr>)"
  by (simp add: remove_key_def sim_prepare sim_bind sim_execute sim_names c_text_type [of CURVE25519, simplified]
      run_remove_def row_matches_def arg_def type_id_def key_types_def) (simp add: sim_row_def)

section \<open>Properties\<close>

text \<open>
  C9. What the four operations do to the keys, on any run of the library that keeps its
  documented behaviour and may fail at any call. A store that succeeds adds a key that was not
  there, removed ones included, as an active one; an update or a removal that succeeds changes
  the value, or deactivates, a key that is there, and does nothing and still answers Ok when
  there is none; an operation that fails changes no key; reading always returns, changes no
  key, and answers a value only when it is the value of an active key.
\<close>

theorem key_database_operations:
  assumes "store_ok lib live tab d w" "v \<noteq> []" and k: "k = key_id m ty n" and held: "held = contents (tab w)"
  shows "(\<forall>x w'. store_key lib d m ty n v e w = (x, w') \<longrightarrow>
            (if is_err x then contents (tab w') = held
             else held k = None \<and> contents (tab w') = held(k \<mapsto> (v, True)))) \<and>
         (\<forall>x w'. update_key lib d m ty n v e w = (x, w') \<longrightarrow>
            contents (tab w') = (if is_err x then held else
              (case held k of None \<Rightarrow> held | Some (old, active) \<Rightarrow> held(k \<mapsto> (v, active))))) \<and>
         (\<forall>x w'. remove_key lib d m ty n w = (x, w') \<longrightarrow>
            contents (tab w') = (if is_err x then held else
              (case held k of None \<Rightarrow> held | Some (old, active) \<Rightarrow> held(k \<mapsto> (old, False))))) \<and>
         (\<exists>x w'. get_key lib d m ty n w = Ret (x, w') \<and> contents (tab w') = held \<and>
            (\<forall>u. x = Inr u \<longrightarrow> held k = Some (u, True)))"
proof -
  have id: "raw_id (m, ty, n) = k" by (simp add: raw_id_def k)
  have same: "held(k := None) = held" if "held k = None" using that by auto
  show ?thesis
    using store_key_contents [OF assms(1,2), of "(m, ty, n)" e] update_key_contents [OF assms(1,2), of "(m, ty, n)" e]
      remove_key_contents [OF assms(1), of "(m, ty, n)"] get_key_contents [OF assms(1), of "(m, ty, n)"]
    unfolding id db_store_def db_update_def db_remove_def db_get_def prod.case held [symmetric]
    by (auto split: option.splits if_splits simp: same)
qed

theorem key_database_operations_witness:
  "contents [sim_row 1] = (Map.empty :: key_id \<Rightarrow> (byte list \<times> bool) option)(key_id ''peerxxx'' CURVE25519 ''public_key'' \<mapsto> ([1, 2], True))"
proof -
  have "contents [] = Map.empty" by (rule ext) (simp add: contents_def)
  then show ?thesis
    using key_database_operations [OF sim_store_ok, of "[1, 2]" _ "''peerxxx''" CURVE25519 "''public_key''" _ 0] sim_store
    by (simp add: sim_empty_def)
qed

lemma sim_serves: "serves sim_db sim_live (\<lambda>w. True)"
  by (auto simp: serves_def sim_db_calls sim_step_def sqlite_codes)

text \<open>
  C40. What is stored is read back. After a store that answered Ok, and any sequence of
  operations on the database none of which updates or removes that key, whatever they answered,
  reading the key returns the stored bytes if the library is in a state in which it serves queries
  (\<open>serves\<close>: preparing, binding and stepping the query do not fail). When one of these
  calls fails, reading returns an error, and never other bytes.
\<close>

theorem stored_key_is_read_back:
  assumes "store_ok lib live tab d w" "v \<noteq> []" "store_key lib d m ty n v e w = (Inr (), w1)"
    and "list_all (op_value_ok (\<lambda>v. v \<noteq> [])) ops"
    and "list_all (\<lambda>op. map_option raw_id (op_changes op) \<noteq> Some (key_id m ty n)) ops"
    and "run_key_ops (key_op_step (db_store lib d) (db_update lib d) (db_remove lib d) (db_get lib d)) ops w1 = Ret (answers, w2)"
  shows "(\<exists>x w3. get_key lib d m ty n w2 = Ret (x, w3) \<and> (x = Inr v \<or> is_err x)) \<and>
         (\<forall>calm. serves lib live calm \<and> calm w2 \<longrightarrow> (\<exists>w3. get_key lib d m ty n w2 = Ret (Inr v, w3)))"
proof -
  have kept: "store_ok lib live tab d w2 \<and> contents (tab w2) (raw_id (m, ty, n)) = Some (v, True)"
    using keys.kept [OF assms(1,2), of "(m, ty, n)" e w1 ops answers w2] assms(3-6) by (simp add: db_store_def raw_id_def)
  then obtain p where p: "sqlite_laws lib live tab" "db_ptr d = Some p" "table_ok (tab w2)" and k: "contents (tab w2) (key_id m ty n) = Some (v, True)"
    by (auto simp: store_ok_def raw_id_def)
  have "\<forall>calm. serves lib live calm \<and> calm w2 \<longrightarrow> (\<exists>w3. get_key lib d m ty n w2 = Ret (Inr v, w3))"
    by (intro allI impI) (use get_key_serves [OF p _ _ k] in \<open>elim conjE\<close>)
  then show ?thesis
    using keys.read_back [OF conjunct1 [OF kept] conjunct2 [OF kept]] by (simp add: db_get_def)
qed

theorem stored_key_is_read_back_witness:
  "\<exists>w3. get_key sim_db sim_conn ''peerxxx'' CURVE25519 ''public_key'' \<lparr>sd_table = [sim_row 1], sd_stmts = []\<rparr> = Ret (Inr [1, 2], w3)"
  using stored_key_is_read_back [OF sim_store_ok _ sim_store, of "[]" "[]" "\<lparr>sd_table = [sim_row 1], sd_stmts = []\<rparr>"] sim_serves by auto

text \<open>
  A removed key is gone for ever. Once \<open>remove_key\<close> has deactivated a key, no sequence of
  operations makes it readable again: reading it fails, storing it again fails because the
  row is still there, and updating it leaves it inactive.
\<close>

theorem removed_key_is_gone:
  assumes "store_ok lib live tab d w" "contents (tab w) (key_id m ty n) = Some (old, active)"
    and "remove_key lib d m ty n w = (Inr (), w1)"
    and "list_all (op_value_ok (\<lambda>v. v \<noteq> [])) ops"
    and "run_key_ops (key_op_step (db_store lib d) (db_update lib d) (db_remove lib d) (db_get lib d)) ops w1 = Ret (answers, w2)"
  shows "(\<exists>e w3. get_key lib d m ty n w2 = Ret (Inl e, w3)) \<and>
         (\<forall>v exp. v \<noteq> [] \<longrightarrow> is_err (fst (store_key lib d m ty n v exp w2)))"
proof -
  have "store_ok lib live tab d w1 \<and> contents (tab w1) (key_id m ty n) = Some (old, False)"
    using remove_key_contents [OF assms(1), of "(m, ty, n)"] assms(2,3) by (simp add: db_remove_def raw_id_def)
  then obtain v' where "store_ok lib live tab d w2" "contents (tab w2) (raw_id (m, ty, n)) = Some (v', False)"
    using keys.removed_for_ever [of lib live tab d w1 ops "key_id m ty n" old answers w2] assms(4,5)
    by (auto simp: raw_id_def)
  from keys.removed_refuses [OF this] show ?thesis by (auto simp: db_get_def db_store_def)
qed

theorem removed_key_is_gone_witness:
  "is_err (fst (store_key sim_db sim_conn ''peerxxx'' CURVE25519 ''public_key'' [3] 0 \<lparr>sd_table = [sim_row 0], sd_stmts = []\<rparr>))"
proof -
  let ?w = "\<lparr>sd_table = [sim_row 1], sd_stmts = []\<rparr>"
  have "store_ok sim_db sim_live sd_table sim_conn ?w"
    by (simp add: store_ok_def sim_conn_def table_ok_def)
  moreover have "contents (sd_table ?w) (key_id ''peerxxx'' CURVE25519 ''public_key'') = Some ([1, 2], True)"
    by (simp add: contents_def key_id_def sim_names row_matches_def sim_row_def type_id_def key_types_def)
  ultimately show ?thesis
    using removed_key_is_gone [OF _ _ sim_remove, of sim_live sd_table "[1, 2]" True "[]" "[]"
        "\<lparr>sd_table = [sim_row 0], sd_stmts = []\<rparr>"] by simp
qed

lemma sim_query:
  assumes "map_of (sd_stmts w) s = Some st" "run_sql (s_sql st) (s_args st) (sd_table w) = Reads [[(c, SQL_Blob v)]]" "s_pos st = 0"
  shows "\<exists>w'. db_query sim_db s sdbret_new sim_conn w = Ret (Inr (), \<lparr>rows = [\<lparr>columns = [(c, v)]\<rparr>], total_size = length c + length v\<rparr>, w') \<and>
     sd_table w' = sd_table w"
proof -
  let ?w = "w\<lparr>sd_stmts := AList.update s (st\<lparr>s_pos := 1\<rparr>) (sd_stmts w)\<rparr>"
  have a: "sim_step s w = (SQLITE_ROW, ?w)" using assms by (simp add: sim_step_def)
  have b: "sim_step s ?w = (SQLITE_DONE, ?w)" using assms by (simp add: sim_step_def update_conv')
  have c: "sim_columns s ?w = [(c, SQL_Blob v)]" using assms by (simp add: sim_columns_def update_conv')
  have cols: "sqlite3_columns sim_db = sim_columns" by (simp add: sim_db_def)
  have done_: "query_loop sim_db s r ?w = Some (Ret (SQLITE_DONE, r, ?w))" for r
    by (subst query_loop.simps, unfold sim_db_calls b) (simp add: SQLITE_ROW_def SQLITE_DONE_def)
  have "query_loop sim_db s r w = Some (Ret (SQLITE_DONE,
      r\<lparr>rows := rows r @ [\<lparr>columns = [(c, v)]\<rparr>], total_size := total_size r + (length c + length v)\<rparr>, ?w))" for r
    by (subst query_loop.simps, unfold sim_db_calls a) (simp add: done_ c cols read_row_def row_size_def del: One_nat_def)
  then show ?thesis by (auto simp: db_query_def sdbret_flush_def sdbret_new_def sqlite_codes)
qed

lemma sim_get:
  assumes "run_select [(3, SQL_Text n), (2, SQL_Text ''CURVE25519''), (1, SQL_Text ''peerxxx'')] (sd_table w) = [[(''key_value'', SQL_Blob v)]]"
    and "c_text n = n"
  shows "\<exists>w'. get_key sim_db sim_conn ''peerxxx'' CURVE25519 n w = Ret (Inr v, w') \<and> sd_table w' = sd_table w"
proof -
  let ?s = "fresh_stmt (sd_stmts w)"
  let ?st = "add_arg 3 (SQL_Text n) (add_arg 2 (SQL_Text ''CURVE25519'') (add_arg 1 (SQL_Text ''peerxxx'') (new_stmt sql_select)))"
  let ?w = "w\<lparr>sd_stmts := (?s, ?st) # sd_stmts w\<rparr>"
  have "run_sql (s_sql ?st) (s_args ?st) (sd_table ?w) = Reads [[(''key_value'', SQL_Blob v)]]" using assms by simp
  then obtain w' where q: "db_query sim_db ?s sdbret_new sim_conn ?w =
      Ret (Inr (), \<lparr>rows = [\<lparr>columns = [(''key_value'', v)]\<rparr>], total_size = length ''key_value'' + length v\<rparr>, w')" "sd_table w' = sd_table w"
    using sim_query [of ?w ?s ?st "''key_value''" v] by auto
  have "get_key sim_db sim_conn ''peerxxx'' CURVE25519 n w = Ret (Inr v, w')"
    using q(1) assms(2) by (simp add: get_key_def sim_prepare sim_bind sim_names c_text_type [of CURVE25519, simplified] first_column_def)
  with q(2) show ?thesis by blast
qed

text \<open>
  Reading keys leaks statements. A store, an update or a removal that succeeds leaves no
  statement behind; every successful read leaves one that only closing the database
  finalises.
\<close>

theorem get_key_leaks_statements:
  assumes "store_ok lib live tab d w" "v \<noteq> []" "finite (dom (live w))"
  shows "(\<forall>u w'. store_key lib d m ty n v e w = (Inr u, w') \<longrightarrow> live w' = live w) \<and>
         (\<forall>u w'. update_key lib d m ty n v e w = (Inr u, w') \<longrightarrow> live w' = live w) \<and>
         (\<forall>u w'. remove_key lib d m ty n w = (Inr u, w') \<longrightarrow> live w' = live w) \<and>
         (\<forall>u w'. get_key lib d m ty n w = Ret (Inr u, w') \<longrightarrow> card (dom (live w')) = Suc (card (dom (live w))))"
proof -
  have "card (dom (live w')) = Suc (card (dom (live w)))" if g: "get_key lib d m ty n w = Ret (Inr u, w')" for u w'
  proof -
    obtain s st where "live w s = None" "live w' = (live w)(s \<mapsto> st)"
      using get_key_contents [OF assms(1), of "(m, ty, n)"] g by (auto simp: db_get_def)
    then show ?thesis using assms(3) by (simp add: domIff)
  qed
  then show ?thesis
    using store_key_contents [OF assms(1,2), of "(m, ty, n)" e] update_key_contents [OF assms(1,2), of "(m, ty, n)" e]
      remove_key_contents [OF assms(1), of "(m, ty, n)"]
    by (auto simp: db_store_def db_update_def db_remove_def)
qed

theorem get_key_leaks_statements_witness:
  "\<exists>w'. get_key sim_db sim_conn ''peerxxx'' CURVE25519 ''public_key'' \<lparr>sd_table = [sim_row 1], sd_stmts = []\<rparr> = Ret (Inr [1, 2], w') \<and>
     card (dom (sim_live w')) = 1"
proof -
  let ?w = "\<lparr>sd_table = [sim_row 1], sd_stmts = []\<rparr>"
  have "run_select [(3, SQL_Text ''public_key''), (2, SQL_Text ''CURVE25519''), (1, SQL_Text ''peerxxx'')] (sd_table ?w) = [[(''key_value'', SQL_Blob [1, 2])]]"
    by (simp add: run_select_def row_matches_def arg_def type_id_def key_types_def sim_row_def)
  from sim_get [OF this] obtain w' where g: "get_key sim_db sim_conn ''peerxxx'' CURVE25519 ''public_key'' ?w = Ret (Inr [1, 2], w')"
    by (auto simp: sim_names)
  have ok: "store_ok sim_db sim_live sd_table sim_conn ?w" and ne: "[1 :: byte] \<noteq> []"
    by (simp_all add: store_ok_def sim_conn_def table_ok_def sim_row_def)
  have "card (dom (sim_live w')) = Suc (card (dom (sim_live ?w)))"
    using get_key_leaks_statements [OF ok ne finite_dom_map_of,
        THEN conjunct2, THEN conjunct2, THEN conjunct2, THEN spec, THEN spec, THEN mp, OF g] .
  with g show ?thesis by simp
qed

end
