(* ===== verification/DbLifecycle.thy ===== *)
theory DbLifecycle
  imports KeyStore
begin

text \<open>
  The life of a \<open>DatabaseAccess\<close>: the constructor, opening and closing, the key in memory, the
  check of the tables, and what operations answer on a connection that is not open.
\<close>

section \<open>The loops of closing\<close>

text \<open>
  \<open>stmts p w\<close> are the statements of a connection that are not finalised, in the order
  \<open>sqlite3_next_stmt\<close> shows them.
\<close>

definition stmt_list_law :: "'w sqlite_api \<Rightarrow> (int \<Rightarrow> 'w \<Rightarrow> int list) \<Rightarrow> bool" where
  "stmt_list_law lib stmts \<longleftrightarrow>
     (\<forall>p w. sqlite3_next_stmt lib p w = (case stmts p w of [] \<Rightarrow> None | s # _ \<Rightarrow> Some s)) \<and>
     (\<forall>p s w. stmts p (sqlite3_finalize lib s w) = removeAll s (stmts p w))"

lemma finalize_loop_ends:
  assumes "stmt_list_law lib stmts"
  shows "\<exists>w'. finalize_loop lib p w = Some (Ret w') \<and> stmts p w' = []"
proof (induction "length (stmts p w)" arbitrary: w rule: less_induct)
  case less
  show ?case
  proof (cases "stmts p w")
    case Nil
    then show ?thesis using assms by (subst finalize_loop.simps) (simp add: stmt_list_law_def)
  next
    case (Cons s ss)
    let ?w = "sqlite3_finalize lib s w"
    have "length (removeAll s ss) < Suc (length ss)" using length_removeAll_less_eq [of s ss] by (simp add: less_Suc_eq_le)
    then have "length (stmts p ?w) < length (stmts p w)" using assms Cons by (simp add: stmt_list_law_def)
    from less [OF this] obtain w' where "finalize_loop lib p ?w = Some (Ret w')" "stmts p w' = []" by blast
    then show ?thesis using assms Cons by (subst finalize_loop.simps) (auto simp: stmt_list_law_def)
  qed
qed

lemma report_loop_diverges:
  assumes "report_loop lib p w = Some r"
  shows "sqlite3_next_stmt lib p w = None \<and> r = Ret ()"
  using assms
proof (induction rule: report_loop.raw_induct [rotated 1, consumes 1, case_names step])
  case (step f lib p w r)
  from step(2) step(1) [of lib p w r] show ?case by (auto split: option.splits)
qed

lemma db_close_Ok:
  assumes "db_close lib d w = Ret (Inr (), d', w')" "db_ptr d = Some p"
  shows "d' = d\<lparr>db_ptr := None\<rparr>"
proof -
  obtain w1 where w1: "of_loop (finalize_loop lib p w) = Ret w1"
    using assms by (auto simp: db_close_def obind_eq_Ret_iff)
  obtain rc w2 where "sqlite3_close lib p w1 = (rc, w2)" by (cases "sqlite3_close lib p w1") auto
  then show ?thesis using assms w1 by (auto simp: db_close_def Err_def obind_eq_Ret_iff split: if_splits)
qed

section \<open>Properties\<close>

text \<open>
  C37. Closing. On an open connection, \<open>close\<close> finalises every statement before it hands the
  connection to SQLite, so it returns; when SQLite closes it the pointer becomes null, else
  the connection stays as it is and the error is answered. If SQLite answers \<open>SQLITE_BUSY\<close> while
  a statement is left, the loop that reports it never ends.
\<close>

theorem close_finalizes_statements:
  assumes "stmt_list_law lib stmts" "db_ptr d = Some p"
  shows "\<exists>w1. stmts p w1 = [] \<and> finalize_loop lib p w = Some (Ret w1) \<and>
           (case sqlite3_close lib p w1 of (rc, w2) \<Rightarrow>
              db_close lib d w =
                (if rc = SQLITE_OK then Ret (Inr (), d\<lparr>db_ptr := None\<rparr>, w2)
                 else if rc = SQLITE_BUSY \<and> stmts p w2 \<noteq> [] then Diverges
                 else Ret (Err FAIL_CLOSE_DB (''Failed to close database: '' @ sqlite3_errmsg lib (Some p) w2), d, w2)))"
proof -
  obtain w1 where w1: "finalize_loop lib p w = Some (Ret w1)" "stmts p w1 = []"
    using finalize_loop_ends [OF assms(1)] by blast
  obtain rc w2 where c: "sqlite3_close lib p w1 = (rc, w2)" by (cases "sqlite3_close lib p w1") auto
  have report: "of_loop (report_loop lib p w2) = (if stmts p w2 \<noteq> [] then Diverges else Ret ())"
  proof (cases "stmts p w2")
    case Nil
    then show ?thesis using assms(1) by (subst report_loop.simps) (simp add: stmt_list_law_def)
  next
    case (Cons s ss)
    then have "sqlite3_next_stmt lib p w2 \<noteq> None" using assms(1) by (simp add: stmt_list_law_def)
    then have "report_loop lib p w2 = None" using report_loop_diverges by (metis option.exhaust)
    with Cons show ?thesis by simp
  qed
  have "db_close lib d w =
      (if rc = SQLITE_OK then Ret (Inr (), d\<lparr>db_ptr := None\<rparr>, w2)
       else if rc = SQLITE_BUSY \<and> stmts p w2 \<noteq> [] then Diverges
       else Ret (Err FAIL_CLOSE_DB (''Failed to close database: '' @ sqlite3_errmsg lib (Some p) w2), d, w2))"
    using w1(1) c assms(2) by (simp add: db_close_def report)
  with w1 c show ?thesis by auto
qed

lemma sim_stmt_list_law: "stmt_list_law sim_db (\<lambda>p w. map fst (sd_stmts w))"
proof -
  have "map fst (AList.delete s xs) = removeAll s (map fst xs)" for s and xs :: "(int \<times> stmt_state) list"
    by (induction xs) (auto simp: AList.delete_eq)
  then show ?thesis by (auto simp: stmt_list_law_def sim_db_def split: list.splits)
qed

theorem close_finalizes_statements_witness:
  "db_close sim_db sim_conn \<lparr>sd_table = [], sd_stmts = [(1, new_stmt sql_select), (2, new_stmt sql_select)]\<rparr> =
     Ret (Inr (), sim_conn\<lparr>db_ptr := None\<rparr>, \<lparr>sd_table = [], sd_stmts = []\<rparr>)"
proof -
  have "finalize_loop sim_db 1 \<lparr>sd_table = [], sd_stmts = [(1, new_stmt sql_select), (2, new_stmt sql_select)]\<rparr> =
      Some (Ret \<lparr>sd_table = [], sd_stmts = []\<rparr>)"
    by (simp add: finalize_loop.simps sim_db_def)
  then show ?thesis
    using close_finalizes_statements [OF sim_stmt_list_law, of sim_conn 1 "\<lparr>sd_table = [], sd_stmts = [(1, new_stmt sql_select), (2, new_stmt sql_select)]\<rparr>"]
    by (auto simp: sim_conn_def sim_db_def sqlite_codes)
qed

text \<open>
  The table check never succeeds. The query asks for tables whose name is both
  \<open>key_types\<close> and \<open>module_keys\<close>; on any database, whatever tables it has, it has no rows,
  and the check answers \<open>DB_MISSING_TABLES\<close> (or the error of the library).
\<close>

definition table_names_law :: "'w sqlite_api \<Rightarrow> ('w \<Rightarrow> string list) \<Rightarrow> bool" where
  "table_names_law lib names \<longleftrightarrow>
     (\<forall>p w rc cells nrows ncols errmsg w'.
        sqlite3_get_table lib p check_tables_sql w = (rc, cells, nrows, ncols, errmsg, w') \<longrightarrow> rc = SQLITE_OK \<longrightarrow>
        nrows = length (filter (\<lambda>n. n = ''key_types'' \<and> n = ''module_keys'') (names w)))"

theorem verify_tables_never_succeeds:
  assumes "table_names_law lib names"
  shows "\<exists>e w'. verify_tables lib d w = Ret (Inl e, w') \<and>
           code e = (if fst (sqlite3_get_table lib (db_ptr d) check_tables_sql w) = SQLITE_OK then DB_MISSING_TABLES else DB_ERROR)"
proof -
  obtain rc cells nrows ncols errmsg w' where
    g: "sqlite3_get_table lib (db_ptr d) check_tables_sql w = (rc, cells, nrows, ncols, errmsg, w')"
    by (metis prod_cases6)
  have "nrows = 0" if "rc = SQLITE_OK"
  proof -
    have "nrows = length (filter (\<lambda>n. n = ''key_types'' \<and> n = ''module_keys'') (names w))"
      using assms g that unfolding table_names_law_def by blast
    also have "filter (\<lambda>n. n = ''key_types'' \<and> n = ''module_keys'') (names w) = []"
      by (simp add: filter_empty_conv)
    finally show ?thesis by simp
  qed
  then show ?thesis using g by (auto simp: verify_tables_def Err_def)
qed

theorem verify_tables_never_succeeds_witness:
  "\<exists>e w'. verify_tables sim_db sim_conn sim_empty = Ret (Inl e, w') \<and> code e = DB_MISSING_TABLES"
proof -
  have "table_names_law sim_db (\<lambda>w. [''key_types'', ''module_keys''])"
    by (simp add: table_names_law_def sim_db_def)
  from verify_tables_never_succeeds [OF this, of sim_conn sim_empty] show ?thesis
    by (simp add: sim_db_def sqlite_codes)
qed

text \<open>
  The key is used once. A connection that has been opened no longer holds the key, in
  memory or otherwise; so when it is closed and opened again, SQLCipher is given a null key
  of length 0, and if it refuses that the database cannot be reopened.
\<close>

theorem open_forgets_the_key:
  assumes "db_ptr d = None" "db_open lib d w = Ret (Inr (), d1, w1)"
    and "db_close lib d1 w2 = Ret (Inr (), d2, w3)"
  shows "db_ptr d1 \<noteq> None \<and> db_key d1 = None \<and> db_key_num_byte d1 = 0 \<and>
         d2 = d\<lparr>db_key := None, db_key_num_byte := 0\<rparr> \<and>
         (\<forall>w p v. sqlite3_open lib (c_text (db_path d)) w = (SQLITE_OK, p, v) \<longrightarrow>
            fst (sqlite3_key lib p None 0 v) \<noteq> SQLITE_OK \<longrightarrow>
            (\<exists>e w'. db_open lib d2 w = Ret (Inl e, d2, w') \<and> code e = FAIL_DECRYPT_DB))"
proof -
  obtain p where d1: "d1 = d\<lparr>db_ptr := Some p, db_key := None, db_key_num_byte := 0\<rparr>"
    using assms(1,2) by (auto simp: db_open_def Let_def obind_eq_Ret_iff Err_sev_def split: if_splits prod.splits)
  then have "d2 = d1\<lparr>db_ptr := None\<rparr>" using db_close_Ok [OF assms(3), of p] by simp
  then have d2: "d2 = d\<lparr>db_key := None, db_key_num_byte := 0\<rparr>"
    using d1 assms(1) by (cases d) simp
  have "\<exists>e w'. db_open lib d2 w = Ret (Inl e, d2, w') \<and> code e = FAIL_DECRYPT_DB"
    if "sqlite3_open lib (c_text (db_path d)) w = (SQLITE_OK, p, v)" "fst (sqlite3_key lib p None 0 v) \<noteq> SQLITE_OK" for w p v
    using that assms(1) by (cases "sqlite3_key lib p None 0 v") (simp add: d2 db_open_def Err_sev_def Let_def)
  then show ?thesis using d1 d2 by simp
qed

lemma sim_open:
  "db_open sim_db \<lparr>db_ptr = None, db_path = ''db'', db_key = Some [1], db_key_num_byte = 1\<rparr> sim_empty =
     Ret (Inr (), \<lparr>db_ptr = Some 1, db_path = ''db'', db_key = None, db_key_num_byte = 0\<rparr>, sim_empty)"
proof -
  have pragma: "c_text ''PRAGMA journal_mode = WAL;'' = ''PRAGMA journal_mode = WAL;''" by (simp add: c_text_def)
  have "run_sql ''PRAGMA journal_mode = WAL;'' [] [] = Other"
    by (simp add: run_sql_def sql_insert_def sql_update_def sql_remove_def sql_select_def)
  then have loop: "exec_loop sim_db 1 \<lparr>sd_table = [], sd_stmts = [(1, new_stmt ''PRAGMA journal_mode = WAL;'')]\<rparr> =
      Some (Ret (SQLITE_DONE, \<lparr>sd_table = [], sd_stmts = [(1, new_stmt ''PRAGMA journal_mode = WAL;'')]\<rparr>))"
    by (subst exec_loop.simps) (simp add: sim_db_calls sim_step_def sqlite_codes)
  have "db_exec sim_db ''PRAGMA journal_mode = WAL;'' d sim_empty = Ret (Inr (), sim_empty)" if "db_ptr d = Some 1" for d
    unfolding db_exec_def pragma using that loop by (simp add: sim_db_calls sim_empty_def sqlite_codes)
  then show ?thesis by (simp add: db_open_def sim_db_calls sqlite_codes)
qed

theorem open_forgets_the_key_witness:
  "\<exists>e w'. db_open sim_db \<lparr>db_ptr = None, db_path = ''db'', db_key = None, db_key_num_byte = 0\<rparr> sim_empty =
     Ret (Inl e, \<lparr>db_ptr = None, db_path = ''db'', db_key = None, db_key_num_byte = 0\<rparr>, w') \<and> code e = FAIL_DECRYPT_DB"
proof -
  have "finalize_loop sim_db 1 sim_empty = Some (Ret sim_empty)"
    by (subst finalize_loop.simps) (simp add: sim_db_def sim_empty_def)
  then have c: "db_close sim_db \<lparr>db_ptr = Some 1, db_path = ''db'', db_key = None, db_key_num_byte = 0\<rparr> sim_empty =
      Ret (Inr (), \<lparr>db_ptr = None, db_path = ''db'', db_key = None, db_key_num_byte = 0\<rparr>, sim_empty)"
    by (simp add: db_close_def) (simp add: sim_db_def sim_empty_def sqlite_codes)
  show ?thesis
    using open_forgets_the_key [OF _ sim_open c] by (simp add: sim_db_def sqlite_codes)
qed

text \<open>
  The constructor. It aborts when the key buffer cannot be allocated; over an existing
  file a failure to open or decrypt it is ignored: the object is constructed on no
  connection, and preparing, executing and reading keys through it answer errors and reach
  nothing; over a file that does not exist the same failure aborts the process.
\<close>

theorem constructor_outcomes:
  assumes "runs_registered he" "sodium_malloc lib (length key) w = (ok, w1)"
    and "sqlite3_open lib (c_text path) w1 = (rc, p, w2)" "rc \<noteq> SQLITE_OK"
  shows "(\<not> ok \<longrightarrow> db_init lib he path key w = Aborts) \<and>
         (ok \<longrightarrow> \<not> file_exists lib path w1 \<longrightarrow> db_init lib he path key w = Aborts) \<and>
         (ok \<longrightarrow> file_exists lib path w1 \<longrightarrow>
            (\<exists>d w'. db_init lib he path key w = Ret (d, w') \<and> db_ptr d = None \<and>
               (\<forall>sql v. db_prepare lib sql d v = (Err NO_VALID_DB ''Database connection is null'', v) \<and>
                  db_exec lib sql d v = Ret (Err NO_VALID_DB ''Db pointer is null'', v)) \<and>
               (\<forall>m ty n v. get_key lib d m ty n v = Ret (Err FAIL_GET_KEY ''Failed to prepare key query'', v)) \<and>
               (\<forall>m ty n b e v. store_key lib d m ty n b e v = (Err FAIL_ADD_KEY ''Failed to prepare statement to add key'', v))))"
proof -
  let ?d = "\<lparr>db_ptr = None, db_path = path, db_key = Some key, db_key_num_byte = length key\<rparr>"
  obtain e where o: "db_open lib ?d w1 = Ret (Inl e, ?d, snd (sqlite3_close lib p w2))" "code e = FAIL_OPEN_DB_FILE"
    using assms(3,4) by (simp add: db_open_def Err_sev_def Let_def)
  have "database_drp (code e) = Some False" using o(2) by (simp add: database_drp_def handle_open_def)
  then have "he database_drp e = False" by (rule runs_registeredD [OF assms(1)])
  then have "new_db lib he ?d w1 = Aborts" using o by (simp add: new_db_def)
  then show ?thesis
    using assms(2) o by (auto simp: db_init_def db_prepare_def db_exec_def get_key_def store_key_def Err_def)
qed

theorem constructor_outcomes_witness:
  "\<exists>d w'. db_init (sim_db\<lparr>sqlite3_open := \<lambda>p w. (14, 0, w)\<rparr>) plain_handler ''db'' [1, 2] sim_empty = Ret (d, w') \<and> db_ptr d = None"
  using constructor_outcomes [OF plain_handler_runs_registered, of "sim_db\<lparr>sqlite3_open := \<lambda>p w. (14, 0, w)\<rparr>" "[1, 2]" sim_empty True
      sim_empty "''db''" 14 0 sim_empty]
  by (auto simp: sim_db_def sqlite_codes)

end
