(* ===== verification/ManagedBuffer.thy ===== *)
theory ManagedBuffer
  imports ErrorTypes
begin

text \<open>
  \<open>ManagedBuffer<T, Size>\<close> of \<open>core/common/5thdbuffer.h\<close>: a fixed array of slots with an
  intrusive free list. The slots of an array of \<open>Size\<close> elements are a list of that
  length; a pointer handed to the caller is a byte address, computed from the address of the
  array, the size of a slot and the offset of \<open>Slot::data\<close> (type \<open>layout\<close>), so that the
  pointer arithmetic of \<open>release_slot\<close> is the code's. The interface the clients rely on is
  the locale \<open>slot_pool\<close>, interpreted at the end on the operations of the model.
\<close>

section \<open>State and operations\<close>

definition CANARY_VALUE :: "64 word" where
  "CANARY_VALUE = 0xDEADBEEFCAFEBABE"

record 'a slot =
  in_use :: bool
  slot_id :: nat
  next_free :: nat
  slot_data :: 'a
  canary :: "64 word"

record 'a managed_buffer =
  buffer :: "'a slot list"
  current_free :: nat
  used_count :: nat

record layout =
  base_addr :: int
  slot_bytes :: int
  data_off :: int

definition layout_ok :: "layout \<Rightarrow> bool" where
  "layout_ok lay \<longleftrightarrow> 0 < slot_bytes lay \<and> 0 \<le> data_off lay \<and> data_off lay < slot_bytes lay"

definition data_addr :: "layout \<Rightarrow> nat \<Rightarrow> int" where
  "data_addr lay i = base_addr lay + int i * slot_bytes lay + data_off lay"

definition handle_canary :: bool where
  "handle_canary = False"

definition buffer_drp :: recovery_plan where
  "buffer_drp = [MANAGE_BUFF_OVERFLOW \<mapsto> handle_canary]"

text \<open>The constructor: \<open>raw\<close> is what the elements hold before the user's callback runs.\<close>

definition buffer_init :: "('a \<Rightarrow> 'a) \<Rightarrow> 'a list \<Rightarrow> 'a managed_buffer" where
  "buffer_init init_func raw =
     \<lparr>buffer = map (\<lambda>i. \<lparr>in_use = False, slot_id = i, next_free = (i + 1) mod length raw,
                         slot_data = init_func (raw ! i), canary = CANARY_VALUE\<rparr>)
                   [0..<length raw],
      current_free = 0, used_count = 0\<rparr>"

definition buffer_deinit :: "('a \<Rightarrow> 'a) \<Rightarrow> 'a managed_buffer \<Rightarrow> 'a managed_buffer" where
  "buffer_deinit deinit_func b =
     b\<lparr>buffer := map (\<lambda>s. s\<lparr>slot_data := deinit_func (slot_data s)\<rparr>) (buffer b)\<rparr>"

definition capacity :: "'a managed_buffer \<Rightarrow> nat" where
  "capacity b = length (buffer b)"

definition get_slot :: "layout \<Rightarrow> 'a managed_buffer \<Rightarrow> (int option \<times> 'a managed_buffer) outcome" where
  "get_slot lay b =
     (if used_count b = capacity b then Ret (None, b)
      else let slot_index = current_free b in
        if slot_index < capacity b then
          Ret (Some (data_addr lay slot_index),
               b\<lparr>buffer := (buffer b)[slot_index := (buffer b ! slot_index)\<lparr>in_use := True\<rparr>],
                 current_free := next_free (buffer b ! slot_index),
                 used_count := size_inc (used_count b)\<rparr>)
        else Undefined)"

definition check_canary :: "'a slot \<Rightarrow> void_result" where
  "check_canary s =
     (if canary s \<noteq> CANARY_VALUE
      then Err_sev MANAGE_BUFF_OVERFLOW ''Buffer overflow detected'' CRITICAL
      else Inr ())"

text \<open>
  \<open>release_slot\<close> takes a pointer to the caller's pointer; it answers the result, what the
  caller's pointer holds afterwards, and the buffer. A pointer into the array that is not
  the data of a slot is undefined behaviour.
\<close>

definition release_slot ::
    "error_handler \<Rightarrow> layout \<Rightarrow> int option option \<Rightarrow> 'a managed_buffer
       \<Rightarrow> (bool result \<times> int option option \<times> 'a managed_buffer) outcome" where
  "release_slot he lay slot_ptr b =
     (case slot_ptr of
        None \<Rightarrow> Ret (Err MANAGE_BUFF_NULL_ON_RELEASE ''Null was given to release'', slot_ptr, b)
      | Some None \<Rightarrow> Ret (Err MANAGE_BUFF_NULL_ON_RELEASE ''Null was given to release'', slot_ptr, b)
      | Some (Some p) \<Rightarrow>
          let slot = p - data_off lay; first = base_addr lay;
              end = base_addr lay + int (capacity b) * slot_bytes lay in
          if slot < first \<or> slot \<ge> end then
            Ret (Err MANAGE_BUFF_SLOT_NOT_IN_RANGE ''Slot not in range of buffer memory'', slot_ptr, b)
          else if (slot - first) mod slot_bytes lay \<noteq> 0 then Undefined
          else let i = nat ((slot - first) div slot_bytes lay); s = buffer b ! i in
            if \<not> in_use s then Ret (Err MANAGE_BUFF_MONKEY ''Slot is not in use'', slot_ptr, b)
            else if (case check_canary s of Inl e \<Rightarrow> \<not> he buffer_drp e | Inr _ \<Rightarrow> False) then Aborts
            else Ret (Inr True, Some None,
                      b\<lparr>buffer := (buffer b)[i := s\<lparr>in_use := False, next_free := current_free b\<rparr>],
                        current_free := i,
                        used_count := size_dec (used_count b)\<rparr>))"

definition is_empty :: "'a managed_buffer \<Rightarrow> bool result" where
  "is_empty b = Inr (used_count b = 0)"

definition is_full :: "'a managed_buffer \<Rightarrow> bool result" where
  "is_full b = Inr (used_count b = capacity b)"

definition buffer_size :: "'a managed_buffer \<Rightarrow> nat result" where
  "buffer_size b = Inr (used_count b)"

fun check_slots :: "error_handler \<Rightarrow> 'a slot list \<Rightarrow> void_result outcome" where
  "check_slots he [] = Ret (Inr ())"
| "check_slots he (s # ss) =
     (case check_canary s of
        Inl e \<Rightarrow> if \<not> he buffer_drp e then Aborts else check_slots he ss
      | Inr _ \<Rightarrow> check_slots he ss)"

definition check_integrity :: "error_handler \<Rightarrow> 'a managed_buffer \<Rightarrow> void_result outcome" where
  "check_integrity he b = check_slots he (buffer b)"

text \<open>
  Access through a pointer that \<open>get_slot\<close> returned: the index of the slot it points
  into, and reading and writing the data there.
\<close>

definition slot_index :: "layout \<Rightarrow> int \<Rightarrow> nat" where
  "slot_index lay p = nat ((p - data_off lay - base_addr lay) div slot_bytes lay)"

definition peek :: "layout \<Rightarrow> int \<Rightarrow> 'a managed_buffer \<Rightarrow> 'a" where
  "peek lay p b = slot_data (buffer b ! slot_index lay p)"

definition poke :: "layout \<Rightarrow> int \<Rightarrow> 'a \<Rightarrow> 'a managed_buffer \<Rightarrow> 'a managed_buffer" where
  "poke lay p v b =
     b\<lparr>buffer := (buffer b)[slot_index lay p := (buffer b ! slot_index lay p)\<lparr>slot_data := v\<rparr>]\<rparr>"

section \<open>The free list\<close>

text \<open>The first \<open>n\<close> slots met when following \<open>next_free\<close> from slot \<open>i\<close>.\<close>

primrec chain :: "'a slot list \<Rightarrow> nat \<Rightarrow> nat \<Rightarrow> nat list" where
  "chain ss 0 i = []"
| "chain ss (Suc n) i = i # chain ss n (next_free (ss ! i))"

definition free_list :: "'a managed_buffer \<Rightarrow> nat list" where
  "free_list b = chain (buffer b) (capacity b - used_count b) (current_free b)"

definition used_slots :: "'a managed_buffer \<Rightarrow> nat set" where
  "used_slots b = {i. i < capacity b \<and> in_use (buffer b ! i)}"

text \<open>
  Well-formedness: the free list lists the slots that are not in use, each once. The link of
  a slot in use, and the last link of the free list, may hold any index of the array.
\<close>

definition buffer_ok :: "'a managed_buffer \<Rightarrow> bool" where
  "buffer_ok b \<longleftrightarrow>
     capacity b < size_bound \<and> used_count b \<le> capacity b \<and>
     distinct (free_list b) \<and>
     (\<forall>i. i \<in> set (free_list b) \<longleftrightarrow> i < capacity b \<and> \<not> in_use (buffer b ! i))"

lemma buffer_ok_free_iff:
  "buffer_ok b \<Longrightarrow> i \<in> set (free_list b) \<longleftrightarrow> i < capacity b \<and> \<not> in_use (buffer b ! i)"
  by (simp add: buffer_ok_def)

lemma buffer_ok_bounds:
  "buffer_ok b \<Longrightarrow> capacity b < size_bound \<and> used_count b \<le> capacity b \<and> distinct (free_list b)"
  by (simp add: buffer_ok_def)

definition canaries_ok :: "'a managed_buffer \<Rightarrow> bool" where
  "canaries_ok b \<longleftrightarrow> (\<forall>s\<in>set (buffer b). canary s = CANARY_VALUE)"

lemma length_chain [simp]: "length (chain ss n i) = n"
  by (induction n arbitrary: i) auto

lemma chain_cong:
  "(\<And>j. j \<in> set (chain ss n i) \<Longrightarrow> next_free (ss' ! j) = next_free (ss ! j))
     \<Longrightarrow> chain ss' n i = chain ss n i"
  by (induction n arbitrary: i) auto

lemma chain_init:
  assumes "\<And>j. j < N \<Longrightarrow> next_free (ss ! j) = Suc j mod N" and "i + n \<le> N"
  shows "chain ss n i = [i..<i + n]"
  using assms(2)
proof (induction n arbitrary: i)
  case 0
  then show ?case by simp
next
  case (Suc n)
  show ?case
  proof (cases n)
    case 0
    then show ?thesis by simp
  next
    case (Suc m)
    with Suc.prems have "Suc i < N" by simp
    then have "next_free (ss ! i) = Suc i" using assms(1) [of i] by simp
    with Suc.IH [of "Suc i"] Suc.prems show ?thesis
      by (simp add: upt_rec [of i])
  qed
qed

lemma slot_index_data_addr [simp]:
  "layout_ok lay \<Longrightarrow> slot_index lay (data_addr lay i) = i"
  by (simp add: layout_ok_def slot_index_def data_addr_def)

lemma data_addr_inject [simp]: "layout_ok lay \<Longrightarrow> data_addr lay i = data_addr lay j \<longleftrightarrow> i = j"
  by (metis slot_index_data_addr)

lemma card_used: "buffer_ok b \<Longrightarrow> card (used_slots b) = used_count b"
proof -
  assume ok: "buffer_ok b"
  let ?all = "{i. i < capacity b}" and ?free = "{i. i < capacity b \<and> \<not> in_use (buffer b ! i)}"
  have "?free = set (free_list b)" using buffer_ok_free_iff [OF ok] by auto
  then have "card ?free = length (free_list b)"
    using buffer_ok_bounds [OF ok] by (simp add: distinct_card)
  then have "card ?free = capacity b - used_count b" by (simp add: free_list_def)
  moreover have "used_slots b = ?all - ?free" by (auto simp: used_slots_def)
  moreover have "card (?all - ?free) = card ?all - card ?free"
    by (rule card_Diff_subset) auto
  ultimately show ?thesis using buffer_ok_bounds [OF ok] by simp
qed

section \<open>Each operation, branch by branch\<close>

lemma capacity_init [simp]: "capacity (buffer_init f raw) = length raw"
  by (simp add: capacity_def buffer_init_def)

lemma buffer_init_ok: "length raw < size_bound \<Longrightarrow> buffer_ok (buffer_init f raw)"
proof -
  assume "length raw < size_bound"
  moreover have "free_list (buffer_init f raw) = [0..<length raw]"
    unfolding free_list_def
    by (subst chain_init [where N = "length raw"]) (auto simp: buffer_init_def capacity_def)
  moreover have "used_count (buffer_init f raw) = 0" by (simp add: buffer_init_def)
  ultimately show ?thesis
    by (auto simp: buffer_ok_def capacity_def buffer_init_def)
qed

lemma canaries_init: "canaries_ok (buffer_init f raw)"
  by (auto simp: canaries_ok_def buffer_init_def)

lemma get_slot_full: "used_count b = capacity b \<Longrightarrow> get_slot lay b = Ret (None, b)"
  by (simp add: get_slot_def)

lemma free_list_Cons:
  "buffer_ok b \<Longrightarrow> used_count b \<noteq> capacity b \<Longrightarrow>
   \<exists>n. capacity b - used_count b = Suc n \<and>
       free_list b = current_free b # chain (buffer b) n (next_free (buffer b ! current_free b))"
proof -
  assume "buffer_ok b" "used_count b \<noteq> capacity b"
  then have "0 < capacity b - used_count b" by (simp add: buffer_ok_def)
  then obtain n where "capacity b - used_count b = Suc n" using gr0_conv_Suc by blast
  then show ?thesis by (auto simp: free_list_def)
qed

lemma current_free_bound:
  "buffer_ok b \<Longrightarrow> used_count b \<noteq> capacity b \<Longrightarrow>
   current_free b < capacity b \<and> \<not> in_use (buffer b ! current_free b)"
  using free_list_Cons [of b] buffer_ok_free_iff [of b "current_free b"] by auto

definition taken :: "'a managed_buffer \<Rightarrow> 'a managed_buffer" where
  "taken b = b\<lparr>buffer := (buffer b)[current_free b := (buffer b ! current_free b)\<lparr>in_use := True\<rparr>],
               current_free := next_free (buffer b ! current_free b),
               used_count := Suc (used_count b)\<rparr>"

lemma get_slot_free:
  assumes "buffer_ok b" "used_count b \<noteq> capacity b"
  shows "get_slot lay b = Ret (Some (data_addr lay (current_free b)), taken b)"
proof -
  have "used_count b + 1 < size_bound" using assms by (simp add: buffer_ok_def)
  then show ?thesis
    using current_free_bound [OF assms] assms(2) by (simp add: get_slot_def taken_def Let_def)
qed

lemma capacity_taken [simp]: "capacity (taken b) = capacity b"
  by (simp add: capacity_def taken_def)

lemma taken_nth:
  "i < capacity b \<Longrightarrow> buffer (taken b) ! i =
     (if i = current_free b then (buffer b ! i)\<lparr>in_use := True\<rparr> else buffer b ! i)"
  by (simp add: taken_def capacity_def nth_list_update)

lemma free_list_taken:
  assumes "buffer_ok b" "used_count b \<noteq> capacity b"
  shows "free_list b = current_free b # free_list (taken b)"
proof -
  obtain n where n: "capacity b - used_count b = Suc n"
    and fl: "free_list b = current_free b # chain (buffer b) n (next_free (buffer b ! current_free b))"
    using free_list_Cons [OF assms] by blast
  have "chain (buffer (taken b)) n i = chain (buffer b) n i" for i
    by (rule chain_cong) (simp add: taken_def nth_update_field [where f = next_free])
  moreover have "capacity b - used_count (taken b) = n" using n by (simp add: taken_def)
  moreover have "current_free (taken b) = next_free (buffer b ! current_free b)"
    by (simp add: taken_def)
  ultimately show ?thesis using fl by (simp add: free_list_def)
qed

lemma buffer_ok_taken:
  assumes "buffer_ok b" "used_count b \<noteq> capacity b"
  shows "buffer_ok (taken b)"
proof -
  note fl = free_list_taken [OF assms]
  note bounds = buffer_ok_bounds [OF assms(1)]
  have "i \<in> set (free_list (taken b)) \<longleftrightarrow> i < capacity b \<and> \<not> in_use (buffer (taken b) ! i)" for i
    using buffer_ok_free_iff [OF assms(1), of i] bounds
    by (auto simp: fl taken_nth split: if_splits)
  moreover have "used_count (taken b) \<le> capacity b"
    using bounds assms(2) by (simp add: taken_def)
  ultimately show ?thesis using bounds fl by (simp add: buffer_ok_def)
qed

lemma used_slots_taken:
  assumes "buffer_ok b" "used_count b \<noteq> capacity b"
  shows "used_slots (taken b) = insert (current_free b) (used_slots b)"
    and "current_free b \<notin> used_slots b"
  using current_free_bound [OF assms] by (auto simp: used_slots_def taken_nth split: if_splits)

definition given_back :: "nat \<Rightarrow> 'a managed_buffer \<Rightarrow> 'a managed_buffer" where
  "given_back i b =
     b\<lparr>buffer := (buffer b)[i := (buffer b ! i)\<lparr>in_use := False, next_free := current_free b\<rparr>],
       current_free := i, used_count := used_count b - 1\<rparr>"

lemma used_count_pos: "buffer_ok b \<Longrightarrow> i \<in> used_slots b \<Longrightarrow> 0 < used_count b"
  using card_used [of b] card_gt_0_iff [of "used_slots b"] by (auto simp: used_slots_def)

lemma release_branch:
  assumes lay: "layout_ok lay" and i: "i < capacity b"
  shows "release_slot he lay (Some (Some (data_addr lay i))) b =
     (if \<not> in_use (buffer b ! i)
      then Ret (Err MANAGE_BUFF_MONKEY ''Slot is not in use'', Some (Some (data_addr lay i)), b)
      else if (case check_canary (buffer b ! i) of Inl e \<Rightarrow> \<not> he buffer_drp e | Inr _ \<Rightarrow> False)
      then Aborts
      else Ret (Inr True, Some None,
             b\<lparr>buffer := (buffer b)[i := (buffer b ! i)\<lparr>in_use := False, next_free := current_free b\<rparr>],
               current_free := i, used_count := size_dec (used_count b)\<rparr>))"
proof -
  have sb: "0 < slot_bytes lay" using lay by (simp add: layout_ok_def)
  have off: "data_addr lay i - data_off lay = base_addr lay + int i * slot_bytes lay"
    by (simp add: data_addr_def)
  have "\<not> int i * slot_bytes lay < 0" and "\<not> int i * slot_bytes lay \<ge> int (capacity b) * slot_bytes lay"
    using sb i by (auto simp: not_less)
  then show ?thesis
    using sb unfolding release_slot_def by (simp add: off Let_def)
qed

lemma release_used:
  assumes "layout_ok lay" "buffer_ok b" "canaries_ok b" "i \<in> used_slots b"
  shows "release_slot he lay (Some (Some (data_addr lay i))) b = Ret (Inr True, Some None, given_back i b)"
proof -
  have i: "i < capacity b" "in_use (buffer b ! i)" using assms(4) by (auto simp: used_slots_def)
  have c: "check_canary (buffer b ! i) = Inr ()"
    using assms(3) i by (simp add: check_canary_def canaries_ok_def capacity_def)
  have "0 < used_count b" and "used_count b < size_bound"
    using used_count_pos [OF assms(2,4)] buffer_ok_bounds [OF assms(2)] by auto
  then show ?thesis
    using release_branch [OF assms(1) i(1)] i c by (simp add: given_back_def)
qed

lemma capacity_given_back [simp]: "capacity (given_back i b) = capacity b"
  by (simp add: capacity_def given_back_def)

lemma given_back_nth:
  "j < capacity b \<Longrightarrow> buffer (given_back i b) ! j =
     (if j = i then (buffer b ! i)\<lparr>in_use := False, next_free := current_free b\<rparr> else buffer b ! j)"
  by (simp add: given_back_def capacity_def nth_list_update)

lemma free_list_given_back:
  assumes "buffer_ok b" "i \<in> used_slots b"
  shows "free_list (given_back i b) = i # free_list b"
proof -
  let ?n = "capacity b - used_count b"
  have i: "i < capacity b" "in_use (buffer b ! i)" using assms(2) by (auto simp: used_slots_def)
  have pos: "0 < used_count b" using used_count_pos assms by blast
  have "i \<notin> set (free_list b)" using buffer_ok_free_iff [OF assms(1)] i by blast
  then have "chain (buffer (given_back i b)) ?n (current_free b) = free_list b"
    unfolding free_list_def
    by (intro chain_cong) (metis given_back_def managed_buffer.select_convs(1)
        managed_buffer.surjective managed_buffer.update_convs(1-3) nth_list_update_neq)
  moreover have "capacity b - (used_count b - 1) = Suc ?n"
    using pos buffer_ok_bounds [OF assms(1)] by linarith
  moreover have "next_free (buffer (given_back i b) ! i) = current_free b"
    using i by (simp add: given_back_nth)
  moreover have "current_free (given_back i b) = i" "used_count (given_back i b) = used_count b - 1"
    by (simp_all add: given_back_def)
  ultimately show ?thesis by (simp add: free_list_def)
qed

lemma buffer_ok_given_back:
  assumes "buffer_ok b" "i \<in> used_slots b"
  shows "buffer_ok (given_back i b)"
proof -
  note fl = free_list_given_back [OF assms]
  note bounds = buffer_ok_bounds [OF assms(1)]
  have i: "i < capacity b" "in_use (buffer b ! i)" using assms(2) by (auto simp: used_slots_def)
  have "j \<in> set (free_list (given_back i b))
      \<longleftrightarrow> j < capacity b \<and> \<not> in_use (buffer (given_back i b) ! j)" for j
    using buffer_ok_free_iff [OF assms(1), of j] i
    by (auto simp: fl given_back_nth split: if_splits)
  moreover have "i \<notin> set (free_list b)" using buffer_ok_free_iff [OF assms(1), of i] i by simp
  moreover have "used_count (given_back i b) = used_count b - 1"
    by (simp add: given_back_def)
  then have "used_count (given_back i b) \<le> capacity b" using bounds by linarith
  ultimately show ?thesis using bounds fl by (simp add: buffer_ok_def)
qed

lemma used_slots_given_back:
  "i \<in> used_slots b \<Longrightarrow> used_slots (given_back i b) = used_slots b - {i}"
  by (auto simp: used_slots_def given_back_nth split: if_splits)

lemma canaries_taken: "canaries_ok b \<Longrightarrow> current_free b < capacity b \<Longrightarrow> canaries_ok (taken b)"
  by (auto simp: canaries_ok_def taken_def capacity_def dest!: subsetD [OF set_update_subset_insert])

lemma canaries_given_back: "canaries_ok b \<Longrightarrow> i < capacity b \<Longrightarrow> canaries_ok (given_back i b)"
  by (auto simp: canaries_ok_def given_back_def capacity_def dest!: subsetD [OF set_update_subset_insert])


section \<open>The interface of the clients\<close>

text \<open>
  What the bus and the transmitter rely on. \<open>held\<close> is the set of pointers handed out and
  not given back, \<open>room\<close> the number of slots left.
\<close>

locale slot_pool =
  fixes get :: "'b \<Rightarrow> (int option \<times> 'b) outcome"
    and release :: "int option option \<Rightarrow> 'b \<Rightarrow> (bool result \<times> int option option \<times> 'b) outcome"
    and read :: "int \<Rightarrow> 'b \<Rightarrow> 'd"
    and store :: "int \<Rightarrow> 'd \<Rightarrow> 'b \<Rightarrow> 'b"
    and inv :: "'b \<Rightarrow> bool"
    and held :: "'b \<Rightarrow> int set"
    and room :: "'b \<Rightarrow> nat"
  assumes get_empty: "inv b \<Longrightarrow> room b = 0 \<Longrightarrow> get b = Ret (None, b)"
    and get_some: "inv b \<Longrightarrow> 0 < room b \<Longrightarrow>
      \<exists>p b'. get b = Ret (Some p, b') \<and> inv b' \<and> p \<notin> held b \<and> held b' = insert p (held b) \<and>
             room b = Suc (room b') \<and> (\<forall>q. read q b' = read q b)"
    and release_held: "inv b \<Longrightarrow> p \<in> held b \<Longrightarrow>
      \<exists>b'. release (Some (Some p)) b = Ret (Inr True, Some None, b') \<and> inv b' \<and>
           held b' = held b - {p} \<and> room b' = Suc (room b) \<and> (\<forall>q. read q b' = read q b)"
    and store_keeps: "inv b \<Longrightarrow> p \<in> held b \<Longrightarrow>
      inv (store p v b) \<and> held (store p v b) = held b \<and> room (store p v b) = room b"
    and read_store: "inv b \<Longrightarrow> p \<in> held b \<Longrightarrow> q \<in> held b \<Longrightarrow>
      read q (store p v b) = (if p = q then v else read q b)"

text \<open>Taking up to \<open>n\<close> slots and giving none back.\<close>

fun grab :: "('b \<Rightarrow> (int option \<times> 'b) outcome) \<Rightarrow> nat \<Rightarrow> 'b \<Rightarrow> (int list \<times> 'b) outcome" where
  "grab get 0 b = Ret ([], b)"
| "grab get (Suc n) b =
     obind (get b) (\<lambda>(r, b'). case r of
         None \<Rightarrow> Ret ([], b')
       | Some p \<Rightarrow> obind (grab get n b') (\<lambda>(ps, b''). Ret (p # ps, b'')))"

context slot_pool
begin

lemma get_cases:
  assumes "inv b"
  obtains (none) "room b = 0" "get b = Ret (None, b)"
    | (some) p b' where "0 < room b" "get b = Ret (Some p, b')" "inv b'" "p \<notin> held b"
        "held b' = insert p (held b)" "room b = Suc (room b')" "\<And>q. read q b' = read q b"
  using get_empty [OF assms] get_some [OF assms] by (cases "room b = 0") auto

lemma bracket:
  assumes "inv b" "0 < room b"
  shows "\<exists>p b1 b2. get b = Ret (Some p, b1) \<and>
           release (Some (Some p)) (store p v b1) = Ret (Inr True, Some None, b2) \<and>
           inv b2 \<and> held b2 = held b \<and> room b2 = room b"
proof -
  obtain p b1 where g: "get b = Ret (Some p, b1)" "inv b1" "p \<notin> held b"
      "held b1 = insert p (held b)" "room b = Suc (room b1)"
    using get_some [OF assms] by blast
  then have s: "inv (store p v b1)" "p \<in> held (store p v b1)" "held (store p v b1) = held b1"
      "room (store p v b1) = room b1"
    using store_keeps [of b1 p v] by auto
  obtain b2 where "release (Some (Some p)) (store p v b1) = Ret (Inr True, Some None, b2)"
      "inv b2" "held b2 = held (store p v b1) - {p}" "room b2 = Suc (room (store p v b1))"
    using release_held [OF s(1,2)] by blast
  with g s show ?thesis by auto
qed

lemma grab_all:
  assumes "inv b" "room b \<le> n"
  shows "\<exists>ps b'. grab get n b = Ret (ps, b') \<and> inv b' \<and> length ps = room b \<and> distinct ps \<and>
           set ps \<inter> held b = {} \<and> held b' = set ps \<union> held b \<and> room b' = 0"
  using assms
proof (induction n arbitrary: b)
  case 0
  then show ?case by simp
next
  case (Suc n)
  from Suc.prems(1) show ?case
  proof (cases rule: get_cases)
    case none
    with Suc.prems show ?thesis by auto
  next
    case (some p b')
    with Suc.prems have "room b' \<le> n" by simp
    with Suc.IH [OF some(3)] obtain ps b'' where
      "grab get n b' = Ret (ps, b'')" "inv b''" "length ps = room b'" "distinct ps"
      "set ps \<inter> held b' = {}" "held b'' = set ps \<union> held b'" "room b'' = 0" by blast
    with some show ?thesis by auto
  qed
qed

lemma exhausted_after_leaks:
  "inv b \<Longrightarrow> \<exists>ps b'. grab get (room b) b = Ret (ps, b') \<and> length ps = room b \<and> get b' = Ret (None, b')"
  using grab_all [of b "room b"] get_empty by blast

end

text \<open>
  A pool that hands out the slot that was given back last: \<open>stack\<close> is the order in which it
  will hand out its free slots.
\<close>

locale lifo_pool = slot_pool get release read store inv held room
  for get :: "'b \<Rightarrow> (int option \<times> 'b) outcome"
    and release :: "int option option \<Rightarrow> 'b \<Rightarrow> (bool result \<times> int option option \<times> 'b) outcome"
    and read :: "int \<Rightarrow> 'b \<Rightarrow> 'd"
    and store :: "int \<Rightarrow> 'd \<Rightarrow> 'b \<Rightarrow> 'b"
    and inv :: "'b \<Rightarrow> bool"
    and held :: "'b \<Rightarrow> int set"
    and room :: "'b \<Rightarrow> nat" +
  fixes stack :: "'b \<Rightarrow> int list"
  assumes stack_get: "inv b \<Longrightarrow> get b = Ret (Some p, b') \<Longrightarrow> stack b = p # stack b'"
    and stack_release: "inv b \<Longrightarrow> p \<in> held b \<Longrightarrow>
      release (Some (Some p)) b = Ret (r, sp, b') \<Longrightarrow> stack b' = p # stack b"
    and stack_store: "stack (store p v b) = stack b"
    and stack_room: "length (stack b) = room b"
    and read_free: "inv b \<Longrightarrow> p \<in> held b \<Longrightarrow> q \<in> set (stack b) \<Longrightarrow> read q (store p v b) = read q b"

context lifo_pool
begin

lemma get_stack:
  assumes "inv b" "stack b = p # st"
  shows "\<exists>b'. get b = Ret (Some p, b') \<and> inv b' \<and> stack b' = st \<and> held b' = insert p (held b) \<and> p \<notin> held b \<and>
           room b = Suc (room b') \<and> (\<forall>q. read q b' = read q b)"
proof -
  have "0 < room b" using stack_room [of b] assms(2) by simp
  then obtain p' b' where g: "get b = Ret (Some p', b')" "inv b'" "p' \<notin> held b" "held b' = insert p' (held b)"
      "room b = Suc (room b')" "\<forall>q. read q b' = read q b"
    using get_some [OF assms(1)] by blast
  with stack_get [OF assms(1) g(1)] assms(2) show ?thesis by simp
qed

lemma release_stack:
  assumes "inv b" "p \<in> held b"
  shows "\<exists>b'. release (Some (Some p)) b = Ret (Inr True, Some None, b') \<and> inv b' \<and> stack b' = p # stack b \<and>
           held b' = held b - {p} \<and> room b' = Suc (room b) \<and> (\<forall>q. read q b' = read q b)"
  using release_held [OF assms] stack_release [OF assms] by fastforce

lemma store_held:
  assumes "inv b" "p \<in> held b"
  shows "inv (store p v b) \<and> held (store p v b) = held b \<and> room (store p v b) = room b \<and>
         stack (store p v b) = stack b \<and> read p (store p v b) = v \<and>
         (\<forall>q\<in>set (stack b). read q (store p v b) = read q b)"
  using store_keeps [OF assms] read_store [OF assms assms(2)] stack_store read_free [OF assms] by simp

lemma lifo:
  assumes "inv b" "p \<in> held b" "release (Some (Some p)) b = Ret (r, sp, b')"
  shows "\<exists>b''. get b' = Ret (Some p, b'')"
proof -
  have "inv b'" "0 < room b'" using release_held [OF assms(1,2)] assms(3) by auto
  then obtain p' b'' where "get b' = Ret (Some p', b'')" using get_some by blast
  moreover have "p' = p" using stack_get [OF \<open>inv b'\<close> calculation] stack_release [OF assms] by simp
  ultimately show ?thesis by blast
qed

text \<open>A client that takes a slot, stores \<open>v\<close> and gives it back meets \<open>v\<close> when it comes again.\<close>

lemma bracket_reuse:
  assumes "inv b" "0 < room b"
  shows "\<exists>p b1 b2 b3. get b = Ret (Some p, b1) \<and>
           release (Some (Some p)) (store p v b1) = Ret (Inr True, Some None, b2) \<and>
           inv b2 \<and> room b2 = room b \<and> get b2 = Ret (Some p, b3) \<and> read p b3 = v"
proof -
  obtain p b1 b2 where g: "get b = Ret (Some p, b1)"
      "release (Some (Some p)) (store p v b1) = Ret (Inr True, Some None, b2)"
      "inv b2" "held b2 = held b" "room b2 = room b"
    using bracket [OF assms] by blast
  have b1: "inv b1" "p \<in> held b1" using get_some [OF assms] g(1) by auto
  have s: "inv (store p v b1)" "p \<in> held (store p v b1)" using store_keeps [OF b1, of v] b1 by auto
  obtain b3 where b3: "get b2 = Ret (Some p, b3)" using lifo [OF s g(2)] by blast
  have "read p b3 = read p b2" using get_some [of b2] b3 g assms(2) by auto
  also have "\<dots> = read p (store p v b1)" using release_held [OF s] g(2) by auto
  also have "\<dots> = v" using read_store [OF b1 b1(2), of v] by simp
  finally show ?thesis using g b3 by blast
qed

end

section \<open>The managed buffer is such a pool\<close>

definition pool_ok :: "layout \<Rightarrow> 'a managed_buffer \<Rightarrow> bool" where
  "pool_ok lay b \<longleftrightarrow> layout_ok lay \<and> buffer_ok b \<and> canaries_ok b"

definition held_slots :: "layout \<Rightarrow> 'a managed_buffer \<Rightarrow> int set" where
  "held_slots lay b = data_addr lay ` used_slots b"

definition room :: "'a managed_buffer \<Rightarrow> nat" where
  "room b = capacity b - used_count b"

lemma held_slots_taken:
  "pool_ok lay b \<Longrightarrow> used_count b \<noteq> capacity b \<Longrightarrow>
   held_slots lay (taken b) = insert (data_addr lay (current_free b)) (held_slots lay b) \<and>
   data_addr lay (current_free b) \<notin> held_slots lay b"
  using used_slots_taken [of b] by (auto simp: held_slots_def pool_ok_def)

lemma held_slots_given_back:
  "layout_ok lay \<Longrightarrow> i \<in> used_slots b \<Longrightarrow>
   held_slots lay (given_back i b) = held_slots lay b - {data_addr lay i}"
  by (auto simp: held_slots_def used_slots_given_back)

lemma peek_taken [simp]: "peek lay q (taken b) = peek lay q b"
  by (simp add: peek_def taken_def nth_update_field [where f = slot_data])

lemma peek_given_back [simp]: "peek lay q (given_back i b) = peek lay q b"
  by (simp add: peek_def given_back_def nth_update_field [where f = slot_data])

lemma poke_fields [simp]:
  "capacity (poke lay p v b) = capacity b"
  "used_count (poke lay p v b) = used_count b"
  "current_free (poke lay p v b) = current_free b"
  by (simp_all add: poke_def capacity_def)

lemma poke_links [simp]:
  "in_use (buffer (poke lay p v b) ! i) = in_use (buffer b ! i)"
  "next_free (buffer (poke lay p v b) ! i) = next_free (buffer b ! i)"
  unfolding poke_def by (simp, rule nth_update_field, simp)+

lemma free_list_poke [simp]: "free_list (poke lay p v b) = free_list b"
  unfolding free_list_def by (simp, rule chain_cong, simp)

lemma canaries_poke [simp]:
  "slot_index lay p < capacity b \<Longrightarrow> canaries_ok b \<Longrightarrow> canaries_ok (poke lay p v b)"
  by (auto simp: canaries_ok_def poke_def capacity_def dest!: subsetD [OF set_update_subset_insert])

lemma held_index:
  "layout_ok lay \<Longrightarrow> p \<in> held_slots lay b \<Longrightarrow>
   slot_index lay p \<in> used_slots b \<and> p = data_addr lay (slot_index lay p)"
  by (auto simp: held_slots_def)

lemma get_slot_pool:
  assumes "pool_ok lay b" "0 < room b"
  shows "get_slot lay b = Ret (Some (data_addr lay (current_free b)), taken b) \<and>
         pool_ok lay (taken b) \<and> room b = Suc (room (taken b))"
proof -
  have neq: "used_count b \<noteq> capacity b" using assms(2) by (simp add: room_def)
  moreover have "room b = Suc (room (taken b))"
    using assms(2) by (simp add: room_def capacity_def taken_def)
  ultimately show ?thesis
    using assms(1) get_slot_free [OF _ neq] buffer_ok_taken [OF _ neq] current_free_bound [OF _ neq]
    by (auto simp: pool_ok_def canaries_taken)
qed

lemma release_slot_pool:
  assumes "pool_ok lay b" "p \<in> held_slots lay b"
  shows "release_slot he lay (Some (Some p)) b = Ret (Inr True, Some None, given_back (slot_index lay p) b) \<and>
         pool_ok lay (given_back (slot_index lay p) b) \<and>
         room (given_back (slot_index lay p) b) = Suc (room b)"
proof -
  let ?i = "slot_index lay p"
  have ok: "layout_ok lay" "buffer_ok b" "canaries_ok b" using assms(1) by (auto simp: pool_ok_def)
  have i: "?i \<in> used_slots b" "p = data_addr lay ?i" using held_index [OF ok(1) assms(2)] by auto
  have "room (given_back ?i b) = capacity b - (used_count b - 1)"
    by (simp add: room_def) (simp add: given_back_def)
  then have "room (given_back ?i b) = Suc (room b)"
    using used_count_pos [OF ok(2) i(1)] buffer_ok_bounds [OF ok(2)]
    by (simp only: room_def) linarith
  moreover have "?i < capacity b" using i by (simp add: used_slots_def)
  ultimately show ?thesis
    using release_used [OF ok i(1), of he] i(2) ok buffer_ok_given_back [OF ok(2) i(1)]
    by (auto simp: pool_ok_def canaries_given_back)
qed

lemma pool_ok_poke:
  "pool_ok lay b \<Longrightarrow> p \<in> held_slots lay b \<Longrightarrow>
   pool_ok lay (poke lay p v b) \<and> held_slots lay (poke lay p v b) = held_slots lay b \<and>
   room (poke lay p v b) = room b"
  using held_index [of lay p b]
  by (auto simp: pool_ok_def buffer_ok_def held_slots_def used_slots_def room_def)

lemma peek_poke:
  "pool_ok lay b \<Longrightarrow> p \<in> held_slots lay b \<Longrightarrow> q \<in> held_slots lay b \<Longrightarrow>
   peek lay q (poke lay p v b) = (if p = q then v else peek lay q b)"
  using held_index [of lay p b] held_index [of lay q b]
  by (auto simp: pool_ok_def peek_def poke_def used_slots_def capacity_def nth_list_update)

lemma poke_poke [simp]: "poke lay p v (poke lay p v' b) = poke lay p v b"
  by (cases "slot_index lay p < length (buffer b)") (simp_all add: poke_def list_update_beyond)

interpretation pool: slot_pool "get_slot lay" "release_slot he lay" "peek lay" "poke lay"
    "pool_ok lay" "held_slots lay" room for lay he
proof (unfold_locales, goal_cases)
  case (1 b)
  then show ?case by (simp add: get_slot_full room_def pool_ok_def buffer_ok_def)
next
  case (2 b)
  then show ?case using get_slot_pool [of lay b] held_slots_taken [of lay b] by (auto simp: room_def)
next
  case (3 b p)
  then show ?case
    using release_slot_pool [of lay b p he] held_index [of lay p b] held_slots_given_back [of lay]
    by (auto simp: pool_ok_def)
next
  case (4 b p v)
  then show ?case by (rule pool_ok_poke)
next
  case (5 b p q v)
  then show ?case by (rule peek_poke)
qed

definition free_stack :: "layout \<Rightarrow> 'a managed_buffer \<Rightarrow> int list" where
  "free_stack lay b = map (data_addr lay) (free_list b)"

interpretation lifo: lifo_pool "get_slot lay" "release_slot he lay" "peek lay" "poke lay"
    "pool_ok lay" "held_slots lay" room "free_stack lay" for lay he
proof (unfold_locales, goal_cases)
  case (1 b p b')
  then have "used_count b \<noteq> capacity b" by (auto simp: get_slot_def)
  moreover from this have "0 < room b" using 1 by (simp add: room_def pool_ok_def buffer_ok_def)
  ultimately show ?case
    using 1 get_slot_pool [of lay b] free_list_taken [of b] by (auto simp: free_stack_def pool_ok_def)
next
  case (2 b p r sp b')
  then show ?case
    using release_slot_pool [of lay b p he] held_index [of lay p b] free_list_given_back [of b "slot_index lay p"]
    by (auto simp: free_stack_def pool_ok_def)
next
  case (3 p v b)
  then show ?case by (simp add: free_stack_def)
next
  case (4 b)
  then show ?case by (simp add: free_stack_def free_list_def room_def)
next
  case (5 b p q v)
  then have ok: "layout_ok lay" "buffer_ok b" by (simp_all add: pool_ok_def)
  have p: "slot_index lay p \<in> used_slots b" using held_index [OF ok(1) 5(2)] ..
  obtain i where i: "q = data_addr lay i" "i \<in> set (free_list b)"
    using 5(3) unfolding free_stack_def by auto
  then have "slot_index lay q \<notin> used_slots b"
    using ok buffer_ok_free_iff [OF ok(2), of i] by (simp add: used_slots_def)
  with p have "slot_index lay p \<noteq> slot_index lay q" by metis
  then show ?case by (simp add: peek_def poke_def)
qed

section \<open>Reference model\<close>

text \<open>
  What the buffer promises, without links and counters: a stack of free slots and a set of
  used ones.
\<close>

definition abs_buffer :: "'a managed_buffer \<Rightarrow> nat list \<times> nat set" where
  "abs_buffer b = (free_list b, used_slots b)"

fun spec_get :: "nat list \<times> nat set \<Rightarrow> nat option \<times> nat list \<times> nat set" where
  "spec_get ([], used) = (None, [], used)"
| "spec_get (i # free, used) = (Some i, free, insert i used)"

fun spec_release :: "nat \<Rightarrow> nat list \<times> nat set \<Rightarrow> nat list \<times> nat set" where
  "spec_release i (free, used) = (i # free, used - {i})"

lemma free_list_Nil_iff: "buffer_ok b \<Longrightarrow> free_list b = [] \<longleftrightarrow> used_count b = capacity b"
proof -
  assume "buffer_ok b"
  then have "length (free_list b) = capacity b - used_count b" "used_count b \<le> capacity b"
    by (simp_all add: free_list_def buffer_ok_bounds)
  then show ?thesis by (metis diff_is_0_eq le_antisym length_0_conv diff_self_eq_0)
qed

lemma release_success:
  assumes "layout_ok lay" "release_slot he lay (Some (Some p)) b = Ret (Inr v, sp, b')"
  shows "p \<in> held_slots lay b"
proof -
  let ?d = "p - data_off lay - base_addr lay"
  have sb: "0 < slot_bytes lay" using assms(1) by (simp add: layout_ok_def)
  from assms(2) have r: "0 \<le> ?d" "?d < int (capacity b) * slot_bytes lay" "?d mod slot_bytes lay = 0"
      "in_use (buffer b ! nat (?d div slot_bytes lay))"
    unfolding release_slot_def Err_def by (auto simp: Let_def split: if_splits)
  let ?i = "nat (?d div slot_bytes lay)"
  have q: "0 \<le> ?d div slot_bytes lay" using r(1) sb by (simp add: pos_imp_zdiv_nonneg_iff)
  have eq: "?d = ?d div slot_bytes lay * slot_bytes lay" using r(3) by (metis add.right_neutral div_mult_mod_eq)
  then have "?d div slot_bytes lay < int (capacity b)" using r(2) sb by (metis mult_less_cancel_right_pos)
  with q r(4) have "?i \<in> used_slots b" by (auto simp: used_slots_def nat_less_iff)
  moreover have "p = data_addr lay ?i" using q eq by (simp add: data_addr_def)
  ultimately show ?thesis by (auto simp: held_slots_def)
qed

lemma release_error_keeps: "release_slot he lay sp b = Ret (Inl e, sp', b') \<Longrightarrow> b' = b \<and> sp' = sp"
  unfolding release_slot_def Err_def
  by (auto simp: Let_def split: if_splits option.splits)

section \<open>Runs of a client\<close>

text \<open>
  A client with the set of pointers it holds. It may give back any pointer at all, its own,
  one it has already given back or a stray one; it writes only through pointers it holds.
\<close>

inductive buffer_step ::
    "error_handler \<Rightarrow> layout \<Rightarrow> 'a managed_buffer \<times> int set \<Rightarrow> 'a managed_buffer \<times> int set \<Rightarrow> bool"
    for he lay where
  acquire: "get_slot lay b = Ret (Some p, b') \<Longrightarrow> buffer_step he lay (b, live) (b', insert p live)"
| exhausted: "get_slot lay b = Ret (None, b') \<Longrightarrow> buffer_step he lay (b, live) (b', live)"
| give_back: "release_slot he lay (Some (Some p)) b = Ret (Inr v, sp, b') \<Longrightarrow>
    buffer_step he lay (b, live) (b', live - {p})"
| refused: "release_slot he lay sp b = Ret (Inl e, sp', b') \<Longrightarrow> buffer_step he lay (b, live) (b', live)"
| fill: "p \<in> live \<Longrightarrow> buffer_step he lay (b, live) (poke lay p v b, live)"

inductive buffer_reachable ::
    "error_handler \<Rightarrow> layout \<Rightarrow> 'a managed_buffer \<times> int set \<Rightarrow> bool" for he lay where
  start: "length raw < size_bound \<Longrightarrow> buffer_reachable he lay (buffer_init f raw, {})"
| step: "buffer_reachable he lay s \<Longrightarrow> buffer_step he lay s t \<Longrightarrow> buffer_reachable he lay t"

inductive_cases buffer_stepE: "buffer_step he lay (b, live) t"

definition client_inv :: "layout \<Rightarrow> 'a managed_buffer \<times> int set \<Rightarrow> bool" where
  "client_inv lay s \<longleftrightarrow> pool_ok lay (fst s) \<and> snd s = held_slots lay (fst s)"

lemma client_inv_init:
  "layout_ok lay \<Longrightarrow> length raw < size_bound \<Longrightarrow> client_inv lay (buffer_init f raw, {})"
  by (auto simp: client_inv_def pool_ok_def buffer_init_ok canaries_init held_slots_def used_slots_def)
    (auto simp: buffer_init_def capacity_def)

lemma client_inv_step: "buffer_step he lay s t \<Longrightarrow> client_inv lay s \<Longrightarrow> client_inv lay t"
proof (induction rule: buffer_step.induct)
  case (acquire b p b' live)
  then have ok: "pool_ok lay b" and live: "live = held_slots lay b" by (auto simp: client_inv_def)
  from ok show ?case
    by (cases rule: pool.get_cases) (use acquire live in \<open>auto simp: client_inv_def\<close>)
next
  case (exhausted b b' live)
  then have ok: "pool_ok lay b" by (auto simp: client_inv_def)
  from ok show ?case
    by (cases rule: pool.get_cases) (use exhausted in \<open>auto simp: client_inv_def\<close>)
next
  case (give_back p b v sp b' live)
  then have ok: "pool_ok lay b" and live: "live = held_slots lay b" by (auto simp: client_inv_def)
  then have lay: "layout_ok lay" by (simp add: pool_ok_def)
  have p: "p \<in> held_slots lay b" by (rule release_success [OF lay give_back.hyps])
  then have "held_slots lay (given_back (slot_index lay p) b) = held_slots lay b - {p}"
    using held_index [OF lay p] held_slots_given_back [OF lay] by metis
  then show ?case
    using release_slot_pool [OF ok p, of he] live give_back.hyps by (simp add: client_inv_def)
next
  case (refused sp b e sp' b' live)
  then show ?case using release_error_keeps [OF refused.hyps] by simp
next
  case (fill p live b v)
  then show ?case using pool_ok_poke [of lay b p v] by (simp add: client_inv_def)
qed

lemma client_inv_reachable:
  "buffer_reachable he lay s \<Longrightarrow> layout_ok lay \<Longrightarrow> client_inv lay s"
  by (induction rule: buffer_reachable.induct) (auto simp: client_inv_init intro: client_inv_step)

lemma card_held: "pool_ok lay b \<Longrightarrow> card (held_slots lay b) = used_count b"
proof -
  assume ok: "pool_ok lay b"
  then have "inj_on (data_addr lay) (used_slots b)" by (auto simp: inj_on_def pool_ok_def)
  then show ?thesis using ok card_used [of b] by (simp add: held_slots_def card_image pool_ok_def)
qed

lemma handler_rejects_canary:
  "runs_registered he \<Longrightarrow> \<not> he buffer_drp \<lparr>code = MANAGE_BUFF_OVERFLOW, message = m, severity = v\<rparr>"
  using runs_registeredD [of he buffer_drp "\<lparr>code = MANAGE_BUFF_OVERFLOW, message = m, severity = v\<rparr>" False]
  by (simp add: buffer_drp_def handle_canary_def)

section \<open>Properties\<close>

text \<open>
  C2. In every state a client can reach from the constructed buffer, whatever it gives back
  and in whatever order: the number of pointers it holds is \<open>used_count\<close> and at most the
  capacity; \<open>get_slot\<close> returns, never a pointer that is already held, and a null pointer
  exactly when all slots are held; and giving back a held pointer succeeds without abort.
\<close>

theorem buffer_no_double_allocation:
  assumes "layout_ok lay" and "buffer_reachable he lay (b, live)"
  shows "card live = used_count b \<and> used_count b \<le> capacity b \<and>
    (\<exists>r b'. get_slot lay b = Ret (r, b') \<and> (r = None \<longleftrightarrow> card live = capacity b) \<and>
            (\<forall>p. r = Some p \<longrightarrow> p \<notin> live)) \<and>
    (\<forall>p\<in>live. \<exists>b'. release_slot he lay (Some (Some p)) b = Ret (Inr True, Some None, b'))"
proof -
  have inv: "pool_ok lay b" "live = held_slots lay b"
    using client_inv_reachable [OF assms(2,1)] by (simp_all add: client_inv_def)
  have c: "card live = used_count b" "used_count b \<le> capacity b"
    using card_held inv buffer_ok_bounds by (auto simp: pool_ok_def)
  have rel: "\<forall>p\<in>live. \<exists>b'. release_slot he lay (Some (Some p)) b = Ret (Inr True, Some None, b')"
    using pool.release_held [OF inv(1)] inv(2) by blast
  from inv(1) show ?thesis
    by (cases rule: pool.get_cases) (use c rel inv in \<open>auto simp: room_def\<close>)
qed

theorem buffer_no_double_allocation_witness:
  "layout_ok \<lparr>base_addr = 4096, slot_bytes = 64, data_off = 24\<rparr> \<and>
   card {4120::int} = used_count (taken (buffer_init id [10, 20 :: nat]))"
proof -
  let ?lay = "\<lparr>base_addr = 4096, slot_bytes = 64, data_off = 24\<rparr>"
  let ?b = "buffer_init id [10, 20 :: nat]"
  have lay: "layout_ok ?lay" by (simp add: layout_ok_def)
  have "get_slot ?lay ?b = Ret (Some 4120, taken ?b)"
    by (simp add: get_slot_def taken_def buffer_init_def capacity_def data_addr_def size_inc_def
        size_bound_def)
  moreover have "buffer_reachable plain_handler ?lay (?b, {})"
    by (rule buffer_reachable.start) (simp add: size_bound_def)
  ultimately have "buffer_reachable plain_handler ?lay (taken ?b, {4120})"
    using buffer_reachable.step buffer_step.acquire by blast
  from buffer_no_double_allocation [OF lay this] lay show ?thesis by blast
qed

text \<open>
  \<open>get_slot\<close> refines popping the stack of free slots: on a well-formed buffer it
  returns, hands out the address of the slot on top (or null when there is none), leaves a
  well-formed buffer whose stack and set of used slots are those of the reference model, and
  changes no slot's data.
\<close>

theorem get_slot_refines:
  assumes "pool_ok lay b"
  shows "\<exists>r b'. get_slot lay b = Ret (map_option (data_addr lay) r, b') \<and>
           (r, abs_buffer b') = (case spec_get (abs_buffer b) of (r, f, u) \<Rightarrow> (r, (f, u))) \<and>
           pool_ok lay b' \<and> (\<forall>q. peek lay q b' = peek lay q b)"
proof (cases "used_count b = capacity b")
  case True
  then have "free_list b = []" using assms free_list_Nil_iff by (auto simp: pool_ok_def)
  then have "spec_get (abs_buffer b) = (None, abs_buffer b)" by (simp add: abs_buffer_def)
  with get_slot_full [OF True] assms show ?thesis
    by (intro exI [of _ None] exI [of _ b]) (simp add: abs_buffer_def)
next
  case False
  then have ok: "buffer_ok b" and room: "0 < room b"
    using assms buffer_ok_bounds [of b] by (auto simp: pool_ok_def room_def)
  have "spec_get (abs_buffer b) = (Some (current_free b), abs_buffer (taken b))"
    using free_list_taken [OF ok False] used_slots_taken [OF ok False] by (simp add: abs_buffer_def)
  with get_slot_pool [OF assms room] show ?thesis
    by (intro exI [of _ "Some (current_free b)"] exI [of _ "taken b"]) (simp add: abs_buffer_def)
qed

theorem get_slot_refines_witness:
  "\<exists>r b'. get_slot \<lparr>base_addr = 0, slot_bytes = 32, data_off = 8\<rparr> (buffer_init id [7 :: nat]) =
     Ret (map_option (data_addr \<lparr>base_addr = 0, slot_bytes = 32, data_off = 8\<rparr>) r, b')"
proof -
  have "pool_ok \<lparr>base_addr = 0, slot_bytes = 32, data_off = 8\<rparr> (buffer_init id [7 :: nat])"
    by (simp add: pool_ok_def layout_ok_def buffer_init_ok canaries_init size_bound_def)
  from get_slot_refines [OF this] show ?thesis by blast
qed

text \<open>
  \<open>release_slot\<close> of a pointer that is held refines pushing its slot on the stack: it
  answers true, nulls the caller's pointer, leaves a well-formed buffer whose stack and set are
  those of the reference model, changes no data, and the next \<open>get_slot\<close> hands out the same
  pointer again.
\<close>

theorem release_slot_refines:
  assumes "pool_ok lay b" and "i \<in> used_slots b"
  shows "\<exists>b'. release_slot he lay (Some (Some (data_addr lay i))) b = Ret (Inr True, Some None, b') \<and>
           abs_buffer b' = spec_release i (abs_buffer b) \<and> pool_ok lay b' \<and>
           (\<forall>q. peek lay q b' = peek lay q b) \<and>
           (\<exists>b''. get_slot lay b' = Ret (Some (data_addr lay i), b''))"
proof -
  have h: "data_addr lay i \<in> held_slots lay b" using assms(2) by (simp add: held_slots_def)
  have i: "slot_index lay (data_addr lay i) = i" using assms(1) by (simp add: pool_ok_def)
  note rel = release_slot_pool [OF assms(1) h, of he, unfolded i]
  have "abs_buffer (given_back i b) = spec_release i (abs_buffer b)"
    using assms by (simp add: abs_buffer_def pool_ok_def free_list_given_back used_slots_given_back)
  moreover have "\<exists>b''. get_slot lay (given_back i b) = Ret (Some (data_addr lay i), b'')"
    using lifo.lifo [OF assms(1) h] rel by blast
  ultimately show ?thesis using rel by auto
qed

theorem release_slot_refines_witness:
  "\<exists>b'. release_slot plain_handler \<lparr>base_addr = 0, slot_bytes = 32, data_off = 8\<rparr> (Some (Some 8))
     (taken (buffer_init id [7 :: nat])) = Ret (Inr True, Some None, b')"
proof -
  let ?lay = "\<lparr>base_addr = 0, slot_bytes = 32, data_off = 8\<rparr>"
  let ?b = "buffer_init id [7 :: nat]"
  have ok: "pool_ok ?lay ?b"
    by (simp add: pool_ok_def layout_ok_def buffer_init_ok canaries_init size_bound_def)
  have "0 < room ?b" by (simp add: room_def buffer_init_def capacity_def)
  with get_slot_pool [OF ok] have "pool_ok ?lay (taken ?b)" by blast
  moreover have "0 \<in> used_slots (taken ?b)"
    by (simp add: used_slots_def taken_def buffer_init_def capacity_def)
  ultimately show ?thesis
    using release_slot_refines [of ?lay "taken ?b" 0 plain_handler] by (auto simp: data_addr_def)
qed

text \<open>
  The error branches of \<open>release_slot\<close>: a null pointer, a pointer outside the array and
  a slot that is not in use (a second release) are refused with their error codes and leave
  the buffer and the caller's pointer unchanged; a slot in use whose canary was overwritten
  makes the call abort, since the registered recovery action answers false.
\<close>

theorem release_slot_errors:
  assumes "layout_ok lay" and "runs_registered he"
  shows "release_slot he lay None b =
           Ret (Err MANAGE_BUFF_NULL_ON_RELEASE ''Null was given to release'', None, b) \<and>
         release_slot he lay (Some None) b =
           Ret (Err MANAGE_BUFF_NULL_ON_RELEASE ''Null was given to release'', Some None, b) \<and>
         (p - data_off lay < base_addr lay \<or>
            base_addr lay + int (capacity b) * slot_bytes lay \<le> p - data_off lay \<longrightarrow>
          release_slot he lay (Some (Some p)) b =
            Ret (Err MANAGE_BUFF_SLOT_NOT_IN_RANGE ''Slot not in range of buffer memory'',
                 Some (Some p), b)) \<and>
         (i < capacity b \<and> \<not> in_use (buffer b ! i) \<longrightarrow>
          release_slot he lay (Some (Some (data_addr lay i))) b =
            Ret (Err MANAGE_BUFF_MONKEY ''Slot is not in use'', Some (Some (data_addr lay i)), b)) \<and>
         (i < capacity b \<and> in_use (buffer b ! i) \<and> canary (buffer b ! i) \<noteq> CANARY_VALUE \<longrightarrow>
          release_slot he lay (Some (Some (data_addr lay i))) b = Aborts)"
proof (intro conjI impI, goal_cases)
  case 1
  show ?case by (simp add: release_slot_def)
next
  case 2
  show ?case by (simp add: release_slot_def)
next
  case 3
  then show ?case by (simp add: release_slot_def)
next
  case 4
  then show ?case by (simp add: release_branch [OF assms(1)])
next
  case 5
  then show ?case
    by (simp add: release_branch [OF assms(1)] check_canary_def Err_sev_def
        handler_rejects_canary assms(2))
qed

theorem release_slot_errors_witness:
  "release_slot plain_handler \<lparr>base_addr = 0, slot_bytes = 32, data_off = 8\<rparr> (Some (Some 8))
     (buffer_init id [7 :: nat]) =
     Ret (Err MANAGE_BUFF_MONKEY ''Slot is not in use'', Some (Some 8), buffer_init id [7])"
proof -
  have "layout_ok \<lparr>base_addr = 0, slot_bytes = 32, data_off = 8\<rparr>" by (simp add: layout_ok_def)
  from release_slot_errors [OF this plain_handler_runs_registered, where i = 0 and b = "buffer_init id [7 :: nat]"]
  show ?thesis by (simp add: capacity_def buffer_init_def data_addr_def)
qed

text \<open>
  \<open>check_integrity\<close> returns \<open>Ok\<close> when every canary is intact, and aborts as soon as one
  is not, whatever the slots' other fields; a buffer fresh from the constructor, and every
  buffer a client can reach from it, passes.
\<close>

theorem check_integrity_spec:
  assumes "runs_registered he"
  shows "check_integrity he b = (if canaries_ok b then Ret (Inr ()) else Aborts) \<and>
         (layout_ok lay \<and> buffer_reachable he lay (b, live) \<longrightarrow> check_integrity he b = Ret (Inr ()))"
proof -
  have "check_slots he ss = (if \<forall>s\<in>set ss. canary s = CANARY_VALUE then Ret (Inr ()) else Aborts)"
    for ss :: "'a slot list"
    by (induction ss) (auto simp: check_canary_def Err_sev_def handler_rejects_canary assms)
  then have 1: "check_integrity he b = (if canaries_ok b then Ret (Inr ()) else Aborts)"
    by (simp add: check_integrity_def canaries_ok_def)
  moreover have "layout_ok lay \<and> buffer_reachable he lay (b, live) \<Longrightarrow> canaries_ok b"
    using client_inv_reachable [of he lay "(b, live)"] by (simp add: client_inv_def pool_ok_def)
  ultimately show ?thesis by simp
qed

theorem check_integrity_spec_witness:
  "check_integrity plain_handler (buffer_init id [7 :: nat]) = Ret (Inr ())"
  using check_integrity_spec [OF plain_handler_runs_registered, of "buffer_init id [7 :: nat]"]
  by (simp add: canaries_init)

end
