(* ===== verification/IpcMessage.thy ===== *)
theory IpcMessage
  imports ErrorTypes
begin

text \<open>
  The message of the inter-process bus: \<open>core/common/5thdipcmsg.h\<close>, \<open>core/5thdipcmsg.c\<close>
  and the constructor function \<open>ipc_msg\<close> of \<open>5thD_Peer/peer_module.cpp\<close>. The struct is
  packed, so its memory is the little-endian fields one after the other; \<open>ipc_encode\<close> and
  \<open>ipc_decode\<close> are the two directions of \<open>memcpy\<close> between a struct and bytes.
\<close>

section \<open>Clients\<close>

datatype Clients = MANAGER | PEER | UI | ROUTER | CLIENTS_TOTAL

fun client_code :: "Clients \<Rightarrow> nat" where
  "client_code MANAGER = 0"
| "client_code PEER = 1"
| "client_code UI = 2"
| "client_code ROUTER = 3"
| "client_code CLIENTS_TOTAL = 4"

instantiation Clients :: linorder
begin

definition less_eq_Clients :: "Clients \<Rightarrow> Clients \<Rightarrow> bool" where
  "less_eq_Clients a b \<longleftrightarrow> client_code a \<le> client_code b"

definition less_Clients :: "Clients \<Rightarrow> Clients \<Rightarrow> bool" where
  "less_Clients a b \<longleftrightarrow> client_code a < client_code b"

instance
proof
  fix x y z :: Clients
  show "x < y \<longleftrightarrow> x \<le> y \<and> \<not> y \<le> x" by (auto simp: less_eq_Clients_def less_Clients_def)
  show "x \<le> x" by (simp add: less_eq_Clients_def)
  show "x \<le> y \<Longrightarrow> y \<le> z \<Longrightarrow> x \<le> z" by (simp add: less_eq_Clients_def)
  show "x \<le> y \<Longrightarrow> y \<le> x \<Longrightarrow> x = y"
    by (cases x; cases y) (simp_all add: less_eq_Clients_def)
  show "x \<le> y \<or> y \<le> x" by (auto simp: less_eq_Clients_def)
qed

end

definition CLIENTS_IDS :: "string list" where
  "CLIENTS_IDS = [''manager'', ''peerxxx'', ''uixxxxx'', ''ipcrout'']"

text \<open>\<open>CLIENTS_IDS[i]\<close> for an index that may be anything.\<close>

definition clients_ids_at :: "int \<Rightarrow> string outcome" where
  "clients_ids_at i =
     (if 0 \<le> i \<and> i < int (length CLIENTS_IDS) then Ret (CLIENTS_IDS ! nat i) else Undefined)"

definition client_id_of :: "Clients \<Rightarrow> string outcome" where
  "client_id_of c = clients_ids_at (int (client_code c))"

definition IPC_ENDPOINT :: string where
  "IPC_ENDPOINT = ''ipc:///tmp/secure_ipc''"

section \<open>The message and its memory\<close>

definition CATEGORY_LENGTH_BYTES :: nat where
  "CATEGORY_LENGTH_BYTES = 30"

definition DATA_LENGTH_BYTES :: nat where
  "DATA_LENGTH_BYTES = 256"

record ipc_msg_t =
  src_id :: "32 word"
  dist_id :: "32 word"
  timestamp :: "64 word"
  category :: "byte list"
  ipc_data :: "byte list"

definition ipc_wf :: "ipc_msg_t \<Rightarrow> bool" where
  "ipc_wf m \<longleftrightarrow> length (category m) = CATEGORY_LENGTH_BYTES \<and> length (ipc_data m) = DATA_LENGTH_BYTES"

definition sizeof_ipc_msg :: nat where
  "sizeof_ipc_msg = 4 + 4 + 8 + CATEGORY_LENGTH_BYTES + DATA_LENGTH_BYTES"

primrec le_bytes :: "nat \<Rightarrow> nat \<Rightarrow> byte list" where
  "le_bytes 0 n = []"
| "le_bytes (Suc k) n = of_nat n # le_bytes k (n div 256)"

primrec le_nat :: "byte list \<Rightarrow> nat" where
  "le_nat [] = 0"
| "le_nat (b # bs) = unat b + 256 * le_nat bs"

definition ipc_encode :: "ipc_msg_t \<Rightarrow> byte list" where
  "ipc_encode m =
     le_bytes 4 (unat (src_id m)) @ le_bytes 4 (unat (dist_id m)) @ le_bytes 8 (unat (timestamp m)) @
     category m @ ipc_data m"

definition ipc_decode :: "byte list \<Rightarrow> ipc_msg_t" where
  "ipc_decode bs =
     \<lparr>src_id = of_nat (le_nat (take 4 bs)),
      dist_id = of_nat (le_nat (take 4 (drop 4 bs))),
      timestamp = of_nat (le_nat (take 8 (drop 8 bs))),
      category = take CATEGORY_LENGTH_BYTES (drop 16 bs),
      ipc_data = take DATA_LENGTH_BYTES (drop (16 + CATEGORY_LENGTH_BYTES) bs)\<rparr>"

text \<open>\<open>ipc_msg\<close>: the zeroed message with its addresses and the current time.\<close>

definition ipc_msg :: "32 word \<Rightarrow> 32 word \<Rightarrow> 64 word \<Rightarrow> ipc_msg_t" where
  "ipc_msg src dist now =
     (ipc_decode (replicate sizeof_ipc_msg 0))\<lparr>src_id := src, dist_id := dist, timestamp := now\<rparr>"

text \<open>
  \<open>print_ipc_msg\<close>: the text it prints. \<open>%s\<close> reads the category up to its first NUL, so a
  category without one is undefined behaviour; \<open>%x\<close> of a (signed) \<open>char\<close> prints its 32-bit
  sign extension.
\<close>

definition ascii :: "byte list \<Rightarrow> string" where
  "ascii bs = map (\<lambda>b. char_of (unat b)) bs"

definition print_ipc_msg :: "ipc_msg_t \<Rightarrow> string outcome" where
  "print_ipc_msg m =
     (if 0 \<notin> set (category m) then Undefined
      else Ret (''--- Frame ---'' @ [CHR 0x0A] @
                ''src: '' @ show_int (sint (src_id m)) @ [CHR 0x0A] @
                ''dist: '' @ show_int (sint (dist_id m)) @ [CHR 0x0A] @
                ''timestamp: '' @ show_int (sint (timestamp m)) @ [CHR 0x0A] @
                ''category: '' @ ascii (c_str (category m)) @ [CHR 0x0A] @
                ''data: '' @ concat (map (\<lambda>b. show_base 16 (unat (scast b :: 32 word))) (ipc_data m)) @
                [CHR 0x0A]))"

section \<open>Lemmas\<close>

lemma length_le_bytes [simp]: "length (le_bytes k n) = k"
  by (induction k arbitrary: n) auto

lemma le_nat_le_bytes: "le_nat (le_bytes k n) = n mod 256 ^ k"
proof (induction k arbitrary: n)
  case 0
  then show ?case by simp
next
  case (Suc k)
  have "n mod 256 + 256 * (n div 256 mod 256 ^ k) = n mod (256 * 256 ^ k)"
    by (simp add: mod_mult2_eq)
  with Suc show ?case by (simp add: unat_of_nat)
qed

lemma word_256: "(256 :: byte) = 0"
  by simp

lemma le_bytes_le_nat: "le_bytes (length bs) (le_nat bs) = bs"
proof (induction bs)
  case Nil
  then show ?case by simp
next
  case (Cons b bs)
  have lt: "unat b < 256" using unat_bounds(1) [of b] by simp
  have "(of_nat (unat b + 256 * le_nat bs) :: byte) = of_nat (unat b)"
    by (simp only: of_nat_add of_nat_mult of_nat_numeral word_256 mult_zero_left add_0_right)
  then have "of_nat (unat b + 256 * le_nat bs) = b" by simp
  moreover have "(unat b + 256 * le_nat bs) div 256 = le_nat bs" using lt by simp
  ultimately show ?case using Cons by simp
qed

lemma le_nat_bound: "le_nat bs < 256 ^ length bs"
proof (induction bs)
  case Nil
  then show ?case by simp
next
  case (Cons b bs)
  have "unat b < 256" using unat_bounds(1) [of b] by simp
  with Cons show ?case by simp
qed

lemma length_ipc_encode: "ipc_wf m \<Longrightarrow> length (ipc_encode m) = sizeof_ipc_msg"
  by (simp add: ipc_encode_def ipc_wf_def sizeof_ipc_msg_def)

lemma ipc_wf_decode: "length bs = sizeof_ipc_msg \<Longrightarrow> ipc_wf (ipc_decode bs)"
  by (simp add: ipc_wf_def ipc_decode_def sizeof_ipc_msg_def CATEGORY_LENGTH_BYTES_def DATA_LENGTH_BYTES_def)

lemma ipc_decode_encode: "ipc_wf m \<Longrightarrow> ipc_decode (ipc_encode m) = m"
proof -
  assume wf: "ipc_wf m"
  have u32: "unat w mod 4294967296 = unat w" for w :: "32 word" using unat_bounds(2) [of w] by simp
  have u64: "unat w mod 18446744073709551616 = unat w" for w :: "64 word" using unat_bounds(3) [of w] by simp
  show ?thesis
    using wf by (simp add: ipc_decode_def ipc_encode_def ipc_wf_def le_nat_le_bytes u32 u64)
qed

lemma ipc_encode_decode: "length bs = sizeof_ipc_msg \<Longrightarrow> ipc_encode (ipc_decode bs) = bs"
proof -
  assume len: "length bs = sizeof_ipc_msg"
  then have l: "length bs = 302"
    by (simp add: sizeof_ipc_msg_def CATEGORY_LENGTH_BYTES_def DATA_LENGTH_BYTES_def)
  have u32: "unat (of_nat (le_nat xs) :: 32 word) = le_nat xs" if "length xs = 4" for xs
    using le_nat_bound [of xs] that by (simp add: unat_of_nat)
  have u64: "unat (of_nat (le_nat xs) :: 64 word) = le_nat xs" if "length xs = 8" for xs
    using le_nat_bound [of xs] that by (simp add: unat_of_nat)
  have b: "le_bytes k (le_nat xs) = xs" if "length xs = k" for k xs
    using le_bytes_le_nat [of xs] that by simp
  have "ipc_encode (ipc_decode bs) =
      take 4 bs @ take 4 (drop 4 bs) @ take 8 (drop 8 bs) @ take 30 (drop 16 bs) @ take 256 (drop 46 bs)"
    using l by (simp add: ipc_encode_def ipc_decode_def u32 u64 b CATEGORY_LENGTH_BYTES_def DATA_LENGTH_BYTES_def)
  also have "\<dots> = take (4 + (4 + (8 + (30 + 256)))) bs"
    by (simp only: take_add drop_drop) (simp add: add.commute)
  also have "\<dots> = bs" using l by simp
  finally show ?thesis .
qed

section \<open>Properties\<close>

text \<open>
  Copying a message into a frame and back is lossless in both directions: a well-formed
  message encodes to exactly \<open>sizeof(ipc_msg_t)\<close> = 302 bytes that decode to the same
  message, and any 302 bytes received decode to a well-formed message that encodes to them.
\<close>

theorem ipc_msg_roundtrip:
  "(ipc_wf m \<longrightarrow> length (ipc_encode m) = 302 \<and> ipc_decode (ipc_encode m) = m) \<and>
   (length bs = 302 \<longrightarrow> ipc_wf (ipc_decode bs) \<and> ipc_encode (ipc_decode bs) = bs)"
  using length_ipc_encode [of m] ipc_decode_encode [of m] ipc_wf_decode [of bs] ipc_encode_decode [of bs]
  by (simp add: sizeof_ipc_msg_def CATEGORY_LENGTH_BYTES_def DATA_LENGTH_BYTES_def)

theorem ipc_msg_roundtrip_witness:
  "ipc_decode (ipc_encode (ipc_msg 1 3 1700000000)) = ipc_msg 1 3 1700000000"
proof -
  have "ipc_wf (ipc_msg 1 3 1700000000)"
    by (simp add: ipc_wf_def ipc_msg_def ipc_decode_def sizeof_ipc_msg_def CATEGORY_LENGTH_BYTES_def
        DATA_LENGTH_BYTES_def)
  with ipc_msg_roundtrip [of "ipc_msg 1 3 1700000000" "[]"] show ?thesis by blast
qed

text \<open>
  Printing a message is defined exactly when its category field holds a NUL: a frame of
  the right size whose 30 category bytes are all non-zero makes \<open>print_ipc_msg\<close> read past the
  field. The message the peer builds with \<open>ipc_msg\<close> is safe to print.
\<close>

theorem print_ipc_msg_defined:
  "(print_ipc_msg m \<noteq> Undefined \<longleftrightarrow> 0 \<in> set (category m)) \<and>
   returns (print_ipc_msg (ipc_msg src dist now))"
  by (simp add: print_ipc_msg_def ipc_msg_def ipc_decode_def sizeof_ipc_msg_def
      CATEGORY_LENGTH_BYTES_def DATA_LENGTH_BYTES_def)

end
