(* ===== verification/Zmq.thy ===== *)
theory Zmq
  imports ManagedBuffer IpcMessage
begin

text \<open>
  The ZeroMQ library as a parameter, and the wrappers of \<open>core/common/izmq.h\<close> and
  \<open>core/izmq.cpp\<close> around it. The library is not part of the repository: its calls are the
  fields of a record that every definition using them takes as an argument, over an abstract
  type \<open>'m\<close> of messages and an abstract state \<open>'w\<close> of the library, the socket and the
  network. What its manual says of messages is the predicate \<open>msg_laws\<close>.
\<close>

section \<open>The library\<close>

datatype zmq_option =
    ZMQ_IDENTITY | ZMQ_CURVE_SERVER | ZMQ_CURVE_PUBLICKEY | ZMQ_CURVE_SECRETKEY
  | ZMQ_CURVE_SERVERKEY | ZMQ_RCVTIMEO | ZMQ_SNDTIMEO

datatype poll_event = ZMQ_POLLIN | ZMQ_POLLOUT

text \<open>
  Return codes are the library's. \<open>zmq_poll\<close> also answers whether the event asked for is in
  \<open>revents\<close>; \<open>zmq_rcvmore\<close> and \<open>zmq_get_curve_server\<close> are \<open>zmq_getsockopt\<close> for \<open>ZMQ_RCVMORE\<close> and
  \<open>ZMQ_CURVE_SERVER\<close>, \<open>None\<close> when the call fails and leaves the caller's variable alone; \<open>zmq_msg_fill\<close> is what storing bytes from the start of
  \<open>zmq_msg_data\<close> leaves in a message that is large enough.
\<close>

record ('m, 'w) zmq_api =
  zmq_msg_init :: 'm
  zmq_msg_init_size :: "nat \<Rightarrow> 'm"
  zmq_msg_close :: "'m \<Rightarrow> 'm"
  zmq_msg_size :: "'m \<Rightarrow> nat"
  zmq_msg_data :: "'m \<Rightarrow> byte list"
  zmq_msg_fill :: "byte list \<Rightarrow> 'm \<Rightarrow> 'm"
  zmq_msg_recv :: "'m \<Rightarrow> 'w \<Rightarrow> int \<times> 'm \<times> 'w"
  zmq_msg_send :: "'m \<Rightarrow> bool \<Rightarrow> 'w \<Rightarrow> int \<times> 'm \<times> 'w"
  zmq_send :: "byte list \<Rightarrow> bool \<Rightarrow> 'w \<Rightarrow> int \<times> 'w"
  zmq_rcvmore :: "'w \<Rightarrow> bool option \<times> 'w"
  zmq_connect :: "string \<Rightarrow> 'w \<Rightarrow> int \<times> 'w"
  zmq_bind :: "string \<Rightarrow> 'w \<Rightarrow> int \<times> 'w"
  zmq_poll :: "poll_event \<Rightarrow> int \<Rightarrow> 'w \<Rightarrow> int \<times> bool \<times> 'w"
  zmq_setsockopt :: "zmq_option \<Rightarrow> byte list \<Rightarrow> 'w \<Rightarrow> int \<times> 'w"
  zmq_get_curve_server :: "'w \<Rightarrow> bool option \<times> 'w"

text \<open>
  What the manual says: \<open>zmq_msg_init_size\<close> allocates a message of that size,
  \<open>zmq_msg_init\<close> an empty one; storing into a message keeps its size; a message handed to
  \<open>zmq_msg_send\<close> is nullified when the call succeeds, and only then; a successful receive
  answers the size of the message it stored.
\<close>

definition msg_laws :: "('m, 'w) zmq_api \<Rightarrow> bool" where
  "msg_laws z \<longleftrightarrow>
     (\<forall>n. zmq_msg_size z (zmq_msg_init_size z n) = n) \<and>
     zmq_msg_size z (zmq_msg_init z) = 0 \<and>
     (\<forall>m. length (zmq_msg_data z m) = zmq_msg_size z m) \<and>
     (\<forall>m bs. length bs \<le> zmq_msg_size z m \<longrightarrow>
        zmq_msg_data z (zmq_msg_fill z bs m) = bs @ drop (length bs) (zmq_msg_data z m)) \<and>
     (\<forall>m sndmore w rc m' w'. zmq_msg_send z m sndmore w = (rc, m', w') \<longrightarrow>
        (if rc = -1 then m' = m else zmq_msg_size z m' = 0)) \<and>
     (\<forall>m w rc m' w'. zmq_msg_recv z m w = (rc, m', w') \<longrightarrow> rc \<noteq> -1 \<longrightarrow>
        rc = int (zmq_msg_size z m'))"

text \<open>\<open>memcpy\<close> into the data of a message: past its size is undefined behaviour.\<close>

definition msg_memcpy :: "('m, 'w) zmq_api \<Rightarrow> byte list \<Rightarrow> 'm \<Rightarrow> 'm outcome" where
  "msg_memcpy z bs m = (if length bs \<le> zmq_msg_size z m then Ret (zmq_msg_fill z bs m) else Undefined)"

lemma msg_lawsD:
  assumes "msg_laws z"
  shows "zmq_msg_size z (zmq_msg_init_size z n) = n"
    and "zmq_msg_size z (zmq_msg_init z) = 0"
    and "length (zmq_msg_data z m) = zmq_msg_size z m"
    and "length bs \<le> zmq_msg_size z m \<Longrightarrow>
           zmq_msg_data z (zmq_msg_fill z bs m) = bs @ drop (length bs) (zmq_msg_data z m)"
    and "zmq_msg_send z m sndmore w = (rc, m', w') \<Longrightarrow> rc \<noteq> -1 \<Longrightarrow> zmq_msg_size z m' = 0"
    and "zmq_msg_send z m sndmore w = (-1, m', w') \<Longrightarrow> m' = m"
    and "zmq_msg_recv z m w = (rc, m', w') \<Longrightarrow> rc \<noteq> -1 \<Longrightarrow> rc = int (zmq_msg_size z m')"
  using assms unfolding msg_laws_def by (blast | metis)+

lemma fill_exact:
  "msg_laws z \<Longrightarrow> length bs = zmq_msg_size z m \<Longrightarrow> zmq_msg_data z (zmq_msg_fill z bs m) = bs"
  by (simp add: msg_lawsD)

lemma size_fill:
  "msg_laws z \<Longrightarrow> length bs \<le> zmq_msg_size z m \<Longrightarrow> zmq_msg_size z (zmq_msg_fill z bs m) = zmq_msg_size z m"
proof -
  assume laws: "msg_laws z" and le: "length bs \<le> zmq_msg_size z m"
  have "zmq_msg_size z (zmq_msg_fill z bs m) = length (zmq_msg_data z (zmq_msg_fill z bs m))"
    using laws by (simp add: msg_lawsD)
  also have "\<dots> = zmq_msg_size z m" using laws le by (simp add: msg_lawsD)
  finally show ?thesis .
qed

section \<open>What is put on the wire\<close>

text \<open>
  What the code relies on of the wire: a log of the frames sent, which a successful send
  extends by the message's data and its flag, and a failed one leaves alone.
\<close>

definition logs_sends :: "('m, 'w) zmq_api \<Rightarrow> ('w \<Rightarrow> (byte list \<times> bool) list) \<Rightarrow> bool" where
  "logs_sends z sent \<longleftrightarrow>
     (\<forall>m sndmore w rc m' w'. zmq_msg_send z m sndmore w = (rc, m', w') \<longrightarrow>
        sent w' = (if rc = -1 then sent w else sent w @ [(zmq_msg_data z m, sndmore)])) \<and>
     (\<forall>bs sndmore w rc w'. zmq_send z bs sndmore w = (rc, w') \<longrightarrow>
        sent w' = (if rc = -1 then sent w else sent w @ [(bs, sndmore)]))"

lemma logs_sendsD:
  "logs_sends z sent \<Longrightarrow> zmq_msg_send z m sndmore w = (rc, m', w') \<Longrightarrow>
     sent w' = (if rc = -1 then sent w else sent w @ [(zmq_msg_data z m, sndmore)])"
  "logs_sends z sent \<Longrightarrow> zmq_send z bs sndmore w = (rc, w') \<Longrightarrow>
     sent w' = (if rc = -1 then sent w else sent w @ [(bs, sndmore)])"
  unfolding logs_sends_def by blast+

text \<open>
  How a sending call ends on the wire: all the frames were sent, or a frame failed and a
  proper prefix of them was.
\<close>

definition sent_as ::
    "('w \<Rightarrow> (byte list \<times> bool) list) \<Rightarrow> (byte list \<times> bool) list \<Rightarrow> 'w \<Rightarrow> void_result \<Rightarrow> 'w \<Rightarrow> bool" where
  "sent_as sent frames w r w' \<longleftrightarrow>
     (case r of
        Inr _ \<Rightarrow> sent w' = sent w @ frames
      | Inl e \<Rightarrow> code e = FAIL_SEND_FRAME \<and> (\<exists>k<length frames. sent w' = sent w @ take k frames))"

lemma sent_as_done: "sent w' = sent w \<Longrightarrow> sent_as sent [] w (Inr ()) w'"
  by (simp add: sent_as_def)

lemma sent_as_from: "sent v = sent w \<Longrightarrow> sent_as sent frames v r w' = sent_as sent frames w r w'"
  by (cases r) (simp_all add: sent_as_def)

lemma sent_as_fail:
  "sent w' = sent w \<Longrightarrow> frames \<noteq> [] \<Longrightarrow> sent_as sent frames w (Err FAIL_SEND_FRAME txt) w'"
  by (auto simp: sent_as_def Err_def intro: exI [of _ 0])

lemma sent_as_Cons:
  "sent w1 = sent w @ [f] \<Longrightarrow> sent_as sent fs w1 r w' \<Longrightarrow> sent_as sent (f # fs) w r w'"
  by (auto simp: sent_as_def split: sum.splits intro: exI [of _ "Suc k" for k])

definition padded_identity :: "('m, 'w) zmq_api \<Rightarrow> byte list \<Rightarrow> 'm \<Rightarrow> byte list" where
  "padded_identity z ident m = ident @ drop (length ident) (zmq_msg_data z m)"

text \<open>
  And of receiving: frames wait in an inbox; a receive takes the next one whole, and
  \<open>ZMQ_RCVMORE\<close> then answers its flag; neither sends anything.
\<close>

definition delivers ::
    "('m, 'w) zmq_api \<Rightarrow> ('w \<Rightarrow> (byte list \<times> bool) list) \<Rightarrow> ('w \<Rightarrow> bool) \<Rightarrow> ('w \<Rightarrow> (byte list \<times> bool) list) \<Rightarrow> bool" where
  "delivers z inb flag sent \<longleftrightarrow>
     (\<forall>m w f mo fs rc m' w'. inb w = (f, mo) # fs \<longrightarrow> zmq_msg_recv z m w = (rc, m', w') \<longrightarrow>
        rc = int (length f) \<and> zmq_msg_data z m' = f \<and> inb w' = fs \<and> flag w' = mo \<and> sent w' = sent w) \<and>
     (\<forall>w r w'. zmq_rcvmore z w = (r, w') \<longrightarrow>
        r = Some (flag w) \<and> inb w' = inb w \<and> sent w' = sent w)"

lemma deliversD:
  "delivers z inb flag sent \<Longrightarrow> inb w = (f, mo) # fs \<Longrightarrow> zmq_msg_recv z m w = (rc, m', w') \<Longrightarrow>
     rc = int (length f) \<and> zmq_msg_data z m' = f \<and> inb w' = fs \<and> flag w' = mo \<and> sent w' = sent w"
  "delivers z inb flag sent \<Longrightarrow> zmq_rcvmore z w = (r, w') \<Longrightarrow>
     r = Some (flag w) \<and> inb w' = inb w \<and> sent w' = sent w"
  unfolding delivers_def by blast+

section \<open>The three frames of a slot\<close>

record 'm zmq_all_msg =
  identity_frame :: 'm
  empty_frame :: 'm
  msg_frame :: 'm

definition init_allmsg :: "('m, 'w) zmq_api \<Rightarrow> 'm zmq_all_msg \<Rightarrow> 'm zmq_all_msg" where
  "init_allmsg z a =
     \<lparr>identity_frame = zmq_msg_init_size z (length (CLIENTS_IDS ! 0)),
      empty_frame = zmq_msg_init_size z 0,
      msg_frame = zmq_msg_init_size z sizeof_ipc_msg\<rparr>"

definition deinit_allmsg :: "('m, 'w) zmq_api \<Rightarrow> 'm zmq_all_msg \<Rightarrow> 'm zmq_all_msg" where
  "deinit_allmsg z a =
     \<lparr>identity_frame = zmq_msg_close z (identity_frame a),
      empty_frame = zmq_msg_close z (empty_frame a),
      msg_frame = zmq_msg_close z (msg_frame a)\<rparr>"

text \<open>The message buffer of the bus and of the transmitter: ten slots, initialised once.\<close>

definition msg_buffer_new :: "('m, 'w) zmq_api \<Rightarrow> 'm zmq_all_msg list \<Rightarrow> 'm zmq_all_msg managed_buffer" where
  "msg_buffer_new z raw = buffer_init (init_allmsg z) raw"

lemma msg_buffer_new_pool:
  "layout_ok lay \<Longrightarrow> length raw = 10 \<Longrightarrow>
   pool_ok lay (msg_buffer_new z raw) \<and> room (msg_buffer_new z raw) = 10"
  by (simp add: msg_buffer_new_def pool_ok_def buffer_init_ok canaries_init size_bound_def room_def)
    (simp add: buffer_init_def)

lemma peek_msg_buffer_new:
  "layout_ok lay \<Longrightarrow> i < length raw \<Longrightarrow>
   peek lay (data_addr lay i) (msg_buffer_new z raw) = init_allmsg z (raw ! i)"
  by (simp add: msg_buffer_new_def peek_def buffer_init_def)

section \<open>Contexts and sockets\<close>

text \<open>Pointers of the library: \<open>None\<close> is null. \<open>zmq_socket\<close> also answers \<open>errno\<close>.\<close>

record 'w zmq_objects =
  zmq_ctx_new :: "'w \<Rightarrow> int option \<times> 'w"
  zmq_ctx_destroy :: "int option \<Rightarrow> 'w \<Rightarrow> int \<times> 'w"
  zmq_socket :: "int option \<Rightarrow> int \<Rightarrow> 'w \<Rightarrow> int option \<times> int \<times> 'w"
  zmq_close :: "int option \<Rightarrow> 'w \<Rightarrow> int \<times> 'w"
  zmq_curve_keypair :: "'w \<Rightarrow> int \<times> byte list \<times> byte list \<times> 'w"

definition generate_keys :: "'w zmq_objects \<Rightarrow> 'w \<Rightarrow> int \<times> byte list \<times> byte list \<times> 'w" where
  "generate_keys lib w = zmq_curve_keypair lib w"

record zmqw_context =
  ctx_ptr :: "int option"

definition get_context :: "zmqw_context \<Rightarrow> int option" where
  "get_context c = ctx_ptr c"

definition create_context :: "'w zmq_objects \<Rightarrow> zmqw_context \<Rightarrow> 'w \<Rightarrow> int result \<times> zmqw_context \<times> 'w" where
  "create_context lib c w =
     (let (p, w') = zmq_ctx_new lib w; c' = c\<lparr>ctx_ptr := p\<rparr> in
      (case p of None \<Rightarrow> Err FAIL_OPEN_ZMQ_CTX ''Failed to create ZMQ context'' | Some q \<Rightarrow> Inr q, c', w'))"

text \<open>The constructor: the recovery action is registered, the result only logged.\<close>

definition context_new :: "'w zmq_objects \<Rightarrow> 'w \<Rightarrow> zmqw_context \<times> 'w" where
  "context_new lib w = (case create_context lib \<lparr>ctx_ptr = None\<rparr> w of (r, c, w') \<Rightarrow> (c, w'))"

definition handle_context_create :: "'w zmq_objects \<Rightarrow> zmqw_context \<Rightarrow> 'w \<Rightarrow> bool \<times> zmqw_context \<times> 'w" where
  "handle_context_create lib c w =
     (let (p, w') = zmq_ctx_new lib w; c' = c\<lparr>ctx_ptr := p\<rparr> in
      if p = None then (False, c', w') else (False, c', w'))"

definition close_context :: "'w zmq_objects \<Rightarrow> zmqw_context \<Rightarrow> 'w \<Rightarrow> zmqw_context \<times> 'w" where
  "close_context lib c w =
     (let (rc, w') = zmq_ctx_destroy lib (ctx_ptr c) w in (c\<lparr>ctx_ptr := None\<rparr>, w'))"

record zmqw_socket =
  sock_ctx :: zmqw_context
  sock_type :: int
  sock_ptr :: "int option"

definition get_socket :: "zmqw_socket \<Rightarrow> int option" where
  "get_socket s = sock_ptr s"

definition create_socket :: "'w zmq_objects \<Rightarrow> zmqw_socket \<Rightarrow> 'w \<Rightarrow> int result \<times> zmqw_socket \<times> 'w" where
  "create_socket lib s w =
     (let (p, errno, w') = zmq_socket lib (get_context (sock_ctx s)) (sock_type s) w;
          s' = s\<lparr>sock_ptr := p\<rparr> in
      (case p of None \<Rightarrow> Err FAIL_OPEN_SOCKET ''Failed to create ZMQ socket'' | Some q \<Rightarrow> Inr q, s', w'))"

definition socket_new :: "'w zmq_objects \<Rightarrow> zmqw_context \<Rightarrow> int \<Rightarrow> 'w \<Rightarrow> zmqw_socket \<times> 'w" where
  "socket_new lib c t w =
     (case create_socket lib \<lparr>sock_ctx = c, sock_type = t, sock_ptr = None\<rparr> w of (r, s, w') \<Rightarrow> (s, w'))"

definition handle_socket_create :: "'w zmq_objects \<Rightarrow> zmqw_socket \<Rightarrow> 'w \<Rightarrow> bool \<times> zmqw_socket \<times> 'w" where
  "handle_socket_create lib s w =
     (let (p, errno, w') = zmq_socket lib (get_context (sock_ctx s)) (sock_type s) w;
          s' = s\<lparr>sock_ptr := p\<rparr> in
      if p = None then (False, s', w') else (True, s', w'))"

definition close_socket :: "'w zmq_objects \<Rightarrow> zmqw_socket \<Rightarrow> 'w \<Rightarrow> zmqw_socket \<times> 'w" where
  "close_socket lib s w =
     (let (rc, w') = zmq_close lib (sock_ptr s) w in (s\<lparr>sock_ptr := None\<rparr>, w'))"

section \<open>An instance of the library for examples\<close>

text \<open>
  A socket whose messages are byte lists, with the frames to come (each with its
  more-flag), the frames sent, and what polling answers next.
\<close>

record sim =
  inbox :: "(byte list \<times> bool) list"
  last_more :: bool
  outbox :: "(byte list \<times> bool) list"
  send_fails :: bool
  polls :: "(int \<times> bool) list"

definition sim_api :: "(byte list, sim) zmq_api" where
  "sim_api =
     \<lparr>zmq_msg_init = [], zmq_msg_init_size = (\<lambda>n. replicate n 0), zmq_msg_close = (\<lambda>m. []),
      zmq_msg_size = length, zmq_msg_data = id, zmq_msg_fill = (\<lambda>bs m. bs @ drop (length bs) m),
      zmq_msg_recv = (\<lambda>m w. case inbox w of
          [] \<Rightarrow> (-1, m, w)
        | (f, mo) # fs \<Rightarrow> (int (length f), f, w\<lparr>inbox := fs, last_more := mo\<rparr>)),
      zmq_msg_send = (\<lambda>m mo w. if send_fails w then (-1, m, w)
          else (int (length m), [], w\<lparr>outbox := outbox w @ [(m, mo)]\<rparr>)),
      zmq_send = (\<lambda>bs mo w. if send_fails w then (-1, w)
          else (int (length bs), w\<lparr>outbox := outbox w @ [(bs, mo)]\<rparr>)),
      zmq_rcvmore = (\<lambda>w. (Some (last_more w), w)),
      zmq_connect = (\<lambda>e w. (0, w)), zmq_bind = (\<lambda>e w. (0, w)),
      zmq_poll = (\<lambda>e t w. case polls w of
          [] \<Rightarrow> (-1, False, w) | (rc, ev) # ps \<Rightarrow> (rc, ev, w\<lparr>polls := ps\<rparr>)),
      zmq_setsockopt = (\<lambda>k v w. (0, w)), zmq_get_curve_server = (\<lambda>w. (Some True, w))\<rparr>"

definition sim_new :: "(byte list \<times> bool) list \<Rightarrow> sim" where
  "sim_new frames = \<lparr>inbox = frames, last_more = False, outbox = [], send_fails = False, polls = []\<rparr>"

text \<open>Its calls one by one, for evaluating a step at a time.\<close>

lemma sim_calls:
  "zmq_msg_init_size sim_api n = replicate n 0" "zmq_msg_init sim_api = []" "zmq_msg_close sim_api m = []"
  "zmq_msg_size sim_api m = length m" "zmq_msg_data sim_api m = m"
  "zmq_msg_fill sim_api bs m = bs @ drop (length bs) m"
  "zmq_msg_send sim_api m mo w = (if send_fails w then (-1, m, w)
     else (int (length m), [], w\<lparr>outbox := outbox w @ [(m, mo)]\<rparr>))"
  "zmq_send sim_api bs mo w = (if send_fails w then (-1, w)
     else (int (length bs), w\<lparr>outbox := outbox w @ [(bs, mo)]\<rparr>))"
  "zmq_msg_recv sim_api m w = (case inbox w of [] \<Rightarrow> (-1, m, w)
     | (f, mo) # fs \<Rightarrow> (int (length f), f, w\<lparr>inbox := fs, last_more := mo\<rparr>))"
  "zmq_rcvmore sim_api w = (Some (last_more w), w)"
  "zmq_poll sim_api e t w = (case polls w of [] \<Rightarrow> (-1, False, w) | (rc, ev) # ps \<Rightarrow> (rc, ev, w\<lparr>polls := ps\<rparr>))"
  by (simp_all add: sim_api_def)

lemma sim_msg_laws [simp]: "msg_laws sim_api"
  unfolding msg_laws_def by (auto simp: sim_api_def split: list.splits if_splits)

lemma sim_logs_sends [simp]: "logs_sends sim_api outbox"
  unfolding logs_sends_def by (auto simp: sim_api_def split: if_splits)

lemma sim_delivers [simp]: "delivers sim_api inbox last_more outbox"
  unfolding delivers_def by (auto simp: sim_api_def split: list.splits)

section \<open>Properties\<close>

text \<open>
  Constructing a context and a socket leaves in the wrapper exactly the pointer the
  library returned, null when the call failed, and closing passes that pointer to the library
  and leaves null. The recovery action of a context answers false even when it has created
  one, while the socket's answers whether it succeeded.
\<close>

theorem context_socket_lifecycle:
  "get_context (fst (context_new lib w)) = fst (zmq_ctx_new lib w) \<and>
   snd (close_context lib c w) = snd (zmq_ctx_destroy lib (get_context c) w) \<and>
   get_context (fst (close_context lib c w)) = None \<and>
   get_socket (fst (socket_new lib c t w)) = fst (zmq_socket lib (get_context c) t w) \<and>
   snd (close_socket lib s w) = snd (zmq_close lib (get_socket s) w) \<and>
   get_socket (fst (close_socket lib s w)) = None \<and>
   fst (handle_context_create lib c w) = False \<and>
   (fst (handle_socket_create lib s w) \<longleftrightarrow> get_socket (fst (snd (handle_socket_create lib s w))) \<noteq> None)"
  by (simp add: context_new_def create_context_def close_context_def socket_new_def create_socket_def
      close_socket_def handle_context_create_def handle_socket_create_def get_context_def get_socket_def
      Let_def split: prod.splits)

end
