(* ===== verification/Module.thy ===== *)
theory Module
  imports DbLifecycle Zmq
begin

text \<open>
  The start of a module: \<open>core/5thdallocator.cpp\<close> (secure memory, the sodium library) and
  \<open>core/module.cpp\<close> with \<open>core/common/module.h\<close>: the memory of the CURVE keys, loading them
  from the key database or generating and storing them, and releasing what a module holds.
\<close>

section \<open>Secure memory\<close>

text \<open>
  The calls of libsodium: an allocation answers the bytes the memory holds, or \<open>None\<close> for
  null. A pointer to secure memory is null, a live buffer, or freed; every access through a
  pointer that is not live, and past the end of a buffer, is undefined behaviour.
\<close>

record 'w sodium_api =
  sodium_init :: "'w \<Rightarrow> int \<times> 'w"
  sodium_alloc :: "nat \<Rightarrow> 'w \<Rightarrow> byte list option \<times> 'w"
  sodium_mlock :: "nat \<Rightarrow> 'w \<Rightarrow> int \<times> 'w"

datatype sec_ptr = NullPtr | Buf "byte list" | Freed

definition allocate_smem :: "'w sodium_api \<Rightarrow> nat \<Rightarrow> 'w \<Rightarrow> sec_ptr \<times> 'w" where
  "allocate_smem so num_bytes w =
     (let (rc, w1) = sodium_init so w in
      if rc = -1 then (NullPtr, w1)
      else case sodium_alloc so num_bytes w1 of (None, w2) \<Rightarrow> (NullPtr, w2) | (Some b, w2) \<Rightarrow> (Buf b, w2))"

text \<open>\<open>free_smem\<close> writes zeros through the pointer before it frees it.\<close>

definition write_mem :: "byte list \<Rightarrow> sec_ptr \<Rightarrow> sec_ptr outcome" where
  "write_mem bs p =
     (case p of Buf m \<Rightarrow> if length bs \<le> length m then Ret (Buf (bs @ drop (length bs) m)) else Undefined
      | _ \<Rightarrow> Undefined)"

definition free_smem :: "sec_ptr \<Rightarrow> nat \<Rightarrow> sec_ptr outcome" where
  "free_smem p num_bytes = obind (write_mem (replicate num_bytes 0) p) (\<lambda>_. Ret Freed)"

definition init_sodium :: "'w sodium_api \<Rightarrow> 'w \<Rightarrow> 'w outcome" where
  "init_sodium so w = (let (rc, w1) = sodium_init so w in if rc \<noteq> 0 then Aborts else Ret w1)"

definition handle_atomic_opt :: "('d \<Rightarrow> 'w \<Rightarrow> (bool \<times> 'd \<times> 'w) outcome) \<Rightarrow> 'd \<Rightarrow> 'w \<Rightarrow> ('d \<times> 'w) outcome" where
  "handle_atomic_opt callback data w = obind (callback data w) (\<lambda>(ret, data', w'). Ret (data', w'))"

text \<open>\<open>strlen\<close> and the bytes before the NUL.\<close>

definition c_string_at :: "sec_ptr \<Rightarrow> byte list outcome" where
  "c_string_at p = (case p of Buf m \<Rightarrow> if 0 \<in> set m then Ret (c_str m) else Undefined | _ \<Rightarrow> Undefined)"

section \<open>The keys of a module\<close>

record keys_info =
  key_type :: KeyType
  curve_pub :: sec_ptr
  curve_prv :: sec_ptr
  is_ready :: bool

text \<open>A \<open>unique_ptr<void, Deleter>\<close>: the object, if any, and whether a deleter function is set.\<close>

record module_config =
  unique_ptrs :: "(int option \<times> bool) list"
  client_id :: Clients
  conf_keys :: keys_info

definition keys_init :: "'w sodium_api \<Rightarrow> keys_info \<Rightarrow> 'w \<Rightarrow> (bool \<times> keys_info \<times> 'w) outcome" where
  "keys_init so ki w =
     (case key_type ki of
        CURVE25519 \<Rightarrow>
          let (pub, w1) = allocate_smem so 41 w; (prv, w2) = allocate_smem so 41 w1;
              ki1 = ki\<lparr>curve_pub := pub, curve_prv := prv\<rparr> in
          if pub = NullPtr \<or> prv = NullPtr then Ret (False, ki1, w2)
          else let (rc1, w3) = sodium_mlock so 41 w2; (rc2, w4) = (if rc1 \<noteq> 0 then (0, w3) else sodium_mlock so 41 w3) in
            if rc1 \<noteq> 0 \<or> rc2 \<noteq> 0
            then obind (free_smem pub 41) (\<lambda>pub'. obind (free_smem prv 41) (\<lambda>prv'.
                   Ret (True, ki1\<lparr>curve_pub := pub', curve_prv := prv'\<rparr>, w4)))
            else Ret (True, ki1, w4)
      | _ \<Rightarrow> Ret (False, ki, w))"

definition keys_deinit :: "keys_info \<Rightarrow> keys_info outcome" where
  "keys_deinit ki =
     (case key_type ki of
        CURVE25519 \<Rightarrow> obind (free_smem (curve_pub ki) 41) (\<lambda>pub. obind (free_smem (curve_prv ki) 41) (\<lambda>prv.
          Ret (ki\<lparr>curve_pub := pub, curve_prv := prv\<rparr>)))
      | _ \<Rightarrow> Ret ki)"

text \<open>Loading the keys: both are read before either result is looked at.\<close>

definition get_zmq_curve_keys ::
    "'w sqlite_api \<Rightarrow> database \<Rightarrow> keys_info \<Rightarrow> Clients \<Rightarrow> 'w \<Rightarrow> (bool \<times> keys_info \<times> 'w) outcome" where
  "get_zmq_curve_keys lib d ki cid w =
     obind (client_id_of cid) (\<lambda>name.
     obind (get_key lib d name CURVE25519 ''public_key'' w) (\<lambda>(pub, w1).
     obind (get_key lib d name CURVE25519 ''private_key'' w1) (\<lambda>(prv, w2).
       case (pub, prv) of
         (Inr pb, Inr pv) \<Rightarrow> obind (write_mem pb (curve_pub ki)) (\<lambda>p. obind (write_mem pv (curve_prv ki)) (\<lambda>q.
           Ret (True, ki\<lparr>curve_pub := p, curve_prv := q\<rparr>, w2)))
       | _ \<Rightarrow> Ret (False, ki, w2))))"

text \<open>\<open>zmq_curve_keypair\<close> writes both keys through the pointers when it succeeds.\<close>

definition generate_into :: "'w zmq_objects \<Rightarrow> keys_info \<Rightarrow> 'w \<Rightarrow> (int \<times> keys_info \<times> 'w) outcome" where
  "generate_into zo ki w =
     (case generate_keys zo w of (rc, pub, prv, w1) \<Rightarrow>
        if rc \<noteq> 0 then Ret (rc, ki, w1)
        else obind (write_mem pub (curve_pub ki)) (\<lambda>p. obind (write_mem prv (curve_prv ki)) (\<lambda>q.
          Ret (rc, ki\<lparr>curve_pub := p, curve_prv := q\<rparr>, w1))))"

text \<open>Storing a generated pair in one transaction. Only the second result is looked at.\<close>

definition save_keys ::
    "'w sqlite_api \<Rightarrow> database \<Rightarrow> keys_info \<Rightarrow> Clients \<Rightarrow> 'w \<Rightarrow> (bool \<times> 'w) outcome" where
  "save_keys lib d ki cid w =
     obind (c_string_at (curve_pub ki)) (\<lambda>pub.
     obind (c_string_at (curve_prv ki)) (\<lambda>prv.
     obind (begin_transaction lib d w) (\<lambda>(begin_result, w1).
       if is_err begin_result then Ret (False, w1)
       else obind (client_id_of cid) (\<lambda>name.
         let (write_pub, w2) = store_key lib d name (key_type ki) ''public_key'' pub 0 w1;
             (write_prv, w3) = store_key lib d name (key_type ki) ''private_key'' prv 0 w2 in
         if is_err write_prv \<or> is_err write_prv
         then obind (db_exec lib ''ROLLBACK'' d w3) (\<lambda>(ret, w4). Ret (False, w4))
         else obind (end_transaction lib d w3) (\<lambda>(commit_ret, w4). Ret (\<not> is_err commit_ret, w4))))))"

text \<open>
  \<open>_handle_keys\<close> after the database object is constructed; the \<open>ret = true\<close> of the source is
  inside the block that runs only when new keys are needed, and the return after a failed
  generation does not set \<open>is_ready\<close>.
\<close>

definition handle_keys_with ::
    "'w sodium_api \<Rightarrow> 'w sqlite_api \<Rightarrow> 'w zmq_objects \<Rightarrow> database \<Rightarrow> module_config \<Rightarrow> 'w
       \<Rightarrow> (bool \<times> module_config \<times> 'w) outcome" where
  "handle_keys_with so lib zo d config w =
     (case key_type (conf_keys config) of
        CURVE25519 \<Rightarrow>
          obind (keys_init so (conf_keys config) w) (\<lambda>(ignored, ki, w1).
          obind (get_zmq_curve_keys lib d ki (client_id config) w1) (\<lambda>(found, ki1, w2).
            if found then Ret (False, config\<lparr>conf_keys := ki1\<lparr>is_ready := False\<rparr>\<rparr>, w2)
            else obind (generate_into zo ki1 w2) (\<lambda>(rc, ki2, w3).
              if rc \<noteq> 0
              then obind (keys_deinit ki2) (\<lambda>ki3. Ret (False, config\<lparr>conf_keys := ki3\<rparr>, w3))
              else obind (save_keys lib d ki2 (client_id config) w3) (\<lambda>(ret, w4).
                Ret (ret, config\<lparr>conf_keys := ki2\<lparr>is_ready := ret\<rparr>\<rparr>, w4)))))
      | _ \<Rightarrow> Ret (False, config\<lparr>conf_keys := (conf_keys config)\<lparr>is_ready := False\<rparr>\<rparr>, w))"

definition DB_PATH :: string where
  "DB_PATH = ''/home/qwistys/src/5thD/bin/fithd.db''"

definition MEANWHILE_DB_KEY :: string where
  "MEANWHILE_DB_KEY = ''It was meant to be but not meant to last''"

definition handle_keys ::
    "'w sodium_api \<Rightarrow> 'w sqlite_api \<Rightarrow> 'w zmq_objects \<Rightarrow> error_handler \<Rightarrow> module_config \<Rightarrow> 'w
       \<Rightarrow> (bool \<times> module_config \<times> 'w) outcome" where
  "handle_keys so lib zo he config w =
     obind (db_init lib he DB_PATH (bytes_of MEANWHILE_DB_KEY) w) (\<lambda>(d, w1).
     obind (handle_keys_with so lib zo d config w1) (\<lambda>(ret, config', w2).
     obind (db_destroy lib d w2) (\<lambda>(d', w3). Ret (ret, config', w3))))"

definition module_init ::
    "'w sodium_api \<Rightarrow> 'w sqlite_api \<Rightarrow> 'w zmq_objects \<Rightarrow> error_handler \<Rightarrow> module_config \<Rightarrow> 'w
       \<Rightarrow> (void_result \<times> module_config \<times> 'w) outcome" where
  "module_init so lib zo he config w =
     obind (init_sodium so w) (\<lambda>w1.
     obind (handle_atomic_opt (handle_keys so lib zo he) config w1) (\<lambda>(config', w2). Ret (Inr (), config', w2)))"

text \<open>\<open>module_deinit\<close>: the deleters are called from the last object to the first; the calls are answered.\<close>

fun reset_ptr :: "int option \<times> bool \<Rightarrow> int list" where
  "reset_ptr (Some p, True) = [p]"
| "reset_ptr _ = []"

definition module_deinit :: "module_config \<Rightarrow> void_result \<times> int list \<times> module_config" where
  "module_deinit config =
     (Inr (), concat (map reset_ptr (rev (unique_ptrs config))),
      config\<lparr>unique_ptrs := map (\<lambda>(p, f). (None, f)) (unique_ptrs config)\<rparr>)"

section \<open>Lemmas\<close>

lemma write_mem_Buf: "length bs \<le> length m \<Longrightarrow> write_mem bs (Buf m) = Ret (Buf (bs @ drop (length bs) m))"
  by (simp add: write_mem_def)

lemma free_smem_Buf [simp]: "n \<le> length m \<Longrightarrow> free_smem (Buf m) n = Ret Freed"
  by (simp add: free_smem_def write_mem_def)

lemma free_smem_bad [simp]: "free_smem NullPtr n = Undefined" "free_smem Freed n = Undefined"
  by (simp_all add: free_smem_def write_mem_def)

text \<open>An allocation of \<open>n\<close> bytes answers null or a buffer of \<open>n\<close> bytes.\<close>

definition alloc_law :: "'w sodium_api \<Rightarrow> bool" where
  "alloc_law so \<longleftrightarrow> (\<forall>n w m w'. sodium_alloc so n w = (Some m, w') \<longrightarrow> length m = n)"

lemma allocate_smem_cases:
  assumes "alloc_law so"
  obtains (null) w' where "allocate_smem so n w = (NullPtr, w')"
    | (buf) m w' where "allocate_smem so n w = (Buf m, w')" "length m = n"
proof -
  obtain rc w1 where i: "sodium_init so w = (rc, w1)" by (cases "sodium_init so w") auto
  obtain r w2 where a: "sodium_alloc so n w1 = (r, w2)" by (cases "sodium_alloc so n w1") auto
  show thesis
    using assms i a null buf
    by (cases "rc = -1"; cases r) (auto simp: allocate_smem_def alloc_law_def)
qed

text \<open>What initialisation leaves: two live buffers only when everything worked.\<close>

lemma keys_init_cases:
  assumes "alloc_law so" "key_type ki = CURVE25519"
  obtains (null) p q w' where "keys_init so ki w = Ret (False, ki\<lparr>curve_pub := p, curve_prv := q\<rparr>, w')" "p = NullPtr \<or> q = NullPtr"
    | (locked) m n w' where "keys_init so ki w = Ret (True, ki\<lparr>curve_pub := Buf m, curve_prv := Buf n\<rparr>, w')" "length m = 41" "length n = 41"
    | (freed) w' where "keys_init so ki w = Ret (True, ki\<lparr>curve_pub := Freed, curve_prv := Freed\<rparr>, w')"
proof (cases rule: allocate_smem_cases [OF assms(1), of 41 w, case_names pnull pbuf])
  case (pnull w1)
  obtain q w2 where "allocate_smem so 41 w1 = (q, w2)" by (cases "allocate_smem so 41 w1") auto
  with pnull assms(2) show thesis by (intro null [where p = NullPtr and q = q and w' = w2]) (simp_all add: keys_init_def)
next
  case (pbuf m w1)
  show thesis
  proof (cases rule: allocate_smem_cases [OF assms(1), of 41 w1, case_names qnull qbuf])
    case (qnull w2)
    with pbuf assms(2) show thesis by (intro null [where p = "Buf m" and q = NullPtr and w' = w2]) (simp_all add: keys_init_def)
  next
    case (qbuf n w2)
    obtain rc1 w3 where l1: "sodium_mlock so 41 w2 = (rc1, w3)" by (cases "sodium_mlock so 41 w2") auto
    obtain rc2 w4 where l2: "(if rc1 \<noteq> 0 then (0, w3) else sodium_mlock so 41 w3) = (rc2, w4)"
      by (cases "if rc1 \<noteq> 0 then (0, w3) else sodium_mlock so 41 w3") auto
    show thesis
    proof (cases "rc1 \<noteq> 0 \<or> rc2 \<noteq> 0")
      case True
      with pbuf qbuf l1 l2 assms(2) show thesis by (intro freed [of w4]) (simp add: keys_init_def)
    next
      case False
      with pbuf qbuf l1 l2 assms(2) show thesis by (intro locked [where m = m and n = n and w' = w4]) (simp_all add: keys_init_def)
    qed
  qed
qed

section \<open>Instances for examples\<close>

definition sim_sodium :: "simdb sodium_api" where
  "sim_sodium = \<lparr>sodium_init = (\<lambda>w. (0, w)), sodium_alloc = (\<lambda>n w. (Some (replicate n 0xD0), w)), sodium_mlock = (\<lambda>n w. (0, w))\<rparr>"

definition sim_objects :: "simdb zmq_objects" where
  "sim_objects = \<lparr>zmq_ctx_new = (\<lambda>w. (Some 1, w)), zmq_ctx_destroy = (\<lambda>p w. (0, w)), zmq_socket = (\<lambda>c t w. (Some 1, 0, w)),
     zmq_close = (\<lambda>p w. (0, w)), zmq_curve_keypair = (\<lambda>w. (0, replicate 40 65 @ [0], replicate 40 66 @ [0], w))\<rparr>"

definition sim_keys :: keys_info where
  "sim_keys = \<lparr>key_type = CURVE25519, curve_pub = NullPtr, curve_prv = NullPtr, is_ready = False\<rparr>"

definition sim_config :: module_config where
  "sim_config = \<lparr>unique_ptrs = [], client_id = PEER, conf_keys = sim_keys\<rparr>"

definition sim_pair :: simdb where
  "sim_pair = \<lparr>sd_table = [sim_row 1, (sim_row 1)\<lparr>k_name := SQL_Text ''private_key'', k_value := SQL_Blob [3]\<rparr>], sd_stmts = []\<rparr>"

lemma sim_keys_init:
  "keys_init sim_sodium sim_keys w = Ret (True, sim_keys\<lparr>curve_pub := Buf (replicate 41 0xD0), curve_prv := Buf (replicate 41 0xD0)\<rparr>, w)"
  by (simp add: keys_init_def sim_keys_def sim_sodium_def allocate_smem_def)

lemma sim_client: "client_id_of PEER = Ret ''peerxxx''"
  by (simp add: client_id_of_def clients_ids_at_def CLIENTS_IDS_def)

lemma sim_get_pair:
  "\<exists>w2 w3. get_key sim_db sim_conn ''peerxxx'' CURVE25519 ''public_key'' sim_pair = Ret (Inr [1, 2], w2) \<and>
     get_key sim_db sim_conn ''peerxxx'' CURVE25519 ''private_key'' w2 = Ret (Inr [3], w3)"
proof -
  let ?t = "sd_table sim_pair"
  have pub: "run_select [(3, SQL_Text ''public_key''), (2, SQL_Text ''CURVE25519''), (1, SQL_Text ''peerxxx'')] ?t = [[(''key_value'', SQL_Blob [1, 2])]]"
    by (simp add: run_select_def row_matches_def arg_def type_id_def key_types_def sim_pair_def sim_row_def)
  have prv: "run_select [(3, SQL_Text ''private_key''), (2, SQL_Text ''CURVE25519''), (1, SQL_Text ''peerxxx'')] ?t = [[(''key_value'', SQL_Blob [3])]]"
    by (simp add: run_select_def row_matches_def arg_def type_id_def key_types_def sim_pair_def sim_row_def)
  obtain w2 where w2: "get_key sim_db sim_conn ''peerxxx'' CURVE25519 ''public_key'' sim_pair = Ret (Inr [1, 2], w2)" "sd_table w2 = ?t"
    using sim_get [OF pub] by (auto simp: sim_names)
  have "c_text ''private_key'' = ''private_key''" by (simp add: c_text_def)
  with prv w2 obtain w3 where "get_key sim_db sim_conn ''peerxxx'' CURVE25519 ''private_key'' w2 = Ret (Inr [3], w3)"
    using sim_get [of "''private_key''" w2 "[3]"] by auto
  with w2 show ?thesis by blast
qed

section \<open>Properties\<close>

text \<open>
  Stored keys are loaded, and the module is reported as not ready. When the database has
  both keys and they fit the 41-byte buffers, \<open>_handle_keys\<close> copies them in and then answers
  false and clears \<open>is_ready\<close>, because its success is set only inside the branch that
  generates new keys; a stored key longer than its buffer overflows it.
\<close>

theorem loaded_keys_are_not_ready:
  assumes "key_type (conf_keys config) = CURVE25519"
    and "keys_init so (conf_keys config) w = Ret (ok, ki, w1)" "curve_pub ki = Buf m" "curve_prv ki = Buf n"
    and "client_id_of (client_id config) = Ret name"
    and "get_key lib d name CURVE25519 ''public_key'' w1 = Ret (Inr pub, w2)"
    and "get_key lib d name CURVE25519 ''private_key'' w2 = Ret (Inr prv, w3)"
  shows "handle_keys_with so lib zo d config w =
     (if length pub \<le> length m \<and> length prv \<le> length n
      then Ret (False, config\<lparr>conf_keys := ki\<lparr>curve_pub := Buf (pub @ drop (length pub) m),
                                             curve_prv := Buf (prv @ drop (length prv) n), is_ready := False\<rparr>\<rparr>, w3)
      else Undefined)"
  using assms by (auto simp: handle_keys_with_def get_zmq_curve_keys_def write_mem_def)

theorem loaded_keys_are_not_ready_witness:
  "\<exists>config' w'. handle_keys_with sim_sodium sim_db sim_objects sim_conn sim_config sim_pair = Ret (False, config', w') \<and>
     \<not> is_ready (conf_keys config')"
proof -
  obtain w2 w3 where g: "get_key sim_db sim_conn ''peerxxx'' CURVE25519 ''public_key'' sim_pair = Ret (Inr [1, 2], w2)"
      "get_key sim_db sim_conn ''peerxxx'' CURVE25519 ''private_key'' w2 = Ret (Inr [3], w3)"
    using sim_get_pair by blast
  have c: "key_type (conf_keys sim_config) = CURVE25519" "conf_keys sim_config = sim_keys" "client_id_of (client_id sim_config) = Ret ''peerxxx''"
    by (simp_all add: sim_config_def sim_keys_def sim_client)
  show ?thesis
    using loaded_keys_are_not_ready [OF c(1) sim_keys_init [of sim_pair, folded c(2)] _ _ c(3) g, of _ _ sim_objects] by simp
qed

text \<open>
  Saving a generated pair. The two keys are stored in one transaction; the answer is true
  exactly when the transaction began, the private key was stored and the commit succeeded.
  Whether the public key was stored is never looked at: if only it fails, what is committed is
  the private key alone, and the module is ready.
\<close>

theorem save_keys_ignores_the_public_key:
  assumes "c_string_at (curve_pub ki) = Ret pub" "c_string_at (curve_prv ki) = Ret prv" "client_id_of cid = Ret name"
    and "begin_transaction lib d w = Ret (b, w1)"
    and "store_key lib d name (key_type ki) ''public_key'' pub 0 w1 = (write_pub, w2)"
    and "store_key lib d name (key_type ki) ''private_key'' prv 0 w2 = (write_prv, w3)"
    and "end_transaction lib d w3 = Ret (c, w4)" "db_exec lib ''ROLLBACK'' d w3 = Ret (r, w5)"
    and ok: "store_ok lib live tab d w1" "pub \<noteq> []" "prv \<noteq> []"
  shows "save_keys lib d ki cid w =
       Ret (if is_err b then (False, w1) else if is_err write_prv then (False, w5) else (\<not> is_err c, w4)) \<and>
     (\<not> is_err write_prv \<and> \<not> is_err write_pub \<longrightarrow> contents (tab w3) = (contents (tab w1))
         (key_id name (key_type ki) ''public_key'' \<mapsto> (pub, True), key_id name (key_type ki) ''private_key'' \<mapsto> (prv, True))) \<and>
     (\<not> is_err write_prv \<and> is_err write_pub \<longrightarrow> contents (tab w3) = (contents (tab w1))
         (key_id name (key_type ki) ''private_key'' \<mapsto> (prv, True)))"
proof -
  have a: "db_store lib d (name, key_type ki, ''public_key'') pub 0 w1 = (write_pub, w2)"
    and b: "db_store lib d (name, key_type ki, ''private_key'') prv 0 w2 = (write_prv, w3)" using assms by (simp_all add: db_store_def)
  note pub = store_key_contents [OF ok(1,2) a]
  note prv = store_key_contents [OF conjunct1 [OF pub] ok(3) b]
  show ?thesis using assms(1-8) pub prv by (simp add: save_keys_def raw_id_def)
qed

lemma sim_exec_other:
  assumes "c_text sql = sql" "run_sql sql [] (sd_table w) = Other"
  shows "db_exec sim_db sql sim_conn w = Ret (Inr (), w\<lparr>sd_stmts := AList.delete (fresh_stmt (sd_stmts w)) (sd_stmts w)\<rparr>)"
proof -
  let ?s = "fresh_stmt (sd_stmts w)"
  have "exec_loop sim_db ?s (w\<lparr>sd_stmts := (?s, new_stmt sql) # sd_stmts w\<rparr>) =
      Some (Ret (SQLITE_DONE, w\<lparr>sd_stmts := (?s, new_stmt sql) # sd_stmts w\<rparr>))"
    using assms(2) by (subst exec_loop.simps) (simp add: sim_db_calls sim_step_def sqlite_codes)
  then show ?thesis using assms(1) by (simp add: db_exec_def sim_conn_def sim_db_calls sqlite_codes)
qed

lemma other_sql:
  "run_sql ''BEGIN TRANSACTION;'' [] t = Other" "run_sql ''COMMIT;'' [] t = Other" "run_sql ''ROLLBACK'' [] t = Other"
  "c_text ''BEGIN TRANSACTION;'' = ''BEGIN TRANSACTION;''" "c_text ''COMMIT;'' = ''COMMIT;''" "c_text ''ROLLBACK'' = ''ROLLBACK''"
  by (simp_all add: run_sql_def sql_insert_def sql_update_def sql_remove_def sql_select_def c_text_def)

lemma sim_store_private:
  "store_key sim_db sim_conn ''peerxxx'' CURVE25519 ''private_key'' [3] 0 \<lparr>sd_table = [sim_row 1], sd_stmts = []\<rparr> = (Inr (), sim_pair)"
proof -
  have "run_insert [(5, SQL_Null), (4, SQL_Blob [3]), (3, SQL_Text ''private_key''), (2, SQL_Text ''CURVE25519''), (1, SQL_Text ''peerxxx'')] [sim_row 1]
     = Some (sd_table sim_pair)"
    by (simp add: run_insert_def arg_def type_id_def key_types_def sim_pair_def sim_row_def row_matches_def)
  moreover have "c_text ''private_key'' = ''private_key''" by (simp add: c_text_def)
  ultimately show ?thesis
    by (simp add: store_key_def sim_prepare sim_bind sim_execute sim_names sim_empty_def c_text_type [of CURVE25519, simplified] sim_pair_def)
qed

theorem save_keys_ignores_the_public_key_witness:
  "\<exists>w'. save_keys sim_db sim_conn (sim_keys\<lparr>curve_pub := Buf [1, 2, 0], curve_prv := Buf [3, 0]\<rparr>) PEER sim_empty = Ret (True, w')"
proof -
  let ?ki = "sim_keys\<lparr>curve_pub := Buf [1, 2, 0], curve_prv := Buf [3, 0]\<rparr>"
  let ?w = "\<lparr>sd_table = [sim_row 1], sd_stmts = []\<rparr>"
  have s: "c_string_at (curve_pub ?ki) = Ret [1, 2]" "c_string_at (curve_prv ?ki) = Ret [3]"
    by (simp_all add: c_string_at_def c_str_def)
  have b: "begin_transaction sim_db sim_conn sim_empty = Ret (Inr (), sim_empty)"
    unfolding begin_transaction_def using sim_exec_other [of "''BEGIN TRANSACTION;''" sim_empty] other_sql by (simp add: sim_empty_def)
  have e: "end_transaction sim_db sim_conn sim_pair = Ret (Inr (), sim_pair)"
    unfolding end_transaction_def using sim_exec_other [of "''COMMIT;''" sim_pair] other_sql by (simp add: sim_pair_def)
  have rb: "db_exec sim_db ''ROLLBACK'' sim_conn sim_pair = Ret (Inr (), sim_pair)"
    using sim_exec_other [of "''ROLLBACK''" sim_pair] other_sql by (simp add: sim_pair_def)
  have ty: "key_type ?ki = CURVE25519" by (simp add: sim_keys_def)
  have ne: "[1, 2 :: byte] \<noteq> []" "[3 :: byte] \<noteq> []" by simp_all
  from save_keys_ignores_the_public_key [OF s sim_client b _ _ e rb sim_store_ok ne, of "Inr ()" ?w "Inr ()"] sim_store sim_store_private
  show ?thesis unfolding ty by auto
qed

text \<open>
  The memory of the keys. Initialising answers true with two live buffers of 41 bytes,
  which releasing frees; but it answers true also when the memory could not be locked, with
  both buffers freed, and then releasing them, or writing a key into them, is a use after
  free. It answers false when an allocation failed, and then releasing writes through null.
\<close>

theorem key_memory_lifecycle:
  assumes "alloc_law so" "key_type ki = CURVE25519" "keys_init so ki w = Ret (ok, ki', w')"
  shows "(ok \<and> (\<exists>m n. curve_pub ki' = Buf m \<and> curve_prv ki' = Buf n \<and> length m = 41 \<and> length n = 41) \<and>
            keys_deinit ki' = Ret (ki'\<lparr>curve_pub := Freed, curve_prv := Freed\<rparr>)) \<or>
         (ok \<and> curve_pub ki' = Freed \<and> curve_prv ki' = Freed \<and> keys_deinit ki' = Undefined \<and>
            (\<forall>bs. write_mem bs (curve_pub ki') = Undefined)) \<or>
         (\<not> ok \<and> (curve_pub ki' = NullPtr \<or> curve_prv ki' = NullPtr) \<and> keys_deinit ki' = Undefined)"
proof -
  have nulls: "keys_deinit ki' = Undefined"
    if "key_type ki' = CURVE25519" "curve_pub ki' = NullPtr \<or> curve_prv ki' = NullPtr" for ki'
    using that by (cases "free_smem (curve_pub ki') 41") (auto simp: keys_deinit_def free_smem_def write_mem_def split: sec_ptr.splits if_splits)
  show ?thesis
  proof (cases rule: keys_init_cases [OF assms(1,2), of w, case_names null locked freed])
    case (null p q w1)
    with assms(2,3) nulls [of ki'] show ?thesis by auto
  next
    case (locked m n w1)
    with assms(2,3) show ?thesis by (auto simp: keys_deinit_def)
  next
    case (freed w1)
    with assms(2,3) show ?thesis by (auto simp: keys_deinit_def write_mem_def)
  qed
qed

theorem key_memory_lifecycle_witness:
  "keys_deinit (sim_keys\<lparr>curve_pub := Freed, curve_prv := Freed\<rparr>) = Undefined"
proof -
  let ?so = "sim_sodium\<lparr>sodium_mlock := \<lambda>n w. (-1, w)\<rparr>"
  have "alloc_law ?so" by (simp add: alloc_law_def sim_sodium_def)
  moreover have "key_type sim_keys = CURVE25519" by (simp add: sim_keys_def)
  moreover have "keys_init ?so sim_keys sim_empty = Ret (True, sim_keys\<lparr>curve_pub := Freed, curve_prv := Freed\<rparr>, sim_empty)"
    by (simp add: keys_init_def sim_keys_def sim_sodium_def allocate_smem_def)
  ultimately show ?thesis using key_memory_lifecycle by fastforce
qed

text \<open>
  Releasing a module. Every object that is not null and has a deleter is handed to its
  deleter exactly once, the last one first; afterwards all are null and releasing again
  does nothing. Initialising a module again, on a library that is already initialised and so
  answers 1, aborts the process.
\<close>

theorem module_release_and_restart:
  "fst (snd (module_deinit config)) = map (the \<circ> fst) (filter (\<lambda>(p, f). p \<noteq> None \<and> f) (rev (unique_ptrs config))) \<and>
   fst (snd (module_deinit (snd (snd (module_deinit config))))) = [] \<and>
   (fst (sodium_init so w) = 1 \<longrightarrow> module_init so lib zo he config w = Aborts)"
proof -
  have reset: "concat (map reset_ptr ps) = map (the \<circ> fst) (filter (\<lambda>(p, f). p \<noteq> None \<and> f) ps)" for ps
  proof (induction ps)
    case Nil
    then show ?case by simp
  next
    case (Cons x ps)
    obtain p f where "x = (p, f)" by (cases x)
    with Cons show ?case by (cases p; cases f) auto
  qed
  have "concat (map reset_ptr (rev (map (\<lambda>(p, f). (None, f)) ps))) = []" for ps :: "(int option \<times> bool) list"
    by (auto simp: concat_eq_Nil_conv split: prod.splits)
  then show ?thesis
    by (auto simp: module_deinit_def reset module_init_def init_sodium_def split: prod.splits)
qed

theorem module_release_and_restart_witness:
  "fst (snd (module_deinit (sim_config\<lparr>unique_ptrs := [(Some 1, True), (None, True), (Some 2, False), (Some 3, True)]\<rparr>))) = [3, 1] \<and>
   module_init (sim_sodium\<lparr>sodium_init := \<lambda>w. (1, w)\<rparr>) sim_db sim_objects plain_handler sim_config sim_empty = Aborts"
  using module_release_and_restart [of "sim_config\<lparr>unique_ptrs := [(Some 1, True), (None, True), (Some 2, False), (Some 3, True)]\<rparr>"
      "sim_sodium\<lparr>sodium_init := \<lambda>w. (1, w)\<rparr>" sim_empty sim_db sim_objects plain_handler]
    module_release_and_restart [of sim_config "sim_sodium\<lparr>sodium_init := \<lambda>w. (1, w)\<rparr>" sim_empty sim_db sim_objects plain_handler]
  by simp

end
