(* ===== verification/Polling.thy ===== *)
theory Polling
  imports Zmq
begin

text \<open>
  The shape the two polling workers share: a loop that reads the \<open>until\<close> flag, asks for the
  next event, and leaves the loop, runs the callback or goes round again. A worker may run
  for ever, so it is a \<open>partial_function\<close>; this theory gives the rounds with an explicit
  bound and, in the locale \<open>polling_worker\<close>, what holds of every worker that is the limit
  of its rounds.
\<close>

text \<open>\<open>event\<close> answers \<open>None\<close> to leave the loop, \<open>Some True\<close> to run the callback.\<close>

fun poll_rounds ::
    "('w \<Rightarrow> bool) \<Rightarrow> ('w \<Rightarrow> bool option \<times> 'w) \<Rightarrow> ('w \<Rightarrow> 'w outcome) \<Rightarrow> nat \<Rightarrow> 'w \<Rightarrow> 'w outcome option" where
  "poll_rounds until event callback 0 w = None"
| "poll_rounds until event callback (Suc n) w =
     (if \<not> until w then Some (Ret w)
      else case event w of
        (None, w1) \<Rightarrow> Some (Ret w1)
      | (Some False, w1) \<Rightarrow> poll_rounds until event callback n w1
      | (Some True, w1) \<Rightarrow>
          (case callback w1 of Ret w2 \<Rightarrow> poll_rounds until event callback n w2 | Throws e \<Rightarrow> Some (Throws e)
           | Aborts \<Rightarrow> Some Aborts | Undefined \<Rightarrow> Some Undefined | Diverges \<Rightarrow> Some Diverges))"

text \<open>A state the loop has left, and why: the flag was cleared or polling failed.\<close>

definition left_loop :: "('w \<Rightarrow> bool) \<Rightarrow> ('w \<Rightarrow> bool option \<times> 'w) \<Rightarrow> 'w \<Rightarrow> bool" where
  "left_loop until event w \<longleftrightarrow> \<not> until w \<or> (\<exists>w0. event w0 = (None, w))"

lemma poll_rounds_keeps:
  assumes "\<And>v. I v \<Longrightarrow> until v \<Longrightarrow> I (snd (event v))"
    and "\<And>v v'. I v \<Longrightarrow> callback v = Ret v' \<Longrightarrow> I v'"
  shows "I w \<Longrightarrow> poll_rounds until event callback n w = Some (Ret w') \<Longrightarrow> I w' \<and> left_loop until event w'"
proof (induction n arbitrary: w)
  case 0
  then show ?case by simp
next
  case (Suc n)
  obtain d w1 where ev: "event w = (d, w1)" by (cases "event w") auto
  show ?case
  proof (cases "until w")
    case False
    with Suc.prems show ?thesis by (simp add: left_loop_def)
  next
    case True
    then have "I w1" using assms(1) [OF Suc.prems(1)] ev by simp
    with Suc True ev assms(2) [of w1] show ?thesis
      by (auto simp: left_loop_def split: option.splits bool.splits outcome.splits)
  qed
qed

lemma poll_rounds_returns:
  assumes "\<And>v. I v \<Longrightarrow> until v \<Longrightarrow> fst (event v) \<noteq> None \<Longrightarrow>
      (\<exists>v'. (if fst (event v) = Some True then callback (snd (event v)) else Ret (snd (event v))) = Ret v' \<and>
            I v' \<and> rank v' < (rank v :: nat))"
  shows "I w \<Longrightarrow> rank w < n \<Longrightarrow> \<exists>w'. poll_rounds until event callback n w = Some (Ret w')"
proof (induction n arbitrary: w)
  case 0
  then show ?case by simp
next
  case (Suc n)
  obtain d w1 where ev: "event w = (d, w1)" by (cases "event w") auto
  show ?case
  proof (cases "until w \<and> d \<noteq> None")
    case False
    with ev show ?thesis by auto
  next
    case True
    then have "\<exists>v'. (if d = Some True then callback w1 else Ret w1) = Ret v' \<and> I v' \<and> rank v' < rank w"
      using assms [OF Suc.prems(1)] True unfolding ev fst_conv snd_conv by blast
    then obtain v' where v': "(if d = Some True then callback w1 else Ret w1) = Ret v'" "I v'" "rank v' < rank w"
      by blast
    then have "\<exists>w'. poll_rounds until event callback n v' = Some (Ret w')"
      using Suc.IH [of v'] Suc.prems by simp
    with v' True ev show ?thesis by (cases d) (auto split: bool.splits)
  qed
qed

text \<open>A step of a worker in the shape of a round.\<close>

definition round_step ::
    "('w \<Rightarrow> bool) \<Rightarrow> ('w \<Rightarrow> bool option \<times> 'w) \<Rightarrow> ('w \<Rightarrow> 'w outcome) \<Rightarrow> ('w \<Rightarrow> 'w outcome option) \<Rightarrow> 'w
       \<Rightarrow> 'w outcome option" where
  "round_step until event callback continue w =
     (if \<not> until w then Some (Ret w)
      else case event w of
        (None, w1) \<Rightarrow> Some (Ret w1)
      | (Some False, w1) \<Rightarrow> continue w1
      | (Some True, w1) \<Rightarrow>
          (case callback w1 of Ret w2 \<Rightarrow> continue w2 | Throws e \<Rightarrow> Some (Throws e)
           | Aborts \<Rightarrow> Some Aborts | Undefined \<Rightarrow> Some Undefined | Diverges \<Rightarrow> Some Diverges))"

lemma poll_rounds_Suc: "poll_rounds until event callback (Suc n) w = round_step until event callback (poll_rounds until event callback n) w"
  by (simp add: round_step_def)

lemma rounds_of_step:
  assumes "\<And>v y. continue v = Some y \<Longrightarrow> \<exists>n. poll_rounds until event callback n v = Some y"
    and "round_step until event callback continue w = Some r"
  shows "\<exists>n. poll_rounds until event callback n w = Some r"
proof -
  have "\<exists>n. round_step until event callback (poll_rounds until event callback n) w = Some r"
    using assms(2) assms(1) unfolding round_step_def
    by (cases "event w") (auto split: if_splits option.splits bool.splits outcome.splits)
  then show ?thesis using poll_rounds_Suc by metis
qed

lemma step_of_rounds:
  assumes "\<And>v. worker v = round_step until event callback worker v"
  shows "poll_rounds until event callback n w = Some r \<Longrightarrow> worker w = Some r"
proof (induction n arbitrary: w)
  case 0
  then show ?case by simp
next
  case (Suc n)
  then show ?case
    unfolding poll_rounds_Suc by (subst assms)
      (auto simp: round_step_def split: if_splits option.splits bool.splits outcome.splits prod.splits)
qed

locale polling_worker =
  fixes worker :: "('w \<Rightarrow> bool) \<Rightarrow> ('w \<Rightarrow> 'w outcome) \<Rightarrow> 'w \<Rightarrow> 'w outcome option"
    and event :: "'w \<Rightarrow> bool option \<times> 'w"
  assumes limit: "worker until callback w = Some r \<longleftrightarrow> (\<exists>n. poll_rounds until event callback n w = Some r)"
begin

lemma stops: "\<not> until w \<Longrightarrow> worker until callback w = Some (Ret w)"
  using limit [of until callback w "Ret w"] by (metis poll_rounds.simps(2))

lemma keeps:
  assumes "\<And>v. I v \<Longrightarrow> until v \<Longrightarrow> I (snd (event v))"
    and "\<And>v v'. I v \<Longrightarrow> callback v = Ret v' \<Longrightarrow> I v'"
    and "I w" "worker until callback w = Some (Ret w')"
  shows "I w' \<and> left_loop until event w'"
  using assms limit poll_rounds_keeps [of I until event callback w _ w'] by blast

lemma returns_when_ranked:
  assumes "\<And>v. I v \<Longrightarrow> until v \<Longrightarrow> fst (event v) \<noteq> None \<Longrightarrow>
      (\<exists>v'. (if fst (event v) = Some True then callback (snd (event v)) else Ret (snd (event v))) = Ret v' \<and>
            I v' \<and> rank v' < (rank v :: nat))"
    and "I w"
  shows "\<exists>w'. worker until callback w = Some (Ret w')"
  using poll_rounds_returns [of I until event callback rank w "Suc (rank w)"] assms limit by blast

end

end
