(* ===== verification/Transmitter.thy ===== *)
theory Transmitter
  imports Polling
begin

text \<open>
  \<open>ZMQWTransmitter\<close> of \<open>core/common/transmitter.h\<close> and \<open>core/transmitter.cpp\<close>: connecting,
  sending a byte range as a multipart message (identity, empty frame, chunks of at most
  \<open>sizeof(ipc_msg_t)\<close> bytes), and the polling worker.
\<close>

section \<open>State and operations\<close>

definition DEFAULT_DATA_CHUNK :: nat where
  "DEFAULT_DATA_CHUNK = sizeof_ipc_msg"

record 'm transmitter =
  identity :: "byte list"
  tx_buffer :: "'m zmq_all_msg managed_buffer"

definition handle_connect :: bool where
  "handle_connect = False"

text \<open>
  The recovery plan the constructor registers. \<open>setup_drp_actions\<close> is \<open>_setup_drp\<close>, which no
  code calls: what its two actions would answer for a given state of the buffer.
\<close>

definition transmitter_drp :: recovery_plan where
  "transmitter_drp = [SOCKET_CONNECT_FAIL \<mapsto> handle_connect]"

definition handle_msg_buff :: "error_handler \<Rightarrow> 'm transmitter \<Rightarrow> bool outcome" where
  "handle_msg_buff he tx =
     obind (check_integrity he (tx_buffer tx))
       (\<lambda>ret. case ret of Inl e \<Rightarrow> Ret (he transmitter_drp e) | Inr _ \<Rightarrow> Ret True)"

definition setup_drp_actions :: "error_handler \<Rightarrow> 'm transmitter \<Rightarrow> ErrorCode \<Rightarrow> bool outcome option" where
  "setup_drp_actions he tx =
     [SOCKET_CONNECT_FAIL \<mapsto> Ret handle_connect, MANAGE_BUFF_FULL \<mapsto> handle_msg_buff he tx]"

text \<open>The constructor: the identity is also set as the socket's, the result is ignored.\<close>

definition transmitter_new ::
    "('m, 'w) zmq_api \<Rightarrow> 'm zmq_all_msg list \<Rightarrow> byte list \<Rightarrow> 'w \<Rightarrow> 'm transmitter \<times> 'w" where
  "transmitter_new z raw ident w =
     (\<lparr>identity = ident, tx_buffer = msg_buffer_new z raw\<rparr>, snd (zmq_setsockopt z ZMQ_IDENTITY ident w))"

definition tx_endpoint :: "string \<Rightarrow> int \<Rightarrow> string" where
  "tx_endpoint ip port = (if port = 0 then ip else ''tcp://'' @ ip @ '':'' @ show_int port)"

definition tx_connect_result :: "('m, 'w) zmq_api \<Rightarrow> string \<Rightarrow> int \<Rightarrow> 'w \<Rightarrow> void_result \<times> 'w" where
  "tx_connect_result z ip port w =
     (let endpoint = tx_endpoint ip port; (rc, w1) = zmq_connect z endpoint w in
      if rc \<noteq> 0 then (Err SOCKET_CONNECT_FAIL (''Failed connect to '' @ endpoint), w1)
      else let (poll_rc, revents, w2) = zmq_poll z ZMQ_POLLOUT 5000 w1 in
        if poll_rc = -1 then (Err FAIL_POLL_SOCKET (''Init Poll on connetc to '' @ endpoint), w2)
        else if poll_rc = 0 then (Err SOCKET_TIMEOUT (''Timeout waiting for srv '' @ endpoint), w2)
        else if revents then (Inr (), w2)
        else (Err_sev MONKEY (''When tryed to poll on '' @ endpoint) HIGH, w2))"

definition tx_connect :: "('m, 'w) zmq_api \<Rightarrow> error_handler \<Rightarrow> string \<Rightarrow> int \<Rightarrow> 'w \<Rightarrow> bool \<times> 'w" where
  "tx_connect z he ip port w =
     (case tx_connect_result z ip port w of
        (Inl e, w') \<Rightarrow> (he transmitter_drp e, w')
      | (Inr _, w') \<Rightarrow> (True, w'))"

text \<open>
  The loop of \<open>_send\<close> over the rest of the data: \<open>n\<close> bytes are left, \<open>data\<close> is what the
  caller's pointer can read from here on. Each chunk gets a fresh message.
\<close>

function send_chunks ::
    "('m, 'w) zmq_api \<Rightarrow> nat \<Rightarrow> byte list \<Rightarrow> 'm \<Rightarrow> 'w \<Rightarrow> (void_result \<times> 'm \<times> 'w) outcome" where
  "send_chunks z n data m w =
     (if n = 0 then Ret (Inr (), m, w)
      else let k = min n DEFAULT_DATA_CHUNK in
        if length data < k then Undefined
        else obind (msg_memcpy z (take k data) (zmq_msg_init_size z k)) (\<lambda>m1.
          let (rc, m2, w1) = zmq_msg_send z m1 (n > k) w in
          if rc = -1
          then Ret (Err FAIL_SEND_FRAME ''Failed to send chunk of data'', zmq_msg_close z m2, w1)
          else send_chunks z (n - k) (drop k data) (zmq_msg_close z m2) w1))"
  by pat_completeness auto
termination
  by (relation "measure (\<lambda>(z, n, data, m, w). n)")
    (auto simp: DEFAULT_DATA_CHUNK_def sizeof_ipc_msg_def)

declare send_chunks.simps [simp del]

definition send_frames ::
    "('m, 'w) zmq_api \<Rightarrow> layout \<Rightarrow> byte list \<Rightarrow> int \<Rightarrow> byte list \<Rightarrow> nat \<Rightarrow> 'm zmq_all_msg managed_buffer \<Rightarrow> 'w
       \<Rightarrow> (void_result \<times> 'm zmq_all_msg managed_buffer \<times> 'w) outcome" where
  "send_frames z lay ident p data n b w =
     (if ident = [] then Ret (Err INVALID_IDENTITY ''Identity is empty'', b, w)
      else let a = peek lay p b in
      obind (msg_memcpy z ident (identity_frame a)) (\<lambda>i.
        let (rc, i', w1) = zmq_msg_send z i True w; a1 = a\<lparr>identity_frame := i'\<rparr>; b1 = poke lay p a1 b in
        if rc = -1 then Ret (Err FAIL_SEND_FRAME ''Failed to send identity frame'', b1, w1)
        else let (rc, e', w2) = zmq_msg_send z (empty_frame a1) True w1;
                 a2 = a1\<lparr>empty_frame := e'\<rparr>; b2 = poke lay p a2 b1 in
          if rc = -1 then Ret (Err FAIL_SEND_FRAME ''Failed to send empty frame'', b2, w2)
          else obind (send_chunks z n data (msg_frame a2) w2)
            (\<lambda>(r, m', w3). Ret (r, poke lay p (a2\<lparr>msg_frame := m'\<rparr>) b2, w3))))"

definition tx_send_result ::
    "('m, 'w) zmq_api \<Rightarrow> error_handler \<Rightarrow> layout \<Rightarrow> byte list \<Rightarrow> nat \<Rightarrow> 'm transmitter \<Rightarrow> 'w
       \<Rightarrow> (void_result \<times> 'm transmitter \<times> 'w) outcome" where
  "tx_send_result z he lay data num_bytes tx w =
     (if is_full (tx_buffer tx) = Inr True
      then Ret (Err_sev MANAGE_BUFF_FULL ''messages buffer is full'' LOW, tx, w)
      else obind (get_slot lay (tx_buffer tx)) (\<lambda>(all_msg, b).
        obind (case all_msg of
                 None \<Rightarrow> Ret (Err_sev MANAGE_BUFF_MONKEY ''IDK what happen :/'' MEDIUM, b, w)
               | Some p \<Rightarrow> send_frames z lay (identity tx) p data num_bytes b w)
          (\<lambda>(r, b1, w1). obind (release_slot he lay (Some all_msg) b1)
            (\<lambda>(ret, p', b2). Ret (r, tx\<lparr>tx_buffer := b2\<rparr>, w1)))))"

definition tx_send ::
    "('m, 'w) zmq_api \<Rightarrow> error_handler \<Rightarrow> layout \<Rightarrow> byte list \<Rightarrow> nat \<Rightarrow> 'm transmitter \<Rightarrow> 'w
       \<Rightarrow> (bool \<times> 'm transmitter \<times> 'w) outcome" where
  "tx_send z he lay data data_length tx w =
     obind (tx_send_result z he lay data data_length tx w)
       (\<lambda>(r, tx', w'). Ret (case r of Inl e \<Rightarrow> he transmitter_drp e | Inr _ \<Rightarrow> True, tx', w'))"

text \<open>
  The worker: polls without timeout until the flag is cleared (\<open>until\<close> reads it from the
  state, other threads change it there) or polling fails.
\<close>

partial_function (option) tx_worker ::
    "('m, 'w) zmq_api \<Rightarrow> ('w \<Rightarrow> bool) \<Rightarrow> ('w \<Rightarrow> 'w outcome) \<Rightarrow> 'w \<Rightarrow> 'w outcome option" where
  "tx_worker z until callback w =
     (if \<not> until w then Some (Ret w)
      else case zmq_poll z ZMQ_POLLIN (-1) w of (rc, revents, w1) \<Rightarrow>
        if rc = -1 then Some (Ret w1)
        else if revents
        then (case callback w1 of Ret w2 \<Rightarrow> tx_worker z until callback w2 | Throws e \<Rightarrow> Some (Throws e)
              | Aborts \<Rightarrow> Some Aborts | Undefined \<Rightarrow> Some Undefined | Diverges \<Rightarrow> Some Diverges)
        else tx_worker z until callback w1)"

definition tx_set_sockopt :: "('m, 'w) zmq_api \<Rightarrow> zmq_option \<Rightarrow> byte list \<Rightarrow> 'w \<Rightarrow> int \<times> 'w" where
  "tx_set_sockopt z name val w = zmq_setsockopt z name val w"

section \<open>The worker as a sequence of rounds\<close>

definition tx_event :: "('m, 'w) zmq_api \<Rightarrow> 'w \<Rightarrow> bool option \<times> 'w" where
  "tx_event z w =
     (case zmq_poll z ZMQ_POLLIN (-1) w of (rc, revents, w1) \<Rightarrow> (if rc = -1 then None else Some revents, w1))"

lemma tx_worker_step: "tx_worker z until callback w = round_step until (tx_event z) callback (tx_worker z until callback) w"
  by (subst tx_worker.simps) (auto simp: round_step_def tx_event_def split: prod.splits bool.splits)

lemma tx_worker_rounds:
  "tx_worker z until callback w = Some r \<Longrightarrow> \<exists>n. poll_rounds until (tx_event z) callback n w = Some r"
proof (induction rule: tx_worker.raw_induct [rotated 1, consumes 1, case_names step])
  case (step f z until callback w r)
  then have "round_step until (tx_event z) callback (f z until callback) w = Some r"
    by (auto simp: round_step_def tx_event_def split: prod.splits bool.splits)
  with step(1) show ?case by (rule rounds_of_step)
qed

interpretation tx: polling_worker "tx_worker z" "tx_event z" for z
  by unfold_locales (metis tx_worker_rounds step_of_rounds tx_worker_step)

section \<open>What is put on the wire\<close>

text \<open>
  The frames of a byte range: chunks of the default size, the more-flag on all but the last.
\<close>

function chunk_frames :: "byte list \<Rightarrow> (byte list \<times> bool) list" where
  "chunk_frames data =
     (if data = [] then []
      else (take DEFAULT_DATA_CHUNK data, length data > DEFAULT_DATA_CHUNK) #
           chunk_frames (drop DEFAULT_DATA_CHUNK data))"
  by pat_completeness auto
termination
  by (relation "measure length") (auto simp: DEFAULT_DATA_CHUNK_def sizeof_ipc_msg_def)

declare chunk_frames.simps [simp del]

lemma chunk_pos [simp]: "0 < DEFAULT_DATA_CHUNK" "DEFAULT_DATA_CHUNK \<noteq> 0"
  by (simp_all add: DEFAULT_DATA_CHUNK_def sizeof_ipc_msg_def)

lemma chunk_frames_data: "concat (map fst (chunk_frames data)) = data"
proof (induction data rule: chunk_frames.induct)
  case (1 data)
  then show ?case by (subst chunk_frames.simps) simp
qed

lemma chunk_frames_sizes:
  "f \<in> set (chunk_frames data) \<Longrightarrow> fst f \<noteq> [] \<and> length (fst f) \<le> DEFAULT_DATA_CHUNK"
proof (induction data rule: chunk_frames.induct)
  case (1 data)
  then show ?case by (subst (asm) chunk_frames.simps) (auto split: if_splits)
qed

lemma chunk_frames_Nil_iff [simp]: "chunk_frames data = [] \<longleftrightarrow> data = []"
  by (subst chunk_frames.simps) simp

lemma chunk_frames_flags:
  "data \<noteq> [] \<Longrightarrow> map snd (chunk_frames data) = replicate (length (chunk_frames data) - 1) True @ [False]"
proof (induction data rule: chunk_frames.induct)
  case (1 data)
  let ?r = "drop DEFAULT_DATA_CHUNK data"
  show ?case
  proof (cases "?r = []")
    case True
    then have "chunk_frames data = [(take DEFAULT_DATA_CHUNK data, False)]"
      using 1 by (subst chunk_frames.simps) (simp add: not_less)
    then show ?thesis by simp
  next
    case False
    then have e: "chunk_frames data = (take DEFAULT_DATA_CHUNK data, True) # chunk_frames ?r"
      using 1 by (subst chunk_frames.simps) (simp add: not_le)
    obtain k where "length (chunk_frames ?r) = Suc k"
      using False by (metis chunk_frames_Nil_iff length_0_conv not0_implies_Suc)
    with 1 False show ?thesis unfolding e by simp
  qed
qed

lemma length_chunk_frames:
  "length (chunk_frames data) = (length data + DEFAULT_DATA_CHUNK - 1) div DEFAULT_DATA_CHUNK"
proof (induction data rule: chunk_frames.induct)
  case (1 data)
  show ?case
  proof (cases "data = []")
    case True
    then show ?thesis by (subst chunk_frames.simps) simp
  next
    case False
    have step: "length (chunk_frames data) = Suc (length (chunk_frames (drop DEFAULT_DATA_CHUNK data)))"
      using False by (subst chunk_frames.simps) simp
    show ?thesis
    proof (cases "length data \<le> DEFAULT_DATA_CHUNK")
      case True
      have "(length data + DEFAULT_DATA_CHUNK - 1) div DEFAULT_DATA_CHUNK = 1"
      proof (rule div_nat_eqI)
        have "1 \<le> length data" using False by (cases data) auto
        then show "DEFAULT_DATA_CHUNK * 1 \<le> length data + DEFAULT_DATA_CHUNK - 1" by linarith
        show "length data + DEFAULT_DATA_CHUNK - 1 < DEFAULT_DATA_CHUNK * Suc 1"
          using True chunk_pos(1) unfolding mult_Suc_right mult_0_right by linarith
      qed
      with step True show ?thesis by simp
    next
      case F: False
      have "length data + DEFAULT_DATA_CHUNK - 1 =
          (length data - DEFAULT_DATA_CHUNK + DEFAULT_DATA_CHUNK - 1) + DEFAULT_DATA_CHUNK"
        using F by simp
      then have "(length data + DEFAULT_DATA_CHUNK - 1) div DEFAULT_DATA_CHUNK =
          Suc ((length data - DEFAULT_DATA_CHUNK + DEFAULT_DATA_CHUNK - 1) div DEFAULT_DATA_CHUNK)"
        by (simp only: div_add_self2 [OF chunk_pos(2)] Suc_eq_plus1)
      with step 1 False show ?thesis by simp
    qed
  qed
qed

lemma send_chunks_sent:
  "msg_laws z \<Longrightarrow> logs_sends z sent \<Longrightarrow> n \<le> length data \<Longrightarrow>
    \<exists>r m' w'. send_chunks z n data m w = Ret (r, m', w') \<and> sent_as sent (chunk_frames (take n data)) w r w'"
proof (induction z n data m w rule: send_chunks.induct [case_names step])
  case (step z n data m w)
  show ?case
  proof (cases "n = 0")
    case True
    then show ?thesis
      by (subst send_chunks.simps) (simp add: chunk_frames.simps [of "[]"] sent_as_done)
  next
    case False
    define k where "k = min n DEFAULT_DATA_CHUNK"
    define m1 where "m1 = zmq_msg_fill z (take k data) (zmq_msg_init_size z k)"
    obtain rc m2 w1 where send: "zmq_msg_send z m1 (n > k) w = (rc, m2, w1)" by (metis prod_cases3)
    have len: "length (take k data) = k" "k \<le> length data" "k \<le> n" using step.prems by (simp_all add: k_def)
    have data: "zmq_msg_data z m1 = take k data"
      unfolding m1_def using step.prems len by (intro fill_exact) (simp_all add: msg_lawsD)
    have cpy: "msg_memcpy z (take k data) (zmq_msg_init_size z k) = Ret m1"
      using step.prems len by (simp add: msg_memcpy_def m1_def msg_lawsD)
    have code: "send_chunks z n data m w =
        (if rc = -1 then Ret (Err FAIL_SEND_FRAME ''Failed to send chunk of data'', zmq_msg_close z m2, w1)
         else send_chunks z (n - k) (drop k data) (zmq_msg_close z m2) w1)"
      using False len cpy send by (subst send_chunks.simps) (simp add: Let_def k_def [symmetric])
    have "take DEFAULT_DATA_CHUNK (take n data) = take k data" by (simp add: k_def min.commute)
    moreover have "drop DEFAULT_DATA_CHUNK (take n data) = take (n - k) (drop k data)"
      using False by (cases "n \<le> DEFAULT_DATA_CHUNK") (auto simp: k_def drop_take)
    moreover have "DEFAULT_DATA_CHUNK < length (take n data) \<longleftrightarrow> n > k"
      using step.prems by (auto simp: k_def)
    ultimately have frames: "chunk_frames (take n data) = (take k data, n > k) # chunk_frames (take (n - k) (drop k data))"
      using False step.prems by (subst chunk_frames.simps) auto
    show ?thesis
    proof (cases "rc = -1")
      case True
      then show ?thesis
        using code frames logs_sendsD(1) [OF step.prems(2) send] by (simp add: sent_as_fail)
    next
      case ok: False
      have "\<exists>r m' w'. send_chunks z (n - k) (drop k data) (zmq_msg_close z m2) w1 = Ret (r, m', w') \<and>
          sent_as sent (chunk_frames (take (n - k) (drop k data))) w1 r w'"
        using step.prems False len send ok
        by (intro step.IH [of k m1 "(rc, m2, w1)" rc "(m2, w1)" m2 w1]) (simp_all add: k_def [symmetric] cpy)
      then show ?thesis
        using code ok frames logs_sendsD(1) [OF step.prems(2) send] data
        by (auto intro: sent_as_Cons)
    qed
  qed
qed

text \<open>The frames of one \<open>send\<close>: what the identity message holds, the empty frame, the chunks.\<close>

definition wire_frames :: "byte list \<Rightarrow> byte list \<Rightarrow> (byte list \<times> bool) list" where
  "wire_frames ident data = (ident, True) # ([], True) # chunk_frames data"

lemma send_frames_sent:
  assumes laws: "msg_laws z" "logs_sends z sent" and b: "pool_ok lay b" "p \<in> held_slots lay b"
    and ident: "ident \<noteq> []" "length ident \<le> zmq_msg_size z (identity_frame (peek lay p b))"
    and empty: "zmq_msg_size z (empty_frame (peek lay p b)) = 0" and n: "n \<le> length data"
  shows "\<exists>r a w'. send_frames z lay ident p data n b w = Ret (r, poke lay p a b, w') \<and>
      sent_as sent (wire_frames (padded_identity z ident (identity_frame (peek lay p b))) (take n data)) w r w' \<and>
      (sent w' \<noteq> sent w \<longrightarrow> zmq_msg_size z (identity_frame a) = 0)"
proof -
  let ?a = "peek lay p b"
  define i where "i = zmq_msg_fill z ident (identity_frame ?a)"
  have i: "msg_memcpy z ident (identity_frame ?a) = Ret i"
      "zmq_msg_data z i = padded_identity z ident (identity_frame ?a)"
    using laws ident by (simp_all add: msg_memcpy_def i_def padded_identity_def msg_lawsD)
  obtain rc i' w1 where s1: "zmq_msg_send z i True w = (rc, i', w1)" by (metis prod_cases3)
  obtain rc2 e' w2 where s2: "zmq_msg_send z (empty_frame ?a) True w1 = (rc2, e', w2)" by (metis prod_cases3)
  note l1 = logs_sendsD(1) [OF laws(2) s1] and l2 = logs_sendsD(1) [OF laws(2) s2]
  have e: "zmq_msg_data z (empty_frame ?a) = []" using msg_lawsD(3) [OF laws(1), of "empty_frame ?a"] empty by simp
  show ?thesis
  proof (cases "rc = -1")
    case True
    then have "send_frames z lay ident p data n b w =
        Ret (Err FAIL_SEND_FRAME ''Failed to send identity frame'', poke lay p (?a\<lparr>identity_frame := i'\<rparr>) b, w1)"
      using ident i s1 by (simp add: send_frames_def Let_def)
    then show ?thesis using True l1 by (auto simp: sent_as_fail wire_frames_def)
  next
    case ok1: False
    then have nullified: "zmq_msg_size z i' = 0" using msg_lawsD(5) [OF laws(1) s1] by simp
    have w1: "sent w1 = sent w @ [(zmq_msg_data z i, True)]" using l1 ok1 by simp
    let ?a2 = "?a\<lparr>identity_frame := i', empty_frame := e'\<rparr>"
    show ?thesis
    proof (cases "rc2 = -1")
      case True
      then have "send_frames z lay ident p data n b w =
          Ret (Err FAIL_SEND_FRAME ''Failed to send empty frame'', poke lay p ?a2 b, w2)"
        using ident i s1 s2 ok1 by (simp add: send_frames_def Let_def)
      moreover have "sent_as sent (wire_frames (zmq_msg_data z i) (take n data)) w
          (Err FAIL_SEND_FRAME ''Failed to send empty frame'') w2"
        unfolding wire_frames_def
        by (rule sent_as_Cons [where ?w1.0 = w1], rule w1, rule sent_as_fail) (use True l2 in simp_all)
      ultimately show ?thesis using nullified i(2) by auto
    next
      case ok2: False
      obtain r m' w3 where c: "send_chunks z n data (msg_frame ?a2) w2 = Ret (r, m', w3)"
          "sent_as sent (chunk_frames (take n data)) w2 r w3"
        using send_chunks_sent [OF laws n] by blast
      then have "send_frames z lay ident p data n b w = Ret (r, poke lay p (?a2\<lparr>msg_frame := m'\<rparr>) b, w3)"
        using ident i s1 s2 ok1 ok2 by (simp add: send_frames_def Let_def)
      moreover have "sent_as sent (wire_frames (zmq_msg_data z i) (take n data)) w r w3"
        using c(2) ok2 l2 w1 e by (auto simp: wire_frames_def intro!: sent_as_Cons)
      ultimately show ?thesis using nullified i(2) by auto
    qed
  qed
qed

text \<open>One \<open>send\<close> on any well-formed buffer with room: what it sends and what it leaves in the slot.\<close>

lemma tx_send_result_spec:
  assumes laws: "msg_laws z" "logs_sends z sent" and b: "pool_ok lay (tx_buffer tx)" "0 < room (tx_buffer tx)"
    and g: "get_slot lay (tx_buffer tx) = Ret (Some p, b1)"
    and ident: "identity tx \<noteq> []" "length (identity tx) \<le> zmq_msg_size z (identity_frame (peek lay p (tx_buffer tx)))"
    and empty: "zmq_msg_size z (empty_frame (peek lay p (tx_buffer tx))) = 0" and n: "n \<le> length data"
  shows "\<exists>r b2 b3 w'. tx_send_result z he lay data n tx w = Ret (r, tx\<lparr>tx_buffer := b2\<rparr>, w') \<and>
      sent_as sent (wire_frames (padded_identity z (identity tx) (identity_frame (peek lay p (tx_buffer tx)))) (take n data)) w r w' \<and>
      pool_ok lay b2 \<and> room b2 = room (tx_buffer tx) \<and> get_slot lay b2 = Ret (Some p, b3) \<and>
      (sent w' \<noteq> sent w \<longrightarrow> zmq_msg_size z (identity_frame (peek lay p b3)) = 0)"
proof -
  let ?b = "tx_buffer tx"
  have b1: "pool_ok lay b1" "p \<in> held_slots lay b1" "\<And>q. peek lay q b1 = peek lay q ?b"
    using pool.get_some [OF b] g by auto
  obtain r a w' where s: "send_frames z lay (identity tx) p data n b1 w = Ret (r, poke lay p a b1, w')"
      "sent_as sent (wire_frames (padded_identity z (identity tx) (identity_frame (peek lay p ?b))) (take n data)) w r w'"
      "sent w' \<noteq> sent w \<longrightarrow> zmq_msg_size z (identity_frame a) = 0"
    using send_frames_sent [OF laws b1(1,2), of "identity tx" n data w] ident empty n by (auto simp: b1(3))
  obtain b2 b3 where r: "release_slot he lay (Some (Some p)) (poke lay p a b1) = Ret (Inr True, Some None, b2)"
      "pool_ok lay b2" "room b2 = room ?b" "get_slot lay b2 = Ret (Some p, b3)" "peek lay p b3 = a"
    using lifo.bracket_reuse [OF b, of he a] g by auto
  have "is_full ?b \<noteq> Inr True" using b(2) by (auto simp: is_full_def room_def)
  then have "tx_send_result z he lay data n tx w = Ret (r, tx\<lparr>tx_buffer := b2\<rparr>, w')"
    using g s(1) r(1) by (simp add: tx_send_result_def)
  moreover have "sent w' \<noteq> sent w \<longrightarrow> zmq_msg_size z (identity_frame (peek lay p b3)) = 0"
    using s(3) r(5) by simp
  ultimately show ?thesis using s(2) r(2-4) by blast
qed

lemma get_slot_new:
  assumes "layout_ok lay" "length raw = 10"
  shows "get_slot lay (msg_buffer_new z raw) = Ret (Some (data_addr lay 0), taken (msg_buffer_new z raw))"
proof -
  have "pool_ok lay (msg_buffer_new z raw)" "0 < room (msg_buffer_new z raw)"
    using msg_buffer_new_pool [OF assms, of z] by auto
  from get_slot_pool [OF this] show ?thesis by (simp add: msg_buffer_new_def buffer_init_def)
qed

lemmas new_slot = get_slot_new peek_msg_buffer_new msg_buffer_new_pool init_allmsg_def CLIENTS_IDS_def

lemma tx_send_first:
  assumes laws: "msg_laws z" "logs_sends z sent" and lay: "layout_ok lay" "length raw = 10"
    and tx: "tx_buffer tx = msg_buffer_new z raw" "identity tx = ident"
    and ident: "ident \<noteq> []" "length ident \<le> 7" and n: "n \<le> length data"
  shows "\<exists>r b2 b3 w'. tx_send_result z he lay data n tx w = Ret (r, tx\<lparr>tx_buffer := b2\<rparr>, w') \<and>
      sent_as sent (wire_frames (padded_identity z ident (zmq_msg_init_size z 7)) (take n data)) w r w' \<and>
      pool_ok lay b2 \<and> room b2 = room (msg_buffer_new z raw) \<and> get_slot lay b2 = Ret (Some (data_addr lay 0), b3) \<and>
      (sent w' \<noteq> sent w \<longrightarrow> zmq_msg_size z (identity_frame (peek lay (data_addr lay 0) b3)) = 0)"
proof -
  have slot: "identity_frame (peek lay (data_addr lay 0) (msg_buffer_new z raw)) = zmq_msg_init_size z 7"
      "empty_frame (peek lay (data_addr lay 0) (msg_buffer_new z raw)) = zmq_msg_init_size z 0"
    using lay by (simp_all add: new_slot numeral_eq_Suc)
  have b: "pool_ok lay (tx_buffer tx)" "0 < room (tx_buffer tx)"
      "get_slot lay (tx_buffer tx) = Ret (Some (data_addr lay 0), taken (msg_buffer_new z raw))"
    using lay by (simp_all add: tx new_slot)
  have i: "identity tx \<noteq> []"
      "length (identity tx) \<le> zmq_msg_size z (identity_frame (peek lay (data_addr lay 0) (tx_buffer tx)))"
      "zmq_msg_size z (empty_frame (peek lay (data_addr lay 0) (tx_buffer tx))) = 0"
    using ident laws(1) by (simp_all add: tx slot msg_lawsD)
  show ?thesis
    using tx_send_result_spec [OF laws b i n, of he w] unfolding tx slot .
qed

section \<open>Properties\<close>

text \<open>
  The wire format. The first send of a new transmitter returns; when it answers Ok
  the frames it put on the wire are exactly the identity (padded to the size of the
  preallocated message), an empty frame, and the chunks of the caller's bytes, none longer
  than a message and their concatenation the bytes, all frames but the last flagged as having
  a successor; when a frame fails it answers \<open>FAIL_SEND_FRAME\<close> and a proper prefix of those
  frames was sent. On every path the slot is given back.
\<close>

theorem tx_send_wire_format:
  assumes "msg_laws z" "logs_sends z sent" "layout_ok lay" "length raw = 10"
    and "ident \<noteq> []" "length ident \<le> 7" "0 < n" "n \<le> length data"
    and "tx = fst (transmitter_new z raw ident w0)"
  shows "\<exists>r tx' w'. tx_send_result z he lay data n tx w = Ret (r, tx', w') \<and>
      pool_ok lay (tx_buffer tx') \<and> room (tx_buffer tx') = 10 \<and>
      (\<exists>padding chunks.
         sent_as sent ((ident @ padding, True) # ([], True) # chunks) w r w' \<and> length (ident @ padding) = 7 \<and>
         concat (map fst chunks) = take n data \<and>
         (\<forall>c\<in>set chunks. fst c \<noteq> [] \<and> length (fst c) \<le> 302) \<and>
         length chunks = (n + 301) div 302 \<and>
         map snd chunks = replicate (length chunks - 1) True @ [False])"
proof -
  let ?b = "msg_buffer_new z raw" and ?d = "take n data"
  have tx: "tx_buffer tx = ?b" "identity tx = ident" using assms(9) by (simp_all add: transmitter_new_def)
  let ?i = "zmq_msg_init_size z 7"
  obtain r b2 w' where s: "tx_send_result z he lay data n tx w = Ret (r, tx\<lparr>tx_buffer := b2\<rparr>, w')"
      "sent_as sent (wire_frames (padded_identity z ident ?i) ?d) w r w'" "pool_ok lay b2" "room b2 = room ?b"
    using tx_send_first [OF assms(1-4) tx assms(5,6,8), of he w] by blast
  have "?d \<noteq> []" using assms(7,8) by auto
  moreover have "length (padded_identity z ident ?i) = 7"
    using assms(1,6) by (simp add: padded_identity_def msg_lawsD)
  moreover have "length (chunk_frames ?d) = (n + 301) div 302"
    using assms(8) by (simp add: length_chunk_frames DEFAULT_DATA_CHUNK_def sizeof_ipc_msg_def
        CATEGORY_LENGTH_BYTES_def DATA_LENGTH_BYTES_def)
  moreover have "DEFAULT_DATA_CHUNK = 302"
    by (simp add: DEFAULT_DATA_CHUNK_def sizeof_ipc_msg_def CATEGORY_LENGTH_BYTES_def DATA_LENGTH_BYTES_def)
  moreover have "room b2 = 10" using s(4) msg_buffer_new_pool [OF assms(3,4), of z] by simp
  ultimately show ?thesis
    using s chunk_frames_data [of ?d] chunk_frames_sizes [of _ ?d] chunk_frames_flags [of ?d]
    unfolding wire_frames_def padded_identity_def
    by (intro exI conjI) (assumption | simp)+
qed

theorem tx_send_wire_format_witness:
  "\<exists>r tx' w'. tx_send_result sim_api plain_handler \<lparr>base_addr = 0, slot_bytes = 64, data_off = 16\<rparr>
      (replicate 305 7) 303 (fst (transmitter_new sim_api (replicate 10 undefined) (bytes_of ''peerxxx'') (sim_new []))) (sim_new [])
      = Ret (r, tx', w') \<and> room (tx_buffer tx') = 10 \<and> length (replicate 305 (7::byte)) = 305"
proof -
  have "layout_ok \<lparr>base_addr = 0, slot_bytes = 64, data_off = 16\<rparr>" by (simp add: layout_ok_def)
  from tx_send_wire_format [OF sim_msg_laws sim_logs_sends this, of "replicate 10 undefined" "bytes_of ''peerxxx''" 303
      "replicate 305 7" _ "sim_new []" plain_handler "sim_new []"]
  show ?thesis by (simp add: bytes_of_def) blast
qed

text \<open>
  Only the first send works. Once a send of a new transmitter has put anything on the
  wire, the identity message of its slot is the one the library nullified; the slot is handed
  out again, nothing initialises the message again, and the next send of any bytes copies
  the identity into a message of size 0: its behaviour is undefined.
\<close>

theorem tx_second_send_undefined:
  assumes "msg_laws z" "logs_sends z sent" "layout_ok lay" "length raw = 10"
    and "ident \<noteq> []" "length ident \<le> 7" "n \<le> length data"
    and "tx = fst (transmitter_new z raw ident w0)"
    and "tx_send z he lay data n tx w = Ret (ok, tx', w')" "sent w' \<noteq> sent w"
  shows "tx_send z he lay data' n' tx' w'' = Undefined"
proof -
  have tx: "tx_buffer tx = msg_buffer_new z raw" "identity tx = ident"
    using assms(8) by (simp_all add: transmitter_new_def)
  obtain r b2 b3 where s: "tx' = tx\<lparr>tx_buffer := b2\<rparr>" "pool_ok lay b2" "room b2 = 10"
      "get_slot lay b2 = Ret (Some (data_addr lay 0), b3)"
      "zmq_msg_size z (identity_frame (peek lay (data_addr lay 0) b3)) = 0"
    using tx_send_first [OF assms(1-4) tx assms(5,6,7), of he w] assms(9,10) msg_buffer_new_pool [OF assms(3,4), of z]
    by (auto simp: tx_send_def)
  have "is_full b2 \<noteq> Inr True" using s(3) by (auto simp: is_full_def room_def)
  then show ?thesis
    using s assms(5) tx by (simp add: tx_send_def tx_send_result_def send_frames_def msg_memcpy_def)
qed

theorem tx_second_send_undefined_witness:
  "\<exists>ok tx' w'. tx_send sim_api plain_handler \<lparr>base_addr = 0, slot_bytes = 64, data_off = 16\<rparr> [1, 2] 2
       (fst (transmitter_new sim_api (replicate 10 undefined) (bytes_of ''peerxxx'') (sim_new []))) (sim_new [])
       = Ret (ok, tx', w') \<and> ok \<and> outbox w' = [(bytes_of ''peerxxx'', True), ([], True), ([1, 2], False)] \<and>
     tx_send sim_api plain_handler \<lparr>base_addr = 0, slot_bytes = 64, data_off = 16\<rparr> [3] 1 tx' w' = Undefined"
proof -
  let ?lay = "\<lparr>base_addr = 0, slot_bytes = 64, data_off = 16\<rparr>"
  let ?tx = "fst (transmitter_new sim_api (replicate 10 undefined) (bytes_of ''peerxxx'') (sim_new []))"
  have lay: "layout_ok ?lay" by (simp add: layout_ok_def)
  let ?b = "msg_buffer_new sim_api (replicate 10 undefined) :: byte list zmq_all_msg managed_buffer"
  have tx: "tx_buffer ?tx = ?b" "identity ?tx = bytes_of ''peerxxx''" by (simp_all add: transmitter_new_def)
  have chunks: "send_chunks sim_api 2 [1, 2] m w =
      Ret (Inr (), [], w\<lparr>outbox := outbox w @ [([1, 2], False)]\<rparr>)" if "\<not> send_fails w" for m w
    using that by (simp add: send_chunks.simps [of _ 2] send_chunks.simps [of _ 0] Let_def msg_memcpy_def sim_api_def
        DEFAULT_DATA_CHUNK_def sizeof_ipc_msg_def CATEGORY_LENGTH_BYTES_def DATA_LENGTH_BYTES_def)
  define w' where "w' = sim_new []\<lparr>outbox := [(bytes_of ''peerxxx'', True), ([], True), ([1, 2], False)]\<rparr>"
  have slot: "peek ?lay (data_addr ?lay 0) ?b =
      \<lparr>identity_frame = replicate 7 0, empty_frame = [], msg_frame = replicate sizeof_ipc_msg 0\<rparr>"
    using lay by (simp add: new_slot numeral_eq_Suc) (simp add: sim_api_def)
  have "\<exists>b'. send_frames sim_api ?lay (bytes_of ''peerxxx'') (data_addr ?lay 0) [1, 2] 2 (taken ?b) (sim_new [])
      = Ret (Inr (), b', w')"
    unfolding send_frames_def msg_memcpy_def
    by (simp add: slot Let_def bytes_of_def w'_def chunks sim_calls sim_new_def)
  then obtain b' where f: "send_frames sim_api ?lay (bytes_of ''peerxxx'') (data_addr ?lay 0) [1, 2] 2 (taken ?b) (sim_new [])
      = Ret (Inr (), b', w')" by blast
  have "is_full ?b \<noteq> Inr True"
    using msg_buffer_new_pool [OF lay, of "replicate 10 undefined" sim_api] by (auto simp: is_full_def room_def)
  moreover obtain r b2 w2 where "tx_send_result sim_api plain_handler ?lay [1, 2] 2 ?tx (sim_new [])
      = Ret (r, ?tx\<lparr>tx_buffer := b2\<rparr>, w2)"
    using tx_send_first [OF sim_msg_laws sim_logs_sends lay _ tx, of 2 "[1, 2]" plain_handler "sim_new []"]
    by (auto simp: bytes_of_def)
  ultimately have s: "tx_send sim_api plain_handler ?lay [1, 2] 2 ?tx (sim_new []) = Ret (True, ?tx\<lparr>tx_buffer := b2\<rparr>, w')"
    using f get_slot_new [OF lay, of "replicate 10 undefined" sim_api]
    by (auto simp: tx_send_def tx_send_result_def tx obind_eq_Ret_iff)
  moreover have "outbox w' \<noteq> outbox (sim_new [])" by (simp add: w'_def sim_new_def)
  then have "tx_send sim_api plain_handler ?lay [3] 1 (?tx\<lparr>tx_buffer := b2\<rparr>) w' = Undefined"
    by (intro tx_second_send_undefined [OF sim_msg_laws sim_logs_sends lay _ _ _ _ refl s])
      (simp_all add: bytes_of_def)
  moreover have "outbox w' = [(bytes_of ''peerxxx'', True), ([], True), ([1, 2], False)]"
    by (simp add: w'_def)
  ultimately show ?thesis using s by blast
qed

text \<open>
  The refusals of \<open>send\<close>. An empty identity, and a buffer with no slot left, are errors
  that send nothing and leave every slot as it was; an identity longer than the preallocated
  message overflows it; sending no bytes at all puts two frames on the wire that both
  announce a successor, and answers Ok.
\<close>

theorem tx_send_edge_cases:
  assumes "msg_laws z" "logs_sends z sent" "pool_ok lay (tx_buffer tx)"
  shows "(room (tx_buffer tx) = 0 \<longrightarrow>
            tx_send_result z he lay data n tx w =
              Ret (Err_sev MANAGE_BUFF_FULL ''messages buffer is full'' LOW, tx, w)) \<and>
         (0 < room (tx_buffer tx) \<longrightarrow> identity tx = [] \<longrightarrow>
            (\<exists>tx'. tx_send_result z he lay data n tx w = Ret (Err INVALID_IDENTITY ''Identity is empty'', tx', w) \<and>
                   pool_ok lay (tx_buffer tx') \<and> room (tx_buffer tx') = room (tx_buffer tx))) \<and>
         (0 < room (tx_buffer tx) \<longrightarrow>
            (\<forall>p b. get_slot lay (tx_buffer tx) = Ret (Some p, b) \<longrightarrow>
               zmq_msg_size z (identity_frame (peek lay p (tx_buffer tx))) < length (identity tx) \<longrightarrow>
               tx_send_result z he lay data n tx w = Undefined)) \<and>
         (layout_ok lay \<longrightarrow> length raw = 10 \<longrightarrow> ident \<noteq> [] \<longrightarrow> length ident = 7 \<longrightarrow>
            (\<forall>r tx' w'. tx_send_result z he lay data 0 (fst (transmitter_new z raw ident w0)) w = Ret (r, tx', w') \<longrightarrow>
               \<not> is_err r \<longrightarrow> sent w' = sent w @ [(ident, True), ([], True)]))"
proof (intro conjI impI allI)
  assume "room (tx_buffer tx) = 0"
  then have "is_full (tx_buffer tx) = Inr True"
    using assms(3) by (simp add: is_full_def room_def pool_ok_def buffer_ok_def)
  then show "tx_send_result z he lay data n tx w = Ret (Err_sev MANAGE_BUFF_FULL ''messages buffer is full'' LOW, tx, w)"
    by (simp add: tx_send_result_def)
next
  assume r: "0 < room (tx_buffer tx)" and i: "identity tx = []"
  then have full: "is_full (tx_buffer tx) \<noteq> Inr True" by (auto simp: is_full_def room_def)
  obtain p b1 where g: "get_slot lay (tx_buffer tx) = Ret (Some p, b1)" "pool_ok lay b1" "p \<in> held_slots lay b1"
      "room (tx_buffer tx) = Suc (room b1)"
    using pool.get_some [OF assms(3) r] by blast
  obtain b2 where "release_slot he lay (Some (Some p)) b1 = Ret (Inr True, Some None, b2)"
      "pool_ok lay b2" "room b2 = Suc (room b1)"
    using pool.release_held [OF g(2,3)] by blast
  with g full i show "\<exists>tx'. tx_send_result z he lay data n tx w = Ret (Err INVALID_IDENTITY ''Identity is empty'', tx', w) \<and>
      pool_ok lay (tx_buffer tx') \<and> room (tx_buffer tx') = room (tx_buffer tx)"
    by (auto simp: tx_send_result_def send_frames_def)
next
  fix p b
  assume r: "0 < room (tx_buffer tx)" and g: "get_slot lay (tx_buffer tx) = Ret (Some p, b)"
    and big: "zmq_msg_size z (identity_frame (peek lay p (tx_buffer tx))) < length (identity tx)"
  have "is_full (tx_buffer tx) \<noteq> Inr True" using r by (auto simp: is_full_def room_def)
  moreover have "peek lay p b = peek lay p (tx_buffer tx)" using pool.get_some [OF assms(3) r] g by auto
  moreover have "identity tx \<noteq> []" using big by auto
  ultimately show "tx_send_result z he lay data n tx w = Undefined"
    using g big by (simp add: tx_send_result_def send_frames_def msg_memcpy_def)
next
  fix r tx' w'
  let ?tx = "fst (transmitter_new z raw ident w0)"
  assume a: "layout_ok lay" "length raw = 10" "ident \<noteq> []" "length ident = 7"
    and s: "tx_send_result z he lay data 0 ?tx w = Ret (r, tx', w')" "\<not> is_err r"
  have tx: "tx_buffer ?tx = msg_buffer_new z raw" "identity ?tx = ident" by (simp_all add: transmitter_new_def)
  have "padded_identity z ident (zmq_msg_init_size z 7) = ident"
    using assms(1) a by (simp add: padded_identity_def msg_lawsD)
  then have "sent_as sent [(ident, True), ([], True)] w r w'"
    using tx_send_first [OF assms(1,2) a(1,2) tx a(3), of 0 data he w] a(4) s
    by (auto simp: wire_frames_def chunk_frames.simps)
  then show "sent w' = sent w @ [(ident, True), ([], True)]"
    using s(2) by (auto simp: sent_as_def is_err_iff split: sum.splits)
qed

theorem tx_send_edge_cases_witness:
  "tx_send_result sim_api plain_handler \<lparr>base_addr = 0, slot_bytes = 64, data_off = 16\<rparr> [] 0
     \<lparr>identity = [], tx_buffer = \<lparr>buffer = [], current_free = 0, used_count = 0\<rparr>\<rparr> (sim_new []) =
   Ret (Err_sev MANAGE_BUFF_FULL ''messages buffer is full'' LOW,
        \<lparr>identity = [], tx_buffer = \<lparr>buffer = [], current_free = 0, used_count = 0\<rparr>\<rparr>, sim_new [])"
proof -
  let ?b = "\<lparr>buffer = [], current_free = 0, used_count = 0\<rparr> :: byte list zmq_all_msg managed_buffer"
  have "pool_ok \<lparr>base_addr = 0, slot_bytes = 64, data_off = 16\<rparr> ?b" "room ?b = 0"
    by (simp_all add: pool_ok_def layout_ok_def buffer_ok_def canaries_ok_def free_list_def capacity_def
        room_def size_bound_def)
  then show ?thesis
    using tx_send_edge_cases [OF sim_msg_laws sim_logs_sends, of _ "\<lparr>identity = [], tx_buffer = ?b\<rparr>"] by simp
qed

text \<open>
  \<open>connect\<close> hands the library the endpoint \<open>tcp://ip:port\<close>, or \<open>ip\<close> as it stands when
  the port is 0, and answers true exactly when the library accepts it and the socket becomes
  writable within the 5 seconds of the poll; a refused endpoint is not polled. The other
  failures have the error codes of the code, of which only the refusal has a recovery action.
\<close>

theorem tx_connect_outcome:
  assumes "runs_registered he"
    and "zmq_connect z (if port = 0 then ip else ''tcp://'' @ ip @ '':'' @ show_int port) w = (rc, w1)"
    and "zmq_poll z ZMQ_POLLOUT 5000 w1 = (prc, writable, w2)"
  shows "(rc \<noteq> 0 \<longrightarrow> tx_connect z he ip port w = (False, w1)) \<and>
         (rc = 0 \<longrightarrow> snd (tx_connect z he ip port w) = w2) \<and>
         (rc = 0 \<longrightarrow> prc \<noteq> -1 \<longrightarrow> prc \<noteq> 0 \<longrightarrow> writable \<longrightarrow> fst (tx_connect z he ip port w)) \<and>
         (\<forall>e. fst (tx_connect_result z ip port w) = Inl e \<longrightarrow>
            code e = (if rc \<noteq> 0 then SOCKET_CONNECT_FAIL else if prc = -1 then FAIL_POLL_SOCKET
                      else if prc = 0 then SOCKET_TIMEOUT else MONKEY)) \<and>
         (is_err (fst (tx_connect_result z ip port w)) \<longleftrightarrow>
            \<not> (rc = 0 \<and> prc \<noteq> -1 \<and> prc \<noteq> 0 \<and> writable))"
  using assms(2,3) runs_registeredD [OF assms(1), of transmitter_drp]
  by (auto simp: tx_connect_def tx_connect_result_def tx_endpoint_def Let_def Err_def Err_sev_def
      transmitter_drp_def handle_connect_def split: if_splits)

theorem tx_connect_outcome_witness:
  "fst (tx_connect sim_api plain_handler ''127.0.0.1'' 5555 (sim_new []\<lparr>polls := [(1, True)]\<rparr>))"
  using tx_connect_outcome [OF plain_handler_runs_registered, of sim_api 5555 "''127.0.0.1''" "sim_new []\<lparr>polls := [(1, True)]\<rparr>" 0
      "sim_new []\<lparr>polls := [(1, True)]\<rparr>" 1 True "sim_new []"]
  by (simp add: sim_api_def sim_new_def)

end
