(* ===== verification/Receiver.thy ===== *)
theory Receiver
  imports Polling
begin

text \<open>
  \<open>ZMQWReceiver\<close> of \<open>core/common/receiver.h\<close> and \<open>core/receiver.cpp\<close>: the endpoint it
  binds, the CURVE server options and the polling worker with its timeout.
\<close>

section \<open>State and operations\<close>

record receiver =
  rx_addr :: string
  rx_port :: int
  rx_endpoint :: string

definition receiver_new :: "string \<Rightarrow> int \<Rightarrow> receiver" where
  "receiver_new addr port = \<lparr>rx_addr = addr, rx_port = port, rx_endpoint = ''''\<rparr>"

definition get_port :: "receiver \<Rightarrow> int" where
  "get_port rx = rx_port rx"

definition handle_bind :: bool where
  "handle_bind = False"

definition receiver_drp :: recovery_plan where
  "receiver_drp = [FAIL_BIND_SOCKET \<mapsto> handle_bind]"

definition rx_listen_endpoint :: "receiver \<Rightarrow> string" where
  "rx_listen_endpoint rx =
     (if rx_endpoint rx \<noteq> '''' then rx_endpoint rx
      else ''tcp://'' @ rx_addr rx @ '':'' @ show_int (rx_port rx))"

definition rx_listen_result :: "('m, 'w) zmq_api \<Rightarrow> receiver \<Rightarrow> 'w \<Rightarrow> void_result \<times> 'w" where
  "rx_listen_result z rx w =
     (let (rc, w') = zmq_bind z (rx_listen_endpoint rx) w in
      if rc \<noteq> 0 then (Err_sev FAIL_BIND_SOCKET ''Failed bind socket'' HIGH, w') else (Inr (), w'))"

definition rx_listen :: "('m, 'w) zmq_api \<Rightarrow> error_handler \<Rightarrow> receiver \<Rightarrow> 'w \<Rightarrow> bool \<times> 'w" where
  "rx_listen z he rx w =
     (case rx_listen_result z rx w of
        (Inl e, w') \<Rightarrow> (he receiver_drp e, w')
      | (Inr _, w') \<Rightarrow> (True, w'))"

definition rx_close_result :: void_result where
  "rx_close_result = Inr ()"

text \<open>A \<open>const char*\<close> argument is \<open>None\<close> when null.\<close>

definition set_endpoint :: "string option \<Rightarrow> receiver \<Rightarrow> bool \<times> receiver" where
  "set_endpoint endpoint rx =
     (case endpoint of
        None \<Rightarrow> (False, rx)
      | Some e \<Rightarrow> (e \<noteq> '''', rx\<lparr>rx_endpoint := e\<rparr>))"

text \<open>
  The key arguments point to byte sequences; reading more of them than there is, and reading
  \<open>has_curve\<close> when the library did not store it, are undefined behaviour.
\<close>

definition set_key_option ::
    "('m, 'w) zmq_api \<Rightarrow> zmq_option \<Rightarrow> byte list \<Rightarrow> nat \<Rightarrow> 'w \<Rightarrow> (int \<times> 'w) outcome" where
  "set_key_option z opt key n w =
     (if length key < n then Undefined else Ret (zmq_setsockopt z opt (take n key) w))"

definition set_curve_server_options ::
    "('m, 'w) zmq_api \<Rightarrow> byte list option \<Rightarrow> byte list option \<Rightarrow> nat \<Rightarrow> 'w \<Rightarrow> (bool \<times> 'w) outcome" where
  "set_curve_server_options z self_pub_key self_prv_key key_length_bytes w =
     (case (self_pub_key, self_prv_key) of
        (Some pub, Some prv) \<Rightarrow>
          let (rc, w1) = zmq_setsockopt z ZMQ_CURVE_SERVER [1, 0, 0, 0] w in
          if rc \<noteq> 0 then Ret (False, w1)
          else obind (set_key_option z ZMQ_CURVE_PUBLICKEY pub key_length_bytes w1) (\<lambda>(rc, w2).
            if rc \<noteq> 0 then Ret (False, w2)
            else obind (set_key_option z ZMQ_CURVE_SECRETKEY prv key_length_bytes w2) (\<lambda>(rc, w3).
              if rc \<noteq> 0 then Ret (False, w3)
              else case zmq_get_curve_server z w3 of
                (None, w4) \<Rightarrow> Undefined
              | (Some has_curve, w4) \<Rightarrow> Ret (has_curve, w4)))
      | _ \<Rightarrow> Ret (False, w))"

definition rx_set_sockopt :: "('m, 'w) zmq_api \<Rightarrow> zmq_option \<Rightarrow> byte list \<Rightarrow> 'w \<Rightarrow> int \<times> 'w" where
  "rx_set_sockopt z name val w = zmq_setsockopt z name val w"

text \<open>The worker: a return code of 0 is the 500 ms timeout, and the flag is read again.\<close>

partial_function (option) rx_worker ::
    "('m, 'w) zmq_api \<Rightarrow> ('w \<Rightarrow> bool) \<Rightarrow> ('w \<Rightarrow> 'w outcome) \<Rightarrow> 'w \<Rightarrow> 'w outcome option" where
  "rx_worker z until callback w =
     (if \<not> until w then Some (Ret w)
      else case zmq_poll z ZMQ_POLLIN 500 w of (rc, revents, w1) \<Rightarrow>
        if rc = 0 then rx_worker z until callback w1
        else if rc = -1 then Some (Ret w1)
        else if revents
        then (case callback w1 of Ret w2 \<Rightarrow> rx_worker z until callback w2 | Throws e \<Rightarrow> Some (Throws e)
              | Aborts \<Rightarrow> Some Aborts | Undefined \<Rightarrow> Some Undefined | Diverges \<Rightarrow> Some Diverges)
        else rx_worker z until callback w1)"

section \<open>The worker as a sequence of rounds\<close>

definition rx_event :: "('m, 'w) zmq_api \<Rightarrow> 'w \<Rightarrow> bool option \<times> 'w" where
  "rx_event z w =
     (case zmq_poll z ZMQ_POLLIN 500 w of (rc, revents, w1) \<Rightarrow>
        (if rc = 0 then Some False else if rc = -1 then None else Some revents, w1))"

lemma rx_event_None: "rx_event z w0 = (None, w) \<Longrightarrow> \<exists>ev. zmq_poll z ZMQ_POLLIN 500 w0 = (-1, ev, w)"
  by (cases "zmq_poll z ZMQ_POLLIN 500 w0") (auto simp: rx_event_def split: if_splits)

lemma rx_worker_step: "rx_worker z until callback w = round_step until (rx_event z) callback (rx_worker z until callback) w"
  by (subst rx_worker.simps) (auto simp: round_step_def rx_event_def split: prod.splits bool.splits)

lemma rx_worker_rounds:
  "rx_worker z until callback w = Some r \<Longrightarrow> \<exists>n. poll_rounds until (rx_event z) callback n w = Some r"
proof (induction rule: rx_worker.raw_induct [rotated 1, consumes 1, case_names step])
  case (step f z until callback w r)
  then have "round_step until (rx_event z) callback (f z until callback) w = Some r"
    by (auto simp: round_step_def rx_event_def split: prod.splits bool.splits)
  with step(1) show ?case by (rule rounds_of_step)
qed

interpretation rx: polling_worker "rx_worker z" "rx_event z" for z
  by unfold_locales (metis rx_worker_rounds step_of_rounds rx_worker_step)

section \<open>Properties\<close>

text \<open>
  \<open>listen\<close> binds exactly one endpoint, the one set with \<open>set_endpoint\<close> when that was a
  non-empty string and else \<open>tcp://addr:port\<close>, and answers whether the library bound it:
  the recovery action registered for the failure always answers false.
\<close>

theorem rx_listen_binds_endpoint:
  assumes "runs_registered he"
  shows "rx_listen z he (receiver_new addr port) w =
           (fst (zmq_bind z (''tcp://'' @ addr @ '':'' @ show_int port) w) = 0,
            snd (zmq_bind z (''tcp://'' @ addr @ '':'' @ show_int port) w)) \<and>
         (e \<noteq> '''' \<longrightarrow>
            fst (set_endpoint (Some e) rx) \<and>
            rx_listen z he (snd (set_endpoint (Some e) rx)) w = (fst (zmq_bind z e w) = 0, snd (zmq_bind z e w)) \<and>
            snd (set_endpoint None rx) = rx)"
  using runs_registeredD [OF assms, of receiver_drp "\<lparr>code = FAIL_BIND_SOCKET, message = ''Failed bind socket'', severity = Some HIGH\<rparr>"]
  by (auto simp: rx_listen_def rx_listen_result_def rx_listen_endpoint_def receiver_new_def set_endpoint_def
      receiver_drp_def handle_bind_def Err_sev_def Let_def split: prod.splits)

theorem rx_listen_binds_endpoint_witness:
  "fst (rx_listen sim_api plain_handler (receiver_new ''127.0.0.1'' 5555) (sim_new []))"
  using rx_listen_binds_endpoint [OF plain_handler_runs_registered, of sim_api "''127.0.0.1''" 5555 "sim_new []"]
  by (simp add: sim_api_def)

text \<open>
  The CURVE options. With both keys and enough bytes in each, the server flag, the public
  and the secret key are set in this order, stopping at the first failure; the call answers
  true exactly when all three were accepted and the library then reports a CURVE server. A
  null key changes nothing and answers false.
\<close>

theorem curve_options_order:
  assumes "zmq_setsockopt z ZMQ_CURVE_SERVER [1, 0, 0, 0] w = (rc1, w1)"
    and "zmq_setsockopt z ZMQ_CURVE_PUBLICKEY (take n pub) w1 = (rc2, w2)"
    and "zmq_setsockopt z ZMQ_CURVE_SECRETKEY (take n prv) w2 = (rc3, w3)"
    and "zmq_get_curve_server z w3 = (Some on, w4)"
    and "n \<le> length pub" "n \<le> length prv"
  shows "set_curve_server_options z (Some pub) (Some prv) n w =
           Ret (rc1 = 0 \<and> rc2 = 0 \<and> rc3 = 0 \<and> on,
                if rc1 \<noteq> 0 then w1 else if rc2 \<noteq> 0 then w2 else if rc3 \<noteq> 0 then w3 else w4) \<and>
         set_curve_server_options z None k n w = Ret (False, w) \<and>
         set_curve_server_options z k None n w = Ret (False, w)"
  using assms by (simp add: set_curve_server_options_def set_key_option_def split: option.splits)

theorem curve_options_order_witness:
  "set_curve_server_options sim_api (Some (replicate 41 1)) (Some (replicate 41 2)) 40 (sim_new []) = Ret (True, sim_new [])"
  using curve_options_order [of sim_api "sim_new []" 0 "sim_new []" 40 "replicate 41 1" 0 "sim_new []" "replicate 41 2" 0
      "sim_new []" True "sim_new []"]
  by (simp add: sim_api_def)

text \<open>
  The worker ends, in a state where the flag has been cleared or polling has failed, and
  keeps what every poll and the callback keep, whenever the flag or the polling cannot go on
  for ever: each successful round (a timeout, an event that is not a message, a message
  handled by the callback) brings some measure of the state down.
\<close>

theorem rx_worker_ends:
  assumes "\<And>v. I v \<Longrightarrow> until v \<Longrightarrow> I (snd (rx_event z v))"
    and "\<And>v. I v \<Longrightarrow> \<exists>v'. callback v = Ret v' \<and> I v' \<and> rank v' \<le> (rank v :: nat)"
    and "\<And>v. I v \<Longrightarrow> until v \<Longrightarrow> fst (rx_event z v) \<noteq> None \<Longrightarrow> rank (snd (rx_event z v)) < rank v"
    and "I w"
  shows "\<exists>w'. rx_worker z until callback w = Some (Ret w') \<and> I w' \<and>
           (\<not> until w' \<or> (\<exists>w0 ev. zmq_poll z ZMQ_POLLIN 500 w0 = (-1, ev, w')))"
proof -
  have "\<exists>w'. rx_worker z until callback w = Some (Ret w')"
  proof (rule rx.returns_when_ranked [of I until z callback rank, OF _ assms(4)])
    fix v assume v: "I v" "until v" "fst (rx_event z v) \<noteq> None"
    then show "\<exists>v'. (if fst (rx_event z v) = Some True then callback (snd (rx_event z v))
        else Ret (snd (rx_event z v))) = Ret v' \<and> I v' \<and> rank v' < rank v"
      using assms(1) [OF v(1,2)] assms(2) [of "snd (rx_event z v)"] assms(3) [OF v] by fastforce
  qed
  then obtain w' where w': "rx_worker z until callback w = Some (Ret w')" by blast
  have "I w' \<and> left_loop until (rx_event z) w'"
  proof (rule rx.keeps [OF assms(1) _ assms(4) w'])
    fix v v' assume "I v" "callback v = Ret v'"
    then show "I v'" using assms(2) [of v] by auto
  qed
  then show ?thesis
    using w' rx_event_None [of z _ w'] unfolding left_loop_def by blast
qed

theorem rx_worker_ends_witness:
  "\<exists>w'. rx_worker sim_api (\<lambda>v. True) Ret (sim_new []\<lparr>polls := [(0, False), (1, True), (-1, False)]\<rparr>) = Some (Ret w')"
proof -
  have "fst (rx_event sim_api v) \<noteq> None \<Longrightarrow> (length \<circ> polls) (snd (rx_event sim_api v)) < (length \<circ> polls) v" for v
    by (auto simp: rx_event_def sim_calls split: list.splits)
  then show ?thesis
    using rx_worker_ends [of "\<lambda>v. True" "\<lambda>v. True" sim_api Ret "length \<circ> polls"
        "sim_new []\<lparr>polls := [(0, False), (1, True), (-1, False)]\<rparr>"] by simp blast
qed

end
