(* ===== verification/SoftwareBus.thy ===== *)
theory SoftwareBus
  imports Receiver
begin

text \<open>
  \<open>ZMQBus\<close> of \<open>5thD_Software_Bus/core\<close> (\<open>inc/software_bus.h\<close>, \<open>src/software_bus.cpp\<close>): the
  router that receives a multipart message, registers its sender and forwards its payload to
  the identity registered for its destination. Slots of the message buffer are taken and given
  back exactly where the code does, the error paths that keep one included.
\<close>

section \<open>State and operations\<close>

text \<open>The table of clients, an \<open>unordered_map\<close> from \<open>int\<close> to the identity of the sender.\<close>

type_synonym clients = "(32 word \<times> byte list) list"

record 'm bus =
  bus_clients :: clients
  bus_buffer :: "'m zmq_all_msg managed_buffer"

text \<open>The constructor leaves the receiver with its endpoint set; no recovery action is registered.\<close>

definition bus_new :: "('m, 'w) zmq_api \<Rightarrow> 'm zmq_all_msg list \<Rightarrow> receiver \<Rightarrow> 'm bus \<times> receiver" where
  "bus_new z raw rx =
     (\<lparr>bus_clients = [], bus_buffer = msg_buffer_new z raw\<rparr>, snd (set_endpoint (Some IPC_ENDPOINT) rx))"

definition bus_drp :: recovery_plan where
  "bus_drp = Map.empty"

text \<open>\<open>_recv_message\<close>, which nothing calls: the error returns keep the slot.\<close>

definition bus_recv_message ::
    "('m, 'w) zmq_api \<Rightarrow> error_handler \<Rightarrow> layout \<Rightarrow> ipc_msg_t \<Rightarrow> 'm zmq_all_msg managed_buffer \<Rightarrow> 'w
       \<Rightarrow> (void_result \<times> ipc_msg_t \<times> 'm zmq_all_msg managed_buffer \<times> 'w) outcome" where
  "bus_recv_message z he lay msg b w =
     obind (get_slot lay b) (\<lambda>(request, b1). case request of
         None \<Rightarrow> Ret (Inr (), msg, b1, w)
       | Some p \<Rightarrow>
           let a = peek lay p b1; (rc, m', w1) = zmq_msg_recv z (msg_frame a) w;
               b2 = poke lay p (a\<lparr>msg_frame := m'\<rparr>) b1 in
           if rc = -1 then Ret (Err FIAIL_RECV_MSG ''Failed to receive message'', msg, b2, w1)
           else if zmq_msg_size z m' \<noteq> sizeof_ipc_msg
           then Ret (Err FIAIL_RECV_MSG ''Message size wierd :/'', msg, b2, w1)
           else obind (release_slot he lay (Some request) b2) (\<lambda>(ret, p', b3).
             Ret (Inr (), ipc_decode (take sizeof_ipc_msg (zmq_msg_data z m')), b3, w1)))"

text \<open>\<open>_send_message\<close>: no slot left is not an error, and the error returns keep the slot.\<close>

definition bus_send_frames ::
    "('m, 'w) zmq_api \<Rightarrow> layout \<Rightarrow> ipc_msg_t \<Rightarrow> byte list \<Rightarrow> int \<Rightarrow> 'm zmq_all_msg managed_buffer \<Rightarrow> 'w
       \<Rightarrow> (void_result \<times> 'm zmq_all_msg managed_buffer \<times> 'w) outcome" where
  "bus_send_frames z lay msg ident p b w =
     (let a = peek lay p b in
      obind (msg_memcpy z ident (identity_frame a)) (\<lambda>i.
        let (rc, i', w1) = zmq_msg_send z i True w; a1 = a\<lparr>identity_frame := i'\<rparr>; b1 = poke lay p a1 b in
        if rc = -1 then Ret (Err FAIL_SEND_FRAME ''Fail to send identity frame'', b1, w1)
        else let (rc, w2) = zmq_send z [] True w1 in
          if rc = -1 then Ret (Err FAIL_SEND_FRAME ''Fail to send empty frame'', b1, w2)
          else obind (msg_memcpy z (ipc_encode msg) (msg_frame a1)) (\<lambda>m.
            let (rc, m', w3) = zmq_msg_send z m False w2; b2 = poke lay p (a1\<lparr>msg_frame := m'\<rparr>) b1 in
            if rc = -1 then Ret (Err FAIL_SEND_FRAME ''Fail to send message frame'', b2, w3)
            else Ret (Inr (), b2, w3))))"

definition bus_send_message ::
    "('m, 'w) zmq_api \<Rightarrow> error_handler \<Rightarrow> layout \<Rightarrow> ipc_msg_t \<Rightarrow> byte list \<Rightarrow> 'm zmq_all_msg managed_buffer \<Rightarrow> 'w
       \<Rightarrow> (void_result \<times> 'm zmq_all_msg managed_buffer \<times> 'w) outcome" where
  "bus_send_message z he lay msg ident b w =
     obind (get_slot lay b) (\<lambda>(replay, b1). case replay of
         None \<Rightarrow> Ret (Inr (), b1, w)
       | Some p \<Rightarrow> obind (bus_send_frames z lay msg ident p b1 w) (\<lambda>(r, b2, w1).
           case r of
             Inl e \<Rightarrow> Ret (Inl e, b2, w1)
           | Inr _ \<Rightarrow> obind (release_slot he lay (Some replay) b2) (\<lambda>(ret, p', b3). Ret (Inr (), b3, w1))))"

text \<open>
  The loop that reads the frames after the identity. \<open>data\<close> is the local variable the payload
  is copied into, \<open>None\<close> while it is uninitialised; \<open>mo\<close> is the local variable \<open>more\<close>.
\<close>

partial_function (option) bus_recv_parts ::
    "('m, 'w) zmq_api \<Rightarrow> ipc_msg_t option \<Rightarrow> bool \<Rightarrow> 'w \<Rightarrow> (ipc_msg_t option \<times> 'm \<times> 'w) outcome option" where
  "bus_recv_parts z data mo w =
     (let (rc, m, w1) = zmq_msg_recv z (zmq_msg_init z) w;
          data' = (if rc = int sizeof_ipc_msg then Some (ipc_decode (take (nat rc) (zmq_msg_data z m))) else data);
          (rv, w2) = zmq_rcvmore z w1;
          mo' = (case rv of Some x \<Rightarrow> x | None \<Rightarrow> mo);
          m' = zmq_msg_close z m in
      if mo' then bus_recv_parts z data' mo' w2 else Some (Ret (data', m', w2)))"

text \<open>After the loop: print, register the sender once, look the destination up, forward.\<close>

definition bus_register :: "32 word \<Rightarrow> byte list \<Rightarrow> clients \<Rightarrow> clients" where
  "bus_register src ident cl = (if map_of cl src = None then AList.update src ident cl else cl)"

definition bus_dispatch ::
    "('m, 'w) zmq_api \<Rightarrow> error_handler \<Rightarrow> layout \<Rightarrow> ipc_msg_t option \<Rightarrow> byte list \<Rightarrow> 'm bus \<Rightarrow> 'w
       \<Rightarrow> ('m bus \<times> 'w) outcome" where
  "bus_dispatch z he lay data ident bus w =
     (case data of
        None \<Rightarrow> Undefined
      | Some d \<Rightarrow> obind (print_ipc_msg d) (\<lambda>printed.
          let bus1 = bus\<lparr>bus_clients := bus_register (src_id d) ident (bus_clients bus)\<rparr> in
          case map_of (bus_clients bus1) (dist_id d) of
            None \<Rightarrow> obind (clients_ids_at (sint (dist_id d))) (\<lambda>name. Ret (bus1, w))
          | Some dst \<Rightarrow> obind (bus_send_message z he lay d dst (bus_buffer bus1) w)
              (\<lambda>(send_ret, b', w'). Ret (bus1\<lparr>bus_buffer := b'\<rparr>, w'))))"

definition bus_handle_slot ::
    "('m, 'w) zmq_api \<Rightarrow> error_handler \<Rightarrow> layout \<Rightarrow> int \<Rightarrow> 'm bus \<Rightarrow> 'w \<Rightarrow> ('m bus \<times> 'w) outcome" where
  "bus_handle_slot z he lay p bus w =
     (let a = peek lay p (bus_buffer bus); (rc, i', w1) = zmq_msg_recv z (identity_frame a) w;
          a1 = a\<lparr>identity_frame := i'\<rparr>; bus1 = bus\<lparr>bus_buffer := poke lay p a1 (bus_buffer bus)\<rparr> in
      if rc = -1 then Ret (bus1, w1)
      else obind (of_loop (bus_recv_parts z None True w1)) (\<lambda>(data, m', w2).
        bus_dispatch z he lay data (zmq_msg_data z i')
          (bus1\<lparr>bus_buffer := poke lay p (a1\<lparr>msg_frame := m'\<rparr>) (bus_buffer bus1)\<rparr>) w2))"

definition bus_handle_msg ::
    "('m, 'w) zmq_api \<Rightarrow> error_handler \<Rightarrow> layout \<Rightarrow> 'm bus \<times> 'w \<Rightarrow> ('m bus \<times> 'w) outcome" where
  "bus_handle_msg z he lay = (\<lambda>(bus, w).
     obind (get_slot lay (bus_buffer bus)) (\<lambda>(all_msg, b1). case all_msg of
         None \<Rightarrow> Ret (bus\<lparr>bus_buffer := b1\<rparr>, w)
       | Some p \<Rightarrow> obind (bus_handle_slot z he lay p (bus\<lparr>bus_buffer := b1\<rparr>) w) (\<lambda>(bus2, w2).
           obind (release_slot he lay (Some all_msg) (bus_buffer bus2)) (\<lambda>(ret, p', b3).
             Ret (bus2\<lparr>bus_buffer := b3\<rparr>, w2)))))"

definition bus_set_security ::
    "('m, 'w) zmq_api \<Rightarrow> byte list option \<Rightarrow> byte list option \<Rightarrow> 'w \<Rightarrow> (bool \<times> 'w) outcome" where
  "bus_set_security z pub_key prv_key w = set_curve_server_options z pub_key prv_key 40 w"

text \<open>
  The flag of the polling loop is static and changed only by the signal handler:
  \<open>signals w\<close> are the signals the process has received in the state \<open>w\<close>.
\<close>

definition signal_handler :: "int \<Rightarrow> bool \<Rightarrow> bool" where
  "signal_handler sign flag = (if sign = 2 \<or> sign = 15 then False else flag)"

definition poll_flag :: "int list \<Rightarrow> bool" where
  "poll_flag sigs = fold signal_handler sigs True"

text \<open>The calls of the library on the state of the process: the bus beside the library's state.\<close>

definition on_net :: "('w \<Rightarrow> 'a \<times> 'w) \<Rightarrow> 'b \<times> 'w \<Rightarrow> 'a \<times> 'b \<times> 'w" where
  "on_net f = (\<lambda>(b, w). case f w of (x, w') \<Rightarrow> (x, b, w'))"

definition bus_poll_api :: "('m, 'w) zmq_api \<Rightarrow> ('m, 'm bus \<times> 'w) zmq_api" where
  "bus_poll_api z =
     \<lparr>zmq_msg_init = zmq_msg_init z, zmq_msg_init_size = zmq_msg_init_size z, zmq_msg_close = zmq_msg_close z,
      zmq_msg_size = zmq_msg_size z, zmq_msg_data = zmq_msg_data z, zmq_msg_fill = zmq_msg_fill z,
      zmq_msg_recv = (\<lambda>m (b, w). case zmq_msg_recv z m w of (rc, m', w') \<Rightarrow> (rc, m', b, w')),
      zmq_msg_send = (\<lambda>m mo (b, w). case zmq_msg_send z m mo w of (rc, m', w') \<Rightarrow> (rc, m', b, w')),
      zmq_send = (\<lambda>bs mo. on_net (zmq_send z bs mo)),
      zmq_rcvmore = on_net (zmq_rcvmore z),
      zmq_connect = (\<lambda>e. on_net (zmq_connect z e)), zmq_bind = (\<lambda>e. on_net (zmq_bind z e)),
      zmq_poll = (\<lambda>e t (b, w). case zmq_poll z e t w of (rc, ev, w') \<Rightarrow> (rc, ev, b, w')),
      zmq_setsockopt = (\<lambda>k v. on_net (zmq_setsockopt z k v)),
      zmq_get_curve_server = on_net (zmq_get_curve_server z)\<rparr>"

definition bus_run ::
    "('m, 'w) zmq_api \<Rightarrow> error_handler \<Rightarrow> layout \<Rightarrow> ('w \<Rightarrow> int list) \<Rightarrow> receiver \<Rightarrow> 'm bus \<Rightarrow> 'w
       \<Rightarrow> ('m bus \<times> 'w) outcome" where
  "bus_run z he lay signals rx bus w =
     (case rx_listen z he rx w of (ok, w1) \<Rightarrow>
        of_loop (rx_worker (bus_poll_api z) (\<lambda>(b, v). poll_flag (signals v)) (bus_handle_msg z he lay) (bus, w1)))"

definition bus_close :: "receiver \<Rightarrow> void_result" where
  "bus_close rx = rx_close_result"

section \<open>Receiving\<close>

text \<open>The frames of one message: the last one, and only it, has no successor.\<close>

fun multipart :: "(byte list \<times> bool) list \<Rightarrow> bool" where
  "multipart [] = False"
| "multipart ((f, mo) # fs) = (if mo then multipart fs else fs = [])"

text \<open>The payload the loop keeps: the last frame that has the size of a message.\<close>

fun payload :: "ipc_msg_t option \<Rightarrow> (byte list \<times> bool) list \<Rightarrow> ipc_msg_t option" where
  "payload data [] = data"
| "payload data ((f, mo) # fs) = payload (if length f = sizeof_ipc_msg then Some (ipc_decode f) else data) fs"

lemma bus_recv_parts_spec:
  assumes "delivers z inb flag sent"
  shows "inb w = parts @ rest \<Longrightarrow> multipart parts \<Longrightarrow>
    \<exists>m w'. bus_recv_parts z data True w = Some (Ret (payload data parts, m, w')) \<and> inb w' = rest \<and> sent w' = sent w"
proof (induction parts arbitrary: data w)
  case Nil
  then show ?case by simp
next
  case (Cons part parts)
  obtain f mo where part: "part = (f, mo)" by (cases part)
  obtain rc m w1 where r1: "zmq_msg_recv z (zmq_msg_init z) w = (rc, m, w1)" by (metis prod_cases3)
  obtain rv w2 where r2: "zmq_rcvmore z w1 = (rv, w2)" by (cases "zmq_rcvmore z w1") auto
  have d1: "rc = int (length f)" "zmq_msg_data z m = f" "inb w1 = parts @ rest" "flag w1 = mo" "sent w1 = sent w"
    using deliversD(1) [OF assms _ r1, of f mo "parts @ rest"] Cons.prems part by auto
  have d2: "rv = Some mo" "inb w2 = parts @ rest" "sent w2 = sent w"
    using deliversD(2) [OF assms r2] d1 by auto
  let ?d = "if length f = sizeof_ipc_msg then Some (ipc_decode f) else data"
  have data: "(if rc = int sizeof_ipc_msg then Some (ipc_decode (take (nat rc) (zmq_msg_data z m))) else data) = ?d"
    using d1 by simp
  have step: "bus_recv_parts z data True w =
      (if mo then bus_recv_parts z ?d True w2 else Some (Ret (?d, zmq_msg_close z m, w2)))"
    by (subst bus_recv_parts.simps) (simp only: r1 r2 d2 data Let_def prod.case option.case, simp)
  show ?case
  proof (cases mo)
    case True
    with Cons.IH [of w2 ?d] Cons.prems part d2 step show ?thesis by auto
  next
    case False
    with Cons.prems part d2 step show ?thesis by auto
  qed
qed

text \<open>
  The handler on a complete message: what is dispatched, and the state of the buffer it is
  dispatched with.
\<close>

lemma bus_handle_msg_received:
  assumes wire: "delivers z inb flag sent" "inb w = (ident, True) # parts @ rest" "multipart parts"
    and b: "pool_ok lay (bus_buffer bus)" "free_stack lay (bus_buffer bus) = p # st"
  shows "\<exists>b2 w2. bus_handle_msg z he lay (bus, w) =
      obind (bus_dispatch z he lay (payload None parts) ident (bus\<lparr>bus_buffer := b2\<rparr>) w2) (\<lambda>(bus2, w3).
        obind (release_slot he lay (Some (Some p)) (bus_buffer bus2)) (\<lambda>(ret, p', b3).
          Ret (bus2\<lparr>bus_buffer := b3\<rparr>, w3))) \<and>
      inb w2 = rest \<and> sent w2 = sent w \<and> pool_ok lay b2 \<and> p \<in> held_slots lay b2 \<and> free_stack lay b2 = st \<and>
      Suc (room b2) = room (bus_buffer bus) \<and> (\<forall>q\<in>set st. peek lay q b2 = peek lay q (bus_buffer bus))"
proof -
  let ?b = "bus_buffer bus"
  obtain b1 where g: "get_slot lay ?b = Ret (Some p, b1)" "pool_ok lay b1" "free_stack lay b1 = st"
      "p \<in> held_slots lay b1" "room ?b = Suc (room b1)" "\<And>q. peek lay q b1 = peek lay q ?b"
    using lifo.get_stack [OF b] by blast
  let ?a = "peek lay p b1"
  obtain rc i' w1 where r1: "zmq_msg_recv z (identity_frame ?a) w = (rc, i', w1)" by (metis prod_cases3)
  have d1: "rc = int (length ident)" "zmq_msg_data z i' = ident" "inb w1 = parts @ rest" "sent w1 = sent w"
    using deliversD(1) [OF wire(1,2) r1] by auto
  obtain m' w2 where r2: "bus_recv_parts z None True w1 = Some (Ret (payload None parts, m', w2))"
      "inb w2 = rest" "sent w2 = sent w1"
    using bus_recv_parts_spec [OF wire(1) d1(3) wire(3)] by blast
  let ?b2 = "poke lay p (?a\<lparr>identity_frame := i', msg_frame := m'\<rparr>) b1"
  have "bus_handle_slot z he lay p (bus\<lparr>bus_buffer := b1\<rparr>) w =
      bus_dispatch z he lay (payload None parts) ident (bus\<lparr>bus_buffer := ?b2\<rparr>) w2"
    using r1 r2(1) d1 by (simp add: bus_handle_slot_def Let_def)
  then have "bus_handle_msg z he lay (bus, w) =
      obind (bus_dispatch z he lay (payload None parts) ident (bus\<lparr>bus_buffer := ?b2\<rparr>) w2) (\<lambda>(bus2, w3).
        obind (release_slot he lay (Some (Some p)) (bus_buffer bus2)) (\<lambda>(ret, p', b3).
          Ret (bus2\<lparr>bus_buffer := b3\<rparr>, w3)))"
    using g(1) by (simp add: bus_handle_msg_def)
  moreover note s = lifo.store_held [OF g(2,4), of "?a\<lparr>identity_frame := i', msg_frame := m'\<rparr>"]
  ultimately show ?thesis using r2 d1 g s by (intro exI [of _ ?b2] exI [of _ w2]) auto
qed

section \<open>Forwarding\<close>

lemma length_ipc_encode_decode:
  "length f = sizeof_ipc_msg \<Longrightarrow> length (ipc_encode (ipc_decode f)) = sizeof_ipc_msg"
  by (simp add: ipc_encode_decode)

lemma bus_send_frames_sent:
  assumes laws: "msg_laws z" "logs_sends z sent"
    and slot: "length ident \<le> zmq_msg_size z (identity_frame (peek lay p b))"
      "zmq_msg_size z (msg_frame (peek lay p b)) = sizeof_ipc_msg"
    and len: "length (ipc_encode msg) = sizeof_ipc_msg"
  shows "\<exists>r a w'. bus_send_frames z lay msg ident p b w = Ret (r, poke lay p a b, w') \<and>
      sent_as sent [(padded_identity z ident (identity_frame (peek lay p b)), True), ([], True), (ipc_encode msg, False)] w r w' \<and>
      (sent w' \<noteq> sent w \<longrightarrow> zmq_msg_size z (identity_frame a) = 0)"
proof -
  let ?a = "peek lay p b"
  define i where "i = zmq_msg_fill z ident (identity_frame ?a)"
  have i: "msg_memcpy z ident (identity_frame ?a) = Ret i"
      "zmq_msg_data z i = padded_identity z ident (identity_frame ?a)"
    using laws slot by (simp_all add: msg_memcpy_def i_def padded_identity_def msg_lawsD)
  define m where "m = zmq_msg_fill z (ipc_encode msg) (msg_frame ?a)"
  have m: "msg_memcpy z (ipc_encode msg) (msg_frame ?a) = Ret m" "zmq_msg_data z m = ipc_encode msg"
    using laws(1) slot len by (simp_all add: msg_memcpy_def m_def fill_exact)
  obtain rc i' w1 where s1: "zmq_msg_send z i True w = (rc, i', w1)" by (metis prod_cases3)
  obtain rc2 w2 where s2: "zmq_send z [] True w1 = (rc2, w2)" by (cases "zmq_send z [] True w1") auto
  obtain rc3 m' w3 where s3: "zmq_msg_send z m False w2 = (rc3, m', w3)" by (metis prod_cases3)
  note l1 = logs_sendsD(1) [OF laws(2) s1] and l2 = logs_sendsD(2) [OF laws(2) s2] and l3 = logs_sendsD(1) [OF laws(2) s3]
  show ?thesis
  proof (cases "rc = -1")
    case True
    then have "bus_send_frames z lay msg ident p b w =
        Ret (Err FAIL_SEND_FRAME ''Fail to send identity frame'', poke lay p (?a\<lparr>identity_frame := i'\<rparr>) b, w1)"
      using i s1 by (simp add: bus_send_frames_def Let_def)
    then show ?thesis using True l1 by (auto simp: sent_as_fail)
  next
    case ok1: False
    then have nullified: "zmq_msg_size z i' = 0" using msg_lawsD(5) [OF laws(1) s1] by simp
    have w1: "sent w1 = sent w @ [(padded_identity z ident (identity_frame ?a), True)]" using l1 ok1 i by simp
    show ?thesis
    proof (cases "rc2 = -1")
      case True
      then have "bus_send_frames z lay msg ident p b w =
          Ret (Err FAIL_SEND_FRAME ''Fail to send empty frame'', poke lay p (?a\<lparr>identity_frame := i'\<rparr>) b, w2)"
        using i s1 s2 ok1 by (simp add: bus_send_frames_def Let_def)
      moreover have "sent_as sent [(padded_identity z ident (identity_frame ?a), True), ([], True), (ipc_encode msg, False)]
          w (Err FAIL_SEND_FRAME ''Fail to send empty frame'') w2"
        by (rule sent_as_Cons [where ?w1.0 = w1], rule w1, rule sent_as_fail) (use True l2 in simp_all)
      ultimately show ?thesis using nullified by auto
    next
      case ok2: False
      have w2: "sent w2 = sent w1 @ [([], True)]" using l2 ok2 by simp
      have code: "bus_send_frames z lay msg ident p b w =
          Ret (if rc3 = -1 then Err FAIL_SEND_FRAME ''Fail to send message frame'' else Inr (),
               poke lay p (?a\<lparr>identity_frame := i', msg_frame := m'\<rparr>) b, w3)"
        using i m s1 s2 s3 ok1 ok2 by (simp add: bus_send_frames_def Let_def)
      have "sent_as sent [(ipc_encode msg, False)] w2
          (if rc3 = -1 then Err FAIL_SEND_FRAME ''Fail to send message frame'' else Inr ()) w3"
        using l3 m by (auto simp: sent_as_fail sent_as_done intro: sent_as_Cons)
      then have "sent_as sent [(padded_identity z ident (identity_frame ?a), True), ([], True), (ipc_encode msg, False)]
          w (if rc3 = -1 then Err FAIL_SEND_FRAME ''Fail to send message frame'' else Inr ()) w3"
        by (rule sent_as_Cons [where ?w1.0 = w1, OF w1 sent_as_Cons [where ?w1.0 = w2, OF w2]])
      then show ?thesis using code nullified by (auto simp del: if_split)
    qed
  qed
qed

text \<open>\<open>_send_message\<close>: the slot comes back only when every frame was sent.\<close>

lemma bus_send_message_spec:
  assumes laws: "msg_laws z" "logs_sends z sent"
    and b: "pool_ok lay b" "free_stack lay b = q # st"
    and slot: "length ident \<le> zmq_msg_size z (identity_frame (peek lay q b))"
      "zmq_msg_size z (msg_frame (peek lay q b)) = sizeof_ipc_msg"
    and len: "length (ipc_encode msg) = sizeof_ipc_msg"
  shows "\<exists>r b' w'. bus_send_message z he lay msg ident b w = Ret (r, b', w') \<and> pool_ok lay b' \<and>
      held_slots lay b \<subseteq> held_slots lay b' \<and>
      sent_as sent [(padded_identity z ident (identity_frame (peek lay q b)), True), ([], True), (ipc_encode msg, False)] w r w' \<and>
      (if is_err r then free_stack lay b' = st \<and> Suc (room b') = room b
       else free_stack lay b' = q # st \<and> room b' = room b \<and> zmq_msg_size z (identity_frame (peek lay q b')) = 0)"
proof -
  obtain b1 where g: "get_slot lay b = Ret (Some q, b1)" "pool_ok lay b1" "free_stack lay b1 = st"
      "held_slots lay b1 = insert q (held_slots lay b)" "q \<notin> held_slots lay b" "room b = Suc (room b1)"
      "\<And>q'. peek lay q' b1 = peek lay q' b"
    using lifo.get_stack [OF b] by blast
  have q: "q \<in> held_slots lay b1" using g(4) by simp
  obtain r a w' where f: "bus_send_frames z lay msg ident q b1 w = Ret (r, poke lay q a b1, w')"
      "sent_as sent [(padded_identity z ident (identity_frame (peek lay q b)), True), ([], True), (ipc_encode msg, False)] w r w'"
      "sent w' \<noteq> sent w \<longrightarrow> zmq_msg_size z (identity_frame a) = 0"
    using bus_send_frames_sent [OF laws, of ident lay q b1 msg w] slot len by (auto simp: g(7))
  have s: "pool_ok lay (poke lay q a b1)" "held_slots lay (poke lay q a b1) = held_slots lay b1"
      "room (poke lay q a b1) = room b1" "free_stack lay (poke lay q a b1) = st" "peek lay q (poke lay q a b1) = a"
    using lifo.store_held [OF g(2) q, of a] g(3) by simp_all
  show ?thesis
  proof (cases "is_err r")
    case True
    then obtain e where "r = Inl e" by (auto simp: is_err_iff)
    with g f s show ?thesis by (auto simp: bus_send_message_def)
  next
    case False
    then have r: "r = Inr ()" by (cases r) auto
    obtain b3 where rel: "release_slot he lay (Some (Some q)) (poke lay q a b1) = Ret (Inr True, Some None, b3)"
        "pool_ok lay b3" "free_stack lay b3 = q # st" "held_slots lay b3 = held_slots lay b1 - {q}"
        "room b3 = Suc (room b1)" "peek lay q b3 = a"
      using lifo.release_stack [OF s(1), of q he] q s(2-5) by auto
    have "zmq_msg_size z (identity_frame a) = 0" using f(2,3) r by (simp add: sent_as_def)
    moreover have "bus_send_message z he lay msg ident b w = Ret (Inr (), b3, w')"
      using g(1) f(1) r rel(1) by (simp add: bus_send_message_def)
    ultimately show ?thesis using f(2) r rel g by auto
  qed
qed

lemma payload_frame:
  "payload data parts = Some d \<Longrightarrow> data = Some d \<or> (\<exists>f mo. (f, mo) \<in> set parts \<and> length f = sizeof_ipc_msg \<and> ipc_decode f = d)"
proof (induction parts arbitrary: data)
  case Nil
  then show ?case by simp
next
  case (Cons part parts)
  obtain f mo where part: "part = (f, mo)" by (cases part)
  show ?case
  proof (cases "length f = sizeof_ipc_msg")
    case True
    with Cons.prems part have "payload (Some (ipc_decode f)) parts = Some d" by simp
    from Cons.IH [OF this] True part show ?thesis by auto
  next
    case False
    with Cons.prems part have "payload data parts = Some d" by simp
    from Cons.IH [OF this] part show ?thesis by auto
  qed
qed

text \<open>A complete message in the inbox, and what its handler dispatches on.\<close>

definition incoming ::
    "('w \<Rightarrow> (byte list \<times> bool) list) \<Rightarrow> byte list \<Rightarrow> (byte list \<times> bool) list \<Rightarrow> ipc_msg_t \<Rightarrow> 'w \<Rightarrow> bool" where
  "incoming inb ident parts d w \<longleftrightarrow>
     (\<exists>rest. inb w = (ident, True) # parts @ rest) \<and> multipart parts \<and> payload None parts = Some d \<and>
     0 \<in> set (category d)"

lemma incoming_payload:
  "incoming inb ident parts d w \<Longrightarrow>
   \<exists>f mo. (f, mo) \<in> set parts \<and> length f = sizeof_ipc_msg \<and> ipc_decode f = d \<and> ipc_encode d = f"
  using payload_frame [of None parts d] by (auto simp: incoming_def ipc_encode_decode)

lemma print_ipc_msg_ok: "0 \<in> set (category d) \<Longrightarrow> \<exists>s. print_ipc_msg d = Ret s"
  by (simp add: print_ipc_msg_def)

text \<open>The handler on a complete message whose destination is registered.\<close>

lemma bus_forward_spec:
  assumes "msg_laws z" "logs_sends z sent" "delivers z inb flag sent"
    and "pool_ok lay (bus_buffer bus)" "free_stack lay (bus_buffer bus) = p # q # st"
    and "incoming inb ident parts d w"
    and "map_of (bus_register (src_id d) ident (bus_clients bus)) (dist_id d) = Some dst"
    and "length dst \<le> zmq_msg_size z (identity_frame (peek lay q (bus_buffer bus)))"
    and "zmq_msg_size z (msg_frame (peek lay q (bus_buffer bus))) = sizeof_ipc_msg"
  shows "\<exists>r b3 w'. bus_handle_msg z he lay (bus, w) =
        Ret (bus\<lparr>bus_clients := bus_register (src_id d) ident (bus_clients bus), bus_buffer := b3\<rparr>, w') \<and>
      pool_ok lay b3 \<and>
      sent_as sent [(padded_identity z dst (identity_frame (peek lay q (bus_buffer bus))), True), ([], True), (ipc_encode d, False)] w r w' \<and>
      (if is_err r then Suc (room b3) = room (bus_buffer bus)
       else room b3 = room (bus_buffer bus) \<and> free_stack lay b3 = p # q # st \<and>
            zmq_msg_size z (identity_frame (peek lay q b3)) = 0)"
proof -
  let ?b = "bus_buffer bus" and ?cl = "bus_register (src_id d) ident (bus_clients bus)"
  obtain rest where inc: "inb w = (ident, True) # parts @ rest" "multipart parts" "payload None parts = Some d"
      "0 \<in> set (category d)"
    using assms(6) by (auto simp: incoming_def)
  obtain f mo where f: "(f, mo) \<in> set parts" "length f = sizeof_ipc_msg" "ipc_decode f = d" "ipc_encode d = f"
    using incoming_payload [OF assms(6)] by blast
  obtain b2 w2 where h: "bus_handle_msg z he lay (bus, w) =
      obind (bus_dispatch z he lay (Some d) ident (bus\<lparr>bus_buffer := b2\<rparr>) w2) (\<lambda>(bus2, w3).
        obind (release_slot he lay (Some (Some p)) (bus_buffer bus2)) (\<lambda>(ret, p', b3).
          Ret (bus2\<lparr>bus_buffer := b3\<rparr>, w3)))" "sent w2 = sent w"
      "pool_ok lay b2" "p \<in> held_slots lay b2" "free_stack lay b2 = q # st" "Suc (room b2) = room ?b"
      "peek lay q b2 = peek lay q ?b"
    using bus_handle_msg_received [OF assms(3) inc(1,2) assms(4,5), of he] inc(3) by auto
  let ?i = "identity_frame (peek lay q ?b)"
  obtain r b' w' where s: "bus_send_message z he lay d dst b2 w2 = Ret (r, b', w')" "pool_ok lay b'"
      "held_slots lay b2 \<subseteq> held_slots lay b'"
      "sent_as sent [(padded_identity z dst ?i, True), ([], True), (ipc_encode d, False)] w2 r w'"
      "if is_err r then free_stack lay b' = st \<and> Suc (room b') = room b2
       else free_stack lay b' = q # st \<and> room b' = room b2 \<and> zmq_msg_size z (identity_frame (peek lay q b')) = 0"
    using bus_send_message_spec [OF assms(1,2) h(3,5), of dst d he w2] assms(8,9) h(7) f(2,4) by auto
  have p: "p \<in> held_slots lay b'" using h(4) s(3) by auto
  obtain b3 where rel: "release_slot he lay (Some (Some p)) b' = Ret (Inr True, Some None, b3)" "pool_ok lay b3"
      "free_stack lay b3 = p # free_stack lay b'" "room b3 = Suc (room b')" "peek lay q b3 = peek lay q b'"
    using lifo.release_stack [OF s(2) p, of he] by auto
  obtain printed where "print_ipc_msg d = Ret printed" using print_ipc_msg_ok [OF inc(4)] by blast
  then have code: "bus_handle_msg z he lay (bus, w) = Ret (bus\<lparr>bus_clients := ?cl, bus_buffer := b3\<rparr>, w')"
    using h(1) s(1) assms(7) rel(1) by (simp add: bus_dispatch_def Let_def)
  have "sent_as sent [(padded_identity z dst ?i, True), ([], True), (ipc_encode d, False)] w r w'"
    using s(4) sent_as_from [where sent = sent and v = w2 and w = w] h(2) by simp
  moreover have "if is_err r then Suc (room b3) = room ?b
      else room b3 = room ?b \<and> free_stack lay b3 = p # q # st \<and> zmq_msg_size z (identity_frame (peek lay q b3)) = 0"
    using s(5) rel(3-5) h(6) by (auto split: if_splits)
  ultimately show ?thesis using code rel(2) by blast
qed

text \<open>The handler when the forward's slot holds a nullified identity message.\<close>

lemma bus_nullified_slot_undefined:
  assumes "msg_laws z" "logs_sends z sent" "delivers z inb flag sent"
    and "pool_ok lay (bus_buffer bus)" "free_stack lay (bus_buffer bus) = p # q # st"
    and "zmq_msg_size z (identity_frame (peek lay q (bus_buffer bus))) = 0"
    and "incoming inb ident parts d w"
    and "map_of (bus_register (src_id d) ident (bus_clients bus)) (dist_id d) = Some dst" "dst \<noteq> []"
  shows "bus_handle_msg z he lay (bus, w) = Undefined"
proof -
  obtain rest where inc: "inb w = (ident, True) # parts @ rest" "multipart parts" "payload None parts = Some d"
      "0 \<in> set (category d)"
    using assms(7) by (auto simp: incoming_def)
  obtain b2 w2 where h: "bus_handle_msg z he lay (bus, w) =
      obind (bus_dispatch z he lay (Some d) ident (bus\<lparr>bus_buffer := b2\<rparr>) w2) (\<lambda>(bus2, w3).
        obind (release_slot he lay (Some (Some p)) (bus_buffer bus2)) (\<lambda>(ret, p', b3).
          Ret (bus2\<lparr>bus_buffer := b3\<rparr>, w3)))"
      "pool_ok lay b2" "free_stack lay b2 = q # st" "peek lay q b2 = peek lay q (bus_buffer bus)"
    using bus_handle_msg_received [OF assms(3) inc(1,2) assms(4,5), of he] inc(3) by auto
  obtain b1 where "get_slot lay b2 = Ret (Some q, b1)" "peek lay q b1 = peek lay q b2"
    using lifo.get_stack [OF h(2,3)] by blast
  then have "bus_send_message z he lay d dst b2 w2 = Undefined"
    using assms(6,9) h(4) by (simp add: bus_send_message_def bus_send_frames_def msg_memcpy_def Let_def)
  moreover obtain printed where "print_ipc_msg d = Ret printed" using print_ipc_msg_ok [OF inc(4)] by blast
  ultimately have "bus_dispatch z he lay (Some d) ident (bus\<lparr>bus_buffer := b2\<rparr>) w2 = Undefined"
    using assms(8) by (simp add: bus_dispatch_def Let_def)
  with h(1) show ?thesis by simp
qed

lemma sizeof_302: "sizeof_ipc_msg = 302"
  by (simp add: sizeof_ipc_msg_def CATEGORY_LENGTH_BYTES_def DATA_LENGTH_BYTES_def)

section \<open>The polling flag\<close>

lemma bus_poll_failed:
  "zmq_poll (bus_poll_api z) e t v = (-1, ev, bus', w') \<Longrightarrow> zmq_poll z e t (snd v) = (-1, ev, w')"
  by (cases v) (auto simp: bus_poll_api_def split: prod.splits)

lemma poll_flag_iff: "poll_flag sigs \<longleftrightarrow> 2 \<notin> set sigs \<and> 15 \<notin> set sigs"
proof -
  have "fold signal_handler sigs f \<longleftrightarrow> f \<and> 2 \<notin> set sigs \<and> 15 \<notin> set sigs" for f
    by (induction sigs arbitrary: f) (auto simp: signal_handler_def)
  then show ?thesis by (simp add: poll_flag_def)
qed

section \<open>What every message keeps\<close>

lemma bus_send_frames_poke:
  assumes "bus_send_frames z lay msg ident p b w = Ret (r, b', w')"
  shows "\<exists>a. b' = poke lay p a b"
proof -
  let ?a = "peek lay p b"
  obtain i where i: "msg_memcpy z ident (identity_frame ?a) = Ret i"
    using assms by (auto simp: bus_send_frames_def Let_def obind_eq_Ret_iff)
  obtain rc i' w1 where s1: "zmq_msg_send z i True w = (rc, i', w1)" by (metis prod_cases3)
  obtain rc2 w2 where s2: "zmq_send z [] True w1 = (rc2, w2)" by (cases "zmq_send z [] True w1") auto
  show ?thesis
  proof (cases "rc = -1 \<or> rc2 = -1")
    case True
    with assms i s1 s2 show ?thesis by (auto simp: bus_send_frames_def Let_def split: if_splits)
  next
    case False
    then obtain m where m: "msg_memcpy z (ipc_encode msg) (msg_frame ?a) = Ret m"
      using assms i s1 s2 by (auto simp: bus_send_frames_def Let_def obind_eq_Ret_iff)
    obtain rc3 m' w3 where s3: "zmq_msg_send z m False w2 = (rc3, m', w3)" by (metis prod_cases3)
    from assms i s1 s2 m s3 False show ?thesis by (auto simp: bus_send_frames_def Let_def split: if_splits)
  qed
qed

lemma bus_send_message_keeps:
  assumes "pool_ok lay b" "bus_send_message z he lay msg ident b w = Ret (r, b', w')"
  shows "pool_ok lay b' \<and> held_slots lay b \<subseteq> held_slots lay b' \<and> room b' \<le> room b"
  using assms(1)
proof (cases rule: pool.get_cases)
  case none
  with assms show ?thesis by (simp add: bus_send_message_def)
next
  case (some p b1)
  obtain r1 b2 w1 where f: "bus_send_frames z lay msg ident p b1 w = Ret (r1, b2, w1)"
    using assms(2) some(2) by (auto simp: bus_send_message_def obind_eq_Ret_iff)
  from bus_send_frames_poke [OF f] obtain a where a: "b2 = poke lay p a b1" ..
  have p: "p \<in> held_slots lay b1" using some(5) by simp
  note s = pool.store_keeps [OF some(3) p, of a]
  have p2: "p \<in> held_slots lay b2" and ok2: "pool_ok lay b2" using s p a by simp_all
  obtain b3 where rel: "release_slot he lay (Some (Some p)) b2 = Ret (Inr True, Some None, b3)" "pool_ok lay b3"
      "held_slots lay b3 = held_slots lay b2 - {p}" "room b3 = Suc (room b2)"
    using pool.release_held [OF ok2 p2] by blast
  show ?thesis
    using assms(2) f some s a rel by (cases r1) (auto simp: bus_send_message_def)
qed

definition grows :: "clients \<Rightarrow> clients \<Rightarrow> bool" where
  "grows cl cl' \<longleftrightarrow> (\<forall>k v. map_of cl k = Some v \<longrightarrow> map_of cl' k = Some v)"

lemma grows_refl [simp]: "grows cl cl"
  by (simp add: grows_def)

lemma grows_register [simp]: "grows cl (bus_register k v cl)"
  by (auto simp: grows_def bus_register_def update_conv')

lemma bus_dispatch_keeps:
  assumes "pool_ok lay (bus_buffer bus)" "bus_dispatch z he lay data ident bus w = Ret (bus', w')"
  shows "pool_ok lay (bus_buffer bus') \<and> held_slots lay (bus_buffer bus) \<subseteq> held_slots lay (bus_buffer bus') \<and>
      room (bus_buffer bus') \<le> room (bus_buffer bus) \<and>
      (\<exists>d. data = Some d \<and> bus_clients bus' = bus_register (src_id d) ident (bus_clients bus))"
proof -
  obtain d where d: "data = Some d" using assms(2) by (auto simp: bus_dispatch_def split: option.splits)
  let ?cl = "bus_register (src_id d) ident (bus_clients bus)"
  show ?thesis
  proof (cases "map_of ?cl (dist_id d)")
    case None
    with assms d show ?thesis by (auto simp: bus_dispatch_def Let_def obind_eq_Ret_iff)
  next
    case (Some dst)
    then obtain r b' where s: "bus_send_message z he lay d dst (bus_buffer bus) w = Ret (r, b', w')"
        "bus' = bus\<lparr>bus_clients := ?cl, bus_buffer := b'\<rparr>"
      using assms(2) d by (auto simp: bus_dispatch_def Let_def obind_eq_Ret_iff)
    from bus_send_message_keeps [OF assms(1) s(1)] s(2) d show ?thesis by simp
  qed
qed

text \<open>
  Whatever the library answers: the pool stays well formed, no slot comes back that the
  handler did not take, and no registration changes.
\<close>

lemma bus_handle_msg_keeps:
  assumes "pool_ok lay (bus_buffer bus)" "bus_handle_msg z he lay (bus, w) = Ret (bus', w')"
  shows "pool_ok lay (bus_buffer bus') \<and> room (bus_buffer bus') \<le> room (bus_buffer bus) \<and>
      grows (bus_clients bus) (bus_clients bus')"
  using assms(1)
proof (cases rule: pool.get_cases)
  case none
  with assms show ?thesis by (simp add: bus_handle_msg_def)
next
  case (some p b1)
  obtain bus2 w2 ret p' b3 where h: "bus_handle_slot z he lay p (bus\<lparr>bus_buffer := b1\<rparr>) w = Ret (bus2, w2)"
      "release_slot he lay (Some (Some p)) (bus_buffer bus2) = Ret (ret, p', b3)" "bus' = bus2\<lparr>bus_buffer := b3\<rparr>"
    using assms(2) some(2) by (auto simp: bus_handle_msg_def obind_eq_Ret_iff)
  have p: "p \<in> held_slots lay b1" using some(5) by simp
  have keep: "pool_ok lay (bus_buffer bus2) \<and> p \<in> held_slots lay (bus_buffer bus2) \<and>
      room (bus_buffer bus2) \<le> room b1 \<and> grows (bus_clients bus) (bus_clients bus2)"
  proof -
    note s = pool.store_keeps [OF some(3) p]
    obtain rc i' w1 where r1: "zmq_msg_recv z (identity_frame (peek lay p b1)) w = (rc, i', w1)" by (metis prod_cases3)
    show ?thesis
    proof (cases "rc = -1")
      case True
      with h(1) r1 s p show ?thesis by (auto simp: bus_handle_slot_def Let_def)
    next
      case False
      then obtain data m' w3 a where "bus_dispatch z he lay data (zmq_msg_data z i') (bus\<lparr>bus_buffer := poke lay p a b1\<rparr>) w3 = Ret (bus2, w2)"
        using h(1) r1 by (auto simp: bus_handle_slot_def Let_def obind_eq_Ret_iff)
      from bus_dispatch_keeps [OF _ this] s [of a] p show ?thesis by auto
    qed
  qed
  then obtain b4 where "release_slot he lay (Some (Some p)) (bus_buffer bus2) = Ret (Inr True, Some None, b4)"
      "pool_ok lay b4" "room b4 = Suc (room (bus_buffer bus2))"
    using pool.release_held by blast
  with h keep some(6) show ?thesis by simp
qed

section \<open>A new bus\<close>

lemma free_stack_new:
  assumes "layout_ok lay" "length raw = 10"
  shows "\<exists>st. free_stack lay (msg_buffer_new z raw) = data_addr lay 0 # data_addr lay 1 # st"
proof -
  have "free_list (msg_buffer_new z raw) = [0..<10]"
    unfolding free_list_def
    by (subst chain_init [where N = 10]) (use assms(2) in \<open>auto simp: msg_buffer_new_def buffer_init_def capacity_def\<close>)
  then show ?thesis by (simp add: free_stack_def upt_rec)
qed

lemma new_slot_frames:
  assumes "msg_laws z" "layout_ok lay" "length raw = 10"
  shows "zmq_msg_size z (identity_frame (peek lay (data_addr lay 1) (msg_buffer_new z raw))) = 7"
    and "zmq_msg_size z (msg_frame (peek lay (data_addr lay 1) (msg_buffer_new z raw))) = sizeof_ipc_msg"
  using assms by (simp_all add: peek_msg_buffer_new init_allmsg_def CLIENTS_IDS_def msg_lawsD)

text \<open>A request of the peer to the manager through the simulated socket.\<close>

definition example_request :: "byte list" where
  "example_request = ipc_encode (ipc_msg 1 1 0)"

lemma example_request_facts:
  "length example_request = sizeof_ipc_msg" "ipc_decode example_request = ipc_msg 1 1 0"
  "0 \<in> set (category (ipc_msg 1 1 0))" "src_id (ipc_msg 1 1 0) = 1" "dist_id (ipc_msg 1 1 0) = 1"
proof -
  have wf: "ipc_wf (ipc_msg 1 1 0)"
    using ipc_wf_decode [of "replicate sizeof_ipc_msg 0"] by (simp add: ipc_wf_def ipc_msg_def)
  then show "length example_request = sizeof_ipc_msg" "ipc_decode example_request = ipc_msg 1 1 0"
    by (simp_all add: example_request_def length_ipc_encode ipc_decode_encode)
  show "0 \<in> set (category (ipc_msg 1 1 0))" "src_id (ipc_msg 1 1 0) = 1" "dist_id (ipc_msg 1 1 0) = 1"
    by (simp_all add: ipc_msg_def ipc_decode_def sizeof_ipc_msg_def CATEGORY_LENGTH_BYTES_def DATA_LENGTH_BYTES_def)
qed

definition example_world :: sim where
  "example_world = sim_new [(bytes_of ''peerxxx'', True), ([], True), (example_request, False)]"

lemma example_incoming:
  "incoming inbox (bytes_of ''peerxxx'') [([], True), (example_request, False)] (ipc_msg 1 1 0) example_world"
  using example_request_facts by (simp add: incoming_def example_world_def sim_new_def sizeof_ipc_msg_def)

abbreviation example_layout :: layout where
  "example_layout \<equiv> \<lparr>base_addr = 0, slot_bytes = 64, data_off = 16\<rparr>"

lemma example_layout_ok: "layout_ok example_layout"
  by (simp add: layout_ok_def)

definition example_bus :: "byte list bus" where
  "example_bus = fst (bus_new sim_api (replicate 10 \<lparr>identity_frame = [], empty_frame = [], msg_frame = []\<rparr>)
     (receiver_new ''ipcrout'' 0))"

lemma example_bus_facts:
  "pool_ok example_layout (bus_buffer example_bus)" "room (bus_buffer example_bus) = 10" "bus_clients example_bus = []"
  "\<exists>st. free_stack example_layout (bus_buffer example_bus) = data_addr example_layout 0 # data_addr example_layout 1 # st"
  "zmq_msg_size sim_api (identity_frame (peek example_layout (data_addr example_layout 1) (bus_buffer example_bus))) = 7"
  "zmq_msg_size sim_api (msg_frame (peek example_layout (data_addr example_layout 1) (bus_buffer example_bus))) = sizeof_ipc_msg"
  using msg_buffer_new_pool [OF example_layout_ok, of "replicate 10 \<lparr>identity_frame = [], empty_frame = [], msg_frame = []\<rparr>" sim_api]
    free_stack_new [OF example_layout_ok, of "replicate 10 \<lparr>identity_frame = [], empty_frame = [], msg_frame = []\<rparr>" sim_api]
    new_slot_frames [OF sim_msg_laws example_layout_ok, of "replicate 10 \<lparr>identity_frame = [], empty_frame = [], msg_frame = []\<rparr>"]
  by (simp_all add: example_bus_def bus_new_def)

lemma example_register: "map_of (bus_register 1 ident []) 1 = Some ident"
  by (simp add: bus_register_def)

lemma example_forward:
  "\<exists>bus' w'. bus_handle_msg sim_api plain_handler example_layout (example_bus, example_world) = Ret (bus', w') \<and>
     length (outbox w') = 3 \<and> bus_clients bus' = [(1, bytes_of ''peerxxx'')]"
proof -
  let ?id = "bytes_of ''peerxxx''" and ?d = "ipc_msg 1 1 0" and ?b = "bus_buffer example_bus"
  let ?p = "data_addr example_layout 0" and ?q = "data_addr example_layout 1"
  obtain st where st: "free_stack example_layout ?b = ?p # ?q # st" using example_bus_facts(4) by blast
  have reg: "map_of (bus_register (src_id ?d) ?id (bus_clients example_bus)) (dist_id ?d) = Some ?id"
    by (simp only: example_request_facts example_bus_facts example_register)
  obtain r b3 w' where h: "bus_handle_msg sim_api plain_handler example_layout (example_bus, example_world) =
      Ret (example_bus\<lparr>bus_clients := bus_register (src_id ?d) ?id (bus_clients example_bus), bus_buffer := b3\<rparr>, w')"
    using bus_forward_spec [OF sim_msg_laws sim_logs_sends sim_delivers example_bus_facts(1) st example_incoming reg _
        example_bus_facts(6), of plain_handler] example_bus_facts(5) by auto
  obtain b1 where g1: "get_slot example_layout ?b = Ret (Some ?p, b1)" "pool_ok example_layout b1"
      "free_stack example_layout b1 = ?q # st" "?p \<in> held_slots example_layout b1" "\<And>q. peek example_layout q b1 = peek example_layout q ?b"
    using lifo.get_stack [OF example_bus_facts(1) st] by blast
  define w2 where "w2 = example_world\<lparr>inbox := [], last_more := False\<rparr>"
  obtain a where slot: "bus_handle_slot sim_api plain_handler example_layout ?p (example_bus\<lparr>bus_buffer := b1\<rparr>) example_world =
      bus_dispatch sim_api plain_handler example_layout (Some ?d) ?id (example_bus\<lparr>bus_buffer := poke example_layout ?p a b1\<rparr>) w2"
    using example_request_facts(1,2)
    by (simp add: bus_handle_slot_def Let_def sim_calls example_world_def sim_new_def w2_def
        bus_recv_parts.simps [of _ None] bus_recv_parts.simps [of _ _ True] sizeof_ipc_msg_def)
  let ?b2 = "poke example_layout ?p a b1"
  note s2 = lifo.store_held [OF g1(2,4), of a]
  obtain b4 where g2: "get_slot example_layout ?b2 = Ret (Some ?q, b4)" "\<And>q. peek example_layout q b4 = peek example_layout q ?b2"
    using lifo.get_stack [of example_layout ?b2 ?q st] s2 g1(3) by auto
  have q: "peek example_layout ?q b4 = peek example_layout ?q ?b" using s2 g1 g2(2) by simp
  have "\<exists>b5. bus_send_frames sim_api example_layout ?d ?id ?q b4 w2 =
      Ret (Inr (), b5, w2\<lparr>outbox := [(?id, True), ([], True), (ipc_encode ?d, False)]\<rparr>)"
    using example_bus_facts(5,6) example_request_facts(1)
    by (simp add: bus_send_frames_def q msg_memcpy_def sim_calls Let_def w2_def example_world_def sim_new_def
        bytes_of_def example_request_def del: One_nat_def)
  with h slot g1(1) g2(1) reg have "length (outbox w') = 3"
    by (auto simp: bus_handle_msg_def bus_dispatch_def bus_send_message_def Let_def obind_eq_Ret_iff)
  with h show ?thesis by (simp add: example_request_facts example_bus_facts bus_register_def)
qed

section \<open>Properties\<close>

text \<open>
  C26. Routing, for the first forward through a slot. A complete message arrives, its destination is
  registered (the sender's own registration, made first, included), and the slot \<open>q\<close> that the
  forward will get still has the messages that \<open>init_allmsg\<close> initialised: an identity message
  at least as long as the destination's identity, and a payload message of the payload's size. Then
  the handler returns and puts exactly three frames on the wire: an identity frame, which is the
  destination's identity followed by what the slot's identity message holds behind it, up to the size
  that message was given; an empty frame; and the very bytes of the received payload. Or, when the
  library refuses a frame, a proper prefix of these. The sender is registered under its source id if
  that id was new. When the forward fails, one slot is lost. When it succeeds every slot comes back,
  but the slot \<open>q\<close> is then spent: sending has emptied its identity message, which nothing initialises
  again, and the next complete message for a registered destination makes the handler write past
  the end of it.
\<close>

theorem bus_forwards_message:
  assumes "msg_laws z" "logs_sends z sent" "delivers z inb flag sent"
    and "pool_ok lay (bus_buffer bus)" "free_stack lay (bus_buffer bus) = p # q # st"
    and "incoming inb ident parts d w"
    and "map_of (bus_register (src_id d) ident (bus_clients bus)) (dist_id d) = Some dst"
    and "length dst \<le> zmq_msg_size z (identity_frame (peek lay q (bus_buffer bus)))"
    and "zmq_msg_size z (msg_frame (peek lay q (bus_buffer bus))) = sizeof_ipc_msg"
  shows "\<exists>r bus' w'. bus_handle_msg z he lay (bus, w) = Ret (bus', w') \<and>
      bus_clients bus' = bus_register (src_id d) ident (bus_clients bus) \<and> pool_ok lay (bus_buffer bus') \<and>
      (\<exists>padding f mo. (f, mo) \<in> set parts \<and> length f = 302 \<and> ipc_decode f = d \<and>
         length padding = zmq_msg_size z (identity_frame (peek lay q (bus_buffer bus))) - length dst \<and>
         sent_as sent [(dst @ padding, True), ([], True), (f, False)] w r w') \<and>
      (if is_err r then Suc (room (bus_buffer bus')) = room (bus_buffer bus)
       else room (bus_buffer bus') = room (bus_buffer bus) \<and>
            free_stack lay (bus_buffer bus') = free_stack lay (bus_buffer bus) \<and>
            zmq_msg_size z (identity_frame (peek lay q (bus_buffer bus'))) = 0 \<and>
            (\<forall>ident2 parts2 d2 w2 dst2. incoming inb ident2 parts2 d2 w2 \<longrightarrow> dst2 \<noteq> [] \<longrightarrow>
               map_of (bus_register (src_id d2) ident2 (bus_clients bus')) (dist_id d2) = Some dst2 \<longrightarrow>
               bus_handle_msg z he lay (bus', w2) = Undefined))"
proof -
  let ?i = "identity_frame (peek lay q (bus_buffer bus))"
  obtain f mo where f: "(f, mo) \<in> set parts" "length f = sizeof_ipc_msg" "ipc_decode f = d" "ipc_encode d = f"
    using incoming_payload [OF assms(6)] by blast
  obtain r b3 w' where h: "bus_handle_msg z he lay (bus, w) =
        Ret (bus\<lparr>bus_clients := bus_register (src_id d) ident (bus_clients bus), bus_buffer := b3\<rparr>, w')"
      "pool_ok lay b3" "sent_as sent [(padded_identity z dst ?i, True), ([], True), (ipc_encode d, False)] w r w'"
      "if is_err r then Suc (room b3) = room (bus_buffer bus)
       else room b3 = room (bus_buffer bus) \<and> free_stack lay b3 = p # q # st \<and>
            zmq_msg_size z (identity_frame (peek lay q b3)) = 0"
    using bus_forward_spec [OF assms, of he] by blast
  have "length (drop (length dst) (zmq_msg_data z ?i)) = zmq_msg_size z ?i - length dst"
    using assms(1) by (simp add: msg_lawsD)
  moreover have "length f = 302"
    using f(2) by (simp add: sizeof_ipc_msg_def CATEGORY_LENGTH_BYTES_def DATA_LENGTH_BYTES_def)
  ultimately have "\<exists>padding f mo. (f, mo) \<in> set parts \<and> length f = 302 \<and> ipc_decode f = d \<and>
      length padding = zmq_msg_size z ?i - length dst \<and>
      sent_as sent [(dst @ padding, True), ([], True), (f, False)] w r w'"
    using f h(3) by (intro exI [of _ "drop (length dst) (zmq_msg_data z ?i)"] exI [of _ f] exI [of _ mo])
      (simp add: padded_identity_def)
  moreover let ?bus = "bus\<lparr>bus_clients := bus_register (src_id d) ident (bus_clients bus), bus_buffer := b3\<rparr>"
  have "bus_handle_msg z he lay (?bus, w2) = Undefined"
    if "\<not> is_err r" "incoming inb ident2 parts2 d2 w2" "dst2 \<noteq> []"
      "map_of (bus_register (src_id d2) ident2 (bus_clients ?bus)) (dist_id d2) = Some dst2" for ident2 parts2 d2 w2 dst2
    using bus_nullified_slot_undefined [OF assms(1-3) _ _ _ that(2,4,3), of lay p q st he] h(2,4) that(1) by simp
  ultimately show ?thesis using h(1,2,4) assms(5)
    by (intro exI [of _ r] exI [of _ ?bus] exI [of _ w']) simp
qed

theorem bus_forwards_message_witness:
  "\<exists>bus' w'. bus_handle_msg sim_api plain_handler example_layout (example_bus, example_world) = Ret (bus', w') \<and>
     bus_clients bus' = [(1, bytes_of ''peerxxx'')] \<and> length (outbox w') = 3 \<and>
     room (bus_buffer bus') = 10 \<and> bus_handle_msg sim_api plain_handler example_layout (bus', example_world) = Undefined"
proof -
  let ?id = "bytes_of ''peerxxx''" and ?d = "ipc_msg 1 1 0"
  obtain st where st: "free_stack example_layout (bus_buffer example_bus) = data_addr example_layout 0 # data_addr example_layout 1 # st"
    using example_bus_facts(4) by blast
  obtain bus' w' where h: "bus_handle_msg sim_api plain_handler example_layout (example_bus, example_world) = Ret (bus', w')"
      "length (outbox w') = 3" "bus_clients bus' = [(1, ?id)]" using example_forward by blast
  have reg: "map_of (bus_register (src_id ?d) ?id (bus_clients example_bus)) (dist_id ?d) = Some ?id"
    by (simp only: example_request_facts example_bus_facts example_register)
  have reg2: "map_of (bus_register (src_id ?d) ?id (bus_clients bus')) (dist_id ?d) = Some ?id"
    by (simp add: h(3) bus_register_def example_request_facts)
  have size: "length ?id \<le> zmq_msg_size sim_api (identity_frame (peek example_layout (data_addr example_layout 1) (bus_buffer example_bus)))"
    using example_bus_facts(5) by (simp add: bytes_of_def)
  obtain r frames where r: "sent_as outbox frames example_world r w'" "length frames = 3"
      "\<not> is_err r \<Longrightarrow> room (bus_buffer bus') = 10"
      "\<And>ident2 parts2 d2 w2 dst2. \<not> is_err r \<Longrightarrow> incoming inbox ident2 parts2 d2 w2 \<Longrightarrow> dst2 \<noteq> [] \<Longrightarrow>
         map_of (bus_register (src_id d2) ident2 (bus_clients bus')) (dist_id d2) = Some dst2 \<Longrightarrow>
         bus_handle_msg sim_api plain_handler example_layout (bus', w2) = Undefined"
    using bus_forwards_message [OF sim_msg_laws sim_logs_sends sim_delivers example_bus_facts(1) st example_incoming reg size
        example_bus_facts(6), of plain_handler] h(1) example_bus_facts(2) by (force split: if_splits)
  have "\<not> is_err r"
    using r(1,2) h(2) by (auto simp: sent_as_def is_err_iff example_world_def sim_new_def split: sum.splits)
  with h r(3) r(4) [OF _ example_incoming _ reg2] show ?thesis by (simp add: bytes_of_def)
qed

text \<open>
  The second forward is undefined behaviour. After a message has been forwarded, the
  slot the forward used is handed out to the next forward again; its identity message is the
  one the library nullified, nothing initialises it again, and copying any identity into it
  overflows.
\<close>

theorem bus_second_forward_undefined:
  assumes "msg_laws z" "logs_sends z sent" "delivers z inb flag sent"
    and "pool_ok lay (bus_buffer bus)" "free_stack lay (bus_buffer bus) = p # q # st"
    and "incoming inb ident parts d w"
    and "map_of (bus_register (src_id d) ident (bus_clients bus)) (dist_id d) = Some dst"
    and "length dst \<le> zmq_msg_size z (identity_frame (peek lay q (bus_buffer bus)))"
    and "zmq_msg_size z (msg_frame (peek lay q (bus_buffer bus))) = sizeof_ipc_msg"
    and "bus_handle_msg z he lay (bus, w) = Ret (bus1, w1)" "length (sent w1) = length (sent w) + 3"
    and "incoming inb ident2 parts2 d2 w2"
    and "map_of (bus_register (src_id d2) ident2 (bus_clients bus1)) (dist_id d2) = Some dst2" "dst2 \<noteq> []"
  shows "bus_handle_msg z he lay (bus1, w2) = Undefined"
proof -
  obtain r b3 where h: "bus1 = bus\<lparr>bus_clients := bus_register (src_id d) ident (bus_clients bus), bus_buffer := b3\<rparr>"
      "pool_ok lay b3"
      "sent_as sent [(padded_identity z dst (identity_frame (peek lay q (bus_buffer bus))), True), ([], True), (ipc_encode d, False)] w r w1"
      "is_err r \<or> free_stack lay b3 = p # q # st \<and> zmq_msg_size z (identity_frame (peek lay q b3)) = 0"
    using bus_forward_spec [OF assms(1-9), of he] assms(10) by (auto split: if_splits)
  have "\<not> is_err r" using h(3) assms(11) by (auto simp: sent_as_def is_err_iff split: sum.splits)
  then show ?thesis
    using bus_nullified_slot_undefined [OF assms(1-3) _ _ _ assms(12,13,14), of lay p q st he] h by simp
qed

theorem bus_second_forward_undefined_witness:
  "\<exists>bus1 w1. bus_handle_msg sim_api plain_handler example_layout (example_bus, example_world) = Ret (bus1, w1) \<and>
     bus_handle_msg sim_api plain_handler example_layout (bus1, example_world) = Undefined"
proof -
  let ?id = "bytes_of ''peerxxx''" and ?d = "ipc_msg 1 1 0"
  obtain st where st: "free_stack example_layout (bus_buffer example_bus) = data_addr example_layout 0 # data_addr example_layout 1 # st"
    using example_bus_facts(4) by blast
  obtain bus1 w1 where h: "bus_handle_msg sim_api plain_handler example_layout (example_bus, example_world) = Ret (bus1, w1)"
      "length (outbox w1) = 3" and cl: "bus_clients bus1 = [(1, ?id)]"
    using example_forward by blast
  have reg: "map_of (bus_register (src_id ?d) ?id (bus_clients example_bus)) (dist_id ?d) = Some ?id"
    by (simp only: example_request_facts example_bus_facts example_register)
  have reg2: "map_of (bus_register (src_id ?d) ?id (bus_clients bus1)) (dist_id ?d) = Some ?id"
    by (simp add: cl bus_register_def example_request_facts)
  have "bus_handle_msg sim_api plain_handler example_layout (bus1, example_world) = Undefined"
    by (rule bus_second_forward_undefined [OF sim_msg_laws sim_logs_sends sim_delivers example_bus_facts(1) st
        example_incoming reg _ example_bus_facts(6) h(1) _ example_incoming reg2])
      (use h(2) example_bus_facts(5) in \<open>simp_all add: bytes_of_def example_world_def sim_new_def\<close>)
  with h(1) show ?thesis by blast
qed

text \<open>
  Registrations are stable. Whatever arrives and whatever the library answers, a message
  that is handled, and a whole run of the bus, leaves every registration as it was: the
  first sender that used an id keeps it, nobody can take it over or remove it. The pool of
  slots stays well formed and never grows back.
\<close>

theorem bus_registrations_stable:
  assumes "pool_ok lay (bus_buffer bus)"
    and "bus_handle_msg z he lay (bus, w) = Ret (bus', w') \<or> bus_run z he lay signals rx bus w = Ret (bus', w')"
  shows "(\<forall>k v. map_of (bus_clients bus) k = Some v \<longrightarrow> map_of (bus_clients bus') k = Some v) \<and>
         pool_ok lay (bus_buffer bus') \<and> room (bus_buffer bus') \<le> room (bus_buffer bus)"
proof -
  let ?I = "\<lambda>(b, v). grows (bus_clients bus) (bus_clients b) \<and> pool_ok lay (bus_buffer b) \<and> room (bus_buffer b) \<le> room (bus_buffer bus)"
  have step: "?I t" if "?I s" "bus_handle_msg z he lay s = Ret t" for s t
    using that bus_handle_msg_keeps [of lay "fst s" z he "snd s" "fst t" "snd t"]
    by (cases s; cases t) (auto simp: grows_def)
  have "?I (bus', w')"
    using assms(2)
  proof
    assume "bus_handle_msg z he lay (bus, w) = Ret (bus', w')"
    then show ?thesis using step [of "(bus, w)" "(bus', w')"] assms(1) by simp
  next
    assume run: "bus_run z he lay signals rx bus w = Ret (bus', w')"
    obtain ok w1 where "rx_listen z he rx w = (ok, w1)" by (cases "rx_listen z he rx w") auto
    with run have "rx_worker (bus_poll_api z) (\<lambda>(b, v). poll_flag (signals v)) (bus_handle_msg z he lay) (bus, w1) = Some (Ret (bus', w'))"
      by (auto simp: bus_run_def of_loop_def split: option.splits)
    from rx.keeps [where I = ?I, OF _ step _ this] show ?thesis
      using assms(1) by (auto simp: rx_event_def bus_poll_api_def split: prod.splits)
  qed
  then show ?thesis by (simp add: grows_def)
qed

theorem bus_registrations_stable_witness:
  "\<exists>bus1 w1. bus_handle_msg sim_api plain_handler example_layout (example_bus, example_world) = Ret (bus1, w1) \<and>
     room (bus_buffer bus1) \<le> 10"
proof -
  obtain bus1 w1 where h: "bus_handle_msg sim_api plain_handler example_layout (example_bus, example_world) = Ret (bus1, w1)"
    using example_forward by blast
  then show ?thesis
    using bus_registrations_stable [OF example_bus_facts(1) disjI1 [OF h]] example_bus_facts(2) by simp
qed

text \<open>
  The lost slots do not come back, and the bus goes silent. With one slot left, a message
  for a registered destination is received and its forward dropped without an error; with no
  slot left, the handler returns without even reading the message, so that the next poll
  reports it again.
\<close>

theorem bus_without_slots_is_silent:
  assumes "delivers z inb flag sent" "pool_ok lay (bus_buffer bus)"
  shows "(room (bus_buffer bus) = 0 \<longrightarrow> bus_handle_msg z he lay (bus, w) = Ret (bus, w)) \<and>
         (room (bus_buffer bus) = 1 \<longrightarrow> incoming inb ident parts d w \<longrightarrow>
            map_of (bus_register (src_id d) ident (bus_clients bus)) (dist_id d) = Some dst \<longrightarrow>
            (\<exists>bus' w'. bus_handle_msg z he lay (bus, w) = Ret (bus', w') \<and> sent w' = sent w \<and>
               room (bus_buffer bus') = 1 \<and> pool_ok lay (bus_buffer bus')))"
proof (intro conjI impI)
  assume "room (bus_buffer bus) = 0"
  from pool.get_empty [OF assms(2) this] show "bus_handle_msg z he lay (bus, w) = Ret (bus, w)"
    by (simp add: bus_handle_msg_def)
next
  assume room: "room (bus_buffer bus) = 1" and inc: "incoming inb ident parts d w"
    and dst: "map_of (bus_register (src_id d) ident (bus_clients bus)) (dist_id d) = Some dst"
  obtain rest where i: "inb w = (ident, True) # parts @ rest" "multipart parts" "payload None parts = Some d"
      "0 \<in> set (category d)"
    using inc by (auto simp: incoming_def)
  obtain p where st: "free_stack lay (bus_buffer bus) = p # []"
    using lifo.stack_room [of lay "bus_buffer bus"] room by (cases "free_stack lay (bus_buffer bus)") auto
  obtain b2 w2 where h: "bus_handle_msg z he lay (bus, w) =
      obind (bus_dispatch z he lay (Some d) ident (bus\<lparr>bus_buffer := b2\<rparr>) w2) (\<lambda>(bus2, w3).
        obind (release_slot he lay (Some (Some p)) (bus_buffer bus2)) (\<lambda>(ret, p', b3).
          Ret (bus2\<lparr>bus_buffer := b3\<rparr>, w3)))" "sent w2 = sent w"
      "pool_ok lay b2" "p \<in> held_slots lay b2" "Suc (room b2) = room (bus_buffer bus)"
    using bus_handle_msg_received [OF assms(1) i(1,2) assms(2) st, of he] i(3) by auto
  have "bus_send_message z he lay d dst b2 w2 = Ret (Inr (), b2, w2)"
    using pool.get_empty [OF h(3)] h(5) room by (simp add: bus_send_message_def)
  moreover obtain printed where "print_ipc_msg d = Ret printed" using print_ipc_msg_ok [OF i(4)] by blast
  moreover obtain b3 where "release_slot he lay (Some (Some p)) b2 = Ret (Inr True, Some None, b3)" "pool_ok lay b3"
      "room b3 = Suc (room b2)"
    using pool.release_held [OF h(3,4)] by blast
  ultimately show "\<exists>bus' w'. bus_handle_msg z he lay (bus, w) = Ret (bus', w') \<and> sent w' = sent w \<and>
      room (bus_buffer bus') = 1 \<and> pool_ok lay (bus_buffer bus')"
    using h dst room by (simp add: bus_dispatch_def Let_def)
qed

theorem bus_without_slots_is_silent_witness:
  "bus_handle_msg sim_api plain_handler example_layout
     (\<lparr>bus_clients = [], bus_buffer = \<lparr>buffer = [], current_free = 0, used_count = 0\<rparr>\<rparr>, example_world) =
   Ret (\<lparr>bus_clients = [], bus_buffer = \<lparr>buffer = [], current_free = 0, used_count = 0\<rparr>\<rparr>, example_world)"
proof -
  let ?b = "\<lparr>buffer = [], current_free = 0, used_count = 0\<rparr> :: byte list zmq_all_msg managed_buffer"
  have "pool_ok example_layout ?b" "room ?b = 0"
    by (simp_all add: pool_ok_def layout_ok_def buffer_ok_def canaries_ok_def free_list_def capacity_def
        room_def size_bound_def)
  then show ?thesis
    using bus_without_slots_is_silent [OF sim_delivers, of example_layout "\<lparr>bus_clients = [], bus_buffer = ?b\<rparr>"] by simp
qed

text \<open>
  C35. What is not a routable message. A message none of whose frames has the size of a
  payload makes the handler read an uninitialised variable; a payload whose category has no NUL
  is read past its end; an unregistered destination is dropped, unless its id is outside the
  table of client names, which is then read out of bounds.
\<close>

theorem bus_unroutable_messages:
  assumes "delivers z inb flag sent" "pool_ok lay (bus_buffer bus)" "0 < room (bus_buffer bus)"
    and "inb w = (ident, True) # parts @ rest" "multipart parts"
  shows "((\<forall>f mo. (f, mo) \<in> set parts \<longrightarrow> length f \<noteq> 302) \<longrightarrow> bus_handle_msg z he lay (bus, w) = Undefined) \<and>
         (\<forall>d. payload None parts = Some d \<longrightarrow>
            (if 0 \<notin> set (category d) then bus_handle_msg z he lay (bus, w) = Undefined
             else map_of (bus_register (src_id d) ident (bus_clients bus)) (dist_id d) = None \<longrightarrow>
               (if 0 \<le> sint (dist_id d) \<and> sint (dist_id d) < 4
                then \<exists>bus' w'. bus_handle_msg z he lay (bus, w) = Ret (bus', w') \<and> sent w' = sent w \<and>
                       inb w' = rest \<and> room (bus_buffer bus') = room (bus_buffer bus)
                else bus_handle_msg z he lay (bus, w) = Undefined)))"
proof -
  obtain p st where st: "free_stack lay (bus_buffer bus) = p # st"
    using lifo.stack_room [of lay "bus_buffer bus"] assms(3) by (cases "free_stack lay (bus_buffer bus)") auto
  obtain b2 w2 where h: "bus_handle_msg z he lay (bus, w) =
      obind (bus_dispatch z he lay (payload None parts) ident (bus\<lparr>bus_buffer := b2\<rparr>) w2) (\<lambda>(bus2, w3).
        obind (release_slot he lay (Some (Some p)) (bus_buffer bus2)) (\<lambda>(ret, p', b3).
          Ret (bus2\<lparr>bus_buffer := b3\<rparr>, w3)))"
      and w2: "inb w2 = rest" "sent w2 = sent w"
      and b2: "pool_ok lay b2" "p \<in> held_slots lay b2" "Suc (room b2) = room (bus_buffer bus)"
    using bus_handle_msg_received [OF assms(1,4,5,2) st, of he] by blast
  have "payload None parts = None" if "\<forall>f mo. (f, mo) \<in> set parts \<longrightarrow> length f \<noteq> 302"
    using that payload_frame [of None parts] sizeof_302 by (cases "payload None parts") auto
  moreover have "bus_handle_msg z he lay (bus, w) = Undefined" if "payload None parts = None"
    using h that by (simp add: bus_dispatch_def)
  moreover have "bus_handle_msg z he lay (bus, w) = Undefined"
    if "payload None parts = Some d" "0 \<notin> set (category d)" for d
    using h that by (simp add: bus_dispatch_def print_ipc_msg_def)
  moreover have "if 0 \<le> sint (dist_id d) \<and> sint (dist_id d) < 4
      then \<exists>bus' w'. bus_handle_msg z he lay (bus, w) = Ret (bus', w') \<and> sent w' = sent w \<and>
             inb w' = rest \<and> room (bus_buffer bus') = room (bus_buffer bus)
      else bus_handle_msg z he lay (bus, w) = Undefined"
    if d: "payload None parts = Some d" "0 \<in> set (category d)"
      "map_of (bus_register (src_id d) ident (bus_clients bus)) (dist_id d) = None" for d
  proof -
    obtain printed where "print_ipc_msg d = Ret printed" using print_ipc_msg_ok [OF d(2)] by blast
    moreover obtain b3 where "release_slot he lay (Some (Some p)) b2 = Ret (Inr True, Some None, b3)" "room b3 = Suc (room b2)"
      using pool.release_held [OF b2(1,2)] by blast
    ultimately show ?thesis using h w2 b2(3) d by (simp add: bus_dispatch_def Let_def clients_ids_at_def CLIENTS_IDS_def)
  qed
  ultimately show ?thesis by simp
qed

theorem bus_unroutable_messages_witness:
  "bus_handle_msg sim_api plain_handler example_layout (example_bus, sim_new [(bytes_of ''peerxxx'', True), ([1, 2], False)]) = Undefined"
  using bus_unroutable_messages [OF sim_delivers example_bus_facts(1), of "sim_new [(bytes_of ''peerxxx'', True), ([1, 2], False)]"
      "bytes_of ''peerxxx''" "[([1, 2], False)]" "[]" plain_handler]
  by (simp add: example_bus_facts sim_new_def)

text \<open>
  How a run ends. The flag is cleared exactly by SIGINT and SIGTERM, and a run of the bus
  that returns does so because one of them was received or because polling failed; a run
  started after such a signal handles nothing.
\<close>

theorem bus_run_ends_on_signal:
  "(bus_run z he lay signals rx bus w = Ret (bus', w') \<longrightarrow>
      2 \<in> set (signals w') \<or> 15 \<in> set (signals w') \<or> (\<exists>w0 ev. zmq_poll z ZMQ_POLLIN 500 w0 = (-1, ev, w'))) \<and>
   (2 \<in> set (signals (snd (rx_listen z he rx w))) \<or> 15 \<in> set (signals (snd (rx_listen z he rx w))) \<longrightarrow>
      bus_run z he lay signals rx bus w = Ret (bus, snd (rx_listen z he rx w)))"
proof -
  obtain ok w1 where l: "rx_listen z he rx w = (ok, w1)" by (cases "rx_listen z he rx w") auto
  let ?until = "\<lambda>(b, v). poll_flag (signals v)"
  have ends: "\<not> poll_flag (signals w') \<or> (\<exists>w0 ev. zmq_poll z ZMQ_POLLIN 500 w0 = (-1, ev, w'))"
    if "bus_run z he lay signals rx bus w = Ret (bus', w')"
  proof -
    have run: "rx_worker (bus_poll_api z) ?until (bus_handle_msg z he lay) (bus, w1) = Some (Ret (bus', w'))"
      using that l by (auto simp: bus_run_def of_loop_def split: option.splits)
    have "left_loop ?until (rx_event (bus_poll_api z)) (bus', w')"
      using rx.keeps [where I = "\<lambda>_. True", OF _ _ _ run] by blast
    then show ?thesis
      unfolding left_loop_def by (auto dest!: rx_event_None bus_poll_failed)
  qed
  have "rx_worker (bus_poll_api z) ?until (bus_handle_msg z he lay) (bus, w1) = Some (Ret (bus, w1))"
    if "\<not> poll_flag (signals w1)"
    using that by (intro rx.stops) simp
  then show ?thesis using ends l by (auto simp: poll_flag_iff bus_run_def)
qed

theorem bus_run_ends_on_signal_witness:
  "bus_run sim_api plain_handler example_layout (\<lambda>w. [15]) (receiver_new ''ipcrout'' 0) example_bus (sim_new []) =
   Ret (example_bus, sim_new [])"
  using bus_run_ends_on_signal [of sim_api plain_handler example_layout "\<lambda>w. [15]" "receiver_new ''ipcrout'' 0" example_bus
      "sim_new []"]
  by (simp add: rx_listen_def rx_listen_result_def sim_api_def)

end
