(* ===== verification/Apps.thy ===== *)
theory Apps
  imports Module Transmitter SoftwareBus
begin

text \<open>
  The two programs: the peer (\<open>5thD_Peer/peer_module.cpp\<close>) and the router
  (\<open>5thD_Software_Bus/soft_bus.cpp\<close>), with the client of the bus that the peer uses
  (\<open>core/common/5thdipc_client.h\<close>, \<open>core/5thdipc_client.cpp\<close>). Their \<open>main\<close> functions compose
  the operations of the other theories in the order of the source; destructors run in reverse.
\<close>

section \<open>The client of the bus\<close>

definition ipc_client_init :: "('m, 'w) zmq_api \<Rightarrow> error_handler \<Rightarrow> 'm transmitter \<Rightarrow> 'w \<Rightarrow> 'm transmitter \<times> 'w" where
  "ipc_client_init z he tx w = (let (connected, w') = tx_connect z he IPC_ENDPOINT 0 w in (tx, w'))"

definition ipc_client_send ::
    "('m, 'w) zmq_api \<Rightarrow> error_handler \<Rightarrow> layout \<Rightarrow> ipc_msg_t \<Rightarrow> 'm transmitter \<Rightarrow> 'w \<Rightarrow> ('m transmitter \<times> 'w) outcome" where
  "ipc_client_send z he lay msg tx w =
     obind (tx_send z he lay (ipc_encode msg) sizeof_ipc_msg tx w) (\<lambda>(ok, tx', w'). Ret (tx', w'))"

section \<open>The peer\<close>

definition peer_signal_handler :: "int \<Rightarrow> bool \<Rightarrow> bool" where
  "peer_signal_handler signum termination_requested = (if signum = 2 \<or> signum = 15 then False else termination_requested)"

text \<open>The flag of the loop, for the signals received so far; 1 means that none of them ends it.\<close>

definition peer_running :: "int list \<Rightarrow> bool" where
  "peer_running sigs = fold peer_signal_handler sigs True"

definition config_of :: "Clients \<Rightarrow> module_config" where
  "config_of c = \<lparr>unique_ptrs = [], client_id = c,
     conf_keys = \<lparr>key_type = CURVE25519, curve_pub = NullPtr, curve_prv = NullPtr, is_ready = False\<rparr>\<rparr>"

text \<open>
  Handing a key to the socket reads its bytes through the pointer: through null or a freed
  pointer, or past the end, that is undefined.
\<close>

definition set_key :: "('m, 'w) zmq_api \<Rightarrow> zmq_option \<Rightarrow> sec_ptr \<Rightarrow> nat \<Rightarrow> 'w \<Rightarrow> (int \<times> 'w) outcome" where
  "set_key z opt p n w =
     (case p of Buf m \<Rightarrow> if n \<le> length m then Ret (tx_set_sockopt z opt (take n m) w) else Undefined | _ \<Rightarrow> Undefined)"

text \<open>A failing option is only logged. \<open>c_str()\<close> can be read up to its NUL.\<close>

definition peer_secure :: "('m, 'w) zmq_api \<Rightarrow> byte list \<Rightarrow> keys_info \<Rightarrow> 'w \<Rightarrow> 'w outcome" where
  "peer_secure z ipcpub_key ki w =
     obind (set_key z ZMQ_CURVE_SERVERKEY (Buf (ipcpub_key @ [0])) 40 w) (\<lambda>(rc, w1).
     obind (set_key z ZMQ_CURVE_PUBLICKEY (curve_pub ki) 40 w1) (\<lambda>(rc, w2).
     obind (set_key z ZMQ_CURVE_SECRETKEY (curve_prv ki) 40 w2) (\<lambda>(rc, w3). Ret w3)))"

text \<open>
  The sending loop. \<open>pause\<close> is the sleep of 200 ms, during which the world, the signals
  among it, goes on; \<open>None\<close> is the loop that no signal ends.
\<close>

partial_function (option) peer_loop ::
    "('m, 'w) zmq_api \<Rightarrow> error_handler \<Rightarrow> layout \<Rightarrow> ('w \<Rightarrow> int list) \<Rightarrow> ('w \<Rightarrow> 'w) \<Rightarrow> ipc_msg_t
       \<Rightarrow> 'm transmitter \<Rightarrow> 'w \<Rightarrow> ('m transmitter \<times> 'w) outcome option" where
  "peer_loop z he lay signals pause msg tx w =
     (if \<not> peer_running (signals w) then Some (Ret (tx, w))
      else case ipc_client_send z he lay msg tx w of
             Ret (tx', w') \<Rightarrow> peer_loop z he lay signals pause msg tx' (pause w')
           | Throws e \<Rightarrow> Some (Throws e) | Aborts \<Rightarrow> Some Aborts | Undefined \<Rightarrow> Some Undefined | Diverges \<Rightarrow> Some Diverges)"

definition timeout_bytes :: "byte list" where
  "timeout_bytes = le_bytes 4 5000"

text \<open>From the connection on; \<open>now\<close> is the clock.\<close>

definition peer_session ::
    "('m, 'w) zmq_api \<Rightarrow> error_handler \<Rightarrow> layout \<Rightarrow> ('w \<Rightarrow> int list) \<Rightarrow> ('w \<Rightarrow> 'w) \<Rightarrow> ('w \<Rightarrow> 64 word)
       \<Rightarrow> 'm transmitter \<Rightarrow> 'w \<Rightarrow> ('m transmitter \<times> 'w) outcome" where
  "peer_session z he lay signals pause now tx w =
     (let (rc, w1) = tx_set_sockopt z ZMQ_RCVTIMEO timeout_bytes w; (rc, w2) = tx_set_sockopt z ZMQ_SNDTIMEO timeout_bytes w1;
          (tx1, w3) = ipc_client_init z he tx w2;
          msg = ipc_msg (of_nat (client_code PEER)) (of_nat (client_code ROUTER)) (now w3) in
      obind (print_ipc_msg msg) (\<lambda>printed. of_loop (peer_loop z he lay signals pause msg tx1 w3)))"

definition peer_main ::
    "'w sodium_api \<Rightarrow> 'w sqlite_api \<Rightarrow> 'w zmq_objects \<Rightarrow> ('m, 'w) zmq_api \<Rightarrow> error_handler \<Rightarrow> layout
       \<Rightarrow> 'm zmq_all_msg list \<Rightarrow> ('w \<Rightarrow> int list) \<Rightarrow> ('w \<Rightarrow> 'w) \<Rightarrow> ('w \<Rightarrow> 64 word) \<Rightarrow> 'w \<Rightarrow> (int \<times> 'w) outcome" where
  "peer_main so lib zo z he lay raw signals pause now w =
     obind (module_init so lib zo he (config_of PEER) w) (\<lambda>(ret, config, w1).
     let (rc, w2) = sodium_init so w1 in
     if rc < 0 then Ret (1, w2)
     else obind (db_init lib he DB_PATH (bytes_of MEANWHILE_DB_KEY) w2) (\<lambda>(db, w3).
       obind (client_id_of ROUTER) (\<lambda>router.
       obind (get_key lib db router CURVE25519 ''public_key'' w3) (\<lambda>(ipcrout_pub_key, w4).
       case ipcrout_pub_key of
         Inl e \<Rightarrow> Aborts
       | Inr ipcpub_key \<Rightarrow>
           (let (ctx, w5) = context_new zo w4; (ipcsock, w6) = socket_new zo ctx 5 w5 in
            obind (client_id_of PEER) (\<lambda>name.
            let (tx, w7) = transmitter_new z raw (bytes_of name) w6 in
            obind (peer_secure z ipcpub_key (conf_keys config) w7) (\<lambda>w8.
            obind (keys_deinit (conf_keys config)) (\<lambda>ki.
            obind (peer_session z he lay signals pause now tx w8) (\<lambda>(tx', w9).
            let (s', w10) = close_socket zo ipcsock w9; (c', w11) = close_context zo ctx w10 in
            obind (db_destroy lib db w11) (\<lambda>(db', w12). Ret (0, w12)))))))))))"

section \<open>The router\<close>

text \<open>A pointer as an argument: no byte can be read through a freed one.\<close>

definition key_argument :: "sec_ptr \<Rightarrow> byte list option" where
  "key_argument p = (case p of NullPtr \<Rightarrow> None | Buf m \<Rightarrow> Some m | Freed \<Rightarrow> Some [])"

definition soft_bus_main ::
    "'w sodium_api \<Rightarrow> 'w sqlite_api \<Rightarrow> 'w zmq_objects \<Rightarrow> ('m, 'w) zmq_api \<Rightarrow> error_handler \<Rightarrow> layout
       \<Rightarrow> 'm zmq_all_msg list \<Rightarrow> ('w \<Rightarrow> int list) \<Rightarrow> 'w \<Rightarrow> (int \<times> 'm bus \<times> 'w) outcome" where
  "soft_bus_main so lib zo z he lay raw signals w =
     obind (module_init so lib zo he (config_of ROUTER) w) (\<lambda>(ret, config, w1).
     let (ctx, w2) = context_new zo w1; (sock, w3) = socket_new zo ctx 6 w2 in
     obind (client_id_of (client_id config)) (\<lambda>name.
     let (set, rx) = set_endpoint (Some IPC_ENDPOINT) (receiver_new name 0); (bus, rx1) = bus_new z raw rx in
     obind (bus_set_security z (key_argument (curve_pub (conf_keys config))) (key_argument (curve_prv (conf_keys config))) w3) (\<lambda>(secure, w4).
     obind (keys_deinit (conf_keys config)) (\<lambda>ki.
     obind (bus_run z he lay signals rx1 bus w4) (\<lambda>(bus', w5).
     let (s', w6) = close_socket zo sock w5; (c', w7) = close_context zo ctx w6 in
     Ret (0, bus', w7))))))"


section \<open>Lemmas\<close>

lemma chunk_frames_one: "length d = sizeof_ipc_msg \<Longrightarrow> chunk_frames d = [(d, False)]"
  by (subst chunk_frames.simps, subst chunk_frames.simps)
    (auto simp: DEFAULT_DATA_CHUNK_def sizeof_ipc_msg_def CATEGORY_LENGTH_BYTES_def DATA_LENGTH_BYTES_def)

lemma ipc_msg_facts:
  "length (ipc_encode (ipc_msg a b t)) = sizeof_ipc_msg" "ipc_decode (ipc_encode (ipc_msg a b t)) = ipc_msg a b t"
  "0 \<in> set (category (ipc_msg a b t))" "src_id (ipc_msg a b t) = a" "dist_id (ipc_msg a b t) = b"
proof -
  have wf: "ipc_wf (ipc_msg a b t)"
    using ipc_wf_decode [of "replicate sizeof_ipc_msg 0"] by (simp add: ipc_wf_def ipc_msg_def)
  then show "length (ipc_encode (ipc_msg a b t)) = sizeof_ipc_msg" "ipc_decode (ipc_encode (ipc_msg a b t)) = ipc_msg a b t"
    by (simp_all add: length_ipc_encode ipc_decode_encode)
  show "0 \<in> set (category (ipc_msg a b t))" "src_id (ipc_msg a b t) = a" "dist_id (ipc_msg a b t) = b"
    by (simp_all add: ipc_msg_def ipc_decode_def sizeof_ipc_msg_def CATEGORY_LENGTH_BYTES_def DATA_LENGTH_BYTES_def)
qed

lemma peer_running_iff: "peer_running sigs \<longleftrightarrow> 2 \<notin> set sigs \<and> 15 \<notin> set sigs"
proof -
  have "fold peer_signal_handler sigs f \<longleftrightarrow> f \<and> 2 \<notin> set sigs \<and> 15 \<notin> set sigs" for f
    by (induction sigs arbitrary: f) (auto simp: peer_signal_handler_def)
  then show ?thesis by (simp add: peer_running_def)
qed

text \<open>A message whose destination is not registered is taken and nothing is sent.\<close>

lemma bus_takes_unregistered:
  assumes "delivers z inb flag sent" "pool_ok lay (bus_buffer bus)" "0 < room (bus_buffer bus)"
    and "inb w = (ident, True) # parts @ rest" "multipart parts" "payload None parts = Some d" "0 \<in> set (category d)"
    and "map_of (bus_register (src_id d) ident (bus_clients bus)) (dist_id d) = None" "sint (dist_id d) \<in> {0..3}"
  shows "\<exists>bus' w'. bus_handle_msg z he lay (bus, w) = Ret (bus', w') \<and> sent w' = sent w \<and> inb w' = rest \<and>
    bus_clients bus' = bus_register (src_id d) ident (bus_clients bus) \<and> room (bus_buffer bus') = room (bus_buffer bus)"
proof -
  obtain p st where st: "free_stack lay (bus_buffer bus) = p # st"
    using lifo.stack_room [of lay "bus_buffer bus"] assms(3) by (cases "free_stack lay (bus_buffer bus)") auto
  obtain b2 w2 where h: "bus_handle_msg z he lay (bus, w) =
      obind (bus_dispatch z he lay (Some d) ident (bus\<lparr>bus_buffer := b2\<rparr>) w2) (\<lambda>(bus2, w3).
        obind (release_slot he lay (Some (Some p)) (bus_buffer bus2)) (\<lambda>(ret, p', b3).
          Ret (bus2\<lparr>bus_buffer := b3\<rparr>, w3)))" "inb w2 = rest" "sent w2 = sent w"
      "pool_ok lay b2" "p \<in> held_slots lay b2" "Suc (room b2) = room (bus_buffer bus)"
    using bus_handle_msg_received [OF assms(1,4,5,2) st, of he, unfolded assms(6)] by blast
  obtain printed where "print_ipc_msg d = Ret printed" using print_ipc_msg_ok [OF assms(7)] by blast
  moreover obtain b3 where "release_slot he lay (Some (Some p)) b2 = Ret (Inr True, Some None, b3)" "room b3 = Suc (room b2)"
    using pool.release_held [OF h(4,5)] by blast
  ultimately show ?thesis using h assms(8,9) by (simp add: bus_dispatch_def Let_def clients_ids_at_def CLIENTS_IDS_def)
qed

section \<open>Properties\<close>

text \<open>
  C27. From the peer to the router. When the first send of the peer's transmitter answers Ok,
  the frames it put on the wire, arriving behind a routing id, are a message that the router
  takes: it registers the routing id as the peer's, unless the peer is registered already,
  sends nothing, because nobody is registered as the router itself, and keeps every slot.
\<close>

theorem peer_message_reaches_the_router:
  assumes "msg_laws z" "logs_sends z sent" "layout_ok lay" "length raw = 10"
    and "tx = fst (transmitter_new z raw (bytes_of ''peerxxx'') w0)" "msg = ipc_msg 1 3 t"
    and "tx_send_result z he lay (ipc_encode msg) sizeof_ipc_msg tx w = Ret (Inr (), tx', w')"
    and "delivers zb inb flag sentb" "pool_ok layb (bus_buffer bus)" "0 < room (bus_buffer bus)"
    and "inb wb = (routing_id, True) # drop (length (sent w)) (sent w') @ rest" "map_of (bus_clients bus) 3 = None"
  shows "\<exists>bus' wb'. bus_handle_msg zb heb layb (bus, wb) = Ret (bus', wb') \<and> inb wb' = rest \<and> sentb wb' = sentb wb \<and>
    room (bus_buffer bus') = room (bus_buffer bus) \<and>
    map_of (bus_clients bus') 1 = Some (case map_of (bus_clients bus) 1 of None \<Rightarrow> routing_id | Some old \<Rightarrow> old)"
proof -
  let ?d = "ipc_encode msg"
  let ?id = "padded_identity z (bytes_of ''peerxxx'') (zmq_msg_init_size z 7)"
  have len: "length ?d = sizeof_ipc_msg" "length ?id = 7"
    using ipc_msg_facts(1) assms(1,6) by (simp_all add: padded_identity_def msg_lawsD)
  have tx: "tx_buffer tx = msg_buffer_new z raw" "identity tx = bytes_of ''peerxxx''" using assms(5) by (simp_all add: transmitter_new_def)
  have "bytes_of ''peerxxx'' \<noteq> []" "length (bytes_of ''peerxxx'') \<le> 7" by (simp_all add: bytes_of_def)
  from tx_send_first [OF assms(1-4) tx this, of sizeof_ipc_msg ?d he w] assms(7) len
  have "sent w' = sent w @ wire_frames ?id ?d" by (auto simp: sent_as_def)
  then have frames: "drop (length (sent w)) (sent w') = [(?id, True), ([], True), (?d, False)]"
    using len(1) by (simp add: wire_frames_def chunk_frames_one)
  have "payload None [(?id, True), ([], True), (?d, False)] = Some msg"
    using len assms(6) ipc_msg_facts(2) sizeof_302 by simp
  moreover have "map_of (bus_register (src_id msg) routing_id (bus_clients bus)) (dist_id msg) = None"
    using assms(6,12) by (simp add: ipc_msg_facts bus_register_def update_conv)
  ultimately obtain bus' wb' where b: "bus_handle_msg zb heb layb (bus, wb) = Ret (bus', wb')" "sentb wb' = sentb wb" "inb wb' = rest"
      "bus_clients bus' = bus_register (src_id msg) routing_id (bus_clients bus)" "room (bus_buffer bus') = room (bus_buffer bus)"
    using bus_takes_unregistered [OF assms(8-10) assms(11) [unfolded frames], of msg heb] assms(6)
    by (auto simp: ipc_msg_facts)
  moreover have "map_of (bus_register 1 routing_id (bus_clients bus)) 1 =
      Some (case map_of (bus_clients bus) 1 of None \<Rightarrow> routing_id | Some old \<Rightarrow> old)"
    by (simp add: bus_register_def update_conv split: option.splits)
  ultimately show ?thesis using assms(6) by (auto simp: ipc_msg_facts)
qed


text \<open>The first send of the peer on the example library.\<close>

abbreviation example_tx :: "byte list transmitter" where
  "example_tx \<equiv> fst (transmitter_new sim_api (replicate 10 undefined) (bytes_of ''peerxxx'') (sim_new []))"

lemma sim_peer_send:
  assumes "length d = sizeof_ipc_msg"
  shows "\<exists>b2. tx_send_result sim_api plain_handler example_layout d sizeof_ipc_msg example_tx (sim_new []) =
    Ret (Inr (), example_tx\<lparr>tx_buffer := b2\<rparr>, sim_new []\<lparr>outbox := [(bytes_of ''peerxxx'', True), ([], True), (d, False)]\<rparr>)"
proof -
  let ?b = "msg_buffer_new sim_api (replicate 10 undefined) :: byte list zmq_all_msg managed_buffer"
  let ?w = "sim_new []\<lparr>outbox := [(bytes_of ''peerxxx'', True), ([], True), (d, False)]\<rparr>"
  have tx: "tx_buffer example_tx = ?b" "identity example_tx = bytes_of ''peerxxx''" by (simp_all add: transmitter_new_def)
  have n: "sizeof_ipc_msg \<noteq> 0" "min sizeof_ipc_msg DEFAULT_DATA_CHUNK = sizeof_ipc_msg"
    by (simp_all add: sizeof_302 DEFAULT_DATA_CHUNK_def)
  have chunks: "send_chunks sim_api sizeof_ipc_msg d m w = Ret (Inr (), [], w\<lparr>outbox := outbox w @ [(d, False)]\<rparr>)"
    if "\<not> send_fails w" for m w
    using that n assms
    by (subst send_chunks.simps) (simp add: send_chunks.simps [of _ 0] Let_def msg_memcpy_def sim_calls)
  have slot: "peek example_layout (data_addr example_layout 0) ?b =
      \<lparr>identity_frame = replicate 7 0, empty_frame = [], msg_frame = replicate sizeof_ipc_msg 0\<rparr>"
    using example_layout_ok by (simp add: new_slot numeral_eq_Suc) (simp add: sim_api_def)
  have "\<exists>b'. send_frames sim_api example_layout (bytes_of ''peerxxx'') (data_addr example_layout 0) d sizeof_ipc_msg (taken ?b) (sim_new [])
      = Ret (Inr (), b', ?w)"
    unfolding send_frames_def msg_memcpy_def
    by (simp add: slot Let_def bytes_of_def chunks sim_calls sim_new_def)
  then obtain b' where f: "send_frames sim_api example_layout (bytes_of ''peerxxx'') (data_addr example_layout 0) d sizeof_ipc_msg (taken ?b) (sim_new [])
      = Ret (Inr (), b', ?w)" by blast
  have "is_full ?b \<noteq> Inr True"
    using msg_buffer_new_pool [OF example_layout_ok, of "replicate 10 undefined" sim_api] by (auto simp: is_full_def room_def)
  moreover obtain r b2 w2 where "tx_send_result sim_api plain_handler example_layout d sizeof_ipc_msg example_tx (sim_new [])
      = Ret (r, example_tx\<lparr>tx_buffer := b2\<rparr>, w2)"
    using tx_send_first [OF sim_msg_laws sim_logs_sends example_layout_ok _ tx, of sizeof_ipc_msg d plain_handler "sim_new []"] assms
    by (auto simp: bytes_of_def)
  ultimately show ?thesis
    using f get_slot_new [OF example_layout_ok, of "replicate 10 undefined" sim_api]
    by (auto simp: tx_send_result_def tx obind_eq_Ret_iff)
qed

theorem peer_message_reaches_the_router_witness:
  "\<exists>bus' wb'. bus_handle_msg sim_api plain_handler example_layout
      (example_bus, sim_new [([0, 1], True), (bytes_of ''peerxxx'', True), ([], True), (ipc_encode (ipc_msg 1 3 0), False)]) = Ret (bus', wb') \<and>
    map_of (bus_clients bus') 1 = Some [0, 1] \<and> room (bus_buffer bus') = 10"
proof -
  let ?m = "ipc_msg 1 3 0" let ?d = "ipc_encode ?m"
  obtain b2 where s: "tx_send_result sim_api plain_handler example_layout ?d sizeof_ipc_msg example_tx (sim_new []) =
    Ret (Inr (), example_tx\<lparr>tx_buffer := b2\<rparr>, sim_new []\<lparr>outbox := [(bytes_of ''peerxxx'', True), ([], True), (?d, False)]\<rparr>)"
    using sim_peer_send [OF ipc_msg_facts(1)] by blast
  let ?wb = "sim_new [([0, 1], True), (bytes_of ''peerxxx'', True), ([], True), (?d, False)]"
  have "inbox ?wb = ([0, 1], True) # drop (length (outbox (sim_new [])))
      (outbox (sim_new []\<lparr>outbox := [(bytes_of ''peerxxx'', True), ([], True), (?d, False)]\<rparr>)) @ []"
    by (simp add: sim_new_def)
  with peer_message_reaches_the_router [OF sim_msg_laws sim_logs_sends example_layout_ok _ refl refl s sim_delivers
      example_bus_facts(1), where heb = plain_handler and routing_id = "[0, 1]" and wb = ?wb and rest = "[]"] example_bus_facts(2,3)
  show ?thesis by auto
qed

text \<open>
  C29. The peer sends once. With the first message on the wire, the loop of the peer ends with
  a signal that arrives during its pause, and otherwise its second round copies the identity
  into a message the library has emptied: the behaviour is undefined. The loop of a peer that
  has received such a signal before sends nothing.
\<close>

theorem peer_sends_once:
  assumes "msg_laws z" "logs_sends z sent" "layout_ok lay" "length raw = 10"
    and "tx = fst (transmitter_new z raw (bytes_of ''peerxxx'') w0)" "msg = ipc_msg a b t"
    and "ipc_client_send z he lay msg tx w = Ret (tx', w')" "sent w' \<noteq> sent w"
  shows "of_loop (peer_loop z he lay signals pause msg tx w) =
    (if 2 \<in> set (signals w) \<or> 15 \<in> set (signals w) then Ret (tx, w)
     else if 2 \<in> set (signals (pause w')) \<or> 15 \<in> set (signals (pause w')) then Ret (tx', pause w')
     else Undefined)"
proof -
  obtain ok where s: "tx_send z he lay (ipc_encode msg) sizeof_ipc_msg tx w = Ret (ok, tx', w')"
    using assms(7) by (auto simp: ipc_client_send_def obind_eq_Ret_iff)
  have "bytes_of ''peerxxx'' \<noteq> []" "length (bytes_of ''peerxxx'') \<le> 7" "sizeof_ipc_msg \<le> length (ipc_encode msg)"
    using ipc_msg_facts(1) [of a b t] assms(6) by (simp_all add: bytes_of_def)
  then have "tx_send z he lay (ipc_encode msg) sizeof_ipc_msg tx' (pause w') = Undefined"
    by (intro tx_second_send_undefined [OF assms(1-4) _ _ _ assms(5) s assms(8)])
  then have "ipc_client_send z he lay msg tx' (pause w') = Undefined" by (simp add: ipc_client_send_def)
  then show ?thesis using assms(7)
    by (simp add: peer_running_iff peer_loop.simps [of z he lay signals pause msg tx]
        peer_loop.simps [of z he lay signals pause msg tx' "pause w'"])
qed

theorem peer_sends_once_witness:
  "of_loop (peer_loop sim_api plain_handler example_layout (\<lambda>w. []) (\<lambda>w. w) (ipc_msg 1 3 0) example_tx (sim_new [])) = Undefined"
proof -
  let ?m = "ipc_msg 1 3 0" let ?d = "ipc_encode ?m"
  obtain b2 where "tx_send_result sim_api plain_handler example_layout ?d sizeof_ipc_msg example_tx (sim_new []) =
    Ret (Inr (), example_tx\<lparr>tx_buffer := b2\<rparr>, sim_new []\<lparr>outbox := [(bytes_of ''peerxxx'', True), ([], True), (?d, False)]\<rparr>)"
    using sim_peer_send [OF ipc_msg_facts(1)] by blast
  then have s: "ipc_client_send sim_api plain_handler example_layout ?m example_tx (sim_new []) =
      Ret (example_tx\<lparr>tx_buffer := b2\<rparr>, sim_new []\<lparr>outbox := [(bytes_of ''peerxxx'', True), ([], True), (?d, False)]\<rparr>)"
    by (simp add: ipc_client_send_def tx_send_def)
  show ?thesis
    by (subst peer_sends_once [OF sim_msg_laws sim_logs_sends example_layout_ok _ refl refl s]) (simp_all add: sim_new_def)
qed


text \<open>Whether both key buffers are live and hold a key.\<close>

definition has_keys :: "keys_info \<Rightarrow> bool" where
  "has_keys ki \<longleftrightarrow> (\<exists>m n. curve_pub ki = Buf m \<and> curve_prv ki = Buf n \<and> 40 \<le> length m \<and> 40 \<le> length n)"

lemma keys_deinit_type: "keys_deinit ki = Ret ki' \<Longrightarrow> key_type ki' = key_type ki"
  by (auto simp: keys_deinit_def obind_eq_Ret_iff split: KeyType.splits)

lemma keys_init_type: "keys_init so ki w = Ret (ok, ki', w') \<Longrightarrow> key_type ki' = key_type ki"
  by (auto simp: keys_init_def obind_eq_Ret_iff Let_def split: KeyType.splits prod.splits if_splits)

lemma get_zmq_curve_keys_type: "get_zmq_curve_keys lib d ki c w = Ret (ok, ki', w') \<Longrightarrow> key_type ki' = key_type ki"
proof -
  assume a: "get_zmq_curve_keys lib d ki c w = Ret (ok, ki', w')"
  obtain x where x: "client_id_of c = Ret x" using a by (cases "client_id_of c") (simp_all add: get_zmq_curve_keys_def)
  obtain pub w1 where pub: "get_key lib d x CURVE25519 ''public_key'' w = Ret (pub, w1)"
    using a x by (cases "get_key lib d x CURVE25519 ''public_key'' w") (auto simp: get_zmq_curve_keys_def)
  obtain prv w2 where "get_key lib d x CURVE25519 ''private_key'' w1 = Ret (prv, w2)"
    using a x pub by (cases "get_key lib d x CURVE25519 ''private_key'' w1") (auto simp: get_zmq_curve_keys_def)
  with a x pub show "key_type ki' = key_type ki"
    by (cases pub; cases prv) (auto simp: get_zmq_curve_keys_def obind_eq_Ret_iff)
qed

lemma generate_into_type: "generate_into zo ki w = Ret (rc, ki', w') \<Longrightarrow> key_type ki' = key_type ki"
  by (auto simp: generate_into_def obind_eq_Ret_iff split: prod.splits if_splits)

lemma handle_keys_with_type:
  assumes "handle_keys_with so lib zo d config w = Ret (r, config', w')"
  shows "key_type (conf_keys config') = key_type (conf_keys config) \<and> client_id config' = client_id config"
proof (cases "key_type (conf_keys config) = CURVE25519")
  case True
  with assms obtain ok ki w1 found ki1 w2 where
    i: "keys_init so (conf_keys config) w = Ret (ok, ki, w1)" and
    g: "get_zmq_curve_keys lib d ki (client_id config) w1 = Ret (found, ki1, w2)" and
    rest: "(if found then Ret (False, config\<lparr>conf_keys := ki1\<lparr>is_ready := False\<rparr>\<rparr>, w2)
            else obind (generate_into zo ki1 w2) (\<lambda>(rc, ki2, w3).
              if rc \<noteq> 0
              then obind (keys_deinit ki2) (\<lambda>ki3. Ret (False, config\<lparr>conf_keys := ki3\<rparr>, w3))
              else obind (save_keys lib d ki2 (client_id config) w3) (\<lambda>(ret, w4).
                Ret (ret, config\<lparr>conf_keys := ki2\<lparr>is_ready := ret\<rparr>\<rparr>, w4)))) = Ret (r, config', w')"
    by (auto simp: handle_keys_with_def obind_eq_Ret_iff)
  have ty: "key_type ki1 = key_type (conf_keys config)"
    using keys_init_type [OF i] get_zmq_curve_keys_type [OF g] by simp
  from rest show ?thesis
    by (auto simp: obind_eq_Ret_iff ty dest!: generate_into_type keys_deinit_type split: if_splits)
qed (use assms in \<open>auto simp: handle_keys_with_def split: KeyType.splits\<close>)

lemma module_init_type:
  "module_init so lib zo he config w = Ret (r, config', w') \<Longrightarrow>
   key_type (conf_keys config') = key_type (conf_keys config) \<and> client_id config' = client_id config"
  using handle_keys_with_type
  by (fastforce simp: module_init_def handle_atomic_opt_def handle_keys_def obind_eq_Ret_iff)

lemma no_keys_undefined:
  assumes "\<not> has_keys ki" "key_type ki = CURVE25519"
  shows "peer_secure z key ki w = Undefined"
    and "obind (bus_set_security z (key_argument (curve_pub ki)) (key_argument (curve_prv ki)) w)
      (\<lambda>(secure, w'). obind (keys_deinit ki) (k w')) = Undefined"
proof -
  show "peer_secure z key ki w = Undefined"
    using assms by (auto simp: has_keys_def peer_secure_def set_key_def tx_set_sockopt_def split: sec_ptr.splits prod.splits)
  have free: "keys_deinit ki = Undefined"
    using assms
    by (cases "curve_pub ki"; cases "curve_prv ki") (auto simp: has_keys_def keys_deinit_def free_smem_def write_mem_def not_le)
  have "bus_set_security z p q w = Undefined \<or> (\<exists>r. bus_set_security z p q w = Ret r)" for p q
    by (auto simp: bus_set_security_def set_curve_server_options_def set_key_option_def Let_def split: option.splits prod.splits)
  with free show "obind (bus_set_security z (key_argument (curve_pub ki)) (key_argument (curve_prv ki)) w)
      (\<lambda>(secure, w'). obind (keys_deinit ki) (k w')) = Undefined"
    by (metis (mono_tags, lifting) case_prod_beta obind.simps(1,4))
qed


text \<open>
  C31. The programs without keys. Neither program looks at the result of its initialisation.
  When that leaves no two live key buffers, because they could not be allocated or locked
  or because no key pair could be generated, the router's behaviour is undefined, and so is the
  peer's once it has found the router's public key; when it has not, the peer aborts.
\<close>

theorem programs_need_keys:
  assumes "module_init so lib zo he (config_of c) w = Ret (ret, config, w1)" "\<not> has_keys (conf_keys config)"
  shows "(c = ROUTER \<longrightarrow> soft_bus_main so lib zo z he lay raw signals w = Undefined) \<and>
    (c = PEER \<longrightarrow> 0 \<le> fst (sodium_init so w1) \<longrightarrow>
      db_init lib he DB_PATH (bytes_of MEANWHILE_DB_KEY) (snd (sodium_init so w1)) = Ret (db, w3) \<longrightarrow>
      get_key lib db ''ipcrout'' CURVE25519 ''public_key'' w3 = Ret (key, w4) \<longrightarrow>
      peer_main so lib zo z he lay raw signals pause now w = (if is_err key then Aborts else Undefined))"
proof -
  have ty: "key_type (conf_keys config) = CURVE25519" "client_id config = c"
    using module_init_type [OF assms(1)] by (simp_all add: config_of_def)
  note un = no_keys_undefined [OF assms(2) ty(1)]
  have names: "client_id_of ROUTER = Ret ''ipcrout''" "client_id_of PEER = Ret ''peerxxx''"
    by (simp_all add: client_id_of_def clients_ids_at_def CLIENTS_IDS_def)
  have "soft_bus_main so lib zo z he lay raw signals w = Undefined" if "c = ROUTER"
    using assms(1) that names(1) ty(2) by (simp add: soft_bus_main_def Let_def split_beta) (rule un(2))
  moreover have "peer_main so lib zo z he lay raw signals pause now w = (if is_err key then Aborts else Undefined)"
    if "c = PEER" "0 \<le> fst (sodium_init so w1)"
      "db_init lib he DB_PATH (bytes_of MEANWHILE_DB_KEY) (snd (sodium_init so w1)) = Ret (db, w3)"
      "get_key lib db ''ipcrout'' CURVE25519 ''public_key'' w3 = Ret (key, w4)"
    using assms(1) that names by (cases key) (simp_all add: peer_main_def Let_def split_beta un(1))
  ultimately show ?thesis by blast
qed

text \<open>A database that cannot be opened and a library without CURVE: the key buffers are released.\<close>

theorem programs_need_keys_witness:
  "\<forall>z lay raw signals. soft_bus_main sim_sodium (sim_db\<lparr>sqlite3_open := \<lambda>p w. (14, 0, w)\<rparr>)
     (sim_objects\<lparr>zmq_curve_keypair := \<lambda>w. (-1, [], [], w)\<rparr>) z plain_handler lay raw signals sim_empty = Undefined"
proof -
  let ?lib = "sim_db\<lparr>sqlite3_open := \<lambda>p w. (14, 0, w)\<rparr>" and ?zo = "sim_objects\<lparr>zmq_curve_keypair := \<lambda>w. (-1, [], [], w)\<rparr>"
  let ?d = "\<lparr>db_ptr = None, db_path = DB_PATH, db_key = Some (bytes_of MEANWHILE_DB_KEY), db_key_num_byte = length MEANWHILE_DB_KEY\<rparr>"
  have db: "db_init ?lib plain_handler DB_PATH (bytes_of MEANWHILE_DB_KEY) sim_empty = Ret (?d, sim_empty)"
    by (simp add: db_init_def db_open_def sim_db_def sim_empty_def sqlite_codes Let_def)
  have keys: "keys_init sim_sodium (conf_keys (config_of ROUTER)) w =
      Ret (True, sim_keys\<lparr>curve_pub := Buf (replicate 41 0xD0), curve_prv := Buf (replicate 41 0xD0)\<rparr>, w)" for w
    using sim_keys_init [of w] by (simp add: config_of_def sim_keys_def)
  have no_key: "get_key ?lib ?d m ty n v = Ret (Err FAIL_GET_KEY ''Failed to prepare key query'', v)" for m ty n v
    by (simp add: get_key_def db_prepare_def Err_def)
  have c: "client_id_of ROUTER = Ret ''ipcrout''" "key_type (conf_keys (config_of ROUTER)) = CURVE25519" "client_id (config_of ROUTER) = ROUTER"
    by (simp_all add: client_id_of_def clients_ids_at_def CLIENTS_IDS_def config_of_def)
  have "\<exists>config. handle_keys_with sim_sodium ?lib ?zo ?d (config_of ROUTER) sim_empty = Ret (False, config, sim_empty) \<and> curve_pub (conf_keys config) = Freed"
    by (simp add: handle_keys_with_def keys get_zmq_curve_keys_def no_key c Err_def generate_into_def generate_keys_def
        keys_deinit_def sim_keys_def)
  then obtain config where h: "handle_keys_with sim_sodium ?lib ?zo ?d (config_of ROUTER) sim_empty = Ret (False, config, sim_empty)"
      "curve_pub (conf_keys config) = Freed" by blast
  have "db_destroy ?lib ?d sim_empty = Ret (?d\<lparr>db_key := None\<rparr>, sim_empty)"
    by (simp add: db_destroy_def db_close_def)
  with h(1) db have m: "module_init sim_sodium ?lib ?zo plain_handler (config_of ROUTER) sim_empty = Ret (Inr (), config, sim_empty)"
    by (simp add: module_init_def init_sodium_def handle_atomic_opt_def handle_keys_def sim_sodium_def)
  have "\<not> has_keys (conf_keys config)" using h(2) by (simp add: has_keys_def)
  from programs_need_keys [OF m this] show ?thesis by blast
qed

end
