(* ===== verification/Algorithm.thy ===== *)
theory Algorithm
  imports Prelude "HOL-Library.Multiset"
begin

text \<open>
  The sort functions of \<open>core/common/entt.hpp\<close> (\<open>entt::insertion_sort\<close> and
  \<open>entt::radix_sort\<close>), which sparse sets take as their algorithm. A range is a list, an
  iterator a position in it. A moved-from element keeps its place until it is overwritten.
\<close>

section \<open>Insertion sort\<close>

text \<open>The inner loop: from \<open>pre\<close> down, elements that follow \<open>value\<close> move up by one.\<close>

fun shift_back :: "('a \<Rightarrow> 'a \<Rightarrow> bool) \<Rightarrow> 'a \<Rightarrow> nat \<Rightarrow> 'a list \<Rightarrow> 'a list" where
  "shift_back compare v 0 xs = xs[0 := v]"
| "shift_back compare v (Suc p) xs =
     (if compare v (xs ! p) then shift_back compare v p (xs[Suc p := xs ! p]) else xs[Suc p := v])"

definition insertion_sort :: "('a \<Rightarrow> 'a \<Rightarrow> bool) \<Rightarrow> 'a list \<Rightarrow> 'a list" where
  "insertion_sort compare xs =
     (if 0 < length xs then fold (\<lambda>it ys. shift_back compare (ys ! it) it ys) [1..<length xs] xs else xs)"

section \<open>Radix sort\<close>

text \<open>
  One pass, \<open>part\<close>: the histogram of a digit, the first position of each bucket, and the
  elements moved to their bucket's next position. The digit is read from the 64-bit word that
  the getter answers; shifting it by its width or more is undefined. The source computes the mask and
  the number of buckets from the \<open>int\<close> \<open>1 << Bit\<close>: for \<open>Bit\<close> below 31 it is positive and converts to
  the key's 64 bits unchanged, which is the mask below, and no larger \<open>Bit\<close> compiles, since the
  arrays of buckets have that length.
\<close>

definition radix_digit :: "nat \<Rightarrow> ('a \<Rightarrow> 64 word) \<Rightarrow> nat \<Rightarrow> 'a \<Rightarrow> nat" where
  "radix_digit bits getter start x = unat (and (drop_bit start (getter x)) (push_bit bits 1 - 1))"

definition bucket_counts :: "nat \<Rightarrow> ('a \<Rightarrow> nat) \<Rightarrow> 'a list \<Rightarrow> nat list" where
  "bucket_counts buckets digit xs = fold (\<lambda>x c. c[digit x := c ! digit x + 1]) xs (replicate buckets 0)"

definition bucket_starts :: "nat \<Rightarrow> nat list \<Rightarrow> nat list" where
  "bucket_starts buckets c = fold (\<lambda>pos ix. ix[pos + 1 := ix ! pos + c ! pos]) [0..<buckets - 1] (replicate buckets 0)"

fun scatter :: "('a \<Rightarrow> nat) \<Rightarrow> 'a list \<Rightarrow> nat list \<Rightarrow> 'a list \<Rightarrow> 'a list outcome" where
  "scatter digit [] ix out = Ret out"
| "scatter digit (x # xs) ix out =
     (if digit x < length ix \<and> ix ! digit x < length out
      then scatter digit xs (ix[digit x := ix ! digit x + 1]) (out[ix ! digit x := x])
      else Undefined)"

definition radix_part :: "nat \<Rightarrow> ('a \<Rightarrow> 64 word) \<Rightarrow> 'a list \<Rightarrow> 'a list \<Rightarrow> nat \<Rightarrow> 'a list outcome" where
  "radix_part bits getter xs out start =
     (if start < 64
      then let buckets = 2 ^ bits; digit = radix_digit bits getter start in
           scatter digit xs (bucket_starts buckets (bucket_counts buckets digit xs)) out
      else Undefined)"

text \<open>The loop does two passes, there and back; a last odd one is copied back.\<close>

function radix_loop :: "nat \<Rightarrow> ('a \<Rightarrow> 64 word) \<Rightarrow> nat \<Rightarrow> nat \<Rightarrow> 'a list \<Rightarrow> 'a list \<Rightarrow> ('a list \<times> 'a list) outcome" where
  "radix_loop bits getter pass limit xs aux =
     (if pass < limit
      then obind (radix_part bits getter xs aux (pass * bits)) (\<lambda>aux1.
           obind (radix_part bits getter aux1 xs ((pass + 1) * bits)) (\<lambda>xs1.
             radix_loop bits getter (pass + 2) limit xs1 aux1))
      else Ret (xs, aux))"
  by pat_completeness auto
termination by (relation "measure (\<lambda>(bits, getter, pass, limit, xs, aux). limit - pass)") auto

declare radix_loop.simps [simp del]

definition radix_sort :: "nat \<Rightarrow> nat \<Rightarrow> ('a \<Rightarrow> 64 word) \<Rightarrow> 'a \<Rightarrow> 'a list \<Rightarrow> 'a list outcome" where
  "radix_sort bits n getter dflt xs =
     (if 0 < length xs
      then let passes = n div bits in
           obind (radix_loop bits getter 0 (passes - passes mod 2) xs (replicate (length xs) dflt)) (\<lambda>(xs1, aux).
             if passes mod 2 = 1 then radix_part bits getter xs1 aux ((passes - 1) * bits) else Ret xs1)
      else Ret xs)"

section \<open>Insertion sort places every element after its equals\<close>

definition place :: "('a \<Rightarrow> 'a \<Rightarrow> bool) \<Rightarrow> 'a \<Rightarrow> 'a list \<Rightarrow> 'a list" where
  "place compare v xs =
     rev (dropWhile (compare v) (rev xs)) @ [v] @ rev (takeWhile (compare v) (rev xs))"

lemma place_snoc: "place compare v (xs @ [y]) = (if compare v y then place compare v xs @ [y] else xs @ [y, v])"
  by (simp add: place_def)

lemma place_Nil [simp]: "place compare v [] = [v]"
  by (simp add: place_def)

lemma shift_back_place: "shift_back compare v (length ps) (ps @ x # rs) = place compare v ps @ rs"
proof (induction ps arbitrary: x rs rule: rev_induct)
  case (snoc y ps)
  have "(ps @ [y] @ x # rs)[Suc (length ps) := z] = ps @ y # z # rs" for z
    by (simp add: list_update_append)
  with snoc [of y "y # rs"] show ?case by (simp add: place_snoc nth_append)
qed simp

lemma mset_place [simp]: "mset (place compare v xs) = add_mset v (mset xs)"
  by (induction xs rule: rev_induct) (simp_all add: place_snoc)

lemma set_place [simp]: "set (place compare v xs) = insert v (set xs)"
  using mset_place [of compare v xs] by (metis set_mset_mset set_mset_add_mset_insert)

lemma place_sort_key:
  assumes "\<And>x y. compare x y \<longleftrightarrow> key x < (key y :: 'k :: linorder)"
  shows "place compare v (sort_key key xs) = sort_key key (xs @ [v])"
proof (rule properties_for_sort_key [symmetric])
  have "sorted (map key (place compare v ys))" if "sorted (map key ys)" for ys
    using that
  proof (induction ys rule: rev_induct)
    case (snoc y ys)
    then show ?case by (auto simp: place_snoc assms sorted_append not_less intro: order.strict_implies_order order_trans)
  qed simp
  then show "sorted (map key (place compare v (sort_key key xs)))" by simp
  fix k
  have "filter (\<lambda>x. key k = key x) (place compare v ys) = filter (\<lambda>x. key k = key x) (ys @ [v])" for ys
    by (induction ys rule: rev_induct) (auto simp: place_snoc assms)
  then show "filter (\<lambda>x. key k = key x) (place compare v (sort_key key xs)) = filter (\<lambda>x. key k = key x) (xs @ [v])"
    using sort_key_stable [of key "key k" xs] by (simp add: eq_commute [of "key k"])
qed simp





lemma insertion_sort_passes:
  assumes "\<And>x y. compare x y \<longleftrightarrow> key x < (key y :: 'k :: linorder)"
  shows "0 < n \<Longrightarrow> n \<le> length xs \<Longrightarrow>
    fold (\<lambda>it ys. shift_back compare (ys ! it) it ys) [1..<n] xs = sort_key key (take n xs) @ drop n xs"
proof (induction n)
  case (Suc n)
  show ?case
  proof (cases "n = 0")
    case True
    with Suc.prems show ?thesis by (cases xs) simp_all
  next
    case False
    let ?ps = "sort_key key (take n xs)" and ?v = "xs ! n"
    have split: "drop n xs = ?v # drop (Suc n) xs" using Suc.prems by (simp add: Cons_nth_drop_Suc)
    have l: "length ?ps = n" using Suc.prems by simp
    have "shift_back compare ((?ps @ drop n xs) ! n) n (?ps @ drop n xs) = place compare ?v ?ps @ drop (Suc n) xs"
      using shift_back_place [of compare ?v ?ps ?v "drop (Suc n) xs"] l by (simp add: split nth_append)
    then show ?thesis
      using Suc False by (simp add: place_sort_key [of compare key, OF assms] take_Suc_conv_app_nth)
  qed
qed simp

text \<open>
  Insertion sort is the stable sort: with any comparison by a key it leaves the range
  ordered by the key, equal elements in their old order.
\<close>

theorem insertion_sort_is_stable_sort:
  assumes "\<And>x y. compare x y \<longleftrightarrow> key x < (key y :: 'k :: linorder)"
  shows "insertion_sort compare xs = sort_key key xs"
proof (cases "xs = []")
  case False
  then show ?thesis using insertion_sort_passes [of compare key "length xs" xs, OF assms] by (simp add: insertion_sort_def)
qed (simp add: insertion_sort_def)

theorem insertion_sort_is_stable_sort_witness:
  "insertion_sort (\<lambda>x y. fst x < fst y) [(3, ''a''), (1, ''b''), (3, ''c''), (1 :: nat, ''d'')] =
     [(1, ''b''), (1, ''d''), (3, ''a''), (3, ''c'')]"
  by (subst insertion_sort_is_stable_sort [where key = fst]) simp_all

section \<open>One pass of radix sort is a stable sort by its digit\<close>

definition occurs :: "('a \<Rightarrow> nat) \<Rightarrow> nat \<Rightarrow> 'a list \<Rightarrow> nat" where
  "occurs digit b xs = length (filter (\<lambda>x. digit x = b) xs)"

definition below :: "('a \<Rightarrow> nat) \<Rightarrow> nat \<Rightarrow> 'a list \<Rightarrow> nat" where
  "below digit b xs = (\<Sum>c<b. occurs digit c xs)"

lemma below_Suc: "below digit (Suc b) xs = below digit b xs + occurs digit b xs"
  by (simp add: below_def)

lemma below_mono: "a \<le> b \<Longrightarrow> below digit a xs \<le> below digit b xs"
  unfolding below_def by (rule sum_mono2) auto

lemma bucket_counts_spec:
  assumes "\<forall>x\<in>set xs. digit x < buckets"
  shows "bucket_counts buckets digit xs = map (\<lambda>b. occurs digit b xs) [0..<buckets]"
  using assms unfolding bucket_counts_def
proof (induction xs rule: rev_induct)
  case (snoc x xs)
  then show ?case by (auto simp: occurs_def nth_list_update intro!: nth_equalityI)
qed (simp add: occurs_def map_replicate_const)

lemma bucket_starts_spec:
  assumes "0 < buckets"
  shows "bucket_starts buckets (map (\<lambda>b. occurs digit b xs) [0..<buckets]) = map (\<lambda>b. below digit b xs) [0..<buckets]"
proof -
  let ?step = "\<lambda>pos ix. ix[pos + 1 := ix ! pos + map (\<lambda>b. occurs digit b xs) [0..<buckets] ! pos]"
  have "fold ?step [0..<n] (replicate buckets 0) =
      map (\<lambda>b. if b \<le> n then below digit b xs else 0) [0..<buckets]" if "n < buckets" for n
    using that
  proof (induction n)
    case 0
    then show ?case by (auto simp: below_def intro!: nth_equalityI)
  next
    case (Suc n)
    then show ?case by (auto simp: below_Suc nth_list_update le_Suc_eq intro!: nth_equalityI)
  qed
  from this [of "buckets - 1"] assms show ?thesis
    unfolding bucket_starts_def by (auto intro!: nth_equalityI)
qed

text \<open>The sorted list, bucket by bucket.\<close>

lemma sort_key_buckets:
  fixes digit :: "'a \<Rightarrow> nat"
  assumes "\<forall>x\<in>set xs. digit x < buckets"
  shows "sort_key digit xs = concat (map (\<lambda>b. filter (\<lambda>x. digit x = b) xs) [0..<buckets])"
proof (rule properties_for_sort_key)
  let ?cat = "\<lambda>n. concat (map (\<lambda>b. filter (\<lambda>x. digit x = b) xs) [0..<n])"
  have "mset (?cat n) = mset (filter (\<lambda>x. digit x < n) xs)" for n
  proof (induction n)
    case (Suc n)
    have "filter_mset (\<lambda>x. digit x < Suc n) (mset xs) = filter_mset (\<lambda>x. digit x < n) (mset xs) + filter_mset (\<lambda>x. digit x = n) (mset xs)"
      by (induction xs) auto
    with Suc show ?case by simp
  qed simp
  moreover have "filter (\<lambda>x. digit x < buckets) xs = xs" using assms by simp
  ultimately show "mset (?cat buckets) = mset xs" by metis
  have "sorted (map digit (?cat n))" for n
    by (induction n) (auto simp: sorted_append intro: sorted_map_same [of digit "\<lambda>_. c" for c, simplified])
  then show "sorted (map digit (?cat buckets))" .
  fix k
  have "filter (\<lambda>x. digit k = digit x) (?cat n) = (if digit k < n then filter (\<lambda>x. digit k = digit x) xs else [])" for n
    by (induction n) (auto simp: filter_empty_conv less_Suc_eq intro!: filter_cong)
  moreover assume "k \<in> set (?cat buckets)"
  then have "digit k < buckets" using assms by auto
  ultimately show "filter (\<lambda>x. digit k = digit x) (?cat buckets) = filter (\<lambda>x. digit k = digit x) xs" by simp
qed


lemma below_all: "\<forall>x\<in>set xs. digit x < buckets \<Longrightarrow> below digit buckets xs = length xs"
proof -
  assume "\<forall>x\<in>set xs. digit x < buckets"
  then have "length xs = length (sort_key digit xs)" by simp
  also have "\<dots> = below digit buckets xs"
    using \<open>\<forall>x\<in>set xs. digit x < buckets\<close>
    by (simp only: sort_key_buckets length_concat map_map comp_def below_def occurs_def [symmetric] sum_list_distinct_conv_sum_set
        distinct_upt set_upt atLeast0LessThan [symmetric] interv_sum_list_conv_sum_set_nat)
  finally show ?thesis by simp
qed

lemma occurs_Nil [simp]: "occurs digit b [] = 0"
  by (simp add: occurs_def)

lemma occurs_append [simp]: "occurs digit b (xs @ ys) = occurs digit b xs + occurs digit b ys"
  and occurs_Cons [simp]: "occurs digit b (x # xs) = (if digit x = b then 1 else 0) + occurs digit b xs"
  by (simp_all add: occurs_def)

text \<open>Where the elements of a bucket go; those of different buckets do not meet.\<close>

lemma places_apart:
  assumes "below digit a xs + i = below digit b xs + j" "i < occurs digit a xs" "j < occurs digit b xs"
  shows "a = b \<and> i = j"
proof -
  have "below digit a xs + i < below digit (Suc a) xs" "below digit b xs + j < below digit (Suc b) xs"
    using assms by (simp_all add: below_Suc)
  with assms(1) below_mono [of "Suc a" b digit xs] below_mono [of "Suc b" a digit xs] have "a = b" by (metis not_less_eq_eq not_less linorder_cases le_add1 Suc_leI order_trans leD)
  with assms(1) show ?thesis by simp
qed

lemma scatter_spec:
  assumes "\<forall>x\<in>set (ps @ ss). digit x < buckets" "length out = length (ps @ ss)"
    and "\<forall>b<buckets. \<forall>j<occurs digit b ps. out ! (below digit b (ps @ ss) + j) = filter (\<lambda>x. digit x = b) ps ! j"
  shows "\<exists>out'. scatter digit ss (map (\<lambda>b. below digit b (ps @ ss) + occurs digit b ps) [0..<buckets]) out = Ret out' \<and>
    length out' = length (ps @ ss) \<and>
    (\<forall>b<buckets. \<forall>j<occurs digit b (ps @ ss). out' ! (below digit b (ps @ ss) + j) = filter (\<lambda>x. digit x = b) (ps @ ss) ! j)"
  using assms
proof (induction ss arbitrary: ps out)
  case Nil
  then show ?case by simp
next
  case (Cons x ss)
  let ?xs = "ps @ x # ss" and ?d = "digit x"
  let ?p = "below digit ?d ?xs + occurs digit ?d ps"
  have d: "?d < buckets" using Cons.prems by simp
  have "?p < below digit (Suc ?d) ?xs" by (simp add: below_Suc)
  also have "\<dots> \<le> below digit buckets ?xs" using d by (intro below_mono) simp
  also have "\<dots> = length ?xs" using Cons.prems by (intro below_all) simp
  finally have p: "?p < length ?xs" .
  have ix: "(map (\<lambda>b. below digit b ?xs + occurs digit b ps) [0..<buckets])[?d := ?p + 1] =
      map (\<lambda>b. below digit b ((ps @ [x]) @ ss) + occurs digit b (ps @ [x])) [0..<buckets]"
    using d by (intro nth_equalityI) (auto simp: nth_list_update)
  have "\<forall>b<buckets. \<forall>j<occurs digit b (ps @ [x]). out[?p := x] ! (below digit b ?xs + j) = filter (\<lambda>x. digit x = b) (ps @ [x]) ! j"
  proof (intro allI impI)
    fix b j assume b: "b < buckets" and j: "j < occurs digit b (ps @ [x])"
    show "out[?p := x] ! (below digit b ?xs + j) = filter (\<lambda>x. digit x = b) (ps @ [x]) ! j"
    proof (cases "b = ?d \<and> j = occurs digit ?d ps")
      case True
      then show ?thesis using p Cons.prems(2) by (simp add: nth_append occurs_def)
    next
      case False
      with j have j': "j < occurs digit b ps" by (auto split: if_splits)
      have "below digit b ?xs + j \<noteq> ?p"
        using places_apart [of digit b ?xs j ?d "occurs digit ?d ps"] j' False by auto
      then show ?thesis using Cons.prems(3) b j' by (simp add: nth_append occurs_def)
    qed
  qed
  with Cons.IH [of "ps @ [x]" "out[?p := x]"] Cons.prems(1,2)
  obtain out' where o: "scatter digit ss (map (\<lambda>b. below digit b ((ps @ [x]) @ ss) + occurs digit b (ps @ [x])) [0..<buckets]) (out[?p := x]) = Ret out'"
      "length out' = length ?xs"
      "\<forall>b<buckets. \<forall>j<occurs digit b ?xs. out' ! (below digit b ?xs + j) = filter (\<lambda>x. digit x = b) ?xs ! j" by auto
  have "scatter digit (x # ss) (map (\<lambda>b. below digit b ?xs + occurs digit b ps) [0..<buckets]) out = Ret out'"
    using d p Cons.prems(2) ix o(1) by simp
  with o show ?case by blast
qed

lemma nth_concat_map:
  assumes "i < length (concat (map f [0..<n]))"
  shows "\<exists>b<n. \<exists>j<length (f b). i = (\<Sum>c<b. length (f c)) + j \<and> concat (map f [0..<n]) ! i = f b ! j"
  using assms
proof (induction n)
  case (Suc n)
  have len: "length (concat (map f [0..<n])) = (\<Sum>c<n. length (f c))"
    by (simp add: length_concat comp_def atLeast0LessThan interv_sum_list_conv_sum_set_nat)
  show ?case
  proof (cases "i < length (concat (map f [0..<n]))")
    case True
    with Suc obtain b j where "b < n" "j < length (f b)" "i = (\<Sum>c<b. length (f c)) + j" "concat (map f [0..<n]) ! i = f b ! j" by blast
    with True show ?thesis by (intro exI [of _ b] conjI exI [of _ j]) (simp_all add: nth_append)
  next
    case False
    with Suc.prems len show ?thesis
      by (intro exI [of _ n] conjI exI [of _ "i - (\<Sum>c<n. length (f c))"]) (simp_all add: nth_append)
  qed
qed simp

lemma radix_digit_eq: "radix_digit bits getter start x = unat (getter x) div 2 ^ start mod 2 ^ bits"
proof -
  have "push_bit bits 1 - 1 = (mask bits :: 64 word)" by (simp add: mask_eq_exp_minus_1 push_bit_of_1)
  moreover have "unat (getter x) mod 18446744073709551616 = unat (getter x)" using unat_bounds(3) [of "getter x"] by simp
  ultimately show ?thesis
    by (simp add: radix_digit_def take_bit_eq_mask [symmetric] unsigned_take_bit_eq unsigned_drop_bit_eq take_bit_eq_mod [where 'a = nat] drop_bit_eq_div [where 'a = nat]
        flip: take_bit_eq_mask)
qed

lemma radix_digit_less: "radix_digit bits getter start x < 2 ^ bits"
  by (simp add: radix_digit_eq)

lemma radix_part_spec:
  assumes "start < 64" "length out = length xs"
  shows "radix_part bits getter xs out start = Ret (sort_key (radix_digit bits getter start) xs)"
proof -
  let ?d = "radix_digit bits getter start" and ?n = "2 ^ bits :: nat"
  have d: "\<forall>x\<in>set xs. ?d x < ?n" by (simp add: radix_digit_less)
  from scatter_spec [of "[]" xs ?d ?n out] d assms(2)
  obtain out' where o: "scatter ?d xs (map (\<lambda>b. below ?d b xs) [0..<?n]) out = Ret out'" "length out' = length xs"
      "\<forall>b<?n. \<forall>j<occurs ?d b xs. out' ! (below ?d b xs + j) = filter (\<lambda>x. ?d x = b) xs ! j"
    by (auto simp: occurs_def)
  have "out' = sort_key ?d xs"
  proof (rule nth_equalityI)
    fix i assume "i < length out'"
    then have "i < length (sort_key ?d xs)" using o(2) by simp
    from nth_concat_map [OF this [unfolded sort_key_buckets [OF d]]] o(3)
    show "out' ! i = sort_key ?d xs ! i" unfolding sort_key_buckets [OF d] by (auto simp: occurs_def below_def)
  qed (simp add: o(2))
  then show ?thesis
    using o(1) assms(1) bucket_counts_spec [OF d] bucket_starts_spec [of ?n ?d xs] by (simp add: radix_part_def Let_def)
qed


section \<open>Passes from the low digit up\<close>

lemma sorted_by_both:
  fixes f :: "'a \<Rightarrow> nat" and g :: "'a \<Rightarrow> nat"
  assumes "sorted (map f ys)" "\<And>c. sorted (map g (filter (\<lambda>x. f x = c) ys))"
    and "\<And>x y. f x < f y \<or> f x = f y \<and> g x \<le> g y \<Longrightarrow> h x \<le> (h y :: nat)"
  shows "sorted (map h ys)"
  using assms(1,2)
proof (induction ys)
  case (Cons y ys)
  have "sorted (map g (filter (\<lambda>x. f x = c) ys))" for c
    using Cons.prems(2) [of c] by (simp split: if_splits)
  with Cons have "sorted (map h ys)" by simp
  moreover have "h y \<le> h z" if "z \<in> set ys" for z
  proof (rule assms(3), cases "f y = f z")
    case True
    then show "f y < f z \<or> f y = f z \<and> g y \<le> g z" using Cons.prems(2) [of "f y"] that by auto
  next
    case False
    then show "f y < f z \<or> f y = f z \<and> g y \<le> g z" using Cons.prems(1) that by fastforce
  qed
  ultimately show ?case by simp
qed simp

lemma sort_key_twice:
  fixes f g h :: "'a \<Rightarrow> nat"
  assumes "\<And>x y. h x \<le> h y \<longleftrightarrow> f x < f y \<or> f x = f y \<and> g x \<le> g y"
  shows "sort_key f (sort_key g xs) = sort_key h xs"
proof (rule properties_for_sort_key [symmetric])
  have same: "h k = h x \<longleftrightarrow> g x = g k \<and> f x = f k" for k x
    using assms [of k x] assms [of x k] by (simp add: eq_iff) linarith
  show "sorted (map h (sort_key f (sort_key g xs)))"
    by (rule sorted_by_both [where f = f and g = g]) (simp_all add: sort_key_stable assms sorted_filter)
  fix k
  let ?F = "filter (\<lambda>x. f x = f k)" and ?G = "filter (\<lambda>x. g x = g k)"
  have both: "filter (\<lambda>x. h k = h x) ys = ?G (?F ys)" for ys
    by (auto simp: same intro: filter_cong)
  have swap: "?G (?F ys) = ?F (?G ys)" for ys
    by (simp add: conj_commute)
  have "?G (?F (sort_key f (sort_key g xs))) = ?G (?F (sort_key g xs))" by (simp only: sort_key_stable)
  also have "\<dots> = ?G (?F xs)" by (simp only: swap sort_key_stable)
  finally show "filter (\<lambda>x. h k = h x) (sort_key f (sort_key g xs)) = filter (\<lambda>x. h k = h x) xs"
    unfolding both .
qed simp

definition low_bits :: "nat \<Rightarrow> ('a \<Rightarrow> 64 word) \<Rightarrow> 'a \<Rightarrow> nat" where
  "low_bits n getter x = unat (getter x) mod 2 ^ n"

lemma sort_next_digit:
  "sort_key (radix_digit bits getter start) (sort_key (low_bits start getter) xs) = sort_key (low_bits (start + bits) getter) xs"
proof (rule sort_key_twice)
  fix x y
  have low: "low_bits (start + bits) getter z = 2 ^ start * radix_digit bits getter start z + low_bits start getter z" for z
    by (simp add: low_bits_def radix_digit_eq power_add mod_mult2_eq)
  have less: "2 ^ start * a + r < 2 ^ start * b + s" if "a < b" "r < 2 ^ start" for a b r s :: nat
  proof -
    have "2 ^ start * a + r < 2 ^ start * Suc a" using that(2) by simp
    also have "\<dots> \<le> 2 ^ start * b" using that(1) by (intro mult_le_mono2) simp
    finally show ?thesis by simp
  qed
  have "low_bits start getter z < 2 ^ start" for z by (simp add: low_bits_def)
  with less [of "radix_digit bits getter start x" "radix_digit bits getter start y" "low_bits start getter x" "low_bits start getter y"]
    less [of "radix_digit bits getter start y" "radix_digit bits getter start x" "low_bits start getter y" "low_bits start getter x"]
  show "low_bits (start + bits) getter x \<le> low_bits (start + bits) getter y \<longleftrightarrow>
      radix_digit bits getter start x < radix_digit bits getter start y \<or>
      radix_digit bits getter start x = radix_digit bits getter start y \<and> low_bits start getter x \<le> low_bits start getter y"
    unfolding low
    by (cases "radix_digit bits getter start x" "radix_digit bits getter start y" rule: linorder_cases) (simp_all add: not_le less_imp_le)
qed

lemma radix_pass:
  assumes "p * bits < 64" "length out = length xs"
  shows "radix_part bits getter (sort_key (low_bits (p * bits) getter) xs) out (p * bits) =
    Ret (sort_key (low_bits (Suc p * bits) getter) xs)"
  using radix_part_spec [OF assms(1), of out "sort_key (low_bits (p * bits) getter) xs" bits getter] assms(2)
  by (simp add: sort_next_digit add.commute)

lemma radix_loop_spec:
  assumes "even limit" "limit * bits \<le> 64" "0 < bits"
  shows "even pass \<Longrightarrow> pass \<le> limit \<Longrightarrow> length aux = length xs \<Longrightarrow>
    \<exists>aux'. length aux' = length xs \<and>
      radix_loop bits getter pass limit (sort_key (low_bits (pass * bits) getter) xs) aux = Ret (sort_key (low_bits (limit * bits) getter) xs, aux')"
proof (induction "limit - pass" arbitrary: pass aux rule: less_induct)
  case less
  show ?case
  proof (cases "pass < limit")
    case False
    with less.prems show ?thesis by (subst radix_loop.simps) auto
  next
    case True
    with less.prems assms(1) have two: "Suc pass < limit" by (metis Suc_lessI even_Suc)
    have room: "q * bits < 64" if "q < limit" for q
      using mult_less_mono1 [OF that assms(3)] assms(2) by (rule less_le_trans)
    note p1 = radix_pass [OF room [OF True], of aux xs getter] and p2 = radix_pass [OF room [OF two], of _ xs getter]
    have "limit - (pass + 2) < limit - pass" using True by simp
    from less.hyps [OF this, of "sort_key (low_bits (Suc pass * bits) getter) xs"] less.prems two
    obtain aux' where "length aux' = length xs" "radix_loop bits getter (pass + 2) limit (sort_key (low_bits ((pass + 2) * bits) getter) xs)
        (sort_key (low_bits (Suc pass * bits) getter) xs) = Ret (sort_key (low_bits (limit * bits) getter) xs, aux')" by auto
    then show ?thesis
      using True less.prems p1 p2 by (subst radix_loop.simps) (simp add: add_mult_distrib ac_simps)
  qed
qed

text \<open>
  C24. Radix sort ends, stays inside its buffers and is the stable sort by the low bits of the
  key: for a number of bits that is a multiple of the digit's width and at most 64, elements
  are ordered by the key modulo a power of two, equal ones in their old order.
\<close>

theorem radix_sort_is_stable_sort:
  assumes "0 < bits" "n mod bits = 0" "n \<le> 64"
  shows "radix_sort bits n getter dflt xs = Ret (sort_key (\<lambda>x. unat (getter x) mod 2 ^ n) xs)"
proof (cases "xs = []")
  case False
  define passes where "passes = n div bits"
  let ?limit = "passes - passes mod 2"
  have n: "n = passes * bits" using assms(2) unfolding passes_def by (metis add.right_neutral div_mult_mod_eq)
  have ev: "even ?limit" by presburger
  have lim: "?limit * bits \<le> 64"
    using mult_le_mono1 [of ?limit passes bits] assms(3) unfolding n by linarith
  have "low_bits 0 getter = (\<lambda>x. 0)" by (simp add: low_bits_def fun_eq_iff)
  then have start: "sort_key (low_bits 0 getter) xs = xs" by (simp add: sort_key_const)
  from radix_loop_spec [OF ev lim assms(1), of 0 "replicate (length xs) dflt" xs getter]
  obtain aux where a: "length aux = length xs"
      "radix_loop bits getter 0 ?limit xs (replicate (length xs) dflt) = Ret (sort_key (low_bits (?limit * bits) getter) xs, aux)"
    by (auto simp: start)
  have fin: "sort_key (low_bits (passes * bits) getter) xs = sort_key (\<lambda>x. unat (getter x) mod 2 ^ n) xs"
    by (simp add: low_bits_def [abs_def] n)
  show ?thesis
  proof (cases "passes mod 2 = 1")
    case False
    then have "?limit = passes" by simp
    with a fin False \<open>xs \<noteq> []\<close> show ?thesis by (simp add: radix_sort_def passes_def [symmetric])
  next
    case True
    then have p: "passes = Suc (passes - 1)" by (cases passes) simp_all
    have "(passes - 1) * bits < 64" using p assms(1,3) unfolding n by (metis add_less_cancel_left less_add_same_cancel1 add.commute le_less_trans mult_Suc not_less order_less_le_trans)
    from radix_pass [OF this a(1), of getter] a(2) fin True \<open>xs \<noteq> []\<close> p show ?thesis
      by (simp add: radix_sort_def passes_def [symmetric])
  qed
qed (simp add: radix_sort_def)

theorem radix_sort_is_stable_sort_witness:
  "radix_sort 4 8 (of_nat \<circ> fst) (0, 0) [(258, 0), (17, 1), (2, 2), (17, 3 :: nat)] = Ret [(258, 0), (2, 2), (17, 1), (17, 3)]"
  by (subst radix_sort_is_stable_sort) (simp_all add: unat_of_nat)

end
