(* ===== verification/Adjacency.thy ===== *)
theory Adjacency
  imports Prelude
begin

text \<open>
  The adjacency matrix of \<open>core/common/entt.hpp\<close> (\<open>entt::adjacency_matrix\<close>): a square of
  flags in one vector, with iterators that skip the absent edges. The category, directed or
  undirected, is an argument of the operations that look at it.
\<close>

section \<open>Loops\<close>

text \<open>A \<open>for\<close> over a known sequence, whose body may fail.\<close>

fun ofold :: "('x \<Rightarrow> 's \<Rightarrow> 's outcome) \<Rightarrow> 'x list \<Rightarrow> 's \<Rightarrow> 's outcome" where
  "ofold f [] s = Ret s"
| "ofold f (x # xs) s = obind (f x s) (ofold f xs)"

lemma ofold_fun: "ofold f [] = Ret" "ofold f (x # xs) = (\<lambda>s. obind (f x s) (ofold f xs))"
  by (rule ext, simp)+

text \<open>A loop whose body implements an operation \<open>g\<close> on abstract states implements its fold.\<close>

lemma ofold_refines:
  assumes "\<And>x s. x \<in> set xs \<Longrightarrow> ok s \<Longrightarrow> \<exists>s'. f x s = Ret s' \<and> ok s' \<and> view s' = g x (view s)"
  shows "ok s \<Longrightarrow> \<exists>s'. ofold f xs s = Ret s' \<and> ok s' \<and> view s' = fold g xs (view s)"
  using assms
proof (induction xs arbitrary: s)
  case (Cons x xs)
  then obtain s1 where s1: "f x s = Ret s1" "ok s1" "view s1 = g x (view s)" by (metis list.set_intros(1))
  from Cons.IH [OF s1(2)] Cons.prems(2) s1 show ?case by simp
qed simp

section \<open>The matrix\<close>

record adjacency_matrix =
  matrix :: "nat list"
  vert :: nat

datatype graph_category = Directed_tag | Undirected_tag

text \<open>A vector of \<open>size_t\<close> longer than \<open>max_size()\<close> is refused; the product wraps before.\<close>

definition vector_max :: nat where
  "vector_max = (2 ^ 63 - 1) div 8"

definition matrix_new :: "nat \<Rightarrow> adjacency_matrix outcome" where
  "matrix_new v =
     (let n = v * v mod size_bound in
      if n > vector_max then Throws ''cannot create std::vector larger than max_size()''
      else Ret \<lparr>matrix = replicate n 0, vert = v\<rparr>)"

definition matrix_clear :: "adjacency_matrix \<Rightarrow> adjacency_matrix" where
  "matrix_clear m = m\<lparr>matrix := [], vert := 0\<rparr>"

definition matrix_swap :: "adjacency_matrix \<Rightarrow> adjacency_matrix \<Rightarrow> adjacency_matrix \<times> adjacency_matrix" where
  "matrix_swap a b =
     (a\<lparr>matrix := matrix b, vert := vert b\<rparr>, b\<lparr>matrix := matrix a, vert := vert a\<rparr>)"

definition matrix_move :: "adjacency_matrix \<Rightarrow> adjacency_matrix \<times> adjacency_matrix" where
  "matrix_move other = (\<lparr>matrix = matrix other, vert = vert other\<rparr>, other\<lparr>matrix := [], vert := 0\<rparr>)"

definition vertices :: "adjacency_matrix \<Rightarrow> nat list" where
  "vertices m = [0..<vert m]"

definition matrix_pos :: "adjacency_matrix \<Rightarrow> nat \<Rightarrow> nat \<Rightarrow> nat" where
  "matrix_pos m lhs rhs = (lhs * vert m + rhs) mod size_bound"

definition matrix_contains :: "nat \<Rightarrow> nat \<Rightarrow> adjacency_matrix \<Rightarrow> bool" where
  "matrix_contains lhs rhs m =
     (let pos = matrix_pos m lhs rhs in pos < length (matrix m) \<and> matrix m ! pos \<noteq> 0)"

section \<open>Edge iterators\<close>

record edge_iterator =
  it_vert :: nat
  it_pos :: nat
  it_last :: nat
  it_offset :: nat

text \<open>
  The loop of the constructor and of the increment: on to the next edge, or to \<open>last\<close>. Reading
  behind the vector is undefined, and with a step of 0 the loop does not end.
\<close>

function skip_to_edge :: "nat list \<Rightarrow> nat \<Rightarrow> nat \<Rightarrow> nat \<Rightarrow> nat outcome" where
  "skip_to_edge xs pos to_pos step =
     (if pos = to_pos then Ret pos
      else if \<not> pos < length xs then Undefined
      else if xs ! pos \<noteq> 0 then Ret pos
      else if step = 0 then Diverges
      else skip_to_edge xs (pos + step) to_pos step)"
  by pat_completeness auto
termination by (relation "measure (\<lambda>(xs, pos, to_pos, step). length xs - pos)") auto

declare skip_to_edge.simps [simp del]

definition edge_begin :: "nat list \<Rightarrow> nat \<Rightarrow> nat \<Rightarrow> nat \<Rightarrow> nat \<Rightarrow> edge_iterator outcome" where
  "edge_begin xs n from_pos to_pos step =
     obind (skip_to_edge xs from_pos to_pos step) (\<lambda>pos.
       Ret \<lparr>it_vert = n, it_pos = pos, it_last = to_pos, it_offset = step\<rparr>)"

definition edge_next :: "nat list \<Rightarrow> edge_iterator \<Rightarrow> edge_iterator outcome" where
  "edge_next xs it =
     obind (skip_to_edge xs (it_pos it + it_offset it) (it_last it) (it_offset it)) (\<lambda>pos. Ret (it\<lparr>it_pos := pos\<rparr>))"

definition edge_deref :: "edge_iterator \<Rightarrow> (nat \<times> nat) outcome" where
  "edge_deref it = (if it_vert it = 0 then Undefined else Ret (it_pos it div it_vert it, it_pos it mod it_vert it))"

definition edge_eq :: "edge_iterator \<Rightarrow> edge_iterator \<Rightarrow> bool" where
  "edge_eq a b \<longleftrightarrow> it_pos a = it_pos b"

text \<open>What a \<open>for\<close> over a pair of iterators visits.\<close>

partial_function (option) edge_walk :: "nat list \<Rightarrow> edge_iterator \<Rightarrow> edge_iterator \<Rightarrow> (nat \<times> nat) list \<Rightarrow> (nat \<times> nat) list outcome option" where
  "edge_walk xs it stop acc =
     (if edge_eq it stop then Some (Ret acc)
      else case edge_deref it of
          Ret e \<Rightarrow> (case edge_next xs it of Ret it' \<Rightarrow> edge_walk xs it' stop (acc @ [e])
                    | Throws m \<Rightarrow> Some (Throws m) | Aborts \<Rightarrow> Some Aborts | Undefined \<Rightarrow> Some Undefined | Diverges \<Rightarrow> Some Diverges)
        | Throws m \<Rightarrow> Some (Throws m) | Aborts \<Rightarrow> Some Aborts | Undefined \<Rightarrow> Some Undefined | Diverges \<Rightarrow> Some Diverges)"

definition edge_range :: "adjacency_matrix \<Rightarrow> nat \<Rightarrow> nat \<Rightarrow> nat \<Rightarrow> (nat \<times> nat) list outcome" where
  "edge_range m from_pos to_pos step =
     obind (edge_begin (matrix m) (vert m) from_pos to_pos step) (\<lambda>first.
     obind (edge_begin (matrix m) (vert m) to_pos to_pos step) (\<lambda>stop.
       of_loop (edge_walk (matrix m) first stop [])))"

definition edges :: "adjacency_matrix \<Rightarrow> (nat \<times> nat) list outcome" where
  "edges m = edge_range m 0 (length (matrix m)) 1"

definition out_edges :: "nat \<Rightarrow> adjacency_matrix \<Rightarrow> (nat \<times> nat) list outcome" where
  "out_edges vertex m = edge_range m (vertex * vert m) (vertex * vert m + vert m) 1"

definition in_edges :: "nat \<Rightarrow> adjacency_matrix \<Rightarrow> (nat \<times> nat) list outcome" where
  "in_edges vertex m = edge_range m vertex (vert m * vert m + vertex) (vert m)"

section \<open>Changing the matrix\<close>

text \<open>For an undirected graph both flags are compared and the reverse one is set first.\<close>

definition set_reverse :: "graph_category \<Rightarrow> nat \<Rightarrow> nat \<Rightarrow> nat \<Rightarrow> adjacency_matrix \<Rightarrow> adjacency_matrix outcome" where
  "set_reverse cat lhs rhs flag m =
     (case cat of Directed_tag \<Rightarrow> Ret m
      | Undirected_tag \<Rightarrow>
          (let pos = matrix_pos m lhs rhs; rev = matrix_pos m rhs lhs in
           if \<not> (pos < length (matrix m) \<and> rev < length (matrix m)) then Undefined
           else if matrix m ! pos \<noteq> matrix m ! rev then Aborts
           else Ret (m\<lparr>matrix := (matrix m)[rev := flag]\<rparr>)))"

definition exchange_at :: "nat \<Rightarrow> nat \<Rightarrow> adjacency_matrix \<Rightarrow> (nat \<times> adjacency_matrix) outcome" where
  "exchange_at pos flag m =
     (if pos < length (matrix m) then Ret (matrix m ! pos, m\<lparr>matrix := (matrix m)[pos := flag]\<rparr>) else Undefined)"

definition matrix_insert ::
    "graph_category \<Rightarrow> nat \<Rightarrow> nat \<Rightarrow> adjacency_matrix \<Rightarrow> (edge_iterator \<times> bool \<times> adjacency_matrix) outcome" where
  "matrix_insert cat lhs rhs m =
     (let pos = matrix_pos m lhs rhs in
      obind (set_reverse cat lhs rhs 1 m) (\<lambda>m1.
      obind (exchange_at pos 1 m1) (\<lambda>(old, m2).
      obind (edge_begin (matrix m2) (vert m2) pos (length (matrix m2)) 1) (\<lambda>it.
        Ret (it, old = 0, m2)))))"

definition matrix_erase :: "graph_category \<Rightarrow> nat \<Rightarrow> nat \<Rightarrow> adjacency_matrix \<Rightarrow> (nat \<times> adjacency_matrix) outcome" where
  "matrix_erase cat lhs rhs m =
     obind (set_reverse cat lhs rhs 0 m) (\<lambda>m1. exchange_at (matrix_pos m lhs rhs) 0 m1)"

definition matrix_resize :: "graph_category \<Rightarrow> nat \<Rightarrow> adjacency_matrix \<Rightarrow> adjacency_matrix outcome" where
  "matrix_resize cat n m =
     obind (matrix_new n) (\<lambda>other.
     obind (edges m) (\<lambda>es.
     obind (ofold (\<lambda>(lhs, rhs) o1. obind (matrix_insert cat lhs rhs o1) (\<lambda>(it, inserted, o2). Ret o2)) es other) (\<lambda>other'.
       Ret (snd (matrix_swap other' m)))))"


section \<open>The graph of a matrix\<close>

definition matrix_ok :: "graph_category \<Rightarrow> adjacency_matrix \<Rightarrow> bool" where
  "matrix_ok cat m \<longleftrightarrow>
     length (matrix m) = vert m * vert m \<and> vert m * vert m \<le> vector_max \<and> set (matrix m) \<subseteq> {0, 1} \<and>
     (cat = Undirected_tag \<longrightarrow> (\<forall>i<vert m. \<forall>j<vert m. matrix m ! (i * vert m + j) = matrix m ! (j * vert m + i)))"

definition graph_of :: "adjacency_matrix \<Rightarrow> (nat \<times> nat) set" where
  "graph_of m = {(i, j). i < vert m \<and> j < vert m \<and> matrix m ! (i * vert m + j) \<noteq> 0}"

lemma square_pos: "i < n \<Longrightarrow> j < n \<Longrightarrow> i * n + j < n * (n :: nat)"
proof -
  assume "i < n" "j < n"
  then have "i * n + j < Suc i * n" by simp
  also have "\<dots> \<le> n * n" using \<open>i < n\<close> by (intro mult_le_mono1) simp
  finally show ?thesis .
qed

lemma square_pos_eq: "j < n \<Longrightarrow> b < n \<Longrightarrow> i * n + j = a * n + b \<longleftrightarrow> i = a \<and> j = (b :: nat)"
proof
  assume "j < n" "b < n" "i * n + j = a * n + b"
  then have "(i * n + j) div n = (a * n + b) div n" "(i * n + j) mod n = (a * n + b) mod n" by simp_all
  with \<open>j < n\<close> \<open>b < n\<close> show "i = a \<and> j = b" by simp
qed simp

lemma matrix_pos_eq:
  assumes "matrix_ok cat m" "i < vert m" "j < vert m"
  shows "matrix_pos m i j = i * vert m + j" "i * vert m + j < length (matrix m)"
  using square_pos [OF assms(2,3)] assms(1) by (simp_all add: matrix_ok_def matrix_pos_def vector_max_def size_bound_def)

lemma matrix_contains_eq:
  "matrix_ok cat m \<Longrightarrow> i < vert m \<Longrightarrow> j < vert m \<Longrightarrow> matrix_contains i j m \<longleftrightarrow> (i, j) \<in> graph_of m"
  using matrix_pos_eq [of cat m i j] by (simp add: matrix_contains_def graph_of_def)

lemma matrix_new_ok:
  assumes "n * n \<le> vector_max"
  shows "\<exists>m. matrix_new n = Ret m \<and> matrix_ok cat m \<and> vert m = n \<and> graph_of m = {}"
proof -
  have "n * n mod size_bound = n * n" using assms by (simp add: vector_max_def size_bound_def)
  with assms show ?thesis
    by (auto simp: matrix_new_def matrix_ok_def graph_of_def square_pos vector_max_def)
qed

text \<open>Writing one flag; for an undirected graph, both.\<close>

lemma graph_of_write:
  assumes "matrix_ok Directed_tag m" "i < vert m" "j < vert m" "flag \<le> 1"
  shows "matrix_ok Directed_tag (m\<lparr>matrix := (matrix m)[i * vert m + j := flag]\<rparr>)"
    and "graph_of (m\<lparr>matrix := (matrix m)[i * vert m + j := flag]\<rparr>) =
      (if flag = 0 then graph_of m - {(i, j)} else insert (i, j) (graph_of m))"
proof -
  have "flag = 0 \<or> flag = 1" using assms(4) by auto
  then show "matrix_ok Directed_tag (m\<lparr>matrix := (matrix m)[i * vert m + j := flag]\<rparr>)"
    using assms set_update_subset_insert [of "matrix m" "i * vert m + j" flag] by (auto simp: matrix_ok_def)
  show "graph_of (m\<lparr>matrix := (matrix m)[i * vert m + j := flag]\<rparr>) =
      (if flag = 0 then graph_of m - {(i, j)} else insert (i, j) (graph_of m))"
    using assms matrix_pos_eq(2) [OF assms(1-3)]
    by (auto simp: graph_of_def nth_list_update square_pos_eq matrix_ok_def)
qed

lemma directed_ok: "matrix_ok cat m \<Longrightarrow> matrix_ok Directed_tag m"
  by (simp add: matrix_ok_def)

lemma flag_cases: "matrix_ok cat m \<Longrightarrow> p < length (matrix m) \<Longrightarrow> matrix m ! p = 0 \<or> matrix m ! p = 1"
proof -
  assume "matrix_ok cat m" "p < length (matrix m)"
  then have "matrix m ! p \<in> {0, 1}" using nth_mem [of p "matrix m"] unfolding matrix_ok_def by blast
  then show ?thesis by simp
qed

lemma matrix_ok_sym: "matrix_ok cat m \<longleftrightarrow> matrix_ok Directed_tag m \<and> (cat = Undirected_tag \<longrightarrow> sym (graph_of m))"
proof (cases cat)
  case Undirected_tag
  have "(matrix m ! (i * vert m + j) = matrix m ! (j * vert m + i)) \<longleftrightarrow> ((i, j) \<in> graph_of m \<longleftrightarrow> (j, i) \<in> graph_of m)"
    if "matrix_ok Directed_tag m" "i < vert m" "j < vert m" for i j
    using flag_cases [OF that(1), of "i * vert m + j"] flag_cases [OF that(1), of "j * vert m + i"] that
      matrix_pos_eq(2) [OF that] matrix_pos_eq(2) [OF that(1,3,2)] by (auto simp: graph_of_def)
  moreover have "sym (graph_of m) \<longleftrightarrow> (\<forall>i<vert m. \<forall>j<vert m. (i, j) \<in> graph_of m \<longleftrightarrow> (j, i) \<in> graph_of m)"
    by (auto simp: sym_def graph_of_def)
  ultimately show ?thesis using Undirected_tag by (auto simp: matrix_ok_def)
qed (simp add: matrix_ok_def)

section \<open>Inserting and erasing edges\<close>

definition both_ways :: "graph_category \<Rightarrow> nat \<Rightarrow> nat \<Rightarrow> (nat \<times> nat) set" where
  "both_ways cat i j = (if cat = Undirected_tag then {(i, j), (j, i)} else {(i, j)})"

lemma set_reverse_spec:
  assumes "matrix_ok cat m" "i < vert m" "j < vert m" "flag \<le> 1"
  shows "\<exists>m1. set_reverse cat i j flag m = Ret m1 \<and> matrix_ok Directed_tag m1 \<and> vert m1 = vert m \<and>
    graph_of m1 = (if cat = Undirected_tag then (if flag = 0 then graph_of m - {(j, i)} else insert (j, i) (graph_of m)) else graph_of m)"
proof (cases cat)
  case Undirected_tag
  then have "matrix m ! (i * vert m + j) = matrix m ! (j * vert m + i)" using assms by (simp add: matrix_ok_def)
  with Undirected_tag assms matrix_pos_eq [OF assms(1-3)] matrix_pos_eq [OF assms(1,3,2)] graph_of_write [OF directed_ok [OF assms(1)] assms(3,2,4)]
  show ?thesis by (simp add: set_reverse_def Let_def)
qed (use assms in \<open>simp add: set_reverse_def directed_ok\<close>)

lemma exchange_at_spec:
  assumes "matrix_ok Directed_tag m" "i < vert m" "j < vert m" "flag \<le> 1"
  shows "\<exists>old m1. exchange_at (i * vert m + j) flag m = Ret (old, m1) \<and> old \<le> 1 \<and> (old = 0 \<longleftrightarrow> (i, j) \<notin> graph_of m) \<and>
    matrix_ok Directed_tag m1 \<and> vert m1 = vert m \<and>
    graph_of m1 = (if flag = 0 then graph_of m - {(i, j)} else insert (i, j) (graph_of m))"
proof -
  let ?p = "i * vert m + j"
  have p: "?p < length (matrix m)" by (rule matrix_pos_eq(2) [OF assms(1-3)])
  have "matrix m ! ?p = 0 \<longleftrightarrow> (i, j) \<notin> graph_of m" using assms(2,3) by (simp add: graph_of_def)
  moreover have "matrix m ! ?p \<le> 1" using flag_cases [OF assms(1) p] by auto
  moreover have "exchange_at ?p flag m = Ret (matrix m ! ?p, m\<lparr>matrix := (matrix m)[?p := flag]\<rparr>)"
    using p by (simp add: exchange_at_def)
  ultimately show ?thesis using graph_of_write [OF assms] by (intro exI conjI) auto
qed

lemma matrix_insert_spec:
  assumes "matrix_ok cat m" "i < vert m" "j < vert m"
  shows "\<exists>it m'. matrix_insert cat i j m = Ret (it, (i, j) \<notin> graph_of m \<and> (cat = Directed_tag \<or> i \<noteq> j), m') \<and>
    edge_deref it = Ret (i, j) \<and> matrix_ok cat m' \<and> vert m' = vert m \<and> graph_of m' = graph_of m \<union> both_ways cat i j"
proof -
  obtain m1 where m1: "set_reverse cat i j 1 m = Ret m1" "matrix_ok Directed_tag m1" "vert m1 = vert m"
      "graph_of m1 = (if cat = Undirected_tag then insert (j, i) (graph_of m) else graph_of m)"
    using set_reverse_spec [OF assms, of 1] by auto
  obtain old m2 where m2: "exchange_at (i * vert m + j) 1 m1 = Ret (old, m2)" "old = 0 \<longleftrightarrow> (i, j) \<notin> graph_of m1"
      "matrix_ok Directed_tag m2" "vert m2 = vert m" "graph_of m2 = insert (i, j) (graph_of m1)"
    using exchange_at_spec [OF m1(2), of i j 1] assms m1(3) by auto
  have p: "i * vert m + j < length (matrix m2)" "matrix m2 ! (i * vert m + j) \<noteq> 0"
    using matrix_pos_eq(2) [OF m2(3), of i j] m2(4,5) assms by (auto simp: graph_of_def)
  then have "edge_begin (matrix m2) (vert m2) (i * vert m + j) (length (matrix m2)) 1 =
      Ret \<lparr>it_vert = vert m2, it_pos = i * vert m + j, it_last = length (matrix m2), it_offset = 1\<rparr>"
    by (subst edge_begin_def, subst skip_to_edge.simps) simp
  moreover have "sym (graph_of m) \<Longrightarrow> sym (insert (i, j) (insert (j, i) (graph_of m)))" by (auto simp: sym_def)
  then have "matrix_ok cat m2" using m2 m1(4) assms(1) matrix_ok_sym [of cat m2] matrix_ok_sym [of cat m] by simp
  moreover have "cat = Directed_tag \<or> cat = Undirected_tag" by (cases cat) simp_all
  ultimately show ?thesis
    using m1 m2 assms matrix_pos_eq(1) [OF assms]
    by (auto simp: matrix_insert_def edge_deref_def both_ways_def)
qed

lemma matrix_erase_spec:
  assumes "matrix_ok cat m" "i < vert m" "j < vert m"
  shows "\<exists>m'. matrix_erase cat i j m = Ret (if (i, j) \<in> graph_of m \<and> (cat = Directed_tag \<or> i \<noteq> j) then 1 else 0, m') \<and>
    matrix_ok cat m' \<and> vert m' = vert m \<and> graph_of m' = graph_of m - both_ways cat i j"
proof -
  obtain m1 where m1: "set_reverse cat i j 0 m = Ret m1" "matrix_ok Directed_tag m1" "vert m1 = vert m"
      "graph_of m1 = (if cat = Undirected_tag then graph_of m - {(j, i)} else graph_of m)"
    using set_reverse_spec [OF assms, of 0] by auto
  obtain old m2 where m2: "exchange_at (i * vert m + j) 0 m1 = Ret (old, m2)" "old \<le> 1" "old = 0 \<longleftrightarrow> (i, j) \<notin> graph_of m1"
      "matrix_ok Directed_tag m2" "vert m2 = vert m" "graph_of m2 = graph_of m1 - {(i, j)}"
    using exchange_at_spec [OF m1(2), of i j 0] assms m1(3) by auto
  have "sym (graph_of m) \<Longrightarrow> sym (graph_of m - {(j, i)} - {(i, j)})" by (auto simp: sym_def)
  then have "matrix_ok cat m2" using m2 m1(4) assms(1) matrix_ok_sym [of cat m2] matrix_ok_sym [of cat m] by simp
  moreover have "cat = Directed_tag \<or> cat = Undirected_tag" by (cases cat) simp_all
  moreover have "old = (if (i, j) \<in> graph_of m1 then 1 else 0)" using m2(2,3) by (cases old) auto
  ultimately show ?thesis
    using m1 m2 assms matrix_pos_eq(1) [OF assms]
    by (auto simp: matrix_erase_def both_ways_def)
qed


section \<open>Iterating over edges\<close>

lemma skip_to_edge_spec:
  assumes "0 < s"
  shows "\<forall>t<k. p + t * s < length xs \<Longrightarrow>
    \<exists>r\<le>k. skip_to_edge xs p (p + k * s) s = Ret (p + r * s) \<and> (\<forall>t<r. xs ! (p + t * s) = 0) \<and> (r < k \<longrightarrow> xs ! (p + r * s) \<noteq> 0)"
proof (induction k arbitrary: p)
  case 0
  then show ?case by (subst skip_to_edge.simps) simp
next
  case (Suc k)
  have in0: "p < length xs" using Suc.prems [rule_format, of 0] by simp
  show ?case
  proof (cases "xs ! p = 0")
    case False
    with in0 assms show ?thesis by (intro exI [of _ 0]) (simp add: skip_to_edge.simps [of xs p])
  next
    case True
    have "\<forall>t<k. p + s + t * s < length xs" using Suc.prems by (metis Suc_mono add.assoc mult_Suc)
    from Suc.IH [OF this] obtain r where r: "r \<le> k" "skip_to_edge xs (p + s) (p + s + k * s) s = Ret (p + s + r * s)"
        "\<forall>t<r. xs ! (p + s + t * s) = 0" "r < k \<longrightarrow> xs ! (p + s + r * s) \<noteq> 0" by blast
    have "xs ! (p + t * s) = 0" if "t < Suc r" for t using r(3) True that by (cases t) (simp_all add: add.assoc)
    then show ?thesis using r(1,2,4) True in0 assms
      by (intro exI [of _ "Suc r"]) (simp add: skip_to_edge.simps [of xs p] add.assoc)
  qed
qed

text \<open>The edges at \<open>k\<close> positions from \<open>p\<close> in steps of \<open>s\<close>.\<close>

definition edges_at :: "nat list \<Rightarrow> nat \<Rightarrow> nat \<Rightarrow> nat \<Rightarrow> nat \<Rightarrow> (nat \<times> nat) list" where
  "edges_at xs n p k s = map (\<lambda>q. (q div n, q mod n)) (filter (\<lambda>q. xs ! q \<noteq> 0) (map (\<lambda>t. p + t * s) [0..<k]))"

lemma edges_at_split:
  assumes "r \<le> k" "\<forall>t<r. xs ! (p + t * s) = 0"
  shows "edges_at xs n p k s = edges_at xs n (p + r * s) (k - r) s"
proof -
  have "map (\<lambda>t. p + t * s) [0..<k] = map (\<lambda>t. p + t * s) [0..<r] @ map (\<lambda>t. p + r * s + t * s) [0..<k - r]"
    using assms(1) by (intro nth_equalityI) (auto simp: nth_append algebra_simps)
  moreover have "filter (\<lambda>q. xs ! q \<noteq> 0) (map (\<lambda>t. p + t * s) [0..<r]) = []"
    using assms(2) by (auto simp: filter_empty_conv)
  ultimately show ?thesis by (simp only: edges_at_def filter_append) simp
qed

lemma edges_at_Suc: "xs ! p \<noteq> 0 \<Longrightarrow> edges_at xs n p (Suc k) s = (p div n, p mod n) # edges_at xs n (p + s) k s"
  by (simp add: edges_at_def upt_conv_Cons map_Suc_upt [symmetric] comp_def add.assoc filter_map del: upt_Suc)

lemma edge_walk_spec:
  assumes "0 < s" "0 < n" "\<forall>t<k. p + t * s < length xs"
    and "edge_begin xs n p (p + k * s) s = Ret it" "it_pos stop = p + k * s"
  shows "edge_walk xs it stop acc = Some (Ret (acc @ edges_at xs n p k s))"
  using assms(3-5)
proof (induction k arbitrary: p it acc rule: less_induct)
  case (less k)
  obtain r where r: "r \<le> k" "skip_to_edge xs p (p + k * s) s = Ret (p + r * s)"
      "\<forall>t<r. xs ! (p + t * s) = 0" "r < k \<longrightarrow> xs ! (p + r * s) \<noteq> 0"
    using skip_to_edge_spec [OF assms(1) less.prems(1)] by blast
  have it: "it = \<lparr>it_vert = n, it_pos = p + r * s, it_last = p + k * s, it_offset = s\<rparr>"
    using less.prems(2) r(2) by (simp add: edge_begin_def)
  show ?case
  proof (cases "r = k")
    case True
    then have "edges_at xs n p k s = []" using edges_at_split [OF r(1,3)] by (simp add: edges_at_def)
    then show ?thesis using True it less.prems(3) by (simp add: edge_walk.simps edge_eq_def)
  next
    case False
    define q k' where "q = p + r * s + s" and "k' = k - r - 1"
    have k: "k - r = Suc k'" "k' < k" using False r(1) by (simp_all add: k'_def)
    have stop: "p + k * s = q + k' * s"
    proof -
      have "k = r + Suc k'" using k(1) r(1) by simp
      then show ?thesis unfolding q_def by (simp add: algebra_simps)
    qed
    have ins: "\<forall>t<k'. q + t * s < length xs"
    proof (intro allI impI)
      fix t assume "t < k'"
      then have "r + Suc t < k" using k by simp
      with less.prems(1) have "p + (r + Suc t) * s < length xs" by blast
      then show "q + t * s < length xs" by (simp add: q_def algebra_simps)
    qed
    obtain r' where "skip_to_edge xs q (q + k' * s) s = Ret (q + r' * s)" using skip_to_edge_spec [OF assms(1) ins] by blast
    then have nxt: "edge_next xs it = Ret (it\<lparr>it_pos := q + r' * s\<rparr>)" "edge_begin xs n q (q + k' * s) s = Ret (it\<lparr>it_pos := q + r' * s\<rparr>)"
      by (simp_all add: edge_next_def edge_begin_def it stop q_def [symmetric])
    have ne: "\<not> edge_eq it stop" using False r(1) it less.prems(3) assms(1) by (simp add: edge_eq_def)
    have "edge_walk xs (it\<lparr>it_pos := q + r' * s\<rparr>) stop (acc @ [(it_pos it div n, it_pos it mod n)]) =
        Some (Ret (acc @ [(it_pos it div n, it_pos it mod n)] @ edges_at xs n q k' s))"
      using less.IH [OF k(2) ins nxt(2)] less.prems(3) stop by simp
    moreover have "edges_at xs n p k s = (it_pos it div n, it_pos it mod n) # edges_at xs n q k' s"
      using edges_at_split [OF r(1,3)] edges_at_Suc [of xs "p + r * s" n k' s] r(4) False r(1) k(1) by (simp add: it q_def)
    ultimately show ?thesis
      using ne nxt(1) assms(2) by (subst edge_walk.simps) (simp add: edge_deref_def it)
  qed
qed

lemma edge_range_spec:
  assumes "0 < s" "0 < vert m" "\<forall>t<k. p + t * s < length (matrix m)"
  shows "edge_range m p (p + k * s) s = Ret (edges_at (matrix m) (vert m) p k s)"
proof -
  obtain r where "skip_to_edge (matrix m) p (p + k * s) s = Ret (p + r * s)"
    using skip_to_edge_spec [OF assms(1,3)] by blast
  then obtain it where it: "edge_begin (matrix m) (vert m) p (p + k * s) s = Ret it" by (simp add: edge_begin_def)
  have "edge_begin (matrix m) (vert m) (p + k * s) (p + k * s) s =
      Ret \<lparr>it_vert = vert m, it_pos = p + k * s, it_last = p + k * s, it_offset = s\<rparr>"
    by (simp add: edge_begin_def skip_to_edge.simps)
  then show ?thesis using it edge_walk_spec [OF assms it, of _ "[]"] by (simp add: edge_range_def)
qed

lemma edge_range_empty: "edge_range m p p s = Ret []"
  by (simp add: edge_range_def edge_begin_def skip_to_edge.simps edge_walk.simps edge_eq_def)

lemma edges_eq: "0 < vert m \<Longrightarrow> edges m = Ret (edges_at (matrix m) (vert m) 0 (length (matrix m)) 1)"
  using edge_range_spec [of 1 m "length (matrix m)" 0] by (simp add: edges_def)

lemma edges_spec:
  assumes "matrix_ok cat m"
  shows "\<exists>es. edges m = Ret es \<and> set es = graph_of m \<and> distinct es"
proof (cases "vert m = 0")
  case True
  with assms show ?thesis by (simp add: edges_def edge_range_empty matrix_ok_def graph_of_def)
next
  case False
  let ?n = "vert m" and ?l = "length (matrix m)"
  have l: "?l = ?n * ?n" using assms by (simp add: matrix_ok_def)
  have e: "edges m = Ret (edges_at (matrix m) ?n 0 ?l 1)"
    using edges_eq [of m] False by simp
  have "inj_on (\<lambda>q. (q div ?n, q mod ?n)) A" for A by (rule inj_onI) (metis Pair_inject div_mult_mod_eq)
  then have "distinct (edges_at (matrix m) ?n 0 ?l 1)" by (simp add: edges_at_def distinct_map)
  moreover have "set (edges_at (matrix m) ?n 0 ?l 1) = graph_of m"
  proof -
    have "(i, j) \<in> set (edges_at (matrix m) ?n 0 ?l 1)" if "(i, j) \<in> graph_of m" for i j
    proof -
      have ij: "i < ?n" "j < ?n" "matrix m ! (i * ?n + j) \<noteq> 0" using that by (simp_all add: graph_of_def)
      then have "(i, j) = ((i * ?n + j) div ?n, (i * ?n + j) mod ?n)" by simp
      with ij square_pos [OF ij(1,2)] l show ?thesis by (force simp: edges_at_def)
    qed
    moreover have "q div ?n < ?n" if "q < ?l" for q using that l False by (simp add: less_mult_imp_div_less)
    then have "set (edges_at (matrix m) ?n 0 ?l 1) \<subseteq> graph_of m" using False by (auto simp: edges_at_def graph_of_def)
    ultimately show ?thesis by auto
  qed
  ultimately show ?thesis using e by blast
qed

lemma out_edges_spec:
  assumes "matrix_ok cat m" "i < vert m"
  shows "out_edges i m = Ret (map (Pair i) (filter (\<lambda>j. (i, j) \<in> graph_of m) [0..<vert m]))"
proof -
  have "out_edges i m = Ret (edges_at (matrix m) (vert m) (i * vert m) (vert m) 1)"
    using edge_range_spec [of 1 m "vert m" "i * vert m"] assms matrix_pos_eq(2) [OF assms] by (simp add: out_edges_def)
  also have "edges_at (matrix m) (vert m) (i * vert m) (vert m) 1 = map (Pair i) (filter (\<lambda>j. (i, j) \<in> graph_of m) [0..<vert m])"
    using assms(2) by (auto simp: edges_at_def filter_map comp_def graph_of_def intro!: map_cong filter_cong)
  finally show ?thesis .
qed

lemma in_edges_spec:
  assumes "matrix_ok cat m" "j < vert m"
  shows "in_edges j m = Ret (map (\<lambda>i. (i, j)) (filter (\<lambda>i. (i, j) \<in> graph_of m) [0..<vert m]))"
proof -
  have "\<forall>i<vert m. j + i * vert m < length (matrix m)" using matrix_pos_eq(2) [OF assms(1) _ assms(2)] by (simp add: add.commute)
  then have "in_edges j m = Ret (edges_at (matrix m) (vert m) j (vert m) (vert m))"
    using edge_range_spec [of "vert m" m "vert m" j] assms by (simp add: in_edges_def add.commute)
  also have "edges_at (matrix m) (vert m) j (vert m) (vert m) = map (\<lambda>i. (i, j)) (filter (\<lambda>i. (i, j) \<in> graph_of m) [0..<vert m])"
    using assms(2) by (auto simp: edges_at_def filter_map comp_def graph_of_def add.commute intro!: map_cong filter_cong)
  finally show ?thesis .
qed


section \<open>Resizing\<close>

lemma matrix_resize_grows:
  assumes "matrix_ok cat m" "vert m \<le> n" "n * n \<le> vector_max"
  shows "\<exists>m'. matrix_resize cat n m = Ret m' \<and> matrix_ok cat m' \<and> vert m' = n \<and> graph_of m' = graph_of m"
proof -
  obtain es where es: "edges m = Ret es" "set es = graph_of m" using edges_spec [OF assms(1)] by blast
  obtain other where other: "matrix_new n = Ret other" "matrix_ok cat other" "vert other = n" "graph_of other = {}"
    using matrix_new_ok [OF assms(3)] by blast
  let ?f = "\<lambda>(lhs, rhs) o1. obind (matrix_insert cat lhs rhs o1) (\<lambda>(it, inserted, o2). Ret o2)"
  let ?ok = "\<lambda>o1. matrix_ok cat o1 \<and> vert o1 = n"
  have "\<exists>o'. ?f e o1 = Ret o' \<and> ?ok o' \<and> graph_of o' = graph_of o1 \<union> both_ways cat (fst e) (snd e)"
    if "e \<in> set es" "?ok o1" for e o1
  proof -
    have "e \<in> graph_of m" using that(1) es(2) by simp
    then have "fst e < vert m" "snd e < vert m" by (auto simp: graph_of_def)
    with that(2) assms(2) have "fst e < vert o1" "snd e < vert o1" by simp_all
    with matrix_insert_spec [of cat o1 "fst e" "snd e"] that(2) obtain it b o' where
      "matrix_insert cat (fst e) (snd e) o1 = Ret (it, b, o')" "matrix_ok cat o'" "vert o' = vert o1" "graph_of o' = graph_of o1 \<union> both_ways cat (fst e) (snd e)"
      by blast
    with that(2) show ?thesis by (simp add: split_beta)
  qed
  from ofold_refines [where ok = ?ok and view = graph_of and f = ?f and xs = es and s = other and
      g = "\<lambda>e g. g \<union> both_ways cat (fst e) (snd e)", OF this] other(2,3)
  obtain o' where o': "ofold ?f es other = Ret o'" "?ok o'"
      "graph_of o' = fold (\<lambda>e g. g \<union> both_ways cat (fst e) (snd e)) es (graph_of other)" by blast
  have "fold (\<lambda>e g. g \<union> both_ways cat (fst e) (snd e)) xs g = g \<union> (\<Union>e\<in>set xs. both_ways cat (fst e) (snd e))" for xs g
    by (induction xs arbitrary: g) auto
  then have "graph_of o' = (\<Union>e\<in>graph_of m. both_ways cat (fst e) (snd e))" using o'(3) other(4) es(2) by simp
  moreover have "sym (graph_of m)" if "cat = Undirected_tag" using assms(1) matrix_ok_sym [of cat m] that by simp
  ultimately have g: "graph_of o' = graph_of m" by (fastforce simp: both_ways_def sym_def)
  have "m\<lparr>matrix := matrix o', vert := vert o'\<rparr> = o'" by simp
  then have "matrix_resize cat n m = Ret o'"
    using other(1) es(1) o'(1) by (simp add: matrix_resize_def matrix_swap_def)
  with o'(2) g show ?thesis by simp
qed

text \<open>Shrinking inserts the edges of dropped vertices at the position they have in the smaller square.\<close>

lemma matrix_resize_misplaces:
  "matrix_resize Directed_tag 2 \<lparr>matrix = [0, 0, 1, 0, 0, 0, 0, 0, 0], vert = 3\<rparr> =
     Ret \<lparr>matrix = [0, 0, 1, 0], vert = 2\<rparr>"
proof -
  let ?m = "\<lparr>matrix = [0, 0, 1, 0, 0, 0, 0, 0, 0], vert = 3\<rparr> :: adjacency_matrix"
  let ?z = "\<lparr>matrix = [0, 0, 0, 0], vert = 2\<rparr> :: adjacency_matrix" and ?r = "\<lparr>matrix = [0, 0, 1, 0], vert = 2\<rparr> :: adjacency_matrix"
  have e: "edges ?m = Ret [(0, 2)]" by (subst edges_eq) (simp_all add: edges_at_def)
  have n: "matrix_new 2 = Ret ?z" 
  proof -
    have "replicate 4 (0 :: nat) = [0, 0, 0, 0]" by (simp add: numeral_eq_Suc)
    then show ?thesis by (simp add: matrix_new_def vector_max_def size_bound_def)
  qed
  have "matrix_insert Directed_tag 0 2 ?z = Ret (\<lparr>it_vert = 2, it_pos = 2, it_last = 4, it_offset = 1\<rparr>, True, ?r)"
    by (simp add: matrix_insert_def set_reverse_def matrix_pos_def exchange_at_def size_bound_def edge_begin_def)
      (subst skip_to_edge.simps, simp)
  with e n show ?thesis by (simp add: matrix_resize_def matrix_swap_def)
qed

section \<open>Properties\<close>

datatype graph_op = Insert_edge nat nat | Erase_edge nat nat | Resize nat

fun graph_step :: "graph_category \<Rightarrow> graph_op \<Rightarrow> adjacency_matrix \<Rightarrow> adjacency_matrix outcome" where
  "graph_step cat (Insert_edge i j) m = obind (matrix_insert cat i j m) (\<lambda>(it, inserted, m'). Ret m')"
| "graph_step cat (Erase_edge i j) m = obind (matrix_erase cat i j m) (\<lambda>(n, m'). Ret m')"
| "graph_step cat (Resize n) m = matrix_resize cat n m"

text \<open>The same on a pair of a number of vertices and a set of edges.\<close>

fun ref_graph :: "graph_category \<Rightarrow> graph_op \<Rightarrow> nat \<times> (nat \<times> nat) set \<Rightarrow> nat \<times> (nat \<times> nat) set" where
  "ref_graph cat (Insert_edge i j) (n, g) = (n, g \<union> both_ways cat i j)"
| "ref_graph cat (Erase_edge i j) (n, g) = (n, g - both_ways cat i j)"
| "ref_graph cat (Resize n') (n, g) = (n', g)"

fun op_fits :: "nat \<Rightarrow> graph_op \<Rightarrow> bool" where
  "op_fits n (Insert_edge i j) = (i < n \<and> j < n)"
| "op_fits n (Erase_edge i j) = (i < n \<and> j < n)"
| "op_fits n (Resize n') = (n \<le> n' \<and> n' * n' \<le> vector_max)"

fun ops_fit :: "graph_op list \<Rightarrow> nat \<Rightarrow> bool" where
  "ops_fit [] n = True"
| "ops_fit (x # xs) n = (op_fits n x \<and> ops_fit xs (case x of Resize n' \<Rightarrow> n' | _ \<Rightarrow> n))"

lemma graph_run:
  "matrix_ok cat m \<Longrightarrow> ops_fit ops (vert m) \<Longrightarrow>
   \<exists>m'. ofold (graph_step cat) ops m = Ret m' \<and> matrix_ok cat m' \<and> (vert m', graph_of m') = fold (ref_graph cat) ops (vert m, graph_of m)"
proof (induction ops arbitrary: m)
  case (Cons x ops)
  have "\<exists>m1. graph_step cat x m = Ret m1 \<and> matrix_ok cat m1 \<and> (vert m1, graph_of m1) = ref_graph cat x (vert m, graph_of m)"
  proof (cases x)
    case (Insert_edge i j)
    with Cons.prems matrix_insert_spec [OF Cons.prems(1), of i j] show ?thesis by auto
  next
    case (Erase_edge i j)
    with Cons.prems matrix_erase_spec [OF Cons.prems(1), of i j] show ?thesis by auto
  next
    case (Resize n)
    with Cons.prems matrix_resize_grows [OF Cons.prems(1), of n] show ?thesis by auto
  qed
  then obtain m1 where m1: "graph_step cat x m = Ret m1" "matrix_ok cat m1" "(vert m1, graph_of m1) = ref_graph cat x (vert m, graph_of m)" by blast
  have "ops_fit ops (vert m1)" using Cons.prems(2) m1(3) by (cases x) auto
  from Cons.IH [OF m1(2) this] m1 show ?case by simp
qed simp

text \<open>
  C25. The adjacency matrix is a graph. From an empty matrix, any sequence of insertions and
  removals of edges between its vertices and of enlargements returns and has the effect it has
  on a set of edges (of pairs in both directions when the graph is undirected): \<open>contains\<close> is
  membership, \<open>edges\<close> visits every edge once, \<open>out_edges\<close> and \<open>in_edges\<close> those of a vertex in
  the order of the other end. The answer of an insertion is whether the edge is new, save for a
  loop of an undirected graph.
\<close>

theorem matrix_is_a_graph:
  assumes "n * n \<le> vector_max" "ops_fit ops n" "(k, g) = fold (ref_graph cat) ops (n, {})"
  shows "\<exists>m es. obind (matrix_new n) (ofold (graph_step cat) ops) = Ret m \<and> edges m = Ret es \<and> set es = g \<and> distinct es \<and>
    (\<forall>i j. i < k \<longrightarrow> j < k \<longrightarrow>
       matrix_contains i j m = ((i, j) \<in> g) \<and>
       out_edges i m = Ret (map (Pair i) (filter (\<lambda>j. (i, j) \<in> g) [0..<k])) \<and>
       in_edges j m = Ret (map (\<lambda>i. (i, j)) (filter (\<lambda>i. (i, j) \<in> g) [0..<k])) \<and>
       (\<exists>it m'. matrix_insert cat i j m = Ret (it, (i, j) \<notin> g \<and> (cat = Directed_tag \<or> i \<noteq> j), m') \<and> edge_deref it = Ret (i, j)))"
proof -
  obtain m0 where m0: "matrix_new n = Ret m0" "matrix_ok cat m0" "vert m0 = n" "graph_of m0 = {}"
    using matrix_new_ok [OF assms(1)] by blast
  obtain m where m: "ofold (graph_step cat) ops m0 = Ret m" "matrix_ok cat m" "vert m = k" "graph_of m = g"
    using graph_run [OF m0(2), of ops] assms(2) unfolding m0(3,4) assms(3) [symmetric] by auto
  obtain es where es: "edges m = Ret es" "set es = g" "distinct es" using edges_spec [OF m(2)] m(4) by blast
  have "matrix_contains i j m = ((i, j) \<in> g) \<and>
       out_edges i m = Ret (map (Pair i) (filter (\<lambda>j. (i, j) \<in> g) [0..<k])) \<and>
       in_edges j m = Ret (map (\<lambda>i. (i, j)) (filter (\<lambda>i. (i, j) \<in> g) [0..<k])) \<and>
       (\<exists>it m'. matrix_insert cat i j m = Ret (it, (i, j) \<notin> g \<and> (cat = Directed_tag \<or> i \<noteq> j), m') \<and> edge_deref it = Ret (i, j))"
    if "i < k" "j < k" for i j
    using that matrix_contains_eq [OF m(2)] out_edges_spec [OF m(2)] in_edges_spec [OF m(2)] matrix_insert_spec [OF m(2), of i j]
    unfolding m(3,4) by blast
  then show ?thesis using m0(1) m(1) es by (intro exI [of _ m] exI [of _ es]) simp
qed

theorem matrix_is_a_graph_witness:
  "\<exists>m es. obind (matrix_new 2) (ofold (graph_step Undirected_tag) [Insert_edge 0 1, Resize 3, Insert_edge 2 2, Erase_edge 1 0]) = Ret m \<and>
    edges m = Ret es \<and> set es = {(2, 2)} \<and> matrix_contains 0 1 m = False"
proof -
  let ?ops = "[Insert_edge 0 1, Resize 3, Insert_edge 2 2, Erase_edge 1 0]"
  have g: "(3, {(2, 2)}) = fold (ref_graph Undirected_tag) ?ops (2, {})" by (simp add: both_ways_def insert_Diff_if)
  have f: "2 * 2 \<le> vector_max" "ops_fit ?ops 2" by (simp_all add: vector_max_def)
  from matrix_is_a_graph [OF f g] obtain m es where
    m: "obind (matrix_new 2) (ofold (graph_step Undirected_tag) ?ops) = Ret m" "edges m = Ret es" "set es = {(2, 2)}"
      "matrix_contains 0 1 m = ((0, 1) \<in> {(2 :: nat, 2 :: nat)})" by fastforce
  then have "matrix_contains 0 1 m = False" by simp
  with m(1-3) show ?thesis by blast
qed

end
