(* ===== verification/EnttCore.thy ===== *)
theory EnttCore
  imports Prelude
begin

unbundle bit_operations_syntax

text \<open>
  The arithmetic that the hash containers of \<open>core/common/entt.hpp\<close> rest on: powers of two
  and the remainder by one, on \<open>std::size_t\<close>, a 64-bit word. A failing \<open>ENTT_ASSERT\<close> aborts.
\<close>

section \<open>Powers of two\<close>

definition entt_assert :: "bool \<Rightarrow> 'a outcome \<Rightarrow> 'a outcome" where
  "entt_assert c k = (if c then k else Aborts)"

definition is_power_of_two :: "64 word \<Rightarrow> bool" where
  "is_power_of_two value \<longleftrightarrow> value \<noteq> 0 \<and> value AND (value - 1) = 0"

text \<open>The loop \<open>for(next = 1; next < 64; next = next * 2) cur |= cur >> next\<close>.\<close>

function smear :: "nat \<Rightarrow> 64 word \<Rightarrow> 64 word" where
  "smear n cur = (if 0 < n \<and> n < 64 then smear (n * 2) (cur OR drop_bit n cur) else cur)"
  by pat_completeness auto
termination by (relation "measure (\<lambda>(n, cur). 64 - n)") auto

declare smear.simps [simp del]

definition next_power_of_two :: "64 word \<Rightarrow> 64 word outcome" where
  "next_power_of_two value =
     entt_assert (value < push_bit 63 1)
       (let cur = value - (if value \<noteq> 0 then 1 else 0) in Ret (smear 1 cur + 1))"

definition fast_mod :: "64 word \<Rightarrow> 64 word \<Rightarrow> 64 word outcome" where
  "fast_mod value modulus = entt_assert (is_power_of_two modulus) (Ret (value AND (modulus - 1)))"

section \<open>Lemmas\<close>

lemma entt_assert_simps [simp]: "entt_assert True k = k" "entt_assert False k = Aborts"
  by (simp_all add: entt_assert_def)

lemma mask_word: "k \<le> 64 \<Longrightarrow> unat (mask k :: 64 word) = 2 ^ k - 1"
proof -
  assume "k \<le> 64"
  then have "(2 :: nat) ^ k \<le> 2 ^ 64" by (intro power_increasing) simp_all
  then have "(mask k :: nat) < 2 ^ 64" unfolding mask_eq_exp_minus_1 using zero_less_power [of "2 :: nat" k] by linarith
  then have "unat (of_nat (mask k) :: 64 word) = mask k" by (simp add: unat_of_nat)
  then show ?thesis by (simp add: of_nat_mask_eq mask_eq_exp_minus_1)
qed

text \<open>After the steps with the distances 1 to \<open>w / 2\<close> a bit says whether one of the next \<open>w\<close> was set.\<close>

lemma smear_step:
  fixes cur v :: "64 word"
  assumes "\<And>i. bit cur i \<longleftrightarrow> (\<exists>j<w. bit v (i + j))"
  shows "bit (cur OR drop_bit w cur) i \<longleftrightarrow> (\<exists>j<w * 2. bit v (i + j))"
proof
  assume "bit (cur OR drop_bit w cur) i"
  then consider j where "j < w" "bit v (i + j)" | j where "j < w" "bit v (w + i + j)"
    using assms [of i] assms [of "w + i"] by (auto simp: bit_or_iff bit_drop_bit_eq)
  then show "\<exists>j<w * 2. bit v (i + j)"
  proof cases
    case 1
    then show ?thesis by (intro exI [of _ j]) simp
  next
    case 2
    then show ?thesis by (intro exI [of _ "w + j"]) (simp add: ac_simps)
  qed
next
  assume "\<exists>j<w * 2. bit v (i + j)"
  then obtain j where j: "j < w * 2" "bit v (i + j)" by blast
  show "bit (cur OR drop_bit w cur) i"
  proof (cases "j < w")
    case True
    with j assms [of i] show ?thesis by (auto simp: bit_or_iff)
  next
    case False
    then have "w + i + (j - w) = i + j" "j - w < w" using j by simp_all
    with j assms [of "w + i"] show ?thesis by (metis bit_or_iff bit_drop_bit_eq comp_apply)
  qed
qed

lemma smear_bit: "bit (smear 1 v) i \<longleftrightarrow> (\<exists>j. bit v (i + j))"
proof -
  have unroll: "smear 1 v = (let c1 = v OR drop_bit 1 v; c2 = c1 OR drop_bit 2 c1; c3 = c2 OR drop_bit 4 c2;
      c4 = c3 OR drop_bit 8 c3; c5 = c4 OR drop_bit 16 c4 in c5 OR drop_bit 32 c5)"
    by (simp add: smear.simps Let_def)
  note step = smear_step [of _ _ v]
  have "\<And>i. bit v i \<longleftrightarrow> (\<exists>j<1. bit v (i + j))" by auto
  note s1 = step [OF this]
  note s6 = step [OF step [OF step [OF step [OF step [OF s1]]]]]
  have "bit (smear 1 v) i \<longleftrightarrow> (\<exists>j<64. bit v (i + j))"
    using s6 [of i] unfolding unroll Let_def by simp
  moreover have "j < 64" if "bit v (i + j)" for j
    using bit_imp_le_length [OF that] by simp
  ultimately show ?thesis by blast
qed

lemma top_bit:
  assumes "2 ^ h \<le> unat v" "unat v < 2 ^ Suc h" "h < 64"
  shows "bit (v :: 64 word) h"
proof -
  have "unat v div 2 ^ h = 1" using assms by (intro div_nat_eqI) simp_all
  then have "odd (unat v div 2 ^ h)" by simp
  then show ?thesis by (simp add: bit_iff_odd [symmetric] bit_unsigned_iff)
qed

lemma smear_mask:
  assumes "2 ^ h \<le> unat v" "unat v < 2 ^ Suc h" "h < 64"
  shows "smear 1 v = mask (Suc h)"
proof (rule bit_word_eqI)
  fix i assume "i < LENGTH(64)"
  note top = top_bit [OF assms]
  have none: "\<not> bit v k" if "h < k" for k
  proof -
    have "unat v < 2 ^ k" using assms that by (meson less_le_trans one_le_numeral power_increasing Suc_leI)
    then have "\<not> odd (unat v div 2 ^ k)" by simp
    then show ?thesis by (simp add: bit_iff_odd [symmetric] bit_unsigned_iff)
  qed
  show "bit (smear 1 v) i \<longleftrightarrow> bit (mask (Suc h) :: 64 word) i"
  proof (cases "i \<le> h")
    case True
    then have "bit v (i + (h - i))" using top by simp
    then have "bit (smear 1 v) i" using smear_bit [of v i] by blast
    then show ?thesis using True assms(3) by (simp add: bit_mask_iff)
  next
    case False
    then have "\<not> bit v (i + j)" for j using none [of "i + j"] by simp
    then show ?thesis using False smear_bit [of v i] by (auto simp: bit_mask_iff)
  qed
qed

text \<open>Powers of two, as the test of the code sees them.\<close>

lemma of_nat_power_two: "k < 64 \<Longrightarrow> unat (of_nat (2 ^ k) :: 64 word) = 2 ^ k"
proof -
  assume "k < 64"
  then have "(2 :: nat) ^ k < 2 ^ 64" by (intro power_strict_increasing) simp_all
  then show ?thesis by (simp add: unat_of_nat del: of_nat_power)
qed

lemma power_two_minus_1: "k < 64 \<Longrightarrow> of_nat (2 ^ k) - 1 = (mask k :: 64 word)"
  by (simp add: mask_eq_exp_minus_1)

lemma is_power_of_two_power [simp]:
  assumes "k < 64" shows "is_power_of_two (of_nat (2 ^ k))"
proof -
  have e: "(of_nat (2 ^ k) :: 64 word) = push_bit k 1" by (simp add: push_bit_of_1)
  have "(of_nat (2 ^ k) :: 64 word) \<noteq> 0" using of_nat_power_two [OF assms] by (metis power_eq_0_iff unsigned_0 zero_neq_numeral)
  moreover have "(of_nat (2 ^ k) :: 64 word) AND mask k = 0"
    unfolding e by (rule bit_word_eqI) (auto simp: bit_and_iff bit_mask_iff bit_push_bit_iff bit_exp_iff bit_1_iff)
  ultimately show ?thesis by (simp add: is_power_of_two_def power_two_minus_1 [OF assms, symmetric])
qed

lemma fast_mod_power:
  assumes "k < 64"
  shows "fast_mod v (of_nat (2 ^ k)) = Ret (of_nat (unat v mod 2 ^ k))"
proof -
  have "v AND mask k = take_bit k v" by (simp add: take_bit_eq_mask)
  also have "\<dots> = of_nat (unat v mod 2 ^ k)"
  proof -
    have "unat (take_bit k v) = take_bit k (unat v)" by (rule unsigned_take_bit_eq)
    also have "\<dots> = unat v mod 2 ^ k" by (rule take_bit_eq_mod)
    finally have "unat (take_bit k v) = unat v mod 2 ^ k" .
    moreover have "take_bit k v = of_nat (unat (take_bit k v))" by simp
    ultimately show ?thesis by (simp only:)
  qed
  finally show ?thesis using assms by (simp add: fast_mod_def power_two_minus_1 del: of_nat_power)
qed

lemma less_two_63: "(v :: 64 word) < push_bit 63 1 \<longleftrightarrow> unat v < 2 ^ 63"
  by (simp add: word_less_nat_alt)

lemma next_power_of_two_cases:
  "next_power_of_two v = (if unat v < 2 ^ 63 then Ret (smear 1 (v - (if v \<noteq> 0 then 1 else 0)) + 1) else Aborts)"
  by (simp only: next_power_of_two_def less_two_63 entt_assert_def Let_def)

lemma next_power_of_two_refused: "\<not> unat v < 2 ^ 63 \<Longrightarrow> next_power_of_two v = Aborts"
  by (simp only: next_power_of_two_cases if_False)

lemma next_power_of_two_least:
  assumes "unat v < 2 ^ 63"
  shows "\<exists>k<64. next_power_of_two v = Ret (of_nat (2 ^ k)) \<and> unat v \<le> 2 ^ k \<and> (\<forall>j. unat v \<le> 2 ^ j \<longrightarrow> k \<le> j)"
proof (cases "unat v \<le> 1")
  case True
  then have "v = 0 \<or> v = 1" by (metis le_SucE le_zero_eq One_nat_def unat_1 unat_0 word_unat_eq_iff)
  then have "v - (if v \<noteq> 0 then 1 else 0) = 0" by auto
  moreover have "smear 1 0 = (0 :: 64 word)" by (rule bit_word_eqI) (simp add: smear_bit del: One_nat_def)
  ultimately have "next_power_of_two v = Ret (of_nat (2 ^ 0))" using assms by (simp add: next_power_of_two_cases)
  with True show ?thesis by (intro exI [of _ 0]) simp
next
  case False
  let ?d = "v - 1"
  have "v \<noteq> 0" using False by auto
  then have d: "unat ?d = unat v - 1" by (rule unat_minus_one)
  then have "1 \<le> unat ?d" using False by simp
  then obtain h where h: "2 ^ h \<le> unat ?d" "unat ?d < 2 ^ (h + 1)" using ex_power_ivl1 [of 2] by auto
  have "(2 :: nat) ^ h < 2 ^ 63" using h(1) d assms by linarith
  then have h63: "h < 63" by (rule power_less_imp_less_exp [rotated]) simp
  then have "smear 1 ?d + 1 = of_nat (2 ^ Suc h)"
    using smear_mask [of h ?d] h by (simp add: mask_eq_exp_minus_1)
  then have "next_power_of_two v = Ret (of_nat (2 ^ Suc h))" using assms False by (auto simp: next_power_of_two_cases)
  moreover have "unat v \<le> 2 ^ Suc h" using h(2) d by simp
  moreover have "Suc h \<le> j" if "unat v \<le> 2 ^ j" for j
  proof (rule ccontr)
    assume "\<not> Suc h \<le> j"
    then have "(2 :: nat) ^ j \<le> 2 ^ h" by (intro power_increasing) simp_all
    with that h(1) d False show False by linarith
  qed
  ultimately show ?thesis using h63 by (intro exI [of _ "Suc h"]) simp
qed

lemma is_power_of_two_iff: "is_power_of_two m \<longleftrightarrow> (\<exists>k<64. unat m = 2 ^ k)"
proof
  assume "\<exists>k<64. unat m = 2 ^ k"
  then obtain k where "k < 64" "m = of_nat (2 ^ k)" by (metis of_nat_power_two word_unat_eq_iff)
  then show "is_power_of_two m" using is_power_of_two_power by simp
next
  assume p: "is_power_of_two m"
  then have "m \<noteq> 0" by (simp add: is_power_of_two_def)
  then have "1 \<le> unat m" by (simp add: Suc_leI unat_gt_0)
  then obtain h where h: "2 ^ h \<le> unat m" "unat m < 2 ^ (h + 1)" using ex_power_ivl1 [of 2] by auto
  have "(2 :: nat) ^ h < 2 ^ 64" using h(1) unat_bounds(3) [of m] by simp
  then have h64: "h < 64" by (rule power_less_imp_less_exp [rotated]) simp
  have "unat m = 2 ^ h"
  proof (rule ccontr)
    assume "unat m \<noteq> 2 ^ h"
    then have "2 ^ h \<le> unat (m - 1)" "unat (m - 1) < 2 ^ (h + 1)" using h by (auto simp: unat_minus_one [OF \<open>m \<noteq> 0\<close>])
    then have "bit (m AND (m - 1)) h" using top_bit [of h "m - 1"] top_bit [of h m] h h64 by (simp add: bit_and_iff)
    with p show False by (simp add: is_power_of_two_def)
  qed
  with h64 show "\<exists>k<64. unat m = 2 ^ k" by blast
qed

section \<open>Properties\<close>

text \<open>
  C38. The arithmetic of the containers. Below \<open>2 ^ 63\<close> the bit-smearing loop computes the
  least power of two that is not below its argument (1 for 0), and from \<open>2 ^ 63\<close> on the
  assertion fails; \<open>is_power_of_two\<close> recognises exactly the powers of two, and for them
  \<open>fast_mod\<close> is the remainder, while for every other modulus it aborts.
\<close>

theorem power_of_two_arithmetic:
  "(case next_power_of_two v of
      Ret r \<Rightarrow> unat v < 2 ^ 63 \<and> (\<exists>k<64. unat r = 2 ^ k \<and> unat v \<le> 2 ^ k \<and> (\<forall>j. unat v \<le> 2 ^ j \<longrightarrow> k \<le> j))
    | q \<Rightarrow> q = Aborts \<and> 2 ^ 63 \<le> unat v) \<and>
   (is_power_of_two m \<longleftrightarrow> (\<exists>k<64. unat m = 2 ^ k)) \<and>
   fast_mod v m = (if is_power_of_two m then Ret (of_nat (unat v mod unat m)) else Aborts)"
proof (intro conjI)
  show "case next_power_of_two v of
      Ret r \<Rightarrow> unat v < 2 ^ 63 \<and> (\<exists>k<64. unat r = 2 ^ k \<and> unat v \<le> 2 ^ k \<and> (\<forall>j. unat v \<le> 2 ^ j \<longrightarrow> k \<le> j))
    | q \<Rightarrow> q = Aborts \<and> 2 ^ 63 \<le> unat v"
  proof (cases "unat v < 2 ^ 63")
    case False
    then show ?thesis using next_power_of_two_refused [of v] by simp
  next
    case True
    then obtain k where "k < 64" "next_power_of_two v = Ret (of_nat (2 ^ k))" "unat v \<le> 2 ^ k" "\<forall>j. unat v \<le> 2 ^ j \<longrightarrow> k \<le> j"
      using next_power_of_two_least by blast
    then show ?thesis using True of_nat_power_two [of k] by (auto simp del: of_nat_power)
  qed
  show "is_power_of_two m \<longleftrightarrow> (\<exists>k<64. unat m = 2 ^ k)" by (rule is_power_of_two_iff)
  show "fast_mod v m = (if is_power_of_two m then Ret (of_nat (unat v mod unat m)) else Aborts)"
  proof (cases "is_power_of_two m")
    case True
    then obtain k where k: "k < 64" "unat m = 2 ^ k" using is_power_of_two_iff by blast
    then have "m = of_nat (2 ^ k)" by (metis of_nat_power_two word_unat_eq_iff)
    with k True fast_mod_power [OF k(1), of v] show ?thesis by simp
  qed (simp add: fast_mod_def)
qed

theorem power_of_two_arithmetic_witness:
  "next_power_of_two 5 = Ret 8 \<and> fast_mod 13 8 = Ret 5"
proof -
  have "is_power_of_two 8" by (simp add: is_power_of_two_def)
  with power_of_two_arithmetic [of 13 8] have "fast_mod 13 8 = Ret 5" by simp
  moreover have "next_power_of_two 5 = Ret 8" by (simp add: next_power_of_two_cases smear.simps)
  ultimately show ?thesis by simp
qed

end
