(* ===== verification/LoadFactor.thy ===== *)
theory LoadFactor
  imports EnttCore
begin

text \<open>
  The load factor of the hash containers of \<open>core/common/entt.hpp\<close>: a \<open>float\<close> that sizes are multiplied
  with and divided by. The containers take these four functions as a parameter; here they are, in single
  precision, rounding to nearest with ties to even, and the law that the proofs need of them.
\<close>

section \<open>What the containers compute\<close>

text \<open>
  \<open>over_load n b f\<close> is \<open>n > b * f\<close>, \<open>least_buckets n f\<close> the conversion of \<open>n / f\<close> to
  \<open>size_t\<close>, \<open>ceil_buckets n f\<close> that of \<open>ceil(n / f)\<close>, and \<open>valid_load f\<close> is \<open>f > 0\<close>, all in
  \<open>float\<close> arithmetic.
\<close>

record 'f load_ops =
  over_load :: "nat \<Rightarrow> nat \<Rightarrow> 'f \<Rightarrow> bool"
  least_buckets :: "nat \<Rightarrow> 'f \<Rightarrow> nat"
  ceil_buckets :: "nat \<Rightarrow> 'f \<Rightarrow> nat"
  valid_load :: "'f \<Rightarrow> bool"

section \<open>Single precision\<close>

text \<open>The number of bits that do not fit the 24 bits of a significand, and rounding to these 24.\<close>

function excess_bits :: "nat \<Rightarrow> nat" where
  "excess_bits x = (if x < 2 ^ 24 then 0 else Suc (excess_bits (x div 2)))"
  by pat_completeness auto
termination by (relation "measure id") auto

declare excess_bits.simps [simp del]

definition single_round :: "nat \<Rightarrow> nat" where
  "single_round x =
     (let u = 2 ^ excess_bits x; q = x div u; r = x mod u in
      (if u < 2 * r \<or> 2 * r = u \<and> odd q then q + 1 else q) * u)"

text \<open>
  A quotient of two floats, in units of \<open>1 / 2 ^ 65\<close>: enough bits of it, the last one set when the
  division leaves a rest, are rounded.
\<close>

definition single_div :: "nat \<Rightarrow> nat \<Rightarrow> nat" where
  "single_div a b = single_round (2 * (a * 2 ^ 64 div b) + (if a * 2 ^ 64 mod b = 0 then 0 else 1))"

text \<open>A load factor below \<open>2 ^ 24\<close> is \<open>(m, k)\<close> for \<open>m / 2 ^ k\<close>; sizes are converted to \<open>float\<close> first.\<close>

definition single_loads :: "(nat \<times> nat) load_ops" where
  "single_loads =
     \<lparr>over_load = (\<lambda>n b (m, k). single_round (single_round b * m) < 2 ^ k * single_round n),
      least_buckets = (\<lambda>n (m, k). single_div (single_round n * 2 ^ k) m div 2 ^ 65),
      ceil_buckets = (\<lambda>n (m, k). (single_div (single_round n * 2 ^ k) m + (2 ^ 65 - 1)) div 2 ^ 65),
      valid_load = (\<lambda>(m, k). 0 < m)\<rparr>"

text \<open>The factor the containers start with, 0.875.\<close>

definition default_load :: "nat \<times> nat" where
  "default_load = (7, 3)"

section \<open>The law\<close>

text \<open>
  A table is grown only when it has at most twice as many buckets as elements, and is never asked to
  have more. Rounding is off by one part in \<open>2 ^ 24\<close> at most, so that the default factor keeps
  this law, and so does every factor that is not much below one half.
\<close>

definition load_law :: "'f load_ops \<Rightarrow> 'f \<Rightarrow> bool" where
  "load_law fl f \<longleftrightarrow> (\<forall>n b. (over_load fl n b f \<longrightarrow> b \<le> 2 * n) \<and> least_buckets fl n f \<le> 2 * n)"

lemma load_lawD:
  "load_law fl f \<Longrightarrow> over_load fl n b f \<Longrightarrow> b \<le> 2 * n"
  "load_law fl f \<Longrightarrow> least_buckets fl n f \<le> 2 * n"
  by (simp_all add: load_law_def)

lemma excess_bits_least: "0 < excess_bits x \<Longrightarrow> 2 ^ 23 * 2 ^ excess_bits x \<le> x"
proof (induction x rule: excess_bits.induct)
  case (1 x)
  then have big: "\<not> x < 2 ^ 24" by (auto simp: excess_bits.simps [of x] split: if_splits)
  then have e: "excess_bits x = Suc (excess_bits (x div 2))" by (simp add: excess_bits.simps [of x])
  have "2 ^ 23 * 2 ^ excess_bits (x div 2) \<le> x div 2"
  proof (cases "excess_bits (x div 2)")
    case 0
    then show ?thesis using big by simp
  qed (use 1(1) [OF big] in simp)
  then show ?case unfolding e by simp
qed

text \<open>The relative error.\<close>

lemma single_round_bounds:
  "2 ^ 24 * single_round x \<le> (2 ^ 24 + 1) * x" "(2 ^ 24 - 1) * x \<le> 2 ^ 24 * single_round x"
proof -
  define u where "u = (2 :: nat) ^ excess_bits x"
  define p r where "p = x div u * u" and "r = x mod u"
  have split: "x = p + r" by (simp add: p_def r_def)
  have r: "r < u" by (simp add: r_def u_def)
  have s: "single_round x = p + (if u < 2 * r \<or> 2 * r = u \<and> odd (x div u) then u else 0)"
    by (simp add: single_round_def u_def [symmetric] p_def r_def Let_def)
  have near: "single_round x \<le> x \<and> 2 * (x - single_round x) \<le> u \<or> x \<le> single_round x \<and> 2 * (single_round x - x) \<le> u"
    using r split s by (cases "u < 2 * r \<or> 2 * r = u \<and> odd (x div u)") auto
  have big: "u = 1 \<or> 2 ^ 23 * u \<le> x" using excess_bits_least [of x] by (cases "excess_bits x = 0") (simp_all add: u_def)
  have exact: "single_round x = x" if "u = 1" using s r that split by simp
  show "2 ^ 24 * single_round x \<le> (2 ^ 24 + 1) * x" "(2 ^ 24 - 1) * x \<le> 2 ^ 24 * single_round x"
    using near big exact by auto
qed

lemma default_load_law: "load_law single_loads default_load"
  unfolding load_law_def
proof (intro allI conjI impI)
  fix n b :: nat
  assume "over_load single_loads n b default_load"
  then have "single_round (7 * single_round b) < 8 * single_round n" by (simp add: single_loads_def default_load_def mult.commute)
  then show "b \<le> 2 * n"
    using single_round_bounds(1) [of n] single_round_bounds(2) [of "7 * single_round b"] single_round_bounds(2) [of b] by simp
next
  fix n b :: nat
  define a t where "a = single_round n * 8" and "t = a * 2 ^ 64 div 7"
  define x where "x = 2 * t + (if a * 2 ^ 64 mod 7 = 0 then 0 else 1)"
  have least: "least_buckets single_loads n default_load = single_round x div 2 ^ 65"
    by (simp add: single_loads_def default_load_def single_div_def a_def t_def x_def)
  have "7 * t \<le> a * 2 ^ 64" unfolding t_def by (rule times_div_less_eq_dividend)
  then have x: "7 * x \<le> a * 2 ^ 65 + 7" by (simp add: x_def)
  show "least_buckets single_loads n default_load \<le> 2 * n"
  proof (cases "n = 0")
    case True
    have "single_round 0 = 0" by (simp add: single_round_def)
    then have "x = 0" using True by (simp add: x_def t_def a_def)
    then show ?thesis unfolding least by (simp add: \<open>single_round 0 = 0\<close>)
  next
    case False
    then have "single_round x < 2 ^ 65 * (2 * n + 1)"
      using single_round_bounds(1) [of n] single_round_bounds(1) [of x] x by (simp add: a_def)
    then show ?thesis unfolding least using less_mult_imp_div_less [of "single_round x" "2 * n + 1" "2 ^ 65"]
      by (simp add: mult.commute)
  qed
qed

end
