(* ===== verification/DenseMap.thy ===== *)
theory DenseMap
  imports LoadFactor
begin

text \<open>
  The hash map of \<open>core/common/entt.hpp\<close> (\<open>entt::dense_map\<close>): a vector of nodes, each with
  the position of the next node of its bucket, and a vector of bucket heads. Removal moves the
  last node into the hole. The float arithmetic with the load factor is a parameter, the record
  of LoadFactor. Keys are compared with \<open>=\<close>, hashed with the
  map's own function into a 64-bit word; memory allocation does not fail.
\<close>

section \<open>Data\<close>

record ('k, 'v) node =
  node_next :: nat
  node_key :: 'k
  node_value :: 'v

record ('k, 'v, 'f) dense_map =
  sparse :: "nat list"
  packed :: "('k, 'v) node list"
  hash_function :: "'k \<Rightarrow> 64 word"
  threshold :: 'f

text \<open>The end of a bucket: \<open>numeric_limits<size_t>::max()\<close>.\<close>

definition npos :: nat where
  "npos = size_bound - 1"

definition minimum_capacity :: nat where
  "minimum_capacity = 8"

abbreviation map_size :: "('k, 'v, 'f) dense_map \<Rightarrow> nat" where
  "map_size m \<equiv> length (packed m)"

abbreviation bucket_count :: "('k, 'v, 'f) dense_map \<Rightarrow> nat" where
  "bucket_count m \<equiv> length (sparse m)"

section \<open>Finding\<close>

definition key_to_bucket :: "('k, 'v, 'f) dense_map \<Rightarrow> 'k \<Rightarrow> nat outcome" where
  "key_to_bucket m key =
     obind (fast_mod (hash_function m key) (of_nat (bucket_count m))) (\<lambda>w. Ret (unat w))"

text \<open>The loop over the local iterators of a bucket; \<open>None\<close> stands for \<open>end()\<close>.\<close>

partial_function (option) bucket_find ::
    "('k, 'v) node list \<Rightarrow> 'k \<Rightarrow> nat \<Rightarrow> nat option outcome option" where
  "bucket_find ns key offset =
     (if offset = npos then Some (Ret None)
      else if offset < length ns
      then if node_key (ns ! offset) = key then Some (Ret (Some offset))
           else bucket_find ns key (node_next (ns ! offset))
      else Some Undefined)"

definition constrained_find :: "('k, 'v, 'f) dense_map \<Rightarrow> 'k \<Rightarrow> nat \<Rightarrow> nat option outcome" where
  "constrained_find m key bucket =
     (if bucket < bucket_count m then of_loop (bucket_find (packed m) key (sparse m ! bucket)) else Undefined)"

definition map_find :: "('k, 'v, 'f) dense_map \<Rightarrow> 'k \<Rightarrow> nat option outcome" where
  "map_find m key = obind (key_to_bucket m key) (constrained_find m key)"

definition map_contains :: "('k, 'v, 'f) dense_map \<Rightarrow> 'k \<Rightarrow> bool outcome" where
  "map_contains m key = obind (map_find m key) (\<lambda>it. Ret (it \<noteq> None))"

definition map_count :: "('k, 'v, 'f) dense_map \<Rightarrow> 'k \<Rightarrow> nat outcome" where
  "map_count m key = obind (map_find m key) (\<lambda>it. Ret (if it \<noteq> None then 1 else 0))"

text \<open>A range is a pair of positions; the end is the size.\<close>

definition equal_range :: "('k, 'v, 'f) dense_map \<Rightarrow> 'k \<Rightarrow> (nat \<times> nat) outcome" where
  "equal_range m key = obind (map_find m key) (\<lambda>it.
     Ret (case it of None \<Rightarrow> (map_size m, map_size m) | Some pos \<Rightarrow> (pos, pos + 1)))"

definition map_at :: "('k, 'v, 'f) dense_map \<Rightarrow> 'k \<Rightarrow> 'v outcome" where
  "map_at m key = obind (map_find m key) (\<lambda>it.
     case it of None \<Rightarrow> Aborts | Some pos \<Rightarrow> Ret (node_value (packed m ! pos)))"

section \<open>Rehashing\<close>

text \<open>The loop that links every node at the head of its new bucket.\<close>

fun relink :: "nat list \<Rightarrow> ('k, 'v, 'f) dense_map \<Rightarrow> ('k, 'v, 'f) dense_map outcome" where
  "relink [] m = Ret m"
| "relink (pos # ps) m =
     obind (key_to_bucket m (node_key (packed m ! pos))) (\<lambda>index.
       relink ps (m\<lparr>packed := (packed m)[pos := (packed m ! pos)\<lparr>node_next := sparse m ! index\<rparr>],
                    sparse := (sparse m)[index := pos]\<rparr>))"

definition rehash :: "'f load_ops \<Rightarrow> nat \<Rightarrow> ('k, 'v, 'f) dense_map \<Rightarrow> ('k, 'v, 'f) dense_map outcome" where
  "rehash fl cnt m =
     (let v1 = (if minimum_capacity < cnt then cnt else minimum_capacity);
          cap = least_buckets fl (map_size m) (threshold m);
          v2 = (if cap < v1 then v1 else cap) in
      obind (next_power_of_two (of_nat v2)) (\<lambda>sz.
        if unat sz = bucket_count m then Ret m
        else relink [0..<map_size m] (m\<lparr>sparse := replicate (unat sz) npos\<rparr>)))"

definition rehash_if_required :: "'f load_ops \<Rightarrow> ('k, 'v, 'f) dense_map \<Rightarrow> ('k, 'v, 'f) dense_map outcome" where
  "rehash_if_required fl m =
     (if over_load fl (map_size m) (bucket_count m) (threshold m) then rehash fl (bucket_count m * 2 mod size_bound) m else Ret m)"

definition map_new :: "'f load_ops \<Rightarrow> nat \<Rightarrow> ('k \<Rightarrow> 64 word) \<Rightarrow> 'f \<Rightarrow> ('k, 'v, 'f) dense_map outcome" where
  "map_new fl cnt h default_threshold =
     rehash fl cnt \<lparr>sparse = [], packed = [], hash_function = h, threshold = default_threshold\<rparr>"

definition map_clear :: "'f load_ops \<Rightarrow> ('k, 'v, 'f) dense_map \<Rightarrow> ('k, 'v, 'f) dense_map outcome" where
  "map_clear fl m = rehash fl 0 (m\<lparr>sparse := [], packed := []\<rparr>)"

definition set_max_load_factor :: "'f load_ops \<Rightarrow> 'f \<Rightarrow> ('k, 'v, 'f) dense_map \<Rightarrow> ('k, 'v, 'f) dense_map outcome" where
  "set_max_load_factor fl f m = entt_assert (valid_load fl f) (rehash fl 0 (m\<lparr>threshold := f\<rparr>))"

definition map_reserve :: "'f load_ops \<Rightarrow> nat \<Rightarrow> ('k, 'v, 'f) dense_map \<Rightarrow> ('k, 'v, 'f) dense_map outcome" where
  "map_reserve fl cnt m = rehash fl (ceil_buckets fl cnt (threshold m)) m"

section \<open>Inserting\<close>

text \<open>An insertion answers the position of the element and whether it took place.\<close>

definition append_node :: "nat \<Rightarrow> 'k \<Rightarrow> 'v \<Rightarrow> ('k, 'v, 'f) dense_map \<Rightarrow> ('k, 'v, 'f) dense_map" where
  "append_node index key value m =
     m\<lparr>packed := packed m @ [\<lparr>node_next = sparse m ! index, node_key = key, node_value = value\<rparr>],
       sparse := (sparse m)[index := map_size m]\<rparr>"

definition insert_or_do_nothing ::
    "'f load_ops \<Rightarrow> 'k \<Rightarrow> 'v \<Rightarrow> ('k, 'v, 'f) dense_map \<Rightarrow> (nat \<times> bool \<times> ('k, 'v, 'f) dense_map) outcome" where
  "insert_or_do_nothing fl key value m =
     obind (key_to_bucket m key) (\<lambda>index.
     obind (constrained_find m key index) (\<lambda>it.
       case it of
         Some pos \<Rightarrow> Ret (pos, False, m)
       | None \<Rightarrow> obind (rehash_if_required fl (append_node index key value m)) (\<lambda>m'.
           Ret (map_size m' - 1, True, m'))))"

definition insert_or_overwrite ::
    "'f load_ops \<Rightarrow> 'k \<Rightarrow> 'v \<Rightarrow> ('k, 'v, 'f) dense_map \<Rightarrow> (nat \<times> bool \<times> ('k, 'v, 'f) dense_map) outcome" where
  "insert_or_overwrite fl key value m =
     obind (key_to_bucket m key) (\<lambda>index.
     obind (constrained_find m key index) (\<lambda>it.
       case it of
         Some pos \<Rightarrow> Ret (pos, False, m\<lparr>packed := (packed m)[pos := (packed m ! pos)\<lparr>node_value := value\<rparr>]\<rparr>)
       | None \<Rightarrow> obind (rehash_if_required fl (append_node index key value m)) (\<lambda>m'.
           Ret (map_size m' - 1, True, m'))))"

text \<open>
  The general case of \<open>emplace\<close>: the element is constructed at the end first, with a link to
  itself, and dropped again when its key is there.
\<close>

definition emplace_node ::
    "'f load_ops \<Rightarrow> 'k \<Rightarrow> 'v \<Rightarrow> ('k, 'v, 'f) dense_map \<Rightarrow> (nat \<times> bool \<times> ('k, 'v, 'f) dense_map) outcome" where
  "emplace_node fl key value m =
     (let m1 = m\<lparr>packed := packed m @ [\<lparr>node_next = map_size m, node_key = key, node_value = value\<rparr>]\<rparr> in
      obind (key_to_bucket m1 key) (\<lambda>index.
      obind (constrained_find m1 key index) (\<lambda>it.
        case it of
          Some pos \<Rightarrow> Ret (pos, False, m1\<lparr>packed := butlast (packed m1)\<rparr>)
        | None \<Rightarrow> obind (rehash_if_required fl
            (m1\<lparr>packed := (packed m1)[map_size m := (packed m1 ! map_size m)\<lparr>node_next := sparse m1 ! index\<rparr>],
                sparse := (sparse m1)[index := map_size m]\<rparr>)) (\<lambda>m'.
            Ret (map_size m' - 1, True, m')))))"

fun insert_range ::
    "'f load_ops \<Rightarrow> ('k \<times> 'v) list \<Rightarrow> ('k, 'v, 'f) dense_map \<Rightarrow> ('k, 'v, 'f) dense_map outcome" where
  "insert_range fl [] m = Ret m"
| "insert_range fl ((k, v) # xs) m =
     obind (insert_or_do_nothing fl k v m) (\<lambda>(pos, inserted, m'). insert_range fl xs m')"

text \<open>\<open>operator[]\<close> inserts a default value when there is none and answers the element.\<close>

definition map_index ::
    "'f load_ops \<Rightarrow> 'v \<Rightarrow> 'k \<Rightarrow> ('k, 'v, 'f) dense_map \<Rightarrow> ('v \<times> ('k, 'v, 'f) dense_map) outcome" where
  "map_index fl dflt key m =
     obind (insert_or_do_nothing fl key dflt m) (\<lambda>(pos, inserted, m'). Ret (node_value (packed m' ! pos), m'))"

section \<open>Removing\<close>

text \<open>
  The pointer \<open>curr\<close> of the loops points to the head of a bucket or to the link of a node.
\<close>

datatype link = Head nat | Link nat

definition link_ok :: "('k, 'v, 'f) dense_map \<Rightarrow> link \<Rightarrow> bool" where
  "link_ok m l = (case l of Head b \<Rightarrow> b < bucket_count m | Link p \<Rightarrow> p < map_size m)"

definition read_link :: "('k, 'v, 'f) dense_map \<Rightarrow> link \<Rightarrow> nat" where
  "read_link m l = (case l of Head b \<Rightarrow> sparse m ! b | Link p \<Rightarrow> node_next (packed m ! p))"

definition write_link :: "link \<Rightarrow> nat \<Rightarrow> ('k, 'v, 'f) dense_map \<Rightarrow> ('k, 'v, 'f) dense_map" where
  "write_link l x m =
     (case l of Head b \<Rightarrow> m\<lparr>sparse := (sparse m)[b := x]\<rparr>
      | Link p \<Rightarrow> m\<lparr>packed := (packed m)[p := (packed m ! p)\<lparr>node_next := x\<rparr>]\<rparr>)"

partial_function (option) find_value :: "('k, 'v, 'f) dense_map \<Rightarrow> nat \<Rightarrow> link \<Rightarrow> link outcome option" where
  "find_value m x l =
     (if link_ok m l
      then if read_link m l = x then Some (Ret l) else find_value m x (Link (read_link m l))
      else Some Undefined)"

definition move_and_pop :: "nat \<Rightarrow> ('k, 'v, 'f) dense_map \<Rightarrow> ('k, 'v, 'f) dense_map outcome" where
  "move_and_pop pos m =
     (let n = map_size m - 1 in
      obind (if pos \<noteq> n
             then obind (key_to_bucket m (node_key (last (packed m)))) (\<lambda>b.
                    let m1 = m\<lparr>packed := (packed m)[pos := last (packed m)]\<rparr> in
                    obind (of_loop (find_value m1 n (Head b))) (\<lambda>l. Ret (write_link l pos m1)))
             else Ret m)
        (\<lambda>m2. Ret (m2\<lparr>packed := butlast (packed m2)\<rparr>)))"

partial_function (option) find_key :: "('k, 'v, 'f) dense_map \<Rightarrow> 'k \<Rightarrow> link \<Rightarrow> link option outcome option" where
  "find_key m key l =
     (if \<not> link_ok m l then Some Undefined
      else if read_link m l = npos then Some (Ret None)
      else if \<not> read_link m l < map_size m then Some Undefined
      else if node_key (packed m ! read_link m l) = key then Some (Ret (Some l))
      else find_key m key (Link (read_link m l)))"

definition map_erase :: "'k \<Rightarrow> ('k, 'v, 'f) dense_map \<Rightarrow> (nat \<times> ('k, 'v, 'f) dense_map) outcome" where
  "map_erase key m =
     obind (key_to_bucket m key) (\<lambda>b.
     obind (of_loop (find_key m key (Head b))) (\<lambda>found.
       case found of
         None \<Rightarrow> Ret (0, m)
       | Some l \<Rightarrow>
           (let index = read_link m l; m1 = write_link l (node_next (packed m ! index)) m in
            obind (move_and_pop index m1) (\<lambda>m2. Ret (1, m2)))))"

text \<open>Removing at a position answers the position, removing a range removes from its end.\<close>

definition erase_at :: "nat \<Rightarrow> ('k, 'v, 'f) dense_map \<Rightarrow> (nat \<times> ('k, 'v, 'f) dense_map) outcome" where
  "erase_at pos m =
     (if pos < map_size m
      then obind (map_erase (node_key (packed m ! pos)) m) (\<lambda>(n, m'). Ret (pos, m'))
      else Undefined)"

function erase_down :: "nat \<Rightarrow> nat \<Rightarrow> ('k, 'v, 'f) dense_map \<Rightarrow> ('k, 'v, 'f) dense_map outcome" where
  "erase_down dist pos m =
     (if pos = dist then Ret m
      else if 0 < pos \<and> pos - 1 < map_size m
      then obind (map_erase (node_key (packed m ! (pos - 1))) m) (\<lambda>(n, m'). erase_down dist (pos - 1) m')
      else Undefined)"
  by pat_completeness auto
termination by (relation "measure (\<lambda>(dist, pos, m). pos)") auto

declare erase_down.simps [simp del]

definition erase_range :: "nat \<Rightarrow> nat \<Rightarrow> ('k, 'v, 'f) dense_map \<Rightarrow> (nat \<times> ('k, 'v, 'f) dense_map) outcome" where
  "erase_range from_pos to_pos m = obind (erase_down from_pos to_pos m) (\<lambda>m'. Ret (from_pos, m'))"

section \<open>Buckets\<close>

text \<open>The local iterators of a bucket, from its head to \<open>npos\<close>; \<open>bucket_size\<close> counts them.\<close>

partial_function (option) bucket_walk :: "('k, 'v) node list \<Rightarrow> nat \<Rightarrow> nat list \<Rightarrow> nat list outcome option" where
  "bucket_walk ns offset acc =
     (if offset = npos then Some (Ret acc)
      else if offset < length ns then bucket_walk ns (node_next (ns ! offset)) (acc @ [offset])
      else Some Undefined)"

definition bucket_size :: "nat \<Rightarrow> ('k, 'v, 'f) dense_map \<Rightarrow> nat outcome" where
  "bucket_size index m =
     (if index < bucket_count m
      then obind (of_loop (bucket_walk (packed m) (sparse m ! index) [])) (\<lambda>ps. Ret (length ps)) else Undefined)"

definition map_swap ::
    "('k, 'v, 'f) dense_map \<Rightarrow> ('k, 'v, 'f) dense_map \<Rightarrow> ('k, 'v, 'f) dense_map \<times> ('k, 'v, 'f) dense_map" where
  "map_swap a b = (b, a)"

end
