(* ===== verification/DenseMapCorrect.thy ===== *)
theory DenseMapCorrect
  imports DenseMap
begin

text \<open>
  The correctness of the hash map: the chains of the buckets, the loops over them, the
  invariant of the two vectors, and what rehashing, finding, inserting and removing do to the
  sequence of elements. The contract of a container that keeps its elements packed is a
  locale, of which the map is one interpretation.
\<close>

section \<open>Chains\<close>

text \<open>From the link value \<open>s\<close> the nodes lead through the positions \<open>ps\<close> to the end of the bucket.\<close>

fun chain :: "('k, 'v) node list \<Rightarrow> nat \<Rightarrow> nat list \<Rightarrow> bool" where
  "chain ns s [] \<longleftrightarrow> s = npos"
| "chain ns s (p # ps) \<longleftrightarrow> s = p \<and> p < length ns \<and> p \<noteq> npos \<and> chain ns (node_next (ns ! p)) ps"

lemma chain_below: "chain ns s ps \<Longrightarrow> p \<in> set ps \<Longrightarrow> p < length ns \<and> p \<noteq> npos"
  by (induction ns s ps rule: chain.induct) auto

text \<open>A chain depends only on the links of the nodes it visits.\<close>

lemma bucket_chain_cong:
  assumes "\<And>p. p \<in> set ps \<Longrightarrow> p < length ns \<Longrightarrow> p < length ns' \<and> node_next (ns' ! p) = node_next (ns ! p)"
    and "chain ns s ps"
  shows "chain ns' s ps"
  using assms by (induction ns s ps rule: chain.induct) auto

text \<open>The link before position \<open>p\<close> when the positions \<open>xs\<close> come before it, starting from the link \<open>l\<close>.\<close>

definition prev_link :: "link \<Rightarrow> nat list \<Rightarrow> link" where
  "prev_link l xs = (if xs = [] then l else Link (last xs))"

lemma prev_link_simps [simp]: "prev_link l [] = l" "prev_link l (x # xs) = prev_link (Link x) xs"
  by (simp_all add: prev_link_def)

lemma read_link_simps [simp]: "read_link m (Head b) = sparse m ! b" "read_link m (Link p) = node_next (packed m ! p)"
  by (simp_all add: read_link_def)

lemma link_ok_simps [simp]: "link_ok m (Head b) \<longleftrightarrow> b < bucket_count m" "link_ok m (Link p) \<longleftrightarrow> p < map_size m"
  by (simp_all add: link_ok_def)

lemma write_link_size [simp]: "map_size (write_link l x m) = map_size m" "bucket_count (write_link l x m) = bucket_count m"
  by (simp_all add: write_link_def split: link.splits)

lemma write_link_fields [simp]: "hash_function (write_link l x m) = hash_function m" "threshold (write_link l x m) = threshold m"
  by (simp_all add: write_link_def split: link.splits)

lemma write_link_node [simp]:
  "node_key (packed (write_link l x m) ! p) = node_key (packed m ! p)" "node_value (packed (write_link l x m) ! p) = node_value (packed m ! p)"
  by (auto simp: write_link_def nth_update_field split: link.splits)

lemma read_write_link: "link_ok m l \<Longrightarrow> link_ok m l' \<Longrightarrow> read_link (write_link l x m) l' = (if l' = l then x else read_link m l')"
  by (cases l; cases l') (auto simp: write_link_def)

lemma link_ok_write [simp]: "link_ok (write_link l x m) l' = link_ok m l'"
  by (cases l') simp_all

lemma chain_prev:
  assumes "chain (packed m) (read_link m l) (xs @ p # ys)" "link_ok m l"
  shows "read_link m (prev_link l xs) = p \<and> link_ok m (prev_link l xs) \<and> p < map_size m \<and> p \<noteq> npos \<and>
    chain (packed m) (node_next (packed m ! p)) ys"
  using assms
proof (induction xs arbitrary: l)
  case (Cons x xs)
  then have "chain (packed m) (read_link m (Link x)) (xs @ p # ys)" "link_ok m (Link x)" by simp_all
  from Cons.IH [OF this] show ?case by simp
qed simp

lemma chain_write_other:
  assumes "chain (packed m) (read_link m l) ps" "link_ok m l" "link_ok m t" "t \<noteq> l" "\<And>p. t = Link p \<Longrightarrow> p \<notin> set ps"
  shows "chain (packed (write_link t v m)) (read_link (write_link t v m) l) ps"
proof -
  have "chain (packed (write_link t v m)) (read_link m l) ps"
  proof (rule bucket_chain_cong [OF _ assms(1)])
    fix p assume "p \<in> set ps" "p < map_size m"
    then show "p < map_size (write_link t v m) \<and> node_next (packed (write_link t v m) ! p) = node_next (packed m ! p)"
      using read_write_link [of m t "Link p" v] assms(3,5) by auto
  qed
  with assms(2-4) show ?thesis by (simp add: read_write_link)
qed

text \<open>Writing the link before \<open>p\<close> replaces the rest of the chain.\<close>

lemma chain_write_prev:
  assumes "chain (packed m) (read_link m l) (xs @ p # ys)" "link_ok m l" "distinct xs" "\<And>q. l = Link q \<Longrightarrow> q \<notin> set xs"
    and "m' = write_link (prev_link l xs) v m" "chain (packed m') v zs"
  shows "chain (packed m') (read_link m' l) (xs @ zs)"
  using assms
proof (induction xs arbitrary: l)
  case Nil
  then show ?case by (simp add: read_write_link)
next
  case (Cons x xs)
  have x: "chain (packed m) (read_link m (Link x)) (xs @ p # ys)" "x < map_size m" "x \<noteq> npos" "read_link m l = x"
    using Cons.prems(1) by auto
  have "chain (packed m') (read_link m' (Link x)) (xs @ zs)"
    using Cons.IH [OF x(1) _ _ _ _ Cons.prems(6)] Cons.prems x(2) by simp
  moreover have t: "link_ok m (prev_link l (x # xs))" using chain_prev [OF Cons.prems(1,2)] by simp
  have "prev_link l (x # xs) \<noteq> l" using Cons.prems(4) by (auto simp: prev_link_def)
  then have "read_link m' l = x" using x(4) Cons.prems(2,5) t by (simp add: read_write_link)
  ultimately show ?case using x(2,3) Cons.prems(5) by simp
qed

section \<open>The loops\<close>

lemma bucket_find_none:
  "chain ns s ps \<Longrightarrow> \<forall>p \<in> set ps. node_key (ns ! p) \<noteq> key \<Longrightarrow> bucket_find ns key s = Some (Ret None)"
  by (induction ns s ps rule: chain.induct) (subst bucket_find.simps; simp)+

lemma bucket_find_some:
  "chain ns s (xs @ p # ys) \<Longrightarrow> \<forall>q \<in> set xs. node_key (ns ! q) \<noteq> key \<Longrightarrow> node_key (ns ! p) = key \<Longrightarrow>
   bucket_find ns key s = Some (Ret (Some p))"
proof (induction xs arbitrary: s)
  case Nil
  then show ?case by (subst bucket_find.simps) simp
next
  case (Cons x xs)
  then show ?case by (subst bucket_find.simps) simp
qed

lemma find_key_none:
  "chain (packed m) (read_link m l) ps \<Longrightarrow> link_ok m l \<Longrightarrow> \<forall>p \<in> set ps. node_key (packed m ! p) \<noteq> key \<Longrightarrow>
   find_key m key l = Some (Ret None)"
proof (induction ps arbitrary: l)
  case Nil
  then show ?case by (subst find_key.simps) simp
next
  case (Cons p ps)
  then have "find_key m key (Link p) = Some (Ret None)" by simp
  with Cons.prems show ?case by (subst find_key.simps) simp
qed

lemma find_key_some:
  "chain (packed m) (read_link m l) (xs @ p # ys) \<Longrightarrow> link_ok m l \<Longrightarrow> \<forall>q \<in> set xs. node_key (packed m ! q) \<noteq> key \<Longrightarrow>
   node_key (packed m ! p) = key \<Longrightarrow> find_key m key l = Some (Ret (Some (prev_link l xs)))"
proof (induction xs arbitrary: l)
  case Nil
  then show ?case by (subst find_key.simps) simp
next
  case (Cons x xs)
  then have "find_key m key (Link x) = Some (Ret (Some (prev_link (Link x) xs)))" by simp
  with Cons.prems show ?case by (subst find_key.simps) simp
qed

lemma find_value_some:
  "chain (packed m) (read_link m l) (xs @ p # ys) \<Longrightarrow> link_ok m l \<Longrightarrow> p \<notin> set xs \<Longrightarrow>
   find_value m p l = Some (Ret (prev_link l xs))"
proof (induction xs arbitrary: l)
  case Nil
  then show ?case by (subst find_value.simps) simp
next
  case (Cons x xs)
  then have "find_value m p (Link x) = Some (Ret (prev_link (Link x) xs))" by simp
  with Cons.prems show ?case by (subst find_value.simps) simp
qed

lemma bucket_walk_chain: "chain ns s ps \<Longrightarrow> bucket_walk ns s acc = Some (Ret (acc @ ps))"
  by (induction ns s ps arbitrary: acc rule: chain.induct) (subst bucket_walk.simps; simp)+

section \<open>The invariant\<close>

text \<open>
  The number of buckets is a power of two, the keys are distinct, and the chain of each
  bucket visits exactly the positions whose keys hash to it; \<open>layout\<close> says the last for a set
  of positions that are already linked.
\<close>

definition bucket_of :: "('k, 'v, 'f) dense_map \<Rightarrow> nat \<Rightarrow> nat" where
  "bucket_of m p = unat (hash_function m (node_key (packed m ! p))) mod bucket_count m"

definition layout :: "('k, 'v, 'f) dense_map \<Rightarrow> nat set \<Rightarrow> (nat \<Rightarrow> nat list) \<Rightarrow> bool" where
  "layout m S cs \<longleftrightarrow> (\<forall>b < bucket_count m.
     chain (packed m) (sparse m ! b) (cs b) \<and> distinct (cs b) \<and> set (cs b) = {p \<in> S. bucket_of m p = b})"

definition two_buckets :: "('k, 'v, 'f) dense_map \<Rightarrow> bool" where
  "two_buckets m \<longleftrightarrow> (\<exists>k<64. bucket_count m = 2 ^ k)"

definition keys_ok :: "('k, 'v, 'f) dense_map \<Rightarrow> bool" where
  "keys_ok m \<longleftrightarrow> map_size m < npos \<and> distinct (map node_key (packed m))"

definition map_inv :: "('k, 'v, 'f) dense_map \<Rightarrow> bool" where
  "map_inv m \<longleftrightarrow> two_buckets m \<and> keys_ok m \<and> (\<exists>cs. layout m {..<map_size m} cs)"

definition entries :: "('k, 'v, 'f) dense_map \<Rightarrow> ('k \<times> 'v) list" where
  "entries m = map (\<lambda>n. (node_key n, node_value n)) (packed m)"

text \<open>The same elements in the same order, with the same hash and load factor.\<close>

definition same_elements :: "('k, 'v, 'f) dense_map \<Rightarrow> ('k, 'v, 'f) dense_map \<Rightarrow> bool" where
  "same_elements m m' \<longleftrightarrow> entries m' = entries m \<and> hash_function m' = hash_function m \<and> threshold m' = threshold m"

lemma length_entries [simp]: "length (entries m) = map_size m"
  by (simp add: entries_def)

lemma nth_entries: "p < map_size m \<Longrightarrow> entries m ! p = (node_key (packed m ! p), node_value (packed m ! p))"
  by (simp add: entries_def)

lemma fst_entries: "map fst (entries m) = map node_key (packed m)"
  by (simp add: entries_def)

lemma same_elements_keys:
  assumes "same_elements m m'"
  shows "map_size m' = map_size m" "map node_key (packed m') = map node_key (packed m)" "keys_ok m' = keys_ok m"
proof -
  show s: "map_size m' = map_size m" using assms length_entries [of m'] length_entries [of m] by (simp add: same_elements_def)
  show k: "map node_key (packed m') = map node_key (packed m)"
    using assms by (simp add: same_elements_def fst_entries [symmetric])
  show "keys_ok m' = keys_ok m" unfolding keys_ok_def s k ..
qed

lemma same_elements_trans: "same_elements a b \<Longrightarrow> same_elements b c \<Longrightarrow> same_elements a c"
  by (simp add: same_elements_def)

lemma two_buckets_pos: "two_buckets m \<Longrightarrow> 0 < bucket_count m"
  by (auto simp: two_buckets_def)

lemma bucket_of_less: "two_buckets m \<Longrightarrow> bucket_of m p < bucket_count m"
  using two_buckets_pos [of m] by (simp add: bucket_of_def)

lemma key_to_bucket_eq:
  assumes "two_buckets m"
  shows "key_to_bucket m key = Ret (unat (hash_function m key) mod bucket_count m)"
proof -
  obtain k where k: "k < 64" "bucket_count m = 2 ^ k" using assms by (auto simp: two_buckets_def)
  have "unat (hash_function m key) mod 2 ^ k \<le> unat (hash_function m key)" by simp
  then have "unat (hash_function m key) mod 2 ^ k < 18446744073709551616" using unat_bounds(3) [of "hash_function m key"] by linarith
  then show ?thesis
    using fast_mod_power [OF k(1), of "hash_function m key"] k(2) by (simp add: key_to_bucket_def unat_of_nat del: of_nat_power)
qed

lemma layout_link_head:
  assumes "layout m S cs" "two_buckets m" "p \<notin> S" "p < map_size m" "p \<noteq> npos" "b = bucket_of m p"
    and m': "m' = m\<lparr>packed := (packed m)[p := (packed m ! p)\<lparr>node_next := sparse m ! b\<rparr>], sparse := (sparse m)[b := p]\<rparr>"
  shows "layout m' (insert p S) (cs(b := p # cs b))"
proof -
  have bucket: "bucket_of m' q = bucket_of m q" for q by (simp add: bucket_of_def m' nth_update_field)
  have b: "b < bucket_count m" using assms(2,6) bucket_of_less by simp
  have keep: "chain (packed m') s ps" if "chain (packed m) s ps" "p \<notin> set ps" for s ps
    by (rule bucket_chain_cong [OF _ that(1)]) (use that(2) assms(4) in \<open>auto simp: m' nth_list_update\<close>)
  show ?thesis
    unfolding layout_def
  proof (intro allI impI)
    fix a assume "a < bucket_count m'"
    then have a: "a < bucket_count m" by (simp add: m')
    with assms(1) have l: "chain (packed m) (sparse m ! a) (cs a)" "distinct (cs a)" "set (cs a) = {q \<in> S. bucket_of m q = a}"
      by (simp_all add: layout_def)
    then have p: "p \<notin> set (cs a)" using assms(3) by simp
    show "chain (packed m') (sparse m' ! a) ((cs(b := p # cs b)) a) \<and> distinct ((cs(b := p # cs b)) a) \<and>
        set ((cs(b := p # cs b)) a) = {q \<in> insert p S. bucket_of m' q = a}"
    proof (cases "a = b")
      case True
      then have "chain (packed m') (sparse m' ! a) (p # cs a)" using keep [OF l(1) p] b assms(4,5) by (simp add: m')
      moreover have "set (p # cs a) = {q \<in> insert p S. bucket_of m' q = a}" using l(3) True assms(6) unfolding bucket by auto
      ultimately show ?thesis using True l(2) p by simp
    next
      case False
      then have "chain (packed m') (sparse m' ! a) (cs a)" using keep [OF l(1) p] by (simp add: m')
      moreover have "set (cs a) = {q \<in> insert p S. bucket_of m' q = a}" using l(3) False assms(6) unfolding bucket by auto
      ultimately show ?thesis using False l(2) by simp
    qed
  qed
qed

lemma relink_links:
  assumes "layout m S cs" "two_buckets m" "distinct ps" "set ps \<inter> S = {}" "\<forall>p \<in> set ps. p < map_size m" "map_size m < npos"
  shows "\<exists>m' cs'. relink ps m = Ret m' \<and> layout m' (S \<union> set ps) cs' \<and> two_buckets m' \<and> same_elements m m' \<and>
    bucket_count m' = bucket_count m"
  using assms
proof (induction ps arbitrary: m S cs)
  case Nil
  then show ?case by (auto simp: same_elements_def)
next
  case (Cons p ps)
  define b where "b = bucket_of m p"
  define m1 where "m1 = m\<lparr>packed := (packed m)[p := (packed m ! p)\<lparr>node_next := sparse m ! b\<rparr>], sparse := (sparse m)[b := p]\<rparr>"
  have p: "p < map_size m" "p \<notin> S" "p \<noteq> npos" using Cons.prems by auto
  obtain cs1 where "layout m1 (insert p S) cs1"
    using layout_link_head [OF Cons.prems(1,2) p(2,1,3) b_def m1_def] by blast
  moreover have same: "same_elements m m1" "bucket_count m1 = bucket_count m" "two_buckets m1"
    using Cons.prems(2) by (auto simp: m1_def same_elements_def entries_def two_buckets_def map_update [symmetric] intro!: nth_equalityI simp: nth_update_field)
  ultimately have "\<exists>m' cs'. relink ps m1 = Ret m' \<and> layout m' (insert p S \<union> set ps) cs' \<and> two_buckets m' \<and> same_elements m1 m' \<and>
      bucket_count m' = bucket_count m1"
    using Cons.prems same_elements_keys(1) [OF same(1)] by (intro Cons.IH [of m1 "insert p S" cs1]) auto
  then obtain m' cs' where "relink ps m1 = Ret m'" "layout m' (insert p S \<union> set ps) cs'" "two_buckets m'" "same_elements m1 m'"
      "bucket_count m' = bucket_count m1" by blast
  moreover have "relink (p # ps) m = relink ps m1" using Cons.prems(2) by (simp add: key_to_bucket_eq m1_def b_def bucket_of_def)
  ultimately show ?case using same same_elements_trans by auto
qed

section \<open>Rehashing and finding\<close>

lemma layout_empty: "layout (m\<lparr>sparse := replicate n npos\<rparr>) {} (\<lambda>b. [])"
  by (simp add: layout_def)

text \<open>
  A rehash aborts, when the number of buckets asked for reaches \<open>2 ^ 63\<close>, or keeps the
  elements and restores the invariant.
\<close>

lemma rehash_spec:
  assumes "keys_ok m" "map_inv m \<or> bucket_count m = 0"
  shows "rehash fl cnt m = Aborts \<and> (2 ^ 63 \<le> cnt \<or> 2 ^ 63 \<le> least_buckets fl (map_size m) (threshold m)) \<or>
    (\<exists>m'. rehash fl cnt m = Ret m' \<and> map_inv m' \<and> same_elements m m')"
proof -
  define v where "v = (let v1 = (if minimum_capacity < cnt then cnt else minimum_capacity);
      cap = least_buckets fl (map_size m) (threshold m) in if cap < v1 then v1 else cap)"
  have r: "rehash fl cnt m = obind (next_power_of_two (of_nat v)) (\<lambda>sz.
        if unat sz = bucket_count m then Ret m
        else relink [0..<map_size m] (m\<lparr>sparse := replicate (unat sz) npos\<rparr>))"
    by (simp add: rehash_def v_def Let_def)
  show ?thesis
  proof (cases "unat (of_nat v :: 64 word) < 2 ^ 63")
    case False
    have "2 ^ 63 \<le> v"
    proof (rule ccontr)
      assume "\<not> 2 ^ 63 \<le> v"
      then have "unat (of_nat v :: 64 word) = v" by (simp add: unat_of_nat take_bit_nat_eq_self)
      with False \<open>\<not> 2 ^ 63 \<le> v\<close> show False by simp
    qed
    then have "2 ^ 63 \<le> cnt \<or> 2 ^ 63 \<le> least_buckets fl (map_size m) (threshold m)"
      by (auto simp: v_def Let_def minimum_capacity_def split: if_splits)
    then show ?thesis using r next_power_of_two_refused [OF False] by simp
  next
    case True
    then obtain k where k: "k < 64" "next_power_of_two (of_nat v) = Ret (of_nat (2 ^ k))"
      using next_power_of_two_least by blast
    have sz: "unat (of_nat (2 ^ k) :: 64 word) = 2 ^ k" by (rule of_nat_power_two [OF k(1)])
    show ?thesis
    proof (cases "bucket_count m = 2 ^ k")
      case True
      then have "rehash fl cnt m = Ret m" using r k sz by (simp del: of_nat_power)
      moreover have "map_inv m" using assms(2) True by auto
      ultimately show ?thesis by (simp add: same_elements_def)
    next
      case False
      let ?m = "m\<lparr>sparse := replicate (2 ^ k) npos\<rparr>"
      have two: "two_buckets ?m" using k(1) by (auto simp: two_buckets_def)
      have "map_size ?m < npos" using assms(1) by (simp add: keys_ok_def)
      then obtain m' cs' where m': "relink [0..<map_size m] ?m = Ret m'" "layout m' ({} \<union> set [0..<map_size m]) cs'"
          "two_buckets m'" "same_elements ?m m'"
        using relink_links [OF layout_empty two, of "[0..<map_size m]"] by auto
      have same: "same_elements m m'" using m'(4) by (simp add: same_elements_def entries_def)
      then have "map_inv m'"
        using m' assms(1) same_elements_keys [OF same] by (auto simp: map_inv_def atLeast0LessThan)
      then show ?thesis using r k sz False m'(1) same by (simp del: of_nat_power)
    qed
  qed
qed

lemma rehash_if_required_spec:
  assumes "map_inv m"
  shows "rehash_if_required fl m = Aborts \<and> \<not> (load_law fl (threshold m) \<and> map_size m \<le> 2 ^ 60) \<or>
    (\<exists>m'. rehash_if_required fl m = Ret m' \<and> map_inv m' \<and> same_elements m m')"
proof (cases "over_load fl (map_size m) (bucket_count m) (threshold m)")
  case True
  let ?cnt = "bucket_count m * 2 mod size_bound"
  have "?cnt < 2 ^ 63 \<and> least_buckets fl (map_size m) (threshold m) < 2 ^ 63" if "load_law fl (threshold m)" "map_size m \<le> 2 ^ 60"
  proof -
    have "bucket_count m \<le> 2 ^ 61" using load_lawD(1) [OF that(1) True] that(2) by simp
    moreover have "least_buckets fl (map_size m) (threshold m) \<le> 2 ^ 61"
      using load_lawD(2) [OF that(1), of "map_size m"] that(2) by simp
    ultimately show ?thesis by (simp add: size_bound_def)
  qed
  moreover have "keys_ok m" using assms by (simp add: map_inv_def)
  ultimately show ?thesis using rehash_spec [of m fl ?cnt] True assms by (auto simp: rehash_if_required_def)
qed (use assms in \<open>auto simp: rehash_if_required_def same_elements_def\<close>)

text \<open>A new map is empty, for any number of buckets below \<open>2 ^ 63\<close>.\<close>

lemma map_new_spec:
  assumes "r = (map_new fl cnt h f :: ('k, 'v, 'f) dense_map outcome)"
  shows "r = Aborts \<or> (\<exists>m'. r = Ret m' \<and> map_inv m' \<and> entries m' = [] \<and> hash_function m' = h \<and> threshold m' = f)"
proof -
  let ?m = "\<lparr>sparse = [], packed = [], hash_function = h, threshold = f\<rparr> :: ('k, 'v, 'f) dense_map"
  have "keys_ok ?m" by (simp add: keys_ok_def npos_def size_bound_def)
  from rehash_spec [OF this, of fl cnt] assms show ?thesis by (auto simp: map_new_def same_elements_def entries_def)
qed

text \<open>Every lookup answers the one position that holds the key, if any.\<close>

lemma chains_of_key:
  assumes "map_inv m" "b = unat (hash_function m key) mod bucket_count m"
  obtains ps where "chain (packed m) (sparse m ! b) ps" "distinct ps" "b < bucket_count m"
    "\<And>p. p < map_size m \<Longrightarrow> node_key (packed m ! p) = key \<Longrightarrow> p \<in> set ps"
    "set ps = {p. p < map_size m \<and> bucket_of m p = b}"
proof -
  obtain cs where cs: "layout m {..<map_size m} cs" and two: "two_buckets m" using assms(1) by (auto simp: map_inv_def)
  have b: "b < bucket_count m" unfolding assms(2) by (rule mod_less_divisor [OF two_buckets_pos [OF two]])
  with cs show thesis by (intro that [of "cs b"]) (auto simp: layout_def bucket_of_def assms(2))
qed

lemma key_at_unique:
  "keys_ok m \<Longrightarrow> p < map_size m \<Longrightarrow> q < map_size m \<Longrightarrow> node_key (packed m ! p) = node_key (packed m ! q) \<Longrightarrow> p = q"
  by (simp add: keys_ok_def distinct_conv_nth) metis

lemma constrained_find_spec:
  assumes "map_inv m" "b = unat (hash_function m key) mod bucket_count m"
  shows "if key \<in> set (map node_key (packed m))
     then \<exists>p<map_size m. node_key (packed m ! p) = key \<and> constrained_find m key b = Ret (Some p)
     else constrained_find m key b = Ret None"
proof -
  obtain ps where ps: "chain (packed m) (sparse m ! b) ps" "b < bucket_count m"
      "\<And>p. p < map_size m \<Longrightarrow> node_key (packed m ! p) = key \<Longrightarrow> p \<in> set ps"
    using chains_of_key [OF assms] by metis
  show ?thesis
  proof (cases "key \<in> set (map node_key (packed m))")
    case False
    then have "\<forall>p \<in> set ps. node_key (packed m ! p) \<noteq> key" using chain_below [OF ps(1)] by auto
    with ps False show ?thesis by (simp add: constrained_find_def bucket_find_none)
  next
    case True
    then obtain q where "q < map_size m" "node_key (packed m ! q) = key" by (auto simp: in_set_conv_nth)
    with ps(3) have "\<exists>p \<in> set ps. node_key (packed m ! p) = key" by blast
    then obtain xs p ys where split: "ps = xs @ p # ys" "node_key (packed m ! p) = key" "\<forall>q \<in> set xs. node_key (packed m ! q) \<noteq> key"
      using split_list_first_prop [of ps "\<lambda>p. node_key (packed m ! p) = key"] by auto
    then have "p < map_size m" using chain_below [OF ps(1)] by simp
    with split ps(1,2) True bucket_find_some [of "packed m" "sparse m ! b" xs p ys key] show ?thesis
      by (auto simp: constrained_find_def)
  qed
qed

lemma map_inv_parts: "map_inv m \<Longrightarrow> two_buckets m \<and> keys_ok m"
  by (simp add: map_inv_def)

lemma map_find_eq: "map_inv m \<Longrightarrow> map_find m key = constrained_find m key (unat (hash_function m key) mod bucket_count m)"
  by (simp add: map_find_def key_to_bucket_eq map_inv_parts)

section \<open>Inserting\<close>

lemma layout_append_node:
  assumes "map_inv m" "key \<notin> set (map node_key (packed m))" "Suc (map_size m) < npos"
    and "b = unat (hash_function m key) mod bucket_count m"
  shows "map_inv (append_node b key v m) \<and> entries (append_node b key v m) = entries m @ [(key, v)]"
proof -
  obtain cs where cs: "layout m {..<map_size m} cs" and two: "two_buckets m" and keys: "keys_ok m"
    using assms(1) by (auto simp: map_inv_def)
  let ?n = "\<lparr>node_next = sparse m ! b, node_key = key, node_value = v\<rparr>"
  let ?m = "m\<lparr>packed := packed m @ [?n]\<rparr>"
  have bucket: "bucket_of ?m p = bucket_of m p" if "p < map_size m" for p using that by (simp add: bucket_of_def nth_append)
  have lay: "layout ?m {..<map_size m} cs"
    unfolding layout_def
  proof (intro allI impI)
    fix a assume "a < bucket_count ?m"
    with cs have l: "chain (packed m) (sparse m ! a) (cs a)" "distinct (cs a)" "set (cs a) = {q \<in> {..<map_size m}. bucket_of m q = a}"
      by (simp_all add: layout_def)
    have "chain (packed ?m) (sparse ?m ! a) (cs a)"
    proof (rule bucket_chain_cong)
      show "chain (packed m) (sparse ?m ! a) (cs a)" using l(1) by simp
    qed (auto simp: nth_append)
    with l show "chain (packed ?m) (sparse ?m ! a) (cs a) \<and> distinct (cs a) \<and> set (cs a) = {p \<in> {..<map_size m}. bucket_of ?m p = a}"
      using bucket by auto
  qed
  have two1: "two_buckets ?m" using two by (simp add: two_buckets_def)
  have b: "b = bucket_of ?m (map_size m)" using assms(4) by (simp add: bucket_of_def)
  have eq: "append_node b key v m = ?m\<lparr>packed := (packed ?m)[map_size m := (packed ?m ! map_size m)\<lparr>node_next := sparse ?m ! b\<rparr>],
      sparse := (sparse ?m)[b := map_size m]\<rparr>"
    by (simp add: append_node_def)
  have "map_size m \<notin> {..<map_size m}" "map_size m < map_size ?m" "map_size m \<noteq> npos" using assms(3) by simp_all
  from layout_link_head [OF lay two1 this b eq]
  have "layout (append_node b key v m) (insert (map_size m) {..<map_size m}) (cs(b := map_size m # cs b))" .
  then have "\<exists>cs. layout (append_node b key v m) {..<map_size (append_node b key v m)} cs"
    by (auto simp: append_node_def lessThan_Suc)
  moreover have "two_buckets (append_node b key v m)" using two by (simp add: two_buckets_def append_node_def)
  moreover have "keys_ok (append_node b key v m)" using keys assms(2,3) by (simp add: keys_ok_def append_node_def)
  ultimately show ?thesis by (simp add: map_inv_def entries_def append_node_def)
qed

text \<open>The end of both insertions when the key is new.\<close>

lemma append_and_rehash:
  fixes m :: "('a, 'b, 'c) dense_map"
  assumes "map_inv m" "key \<notin> set (map node_key (packed m))" "Suc (map_size m) < npos"
    and "b = unat (hash_function m key) mod bucket_count m"
  shows "rehash_if_required fl (append_node b key v m) = Aborts \<or>
    (\<exists>m'. rehash_if_required fl (append_node b key v m) = Ret m' \<and> map_inv m' \<and> entries m' = entries m @ [(key, v)] \<and>
       map_size m' = Suc (map_size m) \<and> hash_function m' = hash_function m \<and> threshold m' = threshold m)"
proof -
  note app = layout_append_node [OF assms, of v]
  have f: "hash_function (append_node b key v m) = hash_function m" "threshold (append_node b key v m) = threshold m"
    by (simp_all add: append_node_def)
  have n: "map_size m' = Suc (map_size m)" if "entries m' = entries m @ [(key, v)]" for m' :: "('a, 'b, 'c) dense_map"
    using arg_cong [OF that, of length] by simp
  from rehash_if_required_spec [OF conjunct1 [OF app], of fl] app f n show ?thesis by (auto simp: same_elements_def)
qed

lemma insert_or_do_nothing_spec:
  assumes "map_inv m" "Suc (map_size m) < npos"
  shows "if key \<in> set (map node_key (packed m))
     then \<exists>p<map_size m. node_key (packed m ! p) = key \<and> insert_or_do_nothing fl key v m = Ret (p, False, m)
     else insert_or_do_nothing fl key v m = Aborts \<or>
       (\<exists>m'. insert_or_do_nothing fl key v m = Ret (map_size m, True, m') \<and> map_inv m' \<and> entries m' = entries m @ [(key, v)] \<and>
          map_size m' = Suc (map_size m) \<and> hash_function m' = hash_function m \<and> threshold m' = threshold m)"
proof -
  let ?b = "unat (hash_function m key) mod bucket_count m"
  have b: "key_to_bucket m key = Ret ?b" using assms(1) by (simp add: key_to_bucket_eq map_inv_parts)
  from constrained_find_spec [OF assms(1) refl, of key] show ?thesis
    using b append_and_rehash [OF assms(1) _ assms(2) refl, of key fl v]
    by (auto simp: insert_or_do_nothing_def split: if_splits)
qed

text \<open>With a law-abiding load factor an insertion never runs into the largest table.\<close>

lemma insert_returns:
  assumes "map_inv m" "load_law fl (threshold m)" "map_size m < 2 ^ 60"
  shows "insert_or_do_nothing fl key v m \<noteq> Aborts"
proof -
  let ?b = "unat (hash_function m key) mod bucket_count m"
  have b: "key_to_bucket m key = Ret ?b" using assms(1) by (simp add: key_to_bucket_eq map_inv_parts)
  have small: "Suc (map_size m) < npos" using assms(3) by (simp add: npos_def size_bound_def)
  show ?thesis
  proof (cases "key \<in> set (map node_key (packed m))")
    case True
    then show ?thesis using insert_or_do_nothing_spec [OF assms(1) small, of key fl v] by auto
  next
    case False
    then obtain m' where "rehash_if_required fl (append_node ?b key v m) = Ret m'"
      using rehash_if_required_spec [OF conjunct1 [OF layout_append_node [OF assms(1) False small refl, of v]], of fl] assms(2,3)
      by (auto simp: append_node_def)
    then show ?thesis
      using constrained_find_spec [OF assms(1) refl, of key] b False by (auto simp: insert_or_do_nothing_def split: if_splits)
  qed
qed

text \<open>Writing the value of a node, as through a reference to the element.\<close>

lemma map_inv_write:
  assumes "map_inv m" "p < map_size m"
  shows "map_inv (m\<lparr>packed := (packed m)[p := (packed m ! p)\<lparr>node_value := v\<rparr>]\<rparr>) \<and>
    entries (m\<lparr>packed := (packed m)[p := (packed m ! p)\<lparr>node_value := v\<rparr>]\<rparr>) = (entries m)[p := (node_key (packed m ! p), v)]"
proof -
  let ?m = "m\<lparr>packed := (packed m)[p := (packed m ! p)\<lparr>node_value := v\<rparr>]\<rparr>"
  have keys: "map node_key (packed ?m) = map node_key (packed m)" by (rule nth_equalityI) (simp_all add: nth_update_field)
  have bucket: "bucket_of ?m q = bucket_of m q" for q by (simp add: bucket_of_def nth_update_field)
  obtain cs where cs: "layout m {..<map_size m} cs" using assms(1) by (auto simp: map_inv_def)
  have "chain (packed ?m) s ps" if "chain (packed m) s ps" for s ps
    by (rule bucket_chain_cong [OF _ that]) (simp add: nth_update_field)
  with cs have "layout ?m {..<map_size ?m} cs" unfolding layout_def bucket by auto
  moreover have "keys_ok ?m" "two_buckets ?m" using map_inv_parts [OF assms(1)] keys by (simp_all add: keys_ok_def two_buckets_def)
  ultimately show ?thesis using assms(2) by (auto simp: map_inv_def entries_def map_update)
qed

lemma insert_or_overwrite_spec:
  assumes "map_inv m" "Suc (map_size m) < npos"
  shows "if key \<in> set (map node_key (packed m))
     then \<exists>p m'. p < map_size m \<and> node_key (packed m ! p) = key \<and> insert_or_overwrite fl key v m = Ret (p, False, m') \<and>
            map_inv m' \<and> entries m' = (entries m)[p := (key, v)]
     else insert_or_overwrite fl key v m = Aborts \<or>
       (\<exists>m'. insert_or_overwrite fl key v m = Ret (map_size m, True, m') \<and> map_inv m' \<and> entries m' = entries m @ [(key, v)])"
proof -
  let ?b = "unat (hash_function m key) mod bucket_count m"
  have b: "key_to_bucket m key = Ret ?b" using assms(1) by (simp add: key_to_bucket_eq map_inv_parts)
  from constrained_find_spec [OF assms(1) refl, of key] show ?thesis
    using b append_and_rehash [OF assms(1) _ assms(2) refl, of key fl v] map_inv_write [OF assms(1)]
    by (auto simp: insert_or_overwrite_def split: if_splits)
qed

section \<open>Removing\<close>

lemma bucket_of_write_link [simp]: "bucket_of (write_link l x m) p = bucket_of m p"
  by (simp add: bucket_of_def)

lemma layoutD:
  "layout m S cs \<Longrightarrow> b < bucket_count m \<Longrightarrow>
   chain (packed m) (read_link m (Head b)) (cs b) \<and> distinct (cs b) \<and> set (cs b) = {q \<in> S. bucket_of m q = b}"
  by (simp add: layout_def)

text \<open>Writing the link inside one chain replaces the rest of that chain and no other.\<close>

lemma layout_splice:
  assumes lay: "layout m S cs" and b: "b < bucket_count m" and split: "cs b = xs @ p # ys"
    and m': "m' = write_link (prev_link (Head b) xs) v m" and rest: "chain (packed m') v zs" "distinct (xs @ zs)"
    and S': "set (xs @ zs) = {q \<in> S'. bucket_of m q = b}" "\<And>q. bucket_of m q \<noteq> b \<Longrightarrow> q \<in> S' \<longleftrightarrow> q \<in> S"
  shows "layout m' S' (cs(b := xs @ zs))"
  unfolding layout_def
proof (intro allI impI)
  fix a assume "a < bucket_count m'"
  then have a: "a < bucket_count m" by (simp add: m')
  have chain_a: "chain (packed m) (read_link m (Head a)) (cs a)" "distinct (cs a)" "set (cs a) = {q \<in> S. bucket_of m q = a}"
    using layoutD [OF lay a] by blast+
  have chain_b: "chain (packed m) (read_link m (Head b)) (xs @ p # ys)" "distinct (xs @ p # ys)" "set (xs @ p # ys) = {q \<in> S. bucket_of m q = b}"
    using layoutD [OF lay b] unfolding split by blast+
  have t: "link_ok m (prev_link (Head b) xs)" using chain_prev [OF chain_b(1)] b by simp
  show "chain (packed m') (sparse m' ! a) ((cs(b := xs @ zs)) a) \<and> distinct ((cs(b := xs @ zs)) a) \<and>
      set ((cs(b := xs @ zs)) a) = {q \<in> S'. bucket_of m' q = a}"
  proof (cases "a = b")
    case True
    have "chain (packed m') (read_link m' (Head b)) (xs @ zs)"
      using chain_write_prev [OF chain_b(1) _ _ _ m' rest(1)] b chain_b(2) by simp
    with True rest(2) S'(1) show ?thesis by (simp add: m')
  next
    case False
    have "chain (packed m') (read_link m' (Head a)) (cs a)"
      unfolding m'
    proof (rule chain_write_other [OF chain_a(1) _ t])
      show "link_ok m (Head a)" using a by simp
      show "prev_link (Head b) xs \<noteq> Head a" using False by (simp add: prev_link_def)
      show "q \<notin> set (cs a)" if "prev_link (Head b) xs = Link q" for q
      proof -
        have "q \<in> set (xs @ p # ys)" using that by (auto simp: prev_link_def split: if_splits)
        then show ?thesis using chain_a(3) chain_b(3) False by auto
      qed
    qed
    moreover have "set (cs a) = {q \<in> S'. bucket_of m' q = a}" using chain_a(3) S'(2) False by (auto simp: m')
    ultimately show ?thesis using False chain_a(2) by simp
  qed
qed

lemma chain_after_write:
  assumes "chain (packed m) s zs" "link_ok m t" "\<And>q. t = Link q \<Longrightarrow> q \<notin> set zs"
  shows "chain (packed (write_link t v m)) s zs"
proof (rule bucket_chain_cong [OF _ assms(1)])
  fix q assume "q \<in> set zs" "q < map_size m"
  then show "q < map_size (write_link t v m) \<and> node_next (packed (write_link t v m) ! q) = node_next (packed m ! q)"
    using read_write_link [of m t "Link q" v] assms(2,3) by auto
qed

lemma prev_link_in: "prev_link (Head b) xs = Link q \<Longrightarrow> q \<in> set xs"
  by (auto simp: prev_link_def split: if_splits)

text \<open>Unlinking a position from its chain.\<close>

lemma layout_unlink:
  assumes lay: "layout m S cs" and b: "b < bucket_count m" and split: "cs b = xs @ i # ys"
  shows "layout (write_link (prev_link (Head b) xs) (node_next (packed m ! i)) m) (S - {i}) (cs(b := xs @ ys))"
proof -
  have c: "chain (packed m) (read_link m (Head b)) (xs @ i # ys)" "distinct (xs @ i # ys)" "set (xs @ i # ys) = {q \<in> S. bucket_of m q = b}"
    using layoutD [OF lay b] unfolding split by blast+
  note p = chain_prev [OF c(1)]
  have i: "bucket_of m i = b" using c(3) by auto
  show ?thesis
  proof (rule layout_splice [OF lay b split refl])
    show "chain (packed (write_link (prev_link (Head b) xs) (node_next (packed m ! i)) m)) (node_next (packed m ! i)) ys"
      using p b c(2) by (intro chain_after_write) (auto dest: prev_link_in)
    show "distinct (xs @ ys)" using c(2) by simp
    show "set (xs @ ys) = {q \<in> S - {i}. bucket_of m q = b}" using c(2,3) by auto
    show "q \<in> S - {i} \<longleftrightarrow> q \<in> S" if "bucket_of m q \<noteq> b" for q using that i by auto
  qed
qed

text \<open>Replacing a position of a chain by another one whose node is a copy.\<close>

lemma layout_replace:
  assumes lay: "layout m S cs" and b: "b < bucket_count m" and split: "cs b = xs @ l # ys"
    and i: "i \<notin> S" "i < map_size m" "i \<noteq> npos" "packed m ! i = packed m ! l"
  shows "layout (write_link (prev_link (Head b) xs) i m) (insert i (S - {l})) (cs(b := xs @ i # ys))"
proof -
  let ?m = "write_link (prev_link (Head b) xs) i m"
  have c: "chain (packed m) (read_link m (Head b)) (xs @ l # ys)" "distinct (xs @ l # ys)" "set (xs @ l # ys) = {q \<in> S. bucket_of m q = b}"
    using layoutD [OF lay b] unfolding split by blast+
  note p = chain_prev [OF c(1)]
  have bl: "bucket_of m l = b" using c(3) by auto
  then have bi: "bucket_of m i = b" using i(4) by (simp add: bucket_of_def)
  have out: "i \<notin> set (xs @ l # ys)" using c(3) i(1) by auto
  have "chain (packed ?m) (node_next (packed m ! l)) ys"
    using p b c(2) by (intro chain_after_write) (auto dest: prev_link_in)
  moreover have "node_next (packed ?m ! i) = node_next (packed m ! i)"
    using read_write_link [of m "prev_link (Head b) xs" "Link i" i] p b i(2) out by (auto dest: prev_link_in prev_link_in [OF sym])
  ultimately have "chain (packed ?m) i (i # ys)" using i by simp
  then show ?thesis
  proof (rule layout_splice [OF lay b split refl])
    show "distinct (xs @ i # ys)" using c(2) out by simp
    show "set (xs @ i # ys) = {q \<in> insert i (S - {l}). bucket_of m q = b}" using c(2,3) bi by auto
    show "q \<in> insert i (S - {l}) \<longleftrightarrow> q \<in> S" if "bucket_of m q \<noteq> b" for q using that bi bl by auto
  qed
qed

lemma layout_butlast:
  assumes "layout m S cs" "S \<subseteq> {..<map_size m - 1}"
  shows "layout (m\<lparr>packed := butlast (packed m)\<rparr>) S cs"
  unfolding layout_def
proof (intro allI impI)
  let ?m = "m\<lparr>packed := butlast (packed m)\<rparr>"
  fix a assume "a < bucket_count ?m"
  with assms(1) have c: "chain (packed m) (sparse m ! a) (cs a)" "distinct (cs a)" "set (cs a) = {q \<in> S. bucket_of m q = a}"
    by (simp_all add: layout_def)
  have "chain (packed ?m) (sparse m ! a) (cs a)"
    by (rule bucket_chain_cong [OF _ c(1)]) (use c(3) assms(2) in \<open>auto simp: nth_butlast\<close>)
  moreover have "bucket_of ?m q = bucket_of m q" if "q \<in> S" for q using that assms(2) by (auto simp: bucket_of_def nth_butlast)
  ultimately show "chain (packed ?m) (sparse ?m ! a) (cs a) \<and> distinct (cs a) \<and> set (cs a) = {q \<in> S. bucket_of ?m q = a}"
    using c(2,3) by auto
qed

lemma map_snd_keys: "map node_key (packed m) = map fst (entries m)"
  by (simp add: fst_entries)

lemma swap_pop_packed:
  "i < length ns \<Longrightarrow> map f (butlast (ns[i := last ns])) = swap_pop i (map f ns)"
  using map_swap_pop [of i ns f] by (simp add: swap_pop_def)

text \<open>
  Moving the last node into the hole. The map has lost position \<open>i\<close> from its chains; afterwards
  the chains cover every position again.
\<close>

lemma move_and_pop_spec:
  assumes two: "two_buckets m" and lay: "layout m ({..<map_size m} - {i}) cs" and i: "i < map_size m" and size: "map_size m < npos"
  shows "\<exists>m' cs'. move_and_pop i m = Ret m' \<and> layout m' {..<map_size m'} cs' \<and> two_buckets m' \<and>
     entries m' = swap_pop i (entries m) \<and> hash_function m' = hash_function m \<and> threshold m' = threshold m"
proof -
  define l where "l = map_size m - 1"
  have ne: "packed m \<noteq> []" and l: "l < map_size m" using i by (auto simp: l_def)
  then have last: "last (packed m) = packed m ! l" by (simp add: last_conv_nth l_def)
  show ?thesis
  proof (cases "i = l")
    case True
    then have "{..<map_size m} - {i} = {..<map_size m - 1}" by (auto simp: l_def)
    with lay have "layout (m\<lparr>packed := butlast (packed m)\<rparr>) {..<map_size m - 1} cs" by (intro layout_butlast) simp_all
    moreover have "move_and_pop i m = Ret (m\<lparr>packed := butlast (packed m)\<rparr>)" using True by (simp add: move_and_pop_def l_def)
    moreover have "map (\<lambda>n. (node_key n, node_value n)) (butlast (packed m)) = swap_pop i (entries m)"
      using True swap_pop_last [of "entries m"] ne by (simp add: entries_def map_butlast l_def)
    ultimately show ?thesis using two by (auto simp: two_buckets_def entries_def)
  next
    case False
    define m1 where "m1 = m\<lparr>packed := (packed m)[i := last (packed m)]\<rparr>"
    have size1: "map_size m1 = map_size m" "bucket_count m1 = bucket_count m" "sparse m1 = sparse m" by (simp_all add: m1_def)
    have node: "packed m1 ! q = (if q = i then packed m ! l else packed m ! q)" for q using i last by (simp add: m1_def nth_list_update)
    have bucket: "bucket_of m1 q = bucket_of m q" if "q \<noteq> i" for q using that node [of q] by (simp add: bucket_of_def m1_def)
    have lay1: "layout m1 ({..<map_size m} - {i}) cs"
      unfolding layout_def
    proof (intro allI impI)
      fix a assume "a < bucket_count m1"
      then have c: "chain (packed m) (sparse m ! a) (cs a)" "distinct (cs a)" "set (cs a) = {q \<in> {..<map_size m} - {i}. bucket_of m q = a}"
        using layoutD [OF lay, of a] size1 by simp_all
      have "chain (packed m1) (sparse m ! a) (cs a)"
        by (rule bucket_chain_cong [OF _ c(1)]) (use c(3) node size1 in auto)
      with c show "chain (packed m1) (sparse m1 ! a) (cs a) \<and> distinct (cs a) \<and> set (cs a) = {p \<in> {..<map_size m} - {i}. bucket_of m1 p = a}"
        using bucket size1 by auto
    qed
    have two1: "two_buckets m1" using two size1 by (simp add: two_buckets_def)
    define b where "b = bucket_of m1 l"
    have b: "b < bucket_count m1" unfolding b_def by (rule bucket_of_less [OF two1])
    have "l \<in> {q \<in> {..<map_size m} - {i}. bucket_of m1 q = b}" using l False by (simp add: b_def)
    then have "l \<in> set (cs b)" using layoutD [OF lay1 b] by blast
    then obtain xs ys where split: "cs b = xs @ l # ys" by (meson split_list)
    have c: "chain (packed m1) (read_link m1 (Head b)) (xs @ l # ys)" "distinct (xs @ l # ys)"
      using layoutD [OF lay1 b] unfolding split by blast+
    have find: "find_value m1 l (Head b) = Some (Ret (prev_link (Head b) xs))"
      using find_value_some [OF c(1)] b c(2) by simp
    define m2 where "m2 = write_link (prev_link (Head b) xs) i m1"
    have "layout m2 (insert i ({..<map_size m} - {i} - {l})) (cs(b := xs @ i # ys))"
      unfolding m2_def using layout_replace [OF lay1 b split] i size1 size node [of i] node [of l] False by simp
    moreover have "insert i ({..<map_size m} - {i} - {l}) = {..<map_size m - 1}" using i False by (auto simp: l_def)
    moreover have size2: "map_size m2 = map_size m" by (simp add: m2_def size1)
    ultimately have lay2: "layout (m2\<lparr>packed := butlast (packed m2)\<rparr>) {..<map_size m - 1} (cs(b := xs @ i # ys))"
      by (intro layout_butlast) simp_all
    have "key_to_bucket m (node_key (last (packed m))) = Ret b"
      using two False by (simp add: key_to_bucket_eq last b_def bucket_of_def node m1_def)
    then have "move_and_pop i m = Ret (m2\<lparr>packed := butlast (packed m2)\<rparr>)"
      unfolding move_and_pop_def Let_def l_def [symmetric] m1_def [symmetric] using False find by (simp add: m2_def)
    moreover have "entries m2 = entries m1" by (rule nth_equalityI) (simp_all add: m2_def entries_def)
    then have "entries (m2\<lparr>packed := butlast (packed m2)\<rparr>) = swap_pop i (entries m)"
      using i by (simp add: entries_def map_butlast m1_def map_update swap_pop_def last_map ne)
    moreover have "two_buckets (m2\<lparr>packed := butlast (packed m2)\<rparr>)" using two1 by (simp add: two_buckets_def m2_def)
    moreover have "hash_function m2 = hash_function m" "threshold m2 = threshold m" by (simp_all add: m2_def m1_def)
    ultimately show ?thesis using lay2 size2 by auto
  qed
qed

lemma map_erase_spec:
  assumes "map_inv m"
  shows "if key \<in> set (map node_key (packed m))
     then \<exists>i m'. i < map_size m \<and> node_key (packed m ! i) = key \<and> map_erase key m = Ret (1, m') \<and> map_inv m' \<and>
            entries m' = swap_pop i (entries m) \<and> hash_function m' = hash_function m \<and> threshold m' = threshold m
     else map_erase key m = Ret (0, m)"
proof -
  define b where "b = unat (hash_function m key) mod bucket_count m"
  obtain cs where lay: "layout m {..<map_size m} cs" and two: "two_buckets m" and keys: "keys_ok m"
    using assms by (auto simp: map_inv_def)
  have b: "b < bucket_count m" unfolding b_def by (rule mod_less_divisor [OF two_buckets_pos [OF two]])
  have kb: "key_to_bucket m key = Ret b" using two by (simp add: key_to_bucket_eq b_def)
  note c = layoutD [OF lay b]
  show ?thesis
  proof (cases "key \<in> set (map node_key (packed m))")
    case False
    then have "\<forall>p \<in> set (cs b). node_key (packed m ! p) \<noteq> key" using chain_below [OF conjunct1 [OF c]] by auto
    then have "find_key m key (Head b) = Some (Ret None)" using find_key_none [OF conjunct1 [OF c]] b by simp
    with False kb show ?thesis by (simp add: map_erase_def)
  next
    case True
    then obtain i where i: "i < map_size m" "node_key (packed m ! i) = key" by (auto simp: in_set_conv_nth)
    then have "i \<in> set (cs b)" using c by (simp add: bucket_of_def b_def)
    then obtain xs ys where split: "cs b = xs @ i # ys" by (meson split_list)
    have d: "distinct (xs @ i # ys)" "set (xs @ i # ys) \<subseteq> {..<map_size m}" using c unfolding split by auto
    then have "\<forall>q \<in> set xs. node_key (packed m ! q) \<noteq> key" using key_at_unique [OF keys] i by auto
    then have find: "find_key m key (Head b) = Some (Ret (Some (prev_link (Head b) xs)))"
      using find_key_some [of m "Head b" xs i ys key] c b i split by simp
    have read: "read_link m (prev_link (Head b) xs) = i" using chain_prev [of m "Head b" xs i ys] c b split by simp
    define m1 where "m1 = write_link (prev_link (Head b) xs) (node_next (packed m ! i)) m"
    have size1: "map_size m1 = map_size m" by (simp add: m1_def)
    have "layout m1 ({..<map_size m1} - {i}) (cs(b := xs @ ys))"
      unfolding size1 unfolding m1_def by (rule layout_unlink [OF lay b split])
    moreover have "two_buckets m1" "map_size m1 < npos" using two keys by (simp_all add: two_buckets_def m1_def keys_ok_def)
    ultimately obtain m' cs' where m': "move_and_pop i m1 = Ret m'" "layout m' {..<map_size m'} cs'" "two_buckets m'"
        "entries m' = swap_pop i (entries m1)" "hash_function m' = hash_function m1" "threshold m' = threshold m1"
      using move_and_pop_spec [of m1 i] i(1) size1 by metis
    have e: "entries m1 = entries m" by (rule nth_equalityI) (simp_all add: m1_def entries_def)
    have "map_size m' = map_size m - 1" using arg_cong [OF m'(4), of length] e by simp
    moreover have "distinct (map node_key (packed m'))"
    proof -
      have "map node_key (packed m') = swap_pop i (map node_key (packed m))"
        using m'(4) e i(1) by (simp add: map_snd_keys map_swap_pop)
      then show ?thesis using keys i(1) by (simp add: keys_ok_def set_swap_pop)
    qed
    ultimately have "map_inv m'" using m'(2,3) keys by (auto simp: map_inv_def keys_ok_def)
    moreover have "map_erase key m = Ret (1, m')" using kb find read m'(1) by (simp add: map_erase_def m1_def)
    moreover have "hash_function m' = hash_function m" "threshold m' = threshold m" using m'(5,6) by (simp_all add: m1_def)
    ultimately show ?thesis using True i m'(4) e by auto
  qed
qed

section \<open>The contract of a packed container\<close>

text \<open>
  The reference: a list of elements with distinct keys, where an insertion appends an element
  whose key is new and a removal lets the last element take the place of the removed one.
\<close>

definition position :: "('a \<Rightarrow> 'k) \<Rightarrow> 'k \<Rightarrow> 'a list \<Rightarrow> nat" where
  "position key k es = length (takeWhile (\<lambda>e. key e \<noteq> k) es)"

definition ref_insert :: "('a \<Rightarrow> 'k) \<Rightarrow> 'a \<Rightarrow> 'a list \<Rightarrow> 'a list" where
  "ref_insert key x es = (if key x \<in> set (map key es) then es else es @ [x])"

definition ref_erase :: "('a \<Rightarrow> 'k) \<Rightarrow> 'k \<Rightarrow> 'a list \<Rightarrow> 'a list" where
  "ref_erase key k es = (if k \<in> set (map key es) then swap_pop (position key k es) es else es)"

datatype ('a, 'k) packed_op = Insert 'a | Erase 'k

fun ref_op :: "('a \<Rightarrow> 'k) \<Rightarrow> ('a, 'k) packed_op \<Rightarrow> 'a list \<Rightarrow> 'a list" where
  "ref_op key (Insert x) es = ref_insert key x es"
| "ref_op key (Erase k) es = ref_erase key k es"

lemma position_eq:
  assumes "distinct (map key es)" "p < length es" "key (es ! p) = k"
  shows "position key k es = p"
proof -
  have "key (es ! i) \<noteq> k" if "i < p" for i
    using assms that nth_eq_iff_index_eq [of "map key es" i p] by auto
  then have "takeWhile (\<lambda>e. key e \<noteq> k) es = take p es"
    using assms(2,3) by (intro takeWhile_eq_take_P_nth) auto
  with assms(2) show ?thesis by (simp add: position_def)
qed

lemma ref_op_length: "length (ref_op key op es) \<le> Suc (length es)"
  by (cases op) (auto simp: ref_insert_def ref_erase_def)

text \<open>On the level of maps the reference inserts unless present, and removes.\<close>

lemma ref_op_map:
  assumes "distinct (map fst es)"
  shows "distinct (map fst (ref_op fst op es)) \<and>
    map_of (ref_op fst op es) = (case op of
       Insert (k, v) \<Rightarrow> if map_of es k = None then (map_of es)(k \<mapsto> v) else map_of es
     | Erase k \<Rightarrow> (map_of es)(k := None))"
proof (cases op)
  case (Insert x)
  obtain k v where x: "x = (k, v)" by (cases x)
  show ?thesis
  proof (cases "k \<in> fst ` set es")
    case True
    then show ?thesis using Insert x assms by (auto simp: ref_insert_def map_of_eq_None_iff)
  next
    case False
    then have n: "map_of es k = None" by (simp add: map_of_eq_None_iff)
    have "map_of (es @ [(k, v)]) = (map_of es)(k \<mapsto> v)"
      by (rule ext) (use n in \<open>auto simp: map_add_def split: option.split\<close>)
    with False Insert x assms show ?thesis by (auto simp: ref_insert_def map_of_eq_None_iff)
  qed
next
  case (Erase k)
  show ?thesis
  proof (cases "k \<in> fst ` set es")
    case False
    then show ?thesis using Erase assms by (auto simp: ref_erase_def map_of_eq_None_iff fun_upd_idem)
  next
    case True
    then obtain p where p: "p < length es" "fst (es ! p) = k" by (auto simp: in_set_conv_nth)
    then have pos: "position fst k es = p" using position_eq [OF assms] by simp
    have d: "distinct es" using assms by (simp add: distinct_map)
    have keys: "distinct (map fst (swap_pop p es))"
      using set_swap_pop(2) [of "map fst es" p] assms p(1) by (simp add: map_swap_pop)
    have "map_of (swap_pop p es) = (map_of es)(k := None)"
    proof
      fix x
      have "(x, y) \<in> set (swap_pop p es) \<longleftrightarrow> (x, y) \<in> set es \<and> x \<noteq> k" for y
      proof -
        have "(x, y) \<in> set es \<and> x = k \<longleftrightarrow> (x, y) = es ! p"
          using p nth_mem [OF p(1)] eq_key_imp_eq_value [OF assms] by (metis fst_conv surjective_pairing)
        then show ?thesis using set_swap_pop(1) [OF d p(1)] by auto
      qed
      then have "map_of (swap_pop p es) x = Some y \<longleftrightarrow> ((map_of es)(k := None)) x = Some y" for y
        using keys assms by simp
      then show "map_of (swap_pop p es) x = ((map_of es)(k := None)) x" by (metis not_Some_eq)
    qed
    with True keys pos Erase show ?thesis by (simp add: ref_erase_def)
  qed
qed

text \<open>
  The interface: an operation keeps the invariant and does what the reference does, or aborts
  (an insertion whose table cannot grow). A client runs operations.
\<close>

locale packed_container =
  fixes inv :: "'m \<Rightarrow> bool" and elems :: "'m \<Rightarrow> 'a list" and key :: "'a \<Rightarrow> 'k" and room :: nat
    and insert :: "'a \<Rightarrow> 'm \<Rightarrow> 'm outcome" and erase :: "'k \<Rightarrow> 'm \<Rightarrow> 'm outcome"
  assumes keys: "inv m \<Longrightarrow> distinct (map key (elems m))"
    and insert: "inv m \<Longrightarrow> length (elems m) < room \<Longrightarrow>
       insert x m = Aborts \<or> (\<exists>m'. insert x m = Ret m' \<and> inv m' \<and> elems m' = ref_insert key x (elems m))"
    and erase: "inv m \<Longrightarrow> \<exists>m'. erase k m = Ret m' \<and> inv m' \<and> elems m' = ref_erase key k (elems m)"
begin

fun run :: "('a, 'k) packed_op list \<Rightarrow> 'm \<Rightarrow> 'm outcome" where
  "run [] m = Ret m"
| "run (Insert x # ops) m = obind (insert x m) (run ops)"
| "run (Erase k # ops) m = obind (erase k m) (run ops)"

lemma run_refines:
  "inv m \<Longrightarrow> length (elems m) + length ops \<le> room \<Longrightarrow>
   run ops m = Aborts \<or> (\<exists>m'. run ops m = Ret m' \<and> inv m' \<and> elems m' = fold (ref_op key) ops (elems m))"
proof (induction ops m rule: run.induct)
  case (1 m)
  then show ?case by simp
next
  case (2 x ops m)
  then have "length (elems m) < room" by simp
  from insert [OF 2(2) this, of x] show ?case
  proof (elim disjE exE conjE)
    fix m' assume m': "insert x m = Ret m'" "inv m'" "elems m' = ref_insert key x (elems m)"
    then have "length (elems m') + length ops \<le> room" using 2(3) ref_op_length [of key "Insert x" "elems m"] by simp
    from 2(1) [OF m'(1,2) this] m' show ?thesis by simp
  qed simp
next
  case (3 k ops m)
  obtain m' where m': "erase k m = Ret m'" "inv m'" "elems m' = ref_erase key k (elems m)" using erase [OF 3(2)] by blast
  then have "length (elems m') + length ops \<le> room" using 3(3) ref_op_length [of key "Erase k" "elems m"] by (simp add: ref_erase_def split: if_splits)
  from 3(1) [OF m'(1,2) this] m' show ?case by simp
qed

end

text \<open>Where insertions return as well, runs do.\<close>

locale growing_container = packed_container +
  assumes insert_returns: "inv m \<Longrightarrow> length (elems m) < room \<Longrightarrow> insert x m \<noteq> Aborts"
begin

lemma run_returns:
  "inv m \<Longrightarrow> length (elems m) + length ops \<le> room \<Longrightarrow>
   \<exists>m'. run ops m = Ret m' \<and> inv m' \<and> elems m' = fold (ref_op key) ops (elems m)"
proof (induction ops m rule: run.induct)
  case (1 m)
  then show ?case by simp
next
  case (2 x ops m)
  then have "length (elems m) < room" by simp
  from insert [OF 2(2) this, of x] insert_returns [OF 2(2) this, of x]
  obtain m' where m': "insert x m = Ret m'" "inv m'" "elems m' = ref_insert key x (elems m)" by blast
  then have "length (elems m') + length ops \<le> room" using 2(3) ref_op_length [of key "Insert x" "elems m"] by simp
  from 2(1) [OF m'(1,2) this] m' show ?case by simp
next
  case (3 k ops m)
  obtain m' where m': "erase k m = Ret m'" "inv m'" "elems m' = ref_erase key k (elems m)" using erase [OF 3(2)] by blast
  then have "length (elems m') + length ops \<le> room" using 3(3) ref_op_length [of key "Erase k" "elems m"] by (simp add: ref_erase_def split: if_splits)
  from 3(1) [OF m'(1,2) this] m' show ?case by simp
qed

end

text \<open>The hash map keeps the contract, with its keys, below the capacity of its links.\<close>

definition insert_pair :: "'f load_ops \<Rightarrow> 'k \<times> 'v \<Rightarrow> ('k, 'v, 'f) dense_map \<Rightarrow> ('k, 'v, 'f) dense_map outcome" where
  "insert_pair fl x m = obind (insert_or_do_nothing fl (fst x) (snd x) m) (\<lambda>(pos, inserted, m'). Ret m')"

definition erase_key :: "'k \<Rightarrow> ('k, 'v, 'f) dense_map \<Rightarrow> ('k, 'v, 'f) dense_map outcome" where
  "erase_key k m = obind (map_erase k m) (\<lambda>(n, m'). Ret m')"

lemma map_inv_keys: "map_inv m \<Longrightarrow> distinct (map fst (entries m))"
  by (simp add: map_inv_def keys_ok_def fst_entries)

interpretation dense: packed_container map_inv entries fst "npos - 2" "insert_pair fl" erase_key
  for fl :: "'f load_ops"
proof
  fix m :: "('a, 'b, 'f) dense_map" and x :: "'a \<times> 'b" and k :: 'a
  assume inv: "map_inv m"
  show "distinct (map fst (entries m))" by (rule map_inv_keys [OF inv])
  show "\<exists>m'. erase_key k m = Ret m' \<and> map_inv m' \<and> entries m' = ref_erase fst k (entries m)"
  proof (cases "k \<in> set (map node_key (packed m))")
    case True
    then obtain i m' where i: "i < map_size m" "node_key (packed m ! i) = k" "map_erase k m = Ret (1, m')" "map_inv m'"
        "entries m' = swap_pop i (entries m)" using map_erase_spec [OF inv, of k] by auto
    then have "position fst k (entries m) = i" by (intro position_eq map_inv_keys [OF inv]) (simp_all add: nth_entries)
    with i True show ?thesis by (simp add: erase_key_def ref_erase_def fst_entries)
  next
    case False
    then show ?thesis using map_erase_spec [OF inv, of k] inv by (simp add: erase_key_def ref_erase_def fst_entries)
  qed
  show "insert_pair fl x m = Aborts \<or> (\<exists>m'. insert_pair fl x m = Ret m' \<and> map_inv m' \<and> entries m' = ref_insert fst x (entries m))"
    if "length (entries m) < npos - 2"
  proof -
    have "Suc (map_size m) < npos" using that by simp
    from insert_or_do_nothing_spec [OF inv this, of "fst x" fl "snd x"] inv show ?thesis
      by (auto simp: insert_pair_def ref_insert_def fst_entries split: if_splits)
  qed
qed

text \<open>With a law-abiding load factor it returns, as long as it has at most \<open>2 ^ 60\<close> elements.\<close>

definition sized_inv :: "'f load_ops \<Rightarrow> ('k, 'v, 'f) dense_map \<Rightarrow> bool" where
  "sized_inv fl m \<longleftrightarrow> map_inv m \<and> load_law fl (threshold m)"

lemma erase_key_threshold: "map_inv m \<Longrightarrow> erase_key k m = Ret m' \<Longrightarrow> threshold m' = threshold m"
  using map_erase_spec [of m k] by (auto simp: erase_key_def obind_eq_Ret_iff split: if_splits)

lemma insert_pair_threshold:
  "map_inv m \<Longrightarrow> Suc (map_size m) < npos \<Longrightarrow> insert_pair fl x m = Ret m' \<Longrightarrow> threshold m' = threshold m"
  using insert_or_do_nothing_spec [of m "fst x" fl "snd x"] by (auto simp: insert_pair_def obind_eq_Ret_iff split: if_splits)

interpretation sized: growing_container "sized_inv fl" entries fst "2 ^ 60" "insert_pair fl" erase_key
  for fl :: "'f load_ops"
proof
  fix m :: "('a, 'b, 'f) dense_map" and x :: "'a \<times> 'b" and k :: 'a
  assume "sized_inv fl m"
  then have inv: "map_inv m" and law: "load_law fl (threshold m)" by (simp_all add: sized_inv_def)
  show "distinct (map fst (entries m))" by (rule map_inv_keys [OF inv])
  show "\<exists>m'. erase_key k m = Ret m' \<and> sized_inv fl m' \<and> entries m' = ref_erase fst k (entries m)"
    using dense.erase [OF inv, of k] erase_key_threshold [OF inv, of k] law by (auto simp: sized_inv_def)
  assume small: "length (entries m) < 2 ^ 60"
  then have room: "Suc (map_size m) < npos" "length (entries m) < npos - 2" by (simp_all add: npos_def size_bound_def)
  show "insert_pair fl x m = Aborts \<or> (\<exists>m'. insert_pair fl x m = Ret m' \<and> sized_inv fl m' \<and> entries m' = ref_insert fst x (entries m))"
    using dense.insert [OF inv room(2), of fl x] insert_pair_threshold [OF inv room(1), of fl x] law by (auto simp: sized_inv_def)
  show "insert_pair fl x m \<noteq> Aborts"
    using insert_returns [OF inv law, of "fst x" "snd x"] small
    by (cases "insert_or_do_nothing fl (fst x) (snd x) m") (auto simp: insert_pair_def)
qed

section \<open>Properties\<close>

lemma map_find_spec:
  assumes "map_inv m"
  shows "case map_of (entries m) k of None \<Rightarrow> map_find m k = Ret None
    | Some v \<Rightarrow> \<exists>p<map_size m. map_find m k = Ret (Some p) \<and> entries m ! p = (k, v)"
proof (cases "k \<in> set (map node_key (packed m))")
  case True
  then obtain p where p: "p < map_size m" "node_key (packed m ! p) = k" "map_find m k = Ret (Some p)"
    using constrained_find_spec [OF assms refl, of k] map_find_eq [OF assms, of k] by auto
  have "entries m ! p \<in> set (entries m)" using p(1) by simp
  then have "map_of (entries m) k = Some (node_value (packed m ! p))"
    using map_inv_keys [OF assms] p by (simp add: nth_entries)
  with p show ?thesis by (auto simp: nth_entries)
next
  case False
  then have "map_of (entries m) k = None" by (simp add: map_of_eq_None_iff fst_entries [symmetric])
  with False show ?thesis using constrained_find_spec [OF assms refl, of k] map_find_eq [OF assms, of k] by simp
qed

text \<open>
  C1. The hash map is a map with packed elements. After any sequence of at most \<open>2 ^ 60\<close>
  insertions and removals on a new map, whatever the hash function, and with a load factor whose
  arithmetic keeps \<open>load_law\<close>, as that of the default factor in single precision does, every
  operation has returned and no assertion has failed, the elements are in the order of the
  reference (new ones at the end, the last one in the place of a removed one), every lookup
  ends and answers the position of the key's own element or the end, and \<open>at\<close> its value or a
  failed assertion.
\<close>

theorem dense_map_refines_map:
  assumes "map_new fl cnt h f = Ret m0" "load_law fl f" "length ops \<le> 2 ^ 60"
  shows "\<exists>m. dense.run fl ops m0 = Ret m \<and> entries m = fold (ref_op fst) ops [] \<and>
       (\<forall>k. case map_of (fold (ref_op fst) ops []) k of
          None \<Rightarrow> map_find m k = Ret None \<and> map_at m k = Aborts
        | Some v \<Rightarrow> map_at m k = Ret v \<and> (\<exists>p<map_size m. map_find m k = Ret (Some p) \<and> entries m ! p = (k, v)))"
proof -
  from map_new_spec [OF assms(1) [symmetric]] have "sized_inv fl m0" "entries m0 = []" using assms(2) by (auto simp: sized_inv_def)
  with sized.run_returns [of fl m0 ops] assms(3) obtain m where
    m: "dense.run fl ops m0 = Ret m" "map_inv m" "entries m = fold (ref_op fst) ops []" by (auto simp: sized_inv_def)
  have "case map_of (entries m) k of None \<Rightarrow> map_find m k = Ret None \<and> map_at m k = Aborts
      | Some v \<Rightarrow> map_at m k = Ret v \<and> (\<exists>p<map_size m. map_find m k = Ret (Some p) \<and> entries m ! p = (k, v))" for k
    using map_find_spec [OF m(2), of k] by (auto simp: map_at_def nth_entries split: option.splits)
  with m show ?thesis by auto
qed

text \<open>A new map of numbers hashed to themselves, with the default load factor in single precision.\<close>

definition sim_map :: "(nat, string, nat \<times> nat) dense_map" where
  "sim_map = \<lparr>sparse = replicate 8 npos, packed = [], hash_function = of_nat, threshold = default_load\<rparr>"

lemma least_buckets_none: "least_buckets single_loads 0 default_load = 0"
  using load_lawD(2) [OF default_load_law, of 0] by simp

lemma next_power_eight: "next_power_of_two (of_nat 8) = Ret 8"
  by (simp add: next_power_of_two_cases smear.simps)

lemma sim_map_new: "map_new single_loads 0 of_nat default_load = Ret sim_map"
  using next_power_eight by (simp add: map_new_def rehash_def minimum_capacity_def sim_map_def least_buckets_none)

lemma sim_map_inv: "map_inv sim_map"
  using map_new_spec [OF sim_map_new [symmetric]] by auto

theorem dense_map_refines_map_witness:
  "\<exists>m. dense.run single_loads [Insert (1, ''a''), Insert (2, ''b''), Insert (1, ''c''), Erase 1, Erase 3] sim_map = Ret m \<and>
     entries m = [(2, ''b'')] \<and> map_at m 2 = Ret ''b'' \<and> map_at m 1 = Aborts"
proof -
  let ?ops = "[Insert (1, ''a''), Insert (2, ''b''), Insert (1, ''c''), Erase 1, Erase 3] :: (nat \<times> string, nat) packed_op list"
  have l: "length ?ops \<le> 2 ^ 60" by simp
  have f: "fold (ref_op fst) ?ops [] = [(2, ''b'')]" by (simp add: ref_insert_def ref_erase_def position_def swap_pop_def)
  from dense_map_refines_map [OF sim_map_new default_load_law l, unfolded f] obtain m where
    m: "dense.run single_loads ?ops sim_map = Ret m" "entries m = [(2, ''b'')]"
    and at: "\<forall>k. case map_of [(2, ''b'')] k of None \<Rightarrow> map_find m k = Ret None \<and> map_at m k = Aborts
        | Some v \<Rightarrow> map_at m k = Ret v \<and> (\<exists>p<map_size m. map_find m k = Ret (Some p) \<and> entries m ! p = (k, v))"
    by blast
  from spec [OF at, of 1] spec [OF at, of 2] m show ?thesis by simp
qed

lemma constrained_find_append:
  assumes "map_inv m" "b = unat (hash_function m key) mod bucket_count m"
  shows "constrained_find (m\<lparr>packed := packed m @ [n]\<rparr>) key b = constrained_find m key b"
proof -
  obtain ps where ps: "chain (packed m) (sparse m ! b) ps" "b < bucket_count m" using chains_of_key [OF assms] by metis
  have c: "chain (packed m @ [n]) (sparse m ! b) ps" by (rule bucket_chain_cong [OF _ ps(1)]) (simp add: nth_append)
  have same: "node_key ((packed m @ [n]) ! p) = node_key (packed m ! p)" if "p \<in> set ps" for p
    using chain_below [OF ps(1) that] by (simp add: nth_append)
  show ?thesis
  proof (cases "\<exists>p \<in> set ps. node_key (packed m ! p) = key")
    case False
    with same have "\<forall>p \<in> set ps. node_key ((packed m @ [n]) ! p) \<noteq> key" by auto
    with False ps c show ?thesis by (simp add: constrained_find_def bucket_find_none)
  next
    case True
    then obtain xs p ys where split: "ps = xs @ p # ys" "node_key (packed m ! p) = key" "\<forall>q \<in> set xs. node_key (packed m ! q) \<noteq> key"
      using split_list_first_prop [of ps "\<lambda>p. node_key (packed m ! p) = key"] by auto
    with same have "node_key ((packed m @ [n]) ! p) = key" "\<forall>q \<in> set xs. node_key ((packed m @ [n]) ! q) \<noteq> key" by simp_all
    with split ps c show ?thesis using bucket_find_some [of "packed m" "sparse m ! b" xs p ys key]
        bucket_find_some [of "packed m @ [n]" "sparse m ! b" xs p ys key] by (simp add: constrained_find_def)
  qed
qed

lemma map_of_update_nth:
  "distinct (map fst es) \<Longrightarrow> p < length es \<Longrightarrow> fst (es ! p) = k \<Longrightarrow> map_of (es[p := (k, v)]) = (map_of es)(k \<mapsto> v)"
proof (induction es arbitrary: p)
  case (Cons e es)
  show ?case
  proof (cases p)
    case 0
    with Cons.prems show ?thesis by (cases e) auto
  next
    case (Suc q)
    then have "fst e \<noteq> k" using Cons.prems nth_mem [of q es] by auto
    with Suc Cons show ?thesis by (cases e) (auto simp: fun_upd_twist)
  qed
qed simp

text \<open>
  C22. Emplacing is inserting. The general case of \<open>emplace\<close> first appends the constructed
  element, with a link to itself, and looks its key up afterwards: on a well-formed map it
  gives the same result as the insertion that looks first, on both branches. Inserting or
  assigning replaces the value of a key that is there, in place, and otherwise appends.
\<close>

theorem emplace_is_insert:
  assumes "map_inv m" "Suc (map_size m) < npos"
  shows "emplace_node fl k v m = insert_or_do_nothing fl k v m \<and>
    (insert_or_overwrite fl k v m = Aborts \<or>
     (\<exists>p b m'. insert_or_overwrite fl k v m = Ret (p, b, m') \<and> map_inv m' \<and> b = (map_of (entries m) k = None) \<and>
        map_of (entries m') = (map_of (entries m))(k \<mapsto> v) \<and> entries m' ! p = (k, v) \<and>
        map fst (entries m') = map fst (entries m) @ (if b then [k] else [])))"
proof
  let ?n = "\<lparr>node_next = map_size m, node_key = k, node_value = v\<rparr>" and ?b = "unat (hash_function m k) mod bucket_count m"
  let ?m = "m\<lparr>packed := packed m @ [?n]\<rparr>"
  have two: "two_buckets m" "two_buckets ?m" using assms(1) by (simp_all add: map_inv_def two_buckets_def)
  have "key_to_bucket m k = Ret ?b" "key_to_bucket ?m k = Ret ?b"
    using key_to_bucket_eq [OF two(1), of k] key_to_bucket_eq [OF two(2), of k] by simp_all
  moreover have "constrained_find ?m k ?b = constrained_find m k ?b" by (rule constrained_find_append [OF assms(1) refl])
  moreover have "?m\<lparr>packed := (packed ?m)[map_size m := (packed ?m ! map_size m)\<lparr>node_next := sparse ?m ! ?b\<rparr>],
      sparse := (sparse ?m)[?b := map_size m]\<rparr> = append_node ?b k v m" by (simp add: append_node_def)
  moreover have "?m\<lparr>packed := butlast (packed ?m)\<rparr> = m" by simp
  ultimately show "emplace_node fl k v m = insert_or_do_nothing fl k v m"
    unfolding emplace_node_def insert_or_do_nothing_def Let_def by (simp cong: option.case_cong)
next
  have d: "distinct (map fst (entries m))" by (rule map_inv_keys [OF assms(1)])
  have keys: "k \<in> set (map node_key (packed m)) \<longleftrightarrow> map_of (entries m) k \<noteq> None" by (simp add: map_of_eq_None_iff fst_entries [symmetric])
  note spec = insert_or_overwrite_spec [OF assms, of k fl v]
  show "insert_or_overwrite fl k v m = Aborts \<or>
     (\<exists>p b m'. insert_or_overwrite fl k v m = Ret (p, b, m') \<and> map_inv m' \<and> b = (map_of (entries m) k = None) \<and>
        map_of (entries m') = (map_of (entries m))(k \<mapsto> v) \<and> entries m' ! p = (k, v) \<and>
        map fst (entries m') = map fst (entries m) @ (if b then [k] else []))"
  proof (cases "map_of (entries m) k = None")
    case True
    then have "map_of (entries m @ [(k, v)]) = (map_of (entries m))(k \<mapsto> v)"
      by (intro ext) (auto simp: map_add_def split: option.split)
    with spec keys True show ?thesis by (fastforce simp: nth_append)
  next
    case False
    then obtain p m' where p: "p < map_size m" "node_key (packed m ! p) = k" "insert_or_overwrite fl k v m = Ret (p, False, m')" "map_inv m'"
        "entries m' = (entries m)[p := (k, v)]" using spec keys by auto
    have f: "map fst ((entries m)[p := (k, v)]) = map fst (entries m)"
      using p(1,2) by (intro nth_equalityI) (auto simp: nth_list_update nth_entries)
    have "map_of ((entries m)[p := (k, v)]) = (map_of (entries m))(k \<mapsto> v)"
      using p(1,2) by (intro map_of_update_nth d) (simp_all add: nth_entries)
    with p f False show ?thesis by auto
  qed
qed

theorem emplace_is_insert_witness:
  "emplace_node single_loads 1 ''a'' sim_map = insert_or_do_nothing single_loads 1 ''a'' sim_map"
  using emplace_is_insert [OF sim_map_inv, of single_loads 1 "''a''"] by (simp add: sim_map_def npos_def size_bound_def)

end
