(* ===== verification/DenseSet.thy ===== *)
theory DenseSet
  imports DenseMapCorrect
begin

text \<open>
  The hash set of \<open>core/common/entt.hpp\<close> (\<open>entt::dense_set\<close>). Its nodes are pairs of a link and
  a value, and its loops are those of the hash map; here a set is a map whose mapped type has
  one element, so that the links, heads and loops are the same. The operations are written
  out as the class has them, and proved to be a set with packed elements.
\<close>

section \<open>Operations\<close>

type_synonym ('a, 'f) dense_set = "('a, unit, 'f) dense_map"

definition value_to_bucket :: "('a, 'f) dense_set \<Rightarrow> 'a \<Rightarrow> nat outcome" where
  "value_to_bucket s value = obind (fast_mod (hash_function s value) (of_nat (bucket_count s))) (\<lambda>w. Ret (unat w))"

definition set_constrained_find :: "('a, 'f) dense_set \<Rightarrow> 'a \<Rightarrow> nat \<Rightarrow> nat option outcome" where
  "set_constrained_find s value bucket =
     (if bucket < bucket_count s then of_loop (bucket_find (packed s) value (sparse s ! bucket)) else Undefined)"

definition set_find :: "('a, 'f) dense_set \<Rightarrow> 'a \<Rightarrow> nat option outcome" where
  "set_find s value = obind (value_to_bucket s value) (set_constrained_find s value)"

definition set_contains :: "('a, 'f) dense_set \<Rightarrow> 'a \<Rightarrow> bool outcome" where
  "set_contains s value = obind (set_find s value) (\<lambda>it. Ret (it \<noteq> None))"

definition set_count :: "('a, 'f) dense_set \<Rightarrow> 'a \<Rightarrow> nat outcome" where
  "set_count s value = obind (set_find s value) (\<lambda>it. Ret (if it \<noteq> None then 1 else 0))"

definition set_equal_range :: "('a, 'f) dense_set \<Rightarrow> 'a \<Rightarrow> (nat \<times> nat) outcome" where
  "set_equal_range s value = obind (set_find s value) (\<lambda>it.
     Ret (case it of None \<Rightarrow> (map_size s, map_size s) | Some pos \<Rightarrow> (pos, pos + 1)))"

fun set_relink :: "nat list \<Rightarrow> ('a, 'f) dense_set \<Rightarrow> ('a, 'f) dense_set outcome" where
  "set_relink [] s = Ret s"
| "set_relink (pos # ps) s =
     obind (value_to_bucket s (node_key (packed s ! pos))) (\<lambda>index.
       set_relink ps (s\<lparr>packed := (packed s)[pos := (packed s ! pos)\<lparr>node_next := sparse s ! index\<rparr>],
                        sparse := (sparse s)[index := pos]\<rparr>))"

definition set_rehash :: "'f load_ops \<Rightarrow> nat \<Rightarrow> ('a, 'f) dense_set \<Rightarrow> ('a, 'f) dense_set outcome" where
  "set_rehash fl cnt s =
     (let v1 = (if minimum_capacity < cnt then cnt else minimum_capacity);
          cap = least_buckets fl (map_size s) (threshold s);
          v2 = (if cap < v1 then v1 else cap) in
      obind (next_power_of_two (of_nat v2)) (\<lambda>sz.
        if unat sz = bucket_count s then Ret s
        else set_relink [0..<map_size s] (s\<lparr>sparse := replicate (unat sz) npos\<rparr>)))"

definition set_rehash_if_required :: "'f load_ops \<Rightarrow> ('a, 'f) dense_set \<Rightarrow> ('a, 'f) dense_set outcome" where
  "set_rehash_if_required fl s =
     (if over_load fl (map_size s) (bucket_count s) (threshold s) then set_rehash fl (bucket_count s * 2 mod size_bound) s else Ret s)"

definition set_new :: "'f load_ops \<Rightarrow> nat \<Rightarrow> ('a \<Rightarrow> 64 word) \<Rightarrow> 'f \<Rightarrow> ('a, 'f) dense_set outcome" where
  "set_new fl cnt h default_threshold =
     set_rehash fl cnt \<lparr>sparse = [], packed = [], hash_function = h, threshold = default_threshold\<rparr>"

definition set_clear :: "'f load_ops \<Rightarrow> ('a, 'f) dense_set \<Rightarrow> ('a, 'f) dense_set outcome" where
  "set_clear fl s = set_rehash fl 0 (s\<lparr>sparse := [], packed := []\<rparr>)"

definition set_max_load :: "'f load_ops \<Rightarrow> 'f \<Rightarrow> ('a, 'f) dense_set \<Rightarrow> ('a, 'f) dense_set outcome" where
  "set_max_load fl f s = entt_assert (valid_load fl f) (set_rehash fl 0 (s\<lparr>threshold := f\<rparr>))"

definition set_reserve :: "'f load_ops \<Rightarrow> nat \<Rightarrow> ('a, 'f) dense_set \<Rightarrow> ('a, 'f) dense_set outcome" where
  "set_reserve fl cnt s = set_rehash fl (ceil_buckets fl cnt (threshold s)) s"

definition set_insert :: "'f load_ops \<Rightarrow> 'a \<Rightarrow> ('a, 'f) dense_set \<Rightarrow> (nat \<times> bool \<times> ('a, 'f) dense_set) outcome" where
  "set_insert fl value s =
     obind (value_to_bucket s value) (\<lambda>index.
     obind (set_constrained_find s value index) (\<lambda>it.
       case it of
         Some pos \<Rightarrow> Ret (pos, False, s)
       | None \<Rightarrow>
           obind (set_rehash_if_required fl
             (s\<lparr>packed := packed s @ [\<lparr>node_next = sparse s ! index, node_key = value, node_value = ()\<rparr>],
                sparse := (sparse s)[index := map_size s]\<rparr>)) (\<lambda>s'. Ret (map_size s' - 1, True, s'))))"

fun set_insert_range :: "'f load_ops \<Rightarrow> 'a list \<Rightarrow> ('a, 'f) dense_set \<Rightarrow> ('a, 'f) dense_set outcome" where
  "set_insert_range fl [] s = Ret s"
| "set_insert_range fl (x # xs) s = obind (set_insert fl x s) (\<lambda>(pos, inserted, s'). set_insert_range fl xs s')"

definition set_emplace :: "'f load_ops \<Rightarrow> 'a \<Rightarrow> ('a, 'f) dense_set \<Rightarrow> (nat \<times> bool \<times> ('a, 'f) dense_set) outcome" where
  "set_emplace fl value s =
     (let s1 = s\<lparr>packed := packed s @ [\<lparr>node_next = map_size s, node_key = value, node_value = ()\<rparr>]\<rparr> in
      obind (value_to_bucket s1 value) (\<lambda>index.
      obind (set_constrained_find s1 value index) (\<lambda>it.
        case it of
          Some pos \<Rightarrow> Ret (pos, False, s1\<lparr>packed := butlast (packed s1)\<rparr>)
        | None \<Rightarrow> obind (set_rehash_if_required fl
            (s1\<lparr>packed := (packed s1)[map_size s := (packed s1 ! map_size s)\<lparr>node_next := sparse s1 ! index\<rparr>],
                sparse := (sparse s1)[index := map_size s]\<rparr>)) (\<lambda>s'.
            Ret (map_size s' - 1, True, s')))))"

definition set_move_and_pop :: "nat \<Rightarrow> ('a, 'f) dense_set \<Rightarrow> ('a, 'f) dense_set outcome" where
  "set_move_and_pop pos s =
     (let n = map_size s - 1 in
      obind (if pos \<noteq> n
             then obind (value_to_bucket s (node_key (last (packed s)))) (\<lambda>b.
                    let s1 = s\<lparr>packed := (packed s)[pos := last (packed s)]\<rparr> in
                    obind (of_loop (find_value s1 n (Head b))) (\<lambda>l. Ret (write_link l pos s1)))
             else Ret s)
        (\<lambda>s2. Ret (s2\<lparr>packed := butlast (packed s2)\<rparr>)))"

definition set_erase :: "'a \<Rightarrow> ('a, 'f) dense_set \<Rightarrow> (nat \<times> ('a, 'f) dense_set) outcome" where
  "set_erase value s =
     obind (value_to_bucket s value) (\<lambda>b.
     obind (of_loop (find_key s value (Head b))) (\<lambda>found.
       case found of
         None \<Rightarrow> Ret (0, s)
       | Some l \<Rightarrow>
           (let index = read_link s l; s1 = write_link l (node_next (packed s ! index)) s in
            obind (set_move_and_pop index s1) (\<lambda>s2. Ret (1, s2)))))"

definition set_erase_at :: "nat \<Rightarrow> ('a, 'f) dense_set \<Rightarrow> (nat \<times> ('a, 'f) dense_set) outcome" where
  "set_erase_at pos s =
     (if pos < map_size s
      then obind (set_erase (node_key (packed s ! pos)) s) (\<lambda>(n, s'). Ret (pos, s'))
      else Undefined)"

function set_erase_down :: "nat \<Rightarrow> nat \<Rightarrow> ('a, 'f) dense_set \<Rightarrow> ('a, 'f) dense_set outcome" where
  "set_erase_down dist pos s =
     (if pos = dist then Ret s
      else if 0 < pos \<and> pos - 1 < map_size s
      then obind (set_erase (node_key (packed s ! (pos - 1))) s) (\<lambda>(n, s'). set_erase_down dist (pos - 1) s')
      else Undefined)"
  by pat_completeness auto
termination by (relation "measure (\<lambda>(dist, pos, s). pos)") auto

declare set_erase_down.simps [simp del]

definition set_erase_range :: "nat \<Rightarrow> nat \<Rightarrow> ('a, 'f) dense_set \<Rightarrow> (nat \<times> ('a, 'f) dense_set) outcome" where
  "set_erase_range from_pos to_pos s = obind (set_erase_down from_pos to_pos s) (\<lambda>s'. Ret (from_pos, s'))"

definition set_bucket_size :: "nat \<Rightarrow> ('a, 'f) dense_set \<Rightarrow> nat outcome" where
  "set_bucket_size index s =
     (if index < bucket_count s
      then obind (of_loop (bucket_walk (packed s) (sparse s ! index) [])) (\<lambda>ps. Ret (length ps)) else Undefined)"

definition set_swap :: "('a, 'f) dense_set \<Rightarrow> ('a, 'f) dense_set \<Rightarrow> ('a, 'f) dense_set \<times> ('a, 'f) dense_set" where
  "set_swap a b = (b, a)"

section \<open>The set is the map on its values\<close>

lemma value_to_bucket_map: "value_to_bucket = key_to_bucket"
  by (intro ext) (simp add: value_to_bucket_def key_to_bucket_def)

lemma set_constrained_find_map: "set_constrained_find = constrained_find"
  by (intro ext) (simp add: set_constrained_find_def constrained_find_def)

lemma set_find_map: "set_find = map_find"
  by (intro ext) (simp add: set_find_def map_find_def value_to_bucket_map set_constrained_find_map)

lemma set_relink_map: "set_relink ps s = relink ps s"
  by (induction ps s rule: set_relink.induct) (simp_all add: value_to_bucket_map cong: obind_cong)

lemma set_rehash_map: "set_rehash = rehash"
  by (intro ext) (simp only: set_rehash_def rehash_def set_relink_map)

lemma set_rehash_if_required_map: "set_rehash_if_required = rehash_if_required"
  by (intro ext) (simp only: set_rehash_if_required_def rehash_if_required_def set_rehash_map)

lemma set_new_map: "set_new fl cnt h f = map_new fl cnt h f"
  by (simp only: set_new_def map_new_def set_rehash_map)

lemma set_insert_map: "set_insert fl x s = insert_or_do_nothing fl x () s"
  by (simp only: set_insert_def insert_or_do_nothing_def value_to_bucket_map set_constrained_find_map set_rehash_if_required_map append_node_def)

lemma set_emplace_map: "set_emplace fl x s = emplace_node fl x () s"
  by (simp only: set_emplace_def emplace_node_def value_to_bucket_map set_constrained_find_map set_rehash_if_required_map)

lemma set_move_and_pop_map: "set_move_and_pop = move_and_pop"
  by (intro ext) (simp only: set_move_and_pop_def move_and_pop_def value_to_bucket_map)

lemma set_erase_map: "set_erase = map_erase"
  by (intro ext) (simp only: set_erase_def map_erase_def value_to_bucket_map set_move_and_pop_map)

section \<open>The set as a packed container\<close>

definition set_values :: "('a, 'f) dense_set \<Rightarrow> 'a list" where
  "set_values s = map node_key (packed s)"

lemma values_entries: "set_values s = map fst (entries s)"
  by (simp add: set_values_def fst_entries)

lemma ref_map_fst:
  assumes "distinct (map fst es)"
  shows "map fst (ref_insert fst (x, ()) es) = ref_insert (\<lambda>x. x) x (map fst es)"
    and "map fst (ref_erase fst x es) = ref_erase (\<lambda>x. x) x (map fst es)"
proof -
  show "map fst (ref_insert fst (x, ()) es) = ref_insert (\<lambda>x. x) x (map fst es)" by (simp add: ref_insert_def)
  show "map fst (ref_erase fst x es) = ref_erase (\<lambda>x. x) x (map fst es)"
  proof (cases "x \<in> fst ` set es")
    case True
    then obtain p where p: "p < length es" "fst (es ! p) = x" by (auto simp: in_set_conv_nth)
    then have "position fst x es = p" "position (\<lambda>x. x) x (map fst es) = p" using assms by (auto intro: position_eq)
    with True p show ?thesis by (simp add: ref_erase_def map_swap_pop)
  qed (simp add: ref_erase_def)
qed

definition insert_value :: "'f load_ops \<Rightarrow> 'a \<Rightarrow> ('a, 'f) dense_set \<Rightarrow> ('a, 'f) dense_set outcome" where
  "insert_value fl x s = obind (set_insert fl x s) (\<lambda>(pos, inserted, s'). Ret s')"

definition erase_value :: "'a \<Rightarrow> ('a, 'f) dense_set \<Rightarrow> ('a, 'f) dense_set outcome" where
  "erase_value x s = obind (set_erase x s) (\<lambda>(n, s'). Ret s')"

interpretation dset: packed_container map_inv set_values "\<lambda>x. x" "npos - 2" "insert_value fl" erase_value
  for fl :: "'f load_ops"
proof
  fix s :: "('a, 'f) dense_set" and x
  assume inv: "map_inv s"
  have i: "insert_value fl x s = insert_pair fl (x, ()) s" by (simp add: insert_value_def insert_pair_def set_insert_map)
  have e: "erase_value x s = erase_key x s" by (simp add: erase_value_def erase_key_def set_erase_map)
  note d = map_inv_keys [OF inv]
  show "distinct (map (\<lambda>x. x) (set_values s))" using d by (simp add: values_entries)
  show "insert_value fl x s = Aborts \<or>
      (\<exists>s'. insert_value fl x s = Ret s' \<and> map_inv s' \<and> set_values s' = ref_insert (\<lambda>x. x) x (set_values s))" if "length (set_values s) < npos - 2"
    using dense.insert [OF inv, of fl "(x, ())"] that ref_map_fst(1) [OF d, of x] unfolding i by (auto simp: values_entries)
  show "\<exists>s'. erase_value x s = Ret s' \<and> map_inv s' \<and> set_values s' = ref_erase (\<lambda>x. x) x (set_values s)"
    using dense.erase [OF inv, of x] ref_map_fst(2) [OF d, of x] unfolding e by (auto simp: values_entries)
qed

interpretation sized_set: growing_container "sized_inv fl" set_values "\<lambda>x. x" "2 ^ 60" "insert_value fl" erase_value
  for fl :: "'f load_ops"
proof
  fix s :: "('a, 'f) dense_set" and x
  assume inv: "sized_inv fl s"
  have i: "insert_value fl x s = insert_pair fl (x, ()) s" by (simp add: insert_value_def insert_pair_def set_insert_map)
  have e: "erase_value x s = erase_key x s" by (simp add: erase_value_def erase_key_def set_erase_map)
  note d = sized.keys [OF inv]
  show "distinct (map (\<lambda>x. x) (set_values s))" using d by (simp add: values_entries)
  show "\<exists>s'. erase_value x s = Ret s' \<and> sized_inv fl s' \<and> set_values s' = ref_erase (\<lambda>x. x) x (set_values s)"
    using sized.erase [OF inv, of x] ref_map_fst(2) [OF d, of x] unfolding e by (auto simp: values_entries)
  assume small: "length (set_values s) < 2 ^ 60"
  show "insert_value fl x s = Aborts \<or>
      (\<exists>s'. insert_value fl x s = Ret s' \<and> sized_inv fl s' \<and> set_values s' = ref_insert (\<lambda>x. x) x (set_values s))"
    using sized.insert [OF inv, of "(x, ())"] small ref_map_fst(1) [OF d, of x] unfolding i by (auto simp: values_entries)
  show "insert_value fl x s \<noteq> Aborts"
    using sized.insert_returns [OF inv, of "(x, ())"] small unfolding i by (simp add: values_entries)
qed

section \<open>Properties\<close>

text \<open>
  C23. The hash set is a set. The operations that the class repeats are, on a map whose values
  carry nothing, those of the hash map; so any sequence of at most \<open>2 ^ 60\<close> insertions and removals on a
  new set, with a load factor whose arithmetic keeps \<open>load_law\<close>, returns, no assertion fails, the
  values are those of the reference in its order and without duplicates, and \<open>contains\<close> ends and
  answers membership.
\<close>

theorem dense_set_is_a_set:
  assumes "set_new fl cnt h f = Ret s0" "load_law fl f" "length ops \<le> 2 ^ 60"
  shows "set_erase = map_erase \<and> (\<forall>x s. set_insert fl x s = insert_or_do_nothing fl x () s \<and> set_emplace fl x s = emplace_node fl x () s) \<and>
    (\<exists>s. dset.run fl ops s0 = Ret s \<and> set_values s = fold (ref_op (\<lambda>x. x)) ops [] \<and> distinct (set_values s) \<and>
       (\<forall>x. set_contains s x = Ret (x \<in> set (fold (ref_op (\<lambda>x. x)) ops []))))"
proof -
  have new: "Ret s0 = map_new fl cnt h f" using assms(1) by (simp add: set_new_map)
  from map_new_spec [OF new] have "sized_inv fl s0" "set_values s0 = []" using assms(2) by (auto simp: values_entries sized_inv_def)
  with sized_set.run_returns [of fl s0 ops] assms(3) obtain s where
    s: "dset.run fl ops s0 = Ret s" "map_inv s" "set_values s = fold (ref_op (\<lambda>x. x)) ops []" by (auto simp: sized_inv_def)
  have "set_contains s x = Ret (x \<in> set (set_values s))" for x
    using constrained_find_spec [OF s(2) refl, of x] map_find_eq [OF s(2), of x]
    by (auto simp: set_contains_def set_find_map set_values_def split: if_splits)
  moreover have "distinct (set_values s)" using map_inv_keys [OF s(2)] by (simp add: values_entries)
  ultimately show ?thesis using s(1,3) by (simp add: set_erase_map set_insert_map set_emplace_map)
qed

definition sim_set :: "(nat, nat \<times> nat) dense_set" where
  "sim_set = \<lparr>sparse = replicate 8 npos, packed = [], hash_function = of_nat, threshold = default_load\<rparr>"

lemma sim_set_new: "set_new single_loads 0 of_nat default_load = Ret sim_set"
  using next_power_eight by (simp add: set_new_def set_rehash_def minimum_capacity_def sim_set_def least_buckets_none)

theorem dense_set_is_a_set_witness:
  "\<exists>s. dset.run single_loads [Insert 3, Insert 5, Insert 3, Erase 3, Erase 4] sim_set = Ret s \<and>
     set_values s = [5] \<and> set_contains s 5 = Ret True \<and> set_contains s 3 = Ret False"
proof -
  let ?ops = "[Insert 3, Insert 5, Insert 3, Erase 3, Erase 4] :: (nat, nat) packed_op list"
  have l: "length ?ops \<le> 2 ^ 60" by simp
  have f: "fold (ref_op (\<lambda>x. x)) ?ops [] = [5]" by (simp add: ref_insert_def ref_erase_def position_def swap_pop_def)
  from dense_set_is_a_set [OF sim_set_new default_load_law l, unfolded f] show ?thesis by auto
qed

end
