(* ===== verification/Flow.thy ===== *)
theory Flow
  imports Adjacency DenseSet
begin

text \<open>
  The task graph builder of \<open>core/common/entt.hpp\<close> (\<open>entt::flow\<close>): tasks are bound one after
  the other, resources are assigned to the current task for reading or writing, and
  \<open>graph()\<close> answers the adjacency matrix of the order in which they may run. The tasks are in a
  hash set, the accesses in a hash map from resources to vectors of a task's position and a
  flag for writing; both hash an identifier to itself.
\<close>

section \<open>State\<close>

type_synonym id_type = "32 word"

record 'f flow =
  flow_index :: nat
  flow_vertices :: "(id_type, 'f) dense_set"
  flow_deps :: "(id_type, (nat \<times> bool) list, 'f) dense_map"
  sync_on :: nat

definition id_hash :: "id_type \<Rightarrow> 64 word" where
  "id_hash x = ucast x"

definition flow_new :: "'f load_ops \<Rightarrow> 'f \<Rightarrow> 'f flow outcome" where
  "flow_new fl load =
     obind (set_new fl minimum_capacity id_hash load) (\<lambda>vs.
     obind (map_new fl minimum_capacity id_hash load) (\<lambda>ds.
       Ret \<lparr>flow_index = 0, flow_vertices = vs, flow_deps = ds, sync_on = 0\<rparr>))"

definition flow_size :: "'f flow \<Rightarrow> nat" where
  "flow_size f = map_size (flow_vertices f)"

definition flow_at :: "nat \<Rightarrow> 'f flow \<Rightarrow> id_type outcome" where
  "flow_at pos f = (if pos < flow_size f then Ret (node_key (packed (flow_vertices f) ! pos)) else Undefined)"

definition flow_clear :: "'f load_ops \<Rightarrow> 'f flow \<Rightarrow> 'f flow outcome" where
  "flow_clear fl f =
     obind (set_clear fl (flow_vertices f)) (\<lambda>vs.
     obind (map_clear fl (flow_deps f)) (\<lambda>ds.
       Ret (f\<lparr>flow_index := 0, flow_vertices := vs, flow_deps := ds, sync_on := 0\<rparr>)))"

definition flow_swap :: "'f flow \<Rightarrow> 'f flow \<Rightarrow> 'f flow \<times> 'f flow" where
  "flow_swap a b = (b, a)"

section \<open>Binding tasks and resources\<close>

definition flow_bind :: "'f load_ops \<Rightarrow> id_type \<Rightarrow> 'f flow \<Rightarrow> 'f flow outcome" where
  "flow_bind fl task f =
     (let sync' = (sync_on f + (if sync_on f = flow_size f then 1 else 0)) mod size_bound in
      obind (set_insert fl task (flow_vertices f)) (\<lambda>(it, inserted, vs).
        Ret (f\<lparr>sync_on := sync', flow_vertices := vs, flow_index := it\<rparr>)))"

text \<open>\<open>deps[res].emplace_back(task, is_rw)\<close>, through the reference that the index operator answers.\<close>

definition push_dep ::
    "'f load_ops \<Rightarrow> id_type \<Rightarrow> nat \<times> bool \<Rightarrow> (id_type, (nat \<times> bool) list, 'f) dense_map
       \<Rightarrow> (id_type, (nat \<times> bool) list, 'f) dense_map outcome" where
  "push_dep fl res x ds =
     obind (insert_or_do_nothing fl res [] ds) (\<lambda>(pos, inserted, d').
       Ret (d'\<lparr>packed := (packed d')[pos := (packed d' ! pos)\<lparr>node_value := node_value (packed d' ! pos) @ [x]\<rparr>]\<rparr>))"

definition flow_emplace :: "'f load_ops \<Rightarrow> id_type \<Rightarrow> bool \<Rightarrow> 'f flow \<Rightarrow> 'f flow outcome" where
  "flow_emplace fl res is_rw f =
     entt_assert (flow_index f < flow_size f)
       (obind (map_contains (flow_deps f) res) (\<lambda>seen.
        obind (if \<not> seen \<and> sync_on f \<noteq> flow_size f then push_dep fl res (sync_on f, True) (flow_deps f) else Ret (flow_deps f)) (\<lambda>d1.
        obind (push_dep fl res (flow_index f, is_rw) d1) (\<lambda>d2.
          Ret (f\<lparr>flow_deps := d2\<rparr>)))))"

definition flow_set :: "'f load_ops \<Rightarrow> id_type \<Rightarrow> bool \<Rightarrow> 'f flow \<Rightarrow> 'f flow outcome" where
  "flow_set fl res is_rw f = flow_emplace fl res is_rw f"

definition flow_ro :: "'f load_ops \<Rightarrow> id_type \<Rightarrow> 'f flow \<Rightarrow> 'f flow outcome" where
  "flow_ro fl res f = flow_emplace fl res False f"

definition flow_rw :: "'f load_ops \<Rightarrow> id_type \<Rightarrow> 'f flow \<Rightarrow> 'f flow outcome" where
  "flow_rw fl res f = flow_emplace fl res True f"

definition flow_ro_range :: "'f load_ops \<Rightarrow> id_type list \<Rightarrow> 'f flow \<Rightarrow> 'f flow outcome" where
  "flow_ro_range fl rs f = ofold (\<lambda>res. flow_emplace fl res False) rs f"

definition flow_rw_range :: "'f load_ops \<Rightarrow> id_type list \<Rightarrow> 'f flow \<Rightarrow> 'f flow outcome" where
  "flow_rw_range fl rs f = ofold (\<lambda>res. flow_emplace fl res True) rs f"

text \<open>A sync point writes every resource known so far.\<close>

definition flow_sync :: "'f flow \<Rightarrow> 'f flow outcome" where
  "flow_sync f =
     entt_assert (flow_index f < flow_size f)
       (Ret (f\<lparr>sync_on := flow_index f,
               flow_deps := (flow_deps f)\<lparr>packed :=
                 map (\<lambda>n. n\<lparr>node_value := node_value n @ [(flow_index f, True)]\<rparr>) (packed (flow_deps f))\<rparr>\<rparr>))"

section \<open>The graph\<close>

definition link_tasks :: "nat \<Rightarrow> nat \<Rightarrow> adjacency_matrix \<Rightarrow> adjacency_matrix outcome" where
  "link_tasks a b m = obind (matrix_insert Directed_tag a b m) (\<lambda>(it, inserted, m'). Ret m')"

text \<open>
  The loop over the accesses of a resource, on what is left of them. A writer precedes the
  readers up to the next writer, and they precede it, or the next writer at once; readers at
  the start precede the first writer. \<open>find_if\<close> for a writer is \<open>dropWhile\<close>.
\<close>

abbreviation reader :: "nat \<times> bool \<Rightarrow> bool" where
  "reader x \<equiv> \<not> snd x"

function setup_elem :: "(nat \<times> bool) list \<Rightarrow> adjacency_matrix \<Rightarrow> adjacency_matrix outcome" where
  "setup_elem [] m = Ret m"
| "setup_elem (x # xs) m =
     (if snd x
      then (case xs of
              [] \<Rightarrow> Ret m
            | it # _ \<Rightarrow>
                if snd it then obind (link_tasks (fst x) (fst it) m) (setup_elem xs)
                else (case dropWhile reader xs of
                        nxt # rest \<Rightarrow>
                          obind (ofold (\<lambda>it m1. obind (link_tasks (fst x) (fst it) m1) (link_tasks (fst it) (fst nxt))) (takeWhile reader xs) m)
                            (setup_elem (nxt # rest))
                      | [] \<Rightarrow> ofold (\<lambda>it. link_tasks (fst x) (fst it)) xs m))
      else (case dropWhile reader (x # xs) of
              nxt # rest \<Rightarrow>
                obind (ofold (\<lambda>it. link_tasks (fst it) (fst nxt)) (takeWhile reader (x # xs)) m) (setup_elem (nxt # rest))
            | [] \<Rightarrow> Ret m))"
  by pat_completeness auto
termination
proof (relation "measure (\<lambda>(xs, m). length xs)", goal_cases)
  case (3 x xs m it its nxt rest m')
  then show ?case using length_dropWhile_le [of reader xs] by simp
next
  case (4 x xs m nxt rest m')
  then show ?case using length_dropWhile_le [of reader xs] by simp
qed auto

definition setup_graph :: "'f flow \<Rightarrow> adjacency_matrix \<Rightarrow> adjacency_matrix outcome" where
  "setup_graph f m = ofold (\<lambda>n. setup_elem (node_value n)) (packed (flow_deps f)) m"

definition transitive_closure :: "adjacency_matrix \<Rightarrow> adjacency_matrix outcome" where
  "transitive_closure m =
     (let all = [0..<vert m] in
      ofold (\<lambda>vk. ofold (\<lambda>vi. ofold (\<lambda>vj m1.
        if matrix_contains vi vk m1 \<and> matrix_contains vk vj m1 then link_tasks vi vj m1 else Ret m1) all) all) all m)"

definition unlink_tasks :: "nat \<Rightarrow> nat \<Rightarrow> adjacency_matrix \<Rightarrow> adjacency_matrix outcome" where
  "unlink_tasks a b m = obind (matrix_erase Directed_tag a b m) (\<lambda>(n, m'). Ret m')"

definition transitive_reduction :: "adjacency_matrix \<Rightarrow> adjacency_matrix outcome" where
  "transitive_reduction m =
     (let all = [0..<vert m] in
      obind (ofold (\<lambda>v. unlink_tasks v v) all m)
        (ofold (\<lambda>vj. ofold (\<lambda>vi m1.
          if matrix_contains vi vj m1
          then ofold (\<lambda>vk m2. if matrix_contains vj vk m2 then unlink_tasks vi vk m2 else Ret m2) all m1
          else Ret m1) all) all))"

definition flow_graph :: "'f flow \<Rightarrow> adjacency_matrix outcome" where
  "flow_graph f =
     obind (matrix_new (flow_size f)) (\<lambda>m.
     obind (setup_graph f m) (\<lambda>m1.
     obind (transitive_closure m1) transitive_reduction))"

end
