(* ===== verification/FlowCorrect.thy ===== *)
theory FlowCorrect
  imports Flow
begin

text \<open>
  The task graph orders exactly the tasks that conflict. Three parts: the loops of
  \<open>graph()\<close> on sets of edges, the accesses that the builder records, and their composition.
\<close>

section \<open>Closure and reduction of a set of edges\<close>

text \<open>The loops of the closure, on sets.\<close>

definition close_over :: "nat \<Rightarrow> nat \<Rightarrow> nat \<Rightarrow> (nat \<times> nat) set \<Rightarrow> (nat \<times> nat) set" where
  "close_over k i j g = (if (i, k) \<in> g \<and> (k, j) \<in> g then insert (i, j) g else g)"

lemma close_row: "fold (close_over k i) js g = g \<union> {(i, j) |j. j \<in> set js \<and> (i, k) \<in> g \<and> (k, j) \<in> g}"
proof (induction js rule: rev_induct)
  case (snoc j js)
  then show ?case by (auto simp: close_over_def)
qed simp

lemma close_rows:
  "fold (\<lambda>i. fold (close_over k i) js) is g = g \<union> {(i, j) |i j. i \<in> set is \<and> j \<in> set js \<and> (i, k) \<in> g \<and> (k, j) \<in> g}"
proof (induction "is" rule: rev_induct)
  case (snoc i "is")
  then show ?case by (auto simp: close_row)
qed simp

lemma closed_below_step:
  assumes "\<And>x y z. z < k \<Longrightarrow> (x, z) \<in> s \<Longrightarrow> (z, y) \<in> s \<Longrightarrow> (x, y) \<in> s"
    and "t = s \<union> {(x, y). (x, k) \<in> s \<and> (k, y) \<in> s}"
    and "z < Suc k" "(x, z) \<in> t" "(z, y) \<in> t"
  shows "(x, y) \<in> t"
proof (cases "z = k")
  case True
  then show ?thesis using assms(2,4,5) by blast
next
  case False
  then have "z < k" using assms(3) by simp
  then show ?thesis using assms(1) [of z] assms(2,4,5) by blast
qed

lemma closure_of_edges:
  assumes "g \<subseteq> {..<n} \<times> {..<n}"
  shows "fold (\<lambda>k. fold (\<lambda>i. fold (close_over k i) [0..<n]) [0..<n]) [0..<n] g = g\<^sup>+"
proof -
  have step: "fold (\<lambda>i. fold (close_over k i) [0..<n]) [0..<n] s = s \<union> {(x, y). (x, k) \<in> s \<and> (k, y) \<in> s}"
    if "s \<subseteq> {..<n} \<times> {..<n}" for k s
    unfolding close_rows using that by auto
  let ?s = "\<lambda>m. fold (\<lambda>k. fold (\<lambda>i. fold (close_over k i) [0..<n]) [0..<n]) [0..<m] g"
  have inv: "g \<subseteq> ?s m \<and> ?s m \<subseteq> g\<^sup>+ \<and> (\<forall>x y z. z < m \<longrightarrow> (x, z) \<in> ?s m \<longrightarrow> (z, y) \<in> ?s m \<longrightarrow> (x, y) \<in> ?s m)" for m
  proof (induction m)
    case (Suc m)
    have "g\<^sup>+ \<subseteq> {..<n} \<times> {..<n}" using assms by (rule trancl_subset_Sigma)
    with Suc have "?s m \<subseteq> {..<n} \<times> {..<n}" by blast
    note next_s = step [OF this, of m]
    then have eq: "?s (Suc m) = ?s m \<union> {(x, y). (x, m) \<in> ?s m \<and> (m, y) \<in> ?s m}" by simp
    have "?s (Suc m) \<subseteq> g\<^sup>+" unfolding eq using Suc by (blast intro: trancl_trans)
    moreover have "(x, y) \<in> ?s (Suc m)" if "z < Suc m" "(x, z) \<in> ?s (Suc m)" "(z, y) \<in> ?s (Suc m)" for x y z
      using closed_below_step [of m "?s m", OF _ eq that] Suc by blast
    ultimately show ?case using Suc eq by blast
  qed auto
  have "trans (?s n)"
  proof (rule transI)
    fix x y z assume xy: "(x, y) \<in> ?s n" "(y, z) \<in> ?s n"
    have "g\<^sup>+ \<subseteq> {..<n} \<times> {..<n}" using assms by (rule trancl_subset_Sigma)
    with xy(1) inv [of n] have "y < n" by auto
    with xy inv [of n] show "(x, z) \<in> ?s n" by blast
  qed
  then have "g\<^sup>+ \<subseteq> ?s n" using inv [of n] by (metis trancl_id trancl_mono_subset)
  with inv [of n] show ?thesis by blast
qed

text \<open>The loops of the reduction, and the edges they leave: those without a node between.\<close>

definition drop_path :: "nat \<Rightarrow> nat \<Rightarrow> nat \<Rightarrow> (nat \<times> nat) set \<Rightarrow> (nat \<times> nat) set" where
  "drop_path j i k g = (if (j, k) \<in> g then g - {(i, k)} else g)"

definition drop_row :: "nat list \<Rightarrow> nat \<Rightarrow> nat \<Rightarrow> (nat \<times> nat) set \<Rightarrow> (nat \<times> nat) set" where
  "drop_row ks j i g = (if (i, j) \<in> g then fold (drop_path j i) ks g else g)"

definition covers :: "(nat \<times> nat) set \<Rightarrow> (nat \<times> nat) set" where
  "covers g = {(i, k). (i, k) \<in> g \<and> (\<nexists>j. (i, j) \<in> g \<and> (j, k) \<in> g)}"

lemma drop_paths:
  assumes "i \<noteq> j"
  shows "fold (drop_path j i) ks g = g - {(i, k) |k. k \<in> set ks \<and> (j, k) \<in> g}"
proof (induction ks rule: rev_induct)
  case (snoc k ks)
  then show ?case using assms by (auto simp: drop_path_def)
qed simp

lemma drop_rows:
  assumes "irrefl g"
  shows "fold (drop_row ks j) is g = g - {(i, k) |i k. i \<in> set is \<and> k \<in> set ks \<and> (i, j) \<in> g \<and> (j, k) \<in> g}"
proof (induction "is" rule: rev_induct)
  case (snoc i "is")
  let ?h = "g - {(i, k) |i k. i \<in> set is \<and> k \<in> set ks \<and> (i, j) \<in> g \<and> (j, k) \<in> g}"
  have jj: "(j, j) \<notin> g" using assms by (simp add: irrefl_def)
  have "drop_row ks j i ?h = ?h - {(i, k) |k. k \<in> set ks \<and> (i, j) \<in> g \<and> (j, k) \<in> g}"
  proof (cases "(i, j) \<in> g")
    case True
    then have "i \<noteq> j" "(i, j) \<in> ?h" using jj by auto
    then show ?thesis using True jj by (simp add: drop_row_def drop_paths)
  qed (simp add: drop_row_def)
  with snoc show ?case by auto
qed simp

lemma reduction_of_edges:
  assumes "g \<subseteq> {..<n} \<times> {..<n}" "trans g" "irrefl g"
  shows "fold (\<lambda>j. fold (drop_row [0..<n] j) [0..<n]) [0..<n] g = covers g"
proof -
  have "fold (\<lambda>j. fold (drop_row [0..<n] j) [0..<n]) [0..<m] g =
      {(i, k). (i, k) \<in> g \<and> (\<nexists>j. j < m \<and> (i, j) \<in> g \<and> (j, k) \<in> g)}" if "m \<le> n" for m
    using that
  proof (induction m)
    case (Suc m)
    let ?h = "{(i, k). (i, k) \<in> g \<and> (\<nexists>j. j < m \<and> (i, j) \<in> g \<and> (j, k) \<in> g)}"
    have "irrefl ?h" using assms(3) by (auto simp: irrefl_def)
    then have "fold (drop_row [0..<n] m) [0..<n] ?h = ?h - {(i, k) |i k. i < n \<and> k < n \<and> (i, m) \<in> ?h \<and> (m, k) \<in> ?h}"
      by (simp add: drop_rows)
    also have "\<dots> = {(i, k). (i, k) \<in> g \<and> (\<nexists>j. j < Suc m \<and> (i, j) \<in> g \<and> (j, k) \<in> g)}"
    proof -
      have "(\<exists>j<Suc m. (i, j) \<in> g \<and> (j, k) \<in> g) \<longleftrightarrow>
          (\<exists>j<m. (i, j) \<in> g \<and> (j, k) \<in> g) \<or> i < n \<and> k < n \<and> (i, m) \<in> ?h \<and> (m, k) \<in> ?h" for i k
      proof
        assume "\<exists>j<Suc m. (i, j) \<in> g \<and> (j, k) \<in> g"
        then obtain j where j: "j < Suc m" "(i, j) \<in> g" "(j, k) \<in> g" by blast
        show "(\<exists>j<m. (i, j) \<in> g \<and> (j, k) \<in> g) \<or> i < n \<and> k < n \<and> (i, m) \<in> ?h \<and> (m, k) \<in> ?h"
        proof (cases "j = m")
          case False
          with j show ?thesis by (metis less_SucE)
        next
          case True
          have "(i, x) \<in> g \<and> (x, k) \<in> g" if "(i, x) \<in> g \<and> (x, m) \<in> g \<or> (m, x) \<in> g \<and> (x, k) \<in> g" for x
            using that j True transD [OF assms(2)] by blast
          then show ?thesis using True j assms(1) by blast
        qed
      next
        show "\<exists>j<Suc m. (i, j) \<in> g \<and> (j, k) \<in> g"
          if "(\<exists>j<m. (i, j) \<in> g \<and> (j, k) \<in> g) \<or> i < n \<and> k < n \<and> (i, m) \<in> ?h \<and> (m, k) \<in> ?h"
          using that by (auto intro: less_SucI)
      qed
      then show ?thesis by auto
    qed
    finally show ?case using Suc by simp
  qed simp
  from this [of n] show ?thesis unfolding covers_def using assms(1) by auto
qed

text \<open>A finite strict order is the closure of its covering pairs.\<close>

lemma trancl_covers:
  assumes "finite g" "trans g" "irrefl g"
  shows "(covers g)\<^sup>+ = g"
proof
  have "covers g \<subseteq> g" by (auto simp: covers_def)
  then show "(covers g)\<^sup>+ \<subseteq> g" using assms(2) by (metis trancl_id trancl_mono_subset)
  have "(i, k) \<in> g \<Longrightarrow> (i, k) \<in> (covers g)\<^sup>+" for i k
  proof (induction "card {x. (i, x) \<in> g \<and> (x, k) \<in> g}" arbitrary: i k rule: less_induct)
    case less
    show ?case
    proof (cases "\<exists>j. (i, j) \<in> g \<and> (j, k) \<in> g")
      case False
      with less.prems have "(i, k) \<in> covers g" by (simp add: covers_def)
      then show ?thesis ..
    next
      case True
      then obtain j where j: "(i, j) \<in> g" "(j, k) \<in> g" by blast
      have fin: "finite {x. (i, x) \<in> g \<and> (x, k) \<in> g}"
        by (rule finite_subset [OF _ finite_imageI [OF assms(1), of fst]]) force
      have jj: "(j, j) \<notin> g" using assms(3) by (simp add: irrefl_def)
      have "{x. (i, x) \<in> g \<and> (x, j) \<in> g} \<subset> {x. (i, x) \<in> g \<and> (x, k) \<in> g}"
        "{x. (j, x) \<in> g \<and> (x, k) \<in> g} \<subset> {x. (i, x) \<in> g \<and> (x, k) \<in> g}"
        using j jj transD [OF assms(2)] by blast+
      then have "(i, j) \<in> (covers g)\<^sup>+" "(j, k) \<in> (covers g)\<^sup>+"
        using less.hyps [OF psubset_card_mono [OF fin]] j by blast+
      then show ?thesis by (rule trancl_trans)
    qed
  qed
  then show "g \<subseteq> (covers g)\<^sup>+" by auto
qed


section \<open>The links of one resource\<close>

text \<open>The edges that the loop inserts, in its order.\<close>

function elem_links :: "(nat \<times> bool) list \<Rightarrow> (nat \<times> nat) list" where
  "elem_links [] = []"
| "elem_links (x # xs) =
     (if snd x
      then (case xs of
              [] \<Rightarrow> []
            | it # _ \<Rightarrow>
                if snd it then (fst x, fst it) # elem_links xs
                else (case dropWhile reader xs of
                        nxt # rest \<Rightarrow>
                          concat (map (\<lambda>it. [(fst x, fst it), (fst it, fst nxt)]) (takeWhile reader xs)) @ elem_links (nxt # rest)
                      | [] \<Rightarrow> map (\<lambda>it. (fst x, fst it)) xs))
      else (case dropWhile reader (x # xs) of
              nxt # rest \<Rightarrow> map (\<lambda>it. (fst it, fst nxt)) (takeWhile reader (x # xs)) @ elem_links (nxt # rest)
            | [] \<Rightarrow> []))"
  by pat_completeness auto
termination
proof (relation "measure length", goal_cases)
  case (3 x xs it its nxt rest)
  then show ?case using length_dropWhile_le [of reader xs] by simp
next
  case (4 x xs nxt rest)
  then show ?case using length_dropWhile_le [of reader xs] by simp
qed auto

declare setup_elem.simps(2) [simp del] elem_links.simps(2) [simp del]

abbreviation link_all :: "(nat \<times> nat) list \<Rightarrow> adjacency_matrix \<Rightarrow> adjacency_matrix outcome" where
  "link_all \<equiv> ofold (\<lambda>(a, b). link_tasks a b)"

lemma ofold_append: "ofold f (xs @ ys) s = obind (ofold f xs s) (ofold f ys)"
proof (induction xs arbitrary: s)
  case (Cons x xs)
  then have "ofold f (xs @ ys) = (\<lambda>s. obind (ofold f xs s) (ofold f ys))" by (intro ext)
  then show ?case by (simp add: obind_assoc)
qed simp

lemma link_all_map: "link_all (map f xs) = ofold (\<lambda>x. link_tasks (fst (f x)) (snd (f x))) xs"
proof
  show "link_all (map f xs) m = ofold (\<lambda>x. link_tasks (fst (f x)) (snd (f x))) xs m" for m
    by (induction xs arbitrary: m) (auto simp: split_beta cong: obind_cong)
qed

lemma link_all_pairs:
  "link_all (concat (map (\<lambda>x. [(f x, g x), (h x, k x)]) xs)) =
     ofold (\<lambda>x m1. obind (link_tasks (f x) (g x) m1) (link_tasks (h x) (k x))) xs"
proof
  show "link_all (concat (map (\<lambda>x. [(f x, g x), (h x, k x)]) xs)) m =
     ofold (\<lambda>x m1. obind (link_tasks (f x) (g x) m1) (link_tasks (h x) (k x))) xs m" for m
    by (induction xs arbitrary: m) (auto simp: obind_assoc cong: obind_cong)
qed

lemma setup_elem_links: "setup_elem xs m = link_all (elem_links xs) m"
proof (induction xs arbitrary: m rule: elem_links.induct)
  case (2 x xs)
  note unfold = setup_elem.simps(2) [of x] elem_links.simps(2) [of x]
  show ?case
  proof (cases "snd x")
    case w: True
    show ?thesis
    proof (cases xs)
      case Nil
      with w show ?thesis by (simp add: unfold)
    next
      case (Cons it its)
      show ?thesis
      proof (cases "snd it")
        case True
        then have "setup_elem xs = link_all (elem_links xs)" using 2(1) [OF w Cons] by (intro ext)
        with w Cons True show ?thesis by (simp add: unfold)
      next
        case r: False
        show ?thesis
        proof (cases "dropWhile reader xs")
          case Nil
          with w r Cons show ?thesis by (simp add: unfold link_all_map del: dropWhile_eq_Nil_conv)
        next
          case (Cons nxt rest)
          then have "setup_elem (nxt # rest) = link_all (elem_links (nxt # rest))" using 2(2) [OF w \<open>xs = it # its\<close> r] by (intro ext)
          with w r \<open>xs = it # its\<close> Cons show ?thesis by (simp add: unfold ofold_append link_all_pairs del: takeWhile.simps)
        qed
      qed
    qed
  next
    case r: False
    show ?thesis
    proof (cases "dropWhile reader (x # xs)")
      case Nil
      with r show ?thesis by (simp add: unfold del: dropWhile_eq_Nil_conv)
    next
      case (Cons nxt rest)
      then have "setup_elem (nxt # rest) = link_all (elem_links (nxt # rest))" using 2(3) [OF r] by (intro ext)
      with r Cons show ?thesis by (simp add: unfold ofold_append link_all_map del: takeWhile.simps)
    qed
  qed
qed simp

text \<open>Two accesses of a resource conflict when one of them writes; the earlier one goes first.\<close>

fun conflicts :: "(nat \<times> bool) list \<Rightarrow> (nat \<times> nat) set" where
  "conflicts [] = {}"
| "conflicts (x # xs) = {(fst x, fst y) |y. y \<in> set xs \<and> (snd x \<or> snd y)} \<union> conflicts xs"

lemma conflicts_append:
  "conflicts (xs @ ys) = conflicts xs \<union> conflicts ys \<union> {(fst x, fst y) |x y. x \<in> set xs \<and> y \<in> set ys \<and> (snd x \<or> snd y)}"
proof (induction xs)
  case (Cons x xs)
  show ?case unfolding append_Cons conflicts.simps Cons.IH set_append list.set(2) by blast
qed simp

lemma conflict_pair: "x \<in> set xs \<Longrightarrow> y \<in> set ys \<Longrightarrow> snd x \<or> snd y \<Longrightarrow> (fst x, fst y) \<in> conflicts (xs @ ys)"
  unfolding conflicts_append by blast

lemma conflicts_readers: "\<forall>x\<in>set xs. reader x \<Longrightarrow> conflicts xs = {}"
  by (induction xs) auto

lemma via_writer:
  assumes "snd nxt" "(a, fst nxt) \<in> e\<^sup>+" "conflicts (nxt # rest) \<subseteq> e\<^sup>+" "y \<in> set (nxt # rest)"
  shows "(a, fst y) \<in> e\<^sup>+"
proof (cases "y = nxt")
  case False
  with assms(1,4) have "(fst nxt, fst y) \<in> conflicts (nxt # rest)" unfolding conflicts.simps list.set(2) by blast
  with assms(3) have "(fst nxt, fst y) \<in> e\<^sup>+" by blast
  with assms(2) show ?thesis by (rule trancl_trans)
qed (use assms in simp)

text \<open>A leading group of readers before a writer, with or without a writer before them.\<close>

lemma readers_then_writer:
  assumes "\<forall>r\<in>set rs. reader r" "snd nxt" "conflicts (nxt # rest) \<subseteq> e\<^sup>+" "\<forall>r\<in>set rs. (fst r, fst nxt) \<in> e"
  shows "conflicts (rs @ nxt # rest) \<subseteq> e\<^sup>+"
proof -
  have "(fst r, fst y) \<in> e\<^sup>+" if "r \<in> set rs" "y \<in> set (nxt # rest)" for r y
    using assms(4) that by (blast intro: via_writer [OF assms(2) r_into_trancl assms(3)])
  note link = this
  have "{(fst r, fst y) |r y. r \<in> set rs \<and> y \<in> set (nxt # rest) \<and> (snd r \<or> snd y)} \<subseteq> e\<^sup>+"
  proof (rule subsetI)
    fix p assume "p \<in> {(fst r, fst y) |r y. r \<in> set rs \<and> y \<in> set (nxt # rest) \<and> (snd r \<or> snd y)}"
    then obtain r y where "p = (fst r, fst y)" "r \<in> set rs" "y \<in> set (nxt # rest)" by blast
    then show "p \<in> e\<^sup>+" using link by simp
  qed
  then show ?thesis using assms(3) by (simp only: conflicts_append conflicts_readers [OF assms(1)] Un_subset_iff empty_subsetI simp_thms)
qed

lemma writer_readers_writer:
  assumes "\<forall>r\<in>set rs. reader r" "snd nxt" "conflicts (nxt # rest) \<subseteq> e\<^sup>+" "\<forall>r\<in>set rs. (a, fst r) \<in> e \<and> (fst r, fst nxt) \<in> e"
    and "rs \<noteq> [] \<or> (a, fst nxt) \<in> e"
  shows "conflicts ((a, True) # rs @ nxt # rest) \<subseteq> e\<^sup>+"
proof -
  have "(a, fst nxt) \<in> e\<^sup>+"
  proof (cases "rs = []")
    case True
    then show ?thesis using assms(5) by auto
  next
    case False
    then have "hd rs \<in> set rs" by simp
    with assms(4) have "(a, fst (hd rs)) \<in> e" "(fst (hd rs), fst nxt) \<in> e" by blast+
    then show ?thesis by (rule trancl_into_trancl2 [OF _ r_into_trancl])
  qed
  then have "(a, fst y) \<in> e\<^sup>+" if "y \<in> set (nxt # rest)" for y using via_writer [OF assms(2) _ assms(3) that] by blast
  moreover have "(a, fst r) \<in> e\<^sup>+" if "r \<in> set rs" for r using assms(4) that by auto
  ultimately have "{(a, fst y) |y. y \<in> set (rs @ nxt # rest)} \<subseteq> e\<^sup>+" unfolding set_append by blast
  moreover have "conflicts (rs @ nxt # rest) \<subseteq> e\<^sup>+" using readers_then_writer [OF assms(1-3)] assms(4) by blast
  ultimately show ?thesis unfolding conflicts.simps(2) fst_conv snd_conv by blast
qed

text \<open>Every list of accesses is readers, or a writer and readers, up to the next writer.\<close>

lemma accesses_induct [case_names readers readers_writer writer writer_writer]:
  assumes "\<And>rs. \<forall>r\<in>set rs. reader r \<Longrightarrow> P rs"
    and "\<And>rs nxt rest. \<forall>r\<in>set rs. reader r \<Longrightarrow> rs \<noteq> [] \<Longrightarrow> snd nxt \<Longrightarrow> P (nxt # rest) \<Longrightarrow> P (rs @ nxt # rest)"
    and "\<And>a rs. \<forall>r\<in>set rs. reader r \<Longrightarrow> P ((a, True) # rs)"
    and "\<And>a rs nxt rest. \<forall>r\<in>set rs. reader r \<Longrightarrow> snd nxt \<Longrightarrow> P (nxt # rest) \<Longrightarrow> P ((a, True) # rs @ nxt # rest)"
  shows "P xs"
proof (induction xs rule: length_induct)
  case (1 xs)
  have split: "ys = takeWhile reader ys @ dropWhile reader ys" "\<forall>r\<in>set (takeWhile reader ys). reader r"
      "dropWhile reader ys = nxt # rest \<Longrightarrow> snd nxt" for ys nxt rest
    using hd_dropWhile [of reader ys] by (auto dest: set_takeWhileD)
  have shorter: "P (dropWhile reader ys)" if "length ys \<le> length xs" "dropWhile reader ys \<noteq> ys \<or> length ys < length xs" for ys
  proof -
    have "length (dropWhile reader ys) \<noteq> length ys \<or> length ys < length xs"
      using that(2) split(1) [of ys] by (metis append_self_conv2 length_0_conv length_append add_eq_self_zero add.commute)
    then show ?thesis using 1 that(1) length_dropWhile_le [of reader ys] by (metis le_less_trans le_neq_implies_less order_trans)
  qed
  show ?case
  proof (cases "xs = [] \<or> reader (hd xs)")
    case True
    show ?thesis
    proof (cases "dropWhile reader xs")
      case Nil
      then show ?thesis using assms(1) [of xs] by (simp add: dropWhile_eq_Nil_conv)
    next
      case (Cons nxt rest)
      then have "takeWhile reader xs \<noteq> []" using True by (cases xs) auto
      moreover from this have "dropWhile reader xs \<noteq> xs" using split(1) [of xs] by (metis append_self_conv2)
      then have "P (nxt # rest)" using shorter [of xs] Cons by simp
      ultimately show ?thesis
        using assms(2) [OF split(2) _ split(3) [OF Cons], of xs rest] split(1) [of xs] Cons by simp
    qed
  next
    case False
    then obtain a ys where xs: "xs = (a, True) # ys" by (cases xs) auto
    show ?thesis
    proof (cases "dropWhile reader ys")
      case Nil
      then show ?thesis using assms(3) [of ys a] by (simp add: xs dropWhile_eq_Nil_conv)
    next
      case (Cons nxt rest)
      then have "P (nxt # rest)" using shorter [of ys] xs by simp
      then have "P ((a, True) # takeWhile reader ys @ nxt # rest)" by (rule assms(4) [OF split(2) split(3) [OF Cons]])
      then show ?thesis using split(1) [of ys] Cons xs by simp
    qed
  qed
qed

lemma scan_readers:
  "\<forall>r\<in>set rs. reader r \<Longrightarrow> snd nxt \<Longrightarrow> dropWhile reader (rs @ nxt # rest) = nxt # rest \<and> takeWhile reader (rs @ nxt # rest) = rs"
  by (induction rs) auto

lemma elem_links_groups:
  assumes "\<forall>r\<in>set rs. reader r"
  shows "elem_links rs = []"
    and "elem_links ((a, True) # rs) = map (\<lambda>r. (a, fst r)) rs"
    and "snd nxt \<Longrightarrow> rs \<noteq> [] \<Longrightarrow> elem_links (rs @ nxt # rest) = map (\<lambda>r. (fst r, fst nxt)) rs @ elem_links (nxt # rest)"
    and "snd nxt \<Longrightarrow> elem_links ((a, True) # rs @ nxt # rest) =
      (if rs = [] then [(a, fst nxt)] else concat (map (\<lambda>r. [(a, fst r), (fst r, fst nxt)]) rs)) @ elem_links (nxt # rest)"
proof -
  have dw: "dropWhile reader rs = []" using assms by simp
  show "elem_links rs = []"
    using assms dw by (cases rs) (simp_all add: elem_links.simps(2) del: dropWhile_eq_Nil_conv)
  show "elem_links ((a, True) # rs) = map (\<lambda>r. (a, fst r)) rs"
    using assms dw by (cases rs) (simp_all add: elem_links.simps(2) [of "(a, True)"] del: dropWhile_eq_Nil_conv)
  show "elem_links (rs @ nxt # rest) = map (\<lambda>r. (fst r, fst nxt)) rs @ elem_links (nxt # rest)"
    if nx: "snd nxt" and ne: "rs \<noteq> []"
  proof -
    obtain r rs' where rs: "rs = r # rs'" using ne by (cases rs) auto
    show ?thesis using scan_readers [OF assms nx, of rest] assms by (simp add: rs elem_links.simps(2) [of r])
  qed
  show "elem_links ((a, True) # rs @ nxt # rest) =
      (if rs = [] then [(a, fst nxt)] else concat (map (\<lambda>r. [(a, fst r), (fst r, fst nxt)]) rs)) @ elem_links (nxt # rest)" if "snd nxt"
    using scan_readers [OF assms that(1), of rest] assms that by (cases rs) (simp_all add: elem_links.simps(2) [of "(a, True)"])
qed

text \<open>The links are conflicts, and every conflict is a chain of links.\<close>

lemma elem_links_sound: "set (elem_links xs) \<subseteq> conflicts xs"
proof (induction xs rule: accesses_induct)
  case (readers rs)
  then show ?case by (simp add: elem_links_groups(1))
next
  case (readers_writer rs nxt rest)
  have "(fst r, fst nxt) \<in> conflicts (rs @ nxt # rest)" if "r \<in> set rs" for r
    using that readers_writer(3) by (intro conflict_pair) simp_all
  moreover have "conflicts (nxt # rest) \<subseteq> conflicts (rs @ nxt # rest)" unfolding conflicts_append by blast
  ultimately show ?case
    using readers_writer(4) unfolding elem_links_groups(3) [OF readers_writer(1,3,2)] set_append set_map by blast
next
  case (writer a rs)
  have "(a, fst r) \<in> conflicts ((a, True) # rs)" if "r \<in> set rs" for r
    using that conflict_pair [of "(a, True)" "[(a, True)]" r rs] by simp
  then show ?case unfolding elem_links_groups(2) [OF writer] set_map by blast
next
  case (writer_writer a rs nxt rest)
  let ?c = "conflicts ((a, True) # rs @ nxt # rest)"
  have a: "(a, fst r) \<in> ?c" if "r \<in> set (rs @ nxt # rest)" for r
    using that conflict_pair [of "(a, True)" "[(a, True)]" r "rs @ nxt # rest"] by simp
  have "(fst r, fst nxt) \<in> ?c" if "r \<in> set rs" for r
    using that writer_writer(2) conflict_pair [of r "(a, True) # rs" nxt "nxt # rest"] by simp
  moreover have "conflicts (nxt # rest) \<subseteq> ?c" using conflicts_append [of "(a, True) # rs" "nxt # rest"] unfolding append_Cons by blast
  moreover have "set (elem_links ((a, True) # rs @ nxt # rest)) \<subseteq>
      (\<lambda>r. (a, fst r)) ` set (rs @ nxt # rest) \<union> (\<lambda>r. (fst r, fst nxt)) ` set rs \<union> set (elem_links (nxt # rest))"
    unfolding elem_links_groups(4) [OF writer_writer(1,2)] by (cases "rs = []") auto
  ultimately show ?case using a writer_writer(3) by blast
qed

lemma elem_links_complete: "conflicts xs \<subseteq> (set (elem_links xs))\<^sup>+"
proof (induction xs rule: accesses_induct)
  case (readers rs)
  then show ?case by (simp add: conflicts_readers)
next
  case (readers_writer rs nxt rest)
  let ?e = "set (elem_links (rs @ nxt # rest))"
  have e: "set (elem_links (nxt # rest)) \<subseteq> ?e" "\<forall>r\<in>set rs. (fst r, fst nxt) \<in> ?e"
    using elem_links_groups(3) [OF readers_writer(1,3,2)] by auto
  have "conflicts (nxt # rest) \<subseteq> ?e\<^sup>+" using readers_writer(4) trancl_mono_subset [OF e(1)] by blast
  from readers_then_writer [OF readers_writer(1,3) this e(2)] show ?case .
next
  case (writer a rs)
  have "(a, fst r) \<in> ((\<lambda>r. (a, fst r)) ` set rs)\<^sup>+" if "r \<in> set rs" for r using that by (intro r_into_trancl imageI)
  then have "{(a, fst r) |r. r \<in> set rs} \<subseteq> ((\<lambda>r. (a, fst r)) ` set rs)\<^sup>+" by blast
  then show ?case using elem_links_groups(2) [OF writer, of a] conflicts_readers [OF writer] by simp
next
  case (writer_writer a rs nxt rest)
  let ?e = "set (elem_links ((a, True) # rs @ nxt # rest))"
  have e: "set (elem_links (nxt # rest)) \<subseteq> ?e" "\<forall>r\<in>set rs. (a, fst r) \<in> ?e \<and> (fst r, fst nxt) \<in> ?e" "rs \<noteq> [] \<or> (a, fst nxt) \<in> ?e"
    using elem_links_groups(4) [OF writer_writer(1,2)] by auto
  have "conflicts (nxt # rest) \<subseteq> ?e\<^sup>+" using writer_writer(3) trancl_mono_subset [OF e(1)] by blast
  from writer_readers_writer [OF writer_writer(1,2) this e(2,3)] show ?case .
qed

text \<open>With tasks in their order of binding, an earlier access is of an earlier task.\<close>

lemma conflicts_forward: "sorted (map fst xs) \<Longrightarrow> (i, j) \<in> conflicts xs \<Longrightarrow> i \<le> j"
  by (induction xs) auto

lemma conflicts_range: "(i, j) \<in> conflicts xs \<Longrightarrow> i \<in> fst ` set xs \<and> j \<in> fst ` set xs"
  by (induction xs) (auto intro: rev_image_eqI)


section \<open>The loops of the graph on matrices\<close>

abbreviation dag_ok :: "nat \<Rightarrow> adjacency_matrix \<Rightarrow> bool" where
  "dag_ok n m \<equiv> matrix_ok Directed_tag m \<and> vert m = n"

lemma link_tasks_refines:
  "dag_ok n m \<Longrightarrow> a < n \<Longrightarrow> b < n \<Longrightarrow> \<exists>m'. link_tasks a b m = Ret m' \<and> dag_ok n m' \<and> graph_of m' = insert (a, b) (graph_of m)"
  using matrix_insert_spec [of Directed_tag m a b] by (auto simp: link_tasks_def both_ways_def)

lemma unlink_tasks_refines:
  "dag_ok n m \<Longrightarrow> a < n \<Longrightarrow> b < n \<Longrightarrow> \<exists>m'. unlink_tasks a b m = Ret m' \<and> dag_ok n m' \<and> graph_of m' = graph_of m - {(a, b)}"
  using matrix_erase_spec [of Directed_tag m a b] by (auto simp: unlink_tasks_def both_ways_def)

lemma link_all_refines:
  assumes "set es \<subseteq> {..<n} \<times> {..<n}" "dag_ok n m"
  shows "\<exists>m'. link_all es m = Ret m' \<and> dag_ok n m' \<and> graph_of m' = set es \<union> graph_of m"
proof -
  have "\<exists>m'. ofold (\<lambda>(a, b). link_tasks a b) es m = Ret m' \<and> dag_ok n m' \<and> graph_of m' = fold insert es (graph_of m)"
    using assms(2)
  proof (rule ofold_refines [where view = graph_of, rotated])
    fix e m assume "e \<in> set es" "dag_ok n m"
    moreover from this assms(1) have "fst e < n" "snd e < n" by auto
    ultimately show "\<exists>m'. (case e of (a, b) \<Rightarrow> link_tasks a b) m = Ret m' \<and> dag_ok n m' \<and> graph_of m' = insert e (graph_of m)"
      using link_tasks_refines [of m n "fst e" "snd e"] by (simp add: split_beta)
  qed
  then show ?thesis by (simp add: union_set_fold [symmetric])
qed

lemma fold_unions: "fold (\<lambda>x g. f x \<union> g) xs g = (\<Union>x\<in>set xs. f x) \<union> g"
  by (induction xs arbitrary: g) auto

lemma setup_graph_refines:
  assumes "\<forall>x\<in>set (entries (flow_deps f)). set (elem_links (snd x)) \<subseteq> {..<n} \<times> {..<n}" "dag_ok n m"
  shows "\<exists>m'. setup_graph f m = Ret m' \<and> dag_ok n m' \<and>
    graph_of m' = (\<Union>x\<in>set (entries (flow_deps f)). set (elem_links (snd x))) \<union> graph_of m"
proof -
  have "\<exists>m'. setup_graph f m = Ret m' \<and> dag_ok n m' \<and>
      graph_of m' = fold (\<lambda>x g. set (elem_links (node_value x)) \<union> g) (packed (flow_deps f)) (graph_of m)"
    unfolding setup_graph_def using assms(2)
  proof (rule ofold_refines [where view = graph_of, rotated])
    fix x m assume x: "x \<in> set (packed (flow_deps f))" "dag_ok n m"
    then have "(node_key x, node_value x) \<in> set (entries (flow_deps f))" by (auto simp: entries_def)
    with assms(1) have "set (elem_links (node_value x)) \<subseteq> {..<n} \<times> {..<n}" by fastforce
    from link_all_refines [OF this x(2)]
    show "\<exists>m'. setup_elem (node_value x) m = Ret m' \<and> dag_ok n m' \<and> graph_of m' = set (elem_links (node_value x)) \<union> graph_of m"
      by (simp add: setup_elem_links)
  qed
  then show ?thesis by (simp add: entries_def fold_unions)
qed

lemma transitive_closure_refines:
  assumes "dag_ok n m"
  shows "\<exists>m'. transitive_closure m = Ret m' \<and> dag_ok n m' \<and> graph_of m' = (graph_of m)\<^sup>+"
proof -
  let ?all = "[0..<n]"
  have "\<exists>m'. transitive_closure m = Ret m' \<and> dag_ok n m' \<and>
      graph_of m' = fold (\<lambda>k. fold (\<lambda>i. fold (close_over k i) ?all) ?all) ?all (graph_of m)"
    unfolding transitive_closure_def Let_def using assms
  proof (simp only: , intro ofold_refines [where view = graph_of])
    fix k i j m assume k: "k \<in> set ?all" "i \<in> set ?all" "j \<in> set ?all" "dag_ok n m"
    then have c: "matrix_contains i k m \<longleftrightarrow> (i, k) \<in> graph_of m" "matrix_contains k j m \<longleftrightarrow> (k, j) \<in> graph_of m"
      using matrix_contains_eq [of Directed_tag m i k] matrix_contains_eq [of Directed_tag m k j] by simp_all
    show "\<exists>s'. (if matrix_contains i k m \<and> matrix_contains k j m then link_tasks i j m else Ret m) = Ret s' \<and>
        dag_ok n s' \<and> graph_of s' = close_over k i j (graph_of m)"
      using k link_tasks_refines [OF k(4), of i j] unfolding c close_over_def by auto
  qed assumption+
  moreover have "graph_of m \<subseteq> {..<n} \<times> {..<n}" using assms by (auto simp: graph_of_def)
  ultimately show ?thesis by (simp only: closure_of_edges)
qed

lemma transitive_reduction_refines:
  assumes "dag_ok n m" "trans (graph_of m - Id)"
  shows "\<exists>m'. transitive_reduction m = Ret m' \<and> dag_ok n m' \<and> graph_of m' = covers (graph_of m - Id)"
proof -
  let ?all = "[0..<n]"
  have sub: "graph_of m \<subseteq> {..<n} \<times> {..<n}" using assms by (auto simp: graph_of_def)
  have "\<exists>m'. ofold (\<lambda>v. unlink_tasks v v) ?all m = Ret m' \<and> dag_ok n m' \<and> graph_of m' = fold (\<lambda>v g. g - {(v, v)}) ?all (graph_of m)"
    using assms(1)
  proof (rule ofold_refines [where view = graph_of, rotated])
    fix v m assume "v \<in> set ?all" "dag_ok n m"
    then show "\<exists>m'. unlink_tasks v v m = Ret m' \<and> dag_ok n m' \<and> graph_of m' = graph_of m - {(v, v)}"
      using unlink_tasks_refines [of m n v v] by simp
  qed
  moreover have "fold (\<lambda>v g. g - {(v, v)}) vs g = g - {(v, v) |v. v \<in> set vs}" for vs :: "nat list" and g
    by (induction vs arbitrary: g) auto
  then have "fold (\<lambda>v g. g - {(v, v)}) ?all (graph_of m) = graph_of m - Id" using sub by auto
  ultimately obtain m1 where m1: "ofold (\<lambda>v. unlink_tasks v v) ?all m = Ret m1" "dag_ok n m1" "graph_of m1 = graph_of m - Id" by auto
  have "\<exists>m'. ofold (\<lambda>vj. ofold (\<lambda>vi m1.
          if matrix_contains vi vj m1
          then ofold (\<lambda>vk m2. if matrix_contains vj vk m2 then unlink_tasks vi vk m2 else Ret m2) ?all m1
          else Ret m1) ?all) ?all m1 = Ret m' \<and> dag_ok n m' \<and>
      graph_of m' = fold (\<lambda>j. fold (drop_row ?all j) ?all) ?all (graph_of m1)"
    using m1(2)
  proof (intro ofold_refines [where view = graph_of])
    fix j i m assume k: "j \<in> set ?all" "i \<in> set ?all" "dag_ok n m"
    have "\<exists>m'. ofold (\<lambda>vk m2. if matrix_contains j vk m2 then unlink_tasks i vk m2 else Ret m2) ?all m = Ret m' \<and> dag_ok n m' \<and>
        graph_of m' = fold (drop_path j i) ?all (graph_of m)"
      using k(3)
    proof (intro ofold_refines [where view = graph_of])
      fix vk m2 assume v: "vk \<in> set ?all" "dag_ok n m2"
      then show "\<exists>s'. (if matrix_contains j vk m2 then unlink_tasks i vk m2 else Ret m2) = Ret s' \<and> dag_ok n s' \<and>
          graph_of s' = drop_path j i vk (graph_of m2)"
        using k(1,2) unlink_tasks_refines [OF v(2), of i vk] matrix_contains_eq [of Directed_tag m2 j vk] by (auto simp: drop_path_def)
    qed
    then show "\<exists>s'. (if matrix_contains i j m
          then ofold (\<lambda>vk m2. if matrix_contains j vk m2 then unlink_tasks i vk m2 else Ret m2) ?all m else Ret m) = Ret s' \<and>
        dag_ok n s' \<and> graph_of s' = drop_row ?all j i (graph_of m)"
      using k matrix_contains_eq [of Directed_tag m i j] by (auto simp: drop_row_def)
  qed
  moreover have "irrefl (graph_of m - Id)" by (simp add: irrefl_def)
  then have "fold (\<lambda>j. fold (drop_row ?all j) ?all) ?all (graph_of m - Id) = covers (graph_of m - Id)"
    using sub assms(2) by (intro reduction_of_edges) auto
  ultimately show ?thesis using m1 assms(1) by (simp add: transitive_reduction_def Let_def)
qed


section \<open>What the builder records\<close>

datatype flow_op = Bind id_type | Access id_type bool | Sync

fun flow_step :: "'f load_ops \<Rightarrow> flow_op \<Rightarrow> 'f flow \<Rightarrow> 'f flow outcome" where
  "flow_step fl (Bind task) f = flow_bind fl task f"
| "flow_step fl (Access res is_rw) f = flow_set fl res is_rw f"
| "flow_step fl Sync f = flow_sync f"

text \<open>
  The reference: the tasks in the order of their binding, the task of the last sync point, and
  the accesses of each resource. A sync point counts as a writer of every resource known
  then, and of each one that appears later.
\<close>

type_synonym flow_log = "id_type list \<times> nat option \<times> (id_type \<Rightarrow> (nat \<times> bool) list)"

fun log_op :: "flow_op \<Rightarrow> flow_log \<Rightarrow> flow_log" where
  "log_op (Bind task) (ts, s, acc) = (ts @ [task], s, acc)"
| "log_op (Access res is_rw) (ts, s, acc) =
     (ts, s, acc(res := (if acc res = [] then (case s of None \<Rightarrow> [] | Some k \<Rightarrow> [(k, True)]) else acc res) @ [(length ts - 1, is_rw)]))"
| "log_op Sync (ts, s, acc) =
     (ts, Some (length ts - 1), \<lambda>res. if acc res = [] then [] else acc res @ [(length ts - 1, True)])"

fun log_ok :: "flow_log \<Rightarrow> bool" where
  "log_ok (ts, s, acc) \<longleftrightarrow> distinct ts \<and> (\<forall>k. s = Some k \<longrightarrow> k < length ts) \<and>
     (\<forall>r. sorted (map fst (acc r)) \<and> fst ` set (acc r) \<subseteq> {..<length ts})"

fun flow_ok :: "'f flow \<Rightarrow> flow_log \<Rightarrow> bool" where
  "flow_ok f (ts, s, acc) \<longleftrightarrow> log_ok (ts, s, acc) \<and>
     map_inv (flow_vertices f) \<and> set_values (flow_vertices f) = ts \<and> flow_index f = length ts - 1 \<and>
     sync_on f = (case s of None \<Rightarrow> length ts | Some k \<Rightarrow> k) \<and>
     map_inv (flow_deps f) \<and> (\<forall>r. map_of (entries (flow_deps f)) r = (if acc r = [] then None else Some (acc r)))"

lemma push_dep_spec:
  assumes "map_inv ds" "Suc (map_size ds) < npos"
  shows "push_dep fl r x ds = Aborts \<or> (\<exists>ds'. push_dep fl r x ds = Ret ds' \<and> map_inv ds' \<and> map_size ds' \<le> Suc (map_size ds) \<and>
    map_of (entries ds') = (map_of (entries ds))(r \<mapsto> (case map_of (entries ds) r of None \<Rightarrow> [] | Some l \<Rightarrow> l) @ [x]))"
proof -
  have wrote: "\<exists>d'. Ret (m\<lparr>packed := (packed m)[p := (packed m ! p)\<lparr>node_value := l @ [x]\<rparr>]\<rparr>) = Ret d' \<and> map_inv d' \<and>
      map_size d' = map_size m \<and> map_of (entries d') = (map_of (entries m))(r \<mapsto> l @ [x])"
    if "map_inv m" "p < map_size m" "node_key (packed m ! p) = r" for m :: "(id_type, (nat \<times> bool) list, 'a) dense_map" and p l
    using that map_inv_write [OF that(1,2), of "l @ [x]"] map_of_update_nth [of "entries m" p r "l @ [x]"] map_inv_keys [OF that(1)]
    by (auto simp: nth_entries)
  note spec = insert_or_do_nothing_spec [OF assms, of r fl "[]"]
  show ?thesis
  proof (cases "r \<in> set (map node_key (packed ds))")
    case True
    with spec obtain p where p: "p < map_size ds" "node_key (packed ds ! p) = r" "insert_or_do_nothing fl r [] ds = Ret (p, False, ds)" by auto
    have "entries ds ! p \<in> set (entries ds)" using p(1) by simp
    then have "map_of (entries ds) r = Some (node_value (packed ds ! p))"
      using map_inv_keys [OF assms(1)] p by (simp add: nth_entries)
    with p wrote [OF assms(1) p(1,2), of "node_value (packed ds ! p)"] show ?thesis by (auto simp: push_dep_def)
  next
    case False
    show ?thesis
    proof (cases "insert_or_do_nothing fl r [] ds = Aborts")
      case True
      then show ?thesis by (simp add: push_dep_def)
    next
      case no_abort: False
      with spec False obtain m' where m': "insert_or_do_nothing fl r [] ds = Ret (map_size ds, True, m')" "map_inv m'"
          "entries m' = entries ds @ [(r, [])]" "map_size m' = Suc (map_size ds)" by (auto split: if_splits)
      have "entries m' ! map_size ds = (r, [])" unfolding m'(3) by (simp add: nth_append)
      then have node: "node_key (packed m' ! map_size ds) = r" "node_value (packed m' ! map_size ds) = []"
        using m'(4) by (simp_all add: nth_entries)
      have none: "map_of (entries ds) r = None" using False by (simp add: map_of_eq_None_iff fst_entries [symmetric])
      have "(map_of (entries ds @ [(r, [])]))(r \<mapsto> [x]) = (map_of (entries ds))(r \<mapsto> [x])"
        using none by (intro ext) (simp add: map_add_def split: option.split)
      with m' node none wrote [OF m'(2) _ node(1), of "[]"] show ?thesis by (auto simp: push_dep_def)
    qed
  qed
qed

lemma map_contains_eq: "map_inv m \<Longrightarrow> map_contains m k = Ret (map_of (entries m) k \<noteq> None)"
  using map_find_spec [of m k] by (auto simp: map_contains_def split: option.splits)

text \<open>Changing all values keeps the structure of the map.\<close>

lemma map_inv_values:
  assumes "map_inv m"
  shows "map_inv (m\<lparr>packed := map (\<lambda>n. n\<lparr>node_value := h (node_value n)\<rparr>) (packed m)\<rparr>)"
    and "entries (m\<lparr>packed := map (\<lambda>n. n\<lparr>node_value := h (node_value n)\<rparr>) (packed m)\<rparr>) = map (\<lambda>(k, v). (k, h v)) (entries m)"
proof -
  let ?m = "m\<lparr>packed := map (\<lambda>n. n\<lparr>node_value := h (node_value n)\<rparr>) (packed m)\<rparr>"
  have bucket: "p < map_size m \<Longrightarrow> bucket_of ?m p = bucket_of m p" for p by (simp add: bucket_of_def)
  obtain cs where cs: "layout m {..<map_size m} cs" using assms by (auto simp: map_inv_def)
  have "chain (packed ?m) s ps" if "chain (packed m) s ps" for s ps
    using chain_below [OF that] by (intro bucket_chain_cong [OF _ that]) auto
  moreover have "{p \<in> {..<map_size m}. bucket_of ?m p = b} = {p \<in> {..<map_size m}. bucket_of m p = b}" for b using bucket by auto
  ultimately have "layout ?m {..<map_size ?m} cs" using cs unfolding layout_def by simp
  moreover have "keys_ok ?m" "two_buckets ?m"
    using map_inv_parts [OF assms] by (simp_all add: keys_ok_def two_buckets_def comp_def)
  ultimately show "map_inv ?m" by (auto simp: map_inv_def)
  show "entries ?m = map (\<lambda>(k, v). (k, h v)) (entries m)" by (simp add: entries_def)
qed


definition flow_small :: "nat \<Rightarrow> 'f flow \<Rightarrow> bool" where
  "flow_small b f \<longleftrightarrow> flow_size f \<le> b \<and> map_size (flow_deps f) \<le> b"

lemma flow_size_ok: "flow_ok f (ts, s, acc) \<Longrightarrow> flow_size f = length ts"
  by (auto simp: flow_size_def set_values_def)

lemma flow_bind_spec:
  assumes "flow_ok f (ts, s, acc)" "task \<notin> set ts" "flow_small b f" "Suc b < npos"
  shows "flow_bind fl task f = Aborts \<or>
    (\<exists>f'. flow_bind fl task f = Ret f' \<and> flow_ok f' (ts @ [task], s, acc) \<and> flow_small (Suc b) f')"
proof -
  let ?vs = "flow_vertices f"
  have vs: "map_inv ?vs" "map node_key (packed ?vs) = ts" using assms(1) by (simp_all add: set_values_def)
  have n: "flow_size f = length ts" "Suc (length ts) < size_bound"
    using flow_size_ok [OF assms(1)] assms(3,4) by (simp_all add: flow_small_def npos_def size_bound_def)
  have "Suc (map_size ?vs) < npos" using assms(3,4) by (simp add: flow_small_def flow_size_def)
  from insert_or_do_nothing_spec [OF vs(1) this, of task fl "()"] vs(2) assms(2)
  have "set_insert fl task ?vs = Aborts \<or> (\<exists>vs'. set_insert fl task ?vs = Ret (map_size ?vs, True, vs') \<and> map_inv vs' \<and>
      entries vs' = entries ?vs @ [(task, ())])" by (auto simp: set_insert_map)
  then show ?thesis
  proof (elim disjE exE conjE)
    fix vs' assume vs': "set_insert fl task ?vs = Ret (map_size ?vs, True, vs')" "map_inv vs'" "entries vs' = entries ?vs @ [(task, ())]"
    let ?f = "f\<lparr>sync_on := (sync_on f + (if sync_on f = flow_size f then 1 else 0)) mod size_bound,
      flow_vertices := vs', flow_index := map_size ?vs\<rparr>"
    have val: "set_values vs' = ts @ [task]" using vs'(3) assms(1) by (simp add: values_entries)
    have "fst ` set (acc r) \<subseteq> {..<length (ts @ [task])}" for r using assms(1) by (fastforce simp: subset_iff)
    moreover have "sync_on ?f = (case s of None \<Rightarrow> length (ts @ [task]) | Some k \<Rightarrow> k)"
      using assms(1) n by (auto split: option.splits)
    ultimately have "flow_ok ?f (ts @ [task], s, acc)"
      using assms(1,2) vs'(2) val n(1) by (auto simp: flow_size_def)
    moreover from flow_size_ok [OF this] have "flow_small (Suc b) ?f" using assms(3) n(1) by (simp add: flow_small_def)
    ultimately show ?thesis using vs'(1) by (simp add: flow_bind_def)
  qed (simp add: flow_bind_def)
qed

lemma log_append:
  assumes "sorted (map fst l)" "fst ` set l \<subseteq> {..<n :: nat}" "0 < n"
  shows "sorted (map fst (l @ [(n - 1, w)])) \<and> fst ` set (l @ [(n - 1, w)]) \<subseteq> {..<n}"
proof -
  have "x \<le> n - 1" if "x \<in> fst ` set l" for x
  proof -
    have "x < n" using subsetD [OF assms(2) that] by simp
    then show ?thesis by linarith
  qed
  then have "\<forall>x\<in>set l. fst x \<le> n - 1" by blast
  with assms show ?thesis by (simp add: sorted_append)
qed

lemma flow_set_spec:
  assumes "flow_ok f (ts, s, acc)" "flow_small b f" "Suc (Suc b) < npos"
  shows "flow_set fl res w f = Aborts \<or>
    (\<exists>f'. flow_set fl res w f = Ret f' \<and> flow_ok f' (log_op (Access res w) (ts, s, acc)) \<and> flow_small (Suc (Suc b)) f')"
proof (cases "ts = []")
  case True
  then show ?thesis using flow_size_ok [OF assms(1)] by (simp add: flow_set_def flow_emplace_def entt_assert_def)
next
  case False
  let ?ds = "flow_deps f" and ?first = "if acc res = [] then (case s of None \<Rightarrow> [] | Some k \<Rightarrow> [(k, True)]) else acc res"
  have ds: "map_inv ?ds" "map_of (entries ?ds) r = (if acc r = [] then None else Some (acc r))" for r using assms(1) by simp_all
  have n: "flow_index f = length ts - 1" "flow_index f < flow_size f" "flow_size f = length ts"
    using False assms(1) flow_size_ok [OF assms(1)] by auto
  have sync: "sync_on f \<noteq> flow_size f \<longleftrightarrow> s \<noteq> None" "s = Some k \<Longrightarrow> sync_on f = k" for k
    using assms(1) n(3) by (auto split: option.splits)
  define d1 where "d1 = (if acc res = [] \<and> s \<noteq> None then push_dep fl res (sync_on f, True) ?ds else Ret ?ds)"
  have step1: "d1 = Aborts \<or> (\<exists>ds1. d1 = Ret ds1 \<and> map_inv ds1 \<and> map_size ds1 \<le> Suc b \<and>
      (\<forall>r. map_of (entries ds1) r = (if r = res then (if ?first = [] then None else Some ?first) else map_of (entries ?ds) r)))"
  proof (cases "acc res = [] \<and> s \<noteq> None")
    case True
    have "Suc (map_size ?ds) < npos" "map_size ?ds \<le> b" using assms(2,3) by (simp_all add: flow_small_def)
    with True push_dep_spec [OF ds(1), of fl res "(sync_on f, True)"] sync(2) ds(2) [of res]
    show ?thesis by (fastforce simp: d1_def)
  next
    case False
    then have "d1 = Ret ?ds" by (simp only: d1_def if_False)
    moreover have "map_size ?ds \<le> Suc b" using assms(2) by (simp add: flow_small_def)
    ultimately show ?thesis using False ds by (auto split: option.splits)
  qed
  have emp: "flow_set fl res w f = obind d1 (\<lambda>d1. obind (push_dep fl res (flow_index f, w) d1) (\<lambda>d2. Ret (f\<lparr>flow_deps := d2\<rparr>)))"
  proof -
    have "map_contains ?ds res = Ret (acc res \<noteq> [])" using map_contains_eq [OF ds(1), of res] ds(2) [of res] by simp
    moreover have "(\<not> acc res \<noteq> [] \<and> sync_on f \<noteq> flow_size f) \<longleftrightarrow> acc res = [] \<and> s \<noteq> None" using sync(1) by simp
    ultimately show ?thesis using n(2) by (simp only: flow_set_def flow_emplace_def entt_assert_def d1_def obind.simps if_True)
  qed
  from step1 show ?thesis
  proof (elim disjE exE conjE)
    fix ds1 assume d1: "d1 = Ret ds1" "map_inv ds1" "map_size ds1 \<le> Suc b"
      and m1: "\<forall>r. map_of (entries ds1) r = (if r = res then (if ?first = [] then None else Some ?first) else map_of (entries ?ds) r)"
    have "Suc (map_size ds1) < npos" using d1(3) assms(3) by simp
    from push_dep_spec [OF d1(2) this, of fl res "(flow_index f, w)"] show ?thesis
    proof (elim disjE exE conjE)
      fix ds2 assume d2: "push_dep fl res (flow_index f, w) ds1 = Ret ds2" "map_inv ds2" "map_size ds2 \<le> Suc (map_size ds1)"
        "map_of (entries ds2) = (map_of (entries ds1))(res \<mapsto> (case map_of (entries ds1) res of None \<Rightarrow> [] | Some l \<Rightarrow> l) @ [(flow_index f, w)])"
      let ?acc = "acc(res := ?first @ [(length ts - 1, w)])"
      have look: "map_of (entries ds2) r = (if ?acc r = [] then None else Some (?acc r))" for r
        using d2(4) m1 ds(2) n(1) by (auto split: option.splits)
      have "sorted (map fst ?first) \<and> fst ` set ?first \<subseteq> {..<length ts}" using assms(1) by (auto split: option.splits)
      then have "sorted (map fst (?acc r)) \<and> fst ` set (?acc r) \<subseteq> {..<length ts}" for r
        using assms(1) False log_append [of ?first "length ts" w] by simp
      with assms(1) have "log_ok (ts, s, ?acc)" by simp
      then have "flow_ok (f\<lparr>flow_deps := ds2\<rparr>) (ts, s, ?acc)" using assms(1) d2(2) look by simp
      moreover have "flow_small (Suc (Suc b)) (f\<lparr>flow_deps := ds2\<rparr>)"
        using assms(2) d1(3) d2(3) by (simp add: flow_small_def flow_size_def)
      ultimately show ?thesis using emp d1(1) d2(1) by simp
    qed (simp add: emp d1(1))
  qed (simp add: emp)
qed

lemma flow_sync_spec:
  assumes "flow_ok f (ts, s, acc)" "flow_small b f"
  shows "flow_sync f = Aborts \<or> (\<exists>f'. flow_sync f = Ret f' \<and> flow_ok f' (log_op Sync (ts, s, acc)) \<and> flow_small b f')"
proof (cases "ts = []")
  case True
  then show ?thesis using flow_size_ok [OF assms(1)] by (simp add: flow_sync_def entt_assert_def)
next
  case False
  let ?k = "length ts - 1"
  let ?ds = "(flow_deps f)\<lparr>packed := map (\<lambda>n. n\<lparr>node_value := node_value n @ [(?k, True)]\<rparr>) (packed (flow_deps f))\<rparr>"
  let ?acc = "\<lambda>r. if acc r = [] then [] else acc r @ [(?k, True)]"
  have k: "flow_index f = ?k" "?k < flow_size f" using False assms(1) flow_size_ok [OF assms(1)] by auto
  have "map_inv (flow_deps f)" using assms(1) by simp
  note vals = map_inv_values [OF this, of "\<lambda>l. l @ [(?k, True)]"]
  have "map_of (entries ?ds) r = (if ?acc r = [] then None else Some (?acc r))" for r
    unfolding vals(2) using assms(1) by (simp add: map_of_map comp_def)
  moreover have "sorted (map fst (?acc r)) \<and> fst ` set (?acc r) \<subseteq> {..<length ts}" for r
  proof -
    have "sorted (map fst (acc r))" "fst ` set (acc r) \<subseteq> {..<length ts}" using assms(1) by simp_all
    then show ?thesis using False log_append [of "acc r" "length ts" True] by simp
  qed
  ultimately have "flow_ok (f\<lparr>sync_on := ?k, flow_deps := ?ds\<rparr>) (ts, Some ?k, ?acc)"
    using assms(1) vals(1) False by simp
  moreover have "flow_small b (f\<lparr>sync_on := ?k, flow_deps := ?ds\<rparr>)" using assms(2) by (simp add: flow_small_def flow_size_def)
  ultimately show ?thesis using k by (simp add: flow_sync_def entt_assert_def)
qed


section \<open>The order of the tasks\<close>

fun bound :: "flow_op list \<Rightarrow> id_type list" where
  "bound [] = []"
| "bound (Bind task # ops) = task # bound ops"
| "bound (x # ops) = bound ops"

definition log_of :: "flow_op list \<Rightarrow> flow_log" where
  "log_of ops = fold log_op ops ([], None, \<lambda>r. [])"

definition accesses :: "flow_op list \<Rightarrow> id_type \<Rightarrow> (nat \<times> bool) list" where
  "accesses ops = snd (snd (log_of ops))"

text \<open>Task \<open>i\<close> goes before \<open>j\<close> when a chain of conflicts leads from it to the other.\<close>

definition task_order :: "flow_op list \<Rightarrow> (nat \<times> nat) set" where
  "task_order ops = (\<Union>r. conflicts (accesses ops r))\<^sup>+ - Id"

lemma fst_log: "fst (fold log_op ops l) = fst l @ bound ops"
proof (induction ops arbitrary: l)
  case (Cons x ops)
  obtain ts s acc where "l = (ts, s, acc)" by (cases l)
  with Cons show ?case by (cases x) simp_all
qed simp

lemma distinct_bound:
  assumes "distinct (fst l @ bound (x # ops))"
  shows "distinct (fst l @ bound [x])" "distinct (fst (log_op x l) @ bound ops)"
proof -
  obtain ts s acc where "l = (ts, s, acc)" by (cases l)
  with assms show "distinct (fst l @ bound [x])" "distinct (fst (log_op x l) @ bound ops)" by (cases x; auto)+
qed

lemma flow_new_spec:
  assumes "flow_new fl load = Ret f"
  shows "flow_ok f ([], None, \<lambda>r. [])" "flow_small 0 f"
proof -
  obtain vs ds where f: "set_new fl minimum_capacity id_hash load = Ret vs" "map_new fl minimum_capacity id_hash load = Ret ds"
      "f = \<lparr>flow_index = 0, flow_vertices = vs, flow_deps = ds, sync_on = 0\<rparr>"
    using assms by (auto simp: flow_new_def obind_eq_Ret_iff)
  have "map_inv vs" "entries vs = []" using map_new_spec [OF f(1) [unfolded set_new_map, symmetric]] by auto
  moreover have "map_inv ds" "entries ds = []" using map_new_spec [OF f(2) [symmetric]] by auto
  ultimately show "flow_ok f ([], None, \<lambda>r. [])" "flow_small 0 f"
    using length_entries [of vs] length_entries [of ds]
    by (simp_all add: f(3) values_entries flow_small_def flow_size_def del: length_entries)
qed

lemma flow_step_spec:
  assumes "flow_ok f l" "flow_small b f" "Suc (Suc b) < npos" "distinct (fst l @ bound [x])"
  shows "flow_step fl x f = Aborts \<or> (\<exists>f'. flow_step fl x f = Ret f' \<and> flow_ok f' (log_op x l) \<and> flow_small (Suc (Suc b)) f')"
proof -
  obtain ts s acc where l: "l = (ts, s, acc)" by (cases l)
  show ?thesis
  proof (cases x)
    case (Bind task)
    then have "task \<notin> set ts" "Suc b < npos" using assms(3,4) l by simp_all
    from flow_bind_spec [OF assms(1) [unfolded l] this(1) assms(2) this(2), of fl]
    show ?thesis using Bind l by (auto simp: flow_small_def le_SucI simp del: flow_ok.simps)
  next
    case (Access res w)
    from flow_set_spec [OF assms(1) [unfolded l] assms(2,3), of fl res w]
    show ?thesis using Access l by simp
  next
    case Sync
    from flow_sync_spec [OF assms(1) [unfolded l] assms(2)]
    show ?thesis using Sync l by (auto simp: flow_small_def le_SucI simp del: flow_ok.simps log_op.simps)
  qed
qed

lemma flow_run_spec:
  "flow_ok f l \<Longrightarrow> flow_small b f \<Longrightarrow> b + 2 * length ops < npos \<Longrightarrow> distinct (fst l @ bound ops) \<Longrightarrow>
   ofold (flow_step fl) ops f = Aborts \<or> (\<exists>f'. ofold (flow_step fl) ops f = Ret f' \<and> flow_ok f' (fold log_op ops l))"
proof (induction ops arbitrary: f l b)
  case (Cons x ops)
  have "flow_step fl x f = Aborts \<or> (\<exists>f'. flow_step fl x f = Ret f' \<and> flow_ok f' (log_op x l) \<and> flow_small (Suc (Suc b)) f')"
    using flow_step_spec [OF Cons.prems(1,2) _ distinct_bound(1) [OF Cons.prems(4)]] Cons.prems(3) by simp
  then show ?case
  proof (elim disjE exE conjE)
    fix f' assume f': "flow_step fl x f = Ret f'" "flow_ok f' (log_op x l)" "flow_small (Suc (Suc b)) f'"
    from Cons.IH [OF f'(2,3) _ distinct_bound(2) [OF Cons.prems(4)]] f'(1) Cons.prems(3) show ?thesis by simp
  qed simp
qed simp

lemma resource_links:
  assumes "flow_ok f (ts, s, acc)"
  shows "(\<Union>x\<in>set (entries (flow_deps f)). set (elem_links (snd x))) = (\<Union>r. set (elem_links (acc r)))"
proof -
  have m: "map_inv (flow_deps f)" "map_of (entries (flow_deps f)) r = (if acc r = [] then None else Some (acc r))" for r
    using assms by simp_all
  have "x \<in> set (entries (flow_deps f)) \<longleftrightarrow> acc (fst x) \<noteq> [] \<and> snd x = acc (fst x)" for x
    using map_of_eq_Some_iff [OF map_inv_keys [OF m(1)], of "fst x" "snd x"] m(2) [of "fst x"] by (auto split: if_splits)
  then have "set (entries (flow_deps f)) = {x. acc (fst x) \<noteq> [] \<and> snd x = acc (fst x)}" by auto
  then show ?thesis by auto (metis elem_links.simps(1) emptyE empty_set fst_conv snd_conv)
qed

lemma conflicts_order:
  assumes "log_ok (ts, s, acc)" "n = length ts"
  shows "(\<Union>r. conflicts (acc r)) \<subseteq> {..<n} \<times> {..<n}" "trans ((\<Union>r. conflicts (acc r))\<^sup>+ - Id)"
proof -
  let ?c = "\<Union>r. conflicts (acc r)"
  show sub: "?c \<subseteq> {..<n} \<times> {..<n}"
  proof
    fix x assume "x \<in> ?c"
    then obtain i j r where x: "x = (i, j)" "(i, j) \<in> conflicts (acc r)" by (cases x) auto
    have "fst ` set (acc r) \<subseteq> {..<length ts}" using assms(1) by simp
    with conflicts_range [OF x(2)] x(1) assms(2) show "x \<in> {..<n} \<times> {..<n}" by auto
  qed
  have le: "i \<le> j" if "(i, j) \<in> ?c\<^sup>+" for i j
    using that
  proof (induction rule: trancl_induct)
    case (base j)
    then show ?case using assms(1) conflicts_forward by fastforce
  next
    case (step j k)
    then have "j \<le> k" using assms(1) conflicts_forward by fastforce
    with step show ?case by simp
  qed
  show "trans (?c\<^sup>+ - Id)"
  proof (rule transI)
    fix i j k assume "(i, j) \<in> ?c\<^sup>+ - Id" "(j, k) \<in> ?c\<^sup>+ - Id"
    then have c: "(i, j) \<in> ?c\<^sup>+" "(j, k) \<in> ?c\<^sup>+" "i \<noteq> j" by auto
    with le [OF c(1)] le [OF c(2)] have "i \<noteq> k" by simp
    moreover have "(i, k) \<in> ?c\<^sup>+" using c(1,2) by (rule trancl_trans)
    ultimately show "(i, k) \<in> ?c\<^sup>+ - Id" by simp
  qed
qed

lemma flow_graph_spec:
  assumes "flow_ok f (ts, s, acc)" "n = length ts" "n * n \<le> vector_max"
  shows "\<exists>m. flow_graph f = Ret m \<and> dag_ok n m \<and> graph_of m = covers ((\<Union>r. conflicts (acc r))\<^sup>+ - Id)"
proof -
  let ?c = "\<Union>r. conflicts (acc r)" and ?e = "\<Union>r. set (elem_links (acc r))"
  have ok: "log_ok (ts, s, acc)" using assms(1) by simp
  note order = conflicts_order [OF ok assms(2)]
  have "?e \<subseteq> ?c" using elem_links_sound by fastforce
  moreover have "?c \<subseteq> ?e\<^sup>+"
  proof
    fix x assume "x \<in> ?c"
    then obtain r where "x \<in> (set (elem_links (acc r)))\<^sup>+" using elem_links_complete by blast
    moreover have "set (elem_links (acc r)) \<subseteq> ?e" by blast
    ultimately show "x \<in> ?e\<^sup>+" using trancl_mono by blast
  qed
  ultimately have plus: "?e\<^sup>+ = ?c\<^sup>+"
    by (metis subset_antisym trancl_id trancl_mono_subset trans_trancl)
  obtain m0 where m0: "matrix_new n = Ret m0" "dag_ok n m0" "graph_of m0 = {}" using matrix_new_ok [OF assms(3)] by blast
  have "\<forall>x\<in>set (entries (flow_deps f)). set (elem_links (snd x)) \<subseteq> {..<n} \<times> {..<n}"
    using resource_links [OF assms(1)] \<open>?e \<subseteq> ?c\<close> order(1) by blast
  from setup_graph_refines [OF this m0(2)] resource_links [OF assms(1)] m0(3)
  obtain m1 where m1: "setup_graph f m0 = Ret m1" "dag_ok n m1" "graph_of m1 = ?e" by auto
  obtain m2 where m2: "transitive_closure m1 = Ret m2" "dag_ok n m2" "graph_of m2 = ?c\<^sup>+"
    using transitive_closure_refines [OF m1(2)] m1(3) plus by auto
  obtain m3 where m3: "transitive_reduction m2 = Ret m3" "dag_ok n m3" "graph_of m3 = covers (?c\<^sup>+ - Id)"
    using transitive_reduction_refines [OF m2(2)] order(2) m2(3) by auto
  have "flow_size f = n" using flow_size_ok [OF assms(1)] assms(2) by simp
  then have "flow_graph f = Ret m3" using m0(1) m1(1) m2(1) m3(1) by (simp add: flow_graph_def)
  with m3 show ?thesis by blast
qed

section \<open>Runs that return\<close>

text \<open>Both tables of a builder keep the load factor they were made with, and then grow as they have to.\<close>

definition flow_loads :: "'f \<Rightarrow> 'f flow \<Rightarrow> bool" where
  "flow_loads load f \<longleftrightarrow> threshold (flow_vertices f) = load \<and> threshold (flow_deps f) = load"

lemma push_dep_threshold:
  "map_inv ds \<Longrightarrow> Suc (map_size ds) < npos \<Longrightarrow> push_dep fl r x ds = Ret ds' \<Longrightarrow> threshold ds' = threshold ds"
  using insert_or_do_nothing_spec [of ds r fl "[]"] by (auto simp: push_dep_def obind_eq_Ret_iff split: if_splits)

lemma push_dep_returns:
  "map_inv ds \<Longrightarrow> load_law fl (threshold ds) \<Longrightarrow> map_size ds < 2 ^ 60 \<Longrightarrow> push_dep fl r x ds \<noteq> Aborts"
  using insert_returns [of ds fl r "[]"] by (cases "insert_or_do_nothing fl r [] ds") (auto simp: push_dep_def)

lemma push_dep_done:
  assumes "map_inv ds" "load_law fl (threshold ds)" "map_size ds < 2 ^ 60"
  obtains ds' where "push_dep fl r x ds = Ret ds'" "map_inv ds'" "map_size ds' \<le> Suc (map_size ds)" "threshold ds' = threshold ds"
    "map_of (entries ds') = (map_of (entries ds))(r \<mapsto> (case map_of (entries ds) r of None \<Rightarrow> [] | Some l \<Rightarrow> l) @ [x])"
proof -
  have n: "Suc (map_size ds) < npos" using assms(3) by (simp add: npos_def size_bound_def)
  from push_dep_spec [OF assms(1) n, of fl r x] push_dep_returns [OF assms, of r x] push_dep_threshold [OF assms(1) n]
  show thesis using that by blast
qed

lemma flow_new_loads: "flow_new fl load = Ret f \<Longrightarrow> flow_loads load f"
proof -
  assume "flow_new fl load = Ret f"
  then obtain vs ds where f: "set_new fl minimum_capacity id_hash load = Ret vs" "map_new fl minimum_capacity id_hash load = Ret ds"
      "f = \<lparr>flow_index = 0, flow_vertices = vs, flow_deps = ds, sync_on = 0\<rparr>" by (auto simp: flow_new_def obind_eq_Ret_iff)
  show "flow_loads load f"
    using map_new_spec [OF f(1) [unfolded set_new_map, symmetric]] map_new_spec [OF f(2) [symmetric]] by (auto simp: flow_loads_def f(3))
qed

lemma flow_step_loads:
  assumes "flow_ok f (ts, s, acc)" "flow_small b f" "Suc (Suc b) < npos" "flow_step fl x f = Ret f'" "flow_loads load f"
  shows "flow_loads load f'"
proof (cases x)
  case (Bind task)
  have "map_inv (flow_vertices f)" "Suc (map_size (flow_vertices f)) < npos"
    using assms(1-3) by (simp_all add: flow_small_def flow_size_def)
  from insert_or_do_nothing_spec [OF this, of task fl "()"] show ?thesis
    using assms(4,5) Bind by (auto simp: flow_bind_def set_insert_map obind_eq_Ret_iff Let_def flow_loads_def split: if_splits)
next
  case (Access res w)
  have ds: "map_inv (flow_deps f)" "map_size (flow_deps f) \<le> b" using assms(1,2) by (simp_all add: flow_small_def)
  from assms(4) Access obtain d1 d2 where d: "push_dep fl res (flow_index f, w) d1 = Ret d2" "f' = f\<lparr>flow_deps := d2\<rparr>"
    "d1 = flow_deps f \<or> push_dep fl res (sync_on f, True) (flow_deps f) = Ret d1"
    by (auto simp: flow_set_def flow_emplace_def entt_assert_def obind_eq_Ret_iff split: if_splits)
  have n: "Suc (map_size (flow_deps f)) < npos" using ds(2) assms(3) by simp
  have "map_inv d1 \<and> Suc (map_size d1) < npos \<and> threshold d1 = threshold (flow_deps f)"
    using d(3) ds assms(3) push_dep_spec [OF ds(1) n, of fl res "(sync_on f, True)"] push_dep_threshold [OF ds(1) n] by fastforce
  then show ?thesis using push_dep_threshold [of d1 fl res "(flow_index f, w)" d2] d(1,2) assms(5) by (simp add: flow_loads_def)
next
  case Sync
  with assms(4,5) show ?thesis by (auto simp: flow_sync_def entt_assert_def flow_loads_def split: if_splits)
qed

lemma flow_step_returns:
  assumes "flow_ok f (ts, s, acc)" "ts \<noteq> [] \<or> (\<exists>task. x = Bind task)" "flow_small b f" "Suc b < 2 ^ 60"
    and "flow_loads load f" "load_law fl load"
  shows "flow_step fl x f \<noteq> Aborts"
proof (cases x)
  case (Bind task)
  have "set_insert fl task (flow_vertices f) \<noteq> Aborts"
    using insert_returns [of "flow_vertices f" fl task "()"] assms by (simp add: set_insert_map flow_small_def flow_size_def flow_loads_def)
  then show ?thesis using Bind by (cases "set_insert fl task (flow_vertices f)") (auto simp: flow_bind_def)
next
  case (Access res w)
  with assms(2) have i: "flow_index f < flow_size f" using assms(1) flow_size_ok [OF assms(1)] by auto
  have ds: "map_inv (flow_deps f)" "load_law fl (threshold (flow_deps f))" "Suc (map_size (flow_deps f)) < 2 ^ 60"
    using assms by (simp_all add: flow_small_def flow_loads_def)
  obtain ds1 where ds1: "push_dep fl res (sync_on f, True) (flow_deps f) = Ret ds1" "map_inv ds1"
      "map_size ds1 \<le> Suc (map_size (flow_deps f))" "threshold ds1 = threshold (flow_deps f)"
    by (rule push_dep_done [OF ds(1,2) Suc_lessD [OF ds(3)], of res "(sync_on f, True)"])
  have twice: "obind (push_dep fl res y d) (\<lambda>d2. Ret (f\<lparr>flow_deps := d2\<rparr>)) \<noteq> Aborts" if "d = ds1 \<or> d = flow_deps f" for y d
    using push_dep_returns [of d fl res y] that ds ds1 by (cases "push_dep fl res y d") auto
  obtain b where "map_contains (flow_deps f) res = Ret b" using map_contains_eq [OF ds(1)] by blast
  with twice i Access ds1(1) show ?thesis by (simp add: flow_set_def flow_emplace_def entt_assert_def)
next
  case Sync
  with assms(2) have "flow_index f < flow_size f" using assms(1) flow_size_ok [OF assms(1)] by auto
  with Sync show ?thesis by (simp add: flow_sync_def entt_assert_def)
qed

text \<open>A run that binds a task first.\<close>

lemma flow_run_returns:
  "flow_ok f l \<Longrightarrow> flow_small b f \<Longrightarrow> b + 2 * length ops < 2 ^ 60 \<Longrightarrow> distinct (fst l @ bound ops) \<Longrightarrow>
   flow_loads load f \<Longrightarrow> load_law fl load \<Longrightarrow> fst l \<noteq> [] \<or> ops = [] \<or> (\<exists>task. hd ops = Bind task) \<Longrightarrow>
   \<exists>f'. ofold (flow_step fl) ops f = Ret f' \<and> flow_ok f' (fold log_op ops l) \<and> flow_loads load f' \<and> flow_small (b + 2 * length ops) f'"
proof (induction ops arbitrary: f l b)
  case (Cons x ops)
  obtain ts s acc where l: "l = (ts, s, acc)" by (cases l)
  have small: "Suc (Suc b) < npos" using Cons.prems(3) by (simp add: npos_def size_bound_def)
  have "flow_step fl x f \<noteq> Aborts"
    using Cons.prems l by (intro flow_step_returns [of f ts s acc x b load]) auto
  moreover have "flow_step fl x f = Aborts \<or>
      (\<exists>f'. flow_step fl x f = Ret f' \<and> flow_ok f' (log_op x l) \<and> flow_small (Suc (Suc b)) f')"
    by (rule flow_step_spec [OF Cons.prems(1,2) small distinct_bound(1) [OF Cons.prems(4)]])
  ultimately obtain f' where f': "flow_step fl x f = Ret f'" "flow_ok f' (log_op x l)" "flow_small (Suc (Suc b)) f'" by blast
  note loads = flow_step_loads [OF Cons.prems(1) [unfolded l] Cons.prems(2) small f'(1) Cons.prems(5)]
  have "fst (log_op x l) \<noteq> []" using Cons.prems(7) by (cases x; auto simp: l)
  with Cons.IH [OF f'(2,3) _ distinct_bound(2) [OF Cons.prems(4)] loads Cons.prems(6)] f'(1) Cons.prems(3) show ?case by simp
qed simp

lemma flow_run_loads:
  "flow_ok f l \<Longrightarrow> flow_small b f \<Longrightarrow> b + 2 * length ops < npos \<Longrightarrow> distinct (fst l @ bound ops) \<Longrightarrow> flow_loads load f \<Longrightarrow>
   ofold (flow_step fl) ops f = Ret f' \<Longrightarrow>
   flow_ok f' (fold log_op ops l) \<and> flow_loads load f' \<and> flow_small (b + 2 * length ops) f'"
proof (induction ops arbitrary: f l b)
  case (Cons x ops)
  obtain ts s acc where l: "l = (ts, s, acc)" by (cases l)
  have small: "Suc (Suc b) < npos" using Cons.prems(3) by simp
  from Cons.prems(6) obtain f1 where f1: "flow_step fl x f = Ret f1" "ofold (flow_step fl) ops f1 = Ret f'" by (auto simp: obind_eq_Ret_iff)
  have "flow_ok f1 (log_op x l)" "flow_small (Suc (Suc b)) f1"
    using flow_step_spec [OF Cons.prems(1,2) small distinct_bound(1) [OF Cons.prems(4)], of fl] f1(1) by auto
  from Cons.IH [OF this _ distinct_bound(2) [OF Cons.prems(4)] flow_step_loads [OF Cons.prems(1) [unfolded l] Cons.prems(2) small f1(1) Cons.prems(5)] f1(2)]
  show ?case using Cons.prems(3) by simp
qed simp

text \<open>
  C3. The task graph orders exactly what conflicts. Whatever distinct tasks are bound and
  resources and sync points set (in an order the assertions allow, and unless a table was to
  reach \<open>2 ^ 63\<close> buckets), \<open>graph()\<close> answers a matrix whose edges are the covering pairs of
  the order that conflicting accesses generate: following its edges leads from one task to
  another exactly when a chain of conflicts does, and no edge can be dropped. With a load factor
  that keeps \<open>load_law\<close>, fewer than \<open>2 ^ 59\<close> calls, and a task bound before the first resource or
  sync point is set, no assertion fails.
\<close>

theorem flow_orders_conflicts:
  assumes "flow_new fl load = Ret f0" "distinct (bound ops)" "n = length (bound ops)" "n * n \<le> vector_max" "2 * length ops < npos"
  shows "(ofold (flow_step fl) ops f0 = Aborts \<or>
    (\<exists>f m. ofold (flow_step fl) ops f0 = Ret f \<and> flow_graph f = Ret m \<and> vert m = n \<and>
       (\<forall>i<n. flow_at i f = Ret (bound ops ! i)) \<and>
       (\<forall>i<n. \<forall>j<n. matrix_contains i j m = ((i, j) \<in> covers (task_order ops))) \<and>
       (covers (task_order ops))\<^sup>+ = task_order ops)) \<and>
    (load_law fl load \<and> 2 * length ops < 2 ^ 60 \<and> (ops = [] \<or> (\<exists>task. hd ops = Bind task)) \<longrightarrow> ofold (flow_step fl) ops f0 \<noteq> Aborts)"
    (is "?result \<and> ?returns")
proof
  show ?returns
    using flow_run_returns [OF flow_new_spec [OF assms(1)] _ _ flow_new_loads [OF assms(1)], of ops fl] assms(2) by auto
  obtain ts s acc where l: "log_of ops = (ts, s, acc)" by (cases "log_of ops")
  have ts: "ts = bound ops" using fst_log [of ops "([], None, \<lambda>r. [])"] l by (simp add: log_of_def)
  have ord: "task_order ops = (\<Union>r. conflicts (acc r))\<^sup>+ - Id" by (simp add: task_order_def accesses_def l)
  from flow_run_spec [OF flow_new_spec [OF assms(1)], of ops fl] assms(2,5) l
  have "ofold (flow_step fl) ops f0 = Aborts \<or> (\<exists>f. ofold (flow_step fl) ops f0 = Ret f \<and> flow_ok f (ts, s, acc))"
    by (simp only: log_of_def fst_conv append_Nil add_0)
  then show ?result
  proof (elim disjE exE conjE)
    fix f assume f: "ofold (flow_step fl) ops f0 = Ret f" "flow_ok f (ts, s, acc)"
    have n: "n = length ts" using assms(3) ts by simp
    obtain m where m: "flow_graph f = Ret m" "dag_ok n m" "graph_of m = covers (task_order ops)"
      using flow_graph_spec [OF f(2) n assms(4)] ord by auto
    have ok: "log_ok (ts, s, acc)" using f(2) by simp
    have "task_order ops \<subseteq> {..<n} \<times> {..<n}"
      using trancl_subset_Sigma [OF conflicts_order(1) [OF ok n]] unfolding ord by blast
    then have "finite (task_order ops)" by (rule finite_subset) simp
    moreover have "irrefl (task_order ops)" unfolding ord by (simp add: irrefl_def)
    ultimately have cov: "(covers (task_order ops))\<^sup>+ = task_order ops"
      using conflicts_order(2) [OF ok n] unfolding ord by (intro trancl_covers)
    have "flow_at i f = Ret (bound ops ! i)" if "i < n" for i
    proof -
      have "map node_key (packed (flow_vertices f)) = bound ops" using f(2) ts by (simp add: set_values_def)
      moreover have "i < map_size (flow_vertices f)" using that n flow_size_ok [OF f(2)] by (simp add: flow_size_def)
      ultimately show ?thesis by (simp add: flow_at_def flow_size_def) (metis nth_map)
    qed
    moreover have "matrix_contains i j m = ((i, j) \<in> covers (task_order ops))" if "i < n" "j < n" for i j
      using matrix_contains_eq [of Directed_tag m i j] m(2,3) that by simp
    ultimately show ?result using f(1) m(1,2) cov by (intro disjI2 exI [of _ f] exI [of _ m]) simp
  qed simp
qed


text \<open>Three tasks: one writes a resource, one reads it, one writes it again.\<close>

definition example_ops :: "flow_op list" where
  "example_ops = [Bind 1, Access 7 True, Bind 2, Access 7 False, Bind 3, Access 7 True]"

lemma example_order: "task_order example_ops = {(0, 1), (0, 2), (1, 2)}"
proof -
  have "accesses example_ops r = (if r = 7 then [(0, True), (1, False), (2, True)] else [])" for r
    by (simp add: accesses_def log_of_def example_ops_def)
  then have "(\<Union>r. conflicts (accesses example_ops r)) = {(0, 1), (0, 2), (1, 2)}"
    by (auto split: if_splits)
  moreover have "trans {(0, 1), (0, 2), (1, 2 :: nat)}" by (auto simp: trans_def)
  ultimately have "task_order example_ops = {(0, 1), (0, 2), (1, 2)} - Id" by (simp only: task_order_def trancl_id)
  then show ?thesis by (simp add: insert_Diff_if)
qed

lemma flow_new_default: "\<exists>f. flow_new single_loads default_load = Ret f"
  using next_power_eight
  by (simp add: flow_new_def set_new_map map_new_def rehash_def minimum_capacity_def least_buckets_none)

theorem flow_orders_conflicts_witness:
  "\<exists>f0 f m. flow_new single_loads default_load = Ret f0 \<and> ofold (flow_step single_loads) example_ops f0 = Ret f \<and> flow_graph f = Ret m \<and>
    matrix_contains 0 1 m \<and> matrix_contains 1 2 m \<and> \<not> matrix_contains 0 2 m"
proof -
  obtain f0 where f0: "flow_new single_loads default_load = Ret f0" using flow_new_default by blast
  have b: "bound example_ops = [1, 2, 3]" "length example_ops = 6" "hd example_ops = Bind 1" by (simp_all add: example_ops_def)
  have h: "distinct (bound example_ops)" "3 = length (bound example_ops)" "3 * 3 \<le> vector_max" "2 * length example_ops < npos"
    by (simp_all add: b vector_max_def npos_def size_bound_def)
  from flow_orders_conflicts [OF f0 h] default_load_law b(2,3) obtain f m where
    m: "ofold (flow_step single_loads) example_ops f0 = Ret f" "flow_graph f = Ret m"
      "\<forall>i<3. \<forall>j<3. matrix_contains i j m = ((i, j) \<in> covers (task_order example_ops))" by auto
  have "covers (task_order example_ops) = {(0, 1), (1, 2)}" unfolding example_order by (auto simp: covers_def)
  with m(3) [rule_format, of 0 1] m(3) [rule_format, of 1 2] m(3) [rule_format, of 0 2] f0 m(1,2) show ?thesis by auto
qed

section \<open>Binding a task again\<close>

lemma ofold_undefined:
  assumes "\<And>x m. x \<in> set xs \<Longrightarrow> P m \<Longrightarrow> f x m = Undefined \<or> (\<exists>m'. f x m = Ret m' \<and> P m')"
    and "\<And>m. P m \<Longrightarrow> f bad m = Undefined"
  shows "P m \<Longrightarrow> bad \<in> set xs \<Longrightarrow> ofold f xs m = Undefined"
  using assms(1)
proof (induction xs arbitrary: m)
  case (Cons x xs)
  show ?case
  proof (cases "f x m = Undefined")
    case False
    then obtain m' where m': "f x m = Ret m'" "P m'" using Cons.prems(3) [of x m] Cons.prems(1) by auto
    then have "bad \<in> set xs" using Cons.prems(1,2) assms(2) by auto
    with Cons.IH [OF m'(2)] Cons.prems(3) m'(1) show ?thesis by simp
  qed simp
qed simp

text \<open>A task beyond the last row of the matrix cannot be linked.\<close>

lemma link_outside:
  assumes "dag_ok n m" "n * n \<le> vector_max" "p < n"
  shows "link_tasks (Suc n) p m = Undefined"
proof -
  have "n < 2 ^ 31"
  proof (rule ccontr)
    assume "\<not> n < 2 ^ 31"
    then have "2 ^ 31 * 2 ^ 31 \<le> n * n" by (intro mult_le_mono) simp_all
    with assms(2) show False by (simp add: vector_max_def)
  qed
  then have "Suc n * n + p < size_bound" using assms(2,3) by (simp add: vector_max_def size_bound_def)
  then have "matrix_pos m (Suc n) p = n + n * n + p" using assms(1) by (simp add: matrix_pos_def)
  then show ?thesis using assms(1) by (simp add: link_tasks_def matrix_insert_def set_reverse_def exchange_at_def matrix_ok_def)
qed

lemma log_no_access:
  "(\<forall>w. Access res w \<notin> set ops) \<Longrightarrow> snd (snd l) res = [] \<Longrightarrow> snd (snd (fold log_op ops l)) res = []"
proof (induction ops arbitrary: l)
  case (Cons x ops)
  have "snd (snd (log_op x l)) res = []" using Cons.prems by (cases x; cases l) auto
  with Cons show ?case by simp
qed simp

lemma log_no_sync: "Sync \<notin> set ops \<Longrightarrow> fst (snd (fold log_op ops l)) = fst (snd l)"
proof (induction ops arbitrary: l)
  case (Cons x ops)
  have "fst (snd (log_op x l)) = fst (snd l)" using Cons.prems by (cases x; cases l) auto
  with Cons show ?case by simp
qed simp

text \<open>The second binding and the access of a new resource, while no sync point is set.\<close>

lemma rebinding_run:
  assumes ok: "flow_ok f (ts, None, acc)" and small: "flow_small b f" "Suc (Suc b) < 2 ^ 60"
    and load: "flow_loads load f" "load_law fl load" and t: "task \<in> set ts" and res: "acc res = []"
  shows "\<exists>p d f'. p < length ts \<and> ofold (flow_step fl) [Bind task, Access res w] f = Ret f' \<and> flow_size f' = length ts \<and>
    flow_deps f' = d \<and> map_inv d \<and> map_of (entries d) = (map_of (entries (flow_deps f)))(res \<mapsto> [(Suc (length ts), True), (p, w)])"
proof -
  let ?vs = "flow_vertices f" and ?ds = "flow_deps f" and ?n = "length ts"
  have vs: "map_inv ?vs" "map node_key (packed ?vs) = ts" "sync_on f = ?n" "map_size ?vs = ?n"
    using ok flow_size_ok [OF ok] by (simp_all add: set_values_def flow_size_def)
  have "Suc (map_size ?vs) < npos" using small by (simp add: flow_small_def flow_size_def npos_def size_bound_def)
  from insert_or_do_nothing_spec [OF vs(1) this, of task fl "()"] vs(2,4) t
  obtain p where p: "p < ?n" "set_insert fl task ?vs = Ret (p, False, ?vs)" by (auto simp: set_insert_map)
  have n: "Suc ?n < size_bound" using small vs(4) by (simp add: flow_small_def flow_size_def size_bound_def)
  let ?f = "f\<lparr>sync_on := Suc ?n, flow_vertices := ?vs, flow_index := p\<rparr>"
  have bind: "flow_bind fl task f = Ret ?f" using p(2) vs(3,4) n by (simp add: flow_bind_def flow_size_def)
  have ds: "map_inv ?ds" "load_law fl (threshold ?ds)" "map_size ?ds < 2 ^ 60" "map_of (entries ?ds) res = None"
    using ok small load res by (simp_all add: flow_small_def flow_loads_def)
  obtain d1 where d1: "push_dep fl res (Suc ?n, True) ?ds = Ret d1" "map_inv d1" "map_size d1 \<le> Suc (map_size ?ds)"
      "threshold d1 = threshold ?ds" "map_of (entries d1) = (map_of (entries ?ds))(res \<mapsto> [(Suc ?n, True)])"
    using push_dep_done [OF ds(1-3), of res "(Suc ?n, True)"] ds(4) by auto
  have small1: "load_law fl (threshold d1)" "map_size d1 < 2 ^ 60" using d1(3,4) ds(2) small by (simp_all add: flow_small_def)
  obtain d2 where d2: "push_dep fl res (p, w) d1 = Ret d2" "map_inv d2"
      "map_of (entries d2) = (map_of (entries ?ds))(res \<mapsto> [(Suc ?n, True), (p, w)])"
    using push_dep_done [OF d1(2) small1, of res "(p, w)"] d1(5) by auto
  have "flow_set fl res w ?f = Ret (?f\<lparr>flow_deps := d2\<rparr>)"
    using map_contains_eq [OF ds(1), of res] ds(4) p(1) vs(4) d1(1) d2(1)
    by (simp add: flow_set_def flow_emplace_def entt_assert_def flow_size_def)
  then show ?thesis using bind p(1) d2(2,3) vs(4)
    by (intro exI [of _ p] exI [of _ d2] exI [of _ "?f\<lparr>flow_deps := d2\<rparr>"]) (simp add: ofold_fun flow_size_def)
qed

text \<open>
  C32. Binding a task that is already bound breaks the builder. Whatever distinct tasks have been bound
  and resources set, as long as there is no sync point: \<open>bind\<close> advances \<open>sync_on\<close> in step with the
  number of tasks, but for a task that is there the number stays. When the next call is for a
  resource that has not been set before, it is taken for one that follows a sync point, and gets a
  writer with the position of no task: \<open>graph()\<close> writes outside its matrix. No assertion fails.
\<close>

theorem flow_rebinding_breaks_graph:
  assumes "flow_new fl load = Ret f0" "load_law fl load" "ofold (flow_step fl) ops f0 = Ret f"
    and "distinct (bound ops)" "Sync \<notin> set ops" "length ops < 2 ^ 58" "length (bound ops) * length (bound ops) \<le> vector_max"
    and "task \<in> set (bound ops)" "\<forall>w. Access res w \<notin> set ops"
  shows "\<exists>f'. ofold (flow_step fl) [Bind task, Access res w] f = Ret f' \<and> flow_graph f' = Undefined"
proof -
  let ?n = "length (bound ops)"
  obtain ts s acc where l: "fold log_op ops ([], None, \<lambda>r. []) = (ts, s, acc)" by (cases "fold log_op ops ([], None, \<lambda>r. [])")
  have log: "ts = bound ops" "s = None" "acc res = []"
    using fst_log [of ops "([], None, \<lambda>r. [])"] log_no_sync [OF assms(5), of "([], None, \<lambda>r. [])"]
      log_no_access [OF assms(9), of "([], None, \<lambda>r. [])"] l by simp_all
  have "0 + 2 * length ops < npos" "distinct (fst ([], None, \<lambda>r. []) @ bound ops)"
    using assms(4,6) by (simp_all add: npos_def size_bound_def)
  from flow_run_loads [OF flow_new_spec [OF assms(1)] this flow_new_loads [OF assms(1)] assms(3)]
  have f: "flow_ok f (bound ops, None, acc)" "flow_loads load f" "flow_small (2 * length ops) f" using l log by simp_all
  obtain p d f' where d: "p < ?n" "ofold (flow_step fl) [Bind task, Access res w] f = Ret f'" "flow_size f' = ?n" "flow_deps f' = d" "map_inv d"
      "map_of (entries d) = (map_of (entries (flow_deps f)))(res \<mapsto> [(Suc ?n, True), (p, w)])"
    using rebinding_run [OF f(1,3) _ f(2) assms(2,8) log(3), of w] assms(6) by auto
  obtain m where m: "matrix_new ?n = Ret m" "dag_ok ?n m" using matrix_new_ok [OF assms(7)] by blast
  have outside: "setup_elem [(Suc ?n, True), (p, w)] m = Undefined" if "dag_ok ?n m" for m
    unfolding setup_elem_links using link_outside [OF that assms(7) d(1)] by (simp add: elem_links.simps(2))
  have inside: "setup_elem (node_value x) m = Undefined \<or> (\<exists>m'. setup_elem (node_value x) m = Ret m' \<and> dag_ok ?n m')"
    if x: "x \<in> set (packed d)" and m: "dag_ok ?n m" for x m
  proof -
    have e: "map_of (entries d) (node_key x) = Some (node_value x)"
      using map_of_eq_Some_iff [OF map_inv_keys [OF d(5)]] x by (auto simp: entries_def)
    show ?thesis
    proof (cases "node_key x = res")
      case True
      then show ?thesis using e d(6) outside [OF m] by simp
    next
      case False
      then have "node_value x = acc (node_key x)" using e d(6) f(1) by (simp split: if_splits)
      moreover have "set (elem_links (acc (node_key x))) \<subseteq> {..<?n} \<times> {..<?n}"
        using elem_links_sound [of "acc (node_key x)"] conflicts_order(1) [of "bound ops" None acc ?n] f(1) by auto
      ultimately show ?thesis using link_all_refines [OF _ m] unfolding setup_elem_links by metis
    qed
  qed
  have "(res, [(Suc ?n, True), (p, w)]) \<in> set (entries d)"
    by (rule map_of_SomeD) (simp add: d(6))
  then obtain bad where bad: "bad \<in> set (packed d)" "node_value bad = [(Suc ?n, True), (p, w)]" by (auto simp: entries_def)
  have "setup_graph f' m = Undefined"
    unfolding setup_graph_def d(4)
    by (rule ofold_undefined [where P = "dag_ok ?n" and bad = bad, OF inside _ m(2) bad(1)]) (use outside bad(2) in simp_all)
  then show ?thesis using d(2,3) m(1) by (simp add: flow_graph_def)
qed

theorem flow_rebinding_breaks_graph_witness:
  "\<exists>f0 f f'. flow_new single_loads default_load = Ret f0 \<and> ofold (flow_step single_loads) [Bind 1, Access 7 True, Bind 2] f0 = Ret f \<and>
     ofold (flow_step single_loads) [Bind 1, Access 8 False] f = Ret f' \<and> flow_graph f' = Undefined"
proof -
  let ?ops = "[Bind 1, Access 7 True, Bind 2]"
  obtain f0 where f0: "flow_new single_loads default_load = Ret f0" using flow_new_default by blast
  obtain f where f: "ofold (flow_step single_loads) ?ops f0 = Ret f"
    using flow_run_returns [OF flow_new_spec [OF f0] _ _ flow_new_loads [OF f0] default_load_law, of ?ops] by auto
  show ?thesis
    using flow_rebinding_breaks_graph [OF f0 default_load_law f, of 1 8 False] f0 f by (simp add: vector_max_def)
qed

end
