(* ===== verification/Scheduler.thy ===== *)
theory Scheduler
  imports Prelude "HOL-Library.Multiset"
begin

text \<open>
  Processes and the cooperative scheduler of \<open>core/common/entt.hpp\<close> (\<open>entt::process\<close>,
  \<open>entt::basic_scheduler\<close>). A process class is a record of its optional member functions. A
  member function is a tree of actions: it changes the world and calls the functions of its own
  process, and after each call it sees the state of the process and the world that the call left.
  Member functions do not call back into the scheduler that runs them.
\<close>

section \<open>Processes\<close>

datatype process_state =
  Uninitialized | Running | Paused | Succeeded | Failed | Aborted | Finished | Rejected

datatype process_call = Succeed | Fail | Pause | Unpause | Abort bool

datatype 'w action = Done 'w | Call process_call 'w "process_state \<Rightarrow> 'w \<Rightarrow> 'w action"

type_synonym 'w hook = "process_state \<Rightarrow> 'w \<Rightarrow> 'w action"

record ('d, 'w) process_class =
  init_hook :: "'w hook option"
  update_hook :: "('d \<Rightarrow> 'w hook) option"
  succeeded_hook :: "'w hook option"
  failed_hook :: "'w hook option"
  aborted_hook :: "'w hook option"

record ('d, 'w) process =
  current :: process_state
  class_of :: "('d, 'w) process_class"

definition process_new :: "('d, 'w) process_class \<Rightarrow> ('d, 'w) process" where
  "process_new c = \<lparr>current = Uninitialized, class_of = c\<rparr>"

text \<open>A function or lambda as a process: it is handed \<open>succeed\<close> and \<open>fail\<close>, and does not see the state.\<close>

datatype 'w steps = Returned 'w | Reports bool 'w "'w \<Rightarrow> 'w steps"

primrec reporting :: "'w steps \<Rightarrow> 'w action" where
  "reporting (Returned w) = Done w"
| "reporting (Reports ok w k) = Call (if ok then Succeed else Fail) w (\<lambda>st w'. reporting (k w'))"

definition process_adaptor :: "('d \<Rightarrow> 'w \<Rightarrow> 'w steps) \<Rightarrow> ('d, 'w) process_class" where
  "process_adaptor f =
     \<lparr>init_hook = None, update_hook = Some (\<lambda>delta st w. reporting (f delta w)),
      succeeded_hook = None, failed_hook = None, aborted_hook = None\<rparr>"

definition alive :: "('d, 'w) process \<Rightarrow> bool" where
  "alive p \<longleftrightarrow> current p = Running \<or> current p = Paused"

definition finished :: "('d, 'w) process \<Rightarrow> bool" where
  "finished p \<longleftrightarrow> current p = Finished"

definition paused :: "('d, 'w) process \<Rightarrow> bool" where
  "paused p \<longleftrightarrow> current p = Paused"

definition rejected :: "('d, 'w) process \<Rightarrow> bool" where
  "rejected p \<longleftrightarrow> current p = Rejected"

definition succeed :: "('d, 'w) process \<Rightarrow> ('d, 'w) process" where
  "succeed p = (if alive p then p\<lparr>current := Succeeded\<rparr> else p)"

definition fail :: "('d, 'w) process \<Rightarrow> ('d, 'w) process" where
  "fail p = (if alive p then p\<lparr>current := Failed\<rparr> else p)"

definition pause :: "('d, 'w) process \<Rightarrow> ('d, 'w) process" where
  "pause p = (if current p = Running then p\<lparr>current := Paused\<rparr> else p)"

definition unpause :: "('d, 'w) process \<Rightarrow> ('d, 'w) process" where
  "unpause p = (if current p = Paused then p\<lparr>current := Running\<rparr> else p)"

text \<open>
  The second \<open>switch\<close> of \<open>tick\<close>: a dead process is told, and leaves the state. The calls that
  its function makes find it dead and do nothing (lemma \<open>run_dead\<close>).
\<close>

primrec unheard :: "process_state \<Rightarrow> 'w action \<Rightarrow> 'w" where
  "unheard st (Done w) = w"
| "unheard st (Call c w k) = unheard st (k st w)"

definition told :: "'w hook option \<Rightarrow> process_state \<Rightarrow> 'w \<Rightarrow> 'w" where
  "told h st w = (case h of None \<Rightarrow> w | Some f \<Rightarrow> unheard st (f st w))"

definition settle :: "('d, 'w) process \<Rightarrow> 'w \<Rightarrow> ('d, 'w) process \<times> 'w" where
  "settle p w =
     (case current p of
        Succeeded \<Rightarrow> (p\<lparr>current := Finished\<rparr>, told (succeeded_hook (class_of p)) Succeeded w)
      | Failed \<Rightarrow> (p\<lparr>current := Rejected\<rparr>, told (failed_hook (class_of p)) Failed w)
      | Aborted \<Rightarrow> (p\<lparr>current := Rejected\<rparr>, told (aborted_hook (class_of p)) Aborted w)
      | _ \<Rightarrow> (p, w))"

text \<open>
  An immediate abort calls \<open>tick\<close> with an empty interval; the first \<open>switch\<close> has no case for an
  aborted process, so that only the second one is left.
\<close>

definition process_abort :: "bool \<Rightarrow> ('d, 'w) process \<Rightarrow> 'w \<Rightarrow> ('d, 'w) process \<times> 'w" where
  "process_abort immediate p w =
     (if alive p
      then let p1 = p\<lparr>current := Aborted\<rparr> in if immediate then settle p1 w else (p1, w)
      else (p, w))"

fun perform :: "process_call \<Rightarrow> ('d, 'w) process \<Rightarrow> 'w \<Rightarrow> ('d, 'w) process \<times> 'w" where
  "perform Succeed p w = (succeed p, w)"
| "perform Fail p w = (fail p, w)"
| "perform Pause p w = (pause p, w)"
| "perform Unpause p w = (unpause p, w)"
| "perform (Abort immediate) p w = process_abort immediate p w"

primrec run_action :: "'w action \<Rightarrow> ('d, 'w) process \<Rightarrow> ('d, 'w) process \<times> 'w" where
  "run_action (Done w) p = (p, w)"
| "run_action (Call c w k) p = (case perform c p w of (p1, w1) \<Rightarrow> run_action (k (current p1) w1) p1)"

definition run_hook :: "'w hook option \<Rightarrow> ('d, 'w) process \<Rightarrow> 'w \<Rightarrow> ('d, 'w) process \<times> 'w" where
  "run_hook h p w = (case h of None \<Rightarrow> (p, w) | Some f \<Rightarrow> run_action (f (current p) w) p)"

definition tick :: "'d \<Rightarrow> ('d, 'w) process \<Rightarrow> 'w \<Rightarrow> ('d, 'w) process \<times> 'w" where
  "tick delta p w =
     (case (case current p of
              Uninitialized \<Rightarrow> (case run_hook (init_hook (class_of p)) p w of (p1, w1) \<Rightarrow> (p1\<lparr>current := Running\<rparr>, w1))
            | Running \<Rightarrow> run_hook (map_option (\<lambda>f. f delta) (update_hook (class_of p))) p w
            | _ \<Rightarrow> (p, w)) of
        (p1, w1) \<Rightarrow> settle p1 w1)"

section \<open>Handlers\<close>

text \<open>A handler owns its process and the chain of those that follow it.\<close>

record ('d, 'w) handler =
  process_of :: "('d, 'w) process"
  next_chain :: "('d, 'w) process list"

definition handler_update :: "'d \<Rightarrow> ('d, 'w) handler \<Rightarrow> 'w \<Rightarrow> bool \<times> ('d, 'w) handler \<times> 'w" where
  "handler_update delta h w =
     (case tick delta (process_of h) w of
        (p, w1) \<Rightarrow>
          (rejected p \<or> finished p, \<lparr>process_of = p, next_chain = (if rejected p then [] else next_chain h)\<rparr>, w1))"

definition handler_abort :: "bool \<Rightarrow> ('d, 'w) handler \<Rightarrow> 'w \<Rightarrow> ('d, 'w) handler \<times> 'w" where
  "handler_abort immediate h w =
     (case process_abort immediate (process_of h) w of (p, w1) \<Rightarrow> (h\<lparr>process_of := p\<rparr>, w1))"

section \<open>The scheduler\<close>

text \<open>\<open>zero\<close> is the value-initialised interval.\<close>

type_synonym ('d, 'w) scheduler = "('d, 'w) handler list"

definition scheduler_size :: "('d, 'w) scheduler \<Rightarrow> nat" where
  "scheduler_size hs = length hs"

definition scheduler_empty :: "('d, 'w) scheduler \<Rightarrow> bool" where
  "scheduler_empty hs = (hs = [])"

definition scheduler_clear :: "('d, 'w) scheduler \<Rightarrow> ('d, 'w) scheduler" where
  "scheduler_clear hs = []"

definition scheduler_swap ::
    "('d, 'w) scheduler \<Rightarrow> ('d, 'w) scheduler \<Rightarrow> ('d, 'w) scheduler \<times> ('d, 'w) scheduler" where
  "scheduler_swap a b = (b, a)"

definition attach :: "'d \<Rightarrow> ('d, 'w) process_class \<Rightarrow> ('d, 'w) scheduler \<Rightarrow> 'w \<Rightarrow> ('d, 'w) scheduler \<times> 'w" where
  "attach zero c hs w =
     (case handler_update zero \<lparr>process_of = process_new c, next_chain = []\<rparr> w of (dead, h, w1) \<Rightarrow> (hs @ [h], w1))"

definition attach_function ::
    "'d \<Rightarrow> ('d \<Rightarrow> 'w \<Rightarrow> 'w steps) \<Rightarrow> ('d, 'w) scheduler \<Rightarrow> 'w \<Rightarrow> ('d, 'w) scheduler \<times> 'w" where
  "attach_function zero f = attach zero (process_adaptor f)"

text \<open>\<open>then\<close> walks to the end of the last handler's chain.\<close>

definition then_process :: "('d, 'w) process_class \<Rightarrow> ('d, 'w) scheduler \<Rightarrow> ('d, 'w) scheduler outcome" where
  "then_process c hs =
     (if hs = [] then Aborts
      else Ret (hs[length hs - 1 := (last hs)\<lparr>next_chain := next_chain (last hs) @ [process_new c]\<rparr>]))"

definition then_function ::
    "('d \<Rightarrow> 'w \<Rightarrow> 'w steps) \<Rightarrow> ('d, 'w) scheduler \<Rightarrow> ('d, 'w) scheduler outcome" where
  "then_function f = then_process (process_adaptor f)"

fun scheduler_update_loop ::
    "'d \<Rightarrow> 'd \<Rightarrow> nat \<Rightarrow> ('d, 'w) scheduler \<Rightarrow> 'w \<Rightarrow> (('d, 'w) scheduler \<times> 'w) outcome" where
  "scheduler_update_loop zero delta 0 hs w = Ret (hs, w)"
| "scheduler_update_loop zero delta (Suc pos) hs w =
     (if \<not> pos < length hs then Undefined
      else case handler_update delta (hs ! pos) w of
        (dead, h, w1) \<Rightarrow>
          if \<not> dead then scheduler_update_loop zero delta pos (hs[pos := h]) w1
          else case next_chain h of
            c # cs \<Rightarrow>
              (case handler_update zero \<lparr>process_of = c, next_chain = cs\<rparr> w1 of
                 (dead', h', w2) \<Rightarrow> scheduler_update_loop zero delta pos (hs[pos := h']) w2)
          | [] \<Rightarrow> scheduler_update_loop zero delta pos (butlast (hs[pos := last hs])) w1)"

definition scheduler_update :: "'d \<Rightarrow> 'd \<Rightarrow> ('d, 'w) scheduler \<Rightarrow> 'w \<Rightarrow> (('d, 'w) scheduler \<times> 'w) outcome" where
  "scheduler_update zero delta hs w = scheduler_update_loop zero delta (length hs) hs w"

fun scheduler_abort :: "bool \<Rightarrow> ('d, 'w) scheduler \<Rightarrow> 'w \<Rightarrow> ('d, 'w) scheduler \<times> 'w" where
  "scheduler_abort immediate [] w = ([], w)"
| "scheduler_abort immediate (h # hs) w =
     (case handler_abort immediate h w of (h1, w1) \<Rightarrow>
        (case scheduler_abort immediate hs w1 of (hs1, w2) \<Rightarrow> (h1 # hs1, w2)))"

end
