(* ===== verification/SchedulerCorrect.thy ===== *)
theory SchedulerCorrect
  imports Scheduler
begin

text \<open>
  What the scheduler promises: an update runs every process it holds once, from the last to the
  first, replaces those that succeeded by their followers and drops the others that died; aborting
  drains it; processes enter and leave their states as documented.
\<close>

section \<open>Processes\<close>

lemma action_induct [case_names Done Call, induct type: action]:
  assumes "\<And>w. P (Done w)" and "\<And>c w k. (\<And>st w'. P (k st w')) \<Longrightarrow> P (Call c w k)"
  shows "P a"
proof (induction a rule: action.induct)
  case (Call c w k)
  show ?case by (rule assms(2), rule Call [OF rangeI rangeI])
qed (rule assms(1))

lemmas call_defs = succeed_def fail_def pause_def unpause_def process_abort_def

lemma perform_dead: "\<not> alive p \<Longrightarrow> perform c p w = (p, w)"
  by (cases c) (auto simp: call_defs alive_def)

text \<open>The calls that a dead process makes have no effect.\<close>

lemma run_dead: "\<not> alive p \<Longrightarrow> run_action a p = (p, unheard (current p) a)"
  by (induction a) (simp_all add: perform_dead)

lemma told_eq_run: "\<not> alive p \<Longrightarrow> run_hook h p w = (p, told h (current p) w)"
  by (auto simp: run_hook_def told_def run_dead split: option.splits)

lemma told_None [simp]: "told None st w = w"
  by (simp add: told_def)

lemma class_of_settle [simp]: "class_of (fst (settle p w)) = class_of p"
  by (simp add: settle_def split: process_state.splits)

lemma class_of_perform [simp]: "class_of (fst (perform c p w)) = class_of p"
  by (cases c) (auto simp: call_defs Let_def)

lemma class_of_run [simp]: "class_of (fst (run_action a p)) = class_of p"
proof (induction a arbitrary: p)
  case (Call c w k)
  then show ?case by (simp add: case_prod_beta)
qed simp

lemma class_of_run_hook [simp]: "class_of (fst (run_hook h p w)) = class_of p"
  by (simp add: run_hook_def split: option.splits)

lemma class_of_tick [simp]: "class_of (fst (tick delta p w)) = class_of p"
  by (auto simp: tick_def case_prod_beta split: process_state.splits)

lemma settle_state:
  "current p \<noteq> Uninitialized \<Longrightarrow> current (fst (settle p w)) \<in> {Running, Paused, Finished, Rejected}"
  by (cases "current p") (simp_all add: settle_def)

lemma perform_initialized: "current p \<noteq> Uninitialized \<Longrightarrow> current (fst (perform c p w)) \<noteq> Uninitialized"
  by (cases c; cases "current p") (auto simp: call_defs alive_def settle_def Let_def)

lemma run_initialized: "current p \<noteq> Uninitialized \<Longrightarrow> current (fst (run_action a p)) \<noteq> Uninitialized"
proof (induction a arbitrary: p)
  case (Call c w k)
  show ?case using Call.IH perform_initialized [OF Call.prems, of c w] by (auto simp: case_prod_beta)
qed simp

lemma perform_uninitialized: "current p = Uninitialized \<Longrightarrow> perform c p w = (p, w)"
  by (simp add: perform_dead alive_def)

text \<open>A process that was never updated has its \<open>init\<close> run and starts; the interval does not matter.\<close>

definition started :: "('d, 'w) process \<Rightarrow> 'w \<Rightarrow> ('d, 'w) process \<times> 'w" where
  "started p w = (p\<lparr>current := Running\<rparr>, told (init_hook (class_of p)) Uninitialized w)"

lemma tick_uninitialized: "current p = Uninitialized \<Longrightarrow> tick delta p w = started p w"
  by (simp add: tick_def started_def told_eq_run alive_def settle_def)

lemma tick_running:
  "current p = Running \<Longrightarrow>
     tick delta p w = (case run_hook (map_option (\<lambda>f. f delta) (update_hook (class_of p))) p w of (q, w1) \<Rightarrow> settle q w1)"
  by (simp add: tick_def)

lemma tick_paused: "current p = Paused \<Longrightarrow> tick delta p w = (p, w)"
  by (simp add: tick_def settle_def)

lemma tick_aborted:
  "current p = Aborted \<Longrightarrow>
     tick delta p w = (p\<lparr>current := Rejected\<rparr>, told (aborted_hook (class_of p)) Aborted w)"
  by (simp add: tick_def settle_def)

lemma tick_over: "finished p \<or> rejected p \<Longrightarrow> tick delta p w = (p, w)"
  by (auto simp: tick_def settle_def finished_def rejected_def)

lemma tick_state: "current (fst (tick delta p w)) \<in> {Running, Paused, Finished, Rejected}"
proof (cases "current p")
  case Running
  have "current (fst (run_hook h p w)) \<noteq> Uninitialized" for h
    using Running run_initialized [of p] by (simp add: run_hook_def split: option.splits)
  then show ?thesis unfolding tick_running [OF Running] case_prod_beta by (rule settle_state)
next
  case Uninitialized
  then show ?thesis by (simp add: tick_uninitialized started_def)
qed (simp_all add: tick_def settle_def)

section \<open>Updates\<close>

text \<open>What becomes of one handler: nothing, itself, or its follower.\<close>

definition step_handler :: "'d \<Rightarrow> ('d, 'w) handler \<Rightarrow> 'w \<Rightarrow> ('d, 'w) handler list \<times> 'w" where
  "step_handler delta h w =
     (case tick delta (process_of h) w of
        (p, w1) \<Rightarrow>
          if alive p then ([\<lparr>process_of = p, next_chain = next_chain h\<rparr>], w1)
          else if finished p then
            (case next_chain h of
               [] \<Rightarrow> ([], w1)
             | c # cs \<Rightarrow> (case started c w1 of (q, w2) \<Rightarrow> ([\<lparr>process_of = q, next_chain = cs\<rparr>], w2)))
          else ([], w1))"

fun step_all :: "'d \<Rightarrow> ('d, 'w) handler list \<Rightarrow> 'w \<Rightarrow> ('d, 'w) handler list \<times> 'w" where
  "step_all delta [] w = ([], w)"
| "step_all delta (h # hs) w =
     (case step_all delta hs w of (kept, w1) \<Rightarrow>
        (case step_handler delta h w1 of (kept', w2) \<Rightarrow> (kept' @ kept, w2)))"

text \<open>
  Between updates a process runs, is paused, or was aborted and is still to be dropped; those that
  follow it did not start.
\<close>

definition handler_ok :: "('d, 'w) handler \<Rightarrow> bool" where
  "handler_ok h \<longleftrightarrow>
     current (process_of h) \<in> {Running, Paused, Aborted, Rejected} \<and> (\<forall>c \<in> set (next_chain h). current c = Uninitialized)"

definition scheduler_ok :: "('d, 'w) scheduler \<Rightarrow> bool" where
  "scheduler_ok hs \<longleftrightarrow> (\<forall>h \<in> set hs. handler_ok h)"

lemma scheduler_ok_simps [simp]:
  "scheduler_ok []" "scheduler_ok (h # hs) \<longleftrightarrow> handler_ok h \<and> scheduler_ok hs"
  "scheduler_ok (hs @ hs') \<longleftrightarrow> scheduler_ok hs \<and> scheduler_ok hs'"
  by (auto simp: scheduler_ok_def)

lemma scheduler_ok_mset: "mset hs = mset hs' \<Longrightarrow> scheduler_ok hs \<longleftrightarrow> scheduler_ok hs'"
  by (auto simp: scheduler_ok_def dest: mset_eq_setD)

lemma step_handler_ok: "handler_ok h \<Longrightarrow> scheduler_ok (fst (step_handler delta h w))"
  using tick_state [of delta "process_of h" w]
  by (auto simp: step_handler_def handler_ok_def alive_def started_def case_prod_beta split: list.splits)

lemma step_all_ok: "scheduler_ok hs \<Longrightarrow> scheduler_ok (fst (step_all delta hs w))"
  by (induction hs) (auto simp: case_prod_beta step_handler_ok)

lemma step_all_snoc:
  "step_all delta (hs @ [h]) w =
     (case step_handler delta h w of (kept, w1) \<Rightarrow> (case step_all delta hs w1 of (kept', w2) \<Rightarrow> (kept' @ kept, w2)))"
  by (induction hs arbitrary: w) (simp_all add: case_prod_beta)

lemma handler_update_ok:
  assumes "\<forall>c \<in> set (next_chain h). current c = Uninitialized"
  obtains p w1 where "tick delta (process_of h) w = (p, w1)"
    "handler_update delta h w = (\<not> alive p, \<lparr>process_of = p, next_chain = (if rejected p then [] else next_chain h)\<rparr>, w1)"
    "alive p \<or> finished p \<or> rejected p" "finished p \<Longrightarrow> \<not> rejected p \<and> \<not> alive p" "rejected p \<Longrightarrow> \<not> alive p"
proof -
  obtain p w1 where t: "tick delta (process_of h) w = (p, w1)" by fastforce
  then have "current p \<in> {Running, Paused, Finished, Rejected}" using tick_state [of delta "process_of h" w] by simp
  then show thesis using t by (intro that [of p w1]) (auto simp: handler_update_def alive_def finished_def rejected_def)
qed

lemma mset_swap_last: "mset (butlast ((xs @ h # ys)[length xs := last (xs @ h # ys)])) = mset xs + mset ys"
  by (cases ys rule: rev_cases) (simp_all add: butlast_append)

lemma update_loop_spec:
  assumes "scheduler_ok xs"
  shows "\<exists>hs'. scheduler_update_loop zero delta (length xs) (xs @ ys) w = Ret (hs', snd (step_all delta xs w)) \<and>
               mset hs' = mset (fst (step_all delta xs w)) + mset ys"
  using assms
proof (induction xs arbitrary: ys w rule: rev_induct)
  case (snoc h xs)
  have ok: "scheduler_ok xs" "\<forall>c \<in> set (next_chain h). current c = Uninitialized"
    using snoc.prems by (simp_all add: handler_ok_def)
  obtain p w1 where p: "tick delta (process_of h) w = (p, w1)"
    "handler_update delta h w = (\<not> alive p, \<lparr>process_of = p, next_chain = (if rejected p then [] else next_chain h)\<rparr>, w1)"
    "alive p \<or> finished p \<or> rejected p" "finished p \<Longrightarrow> \<not> rejected p \<and> \<not> alive p" "rejected p \<Longrightarrow> \<not> alive p"
    using handler_update_ok [OF ok(2)] by blast
  note IH = snoc.IH [OF ok(1)]
  show ?case
  proof (cases "finished p \<and> next_chain h \<noteq> []")
    case True
    then obtain c cs where c: "next_chain h = c # cs" "current c = Uninitialized" using ok(2) by (cases "next_chain h") auto
    obtain q w2 where q: "started c w1 = (q, w2)" by fastforce
    have "handler_update zero \<lparr>process_of = c, next_chain = cs\<rparr> w1 = (False, \<lparr>process_of = q, next_chain = cs\<rparr>, w2)"
      using q by (auto simp: handler_update_def tick_uninitialized c(2) started_def rejected_def finished_def)
    then show ?thesis using True p c q IH [of "\<lparr>process_of = q, next_chain = cs\<rparr> # ys" w2]
      by (auto simp: step_all_snoc step_handler_def case_prod_beta)
  next
    case False
    show ?thesis
    proof (cases "alive p")
      case True
      then show ?thesis using p IH [of "\<lparr>process_of = p, next_chain = next_chain h\<rparr> # ys" w1]
        by (auto simp: step_all_snoc step_handler_def case_prod_beta)
    next
      case dead: False
      define hs where "hs = butlast ((xs @ h # ys)[length xs := last (xs @ h # ys)])"
      obtain zs where zs: "hs = xs @ zs" "mset zs = mset ys"
        unfolding hs_def by (cases ys rule: rev_cases) (auto simp: butlast_append)
      have "step_handler delta h w = ([], w1)"
        using p False dead by (auto simp: step_handler_def split: list.splits)
      moreover have "(if rejected p then [] else next_chain h) = []" using p(3) False dead by auto
      ultimately show ?thesis using p(2) dead IH [of zs w1] zs
        by (simp add: step_all_snoc hs_def case_prod_beta)
    qed
  qed
qed simp

section \<open>Reachable schedulers\<close>

text \<open>Between calls the world may change in any way.\<close>

inductive scheduled :: "'d \<Rightarrow> ('d, 'w) scheduler \<times> 'w \<Rightarrow> bool" for zero where
  Fresh: "scheduled zero ([], w)"
| Attach: "scheduled zero (hs, w) \<Longrightarrow> scheduled zero (attach zero c hs w)"
| Then: "scheduled zero (hs, w) \<Longrightarrow> then_process c hs = Ret hs' \<Longrightarrow> scheduled zero (hs', w)"
| Update: "scheduled zero (hs, w) \<Longrightarrow> scheduler_update zero delta hs w = Ret s \<Longrightarrow> scheduled zero s"
| Abort: "scheduled zero (hs, w) \<Longrightarrow> scheduled zero (scheduler_abort immediate hs w)"
| Clear: "scheduled zero (hs, w) \<Longrightarrow> scheduled zero (scheduler_clear hs, w)"
| World: "scheduled zero (hs, w) \<Longrightarrow> scheduled zero (hs, w')"

lemma attach_eq:
  "attach zero c hs w =
     (hs @ [\<lparr>process_of = fst (started (process_new c) w), next_chain = []\<rparr>], snd (started (process_new c) w))"
proof -
  have "tick zero (process_new c) w = started (process_new c) w"
    by (rule tick_uninitialized) (simp add: process_new_def)
  then show ?thesis by (simp add: attach_def handler_update_def started_def case_prod_beta rejected_def)
qed

lemma handler_abort_eq:
  "handler_abort immediate h w =
     (if alive (process_of h)
      then (h\<lparr>process_of := (process_of h)\<lparr>current := (if immediate then Rejected else Aborted)\<rparr>\<rparr>,
            if immediate then told (aborted_hook (class_of (process_of h))) Aborted w else w)
      else (h, w))"
  by (simp add: handler_abort_def process_abort_def settle_def Let_def)

lemma scheduler_abort_ok: "scheduler_ok hs \<Longrightarrow> scheduler_ok (fst (scheduler_abort immediate hs w))"
  by (induction hs arbitrary: w) (auto simp: handler_abort_eq handler_ok_def case_prod_beta)

lemma scheduler_update_spec:
  "scheduler_ok hs \<Longrightarrow>
     \<exists>hs'. scheduler_update zero delta hs w = Ret (hs', snd (step_all delta hs w)) \<and>
           mset hs' = mset (fst (step_all delta hs w))"
  using update_loop_spec [of hs zero delta "[]" w] by (simp add: scheduler_update_def)

lemma then_process_ok:
  assumes "scheduler_ok hs" "then_process c hs = Ret hs'"
  shows "scheduler_ok hs'"
  using assms by (cases hs rule: rev_cases) (auto simp: then_process_def handler_ok_def process_new_def)

lemma scheduled_ok: "scheduled zero s \<Longrightarrow> scheduler_ok (fst s)"
proof (induction rule: scheduled.induct)
  case (Update hs w delta s)
  then show ?case using scheduler_update_spec [of hs zero delta w] step_all_ok [of hs delta w]
    by (auto dest: scheduler_ok_mset)
qed (auto simp: attach_eq started_def handler_ok_def then_process_ok scheduler_abort_ok scheduler_clear_def)

text \<open>\<open>notify\<close>: the process of the handler is told that it was aborted.\<close>

definition notify :: "('d, 'w) handler \<Rightarrow> 'w \<Rightarrow> 'w" where
  "notify h = told (aborted_hook (class_of (process_of h))) Aborted"

lemma step_handler_dead:
  "current (process_of h) \<in> {Aborted, Rejected} \<Longrightarrow>
     step_handler delta h w = ([], if current (process_of h) = Aborted then notify h w else w)"
  by (auto simp: step_handler_def tick_aborted tick_over notify_def alive_def finished_def rejected_def)

lemma step_all_dead:
  "\<forall>h \<in> set hs. current (process_of h) \<in> {Aborted, Rejected} \<Longrightarrow>
     step_all delta hs w = ([], fold notify (rev (filter (\<lambda>h. current (process_of h) = Aborted) hs)) w)"
  by (induction hs) (auto simp: step_handler_dead)

lemma aborted_handlers:
  assumes "scheduler_ok hs"
  shows "\<forall>h \<in> set (fst (scheduler_abort immediate hs w)). current (process_of h) \<in> {Aborted, Rejected}"
    "fold notify (rev (filter (\<lambda>h. current (process_of h) = Aborted) (fst (scheduler_abort immediate hs w)))) =
     fold notify (rev (filter (\<lambda>h. current (process_of h) = Aborted \<or> \<not> immediate \<and> alive (process_of h)) hs))"
    "snd (scheduler_abort immediate hs w) =
     fold notify (if immediate then filter (\<lambda>h. alive (process_of h)) hs else []) w"
  using assms
  by (induction hs arbitrary: w)
    (auto simp: handler_abort_eq handler_ok_def alive_def notify_def case_prod_beta)

text \<open>
  A concrete scheduler: process 1 succeeds and is followed by 2, process 3 goes on, process 4 fails
  and would be followed by 5. The world is the log of what they did.
\<close>

definition example_class :: "nat \<Rightarrow> process_call option \<Rightarrow> (unit, nat list) process_class" where
  "example_class n c =
     \<lparr>init_hook = Some (\<lambda>st w. Done (w @ [10 + n])),
      update_hook = Some (\<lambda>delta st w. case c of None \<Rightarrow> Done (w @ [n]) | Some call \<Rightarrow> Call call (w @ [n]) (\<lambda>st w. Done w)),
      succeeded_hook = None, failed_hook = None, aborted_hook = Some (\<lambda>st w. Done (w @ [20 + n]))\<rparr>"

definition example_handler :: "nat \<Rightarrow> process_call option \<Rightarrow> (nat \<times> process_call option) list \<Rightarrow> (unit, nat list) handler" where
  "example_handler n c cs =
     \<lparr>process_of = \<lparr>current = Running, class_of = example_class n c\<rparr>,
      next_chain = map (\<lambda>(m, d). process_new (example_class m d)) cs\<rparr>"

definition example_handlers :: "(unit, nat list) scheduler" where
  "example_handlers =
     [example_handler 1 (Some Succeed) [(2, None)], example_handler 3 None [],
      example_handler 4 (Some Fail) [(5, None)]]"

lemma attach_example:
  "attach zero (example_class n c) hs w = (hs @ [example_handler n c []], w @ [10 + n])"
  by (simp add: attach_eq started_def told_def example_class_def example_handler_def process_new_def)

lemma then_example:
  "then_process (example_class m d) (hs @ [example_handler n c cs]) = Ret (hs @ [example_handler n c (cs @ [(m, d)])])"
  by (simp add: then_process_def example_handler_def)

lemma scheduled_example: "scheduled () (example_handlers, [])"
proof -
  have a: "scheduled () (hs @ [example_handler n c []], [])" if "scheduled () (hs, [])" for hs n c
    using scheduled.World [OF scheduled.Attach [OF that, of "example_class n c", unfolded attach_example]] by blast
  have t: "scheduled () (hs @ [example_handler n c [(m, d)]], [])"
    if "scheduled () (hs @ [example_handler n c []], [])" for hs n c m d
    using scheduled.Then [OF that then_example [of m d]] by simp
  show ?thesis unfolding example_handlers_def
    using t [OF a [OF a [OF t [OF a [OF scheduled.Fresh]]]]] by simp
qed

section \<open>Properties\<close>

text \<open>
  C28. An update never leaves the list of handlers: it runs every process once, from the last to
  the first, and afterwards the scheduler holds, in some order, the processes that are still alive
  and the started followers of those that finished; a rejected process takes its followers with it.
\<close>

theorem scheduler_update_runs_each_once:
  "scheduled zero (hs, w) \<Longrightarrow>
     \<exists>hs'. scheduler_update zero delta hs w = Ret (hs', snd (step_all delta hs w)) \<and>
           mset hs' = mset (fst (step_all delta hs w))"
  by (rule scheduler_update_spec) (drule scheduled_ok, simp)

theorem scheduler_update_runs_each_once_witness:
  "\<exists>hs'. scheduler_update () () example_handlers [] = Ret (hs', [4, 3, 1, 12]) \<and>
         mset hs' = {#example_handler 2 None [], example_handler 3 None []#}"
proof -
  have "step_all () example_handlers [] = ([example_handler 2 None [], example_handler 3 None []], [4, 3, 1, 12])"
    by (simp add: example_handlers_def example_handler_def example_class_def step_handler_def tick_running
        run_hook_def call_defs alive_def settle_def finished_def started_def told_def process_new_def)
  then show ?thesis using scheduler_update_runs_each_once [OF scheduled_example, of "()"] by (simp add: add_mset_commute)
qed

text \<open>
  In every reachable scheduler the processes it holds have started and have not finished, and
  none of those that are to follow has started.
\<close>

theorem scheduler_states:
  "scheduled zero s \<Longrightarrow>
     (\<forall>h \<in> set (fst s). current (process_of h) \<in> {Running, Paused, Aborted, Rejected} \<and>
        (\<forall>c \<in> set (next_chain h). current c = Uninitialized))"
  by (drule scheduled_ok) (simp add: scheduler_ok_def handler_ok_def)

theorem scheduler_states_witness:
  "(example_handlers :: (unit, nat list) scheduler) \<noteq> [] \<and>
   list_all (\<lambda>h. current (process_of h) \<in> {Running, Paused, Aborted, Rejected} \<and>
      list_all (\<lambda>c. current c = Uninitialized) (next_chain h)) (example_handlers :: (unit, nat list) scheduler)"
  using scheduler_states [OF scheduled_example] by (simp add: list_all_iff example_handlers_def)

text \<open>
  After \<open>abort\<close> the next update empties the scheduler and starts none of the followers. Every
  process alive is told once that it was aborted: at once and from the first to the last with an
  immediate abort, in the update and from the last to the first otherwise.
\<close>

theorem scheduler_abort_drains:
  assumes "scheduled zero (hs, w)" "scheduler_abort immediate hs w = (hs1, w1)"
  shows "w1 = fold notify (if immediate then filter (\<lambda>h. alive (process_of h)) hs else []) w \<and>
    scheduler_update zero delta hs1 w1 =
      Ret ([], fold notify (rev (filter (\<lambda>h. current (process_of h) = Aborted \<or> \<not> immediate \<and> alive (process_of h)) hs)) w1)"
proof -
  have ok: "scheduler_ok hs" using scheduled_ok [OF assms(1)] by simp
  note a = aborted_handlers [OF ok, of immediate w, unfolded assms(2) fst_conv snd_conv]
  have "scheduler_ok hs1" using scheduler_abort_ok [OF ok, of immediate w] assms(2) by simp
  then show ?thesis
    using scheduler_update_spec [of hs1 zero delta w1] a by (auto simp: step_all_dead)
qed

theorem scheduler_abort_drains_witness:
  "(case scheduler_abort True example_handlers [] of (hs1, w1) \<Rightarrow>
      w1 = [21, 23, 24] \<and> scheduler_update () () hs1 w1 = Ret ([], w1)) \<and>
   (case scheduler_abort False example_handlers [] of (hs1, w1) \<Rightarrow>
      w1 = [] \<and> scheduler_update () () hs1 w1 = Ret ([], [24, 23, 21]))"
proof -
  have n: "notify (example_handler n c cs) w = w @ [20 + n]" "alive (process_of (example_handler n c cs))"
    "current (process_of (example_handler n c cs)) \<noteq> Aborted" for n c cs w
    by (simp_all add: notify_def example_handler_def example_class_def told_def alive_def)
  show ?thesis
    using scheduler_abort_drains [OF scheduled_example, of True _ _ "()"] scheduler_abort_drains [OF scheduled_example, of False _ _ "()"]
    by (auto simp: n example_handlers_def split: prod.splits)
qed

end
