(* ===== verification/Entity.thy ===== *)
theory Entity
  imports EnttCore
begin

unbundle bit_operations_syntax

text \<open>
  The identifiers of \<open>core/common/entt.hpp\<close> (\<open>entt_traits\<close>, \<open>null\<close> and \<open>tombstone\<close>), at the
  width of \<open>entt::entity\<close>: 32 bits, of which 20 name the entity and 12 count its versions. A
  version is kept in 16 bits. An enumeration value and its underlying integer are one word.
\<close>

section \<open>Identifiers\<close>

type_synonym entity = "32 word"

function popcount :: "32 word \<Rightarrow> int" where
  "popcount value = (if value \<noteq> 0 then uint (value AND 1) + popcount (drop_bit 1 value) else 0)"
  by pat_completeness auto
termination
proof (relation "measure unat")
  fix w :: "32 word"
  assume "w \<noteq> 0"
  then have "0 < unat w" by (simp add: unat_gt_0)
  then show "(drop_bit 1 w, w) \<in> measure unat" by (simp add: drop_bit_eq_div unat_div)
qed simp

declare popcount.simps [simp del]

definition entity_mask :: "32 word" where
  "entity_mask = 0xFFFFF"

definition version_mask :: "32 word" where
  "version_mask = 0xFFF"

definition entity_length :: nat where
  "entity_length = nat (popcount entity_mask)"

definition to_integral :: "entity \<Rightarrow> 32 word" where
  "to_integral value = value"

definition to_entity :: "entity \<Rightarrow> 32 word" where
  "to_entity value = to_integral value AND entity_mask"

definition to_version :: "entity \<Rightarrow> 16 word" where
  "to_version value = ucast ((ucast (ucast (drop_bit entity_length (to_integral value)) :: 16 word) :: 32 word) AND version_mask)"

definition construct :: "32 word \<Rightarrow> 16 word \<Rightarrow> entity" where
  "construct ent version = (ent AND entity_mask) OR push_bit entity_length (ucast version AND version_mask)"

text \<open>The successor; the sum is computed in \<open>int\<close>, where it does not overflow.\<close>

definition next_version :: "entity \<Rightarrow> entity" where
  "next_version value =
     (let vers = ucast (to_version value) + 1 :: 32 word in
      construct (to_integral value) (ucast (vers + (if vers = version_mask then 1 else 0))))"

definition combine :: "32 word \<Rightarrow> 32 word \<Rightarrow> entity" where
  "combine lhs rhs = (lhs AND entity_mask) OR (rhs AND push_bit entity_length version_mask)"

definition null_entity :: entity where
  "null_entity = construct entity_mask (ucast version_mask)"

definition tombstone_entity :: entity where
  "tombstone_entity = construct entity_mask (ucast version_mask)"

text \<open>\<open>null\<close> is compared by entity, \<open>tombstone\<close> by version.\<close>

definition is_null :: "entity \<Rightarrow> bool" where
  "is_null e \<longleftrightarrow> to_entity e = to_entity null_entity"

definition is_tombstone :: "entity \<Rightarrow> bool" where
  "is_tombstone e \<longleftrightarrow> to_version e = to_version tombstone_entity"

section \<open>Lemmas\<close>

lemma entity_length_eq [simp]: "entity_length = 20"
proof -
  have step: "popcount (mask (Suc n)) = 1 + popcount (mask n)" if "n < 32" for n
  proof -
    have "(mask (Suc n) :: 32 word) \<noteq> 0" by (simp add: mask_eq_0_iff)
    moreover have "drop_bit 1 (mask (Suc n) :: 32 word) = mask n"
      by (rule bit_eqI) (use that in \<open>auto simp: bit_drop_bit_eq bit_mask_iff\<close>)
    moreover have "(mask (Suc n) :: 32 word) AND 1 = 1" by (rule bit_eqI) (auto simp: bit_and_iff bit_mask_iff bit_1_iff)
    ultimately show ?thesis by (subst popcount.simps) simp
  qed
  have "popcount (mask n) = int n" if "n \<le> 32" for n
    using that
  proof (induction n)
    case 0
    then show ?case by (subst popcount.simps) simp
  next
    case (Suc n)
    then show ?case using step [of n] by simp
  qed
  from this [of 20] have "popcount (mask 20) = 20" by simp
  moreover have "entity_mask = mask 20" by (simp add: entity_mask_def mask_eq_exp_minus_1)
  ultimately show ?thesis by (simp add: entity_length_def)
qed


text \<open>The parts of a word, bit by bit.\<close>

lemma entity_mask_eq: "entity_mask = mask 20"
  by (simp add: entity_mask_def mask_eq_exp_minus_1)

lemma version_mask_eq: "version_mask = mask 12"
  by (simp add: version_mask_def mask_eq_exp_minus_1)

lemma bit_to_entity: "bit (to_entity e) i \<longleftrightarrow> i < 20 \<and> bit e i"
  by (auto simp: to_entity_def to_integral_def entity_mask_eq bit_and_iff bit_mask_iff)

lemma bit_to_version: "bit (to_version e) i \<longleftrightarrow> i < 12 \<and> bit e (20 + i)"
  by (auto simp: to_version_def to_integral_def version_mask_eq bit_and_iff bit_mask_iff bit_ucast_iff bit_drop_bit_eq ac_simps)

lemma bit_construct:
  "bit (construct n v) i \<longleftrightarrow> (if i < 20 then bit n i else i < 32 \<and> bit v (i - 20))"
  by (auto simp: construct_def entity_mask_eq version_mask_eq bit_and_iff bit_or_iff bit_mask_iff bit_push_bit_iff bit_ucast_iff
      dest: bit_imp_le_length)

lemma bit_combine: "bit (combine l r) i \<longleftrightarrow> bit (if i < 20 then l else r) i"
  by (auto simp: combine_def entity_mask_eq version_mask_eq bit_and_iff bit_or_iff bit_mask_iff bit_push_bit_iff
      dest: bit_imp_le_length)

lemma to_entity_construct [simp]: "to_entity (construct n v) = to_entity n"
  by (rule bit_eqI) (simp add: bit_to_entity bit_construct)

lemma to_version_construct: "to_version (construct n v) = v AND mask 12"
  by (rule bit_eqI) (auto simp: bit_to_version bit_construct bit_and_iff bit_mask_iff)

lemma construct_parts [simp]: "construct (to_entity e) (to_version e) = e"
  by (rule bit_eqI) (auto simp: bit_construct bit_to_entity bit_to_version)

lemma to_entity_combine [simp]: "to_entity (combine l r) = to_entity l"
  by (rule bit_eqI) (simp add: bit_to_entity bit_combine)

lemma to_version_combine [simp]: "to_version (combine l r) = to_version r"
  by (rule bit_eqI) (simp add: bit_to_version bit_combine)

lemma entity_eqI: "to_entity a = to_entity b \<Longrightarrow> to_version a = to_version b \<Longrightarrow> a = b"
  by (metis construct_parts)

lemma to_entity_idem [simp]: "to_entity (to_entity e) = to_entity e"
  by (rule bit_eqI) (simp add: bit_to_entity)

lemma to_entity_unat: "unat (to_entity e) = unat e mod 2 ^ 20"
  by (simp add: to_entity_def to_integral_def entity_mask_eq take_bit_eq_mask [symmetric] unsigned_take_bit_eq, simp add: take_bit_eq_mod)

lemma to_entity_small: "unat e < 2 ^ 20 \<Longrightarrow> to_entity e = e"
  by (rule word_unat_eq_iff [THEN iffD2]) (simp add: to_entity_unat)

lemma to_version_unat: "unat (to_version e) = unat e div 2 ^ 20"
proof -
  have "to_version e = ucast (drop_bit 20 e)"
    by (rule bit_eqI) (auto simp: bit_to_version bit_ucast_iff bit_drop_bit_eq dest: bit_imp_le_length)
  moreover have "unat e div 2 ^ 20 < 2 ^ 16" using unat_bounds(2) [of e] by simp
  ultimately show ?thesis by (simp add: unsigned_ucast_eq unsigned_drop_bit_eq take_bit_eq_mod drop_bit_eq_div unat_div)
qed

lemma null_bits: "null_entity = - 1" "tombstone_entity = - 1"
  by (simp_all add: null_entity_def tombstone_entity_def construct_def entity_mask_def version_mask_def)

lemma is_null_iff: "is_null e \<longleftrightarrow> to_entity e = entity_mask"
  by (simp add: is_null_def to_entity_def to_integral_def null_bits)

lemma is_tombstone_iff: "is_tombstone e \<longleftrightarrow> to_version e = mask 12"
proof -
  have "to_version tombstone_entity = mask 12" by (rule bit_eqI) (auto simp: bit_to_version bit_mask_iff null_bits)
  then show ?thesis by (simp add: is_tombstone_def)
qed

section \<open>Versions\<close>

lemma to_entity_next [simp]: "to_entity (next_version e) = to_entity e"
  by (simp add: next_version_def Let_def to_integral_def)

lemma version_less: "unat (to_version e) < 4096"
  using unat_bounds(2) [of e] by (simp add: to_version_unat div_less_iff_less_mult)

lemma to_version_next:
  "unat (to_version (next_version e)) = (if unat (to_version e) < 4094 then unat (to_version e) + 1 else 0)"
proof -
  let ?v = "unat (to_version e)"
  let ?w = "ucast (to_version e) + 1 :: 32 word"
  have w: "unat ?w = ?v + 1" using version_less [of e] by (simp add: unat_plus_if' unsigned_ucast_eq take_bit_eq_mod)
  have eq: "?w = version_mask \<longleftrightarrow> ?v = 4094" unfolding word_unat_eq_iff w by (simp add: version_mask_def)
  have "to_version (next_version e) = ucast (?w + (if ?w = version_mask then 1 else 0)) AND mask 12"
    by (simp add: next_version_def Let_def to_version_construct)
  moreover have "unat (?w + (if ?w = version_mask then 1 else 0)) = ?v + 1 + (if ?v = 4094 then 1 else 0)"
    using w version_less [of e] by (simp add: eq unat_plus_if')
  ultimately have eqn: "unat (to_version (next_version e)) = (?v + 1 + (if ?v = 4094 then 1 else 0)) mod 2 ^ 16 mod 2 ^ 12"
    by (simp only: take_bit_eq_mask [symmetric] unsigned_take_bit_eq unsigned_ucast_eq) (simp add: take_bit_eq_mod)
  consider "?v < 4094" | "?v = 4094" | "?v = 4095" using version_less [of e] by linarith
  then show ?thesis unfolding eqn by cases simp_all
qed

lemma next_not_tombstone: "\<not> is_tombstone (next_version e)"
  using to_version_next [of e] by (auto simp: is_tombstone_iff mask_eq_exp_minus_1 split: if_splits)

lemma next_iterate:
  assumes "unat (to_version e) < 4095"
  shows "unat (to_version ((next_version ^^ n) e)) = (unat (to_version e) + n) mod 4095 \<and> to_entity ((next_version ^^ n) e) = to_entity e"
proof (induction n)
  case 0
  then show ?case using assms by simp
next
  case (Suc n)
  then show ?case by (auto simp: to_version_next mod_Suc)
qed

text \<open>
  An identifier is its two parts: building it from them and taking it apart are inverse,
  and combining takes the entity of one and the version of the other. The successor names the
  same entity, is never a tombstone, and leads back to a live identifier after exactly 4095
  steps: the version of the tombstone is the only one that is left out.
\<close>

theorem identifier_versions:
  "construct (to_entity e) (to_version e) = e \<and>
   combine a b = construct (to_entity a) (to_version b) \<and>
   to_entity (next_version e) = to_entity e \<and> \<not> is_tombstone (next_version e) \<and>
   (is_tombstone e \<or> ((next_version ^^ n) e = e) = (4095 dvd n))"
proof -
  have "((next_version ^^ n) e = e) = (4095 dvd n)" if "\<not> is_tombstone e"
  proof -
    have "to_version e \<noteq> mask 12" using that by (simp add: is_tombstone_iff)
    then have "unat (to_version e) \<noteq> 4095" unfolding word_unat_eq_iff by (simp add: mask_eq_exp_minus_1)
    with version_less [of e] have v: "unat (to_version e) < 4095" by simp
    have "(next_version ^^ n) e = e \<longleftrightarrow> unat (to_version ((next_version ^^ n) e)) = unat (to_version e)"
      using conjunct2 [OF next_iterate [OF v, of n]] entity_eqI [of "(next_version ^^ n) e" e] by (metis word_unat_eq_iff)
    also have "\<dots> \<longleftrightarrow> (unat (to_version e) + n) mod 4095 = unat (to_version e)" using next_iterate [OF v, of n] by simp
    also have "\<dots> \<longleftrightarrow> (unat (to_version e) + n) mod 4095 = (unat (to_version e) + 0) mod 4095" using v by simp
    also have "\<dots> \<longleftrightarrow> 4095 dvd n" using mod_eq_dvd_iff_nat [of "unat (to_version e)" "unat (to_version e) + n" 4095] by simp
    finally show ?thesis .
  qed
  moreover have "combine a b = construct (to_entity a) (to_version b)"
    by (rule entity_eqI) (simp_all add: to_version_construct, rule bit_eqI, auto simp: bit_to_version bit_and_iff bit_mask_iff)
  ultimately show ?thesis using next_not_tombstone [of e] construct_parts [of e] to_entity_next [of e] by blast
qed

end
