(* ===== verification/SparseSet.thy ===== *)
theory SparseSet
  imports Entity
begin

unbundle bit_operations_syntax

text \<open>
  The sparse set of \<open>core/common/entt.hpp\<close> (\<open>basic_sparse_set\<close>), for the identifiers of theory
  Entity and with all three deletion policies. The sparse array is a vector of pages, each of
  them absent or an array; the packed array holds the identifiers. A reference into a page is
  the pair of the page and the offset. An iterator is its \<open>offset\<close>, one more than the position
  it stands for: it goes down to 0, the end. Failing assertions abort; reads and writes outside
  a vector are undefined; allocation does not fail.
\<close>

section \<open>Data\<close>

datatype deletion_policy = Swap_and_pop | In_place | Swap_only

record sparse_set =
  pages :: "entity list option list"
  elements :: "entity list"
  mode :: deletion_policy
  head :: "32 word"

definition page_size :: nat where
  "page_size = 4096"

definition policy_to_head :: "deletion_policy \<Rightarrow> 32 word" where
  "policy_to_head pol = entity_mask * (if pol \<noteq> Swap_only then 1 else 0)"

definition ss_new :: "deletion_policy \<Rightarrow> sparse_set" where
  "ss_new pol = \<lparr>pages = [], elements = [], mode = pol, head = policy_to_head pol\<rparr>"

section \<open>The sparse array\<close>

definition sparse_ptr :: "sparse_set \<Rightarrow> entity \<Rightarrow> (nat \<times> nat) option outcome" where
  "sparse_ptr s e =
     (let pos = unat (to_entity e); page = pos div page_size in
      if page < length (pages s) \<and> pages s ! page \<noteq> None
      then obind (fast_mod (of_nat pos) (of_nat page_size)) (\<lambda>off. Ret (Some (page, unat off)))
      else Ret None)"

definition sparse_ref :: "sparse_set \<Rightarrow> entity \<Rightarrow> (nat \<times> nat) outcome" where
  "sparse_ref s e =
     obind (sparse_ptr s e) (\<lambda>ptr. entt_assert (ptr \<noteq> None)
       (let pos = unat (to_entity e) in
        obind (fast_mod (of_nat pos) (of_nat page_size)) (\<lambda>off. Ret (pos div page_size, unat off))))"

definition read_ref :: "sparse_set \<Rightarrow> nat \<times> nat \<Rightarrow> entity outcome" where
  "read_ref s r =
     (if fst r < length (pages s)
      then case pages s ! fst r of
             Some p \<Rightarrow> if snd r < length p then Ret (p ! snd r) else Undefined
           | None \<Rightarrow> Undefined
      else Undefined)"

definition write_ref :: "nat \<times> nat \<Rightarrow> entity \<Rightarrow> sparse_set \<Rightarrow> sparse_set outcome" where
  "write_ref r v s =
     (if fst r < length (pages s)
      then case pages s ! fst r of
             Some p \<Rightarrow> if snd r < length p then Ret (s\<lparr>pages := (pages s)[fst r := Some (p[snd r := v])]\<rparr>) else Undefined
           | None \<Rightarrow> Undefined
      else Undefined)"

text \<open>The page of an identifier is made when it is needed, filled with null.\<close>

definition assure_at_least :: "entity \<Rightarrow> sparse_set \<Rightarrow> ((nat \<times> nat) \<times> sparse_set) outcome" where
  "assure_at_least e s =
     (let pos = unat (to_entity e); page = pos div page_size;
          ps1 = (if page < length (pages s) then pages s
                 else pages s @ replicate (page + 1 - length (pages s)) None);
          ps2 = (if ps1 ! page = None then ps1[page := Some (replicate page_size null_entity)] else ps1) in
      obind (fast_mod (of_nat pos) (of_nat page_size)) (\<lambda>off. Ret ((page, unat off), s\<lparr>pages := ps2\<rparr>)))"

definition release_sparse_pages :: "sparse_set \<Rightarrow> sparse_set" where
  "release_sparse_pages s = s\<lparr>pages := map (\<lambda>page. None) (pages s)\<rparr>"

definition extent :: "sparse_set \<Rightarrow> nat" where
  "extent s = length (pages s) * page_size"

section \<open>The packed array\<close>

definition read_at :: "nat \<Rightarrow> sparse_set \<Rightarrow> entity outcome" where
  "read_at pos s = (if pos < length (elements s) then Ret (elements s ! pos) else Undefined)"

definition write_at :: "nat \<Rightarrow> entity \<Rightarrow> sparse_set \<Rightarrow> sparse_set outcome" where
  "write_at pos e s = (if pos < length (elements s) then Ret (s\<lparr>elements := (elements s)[pos := e]\<rparr>) else Undefined)"

definition deref :: "nat \<Rightarrow> sparse_set \<Rightarrow> entity outcome" where
  "deref it s = (if 0 < it then read_at (it - 1) s else Undefined)"

section \<open>Queries\<close>

definition contains :: "sparse_set \<Rightarrow> entity \<Rightarrow> bool outcome" where
  "contains s e =
     obind (sparse_ptr s e) (\<lambda>elem.
       case elem of
         None \<Rightarrow> Ret False
       | Some r \<Rightarrow>
           (let cap = entity_mask; ver = to_integral null_entity AND NOT cap in
            obind (read_ref s r) (\<lambda>v. Ret ((ver AND to_integral e) XOR to_integral v < cap))))"

definition current_version :: "sparse_set \<Rightarrow> entity \<Rightarrow> 16 word outcome" where
  "current_version s e =
     obind (sparse_ptr s e) (\<lambda>elem.
       case elem of
         None \<Rightarrow> Ret (to_version tombstone_entity)
       | Some r \<Rightarrow> obind (read_ref s r) (\<lambda>v. Ret (to_version v)))"

definition index :: "sparse_set \<Rightarrow> entity \<Rightarrow> nat outcome" where
  "index s e =
     obind (contains s e) (\<lambda>found. entt_assert found
       (obind (sparse_ref s e) (\<lambda>r. obind (read_ref s r) (\<lambda>v. Ret (unat (to_entity v))))))"

definition to_iterator :: "sparse_set \<Rightarrow> entity \<Rightarrow> nat outcome" where
  "to_iterator s e = obind (index s e) (\<lambda>pos. Ret (pos + 1))"

definition ss_find :: "sparse_set \<Rightarrow> entity \<Rightarrow> nat outcome" where
  "ss_find s e = obind (contains s e) (\<lambda>found. if found then to_iterator s e else Ret 0)"

definition begin_from :: "sparse_set \<Rightarrow> nat" where
  "begin_from s = length (elements s)"

definition begin_live :: "sparse_set \<Rightarrow> nat" where
  "begin_live s = (if mode s = Swap_only then unat (head s) else begin_from s)"

definition at_or_null :: "nat \<Rightarrow> sparse_set \<Rightarrow> entity" where
  "at_or_null pos s = (if pos < length (elements s) then elements s ! pos else null_entity)"

definition subscript :: "nat \<Rightarrow> sparse_set \<Rightarrow> entity outcome" where
  "subscript pos s = entt_assert (pos < length (elements s)) (read_at pos s)"

definition contiguous :: "sparse_set \<Rightarrow> bool" where
  "contiguous s \<longleftrightarrow> mode s \<noteq> In_place \<or> head s = to_entity null_entity"

definition free_list :: "sparse_set \<Rightarrow> nat" where
  "free_list s = unat (head s)"

definition set_free_list :: "nat \<Rightarrow> sparse_set \<Rightarrow> sparse_set outcome" where
  "set_free_list len s =
     entt_assert (mode s = Swap_only \<and> \<not> length (elements s) < len) (Ret (s\<lparr>head := of_nat len\<rparr>))"

section \<open>Moving elements\<close>

definition swap_at :: "nat \<Rightarrow> nat \<Rightarrow> sparse_set \<Rightarrow> sparse_set outcome" where
  "swap_at from_pos to_pos s =
     obind (read_at from_pos s) (\<lambda>lhs. obind (read_at to_pos s) (\<lambda>rhs.
     obind (sparse_ref s lhs) (\<lambda>r1. obind (write_ref r1 (combine (of_nat to_pos) (to_integral lhs)) s) (\<lambda>s1.
     obind (sparse_ref s1 rhs) (\<lambda>r2. obind (write_ref r2 (combine (of_nat from_pos) (to_integral rhs)) s1) (\<lambda>s2.
       Ret (s2\<lparr>elements := (elements s2)[from_pos := rhs, to_pos := lhs]\<rparr>)))))))"

definition swap_or_move :: "nat \<Rightarrow> nat \<Rightarrow> sparse_set \<Rightarrow> sparse_set outcome" where
  "swap_or_move lhs rhs s =
     entt_assert (mode s \<noteq> Swap_only \<or>
       (if lhs < free_list s then 1 else 0) + (if rhs < free_list s then 1 else 0) \<noteq> (1 :: nat)) (Ret s)"

definition bump :: "entity \<Rightarrow> sparse_set \<Rightarrow> (16 word \<times> sparse_set) outcome" where
  "bump e s =
     obind (sparse_ref s e) (\<lambda>r. obind (read_ref s r) (\<lambda>ent.
     entt_assert (\<not> is_tombstone e \<and> \<not> is_null ent)
       (let ent' = combine (to_integral ent) (to_integral e) in
        obind (write_ref r ent' s) (\<lambda>s1.
        obind (write_at (unat (to_entity ent')) e s1) (\<lambda>s2. Ret (to_version e, s2))))))"

definition swap_elements :: "entity \<Rightarrow> entity \<Rightarrow> sparse_set \<Rightarrow> sparse_set outcome" where
  "swap_elements lhs rhs s =
     obind (index s lhs) (\<lambda>from_pos. obind (index s rhs) (\<lambda>to_pos.
     obind (swap_or_move from_pos to_pos s) (swap_at from_pos to_pos)))"

definition ss_swap :: "sparse_set \<Rightarrow> sparse_set \<Rightarrow> sparse_set \<times> sparse_set" where
  "ss_swap a b = (b, a)"

section \<open>Removing\<close>

definition swap_and_pop :: "nat \<Rightarrow> sparse_set \<Rightarrow> sparse_set outcome" where
  "swap_and_pop it s =
     entt_assert (mode s = Swap_and_pop)
       (obind (deref it s) (\<lambda>e. obind (sparse_ref s e) (\<lambda>self. obind (read_ref s self) (\<lambda>v.
        let ent = to_entity v; back = last (elements s) in
        obind (sparse_ref s back) (\<lambda>r. obind (write_ref r (combine ent (to_integral back)) s) (\<lambda>s1.
        obind (write_at (unat ent) back s1) (\<lambda>s2.
        obind (write_at (length (elements s2) - 1) null_entity s2) (\<lambda>s3.
        obind (write_ref self null_entity s3) (\<lambda>s4.
          Ret (s4\<lparr>elements := butlast (elements s4)\<rparr>))))))))))"

definition in_place_pop :: "nat \<Rightarrow> sparse_set \<Rightarrow> sparse_set outcome" where
  "in_place_pop it s =
     entt_assert (mode s = In_place)
       (obind (deref it s) (\<lambda>e. obind (sparse_ref s e) (\<lambda>r. obind (read_ref s r) (\<lambda>v.
        let ent = to_entity v in
        obind (write_ref r null_entity s) (\<lambda>s1.
          write_at (unat ent) (combine (head s1) tombstone_entity) (s1\<lparr>head := ent\<rparr>))))))"

definition swap_only :: "nat \<Rightarrow> sparse_set \<Rightarrow> sparse_set outcome" where
  "swap_only it s =
     entt_assert (mode s = Swap_only)
       (obind (deref it s) (\<lambda>e. obind (index s e) (\<lambda>i. let pos = of_nat i :: 32 word in
        obind (deref it s) (\<lambda>e. obind (bump (next_version e) s) (\<lambda>(v, s1).
        let head' = head s1 - (if pos < head s1 then 1 else 0) in
          swap_at (unat pos) (unat head') (s1\<lparr>head := head'\<rparr>))))))"

definition pop_one :: "nat \<Rightarrow> sparse_set \<Rightarrow> sparse_set outcome" where
  "pop_one it s = (case mode s of Swap_and_pop \<Rightarrow> swap_and_pop it s | In_place \<Rightarrow> in_place_pop it s | Swap_only \<Rightarrow> swap_only it s)"

text \<open>The loop over \<open>[first, last)\<close>; an iterator that passes the end leaves the vector.\<close>

fun pop :: "nat \<Rightarrow> nat \<Rightarrow> sparse_set \<Rightarrow> sparse_set outcome" where
  "pop first_it last_it s =
     (if first_it = last_it then Ret s
      else case first_it of
             0 \<Rightarrow> Undefined
           | Suc n \<Rightarrow> obind (pop_one first_it s) (pop n last_it))"

declare pop.simps [simp del]

definition erase :: "entity \<Rightarrow> sparse_set \<Rightarrow> sparse_set outcome" where
  "erase e s = obind (to_iterator s e) (\<lambda>it. pop it (it - 1) s)"

definition remove :: "entity \<Rightarrow> sparse_set \<Rightarrow> (bool \<times> sparse_set) outcome" where
  "remove e s =
     obind (contains s e) (\<lambda>found. if found then obind (erase e s) (\<lambda>s'. Ret (True, s')) else Ret (False, s))"


section \<open>Inserting\<close>

definition append_element :: "nat \<times> nat \<Rightarrow> entity \<Rightarrow> sparse_set \<Rightarrow> sparse_set outcome" where
  "append_element r e s =
     (let s1 = s\<lparr>elements := elements s @ [e]\<rparr> in
      obind (read_ref s1 r) (\<lambda>elem. entt_assert (is_null elem)
        (write_ref r (combine (of_nat (length (elements s1) - 1)) (to_integral e)) s1)))"

definition reuse_slot :: "nat \<times> nat \<Rightarrow> entity \<Rightarrow> sparse_set \<Rightarrow> (nat \<times> sparse_set) outcome" where
  "reuse_slot r e s =
     (let pos = unat (head s) in
      obind (read_ref s r) (\<lambda>elem. entt_assert (is_null elem)
        (obind (write_ref r (combine (head s) (to_integral e)) s) (\<lambda>s1.
         obind (read_at pos s1) (\<lambda>old. Ret (pos, s1\<lparr>elements := (elements s1)[pos := e], head := to_entity old\<rparr>))))))"

definition emplace_swap_only :: "nat \<times> nat \<Rightarrow> entity \<Rightarrow> bool \<Rightarrow> sparse_set \<Rightarrow> (nat \<times> sparse_set) outcome" where
  "emplace_swap_only r e force_back s =
     (let pos = length (elements s) in
      obind (read_ref s r) (\<lambda>elem.
      obind (if is_null elem
             then (let s1 = s\<lparr>elements := elements s @ [e]\<rparr> in
                   write_ref r (combine (of_nat (length (elements s1) - 1)) (to_integral e)) s1)
             else entt_assert (\<not> to_entity elem < head s) (obind (bump e s) (\<lambda>(v, s1). Ret s1))) (\<lambda>s2.
      if force_back
      then (let pos = unat (head s2) in
            obind (read_ref s2 r) (\<lambda>elem.
            obind (swap_at (unat (to_entity elem)) pos (s2\<lparr>head := head s2 + 1\<rparr>)) (\<lambda>s3. Ret (pos, s3))))
      else Ret (pos, s2))))"

text \<open>The answer is the iterator \<open>--(end() - pos)\<close>.\<close>

definition try_emplace :: "entity \<Rightarrow> bool \<Rightarrow> sparse_set \<Rightarrow> (nat \<times> sparse_set) outcome" where
  "try_emplace e force_back s =
     obind (assure_at_least e s) (\<lambda>(r, s1).
     obind (case mode s1 of
         In_place \<Rightarrow>
           if head s1 \<noteq> to_entity null_entity \<and> \<not> force_back then reuse_slot r e s1
           else obind (append_element r e s1) (\<lambda>s2. Ret (length (elements s1), s2))
       | Swap_and_pop \<Rightarrow> obind (append_element r e s1) (\<lambda>s2. Ret (length (elements s1), s2))
       | Swap_only \<Rightarrow> emplace_swap_only r e force_back s1) (\<lambda>(pos, s2). Ret (pos + 1, s2)))"

definition push :: "entity \<Rightarrow> sparse_set \<Rightarrow> (nat \<times> sparse_set) outcome" where
  "push e s = try_emplace e (mode s = Swap_only) s"

fun push_each :: "entity list \<Rightarrow> sparse_set \<Rightarrow> sparse_set outcome" where
  "push_each [] s = Ret s"
| "push_each (e # es) s = obind (try_emplace e True s) (\<lambda>(it, s'). push_each es s')"

definition push_range :: "entity list \<Rightarrow> sparse_set \<Rightarrow> (nat \<times> sparse_set) outcome" where
  "push_range es s =
     obind (push_each es s) (\<lambda>s'. case es of [] \<Rightarrow> Ret (0, s') | e # _ \<Rightarrow> obind (ss_find s' e) (\<lambda>it. Ret (it, s')))"

section \<open>Removing many\<close>

fun erase_each :: "entity list \<Rightarrow> sparse_set \<Rightarrow> sparse_set outcome" where
  "erase_each [] s = Ret s"
| "erase_each (e # es) s = obind (erase e s) (erase_each es)"

fun remove_each :: "entity list \<Rightarrow> nat \<Rightarrow> sparse_set \<Rightarrow> (nat \<times> sparse_set) outcome" where
  "remove_each [] n s = Ret (n, s)"
| "remove_each (e # es) n s = obind (remove e s) (\<lambda>(b, s'). remove_each es (n + (if b then 1 else 0)) s')"

text \<open>Removing a range of the set's own iterators erases it in runs of contained elements.\<close>

fun skip_while :: "bool \<Rightarrow> sparse_set \<Rightarrow> nat \<Rightarrow> nat \<Rightarrow> nat outcome" where
  "skip_while b s last_it first_it =
     (if first_it = last_it then Ret first_it
      else case first_it of
             0 \<Rightarrow> Undefined
           | Suc n \<Rightarrow> obind (deref first_it s) (\<lambda>e. obind (contains s e) (\<lambda>found.
               if found = b then skip_while b s last_it n else Ret first_it)))"

declare skip_while.simps [simp del]

lemma skip_while_le: "skip_while b s l f = Ret f' \<Longrightarrow> f' \<le> f"
proof (induction b s l f rule: skip_while.induct)
  case (1 b s l f)
  show ?case
  proof (cases "f = l \<or> f = 0")
    case True
    with 1(2) show ?thesis by (subst (asm) skip_while.simps) (auto split: if_splits)
  next
    case False
    then obtain n where n: "f = Suc n" "f \<noteq> l" by (cases f) auto
    with 1(2) obtain e found where ef: "deref f s = Ret e" "contains s e = Ret found"
        "(if found = b then skip_while b s l n else Ret f) = Ret f'"
      by (subst (asm) skip_while.simps) (auto simp: obind_eq_Ret_iff)
    show ?thesis
    proof (cases "found = b")
      case True
      with 1(1) [OF n(2) n(1), of e found] ef n show ?thesis by simp
    qed (use ef in simp)
  qed
qed

lemma skip_while_progress:
  assumes "skip_while False s l f = Ret f1" "skip_while True s l f1 = Ret f2" "f \<noteq> l"
  shows "f2 < f"
proof (cases "f1 = f")
  case False
  then show ?thesis using skip_while_le [OF assms(1)] skip_while_le [OF assms(2)] by simp
next
  case True
  with assms obtain n where n: "f = Suc n" by (cases f) (simp_all add: skip_while.simps)
  with assms(1,3) True obtain e found where ef: "deref f s = Ret e" "contains s e = Ret found"
      "(if found = False then skip_while False s l n else Ret f) = Ret f"
    by (subst (asm) skip_while.simps) (auto simp: obind_eq_Ret_iff)
  have found
  proof (rule ccontr)
    assume "\<not> found"
    with ef(3) skip_while_le [of False s l n f] n show False by simp
  qed
  with ef assms(2,3) True n have "skip_while True s l n = Ret f2" by (subst (asm) (2) skip_while.simps) simp
  with skip_while_le n show ?thesis by fastforce
qed

function remove_run :: "nat \<Rightarrow> nat \<Rightarrow> nat \<Rightarrow> sparse_set \<Rightarrow> (nat \<times> sparse_set) outcome" where
  "remove_run first_it last_it n s =
     (if first_it = last_it then Ret (n, s)
      else obind (skip_while False s last_it first_it) (\<lambda>it. obind (skip_while True s last_it it) (\<lambda>upto.
        obind (pop it upto s) (remove_run upto last_it (n + (it - upto))))))"
  by pat_completeness auto
termination
  by (relation "measure (\<lambda>(first_it, last_it, n, s). first_it)") (auto intro: skip_while_progress)

declare remove_run.simps [simp del]


section \<open>Clearing, compacting and sorting\<close>

fun null_refs :: "bool \<Rightarrow> entity list \<Rightarrow> sparse_set \<Rightarrow> sparse_set outcome" where
  "null_refs skip_tombstones [] s = Ret s"
| "null_refs skip_tombstones (e # es) s =
     (if skip_tombstones \<and> is_tombstone e then null_refs skip_tombstones es s
      else obind (sparse_ref s e) (\<lambda>r. obind (write_ref r null_entity s) (null_refs skip_tombstones es)))"

definition pop_all :: "sparse_set \<Rightarrow> sparse_set outcome" where
  "pop_all s =
     obind (null_refs (mode s = In_place \<and> head s \<noteq> to_entity null_entity) (rev (elements s)) s) (\<lambda>s1.
       Ret (s1\<lparr>head := policy_to_head (mode s1), elements := []\<rparr>))"

fun trim_tombstones :: "entity list \<Rightarrow> nat \<Rightarrow> nat" where
  "trim_tombstones es from_pos =
     (case from_pos of 0 \<Rightarrow> 0 | Suc n \<Rightarrow> if is_tombstone (es ! n) then trim_tombstones es n else from_pos)"

declare trim_tombstones.simps [simp del]

text \<open>The loop follows the free list; \<open>None\<close> is a loop that does not end.\<close>

partial_function (option) compact_loop :: "32 word \<Rightarrow> nat \<Rightarrow> sparse_set \<Rightarrow> (nat \<times> sparse_set) outcome option" where
  "compact_loop pos from_pos s =
     (if pos = to_entity null_entity then Some (Ret (from_pos, s))
      else if unat pos < length (elements s)
      then (let to_pos = unat pos; pos' = to_entity (elements s ! to_pos) in
        if to_pos < from_pos
        then (let from' = from_pos - 1; moved = elements s ! from'; s1 = s\<lparr>elements := (elements s)[to_pos := moved]\<rparr> in
              case obind (swap_or_move from' to_pos s) (\<lambda>s0.
                   obind (sparse_ref s1 moved) (\<lambda>r. write_ref r (combine (of_nat to_pos) (to_integral moved)) s1)) of
                Ret s2 \<Rightarrow> compact_loop pos' (trim_tombstones (elements s2) from') s2
              | Throws e \<Rightarrow> Some (Throws e) | Aborts \<Rightarrow> Some Aborts | Undefined \<Rightarrow> Some Undefined | Diverges \<Rightarrow> Some Diverges)
        else compact_loop pos' from_pos s)
      else Some Undefined)"

definition compact :: "sparse_set \<Rightarrow> sparse_set outcome" where
  "compact s =
     (if mode s = In_place
      then obind (of_loop (compact_loop (head s) (trim_tombstones (elements s) (length (elements s))) (s\<lparr>head := entity_mask\<rparr>)))
             (\<lambda>(from_pos, s'). Ret (s'\<lparr>elements := take from_pos (elements s')\<rparr>))
      else Ret s)"

definition ss_clear :: "sparse_set \<Rightarrow> sparse_set outcome" where
  "ss_clear s =
     obind (pop_all s) (\<lambda>s1. obind (compact s1) (\<lambda>s2. entt_assert (length (elements s2) = 0)
       (Ret (s2\<lparr>head := policy_to_head (mode s2), elements := []\<rparr>))))"

text \<open>The moved-from set keeps its policy and is empty.\<close>

definition move_from :: "sparse_set \<Rightarrow> sparse_set \<times> sparse_set" where
  "move_from other = (other, other\<lparr>pages := [], elements := [], head := policy_to_head (mode other)\<rparr>)"

text \<open>
  Sorting: \<open>algo\<close> sorts the first elements, read from the last to the first, and then every
  cycle of the permutation is followed to write the new positions into the sparse array.
\<close>

partial_function (option) sort_cycle :: "nat \<Rightarrow> nat \<Rightarrow> sparse_set \<Rightarrow> sparse_set outcome option" where
  "sort_cycle cur nxt s =
     (if cur = nxt then Some (Ret s)
      else case obind (read_at nxt s) (index s) of
             Ret idx \<Rightarrow>
               (case obind (read_at cur s) (\<lambda>e. obind (swap_or_move nxt idx s) (\<lambda>s0.
                     obind (sparse_ref s e) (\<lambda>r. write_ref r (combine (of_nat cur) (to_integral e)) s))) of
                  Ret s1 \<Rightarrow> sort_cycle nxt idx s1
                | Throws e \<Rightarrow> Some (Throws e) | Aborts \<Rightarrow> Some Aborts | Undefined \<Rightarrow> Some Undefined | Diverges \<Rightarrow> Some Diverges)
           | Throws e \<Rightarrow> Some (Throws e) | Aborts \<Rightarrow> Some Aborts | Undefined \<Rightarrow> Some Undefined | Diverges \<Rightarrow> Some Diverges)"

fun sort_cycles :: "nat list \<Rightarrow> sparse_set \<Rightarrow> sparse_set outcome" where
  "sort_cycles [] s = Ret s"
| "sort_cycles (pos # ps) s =
     obind (obind (read_at pos s) (index s)) (\<lambda>nxt. obind (of_loop (sort_cycle pos nxt s)) (sort_cycles ps))"

definition sort_n :: "nat \<Rightarrow> (entity list \<Rightarrow> entity list) \<Rightarrow> sparse_set \<Rightarrow> sparse_set outcome" where
  "sort_n len algo s =
     entt_assert (mode s \<noteq> In_place \<or> head s = to_entity null_entity)
       (entt_assert (\<not> length (elements s) < len)
         (sort_cycles [0..<len] (s\<lparr>elements := rev (algo (rev (take len (elements s)))) @ drop len (elements s)\<rparr>)))"

definition ss_sort :: "(entity list \<Rightarrow> entity list) \<Rightarrow> sparse_set \<Rightarrow> sparse_set outcome" where
  "ss_sort algo s = sort_n (begin_live s) algo s"

fun sort_as_loop :: "nat \<Rightarrow> entity list \<Rightarrow> sparse_set \<Rightarrow> sparse_set outcome" where
  "sort_as_loop it [] s = Ret s"
| "sort_as_loop it (e # es) s =
     (if it = 1 then Ret s
      else obind (contains s e) (\<lambda>found.
        if found
        then obind (deref it s) (\<lambda>ent.
             obind (if ent \<noteq> e then swap_elements ent e s else Ret s) (sort_as_loop (it - 1) es))
        else sort_as_loop it es s))"

definition sort_as :: "entity list \<Rightarrow> sparse_set \<Rightarrow> sparse_set outcome" where
  "sort_as es s =
     entt_assert (mode s \<noteq> In_place \<or> head s = to_entity null_entity) (sort_as_loop (begin_live s) es s)"

end
