(* ===== verification/EntityStorage.thy ===== *)
theory EntityStorage
  imports SparseSet
begin

text \<open>
  The storage of entities of \<open>core/common/entt.hpp\<close> (\<open>basic_storage<Entity, Entity>\<close>): a sparse
  set under the policy that only swaps. Its packed array begins with the identifiers in use,
  \<open>free_list\<close> many of them, and goes on with those that can be recycled.
\<close>

definition entity_at :: "nat \<Rightarrow> entity outcome" where
  "entity_at pos = entt_assert (pos < unat (to_entity null_entity)) (Ret (combine (of_nat pos) 0))"

definition es_new :: sparse_set where
  "es_new = ss_new Swap_only"

text \<open>\<open>*try_emplace(e, true)\<close>\<close>

definition take_slot :: "entity \<Rightarrow> sparse_set \<Rightarrow> (entity \<times> sparse_set) outcome" where
  "take_slot e s =
     obind (try_emplace e True s) (\<lambda>(it, s1). obind (deref it s1) (\<lambda>r. Ret (r, s1)))"

definition es_emplace :: "sparse_set \<Rightarrow> (entity \<times> sparse_set) outcome" where
  "es_emplace s =
     (let len = free_list s in
      obind (if len = length (elements s) then entity_at len else read_at len s) (\<lambda>e. take_slot e s))"

text \<open>The loop ends when the array has grown past the position; \<open>None\<close> would be a loop that does not.\<close>

partial_function (option) fill_upto :: "nat \<Rightarrow> sparse_set \<Rightarrow> sparse_set outcome option" where
  "fill_upto pos s =
     (if pos < length (elements s) then Some (Ret s)
      else case obind (entity_at (length (elements s) - 1)) (\<lambda>e. try_emplace e False s) of
             Ret r \<Rightarrow> fill_upto pos (snd r)
           | Throws e \<Rightarrow> Some (Throws e) | Aborts \<Rightarrow> Some Aborts | Undefined \<Rightarrow> Some Undefined | Diverges \<Rightarrow> Some Diverges)"

definition es_emplace_hint :: "entity \<Rightarrow> sparse_set \<Rightarrow> (entity \<times> sparse_set) outcome" where
  "es_emplace_hint hint s =
     (if is_null hint \<or> is_tombstone hint then es_emplace s
      else obind (current_version s hint) (\<lambda>v.
        let cur = construct (to_entity hint) v in
        if is_tombstone cur then
          obind (take_slot hint s) (\<lambda>(e, s1).
          obind (of_loop (fill_upto (unat (to_entity hint)) s1)) (\<lambda>s2. Ret (e, s2)))
        else obind (index s cur) (\<lambda>idx.
          if idx < free_list s then es_emplace s else take_slot hint s)))"

text \<open>\<open>try_emplace\<close> of the storage itself, through which \<open>push\<close> assigns an identifier.\<close>

definition es_try_emplace :: "entity \<Rightarrow> sparse_set \<Rightarrow> (nat \<times> sparse_set) outcome" where
  "es_try_emplace hint s =
     obind (es_emplace_hint hint s) (\<lambda>(e, s1). obind (ss_find s1 e) (\<lambda>it. Ret (it, s1)))"

text \<open>
  \<open>insert\<close> writes an identifier into each of \<open>n\<close> places: first the ones that can be recycled,
  \<open>sz\<close> being the size at the beginning, then new ones.
\<close>

fun insert_new :: "nat \<Rightarrow> sparse_set \<Rightarrow> (entity list \<times> sparse_set) outcome" where
  "insert_new 0 s = Ret ([], s)"
| "insert_new (Suc n) s =
     obind (entity_at (free_list s)) (\<lambda>e. obind (take_slot e s) (\<lambda>(r, s1).
     obind (insert_new n s1) (\<lambda>(rs, s2). Ret (r # rs, s2))))"

fun insert_recycled :: "nat \<Rightarrow> nat \<Rightarrow> sparse_set \<Rightarrow> (entity list \<times> sparse_set) outcome" where
  "insert_recycled sz 0 s = Ret ([], s)"
| "insert_recycled sz (Suc n) s =
     (if free_list s = sz then insert_new (Suc n) s
      else obind (read_at (free_list s) s) (\<lambda>e. obind (take_slot e s) (\<lambda>(r, s1).
           obind (insert_recycled sz n s1) (\<lambda>(rs, s2). Ret (r # rs, s2)))))"

definition es_insert :: "nat \<Rightarrow> sparse_set \<Rightarrow> (entity list \<times> sparse_set) outcome" where
  "es_insert n s = insert_recycled (length (elements s)) n s"

definition es_get :: "entity \<Rightarrow> sparse_set \<Rightarrow> unit outcome" where
  "es_get e s = obind (index s e) (\<lambda>i. entt_assert (i < free_list s) (Ret ()))"

text \<open>Visiting goes from the last identifier in use to the first, \<open>reach\<close> the other way.\<close>

definition es_each :: "sparse_set \<Rightarrow> entity list" where
  "es_each s = rev (take (begin_live s) (elements s))"

definition es_reach :: "sparse_set \<Rightarrow> entity list" where
  "es_reach s = take (begin_live s) (elements s)"

definition es_pack :: "entity list \<Rightarrow> sparse_set \<Rightarrow> (nat \<times> sparse_set) outcome" where
  "es_pack es s = obind (sort_as es s) (\<lambda>s1. Ret (length es, s1))"

text \<open>What the registry calls valid: an identifier of the array that is in use.\<close>

definition entity_valid :: "sparse_set \<Rightarrow> entity \<Rightarrow> bool outcome" where
  "entity_valid s e =
     obind (contains s e) (\<lambda>found. if found then obind (index s e) (\<lambda>i. Ret (i < free_list s)) else Ret False)"

end
