(* ===== verification/Storage.thy ===== *)
theory Storage
  imports SparseSet
begin

text \<open>
  The storage of components of \<open>core/common/entt.hpp\<close> (\<open>basic_storage\<close>): a sparse set and, in
  pages, one object per position of its packed array. A place of a page is \<open>None\<close> while it holds
  no object; reading or destroying what is not there is undefined. Whether a component type asks
  for deletion in place is the policy of the set. Allocation does not fail; a constructor that
  throws is a missing value.
\<close>

section \<open>Payload\<close>

record 'a storage =
  base :: sparse_set
  payload :: "'a option list list"

definition packed_page :: nat where
  "packed_page = 1024"

definition element_pos :: "nat \<Rightarrow> (nat \<times> nat) outcome" where
  "element_pos pos =
     obind (fast_mod (of_nat pos) (of_nat packed_page)) (\<lambda>off. Ret (pos div packed_page, unat off))"

definition read_element :: "nat \<Rightarrow> 'a storage \<Rightarrow> 'a outcome" where
  "read_element pos s =
     obind (element_pos pos) (\<lambda>(p, off).
       if p < length (payload s) \<and> off < length (payload s ! p)
       then case payload s ! p ! off of Some x \<Rightarrow> Ret x | None \<Rightarrow> Undefined else Undefined)"

definition write_element :: "nat \<Rightarrow> 'a option \<Rightarrow> 'a storage \<Rightarrow> 'a storage outcome" where
  "write_element pos x s =
     obind (element_pos pos) (\<lambda>(p, off).
       if p < length (payload s) \<and> off < length (payload s ! p)
       then Ret (s\<lparr>payload := (payload s)[p := (payload s ! p)[off := x]]\<rparr>) else Undefined)"

definition destroy_element :: "nat \<Rightarrow> 'a storage \<Rightarrow> 'a storage outcome" where
  "destroy_element pos s = obind (read_element pos s) (\<lambda>x. write_element pos None s)"

definition payload_assure :: "nat \<Rightarrow> 'a storage \<Rightarrow> 'a storage" where
  "payload_assure pos s =
     (let idx = pos div packed_page in
      if idx < length (payload s) then s
      else s\<lparr>payload := payload s @ replicate (idx + 1 - length (payload s)) (replicate packed_page None)\<rparr>)"

definition st_new :: "bool \<Rightarrow> 'a storage" where
  "st_new in_place_delete = \<lparr>base = ss_new (if in_place_delete then In_place else Swap_and_pop), payload = []\<rparr>"

section \<open>Assigning\<close>

text \<open>When the constructor throws, the entity is removed again; the answer is then \<open>None\<close>.\<close>

definition emplace_element :: "entity \<Rightarrow> bool \<Rightarrow> 'a option \<Rightarrow> 'a storage \<Rightarrow> (nat option \<times> 'a storage) outcome" where
  "emplace_element e force_back x s =
     obind (try_emplace e force_back (base s)) (\<lambda>(it, b).
       let s1 = payload_assure (it - 1) (s\<lparr>base := b\<rparr>) in
       case x of
         Some v \<Rightarrow> obind (write_element (it - 1) (Some v) s1) (\<lambda>s2. Ret (Some it, s2))
       | None \<Rightarrow> obind (pop it (it - 1) (base s1)) (\<lambda>b1. Ret (None, s1\<lparr>base := b1\<rparr>)))"

definition st_emplace :: "entity \<Rightarrow> 'a option \<Rightarrow> 'a storage \<Rightarrow> (bool \<times> 'a storage) outcome" where
  "st_emplace e x s = obind (emplace_element e False x s) (\<lambda>(it, s1). Ret (it \<noteq> None, s1))"

text \<open>
  The one that \<open>push\<close> calls: with a value if the type can be copied, else with a default one; the
  answer is an iterator, and the end when the type has neither.
\<close>

definition st_try_emplace ::
    "bool \<Rightarrow> 'a option \<Rightarrow> entity \<Rightarrow> bool \<Rightarrow> 'a option \<Rightarrow> 'a storage \<Rightarrow> (nat option \<times> 'a storage) outcome" where
  "st_try_emplace copyable fallback e force_back x s =
     (case x of
        Some v \<Rightarrow> if copyable then emplace_element e force_back (Some v) s else Ret (Some 0, s)
      | None \<Rightarrow> (case fallback of Some v \<Rightarrow> emplace_element e force_back (Some v) s | None \<Rightarrow> Ret (Some 0, s)))"

fun st_insert_from :: "(entity \<times> 'a) list \<Rightarrow> 'a storage \<Rightarrow> 'a storage outcome" where
  "st_insert_from [] s = Ret s"
| "st_insert_from ((e, x) # es) s = obind (emplace_element e True (Some x) s) (\<lambda>(it, s1). st_insert_from es s1)"

fun st_insert :: "entity list \<Rightarrow> 'a \<Rightarrow> 'a storage \<Rightarrow> 'a storage outcome" where
  "st_insert [] x s = Ret s"
| "st_insert (e # es) x s = obind (emplace_element e True (Some x) s) (\<lambda>(it, s1). st_insert es x s1)"

section \<open>Reading and changing\<close>

definition st_get :: "entity \<Rightarrow> 'a storage \<Rightarrow> 'a outcome" where
  "st_get e s = obind (index (base s) e) (\<lambda>i. read_element i s)"

definition st_patch :: "entity \<Rightarrow> ('a \<Rightarrow> 'a) list \<Rightarrow> 'a storage \<Rightarrow> ('a \<times> 'a storage) outcome" where
  "st_patch e fs s =
     obind (index (base s) e) (\<lambda>i. obind (read_element i s) (\<lambda>x.
       let y = fold (\<lambda>f. f) fs x in obind (write_element i (Some y) s) (\<lambda>s1. Ret (y, s1))))"

definition st_contains :: "'a storage \<Rightarrow> entity \<Rightarrow> bool outcome" where
  "st_contains s e = contains (base s) e"

section \<open>Removing\<close>

definition st_pop_one :: "nat \<Rightarrow> 'a storage \<Rightarrow> 'a storage outcome" where
  "st_pop_one it s =
     obind (deref it (base s)) (\<lambda>e. obind (index (base s) e) (\<lambda>i.
       if mode (base s) = In_place
       then obind (in_place_pop it (base s)) (\<lambda>b. destroy_element i (s\<lparr>base := b\<rparr>))
       else (let other = length (elements (base s)) - 1 in
         obind (read_element i s) (\<lambda>unused. obind (read_element other s) (\<lambda>x.
         obind (write_element i (Some x) s) (\<lambda>s1. obind (destroy_element other s1) (\<lambda>s2.
         obind (swap_and_pop it (base s2)) (\<lambda>b. Ret (s2\<lparr>base := b\<rparr>)))))))))"

fun st_pop :: "nat \<Rightarrow> nat \<Rightarrow> 'a storage \<Rightarrow> 'a storage outcome" where
  "st_pop first_it last_it s =
     (if first_it = last_it then Ret s
      else case first_it of 0 \<Rightarrow> Undefined | Suc n \<Rightarrow> obind (st_pop_one first_it s) (st_pop n last_it))"

declare st_pop.simps [simp del]

definition st_erase :: "entity \<Rightarrow> 'a storage \<Rightarrow> 'a storage outcome" where
  "st_erase e s = obind (to_iterator (base s) e) (\<lambda>it. st_pop it (it - 1) s)"

definition st_remove :: "entity \<Rightarrow> 'a storage \<Rightarrow> (bool \<times> 'a storage) outcome" where
  "st_remove e s =
     obind (contains (base s) e) (\<lambda>found. if found then obind (st_erase e s) (\<lambda>s1. Ret (True, s1)) else Ret (False, s))"

fun st_remove_each :: "entity list \<Rightarrow> nat \<Rightarrow> 'a storage \<Rightarrow> (nat \<times> 'a storage) outcome" where
  "st_remove_each [] n s = Ret (n, s)"
| "st_remove_each (e # es) n s = obind (st_remove e s) (\<lambda>(b, s1). st_remove_each es (n + (if b then 1 else 0)) s1)"

text \<open>The loop of \<open>pop_all\<close>, from the last position to the first.\<close>

fun st_pop_down :: "nat \<Rightarrow> 'a storage \<Rightarrow> 'a storage outcome" where
  "st_pop_down 0 s = Ret s"
| "st_pop_down (Suc n) s =
     obind
       (if mode (base s) = In_place
        then obind (deref (Suc n) (base s)) (\<lambda>e.
          if \<not> is_tombstone e then obind (in_place_pop (Suc n) (base s)) (\<lambda>b. destroy_element n (s\<lparr>base := b\<rparr>)) else Ret s)
        else obind (swap_and_pop (Suc n) (base s)) (\<lambda>b. destroy_element n (s\<lparr>base := b\<rparr>)))
       (st_pop_down n)"

definition st_pop_all :: "'a storage \<Rightarrow> 'a storage outcome" where
  "st_pop_all s = st_pop_down (length (elements (base s))) s"

text \<open>After \<open>pop_all\<close> there is nothing left to move, and \<open>compact\<close> only drops tombstones.\<close>

definition st_clear :: "'a storage \<Rightarrow> 'a storage outcome" where
  "st_clear s =
     obind (st_pop_all s) (\<lambda>s1. obind (compact (base s1)) (\<lambda>b. entt_assert (length (elements b) = 0)
       (Ret (s1\<lparr>base := b\<lparr>head := policy_to_head (mode b), elements := []\<rparr>\<rparr>))))"

section \<open>Capacity and moves\<close>

definition st_reserve :: "nat \<Rightarrow> 'a storage \<Rightarrow> 'a storage" where
  "st_reserve cap s = (if cap \<noteq> 0 then payload_assure (cap - 1) s else s)"

definition st_capacity :: "'a storage \<Rightarrow> nat" where
  "st_capacity s = length (payload s) * packed_page"

fun destroy_range :: "nat list \<Rightarrow> 'a storage \<Rightarrow> 'a storage outcome" where
  "destroy_range [] s = Ret s"
| "destroy_range (pos # ps) s =
     obind (if mode (base s) = In_place
            then obind (read_at pos (base s)) (\<lambda>e. if \<not> is_tombstone e then destroy_element pos s else Ret s)
            else destroy_element pos s) (destroy_range ps)"

definition shrink_to_size :: "nat \<Rightarrow> 'a storage \<Rightarrow> 'a storage outcome" where
  "shrink_to_size sz s =
     obind (destroy_range [sz..<length (elements (base s))] s) (\<lambda>s1.
       Ret (s1\<lparr>payload := take ((sz + packed_page - 1) div packed_page) (payload s1)\<rparr>))"

definition st_shrink_to_fit :: "'a storage \<Rightarrow> 'a storage outcome" where
  "st_shrink_to_fit s = shrink_to_size (length (elements (base s))) s"

definition st_swap :: "'a storage \<Rightarrow> 'a storage \<Rightarrow> 'a storage \<times> 'a storage" where
  "st_swap a b = (b, a)"

text \<open>Moving leaves an empty storage behind; the first component is the new one.\<close>

definition st_move :: "'a storage \<Rightarrow> 'a storage \<times> 'a storage" where
  "st_move s = (s, \<lparr>base = snd (move_from (base s)), payload = []\<rparr>)"

section \<open>Swapping and sorting\<close>

text \<open>
  \<open>swap_or_move\<close> as storages override it, for types that can be moved: objects are swapped, or
  moved to the place of a tombstone.
\<close>

definition swap_objects :: "nat \<Rightarrow> nat \<Rightarrow> 'a storage \<Rightarrow> 'a storage outcome" where
  "swap_objects from_pos to_pos s =
     obind (read_element from_pos s) (\<lambda>x. obind (read_element to_pos s) (\<lambda>y.
     obind (write_element from_pos (Some y) s) (write_element to_pos (Some x))))"

definition st_swap_or_move :: "nat \<Rightarrow> nat \<Rightarrow> 'a storage \<Rightarrow> 'a storage outcome" where
  "st_swap_or_move from_pos to_pos s =
     (if mode (base s) = In_place
      then obind (subscript to_pos (base s)) (\<lambda>e.
        if is_tombstone e
        then obind (read_element from_pos s) (\<lambda>x.
             obind (write_element to_pos (Some x) (payload_assure to_pos s)) (destroy_element from_pos))
        else swap_objects from_pos to_pos s)
      else swap_objects from_pos to_pos s)"

definition st_swap_elements :: "entity \<Rightarrow> entity \<Rightarrow> 'a storage \<Rightarrow> 'a storage outcome" where
  "st_swap_elements lhs rhs s =
     obind (index (base s) lhs) (\<lambda>from_pos. obind (index (base s) rhs) (\<lambda>to_pos.
     obind (st_swap_or_move from_pos to_pos s) (\<lambda>s1.
     obind (swap_at from_pos to_pos (base s1)) (\<lambda>b. Ret (s1\<lparr>base := b\<rparr>)))))"

text \<open>Sorting: as in a sparse set, with the objects following the cycles.\<close>

partial_function (option) st_sort_cycle :: "nat \<Rightarrow> nat \<Rightarrow> 'a storage \<Rightarrow> 'a storage outcome option" where
  "st_sort_cycle cur nxt s =
     (if cur = nxt then Some (Ret s)
      else case obind (read_at nxt (base s)) (index (base s)) of
             Ret idx \<Rightarrow>
               (case obind (read_at cur (base s)) (\<lambda>e. obind (st_swap_or_move nxt idx s) (\<lambda>s1.
                     obind (sparse_ref (base s1) e) (\<lambda>r. obind (write_ref r (combine (of_nat cur) (to_integral e)) (base s1)) (\<lambda>b.
                       Ret (s1\<lparr>base := b\<rparr>))))) of
                  Ret s2 \<Rightarrow> st_sort_cycle nxt idx s2
                | Throws e \<Rightarrow> Some (Throws e) | Aborts \<Rightarrow> Some Aborts | Undefined \<Rightarrow> Some Undefined | Diverges \<Rightarrow> Some Diverges)
           | Throws e \<Rightarrow> Some (Throws e) | Aborts \<Rightarrow> Some Aborts | Undefined \<Rightarrow> Some Undefined | Diverges \<Rightarrow> Some Diverges)"

fun st_sort_cycles :: "nat list \<Rightarrow> 'a storage \<Rightarrow> 'a storage outcome" where
  "st_sort_cycles [] s = Ret s"
| "st_sort_cycles (pos # ps) s =
     obind (obind (read_at pos (base s)) (index (base s))) (\<lambda>nxt. obind (of_loop (st_sort_cycle pos nxt s)) (st_sort_cycles ps))"

definition st_sort_n :: "nat \<Rightarrow> (entity list \<Rightarrow> entity list) \<Rightarrow> 'a storage \<Rightarrow> 'a storage outcome" where
  "st_sort_n len algo s =
     entt_assert (mode (base s) \<noteq> In_place \<or> head (base s) = to_entity null_entity)
       (entt_assert (\<not> length (elements (base s)) < len)
         (st_sort_cycles [0..<len] (s\<lparr>base := (base s)\<lparr>elements :=
            rev (algo (rev (take len (elements (base s))))) @ drop len (elements (base s))\<rparr>\<rparr>)))"

definition st_sort :: "(entity list \<Rightarrow> entity list) \<Rightarrow> 'a storage \<Rightarrow> 'a storage outcome" where
  "st_sort algo s = st_sort_n (begin_live (base s)) algo s"

fun st_sort_as_loop :: "nat \<Rightarrow> entity list \<Rightarrow> 'a storage \<Rightarrow> 'a storage outcome" where
  "st_sort_as_loop it [] s = Ret s"
| "st_sort_as_loop it (e # es) s =
     (if it = 1 then Ret s
      else obind (contains (base s) e) (\<lambda>found.
        if found
        then obind (deref it (base s)) (\<lambda>ent.
             obind (if ent \<noteq> e then st_swap_elements ent e s else Ret s) (st_sort_as_loop (it - 1) es))
        else st_sort_as_loop it es s))"

definition st_sort_as :: "entity list \<Rightarrow> 'a storage \<Rightarrow> 'a storage outcome" where
  "st_sort_as es s =
     entt_assert (mode (base s) \<noteq> In_place \<or> head (base s) = to_entity null_entity) (st_sort_as_loop (begin_live (base s)) es s)"

section \<open>Storages of empty types\<close>

text \<open>A component type without data has no payload: its storage is a sparse set.\<close>

definition tag_emplace :: "entity \<Rightarrow> sparse_set \<Rightarrow> sparse_set outcome" where
  "tag_emplace e s = obind (try_emplace e False s) (\<lambda>(it, s1). Ret s1)"

definition tag_get :: "entity \<Rightarrow> sparse_set \<Rightarrow> unit outcome" where
  "tag_get e s = obind (contains s e) (\<lambda>found. entt_assert found (Ret ()))"

definition tag_patch :: "entity \<Rightarrow> ('w \<Rightarrow> 'w) list \<Rightarrow> sparse_set \<Rightarrow> 'w \<Rightarrow> 'w outcome" where
  "tag_patch e fs s w = obind (contains s e) (\<lambda>found. entt_assert found (Ret (fold (\<lambda>f. f) fs w)))"

fun tag_insert :: "entity list \<Rightarrow> sparse_set \<Rightarrow> sparse_set outcome" where
  "tag_insert [] s = Ret s"
| "tag_insert (e # es) s = obind (try_emplace e True s) (\<lambda>(it, s1). tag_insert es s1)"

end
