(* ===== verification/Registry.thy ===== *)
theory Registry
  imports EntityStorage Storage
begin

text \<open>
  The registry of \<open>core/common/entt.hpp\<close> (\<open>basic_registry\<close>): the storage of entities and one pool
  of components per type. Component types are tags; \<open>type_hash\<close> gives the number a pool is found
  by. The map of pools is the list of its entries in the order in which they were made, which is
  the order a dense map iterates over when nothing is erased from it (theory DenseMapCorrect);
  pools are never erased. No listener is connected to the signals of a storage.
\<close>

section \<open>Data\<close>

record 't component_traits =
  type_hash :: "'t \<Rightarrow> 32 word"
  in_place_delete :: "'t \<Rightarrow> bool"

record ('t, 'a) pool =
  pool_type :: 't
  pool_storage :: "'a storage"

record ('t, 'a) registry =
  pools :: "(32 word \<times> ('t, 'a) pool) list"
  entities :: sparse_set

definition reg_new :: "('t, 'a) registry" where
  "reg_new = \<lparr>pools = [], entities = es_new\<rparr>"

section \<open>Pools\<close>

text \<open>\<open>assure\<close> makes the pool when it is missing, and asserts that it has the type.\<close>

definition assure :: "'t component_traits \<Rightarrow> 't \<Rightarrow> 32 word \<Rightarrow> ('t, 'a) registry \<Rightarrow> ('a storage \<times> ('t, 'a) registry) outcome" where
  "assure tr ty h r =
     (case map_of (pools r) h of
        None \<Rightarrow> (let p = \<lparr>pool_type = ty, pool_storage = st_new (in_place_delete tr ty)\<rparr> in
          Ret (pool_storage p, r\<lparr>pools := pools r @ [(h, p)]\<rparr>))
      | Some p \<Rightarrow> entt_assert (pool_type p = ty) (Ret (pool_storage p, r)))"

definition assure_const :: "'t \<Rightarrow> 32 word \<Rightarrow> ('t, 'a) registry \<Rightarrow> 'a storage option outcome" where
  "assure_const ty h r =
     (case map_of (pools r) h of
        None \<Rightarrow> Ret None
      | Some p \<Rightarrow> entt_assert (pool_type p = ty) (Ret (Some (pool_storage p))))"

definition storage_by_id :: "32 word \<Rightarrow> ('t, 'a) registry \<Rightarrow> 'a storage option" where
  "storage_by_id h r = map_option pool_storage (map_of (pools r) h)"

definition put_pool :: "32 word \<Rightarrow> 'a storage \<Rightarrow> ('t, 'a) registry \<Rightarrow> ('t, 'a) registry" where
  "put_pool h st r = r\<lparr>pools := map (\<lambda>(k, p). (k, if k = h then p\<lparr>pool_storage := st\<rparr> else p)) (pools r)\<rparr>"

text \<open>A member function of the pool of a type, called through \<open>assure\<close>.\<close>

definition with_pool ::
    "'t component_traits \<Rightarrow> 't \<Rightarrow> ('a storage \<Rightarrow> ('b \<times> 'a storage) outcome) \<Rightarrow> ('t, 'a) registry \<Rightarrow> ('b \<times> ('t, 'a) registry) outcome" where
  "with_pool tr ty f r =
     obind (assure tr ty (type_hash tr ty) r) (\<lambda>(st, r1).
     obind (f st) (\<lambda>(x, st1). Ret (x, put_pool (type_hash tr ty) st1 r1)))"

section \<open>Identifiers\<close>

definition valid :: "entity \<Rightarrow> ('t, 'a) registry \<Rightarrow> bool outcome" where
  "valid e r = entity_valid (entities r) e"

definition reg_current :: "entity \<Rightarrow> ('t, 'a) registry \<Rightarrow> 16 word outcome" where
  "reg_current e r = current_version (entities r) e"

definition create :: "('t, 'a) registry \<Rightarrow> (entity \<times> ('t, 'a) registry) outcome" where
  "create r = obind (es_emplace (entities r)) (\<lambda>(e, s). Ret (e, r\<lparr>entities := s\<rparr>))"

definition create_hint :: "entity \<Rightarrow> ('t, 'a) registry \<Rightarrow> (entity \<times> ('t, 'a) registry) outcome" where
  "create_hint hint r = obind (es_emplace_hint hint (entities r)) (\<lambda>(e, s). Ret (e, r\<lparr>entities := s\<rparr>))"

definition create_range :: "nat \<Rightarrow> ('t, 'a) registry \<Rightarrow> (entity list \<times> ('t, 'a) registry) outcome" where
  "create_range n r = obind (es_insert n (entities r)) (\<lambda>(es, s). Ret (es, r\<lparr>entities := s\<rparr>))"

text \<open>The loops over the pools go from the last to the first.\<close>

fun visit_pools :: "('a storage \<Rightarrow> 'a storage outcome) \<Rightarrow> nat \<Rightarrow> ('t, 'a) registry \<Rightarrow> ('t, 'a) registry outcome" where
  "visit_pools f 0 r = Ret r"
| "visit_pools f (Suc n) r =
     (if n < length (pools r)
      then case pools r ! n of (h, p) \<Rightarrow>
        obind (f (pool_storage p)) (\<lambda>st. visit_pools f n (r\<lparr>pools := (pools r)[n := (h, p\<lparr>pool_storage := st\<rparr>)]\<rparr>))
      else Undefined)"

definition remove_from_pools :: "entity \<Rightarrow> ('t, 'a) registry \<Rightarrow> ('t, 'a) registry outcome" where
  "remove_from_pools e r = visit_pools (\<lambda>st. obind (st_remove e st) (\<lambda>(b, st1). Ret st1)) (length (pools r)) r"

definition reg_destroy :: "entity \<Rightarrow> ('t, 'a) registry \<Rightarrow> (16 word \<times> ('t, 'a) registry) outcome" where
  "reg_destroy e r =
     obind (remove_from_pools e r) (\<lambda>r1.
     obind (erase e (entities r1)) (\<lambda>s. obind (current_version s e) (\<lambda>v. Ret (v, r1\<lparr>entities := s\<rparr>))))"

definition destroy_version :: "entity \<Rightarrow> 16 word \<Rightarrow> ('t, 'a) registry \<Rightarrow> (16 word \<times> ('t, 'a) registry) outcome" where
  "destroy_version e version r =
     obind (reg_destroy e r) (\<lambda>(v, r1).
       let elem = construct (to_entity e) version in
       obind (bump (if is_tombstone elem then next_version elem else elem) (entities r1)) (\<lambda>(v1, s).
         Ret (v1, r1\<lparr>entities := s\<rparr>)))"

section \<open>Components\<close>

text \<open>The answer of \<open>emplace\<close> is whether the constructor returned; \<open>x\<close> is then the object.\<close>

definition reg_emplace ::
    "'t component_traits \<Rightarrow> 't \<Rightarrow> entity \<Rightarrow> 'a option \<Rightarrow> ('t, 'a) registry \<Rightarrow> (bool \<times> ('t, 'a) registry) outcome" where
  "reg_emplace tr ty e x = with_pool tr ty (st_emplace e x)"

definition reg_insert ::
    "'t component_traits \<Rightarrow> 't \<Rightarrow> entity list \<Rightarrow> 'a \<Rightarrow> ('t, 'a) registry \<Rightarrow> (unit \<times> ('t, 'a) registry) outcome" where
  "reg_insert tr ty es x = with_pool tr ty (\<lambda>st. obind (st_insert es x st) (\<lambda>st1. Ret ((), st1)))"

definition reg_insert_from ::
    "'t component_traits \<Rightarrow> 't \<Rightarrow> (entity \<times> 'a) list \<Rightarrow> ('t, 'a) registry \<Rightarrow> (unit \<times> ('t, 'a) registry) outcome" where
  "reg_insert_from tr ty es = with_pool tr ty (\<lambda>st. obind (st_insert_from es st) (\<lambda>st1. Ret ((), st1)))"

definition reg_patch ::
    "'t component_traits \<Rightarrow> 't \<Rightarrow> entity \<Rightarrow> ('a \<Rightarrow> 'a) list \<Rightarrow> ('t, 'a) registry \<Rightarrow> ('a \<times> ('t, 'a) registry) outcome" where
  "reg_patch tr ty e fs = with_pool tr ty (st_patch e fs)"

definition reg_replace ::
    "'t component_traits \<Rightarrow> 't \<Rightarrow> entity \<Rightarrow> 'a \<Rightarrow> ('t, 'a) registry \<Rightarrow> ('a \<times> ('t, 'a) registry) outcome" where
  "reg_replace tr ty e x = reg_patch tr ty e [\<lambda>old. x]"

definition emplace_or_replace ::
    "'t component_traits \<Rightarrow> 't \<Rightarrow> entity \<Rightarrow> 'a \<Rightarrow> ('t, 'a) registry \<Rightarrow> (unit \<times> ('t, 'a) registry) outcome" where
  "emplace_or_replace tr ty e x = with_pool tr ty (\<lambda>st.
     obind (st_contains st e) (\<lambda>found.
       if found then obind (st_patch e [\<lambda>old. x] st) (\<lambda>(y, st1). Ret ((), st1))
       else obind (st_emplace e (Some x) st) (\<lambda>(b, st1). Ret ((), st1))))"

definition get_or_emplace ::
    "'t component_traits \<Rightarrow> 't \<Rightarrow> entity \<Rightarrow> 'a \<Rightarrow> ('t, 'a) registry \<Rightarrow> ('a \<times> ('t, 'a) registry) outcome" where
  "get_or_emplace tr ty e x = with_pool tr ty (\<lambda>st.
     obind (st_contains st e) (\<lambda>found.
       if found then obind (st_get e st) (\<lambda>y. Ret (y, st))
       else obind (st_emplace e (Some x) st) (\<lambda>(b, st1). Ret (x, st1))))"

text \<open>For several types the storages are visited in the order of the types.\<close>

fun reg_remove :: "'t component_traits \<Rightarrow> 't list \<Rightarrow> entity \<Rightarrow> ('t, 'a) registry \<Rightarrow> (nat \<times> ('t, 'a) registry) outcome" where
  "reg_remove tr [] e r = Ret (0, r)"
| "reg_remove tr (ty # tys) e r =
     obind (with_pool tr ty (st_remove e) r) (\<lambda>(b, r1).
     obind (reg_remove tr tys e r1) (\<lambda>(n, r2). Ret ((if b then 1 else 0) + n, r2)))"

fun reg_remove_each ::
    "'t component_traits \<Rightarrow> 't list \<Rightarrow> entity list \<Rightarrow> nat \<Rightarrow> ('t, 'a) registry \<Rightarrow> (nat \<times> ('t, 'a) registry) outcome" where
  "reg_remove_each tr tys [] n r = Ret (n, r)"
| "reg_remove_each tr tys (e # es) n r = obind (reg_remove tr tys e r) (\<lambda>(k, r1). reg_remove_each tr tys es (n + k) r1)"

fun reg_erase :: "'t component_traits \<Rightarrow> 't list \<Rightarrow> entity \<Rightarrow> ('t, 'a) registry \<Rightarrow> ('t, 'a) registry outcome" where
  "reg_erase tr [] e r = Ret r"
| "reg_erase tr (ty # tys) e r =
     obind (with_pool tr ty (\<lambda>st. obind (st_erase e st) (\<lambda>st1. Ret ((), st1))) r) (\<lambda>(u, r1). reg_erase tr tys e r1)"

fun erase_if :: "entity \<Rightarrow> (32 word \<Rightarrow> 'a storage \<Rightarrow> bool) \<Rightarrow> (32 word \<times> ('t, 'a) pool) list \<Rightarrow> (32 word \<times> ('t, 'a) pool) list outcome" where
  "erase_if e f [] = Ret []"
| "erase_if e f ((h, p) # ps) =
     obind (st_contains (pool_storage p) e) (\<lambda>found.
     obind (if found \<and> f h (pool_storage p) then st_erase e (pool_storage p) else Ret (pool_storage p)) (\<lambda>st.
     obind (erase_if e f ps) (\<lambda>ps1. Ret ((h, p\<lparr>pool_storage := st\<rparr>) # ps1))))"

definition reg_erase_if :: "entity \<Rightarrow> (32 word \<Rightarrow> 'a storage \<Rightarrow> bool) \<Rightarrow> ('t, 'a) registry \<Rightarrow> ('t, 'a) registry outcome" where
  "reg_erase_if e f r = obind (erase_if e f (pools r)) (\<lambda>ps. Ret (r\<lparr>pools := ps\<rparr>))"

section \<open>Queries\<close>

fun all_of :: "'t component_traits \<Rightarrow> 't list \<Rightarrow> entity \<Rightarrow> ('t, 'a) registry \<Rightarrow> bool outcome" where
  "all_of tr [] e r = Ret True"
| "all_of tr (ty # tys) e r =
     obind (assure_const ty (type_hash tr ty) r) (\<lambda>cpool.
     obind (case cpool of None \<Rightarrow> Ret False | Some st \<Rightarrow> st_contains st e) (\<lambda>found.
       if found then all_of tr tys e r else Ret False))"

fun any_of :: "'t component_traits \<Rightarrow> 't list \<Rightarrow> entity \<Rightarrow> ('t, 'a) registry \<Rightarrow> bool outcome" where
  "any_of tr [] e r = Ret False"
| "any_of tr (ty # tys) e r = obind (all_of tr [ty] e r) (\<lambda>found. if found then Ret True else any_of tr tys e r)"

text \<open>The read-only \<open>get\<close> follows the pointer that \<open>assure\<close> gives, which may be null.\<close>

definition reg_get_const :: "'t component_traits \<Rightarrow> 't \<Rightarrow> entity \<Rightarrow> ('t, 'a) registry \<Rightarrow> 'a outcome" where
  "reg_get_const tr ty e r =
     obind (assure_const ty (type_hash tr ty) r) (\<lambda>cpool. case cpool of None \<Rightarrow> Undefined | Some st \<Rightarrow> st_get e st)"

definition reg_get :: "'t component_traits \<Rightarrow> 't \<Rightarrow> entity \<Rightarrow> ('t, 'a) registry \<Rightarrow> ('a \<times> ('t, 'a) registry) outcome" where
  "reg_get tr ty e = with_pool tr ty (\<lambda>st. obind (st_get e st) (\<lambda>x. Ret (x, st)))"

definition try_get :: "'t component_traits \<Rightarrow> 't \<Rightarrow> entity \<Rightarrow> ('t, 'a) registry \<Rightarrow> 'a option outcome" where
  "try_get tr ty e r =
     obind (assure_const ty (type_hash tr ty) r) (\<lambda>cpool.
       case cpool of
         None \<Rightarrow> Ret None
       | Some st \<Rightarrow> obind (st_contains st e) (\<lambda>found. if found then obind (st_get e st) (\<lambda>x. Ret (Some x)) else Ret None))"

fun orphan_in :: "entity \<Rightarrow> (32 word \<times> ('t, 'a) pool) list \<Rightarrow> bool outcome" where
  "orphan_in e [] = Ret True"
| "orphan_in e (q # ps) =
     obind (st_contains (pool_storage (snd q)) e) (\<lambda>found. if found then Ret False else orphan_in e ps)"

definition orphan :: "entity \<Rightarrow> ('t, 'a) registry \<Rightarrow> bool outcome" where
  "orphan e r = orphan_in e (pools r)"

section \<open>Clearing and swapping\<close>

fun clear_types :: "'t component_traits \<Rightarrow> 't list \<Rightarrow> ('t, 'a) registry \<Rightarrow> ('t, 'a) registry outcome" where
  "clear_types tr [] r = Ret r"
| "clear_types tr (ty # tys) r =
     obind (with_pool tr ty (\<lambda>st. obind (st_clear st) (\<lambda>st1. Ret ((), st1))) r) (\<lambda>(u, r1). clear_types tr tys r1)"

definition reg_clear :: "('t, 'a) registry \<Rightarrow> ('t, 'a) registry outcome" where
  "reg_clear r =
     obind (visit_pools st_clear (length (pools r)) r) (\<lambda>r1.
     obind (pop (begin_live (entities r1)) 0 (entities r1)) (\<lambda>s. Ret (r1\<lparr>entities := s\<rparr>)))"

definition reg_swap :: "('t, 'a) registry \<Rightarrow> ('t, 'a) registry \<Rightarrow> ('t, 'a) registry \<times> ('t, 'a) registry" where
  "reg_swap a b = (b, a)"

end
