(* ===== verification/View.thy ===== *)
theory View
  imports Registry
begin

text \<open>
  Views of \<open>core/common/entt.hpp\<close>: \<open>basic_common_view\<close> and \<open>basic_view\<close> over several storages,
  \<open>basic_storage_view\<close> over a single packed one, and \<open>basic_runtime_view\<close>. A view holds pointers to
  storages it does not own; a pointer is a number, and \<open>h\<close> or \<open>g\<close> is what the pointers lead to at
  the time of the call. Iterators are those of the sparse set: one more than the position, and
  zero at the end, where the iteration from last to first stops. The functions that the user
  passes to \<open>each\<close> are not modelled; what they are called with is the answer.
\<close>

section \<open>Skipping what a view does not show\<close>

fun seek :: "(nat \<Rightarrow> bool outcome) \<Rightarrow> nat \<Rightarrow> nat outcome" where
  "seek ok 0 = Ret 0"
| "seek ok (Suc n) = obind (ok (Suc n)) (\<lambda>b. if b then Ret (Suc n) else seek ok n)"

lemma seek_le: "seek ok n = Ret it \<Longrightarrow> it \<le> n"
  by (induction n) (auto simp: obind_eq_Ret_iff le_Suc_eq split: if_splits)

text \<open>A loop over a view: take what the iterator shows, advance, until the end.\<close>

function walk :: "(nat \<Rightarrow> bool outcome) \<Rightarrow> (nat \<Rightarrow> 'b outcome) \<Rightarrow> nat \<Rightarrow> 'b list outcome" where
  "walk ok out 0 = Ret []"
| "walk ok out (Suc n) =
     obind (out (Suc n)) (\<lambda>x. obind (seek ok n) (\<lambda>it. obind (walk ok out it) (\<lambda>xs. Ret (x # xs))))"
  by pat_completeness auto
termination
  by (relation "measure (\<lambda>(ok, out, n). n)") (auto dest: seek_le)

fun otraverse :: "('x \<Rightarrow> 'b outcome) \<Rightarrow> 'x list \<Rightarrow> 'b list outcome" where
  "otraverse f [] = Ret []"
| "otraverse f (x # xs) = obind (f x) (\<lambda>y. obind (otraverse f xs) (\<lambda>ys. Ret (y # ys)))"

section \<open>Views over several storages\<close>

record view =
  view_pools :: "nat option list"
  view_filter :: "nat option list"
  leading :: "nat option"
  view_index :: nat

definition pool_at :: "nat \<Rightarrow> nat option list \<Rightarrow> nat outcome" where
  "pool_at pos ps = (if pos < length ps then case ps ! pos of Some p \<Rightarrow> Ret p | None \<Rightarrow> Undefined else Undefined)"

text \<open>The loops stop at the first pool that does not contain the identifier.\<close>

function containing :: "(nat \<Rightarrow> sparse_set) \<Rightarrow> nat option list \<Rightarrow> entity \<Rightarrow> nat \<Rightarrow> nat \<Rightarrow> nat outcome" where
  "containing h ps e stop pos =
     (if pos = stop then Ret pos
      else if length ps \<le> pos then Undefined
      else obind (pool_at pos ps) (\<lambda>p. obind (contains (h p) e) (\<lambda>found.
        if found then containing h ps e stop (pos + 1) else Ret pos)))"
  by pat_completeness auto
termination
  by (relation "measure (\<lambda>(h, ps, e, stop, pos). length ps - pos)") auto

declare containing.simps [simp del]

definition all_of_but :: "nat \<Rightarrow> (nat \<Rightarrow> sparse_set) \<Rightarrow> nat option list \<Rightarrow> entity \<Rightarrow> bool outcome" where
  "all_of_but i h ps e =
     obind (containing h ps e i 0) (\<lambda>pos.
     obind (if pos = i then containing h ps e (length ps) (pos + 1) else Ret pos) (\<lambda>pos1. Ret (pos1 = length ps)))"

fun none_of :: "(nat \<Rightarrow> sparse_set) \<Rightarrow> nat option list \<Rightarrow> entity \<Rightarrow> bool outcome" where
  "none_of h [] e = Ret True"
| "none_of h (p # ps) e =
     (case p of None \<Rightarrow> none_of h ps e
      | Some q \<Rightarrow> obind (contains (h q) e) (\<lambda>found. if found then Ret False else none_of h ps e))"

definition fully_initialized :: "nat option list \<Rightarrow> bool" where
  "fully_initialized ps = list_all (\<lambda>p. p \<noteq> None) ps"

subsection \<open>The leading storage\<close>

fun smallest_pool :: "(nat \<Rightarrow> sparse_set) \<Rightarrow> nat option list \<Rightarrow> nat list \<Rightarrow> nat \<Rightarrow> nat outcome" where
  "smallest_pool h ps [] i = Ret i"
| "smallest_pool h ps (pos # rest) i =
     obind (pool_at pos ps) (\<lambda>p. obind (pool_at i ps) (\<lambda>q.
       smallest_pool h ps rest (if length (elements (h p)) < length (elements (h q)) then pos else i)))"

definition unchecked_refresh :: "(nat \<Rightarrow> sparse_set) \<Rightarrow> view \<Rightarrow> view outcome" where
  "unchecked_refresh h v =
     obind (smallest_pool h (view_pools v) [1..<length (view_pools v)] 0) (\<lambda>i.
       if i < length (view_pools v) then Ret (v\<lparr>leading := view_pools v ! i, view_index := i\<rparr>) else Undefined)"

definition view_refresh :: "(nat \<Rightarrow> sparse_set) \<Rightarrow> view \<Rightarrow> view outcome" where
  "view_refresh h v =
     (let get = length (view_pools v);
          pos = (if leading v \<noteq> None then get else length (takeWhile (\<lambda>p. p \<noteq> None) (view_pools v))) in
      if pos = get then unchecked_refresh h v else Ret v)"

definition view_empty :: "nat \<Rightarrow> nat \<Rightarrow> view" where
  "view_empty get exclude = \<lparr>view_pools = replicate get None, view_filter = replicate exclude None, leading = None, view_index = get\<rparr>"

definition view_new :: "(nat \<Rightarrow> sparse_set) \<Rightarrow> nat list \<Rightarrow> nat list \<Rightarrow> view outcome" where
  "view_new h ps fs =
     unchecked_refresh h \<lparr>view_pools = map Some ps, view_filter = map Some fs, leading = None, view_index = length ps\<rparr>"

definition view_use :: "nat \<Rightarrow> view \<Rightarrow> view outcome" where
  "view_use pos v =
     (if leading v = None then Ret v
      else if pos < length (view_pools v) then Ret (v\<lparr>view_index := pos, leading := view_pools v ! pos\<rparr>) else Undefined)"

definition view_storage :: "nat \<Rightarrow> nat \<Rightarrow> (nat \<Rightarrow> sparse_set) \<Rightarrow> view \<Rightarrow> view outcome" where
  "view_storage i p h v =
     (if i < length (view_pools v) then view_refresh h (v\<lparr>view_pools := (view_pools v)[i := Some p]\<rparr>)
      else Ret (v\<lparr>view_filter := (view_filter v)[i - length (view_pools v) := Some p]\<rparr>))"

definition view_pack :: "(nat \<Rightarrow> sparse_set) \<Rightarrow> view \<Rightarrow> view \<Rightarrow> view outcome" where
  "view_pack h v w =
     view_refresh h \<lparr>view_pools = view_pools v @ view_pools w, view_filter = view_filter v @ view_filter w,
       leading = None, view_index = length (view_pools v @ view_pools w)\<rparr>"

definition view_size_hint :: "(nat \<Rightarrow> sparse_set) \<Rightarrow> view \<Rightarrow> nat" where
  "view_size_hint h v = (case leading v of None \<Rightarrow> 0 | Some p \<Rightarrow> length (elements (h p)))"

definition view_ready :: "view \<Rightarrow> bool" where
  "view_ready v \<longleftrightarrow> leading v \<noteq> None \<and> fully_initialized (view_filter v)"

subsection \<open>Iteration and queries\<close>

text \<open>The pool that leads the iteration is not asked again, so with one pool tombstones are.\<close>

definition view_shows :: "view \<Rightarrow> (nat \<Rightarrow> sparse_set) \<Rightarrow> entity \<Rightarrow> bool outcome" where
  "view_shows v h e =
     (if length (view_pools v) = 1 \<and> is_tombstone e then Ret False
      else obind (all_of_but (view_index v) h (view_pools v) e) (\<lambda>all.
        if all then none_of h (view_filter v) e else Ret False))"

definition view_valid :: "view \<Rightarrow> (nat \<Rightarrow> sparse_set) \<Rightarrow> nat \<Rightarrow> nat \<Rightarrow> bool outcome" where
  "view_valid v h p it = obind (deref it (h p)) (view_shows v h)"

definition view_begin :: "(nat \<Rightarrow> sparse_set) \<Rightarrow> view \<Rightarrow> nat outcome" where
  "view_begin h v = (case leading v of None \<Rightarrow> Ret 0 | Some p \<Rightarrow> seek (view_valid v h p) (begin_live (h p)))"

definition view_next :: "(nat \<Rightarrow> sparse_set) \<Rightarrow> nat \<Rightarrow> view \<Rightarrow> nat outcome" where
  "view_next h it v =
     (case leading v of None \<Rightarrow> Undefined
      | Some p \<Rightarrow> (case it of 0 \<Rightarrow> Undefined | Suc n \<Rightarrow> seek (view_valid v h p) n))"

definition view_front :: "(nat \<Rightarrow> sparse_set) \<Rightarrow> view \<Rightarrow> entity outcome" where
  "view_front h v =
     (case leading v of None \<Rightarrow> Ret null_entity
      | Some p \<Rightarrow> obind (view_begin h v) (\<lambda>it. if it \<noteq> 0 then deref it (h p) else Ret null_entity))"

definition view_contains :: "(nat \<Rightarrow> sparse_set) \<Rightarrow> entity \<Rightarrow> view \<Rightarrow> bool outcome" where
  "view_contains h e v =
     (case leading v of None \<Rightarrow> Ret False
      | Some p \<Rightarrow> obind (ss_find (h p) e) (\<lambda>it.
          if it = 0 \<or> begin_live (h p) < it then Ret False
          else obind (all_of_but (view_index v) h (view_pools v) e) (\<lambda>all.
            if all then none_of h (view_filter v) e else Ret False)))"

fun first_contained :: "(nat \<Rightarrow> sparse_set) \<Rightarrow> view \<Rightarrow> entity list \<Rightarrow> entity outcome" where
  "first_contained h v [] = Ret null_entity"
| "first_contained h v (e # es) = obind (view_contains h e v) (\<lambda>b. if b then Ret e else first_contained h v es)"

definition view_back :: "(nat \<Rightarrow> sparse_set) \<Rightarrow> view \<Rightarrow> entity outcome" where
  "view_back h v =
     (case leading v of None \<Rightarrow> Ret null_entity
      | Some p \<Rightarrow> first_contained h v (take (begin_live (h p)) (elements (h p))))"

definition view_find :: "(nat \<Rightarrow> sparse_set) \<Rightarrow> entity \<Rightarrow> view \<Rightarrow> nat outcome" where
  "view_find h e v =
     obind (view_contains h e v) (\<lambda>b.
       if b then case leading v of None \<Rightarrow> Undefined | Some p \<Rightarrow> obind (ss_find (h p) e) (seek (view_valid v h p)) else Ret 0)"

definition view_get :: "(nat \<Rightarrow> 'a storage) \<Rightarrow> entity \<Rightarrow> view \<Rightarrow> 'a list outcome" where
  "view_get g e v = otraverse (\<lambda>p. case p of None \<Rightarrow> Undefined | Some q \<Rightarrow> st_get e (g q)) (view_pools v)"

text \<open>The loop \<open>for(auto e: view)\<close>, and the one over the tuples that \<open>each()\<close> gives.\<close>

definition view_list :: "(nat \<Rightarrow> sparse_set) \<Rightarrow> view \<Rightarrow> entity list outcome" where
  "view_list h v =
     (case leading v of None \<Rightarrow> Ret []
      | Some p \<Rightarrow> obind (view_begin h v) (walk (view_valid v h p) (\<lambda>it. deref it (h p))))"

definition view_tuples :: "(nat \<Rightarrow> 'a storage) \<Rightarrow> view \<Rightarrow> (entity \<times> 'a list) list outcome" where
  "view_tuples g v =
     (case leading v of None \<Rightarrow> Ret []
      | Some p \<Rightarrow> obind (view_begin (\<lambda>p. base (g p)) v) (walk (view_valid v (\<lambda>p. base (g p)) p)
          (\<lambda>it. obind (deref it (base (g p))) (\<lambda>e. obind (view_get g e v) (\<lambda>xs. Ret (e, xs))))))"

subsection \<open>The function of each\<close>

text \<open>
  \<open>each(func)\<close> runs through the storage of every index whose storage leads. The objects of that
  storage come from its own iterator, those of the others from \<open>get\<close>.
\<close>

definition each_objects :: "(nat \<Rightarrow> 'a storage) \<Rightarrow> view \<Rightarrow> nat \<Rightarrow> nat \<Rightarrow> entity \<Rightarrow> 'a list outcome" where
  "each_objects g v i pos e =
     otraverse (\<lambda>k. obind (pool_at k (view_pools v)) (\<lambda>q. if k = i then read_element pos (g q) else st_get e (g q)))
       [0..<length (view_pools v)]"

fun each_at :: "(nat \<Rightarrow> 'a storage) \<Rightarrow> view \<Rightarrow> nat \<Rightarrow> nat \<Rightarrow> nat \<Rightarrow> (entity \<times> 'a list) list outcome" where
  "each_at g v i p 0 = Ret []"
| "each_at g v i p (Suc n) =
     obind (deref (Suc n) (base (g p))) (\<lambda>e. obind (view_shows v (\<lambda>p. base (g p)) e) (\<lambda>b.
       if b then obind (each_objects g v i n e) (\<lambda>xs. obind (each_at g v i p n) (\<lambda>r. Ret ((e, xs) # r)))
       else each_at g v i p n))"

fun pick_and_each :: "(nat \<Rightarrow> 'a storage) \<Rightarrow> view \<Rightarrow> nat list \<Rightarrow> (entity \<times> 'a list) list outcome" where
  "pick_and_each g v [] = Ret []"
| "pick_and_each g v (i # ks) =
     obind (if view_pools v ! i = leading v
            then obind (pool_at i (view_pools v)) (\<lambda>p. each_at g v i p (begin_from (base (g p)))) else Ret []) (\<lambda>xs.
     obind (pick_and_each g v ks) (\<lambda>ys. Ret (xs @ ys)))"

definition view_each :: "(nat \<Rightarrow> 'a storage) \<Rightarrow> view \<Rightarrow> (entity \<times> 'a list) list outcome" where
  "view_each g v = (if leading v \<noteq> None then pick_and_each g v [0..<length (view_pools v)] else Ret [])"

section \<open>Views over one packed storage\<close>

definition single_size :: "(nat \<Rightarrow> sparse_set) \<Rightarrow> nat option \<Rightarrow> nat" where
  "single_size h v = (case v of None \<Rightarrow> 0 | Some p \<Rightarrow> length (elements (h p)))"

definition single_empty :: "(nat \<Rightarrow> sparse_set) \<Rightarrow> nat option \<Rightarrow> bool" where
  "single_empty h v = (case v of None \<Rightarrow> True | Some p \<Rightarrow> elements (h p) = [])"

definition single_front :: "(nat \<Rightarrow> sparse_set) \<Rightarrow> nat option \<Rightarrow> entity outcome" where
  "single_front h v =
     (if single_empty h v then Ret null_entity else case v of None \<Rightarrow> Undefined | Some p \<Rightarrow> deref (begin_from (h p)) (h p))"

definition single_back :: "(nat \<Rightarrow> sparse_set) \<Rightarrow> nat option \<Rightarrow> entity outcome" where
  "single_back h v =
     (if single_empty h v then Ret null_entity else case v of None \<Rightarrow> Undefined | Some p \<Rightarrow> read_at 0 (h p))"

definition single_find :: "(nat \<Rightarrow> sparse_set) \<Rightarrow> entity \<Rightarrow> nat option \<Rightarrow> nat outcome" where
  "single_find h e v = (case v of None \<Rightarrow> Ret 0 | Some p \<Rightarrow> ss_find (h p) e)"

definition single_contains :: "(nat \<Rightarrow> sparse_set) \<Rightarrow> entity \<Rightarrow> nat option \<Rightarrow> bool outcome" where
  "single_contains h e v = (case v of None \<Rightarrow> Ret False | Some p \<Rightarrow> contains (h p) e)"

definition single_get :: "(nat \<Rightarrow> 'a storage) \<Rightarrow> entity \<Rightarrow> nat option \<Rightarrow> 'a outcome" where
  "single_get g e v = (case v of None \<Rightarrow> Undefined | Some p \<Rightarrow> st_get e (g p))"

fun tuples_down :: "'a storage \<Rightarrow> nat \<Rightarrow> (entity \<times> 'a) list outcome" where
  "tuples_down s 0 = Ret []"
| "tuples_down s (Suc n) =
     obind (deref (Suc n) (base s)) (\<lambda>e. obind (read_element n s) (\<lambda>x. obind (tuples_down s n) (\<lambda>r. Ret ((e, x) # r))))"

definition single_each :: "(nat \<Rightarrow> 'a storage) \<Rightarrow> nat option \<Rightarrow> (entity \<times> 'a) list outcome" where
  "single_each g v = (case v of None \<Rightarrow> Ret [] | Some p \<Rightarrow> tuples_down (g p) (begin_from (base (g p))))"

section \<open>Views composed at run time\<close>

record runtime_view =
  run_pools :: "nat list"
  run_filter :: "nat list"

definition rv_new :: runtime_view where
  "rv_new = \<lparr>run_pools = [], run_filter = []\<rparr>"

text \<open>The smallest storage is kept in front.\<close>

definition rv_iterate :: "nat \<Rightarrow> (nat \<Rightarrow> sparse_set) \<Rightarrow> runtime_view \<Rightarrow> runtime_view" where
  "rv_iterate p h v =
     (case run_pools v of
        [] \<Rightarrow> v\<lparr>run_pools := [p]\<rparr>
      | q # qs \<Rightarrow>
          if \<not> length (elements (h p)) < length (elements (h q)) then v\<lparr>run_pools := run_pools v @ [p]\<rparr>
          else v\<lparr>run_pools := (p # qs) @ [q]\<rparr>)"

definition rv_exclude :: "nat \<Rightarrow> runtime_view \<Rightarrow> runtime_view" where
  "rv_exclude p v = v\<lparr>run_filter := run_filter v @ [p]\<rparr>"

definition rv_clear :: "runtime_view \<Rightarrow> runtime_view" where
  "rv_clear v = v\<lparr>run_pools := [], run_filter := []\<rparr>"

definition rv_swap :: "runtime_view \<Rightarrow> runtime_view \<Rightarrow> runtime_view \<times> runtime_view" where
  "rv_swap v w = (w, v)"

definition rv_size_hint :: "(nat \<Rightarrow> sparse_set) \<Rightarrow> runtime_view \<Rightarrow> nat" where
  "rv_size_hint h v = (case run_pools v of [] \<Rightarrow> 0 | p # ps \<Rightarrow> length (elements (h p)))"

fun all_contain :: "(nat \<Rightarrow> sparse_set) \<Rightarrow> nat list \<Rightarrow> entity \<Rightarrow> bool outcome" where
  "all_contain h [] e = Ret True"
| "all_contain h (p # ps) e = obind (contains (h p) e) (\<lambda>found. if found then all_contain h ps e else Ret False)"

definition rv_shows :: "runtime_view \<Rightarrow> (nat \<Rightarrow> sparse_set) \<Rightarrow> nat list \<Rightarrow> entity \<Rightarrow> bool outcome" where
  "rv_shows v h ps e = obind (all_contain h ps e) (\<lambda>all. if all then none_of h (map Some (run_filter v)) e else Ret False)"

definition rv_valid :: "runtime_view \<Rightarrow> (nat \<Rightarrow> sparse_set) \<Rightarrow> nat \<Rightarrow> bool outcome" where
  "rv_valid v h it =
     (case run_pools v of
        [] \<Rightarrow> Undefined
      | p # ps \<Rightarrow> obind (deref it (h p)) (\<lambda>e.
          if ps = [] \<and> mode (h p) = In_place \<and> is_tombstone e then Ret False else rv_shows v h ps e))"

definition rv_begin :: "(nat \<Rightarrow> sparse_set) \<Rightarrow> runtime_view \<Rightarrow> nat outcome" where
  "rv_begin h v = (case run_pools v of [] \<Rightarrow> Ret 0 | p # ps \<Rightarrow> seek (rv_valid v h) (begin_from (h p)))"

definition rv_next :: "(nat \<Rightarrow> sparse_set) \<Rightarrow> nat \<Rightarrow> runtime_view \<Rightarrow> nat outcome" where
  "rv_next h it v = (case it of 0 \<Rightarrow> Undefined | Suc n \<Rightarrow> seek (rv_valid v h) n)"

text \<open>Going back stops at the first position whether it is shown or not.\<close>

function seek_back :: "(nat \<Rightarrow> bool outcome) \<Rightarrow> nat \<Rightarrow> nat \<Rightarrow> nat outcome" where
  "seek_back ok m it =
     (if it + 1 = m then Ret m
      else if m \<le> it then Undefined
      else obind (ok (it + 1)) (\<lambda>b. if b then Ret (it + 1) else seek_back ok m (it + 1)))"
  by pat_completeness auto
termination
  by (relation "measure (\<lambda>(ok, m, it). m - it)") auto

declare seek_back.simps [simp del]

definition rv_prev :: "(nat \<Rightarrow> sparse_set) \<Rightarrow> nat \<Rightarrow> runtime_view \<Rightarrow> nat outcome" where
  "rv_prev h it v = (case run_pools v of [] \<Rightarrow> Undefined | p # ps \<Rightarrow> seek_back (rv_valid v h) (begin_from (h p)) it)"

definition rv_contains :: "(nat \<Rightarrow> sparse_set) \<Rightarrow> entity \<Rightarrow> runtime_view \<Rightarrow> bool outcome" where
  "rv_contains h e v = (if run_pools v = [] then Ret False else rv_shows v h (run_pools v) e)"

definition rv_each :: "(nat \<Rightarrow> sparse_set) \<Rightarrow> runtime_view \<Rightarrow> entity list outcome" where
  "rv_each h v =
     (case run_pools v of [] \<Rightarrow> Ret []
      | p # ps \<Rightarrow> obind (rv_begin h v) (walk (rv_valid v h) (\<lambda>it. deref it (h p))))"

section \<open>Views of a registry\<close>

text \<open>The pointer to a pool is its place in the list of pools, which only grows.\<close>

definition pool_ptr :: "32 word \<Rightarrow> ('t, 'a) registry \<Rightarrow> nat" where
  "pool_ptr h r = length (takeWhile (\<lambda>q. fst q \<noteq> h) (pools r))"

definition pool_heap :: "('t, 'a) registry \<Rightarrow> nat \<Rightarrow> 'a storage" where
  "pool_heap r i = pool_storage (snd (pools r ! i))"

fun assure_all :: "'t component_traits \<Rightarrow> 't list \<Rightarrow> ('t, 'a) registry \<Rightarrow> (nat list \<times> ('t, 'a) registry) outcome" where
  "assure_all tr [] r = Ret ([], r)"
| "assure_all tr (ty # tys) r =
     obind (assure tr ty (type_hash tr ty) r) (\<lambda>(st, r1).
     obind (assure_all tr tys r1) (\<lambda>(ps, r2). Ret (pool_ptr (type_hash tr ty) r1 # ps, r2)))"

text \<open>
  The view of the registry, with the class for several storages for every list of types. For a
  single type with packed objects and no filter the source picks the class for one storage, on the
  same pool; \<open>single_view_agrees\<close> in \<open>ViewCorrect\<close> shows that the two answer alike there.
\<close>

definition reg_view ::
    "'t component_traits \<Rightarrow> 't list \<Rightarrow> 't list \<Rightarrow> ('t, 'a) registry \<Rightarrow> (view \<times> ('t, 'a) registry) outcome" where
  "reg_view tr gets exs r =
     obind (assure_all tr gets r) (\<lambda>(ps, r1). obind (assure_all tr exs r1) (\<lambda>(fs, r2).
     obind (view_new (\<lambda>p. base (pool_heap r2 p)) ps fs) (\<lambda>v. Ret (v, r2))))"

text \<open>The read-only one takes the pools there are, in the order of the types.\<close>

fun set_storages ::
    "'t component_traits \<Rightarrow> ('t, 'a) registry \<Rightarrow> (nat \<times> 't) list \<Rightarrow> view \<Rightarrow> view outcome" where
  "set_storages tr r [] v = Ret v"
| "set_storages tr r ((i, ty) # tys) v =
     obind (assure_const ty (type_hash tr ty) r) (\<lambda>cpool.
     obind (case cpool of None \<Rightarrow> Ret v | Some st \<Rightarrow> view_storage i (pool_ptr (type_hash tr ty) r) (\<lambda>p. base (pool_heap r p)) v)
       (set_storages tr r tys))"

definition reg_view_const :: "'t component_traits \<Rightarrow> 't list \<Rightarrow> 't list \<Rightarrow> ('t, 'a) registry \<Rightarrow> view outcome" where
  "reg_view_const tr gets exs r =
     set_storages tr r (enumerate 0 (gets @ exs)) (view_empty (length gets) (length exs))"

end
