(* ===== verification/SparseSetCorrect.thy ===== *)
theory SparseSetCorrect
  imports SparseSet
begin

unbundle bit_operations_syntax

text \<open>
  The sparse set is right: what a look-up in the sparse array answers after every write, the
  invariant that ties the two arrays together for any set of live positions, and what
  inserting and removing do to it under each policy.
\<close>

section \<open>References into the sparse array\<close>

definition slot :: "entity \<Rightarrow> nat \<times> nat" where
  "slot e = (unat (to_entity e) div page_size, unat (to_entity e) mod page_size)"

definition pages_ok :: "sparse_set \<Rightarrow> bool" where
  "pages_ok s \<longleftrightarrow> (\<forall>p. Some p \<in> set (pages s) \<longrightarrow> length p = page_size)"

definition lookup :: "sparse_set \<Rightarrow> entity \<Rightarrow> entity option" where
  "lookup s e =
     (if fst (slot e) < length (pages s)
      then map_option (\<lambda>p. p ! snd (slot e)) (pages s ! fst (slot e)) else None)"

definition set_ref :: "entity \<Rightarrow> entity \<Rightarrow> sparse_set \<Rightarrow> sparse_set" where
  "set_ref e v s = s\<lparr>pages := (pages s)[fst (slot e) := map_option (\<lambda>p. p[snd (slot e) := v]) (pages s ! fst (slot e))]\<rparr>"

lemma page_size_pos [simp]: "0 < page_size"
  by (simp add: page_size_def)

lemma fast_mod_page: "fast_mod (ucast (to_entity e)) (of_nat page_size) = Ret (of_nat (snd (slot e)))"
proof -
  have "unat (ucast (to_entity e) :: 64 word) = unat (to_entity e)"
    using unat_bounds(2) [of "to_entity e"] by (simp add: unsigned_ucast_eq take_bit_eq_mod)
  with fast_mod_power [of 12 "ucast (to_entity e)"] show ?thesis by (simp add: slot_def page_size_def)
qed

lemma unat_off [simp]: "unat (of_nat (snd (slot e)) :: 64 word) = snd (slot e)"
proof -
  have "snd (slot e) < 4096" by (simp add: slot_def page_size_def)
  then show ?thesis by (simp add: unat_of_nat)
qed

lemma slot_eq_iff: "slot a = slot b \<longleftrightarrow> to_entity a = to_entity b"
proof
  assume "slot a = slot b"
  then have "unat (to_entity a) = unat (to_entity b)" unfolding slot_def by (metis div_mult_mod_eq fst_conv snd_conv)
  then show "to_entity a = to_entity b" by (simp add: word_unat_eq_iff)
qed (simp add: slot_def)

lemma slot_snd [simp]: "snd (slot e) < page_size"
  by (simp add: slot_def)

lemma lookup_cong: "to_entity a = to_entity b \<Longrightarrow> lookup s a = lookup s b"
  by (simp add: lookup_def slot_def)

lemma sparse_ptr_eq: "sparse_ptr s e = Ret (if lookup s e = None then None else Some (slot e))"
  by (simp add: sparse_ptr_def Let_def fast_mod_page lookup_def) (simp add: slot_def)

lemma sparse_ref_eq: "sparse_ref s e = (if lookup s e = None then Aborts else Ret (slot e))"
  by (simp add: sparse_ref_def sparse_ptr_eq Let_def fast_mod_page) (simp add: slot_def)

lemma read_ref_eq: "pages_ok s \<Longrightarrow> lookup s e = Some v \<Longrightarrow> read_ref s (slot e) = Ret v"
  by (auto simp: read_ref_def lookup_def pages_ok_def split: if_splits option.splits) (metis nth_mem slot_snd)

lemma write_ref_eq: "pages_ok s \<Longrightarrow> lookup s e = Some v \<Longrightarrow> write_ref (slot e) w s = Ret (set_ref e w s)"
  by (auto simp: write_ref_def set_ref_def lookup_def pages_ok_def split: if_splits option.splits) (metis nth_mem slot_snd)

lemma set_ref_fields [simp]:
  "elements (set_ref e v s) = elements s" "mode (set_ref e v s) = mode s" "head (set_ref e v s) = head s"
  "length (pages (set_ref e v s)) = length (pages s)"
  by (simp_all add: set_ref_def)

lemma pages_ok_set_ref [simp]: "pages_ok s \<Longrightarrow> pages_ok (set_ref e v s)"
proof -
  assume ok: "pages_ok s"
  have "length p = page_size" if "Some p \<in> set (pages (set_ref e v s))" for p
  proof -
    from that obtain k where k: "k < length (pages s)" "pages (set_ref e v s) ! k = Some p"
      by (metis in_set_conv_nth set_ref_fields(4))
    then have "\<exists>q. pages s ! k = Some q \<and> length q = length p" by (cases "k = fst (slot e)") (auto simp: set_ref_def)
    with k(1) ok show ?thesis by (metis nth_mem pages_ok_def)
  qed
  then show ?thesis by (simp add: pages_ok_def)
qed

lemma lookup_set_ref:
  assumes "pages_ok s" "lookup s e \<noteq> None"
  shows "lookup (set_ref e v s) d = (if to_entity d = to_entity e then Some v else lookup s d)"
proof -
  obtain p where p: "fst (slot e) < length (pages s)" "pages s ! fst (slot e) = Some p"
    using assms(2) by (auto simp: lookup_def split: if_splits)
  then have "length p = page_size" using assms(1) by (metis nth_mem pages_ok_def)
  with p show ?thesis
    by (auto simp: lookup_def set_ref_def nth_list_update slot_eq_iff [symmetric] prod_eq_iff slot_snd)
qed

lemma lookup_fields [simp]:
  "lookup (s\<lparr>elements := es\<rparr>) = lookup s" "lookup (s\<lparr>head := h\<rparr>) = lookup s" "lookup (s\<lparr>mode := m\<rparr>) = lookup s"
  "pages_ok (s\<lparr>elements := es\<rparr>) = pages_ok s" "pages_ok (s\<lparr>head := h\<rparr>) = pages_ok s" "pages_ok (s\<lparr>mode := m\<rparr>) = pages_ok s"
  by (simp_all add: lookup_def pages_ok_def fun_eq_iff)

text \<open>The page of an identifier is there afterwards and every other entry reads as before.\<close>

lemma assure_at_least_spec:
  assumes "pages_ok s"
  shows "\<exists>s'. assure_at_least e s = Ret (slot e, s') \<and> pages_ok s' \<and> elements s' = elements s \<and> mode s' = mode s \<and> head s' = head s \<and>
    lookup s' e = Some (case lookup s e of None \<Rightarrow> null_entity | Some v \<Rightarrow> v) \<and>
    (\<forall>d. lookup s' d = lookup s d \<or> lookup s d = None \<and> lookup s' d = Some null_entity)"
proof -
  define page where "page = fst (slot e)"
  define ps1 where "ps1 = (if page < length (pages s) then pages s else pages s @ replicate (page + 1 - length (pages s)) None)"
  define ps2 where "ps2 = (if ps1 ! page = None then ps1[page := Some (replicate page_size null_entity)] else ps1)"
  let ?s = "s\<lparr>pages := ps2\<rparr>"
  have len1: "page < length ps1" by (simp add: ps1_def)
  have nth1: "ps1 ! k = (if k < length (pages s) then pages s ! k else None)" if "k < length ps1" for k
    using that by (auto simp: ps1_def nth_append split: if_splits)
  have len2: "length ps2 = length ps1" by (simp add: ps2_def)
  have nth2: "ps2 ! k = (if k = page \<and> ps1 ! k = None then Some (replicate page_size null_entity) else ps1 ! k)" if "k < length ps1" for k
    using that by (auto simp: ps2_def nth_list_update)
  have ge: "length (pages s) \<le> length ps1" by (simp add: ps1_def)
  have "assure_at_least e s = Ret (slot e, ?s)"
    by (simp add: assure_at_least_def Let_def fast_mod_page page_def ps1_def ps2_def) (auto simp: slot_def)
  moreover have "pages_ok ?s"
  proof -
    have "length p = page_size" if p: "Some p \<in> set ps2" for p
    proof -
      obtain k where k: "k < length ps1" "ps2 ! k = Some p" using p len2 by (metis in_set_conv_nth)
      show ?thesis
      proof (cases "k = page \<and> ps1 ! k = None")
        case True
        from nth2 [OF k(1)] have "ps2 ! k = Some (replicate page_size null_entity)" unfolding if_P [OF True] .
        with k(2) show ?thesis by auto
      next
        case False
        with k nth2 [OF k(1)] have "ps1 ! k = Some p" by (auto split: if_splits)
        with nth1 [OF k(1)] have "k < length (pages s)" "pages s ! k = Some p" by (auto split: if_splits)
        with assms show ?thesis by (metis nth_mem pages_ok_def)
      qed
    qed
    then show ?thesis by (simp add: pages_ok_def)
  qed
  moreover have "lookup ?s d = lookup s d \<or> lookup s d = None \<and> lookup ?s d = Some null_entity" for d
  proof (cases "fst (slot d) < length ps1")
    case True
    then show ?thesis using nth1 [OF True] nth2 [OF True] len2 by (auto simp: lookup_def)
  next
    case False
    then show ?thesis using ge len2 by (simp add: lookup_def)
  qed
  moreover have "lookup ?s e = Some (case lookup s e of None \<Rightarrow> null_entity | Some v \<Rightarrow> v)"
    using nth1 [OF len1] nth2 [OF len1] len1 len2 by (auto simp: lookup_def page_def [symmetric] split: option.splits)
  ultimately show ?thesis by (intro exI [of _ ?s]) simp
qed

section \<open>The two arrays agree\<close>

text \<open>
  \<open>placed L s\<close>: the positions \<open>L\<close> of the packed array hold identifiers of different entities,
  the sparse array has for each of them its position and its version, and no other entity has
  an entry that is not null.
\<close>

definition placed :: "nat set \<Rightarrow> sparse_set \<Rightarrow> bool" where
  "placed L s \<longleftrightarrow> pages_ok s \<and> L \<subseteq> {..<length (elements s)} \<and> length (elements s) < 2 ^ 20 \<and>
     inj_on (\<lambda>i. to_entity (elements s ! i)) L \<and>
     (\<forall>i\<in>L. lookup s (elements s ! i) = Some (combine (of_nat i) (elements s ! i))) \<and>
     (\<forall>e. to_entity e \<notin> (\<lambda>i. to_entity (elements s ! i)) ` L \<longrightarrow> lookup s e = None \<or> lookup s e = Some null_entity)"

definition members :: "nat set \<Rightarrow> sparse_set \<Rightarrow> entity set" where
  "members L s = (!) (elements s) ` L"

lemma placedD:
  assumes "placed L s"
  shows "pages_ok s" "length (elements s) < 2 ^ 20" "i \<in> L \<Longrightarrow> i < length (elements s)"
    "i \<in> L \<Longrightarrow> j \<in> L \<Longrightarrow> to_entity (elements s ! i) = to_entity (elements s ! j) \<longleftrightarrow> i = j"
    "i \<in> L \<Longrightarrow> lookup s (elements s ! i) = Some (combine (of_nat i) (elements s ! i))"
    "to_entity e \<notin> to_entity ` members L s \<Longrightarrow> lookup s e = None \<or> lookup s e = Some null_entity"
  using assms by (auto simp: placed_def members_def image_image dest: inj_onD)

lemma to_entity_of_nat:
  assumes "i < 2 ^ 20" shows "to_entity (of_nat i) = of_nat i" "unat (of_nat i :: 32 word) = i"
proof -
  show u: "unat (of_nat i :: 32 word) = i" using assms by (simp add: unat_of_nat)
  show "to_entity (of_nat i) = of_nat i" by (rule to_entity_small) (simp only: u assms)
qed

text \<open>The test of \<open>contains\<close> compares the versions and that the entry is not null.\<close>

lemma contains_test:
  "((to_integral null_entity AND NOT entity_mask) AND to_integral e) XOR to_integral v < entity_mask \<longleftrightarrow>
     to_version e = to_version v \<and> to_entity v \<noteq> entity_mask" (is "?w < _ \<longleftrightarrow> _")
proof -
  have ent: "to_entity ?w = to_entity v"
    by (rule bit_eqI) (auto simp: bit_to_entity to_integral_def entity_mask_eq bit_xor_iff bit_and_iff bit_not_iff bit_mask_iff null_bits)
  have "bit ((to_integral null_entity AND NOT entity_mask) AND to_integral e) (20 + i) = bit e (20 + i)" for i
    by (auto simp: to_integral_def entity_mask_eq bit_and_iff bit_not_iff bit_mask_iff null_bits dest: bit_imp_le_length)
  then have ver: "to_version ?w = to_version e XOR to_version v"
    by (intro bit_eqI) (auto simp: bit_to_version bit_xor_iff to_integral_def)
  have parts: "unat ?w = unat (to_version ?w) * 2 ^ 20 + unat (to_entity ?w)"
    by (simp add: to_version_unat to_entity_unat)
  have em: "unat entity_mask = 2 ^ 20 - 1" by (simp add: entity_mask_def)
  have small: "unat (to_entity ?w) < 2 ^ 20" by (simp add: to_entity_unat)
  have "?w < entity_mask \<longleftrightarrow> unat (to_version ?w) = 0 \<and> unat (to_entity ?w) \<noteq> 2 ^ 20 - 1"
    unfolding word_less_nat_alt em parts using small by (cases "unat (to_version ?w)") auto
  also have "unat (to_version ?w) = 0 \<longleftrightarrow> to_version e = to_version v"
    unfolding ver unat_eq_0 by (auto simp: bit_eq_iff bit_xor_iff)
  also have "unat (to_entity ?w) \<noteq> 2 ^ 20 - 1 \<longleftrightarrow> to_entity v \<noteq> entity_mask"
    unfolding ent em [symmetric] by (simp add: word_unat_eq_iff)
  finally show ?thesis .
qed

lemma not_mask_position: "i < 2 ^ 20 - 1 \<Longrightarrow> to_entity (combine (of_nat i) e) \<noteq> entity_mask"
proof -
  assume i: "i < 2 ^ 20 - 1"
  then have "unat (to_entity (combine (of_nat i) e)) = i" by (simp add: to_entity_of_nat)
  with i show ?thesis by (auto simp: entity_mask_def)
qed

lemma contains_spec:
  assumes "placed L s" shows "contains s e = Ret (e \<in> members L s)"
proof (cases "to_entity e \<in> to_entity ` members L s")
  case False
  then have "e \<notin> members L s" by blast
  moreover have "\<not> ((to_integral null_entity AND NOT entity_mask) AND to_integral e) XOR to_integral null_entity < entity_mask"
    unfolding contains_test by (simp add: to_entity_def to_integral_def null_bits)
  ultimately show ?thesis using placedD(6) [OF assms False] read_ref_eq [OF placedD(1) [OF assms], of e null_entity]
    by (auto simp: contains_def sparse_ptr_eq Let_def)
next
  case True
  then obtain i where i: "i \<in> L" "to_entity (elements s ! i) = to_entity e" by (auto simp: members_def)
  let ?v = "combine (of_nat i) (elements s ! i)"
  have v: "lookup s e = Some ?v" using placedD(5) [OF assms i(1)] lookup_cong [OF i(2)] by simp
  have "i < 2 ^ 20 - 1" using placedD(2,3) [OF assms] i(1) by fastforce
  then have test: "((to_integral null_entity AND NOT entity_mask) AND to_integral e) XOR to_integral ?v < entity_mask \<longleftrightarrow>
      to_version e = to_version (elements s ! i)"
    unfolding contains_test using not_mask_position by simp
  have "e \<in> members L s \<longleftrightarrow> e = elements s ! i"
    using i placedD(4) [OF assms] by (auto simp: members_def)
  also have "\<dots> \<longleftrightarrow> to_version e = to_version (elements s ! i)" using i(2) entity_eqI by metis
  finally show ?thesis using v test read_ref_eq [OF placedD(1) [OF assms] v]
    by (simp add: contains_def sparse_ptr_eq Let_def)
qed

lemma index_spec:
  assumes "placed L s" "i \<in> L" shows "index s (elements s ! i) = Ret i"
proof -
  have "i < 2 ^ 20" using placedD(2,3) [OF assms(1)] assms(2) by fastforce
  then show ?thesis
    using contains_spec [OF assms(1), of "elements s ! i"] placedD(1,5) [OF assms(1)] assms(2)
      read_ref_eq [OF placedD(1) [OF assms(1)] placedD(5) [OF assms]]
    by (simp add: index_def sparse_ref_eq members_def to_entity_of_nat)
qed

lemma index_missing: "placed L s \<Longrightarrow> e \<notin> members L s \<Longrightarrow> index s e = Aborts"
  by (simp add: index_def contains_spec)

text \<open>Writing an identifier into a position that is not live, and its entry.\<close>

lemma placed_add:
  assumes "placed L s" "i < length (elements s)" "i \<notin> L" "to_entity e \<notin> to_entity ` members L s" "lookup s e \<noteq> None"
  shows "placed (insert i L) (set_ref e (combine (of_nat i) e) (s\<lparr>elements := (elements s)[i := e]\<rparr>))" (is "placed _ ?s")
proof -
  let ?t = "s\<lparr>elements := (elements s)[i := e]\<rparr>"
  have t: "pages_ok ?t" "lookup ?t e \<noteq> None" "\<And>d. lookup ?t d = lookup s d"
    using placedD(1) [OF assms(1)] assms(5) by simp_all
  note look = lookup_set_ref [OF t(1,2), of "combine (of_nat i) e", unfolded t(3)]
  have el: "elements ?s ! j = (if j = i then e else elements s ! j)" if "j \<in> insert i L" for j
    using that assms(2,3) by auto
  have ne: "to_entity (elements s ! j) \<noteq> to_entity e" if "j \<in> L" for j
    using that assms(4) unfolding members_def by (metis image_eqI)
  have img: "(\<lambda>j. to_entity (elements ?s ! j)) ` insert i L = insert (to_entity e) (to_entity ` members L s)"
  proof -
    have "(\<lambda>j. to_entity (elements ?s ! j)) ` L = to_entity ` members L s"
      unfolding members_def image_image by (rule image_cong [OF refl]) (use el assms(3) in auto)
    then show ?thesis using el [of i] by simp
  qed
  have "inj_on (\<lambda>j. to_entity (elements ?s ! j)) (insert i L)"
    by (rule inj_onI) (use el ne placedD(4) [OF assms(1)] in \<open>auto split: if_splits\<close>)
  moreover have "lookup ?s (elements ?s ! j) = Some (combine (of_nat j) (elements ?s ! j))" if "j \<in> insert i L" for j
    using that el [OF that] ne [of j] placedD(5) [OF assms(1), of j] by (auto simp: look)
  moreover have "lookup ?s d = None \<or> lookup ?s d = Some null_entity"
    if "to_entity d \<notin> (\<lambda>j. to_entity (elements ?s ! j)) ` insert i L" for d
    using that placedD(6) [OF assms(1), of d] unfolding img by (auto simp: look)
  ultimately show ?thesis using placedD [OF assms(1)] t(1) assms(2)
    by (auto simp: placed_def)
qed

text \<open>Clearing the entry of a live position, which may then hold anything.\<close>

lemma placed_remove:
  assumes "placed L s" "i \<in> L"
  shows "placed (L - {i}) (set_ref (elements s ! i) null_entity s)"
proof -
  let ?e = "elements s ! i" let ?s = "set_ref ?e null_entity s"
  have l: "lookup s ?e \<noteq> None" using placedD(5) [OF assms] by simp
  note look = lookup_set_ref [OF placedD(1) [OF assms(1)] l, of null_entity]
  have "lookup ?s (elements s ! j) = Some (combine (of_nat j) (elements s ! j))" if "j \<in> L - {i}" for j
    using that placedD(4) [OF assms(1), of j i] assms(2) placedD(5) [OF assms(1), of j] by (auto simp: look)
  moreover have "lookup ?s d = None \<or> lookup ?s d = Some null_entity"
    if "to_entity d \<notin> (\<lambda>j. to_entity (elements s ! j)) ` (L - {i})" for d
  proof (cases "to_entity d = to_entity ?e")
    case False
    with that have "to_entity d \<notin> to_entity ` members L s" by (auto simp: members_def)
    from placedD(6) [OF assms(1) this] show ?thesis using False by (simp add: look)
  qed (simp add: look)
  moreover have "inj_on (\<lambda>j. to_entity (elements s ! j)) (L - {i})"
    using assms(1) by (auto simp: placed_def intro: inj_on_subset)
  ultimately show ?thesis using placedD(1,2,3) [OF assms(1)] by (auto simp: placed_def)
qed

lemma placed_cong:
  assumes "placed L s" "pages_ok s'" "\<And>e. lookup s' e = lookup s e" "length (elements s') < 2 ^ 20"
    and "\<And>i. i \<in> L \<Longrightarrow> i < length (elements s') \<and> elements s' ! i = elements s ! i"
  shows "placed L s'"
proof -
  have img: "(\<lambda>i. to_entity (elements s' ! i)) ` L = (\<lambda>i. to_entity (elements s ! i)) ` L" using assms(5) by auto
  have "inj_on (\<lambda>i. to_entity (elements s' ! i)) L = inj_on (\<lambda>i. to_entity (elements s ! i)) L"
    by (rule inj_on_cong) (simp add: assms(5))
  with assms show ?thesis by (auto simp: placed_def img)
qed

lemma members_cong: "(\<And>i. i \<in> L \<Longrightarrow> elements s' ! i = elements s ! i) \<Longrightarrow> members L s' = members L s"
  by (auto simp: members_def)

section \<open>Inserting\<close>

lemma lookup_member:
  assumes "placed L s" "to_entity e \<in> to_entity ` members L s"
  shows "\<exists>v. lookup s e = Some v \<and> \<not> is_null v"
proof -
  from assms(2) obtain i where i: "i \<in> L" "to_entity e = to_entity (elements s ! i)" by (auto simp: members_def)
  then have "i < 2 ^ 20 - 1" using placedD(2,3) [OF assms(1)] by fastforce
  with i show ?thesis using placedD(5) [OF assms(1) i(1)] lookup_cong [OF i(2)] not_mask_position [of i]
    by (simp add: is_null_iff)
qed

lemma placed_assure:
  assumes "placed L s"
  shows "\<exists>s'. assure_at_least e s = Ret (slot e, s') \<and> placed L s' \<and> elements s' = elements s \<and> mode s' = mode s \<and> head s' = head s \<and>
    members L s' = members L s \<and> (\<exists>v. lookup s' e = Some v \<and> is_null v = (to_entity e \<notin> to_entity ` members L s))"
proof -
  obtain s' where s': "assure_at_least e s = Ret (slot e, s')" "pages_ok s'" "elements s' = elements s" "mode s' = mode s" "head s' = head s"
    "lookup s' e = Some (case lookup s e of None \<Rightarrow> null_entity | Some v \<Rightarrow> v)"
    "\<And>d. lookup s' d = lookup s d \<or> lookup s d = None \<and> lookup s' d = Some null_entity"
    using assure_at_least_spec [OF placedD(1) [OF assms], of e] by blast
  have "lookup s' d = lookup s d" if "lookup s d \<noteq> None" for d using s'(7) [of d] that by auto
  moreover have "lookup s' d = None \<or> lookup s' d = Some null_entity" if "lookup s d = None \<or> lookup s d = Some null_entity" for d
    using s'(7) [of d] that by auto
  ultimately have p: "placed L s'" using assms s'(2,3) by (auto simp: placed_def)
  have "members L s' = members L s" by (rule members_cong) (simp add: s'(3))
  moreover have "\<exists>v. lookup s' e = Some v \<and> is_null v = (to_entity e \<notin> to_entity ` members L s)"
  proof (cases "to_entity e \<in> to_entity ` members L s")
    case True
    with lookup_member [OF assms True] s'(6) show ?thesis by auto
  next
    case False
    have "is_null null_entity" by (simp add: is_null_def)
    with False placedD(6) [OF assms False] s'(6) show ?thesis by auto
  qed
  ultimately show ?thesis using s'(1,3-5) p by blast
qed

lemma append_element_spec:
  assumes "placed L s" "lookup s e = Some v" "is_null v = (to_entity e \<notin> to_entity ` members L s)" "length (elements s) < 2 ^ 20 - 1"
  shows "append_element (slot e) e s =
      (if to_entity e \<in> to_entity ` members L s then Aborts
       else Ret (set_ref e (combine (of_nat (length (elements s))) e) (s\<lparr>elements := elements s @ [e]\<rparr>)))"
    and "to_entity e \<notin> to_entity ` members L s \<Longrightarrow>
      placed (insert (length (elements s)) L) (set_ref e (combine (of_nat (length (elements s))) e) (s\<lparr>elements := elements s @ [e]\<rparr>))"
proof -
  let ?t = "s\<lparr>elements := elements s @ [e]\<rparr>"
  have t: "pages_ok ?t" "lookup ?t e = Some v" using placedD(1) [OF assms(1)] assms(2) by simp_all
  show "append_element (slot e) e s =
      (if to_entity e \<in> to_entity ` members L s then Aborts
       else Ret (set_ref e (combine (of_nat (length (elements s))) e) ?t))"
    using assms(3) read_ref_eq [OF t] write_ref_eq [OF t] by (simp add: append_element_def Let_def to_integral_def)
  assume new: "to_entity e \<notin> to_entity ` members L s"
  have p: "placed L ?t"
    by (rule placed_cong [OF assms(1)]) (use placedD [OF assms(1)] assms(4) in \<open>auto simp: nth_append less_SucI\<close>)
  have m: "members L ?t = members L s" by (rule members_cong) (use placedD(3) [OF assms(1)] in \<open>simp add: nth_append\<close>)
  have "length (elements s) \<notin> L" using placedD(3) [OF assms(1)] by blast
  from placed_add [OF p _ this, of e] new m assms(2)
  show "placed (insert (length (elements s)) L) (set_ref e (combine (of_nat (length (elements s))) e) ?t)" by simp
qed

section \<open>The policy that moves the last element\<close>

abbreviation packed_ok :: "sparse_set \<Rightarrow> bool" where
  "packed_ok s \<equiv> mode s = Swap_and_pop \<and> placed {..<length (elements s)} s"

lemma members_all [simp]: "members {..<length (elements s)} s = set (elements s)"
  by (auto simp: members_def in_set_conv_nth image_iff)

lemma push_packed:
  assumes "packed_ok s" "length (elements s) < 2 ^ 20 - 1"
  shows "if to_entity e \<in> to_entity ` set (elements s) then push e s = Aborts
    else \<exists>s'. push e s = Ret (length (elements s) + 1, s') \<and> packed_ok s' \<and> elements s' = elements s @ [e]"
proof -
  let ?L = "{..<length (elements s)}"
  obtain s1 v where s1: "assure_at_least e s = Ret (slot e, s1)" "placed ?L s1" "elements s1 = elements s" "mode s1 = Swap_and_pop"
    "members ?L s1 = set (elements s)" "lookup s1 e = Some v" "is_null v = (to_entity e \<notin> to_entity ` set (elements s))"
    using placed_assure [of ?L s e] assms(1) by auto
  have len: "length (elements s1) < 2 ^ 20 - 1" using assms(2) by (simp add: s1(3))
  note app = append_element_spec [OF s1(2,6) _ len, unfolded s1(5) s1(3), OF s1(7)]
  have L: "insert (length (elements s)) ?L = {..<length (elements s @ [e])}" by auto
  show ?thesis using app(1) app(2) [unfolded L] s1(1,3,4) assms(1) by (simp add: push_def try_emplace_def)
qed

lemma lookup_set_ref_other:
  "pages_ok s \<Longrightarrow> lookup s e \<noteq> None \<Longrightarrow> lookup (set_ref e v s) d \<noteq> None \<longleftrightarrow> lookup s d \<noteq> None"
  using lookup_set_ref [of s e v d] lookup_cong [of d e s] by auto

text \<open>
  Removing position \<open>i\<close>: the entry of the last element is made to point to \<open>i\<close>, the element is
  copied there, and the entry of the removed one becomes null.
\<close>

lemma placed_swap_pop:
  assumes p: "placed {..<Suc n} s" and n: "length (elements s) = Suc n" "i \<le> n" and ok: "pages_ok s'"
    and el': "elements s' = swap_pop i (elements s)"
    and look: "\<And>d. lookup s' d = (if to_entity d = to_entity (elements s ! i) then Some null_entity
       else if to_entity d = to_entity (elements s ! n) then Some (combine (of_nat i) (elements s ! n)) else lookup s d)"
  shows "placed {..<n} s'"
proof -
  let ?e = "elements s ! i" let ?bk = "elements s ! n"
  have bk: "last (elements s) = ?bk" using n by (metis diff_Suc_1 last_conv_nth length_0_conv nat.distinct(1))
  have el: "elements s' ! j = (if j = i then ?bk else elements s ! j)" if "j < n" for j
    using that n swap_pop_nth [of j "elements s" i] by (simp add: el' bk)
  have inj: "j < n \<Longrightarrow> to_entity (elements s' ! j) \<noteq> to_entity ?e" for j
    using el [of j] placedD(4) [OF p, of n i] placedD(4) [OF p, of j i] n by auto
  have "inj_on (\<lambda>j. to_entity (elements s' ! j)) {..<n}"
    by (rule inj_onI) (use el placedD(4) [OF p] in \<open>auto split: if_splits\<close>)
  moreover have "lookup s' (elements s' ! j) = Some (combine (of_nat j) (elements s' ! j))" if "j < n" for j
  proof (cases "j = i")
    case True
    with inj [OF that] el [OF that] show ?thesis by (simp add: look)
  next
    case False
    have "to_entity (elements s ! j) \<noteq> to_entity ?bk" using placedD(4) [OF p, of j n] that by simp
    with False inj [OF that] el [OF that] placedD(5) [OF p, of j] that show ?thesis by (simp add: look)
  qed
  moreover have "lookup s' d = None \<or> lookup s' d = Some null_entity"
    if d: "to_entity d \<notin> (\<lambda>j. to_entity (elements s' ! j)) ` {..<n}" for d
  proof (cases "to_entity d = to_entity ?e")
    case False
    have other: "to_entity d \<noteq> to_entity (elements s ! j)" if "j < Suc n" for j
    proof
      assume eq: "to_entity d = to_entity (elements s ! j)"
      then have "\<exists>k<n. to_entity d = to_entity (elements s' ! k)"
        using False n(2) that el [of i] el [of j] by (cases "i = n"; cases "j = n") (auto intro: exI [of _ i] exI [of _ j])
      with d show False by blast
    qed
    then have "to_entity d \<notin> to_entity ` members {..<Suc n} s" by (auto simp: members_def)
    from placedD(6) [OF p this] other [of n] False show ?thesis by (simp add: look)
  qed (simp add: look)
  ultimately show ?thesis using placedD(2) [OF p] n ok by (auto simp: placed_def el')
qed

lemma swap_and_pop_spec:
  assumes "packed_ok s" "i < length (elements s)"
  shows "\<exists>s'. swap_and_pop (i + 1) s = Ret s' \<and> packed_ok s' \<and> elements s' = swap_pop i (elements s)"
proof -
  define n where "n = length (elements s) - 1"
  define e where "e = elements s ! i"
  define bk where "bk = last (elements s)"
  have n: "length (elements s) = Suc n" "i \<le> n" "n < 2 ^ 20 - 1"
    using assms(2) placedD(2) [OF conjunct2 [OF assms(1)]] by (auto simp: n_def)
  have bk: "bk = elements s ! n" using n by (metis bk_def diff_Suc_1 last_conv_nth length_0_conv nat.distinct(1))
  have p: "placed {..<Suc n} s" using assms(1) n by simp
  note ok = placedD(1) [OF p]
  have le: "lookup s e = Some (combine (of_nat i) e)" using placedD(5) [OF p] n by (simp add: e_def)
  have lb: "lookup s bk = Some (combine (of_nat n) bk)" using placedD(5) [OF p] by (simp add: bk)
  define s1 where "s1 = set_ref bk (combine (of_nat i) bk) s"
  define s3 where "s3 = s1\<lparr>elements := (elements s)[i := bk, n := null_entity]\<rparr>"
  define s' where "s' = (set_ref e null_entity s3)\<lparr>elements := swap_pop i (elements s)\<rparr>"
  have look1: "lookup s1 d = (if to_entity d = to_entity bk then Some (combine (of_nat i) bk) else lookup s d)" for d
    using lookup_set_ref [OF ok, of bk] lb by (simp add: s1_def)
  have ok1: "pages_ok s1" "pages_ok s3" using ok by (simp_all add: s1_def s3_def)
  have "lookup s1 e \<noteq> None" using le look1 [of e] by auto
  then obtain w where e3: "lookup s3 e = Some w" by (auto simp: s3_def)
  have look': "lookup s' d = (if to_entity d = to_entity e then Some null_entity else lookup s1 d)" for d
    using lookup_set_ref [OF ok1(2), of e null_entity d] e3 by (simp add: s'_def s3_def)
  have ent: "unat (to_entity (combine (of_nat i) e)) = i" "combine (to_entity (combine (of_nat i) e)) bk = combine (of_nat i) bk"
    using n by (simp_all add: to_entity_of_nat)
  have w1: "write_ref (slot bk) (combine (of_nat i) bk) s = Ret s1" unfolding s1_def by (rule write_ref_eq [OF ok lb])
  have w3: "write_ref (slot e) null_entity s3 = Ret (set_ref e null_entity s3)" by (rule write_ref_eq [OF ok1(2) e3])
  have sp: "butlast ((elements s)[i := bk, n := null_entity]) = swap_pop i (elements s)"
    using n by (simp add: swap_pop_def bk_def butlast_list_update)
  have s2: "write_at i bk s1 = Ret (s1\<lparr>elements := (elements s)[i := bk]\<rparr>)" using n by (simp add: write_at_def s1_def)
  have s3: "write_at n null_entity (s1\<lparr>elements := (elements s)[i := bk]\<rparr>) = Ret s3" using n by (simp add: write_at_def s3_def)
  have d: "deref (Suc i) s = Ret e" using n by (simp add: deref_def read_at_def e_def)
  have fin: "(set_ref e null_entity s3)\<lparr>elements := butlast (elements s3)\<rparr> = s'"
    by (simp add: s'_def s3_def sp)
  have "swap_and_pop (i + 1) s = Ret s'"
    using assms(1) le lb read_ref_eq [OF ok le] n
    by (simp add: swap_and_pop_def d sparse_ref_eq Let_def ent(1) [simplified] to_integral_def bk_def [symmetric] ent(2) [simplified] w1 s2 s3 w3 fin)
  moreover have "placed {..<n} s'"
    by (rule placed_swap_pop [OF p n(1,2)]) (use ok1(2) look' look1 in \<open>simp_all add: s'_def s3_def bk e_def\<close>)
  ultimately show ?thesis using n assms(1) by (intro exI [of _ s']) (simp add: s'_def s3_def s1_def)
qed

lemma erase_packed:
  assumes "packed_ok s" "i < length (elements s)"
  shows "\<exists>s'. erase (elements s ! i) s = Ret s' \<and> packed_ok s' \<and> elements s' = swap_pop i (elements s)"
  using swap_and_pop_spec [OF assms] index_spec [of "{..<length (elements s)}" s i] assms
  by (auto simp: erase_def to_iterator_def pop.simps pop_one_def)

lemma remove_packed:
  assumes "packed_ok s"
  shows "\<exists>s'. remove e s = Ret (e \<in> set (elements s), s') \<and> packed_ok s' \<and>
    (if e \<in> set (elements s) then \<exists>i<length (elements s). elements s ! i = e \<and> elements s' = swap_pop i (elements s) else s' = s)"
proof (cases "e \<in> set (elements s)")
  case True
  then obtain i where i: "i < length (elements s)" "elements s ! i = e" by (auto simp: in_set_conv_nth)
  from erase_packed [OF assms i(1)] i True contains_spec [OF conjunct2 [OF assms], of e]
  show ?thesis by (auto simp: remove_def)
qed (use contains_spec [OF conjunct2 [OF assms], of e] assms in \<open>simp add: remove_def\<close>)

end
