(* ===== verification/SparseSetPolicies.thy ===== *)
theory SparseSetPolicies
  imports SparseSetCorrect
begin

text \<open>
  The policy of the sparse set that keeps elements in place: the free list that runs through
  the tombstones of the packed array. The contract of a set of identifiers, kept under both
  this policy and the one that moves the last element.
\<close>

section \<open>The policy that keeps elements in place\<close>

text \<open>From the word \<open>h\<close> the free positions \<open>fs\<close> are linked through the entity parts of the tombstones.\<close>

fun free_chain :: "entity list \<Rightarrow> 32 word \<Rightarrow> nat list \<Rightarrow> bool" where
  "free_chain es h [] \<longleftrightarrow> h = entity_mask"
| "free_chain es h (i # fs) \<longleftrightarrow> i < length es \<and> h = of_nat i \<and> is_tombstone (es ! i) \<and> free_chain es (to_entity (es ! i)) fs"

abbreviation live :: "nat list \<Rightarrow> sparse_set \<Rightarrow> nat set" where
  "live fs s \<equiv> {..<length (elements s)} - set fs"

definition stable_ok :: "nat list \<Rightarrow> sparse_set \<Rightarrow> bool" where
  "stable_ok fs s \<longleftrightarrow> mode s = In_place \<and> placed (live fs s) s \<and> distinct fs \<and> free_chain (elements s) (head s) fs \<and>
     (\<forall>i \<in> live fs s. \<not> is_tombstone (elements s ! i))"

lemma stable_okD:
  assumes "stable_ok fs s"
  shows "mode s = In_place" "placed (live fs s) s" "distinct fs" "free_chain (elements s) (head s) fs"
    "i < length (elements s) \<Longrightarrow> is_tombstone (elements s ! i) \<longleftrightarrow> i \<in> set fs"
proof -
  have "is_tombstone (es ! i)" if "free_chain es h fs" "i \<in> set fs" for es h fs i
    using that by (induction es h fs rule: free_chain.induct) auto
  with assms show "i < length (elements s) \<Longrightarrow> is_tombstone (elements s ! i) \<longleftrightarrow> i \<in> set fs"
    unfolding stable_ok_def by blast
qed (use assms in \<open>simp_all add: stable_ok_def\<close>)

lemma free_chain_cong:
  "free_chain es h fs \<Longrightarrow> (\<And>i. i \<in> set fs \<Longrightarrow> i < length es' \<and> es' ! i = es ! i) \<Longrightarrow> free_chain es' h fs"
  by (induction es h fs rule: free_chain.induct) auto

lemma free_chain_less: "free_chain es h fs \<Longrightarrow> i \<in> set fs \<Longrightarrow> i < length es"
  by (induction es h fs rule: free_chain.induct) auto

lemma free_chain_head: "free_chain es h fs \<Longrightarrow> length es < 2 ^ 20 \<Longrightarrow> to_entity h = h \<and> (h = entity_mask \<longleftrightarrow> fs = [])"
proof (cases fs)
  case Nil
  then show "free_chain es h fs \<Longrightarrow> to_entity h = h \<and> (h = entity_mask \<longleftrightarrow> fs = [])"
    by (simp add: to_entity_def to_integral_def)
next
  case (Cons i gs)
  assume c: "free_chain es h fs" and l: "length es < 2 ^ 20"
  with Cons have i: "i < 2 ^ 20 - 1" "h = of_nat i" by auto
  then have "unat h = i" by (simp add: to_entity_of_nat)
  with i have "h \<noteq> entity_mask" by (auto simp: entity_mask_def)
  with i Cons show ?thesis by (simp add: to_entity_of_nat)
qed

lemma set_ref_fields_commute:
  "set_ref e v (s\<lparr>elements := es\<rparr>) = (set_ref e v s)\<lparr>elements := es\<rparr>"
  "set_ref e v (s\<lparr>head := h\<rparr>) = (set_ref e v s)\<lparr>head := h\<rparr>"
  by (simp_all add: set_ref_def)

lemma placed_head [simp]: "placed L (s\<lparr>head := h\<rparr>) = placed L s"
  by (simp add: placed_def)

text \<open>The position an insertion takes is the one freed last, or a new one at the end.\<close>

lemma push_stable:
  assumes ok: "stable_ok fs s" and len: "fs = [] \<Longrightarrow> length (elements s) < 2 ^ 20 - 1" and e: "\<not> is_tombstone e"
  shows "if to_entity e \<in> to_entity ` members (live fs s) s then push e s = Aborts
    else \<exists>s'. case fs of
        [] \<Rightarrow> push e s = Ret (length (elements s) + 1, s') \<and> stable_ok [] s' \<and> elements s' = elements s @ [e]
      | i # gs \<Rightarrow> push e s = Ret (i + 1, s') \<and> stable_ok gs s' \<and> elements s' = (elements s)[i := e]"
proof -
  let ?L = "live fs s"
  note D = stable_okD [OF ok]
  obtain s1 v where s1: "assure_at_least e s = Ret (slot e, s1)" "placed ?L s1" "elements s1 = elements s" "mode s1 = In_place"
    "head s1 = head s" "members ?L s1 = members ?L s" "lookup s1 e = Some v" "is_null v = (to_entity e \<notin> to_entity ` members ?L s)"
    using placed_assure [OF D(2), of e] D(1) by auto
  have null: "to_entity null_entity = entity_mask" by (simp add: null_bits to_entity_def to_integral_def)
  have hd: "head s = entity_mask \<longleftrightarrow> fs = []" using free_chain_head [OF D(4) placedD(2) [OF D(2)]] by simp
  show ?thesis
  proof (cases fs)
    case Nil
    have len1: "length (elements s1) < 2 ^ 20 - 1" using len [OF Nil] by (simp add: s1(3))
    note app = append_element_spec [OF s1(2,7) _ len1, unfolded s1(6) s1(3), OF s1(8)]
    let ?s = "set_ref e (combine (of_nat (length (elements s))) e) (s1\<lparr>elements := elements s @ [e]\<rparr>)"
    have L: "insert (length (elements s)) ?L = live [] ?s" using Nil by auto
    have "stable_ok [] ?s" if "to_entity e \<notin> to_entity ` members ?L s"
      using app(2) [OF that, unfolded L] s1(4,5) hd Nil e D(5) by (auto simp: stable_ok_def nth_append less_Suc_eq)
    then show ?thesis using app(1) s1(1,3,4,5) hd Nil D(1)
      by (simp add: push_def try_emplace_def null)
  next
    case (Cons i gs)
    have i: "i < length (elements s)" "head s = of_nat i" "free_chain (elements s) (to_entity (elements s ! i)) gs" "i \<notin> set gs" "distinct gs"
      using D(3,4) Cons by auto
    then have ui: "unat (head s) = i" using placedD(2) [OF D(2)] by (simp add: to_entity_of_nat)
    let ?s = "(set_ref e (combine (of_nat i) e) s1)\<lparr>elements := (elements s)[i := e], head := to_entity (elements s ! i)\<rparr>"
    have push: "push e s = (if is_null v then Ret (i + 1, ?s) else Aborts)"
      using s1 D(1) hd Cons ui i(1,2) read_ref_eq [OF placedD(1) [OF s1(2)] s1(7)] write_ref_eq [OF placedD(1) [OF s1(2)] s1(7), of "combine (of_nat i) e"]
      by (simp add: push_def try_emplace_def null reuse_slot_def Let_def to_integral_def read_at_def)
    have "stable_ok gs ?s" if new: "to_entity e \<notin> to_entity ` members ?L s"
    proof -
      have "placed (insert i ?L) (set_ref e (combine (of_nat i) e) (s1\<lparr>elements := (elements s1)[i := e]\<rparr>))"
        by (rule placed_add [OF s1(2)]) (use i(1) Cons new s1(3,6,7) in auto)
      moreover have "insert i ?L = live gs ?s" using i(1,4) Cons by auto
      ultimately have "placed (live gs ?s) ?s" by (simp add: set_ref_fields_commute s1(3))
      moreover have "free_chain ((elements s)[i := e]) (to_entity (elements s ! i)) gs"
        by (rule free_chain_cong [OF i(3)]) (use i(1,3,4) in \<open>auto simp: nth_list_update dest: free_chain_less\<close>)
      moreover have "\<not> is_tombstone ((elements s)[i := e] ! j)" if "j < length (elements s)" "j \<notin> set gs" for j
        using that D(5) [of j] e Cons by (cases "j = i") auto
      ultimately show ?thesis using s1(4) i(5) by (simp add: stable_ok_def)
    qed
    then show ?thesis using push s1(8) Cons by auto
  qed
qed

text \<open>A removed position becomes the head of the free list.\<close>

lemma erase_stable:
  assumes ok: "stable_ok fs s" and i: "i \<in> live fs s"
  shows "\<exists>s'. erase (elements s ! i) s = Ret s' \<and> stable_ok (i # fs) s' \<and>
    elements s' = (elements s)[i := combine (head s) tombstone_entity]"
proof -
  note D = stable_okD [OF ok]
  let ?e = "elements s ! i" and ?t = "combine (head s) tombstone_entity"
  have i': "i < length (elements s)" "i \<notin> set fs" "i < 2 ^ 20" using i placedD(2) [OF D(2)] by auto
  note l = placedD(5) [OF D(2) i]
  let ?s = "(set_ref ?e null_entity s)\<lparr>head := of_nat i, elements := (elements s)[i := ?t]\<rparr>"
  have it: "to_iterator s ?e = Ret (i + 1)" by (simp add: to_iterator_def index_spec [OF D(2) i])
  have ent: "to_entity (combine (of_nat i) ?e) = of_nat i" "unat (of_nat i :: 32 word) = i" using i'(3) by (simp_all add: to_entity_of_nat)
  have "erase ?e s = Ret ?s"
    using D(1) i' l read_ref_eq [OF placedD(1) [OF D(2)] l] write_ref_eq [OF placedD(1) [OF D(2)] l, of null_entity]
    by (simp add: erase_def it pop.simps pop_one_def in_place_pop_def deref_def read_at_def sparse_ref_eq Let_def write_at_def ent [simplified])
  moreover have "stable_ok (i # fs) ?s"
  proof -
    have tomb: "is_tombstone ?t" by (simp add: is_tombstone_def)
    have hd: "to_entity ?t = head s" using free_chain_head [OF D(4)] placedD(2) [OF D(2)] by simp
    have "placed (live fs s - {i}) ?s"
      by (rule placed_cong [OF placed_remove [OF D(2) i]]) (use i' placedD(1,2) [OF D(2)] in \<open>auto simp: nth_list_update\<close>)
    moreover have "live fs s - {i} = live (i # fs) ?s" by auto
    moreover have "free_chain ((elements s)[i := ?t]) (head s) fs"
      by (rule free_chain_cong [OF D(4)]) (use D(4) i' in \<open>auto simp: nth_list_update dest: free_chain_less\<close>)
    moreover have "\<not> is_tombstone ((elements s)[i := ?t] ! j)" if "j < length (elements s)" "j \<notin> set (i # fs)" for j
      using that D(5) [of j] by (cases "j = i") auto
    ultimately show ?thesis using D(1,3) i' tomb hd by (simp add: stable_ok_def)
  qed
  ultimately show ?thesis by (intro exI [of _ ?s]) simp
qed

lemma remove_stable:
  assumes ok: "stable_ok fs s"
  shows "\<exists>s'. remove e s = Ret (e \<in> members (live fs s) s, s') \<and>
    (if e \<in> members (live fs s) s
     then \<exists>i \<in> live fs s. elements s ! i = e \<and> stable_ok (i # fs) s' \<and> elements s' = (elements s)[i := combine (head s) tombstone_entity]
     else s' = s)"
proof (cases "e \<in> members (live fs s) s")
  case True
  then obtain i where i: "i \<in> live fs s" "elements s ! i = e" by (auto simp: members_def)
  from erase_stable [OF ok i(1)] i True contains_spec [OF stable_okD(2) [OF ok], of e]
  show ?thesis by (auto simp: remove_def)
qed (use contains_spec [OF stable_okD(2) [OF ok], of e] in \<open>simp add: remove_def\<close>)

text \<open>The members of a set with tombstones.\<close>

definition stored :: "sparse_set \<Rightarrow> entity set" where
  "stored s = {e \<in> set (elements s). \<not> is_tombstone e}"

lemma members_live: "stable_ok fs s \<Longrightarrow> members (live fs s) s = stored s"
  using stable_okD(5) [of fs s] by (auto simp: members_def stored_def in_set_conv_nth)

section \<open>The contract of a set of identifiers\<close>

text \<open>
  A set under a policy: inserting an identifier whose entity is stored fails an assertion,
  otherwise it is stored; removing answers whether it was stored. A client is a list of
  operations, and \<open>spec_run\<close> what they do to the mathematical set.
\<close>

datatype set_op = Push entity | Remove entity

fun valid_op :: "set_op \<Rightarrow> bool" where
  "valid_op (Push e) = (\<not> is_tombstone e)"
| "valid_op (Remove e) = True"

fun apply_op :: "set_op \<Rightarrow> sparse_set \<Rightarrow> sparse_set outcome" where
  "apply_op (Push e) s = obind (push e s) (\<lambda>(it, s'). Ret s')"
| "apply_op (Remove e) s = obind (remove e s) (\<lambda>(b, s'). Ret s')"

fun run_ops :: "set_op list \<Rightarrow> sparse_set \<Rightarrow> sparse_set outcome" where
  "run_ops [] s = Ret s"
| "run_ops (x # xs) s = obind (apply_op x s) (run_ops xs)"

fun spec_run :: "set_op list \<Rightarrow> entity set \<Rightarrow> entity set option" where
  "spec_run [] M = Some M"
| "spec_run (Push e # xs) M = (if to_entity e \<in> to_entity ` M then None else spec_run xs (insert e M))"
| "spec_run (Remove e # xs) M = spec_run xs (M - {e})"

locale identifier_set =
  fixes good :: "sparse_set \<Rightarrow> bool" and has :: "sparse_set \<Rightarrow> entity set"
  assumes push: "good s \<Longrightarrow> \<not> is_tombstone e \<Longrightarrow> length (elements s) < 2 ^ 20 - 1 \<Longrightarrow>
      if to_entity e \<in> to_entity ` has s then push e s = Aborts
      else \<exists>it s'. push e s = Ret (it, s') \<and> good s' \<and> has s' = insert e (has s) \<and> length (elements s') \<le> length (elements s) + 1"
    and remove: "good s \<Longrightarrow> \<exists>s'. remove e s = Ret (e \<in> has s, s') \<and> good s' \<and> has s' = has s - {e} \<and>
      length (elements s') \<le> length (elements s)"
    and contains: "good s \<Longrightarrow> contains s e = Ret (e \<in> has s)"
begin

lemma run_spec:
  "good s \<Longrightarrow> length (elements s) + length xs \<le> 2 ^ 20 - 1 \<Longrightarrow> \<forall>x \<in> set xs. valid_op x \<Longrightarrow>
   case spec_run xs (has s) of None \<Rightarrow> run_ops xs s = Aborts
   | Some M \<Rightarrow> \<exists>s'. run_ops xs s = Ret s' \<and> good s' \<and> has s' = M \<and> length (elements s') \<le> length (elements s) + length xs"
proof (induction xs arbitrary: s)
  case (Cons x xs)
  show ?case
  proof (cases x)
    case (Push e)
    have room: "length (elements s) < 2 ^ 20 - 1" using Cons.prems(2) by simp
    have v: "\<not> is_tombstone e" using Cons.prems(3) Push by simp
    note p = push [OF Cons.prems(1) v room]
    show ?thesis
    proof (cases "to_entity e \<in> to_entity ` has s")
      case False
      with p obtain it s' where s': "push e s = Ret (it, s')" "good s'" "has s' = insert e (has s)"
          "length (elements s') \<le> length (elements s) + 1" by auto
      with Cons.prems(2,3) have "length (elements s') + length xs \<le> 2 ^ 20 - 1" "\<forall>x \<in> set xs. valid_op x" by simp_all
      note IH = Cons.IH [OF s'(2) this]
      have "run_ops (x # xs) s = run_ops xs s'" "spec_run (x # xs) (has s) = spec_run xs (has s')" using s' Push False by simp_all
      with IH s'(4) show ?thesis by (simp only:) (fastforce split: option.splits)
    qed (use p Push in simp)
  next
    case (Remove e)
    from remove [OF Cons.prems(1), of e] obtain s' where s': "remove e s = Ret (e \<in> has s, s')" "good s'" "has s' = has s - {e}"
      "length (elements s') \<le> length (elements s)" by blast
    with Cons.prems(2,3) have "length (elements s') + length xs \<le> 2 ^ 20 - 1" "\<forall>x \<in> set xs. valid_op x" by simp_all
    note IH = Cons.IH [OF s'(2) this]
    have "run_ops (x # xs) s = run_ops xs s'" "spec_run (x # xs) (has s) = spec_run xs (has s')" using s' Remove by simp_all
    with IH s'(4) show ?thesis by (simp only:) (fastforce split: option.splits)
  qed
qed simp

end

interpretation moved: identifier_set packed_ok "\<lambda>s. set (elements s)"
proof
  fix s e
  assume ok: "packed_ok s"
  show "contains s e = Ret (e \<in> set (elements s))" using contains_spec [OF conjunct2 [OF ok]] by simp
  show "\<exists>s'. remove e s = Ret (e \<in> set (elements s), s') \<and> packed_ok s' \<and> set (elements s') = set (elements s) - {e} \<and>
      length (elements s') \<le> length (elements s)"
  proof -
    have "inj_on (\<lambda>i. to_entity (elements s ! i)) {..<length (elements s)}" using ok by (simp add: placed_def)
    then have "distinct (elements s)" by (auto simp: distinct_conv_nth inj_on_def)
    with remove_packed [OF ok, of e] set_swap_pop(1) [of "elements s"] show ?thesis
      by (cases "e \<in> set (elements s)") (auto simp del: set_swap_pop)
  qed
  assume "length (elements s) < 2 ^ 20 - 1"
  from push_packed [OF ok this, of e]
  show "if to_entity e \<in> to_entity ` set (elements s) then push e s = Aborts
    else \<exists>it s'. push e s = Ret (it, s') \<and> packed_ok s' \<and> set (elements s') = insert e (set (elements s)) \<and>
      length (elements s') \<le> length (elements s) + 1" by (auto split: if_splits)
qed

interpretation stable: identifier_set "\<lambda>s. \<exists>fs. stable_ok fs s" stored
proof
  fix s e
  assume "\<exists>fs. stable_ok fs s"
  then obtain fs where ok: "stable_ok fs s" ..
  note D = stable_okD [OF ok]
  show "contains s e = Ret (e \<in> stored s)" using contains_spec [OF D(2)] members_live [OF ok] by simp
  have inj: "elements s ! i = elements s ! j \<longleftrightarrow> i = j" if "i \<in> live fs s" "j \<in> live fs s" for i j
    using placedD(4) [OF D(2) that] by auto
  show "\<exists>s'. remove e s = Ret (e \<in> stored s, s') \<and> (\<exists>fs. stable_ok fs s') \<and> stored s' = stored s - {e} \<and>
      length (elements s') \<le> length (elements s)"
  proof (cases "e \<in> stored s")
    case True
    with remove_stable [OF ok, of e] obtain i s' where s': "remove e s = Ret (True, s')" "i \<in> live fs s" "elements s ! i = e"
        "stable_ok (i # fs) s'" "elements s' = (elements s)[i := combine (head s) tombstone_entity]"
      by (auto simp: members_live [OF ok])
    have "members (live (i # fs) s') s' = (!) (elements s) ` (live fs s - {i})"
      using s'(2,5) by (auto simp: members_def image_iff)
    also have "\<dots> = stored s - {e}" unfolding members_live [OF ok, symmetric] members_def s'(3) [symmetric]
      by (rule inj_on_image_set_diff [where C = "live fs s" and B = "{i}", simplified]) (use s'(2) inj in \<open>auto simp: inj_on_def\<close>)
    finally have "stored s' = stored s - {e}" using members_live [OF s'(4)] by simp
    then show ?thesis using s' True by auto
  qed (use remove_stable [OF ok, of e] ok in \<open>auto simp: members_live [OF ok]\<close>)
  assume e: "\<not> is_tombstone e" and room: "length (elements s) < 2 ^ 20 - 1"
  note p = push_stable [OF ok room e, unfolded members_live [OF ok]]
  show "if to_entity e \<in> to_entity ` stored s then push e s = Aborts
    else \<exists>it s'. push e s = Ret (it, s') \<and> (\<exists>fs. stable_ok fs s') \<and> stored s' = insert e (stored s) \<and>
      length (elements s') \<le> length (elements s) + 1"
  proof (cases "to_entity e \<in> to_entity ` stored s")
    case False
    show ?thesis
    proof (cases fs)
      case Nil
      with p False obtain s' where s': "push e s = Ret (length (elements s) + 1, s')" "stable_ok [] s'" "elements s' = elements s @ [e]" by auto
      then have "stored s' = insert e (stored s)" using e by (auto simp: stored_def)
      with s' False show ?thesis by auto
    next
      case (Cons i gs)
      with p False obtain s' where s': "push e s = Ret (i + 1, s')" "stable_ok gs s'" "elements s' = (elements s)[i := e]" by auto
      have i: "i < length (elements s)" "i \<notin> set gs" using D(3,4) Cons by auto
      then have "live gs s' = insert i (live fs s)" using Cons s'(3) by auto
      then have "members (live gs s') s' = insert e ((!) (elements s) ` live fs s)"
        using i Cons s'(3) by (auto simp: members_def image_iff)
      then have "stored s' = insert e (stored s)" using members_live [OF ok] members_live [OF s'(2)] by (simp add: members_def)
      with s' False show ?thesis by auto
    qed
  qed (use p in simp)
qed

section \<open>The set from its construction on\<close>

lemma ss_new_ok: "packed_ok (ss_new Swap_and_pop)" "stable_ok [] (ss_new In_place)"
  by (auto simp: ss_new_def placed_def pages_ok_def lookup_def stable_ok_def policy_to_head_def)

lemma ss_new_empty: "elements (ss_new pol) = []"
  by (simp add: ss_new_def)

lemma index_member: "placed L s \<Longrightarrow> e \<in> members L s \<Longrightarrow> \<exists>i \<in> L. index s e = Ret i \<and> subscript i s = Ret e"
  using index_spec [of L s] placedD(3) [of L s] by (fastforce simp: members_def subscript_def read_at_def)

lemma queries_of_placed:
  assumes "placed L s"
  shows "contains s e = Ret (e \<in> members L s) \<and>
    (if e \<in> members L s then \<exists>i. index s e = Ret i \<and> ss_find s e = Ret (i + 1) \<and> subscript i s = Ret e
     else index s e = Aborts \<and> ss_find s e = Ret 0)"
  using contains_spec [OF assms, of e] index_member [OF assms, of e] index_missing [OF assms, of e]
  by (auto simp: ss_find_def to_iterator_def)

text \<open>
  C10. The sparse set is a set of identifiers. From construction on, under the policy that moves
  the last element and the one that leaves tombstones, any list of insertions and removals
  does what it does to the mathematical set: an insertion of an entity that is stored, in
  whatever version, fails its assertion, every other call returns; afterwards membership
  respects versions, and the position of a member leads back to it. Without tombstones the
  packed array holds the members and nothing else.
\<close>

theorem sparse_set_is_a_set:
  assumes "pol \<noteq> Swap_only" "length ops < 2 ^ 20" "\<forall>x \<in> set ops. valid_op x"
  shows "case spec_run ops {} of None \<Rightarrow> run_ops ops (ss_new pol) = Aborts
    | Some M \<Rightarrow> \<exists>s. run_ops ops (ss_new pol) = Ret s \<and>
        (\<forall>e. contains s e = Ret (e \<in> M) \<and>
          (if e \<in> M then \<exists>i. index s e = Ret i \<and> ss_find s e = Ret (i + 1) \<and> subscript i s = Ret e
           else index s e = Aborts \<and> ss_find s e = Ret 0)) \<and>
        (pol = Swap_and_pop \<longrightarrow> set (elements s) = M \<and> length (elements s) = card M)"
proof (cases pol)
  case Swap_and_pop
  have "length (elements (ss_new pol)) + length ops \<le> 2 ^ 20 - 1" using assms(2) by (simp add: ss_new_empty)
  note run = moved.run_spec [OF _ this [unfolded Swap_and_pop] assms(3), OF ss_new_ok(1), unfolded ss_new_empty list.set(1)]
  have card: "length (elements s) = card (set (elements s))" if "packed_ok s" for s
  proof -
    have "inj_on (\<lambda>i. to_entity (elements s ! i)) {..<length (elements s)}" using that by (simp add: placed_def)
    then have "distinct (elements s)" by (auto simp: distinct_conv_nth inj_on_def)
    then show ?thesis by (simp add: distinct_card)
  qed
  show ?thesis
  proof (cases "spec_run ops {}")
    case (Some M)
    with run obtain s where s: "run_ops ops (ss_new Swap_and_pop) = Ret s" "packed_ok s" "set (elements s) = M" by auto
    note q = queries_of_placed [OF conjunct2 [OF s(2)], unfolded members_all s(3)]
    show ?thesis unfolding Some Swap_and_pop option.case using s card [OF s(2)]
      by (intro exI [of _ s] conjI allI q [THEN conjunct1] q [THEN conjunct2]) simp_all
  qed (use run Swap_and_pop in simp)
next
  case In_place
  have "length (elements (ss_new pol)) + length ops \<le> 2 ^ 20 - 1" using assms(2) by (simp add: ss_new_empty)
  moreover have ex: "\<exists>fs. stable_ok fs (ss_new In_place)" using ss_new_ok(2) by blast
  ultimately have run: "case spec_run ops (stored (ss_new In_place)) of None \<Rightarrow> run_ops ops (ss_new In_place) = Aborts
    | Some M \<Rightarrow> \<exists>s'. run_ops ops (ss_new In_place) = Ret s' \<and> (\<exists>fs. stable_ok fs s') \<and> stored s' = M \<and>
        length (elements s') \<le> length (elements (ss_new In_place)) + length ops"
    using In_place assms(3) by (intro stable.run_spec) simp_all
  have empty: "stored (ss_new In_place) = {}" by (simp add: stored_def ss_new_empty)
  show ?thesis
  proof (cases "spec_run ops {}")
    case (Some M)
    with run obtain s fs where s: "run_ops ops (ss_new In_place) = Ret s" "stable_ok fs s" "stored s = M" by (auto simp: empty)
    note q = queries_of_placed [OF stable_okD(2) [OF s(2)], unfolded members_live [OF s(2)] s(3)]
    show ?thesis unfolding Some In_place option.case using s(1)
      by (intro exI [of _ s] conjI allI q [THEN conjunct1] q [THEN conjunct2]) simp_all
  qed (use run In_place empty in simp)
qed (use assms(1) in simp)

lemma small_parts:
  "to_entity 1 = 1" "to_entity 2 = 2" "\<not> is_tombstone 1" "\<not> is_tombstone 2"
  by (simp_all add: to_entity_def to_integral_def entity_mask_def is_tombstone_iff word_unat_eq_iff to_version_unat mask_eq_exp_minus_1)

theorem sparse_set_is_a_set_witness:
  "\<exists>s. run_ops [Push 1, Push 2, Remove 1] (ss_new In_place) = Ret s \<and> contains s 2 = Ret True \<and> contains s 1 = Ret False"
proof -
  have "spec_run [Push 1, Push 2, Remove 1] {} = Some {2}" by (auto simp: small_parts)
  with sparse_set_is_a_set [of In_place "[Push 1, Push 2, Remove 1]"] show ?thesis by (auto simp: small_parts)
qed

lemma run_ops_stable:
  assumes "run_ops ops (ss_new In_place) = Ret s" "length ops < 2 ^ 20 - 1" "\<forall>x \<in> set ops. valid_op x"
  obtains fs where "stable_ok fs s" "length (elements s) < 2 ^ 20 - 1"
proof -
  have "length (elements (ss_new In_place)) + length ops \<le> 2 ^ 20 - 1" using assms(2) by (simp add: ss_new_empty)
  moreover have "\<exists>fs. stable_ok fs (ss_new In_place)" using ss_new_ok(2) by blast
  ultimately have "case spec_run ops (stored (ss_new In_place)) of None \<Rightarrow> run_ops ops (ss_new In_place) = Aborts
    | Some M \<Rightarrow> \<exists>s'. run_ops ops (ss_new In_place) = Ret s' \<and> (\<exists>fs. stable_ok fs s') \<and> stored s' = M \<and>
        length (elements s') \<le> length (elements (ss_new In_place)) + length ops"
    using assms(3) by (intro stable.run_spec) simp_all
  then show thesis using that assms(1,2) by (auto simp: ss_new_empty split: option.splits)
qed

lemma push_keeps_index:
  assumes ok: "stable_ok fs s" "length (elements s) < 2 ^ 20 - 1" "\<not> is_tombstone d" and call: "push d s = Ret (it, s')"
    and k: "k \<in> live fs s" "elements s ! k = e"
  shows "index s' e = index s e"
proof -
  have "\<exists>gs. stable_ok gs s' \<and> k \<in> live gs s' \<and> elements s' ! k = e"
  proof (cases fs)
    case Nil
    with push_stable [OF ok] call have "stable_ok [] s'" "elements s' = elements s @ [d]" by (auto split: if_splits)
    with k Nil show ?thesis by (intro exI [of _ "[]"]) (auto simp: nth_append)
  next
    case (Cons i gs)
    with push_stable [OF ok] call have "stable_ok gs s'" "elements s' = (elements s)[i := d]" by (auto split: if_splits)
    with k Cons show ?thesis by (intro exI [of _ gs]) auto
  qed
  then show ?thesis using index_spec [OF stable_okD(2)] index_spec [OF stable_okD(2) [OF ok(1)] k(1)] k(2) by metis
qed

lemma remove_keeps_index:
  assumes ok: "stable_ok fs s" and call: "remove d s = Ret (b, s')" and k: "k \<in> live fs s" "elements s ! k = e"
    and kept: "contains s' e = Ret True"
  shows "index s' e = index s e"
proof (cases "d \<in> members (live fs s) s")
  case False
  with remove_stable [OF ok, of d] call show ?thesis by auto
next
  case True
  with remove_stable [OF ok, of d] call obtain i where i: "stable_ok (i # fs) s'"
    "elements s' = (elements s)[i := combine (head s) tombstone_entity]" by auto
  have "e \<in> members (live (i # fs) s') s'" using kept contains_spec [OF stable_okD(2) [OF i(1)], of e] by simp
  then obtain j where j: "j \<in> live (i # fs) s'" "elements s' ! j = e" by (auto simp: members_def)
  then have "elements s ! j = e" "j \<in> live fs s" using i(2) by auto
  then have "j = k" using placedD(4) [OF stable_okD(2) [OF ok], of j k] k by simp
  then show ?thesis
    using index_spec [OF stable_okD(2) [OF i(1)] j(1)] index_spec [OF stable_okD(2) [OF ok] k(1)] j(2) k(2) by simp
qed

lemma freed_position_is_next:
  assumes ok: "stable_ok fs s" "length (elements s) < 2 ^ 20 - 1" and k: "k \<in> live fs s" "elements s ! k = e"
    and call: "remove e s = Ret (b, s')" and d: "\<not> is_tombstone d"
  shows "push d s' = Aborts \<or> (\<exists>s''. push d s' = Ret (k + 1, s''))"
proof -
  have "e \<in> members (live fs s) s" using k by (auto simp: members_def)
  with remove_stable [OF ok(1), of e] call obtain i where i: "i \<in> live fs s" "elements s ! i = e" "stable_ok (i # fs) s'"
    "elements s' = (elements s)[i := combine (head s) tombstone_entity]" by auto
  have "i = k" using i(1,2) k placedD(4) [OF stable_okD(2) [OF ok(1)], of i k] by simp
  then show ?thesis using push_stable [OF i(3) _ d] i(4) ok(2) by (auto split: if_splits)
qed

text \<open>
  C36. Under the policy that leaves tombstones positions are stable. In any state that insertions
  and removals lead to, the next operation moves no identifier that is stored before and
  after it, and the position that a removal frees is the one that the next insertion takes.
\<close>

theorem in_place_positions_are_stable:
  assumes "run_ops ops (ss_new In_place) = Ret s" "length ops < 2 ^ 20 - 1" "\<forall>x \<in> set ops. valid_op x"
    and "valid_op x" "apply_op x s = Ret s'" "contains s e = Ret True"
  shows "(contains s' e = Ret True \<longrightarrow> index s' e = index s e) \<and>
    (x = Remove e \<longrightarrow> is_tombstone d \<or> push d s' = Aborts \<or> (\<exists>i s''. index s e = Ret i \<and> push d s' = Ret (i + 1, s'')))"
proof -
  obtain fs where ok: "stable_ok fs s" "length (elements s) < 2 ^ 20 - 1" by (rule run_ops_stable [OF assms(1-3)])
  from assms(6) contains_spec [OF stable_okD(2) [OF ok(1)], of e]
  obtain k where k: "k \<in> live fs s" "elements s ! k = e" by (auto simp: members_def)
  show ?thesis
  proof (cases x)
    case (Push d')
    with assms(4,5) obtain it where "\<not> is_tombstone d'" "push d' s = Ret (it, s')" by (auto simp: obind_eq_Ret_iff)
    from push_keeps_index [OF ok this k] Push show ?thesis by simp
  next
    case (Remove d')
    with assms(5) obtain b where r: "remove d' s = Ret (b, s')" by (auto simp: obind_eq_Ret_iff)
    then show ?thesis
      using remove_keeps_index [OF ok(1) r k] freed_position_is_next [OF ok k, of b s' d] Remove
        index_spec [OF stable_okD(2) [OF ok(1)] k(1)] k(2) by auto
  qed
qed

theorem in_place_positions_are_stable_witness:
  "\<exists>s s'. run_ops [Push 1] (ss_new In_place) = Ret s \<and> apply_op (Remove 1) s = Ret s' \<and>
     (push 2 s' = Aborts \<or> (\<exists>i s''. index s 1 = Ret i \<and> push 2 s' = Ret (i + 1, s'')))"
proof -
  have new: "stable_ok [] (ss_new In_place)" by (rule ss_new_ok)
  have "spec_run [Push 1] {} = Some {1}" by simp
  with stable.run_spec [of "ss_new In_place" "[Push 1]"] new obtain s where s: "run_ops [Push 1] (ss_new In_place) = Ret s"
      "\<exists>fs. stable_ok fs s" "stored s = {1}"
    by (auto simp: ss_new_empty stored_def small_parts)
  from stable.remove [OF s(2), of 1] obtain s' where s': "apply_op (Remove 1) s = Ret s'" by auto
  have c: "contains s 1 = Ret True" using stable.contains [OF s(2)] s(3) by simp
  have "\<forall>x \<in> set [Push 1]. valid_op x" "length [Push 1] < 2 ^ 20 - 1" "valid_op (Remove 1)" by (simp_all add: small_parts)
  note in_place_positions_are_stable [OF s(1) this(2,1,3) s' c, of 2]
  with s(1) s' small_parts show ?thesis by blast
qed

end
