(* ===== verification/EntityStorageCorrect.thy ===== *)
theory EntityStorageCorrect
  imports EntityStorage SparseSetPolicies "HOL-Library.Multiset"
begin

text \<open>
  The policy that only swaps, and the storage of entities built on it.
\<close>

section \<open>The policy that only swaps\<close>

abbreviation full :: "sparse_set \<Rightarrow> bool" where
  "full s \<equiv> placed {..<length (elements s)} s"

lemma full_iff:
  "full s \<longleftrightarrow> pages_ok s \<and> length (elements s) < 2 ^ 20 \<and> distinct (map to_entity (elements s)) \<and>
     (\<forall>i<length (elements s). lookup s (elements s ! i) = Some (combine (of_nat i) (elements s ! i))) \<and>
     (\<forall>e. to_entity e \<notin> to_entity ` set (elements s) \<longrightarrow> lookup s e = None \<or> lookup s e = Some null_entity)"
proof -
  have "(\<lambda>i. to_entity (elements s ! i)) ` {..<length (elements s)} = to_entity ` set (elements s)"
    unfolding members_all [symmetric] members_def image_image ..
  moreover have "inj_on (\<lambda>i. to_entity (elements s ! i)) {..<length (elements s)} = distinct (map to_entity (elements s))"
    by (auto simp: distinct_conv_nth inj_on_def)
  ultimately show ?thesis by (simp add: placed_def Ball_def)
qed

lemma full_same_entity:
  assumes "full s" "i < length (elements s)" "j < length (elements s)"
  shows "to_entity (elements s ! i) = to_entity (elements s ! j) \<longleftrightarrow> i = j"
  using placedD(4) [OF assms(1)] assms(2,3) by simp

lemma swap_at_spec:
  assumes ok: "full s" and i: "i < length (elements s)" and j: "j < length (elements s)"
  shows "\<exists>s'. swap_at i j s = Ret s' \<and> full s' \<and> elements s' = (elements s)[i := elements s ! j, j := elements s ! i] \<and>
    mode s' = mode s \<and> head s' = head s"
proof -
  define l where "l = elements s ! i"
  define r where "r = elements s ! j"
  define s1 where "s1 = set_ref l (combine (of_nat j) l) s"
  define s2 where "s2 = set_ref r (combine (of_nat i) r) s1"
  define s' where "s' = s2\<lparr>elements := (elements s)[i := r, j := l]\<rparr>"
  note D = ok [unfolded full_iff]
  have ll: "lookup s l = Some (combine (of_nat i) l)" and lr: "lookup s r = Some (combine (of_nat j) r)"
    using D i j by (simp_all add: l_def r_def)
  have look1: "lookup s1 d = (if to_entity d = to_entity l then Some (combine (of_nat j) l) else lookup s d)" for d
    using lookup_set_ref [of s l] D ll by (simp add: s1_def)
  have ok1: "pages_ok s1" using D by (simp add: s1_def)
  obtain v where v: "lookup s1 r = Some v" using look1 [of r] lr by (cases "to_entity r = to_entity l") auto
  have look: "lookup s' d = (if to_entity d = to_entity r then Some (combine (of_nat i) r)
       else if to_entity d = to_entity l then Some (combine (of_nat j) l) else lookup s d)" for d
    using lookup_set_ref [OF ok1, of r] v look1 [of d] by (simp add: s'_def s2_def)
  have "swap_at i j s = Ret s'"
    using i j D ll v write_ref_eq [OF _ ll] write_ref_eq [OF ok1 v]
    by (simp add: swap_at_def read_at_def sparse_ref_eq l_def [symmetric] r_def [symmetric] s1_def [symmetric] s2_def [symmetric]
        to_integral_def s'_def) (simp add: s2_def s1_def)
  moreover have "full s'"
    unfolding full_iff
  proof (intro conjI allI impI)
    have m: "mset (elements s') = mset (elements s)" using i j by (simp add: s'_def l_def r_def mset_swap)
    then have ms: "set (elements s') = set (elements s)" by (rule mset_eq_setD)
    have "mset (map to_entity (elements s')) = mset (map to_entity (elements s))" using m by (simp add: mset_map)
    then show "distinct (map to_entity (elements s'))" using D mset_eq_imp_distinct_iff by blast
    show "lookup s' e = None \<or> lookup s' e = Some null_entity" if "to_entity e \<notin> to_entity ` set (elements s')" for e
    proof -
      have "to_entity e \<noteq> to_entity r" "to_entity e \<noteq> to_entity l" using that i j by (auto simp: ms l_def r_def)
      then show ?thesis using that D by (simp add: look ms)
    qed
    show "lookup s' (elements s' ! k) = Some (combine (of_nat k) (elements s' ! k))" if "k < length (elements s')" for k
    proof -
      have k: "k < length (elements s)" using that by (simp add: s'_def)
      have e: "elements s' ! k = (if k = j then l else if k = i then r else elements s ! k)"
        using k by (simp add: s'_def nth_list_update)
      have "to_entity l = to_entity r \<longleftrightarrow> i = j" using full_same_entity [OF ok i j] by (simp add: l_def r_def)
      moreover have "to_entity (elements s ! k) = to_entity l \<longleftrightarrow> k = i" "to_entity (elements s ! k) = to_entity r \<longleftrightarrow> k = j"
        using full_same_entity [OF ok k i] full_same_entity [OF ok k j] by (simp_all add: l_def r_def)
      ultimately show ?thesis using D k by (auto simp: e look l_def r_def)
    qed
  qed (use D ok1 in \<open>simp_all add: s'_def s2_def\<close>)
  ultimately show ?thesis by (intro exI [of _ s']) (simp add: s'_def s2_def s1_def l_def r_def)
qed

text \<open>\<open>bump\<close> writes an identifier over the one with its entity.\<close>

lemma bump_spec:
  assumes ok: "full s" and i: "i < length (elements s)" and e: "to_entity e = to_entity (elements s ! i)" "\<not> is_tombstone e"
  shows "\<exists>s'. bump e s = Ret (to_version e, s') \<and> full s' \<and> elements s' = (elements s)[i := e] \<and> mode s' = mode s \<and> head s' = head s"
proof -
  note D = ok [unfolded full_iff]
  let ?v = "combine (of_nat i) (elements s ! i)"
  define s1 where "s1 = set_ref e (combine (of_nat i) e) s"
  define s' where "s' = s1\<lparr>elements := (elements s)[i := e]\<rparr>"
  have i': "i < 2 ^ 20" "i < 2 ^ 20 - 1" using D i by auto
  have l: "lookup s e = Some ?v" using D i lookup_cong [OF e(1)] by simp
  have nn: "\<not> is_null ?v" using not_mask_position [OF i'(2)] by (simp add: is_null_iff)
  have cc: "combine ?v e = combine (of_nat i) e" by (rule entity_eqI) simp_all
  have look: "lookup s1 d = (if to_entity d = to_entity e then Some (combine (of_nat i) e) else lookup s d)" for d
    using lookup_set_ref [of s e] D l by (simp add: s1_def)
  have "bump e s = Ret (to_version e, s')"
    using D l nn e(2) i i' read_ref_eq [OF _ l] write_ref_eq [OF _ l]
    by (simp add: bump_def sparse_ref_eq to_integral_def cc [simplified] Let_def s1_def [symmetric] to_entity_of_nat write_at_def s'_def)
       (simp add: s1_def)
  moreover have "full s'"
    unfolding full_iff
  proof (intro conjI allI impI)
    have map: "map to_entity (elements s') = map to_entity (elements s)"
      by (rule nth_equalityI) (simp_all add: s'_def nth_list_update i e(1))
    then have img: "to_entity ` set (elements s') = to_entity ` set (elements s)" by (metis set_map)
    show "distinct (map to_entity (elements s'))" using D by (simp add: map)
    show "lookup s' d = None \<or> lookup s' d = Some null_entity" if "to_entity d \<notin> to_entity ` set (elements s')" for d
    proof -
      have "to_entity d \<noteq> to_entity e" using that i unfolding img e(1) by auto
      moreover have "to_entity d \<notin> to_entity ` set (elements s)" using that unfolding img .
      ultimately show ?thesis using D by (simp add: s'_def look)
    qed
    show "lookup s' (elements s' ! k) = Some (combine (of_nat k) (elements s' ! k))" if "k < length (elements s')" for k
      using that D i full_same_entity [OF ok _ i, of k] e(1) by (cases "k = i") (auto simp: look s'_def)
  qed (use D in \<open>simp_all add: s'_def s1_def\<close>)
  ultimately show ?thesis by (intro exI [of _ s']) (simp add: s'_def s1_def)
qed

text \<open>Assigning an identifier of a new entity, and one whose entity is there already.\<close>

lemma try_emplace_new:
  assumes ok: "full s" "mode s = Swap_only" and new: "to_entity e \<notin> to_entity ` set (elements s)"
    and room: "length (elements s) < 2 ^ 20 - 1"
  shows "\<exists>s2. full s2 \<and> elements s2 = elements s @ [e] \<and> mode s2 = Swap_only \<and> head s2 = head s \<and>
    try_emplace e b s =
      (if b then obind (swap_at (length (elements s)) (unat (head s)) (s2\<lparr>head := head s + 1\<rparr>)) (\<lambda>s3. Ret (unat (head s) + 1, s3))
       else Ret (length (elements s) + 1, s2))"
proof -
  let ?n = "length (elements s)"
  obtain s1 v where s1: "assure_at_least e s = Ret (slot e, s1)" "full s1" "elements s1 = elements s" "mode s1 = Swap_only"
    "head s1 = head s" "lookup s1 e = Some v" "is_null v"
    using placed_assure [OF ok(1), of e] ok(2) new by auto
  let ?t = "s1\<lparr>elements := elements s1 @ [e]\<rparr>"
  define s2 where "s2 = set_ref e (combine (of_nat ?n) e) ?t"
  have t: "pages_ok ?t" "lookup ?t e = Some v" using s1(2,6) [unfolded full_iff] by simp_all
  have l2: "pages_ok s2" "lookup s2 e = Some (combine (of_nat ?n) e)"
    using t lookup_set_ref [OF t(1), of e] by (simp_all add: s2_def)
  have "members {..<?n} s1 = set (elements s)" using members_all [of s1] s1(3) by simp
  then have "placed (insert ?n {..<?n}) s2"
    using append_element_spec(2) [OF s1(2) s1(6)] s1(3,7) new room by (simp add: s2_def)
  then have "full s2" using s1(3) by (simp add: s2_def lessThan_Suc)
  moreover have w: "write_ref (slot e) (combine (of_nat ?n) e) ?t = Ret s2"
    unfolding s2_def by (rule write_ref_eq [OF t])
  moreover have "read_ref s1 (slot e) = Ret v" "read_ref s2 (slot e) = Ret (combine (of_nat ?n) e)"
    using s1(2,6) l2 by (simp_all add: read_ref_eq full_iff)
  moreover have "unat (to_entity (combine (of_nat ?n) e)) = ?n" using room by (simp add: to_entity_of_nat)
  ultimately have "try_emplace e b s =
      (if b then obind (swap_at ?n (unat (head s)) (s2\<lparr>head := head s + 1\<rparr>)) (\<lambda>s3. Ret (unat (head s) + 1, s3)) else Ret (?n + 1, s2))"
    using s1 by (simp add: try_emplace_def emplace_swap_only_def Let_def to_integral_def s2_def [symmetric]) (simp add: s2_def obind_assoc)
  with \<open>full s2\<close> s1 show ?thesis by (intro exI [of _ s2]) (simp add: s2_def)
qed

lemma try_emplace_old:
  assumes ok: "full s" "mode s = Swap_only" and i: "i < length (elements s)"
    and e: "to_entity e = to_entity (elements s ! i)" "\<not> is_tombstone e"
  shows "if i < unat (head s) then try_emplace e True s = Aborts
    else \<exists>s2. full s2 \<and> elements s2 = (elements s)[i := e] \<and> mode s2 = Swap_only \<and> head s2 = head s \<and>
      try_emplace e True s = obind (swap_at i (unat (head s)) (s2\<lparr>head := head s + 1\<rparr>)) (\<lambda>s3. Ret (unat (head s) + 1, s3))"
proof -
  have img: "to_entity e \<in> to_entity ` set (elements s)" using i by (simp add: e(1))
  obtain s1 v where s1: "assure_at_least e s = Ret (slot e, s1)" "full s1" "elements s1 = elements s" "mode s1 = Swap_only"
    "head s1 = head s" "lookup s1 e = Some v" "\<not> is_null v"
    using placed_assure [OF ok(1), of e] ok(2) img by auto
  have i': "i < 2 ^ 20" using i ok(1) [unfolded full_iff] by simp
  have "lookup s1 e = Some (combine (of_nat i) (elements s ! i))"
    using s1(2,3) [unfolded full_iff] i lookup_cong [OF e(1)] by simp
  then have v: "to_entity v = of_nat i" using s1(6) i' by (simp add: to_entity_of_nat)
  have less: "to_entity v < head s \<longleftrightarrow> i < unat (head s)" using i' by (simp add: v word_less_nat_alt to_entity_of_nat)
  have r: "read_ref s1 (slot e) = Ret v" using s1(2,6) by (simp add: read_ref_eq full_iff)
  show ?thesis
  proof (cases "i < unat (head s)")
    case True
    then show ?thesis using s1 r less by (simp add: try_emplace_def emplace_swap_only_def)
  next
    case False
    from bump_spec [OF s1(2), of i e] i e s1(3) obtain s2 where s2: "bump e s1 = Ret (to_version e, s2)" "full s2"
      "elements s2 = (elements s)[i := e]" "mode s2 = Swap_only" "head s2 = head s" using s1(4,5) by auto
    have "lookup s2 (elements s2 ! i) = Some (combine (of_nat i) (elements s2 ! i))"
      using s2(2,3) [unfolded full_iff] i by (metis length_list_update)
    then have "read_ref s2 (slot e) = Ret (combine (of_nat i) e)" using placedD(1) [OF s2(2)] s2(3) i by (simp add: read_ref_eq)
    then have "try_emplace e True s = obind (swap_at i (unat (head s)) (s2\<lparr>head := head s + 1\<rparr>)) (\<lambda>s3. Ret (unat (head s) + 1, s3))"
      using s1(1,4,5,7) s2(1,5) r less False i'
      by (simp add: try_emplace_def emplace_swap_only_def Let_def obind_assoc to_entity_of_nat)
    then show ?thesis using s2(2-5) unfolding if_not_P [OF False] by blast
  qed
qed

section \<open>Identifiers in use and spare ones\<close>

definition in_use :: "sparse_set \<Rightarrow> entity set" where
  "in_use s = set (take (free_list s) (elements s))"

definition spare :: "sparse_set \<Rightarrow> entity set" where
  "spare s = set (drop (free_list s) (elements s))"

definition swapping :: "sparse_set \<Rightarrow> bool" where
  "swapping s \<longleftrightarrow> mode s = Swap_only \<and> full s \<and> free_list s \<le> length (elements s) \<and>
     (\<forall>e \<in> set (elements s). \<not> is_tombstone e)"

text \<open>In a storage of entities the entities are numbered from 0 on.\<close>

definition es_ok :: "sparse_set \<Rightarrow> bool" where
  "es_ok s \<longleftrightarrow> swapping s \<and> to_entity ` set (elements s) = of_nat ` {..<length (elements s)}"

lemma in_use_or_spare: "set (elements s) = in_use s \<union> spare s"
  unfolding in_use_def spare_def set_append [symmetric] append_take_drop_id ..

lemma swapping_distinct: "swapping s \<Longrightarrow> distinct (elements s)"
  unfolding swapping_def full_iff using distinct_map by blast

lemma swapping_inj: "swapping s \<Longrightarrow> inj_on to_entity (set (elements s))"
  unfolding swapping_def full_iff using distinct_map by blast

lemma swapping_same_entity:
  "swapping s \<Longrightarrow> d \<in> in_use s \<union> spare s \<Longrightarrow> e \<in> in_use s \<union> spare s \<Longrightarrow> to_entity d = to_entity e \<Longrightarrow> d = e"
  unfolding in_use_or_spare [symmetric] by (blast dest: inj_onD [OF swapping_inj])

lemma set_drop_distinct: "distinct xs \<Longrightarrow> set (drop n xs) = set xs - set (take n xs)"
  using set_append [of "take n xs" "drop n xs"] distinct_append [of "take n xs" "drop n xs"]
  unfolding append_take_drop_id by blast

lemma spare_eq: "swapping s \<Longrightarrow> spare s = set (elements s) - in_use s"
  unfolding spare_def in_use_def by (rule set_drop_distinct [OF swapping_distinct])

lemma in_use_position:
  assumes "swapping s" "i < length (elements s)"
  shows "elements s ! i \<in> in_use s \<longleftrightarrow> i < free_list s"
proof -
  have "elements s ! j = elements s ! i \<longleftrightarrow> j = i" if "j < length (elements s)" for j
    using nth_eq_iff_index_eq [OF swapping_distinct [OF assms(1)] that assms(2)] .
  then show ?thesis using assms(2) by (auto simp: in_use_def in_set_conv_nth)
qed

text \<open>The two swaps that move an identifier over the border between the two parts.\<close>

lemma set_take_swap_in:
  assumes "distinct xs" "h \<le> p" "p < length xs"
  shows "set (take (Suc h) (xs[p := xs ! h, h := xs ! p])) = insert (xs ! p) (set (take h xs))"
proof -
  have "take (Suc h) (xs[p := xs ! h, h := xs ! p]) = take h xs @ [xs ! p]"
    by (rule nth_equalityI) (use assms(2,3) in \<open>auto simp: nth_list_update nth_append less_Suc_eq\<close>)
  then show ?thesis by simp
qed

lemma set_take_swap_out:
  assumes "distinct xs" "p < Suc h" "h < length xs"
  shows "set (take h (xs[p := xs ! h, h := xs ! p])) = set (take (Suc h) xs) - {xs ! p}"
proof (cases "p = h")
  case True
  have "xs ! h \<notin> set (take h xs)"
    using assms(1,3) by (auto simp: in_set_conv_nth nth_eq_iff_index_eq)
  with True assms(3) show ?thesis by (simp add: take_Suc_conv_app_nth take_update_swap)
next
  case False
  then have p: "p < h" using assms(2) by simp
  have d: "distinct (take h xs @ [xs ! h])" using assms(1,3) by (metis distinct_take take_Suc_conv_app_nth)
  have "take h (xs[p := xs ! h, h := xs ! p]) = (take h xs)[p := xs ! h]" using p assms(3) by (simp add: take_update_swap list_update_beyond)
  moreover have "set ((take h xs)[p := xs ! h]) = insert (xs ! h) (set (take h xs) - {take h xs ! p})"
    using d p assms(3) by (intro set_update_distinct) simp_all
  moreover have "xs ! h \<noteq> xs ! p" using assms p by (simp add: nth_eq_iff_index_eq)
  ultimately show ?thesis using p assms(3) by (auto simp: take_Suc_conv_app_nth)
qed

lemma unat_Suc_head: "unat h < 2 ^ 20 \<Longrightarrow> unat (h + 1 :: 32 word) = Suc (unat h)"
  by (simp add: unat_plus_if')

lemma swap_in:
  assumes ok: "full s" "mode s = Swap_only" "\<forall>e \<in> set (elements s). \<not> is_tombstone e"
    and p: "unat (head s) \<le> p" "p < length (elements s)"
  shows "\<exists>s'. swap_at p (unat (head s)) (s\<lparr>head := head s + 1\<rparr>) = Ret s' \<and> swapping s' \<and>
    in_use s' = insert (elements s ! p) (set (take (unat (head s)) (elements s))) \<and> set (elements s') = set (elements s) \<and>
    length (elements s') = length (elements s) \<and> deref (unat (head s) + 1) s' = Ret (elements s ! p) \<and>
    free_list s' = Suc (unat (head s)) \<and> take (Suc (unat (head s))) (elements s') = take (unat (head s)) (elements s) @ [elements s ! p]"
proof -
  let ?h = "unat (head s)" let ?xs = "elements s"
  have h: "?h < length ?xs" "?h < 2 ^ 20" using p ok(1) [unfolded full_iff] by simp_all
  obtain s' where s': "swap_at p ?h (s\<lparr>head := head s + 1\<rparr>) = Ret s'" "full s'" "elements s' = ?xs[p := ?xs ! ?h, ?h := ?xs ! p]"
    "mode s' = Swap_only" "head s' = head s + 1"
    using swap_at_spec [of "s\<lparr>head := head s + 1\<rparr>" p ?h] ok p h by auto
  have "mset (elements s') = mset ?xs" using p h by (simp add: s'(3) mset_swap)
  then have ms: "set (elements s') = set ?xs" by (rule mset_eq_setD)
  have fl: "free_list s' = Suc ?h" using s'(5) unat_Suc_head [OF h(2)] by (simp add: free_list_def)
  have "distinct ?xs" using ok(1) [unfolded full_iff] distinct_map by blast
  from set_take_swap_in [OF this p] have "in_use s' = insert (?xs ! p) (set (take ?h ?xs))"
    by (simp only: in_use_def fl s'(3))
  moreover have "swapping s'" using s'(2,4) ok(3) h by (simp add: swapping_def fl ms) (simp add: s'(3))
  moreover have "deref (?h + 1) s' = Ret (?xs ! p)" using h p by (simp add: deref_def read_at_def s'(3))
  moreover have "take (Suc ?h) (elements s') = take ?h ?xs @ [?xs ! p]" unfolding s'(3)
    by (rule nth_equalityI) (use p h in \<open>auto simp: nth_list_update nth_append less_Suc_eq\<close>)
  ultimately show ?thesis using s'(1,3) ms fl by (intro exI [of _ s']) simp
qed

definition takes_next :: "entity \<Rightarrow> sparse_set \<Rightarrow> sparse_set \<Rightarrow> bool" where
  "takes_next e s s' \<longleftrightarrow> free_list s' = Suc (free_list s) \<and> take (Suc (free_list s)) (elements s') = take (free_list s) (elements s) @ [e]"

lemma swappingD:
  "swapping s \<Longrightarrow> mode s = Swap_only" "swapping s \<Longrightarrow> full s" "swapping s \<Longrightarrow> unat (head s) \<le> length (elements s)"
  "swapping s \<Longrightarrow> e \<in> set (elements s) \<Longrightarrow> \<not> is_tombstone e"
  by (simp_all add: swapping_def free_list_def)

lemma take_new:
  assumes ok: "swapping s" and e: "to_entity e \<notin> to_entity ` set (elements s)" "\<not> is_tombstone e"
    and room: "length (elements s) < 2 ^ 20 - 1"
  shows "\<exists>s'. take_slot e s = Ret (e, s') \<and> swapping s' \<and> in_use s' = insert e (in_use s) \<and>
    set (elements s') = insert e (set (elements s)) \<and> length (elements s') = Suc (length (elements s)) \<and> takes_next e s s'"
proof -
  note D = swappingD [OF ok]
  obtain s2 where s2: "full s2" "elements s2 = elements s @ [e]" "mode s2 = Swap_only" "head s2 = head s"
    "try_emplace e True s = obind (swap_at (length (elements s)) (unat (head s)) (s2\<lparr>head := head s + 1\<rparr>)) (\<lambda>s3. Ret (unat (head s) + 1, s3))"
    using try_emplace_new [OF D(2,1) e(1) room, of True] by auto
  obtain s' where s': "swap_at (length (elements s)) (unat (head s2)) (s2\<lparr>head := head s2 + 1\<rparr>) = Ret s'" "swapping s'"
    "in_use s' = insert (elements s2 ! length (elements s)) (set (take (unat (head s2)) (elements s2)))"
    "set (elements s') = set (elements s2)" "length (elements s') = length (elements s2)"
    "deref (unat (head s2) + 1) s' = Ret (elements s2 ! length (elements s))" "free_list s' = Suc (unat (head s2))"
    "take (Suc (unat (head s2))) (elements s') = take (unat (head s2)) (elements s2) @ [elements s2 ! length (elements s)]"
    using swap_in [OF s2(1,3), of "length (elements s)"] D(3,4) e(2) s2(2,4) by auto
  have "take_slot e s = Ret (e, s')" using s'(1,6) s2(2,4,5) by (simp add: take_slot_def)
  then show ?thesis using s'(2-5,7,8) s2(2,4) D(3) by (intro exI [of _ s']) (simp add: in_use_def free_list_def takes_next_def)
qed

lemma take_old:
  assumes ok: "swapping s" and i: "i < length (elements s)" and e: "to_entity e = to_entity (elements s ! i)" "\<not> is_tombstone e"
  shows "if i < free_list s then take_slot e s = Aborts
    else \<exists>s'. take_slot e s = Ret (e, s') \<and> swapping s' \<and> in_use s' = insert e (in_use s) \<and>
      set (elements s') = insert e (set (elements s) - {elements s ! i}) \<and> length (elements s') = length (elements s) \<and> takes_next e s s'"
proof (cases "i < free_list s")
  case True
  then show ?thesis using try_emplace_old [OF swappingD(2,1) [OF ok] i e] ok by (simp add: take_slot_def free_list_def)
next
  case False
  note D = swappingD [OF ok]
  have h: "unat (head s) \<le> i" using False by (simp add: free_list_def)
  then obtain s2 where s2: "full s2" "elements s2 = (elements s)[i := e]" "mode s2 = Swap_only" "head s2 = head s"
    "try_emplace e True s = obind (swap_at i (unat (head s)) (s2\<lparr>head := head s + 1\<rparr>)) (\<lambda>s3. Ret (unat (head s) + 1, s3))"
    using try_emplace_old [OF D(2,1) i e] by auto
  have set2: "set (elements s2) = insert e (set (elements s) - {elements s ! i})"
    unfolding s2(2) by (rule set_update_distinct [OF swapping_distinct [OF ok] i])
  obtain s' where s': "swap_at i (unat (head s2)) (s2\<lparr>head := head s2 + 1\<rparr>) = Ret s'" "swapping s'"
    "in_use s' = insert (elements s2 ! i) (set (take (unat (head s2)) (elements s2)))"
    "set (elements s') = set (elements s2)" "length (elements s') = length (elements s2)"
    "deref (unat (head s2) + 1) s' = Ret (elements s2 ! i)" "free_list s' = Suc (unat (head s2))"
    "take (Suc (unat (head s2))) (elements s') = take (unat (head s2)) (elements s2) @ [elements s2 ! i]"
    using swap_in [OF s2(1,3), of i] D(4) e(2) s2(2,4) h i set2 by auto
  have "take_slot e s = Ret (e, s')" using s'(1,6) s2(2,4,5) i by (simp add: take_slot_def)
  then show ?thesis using False s'(2-5,7,8) s2(2,4) i h set2
    by (intro if_not_P [THEN iffD2] exI [of _ s']) (simp_all add: in_use_def free_list_def take_update_cancel takes_next_def)
qed

section \<open>Creating identifiers\<close>

text \<open>The identifier of entity \<open>n\<close> in its first version.\<close>

definition first_version :: "nat \<Rightarrow> entity" where
  "first_version n = combine (of_nat n) 0"

lemma first_version_simps [simp]:
  "to_entity (first_version n) = to_entity (of_nat n)" "\<not> is_tombstone (first_version n)"
proof -
  have "to_version (0 :: 32 word) = 0" by (rule bit_eqI) (simp add: bit_to_version)
  then show "\<not> is_tombstone (first_version n)" by (simp add: first_version_def is_tombstone_iff)
qed (simp add: first_version_def)

lemma entity_at_eq: "entity_at n = (if n < 2 ^ 20 - 1 then Ret (first_version n) else Aborts)"
proof -
  have "unat (to_entity null_entity) = 2 ^ 20 - 1" by (simp add: to_entity_unat null_bits unsigned_minus_1_eq_mask mask_eq_exp_minus_1)
  then show ?thesis by (simp add: entity_at_def first_version_def)
qed

lemma of_nat_entity_eq:
  "i < 2 ^ 20 \<Longrightarrow> j < 2 ^ 20 \<Longrightarrow> (of_nat i :: 32 word) = of_nat j \<longleftrightarrow> i = j"
  using to_entity_of_nat(2) by metis

lemma es_ok_new_entity:
  assumes "es_ok s" "n < 2 ^ 20" "to_entity e = of_nat n"
  shows "to_entity e \<in> to_entity ` set (elements s) \<longleftrightarrow> n < length (elements s)"
proof -
  have len: "length (elements s) < 2 ^ 20" using assms(1) unfolding es_ok_def swapping_def full_iff by simp
  have "to_entity e \<in> to_entity ` set (elements s) \<longleftrightarrow> (\<exists>i<length (elements s). (of_nat n :: 32 word) = of_nat i)"
    using assms(1,3) unfolding es_ok_def by auto
  also have "\<dots> \<longleftrightarrow> n < length (elements s)"
    using len assms(2) of_nat_entity_eq by (metis less_trans)
  finally show ?thesis .
qed

lemma es_ok_insert_next:
  assumes "es_ok s" "swapping s'" "set (elements s') = insert e (set (elements s))" "length (elements s') = Suc (length (elements s))"
    and "to_entity e = of_nat (length (elements s))"
  shows "es_ok s'"
  using assms by (simp add: es_ok_def lessThan_Suc)

lemma es_ok_replace:
  assumes "es_ok s" "swapping s'" "set (elements s') = insert e (set (elements s) - {d})" "length (elements s') = length (elements s)"
    and "d \<in> set (elements s)" "to_entity e = to_entity d"
  shows "es_ok s'"
proof -
  have "to_entity ` insert e (set (elements s) - {d}) = to_entity ` set (elements s)" using assms(5,6) by auto
  then show ?thesis using assms(1-4) by (simp add: es_ok_def)
qed

lemma es_emplace_full:
  assumes "es_ok s" "spare s = {}"
  shows "if length (elements s) < 2 ^ 20 - 1
    then \<exists>s'. es_emplace s = Ret (first_version (length (elements s)), s') \<and> es_ok s' \<and>
      in_use s' = insert (first_version (length (elements s))) (in_use s) \<and> spare s' = {} \<and>
      length (elements s') = Suc (length (elements s))
    else es_emplace s = Aborts"
proof -
  have sw: "swapping s" using assms(1) by (simp add: es_ok_def)
  have len: "length (elements s) < 2 ^ 20" using sw unfolding swapping_def full_iff by simp
  have fl: "free_list s = length (elements s)" using sw assms(2) by (simp add: swapping_def spare_def)
  show ?thesis
  proof (cases "length (elements s) < 2 ^ 20 - 1")
    case True
    let ?n = "length (elements s)" let ?e = "first_version ?n"
    have ent: "to_entity ?e = of_nat ?n" using len by (simp add: to_entity_of_nat)
    have "to_entity ?e \<notin> to_entity ` set (elements s)" using es_ok_new_entity [OF assms(1) len ent] by simp
    then obtain s' where s': "take_slot ?e s = Ret (?e, s')" "swapping s'" "in_use s' = insert ?e (in_use s)"
      "set (elements s') = insert ?e (set (elements s))" "length (elements s') = Suc ?n"
      using take_new [OF sw _ _ True, of ?e] by auto
    moreover have "es_ok s'" by (rule es_ok_insert_next [OF assms(1) s'(2,4,5) ent])
    moreover have "spare s' = {}" using spare_eq [OF s'(2)] spare_eq [OF sw] assms(2) s'(3,4) by auto
    ultimately show ?thesis using True fl by (auto simp: es_emplace_def entity_at_eq)
  qed (use fl in \<open>simp add: es_emplace_def entity_at_eq\<close>)
qed

lemma es_emplace_spare:
  assumes "es_ok s" "spare s \<noteq> {}"
  shows "\<exists>e s'. es_emplace s = Ret (e, s') \<and> e \<in> spare s \<and> es_ok s' \<and> in_use s' = insert e (in_use s) \<and>
    spare s' = spare s - {e} \<and> length (elements s') = length (elements s)"
proof -
  have sw: "swapping s" using assms(1) by (simp add: es_ok_def)
  let ?i = "free_list s" let ?e = "elements s ! ?i"
  have i: "?i < length (elements s)" using assms(2) by (simp add: spare_def)
  have nt: "\<not> is_tombstone ?e" using swappingD(4) [OF sw nth_mem [OF i]] .
  obtain s' where s': "take_slot ?e s = Ret (?e, s')" "swapping s'" "in_use s' = insert ?e (in_use s)"
    "set (elements s') = insert ?e (set (elements s) - {?e})" "length (elements s') = length (elements s)"
    using take_old [OF sw i refl nt] by auto
  have "es_ok s'" by (rule es_ok_replace [OF assms(1) s'(2,4,5) nth_mem [OF i] refl])
  moreover have "?e \<in> spare s" using spare_eq [OF sw] in_use_position [OF sw i] i by simp
  moreover have "spare s' = spare s - {?e}" using spare_eq [OF s'(2)] spare_eq [OF sw] s'(3,4) \<open>?e \<in> spare s\<close> by auto
  ultimately show ?thesis using s'(1,3,5) i by (auto simp: es_emplace_def read_at_def)
qed

lemma current_version_spec:
  assumes "full s"
  shows "current_version s e = Ret (if to_entity e \<in> to_entity ` set (elements s)
    then to_version (THE d. d \<in> set (elements s) \<and> to_entity d = to_entity e) else mask 12)"
proof (cases "to_entity e \<in> to_entity ` set (elements s)")
  case True
  then obtain i where i: "i < length (elements s)" "to_entity (elements s ! i) = to_entity e" by (auto simp: in_set_conv_nth)
  note D = assms [unfolded full_iff]
  have "(THE d. d \<in> set (elements s) \<and> to_entity d = to_entity e) = elements s ! i"
    by (rule the_equality) (use i full_same_entity [OF assms _ i(1)] in \<open>auto simp: in_set_conv_nth\<close>)
  moreover have l: "lookup s e = Some (combine (of_nat i) (elements s ! i))"
    using D i(1) unfolding lookup_cong [OF i(2), symmetric] by blast
  ultimately show ?thesis using True D read_ref_eq [OF _ l] by (simp add: current_version_def sparse_ptr_eq)
next
  case False
  have t: "to_version tombstone_entity = mask 12" "to_version null_entity = mask 12"
    unfolding null_bits by (rule bit_eqI, auto simp: bit_to_version bit_mask_iff)+
  from assms [unfolded full_iff] False have "lookup s e = None \<or> lookup s e = Some null_entity" by blast
  then show ?thesis using False t placedD(1) [OF assms]
    by (auto simp: current_version_def sparse_ptr_eq read_ref_eq)
qed

lemma current_version_known:
  assumes "full s" "i < length (elements s)" "to_entity e = to_entity (elements s ! i)"
  shows "current_version s e = Ret (to_version (elements s ! i))"
proof -
  have "(THE d. d \<in> set (elements s) \<and> to_entity d = to_entity e) = elements s ! i"
    by (rule the_equality) (use assms full_same_entity [OF assms(1) _ assms(2)] in \<open>auto simp: in_set_conv_nth\<close>)
  then show ?thesis using current_version_spec [OF assms(1), of e] assms(2,3) by simp
qed

lemma current_version_unknown:
  "full s \<Longrightarrow> to_entity e \<notin> to_entity ` set (elements s) \<Longrightarrow> current_version s e = Ret (mask 12)"
  by (simp add: current_version_spec)

text \<open>Filling the gap below an identifier that was asked for.\<close>

lemma fill_upto_spec:
  assumes "swapping s" "0 < length (elements s)" "length (elements s) - 1 \<le> pos" "pos < 2 ^ 20 - 1"
    and "to_entity ` set (elements s) = insert (of_nat pos) (of_nat ` {..<length (elements s) - 1})"
  shows "\<exists>s'. fill_upto pos s = Some (Ret s') \<and> es_ok s' \<and> in_use s' = in_use s \<and>
    spare s' = spare s \<union> first_version ` {length (elements s) - 1..<pos} \<and> length (elements s') = Suc pos \<and>
    free_list s' = free_list s \<and> take (length (elements s)) (elements s') = elements s"
  using assms
proof (induction "Suc pos - length (elements s)" arbitrary: s)
  case 0
  then have len: "length (elements s) = Suc pos" by simp
  then have "es_ok s" using 0 by (simp add: es_ok_def lessThan_Suc)
  then show ?case using len by (subst fill_upto.simps) simp
next
  case (Suc k)
  let ?n = "length (elements s)" let ?e = "first_version (?n - 1)"
  note D = swappingD [OF Suc.prems(1)]
  have n: "?n \<le> pos" "?n < 2 ^ 20 - 1" "?n - 1 < 2 ^ 20" using Suc.hyps(2) Suc.prems(4) by simp_all
  have ent: "to_entity ?e = of_nat (?n - 1)" using n by (simp add: to_entity_of_nat)
  have "(of_nat (?n - 1) :: 32 word) \<noteq> of_nat i" if "i < ?n - 1" for i
    using that n of_nat_entity_eq [of "?n - 1" i] by simp
  moreover have "?n - 1 \<noteq> pos" using Suc.prems(2) n(1) by linarith
  then have "(of_nat (?n - 1) :: 32 word) \<noteq> of_nat pos"
    using Suc.prems(4) n(3) of_nat_entity_eq [of "?n - 1" pos] by simp
  ultimately have new: "to_entity ?e \<notin> to_entity ` set (elements s)" unfolding ent Suc.prems(5) by blast
  obtain s2 where s2: "full s2" "elements s2 = elements s @ [?e]" "mode s2 = Swap_only" "head s2 = head s"
    "try_emplace ?e False s = Ret (?n + 1, s2)"
    using try_emplace_new [OF D(2,1) new n(2), of False] by auto
  have sw: "swapping s2" using s2(1,3,4) D(3,4) by (auto simp: swapping_def free_list_def s2(2))
  have fl: "free_list s2 = free_list s" using s2(4) by (simp add: free_list_def)
  have le: "free_list s \<le> ?n" using Suc.prems(1) by (simp add: swapping_def)
  have use2: "in_use s2 = in_use s" "spare s2 = insert ?e (spare s)"
    using le by (auto simp: in_use_def spare_def fl s2(2))
  have "insert (?n - 1) {..<?n - 1} = {..<?n}" using Suc.prems(2) by auto
  then have last: "insert (of_nat (?n - 1)) (of_nat ` {..<?n - 1}) = (of_nat ` {..<?n} :: 32 word set)"
    unfolding image_insert [symmetric] by (rule arg_cong)
  have "to_entity ` set (elements s2) = insert (to_entity ?e) (to_entity ` set (elements s))" by (simp add: s2(2))
  also have "\<dots> = insert (of_nat pos) (insert (of_nat (?n - 1)) (of_nat ` {..<?n - 1}))"
    unfolding Suc.prems(5) ent by (rule insert_commute)
  finally have dense: "to_entity ` set (elements s2) = insert (of_nat pos) (of_nat ` {..<length (elements s2) - 1})"
    unfolding last by (simp add: s2(2))
  have "k = Suc pos - length (elements s2)" using Suc.hyps(2) by (simp add: s2(2))
  from Suc.hyps(1) [OF this sw _ _ Suc.prems(4) dense] n obtain s' where s': "fill_upto pos s2 = Some (Ret s')" "es_ok s'"
    "in_use s' = in_use s2" "spare s' = spare s2 \<union> first_version ` {?n..<pos}" "length (elements s') = Suc pos"
    "free_list s' = free_list s2" "take (Suc ?n) (elements s') = elements s @ [?e]"
    by (auto simp: s2(2))
  have "take ?n (elements s') = take ?n (take (Suc ?n) (elements s'))" by (simp add: min_def)
  also have "\<dots> = elements s" by (simp add: s'(7))
  finally have keeps: "take ?n (elements s') = elements s" .
  have "{?n - 1..<pos} = insert (?n - 1) {?n..<pos}" using \<open>?n - 1 \<noteq> pos\<close> n(1) by auto
  then have "spare s' = spare s \<union> first_version ` {?n - 1..<pos}" using s'(4) use2(2) by auto
  moreover have "fill_upto pos s = Some (Ret s')"
    using s'(1) s2(5) n by (subst fill_upto.simps) (simp add: entity_at_eq)
  ultimately show ?case using s'(2,3,5,6) use2(1) fl keeps by auto
qed

lemma swapping_lookup:
  assumes "swapping s" "to_entity e \<in> to_entity ` set (elements s)"
  obtains i where "i < length (elements s)" "to_entity e = to_entity (elements s ! i)"
    "current_version s e = Ret (to_version (elements s ! i))" "index s (elements s ! i) = Ret i"
    "elements s ! i \<in> in_use s \<longleftrightarrow> i < free_list s"
proof -
  obtain i where i: "i < length (elements s)" "to_entity e = to_entity (elements s ! i)"
    using assms(2) by (auto simp: in_set_conv_nth)
  show thesis
    by (rule that [OF i current_version_known [OF swappingD(2) [OF assms(1)] i] _ in_use_position [OF assms(1) i(1)]])
      (use index_spec [OF swappingD(2) [OF assms(1)]] i(1) in simp)
qed

text \<open>What a request for a given identifier does: it is granted unless it is unusable or in use.\<close>

lemma hint_refused:
  assumes "es_ok s" "is_null h \<or> is_tombstone h \<or> to_entity h \<in> to_entity ` in_use s"
  shows "es_emplace_hint h s = es_emplace s"
proof (cases "is_null h \<or> is_tombstone h")
  case False
  have sw: "swapping s" using assms(1) by (simp add: es_ok_def)
  from False assms(2) have u: "to_entity h \<in> to_entity ` in_use s" by simp
  then have "to_entity h \<in> to_entity ` set (elements s)" unfolding in_use_or_spare by blast
  then obtain i where i: "i < length (elements s)" "to_entity h = to_entity (elements s ! i)"
    "current_version s h = Ret (to_version (elements s ! i))" "index s (elements s ! i) = Ret i"
    "elements s ! i \<in> in_use s \<longleftrightarrow> i < free_list s"
    using swapping_lookup [OF sw] by metis
  obtain d where d: "d \<in> in_use s" "to_entity d = to_entity (elements s ! i)" using u i(2) by auto
  have "elements s ! i \<in> in_use s \<union> spare s" unfolding in_use_or_spare [symmetric] by (rule nth_mem [OF i(1)])
  then have "d = elements s ! i" by (rule swapping_same_entity [OF sw UnI1 [OF d(1)] _ d(2)])
  then have "i < free_list s" using d(1) i(5) by simp
  moreover have "\<not> is_tombstone (elements s ! i)" using swappingD(4) [OF sw nth_mem [OF i(1)]] .
  ultimately show ?thesis using False i by (simp add: es_emplace_hint_def Let_def)
qed (simp add: es_emplace_hint_def)

lemma hint_recycled:
  assumes "es_ok s" "\<not> is_null h" "\<not> is_tombstone h" "d \<in> spare s" "to_entity h = to_entity d"
  shows "\<exists>s'. es_emplace_hint h s = Ret (h, s') \<and> es_ok s' \<and> in_use s' = insert h (in_use s) \<and> spare s' = spare s - {d} \<and>
    length (elements s') = length (elements s) \<and> takes_next h s s'"
proof -
  have sw: "swapping s" using assms(1) by (simp add: es_ok_def)
  have mem: "to_entity h \<in> to_entity ` set (elements s)" using assms(4,5) unfolding in_use_or_spare by auto
  then obtain i where i: "i < length (elements s)" "to_entity h = to_entity (elements s ! i)"
    "current_version s h = Ret (to_version (elements s ! i))" "index s (elements s ! i) = Ret i"
    "elements s ! i \<in> in_use s \<longleftrightarrow> i < free_list s"
    using swapping_lookup [OF sw] by metis
  have "elements s ! i \<in> in_use s \<union> spare s" unfolding in_use_or_spare [symmetric] by (rule nth_mem [OF i(1)])
  then have d: "d = elements s ! i" by (rule swapping_same_entity [OF sw UnI2 [OF assms(4)]]) (use i(2) assms(5) in simp)
  have nu: "\<not> i < free_list s" using assms(4) i(5) d spare_eq [OF sw] by simp
  have nt: "\<not> is_tombstone (elements s ! i)" using swappingD(4) [OF sw nth_mem [OF i(1)]] .
  obtain s' where s': "take_slot h s = Ret (h, s')" "swapping s'" "in_use s' = insert h (in_use s)"
    "set (elements s') = insert h (set (elements s) - {d})" "length (elements s') = length (elements s)" "takes_next h s s'"
    using take_old [OF sw i(1,2) assms(3)] nu d by auto
  have "es_ok s'" by (rule es_ok_replace [OF assms(1) s'(2,4,5)]) (use d i(1) assms(5) in simp_all)
  moreover have "spare s' = spare s - {d}"
  proof -
    have "h \<notin> spare s \<or> h = d" using swapping_same_entity [OF sw UnI2 UnI2 [OF assms(4)] assms(5)] by blast
    then show ?thesis using spare_eq [OF s'(2)] spare_eq [OF sw] s'(3,4) by auto
  qed
  ultimately show ?thesis using s' assms(2,3) i nu nt by (simp add: es_emplace_hint_def Let_def)
qed

lemma hint_new:
  assumes ok: "es_ok s" and h: "\<not> is_null h" "\<not> is_tombstone h" and new: "to_entity h \<notin> to_entity ` set (elements s)"
  shows "\<exists>s'. es_emplace_hint h s = Ret (h, s') \<and> es_ok s' \<and> in_use s' = insert h (in_use s) \<and>
    spare s' = spare s \<union> first_version ` {length (elements s)..<unat (to_entity h)} \<and>
    length (elements s') = Suc (unat (to_entity h)) \<and> takes_next h s s'"
proof -
  let ?n = "length (elements s)" let ?p = "unat (to_entity h)"
  have sw: "swapping s" using ok by (simp add: es_ok_def)
  have len: "?n < 2 ^ 20" using swappingD(2) [OF sw] unfolding full_iff by simp
  have p: "?p < 2 ^ 20 - 1"
  proof -
    have "?p \<noteq> 2 ^ 20 - 1" using h(1) by (simp add: is_null_iff entity_mask_def word_unat_eq_iff)
    moreover have "?p < 2 ^ 20" by (simp add: to_entity_unat)
    ultimately show ?thesis by linarith
  qed
  then have np: "?n \<le> ?p" using es_ok_new_entity [OF ok, of ?p h] new by simp
  obtain s1 where s1: "take_slot h s = Ret (h, s1)" "swapping s1" "in_use s1 = insert h (in_use s)"
    "set (elements s1) = insert h (set (elements s))" "length (elements s1) = Suc ?n" "takes_next h s s1"
    using take_new [OF sw new h(2)] np p by auto
  have dense: "to_entity ` set (elements s1) = insert (of_nat ?p) (of_nat ` {..<length (elements s1) - 1})"
    using ok s1(4,5) by (simp add: es_ok_def)
  obtain s' where s': "fill_upto ?p s1 = Some (Ret s')" "es_ok s'" "in_use s' = in_use s1"
    "spare s' = spare s1 \<union> first_version ` {?n..<?p}" "length (elements s') = Suc ?p"
    "free_list s' = free_list s1" "take (Suc ?n) (elements s') = elements s1"
    using fill_upto_spec [OF s1(2) _ _ p dense] s1(5) np by auto
  have "h \<notin> set (elements s)" using new by blast
  then have "spare s1 = spare s" using spare_eq [OF s1(2)] spare_eq [OF sw] s1(3,4) by auto
  moreover have "es_emplace_hint h s = Ret (h, s')"
  proof -
    have "to_version (construct (to_entity h) (mask 12)) = mask 12"
      by (rule bit_eqI) (auto simp: to_version_construct bit_and_iff bit_mask_iff)
    then have "is_tombstone (construct (to_entity h) (mask 12))" by (simp add: is_tombstone_iff)
    then show ?thesis using h s1(1) s'(1) current_version_unknown [OF swappingD(2) [OF sw] new]
      by (simp add: es_emplace_hint_def Let_def)
  qed
  moreover have "takes_next h s s'"
  proof -
    have "free_list s \<le> ?n" using sw by (simp add: swapping_def)
    then have "take (Suc (free_list s)) (elements s') = take (Suc (free_list s)) (take (Suc ?n) (elements s'))" by (simp add: min_def)
    then show ?thesis using s1(6) s'(6) by (simp add: takes_next_def s'(7))
  qed
  ultimately show ?thesis using s' s1(3) by auto
qed

section \<open>Destroying identifiers\<close>

lemma swap_out:
  assumes ok: "full s" "mode s = Swap_only" "\<forall>e \<in> set (elements s). \<not> is_tombstone e" "unat (head s) \<le> length (elements s)"
    and i: "i < length (elements s)" and h: "h = head s - (if of_nat i < head s then 1 else 0)"
  shows "\<exists>s'. swap_at i (unat h) (s\<lparr>head := h\<rparr>) = Ret s' \<and> swapping s' \<and> mset (elements s') = mset (elements s) \<and>
    in_use s' = set (take (unat (head s)) (elements s)) - {elements s ! i} \<and>
    take (min i (unat (head s))) (elements s') = take (min i (unat (head s))) (elements s)"
proof -
  let ?xs = "elements s"
  have d: "distinct ?xs" using ok(1) unfolding full_iff using distinct_map by blast
  have i': "i < 2 ^ 20" using i ok(1) unfolding full_iff by simp
  have less: "of_nat i < head s \<longleftrightarrow> i < unat (head s)" using i' by (simp add: word_less_nat_alt to_entity_of_nat)
  have uh: "unat h = unat (head s) - (if i < unat (head s) then 1 else 0)"
    using less by (simp add: h unat_minus_one unat_gt_0 [symmetric] split: if_split)
  have hl: "unat h < length ?xs" using uh ok(4) i by (auto split: if_splits)
  obtain s' where s': "swap_at i (unat h) (s\<lparr>head := h\<rparr>) = Ret s'" "full s'" "elements s' = ?xs[i := ?xs ! unat h, unat h := ?xs ! i]"
    "mode s' = Swap_only" "head s' = h"
  proof -
    have t: "full (s\<lparr>head := h\<rparr>)" using ok(1) by simp
    have l: "i < length (elements (s\<lparr>head := h\<rparr>))" "unat h < length (elements (s\<lparr>head := h\<rparr>))" using i hl by simp_all
    note e = swap_at_spec [OF t l]
    have "elements (s\<lparr>head := h\<rparr>) = elements s" "mode (s\<lparr>head := h\<rparr>) = Swap_only" "head (s\<lparr>head := h\<rparr>) = h"
      using ok(2) by simp_all
    with e show thesis using that by (elim exE conjE) (simp only:)
  qed
  have m: "mset (elements s') = mset ?xs" using i hl by (simp add: s'(3) mset_swap)
  have "in_use s' = set (take (unat (head s)) ?xs) - {?xs ! i}"
  proof (cases "i < unat (head s)")
    case True
    then have hs: "unat (head s) = Suc (unat h)" using uh by simp
    show ?thesis unfolding in_use_def free_list_def s'(5) unfolding s'(3) hs
      by (rule set_take_swap_out [OF d]) (use True hs hl in simp_all)
  next
    case False
    then have "?xs ! i \<notin> set (take (unat (head s)) ?xs)" using d i by (auto simp: in_set_conv_nth nth_eq_iff_index_eq)
    with False uh show ?thesis by (simp add: in_use_def free_list_def s'(5) s'(3) take_update_cancel)
  qed
  moreover have "swapping s'" using s'(2,4,5) ok(3) hl by (simp add: swapping_def free_list_def mset_eq_setD [OF m]) (simp add: s'(3))
  moreover have "take (min i (unat (head s))) (elements s') = take (min i (unat (head s))) ?xs"
    using uh by (simp add: s'(3) take_update_cancel split: if_splits)
  ultimately show ?thesis using s'(1) m by blast
qed

lemma erase_swapping:
  assumes sw: "swapping s" and e: "e \<in> set (elements s)"
  shows "\<exists>s'. erase e s = Ret s' \<and> swapping s' \<and> in_use s' = in_use s - {e} \<and>
    set (elements s') = insert (next_version e) (set (elements s) - {e}) \<and> length (elements s') = length (elements s) \<and>
    (\<forall>i. i < length (elements s) \<and> elements s ! i = e \<longrightarrow> take (min i (free_list s)) (elements s') = take (min i (free_list s)) (elements s))"
proof -
  note D = swappingD [OF sw]
  obtain i where i: "i < length (elements s)" "elements s ! i = e" using e by (auto simp: in_set_conv_nth)
  have i': "i < 2 ^ 20" using i D(2) unfolding full_iff by simp
  have it: "index s e = Ret i" using index_spec [OF D(2)] i by auto
  obtain s1 where s1: "bump (next_version e) s = Ret (to_version (next_version e), s1)" "full s1"
    "elements s1 = (elements s)[i := next_version e]" "mode s1 = Swap_only" "head s1 = head s"
    using bump_spec [OF D(2) i(1), of "next_version e"] next_not_tombstone [of e] i(2) D(1) by auto
  have set1: "set (elements s1) = insert (next_version e) (set (elements s) - {e})"
    unfolding s1(3) i(2) [symmetric] by (rule set_update_distinct [OF swapping_distinct [OF sw] i(1)])
  let ?h = "head s1 - (if of_nat i < head s1 then 1 else 0)"
  obtain s' where s': "swap_at i (unat ?h) (s1\<lparr>head := ?h\<rparr>) = Ret s'" "swapping s'" "mset (elements s') = mset (elements s1)"
    "in_use s' = set (take (unat (head s1)) (elements s1)) - {elements s1 ! i}"
    "take (min i (unat (head s1))) (elements s') = take (min i (unat (head s1))) (elements s1)"
    using swap_out [OF s1(2,4) _ _ _ refl, of i] D(3,4) set1 next_not_tombstone [of e] i(1) s1(3,5) by auto
  have "erase e s = Ret s'"
    using it s1(1) s'(1) D(1) i i'
    by (simp add: erase_def to_iterator_def pop.simps pop_one_def swap_only_def deref_def read_at_def Let_def to_entity_of_nat)
  moreover have "in_use s' = in_use s - {e}"
  proof -
    have other: "d = e" if "d \<in> set (elements s)" "d = next_version e" for d
      using inj_onD [OF swapping_inj [OF sw], of d e] that e by simp
    have xs: "take (unat (head s)) (elements s1) = (take (unat (head s)) (elements s))[i := next_version e]"
      unfolding s1(3) by (cases "i < unat (head s)") (simp_all add: take_update_swap list_update_beyond)
    show ?thesis
    proof (cases "i < unat (head s)")
      case True
      then have "set (take (unat (head s)) (elements s1)) = insert (next_version e) (in_use s - {e})"
        unfolding xs in_use_def free_list_def using i set_update_distinct [of "take (unat (head s)) (elements s)" i "next_version e"]
          swapping_distinct [OF sw] by simp
      then show ?thesis using s'(4) s1(3,5) i other in_use_or_spare [of s] by auto
    next
      case False
      then have "set (take (unat (head s)) (elements s1)) = in_use s" "e \<notin> in_use s"
        using xs in_use_position [OF sw i(1)] i by (simp_all add: in_use_def free_list_def list_update_beyond)
      then show ?thesis using s'(4) s1(3,5) i other in_use_or_spare [of s] by auto
    qed
  qed
  moreover have "set (elements s') = set (elements s1)" by (rule mset_eq_setD [OF s'(3)])
  moreover have "length (elements s') = length (elements s)" using mset_eq_length [OF s'(3)] s1(3) by simp
  moreover have "take (min j (free_list s)) (elements s') = take (min j (free_list s)) (elements s)"
    if "j < length (elements s)" "elements s ! j = e" for j
  proof -
    have "j = i" using nth_eq_iff_index_eq [OF swapping_distinct [OF sw] that(1) i(1)] that(2) i(2) by simp
    then show ?thesis using s'(5) s1(3,5) by (simp add: free_list_def take_update_cancel)
  qed
  ultimately show ?thesis using s'(2) set1 by auto
qed

lemma erase_missing: "full s \<Longrightarrow> e \<notin> set (elements s) \<Longrightarrow> erase e s = Aborts"
  using index_missing [of "{..<length (elements s)}" s e] by (simp add: erase_def to_iterator_def)

text \<open>Destroying everything in use, from the last position to the first.\<close>

lemma free_list_card: "swapping s \<Longrightarrow> free_list s = card (in_use s)"
  using distinct_card [of "take (free_list s) (elements s)"] swapping_distinct [of s] swappingD(3) [of s]
  by (simp add: in_use_def free_list_def min_def)

lemma pop_in_use:
  "es_ok s \<Longrightarrow> free_list s = n \<Longrightarrow> \<exists>s'. pop n 0 s = Ret s' \<and> es_ok s' \<and> in_use s' = {}"
proof (induction n arbitrary: s)
  case 0
  then show ?case by (intro exI [of _ s]) (simp add: pop.simps in_use_def)
next
  case (Suc n)
  have sw: "swapping s" using Suc.prems(1) by (simp add: es_ok_def)
  have n: "n < length (elements s)" using swappingD(3) [OF sw] Suc.prems(2) by (simp add: free_list_def)
  let ?e = "elements s ! n"
  obtain s1 where s1: "erase ?e s = Ret s1" "swapping s1" "in_use s1 = in_use s - {?e}"
    "set (elements s1) = insert (next_version ?e) (set (elements s) - {?e})" "length (elements s1) = length (elements s)"
    using erase_swapping [OF sw nth_mem [OF n]] by blast
  have ok1: "es_ok s1" by (rule es_ok_replace [OF Suc.prems(1) s1(2,4,5) nth_mem [OF n]]) simp
  have "?e \<in> in_use s" using in_use_position [OF sw n] Suc.prems(2) by simp
  then have "free_list s1 = n" using free_list_card [OF s1(2)] free_list_card [OF sw] s1(3) Suc.prems(2) by simp
  from Suc.IH [OF ok1 this] obtain s' where s': "pop n 0 s1 = Ret s'" "es_ok s'" "in_use s' = {}" by blast
  have "pop n n = Ret" by (rule ext) (simp add: pop.simps)
  moreover have "to_iterator s ?e = Ret (n + 1)" using index_spec [OF swappingD(2) [OF sw]] n by (simp add: to_iterator_def)
  ultimately have "pop_one (Suc n) s = Ret s1" using s1(1) by (simp add: erase_def pop.simps [of "Suc n" n])
  then show ?case using s' by (simp add: pop.simps [of "Suc n" 0])
qed

text \<open>\<open>insert\<close> is \<open>emplace\<close> once for every place to fill.\<close>

fun create_many :: "nat \<Rightarrow> sparse_set \<Rightarrow> (entity list \<times> sparse_set) outcome" where
  "create_many 0 s = Ret ([], s)"
| "create_many (Suc n) s =
     obind (es_emplace s) (\<lambda>(e, s1). obind (create_many n s1) (\<lambda>(es, s2). Ret (e # es, s2)))"

lemma insert_new_eq: "es_ok s \<Longrightarrow> free_list s = length (elements s) \<Longrightarrow> insert_new n s = create_many n s"
proof (induction n arbitrary: s)
  case (Suc n)
  let ?e = "first_version (length (elements s))"
  have spare: "spare s = {}" using Suc.prems(2) by (simp add: spare_def)
  have em: "es_emplace s = obind (entity_at (free_list s)) (\<lambda>e. take_slot e s)" using Suc.prems(2) by (simp add: es_emplace_def)
  show ?case
  proof (cases "length (elements s) < 2 ^ 20 - 1")
    case True
    then obtain s1 where s1: "es_emplace s = Ret (?e, s1)" "es_ok s1" "spare s1 = {}"
      using es_emplace_full [OF Suc.prems(1) spare] by auto
    moreover have "free_list s1 = length (elements s1)"
      using s1(2,3) swappingD(3) [of s1] by (simp add: es_ok_def spare_def free_list_def)
    ultimately show ?thesis using em Suc.IH by (auto simp: obind_assoc [symmetric] entity_at_eq split: if_splits)
  qed (use em in \<open>simp add: entity_at_eq Suc.prems(2)\<close>)
qed simp

lemma insert_recycled_eq: "es_ok s \<Longrightarrow> insert_recycled (length (elements s)) n s = create_many n s"
proof (induction n arbitrary: s)
  case (Suc n)
  have sw: "swapping s" using Suc.prems by (simp add: es_ok_def)
  show ?case
  proof (cases "free_list s = length (elements s)")
    case True
    then show ?thesis using insert_new_eq [OF Suc.prems True, of "Suc n"] by simp
  next
    case False
    then have "spare s \<noteq> {}" using swappingD(3) [OF sw] by (simp add: spare_def free_list_def)
    from es_emplace_spare [OF Suc.prems this] obtain e s1 where s1: "es_emplace s = Ret (e, s1)" "es_ok s1"
      "length (elements s1) = length (elements s)" by blast
    have "es_emplace s = obind (read_at (free_list s) s) (\<lambda>e. take_slot e s)" using False by (simp add: es_emplace_def)
    with s1 Suc.IH [OF s1(2)] False show ?thesis by (simp add: obind_assoc [symmetric])
  qed
qed simp

lemma es_insert_eq: "es_ok s \<Longrightarrow> es_insert n s = create_many n s"
  by (simp add: es_insert_def insert_recycled_eq)

text \<open>Giving a spare identifier another version.\<close>

lemma bump_spare:
  assumes ok: "es_ok s" and d: "d \<in> spare s" and x: "to_entity x = to_entity d" "\<not> is_tombstone x"
  shows "\<exists>s'. bump x s = Ret (to_version x, s') \<and> es_ok s' \<and> in_use s' = in_use s"
proof -
  have sw: "swapping s" using ok by (simp add: es_ok_def)
  note D = swappingD [OF sw]
  have "d \<in> set (elements s)" using d in_use_or_spare [of s] by blast
  then obtain i where i: "i < length (elements s)" "elements s ! i = d" by (auto simp: in_set_conv_nth)
  obtain s' where s': "bump x s = Ret (to_version x, s')" "full s'" "elements s' = (elements s)[i := x]" "mode s' = mode s" "head s' = head s"
    using bump_spec [OF D(2) i(1), of x] x i(2) by auto
  have st: "set (elements s') = insert x (set (elements s) - {d})"
    unfolding s'(3) i(2) [symmetric] by (rule set_update_distinct [OF swapping_distinct [OF sw] i(1)])
  have "free_list s \<le> i" using in_use_position [OF sw i(1)] d i(2) spare_eq [OF sw] by auto
  then have "in_use s' = in_use s" by (simp add: in_use_def free_list_def s'(3,5) take_update_cancel)
  moreover have sw': "swapping s'" using s' D st x(2) by (auto simp: swapping_def free_list_def)
  moreover have "es_ok s'"
    by (rule es_ok_replace [OF ok sw' st]) (use s'(3) x(1) i in auto)
  ultimately show ?thesis using s'(1) by blast
qed

section \<open>The storage as an allocator of identifiers\<close>

datatype id_call = Create | Create_hint entity | Destroy entity

fun es_call :: "id_call \<Rightarrow> sparse_set \<Rightarrow> (entity \<times> sparse_set) outcome" where
  "es_call Create s = es_emplace s"
| "es_call (Create_hint h) s = es_emplace_hint h s"
| "es_call (Destroy e) s =
     obind (erase e s) (\<lambda>s1. obind (current_version s1 e) (\<lambda>v. Ret (construct (to_entity e) v, s1)))"

text \<open>
  The abstract allocator keeps the identifiers in use and the spare ones, which are recycled in any
  order. A destroyed identifier leaves its successor behind, whether it was in use or spare.
\<close>

inductive allocates :: "entity set \<times> entity set \<Rightarrow> id_call \<Rightarrow> entity \<Rightarrow> entity set \<times> entity set \<Rightarrow> bool" where
  Fresh: "card L < 2 ^ 20 - 1 \<Longrightarrow> allocates (L, {}) Create (first_version (card L)) (insert (first_version (card L)) L, {})"
| Recycle: "e \<in> D \<Longrightarrow> allocates (L, D) Create e (insert e L, D - {e})"
| Refused: "is_null h \<or> is_tombstone h \<or> to_entity h \<in> to_entity ` L \<Longrightarrow> allocates (L, D) Create e S \<Longrightarrow>
    allocates (L, D) (Create_hint h) e S"
| Recycle_as: "\<not> is_null h \<Longrightarrow> \<not> is_tombstone h \<Longrightarrow> d \<in> D \<Longrightarrow> to_entity h = to_entity d \<Longrightarrow>
    allocates (L, D) (Create_hint h) h (insert h L, D - {d})"
| Fresh_as: "\<not> is_null h \<Longrightarrow> \<not> is_tombstone h \<Longrightarrow> to_entity h \<notin> to_entity ` (L \<union> D) \<Longrightarrow>
    allocates (L, D) (Create_hint h) h (insert h L, D \<union> first_version ` {card (L \<union> D)..<unat (to_entity h)})"
| Retire: "e \<in> L \<union> D \<Longrightarrow> allocates (L, D) (Destroy e) (next_version e) (L - {e}, insert (next_version e) (D - {e}))"

inductive_cases allocates_Create: "allocates S Create e S'"
inductive_cases allocates_hint: "allocates S (Create_hint h) e S'"
inductive_cases allocates_Destroy: "allocates S (Destroy d) e S'"

definition ids :: "sparse_set \<Rightarrow> entity set \<times> entity set" where
  "ids s = (in_use s, spare s)"

lemma es_ok_card: "es_ok s \<Longrightarrow> card (in_use s \<union> spare s) = length (elements s)"
  unfolding in_use_or_spare [symmetric] es_ok_def using distinct_card [OF swapping_distinct] by blast

lemma es_new_ok: "es_ok es_new"
proof -
  have "full es_new" unfolding full_iff by (simp add: es_new_def ss_new_def pages_ok_def lookup_def)
  then show ?thesis by (simp add: es_ok_def swapping_def es_new_def ss_new_def policy_to_head_def free_list_def)
qed

lemma create_simulated:
  assumes "es_ok s"
  shows "(\<exists>e s'. es_emplace s = Ret (e, s') \<and> es_ok s' \<and> allocates (ids s) Create e (ids s')) \<or>
    es_emplace s = Aborts \<and> (\<nexists>e S. allocates (ids s) Create e S)"
proof (cases "spare s = {}")
  case True
  have card: "card (in_use s) = length (elements s)" using es_ok_card [OF assms] True by simp
  show ?thesis
  proof (cases "length (elements s) < 2 ^ 20 - 1")
    case room: True
    then obtain s' where "es_emplace s = Ret (first_version (length (elements s)), s')" "es_ok s'"
      "in_use s' = insert (first_version (length (elements s))) (in_use s)" "spare s' = {}"
      using es_emplace_full [OF assms True] by auto
    moreover from this True card have "allocates (ids s) Create (first_version (length (elements s))) (ids s')"
      using allocates.Fresh [of "in_use s"] room by (simp add: ids_def)
    ultimately show ?thesis by blast
  next
    case False
    then have "\<nexists>e S. allocates (ids s) Create e S" using True card by (auto simp: ids_def elim: allocates_Create)
    then show ?thesis using es_emplace_full [OF assms True] False by auto
  qed
next
  case False
  from es_emplace_spare [OF assms this] obtain e s' where e: "es_emplace s = Ret (e, s')" "e \<in> spare s" "es_ok s'"
    "in_use s' = insert e (in_use s)" "spare s' = spare s - {e}" by blast
  then have "allocates (ids s) Create e (ids s')" unfolding ids_def by (auto intro: allocates.Recycle)
  with e show ?thesis by blast
qed

lemma hint_simulated:
  assumes ok: "es_ok s"
  shows "(\<exists>e s'. es_emplace_hint h s = Ret (e, s') \<and> es_ok s' \<and> allocates (ids s) (Create_hint h) e (ids s')) \<or>
    es_emplace_hint h s = Aborts \<and> (\<nexists>e S. allocates (ids s) (Create_hint h) e S)"
proof -
  consider (refused) "is_null h \<or> is_tombstone h \<or> to_entity h \<in> to_entity ` in_use s"
    | (spare) d where "\<not> is_null h" "\<not> is_tombstone h" "d \<in> spare s" "to_entity h = to_entity d"
    | (fresh) "\<not> is_null h" "\<not> is_tombstone h" "to_entity h \<notin> to_entity ` set (elements s)"
    unfolding in_use_or_spare by blast
  then show ?thesis
  proof cases
    case refused
    have "swapping s" using ok by (simp add: es_ok_def)
    have "to_entity h \<notin> to_entity ` spare s" if h: "\<not> is_null h" "\<not> is_tombstone h"
    proof
      assume "to_entity h \<in> to_entity ` spare s"
      then obtain d d' where d: "d \<in> spare s" "d' \<in> in_use s" "to_entity d = to_entity d'" using refused h by auto
      then have "d = d'" using inj_onD [OF swapping_inj [OF \<open>swapping s\<close>] d(3)] in_use_or_spare [of s] by blast
      then show False using d spare_eq [OF \<open>swapping s\<close>] by blast
    qed
    then have "allocates (ids s) (Create_hint h) e S \<longleftrightarrow> allocates (ids s) Create e S" for e S
      using refused unfolding ids_def by (auto elim!: allocates_hint intro: allocates.Refused)
    then show ?thesis using create_simulated [OF ok] hint_refused [OF ok refused] by simp
  next
    case (spare d)
    from hint_recycled [OF ok spare] obtain s' where "es_emplace_hint h s = Ret (h, s')" "es_ok s'"
      "in_use s' = insert h (in_use s)" "spare s' = spare s - {d}" by blast
    moreover from this have "allocates (ids s) (Create_hint h) h (ids s')"
      unfolding ids_def using allocates.Recycle_as [OF spare] by simp
    ultimately show ?thesis by blast
  next
    case fresh
    from hint_new [OF ok fresh] obtain s' where "es_emplace_hint h s = Ret (h, s')" "es_ok s'" "in_use s' = insert h (in_use s)"
      "spare s' = spare s \<union> first_version ` {length (elements s)..<unat (to_entity h)}" by blast
    moreover from this have "allocates (ids s) (Create_hint h) h (ids s')"
      unfolding ids_def using allocates.Fresh_as [of h "in_use s" "spare s"] fresh es_ok_card [OF ok] in_use_or_spare [of s] by simp
    ultimately show ?thesis by blast
  qed
qed

lemma destroy_simulated:
  assumes ok: "es_ok s"
  shows "(\<exists>e' s'. es_call (Destroy e) s = Ret (e', s') \<and> es_ok s' \<and> allocates (ids s) (Destroy e) e' (ids s')) \<or>
    es_call (Destroy e) s = Aborts \<and> (\<nexists>e' S. allocates (ids s) (Destroy e) e' S)"
proof (cases "e \<in> set (elements s)")
  case True
  have sw: "swapping s" using ok by (simp add: es_ok_def)
  obtain s' where s': "erase e s = Ret s'" "swapping s'" "in_use s' = in_use s - {e}"
    "set (elements s') = insert (next_version e) (set (elements s) - {e})" "length (elements s') = length (elements s)"
    using erase_swapping [OF sw True] by blast
  have ok': "es_ok s'" by (rule es_ok_replace [OF ok s'(2,4,5) True]) simp
  have "next_version e \<notin> in_use s - {e}"
    using inj_onD [OF swapping_inj [OF sw], of "next_version e" e] True in_use_or_spare [of s] by auto
  then have spare: "spare s' = insert (next_version e) (spare s - {e})"
    using spare_eq [OF s'(2)] spare_eq [OF sw] s'(3,4) by auto
  have "next_version e \<in> set (elements s')" by (simp add: s'(4))
  then obtain i where i: "i < length (elements s')" "elements s' ! i = next_version e" by (auto simp: in_set_conv_nth)
  have "current_version s' e = Ret (to_version (next_version e))"
    using current_version_known [OF swappingD(2) [OF s'(2)] i(1), of e] i(2) by simp
  moreover have "construct (to_entity e) (to_version (next_version e)) = next_version e"
    using construct_parts [of "next_version e"] by simp
  ultimately have "es_call (Destroy e) s = Ret (next_version e, s')" using s'(1) by simp
  moreover have "allocates (ids s) (Destroy e) (next_version e) (ids s')"
    unfolding ids_def s'(3) spare by (rule allocates.Retire) (use True in_use_or_spare in blast)
  ultimately show ?thesis using ok' by blast
next
  case False
  have "full s" using ok by (simp add: es_ok_def swapping_def)
  moreover have "\<nexists>e' S. allocates (ids s) (Destroy e) e' S"
    using False in_use_or_spare [of s] by (auto simp: ids_def elim: allocates_Destroy)
  ultimately show ?thesis using erase_missing [of s e] False by simp
qed

text \<open>Every operation on the storage does a step of the allocator, or aborts where it has none.\<close>

lemma es_call_simulated:
  "es_ok s \<Longrightarrow>
   (\<exists>e s'. es_call c s = Ret (e, s') \<and> es_ok s' \<and> allocates (ids s) c e (ids s')) \<or>
   es_call c s = Aborts \<and> (\<nexists>e S. allocates (ids s) c e S)"
  using create_simulated hint_simulated destroy_simulated by (cases c) auto

fun es_run :: "id_call list \<Rightarrow> sparse_set \<Rightarrow> (entity list \<times> sparse_set) outcome" where
  "es_run [] s = Ret ([], s)"
| "es_run (c # cs) s = obind (es_call c s) (\<lambda>(e, s1). obind (es_run cs s1) (\<lambda>(es, s2). Ret (e # es, s2)))"

lemma es_run_ok: "es_run cs s = Ret (es, s') \<Longrightarrow> es_ok s \<Longrightarrow> es_ok s'"
proof (induction cs arbitrary: s es)
  case (Cons c cs)
  from Cons.prems(1) obtain e s1 es' where s1: "es_call c s = Ret (e, s1)" "es_run cs s1 = Ret (es', s')"
    by (auto simp: obind_eq_Ret_iff)
  with es_call_simulated [OF Cons.prems(2), of c] have "es_ok s1" by auto
  with Cons.IH s1(2) show ?case by blast
qed simp

lemma entity_valid_spec:
  assumes "swapping s" shows "entity_valid s e = Ret (e \<in> in_use s)"
proof (cases "e \<in> set (elements s)")
  case True
  then obtain i where i: "i < length (elements s)" "elements s ! i = e" by (auto simp: in_set_conv_nth)
  then show ?thesis
    using contains_spec [OF swappingD(2) [OF assms], of e] index_spec [OF swappingD(2) [OF assms], of i] in_use_position [OF assms i(1)] True
    by (simp add: entity_valid_def)
next
  case False
  then show ?thesis using contains_spec [OF swappingD(2) [OF assms], of e] in_use_or_spare [of s] by (simp add: entity_valid_def)
qed

text \<open>How the identifier of an entity changes: only by being destroyed, one version at a time.\<close>

fun retires :: "entity \<Rightarrow> id_call \<Rightarrow> bool" where
  "retires e (Destroy d) = (to_entity d = to_entity e)"
| "retires e c = False"

fun without_hint :: "id_call \<Rightarrow> bool" where
  "without_hint (Create_hint h) = False"
| "without_hint c = True"

lemma es_call_versions:
  assumes ok: "es_ok s" and step: "es_call c s = Ret (r, s')" "without_hint c" and d: "d \<in> set (elements s)"
  shows "(if retires d c then next_version d else d) \<in> set (elements s')"
proof -
  have sw: "swapping s" using ok by (simp add: es_ok_def)
  have al: "allocates (ids s) c r (ids s')" using es_call_simulated [OF ok, of c] step(1) by auto
  show ?thesis
  proof (cases c)
    case Create
    with al d show ?thesis unfolding in_use_or_spare ids_def by (auto elim!: allocates_Create)
  next
    case (Destroy x)
    with al have x: "x \<in> set (elements s)" "in_use s' \<union> spare s' = insert (next_version x) (in_use s \<union> spare s - {x})"
      unfolding in_use_or_spare ids_def by (auto elim!: allocates_Destroy)
    show ?thesis
    proof (cases "x = d")
      case True
      then show ?thesis using Destroy x(2) by (simp add: in_use_or_spare)
    next
      case False
      then have "to_entity x \<noteq> to_entity d" using inj_onD [OF swapping_inj [OF sw] _ x(1) d] by blast
      then show ?thesis using Destroy x(2) d False by (simp add: in_use_or_spare)
    qed
  qed (use step(2) in simp)
qed

lemma es_run_versions:
  "es_run cs s = Ret (rs, s') \<Longrightarrow> es_ok s \<Longrightarrow> \<forall>c \<in> set cs. without_hint c \<Longrightarrow> d \<in> set (elements s) \<Longrightarrow>
   (next_version ^^ length (filter (retires d) cs)) d \<in> set (elements s')"
proof (induction cs arbitrary: s rs d)
  case (Cons c cs)
  from Cons.prems(1) obtain e s1 es' where s1: "es_call c s = Ret (e, s1)" "es_run cs s1 = Ret (es', s')"
    by (auto simp: obind_eq_Ret_iff)
  with es_call_simulated [OF Cons.prems(2), of c] have ok: "es_ok s1" by auto
  let ?d = "if retires d c then next_version d else d"
  have mem: "?d \<in> set (elements s1)" using es_call_versions [OF Cons.prems(2) s1(1)] Cons.prems(3,4) by simp
  have same: "retires ?d = retires d"
  proof
    fix x show "retires ?d x = retires d x" by (cases x) simp_all
  qed
  from Cons.IH [OF s1(2) ok _ mem] Cons.prems(3) same
  have "(next_version ^^ length (filter (retires d) cs)) ?d \<in> set (elements s')" by simp
  then show ?case by (cases "retires d c") (simp_all add: funpow_swap1)
qed simp

section \<open>Properties\<close>

text \<open>
  C11. After any calls on a new storage of entities, the next call either does a step of the
  abstract allocator between the abstractions of the two states and answers what that step
  answers, or it fails an assertion, exactly where the allocator has no step: when all
  1048575 entities are in use, or the identifier to destroy is not the current one of its entity.
\<close>

theorem entity_storage_allocates:
  assumes "es_run cs es_new = Ret (es, s)"
  shows "(\<exists>e s'. es_call c s = Ret (e, s') \<and> allocates (ids s) c e (ids s')) \<or>
    es_call c s = Aborts \<and> (\<nexists>e S. allocates (ids s) c e S)"
  using es_call_simulated [OF es_run_ok [OF assms es_new_ok], of c] by blast

lemma first_create:
  obtains s where "es_run [Create] es_new = Ret ([first_version 0], s)" "ids s = ({first_version 0}, {})"
proof -
  have "spare es_new = {}" "in_use es_new = {}" "length (elements es_new) = 0"
    by (simp_all add: spare_def in_use_def es_new_def ss_new_def)
  with es_emplace_full [OF es_new_ok] show thesis by (auto simp: ids_def intro: that)
qed

theorem entity_storage_allocates_witness:
  "\<exists>s e' s'. es_run [Create] es_new = Ret ([first_version 0], s) \<and>
     es_call (Destroy (first_version 0)) s = Ret (e', s') \<and> e' = next_version (first_version 0) \<and>
     ids s' = ({}, {next_version (first_version 0)})"
proof -
  obtain s where s: "es_run [Create] es_new = Ret ([first_version 0], s)" "ids s = ({first_version 0}, {})"
    by (rule first_create)
  have "\<exists>e S. allocates (ids s) (Destroy (first_version 0)) e S"
    unfolding s(2) using allocates.Retire [of "first_version 0" "{first_version 0}" "{}"] by blast
  with entity_storage_allocates [OF s(1), of "Destroy (first_version 0)"] obtain e' s' where
    "es_call (Destroy (first_version 0)) s = Ret (e', s')" "allocates (ids s) (Destroy (first_version 0)) e' (ids s')" by blast
  with s show ?thesis unfolding s(2) by (elim allocates_Destroy) auto
qed

text \<open>
  C15. A destroyed identifier does not come back: however many identifiers are created and
  destroyed afterwards, it stays invalid as long as its entity is destroyed less than 4094 more
  times (requests for given identifiers apart, which may ask for any version).
\<close>

theorem stale_identifiers_stay_invalid:
  assumes "es_run before es_new = Ret (es0, s0)" "es_call (Destroy e) s0 = Ret (e', s1)" "es_run cs s1 = Ret (es, s)"
    and "\<forall>c \<in> set cs. without_hint c" "length (filter (retires e) cs) < 4094"
  shows "entity_valid s e = Ret False"
proof -
  let ?k = "Suc (length (filter (retires e) cs))"
  have ok0: "es_ok s0" by (rule es_run_ok [OF assms(1) es_new_ok])
  then have d: "es_ok s1" "allocates (ids s0) (Destroy e) e' (ids s1)" using es_call_simulated [of s0 "Destroy e"] assms(2) by auto
  have mem: "e \<in> set (elements s0)" using d(2) unfolding in_use_or_spare ids_def by (auto elim: allocates_Destroy)
  have nt: "\<not> is_tombstone e" using swappingD(4) [OF _ mem] ok0 by (simp add: es_ok_def)
  have "next_version e \<in> set (elements s1)" using es_call_versions [OF ok0 assms(2) _ mem] by simp
  from es_run_versions [OF assms(3) d(1) assms(4) this] have "(next_version ^^ length (filter (retires (next_version e)) cs)) (next_version e) \<in> set (elements s)" .
  moreover have "retires (next_version e) = retires e"
  proof
    fix x show "retires (next_version e) x = retires e x" by (cases x) simp_all
  qed
  ultimately have new: "(next_version ^^ ?k) e \<in> set (elements s)" by (simp add: funpow_swap1)
  have sw: "swapping s" using es_run_ok [OF assms(3) d(1)] by (simp add: es_ok_def)
  have "to_version e \<noteq> mask 12" using nt by (simp add: is_tombstone_iff)
  then have "unat (to_version e) \<noteq> 4095" unfolding word_unat_eq_iff by (simp add: mask_eq_exp_minus_1)
  with version_less [of e] have v: "unat (to_version e) < 4095" by simp
  note it = next_iterate [OF v, of ?k]
  have "e \<notin> in_use s"
  proof
    assume "e \<in> in_use s"
    then have "(next_version ^^ ?k) e = e"
      using inj_onD [OF swapping_inj [OF sw], of "(next_version ^^ ?k) e" e] it new in_use_or_spare [of s] by auto
    then have "(unat (to_version e) + ?k) mod 4095 = (unat (to_version e) + 0) mod 4095" using it v by simp
    then have "4095 dvd ?k" using mod_eq_dvd_iff_nat [of "unat (to_version e)" "unat (to_version e) + ?k" 4095] by simp
    then show False using assms(5) by (auto dest: dvd_imp_le)
  qed
  then show ?thesis by (simp add: entity_valid_spec [OF sw])
qed

theorem stale_identifiers_stay_invalid_witness:
  "\<exists>s0 e' s1 es s. es_run [Create] es_new = Ret ([first_version 0], s0) \<and>
     es_call (Destroy (first_version 0)) s0 = Ret (e', s1) \<and> es_run [Create] s1 = Ret (es, s) \<and>
     es = [next_version (first_version 0)] \<and> entity_valid s (first_version 0) = Ret False"
proof -
  let ?e = "first_version 0"
  obtain s0 where s0: "es_run [Create] es_new = Ret ([?e], s0)" "ids s0 = ({?e}, {})" by (rule first_create)
  have ok0: "es_ok s0" by (rule es_run_ok [OF s0(1) es_new_ok])
  have "\<exists>e' S. allocates (ids s0) (Destroy ?e) e' S"
    unfolding s0(2) using allocates.Retire [of ?e "{?e}" "{}"] by blast
  with es_call_simulated [OF ok0, of "Destroy ?e"] obtain e' s1 where s1: "es_call (Destroy ?e) s0 = Ret (e', s1)" "es_ok s1"
    "allocates ({?e}, {}) (Destroy ?e) e' (ids s1)" unfolding s0(2) by blast
  then have ids1: "ids s1 = ({}, {next_version ?e})" by (elim allocates_Destroy) auto
  then have "\<exists>e S. allocates (ids s1) Create e S" using allocates.Recycle [of "next_version ?e" "{next_version ?e}" "{}"] by auto
  with es_call_simulated [OF s1(2), of Create] obtain r s where "es_call Create s1 = Ret (r, s)" "allocates (ids s1) Create r (ids s)"
    by blast
  then have "es_call Create s1 = Ret (next_version ?e, s)" unfolding ids1 by (elim allocates_Create) auto
  then have s: "es_run [Create] s1 = Ret ([next_version ?e], s)" by simp
  have "entity_valid s ?e = Ret False"
    by (rule stale_identifiers_stay_invalid [OF s0(1) s1(1) s]) simp_all
  with s0(1) s1(1) s show ?thesis by blast
qed

end
