(* ===== verification/StorageCorrect.thy ===== *)
theory StorageCorrect
  imports Storage SparseSetPolicies
begin

text \<open>
  The storage of components is a map from identifiers to objects, under both policies: what
  every operation does to the map, that objects live exactly at the live positions of the packed
  array (nothing leaks, nothing is destroyed twice), and that a throwing constructor leaves the map
  as it was.
\<close>

section \<open>Payload\<close>

definition payload_ok :: "'a storage \<Rightarrow> bool" where
  "payload_ok s \<longleftrightarrow> (\<forall>p \<in> set (payload s). length p = packed_page)"

definition object_at :: "'a storage \<Rightarrow> nat \<Rightarrow> 'a option" where
  "object_at s i =
     (if i div packed_page < length (payload s) then payload s ! (i div packed_page) ! (i mod packed_page) else None)"

definition put_object :: "nat \<Rightarrow> 'a option \<Rightarrow> 'a storage \<Rightarrow> 'a storage" where
  "put_object i x s =
     s\<lparr>payload := (payload s)[i div packed_page := (payload s ! (i div packed_page))[i mod packed_page := x]]\<rparr>"

lemma packed_page_pos [simp]: "0 < packed_page"
  by (simp add: packed_page_def)

lemma element_pos_eq:
  assumes "i < 2 ^ 64" shows "element_pos i = Ret (i div packed_page, i mod packed_page)"
proof -
  have "unat (of_nat i :: 64 word) = i" using assms by (simp add: unat_of_nat)
  moreover have "unat (of_nat (i mod packed_page) :: 64 word) = i mod packed_page"
    using assms by (simp add: unat_of_nat less_le_trans [OF mod_less_divisor [of packed_page i]] packed_page_def)
  moreover have "packed_page = 2 ^ 10" by (simp add: packed_page_def)
  ultimately show ?thesis using fast_mod_power [of 10 "of_nat i"] by (simp add: element_pos_def)
qed

lemma read_element_eq:
  assumes "payload_ok s" "i < 2 ^ 64"
  shows "read_element i s = (case object_at s i of Some x \<Rightarrow> Ret x | None \<Rightarrow> Undefined)"
  using assms(1) by (auto simp: read_element_def element_pos_eq [OF assms(2)] object_at_def payload_ok_def)

lemma write_element_eq:
  assumes "payload_ok s" "i < 2 ^ 64" "i div packed_page < length (payload s)"
  shows "write_element i x s = Ret (put_object i x s)"
  using assms by (auto simp: write_element_def element_pos_eq put_object_def payload_ok_def)

lemma object_page: "object_at s i \<noteq> None \<Longrightarrow> i div packed_page < length (payload s)"
  by (simp add: object_at_def split: if_splits)

lemma destroy_element_eq:
  assumes "payload_ok s" "i < 2 ^ 64" "object_at s i \<noteq> None"
  shows "destroy_element i s = Ret (put_object i None s)"
  using assms by (auto simp: destroy_element_def read_element_eq write_element_eq object_page)

lemma put_object_fields [simp]:
  "base (put_object i x s) = base s" "length (payload (put_object i x s)) = length (payload s)"
  "object_at (s\<lparr>base := b\<rparr>) = object_at s" "payload_ok (s\<lparr>base := b\<rparr>) = payload_ok s"
  by (simp_all add: put_object_def object_at_def payload_ok_def fun_eq_iff)

lemma payload_ok_put [simp]: "payload_ok s \<Longrightarrow> payload_ok (put_object i x s)"
proof -
  assume ok: "payload_ok s"
  have "length p = packed_page" if "p \<in> set (payload (put_object i x s))" for p
  proof -
    from that obtain k where "k < length (payload s)" "p = payload (put_object i x s) ! k"
      by (metis in_set_conv_nth put_object_fields(2))
    with ok show ?thesis by (cases "k = i div packed_page") (auto simp: put_object_def payload_ok_def)
  qed
  then show ?thesis by (simp add: payload_ok_def)
qed

lemma object_at_put:
  assumes "payload_ok s" "i div packed_page < length (payload s)"
  shows "object_at (put_object i x s) j = (if j = i then x else object_at s j)"
proof -
  have len: "length (payload s ! (i div packed_page)) = packed_page" using assms by (simp add: payload_ok_def)
  have "j = i \<longleftrightarrow> j div packed_page = i div packed_page \<and> j mod packed_page = i mod packed_page"
    by (metis div_mult_mod_eq)
  then show ?thesis using assms(2) len by (auto simp: object_at_def put_object_def nth_list_update)
qed

lemma payload_assure_spec:
  assumes "payload_ok s"
  shows "payload_ok (payload_assure i s)" "object_at (payload_assure i s) j = object_at s j"
    "i div packed_page < length (payload (payload_assure i s))" "base (payload_assure i s) = base s"
proof -
  have "j mod packed_page < packed_page" by simp
  then show "object_at (payload_assure i s) j = object_at s j"
    by (auto simp: payload_assure_def object_at_def Let_def nth_append)
qed (use assms in \<open>auto simp: payload_assure_def payload_ok_def Let_def\<close>)

section \<open>The sets that storages use\<close>

text \<open>The live positions: all of them, or those without a tombstone when elements stay in place.\<close>

definition positions :: "sparse_set \<Rightarrow> nat set" where
  "positions b = {i. i < length (elements b) \<and> (mode b = In_place \<longrightarrow> \<not> is_tombstone (elements b ! i))}"

definition base_ok :: "sparse_set \<Rightarrow> bool" where
  "base_ok b \<longleftrightarrow> packed_ok b \<or> (\<exists>fs. stable_ok fs b)"

lemma positions_packed: "packed_ok b \<Longrightarrow> positions b = {..<length (elements b)}"
  by (auto simp: positions_def)

lemma positions_stable: "stable_ok fs b \<Longrightarrow> positions b = live fs b"
  using stable_okD(1,5) [of fs b] by (auto simp: positions_def)

lemma base_ok_placed: "base_ok b \<Longrightarrow> placed (positions b) b"
  unfolding base_ok_def using positions_packed positions_stable stable_okD(2) by metis

lemma positions_less: "base_ok b \<Longrightarrow> i \<in> positions b \<Longrightarrow> i < 2 ^ 20"
  using base_ok_placed placedD(2,3) by fastforce

text \<open>An entity that is stored already fails the assertion of \<open>try_emplace\<close>.\<close>

lemma base_taken:
  assumes ok: "base_ok b" and e: "to_entity e \<in> to_entity ` members (positions b) b"
  shows "try_emplace e False b = Aborts"
proof -
  obtain s1 v where s1: "assure_at_least e b = Ret (slot e, s1)" "placed (positions b) s1" "mode s1 = mode b"
    "lookup s1 e = Some v" "\<not> is_null v"
    using placed_assure [OF base_ok_placed [OF ok], of e] e by auto
  have r: "read_ref (s1\<lparr>elements := es\<rparr>) (slot e) = Ret v" for es
    by (rule read_ref_eq) (use placedD(1) [OF s1(2)] s1(4) in simp_all)
  have r1: "read_ref s1 (slot e) = Ret v" by (rule read_ref_eq [OF placedD(1) [OF s1(2)] s1(4)])
  have "mode b \<noteq> Swap_only" using ok stable_okD(1) by (auto simp: base_ok_def)
  then show ?thesis using s1(1,3,5) r r1
    by (cases "mode b") (simp_all add: try_emplace_def append_element_def reuse_slot_def Let_def)
qed

lemma base_push:
  assumes ok: "base_ok b" and room: "positions b = {..<length (elements b)} \<Longrightarrow> length (elements b) < 2 ^ 20 - 1"
    and e: "mode b = In_place \<Longrightarrow> \<not> is_tombstone e" and new: "to_entity e \<notin> to_entity ` members (positions b) b"
  shows "\<exists>i b'. try_emplace e False b = Ret (i + 1, b') \<and> base_ok b' \<and> mode b' = mode b \<and> i < length (elements b') \<and>
      i \<notin> positions b \<and> positions b' = insert i (positions b) \<and> elements b' ! i = e \<and>
      (\<forall>j \<in> positions b. elements b' ! j = elements b ! j) \<and> length (elements b') \<le> length (elements b) + 1"
proof (cases "packed_ok b")
  case True
  have P: "positions b = {..<length (elements b)}" by (rule positions_packed [OF True])
  have push: "push e b = try_emplace e False b" using True by (simp add: push_def)
  show ?thesis using True push_packed [OF True room [OF P], of e] new unfolding P members_all push
    by (auto simp: base_ok_def positions_packed nth_append split: if_splits intro!: exI [of _ "length (elements b)"])
next
  case False
  then obtain fs where st: "stable_ok fs b" using ok by (auto simp: base_ok_def)
  have P: "positions b = live fs b" by (rule positions_stable [OF st])
  have m: "mode b = In_place" by (rule stable_okD(1) [OF st])
  have push: "push e b = try_emplace e False b" using m by (simp add: push_def)
  have "length (elements b) < 2 ^ 20 - 1" if "fs = []" by (rule room) (simp add: P that)
  note ps = push_stable [OF st this e [OF m], unfolded push]
  show ?thesis
  proof (cases fs)
    case Nil
    with ps new [unfolded P] obtain b' where b': "try_emplace e False b = Ret (length (elements b) + 1, b')" "stable_ok [] b'"
      "elements b' = elements b @ [e]" by auto
    have "positions b' = insert (length (elements b)) (positions b)"
      unfolding P positions_stable [OF b'(2)] using Nil by (auto simp: b'(3))
    with b' new show ?thesis unfolding P using stable_okD(1) [OF b'(2)] m Nil
      by (auto simp: base_ok_def nth_append intro!: exI [of _ "length (elements b)"])
  next
    case (Cons i gs)
    with ps new [unfolded P] obtain b' where b': "try_emplace e False b = Ret (i + 1, b')" "stable_ok gs b'"
      "elements b' = (elements b)[i := e]" by auto
    have i: "i < length (elements b)" "i \<notin> set gs" using stable_okD(3,4) [OF st] Cons by auto
    have "positions b' = insert i (positions b)"
      unfolding P positions_stable [OF b'(2)] using Cons i by (auto simp: b'(3))
    with b' new i show ?thesis unfolding P using stable_okD(1) [OF b'(2)] m Cons
      by (auto simp: base_ok_def intro!: exI [of _ i])
  qed
qed

lemma base_index:
  assumes "base_ok b" "i \<in> positions b"
  shows "index b (elements b ! i) = Ret i" "to_iterator b (elements b ! i) = Ret (i + 1)" "deref (i + 1) b = Ret (elements b ! i)"
  using index_spec [OF base_ok_placed [OF assms(1)] assms(2)] placedD(3) [OF base_ok_placed [OF assms(1)] assms(2)]
  by (simp_all add: to_iterator_def deref_def read_at_def)

lemma base_position:
  assumes "base_ok b" "e \<in> members (positions b) b"
  obtains i where "i \<in> positions b" "elements b ! i = e" "index b e = Ret i"
  using assms base_index(1) by (auto simp: members_def)

lemma base_same_entity:
  "base_ok b \<Longrightarrow> i \<in> positions b \<Longrightarrow> j \<in> positions b \<Longrightarrow> to_entity (elements b ! i) = to_entity (elements b ! j) \<longleftrightarrow> i = j"
  using placedD(4) [OF base_ok_placed] by blast

lemma base_pop_stable:
  assumes "base_ok b" "mode b = In_place" "i \<in> positions b"
  shows "\<exists>b'. in_place_pop (i + 1) b = Ret b' \<and> base_ok b' \<and> mode b' = In_place \<and> positions b' = positions b - {i} \<and>
    (\<forall>j \<in> positions b'. elements b' ! j = elements b ! j) \<and> length (elements b') = length (elements b)"
proof -
  obtain fs where st: "stable_ok fs b" using assms(1,2) by (auto simp: base_ok_def)
  have i: "i \<in> live fs b" using assms(3) unfolding positions_stable [OF st] .
  obtain b' where b': "erase (elements b ! i) b = Ret b'" "stable_ok (i # fs) b'"
    "elements b' = (elements b)[i := combine (head b) tombstone_entity]"
    using erase_stable [OF st i] by blast
  have "pop i i = Ret" by (rule ext) (simp add: pop.simps)
  then have "in_place_pop (i + 1) b = Ret b'"
    using b'(1) base_index(2) [OF assms(1,3)] assms(2) by (simp add: erase_def pop.simps [of "Suc i"] pop_one_def)
  moreover have "positions b' = positions b - {i}"
    unfolding positions_stable [OF b'(2)] positions_stable [OF st] by (auto simp: b'(3))
  ultimately show ?thesis using b' stable_okD(1) [OF b'(2)] by (auto simp: base_ok_def)
qed

lemma base_pop_packed:
  assumes "base_ok b" "mode b \<noteq> In_place" "i \<in> positions b"
  shows "\<exists>b'. swap_and_pop (i + 1) b = Ret b' \<and> base_ok b' \<and> mode b' = mode b \<and> positions b' = {..<length (elements b) - 1} \<and>
    elements b' = swap_pop i (elements b)"
proof -
  have ok: "packed_ok b" using assms(1,2) stable_okD(1) by (auto simp: base_ok_def)
  then have "i < length (elements b)" using assms(3) by (simp add: positions_packed)
  from swap_and_pop_spec [OF ok this] obtain b' where "swap_and_pop (i + 1) b = Ret b'" "packed_ok b'" "elements b' = swap_pop i (elements b)"
    by blast
  then show ?thesis using ok positions_packed [of b'] by (auto simp: base_ok_def)
qed

text \<open>Taking back what \<open>base_push\<close> did.\<close>

lemma base_push_pop:
  assumes "base_ok a" "base_ok b" "mode b = mode a" "i \<notin> positions a" "positions b = insert i (positions a)"
    "\<forall>j \<in> positions a. elements b ! j = elements a ! j" "length (elements b) \<le> length (elements a) + 1"
  obtains c where "pop (i + 1) i b = Ret c" "base_ok c" "mode c = mode b" "positions c = positions a"
    "\<forall>j \<in> positions c. elements c ! j = elements a ! j" "length (elements c) \<le> length (elements a) + 1"
proof (cases "mode b = In_place")
  case True
  then obtain c where "in_place_pop (i + 1) b = Ret c" "base_ok c" "mode c = In_place" "positions c = positions b - {i}"
    "\<forall>j \<in> positions c. elements c ! j = elements b ! j" "length (elements c) = length (elements b)"
    using base_pop_stable [OF assms(2) _ , of i] assms(5) by auto
  with True assms(4-7) show thesis by (intro that [of c]) (auto simp: pop.simps pop_one_def)
next
  case False
  then have pk: "packed_ok a" "packed_ok b" using assms(1-3) stable_okD(1) by (auto simp: base_ok_def)
  have eq: "{..<length (elements b)} = insert i {..<length (elements a)}" and new: "i \<notin> {..<length (elements a)}"
    using assms(4,5) positions_packed [OF pk(1)] positions_packed [OF pk(2)] by simp_all
  have "card {..<length (elements b)} = Suc (length (elements a))" unfolding eq using new by simp
  then have len1: "length (elements b) = Suc (length (elements a))" by simp
  have "i \<in> {..<length (elements b)}" unfolding eq by simp
  then have len: "length (elements b) = Suc (length (elements a))" "i = length (elements a)" using new len1 by simp_all
  obtain c where "swap_and_pop (i + 1) b = Ret c" "base_ok c" "mode c = mode b" "positions c = {..<length (elements b) - 1}"
    "elements c = swap_pop i (elements b)" using base_pop_packed [OF assms(2) False, of i] assms(5) by blast
  then show thesis using pk assms(6) len positions_packed [OF pk(1)]
    by (intro that [of c]) (auto simp: pop.simps pop_one_def swap_pop_nth)
qed

section \<open>The map of a storage\<close>

definition st_ok :: "'a storage \<Rightarrow> bool" where
  "st_ok s \<longleftrightarrow> base_ok (base s) \<and> payload_ok s \<and> (\<forall>i. object_at s i \<noteq> None \<longleftrightarrow> i \<in> positions (base s))"

definition comps :: "'a storage \<Rightarrow> entity \<Rightarrow> 'a option" where
  "comps s e = (case index (base s) e of Ret i \<Rightarrow> object_at s i | _ \<Rightarrow> None)"

lemma st_okD:
  assumes "st_ok s"
  shows "base_ok (base s)" "payload_ok s" "object_at s i \<noteq> None \<longleftrightarrow> i \<in> positions (base s)"
  using assms by (simp_all add: st_ok_def)

lemma comps_position: "base_ok (base s) \<Longrightarrow> i \<in> positions (base s) \<Longrightarrow> comps s (elements (base s) ! i) = object_at s i"
  by (simp add: comps_def base_index(1))

lemma comps_missing: "base_ok (base s) \<Longrightarrow> e \<notin> members (positions (base s)) (base s) \<Longrightarrow> comps s e = None"
  using index_missing [OF base_ok_placed] by (simp add: comps_def)

lemma dom_comps:
  assumes "st_ok s" shows "dom (comps s) = members (positions (base s)) (base s)"
proof -
  note D = st_okD [OF assms]
  have "comps s e \<noteq> None \<longleftrightarrow> e \<in> members (positions (base s)) (base s)" for e
  proof (cases "e \<in> members (positions (base s)) (base s)")
    case True
    then obtain i where i: "i \<in> positions (base s)" "elements (base s) ! i = e" by (auto simp: members_def)
    then show ?thesis using comps_position [OF D(1) i(1)] D(3) [of i] True by auto
  qed (simp add: comps_missing D(1))
  then show ?thesis by (auto simp: dom_def)
qed

text \<open>Two states of a storage have the same map when their positions hold the same pairs.\<close>

lemma comps_eqI:
  assumes "base_ok (base s)" "base_ok (base s')"
    and "\<And>i. i \<in> positions (base s) \<Longrightarrow> elements (base s) ! i \<noteq> e \<Longrightarrow>
      \<exists>j \<in> positions (base s'). elements (base s') ! j = elements (base s) ! i \<and> object_at s' j = object_at s i"
    and "\<And>j. j \<in> positions (base s') \<Longrightarrow> elements (base s') ! j \<noteq> e \<Longrightarrow>
      \<exists>i \<in> positions (base s). elements (base s) ! i = elements (base s') ! j"
    and "d \<noteq> e"
  shows "comps s' d = comps s d"
proof (cases "d \<in> members (positions (base s)) (base s)")
  case True
  then obtain i where i: "i \<in> positions (base s)" "elements (base s) ! i = d" by (auto simp: members_def)
  with assms(3,5) obtain j where "j \<in> positions (base s')" "elements (base s') ! j = d" "object_at s' j = object_at s i" by metis
  then show ?thesis using comps_position [OF assms(1) i(1)] comps_position [OF assms(2), of j] i by simp
next
  case False
  have "d \<notin> members (positions (base s')) (base s')"
  proof
    assume "d \<in> members (positions (base s')) (base s')"
    then obtain j where "j \<in> positions (base s')" "elements (base s') ! j = d" by (auto simp: members_def)
    with assms(4,5) obtain i where "i \<in> positions (base s)" "elements (base s) ! i = d" by blast
    with False show False unfolding members_def by blast
  qed
  then show ?thesis using False comps_missing [OF assms(1)] comps_missing [OF assms(2)] by simp
qed

lemma st_get_spec: "st_ok s \<Longrightarrow> st_get e s = (case comps s e of Some x \<Rightarrow> Ret x | None \<Rightarrow> Aborts)"
proof -
  assume ok: "st_ok s"
  note D = st_okD [OF ok]
  show ?thesis
  proof (cases "e \<in> members (positions (base s)) (base s)")
    case True
    then obtain i where i: "i \<in> positions (base s)" "elements (base s) ! i = e" by (auto simp: members_def)
    then have "i < 2 ^ 64" using positions_less [OF D(1) i(1)] by simp
    then show ?thesis using i base_index(1) [OF D(1) i(1)] read_element_eq [OF D(2), of i] comps_position [OF D(1) i(1)] D(3) [of i]
      by (auto simp: st_get_def)
  qed (use index_missing [OF base_ok_placed [OF D(1)]] comps_missing [OF D(1)] in \<open>simp add: st_get_def\<close>)
qed

lemma st_contains_spec:
  assumes "st_ok s" shows "st_contains s e = Ret (comps s e \<noteq> None)"
proof -
  have "comps s e \<noteq> None \<longleftrightarrow> e \<in> members (positions (base s)) (base s)"
    unfolding dom_comps [OF assms, symmetric] by (simp add: dom_def)
  then show ?thesis using contains_spec [OF base_ok_placed [OF st_okD(1) [OF assms]], of e] by (simp add: st_contains_def)
qed

lemma st_new_ok: "st_ok (st_new b)" "comps (st_new b) = Map.empty"
proof -
  have new: "base_ok (ss_new p) \<and> positions (ss_new p) = {}" if "p \<noteq> Swap_only" for p
    using that ss_new_ok by (cases p) (auto simp: base_ok_def positions_def ss_new_def)
  then show ok: "st_ok (st_new b)" by (simp add: st_ok_def st_new_def payload_ok_def object_at_def)
  have "dom (comps (st_new b)) = {}" using dom_comps [OF ok] new by (simp add: st_new_def members_def)
  then show "comps (st_new b) = Map.empty" by simp
qed

section \<open>What the operations do to the map\<close>

text \<open>Writing the object of one new position, with the set that has it.\<close>

lemma st_ok_add:
  assumes ok: "st_ok s" and b: "base_ok b" "i \<notin> positions (base s)" "positions b = insert i (positions (base s))"
    "\<forall>j \<in> positions (base s). elements b ! j = elements (base s) ! j" and t: "t = put_object i (Some x) (payload_assure i (s\<lparr>base := b\<rparr>))"
  shows "st_ok t \<and> comps t = (comps s)(elements b ! i \<mapsto> x)"
proof -
  note D = st_okD [OF ok]
  let ?p = "payload_assure i (s\<lparr>base := b\<rparr>)"
  have p: "payload_ok ?p" "i div packed_page < length (payload ?p)" "base ?p = b" "\<And>j. object_at ?p j = object_at s j"
    using payload_assure_spec [of "s\<lparr>base := b\<rparr>" i] D(2) by simp_all
  have obj: "object_at t j = (if j = i then Some x else object_at s j)" for j
    using object_at_put [OF p(1,2)] p(4) by (simp add: t)
  have tb: "base t = b" using p(3) by (simp add: t)
  have "payload_ok t" using p(1) by (simp add: t)
  then have tok: "st_ok t" using D(3) b by (auto simp: st_ok_def tb obj)
  have "comps t d = comps s d" if "d \<noteq> elements b ! i" for d
  proof (rule comps_eqI [OF D(1) _ _ _ that])
    show "base_ok (base t)" using b(1) by (simp add: tb)
  next
    fix j assume "j \<in> positions (base s)"
    then show "\<exists>k \<in> positions (base t). elements (base t) ! k = elements (base s) ! j \<and> object_at t k = object_at s j"
      using b(2-4) by (intro bexI [of _ j]) (auto simp: tb obj)
  next
    fix j assume "j \<in> positions (base t)" "elements (base t) ! j \<noteq> elements b ! i"
    then show "\<exists>k \<in> positions (base s). elements (base s) ! k = elements (base t) ! j"
      using b(3,4) by (intro bexI [of _ j]) (auto simp: tb)
  qed
  moreover have "comps t (elements b ! i) = Some x"
    using comps_position [of t i] b(1,3) by (simp add: tb obj)
  ultimately show ?thesis using tok by auto
qed

lemma emplace_spec:
  assumes ok: "st_ok s" and e: "mode (base s) = In_place \<Longrightarrow> \<not> is_tombstone e"
    and room: "to_entity e \<notin> to_entity ` dom (comps s) \<Longrightarrow> positions (base s) = {..<length (elements (base s))} \<Longrightarrow>
      length (elements (base s)) < 2 ^ 20 - 1"
  shows "if to_entity e \<in> to_entity ` dom (comps s) then st_emplace e x s = Aborts
    else \<exists>s'. st_emplace e x s = Ret (x \<noteq> None, s') \<and> st_ok s' \<and> mode (base s') = mode (base s) \<and>
      length (elements (base s')) \<le> length (elements (base s)) + 1 \<and>
      comps s' = (case x of Some v \<Rightarrow> (comps s)(e \<mapsto> v) | None \<Rightarrow> comps s)"
proof -
  note D = st_okD [OF ok]
  show ?thesis
  proof (cases "to_entity e \<in> to_entity ` dom (comps s)")
    case True
    then show ?thesis using base_taken [OF D(1), of e] by (simp add: dom_comps [OF ok] st_emplace_def emplace_element_def)
  next
    case False
    then obtain i b where b: "try_emplace e False (base s) = Ret (i + 1, b)" "base_ok b" "mode b = mode (base s)"
      "i < length (elements b)" "i \<notin> positions (base s)" "positions b = insert i (positions (base s))" "elements b ! i = e"
      "\<forall>j \<in> positions (base s). elements b ! j = elements (base s) ! j" "length (elements b) \<le> length (elements (base s)) + 1"
      using base_push [OF D(1) room [OF False] e False [unfolded dom_comps [OF ok]]] by auto
    let ?p = "payload_assure i (s\<lparr>base := b\<rparr>)"
    have p: "payload_ok ?p" "i div packed_page < length (payload ?p)" "base ?p = b" "\<And>j. object_at ?p j = object_at s j"
      using payload_assure_spec [of "s\<lparr>base := b\<rparr>" i] D(2) by simp_all
    have ib: "i \<in> positions b" by (simp add: b(6))
    then have i: "i < 2 ^ 64" using positions_less [OF b(2)] by fastforce
    show ?thesis
    proof (cases x)
      case (Some v)
      let ?t = "put_object i (Some v) ?p"
      have "st_emplace e x s = Ret (True, ?t)"
        using b(1) Some write_element_eq [OF p(1) i p(2)] by (simp add: st_emplace_def emplace_element_def Let_def)
      then show ?thesis using st_ok_add [OF ok b(2,5,6,8) refl, of v] Some b(3,7,9) p(3) False by auto
    next
      case None
      have same: "comps (?p\<lparr>base := b1\<rparr>) = comps s \<and> st_ok (?p\<lparr>base := b1\<rparr>)"
        if b1: "base_ok b1" "positions b1 = positions (base s)" "\<forall>j \<in> positions b1. elements b1 ! j = elements (base s) ! j" for b1
      proof -
        have "comps (?p\<lparr>base := b1\<rparr>) d = comps s d" for d
          using comps_eqI [of s "?p\<lparr>base := b1\<rparr>" "d + 1" d] D(1) b1 p(4) by auto
        then show ?thesis using D(3) b1 p(1,4) by (auto simp: st_ok_def)
      qed
      obtain b1 where b1: "pop (i + 1) i b = Ret b1" "base_ok b1" "mode b1 = mode b" "positions b1 = positions (base s)"
        "\<forall>j \<in> positions b1. elements b1 ! j = elements (base s) ! j" "length (elements b1) \<le> length (elements (base s)) + 1"
        by (rule base_push_pop [OF D(1) b(2,3,5,6,8,9)])
      have "st_emplace e x s = Ret (False, ?p\<lparr>base := b1\<rparr>)"
        using b(1) b1(1) p(3) None by (simp add: st_emplace_def emplace_element_def Let_def)
      then show ?thesis using same [OF b1(2,4,5)] None b(3) b1(3,6) False by auto
    qed
  qed
qed

lemma erase_in_place:
  assumes ok: "st_ok s" and m: "mode (base s) = In_place" and i: "i \<in> positions (base s)"
  shows "\<exists>s'. st_pop_one (i + 1) s = Ret s' \<and> st_ok s' \<and> mode (base s') = mode (base s) \<and>
    length (elements (base s')) = length (elements (base s)) \<and> positions (base s') = positions (base s) - {i} \<and> comps s' = (comps s)(elements (base s) ! i := None)"
proof -
  note D = st_okD [OF ok]
  let ?e = "elements (base s) ! i"
  obtain b where b: "in_place_pop (i + 1) (base s) = Ret b" "base_ok b" "mode b = In_place" "positions b = positions (base s) - {i}"
    "\<forall>j \<in> positions b. elements b ! j = elements (base s) ! j" "length (elements b) = length (elements (base s))"
    using base_pop_stable [OF D(1) m i] by blast
  define t where "t = put_object i None (s\<lparr>base := b\<rparr>)"
  have i': "i < 2 ^ 64" using positions_less [OF D(1) i] by simp
  have some: "object_at s i \<noteq> None" using D(3) i by simp
  then have obj: "object_at t j = (if j = i then None else object_at s j)" for j
    using object_at_put [of "s\<lparr>base := b\<rparr>" i None j] D(2) object_page [OF some] by (simp add: t_def)
  have tb: "base t = b" by (simp add: t_def)
  have "st_pop_one (i + 1) s = Ret t"
    using b(1) base_index(1,3) [OF D(1) i] m destroy_element_eq [of "s\<lparr>base := b\<rparr>" i] D(2) i' some
    by (simp add: st_pop_one_def t_def)
  moreover have tok: "st_ok t" using D(2,3) b(2,4) by (auto simp: st_ok_def tb obj) (simp add: t_def)
  moreover have "comps t d = comps s d" if "d \<noteq> ?e" for d
  proof (rule comps_eqI [OF D(1) _ _ _ that])
    show "base_ok (base t)" using b(2) by (simp add: tb)
  next
    fix j assume "j \<in> positions (base s)" "elements (base s) ! j \<noteq> ?e"
    then show "\<exists>k \<in> positions (base t). elements (base t) ! k = elements (base s) ! j \<and> object_at t k = object_at s j"
      using b(4,5) by (intro bexI [of _ j]) (auto simp: tb obj)
  next
    fix j assume "j \<in> positions (base t)"
    then show "\<exists>k \<in> positions (base s). elements (base s) ! k = elements (base t) ! j"
      using b(4,5) by (intro bexI [of _ j]) (auto simp: tb)
  qed
  moreover have "comps t ?e = None"
  proof (rule comps_missing)
    show "?e \<notin> members (positions (base t)) (base t)"
    proof
      assume "?e \<in> members (positions (base t)) (base t)"
      then obtain j where j: "j \<in> positions b" "elements b ! j = ?e" unfolding members_def tb by (metis imageE)
      then have "j \<in> positions (base s)" "j \<noteq> i" "elements (base s) ! j = ?e" using b(4,5) by simp_all
      then show False using base_same_entity [OF D(1) _ i] by metis
    qed
  qed (use b(2) tb in simp)
  ultimately show ?thesis using b(3,4,6) m by (intro exI [of _ t]) (auto simp: tb)
qed

lemma erase_packed_objects:
  assumes ok: "st_ok s" and m: "mode (base s) \<noteq> In_place" and i: "i \<in> positions (base s)"
  shows "\<exists>t b. st_pop_one (i + 1) s = Ret t \<and> base t = b \<and> swap_and_pop (i + 1) (base s) = Ret b \<and> payload_ok t \<and>
    (\<forall>j. object_at t j = (if j = length (elements (base s)) - 1 then None
       else if j = i then object_at s (length (elements (base s)) - 1) else object_at s j))"
proof -
  note D = st_okD [OF ok]
  let ?l = "length (elements (base s)) - 1"
  have P: "positions (base s) = {..<length (elements (base s))}" using m by (auto simp: positions_def)
  have l: "?l \<in> positions (base s)" using i unfolding P by auto
  obtain b where b: "swap_and_pop (i + 1) (base s) = Ret b" using base_pop_packed [OF D(1) m i] by blast
  have lt: "i < 2 ^ 64" "?l < 2 ^ 64" using positions_less [OF D(1) i] positions_less [OF D(1) l] by simp_all
  obtain x y where x: "object_at s i = Some x" "object_at s ?l = Some y" using D(3) i l by (meson not_None_eq)
  define s1 where "s1 = put_object i (Some y) s"
  have ok1: "payload_ok s1" using D(2) by (simp add: s1_def)
  have obj1: "object_at s1 j = (if j = i then Some y else object_at s j)" for j
    using object_at_put [OF D(2) object_page] x(1) by (simp add: s1_def)
  define s2 where "s2 = put_object ?l None s1"
  have some: "object_at s1 ?l \<noteq> None" using x(2) by (simp add: obj1)
  have obj2: "object_at s2 j = (if j = ?l then None else object_at s1 j)" for j
    using object_at_put [OF ok1 object_page [OF some]] by (simp add: s2_def)
  have "st_pop_one (i + 1) s = Ret (s2\<lparr>base := b\<rparr>)"
    using base_index(1,3) [OF D(1) i] m b read_element_eq [OF D(2) lt(1)] read_element_eq [OF D(2) lt(2)] x
      write_element_eq [OF D(2) lt(1) object_page] destroy_element_eq [OF ok1 lt(2) some]
    by (simp add: st_pop_one_def Let_def s1_def [symmetric] s2_def [symmetric]) (simp add: s2_def s1_def)
  moreover have "payload_ok (s2\<lparr>base := b\<rparr>)" using ok1 by (simp add: s2_def)
  ultimately show ?thesis using b x obj1 obj2 by (intro exI [of _ "s2\<lparr>base := b\<rparr>"] exI [of _ b]) auto
qed

lemma erase_packed_map:
  assumes ok: "st_ok s" and m: "mode (base s) \<noteq> In_place" and i: "i \<in> positions (base s)"
  shows "\<exists>s'. st_pop_one (i + 1) s = Ret s' \<and> st_ok s' \<and> mode (base s') = mode (base s) \<and>
    length (elements (base s')) \<le> length (elements (base s)) \<and> comps s' = (comps s)(elements (base s) ! i := None)"
proof -
  note D = st_okD [OF ok]
  let ?es = "elements (base s)" let ?l = "length ?es - 1" let ?e = "?es ! i"
  have P: "positions (base s) = {..<length ?es}" using m by (auto simp: positions_def)
  obtain t b where t: "st_pop_one (i + 1) s = Ret t" "base t = b" "swap_and_pop (i + 1) (base s) = Ret b" "payload_ok t"
    and obj: "\<And>j. object_at t j = (if j = ?l then None else if j = i then object_at s ?l else object_at s j)"
    using erase_packed_objects [OF assms] by blast
  have b: "base_ok b" "mode b = mode (base s)" "positions b = {..<?l}" "elements b = swap_pop i ?es"
    using base_pop_packed [OF D(1) m i] t(3) by auto
  have il: "i < length ?es" using i unfolding P by simp
  then have ne: "?es \<noteq> []" by auto
  have el: "elements b ! j = (if j = i then ?es ! ?l else ?es ! j)" if "j < ?l" for j
    using swap_pop_nth [of j ?es i] that by (simp add: b(4) last_conv_nth [OF ne])
  have tok: "st_ok t" using b(1) t(4) D(3) il unfolding st_ok_def t(2) b(3) obj P by auto
  moreover have "comps t d = comps s d" if "d \<noteq> ?e" for d
  proof (rule comps_eqI [OF D(1) _ _ _ that])
    show "base_ok (base t)" using b(1) by (simp add: t(2))
  next
    fix j assume j: "j \<in> positions (base s)" "?es ! j \<noteq> ?e"
    let ?k = "if j = ?l then i else j"
    have "j \<noteq> i" using j(2) by auto
    then have "?k < ?l" using j(1) il unfolding P by auto
    then show "\<exists>k \<in> positions (base t). elements (base t) ! k = ?es ! j \<and> object_at t k = object_at s j"
      using el [of ?k] j(2) by (intro bexI [of _ ?k]) (auto simp: t(2) obj b(3))
  next
    fix j assume "j \<in> positions (base t)"
    then have "j < ?l" by (simp add: t(2) b(3))
    then show "\<exists>k \<in> positions (base s). ?es ! k = elements (base t) ! j"
      using el [of j] unfolding P t(2) by (intro bexI [of _ "if j = i then ?l else j"]) auto
  qed
  moreover have "comps t ?e = None"
  proof (rule comps_missing)
    show "?e \<notin> members (positions (base t)) (base t)"
    proof
      assume "?e \<in> members (positions (base t)) (base t)"
      then obtain j where j: "j < ?l" "elements b ! j = ?e" by (auto simp: members_def t(2) b(3))
      define k where "k = (if j = i then ?l else j)"
      have "?es ! k = ?e" using j el [of j] by (cases "j = i") (simp_all add: k_def)
      moreover have "k \<in> positions (base s)" using j(1) unfolding P k_def by auto
      ultimately have "k = i" using base_same_entity [OF D(1) _ i, of k] by simp
      then show False using j(1) by (auto simp: k_def split: if_splits)
    qed
  qed (use b(1) t(2) in simp)
  ultimately show ?thesis using t(1,2) b(2,4) by (intro exI [of _ t]) auto
qed

lemma erase_spec:
  assumes ok: "st_ok s"
  shows "if comps s e = None then st_erase e (s :: 'a storage) = Aborts
    else \<exists>s'. st_erase e s = Ret s' \<and> st_ok s' \<and> mode (base s') = mode (base s) \<and>
      length (elements (base s')) \<le> length (elements (base s)) \<and> comps s' = (comps s)(e := None)"
proof (cases "e \<in> dom (comps s)")
  case True
  note D = st_okD [OF ok]
  obtain i where i: "i \<in> positions (base s)" "elements (base s) ! i = e"
    using True unfolding dom_comps [OF ok] by (auto simp: members_def)
  have er: "st_erase e s = st_pop_one (i + 1) s"
  proof -
    have "st_pop i i = (Ret :: 'a storage \<Rightarrow> _)" by (rule ext) (simp add: st_pop.simps)
    then show ?thesis using base_index(2) [OF D(1) i(1)] i(2) by (simp add: st_erase_def st_pop.simps [of "Suc i"])
  qed
  obtain s' where "st_pop_one (i + 1) s = Ret s'" "st_ok s'" "mode (base s') = mode (base s)"
    "length (elements (base s')) \<le> length (elements (base s))" "comps s' = (comps s)(e := None)"
  proof (cases "mode (base s) = In_place")
    case m: True
    from erase_in_place [OF ok m i(1)] show thesis unfolding i(2) by (elim exE conjE) (rule that, simp_all)
  next
    case m: False
    from erase_packed_map [OF ok m i(1)] show thesis unfolding i(2) by (elim exE conjE) (rule that)
  qed
  then show ?thesis using True er by auto
next
  case False
  then have "e \<notin> members (positions (base s)) (base s)" unfolding dom_comps [OF ok] .
  then have "to_iterator (base s) e = Aborts"
    using index_missing [OF base_ok_placed [OF st_okD(1) [OF ok]]] by (simp add: to_iterator_def)
  then show ?thesis using False by (auto simp: st_erase_def)
qed

lemma remove_spec:
  assumes ok: "st_ok s"
  shows "\<exists>s'. st_remove e s = Ret (comps s e \<noteq> None, s') \<and> st_ok s' \<and> mode (base s') = mode (base s) \<and>
    length (elements (base s')) \<le> length (elements (base s)) \<and> comps s' = (comps s)(e := None)"
proof (cases "comps s e")
  case None
  then have "(comps s)(e := None) = comps s" by auto
  with None ok st_contains_spec [OF ok, of e] show ?thesis by (simp add: st_remove_def st_contains_def)
next
  case (Some x)
  with ok erase_spec [OF ok, of e] st_contains_spec [OF ok, of e] show ?thesis
    by (auto simp: st_remove_def st_contains_def)
qed

lemma patch_spec:
  assumes ok: "st_ok s"
  shows "case comps s e of None \<Rightarrow> st_patch e fs s = Aborts
    | Some x \<Rightarrow> \<exists>s'. st_patch e fs s = Ret (fold (\<lambda>f. f) fs x, s') \<and> st_ok s' \<and> base s' = base s \<and>
        comps s' = (comps s)(e \<mapsto> fold (\<lambda>f. f) fs x)"
proof (cases "e \<in> dom (comps s)")
  case False
  then have "e \<notin> members (positions (base s)) (base s)" unfolding dom_comps [OF ok] .
  then have "index (base s) e = Aborts" using index_missing [OF base_ok_placed [OF st_okD(1) [OF ok]]] by simp
  moreover have "comps s e = None" using False by auto
  ultimately show ?thesis by (simp add: st_patch_def)
next
  case True
  note D = st_okD [OF ok]
  obtain i where i: "i \<in> positions (base s)" "elements (base s) ! i = e"
    using True unfolding dom_comps [OF ok] by (auto simp: members_def)
  obtain x where x: "object_at s i = Some x" using D(3) i(1) by blast
  have i': "i < 2 ^ 64" using positions_less [OF D(1) i(1)] by simp
  let ?y = "fold (\<lambda>f. f) fs x" let ?t = "put_object i (Some ?y) s"
  have page: "i div packed_page < length (payload s)" by (rule object_page) (simp add: x)
  have obj: "object_at ?t j = (if j = i then Some ?y else object_at s j)" for j by (rule object_at_put [OF D(2) page])
  have "st_patch e fs s = Ret (?y, ?t)"
    using i base_index(1) [OF D(1) i(1)] read_element_eq [OF D(2) i'] write_element_eq [OF D(2) i' page] x
    by (simp add: st_patch_def Let_def)
  moreover have "st_ok ?t" using D i(1) by (auto simp: st_ok_def obj)
  moreover have "comps ?t d = ((comps s)(e \<mapsto> ?y)) d" for d
  proof (cases "d \<in> members (positions (base s)) (base s)")
    case True
    then obtain j where j: "j \<in> positions (base s)" "elements (base s) ! j = d" by (auto simp: members_def)
    then have "d = e \<longleftrightarrow> j = i" using base_same_entity [OF D(1) j(1) i(1)] i(2) by auto
    then show ?thesis using comps_position [of ?t j] comps_position [of s j] D(1) j by (simp add: obj)
  next
    case False
    then have "d \<noteq> e" using i by (auto simp: members_def)
    with False show ?thesis using comps_missing [of ?t d] comps_missing [of s d] D(1) by simp
  qed
  moreover have "comps s e = Some x" using comps_position [OF D(1) i(1)] i(2) x by simp
  ultimately show ?thesis by (auto intro!: exI [of _ ?t])
qed

section \<open>Clearing\<close>

lemma pop_down_step:
  assumes ok: "st_ok s" and n: "Suc n \<le> length (elements (base s))" "positions (base s) \<subseteq> {..<Suc n}"
    and len: "mode (base s) \<noteq> In_place \<Longrightarrow> length (elements (base s)) = Suc n"
  shows "\<exists>s'. st_pop_down (Suc n) s = st_pop_down n s' \<and> st_ok s' \<and> mode (base s') = mode (base s) \<and>
    n \<le> length (elements (base s')) \<and> positions (base s') \<subseteq> {..<n} \<and>
    (mode (base s) \<noteq> In_place \<longrightarrow> length (elements (base s')) = n)"
proof -
  note D = st_okD [OF ok]
  show ?thesis
  proof (cases "mode (base s) = In_place")
    case m: True
    have d: "deref (Suc n) (base s) = Ret (elements (base s) ! n)" using n(1) by (simp add: deref_def read_at_def)
    show ?thesis
    proof (cases "is_tombstone (elements (base s) ! n)")
      case True
      then have "n \<notin> positions (base s)" using m by (simp add: positions_def)
      then have "positions (base s) \<subseteq> {..<n}" using n(2) by (auto simp: less_Suc_eq)
      then show ?thesis using True m d ok n(1) by (intro exI [of _ s]) simp
    next
      case False
      then have i: "n \<in> positions (base s)" using m n(1) by (simp add: positions_def)
      from erase_in_place [OF ok m i] obtain s' where s': "st_pop_one (n + 1) s = Ret s'" "st_ok s'" "mode (base s') = mode (base s)"
        "length (elements (base s')) = length (elements (base s))" "positions (base s') = positions (base s) - {n}" by auto
      then have "st_pop_down (Suc n) s = st_pop_down n s'"
        using m d False base_index(1) [OF D(1) i] by (simp add: st_pop_one_def)
      moreover have "positions (base s') \<subseteq> {..<n}" using s'(5) n(2) by (auto simp: less_Suc_eq)
      ultimately show ?thesis using s' m n(1) by (intro exI [of _ s']) simp
    qed
  next
    case m: False
    have len: "length (elements (base s)) = Suc n" by (rule len [OF m])
    then have i: "n \<in> positions (base s)" using m by (simp add: positions_def)
    obtain b where b: "swap_and_pop (n + 1) (base s) = Ret b" "base_ok b" "mode b = mode (base s)" "positions b = {..<n}"
      "elements b = swap_pop n (elements (base s))" using base_pop_packed [OF D(1) m i] len by auto
    have P: "positions (base s) = {..<Suc n}" using m len by (auto simp: positions_def)
    define t where "t = put_object n None (s\<lparr>base := b\<rparr>)"
    have n64: "n < 2 ^ 64" using positions_less [OF D(1) i] by simp
    have some: "object_at (s\<lparr>base := b\<rparr>) n \<noteq> None" using D(3) i by simp
    have obj: "object_at t j = (if j = n then None else object_at s j)" for j
      using object_at_put [of "s\<lparr>base := b\<rparr>" n None j] D(2) object_page [OF some] by (simp add: t_def)
    have tb: "base t = b" "payload_ok t" using D(2) by (simp_all add: t_def)
    then have "st_ok t" using b(2) D(3) P by (auto simp: st_ok_def obj b(4))
    moreover have "st_pop_down (Suc n) s = st_pop_down n t"
      using m b(1) destroy_element_eq [OF _ n64 some] D(2) by (simp add: t_def)
    ultimately show ?thesis using m b(3,4,5) len by (intro exI [of _ t]) (simp add: t_def)
  qed
qed

lemma pop_down_spec:
  "st_ok s \<Longrightarrow> n \<le> length (elements (base s)) \<Longrightarrow> positions (base s) \<subseteq> {..<n} \<Longrightarrow>
   (mode (base s) \<noteq> In_place \<longrightarrow> length (elements (base s)) = n) \<Longrightarrow>
   \<exists>s'. st_pop_down n s = Ret s' \<and> st_ok s' \<and> mode (base s') = mode (base s) \<and> positions (base s') = {} \<and>
     (mode (base s) \<noteq> In_place \<longrightarrow> elements (base s') = [])"
proof (induction n arbitrary: s)
  case (Suc n)
  obtain s1 where s1: "st_pop_down (Suc n) s = st_pop_down n s1" "st_ok s1" "mode (base s1) = mode (base s)"
    "n \<le> length (elements (base s1))" "positions (base s1) \<subseteq> {..<n}"
    "mode (base s) \<noteq> In_place \<longrightarrow> length (elements (base s1)) = n"
    using pop_down_step [OF Suc.prems(1-3)] Suc.prems(4) by blast
  with Suc.IH [OF s1(2,4,5)] show ?case by simp
qed auto

text \<open>Once all elements are tombstones, \<open>compact\<close> walks the free list and drops everything.\<close>

lemma trim_all: "n \<le> length es \<Longrightarrow> \<forall>i<n. is_tombstone (es ! i) \<Longrightarrow> trim_tombstones es n = 0"
  by (induction n) (simp_all add: trim_tombstones.simps)

lemma compact_loop_none:
  "free_chain (elements s) h fs \<Longrightarrow> length (elements s) < 2 ^ 20 \<Longrightarrow> compact_loop h 0 s = Some (Ret (0, s))"
proof (induction fs arbitrary: h)
  case Nil
  have "to_entity null_entity = entity_mask" by (simp add: null_bits to_entity_def to_integral_def)
  with Nil show ?case by (simp add: compact_loop.simps)
next
  case (Cons i fs)
  have null: "to_entity null_entity = entity_mask" by (simp add: null_bits to_entity_def to_integral_def)
  have i: "i < length (elements s)" "h = of_nat i" "free_chain (elements s) (to_entity (elements s ! i)) fs"
    using Cons.prems(1) by simp_all
  have "h \<noteq> entity_mask" using free_chain_head [OF Cons.prems] by simp
  moreover have "unat h = i" using i Cons.prems(2) by (simp add: to_entity_of_nat)
  ultimately show ?case using Cons.IH [OF i(3) Cons.prems(2)] i(1) by (subst compact_loop.simps) (simp add: null)
qed

lemma base_ok_emptied:
  assumes "base_ok b" "positions b = {}" "mode c = mode b" "pages c = pages b" "elements c = []" "head c = policy_to_head (mode b)"
  shows "base_ok c" "positions c = {}"
proof -
  have "placed {} b" using base_ok_placed [OF assms(1)] assms(2) by simp
  then have "placed {} c"
    by (rule placed_cong) (use assms(4,5) placedD(1) [OF \<open>placed {} b\<close>] in \<open>simp_all add: pages_ok_def lookup_def\<close>)
  moreover have "mode b \<noteq> Swap_only" using assms(1) stable_okD(1) by (auto simp: base_ok_def)
  ultimately show "base_ok c" using assms(3,5,6) unfolding base_ok_def
    by (cases "mode b") (auto simp: stable_ok_def policy_to_head_def intro!: exI [of _ "[]"])
  show "positions c = {}" by (simp add: positions_def assms(5))
qed

lemma clear_spec:
  assumes ok: "st_ok s"
  shows "\<exists>s'. st_clear s = Ret s' \<and> st_ok s' \<and> mode (base s') = mode (base s) \<and> comps s' = Map.empty"
proof -
  have "positions (base s) \<subseteq> {..<length (elements (base s))}" by (auto simp: positions_def)
  then obtain s1 where s1: "st_pop_all s = Ret s1" "st_ok s1" "mode (base s1) = mode (base s)" "positions (base s1) = {}"
    "mode (base s) \<noteq> In_place \<Longrightarrow> elements (base s1) = []"
    using pop_down_spec [OF ok, of "length (elements (base s))"] unfolding st_pop_all_def by auto
  note D = st_okD [OF s1(2)]
  obtain b where b: "compact (base s1) = Ret b" "mode b = mode (base s)" "elements b = []" "pages b = pages (base s1)"
  proof (cases "mode (base s) = In_place")
    case True
    then obtain fs where st: "stable_ok fs (base s1)" using D(1) s1(3) by (auto simp: base_ok_def)
    have tomb: "\<forall>i<length (elements (base s1)). is_tombstone (elements (base s1) ! i)"
      using s1(3,4) True by (auto simp: positions_def)
    have "compact_loop (head (base s1)) 0 ((base s1)\<lparr>head := entity_mask\<rparr>) = Some (Ret (0, (base s1)\<lparr>head := entity_mask\<rparr>))"
      using stable_okD(4) [OF st] placedD(2) [OF stable_okD(2) [OF st]] by (intro compact_loop_none) simp_all
    then show thesis using True s1(3) trim_all [OF le_refl tomb]
      by (intro that [of "(base s1)\<lparr>head := entity_mask, elements := []\<rparr>"]) (simp_all add: compact_def)
  next
    case False
    then show thesis using s1(3,5) by (intro that [of "base s1"]) (simp_all add: compact_def)
  qed
  let ?c = "b\<lparr>head := policy_to_head (mode b), elements := []\<rparr>"
  note E = base_ok_emptied [OF D(1) s1(4), of ?c]
  have "st_clear s = Ret (s1\<lparr>base := ?c\<rparr>)" using s1(1) b(1,3) by (simp add: st_clear_def)
  moreover have "st_ok (s1\<lparr>base := ?c\<rparr>)" using E b D(2,3) s1(3,4) by (simp add: st_ok_def)
  moreover have "dom (comps (s1\<lparr>base := ?c\<rparr>)) = {}"
    using dom_comps [OF \<open>st_ok (s1\<lparr>base := ?c\<rparr>)\<close>] by (simp add: members_def positions_def)
  ultimately show ?thesis using b(2) by (intro exI [of _ "s1\<lparr>base := ?c\<rparr>"]) simp
qed

section \<open>The contract of a storage\<close>

text \<open>The calls of a client, and what they do to a finite map: \<open>None\<close> where an assertion fails.\<close>

datatype 'a st_call =
  Emplace entity "'a option" | Erase entity | Remove_if entity | Patch entity "('a \<Rightarrow> 'a) list" | Get entity | Contains entity

datatype 'a st_reply = Unit | Flag bool | Object 'a

fun st_do :: "'a st_call \<Rightarrow> 'a storage \<Rightarrow> ('a st_reply \<times> 'a storage) outcome" where
  "st_do (Emplace e x) s = obind (st_emplace e x s) (\<lambda>(b, s1). Ret (Flag b, s1))"
| "st_do (Erase e) s = obind (st_erase e s) (\<lambda>s1. Ret (Unit, s1))"
| "st_do (Remove_if e) s = obind (st_remove e s) (\<lambda>(b, s1). Ret (Flag b, s1))"
| "st_do (Patch e fs) s = obind (st_patch e fs s) (\<lambda>(x, s1). Ret (Object x, s1))"
| "st_do (Get e) s = obind (st_get e s) (\<lambda>x. Ret (Object x, s))"
| "st_do (Contains e) s = obind (st_contains s e) (\<lambda>b. Ret (Flag b, s))"

fun map_do :: "'a st_call \<Rightarrow> (entity \<Rightarrow> 'a option) \<Rightarrow> ('a st_reply \<times> (entity \<Rightarrow> 'a option)) option" where
  "map_do (Emplace e x) m =
     (if to_entity e \<in> to_entity ` dom m then None
      else Some (case x of Some v \<Rightarrow> (Flag True, m(e \<mapsto> v)) | None \<Rightarrow> (Flag False, m)))"
| "map_do (Erase e) m = (if m e = None then None else Some (Unit, m(e := None)))"
| "map_do (Remove_if e) m = Some (Flag (m e \<noteq> None), m(e := None))"
| "map_do (Patch e fs) m =
     (case m e of None \<Rightarrow> None | Some x \<Rightarrow> Some (Object (fold (\<lambda>f. f) fs x), m(e \<mapsto> fold (\<lambda>f. f) fs x)))"
| "map_do (Get e) m = (case m e of None \<Rightarrow> None | Some x \<Rightarrow> Some (Object x, m))"
| "map_do (Contains e) m = Some (Flag (m e \<noteq> None), m)"

fun usable :: "'a st_call \<Rightarrow> bool" where
  "usable (Emplace e x) = (\<not> is_tombstone e)"
| "usable c = True"

fun st_run :: "'a st_call list \<Rightarrow> 'a storage \<Rightarrow> ('a st_reply list \<times> 'a storage) outcome" where
  "st_run [] s = Ret ([], s)"
| "st_run (c # cs) s = obind (st_do c s) (\<lambda>(r, s1). obind (st_run cs s1) (\<lambda>(rs, s2). Ret (r # rs, s2)))"

fun map_run :: "'a st_call list \<Rightarrow> (entity \<Rightarrow> 'a option) \<Rightarrow> ('a st_reply list \<times> (entity \<Rightarrow> 'a option)) option" where
  "map_run [] m = Some ([], m)"
| "map_run (c # cs) m =
     (case map_do c m of None \<Rightarrow> None
      | Some (r, m1) \<Rightarrow> (case map_run cs m1 of None \<Rightarrow> None | Some (rs, m2) \<Rightarrow> Some (r # rs, m2)))"

locale component_map =
  fixes ok :: "'a storage \<Rightarrow> bool" and content :: "'a storage \<Rightarrow> entity \<Rightarrow> 'a option" and filled :: "'a storage \<Rightarrow> nat"
  assumes step: "ok s \<Longrightarrow> filled s < 2 ^ 20 - 1 \<Longrightarrow> usable c \<Longrightarrow>
    case map_do c (content s) of None \<Rightarrow> st_do c s = Aborts
    | Some (r, m) \<Rightarrow> \<exists>s'. st_do c s = Ret (r, s') \<and> ok s' \<and> content s' = m \<and> filled s' \<le> filled s + 1"
begin

lemma run:
  "ok s \<Longrightarrow> filled s + length cs \<le> 2 ^ 20 - 1 \<Longrightarrow> \<forall>c \<in> set cs. usable c \<Longrightarrow>
   case map_run cs (content s) of None \<Rightarrow> st_run cs s = Aborts
   | Some (rs, m) \<Rightarrow> \<exists>s'. st_run cs s = Ret (rs, s') \<and> ok s' \<and> content s' = m"
proof (induction cs arbitrary: s)
  case (Cons c cs)
  have room: "filled s < 2 ^ 20 - 1" using Cons.prems(2) by simp
  have u: "usable c" "\<forall>c \<in> set cs. usable c" using Cons.prems(3) by simp_all
  note st = step [OF Cons.prems(1) room u(1)]
  show ?case
  proof (cases "map_do c (content s)")
    case None
    then show ?thesis using st by simp
  next
    case (Some p)
    obtain r m where p: "p = (r, m)" by fastforce
    then obtain s' where s': "st_do c s = Ret (r, s')" "ok s'" "content s' = m" "filled s' \<le> filled s + 1"
      using st Some by auto
    have "filled s' + length cs \<le> 2 ^ 20 - 1" using s'(4) Cons.prems(2) by simp
    from Cons.IH [OF s'(2) this u(2)] show ?thesis using Some p s' by (cases "map_run cs m") auto
  qed
qed simp

end

interpretation store: component_map st_ok comps "\<lambda>s. length (elements (base s))"
proof
  fix s :: "'a storage" and c :: "'a st_call"
  assume ok: "st_ok s" and room: "length (elements (base s)) < 2 ^ 20 - 1" and u: "usable c"
  show "case map_do c (comps s) of None \<Rightarrow> st_do c s = Aborts
    | Some (r, m) \<Rightarrow> \<exists>s'. st_do c s = Ret (r, s') \<and> st_ok s' \<and> comps s' = m \<and>
        length (elements (base s')) \<le> length (elements (base s)) + 1"
  proof (cases c)
    case (Emplace e x)
    then show ?thesis using emplace_spec [OF ok _ room, of e x] u by (auto split: option.splits if_splits)
  next
    case (Erase e)
    then show ?thesis using erase_spec [OF ok, of e] by auto
  next
    case (Remove_if e)
    then show ?thesis using remove_spec [OF ok, of e] by auto
  next
    case (Patch e fs)
    then show ?thesis using patch_spec [OF ok, of e fs] by (auto split: option.splits)
  next
    case (Get e)
    then show ?thesis using st_get_spec [OF ok, of e] ok by (auto split: option.splits)
  next
    case (Contains e)
    then show ?thesis using st_contains_spec [OF ok, of e] ok by auto
  qed
qed

section \<open>Properties\<close>

text \<open>
  C12. A storage of components is a map from identifiers to objects, under both policies: any
  calls on a new one answer and leave what they do to the map, and fail an assertion where the
  map has no answer. In the end objects exist exactly at the live positions of the packed array,
  so none leaked and none was destroyed twice, also when constructors throw.
\<close>

theorem storage_is_a_map:
  fixes cs :: "'a st_call list"
  assumes "\<forall>c \<in> set cs. usable c" "length cs \<le> 2 ^ 20 - 1"
  shows "case map_run cs Map.empty of None \<Rightarrow> st_run cs (st_new in_place_delete) = Aborts
    | Some (rs, m) \<Rightarrow> \<exists>s. st_run cs (st_new in_place_delete) = Ret (rs, s) \<and> comps s = m \<and>
        (\<forall>i. object_at s i \<noteq> None \<longleftrightarrow> i \<in> positions (base s))"
proof -
  have "length (elements (base (st_new in_place_delete :: 'a storage))) = 0" by (simp add: st_new_def ss_new_def)
  with store.run [OF st_new_ok(1) [of in_place_delete], of cs] assms st_okD(3) show ?thesis
    unfolding st_new_ok(2) by (fastforce split: option.splits)
qed

theorem storage_is_a_map_witness:
  "\<exists>s. st_run [Emplace 1 (Some ''a''), Emplace 2 None, Emplace 3 (Some ''c''), Erase 1, Get 3] (st_new False) =
     Ret ([Flag True, Flag False, Flag True, Unit, Object ''c''], s) \<and> comps s = [3 \<mapsto> ''c'']"
proof -
  have v: "to_version 1 = 0" "to_version 2 = 0" "to_version 3 = 0" unfolding word_unat_eq_iff by (simp_all add: to_version_unat)
  then have t: "\<not> is_tombstone 1" "\<not> is_tombstone 2" "\<not> is_tombstone 3" by (simp_all add: is_tombstone_iff mask_eq_exp_minus_1)
  have e: "to_entity 1 = 1" "to_entity 2 = 2" "to_entity 3 = 3" by (rule to_entity_small, simp)+
  show ?thesis
    using storage_is_a_map [of "[Emplace 1 (Some ''a''), Emplace 2 None, Emplace 3 (Some ''c''), Erase 1, Get 3]" False] t e
    by (auto simp: fun_upd_twist)
qed

end
