(* ===== verification/RegistryCorrect.thy ===== *)
theory RegistryCorrect
  imports Registry EntityStorageCorrect StorageCorrect
begin

text \<open>
  The registry keeps its parts together: a destroyed identifier loses its components in every
  pool, only valid identifiers have components, and a valid identifier can always be given one it
  does not have.
\<close>

section \<open>What a registry holds\<close>

definition held :: "('t, 'a) registry \<Rightarrow> 32 word \<Rightarrow> entity \<Rightarrow> 'a option" where
  "held r h = (case map_of (pools r) h of None \<Rightarrow> Map.empty | Some p \<Rightarrow> comps (pool_storage p))"

definition reg_ok :: "'t component_traits \<Rightarrow> ('t, 'a) registry \<Rightarrow> bool" where
  "reg_ok tr r \<longleftrightarrow> es_ok (entities r) \<and> distinct (map fst (pools r)) \<and>
     (\<forall>(h, p) \<in> set (pools r). h = type_hash tr (pool_type p) \<and> st_ok (pool_storage p))"

text \<open>Only identifiers in use have components.\<close>

definition linked :: "('t, 'a) registry \<Rightarrow> bool" where
  "linked r \<longleftrightarrow> (\<forall>h. dom (held r h) \<subseteq> in_use (entities r))"

lemma linkedD: "linked r \<Longrightarrow> held r h e = Some x \<Longrightarrow> e \<in> in_use (entities r)"
  by (auto simp: linked_def dom_def)

lemma linkedI: "(\<And>h e x. held r h e = Some x \<Longrightarrow> e \<in> in_use (entities r)) \<Longrightarrow> linked r"
  by (auto simp: linked_def)

abbreviation reg_inv :: "'t component_traits \<Rightarrow> ('t, 'a) registry \<Rightarrow> bool" where
  "reg_inv tr r \<equiv> reg_ok tr r \<and> linked r"

lemma reg_okD:
  "reg_ok tr r \<Longrightarrow> es_ok (entities r)" "reg_ok tr r \<Longrightarrow> distinct (map fst (pools r))"
  "reg_ok tr r \<Longrightarrow> map_of (pools r) h = Some p \<Longrightarrow> st_ok (pool_storage p) \<and> h = type_hash tr (pool_type p)"
  by (auto simp: reg_ok_def dest!: map_of_SomeD)

lemma reg_ok_entities:
  "reg_ok tr r \<Longrightarrow> es_ok s \<Longrightarrow> reg_ok tr (r\<lparr>entities := s\<rparr>)"
  "held (r\<lparr>entities := s\<rparr>) = held r"
  by (auto simp: reg_ok_def held_def fun_eq_iff)

lemma reg_new_inv: "reg_inv tr reg_new"
  by (simp add: reg_ok_def linked_def held_def reg_new_def es_new_ok)

section \<open>Going through the pool of a type\<close>

text \<open>The storage that \<open>assure\<close> finds or makes, and writing back what became of it.\<close>

definition pool_of :: "'t component_traits \<Rightarrow> 't \<Rightarrow> ('t, 'a) registry \<Rightarrow> 'a storage option" where
  "pool_of tr ty r =
     (case map_of (pools r) (type_hash tr ty) of
        None \<Rightarrow> Some (st_new (in_place_delete tr ty))
      | Some p \<Rightarrow> if pool_type p = ty then Some (pool_storage p) else None)"

definition set_pool :: "'t component_traits \<Rightarrow> 't \<Rightarrow> 'a storage \<Rightarrow> ('t, 'a) registry \<Rightarrow> ('t, 'a) registry" where
  "set_pool tr ty st r =
     (if map_of (pools r) (type_hash tr ty) = None
      then r\<lparr>pools := pools r @ [(type_hash tr ty, \<lparr>pool_type = ty, pool_storage = st\<rparr>)]\<rparr>
      else put_pool (type_hash tr ty) st r)"

lemma with_pool_eq:
  fixes r :: "('t, 'a) registry"
  shows "with_pool tr ty f r =
     (case pool_of tr ty r of None \<Rightarrow> Aborts
      | Some st \<Rightarrow> obind (f st) (\<lambda>(x, st1). Ret (x, set_pool tr ty st1 r)))"
proof (cases "map_of (pools r) (type_hash tr ty)")
  case None
  let ?h = "type_hash tr ty"
  have "(if k = ?h then q\<lparr>pool_storage := st\<rparr> else q) = q" if "(k, q) \<in> set (pools r)" for k q and st :: "'a storage"
    using None that by (force simp: map_of_eq_None_iff)
  then have "map (\<lambda>(k, p). (k, if k = ?h then p\<lparr>pool_storage := st\<rparr> else p)) (pools r) = pools r" for st :: "'a storage"
    by (intro map_idI) auto
  then have "put_pool ?h st (r\<lparr>pools := pools r @ [(?h, p)]\<rparr>) = r\<lparr>pools := pools r @ [(?h, p\<lparr>pool_storage := st\<rparr>)]\<rparr>" for st p
    by (simp add: put_pool_def)
  then show ?thesis using None by (simp add: with_pool_def assure_def pool_of_def set_pool_def Let_def)
next
  case (Some p)
  then show ?thesis by (simp add: with_pool_def assure_def pool_of_def set_pool_def)
qed

lemma map_of_put: "map_of (map (\<lambda>(k, p). (k, if k = h then g p else p)) ps) k =
    (if k = h then map_option g (map_of ps h) else map_of ps k)"
  by (induction ps) auto

lemma set_pool_map:
  "pool_of tr ty r = Some st \<Longrightarrow> map_of (pools (set_pool tr ty st1 r)) k =
     (if k = type_hash tr ty then Some \<lparr>pool_type = ty, pool_storage = st1\<rparr> else map_of (pools r) k)"
  by (auto simp: set_pool_def put_pool_def pool_of_def map_of_put map_add_def split: option.splits if_splits)

lemma set_pool_keys: "pool_of tr ty r = Some st \<Longrightarrow> distinct (map fst (pools r)) \<Longrightarrow> distinct (map fst (pools (set_pool tr ty st1 r)))"
  by (auto simp: set_pool_def put_pool_def map_of_eq_None_iff comp_def case_prod_beta)

lemma set_pool_ok:
  assumes "reg_ok tr r" "pool_of tr ty r = Some st" "st_ok st1"
  shows "reg_ok tr (set_pool tr ty st1 r)" "entities (set_pool tr ty st1 r) = entities r"
    "held (set_pool tr ty st1 r) h = (if h = type_hash tr ty then comps st1 else held r h)"
proof -
  show ent: "entities (set_pool tr ty st1 r) = entities r" by (simp add: set_pool_def put_pool_def)
  show "held (set_pool tr ty st1 r) h = (if h = type_hash tr ty then comps st1 else held r h)"
    by (simp add: held_def set_pool_map [OF assms(2)])
  have d: "distinct (map fst (pools (set_pool tr ty st1 r)))" by (rule set_pool_keys [OF assms(2) reg_okD(2) [OF assms(1)]])
  have "h = type_hash tr (pool_type p) \<and> st_ok (pool_storage p)" if "(h, p) \<in> set (pools (set_pool tr ty st1 r))" for h p
  proof -
    have "map_of (pools (set_pool tr ty st1 r)) h = Some p" using map_of_is_SomeI [OF d that] .
    then show ?thesis using assms(3) reg_okD(3) [OF assms(1)] by (auto simp: set_pool_map [OF assms(2)] split: if_splits)
  qed
  then show "reg_ok tr (set_pool tr ty st1 r)" using d reg_okD(1) [OF assms(1)] by (auto simp: reg_ok_def ent)
qed

lemma pool_of_ok:
  assumes "reg_ok tr r" "pool_of tr ty r = Some st"
  shows "st_ok st" "comps st = held r (type_hash tr ty)"
  using assms reg_okD(3) [OF assms(1)] st_new_ok by (auto simp: pool_of_def held_def split: option.splits if_splits)

lemma pool_of_inj: "reg_ok tr r \<Longrightarrow> inj (type_hash tr) \<Longrightarrow> \<exists>st. pool_of tr ty r = Some st"
  using reg_okD(3) by (fastforce simp: pool_of_def dest: injD split: option.splits)

text \<open>A call through a pool keeps the invariant when it keeps that of the storage.\<close>

lemma with_pool_inv:
  assumes inv: "reg_inv tr r" and call: "with_pool tr ty f r = Ret (x, r')"
    and f: "\<And>st st1 y. st_ok st \<Longrightarrow> dom (comps st) \<subseteq> in_use (entities r) \<Longrightarrow> f st = Ret (y, st1) \<Longrightarrow>
      st_ok st1 \<and> dom (comps st1) \<subseteq> in_use (entities r)"
  shows "reg_inv tr r' \<and> entities r' = entities r"
proof -
  obtain st st1 where st: "pool_of tr ty r = Some st" "f st = Ret (x, st1)" "r' = set_pool tr ty st1 r"
    using call by (auto simp: with_pool_eq obind_eq_Ret_iff split: option.splits)
  have "st_ok st" "dom (comps st) \<subseteq> in_use (entities r)"
    using pool_of_ok [OF _ st(1)] inv by (auto simp: linked_def)
  from f [OF this st(2)] have st1: "st_ok st1" "dom (comps st1) \<subseteq> in_use (entities r)" by simp_all
  note S = set_pool_ok [OF conjunct1 [OF inv] st(1) st1(1)]
  have "linked r'" using inv st1(2) by (auto simp: linked_def st(3) S(2,3))
  then show ?thesis using S(1,2) by (simp add: st(3))
qed

section \<open>Destroying\<close>

text \<open>What a visit does to one pool: it changes the map of its storage.\<close>

definition visited ::
    "((entity \<Rightarrow> 'a option) \<Rightarrow> entity \<Rightarrow> 'a option) \<Rightarrow> 32 word \<times> ('t, 'a) pool \<Rightarrow> 32 word \<times> ('t, 'a) pool \<Rightarrow> bool" where
  "visited g q q' \<longleftrightarrow> fst q' = fst q \<and> pool_type (snd q') = pool_type (snd q) \<and> st_ok (pool_storage (snd q')) \<and>
     comps (pool_storage (snd q')) = g (comps (pool_storage (snd q)))"

lemma visit_pools_spec:
  assumes f: "\<And>st. st_ok st \<Longrightarrow> \<exists>st'. f st = Ret st' \<and> st_ok st' \<and> comps st' = g (comps st)"
    and "\<forall>(h, p) \<in> set (pools r). st_ok (pool_storage p)" "n \<le> length (pools r)"
  shows "\<exists>ps. list_all2 (visited g) (take n (pools r)) ps \<and> visit_pools f n r = Ret (r\<lparr>pools := ps @ drop n (pools r)\<rparr>)"
  using assms(2,3)
proof (induction n arbitrary: r)
  case (Suc n)
  obtain h p where q: "pools r ! n = (h, p)" by fastforce
  have n: "n < length (pools r)" using Suc.prems(2) by simp
  have "st_ok (pool_storage p)" using Suc.prems(1) nth_mem [OF n] q by auto
  then obtain st where st: "f (pool_storage p) = Ret st" "st_ok st" "comps st = g (comps (pool_storage p))" using f by blast
  let ?q = "(h, p\<lparr>pool_storage := st\<rparr>)" let ?r = "r\<lparr>pools := (pools r)[n := ?q]\<rparr>"
  have "\<forall>(h, p) \<in> set (pools ?r). st_ok (pool_storage p)"
    using Suc.prems(1) st(2) by (auto dest!: set_update_subset_insert [THEN subsetD])
  from Suc.IH [OF this] n obtain ps where ps: "list_all2 (visited g) (take n (pools r)) ps"
    "visit_pools f n ?r = Ret (?r\<lparr>pools := ps @ drop n (pools ?r)\<rparr>)" by auto
  have "visited g (h, p) ?q" using st(2,3) by (simp add: visited_def)
  then have "list_all2 (visited g) (take (Suc n) (pools r)) (ps @ [?q])"
    using ps(1) n q by (simp add: take_Suc_conv_app_nth list_all2_appendI)
  moreover have "drop n ((pools r)[n := ?q]) = ?q # drop (Suc n) (pools r)"
    using n by (simp add: drop_update_swap Cons_nth_drop_Suc [symmetric] list_update_append)
  ultimately show ?case using ps(2) st(1) n q by (intro exI [of _ "ps @ [?q]"]) simp
qed simp

lemma visited_map:
  "list_all2 (visited g) qs ps \<Longrightarrow>
     map fst ps = map fst qs \<and>
     (map_of qs h = None \<longleftrightarrow> map_of ps h = None) \<and>
     (\<forall>p. map_of qs h = Some p \<longrightarrow> (\<exists>p'. map_of ps h = Some p' \<and> visited g (h, p) (h, p')))"
  by (induction rule: list_all2_induct) (auto simp: visited_def)

lemma visited_pools:
  assumes "reg_ok tr r" "list_all2 (visited g) (pools r) ps" "g Map.empty = Map.empty"
  shows "reg_ok tr (r\<lparr>pools := ps\<rparr>)" "held (r\<lparr>pools := ps\<rparr>) h = g (held r h)"
proof -
  note m = visited_map [OF assms(2)]
  show "held (r\<lparr>pools := ps\<rparr>) h = g (held r h)"
    using m [of h] assms(3) by (cases "map_of (pools r) h") (auto simp: held_def visited_def)
  have "h = type_hash tr (pool_type p) \<and> st_ok (pool_storage p)" if "(h, p) \<in> set ps" for h p
  proof -
    obtain k where "k < length ps" "ps ! k = (h, p)" using \<open>(h, p) \<in> set ps\<close> unfolding in_set_conv_nth by blast
    then have q: "pools r ! k \<in> set (pools r)" "visited g (pools r ! k) (h, p)"
      using list_all2_nthD2 [OF assms(2), of k] list_all2_lengthD [OF assms(2)] by simp_all
    moreover obtain k' p' where "pools r ! k = (k', p')" by fastforce
    ultimately show ?thesis using assms(1) by (auto simp: visited_def reg_ok_def)
  qed
  then show "reg_ok tr (r\<lparr>pools := ps\<rparr>)" using assms(1) m [of 0] by (auto simp: reg_ok_def)
qed

text \<open>A visit of all pools.\<close>

lemma visit_all:
  assumes "reg_ok tr r" "\<And>st. st_ok st \<Longrightarrow> \<exists>st'. f st = Ret st' \<and> st_ok st' \<and> comps st' = g (comps st)" "g Map.empty = Map.empty"
  obtains r1 where "visit_pools f (length (pools r)) r = Ret r1" "reg_ok tr r1" "entities r1 = entities r"
    "\<And>h. held r1 h = g (held r h)"
proof -
  from visit_pools_spec [of f g, OF assms(2), of r "length (pools r)"] assms(1) obtain ps where
    ps: "list_all2 (visited g) (pools r) ps" "visit_pools f (length (pools r)) r = Ret (r\<lparr>pools := ps\<rparr>)"
    by (auto simp: reg_ok_def)
  show thesis by (rule that [OF ps(2) visited_pools(1) [OF assms(1) ps(1) assms(3)] _ visited_pools(2) [OF assms(1) ps(1) assms(3)]]) simp
qed

lemma reg_destroy_spec:
  fixes r :: "('t, 'b) registry"
  assumes ok: "reg_ok tr r"
  shows "if e \<in> in_use (entities r) \<union> spare (entities r)
    then \<exists>r'. reg_destroy e r = Ret (to_version (next_version e), r') \<and> reg_ok tr r' \<and>
      (\<forall>h. held r' h = (held r h)(e := None)) \<and> in_use (entities r') = in_use (entities r) - {e} \<and>
      spare (entities r') = insert (next_version e) (spare (entities r) - {e})
    else reg_destroy e r = Aborts"
proof -
  obtain r1 where r1: "remove_from_pools e r = Ret r1" "reg_ok tr r1" "entities r1 = entities r"
    "\<And>h. held r1 h = (held r h)(e := None)"
  proof (rule visit_all [OF ok, of "\<lambda>st. obind (st_remove e st) (\<lambda>(b, st1). Ret st1)" "\<lambda>m. m(e := None)"])
    show "\<exists>st'. obind (st_remove e st) (\<lambda>(b, st1). Ret st1) = Ret st' \<and> st_ok st' \<and> comps st' = (comps st)(e := None)"
      if "st_ok st" for st :: "'b storage" using remove_spec [OF that, of e] by auto
  qed (auto intro: that simp: remove_from_pools_def)
  have es: "es_ok (entities r)" by (rule reg_okD(1) [OF ok])
  have call: "reg_destroy e r = obind (es_call (Destroy e) (entities r)) (\<lambda>(d, s). Ret (to_version d, r1\<lparr>entities := s\<rparr>))"
  proof -
    have v: "to_version (construct (to_entity e) v) = v" if "v AND mask 12 = v" for v
      using that by (simp add: to_version_construct)
    have "v AND mask 12 = v" if "current_version s e = Ret v" for s v
    proof -
      have "\<exists>d. v = to_version d" using that
        by (auto simp: current_version_def obind_eq_Ret_iff split: option.splits) 
      then obtain d where "v = to_version d" ..
      then show ?thesis by (intro bit_eqI) (auto simp: bit_to_version bit_and_iff bit_mask_iff)
    qed
    then show ?thesis using v by (simp add: reg_destroy_def r1(1,3) obind_assoc case_prod_beta cong: obind_cong)
  qed
  show ?thesis
  proof (cases "e \<in> in_use (entities r) \<union> spare (entities r)")
    case True
    have "\<exists>d S. allocates (ids (entities r)) (Destroy e) d S" unfolding ids_def using allocates.Retire [OF True] by blast
    then obtain d s where d: "es_call (Destroy e) (entities r) = Ret (d, s)" "es_ok s" "allocates (ids (entities r)) (Destroy e) d (ids s)"
      using destroy_simulated [OF es, of e] by blast
    then have "d = next_version e" "in_use s = in_use (entities r) - {e}" "spare s = insert (next_version e) (spare (entities r) - {e})"
      unfolding ids_def by (auto elim: allocates_Destroy)
    then show ?thesis using True d(1,2) call r1(2,4) reg_ok_entities(1) [of tr r1 s] reg_ok_entities(2) [of s r1] by auto
  next
    case False
    then have "\<nexists>d S. allocates (ids (entities r)) (Destroy e) d S" by (auto simp: ids_def elim: allocates_Destroy)
    then have "es_call (Destroy e) (entities r) = Aborts" using destroy_simulated [OF es, of e] by blast
    then show ?thesis using False call by simp
  qed
qed

lemma destroy_version_inv:
  assumes inv: "reg_inv tr r" and call: "destroy_version e v r = Ret (v', r')"
  shows "reg_inv tr r' \<and> e \<notin> in_use (entities r')"
proof -
  obtain u r1 where r1: "reg_destroy e r = Ret (u, r1)"
    using call by (auto simp: destroy_version_def obind_eq_Ret_iff)
  have mem: "e \<in> in_use (entities r) \<union> spare (entities r)"
    using reg_destroy_spec [OF conjunct1 [OF inv], of e] r1 by (auto split: if_splits)
  then have D: "reg_ok tr r1" "\<And>h. held r1 h = (held r h)(e := None)" "in_use (entities r1) = in_use (entities r) - {e}"
    "spare (entities r1) = insert (next_version e) (spare (entities r) - {e})"
    using reg_destroy_spec [OF conjunct1 [OF inv], of e] r1 by auto
  let ?x = "construct (to_entity e) v"
  let ?y = "if is_tombstone ?x then next_version ?x else ?x"
  have y: "to_entity ?y = to_entity (next_version e)" "\<not> is_tombstone ?y" using next_not_tombstone [of ?x] by simp_all
  obtain s where s: "bump ?y (entities r1) = Ret (to_version ?y, s)" "es_ok s" "in_use s = in_use (entities r1)"
    using bump_spare [OF reg_okD(1) [OF D(1)] _ y] D(4) by auto
  have "r' = r1\<lparr>entities := s\<rparr>" using call r1 s(1) by (simp add: destroy_version_def Let_def split: if_splits)
  moreover have "linked (r1\<lparr>entities := s\<rparr>)"
    by (rule linkedI) (use inv D(2,3) s(3) in \<open>auto simp: reg_ok_entities split: if_splits dest: linkedD\<close>)
  ultimately show ?thesis using reg_ok_entities(1) [OF D(1) s(2)] D(3) s(3) by simp
qed

lemma reg_destroy_inv:
  assumes inv: "reg_inv tr r" and call: "reg_destroy e r = Ret (v, r')"
  shows "reg_inv tr r' \<and> e \<notin> in_use (entities r')"
proof -
  have mem: "e \<in> in_use (entities r) \<union> spare (entities r)"
    using reg_destroy_spec [OF conjunct1 [OF inv], of e] call by (auto split: if_splits)
  then have D: "reg_ok tr r'" "\<And>h. held r' h = (held r h)(e := None)" "in_use (entities r') = in_use (entities r) - {e}"
    using reg_destroy_spec [OF conjunct1 [OF inv], of e] call by auto
  moreover have "linked r'"
    by (rule linkedI) (use inv D(2,3) in \<open>auto split: if_splits dest: linkedD\<close>)
  ultimately show ?thesis by simp
qed

section \<open>Creating\<close>

lemma create_inv:
  assumes inv: "reg_inv tr r" and step: "es_ok s" "in_use (entities r) \<subseteq> in_use s"
  shows "reg_inv tr (r\<lparr>entities := s\<rparr>)"
  using reg_ok_entities(1) [OF conjunct1 [OF inv] step(1)] inv step(2) by (auto simp: linked_def reg_ok_entities)

lemma es_emplace_grows:
  assumes "es_ok s" "es_emplace s = Ret (e, s')"
  shows "es_ok s' \<and> in_use s' = insert e (in_use s)"
  using create_simulated [OF assms(1)] assms(2) by (auto simp: ids_def elim: allocates_Create)

lemma es_emplace_hint_grows:
  assumes "es_ok s" "es_emplace_hint h s = Ret (e, s')"
  shows "es_ok s' \<and> in_use s' = insert e (in_use s)"
  using hint_simulated [OF assms(1), of h] assms(2) by (auto simp: ids_def elim!: allocates_hint elim: allocates_Create)

lemma create_many_grows:
  "es_ok s \<Longrightarrow> create_many n s = Ret (es, s') \<Longrightarrow> es_ok s' \<and> in_use s' = set es \<union> in_use s"
proof (induction n arbitrary: s es)
  case (Suc n)
  then obtain e s1 es1 where s1: "es_emplace s = Ret (e, s1)" "create_many n s1 = Ret (es1, s')" "es = e # es1"
    by (auto simp: obind_eq_Ret_iff)
  with Suc.IH es_emplace_grows [OF Suc.prems(1) s1(1)] show ?case by auto
qed simp

section \<open>Giving components\<close>

lemma in_use_entity:
  "es_ok s \<Longrightarrow> e \<in> in_use s \<Longrightarrow> d \<in> in_use s \<Longrightarrow> to_entity d = to_entity e \<Longrightarrow> d = e"
  using swapping_same_entity [of s d e] by (simp add: es_ok_def)

text \<open>A pool of valid identifiers that lacks one of them has room for it.\<close>

lemma pool_room:
  assumes ok: "es_ok s" "st_ok st" "dom (comps st) \<subseteq> in_use s" and e: "e \<in> in_use s" "to_entity e \<notin> to_entity ` dom (comps st)"
    and all: "positions (base st) = {..<length (elements (base st))}"
  shows "length (elements (base st)) < 2 ^ 20 - 1"
proof -
  let ?n = "length (elements (base st))" let ?D = "dom (comps st)"
  have D: "?D = set (elements (base st))" unfolding dom_comps [OF ok(2)] all by simp
  have "distinct (map to_entity (elements (base st)))"
    using base_ok_placed [OF st_okD(1) [OF ok(2)]] unfolding all full_iff by simp
  then have "card (to_entity ` ?D) = ?n" unfolding D using distinct_card [of "map to_entity (elements (base st))"] by simp
  moreover have "finite (to_entity ` ?D)" unfolding D by simp
  ultimately have "card (insert (to_entity e) (to_entity ` ?D)) = Suc ?n" using e(2) by simp
  moreover have "insert (to_entity e) (to_entity ` ?D) \<subseteq> of_nat ` {..<length (elements s)}"
    using ok(1,3) e(1) in_use_or_spare [of s] unfolding es_ok_def by blast
  then have "card (insert (to_entity e) (to_entity ` ?D)) \<le> card ((of_nat :: nat \<Rightarrow> 32 word) ` {..<length (elements s)})"
    by (intro card_mono) simp_all
  ultimately have "Suc ?n \<le> card ((of_nat :: nat \<Rightarrow> 32 word) ` {..<length (elements s)})" by simp
  also have "\<dots> \<le> length (elements s)" using card_image_le [of "{..<length (elements s)}" "of_nat :: nat \<Rightarrow> 32 word"] by simp
  also have "\<dots> < 2 ^ 20" using ok(1) unfolding es_ok_def swapping_def full_iff by simp
  finally show ?thesis by simp
qed

lemma emplace_valid:
  assumes ok: "es_ok s" "st_ok st" "dom (comps st) \<subseteq> in_use s" and e: "e \<in> in_use s"
  shows "if e \<in> dom (comps st) then st_emplace e x st = Aborts
    else \<exists>st'. st_emplace e x st = Ret (x \<noteq> None, st') \<and> st_ok st' \<and>
      comps st' = (case x of Some v \<Rightarrow> (comps st)(e \<mapsto> v) | None \<Rightarrow> comps st)"
proof -
  have nt: "\<not> is_tombstone e" using ok(1) e in_use_or_spare [of s] swappingD(4) [of s e] by (simp add: es_ok_def)
  have "to_entity e \<in> to_entity ` dom (comps st) \<longleftrightarrow> e \<in> dom (comps st)"
  proof
    assume "to_entity e \<in> to_entity ` dom (comps st)"
    then obtain d where "d \<in> dom (comps st)" "to_entity d = to_entity e" by (elim imageE) simp
    then show "e \<in> dom (comps st)" using in_use_entity [OF ok(1) e, of d] ok(3) by blast
  qed simp
  then have "if e \<in> dom (comps st) then st_emplace e x st = Aborts
    else \<exists>st'. st_emplace e x st = Ret (x \<noteq> None, st') \<and> st_ok st' \<and> mode (base st') = mode (base st) \<and>
      length (elements (base st')) \<le> length (elements (base st)) + 1 \<and>
      comps st' = (case x of Some v \<Rightarrow> (comps st)(e \<mapsto> v) | None \<Rightarrow> comps st)"
    using emplace_spec [OF ok(2) nt pool_room [OF ok e], of x] by simp
  then show ?thesis by (cases "e \<in> dom (comps st)") (simp only: if_True, simp only: if_False, blast)
qed

lemma emplace_inv:
  assumes inv: "reg_inv tr r" and e: "e \<in> in_use (entities r)"
    and st: "st_ok st" "dom (comps st) \<subseteq> in_use (entities r)" and call: "st_emplace e x st = Ret (b, st1)"
  shows "st_ok st1 \<and> dom (comps st1) \<subseteq> in_use (entities r)"
  using emplace_valid [OF reg_okD(1) st e, of tr x] inv call e st(2) by (auto split: if_splits option.splits)

lemma patch_inv:
  assumes st: "st_ok st" "dom (comps st) \<subseteq> L" and call: "st_patch e fs st = Ret (y, st1)"
  shows "st_ok st1 \<and> dom (comps st1) \<subseteq> L"
  using patch_spec [OF st(1), of e fs] st(2) call by (auto split: option.splits)

lemma remove_inv:
  assumes st: "st_ok st" "dom (comps st) \<subseteq> L" and call: "st_remove e st = Ret (b, st1)"
  shows "st_ok st1 \<and> dom (comps st1) \<subseteq> L"
  using remove_spec [OF st(1), of e] st(2) call by auto

lemma erase_inv:
  assumes st: "st_ok st" "dom (comps st) \<subseteq> L" and call: "st_erase e st = Ret st1"
  shows "st_ok st1 \<and> dom (comps st1) \<subseteq> L"
  using erase_spec [OF st(1), of e] st(2) call by (auto split: if_splits)

lemma clear_inv:
  assumes st: "st_ok st" "dom (comps st) \<subseteq> L" and call: "st_clear st = Ret st1"
  shows "st_ok st1 \<and> dom (comps st1) \<subseteq> L"
  using clear_spec [OF st(1)] call by auto

lemma reg_clear_spec:
  fixes r :: "('t, 'b) registry"
  assumes ok: "reg_ok tr r"
  shows "\<exists>r'. reg_clear r = Ret r' \<and> reg_ok tr r' \<and> in_use (entities r') = {} \<and> (\<forall>h. held r' h = Map.empty)"
proof -
  obtain r1 where r1: "visit_pools st_clear (length (pools r)) r = Ret r1" "reg_ok tr r1" "entities r1 = entities r"
    "\<And>h. held r1 h = Map.empty"
  proof (rule visit_all [OF ok, of st_clear "\<lambda>m. Map.empty"])
    show "\<exists>st'. st_clear st = Ret st' \<and> st_ok st' \<and> comps st' = Map.empty" if "st_ok st" for st :: "'b storage"
      using clear_spec [OF that] by blast
  qed (auto intro: that)
  have es: "es_ok (entities r1)" by (rule reg_okD(1) [OF r1(2)])
  then have "mode (entities r1) = Swap_only" by (simp add: es_ok_def swapping_def)
  then have "begin_live (entities r1) = free_list (entities r1)" by (simp add: begin_live_def free_list_def)
  with pop_in_use [OF es refl] obtain s where s: "pop (begin_live (entities r1)) 0 (entities r1) = Ret s" "es_ok s" "in_use s = {}"
    by auto
  then show ?thesis using r1(1,4) reg_ok_entities(1) [OF r1(2) s(2)] reg_ok_entities(2) [of s r1]
    by (auto simp: reg_clear_def)
qed

section \<open>Reachable registries\<close>

text \<open>A client that gives components to valid identifiers only.\<close>

inductive reaches :: "'t component_traits \<Rightarrow> ('t, 'a) registry \<Rightarrow> bool" for tr where
  New: "reaches tr reg_new"
| Create: "reaches tr r \<Longrightarrow> create r = Ret (e, r') \<Longrightarrow> reaches tr r'"
| Create_hint: "reaches tr r \<Longrightarrow> create_hint h r = Ret (e, r') \<Longrightarrow> reaches tr r'"
| Create_range: "reaches tr r \<Longrightarrow> create_range n r = Ret (es, r') \<Longrightarrow> reaches tr r'"
| Destroy: "reaches tr r \<Longrightarrow> reg_destroy e r = Ret (v, r') \<Longrightarrow> reaches tr r'"
| Destroy_version: "reaches tr r \<Longrightarrow> destroy_version e v r = Ret (v', r') \<Longrightarrow> reaches tr r'"
| Emplace: "reaches tr r \<Longrightarrow> valid e r = Ret True \<Longrightarrow> reg_emplace tr ty e x r = Ret (b, r') \<Longrightarrow> reaches tr r'"
| Emplace_or_replace: "reaches tr r \<Longrightarrow> valid e r = Ret True \<Longrightarrow> emplace_or_replace tr ty e y r = Ret (u, r') \<Longrightarrow> reaches tr r'"
| Get_or_emplace: "reaches tr r \<Longrightarrow> valid e r = Ret True \<Longrightarrow> get_or_emplace tr ty e y r = Ret (z, r') \<Longrightarrow> reaches tr r'"
| Patch: "reaches tr r \<Longrightarrow> reg_patch tr ty e fs r = Ret (z, r') \<Longrightarrow> reaches tr r'"
| Get: "reaches tr r \<Longrightarrow> reg_get tr ty e r = Ret (z, r') \<Longrightarrow> reaches tr r'"
| Remove: "reaches tr r \<Longrightarrow> reg_remove tr tys e r = Ret (n, r') \<Longrightarrow> reaches tr r'"
| Erase: "reaches tr r \<Longrightarrow> reg_erase tr tys e r = Ret r' \<Longrightarrow> reaches tr r'"
| Clear_types: "reaches tr r \<Longrightarrow> clear_types tr tys r = Ret r' \<Longrightarrow> reaches tr r'"
| Clear: "reaches tr r \<Longrightarrow> reg_clear r = Ret r' \<Longrightarrow> reaches tr r'"

lemma valid_spec: "reg_ok tr r \<Longrightarrow> valid e r = Ret (e \<in> in_use (entities r))"
  using reg_okD(1) [of tr r] entity_valid_spec by (simp add: valid_def es_ok_def)

lemma reg_remove_inv: "reg_inv tr r \<Longrightarrow> reg_remove tr tys e r = Ret (n, r') \<Longrightarrow> reg_inv tr r'"
proof (induction tys arbitrary: r n)
  case (Cons ty tys)
  then obtain b r1 k where r1: "with_pool tr ty (st_remove e) r = Ret (b, r1)" "reg_remove tr tys e r1 = Ret (k, r')"
    by (auto simp: obind_eq_Ret_iff)
  have "reg_inv tr r1" using with_pool_inv [OF Cons.prems(1) r1(1)] remove_inv by blast
  then show ?case using Cons.IH r1(2) by blast
qed simp

lemma reg_erase_inv: "reg_inv tr r \<Longrightarrow> reg_erase tr tys e r = Ret r' \<Longrightarrow> reg_inv tr r'"
proof (induction tys arbitrary: r)
  case (Cons ty tys)
  then obtain u r1 where r1: "with_pool tr ty (\<lambda>st. obind (st_erase e st) (\<lambda>st1. Ret ((), st1))) r = Ret (u, r1)"
    "reg_erase tr tys e r1 = Ret r'" by (auto simp: obind_eq_Ret_iff)
  have "reg_inv tr r1 \<and> entities r1 = entities r"
  proof (rule with_pool_inv [OF Cons.prems(1) r1(1)])
    fix st st1 and y :: unit
    assume st: "st_ok st" "dom (comps st) \<subseteq> in_use (entities r)"
      and c: "obind (st_erase e st) (\<lambda>st1. Ret ((), st1)) = Ret (y, st1)"
    from c have "st_erase e st = Ret st1" by (auto simp: obind_eq_Ret_iff)
    from erase_inv [OF st this] show "st_ok st1 \<and> dom (comps st1) \<subseteq> in_use (entities r)" .
  qed
  then show ?case using Cons.IH r1(2) by blast
qed simp

lemma clear_types_inv: "reg_inv tr r \<Longrightarrow> clear_types tr tys r = Ret r' \<Longrightarrow> reg_inv tr r'"
proof (induction tys arbitrary: r)
  case (Cons ty tys)
  then obtain u r1 where r1: "with_pool tr ty (\<lambda>st. obind (st_clear st) (\<lambda>st1. Ret ((), st1))) r = Ret (u, r1)"
    "clear_types tr tys r1 = Ret r'" by (auto simp: obind_eq_Ret_iff)
  have "reg_inv tr r1 \<and> entities r1 = entities r"
  proof (rule with_pool_inv [OF Cons.prems(1) r1(1)])
    fix st st1 and y :: unit
    assume st: "st_ok st" "dom (comps st) \<subseteq> in_use (entities r)"
      and c: "obind (st_clear st) (\<lambda>st1. Ret ((), st1)) = Ret (y, st1)"
    from c have "st_clear st = Ret st1" by (auto simp: obind_eq_Ret_iff)
    from clear_inv [OF st this] show "st_ok st1 \<and> dom (comps st1) \<subseteq> in_use (entities r)" .
  qed
  then show ?case using Cons.IH r1(2) by blast
qed simp

lemma emplace_or_replace_inv:
  assumes inv: "reg_inv tr r" and e: "e \<in> in_use (entities r)" and call: "emplace_or_replace tr ty e x r = Ret (u, r')"
  shows "reg_inv tr r'"
proof -
  have "reg_inv tr r' \<and> entities r' = entities r"
  proof (rule with_pool_inv [OF inv call [unfolded emplace_or_replace_def]])
    fix st st1 and y :: unit
    assume st: "st_ok st" "dom (comps st) \<subseteq> in_use (entities r)"
      and c: "obind (st_contains st e) (\<lambda>found. if found then obind (st_patch e [\<lambda>old. x] st) (\<lambda>(y, st1). Ret ((), st1))
        else obind (st_emplace e (Some x) st) (\<lambda>(b, st1). Ret ((), st1))) = Ret (y, st1)"
    from c have "(\<exists>y. st_patch e [\<lambda>old. x] st = Ret (y, st1)) \<or> (\<exists>b. st_emplace e (Some x) st = Ret (b, st1))"
      by (auto simp: obind_eq_Ret_iff split: if_splits)
    then show "st_ok st1 \<and> dom (comps st1) \<subseteq> in_use (entities r)"
      using emplace_inv [OF inv e st] patch_inv [OF st] by blast
  qed
  then show ?thesis by simp
qed

lemma get_or_emplace_inv:
  assumes inv: "reg_inv tr r" and e: "e \<in> in_use (entities r)" and call: "get_or_emplace tr ty e x r = Ret (z, r')"
  shows "reg_inv tr r'"
proof -
  have "reg_inv tr r' \<and> entities r' = entities r"
  proof (rule with_pool_inv [OF inv call [unfolded get_or_emplace_def]])
    fix st st1 y
    assume st: "st_ok st" "dom (comps st) \<subseteq> in_use (entities r)"
      and c: "obind (st_contains st e) (\<lambda>found. if found then obind (st_get e st) (\<lambda>y. Ret (y, st))
        else obind (st_emplace e (Some x) st) (\<lambda>(b, st1). Ret (x, st1))) = Ret (y, st1)"
    from c have "st1 = st \<or> (\<exists>b. st_emplace e (Some x) st = Ret (b, st1))"
      by (auto simp: obind_eq_Ret_iff split: if_splits)
    then show "st_ok st1 \<and> dom (comps st1) \<subseteq> in_use (entities r)"
      using st emplace_inv [OF inv e st] by blast
  qed
  then show ?thesis by simp
qed

lemma reaches_inv: "reaches tr r \<Longrightarrow> reg_inv tr r"
proof (induction rule: reaches.induct)
  case New
  show ?case by (rule reg_new_inv)
next
  case (Create r e r')
  obtain s where s: "es_emplace (entities r) = Ret (e, s)" "r' = r\<lparr>entities := s\<rparr>"
    using Create.hyps by (auto simp: create_def obind_eq_Ret_iff)
  show ?case unfolding s(2)
    by (rule create_inv [OF Create.IH]) (use es_emplace_grows [OF reg_okD(1) [OF conjunct1 [OF Create.IH]] s(1)] in auto)
next
  case (Create_hint r h e r')
  obtain s where s: "es_emplace_hint h (entities r) = Ret (e, s)" "r' = r\<lparr>entities := s\<rparr>"
    using Create_hint.hyps by (auto simp: create_hint_def obind_eq_Ret_iff)
  show ?case unfolding s(2)
    by (rule create_inv [OF Create_hint.IH]) (use es_emplace_hint_grows [OF reg_okD(1) [OF conjunct1 [OF Create_hint.IH]] s(1)] in auto)
next
  case (Create_range r n es r')
  note es = reg_okD(1) [OF conjunct1 [OF Create_range.IH]]
  obtain s where s: "create_many n (entities r) = Ret (es, s)" "r' = r\<lparr>entities := s\<rparr>"
    using Create_range.hyps by (auto simp: create_range_def obind_eq_Ret_iff es_insert_eq [OF es])
  show ?case unfolding s(2) by (rule create_inv [OF Create_range.IH]) (use create_many_grows [OF es s(1)] in auto)
next
  case (Emplace r e ty x b r')
  have "e \<in> in_use (entities r)" using Emplace.hyps valid_spec [OF conjunct1 [OF Emplace.IH]] by simp
  from with_pool_inv [OF Emplace.IH Emplace.hyps(3) [unfolded reg_emplace_def]] emplace_inv [OF Emplace.IH this]
  show ?case by blast
next
  case (Emplace_or_replace r e ty y u r')
  have "e \<in> in_use (entities r)" using Emplace_or_replace.hyps valid_spec [OF conjunct1 [OF Emplace_or_replace.IH]] by simp
  from emplace_or_replace_inv [OF Emplace_or_replace.IH this Emplace_or_replace.hyps(3)] show ?case .
next
  case (Get_or_emplace r e ty y z r')
  have "e \<in> in_use (entities r)" using Get_or_emplace.hyps valid_spec [OF conjunct1 [OF Get_or_emplace.IH]] by simp
  from get_or_emplace_inv [OF Get_or_emplace.IH this Get_or_emplace.hyps(3)] show ?case .
next
  case (Patch r ty e fs z r')
  from with_pool_inv [OF Patch.IH Patch.hyps(2) [unfolded reg_patch_def] patch_inv] show ?case by simp
next
  case (Get r ty e z r')
  from with_pool_inv [OF Get.IH Get.hyps(2) [unfolded reg_get_def]] show ?case by (auto simp: obind_eq_Ret_iff)
next
  case (Clear r r')
  then show ?case using reg_clear_spec [of tr r] by (auto simp: linked_def)
next
  case (Destroy r e v r')
  show ?case by (rule conjunct1 [OF reg_destroy_inv [OF Destroy.IH Destroy.hyps(2)]])
next
  case (Destroy_version r e v v' r')
  show ?case by (rule conjunct1 [OF destroy_version_inv [OF Destroy_version.IH Destroy_version.hyps(2)]])
next
  case (Remove r tys e n r')
  show ?case by (rule reg_remove_inv [OF Remove.IH Remove.hyps(2)])
next
  case (Erase r tys e r')
  show ?case by (rule reg_erase_inv [OF Erase.IH Erase.hyps(2)])
next
  case (Clear_types r tys r')
  show ?case by (rule clear_types_inv [OF Clear_types.IH Clear_types.hyps(2)])
qed

section \<open>What a client sees\<close>

text \<open>\<open>try_get\<close> answers what the pool of the type holds, when type hashes do not collide.\<close>

lemma try_get_spec:
  assumes ok: "reg_ok tr r" and inj: "inj (type_hash tr)"
  shows "try_get tr ty e r = Ret (held r (type_hash tr ty) e)"
proof (cases "map_of (pools r) (type_hash tr ty)")
  case None
  then show ?thesis by (simp add: try_get_def assure_const_def held_def)
next
  case (Some p)
  note p = reg_okD(3) [OF ok Some]
  then have "pool_type p = ty" using inj by (simp add: inj_eq)
  then show ?thesis using p Some
    by (auto simp: try_get_def assure_const_def held_def st_contains_spec st_get_spec split: option.splits)
qed

lemma reaches_okD: "reaches tr r \<Longrightarrow> reg_ok tr r" "reaches tr r \<Longrightarrow> linked r"
  using reaches_inv by blast+

lemma reaches_first:
  obtains r where "reaches tr r" "create reg_new = Ret (first_version 0, r)" "in_use (entities r) = {first_version 0}"
    "\<forall>h. held r h = Map.empty"
proof -
  obtain s where s: "es_run [Create] es_new = Ret ([first_version 0], s)" "ids s = ({first_version 0}, {})" by (rule first_create)
  then have e: "create reg_new = Ret (first_version 0, reg_new\<lparr>entities := s\<rparr>)"
    by (auto simp: create_def reg_new_def obind_eq_Ret_iff)
  then show thesis using that [OF reaches.Create [OF reaches.New e] e] s(2) by (simp add: ids_def held_def reg_new_def)
qed

lemma reg_emplace_spec:
  assumes ok: "reg_ok tr r" "linked r" and inj: "inj (type_hash tr)" and e: "e \<in> in_use (entities r)"
  shows "if held r (type_hash tr ty) e = None
    then \<exists>r'. reg_emplace tr ty e (Some x) r = Ret (True, r') \<and> reg_ok tr r' \<and> entities r' = entities r \<and>
      (\<forall>h. held r' h = (if h = type_hash tr ty then (held r h)(e \<mapsto> x) else held r h))
    else reg_emplace tr ty e (Some x) r = Aborts"
proof -
  obtain st where st: "pool_of tr ty r = Some st" using pool_of_inj [OF ok(1) inj] by blast
  note p = pool_of_ok [OF ok(1) st]
  have d: "dom (comps st) \<subseteq> in_use (entities r)" unfolding p(2) using ok(2) by (simp add: linked_def)
  note E = emplace_valid [OF reg_okD(1) [OF ok(1)] p(1) d e, of "Some x"]
  show ?thesis
  proof (cases "e \<in> dom (comps st)")
    case True
    then show ?thesis using E st p(2) by (auto simp: reg_emplace_def with_pool_eq)
  next
    case False
    with E obtain st' where st': "st_emplace e (Some x) st = Ret (True, st')" "st_ok st'" "comps st' = (comps st)(e \<mapsto> x)" by auto
    then have call: "reg_emplace tr ty e (Some x) r = Ret (True, set_pool tr ty st' r)"
      using st by (simp add: reg_emplace_def with_pool_eq)
    moreover have "held r (type_hash tr ty) e = None" using False p(2) by auto
    ultimately show ?thesis using set_pool_ok [OF ok(1) st st'(2)] st'(3) p(2) by auto
  qed
qed

text \<open>Two types, the second with in-place deletion, and a first component.\<close>

abbreviation two_types :: "bool component_traits" where
  "two_types \<equiv> \<lparr>type_hash = \<lambda>b. if b then 1 else 2, in_place_delete = \<lambda>b. b\<rparr>"

lemma two_types_inj: "inj (type_hash two_types)"
  by (simp add: inj_def)

lemma reaches_component:
  obtains r r' where "reaches two_types r" "create reg_new = Ret (first_version 0, r)" "in_use (entities r) = {first_version 0}"
    "\<forall>h. held r h = Map.empty" "reg_emplace two_types True (first_version 0) (Some x) r = Ret (True, r')" "reaches two_types r'"
    "held r' 1 (first_version 0) = Some x" "in_use (entities r') = {first_version 0}"
proof -
  obtain r :: "(bool, 'a) registry" where r: "reaches two_types r" "create reg_new = Ret (first_version 0, r)"
    "in_use (entities r) = {first_version 0}" "\<forall>h. held r h = Map.empty" by (rule reaches_first [of two_types])
  note ok = reaches_okD [OF r(1)]
  obtain r' where r': "reg_emplace two_types True (first_version 0) (Some x) r = Ret (True, r')" "entities r' = entities r"
    "held r' 1 (first_version 0) = Some x"
    using reg_emplace_spec [OF ok two_types_inj, of "first_version 0" True x] r(3,4) by auto
  have "reaches two_types r'" by (rule reaches.Emplace [OF r(1) _ r'(1)]) (simp add: valid_spec [OF ok(1)] r(3))
  with that r r' show thesis by simp
qed

section \<open>Properties\<close>

text \<open>
  C4. Nothing outlives its identifier: in a registry reached by creating and destroying
  identifiers and by giving components to valid ones, every component that the registry holds
  belongs to a valid identifier.
\<close>

theorem registry_has_no_dangling_components:
  assumes "reaches tr r" "inj (type_hash tr)" "try_get tr ty e r = Ret (Some x)"
  shows "valid e r = Ret True"
  using assms(3) linkedD [OF reaches_okD(2) [OF assms(1)]] reaches_okD(1) [OF assms(1)] assms(2)
  by (simp add: try_get_spec valid_spec)

theorem registry_has_no_dangling_components_witness:
  "\<exists>r r'. create reg_new = Ret (first_version 0, r) \<and>
     reg_emplace two_types True (first_version 0) (Some ''pos'') r = Ret (True, r') \<and>
     try_get two_types True (first_version 0) r' = Ret (Some ''pos'') \<and> valid (first_version 0) r' = Ret True"
proof (rule reaches_component [of "''pos''"])
  fix r r' :: "(bool, string) registry"
  assume r: "create reg_new = Ret (first_version 0, r)" "reg_emplace two_types True (first_version 0) (Some ''pos'') r = Ret (True, r')"
    "reaches two_types r'" "held r' 1 (first_version 0) = Some ''pos''"
  have t: "try_get two_types True (first_version 0) r' = Ret (Some ''pos'')"
    using r(4) by (simp add: try_get_spec [OF reaches_okD(1) [OF r(3)] two_types_inj])
  from registry_has_no_dangling_components [OF r(3) two_types_inj t] t r(1,2) show ?thesis by blast
qed

text \<open>
  C7. Destroying an identifier takes it out of the registry and out of every pool, and touches
  nothing else; the answer is the version its entity will have next. It is refused, by a failed
  assertion, only for identifiers that are not valid.
\<close>

theorem destroy_forgets_the_entity:
  assumes "reaches tr r" "inj (type_hash tr)"
  shows "reg_destroy e r = Aborts \<and> valid e r = Ret False \<or>
    (\<exists>r'. reg_destroy e r = Ret (to_version (next_version e), r') \<and>
       (\<forall>d. valid d r' = (if d = e then Ret False else valid d r)) \<and>
       (\<forall>ty d. try_get tr ty d r' = (if d = e then Ret None else try_get tr ty d r)))"
proof (cases "e \<in> in_use (entities r) \<union> spare (entities r)")
  case True
  note ok = reaches_okD(1) [OF assms(1)]
  from reg_destroy_spec [OF ok, of e] True obtain r' where r':
    "reg_destroy e r = Ret (to_version (next_version e), r')" "reg_ok tr r'"
    "\<And>h. held r' h = (held r h)(e := None)" "in_use (entities r') = in_use (entities r) - {e}" by auto
  then show ?thesis using ok assms(2) by (auto simp: try_get_spec valid_spec)
next
  case False
  then show ?thesis using reg_destroy_spec [OF reaches_okD(1) [OF assms(1)], of e] reaches_okD(1) [OF assms(1)]
    by (simp add: valid_spec)
qed

theorem destroy_forgets_the_entity_witness:
  "\<exists>r r' r'' v. create reg_new = Ret (first_version 0, r) \<and>
     reg_emplace two_types True (first_version 0) (Some ''pos'') r = Ret (True, r') \<and> reg_destroy (first_version 0) r' = Ret (v, r'') \<and>
     valid (first_version 0) r'' = Ret False \<and> try_get two_types True (first_version 0) r'' = Ret None"
proof (rule reaches_component [of "''pos''"])
  fix r r' :: "(bool, string) registry"
  assume r: "create reg_new = Ret (first_version 0, r)" "reg_emplace two_types True (first_version 0) (Some ''pos'') r = Ret (True, r')"
    "reaches two_types r'" "in_use (entities r') = {first_version 0}"
  have "valid (first_version 0) r' = Ret True" using r(4) by (simp add: valid_spec [OF reaches_okD(1) [OF r(3)]])
  with destroy_forgets_the_entity [OF r(3) two_types_inj, of "first_version 0"] r(1,2) show ?thesis by auto
qed

text \<open>
  C8. A valid identifier can always be given a component it does not have, whatever else the
  registry holds: the call returns, the component is there afterwards and nothing else changed.
  A second component of the same type fails an assertion.
\<close>

theorem valid_identifiers_take_components:
  assumes "reaches tr r" "inj (type_hash tr)" "valid e r = Ret True"
  shows "if try_get tr ty e r = Ret None
    then \<exists>r'. reg_emplace tr ty e (Some x) r = Ret (True, r') \<and> (\<forall>d. valid d r' = valid d r) \<and>
      (\<forall>ty' d. try_get tr ty' d r' = (if ty' = ty \<and> d = e then Ret (Some x) else try_get tr ty' d r))
    else reg_emplace tr ty e (Some x) r = Aborts"
proof -
  note ok = reaches_okD [OF assms(1)]
  have "e \<in> in_use (entities r)" using assms(3) ok(1) by (simp add: valid_spec)
  from reg_emplace_spec [OF ok assms(2) this, of ty x] ok assms(2) show ?thesis
    by (auto simp: try_get_spec valid_spec inj_eq)
qed

theorem valid_identifiers_take_components_witness:
  "\<exists>r r'. create reg_new = Ret (first_version 0, r) \<and>
     reg_emplace two_types True (first_version 0) (Some ''pos'') r = Ret (True, r') \<and>
     try_get two_types True (first_version 0) r' = Ret (Some ''pos'')"
proof (rule reaches_component [of "''pos''"])
  fix r r' :: "(bool, string) registry"
  assume r: "reaches two_types r" "create reg_new = Ret (first_version 0, r)" "in_use (entities r) = {first_version 0}"
    "\<forall>h. held r h = Map.empty"
  note ok = reaches_okD(1) [OF r(1)]
  have v: "valid (first_version 0) r = Ret True" "try_get two_types True (first_version 0) r = Ret None"
    using r(3,4) ok two_types_inj by (simp_all add: valid_spec try_get_spec)
  with valid_identifiers_take_components [OF r(1) two_types_inj v(1), of True "''pos''"] r(2) show ?thesis by auto
qed

end
