(* ===== verification/ViewCorrect.thy ===== *)
theory ViewCorrect
  imports View RegistryCorrect
begin

text \<open>
  A view shows the identifiers that all its storages have and no excluded one has, each once,
  from the last of the leading storage to the first, whichever storage leads. Its function
  \<open>each\<close> calls back once for every index that leads, which is more than once for a view packed
  of two that share a storage.
\<close>

section \<open>Loops\<close>

lemma seek_spec:
  assumes "\<And>i. i < n \<Longrightarrow> ok (Suc i) = Ret (P i)"
  shows "obind (seek ok n) f = (case rev (filter P [0..<n]) of [] \<Rightarrow> f 0 | i # ks \<Rightarrow> f (Suc i))"
  using assms by (induction n) auto

lemma walk_spec:
  assumes "\<And>i. i < n \<Longrightarrow> ok (Suc i) = Ret (P i)" "\<And>i. i < n \<Longrightarrow> P i \<Longrightarrow> out (Suc i) = Ret (g i)"
  shows "obind (seek ok n) (walk ok out) = Ret (map g (rev (filter P [0..<n])))"
  using assms
proof (induction n)
  case (Suc n)
  then show ?case by (cases "P n") (simp_all add: obind_assoc [symmetric])
qed simp

lemma otraverse_spec: "(\<And>x. x \<in> set xs \<Longrightarrow> f x = Ret (g x)) \<Longrightarrow> otraverse f xs = Ret (map g xs)"
  by (induction xs) auto

lemma map_filter_upt: "map ((!) xs) (filter (\<lambda>i. P (xs ! i)) [0..<length xs]) = filter P xs"
proof -
  have "filter P (map ((!) xs) [0..<length xs]) = map ((!) xs) (filter (P \<circ> (!) xs) [0..<length xs])" by (rule filter_map)
  then show ?thesis by (simp add: map_nth comp_def)
qed

section \<open>What a storage has\<close>

abbreviation has :: "sparse_set \<Rightarrow> entity set" where
  "has b \<equiv> members (positions b) b"

lemma contains_has: "base_ok b \<Longrightarrow> contains b e = Ret (e \<in> has b)"
  by (rule contains_spec [OF base_ok_placed])

lemma has_distinct:
  assumes "base_ok b" "\<And>e. P e \<Longrightarrow> e \<in> has b" "\<And>e. P e \<Longrightarrow> \<not> is_tombstone e"
  shows "distinct (filter P (elements b))"
proof -
  have pos: "i \<in> positions b" if "i < length (elements b)" "P (elements b ! i)" for i
    using that assms(3) by (simp add: positions_def)
  have "inj_on ((!) (elements b)) (set (filter (\<lambda>i. P (elements b ! i)) [0..<length (elements b)]))"
  proof (rule inj_onI)
    fix i j
    assume i: "i \<in> set (filter (\<lambda>i. P (elements b ! i)) [0..<length (elements b)])"
      and j: "j \<in> set (filter (\<lambda>i. P (elements b ! i)) [0..<length (elements b)])" and "elements b ! i = elements b ! j"
    then show "i = j" using base_same_entity [OF assms(1) pos pos, of i j] by simp
  qed
  then have "distinct (map ((!) (elements b)) (filter (\<lambda>i. P (elements b ! i)) [0..<length (elements b)]))"
    by (simp add: distinct_map)
  then show ?thesis unfolding map_filter_upt .
qed

section \<open>What a view shows\<close>

definition wanted :: "(nat \<Rightarrow> sparse_set) \<Rightarrow> nat option list \<Rightarrow> nat option list \<Rightarrow> entity \<Rightarrow> bool" where
  "wanted h ps fs e \<longleftrightarrow> (\<forall>p. Some p \<in> set ps \<longrightarrow> e \<in> has (h p)) \<and> (\<forall>p. Some p \<in> set fs \<longrightarrow> e \<notin> has (h p))"

text \<open>Well-formed storages of proper identifiers, and a leading one among those of the view.\<close>

definition set_ok :: "sparse_set \<Rightarrow> bool" where
  "set_ok b \<longleftrightarrow> base_ok b \<and> (\<forall>e \<in> has b. \<not> is_tombstone e)"

definition view_ok :: "(nat \<Rightarrow> sparse_set) \<Rightarrow> view \<Rightarrow> bool" where
  "view_ok h v \<longleftrightarrow> (\<forall>p. Some p \<in> set (view_pools v) \<union> set (view_filter v) \<longrightarrow> set_ok (h p)) \<and>
     (leading v \<noteq> None \<longrightarrow> None \<notin> set (view_pools v) \<and> view_index v < length (view_pools v) \<and>
       leading v = view_pools v ! view_index v)"

lemma view_okD:
  assumes "view_ok h v"
  shows "Some p \<in> set (view_pools v) \<Longrightarrow> base_ok (h p)" "Some p \<in> set (view_filter v) \<Longrightarrow> base_ok (h p)"
    "leading v = Some p \<Longrightarrow> view_index v < length (view_pools v) \<and> view_pools v ! view_index v = Some p \<and> Some p \<in> set (view_pools v)"
    "leading v = Some p \<Longrightarrow> None \<notin> set (view_pools v)"
    "Some p \<in> set (view_pools v) \<Longrightarrow> e \<in> has (h p) \<Longrightarrow> \<not> is_tombstone e"
  using assms nth_mem [of "view_index v" "view_pools v"] by (auto simp: view_ok_def set_ok_def)

lemma pool_at_spec:
  assumes "None \<notin> set ps" "k < length ps"
  shows "pool_at k ps = Ret (the (ps ! k)) \<and> Some (the (ps ! k)) \<in> set ps"
proof -
  have m: "ps ! k \<in> set ps" using assms(2) by (rule nth_mem)
  then obtain p where "ps ! k = Some p" using assms(1) by (metis option.exhaust)
  then show ?thesis using m assms(2) by (simp add: pool_at_def)
qed

lemma containing_spec:
  assumes "None \<notin> set ps" "\<And>p. Some p \<in> set ps \<Longrightarrow> base_ok (h p)" "pos \<le> stop" "stop \<le> length ps"
  shows "\<exists>k. containing h ps e stop pos = Ret k \<and> pos \<le> k \<and> k \<le> stop \<and>
    (k = stop \<longleftrightarrow> (\<forall>j. pos \<le> j \<and> j < stop \<longrightarrow> e \<in> has (h (the (ps ! j)))))"
  using assms(3)
proof (induction "stop - pos" arbitrary: pos)
  case 0
  then have "pos = stop" by simp
  then show ?case by (auto simp: containing.simps)
next
  case (Suc d)
  then have p: "pos < stop" by simp
  note at = pool_at_spec [OF assms(1), of pos]
  have c: "contains (h (the (ps ! pos))) e = Ret (e \<in> has (h (the (ps ! pos))))" using at assms(2,4) p by (intro contains_has) simp
  have step: "containing h ps e stop pos = (if e \<in> has (h (the (ps ! pos))) then containing h ps e stop (pos + 1) else Ret pos)"
    using p assms(4) at c by (subst containing.simps) simp
  show ?case
  proof (cases "e \<in> has (h (the (ps ! pos)))")
    case True
    have "d = stop - (pos + 1)" "pos + 1 \<le> stop" using Suc.hyps(2) p by simp_all
    from Suc.hyps(1) [OF this] obtain k where k: "containing h ps e stop (pos + 1) = Ret k" "pos + 1 \<le> k" "k \<le> stop"
      "k = stop \<longleftrightarrow> (\<forall>j. pos + 1 \<le> j \<and> j < stop \<longrightarrow> e \<in> has (h (the (ps ! j))))" by auto
    have "(\<forall>j. pos + 1 \<le> j \<and> j < stop \<longrightarrow> e \<in> has (h (the (ps ! j)))) \<longleftrightarrow> (\<forall>j. pos \<le> j \<and> j < stop \<longrightarrow> e \<in> has (h (the (ps ! j))))"
    proof (intro iffI allI impI)
      fix j assume A: "\<forall>j. pos + 1 \<le> j \<and> j < stop \<longrightarrow> e \<in> has (h (the (ps ! j)))" and j: "pos \<le> j \<and> j < stop"
      show "e \<in> has (h (the (ps ! j)))" by (cases "j = pos") (use A j True in auto)
    qed simp
    with k step True show ?thesis by (intro exI [of _ k]) simp
  next
    case False
    then show ?thesis using step p by (auto intro!: exI [of _ pos])
  qed
qed

lemma all_of_but_spec:
  assumes "None \<notin> set ps" "\<And>p. Some p \<in> set ps \<Longrightarrow> base_ok (h p)" "i < length ps"
  shows "all_of_but i h ps e = Ret (\<forall>j < length ps. j \<noteq> i \<longrightarrow> e \<in> has (h (the (ps ! j))))"
proof -
  obtain k where k: "containing h ps e i 0 = Ret k" "k \<le> i" "k = i \<longleftrightarrow> (\<forall>j < i. e \<in> has (h (the (ps ! j))))"
    using containing_spec [where ps = ps and h = h and pos = 0 and stop = i and e = e] assms by auto
  show ?thesis
  proof (cases "k = i")
    case True
    obtain m where m: "containing h ps e (length ps) (i + 1) = Ret m"
      "m = length ps \<longleftrightarrow> (\<forall>j. i + 1 \<le> j \<and> j < length ps \<longrightarrow> e \<in> has (h (the (ps ! j))))"
      using containing_spec [where ps = ps and h = h and pos = "i + 1" and stop = "length ps" and e = e] assms by auto
    have "m = length ps \<longleftrightarrow> (\<forall>j < length ps. j \<noteq> i \<longrightarrow> e \<in> has (h (the (ps ! j))))"
      unfolding m(2) using k(3) True by (metis Suc_eq_plus1 linorder_neqE_nat not_less_eq_eq not_less)
    then show ?thesis using k(1) m(1) True by (simp add: all_of_but_def)
  next
    case False
    then have "\<not> (\<forall>j < length ps. j \<noteq> i \<longrightarrow> e \<in> has (h (the (ps ! j))))" using k(3) assms(3) by (metis less_trans less_irrefl)
    moreover have "k \<noteq> length ps" using k(2) assms(3) by simp
    ultimately show ?thesis using k(1) False by (simp add: all_of_but_def)
  qed
qed

lemma none_of_spec:
  "(\<And>p. Some p \<in> set fs \<Longrightarrow> base_ok (h p)) \<Longrightarrow> none_of h fs e = Ret (\<forall>p. Some p \<in> set fs \<longrightarrow> e \<notin> has (h p))"
  by (induction fs) (auto simp: contains_has split: option.splits)

lemma others_have:
  fixes h :: "nat \<Rightarrow> sparse_set"
  assumes "None \<notin> set ps" "i < length ps" "e \<in> has (h (the (ps ! i)))"
  shows "(\<forall>j < length ps. j \<noteq> i \<longrightarrow> e \<in> has (h (the (ps ! j)))) \<longleftrightarrow> (\<forall>p. Some p \<in> set ps \<longrightarrow> e \<in> has (h p))"
proof
  assume L: "\<forall>j < length ps. j \<noteq> i \<longrightarrow> e \<in> has (h (the (ps ! j)))"
  show "\<forall>p. Some p \<in> set ps \<longrightarrow> e \<in> has (h p)"
  proof (intro allI impI)
    fix p assume "Some p \<in> set ps"
    then obtain j where j: "j < length ps" "ps ! j = Some p" unfolding in_set_conv_nth by blast
    then show "e \<in> has (h p)" using L assms(3) by (cases "j = i") auto
  qed
next
  assume "\<forall>p. Some p \<in> set ps \<longrightarrow> e \<in> has (h p)"
  then show "\<forall>j < length ps. j \<noteq> i \<longrightarrow> e \<in> has (h (the (ps ! j)))" using pool_at_spec [OF assms(1)] by blast
qed

text \<open>Asked at an element of the leading storage, the test that skips it tells what is wanted.\<close>

lemma view_shows_spec:
  assumes ok: "view_ok h v" and l: "leading v = Some p" and k: "k < length (elements (h p))"
  shows "view_shows v h (elements (h p) ! k) = Ret (wanted h (view_pools v) (view_filter v) (elements (h p) ! k))"
proof -
  let ?e = "elements (h p) ! k" and ?i = "view_index v" and ?ps = "view_pools v"
  note D = view_okD [OF ok] and L = view_okD(3) [OF ok l]
  have all: "all_of_but ?i h ?ps ?e = Ret (\<forall>j < length ?ps. j \<noteq> ?i \<longrightarrow> ?e \<in> has (h (the (?ps ! j))))"
    by (rule all_of_but_spec [OF D(4) [OF l] D(1)]) (use L in auto)
  have none: "none_of h (view_filter v) ?e = Ret (\<forall>q. Some q \<in> set (view_filter v) \<longrightarrow> ?e \<notin> has (h q))"
    by (rule none_of_spec [OF D(2)])
  show ?thesis
  proof (cases "is_tombstone ?e")
    case True
    then have "?e \<notin> has (h q)" if "Some q \<in> set ?ps" for q using D(5) [OF that] by blast
    then have not: "\<not> wanted h ?ps (view_filter v) ?e" using L by (auto simp: wanted_def)
    show ?thesis
    proof (cases "length ?ps = 1")
      case False
      obtain j where j: "j < length ?ps" "j \<noteq> ?i" using L False by (cases "?i = 0") (auto intro: that [of 1] that [of 0] simp: Suc_lessI)
      then have "?e \<notin> has (h (the (?ps ! j)))" using pool_at_spec [OF D(4) [OF l] j(1)] D(5) True by blast
      then show ?thesis using all j not True False by (auto simp: view_shows_def)
    qed (use True not in \<open>simp add: view_shows_def\<close>)
  next
    case False
    then have "?e \<in> has (h p)" using k by (auto simp: positions_def members_def)
    then show ?thesis using all none others_have [OF D(4) [OF l], of ?i ?e h] L False by (auto simp: view_shows_def wanted_def)
  qed
qed

section \<open>Iteration\<close>

lemma base_ok_begin: "base_ok b \<Longrightarrow> begin_live b = length (elements b)"
  using stable_okD(1) by (fastforce simp: base_ok_def begin_live_def begin_from_def)

definition shown :: "(nat \<Rightarrow> sparse_set) \<Rightarrow> view \<Rightarrow> entity \<Rightarrow> bool" where
  "shown h v = wanted h (view_pools v) (view_filter v)"

text \<open>The identifiers in the order of the iteration.\<close>

definition listed :: "(nat \<Rightarrow> sparse_set) \<Rightarrow> view \<Rightarrow> entity list" where
  "listed h v = (case leading v of None \<Rightarrow> [] | Some p \<Rightarrow> rev (filter (shown h v) (elements (h p))))"

lemma view_valid_spec:
  assumes "view_ok h v" "leading v = Some p" "k < length (elements (h p))"
  shows "view_valid v h p (Suc k) = Ret (shown h v (elements (h p) ! k))"
  using view_shows_spec [OF assms] assms(3) by (simp add: view_valid_def deref_def read_at_def shown_def)

lemma view_walk_spec:
  assumes ok: "view_ok h v" and l: "leading v = Some p"
    and out: "\<And>k. k < length (elements (h p)) \<Longrightarrow> shown h v (elements (h p) ! k) \<Longrightarrow> out (Suc k) = Ret (f (elements (h p) ! k))"
  shows "obind (view_begin h v) (walk (view_valid v h p) out) = Ret (map f (listed h v))"
proof -
  have b: "base_ok (h p)" using view_okD(1,3) [OF ok] l by blast
  let ?n = "length (elements (h p))" let ?P = "\<lambda>k. shown h v (elements (h p) ! k)"
  have "obind (seek (view_valid v h p) ?n) (walk (view_valid v h p) out) = Ret (map (\<lambda>k. f (elements (h p) ! k)) (rev (filter ?P [0..<?n])))"
    by (rule walk_spec) (simp_all add: view_valid_spec [OF ok l] out)
  also have "map (\<lambda>k. f (elements (h p) ! k)) (rev (filter ?P [0..<?n])) = map f (rev (map ((!) (elements (h p))) (filter ?P [0..<?n])))"
    by (simp add: rev_map comp_def)
  also have "map ((!) (elements (h p))) (filter ?P [0..<?n]) = filter (shown h v) (elements (h p))" by (rule map_filter_upt)
  finally show ?thesis using l by (simp add: view_begin_def base_ok_begin [OF b] listed_def)
qed

lemma view_list_spec: "view_ok h v \<Longrightarrow> view_list h v = Ret (listed h v)"
  using view_walk_spec [of h v _ "\<lambda>it. deref it (h (the (leading v)))" id]
  by (cases "leading v") (simp_all add: view_list_def listed_def deref_def read_at_def)

lemma shown_has: "view_ok h v \<Longrightarrow> leading v = Some p \<Longrightarrow> shown h v e \<Longrightarrow> e \<in> has (h p) \<and> \<not> is_tombstone e"
  using view_okD(3,5) [of h v p] unfolding shown_def wanted_def by blast

lemma set_listed:
  assumes "view_ok h v" "leading v \<noteq> None"
  shows "set (listed h v) = {e. shown h v e}"
proof -
  obtain p where p: "leading v = Some p" using assms(2) by blast
  have "e \<in> set (elements (h p))" if "shown h v e" for e
    using shown_has [OF assms(1) p that] by (auto simp: members_def positions_def)
  then show ?thesis using p by (auto simp: listed_def)
qed

lemma distinct_listed: "view_ok h v \<Longrightarrow> distinct (listed h v)"
proof (cases "leading v")
  case (Some p)
  assume ok: "view_ok h v"
  have b: "base_ok (h p)" using view_okD(1,3) [OF ok] Some by blast
  show ?thesis using has_distinct [OF b, of "shown h v"] shown_has [OF ok Some] Some by (simp add: listed_def)
qed (simp add: listed_def)

lemma view_contains_spec:
  assumes ok: "view_ok h v" and l: "leading v = Some p"
  shows "view_contains h e v = Ret (shown h v e)"
proof -
  note D = view_okD [OF ok] and L = view_okD(3) [OF ok l]
  have b: "base_ok (h p)" using D(1) L by blast
  show ?thesis
  proof (cases "e \<in> has (h p)")
    case True
    then obtain k where k: "k \<in> positions (h p)" "elements (h p) ! k = e" by (auto simp: members_def)
    then have f: "ss_find (h p) e = Ret (k + 1)" "k + 1 \<le> begin_live (h p)"
      using contains_has [OF b, of e] True base_index(2) [OF b k(1)] by (auto simp: ss_find_def base_ok_begin [OF b] positions_def)
    have "all_of_but (view_index v) h (view_pools v) e = Ret (\<forall>p. Some p \<in> set (view_pools v) \<longrightarrow> e \<in> has (h p))"
      using all_of_but_spec [OF D(4) [OF l] D(1), where i = "view_index v" and e = e]
        others_have [OF D(4) [OF l], of "view_index v" e h] L True by simp
    then show ?thesis using f l none_of_spec [OF D(2), where e = e] by (auto simp: view_contains_def shown_def wanted_def)
  next
    case False
    then show ?thesis using l L contains_has [OF b, of e] by (auto simp: view_contains_def ss_find_def shown_def wanted_def)
  qed
qed

lemma view_front_spec:
  assumes "view_ok h v"
  shows "view_front h v = Ret (if listed h v = [] then null_entity else hd (listed h v))"
proof (cases "leading v")
  case (Some p)
  have b: "base_ok (h p)" using view_okD(1,3) [OF assms] Some by blast
  let ?n = "length (elements (h p))"
  let ?ks = "rev (filter (\<lambda>k. shown h v (elements (h p) ! k)) [0..<?n])"
  have l: "listed h v = map ((!) (elements (h p))) ?ks"
    unfolding rev_map [symmetric] map_filter_upt using Some by (simp add: listed_def)
  have "view_front h v = obind (seek (view_valid v h p) ?n) (\<lambda>it. if it \<noteq> 0 then deref it (h p) else Ret null_entity)"
    using Some by (simp add: view_front_def view_begin_def base_ok_begin [OF b])
  also have "\<dots> = (case ?ks of [] \<Rightarrow> Ret null_entity | i # ks \<Rightarrow> deref (Suc i) (h p))"
    by (subst seek_spec [where P = "\<lambda>k. shown h v (elements (h p) ! k)"]) (simp_all add: view_valid_spec [OF assms Some] split: list.split)
  also have "\<dots> = Ret (if listed h v = [] then null_entity else hd (listed h v))"
  proof (cases ?ks)
    case (Cons i ks)
    then have "i \<in> set ?ks" by simp
    then have "i < ?n" by simp
    then show ?thesis using Cons l by (simp add: deref_def read_at_def)
  qed (use l in simp)
  finally show ?thesis .
qed (simp add: view_front_def listed_def)

lemma view_back_spec:
  assumes "view_ok h v"
  shows "view_back h v = Ret (if listed h v = [] then null_entity else last (listed h v))"
proof (cases "leading v")
  case (Some p)
  have b: "base_ok (h p)" using view_okD(1,3) [OF assms] Some by blast
  have "first_contained h v es = Ret (case filter (shown h v) es of [] \<Rightarrow> null_entity | e # es \<Rightarrow> e)" for es
    by (induction es) (simp_all add: view_contains_spec [OF assms Some])
  then show ?thesis using Some
    by (auto simp: view_back_def base_ok_begin [OF b] listed_def last_rev split: list.split)
qed (simp add: view_back_def listed_def)

section \<open>The objects\<close>

definition objects :: "(nat \<Rightarrow> 'a storage) \<Rightarrow> view \<Rightarrow> entity \<Rightarrow> 'a list" where
  "objects g v e = map (\<lambda>p. the (comps (g (the p)) e)) (view_pools v)"

definition storages_ok :: "(nat \<Rightarrow> 'a storage) \<Rightarrow> view \<Rightarrow> bool" where
  "storages_ok g v \<longleftrightarrow> view_ok (\<lambda>p. base (g p)) v \<and> (\<forall>p. Some p \<in> set (view_pools v) \<longrightarrow> st_ok (g p))"

lemma shown_comps:
  assumes "storages_ok g v" "leading v \<noteq> None" "shown (\<lambda>p. base (g p)) v e" "p \<in> set (view_pools v)"
  obtains q x where "p = Some q" "st_ok (g q)" "comps (g q) e = Some x"
proof -
  obtain q where q: "p = Some q" using assms view_okD(4) [of "\<lambda>p. base (g p)" v] by (cases p) (auto simp: storages_ok_def)
  then have ok: "st_ok (g q)" "e \<in> has (base (g q))" using assms by (auto simp: storages_ok_def shown_def wanted_def)
  then show thesis using that [OF q ok(1)] dom_comps [OF ok(1)] by (auto simp: dom_def)
qed

lemma view_get_spec:
  assumes "storages_ok g v" "leading v \<noteq> None" "shown (\<lambda>p. base (g p)) v e"
  shows "view_get g e v = Ret (objects g v e)"
  unfolding view_get_def objects_def
proof (rule otraverse_spec)
  fix p assume "p \<in> set (view_pools v)"
  then obtain q x where "p = Some q" "st_ok (g q)" "comps (g q) e = Some x" by (rule shown_comps [OF assms])
  then show "(case p of None \<Rightarrow> Undefined | Some q \<Rightarrow> st_get e (g q)) = Ret (the (comps (g (the p)) e))"
    by (simp add: st_get_spec)
qed

lemma view_tuples_spec:
  assumes "storages_ok g v"
  shows "view_tuples g v = Ret (map (\<lambda>e. (e, objects g v e)) (listed (\<lambda>p. base (g p)) v))"
proof (cases "leading v")
  case (Some p)
  have ok: "view_ok (\<lambda>p. base (g p)) v" using assms by (simp add: storages_ok_def)
  show ?thesis unfolding view_tuples_def Some option.case
    by (rule view_walk_spec [OF ok Some]) (use view_get_spec [OF assms] Some in \<open>simp add: deref_def read_at_def\<close>)
qed (simp add: view_tuples_def listed_def)

lemma each_objects_spec:
  assumes "storages_ok g v" "leading v = Some p" "view_pools v ! i = Some p" "k < length (elements (base (g p)))"
    and "shown (\<lambda>p. base (g p)) v (elements (base (g p)) ! k)"
  shows "each_objects g v i k (elements (base (g p)) ! k) = Ret (objects g v (elements (base (g p)) ! k))"
proof -
  let ?e = "elements (base (g p)) ! k" and ?ps = "view_pools v"
  have ok: "view_ok (\<lambda>p. base (g p)) v" using assms(1) by (simp add: storages_ok_def)
  have l: "leading v \<noteq> None" using assms(2) by simp
  have k: "k \<in> positions (base (g p))" using shown_has [OF ok assms(2,5)] assms(4) by (simp add: positions_def)
  have "each_objects g v i k ?e = Ret (map (\<lambda>j. the (comps (g (the (?ps ! j))) ?e)) [0..<length ?ps])"
    unfolding each_objects_def
  proof (rule otraverse_spec)
    fix j assume j: "j \<in> set [0..<length ?ps]"
    then have "pool_at j ?ps = Ret (the (?ps ! j))" using pool_at_spec [OF view_okD(4) [OF ok assms(2)]] by simp
    moreover have "?ps ! j \<in> set ?ps" using j by simp
    then obtain q x where q: "?ps ! j = Some q" "st_ok (g q)" "comps (g q) ?e = Some x"
      by (rule shown_comps [OF assms(1) l assms(5)])
    moreover have "read_element k (g q) = Ret x" if "j = i"
    proof -
      have "q = p" using q(1) assms(3) that by simp
      then have "object_at (g p) k = Some x" using q comps_position [OF st_okD(1) k] by simp
      then show ?thesis using read_element_eq [OF st_okD(2) [OF q(2)], of k] positions_less [OF st_okD(1) [OF q(2)], of k] k \<open>q = p\<close> by simp
    qed
    ultimately show "obind (pool_at j ?ps) (\<lambda>q. if j = i then read_element k (g q) else st_get ?e (g q)) =
        Ret (the (comps (g (the (?ps ! j))) ?e))" by (simp add: st_get_spec)
  qed
  also have "map (\<lambda>j. the (comps (g (the (?ps ! j))) ?e)) [0..<length ?ps] = objects g v ?e"
    unfolding objects_def by (rule nth_equalityI) simp_all
  finally show ?thesis .
qed

lemma each_at_spec:
  assumes "storages_ok g v" "leading v = Some p" "view_pools v ! i = Some p" "n \<le> length (elements (base (g p)))"
  shows "each_at g v i p n =
    Ret (map (\<lambda>e. (e, objects g v e)) (rev (filter (shown (\<lambda>p. base (g p)) v) (take n (elements (base (g p)))))))"
  using assms(4)
proof (induction n)
  case (Suc n)
  have ok: "view_ok (\<lambda>p. base (g p)) v" using assms(1) by (simp add: storages_ok_def)
  have "view_shows v (\<lambda>p. base (g p)) (elements (base (g p)) ! n) = Ret (shown (\<lambda>p. base (g p)) v (elements (base (g p)) ! n))"
    using view_shows_spec [OF ok assms(2), of n] Suc.prems by (simp add: shown_def)
  with Suc each_objects_spec [OF assms(1-3), of n] show ?case
    by (simp add: deref_def read_at_def take_Suc_conv_app_nth)
qed simp

lemma count_list_distinct: "distinct xs \<Longrightarrow> x \<in> set xs \<Longrightarrow> count_list xs x = 1"
  by (induction xs) auto

lemma concat_of_index: "concat (map (\<lambda>p. if p = l then xs else []) ps) = concat (replicate (count_list ps l) xs)"
  by (induction ps) auto

text \<open>\<open>each\<close> runs through the list once for every index of the leading storage.\<close>

lemma view_each_spec:
  assumes "storages_ok g v"
  shows "view_each g v =
    Ret (concat (replicate (count_list (view_pools v) (leading v)) (map (\<lambda>e. (e, objects g v e)) (listed (\<lambda>p. base (g p)) v))))"
proof (cases "leading v")
  case None
  then show ?thesis by (simp add: view_each_def listed_def concat_replicate_trivial)
next
  case (Some p)
  have ok: "view_ok (\<lambda>p. base (g p)) v" using assms by (simp add: storages_ok_def)
  have b: "base_ok (base (g p))" using view_okD(1,3) [OF ok] Some by fastforce
  let ?xs = "map (\<lambda>e. (e, objects g v e)) (listed (\<lambda>p. base (g p)) v)"
  have "pick_and_each g v ks = Ret (concat (map (\<lambda>i. if view_pools v ! i = leading v then ?xs else []) ks))"
    if "\<forall>i \<in> set ks. i < length (view_pools v)" for ks
    using that
  proof (induction ks)
    case (Cons i ks)
    then have "each_at g v i p (begin_from (base (g p))) = Ret ?xs" if "view_pools v ! i = Some p"
      using each_at_spec [OF assms Some that, of "length (elements (base (g p)))"] Some by (simp add: begin_from_def listed_def)
    then show ?case using Cons pool_at_spec [OF view_okD(4) [OF ok Some], of i] Some by simp
  qed simp
  moreover have "concat (map (\<lambda>i. if view_pools v ! i = leading v then ?xs else []) [0..<length (view_pools v)]) =
      concat (replicate (count_list (view_pools v) (leading v)) ?xs)"
  proof -
    have "map (\<lambda>i. if view_pools v ! i = leading v then ?xs else []) [0..<length (view_pools v)] =
        map (\<lambda>p. if p = leading v then ?xs else []) (view_pools v)"
      by (rule nth_equalityI) simp_all
    also have "concat \<dots> = concat (replicate (count_list (view_pools v) (leading v)) ?xs)"
      by (rule concat_of_index)
    finally show ?thesis .
  qed
  ultimately show ?thesis using Some by (simp add: view_each_def)
qed

section \<open>Making views\<close>

lemma smallest_pool_spec:
  assumes "None \<notin> set ps" "\<forall>k \<in> set ks. k < length ps" "i < length ps"
  shows "\<exists>j < length ps. smallest_pool h ps ks i = Ret j \<and> length (elements (h (the (ps ! j)))) \<le> length (elements (h (the (ps ! i)))) \<and>
    (\<forall>k \<in> set ks. length (elements (h (the (ps ! j)))) \<le> length (elements (h (the (ps ! k)))))"
  using assms(2,3)
proof (induction ks arbitrary: i)
  case (Cons k ks)
  let ?n = "\<lambda>i. length (elements (h (the (ps ! i))))"
  let ?i = "if ?n k < ?n i then k else i"
  have "?i < length ps" using Cons.prems by simp
  with Cons.IH [of ?i] Cons.prems(1) obtain j where j: "j < length ps" "smallest_pool h ps ks ?i = Ret j" "?n j \<le> ?n ?i"
    "\<forall>k \<in> set ks. ?n j \<le> ?n k" by auto
  have "smallest_pool h ps (k # ks) i = Ret j"
    using pool_at_spec [OF assms(1), of k] pool_at_spec [OF assms(1), of i] Cons.prems j(2) by simp
  moreover have "?n j \<le> ?n i" "?n j \<le> ?n k" using j(3) by (simp_all split: if_splits)
  ultimately show ?case using j(1,4) by auto
qed simp

lemma unchecked_refresh_spec:
  assumes "None \<notin> set (view_pools v)" "view_pools v \<noteq> []"
  obtains i p where "unchecked_refresh h v = Ret (v\<lparr>leading := Some p, view_index := i\<rparr>)" "i < length (view_pools v)"
    "view_pools v ! i = Some p" "\<And>q. Some q \<in> set (view_pools v) \<Longrightarrow> length (elements (h p)) \<le> length (elements (h q))"
proof -
  let ?ps = "view_pools v" let ?n = "\<lambda>i. length (elements (h (the (?ps ! i))))"
  obtain j where j: "j < length ?ps" "smallest_pool h ?ps [1..<length ?ps] 0 = Ret j" "?n j \<le> ?n 0"
    "\<forall>k \<in> set [1..<length ?ps]. ?n j \<le> ?n k"
    using smallest_pool_spec [OF assms(1), of "[1..<length ?ps]" 0 h] assms(2) by auto
  obtain p where p: "?ps ! j = Some p" using assms(1) nth_mem [OF j(1)] by (metis option.exhaust)
  have "length (elements (h p)) \<le> length (elements (h q))" if "Some q \<in> set ?ps" for q
  proof -
    from that obtain k where k: "k < length ?ps" "?ps ! k = Some q" unfolding in_set_conv_nth by blast
    then show ?thesis using j(3) bspec [OF j(4), of k] p by (cases "k = 0") simp_all
  qed
  with that j(1,2) p show thesis by (simp add: unchecked_refresh_def)
qed

lemma view_new_spec:
  assumes "ps \<noteq> []"
  obtains v p where "view_new h ps fs = Ret v" "view_pools v = map Some ps" "view_filter v = map Some fs" "leading v = Some p"
    "view_index v < length ps" "ps ! view_index v = p" "\<And>q. q \<in> set ps \<Longrightarrow> length (elements (h p)) \<le> length (elements (h q))"
proof -
  let ?v = "\<lparr>view_pools = map Some ps, view_filter = map Some fs, leading = None, view_index = length ps\<rparr>"
  obtain i p where "unchecked_refresh h ?v = Ret (?v\<lparr>leading := Some p, view_index := i\<rparr>)" "i < length (view_pools ?v)"
    "view_pools ?v ! i = Some p" "\<And>q. Some q \<in> set (view_pools ?v) \<Longrightarrow> length (elements (h p)) \<le> length (elements (h q))"
    by (rule unchecked_refresh_spec [of ?v h]) (use assms in auto)
  with that [of "?v\<lparr>leading := Some p, view_index := i\<rparr>" p] show thesis by (simp add: view_new_def)
qed

lemma view_new_Nil: "view_new h [] fs = Undefined"
  by (simp add: view_new_def unchecked_refresh_def)

lemma view_pack_spec:
  assumes "None \<notin> set (view_pools v @ view_pools w)" "view_pools v @ view_pools w \<noteq> []"
  obtains u p where "view_pack h v w = Ret u" "view_pools u = view_pools v @ view_pools w" "view_filter u = view_filter v @ view_filter w"
    "leading u = Some p" "view_index u < length (view_pools u)" "view_pools u ! view_index u = Some p"
    "\<And>q. Some q \<in> set (view_pools u) \<Longrightarrow> length (elements (h p)) \<le> length (elements (h q))"
proof -
  let ?v = "\<lparr>view_pools = view_pools v @ view_pools w, view_filter = view_filter v @ view_filter w, leading = None,
    view_index = length (view_pools v @ view_pools w)\<rparr>"
  have "takeWhile (\<lambda>p. p \<noteq> None) (view_pools ?v) = view_pools ?v" unfolding takeWhile_eq_all_conv view.select_convs using assms(1) by metis
  then have "length (takeWhile (\<lambda>p. p \<noteq> None) (view_pools ?v)) = length (view_pools ?v)" by (rule arg_cong)
  then have "view_pack h v w = unchecked_refresh h ?v"
    unfolding view_pack_def view_refresh_def Let_def by (simp only: if_cancel if_True simp_thms)
  moreover obtain i p where "unchecked_refresh h ?v = Ret (?v\<lparr>leading := Some p, view_index := i\<rparr>)" "i < length (view_pools ?v)"
    "view_pools ?v ! i = Some p" "\<And>q. Some q \<in> set (view_pools ?v) \<Longrightarrow> length (elements (h p)) \<le> length (elements (h q))"
    by (rule unchecked_refresh_spec [of ?v h]) (use assms in auto)
  ultimately show thesis using that [of "?v\<lparr>leading := Some p, view_index := i\<rparr>" p] by simp
qed

text \<open>A view stays right whatever its storages become.\<close>

definition proper :: "'a storage \<Rightarrow> bool" where
  "proper st \<longleftrightarrow> st_ok st \<and> (\<forall>e \<in> dom (comps st). \<not> is_tombstone e)"

lemma proper_set_ok: "proper st \<Longrightarrow> set_ok (base st)"
  using st_okD(1) [of st] dom_comps [of st] by (auto simp: proper_def set_ok_def)

lemma view_new_storages_ok:
  assumes "view_new h ps fs = Ret v" "\<forall>p \<in> set ps \<union> set fs. proper (g p)"
  shows "storages_ok g v" "leading v \<noteq> None" "view_pools v = map Some ps" "view_filter v = map Some fs"
    "shown (\<lambda>p. base (g p)) v e \<longleftrightarrow> (\<forall>p \<in> set ps. comps (g p) e \<noteq> None) \<and> (\<forall>p \<in> set fs. comps (g p) e = None)"
proof -
  have ne: "ps \<noteq> []" using assms(1) by (auto simp: view_new_Nil)
  obtain w p where w: "view_new h ps fs = Ret w" "view_pools w = map Some ps" "view_filter w = map Some fs" "leading w = Some p"
    "view_index w < length ps" "ps ! view_index w = p" by (rule view_new_spec [OF ne])
  then show v: "leading v \<noteq> None" "view_pools v = map Some ps" "view_filter v = map Some fs" using assms(1) by auto
  have "set_ok (base (g p)) \<and> st_ok (g p)" if "p \<in> set ps \<union> set fs" for p
    using assms(2) that proper_set_ok [of "g p"] by (simp add: proper_def)
  then show "storages_ok g v" using w assms(1) by (auto simp: storages_ok_def view_ok_def)
  have "e \<in> has (base (g p)) \<longleftrightarrow> comps (g p) e \<noteq> None" if "p \<in> set ps \<union> set fs" for p
    using dom_comps [of "g p"] assms(2) that by (auto simp: proper_def)
  then show "shown (\<lambda>p. base (g p)) v e \<longleftrightarrow> (\<forall>p \<in> set ps. comps (g p) e \<noteq> None) \<and> (\<forall>p \<in> set fs. comps (g p) e = None)"
    using v(2,3) by (auto simp: shown_def wanted_def)
qed

section \<open>One packed storage\<close>

text \<open>
  The view of a single packed storage is a class of its own. It answers what the view over several
  storages does for a list of one, so that one serves for both.
\<close>

lemma each_at_single:
  assumes "storages_ok g v" "leading v = Some p" "view_pools v = [Some p]" "view_filter v = []"
    and "mode (base (g p)) \<noteq> In_place" "n \<le> length (elements (base (g p)))"
  shows "each_at g v 0 p n = obind (tuples_down (g p) n) (\<lambda>xs. Ret (map (\<lambda>(e, x). (e, [x])) xs))"
  using assms(6)
proof (induction n)
  case (Suc n)
  let ?e = "elements (base (g p)) ! n"
  have ok: "view_ok (\<lambda>p. base (g p)) v" using assms(1) by (simp add: storages_ok_def)
  have "n \<in> positions (base (g p))" using Suc.prems assms(5) by (simp add: positions_def)
  then have "shown (\<lambda>p. base (g p)) v ?e" using assms(3,4) by (auto simp: shown_def wanted_def members_def)
  then have "view_shows v (\<lambda>p. base (g p)) ?e = Ret True"
    using view_shows_spec [OF ok assms(2), of n] Suc.prems by (simp add: shown_def)
  moreover have "each_objects g v 0 n ?e = obind (read_element n (g p)) (\<lambda>x. Ret [x])"
    by (simp add: each_objects_def assms(3) pool_at_def)
  ultimately show ?case using Suc by (simp add: deref_def read_at_def obind_assoc case_prod_beta)
qed simp

lemma single_view_agrees:
  assumes ok: "storages_ok g v" and one: "leading v = Some p" "view_pools v = [Some p]" "view_filter v = []"
    and packed: "mode (base (g p)) \<noteq> In_place"
  shows "view_each g v = obind (single_each g (Some p)) (\<lambda>xs. Ret (map (\<lambda>(e, x). (e, [x])) xs))"
    "view_contains (\<lambda>p. base (g p)) e v = single_contains (\<lambda>p. base (g p)) e (Some p)"
    "view_get g e v = obind (single_get g e (Some p)) (\<lambda>x. Ret [x])"
proof -
  have v: "view_ok (\<lambda>p. base (g p)) v" "base_ok (base (g p))" using ok one(2) by (auto simp: storages_ok_def view_ok_def set_ok_def)
  have "begin_from (base (g p)) \<le> length (elements (base (g p)))" using packed by (simp add: begin_from_def)
  from each_at_single [OF ok one packed this]
  show "view_each g v = obind (single_each g (Some p)) (\<lambda>xs. Ret (map (\<lambda>(e, x). (e, [x])) xs))"
    by (simp add: view_each_def one pool_at_def single_each_def)
  show "view_contains (\<lambda>p. base (g p)) e v = single_contains (\<lambda>p. base (g p)) e (Some p)"
    using view_contains_spec [OF v(1) one(1), of e] contains_has [OF v(2), of e] one
    by (simp add: single_contains_def shown_def wanted_def)
  show "view_get g e v = obind (single_get g e (Some p)) (\<lambda>x. Ret [x])"
    by (simp add: view_get_def one single_get_def)
qed

section \<open>The pools behind a view of a registry\<close>

abbreviation keys :: "('t, 'a) registry \<Rightarrow> 32 word set" where
  "keys r \<equiv> fst ` set (pools r)"

lemma pool_ptr_found:
  assumes "reg_ok tr r" "h \<in> keys r"
  shows "pool_ptr h r < length (pools r)" "fst (pools r ! pool_ptr h r) = h" "st_ok (pool_heap r (pool_ptr h r))"
    "comps (pool_heap r (pool_ptr h r)) = held r h"
proof -
  obtain q where q: "q \<in> set (pools r)" "fst q = h" using assms(2) by (elim imageE) simp
  then have "takeWhile (\<lambda>q. fst q \<noteq> h) (pools r) \<noteq> pools r" unfolding takeWhile_eq_all_conv by blast
  then have "length (takeWhile (\<lambda>q. fst q \<noteq> h) (pools r)) \<noteq> length (pools r)"
    by (metis takeWhile_eq_take take_all order_refl)
  then show len: "pool_ptr h r < length (pools r)"
    using length_takeWhile_le [of "\<lambda>q. fst q \<noteq> h" "pools r"] by (simp add: pool_ptr_def)
  then show key: "fst (pools r ! pool_ptr h r) = h" using nth_length_takeWhile [of "\<lambda>q. fst q \<noteq> h" "pools r"] by (simp add: pool_ptr_def)
  have "(h, snd (pools r ! pool_ptr h r)) \<in> set (pools r)" using nth_mem [OF len] key by (metis prod.collapse)
  then have m: "map_of (pools r) h = Some (snd (pools r ! pool_ptr h r))" by (rule map_of_is_SomeI [OF reg_okD(2) [OF assms(1)]])
  then show "st_ok (pool_heap r (pool_ptr h r))" "comps (pool_heap r (pool_ptr h r)) = held r h"
    using reg_okD(3) [OF assms(1) m] by (simp_all add: pool_heap_def held_def)
qed

lemma pool_ptr_append: "h \<in> keys r \<Longrightarrow> pools r' = pools r @ qs \<Longrightarrow> pool_ptr h r' = pool_ptr h r"
  by (auto simp: pool_ptr_def)

text \<open>Making a pool adds an empty one at the end.\<close>

lemma assure_spec:
  assumes ok: "reg_ok tr r" and inj: "inj (type_hash tr)"
  obtains st r' qs where "assure tr ty (type_hash tr ty) r = Ret (st, r')" "reg_ok tr r'" "entities r' = entities r" "held r' = held r"
    "pools r' = pools r @ qs" "type_hash tr ty \<in> keys r'"
proof (cases "map_of (pools r) (type_hash tr ty)")
  case None
  let ?h = "type_hash tr ty" let ?p = "\<lparr>pool_type = ty, pool_storage = st_new (in_place_delete tr ty)\<rparr>"
  let ?r = "r\<lparr>pools := pools r @ [(?h, ?p)]\<rparr>"
  have new: "?h \<notin> keys r" using None by (simp add: map_of_eq_None_iff)
  have "held ?r h = held r h" for h
    using None by (auto simp: held_def map_add_def st_new_ok(2) split: option.splits)
  moreover have "reg_ok tr ?r" using ok new st_new_ok(1) by (auto simp: reg_ok_def)
  ultimately show thesis using that [of "pool_storage ?p" ?r "[(?h, ?p)]"] None by (simp add: assure_def Let_def fun_eq_iff)
next
  case (Some p)
  then have "pool_type p = ty" using reg_okD(3) [OF ok Some] inj by (simp add: inj_eq)
  moreover have "type_hash tr ty \<in> keys r" using map_of_SomeD [OF Some] by force
  ultimately show thesis using that [of "pool_storage p" r "[]"] Some ok by (simp add: assure_def)
qed

lemma assure_all_spec:
  assumes "reg_ok tr r" "inj (type_hash tr)"
  shows "\<exists>r'. assure_all tr tys r = Ret (map (\<lambda>ty. pool_ptr (type_hash tr ty) r') tys, r') \<and> reg_ok tr r' \<and> entities r' = entities r \<and>
    held r' = held r \<and> (\<exists>qs. pools r' = pools r @ qs) \<and> type_hash tr ` set tys \<subseteq> keys r'"
  using assms(1)
proof (induction tys arbitrary: r)
  case (Cons ty tys)
  obtain st r1 qs where r1: "assure tr ty (type_hash tr ty) r = Ret (st, r1)" "reg_ok tr r1" "entities r1 = entities r" "held r1 = held r"
    "pools r1 = pools r @ qs" "type_hash tr ty \<in> keys r1" by (rule assure_spec [OF Cons.prems assms(2)])
  from Cons.IH [OF r1(2)] obtain r2 qs' where r2: "assure_all tr tys r1 = Ret (map (\<lambda>ty. pool_ptr (type_hash tr ty) r2) tys, r2)"
    "reg_ok tr r2" "entities r2 = entities r1" "held r2 = held r1" "pools r2 = pools r1 @ qs'" "type_hash tr ` set tys \<subseteq> keys r2" by blast
  have "pool_ptr (type_hash tr ty) r2 = pool_ptr (type_hash tr ty) r1" by (rule pool_ptr_append [OF r1(6) r2(5)])
  then show ?case using r1 r2 by auto
qed simp

text \<open>The pools of a reached registry hold proper identifiers.\<close>

lemma pool_proper:
  assumes "reg_ok tr r" "linked r" "h \<in> keys r"
  shows "proper (pool_heap r (pool_ptr h r))"
proof -
  note P = pool_ptr_found [OF assms(1,3)]
  have "\<not> is_tombstone e" if "e \<in> in_use (entities r)" for e
    using reg_okD(1) [OF assms(1)] that in_use_or_spare [of "entities r"] swappingD(4) [of "entities r" e] by (simp add: es_ok_def)
  then show ?thesis using P(3,4) assms(2) by (auto simp: proper_def linked_def)
qed

section \<open>Views composed at run time\<close>

lemma all_contain_spec:
  "(\<And>p. p \<in> set ps \<Longrightarrow> base_ok (h p)) \<Longrightarrow> all_contain h ps e = Ret (\<forall>p \<in> set ps. e \<in> has (h p))"
  by (induction ps) (auto simp: contains_has)

definition rv_wanted :: "(nat \<Rightarrow> sparse_set) \<Rightarrow> runtime_view \<Rightarrow> entity \<Rightarrow> bool" where
  "rv_wanted h v e \<longleftrightarrow> (\<forall>p \<in> set (run_pools v). e \<in> has (h p)) \<and> (\<forall>p \<in> set (run_filter v). e \<notin> has (h p))"

lemma rv_valid_spec:
  assumes ok: "\<forall>p \<in> set (run_pools v) \<union> set (run_filter v). set_ok (h p)" and l: "run_pools v = p # ps"
    and k: "k < length (elements (h p))"
  shows "rv_valid v h (Suc k) = Ret (rv_wanted h v (elements (h p) ! k))"
proof -
  let ?e = "elements (h p) ! k"
  have b: "base_ok (h q)" "e \<in> has (h q) \<Longrightarrow> \<not> is_tombstone e" if "q \<in> set (run_pools v) \<union> set (run_filter v)" for q e
    using ok that by (auto simp: set_ok_def)
  have all: "all_contain h ps ?e = Ret (\<forall>p \<in> set ps. ?e \<in> has (h p))" by (rule all_contain_spec) (simp add: b(1) l)
  have none: "none_of h (map Some (run_filter v)) ?e = Ret (\<forall>p \<in> set (run_filter v). ?e \<notin> has (h p))"
  proof -
    have "none_of h (map Some (run_filter v)) ?e = Ret (\<forall>p. Some p \<in> set (map Some (run_filter v)) \<longrightarrow> ?e \<notin> has (h p))"
      by (rule none_of_spec) (use b(1) in auto)
    then show ?thesis by auto
  qed
  have live: "?e \<in> has (h p)" if "mode (h p) \<noteq> In_place \<or> \<not> is_tombstone ?e"
    using k that by (auto simp: members_def positions_def)
  show ?thesis
  proof (cases "?e \<in> has (h p)")
    case True
    then have "\<not> is_tombstone ?e" using b(2) [of p ?e] l by simp
    then show ?thesis using k all none l True by (auto simp: rv_valid_def rv_shows_def rv_wanted_def deref_def read_at_def)
  next
    case False
    then have t: "mode (h p) = In_place" "is_tombstone ?e" using live by auto
    then have "\<forall>q \<in> set ps. ?e \<notin> has (h q)" using b(2) l by auto
    then show ?thesis using k all l False t
      by (cases ps) (auto simp: rv_valid_def rv_shows_def rv_wanted_def deref_def read_at_def)
  qed
qed

lemma rv_each_spec:
  assumes ok: "\<forall>p \<in> set (run_pools v) \<union> set (run_filter v). set_ok (h p)" and ne: "run_pools v \<noteq> []"
  shows "\<exists>es. rv_each h v = Ret es \<and> distinct es \<and> set es = {e. rv_wanted h v e}"
proof -
  obtain p ps where l: "run_pools v = p # ps" using ne by (cases "run_pools v") auto
  let ?n = "length (elements (h p))" let ?P = "\<lambda>k. rv_wanted h v (elements (h p) ! k)"
  have b: "base_ok (h p)" "\<And>e. e \<in> has (h p) \<Longrightarrow> \<not> is_tombstone e" using ok l by (auto simp: set_ok_def)
  have "obind (seek (rv_valid v h) ?n) (walk (rv_valid v h) (\<lambda>it. deref it (h p))) = Ret (map ((!) (elements (h p))) (rev (filter ?P [0..<?n])))"
    by (rule walk_spec) (simp_all add: rv_valid_spec [OF ok l] deref_def read_at_def)
  then have "rv_each h v = Ret (rev (filter (rv_wanted h v) (elements (h p))))"
    using l map_filter_upt [of "elements (h p)" "rv_wanted h v"] by (simp add: rv_each_def rv_begin_def begin_from_def rev_map [symmetric])
  moreover have "distinct (filter (rv_wanted h v) (elements (h p)))"
    by (rule has_distinct [OF b(1)]) (use b(2) l in \<open>auto simp: rv_wanted_def\<close>)
  moreover have "e \<in> set (elements (h p))" if "rv_wanted h v e" for e
    using that l by (auto simp: rv_wanted_def members_def positions_def)
  ultimately show ?thesis by auto
qed

definition run_view :: "(nat \<Rightarrow> sparse_set) \<Rightarrow> nat list \<Rightarrow> nat list \<Rightarrow> runtime_view" where
  "run_view h ps fs = fold rv_exclude fs (fold (\<lambda>p. rv_iterate p h) ps rv_new)"

lemma run_view_spec: "set (run_pools (run_view h ps fs)) = set ps" "run_filter (run_view h ps fs) = fs"
proof -
  have it: "set (run_pools (fold (\<lambda>p. rv_iterate p h) ps v)) = set (run_pools v) \<union> set ps \<and>
      run_filter (fold (\<lambda>p. rv_iterate p h) ps v) = run_filter v" for v
  proof (induction ps arbitrary: v)
    case (Cons p ps)
    have "set (run_pools (rv_iterate p h v)) = insert p (set (run_pools v)) \<and> run_filter (rv_iterate p h v) = run_filter v"
      by (auto simp: rv_iterate_def split: list.splits)
    then show ?case using Cons.IH [of "rv_iterate p h v"] by auto
  qed simp
  have ex: "run_pools (fold rv_exclude fs v) = run_pools v \<and> run_filter (fold rv_exclude fs v) = run_filter v @ fs" for v
    by (induction fs arbitrary: v) (simp_all add: rv_exclude_def)
  show "set (run_pools (run_view h ps fs)) = set ps" "run_filter (run_view h ps fs) = fs"
    using it [of rv_new] ex by (simp_all add: run_view_def rv_new_def)
qed

text \<open>Storages with a single component, for examples.\<close>

lemma distinct_singleton: "distinct xs \<Longrightarrow> set xs = {x} \<Longrightarrow> xs = [x]"
  by (cases xs) (auto simp: subset_singleton_iff)

lemma one_component:
  obtains st where "st_emplace 1 (Some x) (st_new False) = Ret (True, st)" "proper st" "comps st = [1 \<mapsto> x]"
    "0 < length (elements (base st))"
proof -
  have "\<not> is_tombstone 1"
  proof -
    have "to_version 1 = 0" unfolding word_unat_eq_iff by (simp add: to_version_unat)
    then show ?thesis by (simp add: is_tombstone_iff mask_eq_exp_minus_1)
  qed
  moreover have "length (elements (base (st_new False :: 'a storage))) = 0" by (simp add: st_new_def ss_new_def)
  ultimately obtain st where st: "st_emplace 1 (Some x) (st_new False) = Ret (True, st)" "st_ok st" "comps st = [1 \<mapsto> x]"
    using emplace_spec [OF st_new_ok(1) [of False], of 1 "Some x"] by (auto simp: st_new_ok(2))
  have "1 \<in> members (positions (base st)) (base st)" unfolding dom_comps [OF st(2), symmetric] st(3) by simp
  then have "0 < length (elements (base st))" by (auto simp: members_def positions_def)
  with that st \<open>\<not> is_tombstone 1\<close> show thesis by (simp add: proper_def)
qed

section \<open>Properties\<close>

text \<open>
  C14. A view of several storages shows the identifiers that all of them have and none of the
  excluded ones has, each once, whatever the storages have become since the view was made. The
  tuples hold the objects of the storages in the order of the view.
\<close>

theorem views_show_the_intersection:
  assumes "view_new h ps fs = Ret v" "\<forall>p \<in> set ps \<union> set fs. proper (g p)"
  shows "\<exists>es. view_list (\<lambda>p. base (g p)) v = Ret es \<and> distinct es \<and>
    (\<forall>e. e \<in> set es \<longleftrightarrow> (\<forall>p \<in> set ps. comps (g p) e \<noteq> None) \<and> (\<forall>p \<in> set fs. comps (g p) e = None)) \<and>
    (\<forall>e. view_contains (\<lambda>p. base (g p)) e v = Ret (e \<in> set es)) \<and>
    view_front (\<lambda>p. base (g p)) v = Ret (if es = [] then null_entity else hd es) \<and>
    view_back (\<lambda>p. base (g p)) v = Ret (if es = [] then null_entity else last es) \<and>
    view_tuples g v = Ret (map (\<lambda>e. (e, map (\<lambda>p. the (comps (g p) e)) ps)) es)"
proof -
  note V = view_new_storages_ok [OF assms]
  then have ok: "view_ok (\<lambda>p. base (g p)) v" by (simp add: storages_ok_def)
  obtain p where p: "leading v = Some p" using V(2) by blast
  have "objects g v = (\<lambda>e. map (\<lambda>p. the (comps (g p) e)) ps)" by (simp add: objects_def V(3) comp_def fun_eq_iff)
  then show ?thesis
    using view_list_spec [OF ok] distinct_listed [OF ok] set_listed [OF ok V(2)] view_contains_spec [OF ok p]
      view_front_spec [OF ok] view_back_spec [OF ok] view_tuples_spec [OF V(1)] V(5) by auto
qed

theorem views_show_the_intersection_witness:
  "\<exists>st v es. st_emplace 1 (Some ''a'') (st_new False) = Ret (True, st) \<and>
     view_new (\<lambda>p. base (st_new False :: string storage)) [0, 1] [] = Ret v \<and> view_list (\<lambda>p. base st) v = Ret es \<and> es = [1] \<and>
     view_tuples (\<lambda>p. st) v = Ret [(1, [''a'', ''a''])]"
proof -
  obtain st where st: "st_emplace 1 (Some ''a'') (st_new False) = Ret (True, st)" "proper st" "comps st = [1 \<mapsto> ''a'']"
    by (rule one_component)
  obtain v where v: "view_new (\<lambda>p. base (st_new False :: string storage)) [0, 1] [] = Ret v" by (rule view_new_spec [of "[0, 1]"]) simp
  have "\<forall>p \<in> set [0, 1] \<union> set []. proper ((\<lambda>p. st) p)" using st(2) by simp
  from views_show_the_intersection [OF v this] obtain es where es: "view_list (\<lambda>p. base st) v = Ret es" "distinct es"
    "\<forall>e. e \<in> set es \<longleftrightarrow> (\<forall>p \<in> set [0 :: nat, 1]. comps st e \<noteq> None) \<and> (\<forall>p \<in> set ([] :: nat list). comps st e = None)"
    "view_tuples (\<lambda>p. st) v = Ret (map (\<lambda>e. (e, map (\<lambda>p. the (comps st e)) [0 :: nat, 1])) es)" by blast
  have "e \<in> set es \<longleftrightarrow> e = 1" for e
    using spec [OF es(3), of e] st(3) by (simp only: list.set ball_simps simp_thms) simp
  then have "es = [1]" by (intro distinct_singleton [OF es(2)]) auto
  with st v es(1,4) show ?thesis by simp
qed

text \<open>
  C17. Packing two views into one shows each identifier once when the result is iterated, but its
  function \<open>each\<close> calls back once for every occurrence of the leading storage among the storages
  of the two: twice for everything when the two share their smallest storage.
\<close>

theorem packed_view_each_repeats:
  assumes "view_new h ps fs = Ret v" "view_new h qs ks = Ret w" "view_pack h v w = Ret u"
    and "\<forall>p \<in> set (ps @ qs) \<union> set (fs @ ks). proper (g p)"
  shows "\<exists>p xs. p \<in> set (ps @ qs) \<and> (\<forall>q \<in> set (ps @ qs). length (elements (h p)) \<le> length (elements (h q))) \<and>
    view_tuples g u = Ret xs \<and> distinct xs \<and> view_each g u = Ret (concat (replicate (count_list (ps @ qs) p) xs))"
proof -
  have g: "\<forall>p \<in> set ps \<union> set fs. proper (g p)" "\<forall>p \<in> set qs \<union> set ks. proper (g p)" using assms(4) by auto
  note V = view_new_storages_ok [OF assms(1) g(1)] and W = view_new_storages_ok [OF assms(2) g(2)]
  have ne: "ps \<noteq> []" using assms(1) by (auto simp: view_new_Nil)
  obtain u' p where u': "view_pack h v w = Ret u'" "view_pools u' = view_pools v @ view_pools w"
    "view_filter u' = view_filter v @ view_filter w" "leading u' = Some p" "view_index u' < length (view_pools u')"
    "view_pools u' ! view_index u' = Some p" "\<And>q. Some q \<in> set (view_pools u') \<Longrightarrow> length (elements (h p)) \<le> length (elements (h q))"
    by (rule view_pack_spec [of v w h]) (use V(3) W(3) ne in auto)
  then have u: "u' = u" using assms(3) by simp
  have P: "view_pools u = map Some (ps @ qs)" "view_filter u = map Some (fs @ ks)" using u'(2,3) V(3,4) W(3,4) u by simp_all
  have "set_ok (base (g p)) \<and> st_ok (g p)" if "p \<in> set (ps @ qs) \<union> set (fs @ ks)" for p
    using assms(4) that proper_set_ok [of "g p"] by (simp add: proper_def)
  then have ok: "storages_ok g u" using u'(4-6) P unfolding u by (auto simp: storages_ok_def view_ok_def)
  let ?xs = "map (\<lambda>e. (e, objects g u e)) (listed (\<lambda>p. base (g p)) u)"
  have "p \<in> set (ps @ qs)" using nth_mem [OF u'(5)] u'(6) P(1) unfolding u by auto
  moreover have "distinct ?xs"
    using distinct_listed [of "\<lambda>p. base (g p)" u] ok by (simp add: storages_ok_def distinct_map inj_on_def)
  moreover have "count_list (view_pools u) (leading u) = count_list (ps @ qs) p"
    using u'(4) unfolding u P(1) by (simp add: count_list_map_conv inj_def)
  ultimately show ?thesis using view_tuples_spec [OF ok] view_each_spec [OF ok] u'(7) P(1) u
    by (intro exI [of _ p] exI [of _ ?xs]) auto
qed

theorem packed_view_each_repeats_witness:
  "\<exists>st h v w u. st_emplace 1 (Some ''a'') (st_new False) = Ret (True, st) \<and>
     view_new h [0, 1] [] = Ret v \<and> view_new h [0, 2] [] = Ret w \<and> view_pack h v w = Ret u \<and>
     (\<exists>xs. view_tuples (\<lambda>p. st) u = Ret xs \<and> distinct xs \<and> view_each (\<lambda>p. st) u = Ret (xs @ xs))"
proof -
  obtain st where st: "st_emplace 1 (Some ''a'') (st_new False) = Ret (True, st)" "proper st" "comps st = [1 \<mapsto> ''a'']"
    "0 < length (elements (base st))" by (rule one_component)
  define h where "h = (\<lambda>p :: nat. if p = 0 then base (st_new False :: string storage) else base st)"
  have h: "length (elements (h 0)) = 0" "q \<noteq> 0 \<Longrightarrow> 0 < length (elements (h q))" for q
    using st(4) by (simp_all add: h_def st_new_def ss_new_def)
  obtain v where v: "view_new h [0, 1] [] = Ret v" "view_pools v = map Some [0, 1]" by (rule view_new_spec [of "[0, 1]" h]) simp
  obtain w where w: "view_new h [0, 2] [] = Ret w" "view_pools w = map Some [0, 2]" by (rule view_new_spec [of "[0, 2]" h]) simp
  obtain u where u: "view_pack h v w = Ret u" by (rule view_pack_spec [of v w h]) (use v w in auto)
  have "\<forall>p \<in> set ([0, 1] @ [0, 2]) \<union> set ([] @ []). proper ((\<lambda>p. st) p)" using st(2) by simp
  from packed_view_each_repeats [OF v(1) w(1) u this] obtain p xs where c: "p \<in> set ([0, 1] @ [0, 2])"
    "\<forall>q \<in> set ([0, 1] @ [0, 2]). length (elements (h p)) \<le> length (elements (h q))" "view_tuples (\<lambda>p. st) u = Ret xs" "distinct xs"
    "view_each (\<lambda>p. st) u = Ret (concat (replicate (count_list ([0, 1] @ [0, 2]) p) xs))" by blast
  from c(2) have "p = 0" using h by (metis append_Cons le_zero_eq less_irrefl list.set_intros(1))
  then have "view_each (\<lambda>p. st) u = Ret (xs @ xs)" using c(5) by (simp add: numeral_2_eq_2)
  with st(1) v(1) w(1) u c(3,4) show ?thesis by blast
qed

text \<open>
  A view composed at run time shows the same identifiers as the view of the same storages,
  though it may start from another one of them.
\<close>

theorem runtime_view_agrees:
  assumes "view_new h ps fs = Ret v" "\<forall>p \<in> set ps \<union> set fs. proper (g p)"
  shows "\<exists>es ds. view_list (\<lambda>p. base (g p)) v = Ret es \<and> rv_each (\<lambda>p. base (g p)) (run_view h' ps fs) = Ret ds \<and>
    distinct es \<and> distinct ds \<and> set es = set ds"
proof -
  note V = view_new_storages_ok [OF assms]
  then have ok: "view_ok (\<lambda>p. base (g p)) v" by (simp add: storages_ok_def)
  have "\<forall>p \<in> set (run_pools (run_view h' ps fs)) \<union> set (run_filter (run_view h' ps fs)). set_ok (base (g p))"
    unfolding run_view_spec using assms(2) proper_set_ok by blast
  moreover have "run_pools (run_view h' ps fs) \<noteq> []" using assms(1) view_new_Nil run_view_spec(1) [of h' ps fs] by fastforce
  ultimately obtain ds where ds: "rv_each (\<lambda>p. base (g p)) (run_view h' ps fs) = Ret ds" "distinct ds"
    "set ds = {e. rv_wanted (\<lambda>p. base (g p)) (run_view h' ps fs) e}" using rv_each_spec [of "run_view h' ps fs" "\<lambda>p. base (g p)"] by blast
  have "rv_wanted (\<lambda>p. base (g p)) (run_view h' ps fs) e \<longleftrightarrow> shown (\<lambda>p. base (g p)) v e" for e
    by (auto simp: rv_wanted_def run_view_spec shown_def wanted_def V(3,4))
  then show ?thesis using ds view_list_spec [OF ok] distinct_listed [OF ok] set_listed [OF ok V(2)] by simp
qed

theorem runtime_view_agrees_witness:
  "\<exists>st v es. st_emplace 1 (Some ''a'') (st_new False) = Ret (True, st) \<and>
     view_new (\<lambda>p. base st) [0, 1] [] = Ret v \<and> view_list (\<lambda>p. base st) v = Ret es \<and>
     (\<exists>ds. rv_each (\<lambda>p. base st) (run_view (\<lambda>p. base st) [0, 1] []) = Ret ds \<and> set es = set ds)"
proof -
  obtain st where st: "st_emplace 1 (Some ''a'') (st_new False) = Ret (True, st)" "proper st" by (rule one_component)
  obtain v where v: "view_new (\<lambda>p. base st) [0, 1] [] = Ret v" by (rule view_new_spec [of "[0, 1]"]) simp
  have "\<forall>p \<in> set [0, 1] \<union> set []. proper ((\<lambda>p. st) p)" using st(2) by simp
  from runtime_view_agrees [OF v this, of "\<lambda>p. base st"] st(1) v show ?thesis by blast
qed

text \<open>
  C5. A view of a reached registry shows exactly the valid identifiers that have all the
  components asked for and none of those excluded, and gives their components.
\<close>

theorem registry_views:
  assumes "reaches tr r" "inj (type_hash tr)" "gets \<noteq> []" "distinct gets"
  shows "\<exists>v r' es xs. reg_view tr gets exs r = Ret (v, r') \<and> view_list (\<lambda>p. base (pool_heap r' p)) v = Ret es \<and> distinct es \<and>
    (\<forall>e. e \<in> set es \<longleftrightarrow> (\<forall>ty \<in> set gets. try_get tr ty e r \<noteq> Ret None) \<and> (\<forall>ty \<in> set exs. try_get tr ty e r = Ret None)) \<and>
    (\<forall>e \<in> set es. valid e r = Ret True) \<and> view_each (pool_heap r') v = Ret xs \<and> map fst xs = es \<and>
    (\<forall>(e, os) \<in> set xs. list_all2 (\<lambda>ty x. try_get tr ty e r = Ret (Some x)) gets os)"
proof -
  note inv = reaches_okD [OF assms(1)]
  obtain r1 where r1: "assure_all tr gets r = Ret (map (\<lambda>ty. pool_ptr (type_hash tr ty) r1) gets, r1)" "reg_ok tr r1"
    "entities r1 = entities r" "held r1 = held r" "type_hash tr ` set gets \<subseteq> keys r1"
    using assure_all_spec [OF inv(1) assms(2), of gets] by blast
  obtain r2 qs where r2: "assure_all tr exs r1 = Ret (map (\<lambda>ty. pool_ptr (type_hash tr ty) r2) exs, r2)" "reg_ok tr r2"
    "entities r2 = entities r1" "held r2 = held r1" "pools r2 = pools r1 @ qs" "type_hash tr ` set exs \<subseteq> keys r2"
    using assure_all_spec [OF r1(2) assms(2), of exs] by blast
  let ?ptr = "\<lambda>ty. pool_ptr (type_hash tr ty) r2" let ?g = "pool_heap r2"
  have "pool_ptr (type_hash tr ty) r1 = ?ptr ty" if "ty \<in> set gets" for ty
    by (rule pool_ptr_append [OF _ r2(5), symmetric]) (use r1(5) that in blast)
  then have "map (\<lambda>ty. pool_ptr (type_hash tr ty) r1) gets = map ?ptr gets" by simp
  then have ptrs: "assure_all tr gets r = Ret (map ?ptr gets, r1)" using r1(1) by simp
  have k: "type_hash tr ty \<in> keys r2" if "ty \<in> set gets \<union> set exs" for ty using that r1(5) r2(5,6) by auto
  have l2: "linked r2" using inv(2) r1(3,4) r2(3,4) by (simp add: linked_def)
  have p: "comps (?g (?ptr ty)) = held r (type_hash tr ty)" "proper (?g (?ptr ty))" if "ty \<in> set gets \<union> set exs" for ty
    using pool_ptr_found(4) [OF r2(2) k [OF that]] pool_proper [OF r2(2) l2 k [OF that]] r1(4) r2(4) by simp_all
  obtain v where v: "view_new (\<lambda>p. base (?g p)) (map ?ptr gets) (map ?ptr exs) = Ret v"
    by (rule view_new_spec [of "map ?ptr gets" "\<lambda>p. base (?g p)" "map ?ptr exs"]) (use assms(3) in simp_all)
  have pr: "\<forall>p \<in> set (map ?ptr gets) \<union> set (map ?ptr exs). proper (?g p)" using p(2) by auto
  note V = view_new_storages_ok [OF v pr]
  have ok: "view_ok (\<lambda>p. base (?g p)) v" using V(1) by (simp add: storages_ok_def)
  let ?es = "listed (\<lambda>p. base (?g p)) v"
  have mem: "e \<in> set ?es \<longleftrightarrow> (\<forall>ty \<in> set gets. held r (type_hash tr ty) e \<noteq> None) \<and> (\<forall>ty \<in> set exs. held r (type_hash tr ty) e = None)" for e
    using set_listed [OF ok V(2)] V(5) [of e] p(1) by auto
  have "inj_on ?ptr (set gets)"
    by (rule inj_onI) (metis k Un_iff pool_ptr_found(2) [OF r2(2)] injD [OF assms(2)])
  then have "distinct (view_pools v)" unfolding V(3) map_map distinct_map using assms(4) by (auto simp: inj_on_def)
  then have once: "count_list (view_pools v) (leading v) = 1"
    using count_list_distinct V(2) view_okD(3) [OF ok] by fastforce
  have each: "view_each ?g v = Ret (map (\<lambda>e. (e, objects ?g v e)) ?es)" using view_each_spec [OF V(1)] once by simp
  have "list_all2 (\<lambda>ty x. held r (type_hash tr ty) e = Some x) gets (objects ?g v e)" if "e \<in> set ?es" for e
    using mem [of e] that p(1) by (auto simp: objects_def V(3) list_all2_map2 list_all2_same)
  moreover have "valid e r = Ret True" if "e \<in> set ?es" for e
    using mem [of e] that assms(3) linkedD [OF inv(2)] valid_spec [OF inv(1)] by (cases gets) auto
  moreover have "reg_view tr gets exs r = Ret (v, r2)" using ptrs r2(1) v by (simp add: reg_view_def)
  ultimately show ?thesis using each mem view_list_spec [OF ok] distinct_listed [OF ok]
    by (intro exI [of _ v] exI [of _ r2] exI [of _ ?es] exI [of _ "map (\<lambda>e. (e, objects ?g v e)) ?es"])
      (simp add: try_get_spec [OF inv(1) assms(2)] comp_def)
qed

theorem registry_views_witness:
  "\<exists>r r' v r'' xs. create reg_new = Ret (first_version 0, r) \<and>
     reg_emplace two_types True (first_version 0) (Some ''pos'') r = Ret (True, r') \<and>
     reg_view two_types [True] [] r' = Ret (v, r'') \<and> view_each (pool_heap r'') v = Ret xs \<and> map fst xs = [first_version 0]"
proof (rule reaches_component [of "''pos''"])
  fix r r' :: "(bool, string) registry"
  assume r: "create reg_new = Ret (first_version 0, r)" "reg_emplace two_types True (first_version 0) (Some ''pos'') r = Ret (True, r')"
    "reaches two_types r'" "held r' 1 (first_version 0) = Some ''pos''" "in_use (entities r') = {first_version 0}"
  note ok = reaches_okD(1) [OF r(3)]
  obtain v r'' es xs where w: "reg_view two_types [True] [] r' = Ret (v, r'')" "view_each (pool_heap r'') v = Ret xs" "map fst xs = es"
    "distinct es" "\<forall>e. e \<in> set es \<longleftrightarrow> (\<forall>ty \<in> set [True]. try_get two_types ty e r' \<noteq> Ret None) \<and>
      (\<forall>ty \<in> set []. try_get two_types ty e r' = Ret None)"
    using registry_views [OF r(3) two_types_inj, of "[True]" "[]"] by auto
  have "e \<in> set es \<longleftrightarrow> e = first_version 0" for e
    using spec [OF w(5), of e] r(4,5) linkedD [OF reaches_okD(2) [OF r(3)], of 1 e] by (auto simp: try_get_spec [OF ok two_types_inj])
  then have "es = [first_version 0]" by (intro distinct_singleton [OF w(4)]) auto
  then have "map fst xs = [first_version 0]" using w(3) by simp
  with r(1,2) w(1,2) show ?thesis
    by (intro exI [of _ r] exI [of _ r'] exI [of _ v] exI [of _ r''] exI [of _ xs]) simp
qed

end
