(* ===== verification/Signal.thy ===== *)
theory Signal
  imports EnttCore
begin

text \<open>
  Delegates, signals, sinks and connections of \<open>core/common/entt.hpp\<close>. A delegate is the function
  it wraps and the instance bound to it; what a call does is the parameter \<open>run\<close>, a function of
  both, of the argument and of a state. A listener may change everything, also the signal that is
  calling it, so a publication reads the listeners of the signal from the state, through \<open>calls\<close>,
  at every step.
\<close>

section \<open>Delegates\<close>

record ('f, 'p) delegate =
  callee :: "'f option"
  bound_to :: "'p option"

definition delegate_new :: "('f, 'p) delegate" where
  "delegate_new = \<lparr>callee = None, bound_to = None\<rparr>"

definition delegate_connect :: "'f \<Rightarrow> 'p option \<Rightarrow> ('f, 'p) delegate" where
  "delegate_connect f p = \<lparr>callee = Some f, bound_to = p\<rparr>"

text \<open>The overload for a plain function pointer, which may be null.\<close>

definition delegate_pointer :: "'f option \<Rightarrow> 'p option \<Rightarrow> ('f, 'p) delegate outcome" where
  "delegate_pointer f p = entt_assert (f \<noteq> None) (Ret \<lparr>callee = f, bound_to = p\<rparr>)"

definition delegate_reset :: "('f, 'p) delegate \<Rightarrow> ('f, 'p) delegate" where
  "delegate_reset d = d\<lparr>callee := None, bound_to := None\<rparr>"

definition delegate_set :: "('f, 'p) delegate \<Rightarrow> bool" where
  "delegate_set d \<longleftrightarrow> \<not> callee d = None"

definition delegate_eq :: "('f, 'p) delegate \<Rightarrow> ('f, 'p) delegate \<Rightarrow> bool" where
  "delegate_eq d e \<longleftrightarrow> callee d = callee e \<and> bound_to d = bound_to e"

definition delegate_call ::
    "('f \<Rightarrow> 'p option \<Rightarrow> 'x \<Rightarrow> 's \<Rightarrow> ('r \<times> 's) outcome) \<Rightarrow> ('f, 'p) delegate \<Rightarrow> 'x \<Rightarrow> 's \<Rightarrow> ('r \<times> 's) outcome" where
  "delegate_call run d x s =
     entt_assert (delegate_set d) (case callee d of Some f \<Rightarrow> run f (bound_to d) x s | None \<Rightarrow> Undefined)"

section \<open>Signals\<close>

text \<open>
  The loops go from the last listener to the first, at positions that are not checked again. The
  argument of a publication is read by each listener when it is called.
\<close>

fun publish_loop ::
    "('f \<Rightarrow> 'p option \<Rightarrow> 'x \<Rightarrow> 's \<Rightarrow> ('r \<times> 's) outcome) \<Rightarrow> ('s \<Rightarrow> ('f, 'p) delegate list) \<Rightarrow> ('s \<Rightarrow> 'x outcome) \<Rightarrow> nat \<Rightarrow> 's \<Rightarrow> 's outcome" where
  "publish_loop run calls arg 0 s = Ret s"
| "publish_loop run calls arg (Suc n) s =
     (if n < length (calls s)
      then obind (arg s) (\<lambda>x. obind (delegate_call run (calls s ! n) x s) (\<lambda>(r, s1). publish_loop run calls arg n s1))
      else Undefined)"

definition publish ::
    "('f \<Rightarrow> 'p option \<Rightarrow> 'x \<Rightarrow> 's \<Rightarrow> ('r \<times> 's) outcome) \<Rightarrow> ('s \<Rightarrow> ('f, 'p) delegate list) \<Rightarrow> ('s \<Rightarrow> 'x outcome) \<Rightarrow> 's \<Rightarrow> 's outcome" where
  "publish run calls arg s = publish_loop run calls arg (length (calls s)) s"

text \<open>\<open>collect\<close> hands the answers to a function, which may ask it to stop.\<close>

fun collect_loop ::
    "('f \<Rightarrow> 'p option \<Rightarrow> 'x \<Rightarrow> 's \<Rightarrow> ('r \<times> 's) outcome) \<Rightarrow> ('s \<Rightarrow> ('f, 'p) delegate list) \<Rightarrow> ('r \<Rightarrow> 's \<Rightarrow> bool \<times> 's) \<Rightarrow> 'x \<Rightarrow> nat \<Rightarrow> 's \<Rightarrow> 's outcome" where
  "collect_loop run calls func x 0 s = Ret s"
| "collect_loop run calls func x (Suc n) s =
     (if n < length (calls s)
      then obind (delegate_call run (calls s ! n) x s) (\<lambda>(r, s1).
        case func r s1 of (stop, s2) \<Rightarrow> if stop then Ret s2 else collect_loop run calls func x n s2)
      else Undefined)"

definition sigh_collect ::
    "('f \<Rightarrow> 'p option \<Rightarrow> 'x \<Rightarrow> 's \<Rightarrow> ('r \<times> 's) outcome) \<Rightarrow> ('s \<Rightarrow> ('f, 'p) delegate list) \<Rightarrow> ('r \<Rightarrow> 's \<Rightarrow> bool \<times> 's) \<Rightarrow> 'x \<Rightarrow> 's \<Rightarrow> 's outcome" where
  "sigh_collect run calls func x s = collect_loop run calls func x (length (calls s)) s"

definition sigh_swap :: "('f, 'p) delegate list \<Rightarrow> ('f, 'p) delegate list \<Rightarrow> ('f, 'p) delegate list \<times> ('f, 'p) delegate list" where
  "sigh_swap a b = (b, a)"

section \<open>Sinks\<close>

text \<open>The listener that is removed is replaced by the last one.\<close>

fun disconnect_if :: "(('f, 'p) delegate \<Rightarrow> bool) \<Rightarrow> nat \<Rightarrow> ('f, 'p) delegate list \<Rightarrow> ('f, 'p) delegate list outcome" where
  "disconnect_if callback 0 cs = Ret cs"
| "disconnect_if callback (Suc n) cs =
     (if n < length cs
      then disconnect_if callback n (if callback (cs ! n) then butlast (cs[n := last cs]) else cs) else Undefined)"

definition sink_disconnect :: "'f \<Rightarrow> 'p option \<Rightarrow> ('f, 'p) delegate list \<Rightarrow> ('f, 'p) delegate list outcome" where
  "sink_disconnect f p cs = disconnect_if (\<lambda>e. delegate_eq e (delegate_connect f p)) (length cs) cs"

definition sink_disconnect_instance :: "'p option \<Rightarrow> ('f, 'p) delegate list \<Rightarrow> ('f, 'p) delegate list outcome" where
  "sink_disconnect_instance p cs = (if p \<noteq> None then disconnect_if (\<lambda>e. bound_to e = p) (length cs) cs else Ret cs)"

definition sink_disconnect_all :: "('f, 'p) delegate list \<Rightarrow> ('f, 'p) delegate list" where
  "sink_disconnect_all cs = []"

text \<open>
  A connection remembers how to undo itself, until it is released: the function and the instance,
  and the signal, here a number by which \<open>sg\<close> finds the listeners.
\<close>

record ('f, 'p) connection =
  undo :: "('f \<times> 'p option) option"
  signal_of :: nat

definition connection_new :: "('f, 'p) connection" where
  "connection_new = \<lparr>undo = None, signal_of = 0\<rparr>"

definition sink_connect ::
    "'f \<Rightarrow> 'p option \<Rightarrow> nat \<Rightarrow> (nat \<Rightarrow> ('f, 'p) delegate list) \<Rightarrow> (('f, 'p) connection \<times> (nat \<Rightarrow> ('f, 'p) delegate list)) outcome" where
  "sink_connect f p k sg =
     obind (sink_disconnect f p (sg k)) (\<lambda>cs.
       Ret (\<lparr>undo = Some (f, p), signal_of = k\<rparr>, sg(k := cs @ [delegate_connect f p])))"

definition connection_release ::
    "('f, 'p) connection \<Rightarrow> (nat \<Rightarrow> ('f, 'p) delegate list) \<Rightarrow> (('f, 'p) connection \<times> (nat \<Rightarrow> ('f, 'p) delegate list)) outcome" where
  "connection_release c sg =
     (case undo c of
        None \<Rightarrow> Ret (c, sg)
      | Some (f, p) \<Rightarrow> obind (sink_disconnect f p (sg (signal_of c))) (\<lambda>cs. Ret (c\<lparr>undo := None\<rparr>, sg(signal_of c := cs))))"

text \<open>
  A scoped connection releases the connection it holds in its destructor. Assigning another one to
  it replaces what it holds; a scoped one on the right is left empty.
\<close>

definition scoped_destroy ::
    "('f, 'p) connection \<Rightarrow> (nat \<Rightarrow> ('f, 'p) delegate list) \<Rightarrow> (nat \<Rightarrow> ('f, 'p) delegate list) outcome" where
  "scoped_destroy c sg = obind (connection_release c sg) (\<lambda>(c1, sg1). Ret sg1)"

definition scoped_move :: "('f, 'p) connection \<Rightarrow> ('f, 'p) connection \<Rightarrow> ('f, 'p) connection \<times> ('f, 'p) connection" where
  "scoped_move this other = (other, connection_new)"

definition scoped_assign :: "('f, 'p) connection \<Rightarrow> ('f, 'p) connection \<Rightarrow> ('f, 'p) connection" where
  "scoped_assign this other = other"

end
