(* ===== verification/Dispatcher.thy ===== *)
theory Dispatcher
  imports Signal
begin

text \<open>
  The event dispatcher of \<open>core/common/entt.hpp\<close> (\<open>dispatcher_handler\<close>, \<open>basic_dispatcher\<close>). Events of
  all types are one type of the model, and a queue is found by the number of its type. Listeners
  are passed a reference to the event, so the model keeps what decides whether a reference is good:
  the block of memory a vector is in. Listeners may use the dispatcher that calls them; the state of
  a call is the dispatcher and the world \<open>'w\<close>.

  The queues are in a \<open>dense_map\<close> of the library, keyed by the number of the type. The dispatcher only
  inserts keys and never erases one, and the packed array of such a map is the vector of its entries
  in insertion order, which lookups find by key and iterators walk: that is \<open>queues\<close>. Its hash
  table, the rehashing of it and the assertions on the number of buckets are in \<open>DenseMap\<close>, where
  lookups are shown to agree with the keys that are there; none of them moves the packed array.
\<close>

section \<open>Vectors with their memory\<close>

text \<open>A full vector moves to another block, twice as large as in the usual implementations. Clearing it
  keeps the block.\<close>

record 'a vec =
  items :: "'a list"
  room :: nat
  block :: nat

definition vec_new :: "'a vec" where
  "vec_new = \<lparr>items = [], room = 0, block = 0\<rparr>"

definition vec_push :: "'a \<Rightarrow> 'a vec \<Rightarrow> 'a vec" where
  "vec_push x v =
     (if length (items v) < room v then v\<lparr>items := items v @ [x]\<rparr>
      else v\<lparr>items := items v @ [x], room := max 1 (2 * room v), block := block v + 1\<rparr>)"

definition vec_read :: "nat \<Rightarrow> nat \<Rightarrow> 'a vec \<Rightarrow> 'a outcome" where
  "vec_read b pos v = (if block v = b \<and> pos < length (items v) then Ret (items v ! pos) else Undefined)"

section \<open>Queues\<close>

record ('f, 'p, 'e) queue =
  listeners :: "('f, 'p) delegate list"
  events :: "'e vec"

record ('f, 'p, 'e) dispatcher =
  queues :: "(32 word \<times> ('f, 'p, 'e) queue) vec"

definition dispatcher_new :: "('f, 'p, 'e) dispatcher" where
  "dispatcher_new = \<lparr>queues = vec_new\<rparr>"

definition queue_new :: "('f, 'p, 'e) queue" where
  "queue_new = \<lparr>listeners = [], events = vec_new\<rparr>"

definition find_queue :: "32 word \<Rightarrow> ('f, 'p, 'e) dispatcher \<Rightarrow> ('f, 'p, 'e) queue option" where
  "find_queue h d = map_of (items (queues d)) h"

definition assure_queue :: "32 word \<Rightarrow> ('f, 'p, 'e) dispatcher \<Rightarrow> ('f, 'p, 'e) dispatcher" where
  "assure_queue h d = (case find_queue h d of None \<Rightarrow> d\<lparr>queues := vec_push (h, queue_new) (queues d)\<rparr> | Some q \<Rightarrow> d)"

definition the_queue :: "32 word \<Rightarrow> ('f, 'p, 'e) dispatcher \<Rightarrow> ('f, 'p, 'e) queue" where
  "the_queue h d = (case find_queue h d of None \<Rightarrow> queue_new | Some q \<Rightarrow> q)"

definition set_queue :: "32 word \<Rightarrow> ('f, 'p, 'e) queue \<Rightarrow> ('f, 'p, 'e) dispatcher \<Rightarrow> ('f, 'p, 'e) dispatcher" where
  "set_queue h q d = d\<lparr>queues := (queues d)\<lparr>items := map (\<lambda>(k, old). (k, if k = h then q else old)) (items (queues d))\<rparr>\<rparr>"

definition queue_size :: "32 word \<Rightarrow> ('f, 'p, 'e) dispatcher \<Rightarrow> nat" where
  "queue_size h d = (case find_queue h d of None \<Rightarrow> 0 | Some q \<Rightarrow> length (items (events q)))"

definition dispatcher_size :: "('f, 'p, 'e) dispatcher \<Rightarrow> nat" where
  "dispatcher_size d = sum_list (map (\<lambda>(h, q). length (items (events q))) (items (queues d)))"

definition enqueue_hint :: "32 word \<Rightarrow> 'e \<Rightarrow> ('f, 'p, 'e) dispatcher \<Rightarrow> ('f, 'p, 'e) dispatcher" where
  "enqueue_hint h e d =
     (let d1 = assure_queue h d; q = the_queue h d1 in set_queue h (q\<lparr>events := vec_push e (events q)\<rparr>) d1)"

definition clear_queue :: "32 word \<Rightarrow> ('f, 'p, 'e) dispatcher \<Rightarrow> ('f, 'p, 'e) dispatcher" where
  "clear_queue h d =
     (let d1 = assure_queue h d; q = the_queue h d1 in set_queue h (q\<lparr>events := (events q)\<lparr>items := []\<rparr>\<rparr>) d1)"

definition clear_queues :: "('f, 'p, 'e) dispatcher \<Rightarrow> ('f, 'p, 'e) dispatcher" where
  "clear_queues d =
     d\<lparr>queues := (queues d)\<lparr>items := map (\<lambda>(h, q). (h, q\<lparr>events := (events q)\<lparr>items := []\<rparr>\<rparr>)) (items (queues d))\<rparr>\<rparr>"

text \<open>Connecting goes through the sink of a queue.\<close>

definition listen :: "32 word \<Rightarrow> 'f \<Rightarrow> 'p option \<Rightarrow> ('f, 'p, 'e) dispatcher \<Rightarrow> ('f, 'p, 'e) dispatcher outcome" where
  "listen h f p d =
     (let d1 = assure_queue h d; q = the_queue h d1 in
      obind (sink_disconnect f p (listeners q)) (\<lambda>cs. Ret (set_queue h (q\<lparr>listeners := cs @ [delegate_connect f p]\<rparr>) d1)))"

fun disconnect_queues :: "'p option \<Rightarrow> (32 word \<times> ('f, 'p, 'e) queue) list \<Rightarrow> (32 word \<times> ('f, 'p, 'e) queue) list outcome" where
  "disconnect_queues p [] = Ret []"
| "disconnect_queues p ((h, q) # qs) =
     obind (sink_disconnect_instance p (listeners q)) (\<lambda>cs.
     obind (disconnect_queues p qs) (\<lambda>qs1. Ret ((h, q\<lparr>listeners := cs\<rparr>) # qs1)))"

definition dispatcher_disconnect :: "'p option \<Rightarrow> ('f, 'p, 'e) dispatcher \<Rightarrow> ('f, 'p, 'e) dispatcher outcome" where
  "dispatcher_disconnect p d =
     obind (disconnect_queues p (items (queues d))) (\<lambda>qs. Ret (d\<lparr>queues := (queues d)\<lparr>items := qs\<rparr>\<rparr>))"

section \<open>Delivering\<close>

text \<open>The listeners of a queue, in a state of dispatcher and world.\<close>

abbreviation listeners_in :: "32 word \<Rightarrow> ('f, 'p, 'e) dispatcher \<times> 'w \<Rightarrow> ('f, 'p) delegate list" where
  "listeners_in h s \<equiv> listeners (the_queue h (fst s))"

abbreviation events_in :: "32 word \<Rightarrow> ('f, 'p, 'e) dispatcher \<times> 'w \<Rightarrow> 'e vec" where
  "events_in h s \<equiv> events (the_queue h (fst s))"

definition trigger ::
    "('f \<Rightarrow> 'p option \<Rightarrow> 'e \<Rightarrow> ('f, 'p, 'e) dispatcher \<times> 'w \<Rightarrow> (unit \<times> ('f, 'p, 'e) dispatcher \<times> 'w) outcome) \<Rightarrow>
     32 word \<Rightarrow> 'e \<Rightarrow> ('f, 'p, 'e) dispatcher \<times> 'w \<Rightarrow> (('f, 'p, 'e) dispatcher \<times> 'w) outcome" where
  "trigger run h e s = publish run (listeners_in h) (\<lambda>s1. Ret e) (assure_queue h (fst s), snd s)"

text \<open>
  The loop of a queue's \<open>publish\<close>: \<open>n\<close> events are still to be delivered. A listener is passed the
  element at \<open>pos\<close> of the block the vector is in when the publication of the event begins.
\<close>

fun publish_events ::
    "('f \<Rightarrow> 'p option \<Rightarrow> 'e \<Rightarrow> ('f, 'p, 'e) dispatcher \<times> 'w \<Rightarrow> (unit \<times> ('f, 'p, 'e) dispatcher \<times> 'w) outcome) \<Rightarrow>
     32 word \<Rightarrow> nat \<Rightarrow> nat \<Rightarrow> ('f, 'p, 'e) dispatcher \<times> 'w \<Rightarrow> (('f, 'p, 'e) dispatcher \<times> 'w) outcome" where
  "publish_events run h 0 pos s = Ret s"
| "publish_events run h (Suc n) pos s =
     (if pos < length (items (events_in h s))
      then obind (publish run (listeners_in h) (\<lambda>s1. vec_read (block (events_in h s)) pos (events_in h s1)) s)
        (publish_events run h n (pos + 1))
      else Undefined)"

definition publish_queue ::
    "('f \<Rightarrow> 'p option \<Rightarrow> 'e \<Rightarrow> ('f, 'p, 'e) dispatcher \<times> 'w \<Rightarrow> (unit \<times> ('f, 'p, 'e) dispatcher \<times> 'w) outcome) \<Rightarrow>
     32 word \<Rightarrow> ('f, 'p, 'e) dispatcher \<times> 'w \<Rightarrow> (('f, 'p, 'e) dispatcher \<times> 'w) outcome" where
  "publish_queue run h s =
     (let n = length (items (events_in h s)) in
      obind (publish_events run h n 0 s) (\<lambda>(d, w).
        let q = the_queue h d in
        if n \<le> length (items (events q))
        then Ret (set_queue h (q\<lparr>events := (events q)\<lparr>items := drop n (items (events q))\<rparr>\<rparr>) d, w)
        else Undefined))"

definition update_queue ::
    "('f \<Rightarrow> 'p option \<Rightarrow> 'e \<Rightarrow> ('f, 'p, 'e) dispatcher \<times> 'w \<Rightarrow> (unit \<times> ('f, 'p, 'e) dispatcher \<times> 'w) outcome) \<Rightarrow>
     32 word \<Rightarrow> ('f, 'p, 'e) dispatcher \<times> 'w \<Rightarrow> (('f, 'p, 'e) dispatcher \<times> 'w) outcome" where
  "update_queue run h s = publish_queue run h (assure_queue h (fst s), snd s)"

text \<open>
  \<open>update()\<close> visits the queues that there are when it begins, through iterators into the vector of
  queues, which are good as long as the vector stays in its block.
\<close>

fun update_from ::
    "('f \<Rightarrow> 'p option \<Rightarrow> 'e \<Rightarrow> ('f, 'p, 'e) dispatcher \<times> 'w \<Rightarrow> (unit \<times> ('f, 'p, 'e) dispatcher \<times> 'w) outcome) \<Rightarrow>
     nat \<Rightarrow> nat \<Rightarrow> nat \<Rightarrow> ('f, 'p, 'e) dispatcher \<times> 'w \<Rightarrow> (('f, 'p, 'e) dispatcher \<times> 'w) outcome" where
  "update_from run b 0 pos s = (if block (queues (fst s)) = b then Ret s else Undefined)"
| "update_from run b (Suc n) pos s =
     obind (vec_read b pos (queues (fst s))) (\<lambda>(h, q). obind (publish_queue run h s) (update_from run b n (pos + 1)))"

definition update_all ::
    "('f \<Rightarrow> 'p option \<Rightarrow> 'e \<Rightarrow> ('f, 'p, 'e) dispatcher \<times> 'w \<Rightarrow> (unit \<times> ('f, 'p, 'e) dispatcher \<times> 'w) outcome) \<Rightarrow>
     ('f, 'p, 'e) dispatcher \<times> 'w \<Rightarrow> (('f, 'p, 'e) dispatcher \<times> 'w) outcome" where
  "update_all run s = update_from run (block (queues (fst s))) (length (items (queues (fst s)))) 0 s"

end
