(* ===== verification/SignalCorrect.thy ===== *)
theory SignalCorrect
  imports Signal
begin

text \<open>
  A signal is a set of listeners: whatever is done through its sinks, no listener is there twice,
  and releasing a connection takes exactly its listener away. A publication calls every listener
  once as long as no listener touches those that are still to be called; one that disconnects
  itself does not.
\<close>

section \<open>Sinks\<close>

lemma disconnect_if_spec:
  assumes "n \<le> length cs" "distinct cs" "\<And>i. n \<le> i \<Longrightarrow> i < length cs \<Longrightarrow> \<not> P (cs ! i)"
  shows "\<exists>cs'. disconnect_if P n cs = Ret cs' \<and> distinct cs' \<and> set cs' = {d \<in> set cs. \<not> P d}"
  using assms
proof (induction n arbitrary: cs)
  case 0
  then show ?case by (auto simp: in_set_conv_nth)
next
  case (Suc n)
  then have n: "n < length cs" by simp
  show ?case
  proof (cases "P (cs ! n)")
    case True
    note S = set_swap_pop [OF Suc.prems(2) n]
    have last: "last cs = cs ! (length cs - 1)" using n by (intro last_conv_nth) auto
    have "\<not> P (swap_pop n cs ! i)" if "n \<le> i" "i < length (swap_pop n cs)" for i
      using Suc.prems(3) [of i] Suc.prems(3) [of "length cs - 1"] that n last by (cases "i = n") (simp_all add: swap_pop_nth)
    moreover have "n \<le> length (swap_pop n cs)" using n by simp
    ultimately obtain cs' where "disconnect_if P n (swap_pop n cs) = Ret cs'" "distinct cs'" "set cs' = {d \<in> set (swap_pop n cs). \<not> P d}"
      using Suc.IH [of "swap_pop n cs"] S(2) by auto
    then show ?thesis using S(1) True n by (auto simp: swap_pop_def)
  next
    case False
    have "\<not> P (cs ! i)" if "n \<le> i" "i < length cs" for i using Suc.prems(3) [of i] False that by (cases "i = n") auto
    then show ?thesis using Suc.IH [of cs] Suc.prems(2) n False by simp
  qed
qed

lemma delegate_eq_iff: "delegate_eq d e \<longleftrightarrow> d = (e :: ('f, 'p) delegate)"
  by (auto simp: delegate_eq_def)

lemma sink_disconnect_spec:
  assumes "distinct cs"
  obtains cs' where "sink_disconnect f p cs = Ret cs'" "distinct cs'" "set cs' = set cs - {delegate_connect f p}"
  using disconnect_if_spec [of "length cs" cs "\<lambda>e. delegate_eq e (delegate_connect f p)"] assms that
  by (auto simp: sink_disconnect_def delegate_eq_iff set_diff_eq)

text \<open>Only the listener itself moves when it is disconnected.\<close>

lemma disconnect_if_none: "n \<le> length cs \<Longrightarrow> (\<And>i. i < n \<Longrightarrow> \<not> P (cs ! i)) \<Longrightarrow> disconnect_if P n cs = Ret cs"
  by (induction n) auto

lemma disconnect_one:
  assumes "distinct cs" "k < n" "n \<le> length cs"
  shows "disconnect_if (\<lambda>e. e = cs ! k) n cs = Ret (swap_pop k cs)"
  using assms
proof (induction n)
  case (Suc n)
  show ?case
  proof (cases "k = n")
    case True
    have "swap_pop n cs ! i \<noteq> cs ! n" if "i < n" for i
      using that Suc.prems by (simp add: swap_pop_nth nth_eq_iff_index_eq)
    then have "disconnect_if (\<lambda>e. e = cs ! n) n (swap_pop n cs) = Ret (swap_pop n cs)"
      by (intro disconnect_if_none) (use Suc.prems in auto)
    then show ?thesis using True Suc.prems by (simp add: swap_pop_def)
  next
    case False
    then show ?thesis using Suc by (simp add: nth_eq_iff_index_eq)
  qed
qed simp

lemma sink_disconnect_at:
  assumes "distinct cs" "k < length cs" "cs ! k = delegate_connect f p"
  shows "sink_disconnect f p cs = Ret (swap_pop k cs)"
  using disconnect_one [OF assms(1,2)] assms(3) by (simp add: sink_disconnect_def delegate_eq_iff)

section \<open>Publications\<close>

text \<open>What calling a listener does to the state.\<close>

definition effect :: "('f \<Rightarrow> 'p option \<Rightarrow> 'x \<Rightarrow> 's \<Rightarrow> ('r \<times> 's) outcome) \<Rightarrow> 'x \<Rightarrow> ('f, 'p) delegate \<Rightarrow> 's \<Rightarrow> 's" where
  "effect run x d s = (case run (the (callee d)) (bound_to d) x s of Ret (r, s1) \<Rightarrow> s1 | _ \<Rightarrow> s)"

text \<open>
  Listeners that leave alone those that are still to be called. In the states \<open>good n\<close> of a
  publication the listeners before \<open>n\<close> are still to be called, and the argument is \<open>x\<close>.
\<close>

locale polite_listeners =
  fixes run :: "'f \<Rightarrow> 'p option \<Rightarrow> 'x \<Rightarrow> 's \<Rightarrow> ('r \<times> 's) outcome" and calls :: "'s \<Rightarrow> ('f, 'p) delegate list"
    and arg :: "'s \<Rightarrow> 'x outcome" and x :: 'x and good :: "nat \<Rightarrow> 's \<Rightarrow> bool"
  assumes passed: "good (Suc n) s \<Longrightarrow> n < length (calls s) \<Longrightarrow> arg s = Ret x"
    and wrapped: "good (Suc n) s \<Longrightarrow> n < length (calls s) \<Longrightarrow> delegate_set (calls s ! n)"
    and keeps: "good (Suc n) s \<Longrightarrow> n < length (calls s) \<Longrightarrow> calls s ! n = delegate_connect f p \<Longrightarrow>
      \<exists>r s1. run f p x s = Ret (r, s1) \<and> good n s1 \<and> n \<le> length (calls s1) \<and> take n (calls s1) = take n (calls s)"
begin

lemma publish_loop_once:
  assumes "good n s" "n \<le> length (calls s)"
  shows "publish_loop run calls arg n s = Ret (fold (effect run x) (rev (take n (calls s))) s) \<and>
    good 0 (fold (effect run x) (rev (take n (calls s))) s)"
  using assms
proof (induction n arbitrary: s)
  case (Suc n)
  let ?d = "calls s ! n" let ?s = "effect run x ?d s"
  have n: "n < length (calls s)" using Suc.prems(2) by simp
  note set = wrapped [OF Suc.prems(1) n]
  then have d: "?d = delegate_connect (the (callee ?d)) (bound_to ?d)" by (auto simp: delegate_connect_def delegate_set_def)
  obtain r s1 where s1: "run (the (callee ?d)) (bound_to ?d) x s = Ret (r, s1)" "good n s1" "n \<le> length (calls s1)"
    "take n (calls s1) = take n (calls s)" using keeps [OF Suc.prems(1) n d] by blast
  then have eff: "?s = s1" by (simp add: effect_def)
  have "delegate_call run ?d x s = Ret (r, s1)"
    using set s1(1) by (auto simp: delegate_call_def delegate_set_def entt_assert_def)
  then have "publish_loop run calls arg (Suc n) s = publish_loop run calls arg n s1"
    using n passed [OF Suc.prems(1) n] by simp
  moreover have "fold (effect run x) (rev (take (Suc n) (calls s))) s = fold (effect run x) (rev (take n (calls s))) s1"
    using n eff by (simp add: take_Suc_conv_app_nth)
  ultimately show ?case using Suc.IH [OF s1(2,3)] s1(4) by simp
qed simp

text \<open>Every listener is called once, from the last to the first.\<close>

lemma publish_once: "good (length (calls s)) s \<Longrightarrow> publish run calls arg s = Ret (fold (effect run x) (rev (calls s)) s)"
  using publish_loop_once [of "length (calls s)" s] by (simp add: publish_def)

lemma publish_good: "good (length (calls s)) s \<Longrightarrow> \<exists>s1. publish run calls arg s = Ret s1 \<and> good 0 s1"
  using publish_loop_once [of "length (calls s)" s] by (simp add: publish_def)

end

text \<open>
  Listeners that do their work and, some of them, disconnect themselves. The state is the signal
  and the world.
\<close>

definition self_disconnect :: "'f \<Rightarrow> 'p option \<Rightarrow> ('f, 'p) delegate list \<Rightarrow> ('f, 'p) delegate list" where
  "self_disconnect f p cs = (case sink_disconnect f p cs of Ret cs' \<Rightarrow> cs' | _ \<Rightarrow> cs)"

definition one_shot ::
    "('f \<Rightarrow> bool) \<Rightarrow> ('f \<Rightarrow> 'p option \<Rightarrow> 'x \<Rightarrow> 'w \<Rightarrow> 'w) \<Rightarrow> 'f \<Rightarrow> 'p option \<Rightarrow> 'x \<Rightarrow> ('f, 'p) delegate list \<times> 'w \<Rightarrow> (unit \<times> ('f, 'p) delegate list \<times> 'w) outcome" where
  "one_shot leaves work f p x s = Ret ((), (if leaves f then self_disconnect f p (fst s) else fst s, work f p x (snd s)))"

definition sigh_ok :: "('f, 'p) delegate list \<Rightarrow> bool" where
  "sigh_ok cs \<longleftrightarrow> distinct cs \<and> list_all delegate_set cs"

lemma self_disconnect_at:
  assumes "sigh_ok cs" "n < length cs" "cs ! n = delegate_connect f p"
  shows "sigh_ok (self_disconnect f p cs)" "take n (self_disconnect f p cs) = take n cs" "n \<le> length (self_disconnect f p cs)"
    "set (self_disconnect f p cs) = set cs - {delegate_connect f p}"
proof -
  have d: "distinct cs" using assms(1) by (simp add: sigh_ok_def)
  have eq: "self_disconnect f p cs = swap_pop n cs"
    using sink_disconnect_at [OF d assms(2,3)] by (simp add: self_disconnect_def)
  note S = set_swap_pop [OF d assms(2)]
  show "set (self_disconnect f p cs) = set cs - {delegate_connect f p}" using S(1) assms(3) eq by simp
  show "sigh_ok (self_disconnect f p cs)" using S assms(1) eq by (auto simp: sigh_ok_def list_all_iff)
  show "n \<le> length (self_disconnect f p cs)" using assms(2) eq by simp
  show "take n (self_disconnect f p cs) = take n cs" unfolding eq
    by (rule nth_equalityI) (use assms(2) in \<open>auto simp: swap_pop_nth\<close>)
qed

lemma one_shot_keeps:
  assumes "sigh_ok (fst s)" "n < length (fst s)" "fst s ! n = delegate_connect f p"
  shows "\<exists>r s1. one_shot leaves work f p x s = Ret (r, s1) \<and> sigh_ok (fst s1) \<and> n \<le> length (fst s1) \<and> take n (fst s1) = take n (fst s)"
  using self_disconnect_at [OF assms] assms by (simp add: one_shot_def)

lemma sigh_ok_nth: "sigh_ok cs \<Longrightarrow> n < length cs \<Longrightarrow> delegate_set (cs ! n)"
  by (simp add: sigh_ok_def list_all_length)

interpretation one_shot: polite_listeners "one_shot leaves work" fst "\<lambda>s. Ret x" x "\<lambda>n s. sigh_ok (fst s)" for leaves work x
  by unfold_locales (rule refl, erule (1) sigh_ok_nth, rule one_shot_keeps)

lemma one_shot_effect:
  assumes "sigh_ok (fst s)" "d \<in> set (fst s)"
  shows "sigh_ok (fst (effect (one_shot leaves work) x d s))"
    "set (fst (effect (one_shot leaves work) x d s)) = set (fst s) - (if leaves (the (callee d)) then {d} else {})"
    "snd (effect (one_shot leaves work) x d s) = work (the (callee d)) (bound_to d) x (snd s)"
proof -
  obtain n where n: "n < length (fst s)" "fst s ! n = d" using assms(2) by (auto simp: in_set_conv_nth)
  have "delegate_set d" using assms by (auto simp: sigh_ok_def list_all_iff)
  then have d: "d = delegate_connect (the (callee d)) (bound_to d)" by (auto simp: delegate_connect_def delegate_set_def)
  with self_disconnect_at [OF assms(1) n(1), of "the (callee d)" "bound_to d"] n(2) assms(1)
  show "sigh_ok (fst (effect (one_shot leaves work) x d s))"
    "set (fst (effect (one_shot leaves work) x d s)) = set (fst s) - (if leaves (the (callee d)) then {d} else {})"
    "snd (effect (one_shot leaves work) x d s) = work (the (callee d)) (bound_to d) x (snd s)"
    by (simp_all add: effect_def one_shot_def)
qed

section \<open>Uses of a sink\<close>

datatype ('f, 'p) sink_use = Connect 'f "'p option" | Disconnect 'f "'p option" | Disconnect_instance "'p option" | Disconnect_all

fun use_sink :: "('f, 'p) sink_use \<Rightarrow> ('f, 'p) delegate list \<Rightarrow> ('f, 'p) delegate list outcome" where
  "use_sink (Connect f p) cs = obind (sink_connect f p 0 (\<lambda>k. cs)) (\<lambda>(c, sg). Ret (sg 0))"
| "use_sink (Disconnect f p) cs = sink_disconnect f p cs"
| "use_sink (Disconnect_instance p) cs = sink_disconnect_instance p cs"
| "use_sink Disconnect_all cs = Ret (sink_disconnect_all cs)"

fun use_set :: "('f, 'p) sink_use \<Rightarrow> ('f, 'p) delegate set \<Rightarrow> ('f, 'p) delegate set" where
  "use_set (Connect f p) S = insert (delegate_connect f p) S"
| "use_set (Disconnect f p) S = S - {delegate_connect f p}"
| "use_set (Disconnect_instance p) S = {d \<in> S. p = None \<or> bound_to d \<noteq> p}"
| "use_set Disconnect_all S = {}"

fun use_sinks :: "('f, 'p) sink_use list \<Rightarrow> ('f, 'p) delegate list \<Rightarrow> ('f, 'p) delegate list outcome" where
  "use_sinks [] cs = Ret cs"
| "use_sinks (u # us) cs = obind (use_sink u cs) (use_sinks us)"

lemma sink_connect_spec:
  assumes "sigh_ok (sg k)"
  obtains cs where "sink_connect f p k sg = Ret (\<lparr>undo = Some (f, p), signal_of = k\<rparr>, sg(k := cs))" "sigh_ok cs"
    "set cs = insert (delegate_connect f p) (set (sg k))" "last cs = delegate_connect f p"
proof -
  obtain cs' where cs': "sink_disconnect f p (sg k) = Ret cs'" "distinct cs'" "set cs' = set (sg k) - {delegate_connect f p}"
    by (rule sink_disconnect_spec [of "sg k"]) (use assms in \<open>auto simp: sigh_ok_def\<close>)
  then have "sigh_ok (cs' @ [delegate_connect f p])"
    using assms by (auto simp: sigh_ok_def list_all_iff delegate_set_def delegate_connect_def)
  moreover have "sink_connect f p k sg = Ret (\<lparr>undo = Some (f, p), signal_of = k\<rparr>, sg(k := cs' @ [delegate_connect f p]))"
    using cs'(1) by (simp add: sink_connect_def)
  moreover have "set (cs' @ [delegate_connect f p]) = insert (delegate_connect f p) (set (sg k))" using cs'(3) by auto
  ultimately show thesis by (intro that [of "cs' @ [delegate_connect f p]"]) simp_all
qed

lemma use_sink_spec:
  assumes ok: "sigh_ok cs"
  shows "\<exists>cs'. use_sink u cs = Ret cs' \<and> sigh_ok cs' \<and> set cs' = use_set u (set cs)"
proof (cases u)
  case (Connect f p)
  obtain cs' where "sink_connect f p 0 (\<lambda>k :: nat. cs) = Ret (\<lparr>undo = Some (f, p), signal_of = 0\<rparr>, (\<lambda>k. cs)(0 := cs'))" "sigh_ok cs'"
    "set cs' = insert (delegate_connect f p) (set cs)" by (rule sink_connect_spec [of "\<lambda>k. cs" 0 f p]) (use ok in auto)
  then show ?thesis by (simp add: Connect)
next
  case (Disconnect f p)
  obtain cs' where "sink_disconnect f p cs = Ret cs'" "distinct cs'" "set cs' = set cs - {delegate_connect f p}"
    by (rule sink_disconnect_spec [of cs]) (use ok in \<open>auto simp: sigh_ok_def\<close>)
  then show ?thesis using ok by (auto simp: Disconnect sigh_ok_def list_all_iff)
next
  case (Disconnect_instance p)
  have "distinct cs" using ok by (simp add: sigh_ok_def)
  from disconnect_if_spec [OF order_refl this, of "\<lambda>e. bound_to e = p"] obtain cs' where
    "disconnect_if (\<lambda>e. bound_to e = p) (length cs) cs = Ret cs'" "distinct cs'" "set cs' = {d \<in> set cs. bound_to d \<noteq> p}" by auto
  then show ?thesis using ok by (auto simp: Disconnect_instance sink_disconnect_instance_def sigh_ok_def list_all_iff)
next
  case Disconnect_all
  then show ?thesis by (simp add: sink_disconnect_all_def sigh_ok_def)
qed

section \<open>Properties\<close>

text \<open>
  C30. Whatever is done to a signal through its sinks, its listeners are the set that the calls
  describe, none of them twice; in particular connecting a listener again does not make it be
  called twice.
\<close>

theorem signal_is_a_set:
  "\<exists>cs. use_sinks us [] = Ret cs \<and> distinct cs \<and> set cs = fold use_set us {}"
proof -
  have "\<exists>cs'. use_sinks us cs = Ret cs' \<and> sigh_ok cs' \<and> set cs' = fold use_set us (set cs)" if "sigh_ok cs" for cs
    using that
  proof (induction us arbitrary: cs)
    case (Cons u us)
    obtain cs1 where "use_sink u cs = Ret cs1" "sigh_ok cs1" "set cs1 = use_set u (set cs)" using use_sink_spec [OF Cons.prems] by blast
    then show ?case using Cons.IH [of cs1] by auto
  qed simp
  from this [of "[]"] show ?thesis by (auto simp: sigh_ok_def)
qed

text \<open>
  Releasing a connection takes back what connecting did: the listener is gone and no other
  is touched, on this signal or another one, and releasing again does nothing.
\<close>

theorem connection_release_undoes_connect:
  assumes "distinct (sg k)" "list_all delegate_set (sg k)" "delegate_connect f p \<notin> set (sg k)"
  shows "\<exists>c sg1 c' sg2. sink_connect f p k sg = Ret (c, sg1) \<and> delegate_connect f p \<in> set (sg1 k) \<and>
    connection_release c sg1 = Ret (c', sg2) \<and> set (sg2 k) = set (sg k) \<and> distinct (sg2 k) \<and> (\<forall>j. j \<noteq> k \<longrightarrow> sg2 j = sg j) \<and>
    connection_release c' sg2 = Ret (c', sg2)"
proof -
  have "sigh_ok (sg k)" using assms by (simp add: sigh_ok_def)
  then obtain cs where cs: "sink_connect f p k sg = Ret (\<lparr>undo = Some (f, p), signal_of = k\<rparr>, sg(k := cs))" "sigh_ok cs"
    "set cs = insert (delegate_connect f p) (set (sg k))" by (rule sink_connect_spec)
  obtain cs' where "sink_disconnect f p cs = Ret cs'" "distinct cs'" "set cs' = set cs - {delegate_connect f p}"
    by (rule sink_disconnect_spec [of cs]) (use cs(2) in \<open>auto simp: sigh_ok_def\<close>)
  then have "connection_release \<lparr>undo = Some (f, p), signal_of = k\<rparr> (sg(k := cs)) = Ret (\<lparr>undo = None, signal_of = k\<rparr>, sg(k := cs'))"
    "set cs' = set (sg k)" "distinct cs'" using cs(3) assms(3) by (auto simp: connection_release_def)
  then show ?thesis using cs(1,3)
    by (intro exI [of _ "\<lparr>undo = Some (f, p), signal_of = k\<rparr>"] exI [of _ "sg(k := cs)"] exI [of _ "\<lparr>undo = None, signal_of = k\<rparr>"]
        exI [of _ "sg(k := cs')"]) (simp add: connection_release_def)
qed

theorem connection_release_undoes_connect_witness:
  "\<exists>c sg1 c' sg2. sink_connect (1 :: nat) (None :: nat option) 0 (\<lambda>k. [delegate_connect 2 None]) = Ret (c, sg1) \<and>
     connection_release c sg1 = Ret (c', sg2) \<and> set (sg2 0) = {delegate_connect 2 None}"
  using connection_release_undoes_connect [of "\<lambda>k. [delegate_connect (2 :: nat) (None :: nat option)]" 0 1 None]
  by (auto simp: delegate_set_def delegate_connect_def)

text \<open>
  C21. A publication calls every listener once, from the one connected last to the first, also
  when listeners disconnect themselves while they are called; those that did are gone afterwards.
\<close>

theorem publication_calls_each_once:
  assumes "distinct cs" "list_all delegate_set cs"
  shows "\<exists>cs'. publish (one_shot leaves work) fst (\<lambda>s. Ret x) (cs, w) =
      Ret (cs', fold (\<lambda>d. work (the (callee d)) (bound_to d) x) (rev cs) w) \<and>
    distinct cs' \<and> set cs' = {d \<in> set cs. \<not> leaves (the (callee d))}"
proof -
  let ?step = "effect (one_shot leaves work) x"
  have "sigh_ok (fst (fold ?step (rev ds) (as, w))) \<and> set (fst (fold ?step (rev ds) (as, w))) = set as - {d \<in> set ds. leaves (the (callee d))} \<and>
      snd (fold ?step (rev ds) (as, w)) = fold (\<lambda>d. work (the (callee d)) (bound_to d) x) (rev ds) w"
    if "sigh_ok as" "set ds \<subseteq> set as" "distinct ds" for ds as
    using that
  proof (induction ds arbitrary: as)
    case (Cons d ds)
    let ?s = "fold ?step (rev ds) (as, w)"
    have IH: "sigh_ok (fst ?s)" "set (fst ?s) = set as - {d \<in> set ds. leaves (the (callee d))}"
      "snd ?s = fold (\<lambda>d. work (the (callee d)) (bound_to d) x) (rev ds) w" using Cons by auto
    then have "d \<in> set (fst ?s)" using Cons.prems by auto
    note E = one_shot_effect [OF IH(1) this, of leaves work x]
    have "fold ?step (rev (d # ds)) (as, w) = effect (one_shot leaves work) x d ?s" by simp
    then show ?case using E IH(2,3) by auto
  qed simp
  from this [of cs cs] one_shot.publish_once [of "(cs, w)" leaves work x] assms show ?thesis
    by (cases "fold ?step (rev cs) (cs, w)") (auto simp: sigh_ok_def)
qed

theorem publication_calls_each_once_witness:
  "\<exists>cs'. publish (one_shot (\<lambda>f. f = 2) (\<lambda>f p x w. w @ [f + x])) fst (\<lambda>s. Ret 10)
       ([delegate_connect 1 None, delegate_connect 2 None, delegate_connect (3 :: nat) (None :: nat option)], []) = Ret (cs', [13, 12, 11]) \<and>
     set cs' = {delegate_connect 1 None, delegate_connect 3 None}"
proof -
  let ?cs = "[delegate_connect 1 None, delegate_connect 2 None, delegate_connect (3 :: nat) (None :: nat option)]"
  have "distinct ?cs" "list_all delegate_set ?cs" by (simp_all add: delegate_set_def delegate_connect_def)
  from publication_calls_each_once [OF this, of "\<lambda>f. f = 2" "\<lambda>f p x w. w @ [f + x]" 10 "[]"] obtain cs' where
    cs': "publish (one_shot (\<lambda>f. f = 2) (\<lambda>f p x w. w @ [f + x])) fst (\<lambda>s. Ret 10) (?cs, []) =
      Ret (cs', fold (\<lambda>d w. w @ [the (callee d) + 10]) (rev ?cs) [])" "set cs' = {d \<in> set ?cs. the (callee d) \<noteq> 2}" by blast
  have "fold (\<lambda>d w. w @ [the (callee d) + 10]) (rev ?cs) [] = [13, 12, 11]" by (simp add: delegate_connect_def)
  moreover have "{d \<in> set ?cs. the (callee d) \<noteq> 2} = {delegate_connect 1 None, delegate_connect 3 None}"
    by (auto simp: delegate_connect_def)
  ultimately show ?thesis using cs' by (intro exI [of _ cs']) (simp only: simp_thms)
qed

text \<open>
  A listener must not disconnect another one: when the last of three, called first, disconnects
  the first, it takes the place of the first and is called again; when it disconnects both others,
  the publication reads past the end of the listeners.
\<close>

definition disconnecting :: "nat list \<Rightarrow> nat \<Rightarrow> nat option \<Rightarrow> unit \<Rightarrow> (nat, nat) delegate list \<times> nat list \<Rightarrow> (unit \<times> (nat, nat) delegate list \<times> nat list) outcome" where
  "disconnecting others f p x s =
     Ret ((), (if f = 3 then fold (\<lambda>g. self_disconnect g None) others (fst s) else fst s, snd s @ [f]))"

theorem disconnecting_others_while_publishing:
  "publish (disconnecting [1]) fst (\<lambda>s. Ret ()) (map (\<lambda>f. delegate_connect f None) [1, 2, 3], []) =
     Ret (map (\<lambda>f. delegate_connect f None) [3, 2], [3, 2, 3]) \<and>
   publish (disconnecting [1, 2]) fst (\<lambda>s. Ret ()) (map (\<lambda>f. delegate_connect f None) [1, 2, 3], []) = Undefined"
  by (simp_all add: publish_def delegate_call_def delegate_set_def entt_assert_def delegate_connect_def disconnecting_def self_disconnect_def
      sink_disconnect_def delegate_eq_def)

text \<open>
  Assigning to a scoped connection forgets the connection it held: the listener of that one stays
  connected for good, and only the new one is released in the end.
\<close>

theorem scoped_assignment_leaks:
  assumes "f \<noteq> g"
  shows "\<exists>c1 sg1 c2 sg2 sg3. sink_connect f None 0 (\<lambda>k. []) = Ret (c1, sg1) \<and> sink_connect g None 0 sg1 = Ret (c2, sg2) \<and>
    scoped_destroy (scoped_assign c1 c2) sg2 = Ret sg3 \<and> sg3 0 = [delegate_connect f None]"
  using assms by (simp add: sink_connect_def sink_disconnect_def scoped_destroy_def scoped_assign_def connection_release_def
      delegate_eq_def delegate_connect_def fun_upd_def)

theorem scoped_assignment_leaks_witness:
  "\<exists>c1 sg1 c2 sg2 sg3. sink_connect (1 :: nat) (None :: nat option) 0 (\<lambda>k. []) = Ret (c1, sg1) \<and> sink_connect 2 None 0 sg1 = Ret (c2, sg2) \<and>
     scoped_destroy (scoped_assign c1 c2) sg2 = Ret sg3 \<and> sg3 0 = [delegate_connect 1 None]"
  by (rule scoped_assignment_leaks) simp

end
