(* ===== verification/DispatcherCorrect.thy ===== *)
theory DispatcherCorrect
  imports Dispatcher SignalCorrect
begin

text \<open>
  An update delivers the events that were queued when it began, in order, each to every listener
  from the last connected to the first, and leaves those that listeners queue meanwhile for the
  next one, as long as the vector of events needs no new memory. When it does, the listeners that
  are still to be called for the event are left with a reference into freed memory; and a listener
  that clears the queue it is called from takes away the events that the update goes on to use.
\<close>

section \<open>Queues\<close>

lemma map_of_set: "map_of (map (\<lambda>(k, old). (k, if k = h then q else old)) qs) k =
    (if k = h then map_option (\<lambda>old. q) (map_of qs h) else map_of qs k)"
  by (induction qs) auto

lemma map_of_snoc: "map_of (xs @ [(k, v)]) h = (case map_of xs h of None \<Rightarrow> if h = k then Some v else None | Some x \<Rightarrow> Some x)"
  by (induction xs) auto

lemma items_vec_push [simp]: "items (vec_push x v) = items v @ [x]"
  by (simp add: vec_push_def)

lemma find_assure_queue:
  "find_queue k (assure_queue h d) = (if k = h then Some (the_queue h d) else find_queue k d)"
  by (auto simp: assure_queue_def find_queue_def the_queue_def map_of_snoc simp del: map_of_append split: option.splits)

lemma the_assure_queue [simp]: "the_queue k (assure_queue h d) = the_queue k d"
  by (auto simp: the_queue_def find_assure_queue split: option.splits)

lemma find_set_queue:
  "find_queue k (set_queue h q d) = (if k = h then map_option (\<lambda>old. q) (find_queue h d) else find_queue k d)"
  by (simp add: set_queue_def find_queue_def map_of_set)

lemma the_set_queue: "find_queue h d \<noteq> None \<Longrightarrow> the_queue k (set_queue h q d) = (if k = h then q else the_queue k d)"
  by (auto simp: the_queue_def find_set_queue)

lemma the_enqueue:
  "the_queue k (enqueue_hint h e d) =
     (if k = h then (the_queue h d)\<lparr>events := vec_push e (events (the_queue h d))\<rparr> else the_queue k d)"
  by (simp add: enqueue_hint_def Let_def the_set_queue find_assure_queue)

lemma find_enqueue: "find_queue h d \<noteq> None \<Longrightarrow> find_queue h (enqueue_hint k e d) \<noteq> None"
  by (auto simp: enqueue_hint_def Let_def find_set_queue find_assure_queue)

section \<open>Listeners that queue events\<close>

text \<open>\<open>acts\<close> are the events that a call of a listener queues, \<open>work\<close> is what it does to the world.\<close>

definition queueing ::
    "('f \<Rightarrow> 'p option \<Rightarrow> 'e \<Rightarrow> (32 word \<times> 'e) list) \<Rightarrow> ('f \<Rightarrow> 'p option \<Rightarrow> 'e \<Rightarrow> 'w \<Rightarrow> 'w) \<Rightarrow>
     'f \<Rightarrow> 'p option \<Rightarrow> 'e \<Rightarrow> ('f, 'p, 'e) dispatcher \<times> 'w \<Rightarrow> (unit \<times> ('f, 'p, 'e) dispatcher \<times> 'w) outcome" where
  "queueing acts work f p e s = Ret ((), (fold (\<lambda>(h, x). enqueue_hint h x) (acts f p e) (fst s), work f p e (snd s)))"

text \<open>The events for a queue among those that a listener, and a publication, queue.\<close>

definition sent_by :: "('f \<Rightarrow> 'p option \<Rightarrow> 'e \<Rightarrow> (32 word \<times> 'e) list) \<Rightarrow> 32 word \<Rightarrow> 'e \<Rightarrow> ('f, 'p) delegate \<Rightarrow> 'e list" where
  "sent_by acts h e d = map snd (filter (\<lambda>a. fst a = h) (acts (the (callee d)) (bound_to d) e))"

definition sent :: "('f \<Rightarrow> 'p option \<Rightarrow> 'e \<Rightarrow> (32 word \<times> 'e) list) \<Rightarrow> 32 word \<Rightarrow> ('f, 'p) delegate list \<Rightarrow> 'e \<Rightarrow> 'e list" where
  "sent acts h cs e = concat (map (sent_by acts h e) cs)"

abbreviation enqueue_each :: "(32 word \<times> 'e) list \<Rightarrow> ('f, 'p, 'e) dispatcher \<Rightarrow> ('f, 'p, 'e) dispatcher" where
  "enqueue_each \<equiv> fold (\<lambda>(h, x). enqueue_hint h x)"

lemma enqueue_each_events:
  "items (events (the_queue k (enqueue_each as d))) = items (events (the_queue k d)) @ map snd (filter (\<lambda>a. fst a = k) as)"
  by (induction as arbitrary: d) (auto simp: the_enqueue)

lemma enqueue_each_listeners: "listeners (the_queue k (enqueue_each as d)) = listeners (the_queue k d)"
  by (induction as arbitrary: d) (auto simp: the_enqueue)

lemma enqueue_each_known: "find_queue k d \<noteq> None \<Longrightarrow> find_queue k (enqueue_each as d) \<noteq> None"
proof (induction as arbitrary: d)
  case (Cons a as)
  have "find_queue k (enqueue_hint (fst a) (snd a) d) \<noteq> None" by (rule find_enqueue [OF Cons.prems])
  from Cons.IH [OF this] show ?case by (simp add: case_prod_beta del: not_None_eq)
qed simp

lemma enqueue_each_block:
  assumes "length (items (events (the_queue k d))) + length (filter (\<lambda>a. fst a = k) as) \<le> room (events (the_queue k d))"
  shows "block (events (the_queue k (enqueue_each as d))) = block (events (the_queue k d)) \<and>
    room (events (the_queue k (enqueue_each as d))) = room (events (the_queue k d))"
  using assms
proof (induction as arbitrary: d)
  case (Cons a as)
  let ?d = "enqueue_hint (fst a) (snd a) d"
  have "block (events (the_queue k ?d)) = block (events (the_queue k d)) \<and> room (events (the_queue k ?d)) = room (events (the_queue k d)) \<and>
    length (items (events (the_queue k ?d))) + length (filter (\<lambda>a. fst a = k) as) \<le> room (events (the_queue k d))"
    using Cons.prems by (cases "fst a = k") (simp_all add: the_enqueue vec_push_def)
  then show ?case using Cons.IH [of ?d] by (simp add: case_prod_beta)
qed simp

text \<open>What one call, and the calls of a publication, do to the queues.\<close>

abbreviation queueing_effect ::
    "('f \<Rightarrow> 'p option \<Rightarrow> 'e \<Rightarrow> (32 word \<times> 'e) list) \<Rightarrow> ('f \<Rightarrow> 'p option \<Rightarrow> 'e \<Rightarrow> 'w \<Rightarrow> 'w) \<Rightarrow>
     'e \<Rightarrow> ('f, 'p) delegate \<Rightarrow> ('f, 'p, 'e) dispatcher \<times> 'w \<Rightarrow> ('f, 'p, 'e) dispatcher \<times> 'w" where
  "queueing_effect acts work \<equiv> effect (queueing acts work)"

lemma queueing_effect:
  shows "items (events_in k (queueing_effect acts work e c s)) = items (events_in k s) @ sent_by acts k e c"
    "listeners_in k (queueing_effect acts work e c s) = listeners_in k s"
    "snd (queueing_effect acts work e c s) = work (the (callee c)) (bound_to c) e (snd s)"
    "find_queue k (fst s) \<noteq> None \<Longrightarrow> find_queue k (fst (queueing_effect acts work e c s)) \<noteq> None"
    "length (items (events_in k s)) + length (sent_by acts k e c) \<le> room (events_in k s) \<Longrightarrow>
       block (events_in k (queueing_effect acts work e c s)) = block (events_in k s) \<and>
       room (events_in k (queueing_effect acts work e c s)) = room (events_in k s)"
  using enqueue_each_block [of k "fst s" "acts (the (callee c)) (bound_to c) e"] enqueue_each_known [of k "fst s" "acts (the (callee c)) (bound_to c) e"]
  by (simp_all add: effect_def queueing_def sent_by_def enqueue_each_events enqueue_each_listeners)

lemma queueing_effects:
  fixes s :: "('f, 'p, 'e) dispatcher \<times> 'w"
  shows "items (events_in k (fold (effect (queueing acts work) e) cs s)) = items (events_in k s) @ sent acts k cs e"
    "listeners_in k (fold (effect (queueing acts work) e) cs s) = listeners_in k s"
    "snd (fold (effect (queueing acts work) e) cs s) = fold (\<lambda>c. work (the (callee c)) (bound_to c) e) cs (snd s)"
    "find_queue k (fst s) \<noteq> None \<Longrightarrow> find_queue k (fst (fold (effect (queueing acts work) e) cs s)) \<noteq> None"
    "length (items (events_in k s)) + length (sent acts k cs e) \<le> room (events_in k s) \<Longrightarrow>
       block (events_in k (fold (effect (queueing acts work) e) cs s)) = block (events_in k s) \<and>
       room (events_in k (fold (effect (queueing acts work) e) cs s)) = room (events_in k s)"
proof -
  have "items (events_in k (fold (effect (queueing acts work) e) cs s)) = items (events_in k s) @ sent acts k cs e \<and>
    listeners_in k (fold (effect (queueing acts work) e) cs s) = listeners_in k s \<and>
    snd (fold (effect (queueing acts work) e) cs s) = fold (\<lambda>c. work (the (callee c)) (bound_to c) e) cs (snd s) \<and>
    (find_queue k (fst s) \<noteq> None \<longrightarrow> find_queue k (fst (fold (effect (queueing acts work) e) cs s)) \<noteq> None) \<and>
    (length (items (events_in k s)) + length (sent acts k cs e) \<le> room (events_in k s) \<longrightarrow>
       block (events_in k (fold (effect (queueing acts work) e) cs s)) = block (events_in k s) \<and>
       room (events_in k (fold (effect (queueing acts work) e) cs s)) = room (events_in k s))"
  proof (induction cs arbitrary: s)
    case (Cons c cs)
    show ?case using Cons.IH [of "queueing_effect acts work e c s"]
      by (auto simp: sent_def queueing_effect simp del: not_None_eq)
  qed (simp add: sent_def)
  then show "items (events_in k (fold (effect (queueing acts work) e) cs s)) = items (events_in k s) @ sent acts k cs e"
    "listeners_in k (fold (effect (queueing acts work) e) cs s) = listeners_in k s"
    "snd (fold (effect (queueing acts work) e) cs s) = fold (\<lambda>c. work (the (callee c)) (bound_to c) e) cs (snd s)"
    "find_queue k (fst s) \<noteq> None \<Longrightarrow> find_queue k (fst (fold (effect (queueing acts work) e) cs s)) \<noteq> None"
    "length (items (events_in k s)) + length (sent acts k cs e) \<le> room (events_in k s) \<Longrightarrow>
       block (events_in k (fold (effect (queueing acts work) e) cs s)) = block (events_in k s) \<and>
       room (events_in k (fold (effect (queueing acts work) e) cs s)) = room (events_in k s)" by blast+
qed

section \<open>One event\<close>

text \<open>
  The states of the publication of an event, at \<open>pos\<close> of the block \<open>b\<close>: there is room for what the
  listeners before \<open>n\<close> will queue.
\<close>

definition publishing ::
    "('f \<Rightarrow> 'p option \<Rightarrow> 'e \<Rightarrow> (32 word \<times> 'e) list) \<Rightarrow> 32 word \<Rightarrow> nat \<Rightarrow> nat \<Rightarrow> 'e \<Rightarrow> nat \<Rightarrow> ('f, 'p, 'e) dispatcher \<times> 'w \<Rightarrow> bool" where
  "publishing acts h b pos e n s \<longleftrightarrow>
     list_all delegate_set (listeners_in h s) \<and> block (events_in h s) = b \<and> pos < length (items (events_in h s)) \<and>
     items (events_in h s) ! pos = e \<and>
     length (items (events_in h s)) + length (sent acts h (rev (take n (listeners_in h s))) e) \<le> room (events_in h s)"

lemma publishing_step:
  fixes s :: "('f, 'p, 'e) dispatcher \<times> 'w"
  assumes "publishing acts h b pos e (Suc n) s" "n < length (listeners_in h s)" "listeners_in h s ! n = delegate_connect f p"
  shows "\<exists>r s1. queueing acts work f p e s = Ret (r, s1) \<and> publishing acts h b pos e n s1 \<and> listeners_in h s1 = listeners_in h s"
proof -
  have "rev (take (Suc n) (listeners_in h s)) = delegate_connect f p # rev (take n (listeners_in h s))"
    using assms(2,3) by (simp add: take_Suc_conv_app_nth)
  then have "sent acts h (rev (take (Suc n) (listeners_in h s))) e =
      sent_by acts h e (delegate_connect f p) @ sent acts h (rev (take n (listeners_in h s))) e" by (simp add: sent_def)
  moreover have "queueing acts work f p e s = Ret ((), queueing_effect acts work e (delegate_connect f p) s)"
    by (simp add: effect_def queueing_def delegate_connect_def)
  ultimately show ?thesis using assms(1) by (simp add: publishing_def queueing_effect nth_append)
qed

interpretation queueing: polite_listeners "queueing acts work" "listeners_in h" "\<lambda>s. vec_read b pos (events_in h s)" e "publishing acts h b pos e"
  for acts work h b pos e
proof (unfold_locales, goal_cases)
  case (1 n s)
  then show ?case by (simp add: publishing_def vec_read_def)
next
  case (2 n s)
  then show ?case by (simp add: publishing_def list_all_length)
next
  case (3 n s f p)
  from publishing_step [OF 3, of work] obtain r s1 where
    "queueing acts work f p e s = Ret (r, s1)" "publishing acts h b pos e n s1" "listeners_in h s1 = listeners_in h s" by blast
  with 3(2) show ?case by (intro exI [of _ r] exI [of _ s1]) simp
qed

section \<open>All events of a queue\<close>

text \<open>What is done with the events, one after the other, and what that queues.\<close>

abbreviation deliveries ::
    "('f \<Rightarrow> 'p option \<Rightarrow> 'e \<Rightarrow> (32 word \<times> 'e) list) \<Rightarrow> ('f \<Rightarrow> 'p option \<Rightarrow> 'e \<Rightarrow> 'w \<Rightarrow> 'w) \<Rightarrow>
     ('f, 'p) delegate list \<Rightarrow> 'e list \<Rightarrow> ('f, 'p, 'e) dispatcher \<times> 'w \<Rightarrow> ('f, 'p, 'e) dispatcher \<times> 'w" where
  "deliveries acts work cs \<equiv> fold (\<lambda>e. fold (queueing_effect acts work e) (rev cs))"

definition queued :: "('f \<Rightarrow> 'p option \<Rightarrow> 'e \<Rightarrow> (32 word \<times> 'e) list) \<Rightarrow> 32 word \<Rightarrow> ('f, 'p) delegate list \<Rightarrow> 'e list \<Rightarrow> 'e list" where
  "queued acts k cs evs = concat (map (sent acts k (rev cs)) evs)"

lemma deliveries_items: "items (events_in k (deliveries acts work cs evs s)) = items (events_in k s) @ queued acts k cs evs"
  by (induction evs arbitrary: s) (simp_all add: queued_def queueing_effects)

lemma deliveries_listeners: "listeners_in k (deliveries acts work cs evs s) = listeners_in k s"
  by (induction evs arbitrary: s) (simp_all add: queueing_effects)

lemma deliveries_work:
  "snd (deliveries acts work cs evs s) = fold (\<lambda>e. fold (\<lambda>c. work (the (callee c)) (bound_to c) e) (rev cs)) evs (snd s)"
  by (induction evs arbitrary: s) (simp_all add: queueing_effects)

lemma deliveries_known: "find_queue k (fst s) \<noteq> None \<Longrightarrow> find_queue k (fst (deliveries acts work cs evs s)) \<noteq> None"
  by (induction evs arbitrary: s) (simp_all add: queueing_effects del: not_None_eq)

lemma publish_events_delivers:
  assumes "list_all delegate_set (listeners_in h s)" "pos + n \<le> length (items (events_in h s))"
    and "length (items (events_in h s)) + length (queued acts h (listeners_in h s) (take n (drop pos (items (events_in h s))))) \<le> room (events_in h s)"
  shows "publish_events (queueing acts work) h n pos s =
    Ret (deliveries acts work (listeners_in h s) (take n (drop pos (items (events_in h s)))) s)"
  using assms
proof (induction n arbitrary: pos s)
  case (Suc n)
  let ?evs = "items (events_in h s)" and ?cs = "listeners_in h s"
  let ?e = "?evs ! pos"
  let ?s = "fold (queueing_effect acts work ?e) (rev ?cs) s"
  have split: "take (Suc n) (drop pos ?evs) = ?e # take n (drop (Suc pos) ?evs)"
    using Suc.prems(2) by (simp add: Cons_nth_drop_Suc [symmetric])
  have room: "length ?evs + length (sent acts h (rev ?cs) ?e) + length (queued acts h ?cs (take n (drop (Suc pos) ?evs))) \<le> room (events_in h s)"
    using Suc.prems(3) unfolding split by (simp add: queued_def)
  have "publishing acts h (block (events_in h s)) pos ?e (length ?cs) s"
    using Suc.prems(1,2) room by (simp add: publishing_def)
  from queueing.publish_once [OF this]
  have "publish (queueing acts work) (listeners_in h) (\<lambda>s1. vec_read (block (events_in h s)) pos (events_in h s1)) s = Ret ?s" .
  then have step: "publish_events (queueing acts work) h (Suc n) pos s = publish_events (queueing acts work) h n (pos + 1) ?s"
    using Suc.prems(2) by simp
  have after: "take n (drop (pos + 1) (items (events_in h ?s))) = take n (drop (Suc pos) ?evs)" "listeners_in h ?s = ?cs"
    "room (events_in h ?s) = room (events_in h s)" "items (events_in h ?s) = ?evs @ sent acts h (rev ?cs) ?e"
    using Suc.prems(2) room by (simp_all add: queueing_effects)
  have "publish_events (queueing acts work) h n (pos + 1) ?s = Ret (deliveries acts work ?cs (take n (drop (Suc pos) ?evs)) ?s)"
    using Suc.IH [of ?s "pos + 1"] Suc.prems(1,2) room unfolding after by simp
  then show ?case unfolding step split by simp
qed simp

section \<open>Properties\<close>

text \<open>
  C19. An update delivers the events that were queued when it began, in order, each to every listener
  from the one connected last to the first. What the listeners queue meanwhile, for this queue or
  for another one, is there afterwards, in order, and nothing else: no event is lost or delivered
  twice. The vector of the queue must have room for the events that are added to it.
\<close>

theorem update_delivers_queued_events:
  fixes work :: "'f \<Rightarrow> 'p option \<Rightarrow> 'e \<Rightarrow> 'w \<Rightarrow> 'w"
  assumes known: "find_queue h d = Some q" and ok: "list_all delegate_set (listeners q)"
    and room: "length (items (events q)) + length (queued acts h (listeners q) (items (events q))) \<le> room (events q)"
  shows "\<exists>d'. update_queue (queueing acts work) h (d, w) =
      Ret (d', fold (\<lambda>e. fold (\<lambda>c. work (the (callee c)) (bound_to c) e) (rev (listeners q))) (items (events q)) w) \<and>
    (\<forall>k. items (events (the_queue k d')) =
       (if k = h then [] else items (events (the_queue k d))) @ queued acts k (listeners q) (items (events q)) \<and>
     listeners (the_queue k d') = listeners (the_queue k d))"
proof -
  let ?s = "deliveries acts work (listeners q) (items (events q)) (d, w)"
  have q: "the_queue h d = q" "assure_queue h d = d" using known by (simp_all add: the_queue_def assure_queue_def)
  have "publish_events (queueing acts work) h (length (items (events q))) 0 (d, w) = Ret ?s"
    using publish_events_delivers [of h "(d, w)" 0 "length (items (events q))" acts work] ok room by (simp add: q)
  moreover have items: "items (events (the_queue k (fst ?s))) = items (events (the_queue k d)) @ queued acts k (listeners q) (items (events q))" for k
    using deliveries_items [of k acts work "listeners q" "items (events q)" "(d, w)"] by simp
  moreover have "listeners (the_queue k (fst ?s)) = listeners (the_queue k d)" for k
    using deliveries_listeners [of k acts work "listeners q" "items (events q)" "(d, w)"] by simp
  moreover have "find_queue h (fst ?s) \<noteq> None" using deliveries_known [of h "(d, w)"] known by simp
  ultimately show ?thesis
    by (simp add: update_queue_def publish_queue_def q case_prod_beta Let_def the_set_queue deliveries_work)
qed

definition example_acts :: "nat \<Rightarrow> nat option \<Rightarrow> nat \<Rightarrow> (32 word \<times> nat) list" where
  "example_acts f p e = (if f = 2 then [(5, e + 1), (6, e)] else [])"

definition example_work :: "nat \<Rightarrow> nat option \<Rightarrow> nat \<Rightarrow> (nat \<times> nat) list \<Rightarrow> (nat \<times> nat) list" where
  "example_work f p e w = w @ [(f, e)]"

definition example_queue :: "nat list \<Rightarrow> nat \<Rightarrow> (nat, nat, nat) queue" where
  "example_queue evs n = \<lparr>listeners = [delegate_connect 1 None, delegate_connect 2 None], events = \<lparr>items = evs, room = n, block = 3\<rparr>\<rparr>"

definition example_dispatcher :: "nat list \<Rightarrow> nat \<Rightarrow> (nat, nat, nat) dispatcher" where
  "example_dispatcher evs n = \<lparr>queues = \<lparr>items = [(5, example_queue evs n)], room = 1, block = 1\<rparr>\<rparr>"

lemmas example_defs = example_acts_def example_work_def example_queue_def example_dispatcher_def delegate_connect_def delegate_set_def

theorem update_delivers_queued_events_witness:
  "\<exists>d'. update_queue (queueing example_acts example_work) 5 (example_dispatcher [10, 20] 4, []) =
      Ret (d', [(2, 10), (1, 10), (2, 20), (1, 20)]) \<and>
    items (events (the_queue 5 d')) = [11, 21] \<and> items (events (the_queue 6 d')) = [10, 20]"
proof -
  let ?q = "example_queue [10, 20] 4" and ?d = "example_dispatcher [10, 20] 4"
  have q: "find_queue 5 ?d = Some ?q" "list_all delegate_set (listeners ?q)" by (simp_all add: find_queue_def example_defs)
  have queued: "queued example_acts 5 (listeners ?q) (items (events ?q)) = [11, 21]"
    "queued example_acts 6 (listeners ?q) (items (events ?q)) = [10, 20]"
    by (simp_all add: queued_def sent_def sent_by_def example_defs)
  have "length (items (events ?q)) + length (queued example_acts 5 (listeners ?q) (items (events ?q))) \<le> room (events ?q)"
    unfolding queued by (simp add: example_queue_def)
  from update_delivers_queued_events [OF q this, of example_work "[]"] obtain d' where
    "update_queue (queueing example_acts example_work) 5 (?d, []) =
       Ret (d', fold (\<lambda>e. fold (\<lambda>c. example_work (the (callee c)) (bound_to c) e) (rev (listeners ?q))) (items (events ?q)) [])"
    "items (events (the_queue k d')) = (if k = 5 then [] else items (events (the_queue k ?d))) @ queued example_acts k (listeners ?q) (items (events ?q))" for k
    by blast
  moreover have "fold (\<lambda>e. fold (\<lambda>c. example_work (the (callee c)) (bound_to c) e) (rev (listeners ?q))) (items (events ?q)) [] =
      [(2, 10), (1, 10), (2, 20), (1, 20)]" by (simp add: example_defs)
  moreover have "the_queue 6 ?d = queue_new" by (simp add: the_queue_def find_queue_def example_defs)
  ultimately show ?thesis using queued by (intro exI [of _ d']) (simp add: queue_new_def vec_new_def)
qed

section \<open>Updates that go wrong\<close>

text \<open>Events queued beyond the room move the vector of events to another block.\<close>

lemma vec_push_block: "block v \<le> block (vec_push x v)" "room v \<le> length (items v) \<Longrightarrow> block v < block (vec_push x v)"
  by (simp_all add: vec_push_def)

lemma enqueue_each_moves:
  "block (events (the_queue k d)) \<le> block (events (the_queue k (enqueue_each as d))) \<and>
   (length (items (events (the_queue k d))) \<le> room (events (the_queue k d)) \<longrightarrow>
    room (events (the_queue k d)) < length (items (events (the_queue k d))) + length (filter (\<lambda>a. fst a = k) as) \<longrightarrow>
    block (events (the_queue k d)) < block (events (the_queue k (enqueue_each as d))))"
proof (induction as arbitrary: d)
  case (Cons a as)
  let ?d = "enqueue_hint (fst a) (snd a) d"
  have step: "enqueue_each (a # as) d = enqueue_each as ?d" by (simp add: case_prod_beta)
  show ?case
  proof (cases "fst a = k")
    case True
    then have d: "events (the_queue k ?d) = vec_push (snd a) (events (the_queue k d))" by (simp add: the_enqueue)
    show ?thesis
    proof (cases "length (items (events (the_queue k d))) < room (events (the_queue k d))")
      case True
      then have "block (events (the_queue k ?d)) = block (events (the_queue k d))" "room (events (the_queue k ?d)) = room (events (the_queue k d))"
        "length (items (events (the_queue k ?d))) = Suc (length (items (events (the_queue k d))))" by (simp_all add: d vec_push_def)
      then show ?thesis using Cons.IH [of ?d] True \<open>fst a = k\<close> unfolding step by simp
    next
      case False
      then have "block (events (the_queue k d)) < block (events (the_queue k ?d))" by (simp add: d vec_push_def)
      then show ?thesis using Cons.IH [of ?d] unfolding step by linarith
    qed
  next
    case False
    then have "the_queue k ?d = the_queue k d" by (simp add: the_enqueue)
    then show ?thesis using Cons.IH [of ?d] False unfolding step by simp
  qed
qed simp

lemma queueing_moves:
  assumes "length (items (events_in k s)) \<le> room (events_in k s)"
    and "room (events_in k s) < length (items (events_in k s)) + length (sent_by acts k e c)"
  shows "block (events_in k (queueing_effect acts work e c s)) \<noteq> block (events_in k s)"
  using enqueue_each_moves [of k "fst s" "acts (the (callee c)) (bound_to c) e"] assms
  by (simp add: effect_def queueing_def sent_by_def)

lemma deliveries_room:
  assumes "length (items (events_in k s)) + length (queued acts k cs evs) \<le> room (events_in k s)"
  shows "room (events_in k (deliveries acts work cs evs s)) = room (events_in k s)"
  using assms
proof (induction evs arbitrary: s)
  case (Cons e evs)
  let ?s = "fold (queueing_effect acts work e) (rev cs) s"
  have "length (items (events_in k s)) + length (sent acts k (rev cs) e) + length (queued acts k cs evs) \<le> room (events_in k s)"
    using Cons.prems by (simp add: queued_def)
  then have "room (events_in k ?s) = room (events_in k s)"
    "length (items (events_in k ?s)) + length (queued acts k cs evs) \<le> room (events_in k ?s)" by (simp_all add: queueing_effects)
  then show ?case using Cons.IH [of ?s] by simp
qed simp

lemma publish_events_append:
  "publish_events run h (m + n) pos s = obind (publish_events run h m pos s) (publish_events run h n (pos + m))"
proof (induction m arbitrary: pos s)
  case (Suc m)
  let ?p = "publish run (listeners_in h) (\<lambda>s1. vec_read (block (events_in h s)) pos (events_in h s1)) s"
  have "(\<lambda>s1. publish_events run h (m + n) (pos + 1) s1) = (\<lambda>s1. obind (publish_events run h m (pos + 1) s1) (publish_events run h n (pos + Suc m)))"
    using Suc.IH [of "pos + 1"] by auto
  then show ?case by (cases ?p) simp_all
qed simp

text \<open>A reference that is no longer good, with a listener still to be called.\<close>

lemma publish_loop_stale:
  "vec_read b pos (events_in h s) = Undefined \<Longrightarrow> publish_loop run (listeners_in h) (\<lambda>s1. vec_read b pos (events_in h s1)) (Suc n) s = Undefined"
  by simp

lemma queueing_call:
  assumes "delegate_set c"
  shows "delegate_call (queueing acts work) c e s = Ret ((), queueing_effect acts work e c s)"
proof -
  obtain f where "callee c = Some f" using assms by (auto simp: delegate_set_def)
  then show ?thesis by (simp add: delegate_call_def entt_assert_def delegate_set_def effect_def queueing_def)
qed

lemma queueing_loop_call:
  assumes "listeners_in h s ! n = c" "n < length (listeners_in h s)" "delegate_set c"
    and "pos < length (items (events_in h s))" "items (events_in h s) ! pos = e"
  shows "publish_loop (queueing acts work) (listeners_in h) (\<lambda>s1. vec_read (block (events_in h s)) pos (events_in h s1)) (Suc n) s =
    publish_loop (queueing acts work) (listeners_in h) (\<lambda>s1. vec_read (block (events_in h s)) pos (events_in h s1)) n
      (queueing_effect acts work e c s)"
  using assms by (simp add: vec_read_def queueing_call)

lemma publish_loop_moves:
  fixes s :: "('f, 'p, 'e) dispatcher \<times> 'w"
  assumes "listeners_in h s = cs1 @ c # cs2 @ cs3" "list_all delegate_set (listeners_in h s)" "cs1 \<noteq> []"
    and "pos < length (items (events_in h s))" "items (events_in h s) ! pos = e"
    and "length (items (events_in h s)) + length (sent acts h (rev cs2) e) \<le> room (events_in h s)"
    and "room (events_in h s) < length (items (events_in h s)) + length (sent acts h (rev cs2) e) + length (sent_by acts h e c)"
  shows "publish_loop (queueing acts work) (listeners_in h) (\<lambda>s1. vec_read (block (events_in h s)) pos (events_in h s1))
    (length cs1 + Suc (length cs2)) s = Undefined"
  using assms
proof (induction cs2 arbitrary: s cs3 rule: rev_induct)
  case Nil
  let ?s = "queueing_effect acts work e c s"
  obtain m where m: "length cs1 = Suc m" using Nil.prems(3) by (cases cs1) auto
  have c: "listeners_in h s ! length cs1 = c" "delegate_set c" "length cs1 < length (listeners_in h s)"
    using Nil.prems(1,2) by simp_all
  have "block (events_in h ?s) \<noteq> block (events_in h s)"
    by (rule queueing_moves) (use Nil.prems(6,7) in \<open>simp_all add: sent_def\<close>)
  then have "vec_read (block (events_in h s)) pos (events_in h ?s) = Undefined" by (simp add: vec_read_def)
  then have "publish_loop (queueing acts work) (listeners_in h) (\<lambda>s1. vec_read (block (events_in h s)) pos (events_in h s1)) (length cs1) ?s = Undefined"
    unfolding m by (rule publish_loop_stale)
  then show ?case using queueing_loop_call [OF c(1,3,2) Nil.prems(4,5), of acts work] by simp
next
  case (snoc x cs2)
  let ?s = "queueing_effect acts work e x s" and ?n = "length cs1 + Suc (length cs2)"
  have x: "listeners_in h s ! ?n = x" "delegate_set x" "?n < length (listeners_in h s)"
    using snoc.prems(1,2) by (simp_all add: nth_append)
  have sum: "length (items (events_in h s)) + length (sent_by acts h e x) + length (sent acts h (rev cs2) e) \<le> room (events_in h s)"
    using snoc.prems(6) by (simp add: sent_def)
  then have same: "block (events_in h ?s) = block (events_in h s)" "room (events_in h ?s) = room (events_in h s)"
    using queueing_effect(5) [of h s acts e x work] by simp_all
  have "publish_loop (queueing acts work) (listeners_in h) (\<lambda>s1. vec_read (block (events_in h ?s)) pos (events_in h s1)) ?n ?s = Undefined"
    using snoc.IH [of ?s "x # cs3"] snoc.prems sum same(2) by (simp add: queueing_effect nth_append sent_def)
  then show ?case using queueing_loop_call [OF x(1,3,2) snoc.prems(4,5), of acts work] same(1) by simp
qed

text \<open>Listeners that clear the queue that is being delivered, for some of the events.\<close>

definition clearing ::
    "('f \<Rightarrow> 'p option \<Rightarrow> 'e \<Rightarrow> bool) \<Rightarrow> 32 word \<Rightarrow> ('f \<Rightarrow> 'p option \<Rightarrow> 'e \<Rightarrow> 'w \<Rightarrow> 'w) \<Rightarrow>
     'f \<Rightarrow> 'p option \<Rightarrow> 'e \<Rightarrow> ('f, 'p, 'e) dispatcher \<times> 'w \<Rightarrow> (unit \<times> ('f, 'p, 'e) dispatcher \<times> 'w) outcome" where
  "clearing clears h work f p e s = Ret ((), (if clears f p e then clear_queue h (fst s) else fst s), work f p e (snd s))"

abbreviation cleared_by :: "('f \<Rightarrow> 'p option \<Rightarrow> 'e \<Rightarrow> bool) \<Rightarrow> 'e \<Rightarrow> ('f, 'p) delegate \<Rightarrow> bool" where
  "cleared_by clears e c \<equiv> clears (the (callee c)) (bound_to c) e"

lemma the_clear_queue: "items (events (the_queue h (clear_queue h d))) = []"
  by (simp add: clear_queue_def Let_def the_set_queue find_assure_queue)

lemma publish_loop_empty:
  "items (events_in h s) = [] \<Longrightarrow> publish_loop run (listeners_in h) (\<lambda>s1. vec_read b pos (events_in h s1)) n s \<in> {Undefined, Ret s}"
  by (cases n) (simp_all add: vec_read_def)

lemma publish_events_empty: "items (events_in h s) = [] \<Longrightarrow> publish_events run h n pos s \<in> {Undefined, Ret s}"
  by (cases n) simp_all

text \<open>A loop over listeners or events ends with the queue as it was, or with an empty one.\<close>

definition emptied :: "32 word \<Rightarrow> bool \<Rightarrow> ('f, 'p, 'e) dispatcher \<times> 'w \<Rightarrow> (('f, 'p, 'e) dispatcher \<times> 'w) outcome \<Rightarrow> bool" where
  "emptied h c s r \<longleftrightarrow>
     (if c then r = Undefined \<or> (\<exists>s1. r = Ret s1 \<and> items (events_in h s1) = []) else \<exists>s1. r = Ret s1 \<and> fst s1 = fst s)"

lemma emptied_from: "emptied h c s1 r \<Longrightarrow> fst s1 = fst s \<Longrightarrow> emptied h c s r"
  by (cases c) (auto simp: emptied_def simp del: split_paired_Ex)

lemma publish_loop_clearing:
  assumes "list_all delegate_set (listeners_in h s)" "block (events_in h s) = b" "pos < length (items (events_in h s))"
    and "items (events_in h s) ! pos = e" "n \<le> length (listeners_in h s)"
  shows "emptied h (\<exists>c \<in> set (take n (listeners_in h s)). cleared_by clears e c) s
    (publish_loop (clearing clears h work) (listeners_in h) (\<lambda>s1. vec_read b pos (events_in h s1)) n s)"
  using assms
proof (induction n arbitrary: s)
  case (Suc n)
  let ?c = "listeners_in h s ! n" and ?loop = "publish_loop (clearing clears h work) (listeners_in h) (\<lambda>s1. vec_read b pos (events_in h s1))"
  have n: "n < length (listeners_in h s)" and "delegate_set ?c" using Suc.prems(1,5) by (simp_all add: list_all_length)
  then obtain f where f: "callee ?c = Some f" by (auto simp: delegate_set_def)
  let ?s = "((if clears f (bound_to ?c) e then clear_queue h (fst s) else fst s), work f (bound_to ?c) e (snd s))"
  have step: "?loop (Suc n) s = ?loop n ?s"
    using n f Suc.prems(2-4) by (simp add: vec_read_def delegate_call_def entt_assert_def delegate_set_def clearing_def)
  have take: "set (take (Suc n) (listeners_in h s)) = insert ?c (set (take n (listeners_in h s)))"
    using n by (simp add: take_Suc_conv_app_nth)
  show ?case
  proof (cases "clears f (bound_to ?c) e")
    case True
    then have "items (events_in h ?s) = []" by (simp add: the_clear_queue)
    then have "\<exists>s1. ?loop n ?s \<in> {Undefined, Ret s1} \<and> items (events_in h s1) = []"
      using publish_loop_empty [of h ?s] by blast
    then show ?thesis using True f unfolding step take by (auto simp: emptied_def)
  next
    case False
    have "emptied h (\<exists>c \<in> set (take n (listeners_in h s)). cleared_by clears e c) ?s (?loop n ?s)"
      using Suc.IH [of ?s] Suc.prems False by simp
    then have "emptied h (\<exists>c \<in> set (take n (listeners_in h s)). cleared_by clears e c) s (?loop n ?s)"
      by (rule emptied_from) (simp add: False)
    then show ?thesis using False f unfolding step take by simp
  qed
qed (simp add: emptied_def)

lemma publish_events_clearing:
  assumes "list_all delegate_set (listeners_in h s)" "pos + n \<le> length (items (events_in h s))"
  shows "emptied h (\<exists>e \<in> set (take n (drop pos (items (events_in h s)))). \<exists>c \<in> set (listeners_in h s). cleared_by clears e c) s
    (publish_events (clearing clears h work) h n pos s)"
  using assms
proof (induction n arbitrary: pos s)
  case (Suc n)
  let ?run = "clearing clears h work" and ?e = "items (events_in h s) ! pos" and ?rest = "take n (drop (Suc pos) (items (events_in h s)))"
  let ?p = "publish ?run (listeners_in h) (\<lambda>s1. vec_read (block (events_in h s)) pos (events_in h s1)) s"
  have p: "emptied h (\<exists>c \<in> set (listeners_in h s). cleared_by clears ?e c) s ?p"
    using publish_loop_clearing [OF Suc.prems(1) refl, of pos ?e "length (listeners_in h s)"] Suc.prems(2) by (simp add: publish_def)
  have step: "publish_events ?run h (Suc n) pos s = obind ?p (publish_events ?run h n (Suc pos))" using Suc.prems(2) by simp
  have take: "set (take (Suc n) (drop pos (items (events_in h s)))) = insert ?e (set ?rest)"
    using Suc.prems(2) by (simp add: Cons_nth_drop_Suc [symmetric])
  show ?case
  proof (cases "\<exists>c \<in> set (listeners_in h s). cleared_by clears ?e c")
    case True
    then consider "?p = Undefined" | s1 where "?p = Ret s1" "items (events_in h s1) = []" using p by (auto simp: emptied_def)
    then show ?thesis
    proof cases
      case 1
      then show ?thesis using True unfolding step take by (simp add: emptied_def)
    next
      case (2 s1)
      then show ?thesis using publish_events_empty [OF 2(2), of ?run n "Suc pos"] True unfolding step take
        by (auto simp: emptied_def simp del: split_paired_Ex split_paired_All)
    qed
  next
    case False
    then obtain s1 where s1: "?p = Ret s1" "fst s1 = fst s" using p by (auto simp: emptied_def)
    have "emptied h (\<exists>e \<in> set ?rest. \<exists>c \<in> set (listeners_in h s). cleared_by clears e c) s1 (publish_events ?run h n (Suc pos) s1)"
      using Suc.IH [of s1 "Suc pos"] Suc.prems s1(2) by simp
    from emptied_from [OF this s1(2)] show ?thesis using s1(1) False unfolding step take by simp
  qed
qed (simp add: emptied_def)

lemma update_queue_clearing:
  assumes known: "find_queue h d = Some q" and ok: "list_all delegate_set (listeners q)"
  shows "update_queue (clearing clears h work) h (d, w) = Undefined \<longleftrightarrow>
    (\<exists>e \<in> set (items (events q)). \<exists>c \<in> set (listeners q). cleared_by clears e c)"
proof -
  let ?n = "length (items (events q))" and ?c = "\<exists>e \<in> set (items (events q)). \<exists>c \<in> set (listeners q). cleared_by clears e c"
  let ?r = "publish_events (clearing clears h work) h ?n 0 (d, w)"
  have q: "the_queue h d = q" "assure_queue h d = d" using known by (simp_all add: the_queue_def assure_queue_def)
  have r: "emptied h ?c (d, w) ?r" using publish_events_clearing [of h "(d, w)" 0 ?n clears work] ok by (simp add: q)
  have upd: "update_queue (clearing clears h work) h (d, w) = obind ?r (\<lambda>(d, w).
      if ?n \<le> length (items (events (the_queue h d)))
      then Ret (set_queue h ((the_queue h d)\<lparr>events := (events (the_queue h d))\<lparr>items := drop ?n (items (events (the_queue h d)))\<rparr>\<rparr>) d, w)
      else Undefined)" by (simp add: update_queue_def publish_queue_def q Let_def)
  show ?thesis
  proof (cases ?c)
    case True
    then have "?n \<noteq> 0" by auto
    then show ?thesis using r True unfolding upd by (auto simp: emptied_def)
  next
    case False
    then obtain w1 where "?r = Ret (d, w1)" using r by (auto simp: emptied_def)
    then show ?thesis using False unfolding upd by (simp add: q)
  qed
qed

lemma update_queue_moves:
  assumes known: "find_queue h d = Some q" and ok: "list_all delegate_set (listeners q)"
    and split: "listeners q = cs1 @ c # cs2" "cs1 \<noteq> []" "items (events q) = es1 @ e # es2"
    and fits: "length (items (events q)) + length (queued acts h (listeners q) es1) + length (sent acts h (rev cs2) e) \<le> room (events q)"
    and over: "room (events q) < length (items (events q)) + length (queued acts h (listeners q) es1) +
      length (sent acts h (rev cs2) e) + length (sent_by acts h e c)"
  shows "update_queue (queueing acts work) h (d, w) = Undefined"
proof -
  let ?s = "deliveries acts work (listeners q) es1 (d, w)" and ?n = "length (items (events q))"
  have q: "the_queue h d = q" "assure_queue h d = d" using known by (simp_all add: the_queue_def assure_queue_def)
  have first: "publish_events (queueing acts work) h (length es1) 0 (d, w) = Ret ?s"
    using publish_events_delivers [of h "(d, w)" 0 "length es1" acts work] ok split(3) fits by (simp add: q)
  have "items (events_in h ?s) = items (events q) @ queued acts h (listeners q) es1" "listeners_in h ?s = listeners q"
    "room (events_in h ?s) = room (events q)"
    using deliveries_room [of h "(d, w)" acts "listeners q" es1 work] fits by (simp_all add: deliveries_items deliveries_listeners q)
  then have s: "items (events_in h ?s) = es1 @ e # es2 @ queued acts h (listeners q) es1" "listeners_in h ?s = cs1 @ c # cs2"
    "room (events_in h ?s) = room (events q)" unfolding split by simp_all
  have "publish (queueing acts work) (listeners_in h) (\<lambda>s1. vec_read (block (events_in h ?s)) (length es1) (events_in h s1)) ?s = Undefined"
    using publish_loop_moves [of h ?s cs1 c cs2 "[]" "length es1" e acts work] s ok split fits over by (simp add: publish_def)
  then have "publish_events (queueing acts work) h (Suc (length es2)) (length es1) ?s = Undefined" by (simp add: s)
  moreover have "?n = length es1 + Suc (length es2)" by (simp add: split(3))
  ultimately have "publish_events (queueing acts work) h ?n 0 (d, w) = Undefined"
    using first by (simp only: publish_events_append add_0 obind.simps)
  then show ?thesis by (simp add: update_queue_def publish_queue_def q Let_def)
qed

text \<open>
  A queue that a listener makes during the update of all may move the vector of queues, with the
  iterators of the loop left in the old one.
\<close>

lemma update_all_moved_queues:
  assumes "items (queues d) = (h, q) # rest" "publish_queue run h (d, w) = Ret s1" "block (queues (fst s1)) \<noteq> block (queues d)"
  shows "update_all run (d, w) = Undefined"
  using assms by (cases rest) (simp_all add: update_all_def vec_read_def)

text \<open>
  C33. Two ways in which listeners make an update undefined. Let the queue that is delivered have
  the listeners \<open>cs1 @ c # cs2\<close>, which are called from the last to the first, and the events
  \<open>es1 @ e # es2\<close>. When what has been queued for it fits in the room of its vector until \<open>c\<close> is called
  for \<open>e\<close>, and what \<open>c\<close> queues then does not, the vector moves, and every listener that is still to
  be called for \<open>e\<close>, of which there is one if \<open>cs1\<close> is not empty, is passed a reference into the freed
  block. And an update whose listeners may clear the queue they are called from is undefined exactly
  if one of them does, for one of the events: no memory is freed, but the events that are there
  are destroyed, and the loop, the reference or the final erase goes on to use them.
\<close>

theorem updating_from_listeners:
  assumes "find_queue h d = Some q" "list_all delegate_set (listeners q)"
  shows "(\<forall>cs1 c cs2 es1 e es2. listeners q = cs1 @ c # cs2 \<longrightarrow> cs1 \<noteq> [] \<longrightarrow> items (events q) = es1 @ e # es2 \<longrightarrow>
      length (items (events q)) + length (queued acts h (listeners q) es1) + length (sent acts h (rev cs2) e) \<le> room (events q) \<longrightarrow>
      room (events q) < length (items (events q)) + length (queued acts h (listeners q) es1) +
        length (sent acts h (rev cs2) e) + length (sent_by acts h e c) \<longrightarrow>
      update_queue (queueing acts work) h (d, w) = Undefined) \<and>
    (update_queue (clearing clears h work) h (d, w) = Undefined \<longleftrightarrow>
      (\<exists>e \<in> set (items (events q)). \<exists>c \<in> set (listeners q). clears (the (callee c)) (bound_to c) e))"
  using update_queue_moves [OF assms, where acts = acts and work = work and w = w]
    update_queue_clearing [OF assms, where clears = clears and work = work and w = w] by blast

theorem updating_from_listeners_witness:
  "update_queue (queueing example_acts example_work) 5 (example_dispatcher [10, 20] 2, []) = Undefined \<and>
   update_queue (clearing (\<lambda>f p e. f = 2 \<and> e = 20) 5 example_work) 5 (example_dispatcher [10, 20] 2, []) = Undefined \<and>
   update_queue (clearing (\<lambda>f p e. f = 2 \<and> e = 30) 5 example_work) 5 (example_dispatcher [10, 20] 2, []) \<noteq> Undefined"
proof -
  let ?q = "example_queue [10, 20] 2" and ?d = "example_dispatcher [10, 20] 2"
  let ?u = "delegate_connect 1 None :: (nat, nat) delegate" and ?v = "delegate_connect 2 None :: (nat, nat) delegate"
  have q: "find_queue 5 ?d = Some ?q" "list_all delegate_set (listeners ?q)" by (simp_all add: find_queue_def example_defs)
  have split: "listeners ?q = [?u] @ ?v # []" "items (events ?q) = [] @ 10 # [20]" "room (events ?q) = 2"
    by (simp_all add: example_queue_def)
  have sent: "length (queued example_acts 5 (listeners ?q) []) = 0" "length (sent example_acts 5 (rev []) 10) = 0"
    "length (sent_by example_acts 5 10 ?v) = 1" by (simp_all add: queued_def sent_def sent_by_def example_defs)
  note U = updating_from_listeners [OF q, where work = example_work and w = "[]"]
  have "update_queue (queueing example_acts example_work) 5 (?d, []) = Undefined"
    by (rule conjunct1 [OF U, rule_format, OF split(1) _ split(2), where acts = example_acts])
      (use split(2,3) sent in simp_all)
  moreover have "update_queue (clearing (\<lambda>f p e. f = 2 \<and> e = 20) 5 example_work) 5 (?d, []) = Undefined"
    using conjunct2 [OF U [where clears = "\<lambda>f p e. f = 2 \<and> e = 20"]] by (simp add: example_defs)
  moreover have "update_queue (clearing (\<lambda>f p e. f = 2 \<and> e = 30) 5 example_work) 5 (?d, []) \<noteq> Undefined"
    using conjunct2 [OF U [where clears = "\<lambda>f p e. f = 2 \<and> e = 30"]] by (simp add: example_defs)
  ultimately show ?thesis by blast
qed

end
