(* ===== verification/Mixin.thy ===== *)
theory Mixin
  imports Signal Storage
begin

text \<open>
  Storages of components with signals, of \<open>core/common/entt.hpp\<close> (\<open>basic_sigh_mixin\<close>): listeners are
  told of components that have been made or changed, and of those that are about to be destroyed.
  They are passed the registry, so the state is all of it: the storages, which are referred to by
  their place in the list and are never removed, and whatever else there is, \<open>'x\<close>. What a
  listener does is the parameter \<open>run\<close>.
\<close>

section \<open>Data\<close>

record ('a, 'f, 'p) mixin =
  store :: "'a storage"
  construction :: "('f, 'p) delegate list"
  destruction :: "('f, 'p) delegate list"
  updates :: "('f, 'p) delegate list"

record ('a, 'f, 'p, 'x) world =
  mixins :: "('a, 'f, 'p) mixin list"
  others :: 'x

type_synonym ('a, 'f, 'p, 'x) listener =
  "'f \<Rightarrow> 'p option \<Rightarrow> entity \<Rightarrow> ('a, 'f, 'p, 'x) world \<Rightarrow> (unit \<times> ('a, 'f, 'p, 'x) world) outcome"

definition mixin_new :: "bool \<Rightarrow> ('a, 'f, 'p) mixin" where
  "mixin_new in_place_delete = \<lparr>store = st_new in_place_delete, construction = [], destruction = [], updates = []\<rparr>"

definition mixin_swap :: "('a, 'f, 'p) mixin \<Rightarrow> ('a, 'f, 'p) mixin \<Rightarrow> ('a, 'f, 'p) mixin \<times> ('a, 'f, 'p) mixin" where
  "mixin_swap a b = (b, a)"

abbreviation store_of :: "nat \<Rightarrow> ('a, 'f, 'p, 'x) world \<Rightarrow> 'a storage" where
  "store_of k w \<equiv> store (mixins w ! k)"

definition set_mixin :: "nat \<Rightarrow> ('a, 'f, 'p) mixin \<Rightarrow> ('a, 'f, 'p, 'x) world \<Rightarrow> ('a, 'f, 'p, 'x) world" where
  "set_mixin k m w = w\<lparr>mixins := (mixins w)[k := m]\<rparr>"

abbreviation set_store :: "nat \<Rightarrow> 'a storage \<Rightarrow> ('a, 'f, 'p, 'x) world \<Rightarrow> ('a, 'f, 'p, 'x) world" where
  "set_store k st w \<equiv> set_mixin k ((mixins w ! k)\<lparr>store := st\<rparr>) w"

section \<open>Sinks\<close>

definition on_construct ::
    "'f \<Rightarrow> 'p option \<Rightarrow> nat \<Rightarrow> ('a, 'f, 'p, 'x) world \<Rightarrow> (('f, 'p) connection \<times> ('a, 'f, 'p, 'x) world) outcome" where
  "on_construct f p k w =
     obind (sink_connect f p k (\<lambda>j. construction (mixins w ! j))) (\<lambda>(c, sg).
       Ret (c, set_mixin k ((mixins w ! k)\<lparr>construction := sg k\<rparr>) w))"

definition on_destroy ::
    "'f \<Rightarrow> 'p option \<Rightarrow> nat \<Rightarrow> ('a, 'f, 'p, 'x) world \<Rightarrow> (('f, 'p) connection \<times> ('a, 'f, 'p, 'x) world) outcome" where
  "on_destroy f p k w =
     obind (sink_connect f p k (\<lambda>j. destruction (mixins w ! j))) (\<lambda>(c, sg).
       Ret (c, set_mixin k ((mixins w ! k)\<lparr>destruction := sg k\<rparr>) w))"

definition on_update ::
    "'f \<Rightarrow> 'p option \<Rightarrow> nat \<Rightarrow> ('a, 'f, 'p, 'x) world \<Rightarrow> (('f, 'p) connection \<times> ('a, 'f, 'p, 'x) world) outcome" where
  "on_update f p k w =
     obind (sink_connect f p k (\<lambda>j. updates (mixins w ! j))) (\<lambda>(c, sg).
       Ret (c, set_mixin k ((mixins w ! k)\<lparr>updates := sg k\<rparr>) w))"

section \<open>Making and changing components\<close>

definition tell ::
    "('a, 'f, 'p, 'x) listener \<Rightarrow> (('a, 'f, 'p) mixin \<Rightarrow> ('f, 'p) delegate list) \<Rightarrow> nat \<Rightarrow> entity \<Rightarrow>
     ('a, 'f, 'p, 'x) world \<Rightarrow> ('a, 'f, 'p, 'x) world outcome" where
  "tell run signal k e w = publish run (\<lambda>w1. signal (mixins w1 ! k)) (\<lambda>w1. Ret e) w"

text \<open>\<open>None\<close> is a constructor that throws: nobody is told then.\<close>

definition mix_emplace ::
    "('a, 'f, 'p, 'x) listener \<Rightarrow> nat \<Rightarrow> entity \<Rightarrow> 'a option \<Rightarrow> ('a, 'f, 'p, 'x) world \<Rightarrow> ('a option \<times> ('a, 'f, 'p, 'x) world) outcome" where
  "mix_emplace run k e x w =
     obind (st_emplace e x (store_of k w)) (\<lambda>(made, st).
       if made
       then obind (tell run construction k e (set_store k st w)) (\<lambda>w1. obind (st_get e (store_of k w1)) (\<lambda>y. Ret (Some y, w1)))
       else Ret (None, set_store k st w))"

definition mix_try_emplace ::
    "('a, 'f, 'p, 'x) listener \<Rightarrow> bool \<Rightarrow> 'a option \<Rightarrow> nat \<Rightarrow> entity \<Rightarrow> bool \<Rightarrow> 'a option \<Rightarrow>
     ('a, 'f, 'p, 'x) world \<Rightarrow> (nat option \<times> ('a, 'f, 'p, 'x) world) outcome" where
  "mix_try_emplace run copyable fallback k e force_back x w =
     obind (st_try_emplace copyable fallback e force_back x (store_of k w)) (\<lambda>(it, st).
       case it of
         Some (Suc i) \<Rightarrow> obind (deref (Suc i) (base st)) (\<lambda>d.
           obind (tell run construction k d (set_store k st w)) (\<lambda>w1. Ret (it, w1)))
       | _ \<Rightarrow> Ret (it, set_store k st w))"

definition mix_patch ::
    "('a, 'f, 'p, 'x) listener \<Rightarrow> nat \<Rightarrow> entity \<Rightarrow> ('a \<Rightarrow> 'a) list \<Rightarrow> ('a, 'f, 'p, 'x) world \<Rightarrow> ('a \<times> ('a, 'f, 'p, 'x) world) outcome" where
  "mix_patch run k e fs w =
     obind (st_patch e fs (store_of k w)) (\<lambda>(x, st).
     obind (tell run updates k e (set_store k st w)) (\<lambda>w1. obind (st_get e (store_of k w1)) (\<lambda>y. Ret (y, w1))))"

text \<open>The identifiers of a range are read back from the storage, by position.\<close>

fun tell_range ::
    "('a, 'f, 'p, 'x) listener \<Rightarrow> nat \<Rightarrow> nat list \<Rightarrow> ('a, 'f, 'p, 'x) world \<Rightarrow> ('a, 'f, 'p, 'x) world outcome" where
  "tell_range run k [] w = Ret w"
| "tell_range run k (i # is') w =
     obind (subscript i (base (store_of k w))) (\<lambda>e. obind (tell run construction k e w) (tell_range run k is'))"

definition mix_insert ::
    "('a, 'f, 'p, 'x) listener \<Rightarrow> nat \<Rightarrow> entity list \<Rightarrow> 'a \<Rightarrow> ('a, 'f, 'p, 'x) world \<Rightarrow> ('a, 'f, 'p, 'x) world outcome" where
  "mix_insert run k es x w =
     obind (st_insert es x (store_of k w)) (\<lambda>st.
       if construction (mixins w ! k) \<noteq> []
       then tell_range run k [length (elements (base (store_of k w)))..<length (elements (base st))] (set_store k st w)
       else Ret (set_store k st w))"

section \<open>Destroying components\<close>

text \<open>A listener that destroys the component it is told of makes this pop the end of the storage.\<close>

fun mix_pop_loop ::
    "('a, 'f, 'p, 'x) listener \<Rightarrow> nat \<Rightarrow> nat \<Rightarrow> nat \<Rightarrow> ('a, 'f, 'p, 'x) world \<Rightarrow> ('a, 'f, 'p, 'x) world outcome" where
  "mix_pop_loop run k first_it last_it w =
     (if first_it = last_it then Ret w
      else case first_it of
             0 \<Rightarrow> Undefined
           | Suc n \<Rightarrow> obind (deref first_it (base (store_of k w))) (\<lambda>e.
               obind (tell run destruction k e w) (\<lambda>w1.
               obind (ss_find (base (store_of k w1)) e) (\<lambda>it. if it = 0 then Undefined else
               obind (st_pop it (it - 1) (store_of k w1)) (\<lambda>st. mix_pop_loop run k n last_it (set_store k st w1))))))"

declare mix_pop_loop.simps [simp del]

definition mix_pop ::
    "('a, 'f, 'p, 'x) listener \<Rightarrow> nat \<Rightarrow> nat \<Rightarrow> nat \<Rightarrow> ('a, 'f, 'p, 'x) world \<Rightarrow> ('a, 'f, 'p, 'x) world outcome" where
  "mix_pop run k first_it last_it w =
     (if destruction (mixins w ! k) = []
      then obind (st_pop first_it last_it (store_of k w)) (\<lambda>st. Ret (set_store k st w))
      else mix_pop_loop run k first_it last_it w)"

definition mix_erase ::
    "('a, 'f, 'p, 'x) listener \<Rightarrow> nat \<Rightarrow> entity \<Rightarrow> ('a, 'f, 'p, 'x) world \<Rightarrow> ('a, 'f, 'p, 'x) world outcome" where
  "mix_erase run k e w = obind (to_iterator (base (store_of k w)) e) (\<lambda>it. mix_pop run k it (it - 1) w)"

definition mix_remove ::
    "('a, 'f, 'p, 'x) listener \<Rightarrow> nat \<Rightarrow> entity \<Rightarrow> ('a, 'f, 'p, 'x) world \<Rightarrow> (bool \<times> ('a, 'f, 'p, 'x) world) outcome" where
  "mix_remove run k e w =
     obind (contains (base (store_of k w)) e) (\<lambda>found.
       if found then obind (mix_erase run k e w) (\<lambda>w1. Ret (True, w1)) else Ret (False, w))"

text \<open>Before all components are destroyed, the listeners are told of each, from the last to the first.\<close>

fun tell_down :: "('a, 'f, 'p, 'x) listener \<Rightarrow> nat \<Rightarrow> nat \<Rightarrow> ('a, 'f, 'p, 'x) world \<Rightarrow> ('a, 'f, 'p, 'x) world outcome" where
  "tell_down run k 0 w = Ret w"
| "tell_down run k (Suc n) w =
     obind (deref (Suc n) (base (store_of k w))) (\<lambda>e.
     obind (if mode (base (store_of k w)) = In_place \<and> is_tombstone e then Ret w else tell run destruction k e w)
       (tell_down run k n))"

definition mix_pop_all :: "('a, 'f, 'p, 'x) listener \<Rightarrow> nat \<Rightarrow> ('a, 'f, 'p, 'x) world \<Rightarrow> ('a, 'f, 'p, 'x) world outcome" where
  "mix_pop_all run k w =
     obind (if destruction (mixins w ! k) \<noteq> [] then tell_down run k (length (elements (base (store_of k w)))) w else Ret w)
       (\<lambda>w1. obind (st_pop_all (store_of k w1)) (\<lambda>st. Ret (set_store k st w1)))"

definition mix_clear :: "('a, 'f, 'p, 'x) listener \<Rightarrow> nat \<Rightarrow> ('a, 'f, 'p, 'x) world \<Rightarrow> ('a, 'f, 'p, 'x) world outcome" where
  "mix_clear run k w =
     obind (mix_pop_all run k w) (\<lambda>w1. let s1 = store_of k w1 in
     obind (compact (base s1)) (\<lambda>b. entt_assert (length (elements b) = 0)
       (Ret (set_store k (s1\<lparr>base := b\<lparr>head := policy_to_head (mode b), elements := []\<rparr>\<rparr>) w1))))"

text \<open>The loop over all pools when an identifier is destroyed.\<close>

fun mix_remove_all ::
    "('a, 'f, 'p, 'x) listener \<Rightarrow> entity \<Rightarrow> nat \<Rightarrow> ('a, 'f, 'p, 'x) world \<Rightarrow> ('a, 'f, 'p, 'x) world outcome" where
  "mix_remove_all run e 0 w = Ret w"
| "mix_remove_all run e (Suc k) w = obind (mix_remove run k e w) (\<lambda>(b, w1). mix_remove_all run e k w1)"

end
