(* ===== verification/Group.thy ===== *)
theory Group
  imports Mixin
begin

text \<open>
  Groups of \<open>core/common/entt.hpp\<close>: \<open>group_handler\<close> and \<open>basic_group\<close>. A group holds the identifiers that
  are in all of some storages and in none of others, and listens to these storages to keep up. One
  that owns storages keeps its identifiers at their front, in the same order in each; one that
  owns none keeps them in a set of its own. Component types are the places of their storages, and
  \<open>others\<close> of the world is the list of handlers, which are referred to by their place in it.
\<close>

section \<open>Data\<close>

datatype hook = Group_push_on_construct | Group_push_on_destroy | Group_remove_if

record group_handler =
  owned_pools :: "nat list"
  got_pools :: "nat list"
  filter_pools :: "nat list"
  group_len :: nat
  group_elem :: sparse_set

type_synonym 'a grouped = "('a, hook, nat, group_handler list) world"

definition handler_new :: "nat list \<Rightarrow> nat list \<Rightarrow> nat list \<Rightarrow> group_handler" where
  "handler_new os gs fs = \<lparr>owned_pools = os, got_pools = gs, filter_pools = fs, group_len = 0, group_elem = ss_new Swap_and_pop\<rparr>"

definition set_handler :: "nat \<Rightarrow> group_handler \<Rightarrow> 'a grouped \<Rightarrow> 'a grouped" where
  "set_handler g h w = w\<lparr>others := (others w)[g := h]\<rparr>"

section \<open>Tests\<close>

fun pools_contain :: "nat list \<Rightarrow> entity \<Rightarrow> 'a grouped \<Rightarrow> bool outcome" where
  "pools_contain [] e w = Ret True"
| "pools_contain (k # ks) e w = obind (st_contains (store_of k w) e) (\<lambda>found. if found then pools_contain ks e w else Ret False)"

fun pools_lack :: "nat list \<Rightarrow> entity \<Rightarrow> 'a grouped \<Rightarrow> bool outcome" where
  "pools_lack [] e w = Ret True"
| "pools_lack (k # ks) e w = obind (st_contains (store_of k w) e) (\<lambda>found. if \<not> found then pools_lack ks e w else Ret False)"

fun pools_count :: "nat list \<Rightarrow> entity \<Rightarrow> 'a grouped \<Rightarrow> nat outcome" where
  "pools_count [] e w = Ret 0"
| "pools_count (k # ks) e w =
     obind (st_contains (store_of k w) e) (\<lambda>found. obind (pools_count ks e w) (\<lambda>n. Ret ((if found then 1 else 0) + n)))"

section \<open>Handlers that own storages\<close>

fun group_swap :: "nat \<Rightarrow> entity \<Rightarrow> nat list \<Rightarrow> 'a grouped \<Rightarrow> 'a grouped outcome" where
  "group_swap pos e [] w = Ret w"
| "group_swap pos e (k # ks) w =
     obind (read_at pos (base (store_of k w))) (\<lambda>d.
     obind (st_swap_elements d e (store_of k w)) (\<lambda>st. group_swap pos e ks (set_store k st w)))"

definition in_front :: "nat \<Rightarrow> nat \<Rightarrow> entity \<Rightarrow> 'a grouped \<Rightarrow> bool outcome" where
  "in_front len k e w = obind (index (base (store_of k w)) e) (\<lambda>i. Ret (i < len))"

definition outside_front :: "group_handler \<Rightarrow> entity \<Rightarrow> 'a grouped \<Rightarrow> bool outcome" where
  "outside_front h e w =
     (case owned_pools h @ got_pools h of
        [] \<Rightarrow> Undefined
      | k # ks \<Rightarrow> obind (st_contains (store_of k w) e) (\<lambda>found.
          if found then obind (in_front (group_len h) k e w) (\<lambda>b. if \<not> b then pools_contain ks e w else Ret False)
          else Ret False))"

definition owning_enter :: "nat \<Rightarrow> entity \<Rightarrow> 'a grouped \<Rightarrow> 'a grouped outcome" where
  "owning_enter g e w =
     (let h = others w ! g in
      group_swap (group_len h) e (owned_pools h) (set_handler g (h\<lparr>group_len := group_len h + 1\<rparr>) w))"

definition owning_push_on_construct :: "nat \<Rightarrow> entity \<Rightarrow> 'a grouped \<Rightarrow> 'a grouped outcome" where
  "owning_push_on_construct g e w =
     (let h = others w ! g in
      obind (outside_front h e w) (\<lambda>b. if b
        then obind (pools_lack (filter_pools h) e w) (\<lambda>c. if c then owning_enter g e w else Ret w) else Ret w))"

definition owning_push_on_destroy :: "nat \<Rightarrow> entity \<Rightarrow> 'a grouped \<Rightarrow> 'a grouped outcome" where
  "owning_push_on_destroy g e w =
     (let h = others w ! g in
      obind (outside_front h e w) (\<lambda>b. if b
        then obind (pools_count (filter_pools h) e w) (\<lambda>n. if n = 1 then owning_enter g e w else Ret w) else Ret w))"

definition owning_remove_if :: "nat \<Rightarrow> entity \<Rightarrow> 'a grouped \<Rightarrow> 'a grouped outcome" where
  "owning_remove_if g e w =
     (let h = others w ! g in
      case owned_pools h @ got_pools h of
        [] \<Rightarrow> Undefined
      | k # ks \<Rightarrow> obind (st_contains (store_of k w) e) (\<lambda>found.
          if found then obind (in_front (group_len h) k e w) (\<lambda>b. if b
            then group_swap (group_len h - 1) e (owned_pools h) (set_handler g (h\<lparr>group_len := group_len h - 1\<rparr>) w)
            else Ret w)
          else Ret w))"

section \<open>Handlers that own none\<close>

definition free_enter :: "nat \<Rightarrow> entity \<Rightarrow> 'a grouped \<Rightarrow> 'a grouped outcome" where
  "free_enter g e w =
     (let h = others w ! g in obind (push e (group_elem h)) (\<lambda>(it, s). Ret (set_handler g (h\<lparr>group_elem := s\<rparr>) w)))"

definition free_outside :: "group_handler \<Rightarrow> entity \<Rightarrow> 'a grouped \<Rightarrow> bool outcome" where
  "free_outside h e w =
     obind (contains (group_elem h) e) (\<lambda>found. if \<not> found then pools_contain (got_pools h) e w else Ret False)"

definition free_push_on_construct :: "nat \<Rightarrow> entity \<Rightarrow> 'a grouped \<Rightarrow> 'a grouped outcome" where
  "free_push_on_construct g e w =
     (let h = others w ! g in
      obind (free_outside h e w) (\<lambda>b. if b
        then obind (pools_lack (filter_pools h) e w) (\<lambda>c. if c then free_enter g e w else Ret w) else Ret w))"

definition free_push_on_destroy :: "nat \<Rightarrow> entity \<Rightarrow> 'a grouped \<Rightarrow> 'a grouped outcome" where
  "free_push_on_destroy g e w =
     (let h = others w ! g in
      obind (free_outside h e w) (\<lambda>b. if b
        then obind (pools_count (filter_pools h) e w) (\<lambda>n. if n = 1 then free_enter g e w else Ret w) else Ret w))"

definition free_remove_if :: "nat \<Rightarrow> entity \<Rightarrow> 'a grouped \<Rightarrow> 'a grouped outcome" where
  "free_remove_if g e w =
     (let h = others w ! g in obind (remove e (group_elem h)) (\<lambda>(b, s). Ret (set_handler g (h\<lparr>group_elem := s\<rparr>) w)))"

section \<open>Listening\<close>

fun handle_hook :: "hook \<Rightarrow> nat \<Rightarrow> entity \<Rightarrow> 'a grouped \<Rightarrow> 'a grouped outcome" where
  "handle_hook Group_push_on_construct g e w =
     (if owned_pools (others w ! g) = [] then free_push_on_construct g e w else owning_push_on_construct g e w)"
| "handle_hook Group_push_on_destroy g e w =
     (if owned_pools (others w ! g) = [] then free_push_on_destroy g e w else owning_push_on_destroy g e w)"
| "handle_hook Group_remove_if g e w =
     (if owned_pools (others w ! g) = [] then free_remove_if g e w else owning_remove_if g e w)"

definition notify :: "hook \<Rightarrow> nat option \<Rightarrow> entity \<Rightarrow> 'a grouped \<Rightarrow> (unit \<times> 'a grouped) outcome" where
  "notify f p e w = (case p of None \<Rightarrow> Undefined | Some g \<Rightarrow> obind (handle_hook f g e w) (\<lambda>w1. Ret ((), w1)))"

fun listen_to_pools :: "nat \<Rightarrow> nat list \<Rightarrow> 'a grouped \<Rightarrow> 'a grouped outcome" where
  "listen_to_pools g [] w = Ret w"
| "listen_to_pools g (k # ks) w =
     obind (on_construct Group_push_on_construct (Some g) k w) (\<lambda>(c1, w1).
     obind (on_destroy Group_remove_if (Some g) k w1) (\<lambda>(c2, w2). listen_to_pools g ks w2))"

fun listen_to_filters :: "nat \<Rightarrow> nat list \<Rightarrow> 'a grouped \<Rightarrow> 'a grouped outcome" where
  "listen_to_filters g [] w = Ret w"
| "listen_to_filters g (k # ks) w =
     obind (on_construct Group_remove_if (Some g) k w) (\<lambda>(c1, w1).
     obind (on_destroy Group_push_on_destroy (Some g) k w1) (\<lambda>(c2, w2). listen_to_filters g ks w2))"

text \<open>The identifiers that are there already: by position, or with the iterator of a set.\<close>

fun fill_up :: "nat \<Rightarrow> nat \<Rightarrow> nat list \<Rightarrow> 'a grouped \<Rightarrow> 'a grouped outcome" where
  "fill_up g k [] w = Ret w"
| "fill_up g k (i # is') w =
     obind (read_at i (base (store_of k w))) (\<lambda>e. obind (owning_push_on_construct g e w) (fill_up g k is'))"

fun fill_down :: "nat \<Rightarrow> nat \<Rightarrow> nat \<Rightarrow> 'a grouped \<Rightarrow> 'a grouped outcome" where
  "fill_down g k 0 w = Ret w"
| "fill_down g k (Suc n) w =
     obind (deref (Suc n) (base (store_of k w))) (\<lambda>e. obind (free_push_on_construct g e w) (fill_down g k n))"

definition fill_group :: "nat \<Rightarrow> 'a grouped \<Rightarrow> 'a grouped outcome" where
  "fill_group g w =
     (let h = others w ! g in
      case owned_pools h @ got_pools h of
        [] \<Rightarrow> Undefined
      | k # ks \<Rightarrow> let n = length (elements (base (store_of k w))) in
          if owned_pools h = [] then fill_down g k n w else fill_up g k [0..<n] w)"

definition group_make :: "nat list \<Rightarrow> nat list \<Rightarrow> nat list \<Rightarrow> 'a grouped \<Rightarrow> 'a grouped outcome" where
  "group_make os gs fs w =
     (let g = length (others w) in
      obind (listen_to_pools g (os @ gs) (w\<lparr>others := others w @ [handler_new os gs fs]\<rparr>)) (\<lambda>w1.
      obind (listen_to_filters g fs w1) (fill_group g)))"

section \<open>The registry's groups\<close>

definition owned_count :: "group_handler \<Rightarrow> nat list \<Rightarrow> nat" where
  "owned_count h ks = length (filter (\<lambda>k. k \<in> set (owned_pools h)) ks)"

fun find_group :: "nat list \<Rightarrow> nat list \<Rightarrow> nat list \<Rightarrow> group_handler list \<Rightarrow> nat option" where
  "find_group os gs fs [] = None"
| "find_group os gs fs (h # hs) =
     (if owned_pools h = os \<and> got_pools h = gs \<and> filter_pools h = fs then Some 0
      else map_option Suc (find_group os gs fs hs))"

definition reg_group :: "nat list \<Rightarrow> nat list \<Rightarrow> nat list \<Rightarrow> 'a grouped \<Rightarrow> (nat \<times> 'a grouped) outcome" where
  "reg_group os gs fs w =
     (case find_group os gs fs (others w) of
        Some g \<Rightarrow> Ret (g, w)
      | None \<Rightarrow> obind (group_make os gs fs w) (\<lambda>w1.
          let made = Ret (length (others w), w1) in
          if os = [] then made else entt_assert (\<forall>h \<in> set (others w). owned_count h os = 0) made))"

definition reg_group_if_exists :: "nat list \<Rightarrow> nat list \<Rightarrow> nat list \<Rightarrow> 'a grouped \<Rightarrow> nat option" where
  "reg_group_if_exists os gs fs w = find_group os gs fs (others w)"

definition reg_owned :: "nat list \<Rightarrow> 'a grouped \<Rightarrow> bool" where
  "reg_owned ks w \<longleftrightarrow> (\<exists>h \<in> set (others w). owned_count h ks \<noteq> 0)"

text \<open>Sorting a storage, unless it is owned.\<close>

definition reg_sort :: "nat \<Rightarrow> (entity list \<Rightarrow> entity list) \<Rightarrow> 'a grouped \<Rightarrow> 'a grouped outcome" where
  "reg_sort k algo w =
     entt_assert (\<not> reg_owned [k] w) (obind (st_sort algo (store_of k w)) (\<lambda>st. Ret (set_store k st w)))"

definition reg_sort_as :: "nat \<Rightarrow> nat \<Rightarrow> 'a grouped \<Rightarrow> 'a grouped outcome" where
  "reg_sort_as k from_k w =
     entt_assert (\<not> reg_owned [k] w)
       (obind (st_sort_as (rev (elements (base (store_of from_k w)))) (store_of k w)) (\<lambda>st. Ret (set_store k st w)))"

section \<open>Using a group\<close>

text \<open>What a group shows, from begin to end.\<close>

definition group_ids :: "nat \<Rightarrow> 'a grouped \<Rightarrow> entity list" where
  "group_ids g w =
     (let h = others w ! g in
      case owned_pools h of
        [] \<Rightarrow> rev (elements (group_elem h))
      | k # ks \<Rightarrow> rev (take (group_len h) (elements (base (store_of k w)))))"

definition group_size :: "nat \<Rightarrow> 'a grouped \<Rightarrow> nat" where
  "group_size g w =
     (let h = others w ! g in if owned_pools h = [] then length (elements (group_elem h)) else group_len h)"

definition group_contains :: "nat \<Rightarrow> entity \<Rightarrow> 'a grouped \<Rightarrow> bool outcome" where
  "group_contains g e w =
     (let h = others w ! g in
      case owned_pools h of
        [] \<Rightarrow> contains (group_elem h) e
      | k # ks \<Rightarrow> obind (st_contains (store_of k w) e) (\<lambda>found. if found then in_front (group_len h) k e w else Ret False))"

definition group_front :: "nat \<Rightarrow> 'a grouped \<Rightarrow> entity" where
  "group_front g w = (case group_ids g w of [] \<Rightarrow> null_entity | e # es \<Rightarrow> e)"

definition group_back :: "nat \<Rightarrow> 'a grouped \<Rightarrow> entity" where
  "group_back g w = (case group_ids g w of [] \<Rightarrow> null_entity | es \<Rightarrow> last es)"

definition group_empty :: "nat \<Rightarrow> 'a grouped \<Rightarrow> bool" where
  "group_empty g w =
     (let h = others w ! g in if owned_pools h = [] then elements (group_elem h) = [] else group_len h = 0)"

text \<open>An iterator to an identifier, as far as the group has it, and the identifier at a position.\<close>

definition group_find :: "nat \<Rightarrow> entity \<Rightarrow> 'a grouped \<Rightarrow> nat outcome" where
  "group_find g e w =
     (let h = others w ! g in
      case owned_pools h of
        [] \<Rightarrow> ss_find (group_elem h) e
      | k # ks \<Rightarrow> obind (ss_find (base (store_of k w)) e) (\<lambda>it. Ret (if it \<le> group_len h then it else 0)))"

definition group_at :: "nat \<Rightarrow> nat \<Rightarrow> 'a grouped \<Rightarrow> entity outcome" where
  "group_at g pos w =
     (let h = others w ! g in
      case owned_pools h of
        [] \<Rightarrow> if pos < length (elements (group_elem h)) then read_at (length (elements (group_elem h)) - 1 - pos) (group_elem h) else Undefined
      | k # ks \<Rightarrow> if pos < group_len h then read_at (group_len h - 1 - pos) (base (store_of k w)) else Undefined)"

fun get_all :: "nat list \<Rightarrow> entity \<Rightarrow> 'a grouped \<Rightarrow> 'a list outcome" where
  "get_all [] e w = Ret []"
| "get_all (k # ks) e w = obind (st_get e (store_of k w)) (\<lambda>x. obind (get_all ks e w) (\<lambda>xs. Ret (x # xs)))"

definition group_get :: "nat \<Rightarrow> entity \<Rightarrow> 'a grouped \<Rightarrow> 'a list outcome" where
  "group_get g e w = (let h = others w ! g in get_all (owned_pools h @ got_pools h) e w)"

text \<open>
  \<open>each\<close>: the objects of owned storages are read by position, at the one the iterator is at, and
  those of the others by identifier.
\<close>

fun get_owned :: "nat list \<Rightarrow> nat \<Rightarrow> 'a grouped \<Rightarrow> 'a list outcome" where
  "get_owned [] i w = Ret []"
| "get_owned (k # ks) i w = obind (read_element i (store_of k w)) (\<lambda>x. obind (get_owned ks i w) (\<lambda>xs. Ret (x # xs)))"

fun each_down :: "nat list \<Rightarrow> nat list \<Rightarrow> (nat \<Rightarrow> 'a grouped \<Rightarrow> entity outcome) \<Rightarrow> nat \<Rightarrow> 'a grouped \<Rightarrow> (entity \<times> 'a list) list outcome" where
  "each_down os gs ids 0 w = Ret []"
| "each_down os gs ids (Suc n) w =
     obind (ids n w) (\<lambda>e. obind (get_owned os n w) (\<lambda>xs. obind (get_all gs e w) (\<lambda>ys.
     obind (each_down os gs ids n w) (\<lambda>rest. Ret ((e, xs @ ys) # rest)))))"

definition group_each :: "nat \<Rightarrow> 'a grouped \<Rightarrow> (entity \<times> 'a list) list outcome" where
  "group_each g w =
     (let h = others w ! g in
      case owned_pools h of
        [] \<Rightarrow> each_down [] (got_pools h) (\<lambda>i w1. read_at i (group_elem (others w1 ! g))) (length (elements (group_elem h))) w
      | k # ks \<Rightarrow> each_down (k # ks) (got_pools h) (\<lambda>i w1. read_at i (base (store_of k w1))) (group_len h) w)"

text \<open>
  Sorting a group: an owning one sorts the front of its first storage and then swaps all its other
  storages into that order, those that it does not own too.
\<close>

fun align_others :: "nat \<Rightarrow> nat list \<Rightarrow> nat \<Rightarrow> 'a grouped \<Rightarrow> 'a grouped outcome" where
  "align_others k ks 0 w = Ret w"
| "align_others k ks (Suc n) w =
     obind (read_at n (base (store_of k w))) (\<lambda>e. obind (group_swap n e ks w) (align_others k ks n))"

definition group_sort :: "nat \<Rightarrow> (entity list \<Rightarrow> entity list) \<Rightarrow> 'a grouped \<Rightarrow> 'a grouped outcome" where
  "group_sort g algo w =
     (let h = others w ! g in
      case owned_pools h @ got_pools h of
        [] \<Rightarrow> Undefined
      | k # ks \<Rightarrow>
          if owned_pools h = [] then obind (ss_sort algo (group_elem h)) (\<lambda>s. Ret (set_handler g (h\<lparr>group_elem := s\<rparr>) w))
          else obind (st_sort_n (group_len h) algo (store_of k w)) (\<lambda>st. align_others k ks (group_len h) (set_store k st w)))"

definition group_sort_as :: "nat \<Rightarrow> entity list \<Rightarrow> 'a grouped \<Rightarrow> 'a grouped outcome" where
  "group_sort_as g es w =
     (let h = others w ! g in obind (sort_as es (group_elem h)) (\<lambda>s. Ret (set_handler g (h\<lparr>group_elem := s\<rparr>) w)))"

end
