(* ===== verification/StorageSort.thy ===== *)
theory StorageSort
  imports StorageCorrect EntityStorageCorrect
begin

text \<open>
  Swapping and sorting a packed storage: the objects follow their identifiers, so the map of the
  storage stays what it is, and only the order of the packed array changes.
\<close>

section \<open>Swapping\<close>

lemma packed_storage:
  assumes "st_ok s" "mode (base s) \<noteq> In_place"
  shows "packed_ok (base s)" "positions (base s) = {..<length (elements (base s))}"
    "dom (comps s) = set (elements (base s))" "length (elements (base s)) < 2 ^ 20"
proof -
  show p: "packed_ok (base s)" using st_okD(1) [OF assms(1)] assms(2) stable_okD(1) by (auto simp: base_ok_def)
  then show P: "positions (base s) = {..<length (elements (base s))}" by (rule positions_packed)
  show "dom (comps s) = set (elements (base s))" using dom_comps [OF assms(1)] unfolding P by simp
  show "length (elements (base s)) < 2 ^ 20" using p placedD(2) by blast
qed

text \<open>A storage whose objects are those of another one, at other positions.\<close>

lemma storage_permuted:
  assumes ok: "st_ok s" "mode (base s) \<noteq> In_place" and b: "packed_ok b" "length (elements b) = length (elements (base s))"
    and t: "payload_ok t" "base t = b"
    and perm: "\<And>i. i < length (elements b) \<Longrightarrow> \<exists>j < length (elements b). elements b ! i = elements (base s) ! j \<and> object_at t i = object_at s j"
    and rest: "\<And>i. length (elements b) \<le> i \<Longrightarrow> object_at t i = object_at s i"
    and same: "set (elements b) = set (elements (base s))"
  shows "st_ok t" "comps t = comps s"
proof -
  note P = packed_storage [OF ok]
  note D = st_okD [OF ok(1)]
  have Pb: "positions b = {..<length (elements b)}" by (rule positions_packed [OF b(1)])
  have "object_at t i \<noteq> None \<longleftrightarrow> i < length (elements b)" for i
  proof (cases "i < length (elements b)")
    case True
    with perm obtain j where "j < length (elements b)" "object_at t i = object_at s j" by blast
    then show ?thesis using True D(3) [of j] P(2) b(2) by simp
  next
    case False
    then show ?thesis using rest [of i] D(3) [of i] P(2) b(2) by simp
  qed
  then show tok: "st_ok t" using b(1) t by (auto simp: st_ok_def base_ok_def Pb)
  show "comps t = comps s"
  proof
    fix e
    show "comps t e = comps s e"
    proof (cases "e \<in> set (elements b)")
      case True
      then obtain i where i: "i < length (elements b)" "elements b ! i = e" by (auto simp: in_set_conv_nth)
      with perm obtain j where j: "j < length (elements b)" "elements (base s) ! j = e" "object_at t i = object_at s j" by metis
      have "comps t e = object_at t i" using comps_position [of t i] st_okD(1) [OF tok] i by (simp add: t Pb)
      moreover have "comps s e = object_at s j" using comps_position [of s j] D(1) j b(2) P(2) by simp
      ultimately show ?thesis using j(3) by simp
    next
      case False
      have "dom (comps t) = set (elements b)" using dom_comps [OF tok] by (simp add: t(2) Pb)
      with False same P(3) show ?thesis by (metis domIff)
    qed
  qed
qed

lemma swap_objects_spec:
  assumes ok: "payload_ok s" and i: "i < 2 ^ 64" "object_at s i \<noteq> None" and j: "j < 2 ^ 64" "object_at s j \<noteq> None"
  shows "\<exists>t. swap_objects i j s = Ret t \<and> payload_ok t \<and> base t = base s \<and>
    (\<forall>k. object_at t k = (if k = i then object_at s j else if k = j then object_at s i else object_at s k))"
proof -
  obtain x y where x: "object_at s i = Some x" "object_at s j = Some y" using i(2) j(2) by auto
  let ?s1 = "put_object i (Some y) s"
  have page: "i div packed_page < length (payload s)" "j div packed_page < length (payload ?s1)"
    using object_page [OF i(2)] object_page [OF j(2)] by simp_all
  have obj: "object_at ?s1 k = (if k = i then Some y else object_at s k)" for k by (rule object_at_put [OF ok page(1)])
  have ok1: "payload_ok ?s1" using ok by simp
  let ?t = "put_object j (Some x) ?s1"
  have "swap_objects i j s = Ret ?t"
    using x read_element_eq [OF ok i(1)] read_element_eq [OF ok j(1)] write_element_eq [OF ok i(1) page(1)]
      write_element_eq [OF ok1 j(1) page(2)] by (simp add: swap_objects_def)
  moreover have "object_at ?t k = (if k = i then object_at s j else if k = j then object_at s i else object_at s k)" for k
    using object_at_put [OF ok1 page(2)] obj x by auto
  ultimately show ?thesis using ok1 by (intro exI [of _ ?t]) simp
qed

lemma swap_elements_spec:
  assumes ok: "st_ok s" "mode (base s) \<noteq> In_place" and i: "i < length (elements (base s))" and j: "j < length (elements (base s))"
  shows "\<exists>t. st_swap_elements (elements (base s) ! i) (elements (base s) ! j) s = Ret t \<and> st_ok t \<and> mode (base t) = mode (base s) \<and>
    elements (base t) = (elements (base s))[i := elements (base s) ! j, j := elements (base s) ! i] \<and> comps t = comps s"
proof -
  note P = packed_storage [OF ok] and D = st_okD [OF ok(1)]
  let ?es = "elements (base s)"
  have ij: "i \<in> positions (base s)" "j \<in> positions (base s)" using i j P(2) by simp_all
  have lt: "i < 2 ^ 64" "j < 2 ^ 64" using i j P(4) by simp_all
  obtain t0 where t0: "swap_objects i j s = Ret t0" "payload_ok t0" "base t0 = base s"
    and obj: "\<And>k. object_at t0 k = (if k = i then object_at s j else if k = j then object_at s i else object_at s k)"
    using swap_objects_spec [OF D(2) lt(1) _ lt(2)] D(3) ij by blast
  have "full (base s)" using P(1) by simp
  from swap_at_spec [OF this i j] obtain b where b: "swap_at i j (base s) = Ret b" "full b" "elements b = ?es[i := ?es ! j, j := ?es ! i]"
    "mode b = mode (base s)" by blast
  have pb: "packed_ok b" using b(2,4) P(1) by simp
  let ?t = "t0\<lparr>base := b\<rparr>"
  have "\<exists>l < length (elements b). elements b ! k = ?es ! l \<and> object_at ?t k = object_at s l" if "k < length (elements b)" for k
    using i j that by (intro exI [of _ "if k = i then j else if k = j then i else k"]) (auto simp: b(3) obj nth_list_update)
  moreover have "object_at ?t k = object_at s k" if "length (elements b) \<le> k" for k using i j that by (auto simp: b(3) obj)
  ultimately have "st_ok ?t" "comps ?t = comps s"
    using storage_permuted [OF ok pb, of ?t] t0(2) i j by (simp_all add: b(3) set_swap)
  moreover have "st_swap_elements (?es ! i) (?es ! j) s = Ret ?t"
    using base_index(1) [OF D(1) ij(1)] base_index(1) [OF D(1) ij(2)] t0 b(1) ok(2)
    by (simp add: st_swap_elements_def st_swap_or_move_def)
  ultimately show ?thesis using b by (intro exI [of _ ?t]) simp
qed

section \<open>Order\<close>

text \<open>What adding and removing do to the order of a packed storage.\<close>

lemma write_element_base: "write_element i x s = Ret t \<Longrightarrow> base t = base s"
  by (auto simp: write_element_def obind_eq_Ret_iff split: if_splits)

lemma emplace_order:
  assumes ok: "st_ok s" "mode (base s) \<noteq> In_place" and room: "length (elements (base s)) < 2 ^ 20 - 1" and t: "st_emplace e x s = Ret (made, t)"
  shows "elements (base t) = elements (base s) @ (if x = None then [] else [e])"
proof -
  note K = packed_storage [OF ok]
  have push: "push e (base s) = try_emplace e False (base s)" using K(1) by (simp add: push_def)
  obtain b where b: "try_emplace e False (base s) = Ret (length (elements (base s)) + 1, b)" "packed_ok b"
    "elements b = elements (base s) @ [e]"
    using push_packed [OF K(1) room, of e] t unfolding push by (auto simp: st_emplace_def emplace_element_def split: if_splits)
  show ?thesis
  proof (cases x)
    case (Some v)
    then show ?thesis using t b(1,3)
      by (auto simp: st_emplace_def emplace_element_def Let_def obind_eq_Ret_iff payload_assure_def dest!: write_element_base split: if_splits)
  next
    case None
    obtain c where "swap_and_pop (length (elements (base s)) + 1) b = Ret c" "elements c = swap_pop (length (elements (base s))) (elements b)"
      using swap_and_pop_spec [OF b(2), of "length (elements (base s))"] b(3) by auto
    then show ?thesis using t b None
      by (auto simp: st_emplace_def emplace_element_def Let_def obind_eq_Ret_iff payload_assure_def pop.simps pop_one_def swap_pop_def split: if_splits)
  qed
qed

lemma erase_order:
  assumes ok: "st_ok s" "mode (base s) \<noteq> In_place" and i: "i < length (elements (base s))" and t: "st_erase (elements (base s) ! i) s = Ret t"
  shows "elements (base t) = swap_pop i (elements (base s))"
proof -
  note K = packed_storage [OF ok] and D = st_okD [OF ok(1)]
  have iP: "i \<in> positions (base s)" using i K(2) by simp
  obtain t1 b where t1: "st_pop_one (i + 1) s = Ret t1" "base t1 = b" "swap_and_pop (i + 1) (base s) = Ret b"
    using erase_packed_objects [OF ok iP] by blast
  have "st_pop i i t1 = Ret t1" by (simp add: st_pop.simps)
  then have "st_erase (elements (base s) ! i) s = Ret t1"
    using base_index(2) [OF D(1) iP] t1(1) by (simp add: st_erase_def st_pop.simps [of "Suc i"])
  moreover have "elements b = swap_pop i (elements (base s))" using base_pop_packed [OF D(1) ok(2) iP] t1(3) by auto
  ultimately show ?thesis using t t1(2) by simp
qed

section \<open>Sorting\<close>

text \<open>
  While a storage is sorted its packed array is \<open>P\<close> already, but the sparse array says that the
  identifier at position \<open>i\<close> is at \<open>place i\<close>, and its object is at \<open>where_is i\<close>.
\<close>

definition sorting :: "entity list \<Rightarrow> 'a storage \<Rightarrow> (nat \<Rightarrow> nat) \<Rightarrow> (nat \<Rightarrow> nat) \<Rightarrow> 'a storage \<Rightarrow> bool" where
  "sorting P s place where_is t \<longleftrightarrow>
     elements (base t) = P \<and> mode (base t) = mode (base s) \<and> head (base t) = head (base s) \<and> pages_ok (base t) \<and> payload_ok t \<and>
     (\<forall>i<length P. lookup (base t) (P ! i) = Some (combine (of_nat (place i)) (P ! i)) \<and> object_at t (where_is i) = comps s (P ! i)) \<and>
     (\<forall>i\<ge>length P. object_at t i = None) \<and>
     (\<forall>e. to_entity e \<notin> to_entity ` set P \<longrightarrow> lookup (base t) e = None \<or> lookup (base t) e = Some null_entity)"

lemma sortingD:
  assumes "sorting P s place where_is t"
  shows "elements (base t) = P" "mode (base t) = mode (base s)" "head (base t) = head (base s)" "pages_ok (base t)" "payload_ok t"
    "i < length P \<Longrightarrow> lookup (base t) (P ! i) = Some (combine (of_nat (place i)) (P ! i))"
    "i < length P \<Longrightarrow> object_at t (where_is i) = comps s (P ! i)" "length P \<le> i \<Longrightarrow> object_at t i = None"
    "to_entity e \<notin> to_entity ` set P \<Longrightarrow> lookup (base t) e = None \<or> lookup (base t) e = Some null_entity"
  using assms by (simp_all add: sorting_def)

lemma index_lookup:
  assumes ok: "pages_ok b" and e: "lookup b e = Some (combine (of_nat p) e)" and p: "p < 2 ^ 20 - 1"
  shows "index b e = Ret p"
proof -
  have "((to_integral null_entity AND NOT entity_mask) AND to_integral e) XOR to_integral (combine (of_nat p) e) < entity_mask"
    unfolding contains_test using not_mask_position [OF p] by simp
  then have "contains b e = Ret True" using read_ref_eq [OF ok e] e by (simp add: contains_def sparse_ptr_eq Let_def)
  moreover have "p < 2 ^ 20" using p by simp
  ultimately show ?thesis using read_ref_eq [OF ok e] e by (simp add: index_def sparse_ref_eq to_entity_of_nat)
qed

text \<open>One step of the loop writes the place of one identifier and swaps two objects.\<close>

lemma sorting_step:
  assumes t: "sorting P s place where_is t" and m: "mode (base s) = Swap_and_pop" and P: "distinct (map to_entity P)" "length P < 2 ^ 20"
    and pos: "cur < length P" "nxt < length P" "cur \<noteq> nxt" "place nxt < length P"
    and into: "\<And>i. i < length P \<Longrightarrow> where_is i < length P" and onto: "\<And>j. j < length P \<Longrightarrow> object_at t j \<noteq> None"
    and after: "\<And>i. i < length P \<Longrightarrow>
      where_is' i = (if where_is i = nxt then place nxt else if where_is i = place nxt then nxt else where_is i)"
  shows "\<exists>t'. st_sort_cycle cur nxt t = st_sort_cycle nxt (place nxt) t' \<and> sorting P s (place(cur := cur)) where_is' t'"
proof -
  note D = sortingD [OF t]
  let ?idx = "place nxt" let ?e = "P ! cur"
  have idx: "index (base t) (P ! nxt) = Ret ?idx" using index_lookup [OF D(4) D(6) [OF pos(2)]] pos(4) P(2) by simp
  have lt: "nxt < 2 ^ 64" "?idx < 2 ^ 64" using pos P(2) by simp_all
  obtain t1 where t1: "swap_objects nxt ?idx t = Ret t1" "payload_ok t1" "base t1 = base t"
    and obj: "\<And>k. object_at t1 k = (if k = nxt then object_at t ?idx else if k = ?idx then object_at t nxt else object_at t k)"
    using swap_objects_spec [OF D(5) lt(1) onto [OF pos(2)] lt(2) onto [OF pos(4)]] by blast
  note ref = D(6) [OF pos(1)]
  let ?b = "set_ref ?e (combine (of_nat cur) ?e) (base t)"
  have look: "lookup ?b d = (if to_entity d = to_entity ?e then Some (combine (of_nat cur) ?e) else lookup (base t) d)" for d
    using lookup_set_ref [OF D(4), of ?e] ref by simp
  have "st_sort_cycle cur nxt t = st_sort_cycle nxt ?idx (t1\<lparr>base := ?b\<rparr>)"
    using pos idx t1 D(1,2) m ref write_ref_eq [OF D(4) ref, of "combine (of_nat cur) ?e"]
    by (subst st_sort_cycle.simps) (simp add: read_at_def st_swap_or_move_def sparse_ref_eq to_integral_def)
  moreover have "sorting P s (place(cur := cur)) where_is' (t1\<lparr>base := ?b\<rparr>)"
    unfolding sorting_def
  proof (intro conjI allI impI)
    fix i assume i: "i < length P"
    have "to_entity (P ! i) = to_entity ?e \<longleftrightarrow> i = cur"
      using nth_eq_iff_index_eq [OF P(1), of i cur] i pos(1) by simp
    then show "lookup (base (t1\<lparr>base := ?b\<rparr>)) (P ! i) = Some (combine (of_nat ((place(cur := cur)) i)) (P ! i))"
      using D(6) [OF i] by (auto simp: look)
    show "object_at (t1\<lparr>base := ?b\<rparr>) (where_is' i) = comps s (P ! i)"
      using D(7) [OF i] after [OF i] by (auto simp: obj split: if_splits)
  next
    fix i assume "length P \<le> i"
    then show "object_at (t1\<lparr>base := ?b\<rparr>) i = None" using D(8) [of i] pos by (auto simp: obj)
  next
    fix e assume "to_entity e \<notin> to_entity ` set P"
    then show "lookup (base (t1\<lparr>base := ?b\<rparr>)) e = None \<or> lookup (base (t1\<lparr>base := ?b\<rparr>)) e = Some null_entity"
      using D(9) [of e] pos(1) by (auto simp: look)
  qed (use D t1 in simp_all)
  ultimately show ?thesis by blast
qed

text \<open>
  The loop follows a cycle of the permutation \<open>where_is\<close> from \<open>pos\<close> on; every step but the last puts
  one more object where it belongs.
\<close>

definition permuting :: "entity list \<Rightarrow> (nat \<Rightarrow> nat) \<Rightarrow> bool" where
  "permuting P where_is \<longleftrightarrow> inj_on where_is {..<length P} \<and> where_is ` {..<length P} \<subseteq> {..<length P}"

definition misplaced :: "entity list \<Rightarrow> (nat \<Rightarrow> nat) \<Rightarrow> nat set" where
  "misplaced P where_is = {i. i < length P \<and> where_is i \<noteq> i}"

lemma permuting_onto:
  assumes "permuting P where_is" "j < length P"
  obtains i where "i < length P" "where_is i = j"
proof -
  have "where_is ` {..<length P} = {..<length P}"
    using assms(1) by (intro endo_inj_surj) (simp_all add: permuting_def)
  with assms(2) have "j \<in> where_is ` {..<length P}" by simp
  then show thesis by (rule imageE) (simp add: that)
qed

lemma permutingD:
  assumes "permuting P where_is" "i < length P"
  shows "where_is i < length P" "j < length P \<Longrightarrow> where_is i = where_is j \<longleftrightarrow> i = j"
  using assms by (auto simp: permuting_def dest: inj_onD)

lemma sort_cycle_sorts:
  assumes m: "mode (base s) = Swap_and_pop" and P: "distinct (map to_entity P)" "length P < 2 ^ 20" "\<forall>e \<in> set P. comps s e \<noteq> None"
  shows "sorting P s (if cur = pos then where_is else where_is(cur := nxt, pos := pos)) where_is t \<Longrightarrow> permuting P where_is \<Longrightarrow>
    pos < length P \<Longrightarrow> cur < length P \<Longrightarrow> where_is pos = nxt \<Longrightarrow> (cur \<noteq> pos \<Longrightarrow> where_is cur = cur) \<Longrightarrow>
    \<exists>t' where_is'. st_sort_cycle cur nxt t = Some (Ret t') \<and> sorting P s where_is' where_is' t' \<and> permuting P where_is' \<and>
      misplaced P where_is' \<subseteq> misplaced P where_is - {pos}"
proof (induction "2 * card (misplaced P where_is) + (if cur = nxt then 0 else 1)" arbitrary: cur nxt where_is t rule: less_induct)
  case less
  let ?place = "if cur = pos then where_is else where_is(cur := nxt, pos := pos)"
  note into = permutingD(1) [OF less.prems(2)] and inj = permutingD(2) [OF less.prems(2)]
  have nxt: "nxt < length P" using into [OF less.prems(3)] less.prems(5) by simp
  have fin: "finite (misplaced P where_is)" by (simp add: misplaced_def)
  have onto: "object_at t j \<noteq> None" if j: "j < length P" for j
  proof -
    obtain i where "i < length P" "where_is i = j" by (rule permuting_onto [OF less.prems(2) j])
    then show ?thesis using sortingD(7) [OF less.prems(1)] P(3) by auto
  qed
  show ?case
  proof (cases "cur = nxt")
    case True
    have "cur = pos" using less.prems(3-6) inj [of cur pos] True by auto
    then show ?thesis using less.prems(1,2,5) True
      by (intro exI [of _ t] exI [of _ where_is]) (auto simp: st_sort_cycle.simps misplaced_def)
  next
    case ne: False
    show ?thesis
    proof (cases "nxt = pos")
      case True
      then have cur: "cur \<noteq> pos" "where_is cur = cur" "where_is pos = pos" using ne less.prems(5,6) by auto
      have idx: "?place nxt = pos" using cur(1) True by simp
      have lt: "?place nxt < length P" unfolding idx by (rule less.prems(3))
      have after: "where_is i = (if where_is i = nxt then ?place nxt else if where_is i = ?place nxt then nxt else where_is i)" for i
        unfolding idx using True by simp
      obtain t' where t': "st_sort_cycle cur nxt t = st_sort_cycle nxt pos t'" "sorting P s (?place(cur := cur)) where_is t'"
        using sorting_step [OF less.prems(1) m P(1,2) less.prems(4) nxt ne lt into onto after] unfolding idx by blast
      have "?place(cur := cur) = where_is" using cur by auto
      then have s': "sorting P s (if pos = pos then where_is else where_is(pos := pos, pos := pos)) where_is t'" using t'(2) by simp
      have "2 * card (misplaced P where_is) + (if pos = pos then 0 else 1) < 2 * card (misplaced P where_is) + (if cur = nxt then 0 else 1)"
        using ne by simp
      from less.hyps [OF this s' less.prems(2,3,3) cur(3)] show ?thesis unfolding t'(1) by (simp add: True)
    next
      case False
      let ?idx = "where_is nxt" let ?new = "where_is(pos := ?idx, nxt := nxt)"
      have idx: "?place nxt = ?idx" using False ne by simp
      have idx_ne: "?idx \<noteq> nxt" using inj [OF nxt less.prems(3)] False less.prems(5) by auto
      have after: "?new i = (if where_is i = nxt then ?idx else if where_is i = ?idx then nxt else where_is i)" if "i < length P" for i
        using inj [OF that less.prems(3)] inj [OF that nxt] less.prems(5) False by auto
      obtain t' where t': "st_sort_cycle cur nxt t = st_sort_cycle nxt ?idx t'" "sorting P s (?place(cur := cur)) ?new t'"
        using sorting_step [OF less.prems(1) m P(1,2) less.prems(4) nxt ne _ into onto, of ?new] into [OF nxt] after unfolding idx by auto
      have "?place(cur := cur) = ?new(nxt := ?idx, pos := pos)" using less.prems(6) False ne by (auto simp: fun_eq_iff)
      then have s': "sorting P s (if nxt = pos then ?new else ?new(nxt := ?idx, pos := pos)) ?new t'" using t'(2) False by simp
      have p': "permuting P ?new"
        unfolding permuting_def
      proof (intro conjI inj_onI)
        fix i j assume "i \<in> {..<length P}" "j \<in> {..<length P}" "?new i = ?new j"
        then have ij: "i < length P" "j < length P"
          "(if where_is i = nxt then ?idx else if where_is i = ?idx then nxt else where_is i) =
           (if where_is j = nxt then ?idx else if where_is j = ?idx then nxt else where_is j)"
          using after [of i] after [of j] by simp_all
        then have "where_is i = where_is j" using idx_ne by (simp split: if_splits)
        then show "i = j" using inj [OF ij(1,2)] by simp
      qed (use into nxt in auto)
      have sub: "misplaced P ?new \<subseteq> misplaced P where_is - {nxt}"
        using less.prems(3,5) False by (auto simp: misplaced_def split: if_splits)
      have "nxt \<in> misplaced P where_is" using nxt idx_ne by (simp add: misplaced_def)
      then have "card (misplaced P ?new) < card (misplaced P where_is)"
        using fin sub by (intro psubset_card_mono) auto
      then have "2 * card (misplaced P ?new) + (if nxt = ?idx then 0 else 1) < 2 * card (misplaced P where_is) + (if cur = nxt then 0 else 1)"
        using ne idx_ne by (simp add: idx_ne [symmetric])
      from less.hyps [OF this s' p' less.prems(3) nxt] obtain t'' w where
        "st_sort_cycle nxt ?idx t' = Some (Ret t'')" "sorting P s w w t''" "permuting P w" "misplaced P w \<subseteq> misplaced P ?new - {pos}"
        using False by auto
      then show ?thesis unfolding t'(1) using sub by blast
    qed
  qed
qed

lemma sort_cycles_sort:
  assumes m: "mode (base s) = Swap_and_pop" and P: "distinct (map to_entity P)" "length P < 2 ^ 20" "\<forall>e \<in> set P. comps s e \<noteq> None"
  shows "sorting P s where_is where_is t \<Longrightarrow> permuting P where_is \<Longrightarrow> set ps \<subseteq> {..<length P} \<Longrightarrow>
    \<exists>t' where_is'. st_sort_cycles ps t = Ret t' \<and> sorting P s where_is' where_is' t' \<and> permuting P where_is' \<and>
      misplaced P where_is' \<subseteq> misplaced P where_is - set ps"
proof (induction ps arbitrary: where_is t)
  case Nil
  then show ?case by auto
next
  case (Cons pos ps)
  have pos: "pos < length P" using Cons.prems(3) by simp
  note D = sortingD [OF Cons.prems(1)]
  have "where_is pos < length P" by (rule permutingD(1) [OF Cons.prems(2) pos])
  then have idx: "index (base t) (P ! pos) = Ret (where_is pos)" using index_lookup [OF D(4) D(6) [OF pos]] P(2) by simp
  obtain t1 w1 where 1: "st_sort_cycle pos (where_is pos) t = Some (Ret t1)" "sorting P s w1 w1 t1" "permuting P w1"
    "misplaced P w1 \<subseteq> misplaced P where_is - {pos}"
    using sort_cycle_sorts [OF m P, of pos pos where_is "where_is pos" t] Cons.prems pos by auto
  obtain t2 w2 where "st_sort_cycles ps t1 = Ret t2" "sorting P s w2 w2 t2" "permuting P w2" "misplaced P w2 \<subseteq> misplaced P w1 - set ps"
    using Cons.IH [OF 1(2,3)] Cons.prems(3) by auto
  then show ?case using 1 D(1) idx pos by (intro exI [of _ t2] exI [of _ w2]) (auto simp: read_at_def of_loop_def)
qed

text \<open>
  Any algorithm that permutes its input sorts a storage: the map stays, the first \<open>n\<close> identifiers
  come in the order of the algorithm, read from the last to the first, and the others keep their
  positions. The loop ends on every permutation.
\<close>

lemma sort_n_spec:
  assumes ok: "st_ok s" "mode (base s) \<noteq> In_place" and algo: "\<And>es. mset (algo es) = mset es" and n: "n \<le> length (elements (base s))"
  shows "\<exists>t. st_sort_n n algo s = Ret t \<and> st_ok t \<and> mode (base t) = mode (base s) \<and> comps t = comps s \<and>
    elements (base t) = rev (algo (rev (take n (elements (base s))))) @ drop n (elements (base s))"
proof -
  let ?es = "elements (base s)"
  let ?P = "rev (algo (rev (take n ?es))) @ drop n ?es"
  note K = packed_storage [OF ok] and D = st_okD [OF ok(1)]
  have b: "full (base s)" and m: "mode (base s) = Swap_and_pop" using K(1) by simp_all
  note F = b [unfolded full_iff]
  have ms: "mset ?P = mset ?es"
    by (metis algo append_take_drop_id mset_append mset_rev)
  have set: "set ?P = set ?es" using ms by (rule mset_eq_setD)
  have len: "length ?P = length ?es" using ms by (rule mset_eq_length)
  have front: "length (rev (algo (rev (take n ?es)))) = n"
    using mset_eq_length [OF algo [of "rev (take n ?es)"]] n by simp
  have "mset (map to_entity ?P) = mset (map to_entity ?es)" using ms by (simp only: mset_map)
  then have dist: "distinct (map to_entity ?P)" using F mset_eq_imp_distinct_iff by blast
  have dP: "distinct ?P" "distinct ?es" using dist F by (auto simp only: distinct_map)
  have "\<forall>i. \<exists>j. i < length ?es \<longrightarrow> j < length ?es \<and> ?es ! j = ?P ! i"
    using set len by (metis in_set_conv_nth)
  then obtain w where w: "\<And>i. i < length ?es \<Longrightarrow> w i < length ?es \<and> ?es ! w i = ?P ! i" by metis
  have perm: "permuting ?P w"
    unfolding permuting_def
  proof (intro conjI inj_onI)
    fix i j assume "i \<in> {..<length ?P}" "j \<in> {..<length ?P}" "w i = w j"
    then have ij: "i < length ?P" "j < length ?P" "?P ! i = ?P ! j" using w [of i] w [of j] len by auto
    then show "i = j" using nth_eq_iff_index_eq [OF dP(1)] by blast
  qed (use w len in auto)
  have rest: "w i = i" if "n \<le> i" "i < length ?es" for i
  proof -
    have "?P ! i = ?es ! i" using that front by (simp add: nth_append)
    then show ?thesis using w [OF that(2)] that(2) nth_eq_iff_index_eq [OF dP(2)] by metis
  qed
  let ?s = "s\<lparr>base := (base s)\<lparr>elements := ?P\<rparr>\<rparr>"
  have objs: "object_at s i = comps s (?es ! i)" if "i < length ?es" for i
    using comps_position [of s i] D(1) K(2) that by simp
  have "sorting ?P s w w ?s"
    unfolding sorting_def
  proof (intro conjI allI impI)
    fix i assume "i < length ?P"
    then have i: "w i < length ?es" "?es ! w i = ?P ! i" using w [of i] len by simp_all
    have "lookup (base s) (?es ! w i) = Some (combine (of_nat (w i)) (?es ! w i))" using F i(1) by blast
    then show "lookup (base ?s) (?P ! i) = Some (combine (of_nat (w i)) (?P ! i))" by (simp add: i(2) lookup_def)
    show "object_at ?s (w i) = comps s (?P ! i)" using objs [OF i(1)] i(2) by (simp add: object_at_def)
  next
    fix i assume "length ?P \<le> i"
    then show "object_at ?s i = None" using D(3) [of i] K(2) len by (auto simp: object_at_def)
  next
    fix e assume "to_entity e \<notin> to_entity ` set ?P"
    then have "to_entity e \<notin> to_entity ` set ?es" unfolding set .
    then show "lookup (base ?s) e = None \<or> lookup (base ?s) e = Some null_entity" using F by (simp add: lookup_def)
  qed (use F D(2) in \<open>simp_all add: pages_ok_def payload_ok_def\<close>)
  note start = this
  have mem: "\<forall>e \<in> set ?P. comps s e \<noteq> None" unfolding set K(3) [symmetric] by (simp add: dom_def)
  have room: "length ?P < 2 ^ 20" and ps: "set [0..<n] \<subseteq> {..<length ?P}" unfolding len using K(4) n by auto
  obtain t w' where t: "st_sort_cycles [0..<n] ?s = Ret t" "sorting ?P s w' w' t" "misplaced ?P w' \<subseteq> misplaced ?P w - set [0..<n]"
    using sort_cycles_sort [OF m dist room mem start perm ps] by blast
  have id: "w' i = i" if "i < length ?P" for i
    using t(3) that rest [of i] len by (cases "i < n") (auto simp: misplaced_def)
  note T = sortingD [OF t(2)]
  have full: "full (base t)"
  proof (subst full_iff, intro conjI allI impI)
    show "pages_ok (base t)" by (rule T(4))
    show "length (elements (base t)) < 2 ^ 20" unfolding T(1) by (rule room)
    show "distinct (map to_entity (elements (base t)))" unfolding T(1) by (rule dist)
    show "lookup (base t) (elements (base t) ! i) = Some (combine (of_nat i) (elements (base t) ! i))" if "i < length (elements (base t))" for i
      using T(6) [of i] id [of i] that unfolding T(1) by simp
    show "lookup (base t) e = None \<or> lookup (base t) e = Some null_entity" if "to_entity e \<notin> to_entity ` set (elements (base t))" for e
      using T(9) [of e] that unfolding T(1) by blast
  qed
  then have pb: "packed_ok (base t)" using T(2) m by simp
  have "\<exists>j < length (elements (base t)). elements (base t) ! i = ?es ! j \<and> object_at t i = object_at s j"
    if "i < length (elements (base t))" for i
    using w [of i] that len T(1) T(7) [of i] id [of i] objs [of "w i"] by (intro exI [of _ "w i"]) auto
  moreover have "object_at t i = object_at s i" if "length (elements (base t)) \<le> i" for i
    using T(8) [of i] D(3) [of i] K(2) that T(1) len by auto
  ultimately have "st_ok t" "comps t = comps s"
    using storage_permuted [OF ok pb _ T(5) refl] T(1) set len by simp_all
  moreover have "st_sort_n n algo s = st_sort_cycles [0..<n] ?s" using ok(2) n by (simp add: st_sort_n_def)
  ultimately show ?thesis using t(1) T(1,2) by (intro exI [of _ t]) simp
qed

end
