(* ===== verification/GroupHandlers.thy ===== *)
theory GroupHandlers
  imports Group StorageSort SignalCorrect
begin

text \<open>
  What the handlers of a group do when they are called: a group goes on holding exactly some set
  of identifiers, which grows or shrinks by the one they are told of; owned storages are only
  reordered, and all else stays as it is.
\<close>

section \<open>Lists whose front is in order\<close>

definition swap_list :: "nat \<Rightarrow> nat \<Rightarrow> 'a list \<Rightarrow> 'a list" where
  "swap_list i j xs = xs[i := xs ! j, j := xs ! i]"

lemma length_swap_list [simp]: "length (swap_list i j xs) = length xs"
  by (simp add: swap_list_def)

lemma front_enter:
  assumes "e \<in> set ys" "i < length (xs @ ys)" "(xs @ ys) ! i = e" "distinct (xs @ ys)"
  shows "\<exists>zs. swap_list (length xs) i (xs @ ys) = (xs @ [e]) @ zs"
proof -
  have i: "length xs \<le> i"
    using assms by (metis disjoint_iff distinct_append leI nth_append nth_mem)
  then obtain j where j: "i = length xs + j" using le_Suc_ex by blast
  obtain y zs where ys: "ys = y # zs" using assms(1) by (cases ys) auto
  show ?thesis
  proof (cases j)
    case 0
    then have "e = y" using assms(3) j ys by (simp add: nth_append)
    then show ?thesis using 0 j ys by (simp add: swap_list_def nth_append list_update_append)
  next
    case (Suc k)
    then show ?thesis using assms(3) j ys by (auto simp: swap_list_def nth_append list_update_append)
  qed
qed

lemma front_leave:
  assumes "i < length xs" "n = length xs - 1"
  shows "swap_list n i (xs @ ys) = swap_pop i xs @ (xs ! i # ys)"
proof -
  have ne: "xs \<noteq> []" using assms(1) by auto
  have last: "xs ! n = last xs" using assms(2) by (simp add: last_conv_nth [OF ne])
  have n: "n < length xs" using assms ne by simp
  show ?thesis
  proof (rule nth_equalityI)
    fix k assume "k < length (swap_list n i (xs @ ys))"
    then show "swap_list n i (xs @ ys) ! k = (swap_pop i xs @ (xs ! i # ys)) ! k"
      using assms n last by (auto simp: swap_list_def nth_append nth_list_update swap_pop_nth nth_Cons' less_Suc_eq)
  qed (use assms n in \<open>simp add: swap_list_def\<close>)
qed

section \<open>Worlds that differ only in order\<close>

abbreviation has :: "'a grouped \<Rightarrow> nat \<Rightarrow> entity set" where
  "has w k \<equiv> dom (comps (store_of k w))"

abbreviation ids_in :: "nat \<Rightarrow> 'a grouped \<Rightarrow> entity list" where
  "ids_in k w \<equiv> elements (base (store_of k w))"

abbreviation pools_of :: "group_handler \<Rightarrow> nat list" where
  "pools_of h \<equiv> owned_pools h @ got_pools h"

definition same_shape :: "group_handler \<Rightarrow> group_handler \<Rightarrow> bool" where
  "same_shape h h' \<longleftrightarrow> owned_pools h' = owned_pools h \<and> got_pools h' = got_pools h \<and> filter_pools h' = filter_pools h"

lemma same_shape_refl [simp]: "same_shape h h"
  by (simp add: same_shape_def)

lemma same_shape_upd [simp]: "same_shape h (h\<lparr>group_len := n\<rparr>)" "same_shape h (h\<lparr>group_elem := s\<rparr>)"
  by (simp_all add: same_shape_def)

definition same_mixin :: "('a, 'f, 'p) mixin \<Rightarrow> ('a, 'f, 'p) mixin \<Rightarrow> bool" where
  "same_mixin m m' \<longleftrightarrow> comps (store m') = comps (store m) \<and> mode (base (store m')) = mode (base (store m)) \<and>
     length (elements (base (store m'))) = length (elements (base (store m))) \<and>
     construction m' = construction m \<and> destruction m' = destruction m \<and> updates m' = updates m \<and> (st_ok (store m) \<longrightarrow> st_ok (store m'))"

lemma same_mixin_refl [simp]: "same_mixin m m"
  by (simp add: same_mixin_def)

definition similar :: "'a grouped \<Rightarrow> 'a grouped \<Rightarrow> bool" where
  "similar w w' \<longleftrightarrow> length (mixins w') = length (mixins w) \<and> length (others w') = length (others w) \<and>
     (\<forall>k<length (mixins w). same_mixin (mixins w ! k) (mixins w' ! k)) \<and>
     (\<forall>g<length (others w). same_shape (others w ! g) (others w' ! g))"

lemma similar_refl [simp]: "similar w w"
  by (simp add: similar_def)

lemma similar_trans: "similar w w1 \<Longrightarrow> similar w1 w2 \<Longrightarrow> similar w w2"
  by (simp add: similar_def same_mixin_def same_shape_def)

text \<open>A group whose pools are there, with the storages it owns packed.\<close>

definition fits :: "'a grouped \<Rightarrow> group_handler \<Rightarrow> bool" where
  "fits w h \<longleftrightarrow> distinct (pools_of h @ filter_pools h) \<and> set (pools_of h @ filter_pools h) \<subseteq> {..<length (mixins w)} \<and>
     pools_of h \<noteq> [] \<and> (\<forall>k \<in> set (owned_pools h). mode (base (store_of k w)) \<noteq> In_place)"

definition sound :: "'a grouped \<Rightarrow> bool" where
  "sound w \<longleftrightarrow> (\<forall>k<length (mixins w). st_ok (store_of k w)) \<and> (\<forall>g<length (others w). fits w (others w ! g))"

lemma soundD:
  assumes "sound w"
  shows "k < length (mixins w) \<Longrightarrow> st_ok (store_of k w)" "g < length (others w) \<Longrightarrow> fits w (others w ! g)"
  using assms by (simp_all add: sound_def)

lemma fitsD:
  assumes "fits w h"
  shows "distinct (owned_pools h)" "distinct (filter_pools h)" "set (pools_of h) \<inter> set (filter_pools h) = {}"
    "k \<in> set (owned_pools h) \<Longrightarrow> k < length (mixins w)" "k \<in> set (got_pools h) \<Longrightarrow> k < length (mixins w)"
    "k \<in> set (filter_pools h) \<Longrightarrow> k < length (mixins w)" "pools_of h \<noteq> []"
    "k \<in> set (owned_pools h) \<Longrightarrow> mode (base (store_of k w)) \<noteq> In_place"
  using assms by (auto simp: fits_def)

lemma fits_similar:
  assumes "similar w w'" "fits w h" "same_shape h h'" shows "fits w' h'"
proof -
  have "mode (base (store_of k w')) = mode (base (store_of k w))" if "k < length (mixins w)" for k
    using assms(1) that by (simp add: similar_def same_mixin_def)
  then show ?thesis using assms fitsD(4) [OF assms(2)] by (auto simp: fits_def same_shape_def similar_def)
qed

lemma sound_similar: "similar w w' \<Longrightarrow> sound w \<Longrightarrow> sound w'"
  using fits_similar [of w w'] by (auto simp: sound_def similar_def same_mixin_def)

lemma similar_has: "similar w w' \<Longrightarrow> k < length (mixins w) \<Longrightarrow> has w' k = has w k"
  by (simp add: similar_def same_mixin_def)

text \<open>What only the group \<open>g\<close> did: its handler and the order of the storages it owns.\<close>

definition touches :: "nat \<Rightarrow> 'a grouped \<Rightarrow> 'a grouped \<Rightarrow> bool" where
  "touches g w w' \<longleftrightarrow> similar w w' \<and> (\<forall>j. j \<noteq> g \<longrightarrow> others w' ! j = others w ! j) \<and>
     (\<forall>k. k \<notin> set (owned_pools (others w ! g)) \<longrightarrow> mixins w' ! k = mixins w ! k)"

lemma touches_refl [simp]: "touches g w w"
  by (simp add: touches_def)

section \<open>What a group holds\<close>

definition holds :: "nat \<Rightarrow> 'a grouped \<Rightarrow> entity set \<Rightarrow> bool" where
  "holds g w S \<longleftrightarrow>
     (let h = others w ! g in
      if owned_pools h = [] then packed_ok (group_elem h) \<and> set (elements (group_elem h)) = S
      else \<exists>front. length front = group_len h \<and> set front = S \<and> (\<forall>k \<in> set (owned_pools h). \<exists>rest. ids_in k w = front @ rest))"

definition wants :: "group_handler \<Rightarrow> (nat \<Rightarrow> entity set) \<Rightarrow> entity set" where
  "wants h H = {e. (\<forall>k \<in> set (pools_of h). e \<in> H k) \<and> (\<forall>k \<in> set (filter_pools h). e \<notin> H k)}"

lemma wants_cong:
  "same_shape h h' \<Longrightarrow> (\<And>k. k \<in> set (pools_of h @ filter_pools h) \<Longrightarrow> H' k = H k) \<Longrightarrow> wants h' H' = wants h H"
  by (auto simp: wants_def same_shape_def)

lemma holds_front:
  assumes "owned_pools (others w ! g) \<noteq> []" "length front = group_len (others w ! g)" "set front = S"
    "\<And>k. k \<in> set (owned_pools (others w ! g)) \<Longrightarrow> \<exists>rest. ids_in k w = front @ rest"
  shows "holds g w S"
  using assms by (auto simp: holds_def Let_def)

lemma holds_other:
  assumes "touches g w w'" "j \<noteq> g" "set (owned_pools (others w ! g)) \<inter> set (owned_pools (others w ! j)) = {}"
  shows "holds j w' S = holds j w S"
proof -
  have h: "others w' ! j = others w ! j" using assms(1,2) by (simp add: touches_def)
  have "ids_in k w' = ids_in k w" if "k \<in> set (owned_pools (others w ! j))" for k
    using assms(1,3) that by (auto simp: touches_def)
  then show ?thesis by (auto simp: holds_def h Let_def)
qed

lemma holds_subset:
  assumes "sound w" "g < length (others w)" "holds g w S" "k \<in> set (owned_pools (others w ! g))"
  shows "S \<subseteq> has w k" "distinct (ids_in k w)" "set (ids_in k w) = has w k"
proof -
  note F = soundD(2) [OF assms(1,2)]
  have k: "st_ok (store_of k w)" "mode (base (store_of k w)) \<noteq> In_place"
    using soundD(1) [OF assms(1) fitsD(4) [OF F assms(4)]] fitsD(8) [OF F assms(4)] by simp_all
  note K = packed_storage [OF k]
  show "set (ids_in k w) = has w k" using K(3) by simp
  then show "S \<subseteq> has w k" using assms(3,4) by (fastforce simp: holds_def Let_def split: if_splits)
  have "full (base (store_of k w))" using K(1) by simp
  then show "distinct (ids_in k w)" by (auto simp: full_iff distinct_map)
qed

section \<open>Tests\<close>

lemma pools_contain_spec:
  "sound w \<Longrightarrow> set ks \<subseteq> {..<length (mixins w)} \<Longrightarrow> pools_contain ks e w = Ret (\<forall>k \<in> set ks. e \<in> has w k)"
  by (induction ks) (auto simp: st_contains_spec soundD(1) dom_def)

lemma pools_lack_spec:
  "sound w \<Longrightarrow> set ks \<subseteq> {..<length (mixins w)} \<Longrightarrow> pools_lack ks e w = Ret (\<forall>k \<in> set ks. e \<notin> has w k)"
  by (induction ks) (auto simp: st_contains_spec soundD(1) dom_def)

lemma pools_count_spec:
  "sound w \<Longrightarrow> set ks \<subseteq> {..<length (mixins w)} \<Longrightarrow> pools_count ks e w = Ret (length (filter (\<lambda>k. e \<in> has w k) ks))"
  by (induction ks) (auto simp: st_contains_spec soundD(1) dom_def)

lemma in_front_spec:
  assumes "sound w" "g < length (others w)" "holds g w S" "k \<in> set (owned_pools (others w ! g))" "e \<in> has w k"
  shows "in_front (group_len (others w ! g)) k e w = Ret (e \<in> S)"
proof -
  note F = soundD(2) [OF assms(1,2)] and B = holds_subset [OF assms(1-4)]
  have k: "st_ok (store_of k w)" "mode (base (store_of k w)) \<noteq> In_place"
    using soundD(1) [OF assms(1) fitsD(4) [OF F assms(4)]] fitsD(8) [OF F assms(4)] by simp_all
  note K = packed_storage [OF k]
  obtain i where i: "i < length (ids_in k w)" "ids_in k w ! i = e" using assms(5) B(3) by (metis in_set_conv_nth)
  then have idx: "index (base (store_of k w)) e = Ret i" using base_index(1) [OF st_okD(1) [OF k(1)]] K(2) by auto
  obtain front rest where f: "length front = group_len (others w ! g)" "set front = S" "ids_in k w = front @ rest"
    using assms(3,4) by (auto simp: holds_def Let_def split: if_splits)
  have "i < length front \<longleftrightarrow> e \<in> set front"
  proof
    assume "e \<in> set front"
    then obtain j where j: "j < length front" "front ! j = e" by (auto simp: in_set_conv_nth)
    then have "ids_in k w ! j = e" "j < length (ids_in k w)" using f(3) by (simp_all add: nth_append)
    then show "i < length front" using nth_eq_iff_index_eq [OF B(2)] i j(1) by blast
  qed (use i f(3) in \<open>auto simp: nth_append\<close>)
  then show ?thesis using idx f(1,2) by (simp add: in_front_def)
qed

lemma first_pool:
  assumes "fits w h"
  obtains k ks where "pools_of h = k # ks" "k < length (mixins w)" "set ks \<subseteq> {..<length (mixins w)}"
    "owned_pools h \<noteq> [] \<Longrightarrow> k \<in> set (owned_pools h)"
proof -
  obtain k ks where k: "pools_of h = k # ks" using fitsD(7) [OF assms] by (cases "pools_of h") auto
  then have "set (k # ks) \<subseteq> {..<length (mixins w)}" using fitsD(4,5) [OF assms] by (metis Un_iff lessThan_iff set_append subsetI)
  moreover have "k \<in> set (owned_pools h)" if "owned_pools h \<noteq> []" using k that by (cases "owned_pools h") auto
  ultimately show thesis using that [OF k] by simp
qed

lemma outside_front_spec:
  assumes "sound w" "g < length (others w)" "holds g w S" "owned_pools (others w ! g) \<noteq> []"
  shows "outside_front (others w ! g) e w = Ret (e \<notin> S \<and> (\<forall>k \<in> set (pools_of (others w ! g)). e \<in> has w k))"
proof -
  let ?h = "others w ! g"
  obtain k ks where k: "pools_of ?h = k # ks" "k < length (mixins w)" "set ks \<subseteq> {..<length (mixins w)}" "k \<in> set (owned_pools ?h)"
    using first_pool [OF soundD(2) [OF assms(1,2)]] assms(4) by metis
  have "st_contains (store_of k w) e = Ret (e \<in> has w k)" using st_contains_spec [OF soundD(1) [OF assms(1) k(2)]] by (simp add: dom_def)
  then show ?thesis
    using in_front_spec [OF assms(1-3) k(4), of e] pools_contain_spec [OF assms(1) k(3), of e] k(1)
    by (auto simp: outside_front_def)
qed

lemma fits_sets:
  assumes "fits w h"
  shows "set (got_pools h) \<subseteq> {..<length (mixins w)}" "set (filter_pools h) \<subseteq> {..<length (mixins w)}" "set (owned_pools h) \<subseteq> {..<length (mixins w)}"
  using fitsD(4-6) [OF assms] by auto

lemma free_outside_spec:
  assumes "sound w" "g < length (others w)" "holds g w S" "owned_pools (others w ! g) = []"
  shows "free_outside (others w ! g) e w = Ret (e \<notin> S \<and> (\<forall>k \<in> set (pools_of (others w ! g)). e \<in> has w k))"
proof -
  have "packed_ok (group_elem (others w ! g))" "set (elements (group_elem (others w ! g))) = S"
    using assms(3,4) by (simp_all add: holds_def Let_def)
  then have "contains (group_elem (others w ! g)) e = Ret (e \<in> S)"
    using contains_spec [of "{..<length (elements (group_elem (others w ! g)))}" "group_elem (others w ! g)" e] by simp
  then show ?thesis
    using pools_contain_spec [OF assms(1) fits_sets(1) [OF soundD(2) [OF assms(1,2)]], of e] assms(4) by (simp add: free_outside_def)
qed

section \<open>Swapping in all owned storages\<close>

lemma group_swap_spec:
  assumes "distinct ks" "\<And>k. k \<in> set ks \<Longrightarrow> k < length (mixins w) \<and> st_ok (store_of k w) \<and> mode (base (store_of k w)) \<noteq> In_place \<and>
      pos < length (ids_in k w) \<and> e \<in> set (ids_in k w)"
  shows "\<exists>w'. group_swap pos e ks w = Ret w' \<and> others w' = others w \<and> length (mixins w') = length (mixins w) \<and>
    (\<forall>k. k \<notin> set ks \<longrightarrow> mixins w' ! k = mixins w ! k) \<and>
    (\<forall>k \<in> set ks. same_mixin (mixins w ! k) (mixins w' ! k) \<and>
       (\<exists>i < length (ids_in k w). ids_in k w ! i = e \<and> ids_in k w' = swap_list pos i (ids_in k w)))"
  using assms
proof (induction ks arbitrary: w)
  case (Cons k ks)
  have k: "k < length (mixins w)" "st_ok (store_of k w)" "mode (base (store_of k w)) \<noteq> In_place" "pos < length (ids_in k w)"
    "e \<in> set (ids_in k w)" using Cons.prems(2) [of k] by simp_all
  obtain i where i: "i < length (ids_in k w)" "ids_in k w ! i = e" using k(5) by (auto simp: in_set_conv_nth)
  obtain st where st: "st_swap_elements (ids_in k w ! pos) e (store_of k w) = Ret st" "st_ok st" "mode (base st) = mode (base (store_of k w))"
    "elements (base st) = swap_list pos i (ids_in k w)" "comps st = comps (store_of k w)"
    using swap_elements_spec [OF k(2,3,4) i(1)] i(2) by (auto simp: swap_list_def)
  let ?w = "set_store k st w"
  have new: "mixins ?w ! j = (if j = k then (mixins w ! k)\<lparr>store := st\<rparr> else mixins w ! j)" for j
    using k(1) by (simp add: set_mixin_def)
  have w: "others ?w = others w" "length (mixins ?w) = length (mixins w)" by (simp_all add: set_mixin_def)
  have "j < length (mixins ?w) \<and> st_ok (store_of j ?w) \<and> mode (base (store_of j ?w)) \<noteq> In_place \<and> pos < length (ids_in j ?w) \<and> e \<in> set (ids_in j ?w)"
    if "j \<in> set ks" for j
    using Cons.prems that unfolding new w by auto
  with Cons.IH [of ?w] Cons.prems(1) obtain w' where w': "group_swap pos e ks ?w = Ret w'" "others w' = others ?w"
    "length (mixins w') = length (mixins ?w)" "\<And>j. j \<notin> set ks \<Longrightarrow> mixins w' ! j = mixins ?w ! j"
    "\<And>j. j \<in> set ks \<Longrightarrow> same_mixin (mixins ?w ! j) (mixins w' ! j) \<and>
       (\<exists>i < length (ids_in j ?w). ids_in j ?w ! i = e \<and> ids_in j w' = swap_list pos i (ids_in j ?w))" by auto
  have notin: "k \<notin> set ks" using Cons.prems(1) by simp
  have "group_swap pos e (k # ks) w = Ret w'" using st(1) k(4) w'(1) by (simp add: read_at_def)
  moreover have "same_mixin (mixins w ! j) (mixins w' ! j) \<and>
      (\<exists>i < length (ids_in j w). ids_in j w ! i = e \<and> ids_in j w' = swap_list pos i (ids_in j w))" if "j \<in> set (k # ks)" for j
  proof (cases "j = k")
    case True
    then show ?thesis using w'(4) [OF notin] st i unfolding new by (auto simp: same_mixin_def)
  next
    case False
    then show ?thesis using w'(5) [of j] that unfolding new by simp
  qed
  moreover have "mixins w' ! j = mixins w ! j" if "j \<notin> set (k # ks)" for j using w'(4) [of j] that unfolding new by simp
  ultimately show ?case using w'(2,3) w by (intro exI [of _ w']) simp
qed simp

section \<open>Entering and leaving a group that owns storages\<close>

lemma touches_swapped:
  assumes g: "g < length (others w)" and h: "same_shape (others w ! g) h"
    and w': "others w' = (others w)[g := h]" "length (mixins w') = length (mixins w)"
      "\<forall>k. k \<notin> set (owned_pools (others w ! g)) \<longrightarrow> mixins w' ! k = mixins w ! k"
      "\<forall>k \<in> set (owned_pools (others w ! g)). same_mixin (mixins w ! k) (mixins w' ! k)"
  shows "touches g w w'"
proof -
  have "same_mixin (mixins w ! k) (mixins w' ! k)" for k using w'(3,4) by (cases "k \<in> set (owned_pools (others w ! g))") auto
  moreover have "same_shape (others w ! j) (others w' ! j)" for j using g h w'(1) by (cases "j = g") auto
  ultimately show ?thesis using w' by (simp add: touches_def similar_def)
qed

lemma owned_store:
  assumes "sound w" "g < length (others w)" "holds g w S" "k \<in> set (owned_pools (others w ! g))"
  shows "k < length (mixins w)" "st_ok (store_of k w)" "mode (base (store_of k w)) \<noteq> In_place"
    "\<exists>front rest. length front = group_len (others w ! g) \<and> set front = S \<and> ids_in k w = front @ rest"
  using assms fitsD(4,8) [OF soundD(2) [OF assms(1,2)] assms(4)] soundD(1)
  by (auto simp: holds_def Let_def split: if_splits)

lemma owning_enter_spec:
  assumes sound: "sound w" "g < length (others w)" and S: "holds g w S" "owned_pools (others w ! g) \<noteq> []" and
    e: "e \<notin> S" "\<forall>k \<in> set (owned_pools (others w ! g)). e \<in> has w k"
  shows "\<exists>w'. owning_enter g e w = Ret w' \<and> touches g w w' \<and> holds g w' (insert e S) \<and>
    (\<forall>k \<in> set (owned_pools (others w ! g)). \<exists>i < length (ids_in k w). ids_in k w ! i = e \<and>
       ids_in k w' = swap_list (group_len (others w ! g)) i (ids_in k w)) \<and>
    group_len (others w' ! g) = Suc (group_len (others w ! g))"
proof -
  let ?h = "others w ! g" let ?os = "set (owned_pools ?h)" let ?n = "group_len ?h"
  let ?w = "set_handler g (?h\<lparr>group_len := ?n + 1\<rparr>) w"
  note O = owned_store [OF sound S(1)] and B = holds_subset [OF sound S(1)]
  have w0: "mixins ?w = mixins w" "others ?w = (others w)[g := ?h\<lparr>group_len := ?n + 1\<rparr>]" by (simp_all add: set_handler_def)
  obtain front where f: "length front = ?n" "set front = S" "\<And>k. k \<in> ?os \<Longrightarrow> \<exists>rest. ids_in k w = front @ rest"
    using S by (auto simp: holds_def Let_def)
  have pos: "?n < length (ids_in k w)" if "k \<in> ?os" for k
    using f(3) [OF that] B(3) [OF that] e that f(1,2) by (cases "length (ids_in k w) = ?n") auto
  have pre: "k < length (mixins ?w) \<and> st_ok (store_of k ?w) \<and> mode (base (store_of k ?w)) \<noteq> In_place \<and> ?n < length (ids_in k ?w) \<and> e \<in> set (ids_in k ?w)"
    if "k \<in> ?os" for k
    unfolding w0 using O(1-3) [OF that] pos [OF that] B(3) [OF that] e(2) that by simp
  from group_swap_spec [OF fitsD(1) [OF soundD(2) [OF sound]] pre] obtain w' where
    w': "group_swap ?n e (owned_pools ?h) ?w = Ret w'" "others w' = others ?w" "length (mixins w') = length (mixins w)"
      "\<forall>k. k \<notin> ?os \<longrightarrow> mixins w' ! k = mixins w ! k" "\<forall>k \<in> ?os. same_mixin (mixins w ! k) (mixins w' ! k)"
      "\<forall>k \<in> ?os. \<exists>i < length (ids_in k w). ids_in k w ! i = e \<and> ids_in k w' = swap_list ?n i (ids_in k w)"
    unfolding w0 by blast
  have t: "touches g w w'" by (rule touches_swapped [OF sound(2) _ _ w'(3,4,5)]) (use w'(2) w0 in simp_all)
  have g: "others w' ! g = ?h\<lparr>group_len := ?n + 1\<rparr>" using w'(2) w0 sound(2) by simp
  have "\<exists>rest. ids_in k w' = (front @ [e]) @ rest" if k: "k \<in> ?os" for k
  proof -
    obtain rest where r: "ids_in k w = front @ rest" using f(3) [OF k] by blast
    obtain i where i: "i < length (ids_in k w)" "ids_in k w ! i = e" "ids_in k w' = swap_list ?n i (ids_in k w)" using w'(6) k by blast
    have "e \<in> set rest" using B(3) [OF k] e k r f(2) by auto
    from front_enter [OF this, of i front] i r B(2) [OF k] f(1) show ?thesis by auto
  qed
  then have "holds g w' (insert e S)" by (intro holds_front [of _ _ "front @ [e]"]) (use S(2) f(1,2) g in simp_all)
  moreover have "owning_enter g e w = Ret w'" using w'(1) by (simp add: owning_enter_def Let_def)
  ultimately show ?thesis using t w'(6) g by (intro exI [of _ w']) simp
qed

lemma owning_leave_spec:
  assumes sound: "sound w" "g < length (others w)" and S: "holds g w S" "owned_pools (others w ! g) \<noteq> []" and e: "e \<in> S"
  shows "\<exists>w'. group_swap (group_len (others w ! g) - 1) e (owned_pools (others w ! g))
      (set_handler g ((others w ! g)\<lparr>group_len := group_len (others w ! g) - 1\<rparr>) w) = Ret w' \<and> touches g w w' \<and> holds g w' (S - {e})"
proof -
  let ?h = "others w ! g" let ?os = "set (owned_pools ?h)" let ?n = "group_len ?h"
  let ?w = "set_handler g (?h\<lparr>group_len := ?n - 1\<rparr>) w"
  note O = owned_store [OF sound S(1)] and B = holds_subset [OF sound S(1)]
  have w0: "mixins ?w = mixins w" "others ?w = (others w)[g := ?h\<lparr>group_len := ?n - 1\<rparr>]" by (simp_all add: set_handler_def)
  obtain front where f: "length front = ?n" "set front = S" "\<And>k. k \<in> ?os \<Longrightarrow> \<exists>rest. ids_in k w = front @ rest"
    using S by (auto simp: holds_def Let_def)
  obtain i where i: "i < length front" "front ! i = e" using e f(2) by (metis in_set_conv_nth)
  have pre: "k < length (mixins ?w) \<and> st_ok (store_of k ?w) \<and> mode (base (store_of k ?w)) \<noteq> In_place \<and> ?n - 1 < length (ids_in k ?w) \<and> e \<in> set (ids_in k ?w)"
    if "k \<in> ?os" for k
    unfolding w0 using O(1-3) [OF that] f(3) [OF that] f(1,2) i(1) e by auto
  from group_swap_spec [OF fitsD(1) [OF soundD(2) [OF sound]] pre] obtain w' where
    w': "group_swap (?n - 1) e (owned_pools ?h) ?w = Ret w'" "others w' = others ?w" "length (mixins w') = length (mixins w)"
      "\<forall>k. k \<notin> ?os \<longrightarrow> mixins w' ! k = mixins w ! k" "\<forall>k \<in> ?os. same_mixin (mixins w ! k) (mixins w' ! k)"
      "\<forall>k \<in> ?os. \<exists>i < length (ids_in k w). ids_in k w ! i = e \<and> ids_in k w' = swap_list (?n - 1) i (ids_in k w)"
    unfolding w0 by blast
  have t: "touches g w w'" by (rule touches_swapped [OF sound(2) _ _ w'(3,4,5)]) (use w'(2) w0 in simp_all)
  have g: "others w' ! g = ?h\<lparr>group_len := ?n - 1\<rparr>" using w'(2) w0 sound(2) by simp
  have swapped: "\<exists>rest. ids_in k w' = swap_pop i front @ rest" if k: "k \<in> ?os" for k
  proof -
    obtain rest where r: "ids_in k w = front @ rest" using f(3) [OF k] by blast
    obtain j where j: "j < length (ids_in k w)" "ids_in k w ! j = e" "ids_in k w' = swap_list (?n - 1) j (ids_in k w)" using w'(6) k by blast
    have "ids_in k w ! i = e" "i < length (ids_in k w)" using i r by (simp_all add: nth_append)
    then have "j = i" using nth_eq_iff_index_eq [OF B(2) [OF k]] j(1,2) by blast
    then show ?thesis using front_leave [OF i(1), of "?n - 1" rest] j(3) r f(1) by auto
  qed
  obtain k where k: "k \<in> ?os" using S(2) by (cases "owned_pools ?h") auto
  have "distinct front" using B(2) [OF k] f(3) [OF k] by auto
  then have "set (swap_pop i front) = S - {e}" using set_swap_pop(1) [OF _ i(1)] i(2) f(2) by simp
  then have "holds g w' (S - {e})" using S(2) f(1) swapped g by (intro holds_front [of _ _ "swap_pop i front"]) simp_all
  then show ?thesis using w'(1) t by blast
qed

section \<open>Entering and leaving any group\<close>

lemma same_entity:
  assumes "st_ok s" "d \<in> dom (comps s)" "e \<in> dom (comps s)" "to_entity d = to_entity e" shows "d = e"
proof -
  note D = st_okD [OF assms(1)]
  obtain i j where "i \<in> positions (base s)" "elements (base s) ! i = d" "j \<in> positions (base s)" "elements (base s) ! j = e"
    using assms(2,3) unfolding dom_comps [OF assms(1)] by (auto simp: members_def)
  then show ?thesis using base_same_entity [OF D(1)] assms(4) by metis
qed

lemma stored_card:
  assumes "st_ok s" shows "finite (dom (comps s))" "card (dom (comps s)) < 2 ^ 20"
proof -
  note P = base_ok_placed [OF st_okD(1) [OF assms]]
  have dom: "dom (comps s) = (!) (elements (base s)) ` positions (base s)" using dom_comps [OF assms] by (simp add: members_def)
  have sub: "positions (base s) \<subseteq> {..<length (elements (base s))}" by (auto simp: positions_def)
  then have fin: "finite (positions (base s))" by (rule finite_subset) simp
  show "finite (dom (comps s))" using fin by (simp add: dom)
  have "card (dom (comps s)) \<le> card (positions (base s))" unfolding dom by (rule card_image_le [OF fin])
  also have "\<dots> \<le> length (elements (base s))" using card_mono [OF _ sub] by simp
  also have "\<dots> < 2 ^ 20" by (rule placedD(2) [OF P])
  finally show "card (dom (comps s)) < 2 ^ 20" .
qed

lemma touches_elem:
  assumes "g < length (others w)"
  shows "touches g w (set_handler g ((others w ! g)\<lparr>group_elem := s\<rparr>) w)"
  using assms by (auto simp: touches_def similar_def set_handler_def nth_list_update)

lemma free_enter_spec:
  assumes sound: "sound w" "g < length (others w)" and S: "holds g w S" "owned_pools (others w ! g) = []"
    and k: "k < length (mixins w)" "S \<subseteq> has w k" and e: "e \<notin> S" "e \<in> has w k"
  shows "\<exists>w'. free_enter g e w = Ret w' \<and> touches g w w' \<and> holds g w' (insert e S) \<and> mixins w' = mixins w"
proof -
  let ?h = "others w ! g"
  have elem: "packed_ok (group_elem ?h)" "set (elements (group_elem ?h)) = S" using S by (simp_all add: holds_def Let_def)
  have st: "st_ok (store_of k w)" by (rule soundD(1) [OF sound(1) k(1)])
  have "full (group_elem ?h)" using elem(1) by simp
  then have "distinct (elements (group_elem ?h))" by (auto simp: full_iff distinct_map)
  then have len: "length (elements (group_elem ?h)) = card S" using elem(2) distinct_card by metis
  have "finite S" using k(2) stored_card(1) [OF st] finite_subset by blast
  then have "card S + 1 = card (insert e S)" using e(1) by simp
  also have "\<dots> \<le> card (has w k)" using k(2) e(2) stored_card(1) [OF st] by (intro card_mono) auto
  also have "\<dots> < 2 ^ 20" by (rule stored_card(2) [OF st])
  finally have room: "length (elements (group_elem ?h)) < 2 ^ 20 - 1" using len by simp
  have "to_entity e \<notin> to_entity ` set (elements (group_elem ?h))"
    using same_entity [OF st _ e(2)] k(2) e(1) unfolding elem(2) by (metis imageE subsetD)
  then obtain s where "push e (group_elem ?h) = Ret (length (elements (group_elem ?h)) + 1, s)" "packed_ok s"
    "elements s = elements (group_elem ?h) @ [e]" using push_packed [OF elem(1) room, of e] by auto
  then show ?thesis using touches_elem [OF sound(2), of s] sound(2) S(2) elem(2)
    by (intro exI [of _ "set_handler g (?h\<lparr>group_elem := s\<rparr>) w"])
       (auto simp: free_enter_def Let_def holds_def set_handler_def)
qed

text \<open>The first pool of a group, to which what it holds belongs.\<close>

abbreviation within :: "nat \<Rightarrow> 'a grouped \<Rightarrow> entity set \<Rightarrow> bool" where
  "within g w S \<equiv> \<exists>k \<in> set (pools_of (others w ! g)). S \<subseteq> has w k"

lemma push_on_construct_spec:
  assumes sound: "sound w" "g < length (others w)" and S: "holds g w S" "within g w S"
  shows "\<exists>w'. handle_hook Group_push_on_construct g e w = Ret w' \<and> touches g w w' \<and>
    holds g w' (if e \<in> wants (others w ! g) (has w) then insert e S else S)"
proof -
  let ?h = "others w ! g"
  note F = soundD(2) [OF sound]
  note lack = pools_lack_spec [OF sound(1) fits_sets(2) [OF F], of e]
  have ins: "insert e S = S" if "e \<in> S" using that by auto
  show ?thesis
  proof (cases "owned_pools ?h = []")
    case True
    note out = free_outside_spec [OF sound S(1) True, of e]
    show ?thesis
    proof (cases "e \<notin> S \<and> e \<in> wants ?h (has w)")
      case enter: True
      obtain k where k: "k \<in> set (pools_of ?h)" "S \<subseteq> has w k" using S(2) by blast
      then have "k < length (mixins w)" "e \<in> has w k" using enter fitsD(4,5) [OF F] by (auto simp: wants_def)
      from free_enter_spec [OF sound S(1) True this(1) k(2) _ this(2)] show ?thesis
        using enter out lack True by (auto simp: free_push_on_construct_def Let_def wants_def)
    qed (use out lack True S(1) ins in \<open>auto simp: free_push_on_construct_def Let_def wants_def intro!: exI [of _ w]\<close>)
  next
    case False
    note out = outside_front_spec [OF sound S(1) False, of e]
    show ?thesis
    proof (cases "e \<notin> S \<and> e \<in> wants ?h (has w)")
      case enter: True
      from owning_enter_spec [OF sound S(1) False, of e] show ?thesis
        using enter out lack False by (auto simp: owning_push_on_construct_def Let_def wants_def)
    qed (use out lack False S(1) ins in \<open>auto simp: owning_push_on_construct_def Let_def wants_def intro!: exI [of _ w]\<close>)
  qed
qed

lemma push_on_destroy_spec:
  assumes sound: "sound w" "g < length (others w)" and S: "holds g w S" "within g w S"
  shows "\<exists>w'. handle_hook Group_push_on_destroy g e w = Ret w' \<and> touches g w w' \<and>
    holds g w' (if (\<forall>k \<in> set (pools_of (others w ! g)). e \<in> has w k) \<and>
      length (filter (\<lambda>k. e \<in> has w k) (filter_pools (others w ! g))) = 1 then insert e S else S)"
proof -
  let ?h = "others w ! g"
  let ?in = "(\<forall>k \<in> set (pools_of ?h). e \<in> has w k) \<and> length (filter (\<lambda>k. e \<in> has w k) (filter_pools ?h)) = 1"
  note F = soundD(2) [OF sound]
  note count = pools_count_spec [OF sound(1) fits_sets(2) [OF F], of e]
  have ins: "insert e S = S" if "e \<in> S" using that by auto
  show ?thesis
  proof (cases "owned_pools ?h = []")
    case True
    note out = free_outside_spec [OF sound S(1) True, of e]
    show ?thesis
    proof (cases "e \<notin> S \<and> ?in")
      case enter: True
      obtain k where k: "k \<in> set (pools_of ?h)" "S \<subseteq> has w k" using S(2) by blast
      then have "k < length (mixins w)" "e \<in> has w k" using enter fitsD(4,5) [OF F] by auto
      from free_enter_spec [OF sound S(1) True this(1) k(2) _ this(2)] show ?thesis
        using enter out count True by (auto simp: free_push_on_destroy_def Let_def)
    qed (use out count True S(1) ins in \<open>auto simp: free_push_on_destroy_def Let_def intro!: exI [of _ w]\<close>)
  next
    case False
    note out = outside_front_spec [OF sound S(1) False, of e]
    show ?thesis
    proof (cases "e \<notin> S \<and> ?in")
      case enter: True
      from owning_enter_spec [OF sound S(1) False, of e] show ?thesis
        using enter out count False by (auto simp: owning_push_on_destroy_def Let_def)
    qed (use out count False S(1) ins in \<open>auto simp: owning_push_on_destroy_def Let_def intro!: exI [of _ w]\<close>)
  qed
qed

lemma remove_if_spec:
  assumes sound: "sound w" "g < length (others w)" and S: "holds g w S"
  shows "\<exists>w'. handle_hook Group_remove_if g e w = Ret w' \<and> touches g w w' \<and> holds g w' (S - {e})"
proof -
  let ?h = "others w ! g"
  note F = soundD(2) [OF sound]
  show ?thesis
  proof (cases "owned_pools ?h = []")
    case True
    let ?s = "group_elem ?h"
    have elem: "packed_ok ?s" "set (elements ?s) = S" using S True by (simp_all add: holds_def Let_def)
    have "\<exists>b s. remove e ?s = Ret (b, s) \<and> packed_ok s \<and> set (elements s) = S - {e}"
      using moved.remove [OF elem(1), of e] elem(2) by auto
    then obtain b s where "remove e ?s = Ret (b, s)" "packed_ok s" "set (elements s) = S - {e}" by blast
    then show ?thesis using touches_elem [OF sound(2), of s] sound(2) True
      by (intro exI [of _ "set_handler g (?h\<lparr>group_elem := s\<rparr>) w"]) (auto simp: free_remove_if_def Let_def holds_def set_handler_def)
  next
    case False
    obtain k ks where k: "pools_of ?h = k # ks" "k < length (mixins w)" "k \<in> set (owned_pools ?h)"
      using first_pool [OF F] False by metis
    have found: "st_contains (store_of k w) e = Ret (e \<in> has w k)"
      using st_contains_spec [OF soundD(1) [OF sound(1) k(2)]] by (simp add: dom_def)
    note front = in_front_spec [OF sound S k(3), of e] and sub = holds_subset(1) [OF sound S k(3)]
    show ?thesis
    proof (cases "e \<in> S")
      case True
      then have "e \<in> has w k" using sub by blast
      with owning_leave_spec [OF sound S False True] found front True False k(1) show ?thesis
        by (auto simp: owning_remove_if_def Let_def)
    next
      case out: False
      then have "S - {e} = S" by auto
      then show ?thesis using found front out False k(1) S by (auto simp: owning_remove_if_def Let_def intro!: exI [of _ w])
    qed
  qed
qed

end
