(* ===== verification/GroupCorrect.thy ===== *)
theory GroupCorrect
  imports GroupHandlers
begin

text \<open>
  Groups show what they are asked for, whatever is done to the storages they listen to, and any
  number of them at once: the storages tell the groups, through their signals, and each group
  brings itself up to date without getting in the way of another one.
\<close>

section \<open>Telling the groups\<close>

lemma touches_similar: "touches g w w' \<Longrightarrow> similar w w'"
  by (simp add: touches_def)

definition apart :: "'a grouped \<Rightarrow> bool" where
  "apart w \<longleftrightarrow> (\<forall>g<length (others w). \<forall>j<length (others w). g \<noteq> j \<longrightarrow>
     set (owned_pools (others w ! g)) \<inter> set (owned_pools (others w ! j)) = {})"

lemma apart_similar: "similar w w' \<Longrightarrow> apart w' = apart w"
  by (auto simp: apart_def similar_def same_shape_def)

definition heard :: "(hook, nat) delegate list \<Rightarrow> nat \<Rightarrow> bool" where
  "heard cs g \<longleftrightarrow> Some g \<in> bound_to ` set cs"

text \<open>
  A publication to groups: each of those that listen goes from what it holds before, \<open>old\<close>, to what
  it holds after, \<open>new\<close>, and the others stay.
\<close>

lemma tell_groups:
  fixes w :: "'a grouped"
  assumes w: "sound w" "apart w" and k: "k < length (mixins w)"
    and signal: "\<And>m m' :: ('a, hook, nat) mixin. same_mixin m m' \<Longrightarrow> signal m' = signal m"
    and cs: "distinct (map bound_to (signal (mixins w ! k)))"
      "\<And>d. d \<in> set (signal (mixins w ! k)) \<Longrightarrow> \<exists>f g. d = delegate_connect f (Some g) \<and> g < length (others w)"
    and old: "\<And>g. g < length (others w) \<Longrightarrow> holds g w (old g)"
    and step: "\<And>f g w1. delegate_connect f (Some g) \<in> set (signal (mixins w ! k)) \<Longrightarrow> similar w w1 \<Longrightarrow> sound w1 \<Longrightarrow> holds g w1 (old g) \<Longrightarrow>
      \<exists>w2. handle_hook f g e w1 = Ret w2 \<and> touches g w1 w2 \<and> holds g w2 (new g)"
  shows "\<exists>w'. tell notify signal k e w = Ret w' \<and> similar w w' \<and>
    (\<forall>g<length (others w). holds g w' (if heard (signal (mixins w ! k)) g then new g else old g))"
proof -
  let ?cs = "signal (mixins w ! k)"
  have calls: "signal (mixins w1 ! k) = ?cs" if "similar w w1" for w1
    using that k by (intro signal) (simp add: similar_def)
  define good where "good n w1 \<longleftrightarrow> similar w w1 \<and> (\<forall>g<length (others w). holds g w1 (if heard (drop n ?cs) g then new g else old g))"
    for n and w1 :: "'a grouped"
  have polite: "polite_listeners notify (\<lambda>w1. signal (mixins w1 ! k)) (\<lambda>w1. Ret e) e good"
  proof (unfold_locales, goal_cases)
    case (1 n s)
    show ?case by simp
  next
    case (2 n s)
    then have "signal (mixins s ! k) = ?cs" by (intro calls) (simp add: good_def)
    then have "signal (mixins s ! k) ! n \<in> set ?cs" using nth_mem [OF 2(2)] by simp
    then obtain f g where "signal (mixins s ! k) ! n = delegate_connect f (Some g)" using cs(2) by blast
    then show ?case by (simp add: delegate_set_def delegate_connect_def)
  next
    case (3 n s f p)
    have s: "similar w s" using 3(1) by (simp add: good_def)
    note C = calls [OF s]
    have n: "n < length ?cs" "?cs ! n = delegate_connect f p" using 3(2,3) C by simp_all
    have "?cs ! n \<in> set ?cs" by (rule nth_mem [OF n(1)])
    from cs(2) [OF this] obtain g where g: "p = Some g" "g < length (others w)" unfolding n(2) by (auto simp: delegate_connect_def)
    have in_cs: "delegate_connect f (Some g) \<in> set ?cs" using \<open>?cs ! n \<in> set ?cs\<close> by (simp only: n(2) g(1))
    have drop: "drop n ?cs = delegate_connect f (Some g) # drop (Suc n) ?cs" using Cons_nth_drop_Suc [OF n(1)] by (simp only: n(2) g(1))
    have "distinct (map bound_to (drop n ?cs))" using cs(1) by (simp add: drop_map [symmetric])
    then have fresh: "\<not> heard (drop (Suc n) ?cs) g" unfolding drop by (simp add: heard_def delegate_connect_def)
    have before: "holds j s (if heard (drop (Suc n) ?cs) j then new j else old j)" if "j < length (others w)" for j
      using 3(1) that unfolding good_def by blast
    have "sound s" by (rule sound_similar [OF s w(1)])
    moreover have "holds g s (old g)" using before [OF g(2)] fresh by simp
    ultimately obtain w2 where w2: "handle_hook f g e s = Ret w2" "touches g s w2" "holds g w2 (new g)"
      using step [OF in_cs s] by blast
    have "holds j w2 (if heard (drop n ?cs) j then new j else old j)" if j: "j < length (others w)" for j
    proof (cases "j = g")
      case True
      then show ?thesis using w2(3) by (simp add: drop heard_def delegate_connect_def)
    next
      case False
      have "apart s" using apart_similar [OF s] w(2) by simp
      then have "set (owned_pools (others s ! g)) \<inter> set (owned_pools (others s ! j)) = {}"
        using j g(2) False s by (auto simp: apart_def similar_def)
      moreover have "heard (drop n ?cs) j = heard (drop (Suc n) ?cs) j" using False by (auto simp: drop heard_def delegate_connect_def)
      ultimately show ?thesis using before [OF j] holds_other [OF w2(2) False] by simp
    qed
    moreover have "similar w w2" by (rule similar_trans [OF s touches_similar [OF w2(2)]])
    ultimately show ?case using w2(1) C calls [of w2] 3(2) by (intro exI [of _ "()"] exI [of _ w2]) (auto simp: notify_def g(1) good_def)
  qed
  have "good (length ?cs) w" using old by (simp add: good_def heard_def)
  from polite_listeners.publish_good [OF polite, OF this] obtain w' where
    "publish notify (\<lambda>w1. signal (mixins w1 ! k)) (\<lambda>w1. Ret e) w = Ret w'" "good 0 w'" by blast
  then show ?thesis by (auto simp: tell_def good_def)
qed

section \<open>Groups that are up to date\<close>

text \<open>The listeners that the signals of a storage must have, and no others.\<close>

definition construct_hooks :: "'a grouped \<Rightarrow> nat \<Rightarrow> (hook, nat) delegate set" where
  "construct_hooks w k =
     (\<lambda>g. delegate_connect Group_push_on_construct (Some g)) ` {g. g < length (others w) \<and> k \<in> set (pools_of (others w ! g))} \<union>
     (\<lambda>g. delegate_connect Group_remove_if (Some g)) ` {g. g < length (others w) \<and> k \<in> set (filter_pools (others w ! g))}"

definition destroy_hooks :: "'a grouped \<Rightarrow> nat \<Rightarrow> (hook, nat) delegate set" where
  "destroy_hooks w k =
     (\<lambda>g. delegate_connect Group_remove_if (Some g)) ` {g. g < length (others w) \<and> k \<in> set (pools_of (others w ! g))} \<union>
     (\<lambda>g. delegate_connect Group_push_on_destroy (Some g)) ` {g. g < length (others w) \<and> k \<in> set (filter_pools (others w ! g))}"

definition wired :: "'a grouped \<Rightarrow> bool" where
  "wired w \<longleftrightarrow> (\<forall>k<length (mixins w).
     distinct (construction (mixins w ! k)) \<and> set (construction (mixins w ! k)) = construct_hooks w k \<and>
     distinct (destruction (mixins w ! k)) \<and> set (destruction (mixins w ! k)) = destroy_hooks w k \<and> updates (mixins w ! k) = [])"

definition settled :: "'a grouped \<Rightarrow> bool" where
  "settled w \<longleftrightarrow> sound w \<and> apart w \<and> wired w \<and> (\<forall>g<length (others w). holds g w (wants (others w ! g) (has w)))"

lemma settledD:
  assumes "settled w"
  shows "sound w" "apart w" "wired w" "g < length (others w) \<Longrightarrow> holds g w (wants (others w ! g) (has w))"
  using assms by (simp_all add: settled_def)

lemma wiredD:
  assumes "wired w" "k < length (mixins w)"
  shows "distinct (construction (mixins w ! k))" "set (construction (mixins w ! k)) = construct_hooks w k"
    "distinct (destruction (mixins w ! k))" "set (destruction (mixins w ! k)) = destroy_hooks w k" "updates (mixins w ! k) = []"
  using assms by (simp_all add: wired_def)

lemma hooks_shapes:
  assumes "length (others w') = length (others w)" "\<And>g. g < length (others w) \<Longrightarrow> same_shape (others w ! g) (others w' ! g)"
  shows "construct_hooks w' k = construct_hooks w k" "destroy_hooks w' k = destroy_hooks w k"
proof -
  have "{g. g < length (others w') \<and> k \<in> set (pools_of (others w' ! g))} = {g. g < length (others w) \<and> k \<in> set (pools_of (others w ! g))}"
    "{g. g < length (others w') \<and> k \<in> set (filter_pools (others w' ! g))} = {g. g < length (others w) \<and> k \<in> set (filter_pools (others w ! g))}"
    using assms by (auto simp: same_shape_def)
  then show "construct_hooks w' k = construct_hooks w k" "destroy_hooks w' k = destroy_hooks w k"
    by (simp_all only: construct_hooks_def destroy_hooks_def)
qed

lemma hooks_similar: "similar w w' \<Longrightarrow> construct_hooks w' k = construct_hooks w k" "similar w w' \<Longrightarrow> destroy_hooks w' k = destroy_hooks w k"
  by (rule hooks_shapes; simp add: similar_def)+

lemma wired_similar: "similar w w' \<Longrightarrow> wired w \<Longrightarrow> wired w'"
  using hooks_similar [of w w'] by (simp add: wired_def) (simp add: similar_def same_mixin_def)

lemma hooks_bound:
  assumes "sound w"
  shows "inj_on bound_to (construct_hooks w k)" "inj_on bound_to (destroy_hooks w k)"
proof -
  have "k \<notin> set (owned_pools (others w ! g)) \<and> k \<notin> set (got_pools (others w ! g))"
    if "g < length (others w)" "k \<in> set (filter_pools (others w ! g))" for g
    using fitsD(3) [OF soundD(2) [OF assms that(1)]] that(2) by auto
  then show "inj_on bound_to (construct_hooks w k)" "inj_on bound_to (destroy_hooks w k)"
    by (auto simp: inj_on_def construct_hooks_def destroy_hooks_def delegate_connect_def)
qed

lemma hooks_of_groups:
  "d \<in> construct_hooks w k \<Longrightarrow> \<exists>f g. d = delegate_connect f (Some g) \<and> g < length (others w)"
  "d \<in> destroy_hooks w k \<Longrightarrow> \<exists>f g. d = delegate_connect f (Some g) \<and> g < length (others w)"
  by (auto simp: construct_hooks_def destroy_hooks_def)

lemma bound_to_hooks:
  "bound_to ` construct_hooks w k = Some ` {g. g < length (others w) \<and> k \<in> set (pools_of (others w ! g) @ filter_pools (others w ! g))}"
  "bound_to ` destroy_hooks w k = Some ` {g. g < length (others w) \<and> k \<in> set (pools_of (others w ! g) @ filter_pools (others w ! g))}"
proof -
  have "{g. g < length (others w) \<and> k \<in> set (pools_of (others w ! g) @ filter_pools (others w ! g))} =
      {g. g < length (others w) \<and> k \<in> set (pools_of (others w ! g))} \<union> {g. g < length (others w) \<and> k \<in> set (filter_pools (others w ! g))}"
    by auto
  then show "bound_to ` construct_hooks w k = Some ` {g. g < length (others w) \<and> k \<in> set (pools_of (others w ! g) @ filter_pools (others w ! g))}"
    "bound_to ` destroy_hooks w k = Some ` {g. g < length (others w) \<and> k \<in> set (pools_of (others w ! g) @ filter_pools (others w ! g))}"
    by (simp_all only: construct_hooks_def destroy_hooks_def image_Un image_image delegate_connect_def delegate.simps)
qed

lemma hooks_heard:
  assumes "g < length (others w)"
  shows "set cs = construct_hooks w k \<Longrightarrow> heard cs g \<longleftrightarrow> k \<in> set (pools_of (others w ! g) @ filter_pools (others w ! g))"
    "set cs = destroy_hooks w k \<Longrightarrow> heard cs g \<longleftrightarrow> k \<in> set (pools_of (others w ! g) @ filter_pools (others w ! g))"
  using assms by (simp_all only: heard_def bound_to_hooks inj_image_mem_iff [OF inj_Some] mem_Collect_eq simp_thms)

lemma wants_similar:
  assumes "similar w w'" "fits w h" "same_shape h h'" shows "wants h' (has w') = wants h (has w)"
proof (rule wants_cong)
  fix k assume "k \<in> set (pools_of h @ filter_pools h)"
  then show "has w' k = has w k" using fits_sets [OF assms(2)] assms(1) by (intro similar_has) auto
qed (rule assms(3))

lemma settled_after:
  assumes "similar w w'" "sound w" "apart w" "wired w" "\<And>g. g < length (others w) \<Longrightarrow> holds g w' (wants (others w ! g) (has w))"
  shows "settled w'"
proof -
  have "wants (others w' ! g) (has w') = wants (others w ! g) (has w)" if "g < length (others w)" for g
    using wants_similar [OF assms(1) soundD(2) [OF assms(2) that]] assms(1) that by (simp add: similar_def)
  then show ?thesis
    using sound_similar [OF assms(1,2)] apart_similar [OF assms(1)] assms(3) wired_similar [OF assms(1,4)] assms(1,5)
    by (auto simp: settled_def similar_def)
qed

text \<open>A storage gets another content.\<close>

lemma set_store_fields [simp]:
  "others (set_mixin k m w) = others w" "length (mixins (set_mixin k m w)) = length (mixins w)"
  "k < length (mixins w) \<Longrightarrow> mixins (set_mixin k m w) ! j = (if j = k then m else mixins w ! j)"
  by (simp_all add: set_mixin_def)

lemma set_store_settled:
  assumes w: "sound w" "apart w" "wired w" and k: "k < length (mixins w)" and st: "st_ok st" "mode (base st) = mode (base (store_of k w))"
  shows "sound (set_store k st w)" "apart (set_store k st w)" "wired (set_store k st w)"
    "has (set_store k st w) = (has w)(k := dom (comps st))"
proof -
  let ?w = "set_store k st w"
  have modes: "mode (base (store_of j ?w)) = mode (base (store_of j w))" for j using st(2) k by simp
  have "fits ?w h = fits w h" for h unfolding fits_def modes set_store_fields ..
  then show "sound ?w" using w(1) st(1) k by (auto simp: sound_def)
  show "apart ?w" using w(2) by (simp add: apart_def)
  have "construct_hooks ?w j = construct_hooks w j" "destroy_hooks ?w j = destroy_hooks w j" for j by (rule hooks_shapes; simp)+
  then show "wired ?w" using w(3) k by (simp add: wired_def)
  show "has ?w = (has w)(k := dom (comps st))" by (rule ext) (use k in simp)
qed

lemma holds_set_store:
  assumes "holds g w S" "k < length (mixins w)"
    and "\<And>front rest. k \<in> set (owned_pools (others w ! g)) \<Longrightarrow> set front = S \<Longrightarrow> ids_in k w = front @ rest \<Longrightarrow>
      \<exists>rest'. elements (base st) = front @ rest'"
  shows "holds g (set_store k st w) S"
proof (cases "owned_pools (others w ! g) = []")
  case True
  then show ?thesis using assms(1) by (simp add: holds_def Let_def)
next
  case False
  then obtain front where f: "length front = group_len (others w ! g)" "set front = S"
    "\<forall>j \<in> set (owned_pools (others w ! g)). \<exists>rest. ids_in j w = front @ rest" using assms(1) by (auto simp: holds_def Let_def)
  then show ?thesis using False assms(2,3) by (intro holds_front [of _ _ front]) auto
qed

section \<open>What a group wants when a storage changes\<close>

lemma wants_add:
  assumes "e \<notin> H k" "H' = H(k := insert e (H k))"
  shows "k \<in> set (pools_of h) \<Longrightarrow> k \<notin> set (filter_pools h) \<Longrightarrow>
      (if e \<in> wants h H' then insert e (wants h H) else wants h H) = wants h H'"
    "k \<notin> set (pools_of h) \<Longrightarrow> k \<in> set (filter_pools h) \<Longrightarrow> wants h H - {e} = wants h H'"
    "k \<notin> set (pools_of h) \<Longrightarrow> k \<notin> set (filter_pools h) \<Longrightarrow> wants h H = wants h H'"
  using assms(1) unfolding assms(2) by (auto simp: wants_def split: if_splits)

lemma wants_drop:
  assumes "H' = H(k := H k - {e})"
  shows "k \<in> set (pools_of h) \<Longrightarrow> k \<notin> set (filter_pools h) \<Longrightarrow> wants h H - {e} = wants h H'"
    "k \<notin> set (pools_of h) \<Longrightarrow> k \<notin> set (filter_pools h) \<Longrightarrow> wants h H = wants h H'"
  unfolding assms by (auto simp: wants_def split: if_splits)

lemma only_one:
  assumes "distinct ks" "k \<in> set ks" "P k" shows "length (filter P ks) = 1 \<longleftrightarrow> (\<forall>j \<in> set ks. P j \<longrightarrow> j = k)"
proof -
  have "length (filter P ks) = card (set (filter P ks))" using distinct_card [of "filter P ks"] assms(1) by simp
  also have "\<dots> = 1 \<longleftrightarrow> (\<exists>x. set (filter P ks) = {x})" by (simp add: card_1_singleton_iff)
  also have "\<dots> \<longleftrightarrow> set (filter P ks) = {k}"
  proof -
    have "k \<in> set (filter P ks)" using assms(2,3) by simp
    then show ?thesis by (metis singletonD)
  qed
  also have "\<dots> \<longleftrightarrow> (\<forall>j \<in> set ks. P j \<longrightarrow> j = k)" using assms(2,3) by auto
  finally show ?thesis .
qed

lemma wants_drop_filter:
  assumes "H' = H(k := H k - {e})" "e \<in> H k" "k \<notin> set (pools_of h)" "k \<in> set (filter_pools h)" "distinct (filter_pools h)"
  shows "(if (\<forall>j \<in> set (pools_of h). e \<in> H j) \<and> length (filter (\<lambda>j. e \<in> H j) (filter_pools h)) = 1
      then insert e (wants h H) else wants h H) = wants h H'"
proof -
  have "length (filter (\<lambda>j. e \<in> H j) (filter_pools h)) = 1 \<longleftrightarrow> (\<forall>j \<in> set (filter_pools h). e \<in> H j \<longrightarrow> j = k)"
    by (rule only_one) (use assms in simp_all)
  moreover have "d \<in> wants h H' \<longleftrightarrow> d \<in> wants h H" if "d \<noteq> e" for d
    using that unfolding assms(1) by (auto simp: wants_def)
  moreover have "e \<in> wants h H' \<longleftrightarrow> (\<forall>j \<in> set (pools_of h). e \<in> H j) \<and> (\<forall>j \<in> set (filter_pools h). e \<in> H j \<longrightarrow> j = k)"
    using assms(3) unfolding assms(1) by (auto simp: wants_def)
  moreover have "e \<notin> wants h H" using assms(2,4) by (auto simp: wants_def)
  ultimately have "d \<in> (if (\<forall>j \<in> set (pools_of h). e \<in> H j) \<and> length (filter (\<lambda>j. e \<in> H j) (filter_pools h)) = 1
      then insert e (wants h H) else wants h H) \<longleftrightarrow> d \<in> wants h H'" for d by (cases "d = e") (simp_all only: if_split insert_iff simp_thms, blast?)
  then show ?thesis by (rule set_eqI)
qed

section \<open>Telling of components made and destroyed\<close>

lemma pool_not_filter:
  assumes "fits w h" shows "k \<in> set (pools_of h) \<Longrightarrow> k \<notin> set (filter_pools h)" "k \<in> set (filter_pools h) \<Longrightarrow> k \<notin> set (pools_of h)"
  using fitsD(3) [OF assms] by blast+

lemma within_wants:
  assumes "fits w (others w ! g)" "\<And>k. k \<in> set (pools_of (others w ! g)) \<Longrightarrow> H k \<subseteq> has w k"
  shows "within g w (wants (others w ! g) H)"
proof -
  obtain k where k: "k \<in> set (pools_of (others w ! g))" using fitsD(7) [OF assms(1)] by (meson list.set_sel(1))
  have "wants (others w ! g) H \<subseteq> H k" using k by (auto simp: wants_def)
  with assms(2) [OF k] k show ?thesis by (meson order_trans)
qed

lemma tell_construct:
  assumes w: "sound w" "apart w" "wired w" and k: "k < length (mixins w)" and H: "e \<notin> H k" "has w = H(k := insert e (H k))"
    and old: "\<And>g. g < length (others w) \<Longrightarrow> holds g w (wants (others w ! g) H)"
  shows "\<exists>w'. tell notify construction k e w = Ret w' \<and> similar w w' \<and> settled w'"
proof -
  note W = wiredD [OF w(3) k]
  let ?old = "\<lambda>g. wants (others w ! g) H" and ?new = "\<lambda>g. wants (others w ! g) (has w)"
  have "\<exists>w'. tell notify construction k e w = Ret w' \<and> similar w w' \<and>
    (\<forall>g<length (others w). holds g w' (if heard (construction (mixins w ! k)) g then ?new g else ?old g))"
  proof (rule tell_groups [OF w(1,2) k])
    show "distinct (map bound_to (construction (mixins w ! k)))" using hooks_bound(1) [OF w(1)] W(1,2) by (simp add: distinct_map)
    show "construction m' = construction m" if "same_mixin m m'" for m m' :: "('a, hook, nat) mixin" using that by (simp add: same_mixin_def)
    show "\<exists>f g. d = delegate_connect f (Some g) \<and> g < length (others w)" if "d \<in> set (construction (mixins w ! k))" for d
      using that unfolding W(2) by (rule hooks_of_groups(1))
  next
    fix f g and w1 :: "'a grouped"
    assume in_cs: "delegate_connect f (Some g) \<in> set (construction (mixins w ! k))" and w1: "similar w w1" "sound w1" "holds g w1 (?old g)"
    from in_cs have g: "g < length (others w)" and hook: "f = Group_push_on_construct \<and> k \<in> set (pools_of (others w ! g)) \<or>
        f = Group_remove_if \<and> k \<in> set (filter_pools (others w ! g))"
      unfolding W(2) by (auto simp: construct_hooks_def delegate_connect_def)
    note F = soundD(2) [OF w(1) g]
    have g1: "g < length (others w1)" "same_shape (others w ! g) (others w1 ! g)" using w1(1) g by (simp_all add: similar_def)
    have same: "wants (others w1 ! g) (has w1) = ?new g" "pools_of (others w1 ! g) = pools_of (others w ! g)"
      "wants (others w1 ! g) H = ?old g" using wants_similar [OF w1(1) F g1(2)] g1(2) by (simp_all add: same_shape_def wants_def)
    have "H j \<subseteq> has w1 j" if "j \<in> set (pools_of (others w1 ! g))" for j
    proof -
      have "j < length (mixins w)" using that fits_sets [OF F] unfolding same(2) by auto
      then have "has w1 j = has w j" by (rule similar_has [OF w1(1)])
      also have "\<dots> = (H(k := insert e (H k))) j" by (rule fun_cong [OF H(2)])
      finally show ?thesis by auto
    qed
    from within_wants [OF soundD(2) [OF w1(2) g1(1)] this] have within: "within g w1 (?old g)" unfolding same(3) .
    from hook show "\<exists>w2. handle_hook f g e w1 = Ret w2 \<and> touches g w1 w2 \<and> holds g w2 (?new g)"
    proof
      assume hook: "f = Group_push_on_construct \<and> k \<in> set (pools_of (others w ! g))"
      show ?thesis using push_on_construct_spec [OF w1(2) g1(1) w1(3) within, of e] hook
          wants_add(1) [OF H, of "others w ! g"] pool_not_filter(1) [OF F, of k] unfolding same(1) by simp
    next
      assume hook: "f = Group_remove_if \<and> k \<in> set (filter_pools (others w ! g))"
      show ?thesis using remove_if_spec [OF w1(2) g1(1) w1(3), of e] hook
          wants_add(2) [OF H, of "others w ! g"] pool_not_filter(2) [OF F, of k] by simp
    qed
  qed (rule old)
  then obtain w' where w': "tell notify construction k e w = Ret w'" "similar w w'"
    "\<And>g. g < length (others w) \<Longrightarrow> holds g w' (if heard (construction (mixins w ! k)) g then ?new g else ?old g)" by blast
  have "holds g w' (?new g)" if g: "g < length (others w)" for g
    using w'(3) [OF g] hooks_heard(1) [OF g W(2)] wants_add(3) [OF H, of "others w ! g"] by (simp split: if_splits)
  from settled_after [OF w'(2) w this] w'(1,2) show ?thesis by blast
qed

lemma tell_destroy:
  assumes w: "settled w" and k: "k < length (mixins w)" and e: "e \<in> has w k" and H: "H = (has w)(k := has w k - {e})"
  shows "\<exists>w'. tell notify destruction k e w = Ret w' \<and> similar w w' \<and> (\<forall>g<length (others w). holds g w' (wants (others w ! g) H))"
proof -
  note S = settledD [OF w]
  note W = wiredD [OF S(3) k]
  let ?old = "\<lambda>g. wants (others w ! g) (has w)" and ?new = "\<lambda>g. wants (others w ! g) H"
  have "\<exists>w'. tell notify destruction k e w = Ret w' \<and> similar w w' \<and>
    (\<forall>g<length (others w). holds g w' (if heard (destruction (mixins w ! k)) g then ?new g else ?old g))"
  proof (rule tell_groups [OF S(1,2) k])
    show "distinct (map bound_to (destruction (mixins w ! k)))" using hooks_bound(2) [OF S(1)] W(3,4) by (simp add: distinct_map)
    show "destruction m' = destruction m" if "same_mixin m m'" for m m' :: "('a, hook, nat) mixin" using that by (simp add: same_mixin_def)
    show "\<exists>f g. d = delegate_connect f (Some g) \<and> g < length (others w)" if "d \<in> set (destruction (mixins w ! k))" for d
      using that unfolding W(4) by (rule hooks_of_groups(2))
  next
    fix f g and w1 :: "'a grouped"
    assume in_cs: "delegate_connect f (Some g) \<in> set (destruction (mixins w ! k))" and w1: "similar w w1" "sound w1" "holds g w1 (?old g)"
    from in_cs have g: "g < length (others w)" and hook: "f = Group_remove_if \<and> k \<in> set (pools_of (others w ! g)) \<or>
        f = Group_push_on_destroy \<and> k \<in> set (filter_pools (others w ! g))"
      unfolding W(4) by (auto simp: destroy_hooks_def delegate_connect_def)
    note F = soundD(2) [OF S(1) g]
    have g1: "g < length (others w1)" "same_shape (others w ! g) (others w1 ! g)" using w1(1) g by (simp_all add: similar_def)
    then have same: "pools_of (others w1 ! g) = pools_of (others w ! g)" "filter_pools (others w1 ! g) = filter_pools (others w ! g)"
      by (simp_all add: same_shape_def)
    have has1: "has w1 j = has w j" if "j \<in> set (pools_of (others w ! g) @ filter_pools (others w ! g))" for j
      using that fits_sets [OF F] w1(1) by (intro similar_has) auto
    have "wants (others w1 ! g) (has w) = ?old g" using same by (simp add: wants_def)
    moreover have "has w j \<subseteq> has w1 j" if "j \<in> set (pools_of (others w1 ! g))" for j
      by (rule equalityD2, rule has1) (use that same in auto)
    from within_wants [OF soundD(2) [OF w1(2) g1(1)] this] have "within g w1 (wants (others w1 ! g) (has w))" .
    ultimately have within: "within g w1 (?old g)" by (simp only:)
    from hook show "\<exists>w2. handle_hook f g e w1 = Ret w2 \<and> touches g w1 w2 \<and> holds g w2 (?new g)"
    proof
      assume hook: "f = Group_remove_if \<and> k \<in> set (pools_of (others w ! g))"
      show ?thesis using remove_if_spec [OF w1(2) g1(1) w1(3), of e] hook
          wants_drop(1) [OF H, of "others w ! g"] pool_not_filter(1) [OF F, of k] by simp
    next
      assume hook: "f = Group_push_on_destroy \<and> k \<in> set (filter_pools (others w ! g))"
      have mem: "e \<in> has w1 j \<longleftrightarrow> e \<in> has w j" if "j \<in> set (pools_of (others w ! g) @ filter_pools (others w ! g))" for j
        by (simp only: has1 [OF that])
      have "(\<forall>j \<in> set (pools_of (others w1 ! g)). e \<in> has w1 j) \<longleftrightarrow> (\<forall>j \<in> set (pools_of (others w ! g)). e \<in> has w j)"
        "filter (\<lambda>j. e \<in> has w1 j) (filter_pools (others w1 ! g)) = filter (\<lambda>j. e \<in> has w j) (filter_pools (others w ! g))"
        unfolding same by (rule ball_cong [OF refl], rule mem, auto) (rule filter_cong [OF refl], rule mem, auto)
      then show ?thesis using push_on_destroy_spec [OF w1(2) g1(1) w1(3) within, of e] hook
          wants_drop_filter [OF H e, of "others w ! g"] pool_not_filter(2) [OF F, of k] fitsD(2) [OF F] by simp
    qed
  qed (rule S(4))
  then obtain w' where w': "tell notify destruction k e w = Ret w'" "similar w w'"
    "\<And>g. g < length (others w) \<Longrightarrow> holds g w' (if heard (destruction (mixins w ! k)) g then ?new g else ?old g)" by blast
  have "holds g w' (?new g)" if g: "g < length (others w)" for g
    using w'(3) [OF g] hooks_heard(2) [OF g W(4)] wants_drop(2) [OF H, of "others w ! g"] by (simp split: if_splits)
  with w'(1,2) show ?thesis by blast
qed

section \<open>The operations on components\<close>

text \<open>The maps of the storages, the types of the groups, and how full the storages are.\<close>

abbreviation contents :: "'a grouped \<Rightarrow> (entity \<Rightarrow> 'a option) list" where
  "contents w \<equiv> map (\<lambda>m. comps (store m)) (mixins w)"

abbreviation shapes :: "'a grouped \<Rightarrow> (nat list \<times> nat list \<times> nat list) list" where
  "shapes w \<equiv> map (\<lambda>h. (owned_pools h, got_pools h, filter_pools h)) (others w)"

abbreviation modes :: "'a grouped \<Rightarrow> deletion_policy list" where
  "modes w \<equiv> map (\<lambda>m. mode (base (store m))) (mixins w)"

definition roomy :: "nat \<Rightarrow> 'a grouped \<Rightarrow> bool" where
  "roomy n w \<longleftrightarrow> (\<forall>k<length (mixins w). length (ids_in k w) \<le> n)"

lemma contents_similar: "similar w w' \<Longrightarrow> contents w' = contents w"
  by (auto simp: similar_def same_mixin_def intro: nth_equalityI)

lemma shapes_similar: "similar w w' \<Longrightarrow> shapes w' = shapes w"
  by (auto simp: similar_def same_shape_def intro: nth_equalityI)

lemma modes_similar: "similar w w' \<Longrightarrow> modes w' = modes w"
  by (auto simp: similar_def same_mixin_def intro: nth_equalityI)

lemma roomy_similar: "similar w w' \<Longrightarrow> roomy n w' = roomy n w"
  by (auto simp: roomy_def similar_def same_mixin_def)

lemma contents_nth: "k < length (mixins w) \<Longrightarrow> contents w ! k = comps (store_of k w)"
  by simp

lemma contents_set_store: "contents (set_store k st w) = (contents w)[k := comps st]"
  by (simp add: set_mixin_def map_update)

lemma modes_set_store:
  "k < length (mixins w) \<Longrightarrow> mode (base st) = mode (base (store_of k w)) \<Longrightarrow> modes (set_store k st w) = modes w"
  by (auto simp: set_mixin_def map_update list_update_same_conv)

lemma roomy_set_store:
  "roomy n w \<Longrightarrow> k < length (mixins w) \<Longrightarrow> length (elements (base st)) \<le> m \<Longrightarrow> n \<le> m \<Longrightarrow> roomy m (set_store k st w)"
  by (auto simp: roomy_def intro: le_trans)

lemma mix_emplace_spec:
  assumes w: "settled w" and k: "k < length (mixins w)" and room: "roomy n w" "n < 2 ^ 20 - 1" and e: "\<not> is_tombstone e"
  shows "if to_entity e \<in> to_entity ` has w k then mix_emplace notify k e x w = Aborts
    else \<exists>w'. mix_emplace notify k e x w = Ret (x, w') \<and> settled w' \<and> roomy (n + 1) w' \<and> shapes w' = shapes w \<and> modes w' = modes w \<and>
      contents w' = (contents w)[k := (case x of Some v \<Rightarrow> (comps (store_of k w))(e \<mapsto> v) | None \<Rightarrow> comps (store_of k w))]"
proof -
  note S = settledD [OF w]
  have st: "st_ok (store_of k w)" by (rule soundD(1) [OF S(1) k])
  have len: "length (ids_in k w) \<le> n" using room(1) k by (simp add: roomy_def)
  note spec = emplace_spec [OF st, of e x]
  show ?thesis
  proof (cases "to_entity e \<in> to_entity ` has w k")
    case True
    then show ?thesis using spec e len room(2) by (simp add: mix_emplace_def)
  next
    case False
    then have new: "e \<notin> has w k" by blast
    obtain t where t: "st_emplace e x (store_of k w) = Ret (x \<noteq> None, t)" "st_ok t" "mode (base t) = mode (base (store_of k w))"
      "length (elements (base t)) \<le> length (ids_in k w) + 1"
      "comps t = (case x of Some v \<Rightarrow> (comps (store_of k w))(e \<mapsto> v) | None \<Rightarrow> comps (store_of k w))"
      using spec e len room(2) False by auto
    let ?w = "set_store k t w"
    note W = set_store_settled [OF S(1-3) k t(2,3)]
    have old: "holds g ?w (wants (others ?w ! g) (has w))" if g: "g < length (others ?w)" for g
    proof -
      have g': "g < length (others w)" "others ?w = others w" using g by simp_all
      show ?thesis unfolding g'(2)
      proof (rule holds_set_store [OF S(4) [OF g'(1)] k])
        fix front rest assume own: "k \<in> set (owned_pools (others w ! g))" and ids: "ids_in k w = front @ rest"
        have "mode (base (store_of k w)) \<noteq> In_place" by (rule fitsD(8) [OF soundD(2) [OF S(1) g'(1)] own])
        from emplace_order [OF st this _ t(1)] len room(2) ids show "\<exists>rest'. elements (base t) = front @ rest'" by simp
      qed
    qed
    have roomy: "roomy (n + 1) ?w" by (rule roomy_set_store [OF room(1) k]) (use t(4) len in simp_all)
    have cont: "contents ?w = (contents w)[k := comps t]" by (rule contents_set_store)
    have modes: "modes ?w = modes w" by (rule modes_set_store [OF k t(3)])
    show ?thesis
    proof (cases x)
      case None
      then have "has ?w = has w" using W(4) t(5) by (simp add: fun_upd_idem)
      then have "settled ?w" using settled_after [OF similar_refl W(1-3)] old by simp
      then show ?thesis using t(1,5) None roomy cont modes False by (simp add: mix_emplace_def)
    next
      case (Some v)
      have "has ?w = (has w)(k := insert e (has w k))" using W(4) t(5) Some by simp
      from tell_construct [OF W(1-3) _ new this old] k obtain w' where
        w': "tell notify construction k e ?w = Ret w'" "similar ?w w'" "settled w'" by auto
      have k': "k < length (mixins w')" using w'(2) k by (simp add: similar_def)
      have comps': "comps (store_of k w') = comps t" using contents_similar [OF w'(2)] contents_nth [OF k'] k cont by simp
      have "st_get e (store_of k w') = Ret v"
        using st_get_spec [OF soundD(1) [OF settledD(1) [OF w'(3)] k']] by (simp add: comps' t(5) Some)
      then have "mix_emplace notify k e x w = Ret (x, w')" using t(1) w'(1) Some by (simp add: mix_emplace_def)
      then show ?thesis
        using w'(3) roomy roomy_similar [OF w'(2)] shapes_similar [OF w'(2)] contents_similar [OF w'(2)] modes_similar [OF w'(2)] modes cont t(5) False Some by simp
    qed
  qed
qed

lemma prefix_swap_pop:
  assumes "i < length (xs @ ys)" "(xs @ ys) ! i = e" "e \<notin> set xs"
  shows "\<exists>zs. swap_pop i (xs @ ys) = xs @ zs"
proof -
  have i: "length xs \<le> i" using assms by (metis leI nth_append nth_mem)
  then have ne: "ys \<noteq> []" using assms(1) by auto
  have "swap_pop i (xs @ ys) = xs @ swap_pop (i - length xs) ys"
    using i ne by (simp add: swap_pop_def list_update_append butlast_append)
  then show ?thesis by blast
qed

lemma mix_remove_spec:
  assumes w: "settled w" and k: "k < length (mixins w)" and room: "roomy n w"
  shows "\<exists>w'. mix_remove notify k e w = Ret (e \<in> has w k, w') \<and> settled w' \<and> roomy n w' \<and> shapes w' = shapes w \<and> modes w' = modes w \<and>
    contents w' = (contents w)[k := (comps (store_of k w))(e := None)]"
proof (cases "e \<in> has w k")
  case False
  have "contains (base (store_of k w)) e = Ret False"
    using st_contains_spec [OF soundD(1) [OF settledD(1) [OF w] k], of e] False by (auto simp: st_contains_def)
  then have "mix_remove notify k e w = Ret (e \<in> has w k, w)" unfolding mix_remove_def using False by (simp only: obind.simps if_False)
  moreover have "(comps (store_of k w))(e := None) = contents w ! k" using False contents_nth [OF k] by (simp add: fun_upd_idem domIff)
  then have "contents w = (contents w)[k := (comps (store_of k w))(e := None)]" by (simp only: list_update_id)
  ultimately show ?thesis using w room by (intro exI [of _ w]) (simp only: simp_thms)
next
  case True
  note S = settledD [OF w]
  let ?H = "(has w)(k := has w k - {e})"
  have st: "st_ok (store_of k w)" by (rule soundD(1) [OF S(1) k])
  obtain w1 where w1: "tell notify destruction k e w = Ret w1" "similar w w1" "\<forall>g<length (others w). holds g w1 (wants (others w ! g) ?H)"
    using tell_destroy [OF w k True refl] by blast
  have k1: "k < length (mixins w1)" and comps1: "comps (store_of k w1) = comps (store_of k w)"
    using w1(2) k by (simp_all add: similar_def same_mixin_def)
  note sound1 = sound_similar [OF w1(2) S(1)]
  have st1: "st_ok (store_of k w1)" by (rule soundD(1) [OF sound1 k1])
  have "comps (store_of k w1) e \<noteq> None" using True comps1 by auto
  then obtain t where t: "st_erase e (store_of k w1) = Ret t" "st_ok t" "mode (base t) = mode (base (store_of k w1))"
    "length (elements (base t)) \<le> length (ids_in k w1)" "comps t = (comps (store_of k w1))(e := None)"
    using erase_spec [OF st1, of e] by auto
  let ?w = "set_store k t w1"
  have apart1: "apart w1" and wired1: "wired w1" using apart_similar [OF w1(2)] wired_similar [OF w1(2)] S(2,3) by simp_all
  note W = set_store_settled [OF sound1 apart1 wired1 k1 t(2,3)]
  have call: "mix_remove notify k e w = Ret (True, ?w)"
  proof -
    have found: "contains (base (store_of k w)) e = Ret True" "contains (base (store_of k w1)) e = Ret True"
      using st_contains_spec [OF st, of e] st_contains_spec [OF st1, of e] True comps1 by (auto simp: st_contains_def)
    obtain i where i: "i \<in> positions (base (store_of k w))" "ids_in k w ! i = e"
      using True unfolding dom_comps [OF st] by (auto simp: members_def)
    note B = base_index [OF st_okD(1) [OF st] i(1), unfolded i(2)]
    obtain it where pop1: "to_iterator (base (store_of k w1)) e = Ret it" "st_pop it (it - 1) (store_of k w1) = Ret t"
      using t(1) by (auto simp: st_erase_def obind_eq_Ret_iff)
    have at: "it \<noteq> 0" using pop1(1) by (auto simp: to_iterator_def obind_eq_Ret_iff)
    have "mix_pop notify k (i + 1) i w = Ret ?w"
    proof (cases "destruction (mixins w ! k) = []")
      case True
      have "w1 = w" using w1(1) True by (simp add: tell_def publish_def)
      moreover from this have "it = Suc i" using pop1(1) B(2) by simp
      ultimately show ?thesis using pop1(2) True by (simp add: mix_pop_def)
    next
      case False
      have "mix_pop_loop notify k i i ?w = Ret ?w" by (simp add: mix_pop_loop.simps)
      then show ?thesis using False B(3) w1(1) found(2) pop1 at
        by (simp add: mix_pop_def mix_pop_loop.simps [of notify k "Suc i"] ss_find_def)
    qed
    then show ?thesis using found(1) B(2) by (simp add: mix_remove_def mix_erase_def)
  qed
  have "holds g ?w (wants (others w ! g) ?H)" if g: "g < length (others w)" for g
  proof (rule holds_set_store [OF _ k1])
    show "holds g w1 (wants (others w ! g) ?H)" using w1(3) g by blast
  next
    fix front rest
    assume own1: "k \<in> set (owned_pools (others w1 ! g))" and front: "set front = wants (others w ! g) ?H" and ids: "ids_in k w1 = front @ rest"
    have g1: "g < length (others w1)" using w1(2) g by (simp add: similar_def)
    have packed: "mode (base (store_of k w1)) \<noteq> In_place" by (rule fitsD(8) [OF soundD(2) [OF sound1 g1] own1])
    have "k \<in> set (pools_of (others w ! g))" using own1 w1(2) g by (simp add: similar_def same_shape_def)
    then have out: "e \<notin> set front" unfolding front by (auto simp: wants_def)
    have "e \<in> set (ids_in k w1)" unfolding packed_storage(3) [OF st1 packed, symmetric] comps1 by (rule True)
    then obtain i where i: "i < length (ids_in k w1)" "ids_in k w1 ! i = e" by (auto simp: in_set_conv_nth)
    have "elements (base t) = swap_pop i (front @ rest)" using erase_order [OF st1 packed i(1)] t(1) i(2) ids by simp
    then show "\<exists>rest'. elements (base t) = front @ rest'" using prefix_swap_pop [OF _ _ out, of i rest] i ids by simp
  qed
  moreover have "wants (others ?w ! g) (has ?w) = wants (others w ! g) ?H" if g: "g < length (others w)" for g
  proof (rule wants_cong)
    show "same_shape (others w ! g) (others ?w ! g)" using w1(2) g by (simp add: similar_def)
    fix j assume "j \<in> set (pools_of (others w ! g) @ filter_pools (others w ! g))"
    then have "j < length (mixins w)" using fits_sets [OF soundD(2) [OF S(1) g]] by auto
    then have same: "has w1 j = has w j" by (rule similar_has [OF w1(2)])
    have "has ?w j = ((has w1)(k := dom (comps t))) j" by (rule fun_cong [OF W(4)])
    then show "has ?w j = ?H j" using same t(5) comps1 by simp
  qed
  ultimately have "settled ?w" using w1(2) by (intro settled_after [OF similar_refl W(1-3)]) (simp add: similar_def)
  moreover have "contents ?w = (contents w)[k := (comps (store_of k w))(e := None)]"
    using contents_set_store [of k t w1] contents_similar [OF w1(2)] t(5) comps1 by simp
  moreover have "roomy n ?w"
  proof (rule roomy_set_store [OF _ k1])
    show "roomy n w1" using roomy_similar [OF w1(2)] room by simp
    then show "length (elements (base t)) \<le> n" using t(4) k1 by (simp add: roomy_def) (meson le_trans)
  qed simp
  moreover have "modes ?w = modes w" using modes_set_store [OF k1 t(3)] modes_similar [OF w1(2)] by simp
  ultimately show ?thesis using call True shapes_similar [OF w1(2)] by (intro exI [of _ ?w]) simp
qed

lemma map_front_step:
  "m < length xs \<Longrightarrow> map f (take m (xs[m := f (xs ! m)])) @ drop m (xs[m := f (xs ! m)]) = map f (take (Suc m) xs) @ drop (Suc m) xs"
  by (simp add: upd_conv_take_nth_drop take_Suc_conv_app_nth)

lemma mix_remove_all_spec:
  assumes "settled w" "roomy n w" "m \<le> length (mixins w)"
  shows "\<exists>w'. mix_remove_all notify e m w = Ret w' \<and> settled w' \<and> roomy n w' \<and> shapes w' = shapes w \<and> modes w' = modes w \<and>
    contents w' = map (\<lambda>c. c(e := None)) (take m (contents w)) @ drop m (contents w)"
  using assms
proof (induction m arbitrary: w)
  case (Suc m)
  then have m: "m < length (mixins w)" by simp
  obtain w1 where w1: "mix_remove notify m e w = Ret (e \<in> has w m, w1)" "settled w1" "roomy n w1" "shapes w1 = shapes w" "modes w1 = modes w"
    "contents w1 = (contents w)[m := (comps (store_of m w))(e := None)]" using mix_remove_spec [OF Suc.prems(1) m Suc.prems(2)] by blast
  have "length (mixins w1) = length (mixins w)" using arg_cong [OF w1(6), of length] by simp
  then have "m \<le> length (mixins w1)" using m by simp
  from Suc.IH [OF w1(2,3) this] obtain w' where w': "mix_remove_all notify e m w1 = Ret w'" "settled w'" "roomy n w'" "shapes w' = shapes w1" "modes w' = modes w1"
    "contents w' = map (\<lambda>c. c(e := None)) (take m (contents w1)) @ drop m (contents w1)" by blast
  have "contents w' = map (\<lambda>c. c(e := None)) (take (Suc m) (contents w)) @ drop (Suc m) (contents w)"
    unfolding w'(6) w1(6) contents_nth [OF m, symmetric] by (rule map_front_step) (use m in simp)
  moreover have "mix_remove_all notify e (Suc m) w = Ret w'" using w1(1) w'(1) by simp
  moreover have "shapes w' = shapes w" by (rule trans [OF w'(4) w1(4)])
  moreover have "modes w' = modes w" by (rule trans [OF w'(5) w1(5)])
  ultimately show ?case by (intro exI [of _ w'] conjI w'(2,3))
qed simp

lemma mix_patch_spec:
  assumes w: "settled w" and k: "k < length (mixins w)" and room: "roomy n w"
  shows "case comps (store_of k w) e of
      None \<Rightarrow> mix_patch notify k e fs w = Aborts
    | Some x \<Rightarrow> \<exists>w'. mix_patch notify k e fs w = Ret (fold (\<lambda>f. f) fs x, w') \<and> settled w' \<and> roomy n w' \<and> shapes w' = shapes w \<and> modes w' = modes w \<and>
        contents w' = (contents w)[k := (comps (store_of k w))(e \<mapsto> fold (\<lambda>f. f) fs x)]"
proof (cases "comps (store_of k w) e")
  case None
  then show ?thesis using patch_spec [OF soundD(1) [OF settledD(1) [OF w] k], of e fs] by (simp add: mix_patch_def)
next
  case (Some x)
  note S = settledD [OF w]
  let ?y = "fold (\<lambda>f. f) fs x"
  obtain t where t: "st_patch e fs (store_of k w) = Ret (?y, t)" "st_ok t" "base t = base (store_of k w)" "comps t = (comps (store_of k w))(e \<mapsto> ?y)"
    using patch_spec [OF soundD(1) [OF S(1) k], of e fs] Some by auto
  let ?w = "set_store k t w"
  have mode: "mode (base t) = mode (base (store_of k w))" by (simp add: t(3))
  note W = set_store_settled [OF S(1-3) k t(2) mode]
  have "dom (comps t) = has w k" using t(4) Some by auto
  then have has: "has ?w = has w" using W(4) by (simp add: fun_upd_idem)
  have "holds g ?w (wants (others w ! g) (has w))" if g: "g < length (others w)" for g
    by (rule holds_set_store [OF S(4) [OF g] k]) (simp add: t(3))
  then have set: "settled ?w" by (intro settled_after [OF similar_refl W(1-3)]) (simp_all only: has set_store_fields)
  have "tell notify updates k e ?w = Ret ?w" using wiredD(5) [OF S(3) k] k by (simp add: tell_def publish_def)
  moreover have "st_get e (store_of k ?w) = Ret ?y" using st_get_spec [OF t(2)] t(4) k by simp
  ultimately have "mix_patch notify k e fs w = Ret (?y, ?w)" using t(1) by (simp add: mix_patch_def)
  moreover have "roomy n ?w" by (rule roomy_set_store [OF room k]) (use room k t(3) in \<open>simp_all add: roomy_def\<close>)
  ultimately show ?thesis using Some set contents_set_store [of k t w] modes_set_store [OF k mode] t(4) by simp
qed

end
