(* ===== verification/GroupRegistry.thy ===== *)
theory GroupRegistry
  imports GroupCorrect
begin

text \<open>
  Making a group: its handler starts to listen, is filled from the storages, and from then on the
  group is as good as any other; a registry never makes two groups that own the same storage.
\<close>

section \<open>Starting to listen\<close>

definition listened :: "nat set \<Rightarrow> hook \<Rightarrow> hook \<Rightarrow> nat \<Rightarrow> 'a grouped \<Rightarrow> 'a grouped \<Rightarrow> bool" where
  "listened K a b g w w' \<longleftrightarrow> others w' = others w \<and> length (mixins w') = length (mixins w) \<and>
     (\<forall>j<length (mixins w). store_of j w' = store_of j w \<and> updates (mixins w' ! j) = updates (mixins w ! j) \<and>
        sigh_ok (construction (mixins w' ! j)) \<and> sigh_ok (destruction (mixins w' ! j)) \<and>
        set (construction (mixins w' ! j)) = set (construction (mixins w ! j)) \<union> (if j \<in> K then {delegate_connect a (Some g)} else {}) \<and>
        set (destruction (mixins w' ! j)) = set (destruction (mixins w ! j)) \<union> (if j \<in> K then {delegate_connect b (Some g)} else {}))"

definition signals_ok :: "'a grouped \<Rightarrow> bool" where
  "signals_ok w \<longleftrightarrow> (\<forall>j<length (mixins w). sigh_ok (construction (mixins w ! j)) \<and> sigh_ok (destruction (mixins w ! j)))"

lemma listen_step:
  assumes ok: "signals_ok w" and k: "k < length (mixins w)"
  shows "\<exists>c1 w1 c2 w2. on_construct a (Some g) k w = Ret (c1, w1) \<and> on_destroy b (Some g) k w1 = Ret (c2, w2) \<and> listened {k} a b g w w2"
proof -
  let ?m = "mixins w ! k"
  have s: "sigh_ok (construction ?m)" "sigh_ok (destruction ?m)" using ok k by (simp_all add: signals_ok_def)
  obtain cs where cs: "sink_connect a (Some g) k (\<lambda>j. construction (mixins w ! j)) =
      Ret (\<lparr>undo = Some (a, Some g), signal_of = k\<rparr>, (\<lambda>j. construction (mixins w ! j))(k := cs))" "sigh_ok cs"
    "set cs = insert (delegate_connect a (Some g)) (set (construction ?m))"
    by (rule sink_connect_spec [of "\<lambda>j. construction (mixins w ! j)" k a "Some g"]) (use s(1) in auto)
  let ?w1 = "set_mixin k (?m\<lparr>construction := cs\<rparr>) w"
  have d1: "destruction (mixins ?w1 ! j) = destruction (mixins w ! j)" for j using k by simp
  obtain ds where ds: "sink_connect b (Some g) k (\<lambda>j. destruction (mixins ?w1 ! j)) =
      Ret (\<lparr>undo = Some (b, Some g), signal_of = k\<rparr>, (\<lambda>j. destruction (mixins ?w1 ! j))(k := ds))" "sigh_ok ds"
    "set ds = insert (delegate_connect b (Some g)) (set (destruction ?m))"
    by (rule sink_connect_spec [of "\<lambda>j. destruction (mixins ?w1 ! j)" k b "Some g"]) (use s(2) d1 in auto)
  let ?w2 = "set_mixin k ((mixins ?w1 ! k)\<lparr>destruction := ds\<rparr>) ?w1"
  have "listened {k} a b g w ?w2" using ok k cs(2,3) ds(2,3) by (auto simp: listened_def signals_ok_def)
  moreover have "on_construct a (Some g) k w = Ret (\<lparr>undo = Some (a, Some g), signal_of = k\<rparr>, ?w1)"
    using cs(1) by (simp add: on_construct_def)
  moreover have "on_destroy b (Some g) k ?w1 = Ret (\<lparr>undo = Some (b, Some g), signal_of = k\<rparr>, ?w2)"
    using ds(1) by (simp add: on_destroy_def)
  ultimately show ?thesis by blast
qed

lemma listened_trans:
  "listened K a b g w w1 \<Longrightarrow> listened L a b g w1 w2 \<Longrightarrow> listened (K \<union> L) a b g w w2"
  by (auto simp: listened_def)

lemma listened_signals: "listened K a b g w w' \<Longrightarrow> signals_ok w'"
  by (simp add: listened_def signals_ok_def)

lemma listen_to_pools_spec:
  "signals_ok w \<Longrightarrow> set ks \<subseteq> {..<length (mixins w)} \<Longrightarrow>
   \<exists>w'. listen_to_pools g ks w = Ret w' \<and> listened (set ks) Group_push_on_construct Group_remove_if g w w'"
proof (induction ks arbitrary: w)
  case Nil
  then show ?case by (simp add: listened_def signals_ok_def)
next
  case (Cons k ks)
  have k: "k < length (mixins w)" using Cons.prems(2) by simp
  obtain c1 w1 c2 w2 where 1: "on_construct Group_push_on_construct (Some g) k w = Ret (c1, w1)" "on_destroy Group_remove_if (Some g) k w1 = Ret (c2, w2)"
    and L: "listened {k} Group_push_on_construct Group_remove_if g w w2" using listen_step [OF Cons.prems(1) k] by blast
  have "set ks \<subseteq> {..<length (mixins w2)}" using Cons.prems(2) L by (simp add: listened_def)
  from Cons.IH [OF listened_signals [OF L] this] obtain w' where "listen_to_pools g ks w2 = Ret w'"
    "listened (set ks) Group_push_on_construct Group_remove_if g w2 w'" by blast
  then show ?case using 1 listened_trans [OF L, of "set ks" w'] by simp
qed

lemma listen_to_filters_spec:
  "signals_ok w \<Longrightarrow> set ks \<subseteq> {..<length (mixins w)} \<Longrightarrow>
   \<exists>w'. listen_to_filters g ks w = Ret w' \<and> listened (set ks) Group_remove_if Group_push_on_destroy g w w'"
proof (induction ks arbitrary: w)
  case Nil
  then show ?case by (simp add: listened_def signals_ok_def)
next
  case (Cons k ks)
  have k: "k < length (mixins w)" using Cons.prems(2) by simp
  obtain c1 w1 c2 w2 where 1: "on_construct Group_remove_if (Some g) k w = Ret (c1, w1)" "on_destroy Group_push_on_destroy (Some g) k w1 = Ret (c2, w2)"
    and L: "listened {k} Group_remove_if Group_push_on_destroy g w w2" using listen_step [OF Cons.prems(1) k] by blast
  have "set ks \<subseteq> {..<length (mixins w2)}" using Cons.prems(2) L by (simp add: listened_def)
  from Cons.IH [OF listened_signals [OF L] this] obtain w' where "listen_to_filters g ks w2 = Ret w'"
    "listened (set ks) Group_remove_if Group_push_on_destroy g w2 w'" by blast
  then show ?case using 1 listened_trans [OF L, of "set ks" w'] by simp
qed

lemma settled_signals:
  assumes "settled w" shows "signals_ok w"
proof -
  have "sigh_ok (construction (mixins w ! j)) \<and> sigh_ok (destruction (mixins w ! j))" if "j < length (mixins w)" for j
  proof -
    note W = wiredD [OF settledD(3) [OF assms] that]
    have "delegate_set d" if "d \<in> construct_hooks w j \<or> d \<in> destroy_hooks w j" for d
      using that hooks_of_groups by (fastforce simp: delegate_set_def delegate_connect_def)
    then show ?thesis using W by (simp add: sigh_ok_def list_all_iff)
  qed
  then show ?thesis by (simp add: signals_ok_def)
qed

section \<open>Filling a group\<close>

lemma fill_down_spec:
  assumes "k < length (mixins w)" "owned_pools (others w ! g) = []" "k \<in> set (pools_of (others w ! g))" "sound w" "g < length (others w)"
  shows "n \<le> length (ids_in k w) \<Longrightarrow> holds g w (wants (others w ! g) (has w) \<inter> set (drop n (ids_in k w))) \<Longrightarrow>
    \<exists>w'. fill_down g k n w = Ret w' \<and> touches g w w' \<and> holds g w' (wants (others w ! g) (has w) \<inter> set (ids_in k w))"
  using assms
proof (induction n arbitrary: w)
  case 0
  then show ?case by (auto intro!: exI [of _ w])
next
  case (Suc n)
  let ?h = "others w ! g" let ?W = "wants ?h (has w)" let ?S = "?W \<inter> set (drop (Suc n) (ids_in k w))" let ?e = "ids_in k w ! n"
  have n: "n < length (ids_in k w)" using Suc.prems(1) by simp
  have sub: "?W \<subseteq> has w k" using Suc.prems(5) by (auto simp: wants_def)
  then have "within g w ?S" using Suc.prems(5) by blast
  from push_on_construct_spec [OF Suc.prems(6,7,2) this, of ?e] obtain w1 where
    w1: "free_push_on_construct g ?e w = Ret w1" "touches g w w1" "holds g w1 (if ?e \<in> ?W then insert ?e ?S else ?S)"
    using Suc.prems(4) by auto
  have S: "(if ?e \<in> ?W then insert ?e ?S else ?S) = ?W \<inter> set (drop n (ids_in k w))"
    unfolding Cons_nth_drop_Suc [OF n, symmetric] by auto
  have mix: "mixins w1 ! j = mixins w ! j" for j using w1(2) Suc.prems(4) by (simp add: touches_def)
  have sim: "similar w w1" using w1(2) by (rule touches_similar)
  have h1: "same_shape ?h (others w1 ! g)" and len: "length (mixins w1) = length (mixins w)" "length (others w1) = length (others w)"
    using sim Suc.prems(7) by (simp_all add: similar_def)
  have W1: "wants (others w1 ! g) (has w1) = ?W" by (rule wants_similar [OF sim soundD(2) [OF Suc.prems(6,7)] h1])
  have own: "owned_pools (others w1 ! g) = []" "k \<in> set (pools_of (others w1 ! g))"
    using h1 Suc.prems(4,5) by (simp_all add: same_shape_def)
  have "holds g w1 (wants (others w1 ! g) (has w1) \<inter> set (drop n (ids_in k w1)))" using w1(3) unfolding W1 unfolding mix S .
  moreover have "n \<le> length (ids_in k w1)" "k < length (mixins w1)" "g < length (others w1)" using n len Suc.prems(3,7) by (simp_all only: mix less_imp_le)
  ultimately have "\<exists>w'. fill_down g k n w1 = Ret w' \<and> touches g w1 w' \<and> holds g w' (wants (others w1 ! g) (has w1) \<inter> set (ids_in k w1))"
    by (intro Suc.IH own sound_similar [OF sim Suc.prems(6)])
  then obtain w' where w': "fill_down g k n w1 = Ret w'" "touches g w1 w'" "holds g w' (?W \<inter> set (ids_in k w))" unfolding W1 unfolding mix by blast
  have "touches g w w'" using w1(2) w'(2) similar_trans [OF sim touches_similar [OF w'(2)]] own(1) Suc.prems(4) by (simp add: touches_def)
  moreover have "fill_down g k (Suc n) w = Ret w'" using w1(1) w'(1) n by (simp add: deref_def read_at_def)
  ultimately show ?case using w'(3) by blast
qed

text \<open>Swapping an identifier to the front leaves those after it alone.\<close>

lemma swap_list_take:
  assumes "a \<le> i" "i < length xs"
  shows "set (take (Suc i) (swap_list a i xs)) = set (take (Suc i) xs)"
proof -
  let ?ys = "take (Suc i) xs"
  have "take (Suc i) (swap_list a i xs) = ?ys[a := ?ys ! i, i := ?ys ! a]"
    using assms by (simp add: swap_list_def take_update_swap)
  also have "set \<dots> = set ?ys" by (rule set_swap) (use assms in simp_all)
  finally show ?thesis .
qed

lemma fill_up_step:
  assumes w: "sound w" "g < length (others w)" and k: "k \<in> set (owned_pools (others w ! g))"
    and i: "i < length (ids_in k w)" and S: "holds g w (wants (others w ! g) (has w) \<inter> set (take i (ids_in k w)))"
  shows "\<exists>w'. owning_push_on_construct g (ids_in k w ! i) w = Ret w' \<and> touches g w w' \<and>
    holds g w' (wants (others w ! g) (has w) \<inter> set (take (Suc i) (ids_in k w')))"
proof -
  let ?h = "others w ! g" let ?W = "wants ?h (has w)" let ?ids = "ids_in k w" let ?e = "?ids ! i" let ?S = "?W \<inter> set (take i ?ids)"
  have ne: "owned_pools ?h \<noteq> []" using k by auto
  note B = holds_subset [OF w S k] and F = soundD(2) [OF w]
  have out: "?e \<notin> set (take i ?ids)"
    using distinct_take [OF B(2), of "Suc i"] i by (simp add: take_Suc_conv_app_nth)
  have set: "set (take (Suc i) ?ids) = insert ?e (set (take i ?ids))" using i by (simp add: take_Suc_conv_app_nth)
  note test = outside_front_spec [OF w S ne, of ?e] pools_lack_spec [OF w(1) fits_sets(2) [OF F], of ?e]
  show ?thesis
  proof (cases "?e \<in> ?W")
    case False
    then have "?W \<inter> set (take (Suc i) ?ids) = ?S" unfolding set by auto
    moreover have "owning_push_on_construct g ?e w = Ret w"
      using test False out by (auto simp: owning_push_on_construct_def Let_def wants_def)
    ultimately show ?thesis using S by (intro exI [of _ w]) (simp only: touches_refl simp_thms)
  next
    case True
    then have "?e \<notin> ?S" "\<forall>j \<in> set (owned_pools ?h). ?e \<in> has w j" using out by (auto simp: wants_def)
    from owning_enter_spec [OF w S ne this] obtain w' where w': "owning_enter g ?e w = Ret w'" "touches g w w'" "holds g w' (insert ?e ?S)"
      "\<forall>j \<in> set (owned_pools ?h). \<exists>p < length (ids_in j w). ids_in j w ! p = ?e \<and> ids_in j w' = swap_list (group_len ?h) p (ids_in j w)" by blast
    obtain p where p: "p < length ?ids" "?ids ! p = ?e" "ids_in k w' = swap_list (group_len ?h) p ?ids" using w'(4) k by blast
    have "p = i" using nth_eq_iff_index_eq [OF B(2)] p(1,2) i by blast
    moreover have "group_len ?h \<le> i"
    proof -
      obtain front rest where f: "length front = group_len ?h" "set front = ?S" "?ids = front @ rest" using owned_store(4) [OF w S k] by blast
      have "length front = card ?S" using B(2) f(2,3) distinct_card [of front] by simp
      also have "\<dots> \<le> card (set (take i ?ids))" by (intro card_mono) auto
      also have "\<dots> \<le> i" using card_length [of "take i ?ids"] by simp
      finally show ?thesis using f(1) by simp
    qed
    ultimately have "?W \<inter> set (take (Suc i) (ids_in k w')) = insert ?e ?S"
      using p(3) swap_list_take [of "group_len ?h" i ?ids] i set True by auto
    moreover have "owning_push_on_construct g ?e w = Ret w'"
      using test True out w'(1) by (auto simp: owning_push_on_construct_def Let_def wants_def)
    ultimately show ?thesis using w'(2,3) by (intro exI [of _ w']) simp
  qed
qed

lemma touches_trans:
  assumes "touches g w w1" "touches g w1 w2" "g < length (others w)" shows "touches g w w2"
proof -
  have "same_shape (others w ! g) (others w1 ! g)" using assms(1,3) by (simp add: touches_def similar_def)
  then show ?thesis using assms similar_trans [of w w1 w2] by (simp add: touches_def same_shape_def)
qed

lemma fill_up_spec:
  assumes "sound w" "g < length (others w)" "k \<in> set (owned_pools (others w ! g))"
    "i + n = length (ids_in k w)" "holds g w (wants (others w ! g) (has w) \<inter> set (take i (ids_in k w)))"
  shows "\<exists>w'. fill_up g k [i..<i + n] w = Ret w' \<and> touches g w w' \<and> holds g w' (wants (others w ! g) (has w))"
  using assms
proof (induction n arbitrary: i w)
  case 0
  note B = holds_subset [OF 0(1,2,5,3)]
  have "wants (others w ! g) (has w) \<inter> set (take i (ids_in k w)) = wants (others w ! g) (has w)"
    using 0(3,4) B(3) by (auto simp: wants_def)
  then show ?case using 0(5) by (intro exI [of _ w]) simp
next
  case (Suc n)
  let ?W = "wants (others w ! g) (has w)"
  have i: "i < length (ids_in k w)" using Suc.prems(4) by simp
  obtain w1 where w1: "owning_push_on_construct g (ids_in k w ! i) w = Ret w1" "touches g w w1" "holds g w1 (?W \<inter> set (take (Suc i) (ids_in k w1)))"
    using fill_up_step [OF Suc.prems(1-3) i Suc.prems(5)] by blast
  have sim: "similar w w1" by (rule touches_similar [OF w1(2)])
  have h1: "same_shape (others w ! g) (others w1 ! g)" "g < length (others w1)" using sim Suc.prems(2) by (simp_all add: similar_def)
  have W1: "wants (others w1 ! g) (has w1) = ?W" by (rule wants_similar [OF sim soundD(2) [OF Suc.prems(1,2)] h1(1)])
  have k: "k < length (mixins w)" by (rule fitsD(4) [OF soundD(2) [OF Suc.prems(1,2)] Suc.prems(3)])
  then have len: "length (ids_in k w1) = length (ids_in k w)" using sim by (simp add: similar_def same_mixin_def)
  have own: "k \<in> set (owned_pools (others w1 ! g))" using h1(1) Suc.prems(3) by (simp add: same_shape_def)
  have "Suc i + n = length (ids_in k w1)" using len Suc.prems(4) by simp
  from Suc.IH [OF sound_similar [OF sim Suc.prems(1)] h1(2) own this] obtain w' where
    w': "fill_up g k [Suc i..<Suc i + n] w1 = Ret w'" "touches g w1 w'" "holds g w' ?W" using w1(3) unfolding W1 by blast
  have "[i..<i + Suc n] = i # [Suc i..<Suc i + n]" by (simp add: upt_rec)
  then have "fill_up g k [i..<i + Suc n] w = Ret w'" using i w1(1) w'(1) by (simp add: read_at_def)
  then show ?case using touches_trans [OF w1(2) w'(2) Suc.prems(2)] w'(3) by blast
qed

section \<open>A new group\<close>

text \<open>The world in which the new handler listens to its pools already, and is empty.\<close>

definition joined :: "group_handler \<Rightarrow> 'a grouped \<Rightarrow> 'a grouped \<Rightarrow> bool" where
  "joined h w w' \<longleftrightarrow> others w' = others w @ [h] \<and> length (mixins w') = length (mixins w) \<and> wired w' \<and>
     (\<forall>j<length (mixins w). store_of j w' = store_of j w)"

lemma joined_groups:
  assumes "others w' = others w @ [h]"
  shows "{g. g < length (others w') \<and> P (others w' ! g)} = {g. g < length (others w) \<and> P (others w ! g)} \<union> (if P h then {length (others w)} else {})"
  using assms by (auto simp: nth_append less_Suc_eq)

lemma listened_wired:
  assumes w: "wired w" and L: "others w1 = others w @ [h]" "length (mixins w1) = length (mixins w)" "\<And>j. j < length (mixins w) \<Longrightarrow> mixins w1 ! j = mixins w ! j"
    "listened (set (pools_of h)) Group_push_on_construct Group_remove_if (length (others w)) w1 w2"
    "listened (set (filter_pools h)) Group_remove_if Group_push_on_destroy (length (others w)) w2 w3"
  shows "joined h w w3"
proof -
  have o: "others w3 = others w @ [h]" and len: "length (mixins w3) = length (mixins w)" using L by (simp_all add: listened_def)
  have "distinct (construction (mixins w3 ! k)) \<and> set (construction (mixins w3 ! k)) = construct_hooks w3 k \<and>
     distinct (destruction (mixins w3 ! k)) \<and> set (destruction (mixins w3 ! k)) = destroy_hooks w3 k \<and> updates (mixins w3 ! k) = [] \<and>
     store_of k w3 = store_of k w" if k: "k < length (mixins w)" for k
  proof -
    note W = wiredD [OF w k]
    have "set (construction (mixins w3 ! k)) = construct_hooks w k \<union>
        (if k \<in> set (pools_of h) then {delegate_connect Group_push_on_construct (Some (length (others w)))} else {}) \<union>
        (if k \<in> set (filter_pools h) then {delegate_connect Group_remove_if (Some (length (others w)))} else {})"
      "set (destruction (mixins w3 ! k)) = destroy_hooks w k \<union>
        (if k \<in> set (pools_of h) then {delegate_connect Group_remove_if (Some (length (others w)))} else {}) \<union>
        (if k \<in> set (filter_pools h) then {delegate_connect Group_push_on_destroy (Some (length (others w)))} else {})"
      using L(4,5) L(2) L(3) [OF k] k W(2,4) by (simp_all only: listened_def)
    moreover have "construct_hooks w3 k = construct_hooks w k \<union>
        (if k \<in> set (pools_of h) then {delegate_connect Group_push_on_construct (Some (length (others w)))} else {}) \<union>
        (if k \<in> set (filter_pools h) then {delegate_connect Group_remove_if (Some (length (others w)))} else {})"
      unfolding construct_hooks_def joined_groups [OF o, of "\<lambda>h. k \<in> set (pools_of h)"] joined_groups [OF o, of "\<lambda>h. k \<in> set (filter_pools h)"] by auto
    moreover have "destroy_hooks w3 k = destroy_hooks w k \<union>
        (if k \<in> set (pools_of h) then {delegate_connect Group_remove_if (Some (length (others w)))} else {}) \<union>
        (if k \<in> set (filter_pools h) then {delegate_connect Group_push_on_destroy (Some (length (others w)))} else {})"
      unfolding destroy_hooks_def joined_groups [OF o, of "\<lambda>h. k \<in> set (pools_of h)"] joined_groups [OF o, of "\<lambda>h. k \<in> set (filter_pools h)"] by auto
    moreover have "sigh_ok (construction (mixins w3 ! k))" "sigh_ok (destruction (mixins w3 ! k))" "updates (mixins w3 ! k) = []" "store_of k w3 = store_of k w"
      using L(4,5) L(2) L(3) [OF k] k W(5) by (simp_all add: listened_def)
    ultimately show ?thesis by (simp only: sigh_ok_def simp_thms)
  qed
  then show ?thesis using o len by (simp add: joined_def wired_def)
qed

lemma joined_sound:
  assumes "joined h w w'" "sound w" "fits w h"
  shows "sound w'" "apart w \<Longrightarrow> set (owned_pools h) \<inter> \<Union> ((\<lambda>h. set (owned_pools h)) ` set (others w)) = {} \<Longrightarrow> apart w'"
    "g < length (others w) \<Longrightarrow> holds g w S \<Longrightarrow> holds g w' S" "contents w' = contents w" "roomy n w' = roomy n w"
    "modes w' = modes w"
proof -
  have J: "others w' = others w @ [h]" "length (mixins w') = length (mixins w)" "\<And>j. j < length (mixins w) \<Longrightarrow> store_of j w' = store_of j w"
    using assms(1) by (simp_all add: joined_def)
  have fits: "fits w' h'" if "fits w h'" for h'
    using that fitsD(4) [OF that] J(2,3) by (simp add: fits_def)
  show sound: "sound w'" using assms(2,3) J fits by (auto simp: sound_def nth_append less_Suc_eq)
  show "contents w' = contents w" by (rule nth_equalityI) (simp_all add: J)
  show "roomy n w' = roomy n w" by (simp add: roomy_def J)
  show "modes w' = modes w" by (rule nth_equalityI) (simp_all add: J)
  show "apart w'" if "apart w" "set (owned_pools h) \<inter> \<Union> ((\<lambda>h. set (owned_pools h)) ` set (others w)) = {}"
  proof -
    have "set (owned_pools h) \<inter> set (owned_pools (others w ! g)) = {}" if "g < length (others w)" for g
      using nth_mem [OF that] \<open>set (owned_pools h) \<inter> \<Union> ((\<lambda>h. set (owned_pools h)) ` set (others w)) = {}\<close> by blast
    then show ?thesis using that(1) by (auto simp: apart_def J nth_append less_Suc_eq)
  qed
  show "holds g w' S" if g: "g < length (others w)" "holds g w S"
  proof -
    have "ids_in k w' = ids_in k w" if "k \<in> set (owned_pools (others w ! g))" for k
      using fitsD(4) [OF soundD(2) [OF assms(2) g(1)] that] J(3) by simp
    then show ?thesis using g by (auto simp: holds_def Let_def J nth_append)
  qed
qed

lemma holds_new:
  assumes "others w ! g = handler_new os gs fs"
  shows "holds g w {}"
proof (cases "os = []")
  case True
  then show ?thesis using assms ss_new_ok(1) by (simp add: holds_def handler_new_def Let_def ss_new_empty)
next
  case False
  then show ?thesis using assms by (intro holds_front [of _ _ "[]"]) (simp_all add: handler_new_def)
qed

lemma fill_group_spec:
  assumes w: "sound w" "g < length (others w)" "others w ! g = handler_new os gs fs"
  shows "\<exists>w'. fill_group g w = Ret w' \<and> touches g w w' \<and> holds g w' (wants (others w ! g) (has w))"
proof -
  let ?h = "others w ! g"
  note F = soundD(2) [OF w(1,2)] and new = holds_new [OF w(3)]
  obtain k ks where k: "pools_of ?h = k # ks" "k < length (mixins w)" "owned_pools ?h \<noteq> [] \<Longrightarrow> k \<in> set (owned_pools ?h)"
    using first_pool [OF F] by metis
  let ?n = "length (ids_in k w)"
  show ?thesis
  proof (cases "owned_pools ?h = []")
    case True
    obtain w' where w': "fill_down g k ?n w = Ret w'" "touches g w w'" "holds g w' (wants ?h (has w) \<inter> set (ids_in k w))"
      using fill_down_spec [OF k(2) True _ w(1,2), of ?n] k(1) new by auto
    have "has w k \<subseteq> set (ids_in k w)"
      unfolding dom_comps [OF soundD(1) [OF w(1) k(2)]] by (auto simp: members_def positions_def)
    then have "wants ?h (has w) \<inter> set (ids_in k w) = wants ?h (has w)" using k(1) by (auto simp: wants_def)
    then show ?thesis using w' k(1) True by (intro exI [of _ w']) (simp add: fill_group_def Let_def)
  next
    case False
    from fill_up_spec [OF w(1,2) k(3) [OF False], of 0 ?n] obtain w' where
      "fill_up g k [0..<?n] w = Ret w'" "touches g w w'" "holds g w' (wants ?h (has w))" using new by auto
    then show ?thesis using k(1) False by (intro exI [of _ w']) (simp add: fill_group_def Let_def)
  qed
qed

lemma group_make_spec:
  assumes w: "settled w" and h: "fits w (handler_new os gs fs)"
  shows "\<exists>w'. group_make os gs fs w = Ret w' \<and>
    (set os \<inter> \<Union> ((\<lambda>h. set (owned_pools h)) ` set (others w)) = {} \<longrightarrow>
      settled w' \<and> contents w' = contents w \<and> roomy n w' = roomy n w \<and> modes w' = modes w \<and> shapes w' = shapes w @ [(os, gs, fs)])"
proof -
  let ?h = "handler_new os gs fs" let ?g = "length (others w)" let ?w = "w\<lparr>others := others w @ [?h]\<rparr>"
  note S = settledD [OF w]
  have h_fields: "owned_pools ?h = os" "got_pools ?h = gs" "filter_pools ?h = fs" by (simp_all add: handler_new_def)
  note ks = fits_sets [OF h, unfolded h_fields]
  have "signals_ok ?w" "set (os @ gs) \<subseteq> {..<length (mixins ?w)}" using settled_signals [OF w] ks by (simp_all add: signals_ok_def)
  from listen_to_pools_spec [OF this] obtain w1 where
    w1: "listen_to_pools ?g (os @ gs) ?w = Ret w1" "listened (set (os @ gs)) Group_push_on_construct Group_remove_if ?g ?w w1" by blast
  have "signals_ok w1" "set fs \<subseteq> {..<length (mixins w1)}" using listened_signals [OF w1(2)] w1(2) ks by (simp_all add: listened_def)
  from listen_to_filters_spec [OF this] obtain w2 where
    w2: "listen_to_filters ?g fs w1 = Ret w2" "listened (set fs) Group_remove_if Group_push_on_destroy ?g w1 w2" by blast
  have J: "joined ?h w w2"
    by (rule listened_wired [OF S(3), of ?w _ w1 w2]) (use w1(2) w2(2) in \<open>simp_all add: h_fields\<close>)
  note JS = joined_sound [OF J S(1) h]
  have o: "others w2 = others w @ [?h]" using J by (simp add: joined_def)
  then have g: "?g < length (others w2)" "others w2 ! ?g = ?h" by (simp_all add: nth_append)
  from fill_group_spec [OF JS(1) g(1) g(2)] obtain w' where
    w': "fill_group ?g w2 = Ret w'" "touches ?g w2 w'" "holds ?g w' (wants (others w2 ! ?g) (has w2))" by blast
  have call: "group_make os gs fs w = Ret w'" using w1(1) w2(1) w'(1) by (simp add: group_make_def Let_def)
  have "settled w' \<and> contents w' = contents w \<and> roomy n w' = roomy n w \<and> modes w' = modes w \<and> shapes w' = shapes w @ [(os, gs, fs)]"
    if dis: "set os \<inter> \<Union> ((\<lambda>h. set (owned_pools h)) ` set (others w)) = {}"
  proof -
    note sim = touches_similar [OF w'(2)]
    have apart: "apart w2" by (rule JS(2) [OF S(2)]) (simp add: h_fields dis)
    have "holds j w' (wants (others w2 ! j) (has w2))" if j: "j < length (others w2)" for j
    proof (cases "j = ?g")
      case True
      then show ?thesis using w'(3) by simp
    next
      case False
      then have j': "j < ?g" "others w2 ! j = others w ! j" using j o by (simp_all add: nth_append)
      have "holds j w2 (wants (others w ! j) (has w))" by (rule JS(3) [OF j'(1) S(4) [OF j'(1)]])
      moreover have "wants (others w ! j) (has w2) = wants (others w ! j) (has w)"
      proof (rule wants_cong)
        fix k assume "k \<in> set (pools_of (others w ! j) @ filter_pools (others w ! j))"
        then have "k < length (mixins w)" using fits_sets [OF soundD(2) [OF S(1) j'(1)]] by auto
        then show "has w2 k = has w k" using J by (simp add: joined_def)
      qed simp
      moreover have "set (owned_pools (others w2 ! ?g)) \<inter> set (owned_pools (others w2 ! j)) = {}"
        using apart g(1) j False by (auto simp: apart_def)
      ultimately show ?thesis using holds_other [OF w'(2) False] j'(2) by simp
    qed
    then have "settled w'" by (intro settled_after [OF sim JS(1) apart]) (use J in \<open>simp_all add: joined_def\<close>)
    then show ?thesis using contents_similar [OF sim] JS(4) roomy_similar [OF sim] JS(5) modes_similar [OF sim] JS(6) shapes_similar [OF sim] o
      by (simp add: h_fields)
  qed
  then show ?thesis using call by blast
qed

lemma find_group_spec:
  "case find_group os gs fs hs of
     None \<Rightarrow> (os, gs, fs) \<notin> set (map (\<lambda>h. (owned_pools h, got_pools h, filter_pools h)) hs)
   | Some g \<Rightarrow> g < length hs \<and> map (\<lambda>h. (owned_pools h, got_pools h, filter_pools h)) hs ! g = (os, gs, fs)"
  by (induction hs) (auto split: option.splits)

end
