(* ===== verification/GroupRuns.thy ===== *)
theory GroupRuns
  imports GroupRegistry
begin

text \<open>
  Groups seen through the registry: any sequence of calls that make, change, destroy and sort
  components and that make groups, in any order, and what the groups show afterwards.
\<close>

section \<open>What a group shows\<close>

definition shape_wants :: "nat list \<times> nat list \<times> nat list \<Rightarrow> (entity \<Rightarrow> 'a option) list \<Rightarrow> entity set" where
  "shape_wants = (\<lambda>(os, gs, fs) ms. {e. list_all (\<lambda>k. (ms ! k) e \<noteq> None) (os @ gs) \<and> list_all (\<lambda>k. (ms ! k) e = None) fs})"

text \<open>
  Each identifier once, and with its own components, although those of owned storages are read by
  position; and the same front in each storage it owns.
\<close>

definition group_shows :: "(entity \<Rightarrow> 'a option) list \<Rightarrow> 'a grouped \<Rightarrow> nat \<Rightarrow> nat list \<times> nat list \<times> nat list \<Rightarrow> bool" where
  "group_shows ms w g = (\<lambda>(os, gs, fs).
     distinct (group_ids g w) \<and> set (group_ids g w) = shape_wants (os, gs, fs) ms \<and> group_size g w = length (group_ids g w) \<and>
     (\<forall>e. group_contains g e w = Ret (e \<in> shape_wants (os, gs, fs) ms)) \<and>
     (\<forall>e. \<exists>it. group_find g e w = Ret it \<and> (it = 0 \<longleftrightarrow> e \<notin> shape_wants (os, gs, fs) ms)) \<and>
     (\<forall>p. group_at g p w = (if p < group_size g w then Ret (group_ids g w ! p) else Undefined)) \<and>
     group_each g w = Ret (map (\<lambda>e. (e, map (\<lambda>k. the ((ms ! k) e)) (os @ gs))) (group_ids g w)) \<and>
     list_all (\<lambda>k. take (group_size g w) (ids_in k w) = rev (group_ids g w)) os)"

lemma get_all_spec:
  "sound w \<Longrightarrow> set ks \<subseteq> {..<length (mixins w)} \<Longrightarrow> \<forall>k \<in> set ks. e \<in> has w k \<Longrightarrow>
   get_all ks e w = Ret (map (\<lambda>k. the (comps (store_of k w) e)) ks)"
  by (induction ks) (auto simp: st_get_spec soundD(1))

lemma get_owned_spec:
  assumes "sound w" "g < length (others w)"
  shows "set ks \<subseteq> set (owned_pools (others w ! g)) \<Longrightarrow> \<forall>k \<in> set ks. i < length (ids_in k w) \<and> ids_in k w ! i = e \<Longrightarrow>
    get_owned ks i w = Ret (map (\<lambda>k. the (comps (store_of k w) e)) ks)"
proof (induction ks)
  case (Cons k ks)
  note F = soundD(2) [OF assms]
  have k: "st_ok (store_of k w)" "mode (base (store_of k w)) \<noteq> In_place"
    using soundD(1) [OF assms(1) fitsD(4) [OF F, of k]] fitsD(8) [OF F, of k] Cons.prems(1) by simp_all
  note K = packed_storage [OF k] and D = st_okD [OF k(1)]
  have i: "i \<in> positions (base (store_of k w))" "ids_in k w ! i = e" using K(2) Cons.prems(2) by simp_all
  then obtain x where x: "object_at (store_of k w) i = Some x" using D(3) [of i] by blast
  have "i < 2 ^ 20" using K(2,4) i(1) by simp
  then have "read_element i (store_of k w) = Ret x" using read_element_eq [OF D(2), of i] x by simp
  moreover have "comps (store_of k w) e = Some x" using comps_position [OF D(1) i(1)] x i(2) by simp
  ultimately show ?case using Cons by simp
qed simp

lemma each_down_spec:
  assumes "\<And>i. i < n \<Longrightarrow> at_pos i w = Ret (f i) \<and> get_owned os i w = Ret (xs i) \<and> get_all gs (f i) w = Ret (ys i)"
  shows "each_down os gs at_pos n w = Ret (map (\<lambda>i. (f i, xs i @ ys i)) (rev [0..<n]))"
  using assms by (induction n) simp_all

lemma map_rev_nth: "n \<le> length xs \<Longrightarrow> map (\<lambda>i. f (xs ! i)) (rev [0..<n]) = map f (rev (take n xs))"
  by (rule nth_equalityI) (simp_all add: rev_nth)

lemma wants_contents:
  assumes "fits w h" "owned_pools h = os" "got_pools h = gs" "filter_pools h = fs"
  shows "wants h (has w) = shape_wants (os, gs, fs) (contents w)"
proof -
  have eq: "(contents w ! k) e = comps (store_of k w) e" if "k \<in> set (pools_of h @ filter_pools h)" for k e
    using that fits_sets [OF assms(1)] contents_nth [of k w] by auto
  show ?thesis unfolding wants_def shape_wants_def assms(2-4) [symmetric] prod.case list_all_iff domIff
    by (intro Collect_cong conj_cong ball_cong refl) (use eq in auto)
qed

lemma group_front:
  assumes w: "settled w" "g < length (others w)" and own: "owned_pools (others w ! g) \<noteq> []"
  shows "\<exists>front. group_ids g w = rev front \<and> length front = group_len (others w ! g) \<and> distinct front \<and>
    set front = wants (others w ! g) (has w) \<and> (\<forall>k \<in> set (owned_pools (others w ! g)). \<exists>rest. ids_in k w = front @ rest)"
proof -
  note S = settledD [OF w(1)] and F = soundD(2) [OF settledD(1) [OF w(1)] w(2)]
  obtain front where f: "length front = group_len (others w ! g)" "set front = wants (others w ! g) (has w)"
    "\<forall>k \<in> set (owned_pools (others w ! g)). \<exists>rest. ids_in k w = front @ rest"
    using S(4) [OF w(2)] own by (auto simp: holds_def Let_def)
  obtain k ks where k: "owned_pools (others w ! g) = k # ks" using own by (cases "owned_pools (others w ! g)") auto
  then obtain rest where r: "ids_in k w = front @ rest" using f(3) by auto
  have "distinct front" using holds_subset(2) [OF S(1) w(2) S(4) [OF w(2)], of k] k r by simp
  then show ?thesis using f r k by (intro exI [of _ front]) (simp add: group_ids_def Let_def)
qed

lemma group_elems:
  assumes w: "settled w" "g < length (others w)" and own: "owned_pools (others w ! g) = []"
  shows "packed_ok (group_elem (others w ! g))" "set (elements (group_elem (others w ! g))) = wants (others w ! g) (has w)"
    "group_ids g w = rev (elements (group_elem (others w ! g)))" "distinct (elements (group_elem (others w ! g)))"
proof -
  show p: "packed_ok (group_elem (others w ! g))" and "set (elements (group_elem (others w ! g))) = wants (others w ! g) (has w)"
    using settledD(4) [OF w] own by (simp_all add: holds_def Let_def)
  show "group_ids g w = rev (elements (group_elem (others w ! g)))" using own by (simp add: group_ids_def Let_def)
  have "full (group_elem (others w ! g))" using p by simp
  then show "distinct (elements (group_elem (others w ! g)))" by (auto simp: full_iff distinct_map)
qed

lemma group_each_spec:
  assumes w: "settled w" "g < length (others w)"
  shows "group_each g w = Ret (map (\<lambda>e. (e, map (\<lambda>k. the ((contents w ! k) e)) (pools_of (others w ! g)))) (group_ids g w))"
proof -
  let ?h = "others w ! g" let ?x = "\<lambda>k e. the (comps (store_of k w) e)"
  note S = settledD [OF w(1)] and F = soundD(2) [OF settledD(1) [OF w(1)] w(2)]
  have cont: "map (\<lambda>k. the ((contents w ! k) e)) (pools_of ?h) = map (\<lambda>k. ?x k e) (owned_pools ?h) @ map (\<lambda>k. ?x k e) (got_pools ?h)" for e
    using fits_sets [OF F] by auto
  have gets: "get_all (got_pools ?h) e w = Ret (map (\<lambda>k. ?x k e) (got_pools ?h))" if "e \<in> wants ?h (has w)" for e
    by (rule get_all_spec [OF S(1) fits_sets(1) [OF F]]) (use that in \<open>simp add: wants_def\<close>)
  show ?thesis
  proof (cases "owned_pools ?h = []")
    case True
    note E = group_elems [OF w True]
    let ?es = "elements (group_elem ?h)"
    have at: "?es ! i \<in> wants ?h (has w)" if "i < length ?es" for i unfolding E(2) [symmetric] by (rule nth_mem [OF that])
    have "group_each g w = Ret (map (\<lambda>i. (?es ! i, [] @ map (\<lambda>k. ?x k (?es ! i)) (got_pools ?h))) (rev [0..<length ?es]))"
      unfolding group_each_def Let_def True list.case
      by (rule each_down_spec) (use gets [OF at] in \<open>simp add: read_at_def\<close>)
    then show ?thesis unfolding cont E(3) using map_rev_nth [of "length ?es" ?es] True by simp
  next
    case False
    obtain front where f: "group_ids g w = rev front" "length front = group_len ?h" "set front = wants ?h (has w)"
      "\<forall>k \<in> set (owned_pools ?h). \<exists>rest. ids_in k w = front @ rest" using group_front [OF w False] by blast
    have at: "i < length (ids_in k w) \<and> ids_in k w ! i = front ! i" if "i < length front" "k \<in> set (owned_pools ?h)" for i k
      using f(4) that by (auto simp: nth_append)
    obtain k ks where k: "owned_pools ?h = k # ks" using False by (cases "owned_pools ?h") auto
    have "each_down (k # ks) (got_pools ?h) (\<lambda>i w1. read_at i (base (store_of k w1))) (length front) w =
        Ret (map (\<lambda>i. (front ! i, map (\<lambda>k. ?x k (front ! i)) (owned_pools ?h) @ map (\<lambda>k. ?x k (front ! i)) (got_pools ?h))) (rev [0..<length front]))"
    proof (rule each_down_spec)
      fix i assume i: "i < length front"
      then have "front ! i \<in> wants ?h (has w)" using f(3) nth_mem by blast
      moreover have "get_owned (owned_pools ?h) i w = Ret (map (\<lambda>k. ?x k (front ! i)) (owned_pools ?h))"
        by (rule get_owned_spec [OF S(1) w(2)]) (use at [OF i] in auto)
      moreover have "read_at i (base (store_of k w)) = Ret (front ! i)" using at [OF i, of k] k by (simp add: read_at_def)
      ultimately show "read_at i (base (store_of k w)) = Ret (front ! i) \<and>
          get_owned (k # ks) i w = Ret (map (\<lambda>k. ?x k (front ! i)) (owned_pools ?h)) \<and>
          get_all (got_pools ?h) (front ! i) w = Ret (map (\<lambda>k. ?x k (front ! i)) (got_pools ?h))" using gets k by simp
    qed
    then show ?thesis unfolding cont f(1) using map_rev_nth [of "length front" front] f(2) k by (simp add: group_each_def Let_def)
  qed
qed

lemma group_contains_spec:
  assumes w: "settled w" "g < length (others w)"
  shows "group_contains g e w = Ret (e \<in> wants (others w ! g) (has w))"
proof -
  let ?h = "others w ! g"
  note S = settledD [OF w(1)] and F = soundD(2) [OF settledD(1) [OF w(1)] w(2)]
  show ?thesis
  proof (cases "owned_pools ?h")
    case Nil
    note E = group_elems [OF w Nil]
    show ?thesis using contains_spec [of "{..<length (elements (group_elem ?h))}" "group_elem ?h" e] E(1,2) Nil
      by (simp add: group_contains_def Let_def)
  next
    case (Cons k ks)
    then have k: "k \<in> set (owned_pools ?h)" by simp
    have "st_contains (store_of k w) e = Ret (e \<in> has w k)"
      using st_contains_spec [OF soundD(1) [OF S(1) fitsD(4) [OF F k]]] by (simp add: dom_def)
    moreover have "wants ?h (has w) \<subseteq> has w k" using k by (auto simp: wants_def)
    ultimately show ?thesis using in_front_spec [OF S(1) w(2) S(4) [OF w(2)] k, of e] Cons by (auto simp: group_contains_def Let_def)
  qed
qed

lemma group_find_spec:
  assumes w: "settled w" "g < length (others w)"
  shows "\<exists>it. group_find g e w = Ret it \<and> (it = 0 \<longleftrightarrow> e \<notin> wants (others w ! g) (has w))"
proof -
  let ?h = "others w ! g"
  note S = settledD [OF w(1)] and F = soundD(2) [OF settledD(1) [OF w(1)] w(2)]
  show ?thesis
  proof (cases "owned_pools ?h")
    case Nil
    note E = group_elems [OF w Nil]
    have "contains (group_elem ?h) e = Ret (e \<in> wants ?h (has w))"
      using group_contains_spec [OF w, of e] Nil by (simp add: group_contains_def Let_def)
    moreover have "\<exists>i. to_iterator (group_elem ?h) e = Ret (Suc i)" if wanted: "e \<in> wants ?h (has w)"
    proof -
      obtain i where i: "i < length (elements (group_elem ?h))" "elements (group_elem ?h) ! i = e"
        using wanted [folded E(2), unfolded in_set_conv_nth] by blast
      then show ?thesis using index_spec [of "{..<length (elements (group_elem ?h))}" "group_elem ?h" i] E(1) by (simp add: to_iterator_def)
    qed
    ultimately show ?thesis using Nil by (auto simp: group_find_def Let_def ss_find_def)
  next
    case (Cons k ks)
    then have k: "k \<in> set (owned_pools ?h)" by simp
    have found: "contains (base (store_of k w)) e = Ret (e \<in> has w k)"
      using st_contains_spec [OF soundD(1) [OF S(1) fitsD(4) [OF F k]], of e] by (simp add: st_contains_def dom_def)
    have sub: "wants ?h (has w) \<subseteq> has w k" using k by (auto simp: wants_def)
    show ?thesis
    proof (cases "e \<in> has w k")
      case True
      have "in_front (group_len ?h) k e w = Ret (e \<in> wants ?h (has w))" by (rule in_front_spec [OF S(1) w(2) S(4) [OF w(2)] k True])
      then obtain i where "index (base (store_of k w)) e = Ret i" "i < group_len ?h \<longleftrightarrow> e \<in> wants ?h (has w)"
        by (auto simp: in_front_def obind_eq_Ret_iff)
      then show ?thesis using found True Cons by (auto simp: group_find_def Let_def ss_find_def to_iterator_def)
    next
      case False
      then show ?thesis using found sub Cons by (auto simp: group_find_def Let_def ss_find_def)
    qed
  qed
qed

lemma group_at_spec:
  assumes w: "settled w" "g < length (others w)"
  shows "group_at g p w = (if p < group_size g w then Ret (group_ids g w ! p) else Undefined)"
proof (cases "owned_pools (others w ! g)")
  case Nil
  then show ?thesis using group_elems(3) [OF w Nil]
    by (auto simp: group_at_def group_size_def Let_def read_at_def rev_nth)
next
  case (Cons k ks)
  obtain front where f: "group_ids g w = rev front" "length front = group_len (others w ! g)"
    "\<forall>k \<in> set (owned_pools (others w ! g)). \<exists>rest. ids_in k w = front @ rest" using group_front [OF w] Cons by auto
  then obtain rest where "ids_in k w = front @ rest" using Cons by auto
  then show ?thesis using f(1,2) Cons by (auto simp: group_at_def group_size_def Let_def read_at_def rev_nth nth_append)
qed

lemma settled_shows:
  assumes w: "settled w" "g < length (others w)"
  shows "group_shows (contents w) w g (shapes w ! g)"
proof -
  let ?h = "others w ! g"
  note S = settledD [OF w(1)] and F = soundD(2) [OF settledD(1) [OF w(1)] w(2)]
  note W = wants_contents [OF F refl refl refl]
  have "distinct (group_ids g w) \<and> set (group_ids g w) = wants ?h (has w) \<and> group_size g w = length (group_ids g w) \<and>
      list_all (\<lambda>k. take (group_size g w) (ids_in k w) = rev (group_ids g w)) (owned_pools ?h)"
  proof (cases "owned_pools ?h = []")
    case True
    then show ?thesis using group_elems [OF w True] by (simp add: group_size_def Let_def)
  next
    case False
    then show ?thesis using group_front [OF w False] by (auto simp: group_size_def Let_def list_all_iff)
  qed
  then show ?thesis using group_each_spec [OF w] group_contains_spec [OF w] group_find_spec [OF w] group_at_spec [OF w] w(2) unfolding W by (auto simp: group_shows_def)
qed

section \<open>Calls in any order\<close>

text \<open>
  The argument of \<open>Sort_pool\<close> is what the sorting function does to a list, and an \<open>Assign\<close> without a
  value is one whose constructor throws.
\<close>

datatype 'a pool_call = Assign nat entity "'a option" | Change nat entity "('a \<Rightarrow> 'a) list" | Unassign nat entity | Unassign_all entity |
  Sort_pool nat "entity list \<Rightarrow> entity list" | Make_group "nat list" "nat list" "nat list"

definition pools_new :: "bool list \<Rightarrow> 'a grouped" where
  "pools_new ps = \<lparr>mixins = map mixin_new ps, others = []\<rparr>"

fun run_call :: "'a pool_call \<Rightarrow> 'a grouped \<Rightarrow> 'a grouped outcome" where
  "run_call (Assign k e x) w = obind (mix_emplace notify k e x w) (\<lambda>(y, w1). Ret w1)"
| "run_call (Change k e fs) w = obind (mix_patch notify k e fs w) (\<lambda>(y, w1). Ret w1)"
| "run_call (Unassign k e) w = obind (mix_remove notify k e w) (\<lambda>(b, w1). Ret w1)"
| "run_call (Unassign_all e) w = mix_remove_all notify e (length (mixins w)) w"
| "run_call (Sort_pool k algo) w = reg_sort k algo w"
| "run_call (Make_group os gs fs) w = obind (reg_group os gs fs w) (\<lambda>(g, w1). Ret w1)"

fun run_calls :: "'a pool_call list \<Rightarrow> 'a grouped \<Rightarrow> 'a grouped outcome" where
  "run_calls [] w = Ret w"
| "run_calls (c # cs) w = obind (run_call c w) (run_calls cs)"

text \<open>The same on one map for each component type, and the list of the groups made.\<close>

type_synonym 'a pool_maps = "(entity \<Rightarrow> 'a option) list \<times> (nat list \<times> nat list \<times> nat list) list"

fun call_maps :: "'a pool_call \<Rightarrow> 'a pool_maps \<Rightarrow> 'a pool_maps option" where
  "call_maps (Assign k e x) (ms, shs) =
     (if to_entity e \<in> to_entity ` dom (ms ! k) then None
      else Some (ms[k := (case x of Some v \<Rightarrow> (ms ! k)(e \<mapsto> v) | None \<Rightarrow> ms ! k)], shs))"
| "call_maps (Change k e fs) (ms, shs) =
     (case (ms ! k) e of None \<Rightarrow> None | Some x \<Rightarrow> Some (ms[k := (ms ! k)(e \<mapsto> fold (\<lambda>f. f) fs x)], shs))"
| "call_maps (Unassign k e) (ms, shs) = Some (ms[k := (ms ! k)(e := None)], shs)"
| "call_maps (Unassign_all e) (ms, shs) = Some (map (\<lambda>m. m(e := None)) ms, shs)"
| "call_maps (Sort_pool k algo) (ms, shs) = (if list_ex (\<lambda>(os, gs, fs). k \<in> set os) shs then None else Some (ms, shs))"
| "call_maps (Make_group os gs fs) (ms, shs) =
     (if (os, gs, fs) \<in> set shs then Some (ms, shs)
      else if list_ex (\<lambda>(os', gs', fs'). set os \<inter> set os' \<noteq> {}) shs then None else Some (ms, shs @ [(os, gs, fs)]))"

fun calls_maps :: "'a pool_call list \<Rightarrow> 'a pool_maps \<Rightarrow> 'a pool_maps option" where
  "calls_maps [] s = Some s"
| "calls_maps (c # cs) s = Option.bind (call_maps c s) (calls_maps cs)"

text \<open>What the types of the calls rule out, and identifiers that are tombstones.\<close>

fun call_ok :: "bool list \<Rightarrow> 'a pool_call \<Rightarrow> bool" where
  "call_ok ps (Assign k e x) \<longleftrightarrow> k < length ps \<and> \<not> is_tombstone e"
| "call_ok ps (Change k e fs) \<longleftrightarrow> k < length ps"
| "call_ok ps (Unassign k e) \<longleftrightarrow> k < length ps"
| "call_ok ps (Unassign_all e) \<longleftrightarrow> True"
| "call_ok ps (Sort_pool k algo) \<longleftrightarrow> k < length ps \<and> \<not> ps ! k \<and> (\<forall>es. mset (algo es) = mset es)"
| "call_ok ps (Make_group os gs fs) \<longleftrightarrow> distinct (os @ gs @ fs) \<and> list_all (\<lambda>k. k < length ps) (os @ gs @ fs) \<and> os @ gs \<noteq> [] \<and>
     list_all (\<lambda>k. \<not> ps ! k) os"

section \<open>Every call\<close>

definition good_world :: "bool list \<Rightarrow> nat \<Rightarrow> 'a grouped \<Rightarrow> 'a pool_maps \<Rightarrow> bool" where
  "good_world ps n w = (\<lambda>(ms, shs). settled w \<and> roomy n w \<and> contents w = ms \<and> shapes w = shs \<and>
     modes w = map (\<lambda>b. if b then In_place else Swap_and_pop) ps)"

lemma good_worldD:
  assumes "good_world ps n w (ms, shs)"
  shows "settled w" "roomy n w" "contents w = ms" "shapes w = shs" "length (mixins w) = length ps" "length ms = length ps"
    "k < length ps \<Longrightarrow> mode (base (store_of k w)) = (if ps ! k then In_place else Swap_and_pop)"
    "k < length ps \<Longrightarrow> comps (store_of k w) = ms ! k"
proof -
  have G: "settled w" "roomy n w" "contents w = ms" "shapes w = shs" and M: "modes w = map (\<lambda>b. if b then In_place else Swap_and_pop) ps"
    using assms by (simp_all add: good_world_def)
  show len: "length (mixins w) = length ps" using arg_cong [OF M, of length] by simp
  then show "length ms = length ps" using G(3) by auto
  show "mode (base (store_of k w)) = (if ps ! k then In_place else Swap_and_pop)" if "k < length ps"
    using arg_cong [OF M, of "\<lambda>xs. xs ! k"] that len by simp
  show "comps (store_of k w) = ms ! k" if "k < length ps" using contents_nth [of k w] that len G(3) by simp
qed (use assms in \<open>simp_all add: good_world_def\<close>)

lemma good_worldI:
  assumes "good_world ps n w (ms, shs)" "settled w'" "roomy m w'" "shapes w' = shs'" "modes w' = modes w" "contents w' = ms'"
  shows "good_world ps m w' (ms', shs')"
  using assms by (simp add: good_world_def)

lemma good_world_mono: "good_world ps n w s \<Longrightarrow> n \<le> m \<Longrightarrow> good_world ps m w s"
  by (auto simp: good_world_def roomy_def split: prod.splits intro: le_trans)

definition good_call :: "bool list \<Rightarrow> nat \<Rightarrow> 'a pool_maps option \<Rightarrow> 'a grouped outcome \<Rightarrow> bool" where
  "good_call ps n s r = (case s of None \<Rightarrow> r = Aborts | Some t \<Rightarrow> \<exists>w. r = Ret w \<and> good_world ps n w t)"

lemma good_callI: "r = Ret w \<Longrightarrow> good_world ps n w t \<Longrightarrow> good_call ps n (Some t) r"
  by (simp add: good_call_def)

lemma assign_good:
  assumes G: "good_world ps n w (ms, shs)" and k: "k < length ps" "\<not> is_tombstone e" and n: "n < 2 ^ 20 - 1"
  shows "good_call ps (n + 1) (call_maps (Assign k e x) (ms, shs)) (run_call (Assign k e x) w)"
proof -
  note D = good_worldD [OF G]
  have len: "k < length (mixins w)" using D(5) k(1) by simp
  note spec = mix_emplace_spec [OF D(1) len D(2) n k(2), of x, unfolded D(8) [OF k(1)]]
  show ?thesis
  proof (cases "to_entity e \<in> to_entity ` dom (ms ! k)")
    case True
    then show ?thesis using spec by (simp add: good_call_def)
  next
    case False
    then obtain w' where w': "mix_emplace notify k e x w = Ret (x, w')" "settled w'" "roomy (n + 1) w'" "shapes w' = shapes w" "modes w' = modes w"
      "contents w' = (contents w)[k := (case x of Some v \<Rightarrow> (ms ! k)(e \<mapsto> v) | None \<Rightarrow> ms ! k)]" using spec by auto
    show ?thesis unfolding call_maps.simps if_not_P [OF False]
      by (rule good_callI [OF _ good_worldI [OF G w'(2,3) _ w'(5)]]) (simp_all only: run_call.simps w'(1,4,6) D(3,4) obind.simps prod.case)
  qed
qed

lemma change_good:
  assumes G: "good_world ps n w (ms, shs)" and k: "k < length ps"
  shows "good_call ps n (call_maps (Change k e fs) (ms, shs)) (run_call (Change k e fs) w)"
proof -
  note D = good_worldD [OF G]
  have len: "k < length (mixins w)" using D(5) k by simp
  note spec = mix_patch_spec [OF D(1) len D(2), of e fs, unfolded D(8) [OF k]]
  show ?thesis
  proof (cases "(ms ! k) e")
    case None
    then show ?thesis using spec by (simp add: good_call_def)
  next
    case (Some y)
    then obtain x w' where w': "mix_patch notify k e fs w = Ret (x, w')" "settled w'" "roomy n w'" "shapes w' = shapes w" "modes w' = modes w"
      "contents w' = (contents w)[k := (ms ! k)(e \<mapsto> fold (\<lambda>f. f) fs y)]" using spec by auto
    show ?thesis unfolding call_maps.simps Some option.case
      by (rule good_callI [OF _ good_worldI [OF G w'(2,3) _ w'(5)]]) (simp_all only: run_call.simps w'(1,4,6) D(3,4) obind.simps prod.case)
  qed
qed

lemma unassign_good:
  assumes G: "good_world ps n w (ms, shs)" and k: "k < length ps"
  shows "good_call ps n (call_maps (Unassign k e) (ms, shs)) (run_call (Unassign k e) w)"
proof -
  note D = good_worldD [OF G]
  have len: "k < length (mixins w)" using D(5) k by simp
  obtain b w' where w': "mix_remove notify k e w = Ret (b, w')" "settled w'" "roomy n w'" "shapes w' = shapes w" "modes w' = modes w"
    "contents w' = (contents w)[k := (ms ! k)(e := None)]" using mix_remove_spec [OF D(1) len D(2), of e, unfolded D(8) [OF k]] by blast
  show ?thesis unfolding call_maps.simps
    by (rule good_callI [OF _ good_worldI [OF G w'(2,3) _ w'(5)]]) (simp_all only: run_call.simps w'(1,4,6) D(3,4) obind.simps prod.case)
qed

lemma unassign_all_good:
  assumes G: "good_world ps n w (ms, shs)"
  shows "good_call ps n (call_maps (Unassign_all e) (ms, shs)) (run_call (Unassign_all e) w)"
proof -
  note D = good_worldD [OF G]
  obtain w' where w': "mix_remove_all notify e (length (mixins w)) w = Ret w'" "settled w'" "roomy n w'" "shapes w' = shapes w" "modes w' = modes w"
    "contents w' = map (\<lambda>c. c(e := None)) (take (length (mixins w)) (contents w)) @ drop (length (mixins w)) (contents w)"
    using mix_remove_all_spec [OF D(1,2) order_refl, of e] by blast
  have "contents w' = map (\<lambda>c. c(e := None)) ms" using w'(6) D(3) by (simp add: D(5) D(6))
  from good_worldI [OF G w'(2,3) _ w'(5) this] show ?thesis using w'(1,4) D(4) by (simp add: good_call_def)
qed

lemma sort_spec:
  assumes ok: "st_ok s" "mode (base s) = Swap_and_pop" and algo: "\<And>es. mset (algo es) = mset es"
  shows "\<exists>t. st_sort algo s = Ret t \<and> st_ok t \<and> mode (base t) = mode (base s) \<and> comps t = comps s \<and>
    elements (base t) = rev (algo (rev (elements (base s))))"
  using sort_n_spec [OF ok(1) _ algo order_refl] ok(2) by (simp add: st_sort_def begin_live_def begin_from_def)

lemma sort_good:
  assumes G: "good_world ps n w (ms, shs)" and k: "k < length ps" "\<not> ps ! k" and algo: "\<And>es. mset (algo es) = mset es"
  shows "good_call ps n (call_maps (Sort_pool k algo) (ms, shs)) (run_call (Sort_pool k algo) w)"
proof -
  note D = good_worldD [OF G]
  note S = settledD [OF D(1)]
  have owned: "reg_owned [k] w \<longleftrightarrow> list_ex (\<lambda>(os, gs, fs). k \<in> set os) shs"
    unfolding D(4) [symmetric] by (auto simp: reg_owned_def owned_count_def list_ex_iff)
  show ?thesis
  proof (cases "reg_owned [k] w")
    case True
    then show ?thesis using owned by (simp add: good_call_def reg_sort_def)
  next
    case False
    have len: "k < length (mixins w)" using D(5) k(1) by simp
    obtain t where t: "st_sort algo (store_of k w) = Ret t" "st_ok t" "mode (base t) = mode (base (store_of k w))" "comps t = comps (store_of k w)"
      "elements (base t) = rev (algo (rev (ids_in k w)))"
      using sort_spec [OF soundD(1) [OF S(1) len] _ algo] D(7) [OF k(1)] k(2) by auto
    let ?w = "set_store k t w"
    note W = set_store_settled [OF S(1-3) len t(2,3)]
    have has: "has ?w = has w" using W(4) t(4) by (simp add: fun_upd_idem)
    have "holds g ?w (wants (others w ! g) (has w))" if g: "g < length (others w)" for g
    proof (rule holds_set_store [OF S(4) [OF g] len])
      assume "k \<in> set (owned_pools (others w ! g))"
      then have "reg_owned [k] w" using nth_mem [OF g] by (auto simp: reg_owned_def owned_count_def)
      then show "\<exists>rest'. elements (base t) = front @ rest'" for front using False by simp
    qed
    then have set: "settled ?w" by (intro settled_after [OF similar_refl W(1-3)]) (simp_all only: has set_store_fields)
    have "length (elements (base t)) = length (ids_in k w)" using arg_cong [OF algo, of size "rev (ids_in k w)"] t(5) by simp
    then have room: "roomy n ?w" by (intro roomy_set_store [OF D(2) len]) (use D(2) len in \<open>simp_all add: roomy_def\<close>)
    have cont: "contents ?w = ms" using contents_set_store [of k t w] t(4) D(3) contents_nth [OF len] by (metis list_update_id)
    have "run_call (Sort_pool k algo) w = Ret ?w" using t(1) False by (simp add: reg_sort_def)
    moreover have "good_world ps n ?w (ms, shs)"
      by (rule good_worldI [OF G set room _ modes_set_store [OF len t(3)] cont]) (simp add: D(4))
    ultimately show ?thesis using owned False by (simp add: good_call_def)
  qed
qed

lemma owned_disjoint:
  "owned_count h ks = 0 \<longleftrightarrow> set ks \<inter> set (owned_pools h) = {}"
  by (auto simp: owned_count_def filter_empty_conv)

lemma make_good:
  assumes G: "good_world ps n w (ms, shs)" and ok: "call_ok ps (Make_group os gs fs)"
  shows "good_call ps n (call_maps (Make_group os gs fs) (ms, shs)) (run_call (Make_group os gs fs) w)"
proof -
  note D = good_worldD [OF G]
  have found: "case find_group os gs fs (others w) of None \<Rightarrow> (os, gs, fs) \<notin> set shs | Some g \<Rightarrow> (os, gs, fs) \<in> set shs"
    using find_group_spec [of os gs fs "others w"] unfolding D(4) by (auto split: option.splits) (metis D(4) length_map nth_mem)
  show ?thesis
  proof (cases "find_group os gs fs (others w)")
    case (Some g)
    then show ?thesis using found G by (simp add: good_call_def reg_group_def)
  next
    case None
    have "fits w (handler_new os gs fs)"
      using ok D(5,7) unfolding fits_def handler_new_def by (auto simp: list_all_iff)
    from group_make_spec [OF D(1) this] obtain w' where w': "group_make os gs fs w = Ret w'"
      "set os \<inter> \<Union> ((\<lambda>h. set (owned_pools h)) ` set (others w)) = {} \<Longrightarrow>
        settled w' \<and> contents w' = contents w \<and> roomy n w' = roomy n w \<and> modes w' = modes w \<and> shapes w' = shapes w @ [(os, gs, fs)]" by blast
    have free: "(\<forall>h \<in> set (others w). owned_count h os = 0) \<longleftrightarrow> set os \<inter> \<Union> ((\<lambda>h. set (owned_pools h)) ` set (others w)) = {}"
      unfolding owned_disjoint by blast
    have conflict: "list_ex (\<lambda>(os', gs', fs'). set os \<inter> set os' \<noteq> {}) shs \<longleftrightarrow> \<not> (\<forall>h \<in> set (others w). owned_count h os = 0)"
      unfolding D(4) [symmetric] owned_disjoint by (auto simp: list_ex_iff)
    show ?thesis
    proof (cases "\<forall>h \<in> set (others w). owned_count h os = 0")
      case True
      note W = w'(2) [OF free [THEN iffD1, OF True]]
      have "good_world ps n w' (ms, shs @ [(os, gs, fs)])" by (rule good_worldI [OF G]) (use W D(2-4) in simp_all)
      moreover have "run_call (Make_group os gs fs) w = Ret w'" using None w'(1) True by (simp add: reg_group_def Let_def)
      ultimately show ?thesis using found None conflict True by (simp add: good_call_def)
    next
      case False
      then have "os \<noteq> []" by (auto simp: owned_count_def)
      then have "run_call (Make_group os gs fs) w = Aborts" using None w'(1) False by (auto simp: reg_group_def Let_def entt_assert_def)
      then show ?thesis using found None conflict False by (simp add: good_call_def)
    qed
  qed
qed

lemma call_good:
  assumes G: "good_world ps n w s" and ok: "call_ok ps c" and n: "n < 2 ^ 20 - 1"
  shows "good_call ps (n + 1) (call_maps c s) (run_call c w)"
proof -
  obtain ms shs where s: "s = (ms, shs)" by (cases s)
  have mono: "good_call ps n t r \<Longrightarrow> good_call ps (n + 1) t r" for t r
    using good_world_mono [of ps n _ _ "n + 1"] by (auto simp: good_call_def split: option.splits)
  show ?thesis
  proof (cases c)
    case (Assign k e x)
    then show ?thesis using assign_good [OF G [unfolded s] _ _ n, of k e x] ok s by (simp only: call_ok.simps simp_thms)
  next
    case (Change k e fs)
    then show ?thesis using change_good [OF G [unfolded s], of k e fs] ok s by (simp only: call_ok.simps simp_thms mono)
  next
    case (Unassign k e)
    then show ?thesis using unassign_good [OF G [unfolded s], of k e] ok s by (simp only: call_ok.simps simp_thms mono)
  next
    case (Unassign_all e)
    then show ?thesis using unassign_all_good [OF G [unfolded s], of e] s by (simp only: mono)
  next
    case (Sort_pool k algo)
    then show ?thesis using sort_good [OF G [unfolded s], of k algo] ok s by (simp only: call_ok.simps simp_thms mono)
  next
    case (Make_group os gs fs)
    then show ?thesis using mono [OF make_good [OF G [unfolded s], of os gs fs]] ok s by (simp only:)
  qed
qed

lemma calls_good:
  "good_world ps n w s \<Longrightarrow> list_all (call_ok ps) cs \<Longrightarrow> n + length cs < 2 ^ 20 \<Longrightarrow>
   good_call ps (n + length cs) (calls_maps cs s) (run_calls cs w)"
proof (induction cs arbitrary: n w s)
  case Nil
  then show ?case by (simp add: good_call_def)
next
  case (Cons c cs)
  have step: "good_call ps (n + 1) (call_maps c s) (run_call c w)" by (rule call_good [OF Cons.prems(1)]) (use Cons.prems(2,3) in simp_all)
  show ?case
  proof (cases "call_maps c s")
    case None
    then show ?thesis using step by (simp add: good_call_def)
  next
    case (Some t)
    then obtain w1 where w1: "run_call c w = Ret w1" "good_world ps (n + 1) w1 t" using step by (auto simp: good_call_def)
    from Cons.IH [OF w1(2)] have "good_call ps (n + 1 + length cs) (calls_maps cs t) (run_calls cs w1)" using Cons.prems(2,3) by simp
    then show ?thesis using Some w1(1) by simp
  qed
qed

lemma good_new: "good_world ps 0 (pools_new ps :: 'a grouped) (map (\<lambda>b. Map.empty) ps, [])"
proof -
  let ?w = "pools_new ps :: 'a grouped"
  have "sound ?w" by (simp add: sound_def pools_new_def mixin_new_def st_new_ok)
  moreover have "apart ?w" "wired ?w"
    by (simp_all add: apart_def wired_def construct_hooks_def destroy_hooks_def pools_new_def mixin_new_def)
  moreover have "mode (base (st_new b :: 'a storage)) = (if b then In_place else Swap_and_pop)" "elements (base (st_new b :: 'a storage)) = []" for b
    by (simp_all add: st_new_def ss_new_def)
  ultimately show ?thesis by (simp add: good_world_def settled_def roomy_def pools_new_def mixin_new_def st_new_ok)
qed

lemma calls_from_new:
  assumes "list_all (call_ok ps) cs" "length cs < 2 ^ 20"
  shows "good_call ps (length cs) (calls_maps cs (map (\<lambda>b. Map.empty) ps, [])) (run_calls cs (pools_new ps))"
  using calls_good [OF good_new assms(1)] assms(2) by simp

lemma only_element: "set xs = {a} \<Longrightarrow> distinct xs \<Longrightarrow> xs = [a]"
  by (cases xs; cases "tl xs") auto

text \<open>
  C6. Whatever calls are made, in whatever order, on fresh storages - components assigned, patched
  and removed, identifiers destroyed, storages sorted, groups made early or late, any number of them
  that share no owned storage, constructors that throw - the storages are the maps they should be,
  and every group shows exactly the identifiers that have all its components and none of those it
  excludes: each once, and each with its own components, although an owning group reads them by
  position; a call aborts exactly when its precondition fails, or when a group would own what
  another one owns.
\<close>

theorem groups_show_what_they_want:
  assumes "list_all (call_ok ps) cs" "length cs < 2 ^ 20"
  shows "case calls_maps cs (map (\<lambda>b. Map.empty) ps, []) of
      None \<Rightarrow> run_calls cs (pools_new ps) = Aborts
    | Some (ms, shs) \<Rightarrow> \<exists>w. run_calls cs (pools_new ps) = Ret w \<and> contents w = ms \<and> shapes w = shs \<and>
        list_all (\<lambda>g. group_shows ms w g (shs ! g)) [0..<length shs]"
proof (cases "calls_maps cs (map (\<lambda>b. Map.empty) ps, [])")
  case None
  then show ?thesis using calls_from_new [OF assms] by (simp add: good_call_def)
next
  case (Some t)
  obtain ms shs where t: "t = (ms, shs)" by (cases t)
  obtain w where w: "run_calls cs (pools_new ps) = Ret w" "good_world ps (length cs) w (ms, shs)"
    using calls_from_new [OF assms] Some t by (auto simp: good_call_def)
  note D = good_worldD [OF w(2)]
  have "group_shows ms w g (shs ! g)" if "g < length shs" for g
    using settled_shows [OF D(1), of g] that D(3,4) by auto
  then show ?thesis using Some t w(1) D(3,4) by (simp add: list_all_iff)
qed

theorem groups_show_what_they_want_witness:
  "\<exists>w. run_calls [Assign 0 1 (Some ''a''), Assign 1 1 (Some ''b''), Assign 0 2 (Some ''c''), Make_group [0] [1] [], Make_group [1] [] [0],
      Assign 1 2 (Some ''d''), Assign 1 3 (Some ''e''), Unassign 1 1] (pools_new [False, False]) = Ret w \<and>
    group_ids 0 w = [2] \<and> group_ids 1 w = [3] \<and> group_each 0 w = Ret [(2, [''c'', ''d''])]"
proof -
  let ?cs = "[Assign 0 1 (Some ''a''), Assign 1 1 (Some ''b''), Assign 0 2 (Some ''c''), Make_group [0] [1] [], Make_group [1] [] [0],
      Assign 1 2 (Some ''d''), Assign 1 3 (Some ''e''), Unassign 1 1]"
  let ?ms = "[[1 \<mapsto> ''a'', 2 \<mapsto> ''c''], [2 \<mapsto> ''d'', 3 \<mapsto> ''e'']] :: (entity \<Rightarrow> string option) list"
  let ?shs = "[([0], [1], []), ([1], [], [0])] :: (nat list \<times> nat list \<times> nat list) list"
  have "\<not> is_tombstone 1" "\<not> is_tombstone 2" "\<not> is_tombstone 3" by code_simp+
  then have ok: "list_all (call_ok [False, False]) ?cs" by simp
  have ids: "to_entity 1 = 1" "to_entity 2 = 2" "to_entity 3 = 3" by code_simp+
  have maps: "calls_maps ?cs (map (\<lambda>b. Map.empty) [False, False], []) = Some (?ms, ?shs)"
    using ids by (auto simp: fun_eq_iff)
  obtain w where w: "run_calls ?cs (pools_new [False, False]) = Ret w" "group_shows ?ms w 0 (?shs ! 0)" "group_shows ?ms w 1 (?shs ! 1)"
    using groups_show_what_they_want [OF ok, unfolded maps] by (auto simp: upt_rec)
  have "shape_wants (?shs ! 0) ?ms = {2}" "shape_wants (?shs ! 1) ?ms = {3}" by (auto simp: shape_wants_def split: if_splits)
  then have "set (group_ids 0 w) = {2}" "distinct (group_ids 0 w)" "set (group_ids 1 w) = {3}" "distinct (group_ids 1 w)"
    using w(2,3) by (simp_all add: group_shows_def)
  then have shown: "group_ids 0 w = [2]" "group_ids 1 w = [3]" by (simp_all add: only_element)
  have "group_each 0 w = Ret [(2, [''c'', ''d''])]" using w(2) shown(1) by (simp add: group_shows_def)
  then show ?thesis using w(1) shown by blast
qed

section \<open>Sorting a group\<close>

lemma align_spec:
  assumes front: "distinct front" "n = length front" and ks: "distinct ks" "k \<notin> set ks"
  shows "m \<le> n \<Longrightarrow> take n (ids_in k w) = front \<Longrightarrow>
    (\<And>j. j \<in> set ks \<Longrightarrow> j < length (mixins w) \<and> st_ok (store_of j w) \<and> mode (base (store_of j w)) \<noteq> In_place \<and>
      n \<le> length (ids_in j w) \<and> set front \<subseteq> set (ids_in j w) \<and> (\<forall>p. m \<le> p \<and> p < n \<longrightarrow> ids_in j w ! p = front ! p)) \<Longrightarrow>
    \<exists>w'. align_others k ks m w = Ret w' \<and> others w' = others w \<and> length (mixins w') = length (mixins w) \<and>
      (\<forall>j. j \<notin> set ks \<longrightarrow> mixins w' ! j = mixins w ! j) \<and>
      (\<forall>j \<in> set ks. same_mixin (mixins w ! j) (mixins w' ! j) \<and> take n (ids_in j w') = front)"
proof (induction m arbitrary: w)
  case 0
  have "take n (ids_in j w) = front" if "j \<in> set ks" for j
    by (rule nth_equalityI) (use 0(3) [OF that] front(2) in auto)
  then show ?case by (intro exI [of _ w]) simp
next
  case (Suc m)
  let ?e = "front ! m"
  have m: "m < n" using Suc.prems(1) by simp
  then have e: "?e \<in> set front" using front(2) by simp
  have P: "j < length (mixins w)" "st_ok (store_of j w)" "mode (base (store_of j w)) \<noteq> In_place" "n \<le> length (ids_in j w)" "set front \<subseteq> set (ids_in j w)"
    "\<forall>p. Suc m \<le> p \<and> p < n \<longrightarrow> ids_in j w ! p = front ! p" if "j \<in> set ks" for j using Suc.prems(3) [OF that] by simp_all
  have swap: "j < length (mixins w) \<and> st_ok (store_of j w) \<and> mode (base (store_of j w)) \<noteq> In_place \<and> m < length (ids_in j w) \<and> ?e \<in> set (ids_in j w)"
    if "j \<in> set ks" for j using P [OF that] e m by auto
  obtain w1 where w1: "group_swap m ?e ks w = Ret w1" "others w1 = others w" "length (mixins w1) = length (mixins w)"
    "\<forall>j. j \<notin> set ks \<longrightarrow> mixins w1 ! j = mixins w ! j"
    "\<forall>j \<in> set ks. same_mixin (mixins w ! j) (mixins w1 ! j) \<and>
       (\<exists>i < length (ids_in j w). ids_in j w ! i = ?e \<and> ids_in j w1 = swap_list m i (ids_in j w))"
    using group_swap_spec [OF ks(1) swap] by blast
  have after: "j < length (mixins w1) \<and> st_ok (store_of j w1) \<and> mode (base (store_of j w1)) \<noteq> In_place \<and>
      n \<le> length (ids_in j w1) \<and> set front \<subseteq> set (ids_in j w1) \<and> (\<forall>p. m \<le> p \<and> p < n \<longrightarrow> ids_in j w1 ! p = front ! p)"
    if j: "j \<in> set ks" for j
  proof -
    obtain i where i: "i < length (ids_in j w)" "ids_in j w ! i = ?e" "ids_in j w1 = swap_list m i (ids_in j w)" using w1(5) j by blast
    have same: "same_mixin (mixins w ! j) (mixins w1 ! j)" using w1(5) j by blast
    have "ids_in j w1 ! p = front ! p" if p: "m \<le> p" "p < n" for p
    proof (cases "p = m")
      case True
      then show ?thesis using i P(4) [OF j] m by (auto simp: swap_list_def nth_list_update)
    next
      case False
      then have "ids_in j w ! p = front ! p" "front ! p \<noteq> ?e"
        using P(6) [OF j] p m front nth_eq_iff_index_eq [OF front(1), of p m] by auto
      then show ?thesis using i P(4) [OF j] p False by (auto simp: swap_list_def nth_list_update)
    qed
    moreover have "set (ids_in j w1) = set (ids_in j w)"
      unfolding i(3) swap_list_def by (rule set_swap) (use i(1) P(4) [OF j] m in simp_all)
    ultimately show ?thesis using P(1-5) [OF j] same w1(3) by (simp add: same_mixin_def)
  qed
  have k: "mixins w1 ! k = mixins w ! k" using w1(4) ks(2) by blast
  from Suc.IH [of w1] after Suc.prems(2) m obtain w' where w': "align_others k ks m w1 = Ret w'" "others w' = others w1"
    "length (mixins w') = length (mixins w1)" "\<forall>j. j \<notin> set ks \<longrightarrow> mixins w' ! j = mixins w1 ! j"
    "\<forall>j \<in> set ks. same_mixin (mixins w1 ! j) (mixins w' ! j) \<and> take n (ids_in j w') = front" by (auto simp: k)
  have "n \<le> length (ids_in k w)" using arg_cong [OF Suc.prems(2), of length] front(2) by simp
  moreover have "ids_in k w ! m = ?e" using nth_take [OF m, of "ids_in k w"] Suc.prems(2) by simp
  ultimately have "read_at m (base (store_of k w)) = Ret ?e" using m by (simp add: read_at_def)
  then have "align_others k ks (Suc m) w = Ret w'" using w1(1) w'(1) by simp
  then show ?case using w1(2-5) w'(2-5) by (intro exI [of _ w']) (simp add: same_mixin_def)
qed

lemma sort_aligns:
  assumes w: "sound w" "g < length (others w)" "holds g w S" and own: "owned_pools (others w ! g) \<noteq> []"
    and got: "\<And>k. k \<in> set (got_pools (others w ! g)) \<Longrightarrow> mode (base (store_of k w)) \<noteq> In_place \<and> S \<subseteq> has w k"
    and algo: "\<And>es. mset (algo es) = mset es"
  shows "\<exists>w' front. group_sort g algo w = Ret w' \<and> group_ids g w = rev front \<and> length front = group_len (others w ! g) \<and> set front = S \<and>
    similar w w' \<and> others w' = others w \<and> (\<forall>j. j \<notin> set (pools_of (others w ! g)) \<longrightarrow> mixins w' ! j = mixins w ! j) \<and>
    (\<forall>j \<in> set (pools_of (others w ! g)). take (length front) (ids_in j w') = rev (algo (rev front)))"
proof -
  let ?h = "others w ! g" let ?n = "group_len ?h"
  note F = soundD(2) [OF w(1,2)]
  obtain k os where k: "owned_pools ?h = k # os" using own by (cases "owned_pools ?h") auto
  then have own_k: "k \<in> set (owned_pools ?h)" by simp
  note O = owned_store [OF w own_k] and B = holds_subset [OF w own_k]
  obtain front where f: "length front = ?n" "set front = S" "\<forall>j \<in> set (owned_pools ?h). \<exists>rest. ids_in j w = front @ rest"
    using w(3) own by (auto simp: holds_def Let_def)
  obtain rest where r: "ids_in k w = front @ rest" using f(3) own_k by blast
  let ?front = "rev (algo (rev front))"
  have perm: "mset ?front = mset front" by (simp add: algo)
  then have new: "length ?front = ?n" "set ?front = S" "distinct ?front"
    using mset_eq_length [OF perm] mset_eq_setD [OF perm] mset_eq_imp_distinct_iff [OF perm] f(1,2) B(2) r by auto
  obtain t where t: "st_sort_n ?n algo (store_of k w) = Ret t" "st_ok t" "mode (base t) = mode (base (store_of k w))" "comps t = comps (store_of k w)"
    "elements (base t) = ?front @ rest" using sort_n_spec [OF O(2,3) algo, of ?n] r f(1) by auto
  let ?w = "set_store k t w" let ?ks = "os @ got_pools ?h"
  have ks: "distinct ?ks" "k \<notin> set ?ks" using F k by (auto simp: fits_def)
  have pool: "j < length (mixins ?w) \<and> st_ok (store_of j ?w) \<and> mode (base (store_of j ?w)) \<noteq> In_place \<and>
      ?n \<le> length (ids_in j ?w) \<and> set ?front \<subseteq> set (ids_in j ?w) \<and> (\<forall>p. ?n \<le> p \<and> p < ?n \<longrightarrow> ids_in j ?w ! p = ?front ! p)"
    if j: "j \<in> set ?ks" for j
  proof -
    have len: "j < length (mixins w)" using fitsD(4,5) [OF F, of j] j k by auto
    note st = soundD(1) [OF w(1) len]
    have mode: "mode (base (store_of j w)) \<noteq> In_place \<and> S \<subseteq> has w j"
      using got [of j] fitsD(8) [OF F, of j] holds_subset(1) [OF w, of j] j k by auto
    then have S: "S \<subseteq> set (ids_in j w)" using packed_storage(3) [OF st] by auto
    have "?n = card S" using f(1,2) B(2) r distinct_card [of front] by auto
    also have "\<dots> \<le> card (set (ids_in j w))" by (rule card_mono [OF _ S]) simp
    also have "\<dots> \<le> length (ids_in j w)" by (rule card_length)
    finally show ?thesis using len st mode S new(2) ks(2) j O(1) by auto
  qed
  have "take ?n (ids_in k ?w) = ?front" using t(5) O(1) new(1) by simp
  from align_spec [OF new(3) new(1) [symmetric] ks order_refl this pool] obtain w' where
    w': "align_others k ?ks ?n ?w = Ret w'" "others w' = others ?w" "length (mixins w') = length (mixins ?w)"
    "\<forall>j. j \<notin> set ?ks \<longrightarrow> mixins w' ! j = mixins ?w ! j"
    "\<forall>j \<in> set ?ks. same_mixin (mixins ?w ! j) (mixins w' ! j) \<and> take ?n (ids_in j w') = ?front" by blast
  have call: "group_sort g algo w = Ret w'" using t(1) w'(1) k by (simp add: group_sort_def Let_def)
  have "mixins w' ! k = (mixins w ! k)\<lparr>store := t\<rparr>" using w'(4) ks(2) O(1) by simp
  then have at_k: "same_mixin (mixins w ! k) (mixins w' ! k)" "take ?n (ids_in k w') = ?front"
    using t r new(1) f(1) arg_cong [OF algo, of size "rev front"] by (simp_all add: same_mixin_def)
  have kept: "mixins ?w ! j = mixins w ! j" if "j \<noteq> k" for j using O(1) that by simp
  have "same_mixin (mixins w ! j) (mixins w' ! j)" for j
  proof (cases "j = k")
    case False
    then show ?thesis using w'(4,5) kept [OF False] by (cases "j \<in> set ?ks") (metis, metis same_mixin_refl)
  qed (use at_k(1) in simp)
  then have "similar w w'" using w'(2,3) by (simp add: similar_def)
  moreover have "group_ids g w = rev front" using r f(1) k by (simp add: group_ids_def Let_def)
  moreover have "mixins w' ! j = mixins w ! j" if "j \<notin> set (pools_of ?h)" for j using w'(4) O(1) that k by simp
  moreover have "take (length front) (ids_in j w') = ?front" if "j \<in> set (pools_of ?h)" for j
    using at_k(2) w'(5) that k f(1) by auto
  ultimately show ?thesis using call w'(2) f(1,2) by (intro exI [of _ w'] exI [of _ front]) simp
qed

lemma sort_settled:
  assumes w: "settled w" and g: "g < length (others w)" and own: "owned_pools (others w ! g) \<noteq> []"
    and got: "\<And>k. k \<in> set (got_pools (others w ! g)) \<Longrightarrow> mode (base (store_of k w)) \<noteq> In_place \<and> \<not> reg_owned [k] w"
    and algo: "\<And>es. mset (algo es) = mset es"
  shows "\<exists>w'. group_sort g algo w = Ret w' \<and> settled w' \<and> contents w' = contents w \<and> shapes w' = shapes w \<and>
    group_ids g w' = algo (group_ids g w) \<and> (\<forall>j<length (others w). j \<noteq> g \<longrightarrow> group_ids j w' = group_ids j w)"
proof -
  let ?h = "others w ! g" let ?S = "wants ?h (has w)"
  note S = settledD [OF w]
  have "?S \<subseteq> has w k" if "k \<in> set (got_pools ?h)" for k using that by (auto simp: wants_def)
  with sort_aligns [OF S(1) g S(4) [OF g] own _ algo] got obtain w' front where
    w': "group_sort g algo w = Ret w'" "group_ids g w = rev front" "length front = group_len ?h" "set front = ?S" "similar w w'" "others w' = others w"
      "\<forall>j. j \<notin> set (pools_of ?h) \<longrightarrow> mixins w' ! j = mixins w ! j"
      "\<forall>j \<in> set (pools_of ?h). take (length front) (ids_in j w') = rev (algo (rev front))" by blast
  have perm: "mset (rev (algo (rev front))) = mset front" by (simp add: algo)
  have at: "\<exists>rest. ids_in j w' = rev (algo (rev front)) @ rest" if "j \<in> set (owned_pools ?h)" for j
    using w'(8) that append_take_drop_id [of "length front" "ids_in j w'"] by (metis UnCI set_append)
  have other: "ids_in k w' = ids_in k w" if "j < length (others w)" "j \<noteq> g" "k \<in> set (owned_pools (others w ! j))" for j k
  proof -
    have "k \<notin> set (owned_pools ?h)" using S(2) g that by (auto simp: apart_def)
    moreover have "reg_owned [k] w" using that nth_mem [OF that(1)] by (auto simp: reg_owned_def owned_count_def)
    ultimately show ?thesis using w'(7) got [of k] by auto
  qed
  have "holds j w' (wants (others w ! j) (has w))" if j: "j < length (others w)" for j
  proof (cases "j = g")
    case True
    have "holds g w' ?S"
      by (rule holds_front [of _ _ "rev (algo (rev front))"])
         (use own w'(3,4,6) at mset_eq_length [OF perm] mset_eq_setD [OF perm] in simp_all)
    then show ?thesis using True by simp
  next
    case False
    then show ?thesis using S(4) [OF j] other [OF j False] by (auto simp: holds_def Let_def w'(6))
  qed
  from settled_after [OF w'(5) S(1-3) this] have "settled w'" .
  moreover have "group_ids g w' = algo (group_ids g w)"
    using own w'(2,3,6,8) by (cases "owned_pools ?h") (simp_all add: group_ids_def Let_def)
  moreover have "group_ids j w' = group_ids j w" if "j < length (others w)" "j \<noteq> g" for j
    using other [OF that] by (cases "owned_pools (others w ! j)") (simp_all add: group_ids_def Let_def w'(6))
  ultimately show ?thesis using w'(1) contents_similar [OF w'(5)] w'(6) by (intro exI [of _ w']) simp
qed

lemma run_settled:
  assumes "list_all (call_ok ps) cs" "length cs < 2 ^ 20" "run_calls cs (pools_new ps) = Ret w"
  shows "good_world ps (length cs) w (contents w, shapes w)"
    "calls_maps cs (map (\<lambda>b. Map.empty) ps, []) = Some (contents w, shapes w)"
  using calls_from_new [OF assms(1,2)] assms(3) by (auto simp: good_call_def good_world_def split: option.splits)

lemma run_reaches:
  assumes "list_all (call_ok ps) cs" "length cs < 2 ^ 20" "calls_maps cs (map (\<lambda>b. Map.empty) ps, []) = Some (ms, shs)"
  shows "\<exists>w. run_calls cs (pools_new ps) = Ret w \<and> good_world ps (length cs) w (ms, shs)"
  using calls_from_new [OF assms(1,2)] assms(3) by (simp add: good_call_def)

text \<open>
  C18. Sorting a group that owns storages, none of whose other storages is owned by a group or keeps
  its holes: it then shows its identifiers in the sorted order, with the same components; all groups
  still show what they should, and the others in the order they had.
\<close>

theorem sorting_orders_a_group:
  assumes "list_all (call_ok ps) cs" "length cs < 2 ^ 20" "run_calls cs (pools_new ps) = Ret w"
    and "g < length (others w)" "owned_pools (others w ! g) \<noteq> []"
    and "list_all (\<lambda>k. \<not> ps ! k \<and> \<not> reg_owned [k] w) (got_pools (others w ! g))" "\<And>es. mset (algo es) = mset es"
  shows "\<exists>w'. group_sort g algo w = Ret w' \<and> group_ids g w' = algo (group_ids g w) \<and> contents w' = contents w \<and> shapes w' = shapes w \<and>
    list_all (\<lambda>j. group_shows (contents w') w' j (shapes w' ! j)) [0..<length (shapes w')] \<and>
    list_all (\<lambda>j. j = g \<or> group_ids j w' = group_ids j w) [0..<length (shapes w')]"
proof -
  note D = good_worldD [OF run_settled(1) [OF assms(1-3)]]
  have "mode (base (store_of k w)) \<noteq> In_place \<and> \<not> reg_owned [k] w" if "k \<in> set (got_pools (others w ! g))" for k
    using assms(6) that D(7) [of k] fitsD(5) [OF soundD(2) [OF settledD(1) [OF D(1)] assms(4)] that] D(5) by (simp add: list_all_iff)
  from sort_settled [OF D(1) assms(4,5) this assms(7)] obtain w' where
    w': "group_sort g algo w = Ret w'" "settled w'" "contents w' = contents w" "shapes w' = shapes w"
      "group_ids g w' = algo (group_ids g w)" "\<forall>j<length (others w). j \<noteq> g \<longrightarrow> group_ids j w' = group_ids j w" by auto
  have len: "length (others w') = length (others w)" using arg_cong [OF w'(4), of length] by simp
  then have "list_all (\<lambda>j. group_shows (contents w') w' j (shapes w' ! j)) [0..<length (shapes w')]"
    using settled_shows [OF w'(2)] by (simp add: list_all_iff)
  moreover have "list_all (\<lambda>j. j = g \<or> group_ids j w' = group_ids j w) [0..<length (shapes w')]"
    using w'(6) len by (auto simp: list_all_iff)
  ultimately show ?thesis using w'(1,3-5) by blast
qed

lemma distinct_pair: "set xs = {1, 2 :: entity} \<Longrightarrow> distinct xs \<Longrightarrow> sort xs = [1, 2]"
  using sorted_list_of_set_sort_remdups [of xs] by (simp add: distinct_remdups_id)

theorem sorting_orders_a_group_witness:
  "\<exists>w w'. run_calls [Assign 0 1 (Some ''a''), Assign 1 2 (Some ''b''), Assign 1 1 (Some ''c''), Assign 0 2 (Some ''d''), Make_group [0, 1] [] []]
      (pools_new [False, False]) = Ret w \<and>
    group_sort 0 sort w = Ret w' \<and> group_ids 0 w' = [1, 2] \<and> group_each 0 w' = Ret [(1, [''a'', ''c'']), (2, [''d'', ''b''])]"
proof -
  let ?cs = "[Assign 0 1 (Some ''a''), Assign 1 2 (Some ''b''), Assign 1 1 (Some ''c''), Assign 0 2 (Some ''d''), Make_group [0, 1] [] []]"
  let ?ms = "[[1 \<mapsto> ''a'', 2 \<mapsto> ''d''], [2 \<mapsto> ''b'', 1 \<mapsto> ''c'']] :: (entity \<Rightarrow> string option) list"
  let ?shs = "[([0, 1], [], [])] :: (nat list \<times> nat list \<times> nat list) list"
  have "\<not> is_tombstone 1" "\<not> is_tombstone 2" by code_simp+
  then have ok: "list_all (call_ok [False, False]) ?cs" by simp
  have len: "length ?cs < 2 ^ 20" by simp
  have ids: "to_entity 1 = 1" "to_entity 2 = 2" by code_simp+
  have maps: "calls_maps ?cs (map (\<lambda>b. Map.empty) [False, False], []) = Some (?ms, ?shs)"
    using ids by (auto simp: fun_eq_iff)
  obtain w where w: "run_calls ?cs (pools_new [False, False]) = Ret w" "good_world [False, False] (length ?cs) w (?ms, ?shs)"
    using run_reaches [OF ok len maps] by blast
  note D = good_worldD [OF w(2)] and conts = good_worldD(3,4) [OF w(2)]
  then have h: "length (others w) = 1" "owned_pools (others w ! 0) = [0, 1]" "got_pools (others w ! 0) = []"
    using arg_cong [OF conts(2), of length] by (auto simp: map_eq_Cons_conv)
  obtain w' where w': "group_sort 0 sort w = Ret w'" "group_ids 0 w' = sort (group_ids 0 w)" "contents w' = ?ms" "group_shows ?ms w' 0 (?shs ! 0)"
    using sorting_orders_a_group [OF ok len w(1), of 0 sort] h conts by (auto simp: upt_rec)
  have wants: "shape_wants (?shs ! 0) ?ms = {1, 2}" by (auto simp: shape_wants_def split: if_splits)
  have "group_shows ?ms w 0 (?shs ! 0)" using settled_shows [OF D(1), of 0] h(1) unfolding conts by simp
  then have "sort (group_ids 0 w) = [1, 2]" using distinct_pair [of "group_ids 0 w"] wants by (simp add: group_shows_def)
  then show ?thesis using w(1) w'(1,2,4) by (simp add: group_shows_def)
qed

section \<open>A group that is broken by sorting another one\<close>

text \<open>Group 0 owns storage 0 and uses 1, which group 1 owns; identifiers 1 and 2 are in both.\<close>

lemma other_group_sorted:
  assumes w: "settled w" "shapes w = [([0], [1], []), ([1], [2], [])]" "length (mixins w) = 3"
    "\<And>k. k < 3 \<Longrightarrow> mode (base (store_of k w)) \<noteq> In_place" "has w 0 = {1, 2}" "has w 1 = {1, 2}" "has w 2 = {1}"
  shows "\<exists>w' rest. group_ids 1 w = [1] \<and> group_sort 0 sort w = Ret w' \<and> similar w w' \<and> others w' = others w \<and>
    ids_in 1 w' = 2 # 1 # rest \<and> group_len (others w ! 1) = 1"
proof -
  have h: "length (others w) = 2" "owned_pools (others w ! 0) = [0]" "got_pools (others w ! 0) = [1]" "filter_pools (others w ! 0) = []"
      "owned_pools (others w ! 1) = [1]" "got_pools (others w ! 1) = [2]" "filter_pools (others w ! 1) = []"
    using w(2) by (auto simp: map_eq_Cons_conv)
  note S = settledD [OF w(1)]
  have W: "wants (others w ! 0) (has w) = {1, 2}" "wants (others w ! 1) (has w) = {1}"
    unfolding wants_def h using w(5-7) by auto
  have seen: "set (group_ids g w) = wants (others w ! g) (has w) \<and> distinct (group_ids g w)" if "g < 2" "owned_pools (others w ! g) \<noteq> []" for g
    using group_front [OF w(1), of g] that h(1) by auto
  have sorted0: "sort (group_ids 0 w) = [1, 2]" and ids1: "group_ids 1 w = [1]"
    using seen [of 0] seen [of 1] h W distinct_pair [of "group_ids 0 w"] only_element [of "group_ids 1 w" 1] by simp_all
  have got: "mode (base (store_of k w)) \<noteq> In_place \<and> wants (others w ! 0) (has w) \<subseteq> has w k" if "k \<in> set (got_pools (others w ! 0))" for k
    unfolding W using that w(4) [of 1] w(6) by (simp add: h(3))
  obtain w' front where w': "group_sort 0 sort w = Ret w'" "group_ids 0 w = rev front" "length front = group_len (others w ! 0)"
      "similar w w'" "others w' = others w" "take (length front) (ids_in 1 w') = rev (sort (rev front))"
    using sort_aligns [OF S(1) _ S(4) _ got, of sort] h by auto
  have front: "take (length front) (ids_in 1 w') = [2, 1]" using w'(2,6) sorted0 by simp
  then obtain rest where "ids_in 1 w' = 2 # 1 # rest" by (metis append_take_drop_id append_Cons append_Nil)
  moreover have "group_len (others w ! 1) = 1" using ids1 group_front [OF w(1), of 1] h by auto
  ultimately show ?thesis using w'(1,4,5) ids1 by blast
qed

text \<open>
  C20. Sorting a group swaps the elements of all its other storages into its own order, those that it
  does not own too: when another group owns one of these, that group then shows identifiers it should
  not, and no longer those it should, although no component has been made or destroyed. Here the
  second group is to show identifier 1 and shows 2, and its components cannot be read.
\<close>

theorem sorting_a_group_breaks_another:
  "\<exists>w w'. run_calls [Assign 0 1 (Some ''a''), Assign 0 2 (Some ''b''), Assign 1 1 (Some ''c''), Assign 1 2 (Some ''d''), Assign 2 1 (Some ''e''), Make_group [0] [1] [], Make_group [1] [2] []]
      (pools_new [False, False, False]) = Ret w \<and>
    group_ids 1 w = [1] \<and> group_sort 0 sort w = Ret w' \<and> contents w' = contents w \<and>
    group_ids 1 w' = [2] \<and> group_contains 1 1 w' = Ret False \<and> group_get 1 2 w' = Aborts"
proof -
  let ?cs = "[Assign 0 1 (Some ''a''), Assign 0 2 (Some ''b''), Assign 1 1 (Some ''c''), Assign 1 2 (Some ''d''), Assign 2 1 (Some ''e''), Make_group [0] [1] [], Make_group [1] [2] []]"
  let ?ms = "[[1 \<mapsto> ''a'', 2 \<mapsto> ''b''], [1 \<mapsto> ''c'', 2 \<mapsto> ''d''], [1 \<mapsto> ''e'']] :: (entity \<Rightarrow> string option) list"
  let ?shs = "[([0], [1], []), ([1], [2], [])] :: (nat list \<times> nat list \<times> nat list) list"
  have "\<not> is_tombstone 1" "\<not> is_tombstone 2" by code_simp+
  then have ok: "list_all (call_ok [False, False, False]) ?cs" by simp
  have len: "length ?cs < 2 ^ 20" by simp
  have ids: "to_entity 1 = 1" "to_entity 2 = 2" by code_simp+
  have maps: "calls_maps ?cs (map (\<lambda>b. Map.empty) [False, False, False], []) = Some (?ms, ?shs)"
    using ids by (auto simp: fun_eq_iff)
  obtain w where w: "run_calls ?cs (pools_new [False, False, False]) = Ret w" "good_world [False, False, False] (length ?cs) w (?ms, ?shs)"
    using run_reaches [OF ok len maps] by blast
  note D = good_worldD [OF w(2)]
  note S = settledD [OF D(1)]
  have at: "mode (base (store_of k w)) \<noteq> In_place \<and> has w k = dom (?ms ! k)" if "k < 3" for k
    using D(7,8) [of k] that by (auto simp: nth_Cons' numeral_3_eq_3 less_Suc_eq)
  have has: "has w 0 = {1, 2}" "has w 1 = {1, 2}" "has w 2 = {1}" using at [of 0] at [of 1] at [of 2] by auto
  obtain w' rest where w': "group_ids 1 w = [1]" "group_sort 0 sort w = Ret w'" "similar w w'" "others w' = others w"
    "ids_in 1 w' = 2 # 1 # rest" "group_len (others w ! 1) = 1"
    using other_group_sorted [OF D(1,4) _ _ has] at D(5) by auto
  have h: "length (others w) = 2" "owned_pools (others w ! 1) = [1]" "got_pools (others w ! 1) = [2]"
    using D(4) by (auto simp: map_eq_Cons_conv)
  have sim: "contents w' = contents w" by (rule contents_similar [OF w'(3)])
  have sound: "sound w'" by (rule sound_similar [OF w'(3) S(1)])
  have lens: "length (mixins w') = 3" using D(5) w'(3) by (simp add: similar_def)
  have comps: "comps (store_of k w') = ?ms ! k" if "k < 3" for k using contents_nth [of k w'] that lens sim D(3) by simp
  have holds: "holds 1 w' {2}" by (rule holds_front [of _ _ "[2]"]) (use w'(4-6) h in simp_all)
  have "group_contains 1 1 w' = Ret False"
    using in_front_spec [OF sound _ holds, of 1 1] st_contains_spec [OF soundD(1) [OF sound], of 1 1] comps [of 1] lens h w'(4)
    by (simp add: group_contains_def Let_def)
  moreover have "group_get 1 2 w' = Aborts"
    using st_get_spec [OF soundD(1) [OF sound], of 1 2] st_get_spec [OF soundD(1) [OF sound], of 2 2] comps [of 1] comps [of 2] lens h w'(4)
    by (simp add: group_get_def Let_def)
  moreover have "group_ids 1 w' = [2]" using w'(4-6) h by (simp add: group_ids_def Let_def)
  ultimately show ?thesis using w(1) w'(1,2) sim by blast
qed

end
