(* ===== verification/Snapshot.thy ===== *)
theory Snapshot
  imports Registry
begin

text \<open>
  Snapshots of \<open>core/common/entt.hpp\<close>: \<open>basic_snapshot\<close>, \<open>basic_snapshot_loader\<close> and \<open>orphans\<close>. Archives
  are written by users of the library: what matters is the sequence of calls, so an output archive
  is the list of the things it has been called with, and an input archive the list of those it still has.
  Reading something that is not there is up to the archive, and not modelled.
\<close>

section \<open>Archives\<close>

datatype 'a item = Count "32 word" | Ident entity | Payload 'a

fun get_count :: "'a item list \<Rightarrow> (32 word \<times> 'a item list) outcome" where
  "get_count (Count n # its) = Ret (n, its)"
| "get_count its = Undefined"

fun get_ident :: "'a item list \<Rightarrow> (entity \<times> 'a item list) outcome" where
  "get_ident (Ident e # its) = Ret (e, its)"
| "get_ident its = Undefined"

fun get_object :: "'a item list \<Rightarrow> ('a \<times> 'a item list) outcome" where
  "get_object (Payload x # its) = Ret (x, its)"
| "get_object its = Undefined"

section \<open>Saving\<close>

definition save_entities :: "('t, 'a) registry \<Rightarrow> 'a item list" where
  "save_entities r =
     (let s = entities r in Count (of_nat (length (elements s))) # Count (of_nat (free_list s)) # map Ident (elements s))"

text \<open>Storages that keep holes write \<open>null\<close> for them and find objects by identifier; the others by position.\<close>

fun save_stable :: "nat list \<Rightarrow> 'a storage \<Rightarrow> 'a item list outcome" where
  "save_stable [] st = Ret []"
| "save_stable (i # ps) st =
     obind (read_at i (base st)) (\<lambda>e.
     obind (if is_tombstone e then Ret [Ident null_entity] else obind (st_get e st) (\<lambda>x. Ret [Ident e, Payload x])) (\<lambda>its.
     obind (save_stable ps st) (\<lambda>rest. Ret (its @ rest))))"

fun save_reach :: "nat list \<Rightarrow> 'a storage \<Rightarrow> 'a item list outcome" where
  "save_reach [] st = Ret []"
| "save_reach (i # ps) st =
     obind (read_at i (base st)) (\<lambda>e. obind (read_element i st) (\<lambda>x.
     obind (save_reach ps st) (\<lambda>rest. Ret (Ident e # Payload x # rest))))"

definition save_pool :: "'t component_traits \<Rightarrow> 't \<Rightarrow> ('t, 'a) registry \<Rightarrow> 'a item list outcome" where
  "save_pool tr ty r =
     obind (assure_const ty (type_hash tr ty) r) (\<lambda>cpool.
       case cpool of
         None \<Rightarrow> Ret [Count 0]
       | Some st \<Rightarrow> let n = length (elements (base st)) in
           obind (if mode (base st) = In_place then save_stable [0..<n] st else save_reach [0..<n] st)
             (\<lambda>its. Ret (Count (of_nat n) # its)))"

text \<open>Only the components of the identifiers of a range.\<close>

fun save_given :: "entity list \<Rightarrow> 'a storage \<Rightarrow> 'a item list outcome" where
  "save_given [] st = Ret []"
| "save_given (e # es) st =
     obind (st_contains st e) (\<lambda>found.
     obind (if found then obind (st_get e st) (\<lambda>x. Ret [Ident e, Payload x]) else Ret [Ident null_entity]) (\<lambda>its.
     obind (save_given es st) (\<lambda>rest. Ret (its @ rest))))"

definition save_range :: "'t component_traits \<Rightarrow> 't \<Rightarrow> entity list \<Rightarrow> ('t, 'a) registry \<Rightarrow> 'a item list outcome" where
  "save_range tr ty es r =
     obind (assure_const ty (type_hash tr ty) r) (\<lambda>cpool.
       case cpool of
         None \<Rightarrow> Ret [Count 0]
       | Some st \<Rightarrow> if elements (base st) = [] then Ret [Count 0]
           else obind (save_given es st) (\<lambda>its. Ret (Count (of_nat (length es)) # its)))"

section \<open>Loading\<close>

text \<open>Making a loader asserts that no identifier is in use.\<close>

definition loader_new :: "('t, 'a) registry \<Rightarrow> ('t, 'a) registry outcome" where
  "loader_new r = entt_assert (free_list (entities r) = 0) (Ret r)"

fun load_ids :: "nat \<Rightarrow> 'a item list \<Rightarrow> sparse_set \<Rightarrow> ('a item list \<times> sparse_set) outcome" where
  "load_ids 0 its s = Ret (its, s)"
| "load_ids (Suc n) its s = obind (get_ident its) (\<lambda>(e, its1). obind (es_emplace_hint e s) (\<lambda>(d, s1). load_ids n its1 s1))"

definition load_entities :: "'a item list \<Rightarrow> ('t, 'a) registry \<Rightarrow> ('a item list \<times> ('t, 'a) registry) outcome" where
  "load_entities its r =
     obind (get_count its) (\<lambda>(len, its1). obind (get_count its1) (\<lambda>(used, its2).
     obind (load_ids (unat len) its2 (entities r)) (\<lambda>(its3, s).
     obind (set_free_list (unat used) s) (\<lambda>s1. Ret (its3, r\<lparr>entities := s1\<rparr>)))))"

fun load_comps ::
    "'t component_traits \<Rightarrow> 't \<Rightarrow> nat \<Rightarrow> 'a item list \<Rightarrow> ('t, 'a) registry \<Rightarrow> ('a item list \<times> ('t, 'a) registry) outcome" where
  "load_comps tr ty 0 its r = Ret (its, r)"
| "load_comps tr ty (Suc n) its r =
     obind (get_ident its) (\<lambda>(e, its1).
       if is_null e then load_comps tr ty n its1 r
       else obind (contains (entities r) e) (\<lambda>found.
            obind (if found then Ret (e, r) else create_hint e r) (\<lambda>(d, r1).
            entt_assert (d = e) (obind (get_object its1) (\<lambda>(x, its2).
            obind (reg_emplace tr ty d (Some x) r1) (\<lambda>(made, r2). load_comps tr ty n its2 r2))))))"

definition load_pool ::
    "'t component_traits \<Rightarrow> 't \<Rightarrow> 'a item list \<Rightarrow> ('t, 'a) registry \<Rightarrow> ('a item list \<times> ('t, 'a) registry) outcome" where
  "load_pool tr ty its r =
     obind (assure tr ty (type_hash tr ty) r) (\<lambda>(st, r1).
     obind (get_count its) (\<lambda>(len, its1). load_comps tr ty (unat len) its1 r1))"

section \<open>Orphans\<close>

text \<open>The loop goes over the whole array of identifiers, spare ones too, from the last to the first.\<close>

fun orphans_loop :: "nat \<Rightarrow> ('t, 'a) registry \<Rightarrow> ('t, 'a) registry outcome" where
  "orphans_loop 0 r = Ret r"
| "orphans_loop (Suc n) r =
     obind (deref (Suc n) (entities r)) (\<lambda>e. obind (orphan e r) (\<lambda>alone.
     obind (if alone then erase e (entities r) else Ret (entities r)) (\<lambda>s. orphans_loop n (r\<lparr>entities := s\<rparr>))))"

definition orphans :: "('t, 'a) registry \<Rightarrow> ('t, 'a) registry outcome" where
  "orphans r = orphans_loop (length (elements (entities r))) r"

section \<open>Saving and loading a whole registry\<close>

fun save_pools :: "'t component_traits \<Rightarrow> 't list \<Rightarrow> ('t, 'a) registry \<Rightarrow> 'a item list outcome" where
  "save_pools tr [] r = Ret []"
| "save_pools tr (ty # tys) r = obind (save_pool tr ty r) (\<lambda>its. obind (save_pools tr tys r) (\<lambda>rest. Ret (its @ rest)))"

fun load_pools ::
    "'t component_traits \<Rightarrow> 't list \<Rightarrow> 'a item list \<Rightarrow> ('t, 'a) registry \<Rightarrow> ('a item list \<times> ('t, 'a) registry) outcome" where
  "load_pools tr [] its r = Ret (its, r)"
| "load_pools tr (ty # tys) its r = obind (load_pool tr ty its r) (\<lambda>(its1, r1). load_pools tr tys its1 r1)"

definition save_all :: "'t component_traits \<Rightarrow> 't list \<Rightarrow> ('t, 'a) registry \<Rightarrow> 'a item list outcome" where
  "save_all tr tys r = obind (save_pools tr tys r) (\<lambda>its. Ret (save_entities r @ its))"

definition load_all ::
    "'t component_traits \<Rightarrow> 't list \<Rightarrow> 'a item list \<Rightarrow> ('t, 'a) registry \<Rightarrow> ('a item list \<times> ('t, 'a) registry) outcome" where
  "load_all tr tys its r =
     obind (loader_new r) (\<lambda>r1. obind (load_entities its r1) (\<lambda>(its1, r2). load_pools tr tys its1 r2))"

end
