(* ===== verification/SnapshotCorrect.thy ===== *)
theory SnapshotCorrect
  imports Snapshot RegistryCorrect
begin

text \<open>
  A registry that is saved and loaded again is the same registry: the same identifiers in the same
  order, the spare ones and their versions too, and the same components. Removing orphans leaves
  those that have a component.
\<close>

section \<open>Identifiers\<close>

lemma es_ok_elements:
  assumes "es_ok s" "e \<in> set (elements s)"
  shows "\<not> is_null e" "\<not> is_tombstone e" "unat (to_entity e) < length (elements s)"
proof -
  have sw: "swapping s" using assms(1) by (simp add: es_ok_def)
  have len: "length (elements s) < 2 ^ 20" using swappingD(2) [OF sw] unfolding full_iff by simp
  have "to_entity e \<in> of_nat ` {..<length (elements s)}" using assms unfolding es_ok_def by blast
  then obtain j where j: "j < length (elements s)" "to_entity e = of_nat j" by blast
  then have u: "unat (to_entity e) = j" using len by (simp add: unat_of_nat take_bit_nat_eq_self)
  then show "unat (to_entity e) < length (elements s)" using j(1) by simp
  have "unat (to_entity e) \<noteq> 2 ^ 20 - 1" using u j(1) len by linarith
  then show "\<not> is_null e" by (auto simp: is_null_iff entity_mask_def)
  show "\<not> is_tombstone e" by (rule swappingD(4) [OF sw assms(2)])
qed

text \<open>A request for an identifier is granted when its entity is not in use.\<close>

lemma hint_taken:
  assumes ok: "es_ok s" and h: "\<not> is_null h" "\<not> is_tombstone h" "to_entity h \<notin> to_entity ` in_use s"
  shows "\<exists>s'. es_emplace_hint h s = Ret (h, s') \<and> es_ok s' \<and> takes_next h s s' \<and>
    length (elements s') = max (length (elements s)) (Suc (unat (to_entity h)))"
proof (cases "to_entity h \<in> to_entity ` set (elements s)")
  case True
  then obtain d where d: "d \<in> set (elements s)" "to_entity h = to_entity d" by auto
  then have "d \<in> spare s" using h(3) unfolding in_use_or_spare by auto
  from hint_recycled [OF ok h(1,2) this d(2)] es_ok_elements(3) [OF ok d(1)] d(2) show ?thesis by (auto simp: max_def)
next
  case False
  have "length (elements s) < 2 ^ 20" using ok unfolding es_ok_def swapping_def full_iff by simp
  moreover have "unat (to_entity h) < 2 ^ 20" by (simp add: to_entity_unat)
  ultimately have "length (elements s) \<le> unat (to_entity h)"
    using es_ok_new_entity [OF ok, of "unat (to_entity h)" h] False by simp
  with hint_new [OF ok h(1,2) False] show ?thesis by (auto simp: max_def)
qed

lemma load_ids_spec:
  assumes src: "es_ok t" "n = length (elements t)"
  shows "es_ok s \<Longrightarrow> i + m = n \<Longrightarrow> free_list s = i \<Longrightarrow> take i (elements s) = take i (elements t) \<Longrightarrow> length (elements s) \<le> n \<Longrightarrow>
    \<exists>s'. (\<forall>rest :: 'a item list. load_ids m (map Ident (drop i (elements t)) @ rest) s = Ret (rest, s')) \<and> es_ok s' \<and> elements s' = elements t"
proof (induction m arbitrary: i s)
  case 0
  have "i \<le> length (elements s)" using 0(1,3) by (simp add: es_ok_def swapping_def)
  then have "elements s = elements t" using 0 src(2) by simp
  then show ?case using 0 src(2) by simp
next
  case (Suc m)
  let ?e = "elements t ! i"
  have i: "i < length (elements t)" using Suc.prems(2) src(2) by simp
  note E = es_ok_elements [OF src(1) nth_mem [OF i]]
  have "distinct (map to_entity (take (Suc i) (elements t)))"
    using src(1) unfolding es_ok_def swapping_def full_iff by (simp add: take_map [symmetric])
  then have "to_entity ?e \<notin> to_entity ` set (take i (elements t))" using i by (simp add: take_Suc_conv_app_nth)
  then have "to_entity ?e \<notin> to_entity ` in_use s" using Suc.prems(3,4) by (simp add: in_use_def)
  from hint_taken [OF Suc.prems(1) E(1,2) this] obtain s1 where
    s1: "es_emplace_hint ?e s = Ret (?e, s1)" "es_ok s1" "takes_next ?e s s1" "length (elements s1) = max (length (elements s)) (Suc (unat (to_entity ?e)))"
    by blast
  have "free_list s1 = Suc i" "take (Suc i) (elements s1) = take (Suc i) (elements t)"
    using s1(3) Suc.prems(3,4) i by (simp_all add: takes_next_def take_Suc_conv_app_nth)
  moreover have "length (elements s1) \<le> n" using s1(4) Suc.prems(5) E(3) src(2) by simp
  ultimately obtain s' where s': "\<forall>rest :: 'a item list. load_ids m (map Ident (drop (Suc i) (elements t)) @ rest) s1 = Ret (rest, s')" "es_ok s'" "elements s' = elements t"
    using Suc.IH [OF s1(2), of "Suc i"] Suc.prems(2) by auto
  have "drop i (elements t) = ?e # drop (Suc i) (elements t)" by (rule Cons_nth_drop_Suc [OF i, symmetric])
  then show ?case using s1(1) s' by (intro exI [of _ s']) simp
qed

lemma load_entities_spec:
  fixes r r0 :: "('t, 'a) registry"
  assumes ok: "es_ok (entities r)" and new: "es_ok (entities r0)" "elements (entities r0) = []"
  shows "\<exists>s. (\<forall>rest :: 'a item list. load_entities (save_entities r @ rest) r0 = Ret (rest, r0\<lparr>entities := s\<rparr>)) \<and> es_ok s \<and>
    elements s = elements (entities r) \<and> head s = head (entities r)"
proof -
  let ?t = "entities r" let ?n = "length (elements ?t)"
  have sw: "swapping ?t" and sw0: "swapping (entities r0)" using ok new(1) by (simp_all add: es_ok_def)
  have len: "?n < 2 ^ 20" "free_list ?t \<le> ?n" using sw swappingD(2) [OF sw] unfolding full_iff swapping_def by simp_all
  have fl0: "free_list (entities r0) = 0" using sw0 new(2) by (simp add: swapping_def)
  obtain s where s: "\<forall>rest :: 'a item list. load_ids ?n (map Ident (drop 0 (elements ?t)) @ rest) (entities r0) = Ret (rest, s)" "es_ok s" "elements s = elements ?t"
    using load_ids_spec [OF ok refl new(1), of 0 ?n] fl0 new(2) by auto
  let ?s = "s\<lparr>head := head ?t\<rparr>"
  have sws: "swapping s" using s(2) by (simp add: es_ok_def)
  have counts: "unat (of_nat ?n :: 32 word) = ?n" "unat (of_nat (free_list ?t) :: 32 word) = free_list ?t"
    using len by (simp_all add: unat_of_nat take_bit_nat_eq_self)
  have "set_free_list (free_list ?t) s = Ret ?s" using swappingD(1) [OF sws] s(3) len(2) by (simp add: set_free_list_def free_list_def)
  then have "\<forall>rest :: 'a item list. load_entities (save_entities r @ rest) r0 = Ret (rest, r0\<lparr>entities := ?s\<rparr>)"
    using s(1) counts by (simp add: load_entities_def save_entities_def Let_def)
  moreover have "es_ok ?s" using s(2,3) len(2) by (simp add: es_ok_def swapping_def free_list_def)
  ultimately show ?thesis using s(3) by (intro exI [of _ ?s]) simp
qed

section \<open>Components\<close>

text \<open>What is written for one place of a storage.\<close>

definition written :: "'a storage \<Rightarrow> entity \<Rightarrow> 'a item list" where
  "written st e = (case comps st e of Some x \<Rightarrow> [Ident e, Payload x] | None \<Rightarrow> [Ident null_entity])"

lemma save_stable_spec:
  assumes "st_ok st" "mode (base st) = In_place"
  shows "list_all (\<lambda>i. i < length (elements (base st))) ps \<Longrightarrow>
    save_stable ps st = Ret (concat (map (\<lambda>i. written st (elements (base st) ! i)) ps))"
proof (induction ps)
  case (Cons i ps)
  let ?e = "elements (base st) ! i"
  have "comps st ?e = None \<longleftrightarrow> is_tombstone ?e"
  proof -
    note D = st_okD [OF assms(1)]
    show ?thesis
    proof (cases "is_tombstone ?e")
      case True
      have "d \<noteq> ?e" if "d \<in> dom (comps st)" for d
        using that True assms(2) unfolding dom_comps [OF assms(1)] by (auto simp: members_def positions_def)
      then show ?thesis using True by blast
    next
      case False
      then have "i \<in> positions (base st)" using Cons.prems by (simp add: positions_def)
      then show ?thesis using False D(3) [of i] comps_position [OF D(1)] by simp
    qed
  qed
  then show ?case using Cons st_get_spec [OF assms(1), of ?e] by (auto simp: read_at_def written_def split: option.splits)
qed simp

lemma save_reach_spec:
  assumes "st_ok st" "mode (base st) \<noteq> In_place"
  shows "list_all (\<lambda>i. i < length (elements (base st))) ps \<Longrightarrow>
    save_reach ps st = Ret (concat (map (\<lambda>i. written st (elements (base st) ! i)) ps))"
proof (induction ps)
  case (Cons i ps)
  note D = st_okD [OF assms(1)]
  have i: "i \<in> positions (base st)" using Cons.prems assms(2) by (simp add: positions_def)
  then obtain x where x: "object_at st i = Some x" using D(3) [of i] by blast
  moreover have "i < 2 ^ 64" using positions_less [OF D(1) i] by simp
  ultimately have "read_element i st = Ret x" using read_element_eq [OF D(2)] by simp
  with x show ?case using Cons comps_position [OF D(1) i] by (simp add: read_at_def written_def)
qed simp

lemma distinct_filter_nth:
  assumes "inj_on (\<lambda>i. xs ! i) {i. i < length xs \<and> P (xs ! i)}" shows "distinct (filter P xs)"
proof -
  have "filter P xs = filter P (map (\<lambda>i. xs ! i) [0..<length xs])" by (simp add: map_nth)
  also have "\<dots> = map (\<lambda>i. xs ! i) (filter (\<lambda>i. P (xs ! i)) [0..<length xs])" by (simp add: filter_map comp_def)
  finally show ?thesis using assms by (simp add: distinct_map inj_on_def)
qed

lemma save_pool_spec:
  assumes ok: "reg_ok tr r" and inj: "inj (type_hash tr)"
  shows "\<exists>es. length es < 2 ^ 20 \<and>
    save_pool tr ty r = Ret (Count (of_nat (length es)) # concat (map (\<lambda>e. case held r (type_hash tr ty) e of
      Some x \<Rightarrow> [Ident e, Payload x] | None \<Rightarrow> [Ident null_entity]) es)) \<and>
    dom (held r (type_hash tr ty)) \<subseteq> set es \<and>
    distinct (filter (\<lambda>e. held r (type_hash tr ty) e \<noteq> None) es)"
proof (cases "map_of (pools r) (type_hash tr ty)")
  case None
  then show ?thesis by (intro exI [of _ "[]"]) (simp add: save_pool_def assure_const_def held_def)
next
  case (Some p)
  let ?st = "pool_storage p" let ?es = "elements (base ?st)"
  note p = reg_okD(3) [OF ok Some]
  have ty: "pool_type p = ty" using p inj by (simp add: inj_eq)
  have st: "st_ok ?st" using p by simp
  note D = st_okD [OF st]
  have held: "held r (type_hash tr ty) = comps ?st" using Some by (simp add: held_def)
  have len: "length ?es < 2 ^ 20" using placedD(2) [OF base_ok_placed [OF D(1)]] .
  have all: "list_all (\<lambda>i. i < length ?es) [0..<length ?es]" by (simp add: list_all_iff)
  have "map (\<lambda>i. written ?st (?es ! i)) [0..<length ?es] = map (written ?st) ?es" by (rule nth_equalityI) simp_all
  then have "save_pool tr ty r = Ret (Count (of_nat (length ?es)) # concat (map (written ?st) ?es))"
    using save_stable_spec [OF st _ all] save_reach_spec [OF st _ all] Some ty by (simp add: save_pool_def assure_const_def Let_def)
  moreover have "dom (comps ?st) \<subseteq> set ?es" unfolding dom_comps [OF st] by (auto simp: members_def positions_def)
  moreover have "distinct (filter (\<lambda>e. comps ?st e \<noteq> None) ?es)"
  proof (rule distinct_filter_nth)
    have "{i. i < length ?es \<and> comps ?st (?es ! i) \<noteq> None} \<subseteq> positions (base ?st)"
    proof
      fix i assume i: "i \<in> {i. i < length ?es \<and> comps ?st (?es ! i) \<noteq> None}"
      then have "?es ! i \<in> dom (comps ?st)" by auto
      then obtain j where "j \<in> positions (base ?st)" "?es ! i = ?es ! j" unfolding dom_comps [OF st] by (auto simp: members_def)
      then show "i \<in> positions (base ?st)" using i by (simp add: positions_def)
    qed
    moreover have "inj_on (\<lambda>i. ?es ! i) (positions (base ?st))"
      by (rule inj_onI) (use base_same_entity [OF D(1)] in metis)
    ultimately show "inj_on (\<lambda>i. ?es ! i) {i. i < length ?es \<and> comps ?st (?es ! i) \<noteq> None}" by (rule inj_on_subset [rotated])
  qed
  ultimately show ?thesis unfolding held using len by (intro exI [of _ ?es]) (simp add: written_def [abs_def])
qed

section \<open>Loading components\<close>

abbreviation item_of :: "(entity \<Rightarrow> 'a option) \<Rightarrow> entity \<Rightarrow> 'a item list" where
  "item_of m e \<equiv> (case m e of Some x \<Rightarrow> [Ident e, Payload x] | None \<Rightarrow> [Ident null_entity])"

lemma is_null_null: "is_null null_entity"
  by (simp add: is_null_def)

lemma contains_in_use:
  assumes "es_ok s" "e \<in> in_use s" shows "contains s e = Ret True"
proof -
  have "full s" using assms(1) by (simp add: es_ok_def swapping_def)
  moreover have "e \<in> set (elements s)" using assms(2) unfolding in_use_or_spare by blast
  ultimately show ?thesis using contains_spec [of "{..<length (elements s)}" s e] by simp
qed

lemma load_comps_spec:
  assumes inj: "inj (type_hash tr)"
  shows "reg_ok tr r \<Longrightarrow> linked r \<Longrightarrow> dom m \<subseteq> in_use (entities r) \<Longrightarrow> distinct (filter (\<lambda>e. m e \<noteq> None) es) \<Longrightarrow>
    (\<And>e. e \<in> set es \<Longrightarrow> m e \<noteq> None \<Longrightarrow> held r (type_hash tr ty) e = None) \<Longrightarrow>
    \<exists>r'. (\<forall>rest. load_comps tr ty (length es) (concat (map (item_of m) es) @ rest) r = Ret (rest, r')) \<and> reg_ok tr r' \<and> linked r' \<and>
      entities r' = entities r \<and>
      (\<forall>h e. held r' h e = (if h = type_hash tr ty \<and> e \<in> set es \<and> m e \<noteq> None then m e else held r h e))"
proof (induction es arbitrary: r)
  case Nil
  then show ?case by simp
next
  case (Cons d es)
  show ?case
  proof (cases "m d")
    case None
    have "distinct (filter (\<lambda>e. m e \<noteq> None) es)" using Cons.prems(4) None by simp
    from Cons.IH [OF Cons.prems(1-3) this] Cons.prems(5) obtain r' where
      r': "\<forall>rest. load_comps tr ty (length es) (concat (map (item_of m) es) @ rest) r = Ret (rest, r')" "reg_ok tr r'" "linked r'" "entities r' = entities r"
        "\<forall>h e. held r' h e = (if h = type_hash tr ty \<and> e \<in> set es \<and> m e \<noteq> None then m e else held r h e)" by auto
    have "\<forall>h e. held r' h e = (if h = type_hash tr ty \<and> e \<in> set (d # es) \<and> m e \<noteq> None then m e else held r h e)"
      using r'(5) None by auto
    then show ?thesis using r'(1-4) None by (intro exI [of _ r']) (simp add: is_null_null)
  next
    case (Some x)
    have d: "d \<in> in_use (entities r)" using Cons.prems(3) Some by blast
    note es = reg_okD(1) [OF Cons.prems(1)]
    have nn: "\<not> is_null d" by (rule es_ok_elements(1) [OF es]) (use d in \<open>simp add: in_use_or_spare\<close>)
    have none: "held r (type_hash tr ty) d = None" using Cons.prems(5) [of d] Some by simp
    obtain r1 where r1: "reg_emplace tr ty d (Some x) r = Ret (True, r1)" "reg_ok tr r1" "entities r1 = entities r"
      "\<forall>h. held r1 h = (if h = type_hash tr ty then (held r h)(d \<mapsto> x) else held r h)"
      using reg_emplace_spec [OF Cons.prems(1,2) inj d, of ty x] none by auto
    have l1: "linked r1" using Cons.prems(2) d r1(3,4) by (auto simp: linked_def)
    have dist: "distinct (filter (\<lambda>e. m e \<noteq> None) es)" "d \<notin> set es" using Cons.prems(4) Some by auto
    have none1: "held r1 (type_hash tr ty) e = None" if "e \<in> set es" "m e \<noteq> None" for e
      using Cons.prems(5) [of e] that dist(2) r1(4) by auto
    have dom1: "dom m \<subseteq> in_use (entities r1)" using Cons.prems(3) r1(3) by simp
    obtain r' where r': "\<forall>rest. load_comps tr ty (length es) (concat (map (item_of m) es) @ rest) r1 = Ret (rest, r')" "reg_ok tr r'" "linked r'"
      "entities r' = entities r1" "\<forall>h e. held r' h e = (if h = type_hash tr ty \<and> e \<in> set es \<and> m e \<noteq> None then m e else held r1 h e)"
      using Cons.IH [OF r1(2) l1 dom1 dist(1) none1] by blast
    have "\<forall>rest. load_comps tr ty (length (d # es)) (concat (map (item_of m) (d # es)) @ rest) r = Ret (rest, r')"
      using Some nn contains_in_use [OF es d] r1(1) r'(1) by simp
    moreover have "\<forall>h e. held r' h e = (if h = type_hash tr ty \<and> e \<in> set (d # es) \<and> m e \<noteq> None then m e else held r h e)"
      using r'(5) r1(4) Some by auto
    ultimately show ?thesis using r'(2-4) r1(3) by (intro exI [of _ r']) simp
  qed
qed

lemma assure_pool:
  assumes "reg_ok tr r" "inj (type_hash tr)"
  shows "\<exists>st r'. assure tr ty (type_hash tr ty) r = Ret (st, r') \<and> reg_ok tr r' \<and> entities r' = entities r \<and> held r' = held r"
proof -
  obtain st where st: "pool_of tr ty r = Some st" using pool_of_inj [OF assms] by blast
  note p = pool_of_ok [OF assms(1) st]
  show ?thesis
  proof (cases "map_of (pools r) (type_hash tr ty)")
    case None
    then have "assure tr ty (type_hash tr ty) r = Ret (st, set_pool tr ty st r)" using st
      by (simp add: assure_def pool_of_def set_pool_def Let_def)
    moreover have "held (set_pool tr ty st r) = held r" using set_pool_ok(3) [OF assms(1) st p(1)] p(2) by (auto simp: fun_eq_iff)
    ultimately show ?thesis using set_pool_ok(1,2) [OF assms(1) st p(1)] by blast
  next
    case (Some q)
    then show ?thesis using st assms(1) by (auto simp: assure_def pool_of_def split: if_splits)
  qed
qed

lemma load_pool_spec:
  assumes src: "reg_ok tr r" "linked r" and inj: "inj (type_hash tr)"
    and dst: "reg_ok tr r0" "linked r0" "in_use (entities r0) = in_use (entities r)" "held r0 (type_hash tr ty) = Map.empty"
  shows "\<exists>its r'. save_pool tr ty r = Ret its \<and> (\<forall>rest. load_pool tr ty (its @ rest) r0 = Ret (rest, r')) \<and> reg_ok tr r' \<and> linked r' \<and>
    entities r' = entities r0 \<and> held r' = (held r0)(type_hash tr ty := held r (type_hash tr ty))"
proof -
  let ?m = "held r (type_hash tr ty)"
  obtain es where es: "length es < 2 ^ 20" "save_pool tr ty r = Ret (Count (of_nat (length es)) # concat (map (item_of ?m) es))"
    "dom ?m \<subseteq> set es" "distinct (filter (\<lambda>e. ?m e \<noteq> None) es)" using save_pool_spec [OF src(1) inj, of ty] by blast
  obtain st r1 where r1: "assure tr ty (type_hash tr ty) r0 = Ret (st, r1)" "reg_ok tr r1" "entities r1 = entities r0" "held r1 = held r0"
    using assure_pool [OF dst(1) inj] by blast
  have l1: "linked r1" using dst(2) r1(3,4) by (simp add: linked_def)
  have dom: "dom ?m \<subseteq> in_use (entities r1)" using src(2) r1(3) dst(3) by (simp add: linked_def)
  have none: "held r1 (type_hash tr ty) e = None" for e using r1(4) dst(4) by simp
  obtain r' where r': "\<forall>rest. load_comps tr ty (length es) (concat (map (item_of ?m) es) @ rest) r1 = Ret (rest, r')" "reg_ok tr r'" "linked r'"
    "entities r' = entities r1" "\<forall>h e. held r' h e = (if h = type_hash tr ty \<and> e \<in> set es \<and> ?m e \<noteq> None then ?m e else held r1 h e)"
    using load_comps_spec [OF inj r1(2) l1 dom es(4) none] by blast
  have "?m e = None" if "e \<notin> set es" for e using es(3) that by blast
  then have "held r' = (held r0)(type_hash tr ty := ?m)" using r'(5) r1(4) dst(4) by (intro ext) (auto split: if_splits)
  moreover have "unat (of_nat (length es) :: 32 word) = length es" using es(1) by (simp add: unat_of_nat take_bit_nat_eq_self)
  ultimately show ?thesis using es(2) r1(1,3) r'(1-4) by (simp add: load_pool_def)
qed

lemma load_pools_spec:
  assumes src: "reg_ok tr r" "linked r" and inj: "inj (type_hash tr)"
  shows "reg_ok tr r0 \<Longrightarrow> linked r0 \<Longrightarrow> in_use (entities r0) = in_use (entities r) \<Longrightarrow> distinct tys \<Longrightarrow>
    (\<And>ty. ty \<in> set tys \<Longrightarrow> held r0 (type_hash tr ty) = Map.empty) \<Longrightarrow>
    \<exists>its r'. save_pools tr tys r = Ret its \<and> (\<forall>rest. load_pools tr tys (its @ rest) r0 = Ret (rest, r')) \<and> reg_ok tr r' \<and> linked r' \<and>
      entities r' = entities r0 \<and> (\<forall>ty. held r' (type_hash tr ty) = (if ty \<in> set tys then held r (type_hash tr ty) else held r0 (type_hash tr ty)))"
proof (induction tys arbitrary: r0)
  case Nil
  then show ?case by simp
next
  case (Cons ty tys)
  obtain its r1 where 1: "save_pool tr ty r = Ret its" "\<forall>rest. load_pool tr ty (its @ rest) r0 = Ret (rest, r1)" "reg_ok tr r1" "linked r1"
    "entities r1 = entities r0" "held r1 = (held r0)(type_hash tr ty := held r (type_hash tr ty))"
    using load_pool_spec [OF src inj Cons.prems(1-3), of ty] Cons.prems(5) by auto
  have "held r1 (type_hash tr ty') = Map.empty" if "ty' \<in> set tys" for ty'
    using Cons.prems(4,5) that inj by (auto simp: 1(6) inj_eq)
  from Cons.IH [OF 1(3,4) _ _ this] Cons.prems(3,4) 1(5) obtain its' r' where
    2: "save_pools tr tys r = Ret its'" "\<forall>rest. load_pools tr tys (its' @ rest) r1 = Ret (rest, r')" "reg_ok tr r'" "linked r'" "entities r' = entities r1"
      "\<forall>ty. held r' (type_hash tr ty) = (if ty \<in> set tys then held r (type_hash tr ty) else held r1 (type_hash tr ty))" by auto
  have "save_pools tr (ty # tys) r = Ret (its @ its')" using 1(1) 2(1) by simp
  moreover have "\<forall>rest. load_pools tr (ty # tys) ((its @ its') @ rest) r0 = Ret (rest, r')" using 1(2) 2(2) by simp
  ultimately show ?case using 2(3-6) 1(5,6) inj by (auto simp: inj_eq)
qed

section \<open>Orphans\<close>

text \<open>The identifiers with components.\<close>

definition owners :: "('t, 'a) registry \<Rightarrow> entity set" where
  "owners r = {e. \<exists>h. held r h e \<noteq> None}"

lemma orphan_in_spec:
  "list_all (\<lambda>q. st_ok (pool_storage (snd q))) ps \<Longrightarrow>
    orphan_in e ps = Ret (list_all (\<lambda>q. comps (pool_storage (snd q)) e = None) ps)"
  by (induction ps) (simp_all add: st_contains_spec)

lemma orphan_spec:
  assumes "reg_ok tr r" shows "orphan e r = Ret (e \<notin> owners r)"
proof -
  have dist: "distinct (map fst (pools r))" and st: "list_all (\<lambda>q. st_ok (pool_storage (snd q))) (pools r)"
    using assms by (auto simp: reg_ok_def list_all_iff)
  have "list_all (\<lambda>q. comps (pool_storage (snd q)) e = None) (pools r) \<longleftrightarrow> e \<notin> owners r"
    using map_of_eq_Some_iff [OF dist] by (fastforce simp: list_all_iff owners_def held_def split: option.splits)
  then show ?thesis using orphan_in_spec [OF st] by (simp add: orphan_def)
qed

text \<open>One step: what is left to visit still covers the identifiers in use that own nothing.\<close>

lemma orphans_step:
  assumes ok: "es_ok s" and n: "n < length (elements s)" and K: "K \<subseteq> in_use s" "elements s ! n \<notin> K"
    and left: "in_use s \<subseteq> K \<union> set (take (min (Suc n) (free_list s)) (elements s))"
  shows "\<exists>s'. erase (elements s ! n) s = Ret s' \<and> es_ok s' \<and> length (elements s') = length (elements s) \<and> K \<subseteq> in_use s' \<and>
    in_use s' \<subseteq> K \<union> set (take (min n (free_list s')) (elements s'))"
proof -
  let ?e = "elements s ! n"
  have sw: "swapping s" using ok by (simp add: es_ok_def)
  obtain s' where s': "erase ?e s = Ret s'" "swapping s'" "in_use s' = in_use s - {?e}"
    "set (elements s') = insert (next_version ?e) (set (elements s) - {?e})" "length (elements s') = length (elements s)"
    "take (min n (free_list s)) (elements s') = take (min n (free_list s)) (elements s)"
    using erase_swapping [OF sw nth_mem [OF n]] n by blast
  have ok': "es_ok s'" by (rule es_ok_replace [OF ok s'(2,4,5) nth_mem [OF n]]) simp
  have le: "free_list s' \<le> free_list s" unfolding free_list_card [OF sw] free_list_card [OF s'(2)] s'(3)
    by (rule card_mono) (auto simp: in_use_def)
  have "in_use s' \<subseteq> K \<union> set (take (min n (free_list s')) (elements s'))"
  proof (cases "n < free_list s'")
    case True
    then have "in_use s \<subseteq> K \<union> insert ?e (set (take n (elements s)))" using left le n by (simp add: take_Suc_conv_app_nth)
    then show ?thesis using s'(3,6) True le by auto
  next
    case False
    then show ?thesis by (simp add: in_use_def min_def)
  qed
  moreover have "K \<subseteq> in_use s'" using K s'(3) by auto
  ultimately show ?thesis using s'(1,5) ok' by blast
qed

lemma orphans_loop_spec:
  "reg_ok tr r \<Longrightarrow> n \<le> length (elements (entities r)) \<Longrightarrow> owners r \<subseteq> in_use (entities r) \<Longrightarrow>
    in_use (entities r) \<subseteq> owners r \<union> set (take (min n (free_list (entities r))) (elements (entities r))) \<Longrightarrow>
    \<exists>s'. orphans_loop n r = Ret (r\<lparr>entities := s'\<rparr>) \<and> es_ok s' \<and> in_use s' = owners r"
proof (induction n arbitrary: r)
  case 0
  then show ?case using reg_okD(1) [OF 0(1)] by (intro exI [of _ "entities r"]) auto
next
  case (Suc n)
  let ?s = "entities r" let ?e = "elements ?s ! n"
  have n: "n < length (elements ?s)" using Suc.prems(2) by simp
  then have rd: "deref (Suc n) ?s = Ret ?e" by (simp add: deref_def read_at_def)
  note orph = orphan_spec [OF Suc.prems(1), of ?e]
  show ?case
  proof (cases "?e \<in> owners r")
    case True
    have "set (take (min (Suc n) (free_list ?s)) (elements ?s)) \<subseteq> insert ?e (set (take (min n (free_list ?s)) (elements ?s)))"
      using n by (cases "n < free_list ?s") (auto simp: take_Suc_conv_app_nth min_def)
    then have "in_use ?s \<subseteq> owners r \<union> set (take (min n (free_list ?s)) (elements ?s))" using Suc.prems(4) True by blast
    from Suc.IH [OF Suc.prems(1) _ Suc.prems(3) this] n True rd orph show ?thesis by simp
  next
    case False
    from orphans_step [OF reg_okD(1) [OF Suc.prems(1)] n Suc.prems(3) False Suc.prems(4)] obtain s1 where
      s1: "erase ?e ?s = Ret s1" "es_ok s1" "length (elements s1) = length (elements ?s)" "owners r \<subseteq> in_use s1"
        "in_use s1 \<subseteq> owners r \<union> set (take (min n (free_list s1)) (elements s1))" by blast
    have own: "owners (r\<lparr>entities := s1\<rparr>) = owners r" by (simp add: owners_def reg_ok_entities(2))
    from Suc.IH [of "r\<lparr>entities := s1\<rparr>"] reg_ok_entities(1) [OF Suc.prems(1) s1(2)] s1(3-5) n own
    obtain s' where "orphans_loop n (r\<lparr>entities := s1\<rparr>) = Ret (r\<lparr>entities := s'\<rparr>)" "es_ok s'" "in_use s' = owners r" by auto
    then show ?thesis using rd orph False s1(1) by (intro exI [of _ s']) simp
  qed
qed

lemma orphans_spec:
  assumes ok: "reg_ok tr r" "linked r"
  shows "\<exists>r'. orphans r = Ret r' \<and> reg_ok tr r' \<and> held r' = held r \<and> in_use (entities r') = owners r"
proof -
  let ?s = "entities r"
  have own: "owners r \<subseteq> in_use ?s" using ok(2) by (auto simp: owners_def linked_def)
  have "free_list ?s \<le> length (elements ?s)" using reg_okD(1) [OF ok(1)] by (simp add: es_ok_def swapping_def)
  then have "in_use ?s \<subseteq> owners r \<union> set (take (min (length (elements ?s)) (free_list ?s)) (elements ?s))"
    by (simp add: in_use_def min_absorb2)
  from orphans_loop_spec [OF ok(1) order_refl own this] obtain s' where
    s': "orphans r = Ret (r\<lparr>entities := s'\<rparr>)" "es_ok s'" "in_use s' = owners r" by (auto simp: orphans_def)
  then show ?thesis using reg_ok_entities(1) [OF ok(1) s'(2)] by (intro exI [of _ "r\<lparr>entities := s'\<rparr>"]) (simp add: reg_ok_entities(2))
qed

lemma owners_types:
  assumes "reg_ok tr r" shows "e \<in> owners r \<longleftrightarrow> (\<exists>ty. held r (type_hash tr ty) e \<noteq> None)"
proof
  assume "e \<in> owners r"
  then obtain h p where hp: "map_of (pools r) h = Some p" "comps (pool_storage p) e \<noteq> None"
    by (auto simp: owners_def held_def split: option.splits)
  then have "h = type_hash tr (pool_type p)" using reg_okD(3) [OF assms hp(1)] by simp
  then show "\<exists>ty. held r (type_hash tr ty) e \<noteq> None" using hp by (intro exI [of _ "pool_type p"]) (simp add: held_def)
qed (auto simp: owners_def)

section \<open>A whole registry\<close>

lemma saved_and_loaded:
  fixes r :: "('t, 'a) registry"
  assumes ok: "reg_ok tr r" "linked r" and inj: "inj (type_hash tr)" and tys: "distinct tys"
  shows "\<exists>its r'. save_all tr tys r = Ret its \<and> load_all tr tys its reg_new = Ret ([], r') \<and> reg_ok tr r' \<and> linked r' \<and>
    elements (entities r') = elements (entities r) \<and> head (entities r') = head (entities r) \<and>
    (\<forall>ty. held r' (type_hash tr ty) = (if ty \<in> set tys then held r (type_hash tr ty) else Map.empty))"
proof -
  let ?new = "reg_new :: ('t, 'a) registry"
  have new: "es_ok (entities ?new)" "elements (entities ?new) = []" "held ?new h = Map.empty" "free_list (entities ?new) = 0" for h
    by (simp_all add: reg_new_def es_new_ok) (simp_all add: es_new_def ss_new_def held_def free_list_def policy_to_head_def)
  note T = load_entities_spec [OF reg_okD(1) [OF ok(1)] new(1,2)]
  obtain s where s: "es_ok s" "elements s = elements (entities r)" "head s = head (entities r)"
    "\<forall>rest. load_entities (save_entities r @ rest) ?new = Ret (rest, ?new\<lparr>entities := s\<rparr>)" using T by blast
  let ?r0 = "?new\<lparr>entities := s\<rparr>"
  have r0: "reg_ok tr ?r0" "linked ?r0" "in_use (entities ?r0) = in_use (entities r)" "held ?r0 h = Map.empty" for h
    using reg_ok_entities(1) [OF conjunct1 [OF reg_new_inv [of tr]] s(1)] s(2,3) new(3)
    by (simp_all add: linked_def reg_ok_entities(2) in_use_def free_list_def)
  obtain its r' where its: "save_pools tr tys r = Ret its" "\<forall>rest. load_pools tr tys (its @ rest) ?r0 = Ret (rest, r')" "reg_ok tr r'" "linked r'"
    "entities r' = entities ?r0" "\<forall>ty. held r' (type_hash tr ty) = (if ty \<in> set tys then held r (type_hash tr ty) else held ?r0 (type_hash tr ty))"
    using load_pools_spec [OF ok inj r0(1-3) tys] r0(4) by blast
  have "save_all tr tys r = Ret (save_entities r @ its)" using its(1) by (simp add: save_all_def)
  moreover have "load_all tr tys (save_entities r @ its) ?new = Ret ([], r')"
    using s(4) its(2) [THEN spec, of "[]"] new(4) by (simp add: load_all_def loader_new_def)
  ultimately show ?thesis using its(3-6) s(2,3) r0(4) by simp
qed

text \<open>
  C16. A registry that is saved - its identifiers and the components of any types - and loaded into a
  new one comes back: the loader reads exactly what was written, the array of identifiers is the same,
  spare ones and their versions included, so that it goes on giving out the same identifiers, and
  every identifier has the components of these types that it had. When the loader is then asked to
  remove orphans, exactly those that have one of these components stay valid, and keep them all.
\<close>

theorem snapshot_is_restored:
  assumes "reaches tr r" "inj (type_hash tr)" "distinct tys"
  shows "\<exists>its r'. save_all tr tys r = Ret its \<and> load_all tr tys its reg_new = Ret ([], r') \<and>
    elements (entities r') = elements (entities r) \<and> free_list (entities r') = free_list (entities r) \<and>
    (\<forall>e. valid e r' = valid e r) \<and>
    (\<forall>ty e. try_get tr ty e r' = (if ty \<in> set tys then try_get tr ty e r else Ret None)) \<and>
    (\<exists>r''. orphans r' = Ret r'' \<and> (\<forall>ty e. try_get tr ty e r'' = try_get tr ty e r') \<and>
       (\<forall>e. valid e r'' = Ret (\<exists>ty. ty \<in> set tys \<and> try_get tr ty e r \<noteq> Ret None)))"
proof -
  note ok = reaches_okD [OF assms(1)]
  obtain its r' where r': "save_all tr tys r = Ret its" "load_all tr tys its reg_new = Ret ([], r')" "reg_ok tr r'"
    "elements (entities r') = elements (entities r)" "head (entities r') = head (entities r)"
    "\<forall>ty. held r' (type_hash tr ty) = (if ty \<in> set tys then held r (type_hash tr ty) else Map.empty)"
    and l: "linked r'" using saved_and_loaded [OF ok assms(2,3)] by blast
  have "in_use (entities r') = in_use (entities r)" using r'(4,5) by (simp add: in_use_def free_list_def)
  then have "\<forall>e. valid e r' = valid e r" by (simp add: valid_spec [OF r'(3)] valid_spec [OF ok(1)])
  moreover have "\<forall>ty e. try_get tr ty e r' = (if ty \<in> set tys then try_get tr ty e r else Ret None)"
    using r'(6) by (simp add: try_get_spec [OF r'(3) assms(2)] try_get_spec [OF ok(1) assms(2)])
  moreover have "\<exists>r''. orphans r' = Ret r'' \<and> (\<forall>ty e. try_get tr ty e r'' = try_get tr ty e r') \<and>
    (\<forall>e. valid e r'' = Ret (\<exists>ty. ty \<in> set tys \<and> try_get tr ty e r \<noteq> Ret None))"
  proof -
    obtain r'' where r'': "orphans r' = Ret r''" "reg_ok tr r''" "held r'' = held r'" "in_use (entities r'') = owners r'"
      using orphans_spec [OF r'(3) l] by blast
    have "e \<in> owners r' \<longleftrightarrow> (\<exists>ty. ty \<in> set tys \<and> try_get tr ty e r \<noteq> Ret None)" for e
      using r'(6) by (auto simp: owners_types [OF r'(3)] try_get_spec [OF ok(1) assms(2)])
    then show ?thesis using r'' by (intro exI [of _ r''])
      (simp add: valid_spec [OF r''(2)] try_get_spec [OF r''(2) assms(2)] try_get_spec [OF r'(3) assms(2)])
  qed
  ultimately show ?thesis using r'(1,2,4,5) by (simp add: free_list_def)
qed

theorem snapshot_is_restored_witness:
  "\<exists>r r' its r'' r3. create reg_new = Ret (first_version 0, r) \<and>
     reg_emplace two_types True (first_version 0) (Some ''pos'') r = Ret (True, r') \<and> save_all two_types [True, False] r' = Ret its \<and>
     load_all two_types [True, False] its reg_new = Ret ([], r'') \<and> try_get two_types True (first_version 0) r'' = Ret (Some ''pos'') \<and>
     orphans r'' = Ret r3 \<and> valid (first_version 0) r3 = Ret True \<and> valid (first_version 1) r3 = Ret False"
proof (rule reaches_component [of "''pos''"])
  fix r r' :: "(bool, string) registry"
  assume r: "create reg_new = Ret (first_version 0, r)" "reg_emplace two_types True (first_version 0) (Some ''pos'') r = Ret (True, r')"
    "reaches two_types r'" "held r' 1 (first_version 0) = Some ''pos''" "in_use (entities r') = {first_version 0}"
  have t: "try_get two_types True (first_version 0) r' = Ret (Some ''pos'')"
    using r(4) by (simp add: try_get_spec [OF reaches_okD(1) [OF r(3)] two_types_inj])
  have "first_version 1 \<notin> in_use (entities r')" using r(5)
    by (simp add: first_version_def combine_def to_entity_def entity_mask_def version_mask_def)
  then have "held r' h (first_version 1) = None" for h using linkedD [OF reaches_okD(2) [OF r(3)]] by fastforce
  then have none: "try_get two_types ty (first_version 1) r' = Ret None" for ty
    by (simp add: try_get_spec [OF reaches_okD(1) [OF r(3)] two_types_inj])
  have ty: "ty \<in> set [True, False]" for ty by simp
  from snapshot_is_restored [OF r(3) two_types_inj, of "[True, False]"] obtain its r'' r3 where
    "save_all two_types [True, False] r' = Ret its" "load_all two_types [True, False] its reg_new = Ret ([], r'')"
    "\<forall>ty e. try_get two_types ty e r'' = try_get two_types ty e r'" "orphans r'' = Ret r3"
    "\<forall>e. valid e r3 = Ret (\<exists>ty. try_get two_types ty e r' \<noteq> Ret None)" by (auto simp: ty)
  moreover from t have "\<exists>ty. try_get two_types ty (first_version 0) r' \<noteq> Ret None" by (intro exI [of _ True]) simp
  ultimately show ?thesis using t none r(1,2) by auto
qed

end
