(* ===== verification/Spec2Isabelle.thy ===== *)
theory Spec2Isabelle
  imports LruCache ThreadPool NetHelpers ProcManager Apps Algorithm FlowCorrect SchedulerCorrect ViewCorrect DispatcherCorrect GroupRuns SnapshotCorrect
begin

text \<open>
  Verification of 5thD: a peer-to-peer messenger whose programs talk over an inter-process bus.
  Paths are relative to the repository's sources.

  The program. Each program (\<open>5thD_Peer\<close>, \<open>5thD_Software_Bus\<close>) starts as a module
  (\<open>core/module.cpp\<close>): it loads or generates its CURVE keys through an encrypted key database
  (\<open>core/keys_db.cpp\<close> over \<open>core/5thdsql.cpp\<close>) into locked memory (\<open>core/5thdallocator.cpp\<close>). The
  router binds a socket (\<open>core/izmq.cpp\<close>, \<open>core/receiver.cpp\<close>) and forwards messages
  (\<open>core/5thdipcmsg.c\<close>) between the clients that have sent to it (\<open>5thD_Software_Bus/core\<close>); the
  peer sends through a transmitter (\<open>core/transmitter.cpp\<close>). Both take message slots from a pool
  (\<open>core/common/5thdbuffer.h\<close>). Beside these stand a cache, a thread pool, network helpers,
  process managers, and the vendored library \<open>core/common/entt.hpp\<close>.

  The theories, each named with what it models.

  Prelude: the type \<open>outcome\<close> of a C++ call (a value, an exception, an abort, undefined
  behaviour, no end), \<open>size_t\<close> as naturals below \<open>2 ^ 64\<close>, bytes, C strings, numbers as text, and
  lemmas on lists. ErrorTypes: the error codes, results and recovery plans.

  ManagedBuffer: the slot pool with its free list and canaries, on addresses. The invariant
  \<open>pool_ok\<close> is kept by every operation; the locales \<open>slot_pool\<close> and \<open>lifo_pool\<close> state what
  clients rely on and are interpreted on the pool.

  LruCache: the list and index of the cache, refined to a list ordered by last use.
  ThreadPool: the pool as a step relation of the program counters of clients and workers under
  every interleaving; invariants by rule induction, termination by a measure.

  IpcMessage: the packed message and its bytes. Zmq: libzmq as a parameter with its documented
  laws, and the wrappers. Polling: the locale of a polling worker, interpreted by Receiver and
  Transmitter, which hold the two ends of a connection. SoftwareBus: the router's table of
  clients, its handler on every error path, its first forward through a slot and the undefined one
  that follows, and its loop.

  Sql, KeysDb, KeyStore, DbLifecycle: SQLite as a parameter; statements, queries and
  transactions; the key operations, the table they see and the laws that connect them; the
  refinement to a map of keys; opening, closing and construction.

  Module: secure memory, the keys of a module, initialisation and release. Apps: the two \<open>main\<close>
  functions, composed of the above as the sources compose them, with a theorem that follows a
  message from the peer's send to the router's table.

  NetHelpers: the digest in hexadecimal, the external address, the search for a port, the
  local address and its interface, the gateway's port mapping, over records of the calls of
  OpenSSL, libcurl, the system and miniupnpc. ProcManager: the process tables of Unix and
  Windows behind one locale.

  EnttCore, LoadFactor, DenseMap, DenseMapCorrect, DenseSet: power of two arithmetic, the \<open>float\<close>
  arithmetic of load factors in single precision, and the hash containers of entt: buckets as
  chains of positions in a packed array. The locale \<open>packed_container\<close>, and \<open>growing_container\<close>, by
  which every operation returns, are interpreted on the map and on the set. Entity, SparseSet,
  SparseSetCorrect, SparseSetPolicies: identifiers with versions, and the sparse set of them
  under its deletion policies; the locale \<open>identifier_set\<close> is interpreted for the two that
  remove identifiers, and EntityStorage, EntityStorageCorrect treat the third, which only swaps,
  with the storage of entities built on it: identifiers are never given out twice.

  Storage, StorageCorrect: the storage of components, a sparse set with paged objects, refined
  to a map from identifiers to objects (locale \<open>component_map\<close>). Registry, RegistryCorrect: the
  storage of entities and a pool for each type, and the invariant that ties them: only valid
  identifiers have components. View, ViewCorrect: views over storages, packed, at run time and
  from a registry: what they show is an intersection less what is excluded.

  Algorithm: insertion and radix sort, against the library's stable sort. Adjacency, Flow,
  FlowCorrect: the matrix of a directed graph and the builder of task graphs, whose result
  orders exactly the tasks that conflict. Scheduler, SchedulerCorrect: processes with their
  states, and a scheduler that runs each once in an update.

  Signal, SignalCorrect: delegates, signals, sinks and connections; the locale
  \<open>polite_listeners\<close> says when a publication calls every listener once. Dispatcher,
  DispatcherCorrect: the queues of events, with listeners that use the dispatcher that calls
  them, and the references they hold into its memory: when an update delivers everything, and when
  a listener that queues an event or clears the queue makes it undefined.

  StorageSort: sorting a storage moves the objects along the cycles of the permutation, and
  swapping two elements keeps the map. Mixin: storages that tell listeners of components made,
  changed and destroyed, over a state of all storages. Group: handlers of groups, which are such
  listeners, groups and the part of the registry that makes them. GroupHandlers: what one
  notification does to one group. GroupCorrect: what a change of a storage does to all groups, by
  \<open>polite_listeners\<close>. GroupRegistry: making a group. GroupRuns: any sequence of calls, against one
  map for each component type, and sorting a group.

  Snapshot, SnapshotCorrect: saving a registry and loading it into a new one, where an archive is
  the list of what is written, and removing orphans; the round trip is proved type by type, with
  an arbitrary rest of the archive behind what is read.

  How code becomes definitions. A class is a record and its methods are functions from the old
  state to an \<open>outcome\<close> of the answer and the new state. Vectors are lists indexed with explicit
  guards: an access outside is \<open>Undefined\<close>. A failing assertion or a call of \<open>std::abort\<close> is
  \<open>Aborts\<close>. Integers are words where they wrap, and naturals or integers with explicit bounds
  elsewhere. Loops are recursive functions; those that need not end (polling, walking a chain,
  reading frames) are partial functions whose value \<open>None\<close> is not returning, and theorems say
  that they return. No fuel is used. Third-party libraries are records of their calls over an
  abstract state, and what their manuals say is a named law that a theorem assumes and its
  witness discharges on a concrete instance.

  Bounds. The hash containers are correct up to the largest link value less one, and return from up
  to \<open>2 ^ 60\<close> operations, far below the \<open>2 ^ 63\<close> buckets at which sizing asserts, when the load
  factor's arithmetic keeps \<open>load_law\<close>, as the default factor's does; the sparse set
  and what is built on it up to \<open>2 ^ 20 - 1\<close> positions, what the entity part of an identifier can
  hold, and stale identifiers are told from new ones for 4094 further destructions, what the
  version part can count; an adjacency matrix of \<open>n\<close> vertices as long as its \<open>n * n\<close> entries fit
  a vector; the radix sort for keys of at most 64 bits; the pool for any layout with room between
  slots; the wire format for identities of at most seven bytes, which is what the preallocated
  frame takes.

  Not modelled. The logger and debugging macros; \<open>main.cpp\<close>, which is one comment;
  \<open>main_srv.cpp\<close>, an example outside the build; structures that no code uses; the Windows branch
  of \<open>get_iface_name\<close> and the \<open>stop_all\<close> of the Windows process manager, which do not compile;
  of entt, which is one header of about ninety thousand lines that repeats itself, everything but
  the parts above: allocators, type traits and meta types, continuous loaders, observers, resources,
  emitters and polymorphic values; and of the parts above moves between containers with
  different allocators, compacting a storage with its objects, views that include the
  storage of entities, and the context of a registry. Memory is not exhausted, and mutexes make
  the calls they protect single steps, except in ThreadPool, where the steps between them are
  explicit.
\<close>

end
